(* ===== verification/Prelude.thy ===== *)
theory Prelude
  imports "HOL-Library.Word"
begin

text \<open>
  Shared vocabulary of the development: the machine integer types of the kernel
  (\<open>uint8_t\<close> \dots \<open>uint64_t\<close> as \<open>word\<close>s), the alignment helpers that
  several source files repeat, the count-trailing-zeros builtin, and the generic lemmas
  on bits, digits and list segments that the component proofs use.

  Two collections of facts drive the proofs: \<open>bit_simps_k\<close> (how a bit test reads
  through the word operations the code uses) and \<open>unat_simps_k\<close> (how \<open>unat\<close>
  reads through arithmetic that does not wrap).
\<close>

unbundle bit_operations_syntax

named_theorems bit_simps_k
named_theorems unat_simps_k

type_synonym u8 = "8 word"
type_synonym u16 = "16 word"
type_synonym u32 = "32 word"
type_synonym u64 = "64 word"
type_synonym byte_list = "8 word list"

abbreviation ones64 :: u64 where
  "ones64 \<equiv> NOT 0"

subsection \<open>Natural numbers as bit strings\<close>

lemma and_nat_le2: "a AND b \<le> (b::nat)"
  by (simp add: and_nat_def) (metis AND_upper2 nat_int nat_mono of_nat_0_le_iff)

lemma and_nat_le1: "a AND b \<le> (a::nat)"
  by (metis and.commute and_nat_le2)

lemma and_3_eq_mod: "x AND 3 = x mod (4::nat)"
  using take_bit_eq_mask [of 2 x] by (simp add: take_bit_eq_mod mask_eq_exp_minus_1)

lemma and_15_eq_mod: "x AND 15 = x mod (16::nat)"
  using take_bit_eq_mask [of 4 x] by (simp add: take_bit_eq_mod mask_eq_exp_minus_1)

lemma bit_add_shifted:
  "a < 2 ^ k \<Longrightarrow> bit (a + 2 ^ k * y) n = (if n < k then bit a n else bit y (n - k))"
  for a y :: nat
proof (cases "n < k")
  case True
  then obtain d where k: "k = n + Suc d" by (metis less_imp_Suc_add add_Suc_right)
  have "(a + 2 ^ n * (2 * (2 ^ d * y))) div 2 ^ n = 2 * (2 ^ d * y) + a div 2 ^ n"
    by (rule div_mult_self2) simp
  then have "(a + 2 ^ k * y) div 2 ^ n = 2 * (2 ^ d * y) + a div 2 ^ n"
    by (simp add: k power_add mult.assoc mult.left_commute)
  with True show ?thesis by (simp add: bit_iff_odd)
next
  case False
  assume a: "a < 2 ^ k"
  from False have n: "(2::nat) ^ n = 2 ^ k * 2 ^ (n - k)"
    by (simp flip: power_add)
  have "(a + 2 ^ k * y) div 2 ^ n = ((a + 2 ^ k * y) div 2 ^ k) div 2 ^ (n - k)"
    by (simp only: n div_mult2_eq)
  also have "(a + 2 ^ k * y) div 2 ^ k = y"
    using a by simp
  finally show ?thesis using False by (simp add: bit_iff_odd)
qed

lemma and_add_shifted:
  "a < 2 ^ k \<Longrightarrow> b < 2 ^ k \<Longrightarrow>
     (a + 2 ^ k * y) AND (b + 2 ^ k * m) = (a AND b) + 2 ^ k * (y AND m)"
  for a b y m :: nat
  by (rule bit_eqI) (simp add: bit_add_shifted le_less_trans [OF and_nat_le1] bit_and_iff)

lemma digit_mod: "d < b \<Longrightarrow> (d + b * y) mod b = (d::nat)"
  and digit_div: "d < b \<Longrightarrow> (d + b * y) div b = (y::nat)"
  by simp_all

lemma digit_cases:
  fixes x b :: nat
  assumes "0 < b"
  obtains d y where "x = d + b * y" "d < b" "x mod b = d" "x div b = y"
proof
  show "x = x mod b + b * (x div b)" by simp
qed (use assms in simp_all)

subsection \<open>Bits of words\<close>

lemma unat64_lt: "unat (v :: u64) < 2 ^ 64"
  by (rule order_less_le_trans [OF unsigned_less]) simp

lemma unat_add64 [unat_simps_k]: "unat a + unat b < 2 ^ 64 \<Longrightarrow> unat (a + b) = unat a + unat b"
  for a b :: u64
  using unat_add_lem [of a b] by simp

lemma unat_sub64 [unat_simps_k]: "unat b \<le> unat a \<Longrightarrow> unat (a - b) = unat a - unat b"
  for a b :: u64
  by (simp add: unat_sub word_le_nat_alt)

lemma unat_drop_bit64 [unat_simps_k]: "unat (drop_bit k v) = unat v div 2 ^ k" for v :: u64
  using unat64_lt [of v] unfolding unsigned_drop_bit_eq
  by (simp add: drop_bit_eq_div take_bit_nat_eq_self)

lemma unat_ones64 [simp]: "unat ones64 = 0xFFFFFFFFFFFFFFFF" "unat (- 1 :: u64) = 0xFFFFFFFFFFFFFFFF"
  by (simp_all add: unsigned_minus_1_eq_mask mask_eq_exp_minus_1)

lemmas word_nat_order = word_le_nat_alt word_less_nat_alt

lemma bit_ones64 [bit_simps_k]: "bit ones64 n \<longleftrightarrow> n < 64"
  by (simp add: bit_simps)

lemma word64_full_iff: "(w :: u64) = ones64 \<longleftrightarrow> (\<forall>i<64. bit w i)"
  by (auto simp: bit_eq_iff bit_simps)

lemma bit_single [bit_simps_k]: "bit (push_bit k 1 :: u64) n \<longleftrightarrow> n = k \<and> k < 64"
  by (auto simp: bit_simps)

lemma bit_segment_mask:
  "k + n \<le> 64 \<Longrightarrow> bit (push_bit k (push_bit n 1 - 1) :: u64) i \<longleftrightarrow> k \<le> i \<and> i < k + n"
proof -
  have "(push_bit n 1 - 1 :: u64) = mask n"
    by (simp add: mask_eq_exp_minus_1 push_bit_eq_mult)
  then show "k + n \<le> 64 \<Longrightarrow> ?thesis"
    by (auto simp: bit_simps)
qed

subsection \<open>Count trailing zeros\<close>

text \<open>\<open>__builtin_ctzll\<close>; the builtin is undefined at 0, where this is 64.\<close>

definition ctz64 :: "u64 \<Rightarrow> nat" where
  "ctz64 x = length (takeWhile (\<lambda>i. \<not> bit x i) [0..<64])"

lemma ctz64_props:
  assumes "x \<noteq> 0"
  shows "ctz64 x < 64" "bit x (ctz64 x)" "i < ctz64 x \<Longrightarrow> \<not> bit x i"
proof -
  let ?P = "\<lambda>i. \<not> bit x i"
  obtain k where k: "bit x k" using assms by (metis bit_0_eq bit_eqI bot_apply bot_bool_def)
  then have "k < 64" using bit_imp_le_length [OF k] by simp
  then have "takeWhile ?P [0..<64] \<noteq> [0..<64]"
    using k by (metis atLeastLessThan_iff set_takeWhileD set_upt zero_le)
  then have lt: "length (takeWhile ?P [0..<64]) < length [0..<64]"
    by (metis length_takeWhile_le le_neq_implies_less takeWhile_eq_take take_all_iff order_refl)
  then show "ctz64 x < 64" by (simp add: ctz64_def)
  with nth_length_takeWhile [OF lt] show "bit x (ctz64 x)" by (simp add: ctz64_def)
  assume i: "i < ctz64 x"
  then have "takeWhile ?P [0..<64] ! i \<in> set (takeWhile ?P [0..<64])"
    by (simp add: ctz64_def)
  moreover have "takeWhile ?P [0..<64] ! i = i"
    using i \<open>ctz64 x < 64\<close> by (simp add: ctz64_def takeWhile_nth)
  ultimately show "\<not> bit x i" by (metis set_takeWhileD)
qed

subsection \<open>Alignment\<close>

text \<open>
  \<open>align_up\<close>/\<open>align_down\<close> as in \<open>mm/pmm.c\<close> and \<open>mm/heap.c\<close>: modular
  64-bit arithmetic, so \<open>align_up\<close> wraps to 0 above the last multiple.
\<close>

definition align_up :: "u64 \<Rightarrow> u64 \<Rightarrow> u64" where
  "align_up v a = (v + a - 1) AND NOT (a - 1)"

definition align_down :: "u64 \<Rightarrow> u64 \<Rightarrow> u64" where
  "align_down v a = v AND NOT (a - 1)"

lemma align_down_le: "align_down v a \<le> v"
  by (simp add: align_down_def word_and_le2)

lemma and_not_mask: "v AND NOT (mask k) = push_bit k (drop_bit k v)" for v :: u64
  by (rule bit_eqI) (auto simp: bit_simps)

lemma unat_push_drop: "unat (push_bit k (drop_bit k v)) = unat v div 2 ^ k * 2 ^ k" for v :: u64
proof -
  have "unat v div 2 ^ k * 2 ^ k < 2 ^ 64"
    by (rule le_less_trans [OF div_times_less_eq_dividend]) (use unsigned_less [of v] in simp)
  then show ?thesis
    unfolding unsigned_push_bit_eq unsigned_drop_bit_eq
    using unat64_lt [of v] by (simp add: push_bit_eq_mult drop_bit_eq_div take_bit_nat_eq_self)
qed

lemma unat_align_down: "unat (align_down v (2 ^ k)) = unat v div 2 ^ k * 2 ^ k"
  by (simp add: align_down_def mask_eq_exp_minus_1 [symmetric] and_not_mask unat_push_drop)

lemma unat_align_up:
  assumes "k < 64" "unat v + 2 ^ k \<le> 2 ^ 64"
  shows "unat (align_up v (2 ^ k)) = (unat v + 2 ^ k - 1) div 2 ^ k * 2 ^ k"
proof -
  have "unat (of_nat (2 ^ k) :: u64) = 2 ^ k"
    using assms(1) power_strict_increasing [of k 64 "2::nat"] by (simp only: unat_of_nat) simp
  then have "unat ((2::u64) ^ k) = 2 ^ k" by simp
  then have "unat (v + (2 ^ k - 1)) = unat v + (2 ^ k - 1)"
    using assms(2) by (subst unat_word_ariths(1)) (simp add: unat_sub word_le_nat_alt)
  then have "unat (v + 2 ^ k - 1) = unat v + 2 ^ k - 1" by (simp add: algebra_simps)
  then show ?thesis
    by (simp add: align_up_def mask_eq_exp_minus_1 [symmetric] and_not_mask unat_push_drop)
qed

definition page_aligned :: "u64 \<Rightarrow> bool" where
  "page_aligned v \<longleftrightarrow> v AND 4095 = 0"

lemma page_aligned_iff: "page_aligned v \<longleftrightarrow> unat v mod 4096 = 0"
proof -
  have "v AND 4095 = v mod 4096"
    using take_bit_eq_mask [of 12 v] by (simp add: mask_eq_exp_minus_1 take_bit_eq_mod)
  then have "unat (v AND 4095) = unat v mod 4096" by (simp add: unat_mod)
  then show ?thesis unfolding page_aligned_def by (metis unat_eq_zero unsigned_0)
qed

lemma align_down_aligned [simp]: "page_aligned v \<Longrightarrow> align_down v 4096 = v"
  using unat_align_down [of v 12] by (simp add: page_aligned_iff word_unat_eq_iff mod_eq_0_iff_dvd)

lemma align_up_aligned [simp]: "page_aligned v \<Longrightarrow> align_up v 4096 = v"
proof -
  assume "page_aligned v"
  then obtain q where q: "unat v = 4096 * q" by (auto simp: page_aligned_iff)
  with unat64_lt [of v] have "4096 * q < 4096 * 2 ^ 52" by simp
  then have "q < 2 ^ 52" by (simp only: mult_less_cancel1)
  with q have "unat v + 2 ^ 12 \<le> 2 ^ 64" by simp
  from unat_align_up [OF _ this] have "unat (align_up v 4096) = (4096 * q + 4095) div 4096 * 4096"
    by (simp add: q)
  with q show ?thesis by (simp add: word_unat_eq_iff)
qed

lemma round_up_ge: "0 < d \<Longrightarrow> v \<le> (v + d - 1) div d * (d::nat)"
proof -
  assume d: "0 < d"
  have "(v + d - 1) div d * d + (v + d - 1) mod d = v + d - 1" by simp
  moreover have "(v + d - 1) mod d \<le> d - 1" using d by (simp add: Suc_leI less_Suc_eq_le [symmetric])
  ultimately show ?thesis using d by linarith
qed

lemma round_up_least: "0 < d \<Longrightarrow> v \<le> q \<Longrightarrow> d dvd q \<Longrightarrow> (v + d - 1) div d * d \<le> (q::nat)"
proof -
  assume a: "0 < d" "v \<le> q" "d dvd q"
  then obtain j where j: "q = d * j" by auto
  have "(v + d - 1) div d \<le> (j * d + (d - 1)) div d" using a j by (intro div_le_mono) (simp add: mult.commute)
  also have "\<dots> = j"
    by (subst add.commute, subst mult.commute, rule digit_div) (use a(1) in simp)
  finally show ?thesis using j by (simp add: mult.commute)
qed

text \<open>\<open>align_up\<close> inside the 52-bit physical address space.\<close>

lemma align_up_phys:
  assumes "k \<le> 52" "unat v \<le> 2 ^ 52"
  shows "v \<le> align_up v (2 ^ k)" "2 ^ k dvd unat (align_up v (2 ^ k))" "unat (align_up v (2 ^ k)) \<le> 2 ^ 52"
    "v \<le> q \<Longrightarrow> 2 ^ k dvd unat q \<Longrightarrow> align_up v (2 ^ k) \<le> q"
proof -
  have "(2::nat) ^ k \<le> 2 ^ 52" using assms(1) by (intro power_increasing) simp_all
  then have u: "unat (align_up v (2 ^ k)) = (unat v + 2 ^ k - 1) div 2 ^ k * 2 ^ k"
    using assms by (intro unat_align_up) simp_all
  show "v \<le> align_up v (2 ^ k)" unfolding word_le_nat_alt u by (rule round_up_ge) simp
  show "2 ^ k dvd unat (align_up v (2 ^ k))" unfolding u by simp
  show "unat (align_up v (2 ^ k)) \<le> 2 ^ 52"
    unfolding u using assms(2) le_imp_power_dvd [OF assms(1), of "2::nat"] by (intro round_up_least) simp_all
  show "v \<le> q \<Longrightarrow> 2 ^ k dvd unat q \<Longrightarrow> align_up v (2 ^ k) \<le> q"
    unfolding word_le_nat_alt u by (rule round_up_least) simp_all
qed

lemma align_down_dvd: "2 ^ k dvd unat (align_down v (2 ^ k))"
  by (simp add: unat_align_down)

end
