(* ===== verification/Pmm_Range.thy ===== *)
theory Pmm_Range
  imports Prelude
begin

text \<open>
  The boot memory map of \<open>mm/pmm.c\<close>: sorted lists of byte ranges built with
  \<open>range_add\<close>, the reserved ranges, and the parser of the UEFI memory map.  A C array
  with its count is a list; the loops that shift array elements are list concatenations.
\<close>

record pmm_range =
  r_start :: u64
  r_end :: u64

definition PMM_MAX_RANGES :: nat where
  "PMM_MAX_RANGES = 256"

definition PMM_MAX_RESERVED :: nat where
  "PMM_MAX_RESERVED = 16"

record pmm_map =
  g_avail :: "pmm_range list"
  g_early_cur :: "u64 list"
  g_early_top :: "u64 list"
  g_ram :: "pmm_range list"
  g_resv :: "pmm_range list"
  total_memory :: u64
  g_managed_frames :: u64
  g_early_used :: u64
  max_phys_addr_seen :: u64

subsection \<open>Range lists\<close>

text \<open>
  The follower loop of \<open>range_add\<close>: \<open>cur\<close> is \<open>list[i]\<close>, the second argument the
  elements after it.
\<close>

fun range_absorb :: "pmm_range \<Rightarrow> pmm_range list \<Rightarrow> pmm_range list" where
  "range_absorb cur [] = [cur]"
| "range_absorb cur (r # rs) =
    (if r_start r \<le> r_end cur
     then range_absorb (if r_end r > r_end cur then cur\<lparr>r_end := r_end r\<rparr> else cur) rs
     else cur # r # rs)"

definition range_add :: "pmm_range list \<Rightarrow> nat \<Rightarrow> u64 \<Rightarrow> u64 \<Rightarrow> pmm_range list" where
  "range_add l mx st en =
    (if en \<le> st then l
     else let i = length (takeWhile (\<lambda>r. r_end r < st) l)
          in if i < length l \<and> r_start (l ! i) \<le> en
             then let c = l ! i;
                      c1 = (if st < r_start c then c\<lparr>r_start := st\<rparr> else c);
                      c2 = (if en > r_end c1 then c1\<lparr>r_end := en\<rparr> else c1)
                  in take i l @ range_absorb c2 (drop (Suc i) l)
             else if length l \<ge> mx then l
             else take i l @ [\<lparr>r_start = st, r_end = en\<rparr>] @ drop i l)"

definition pmm_add_ram :: "u64 \<Rightarrow> u64 \<Rightarrow> 'a pmm_map_scheme \<Rightarrow> 'a pmm_map_scheme" where
  "pmm_add_ram addr len m =
    (if len = 0 then m
     else m\<lparr>g_ram := range_add (g_ram m) PMM_MAX_RANGES (align_down addr 4096)
                      (align_up (addr + len) 4096)\<rparr>)"

definition pmm_add_avail :: "u64 \<Rightarrow> u64 \<Rightarrow> 'a pmm_map_scheme \<Rightarrow> 'a pmm_map_scheme" where
  "pmm_add_avail addr len m =
    (if len = 0 then m
     else let s = align_up addr 4096; e = align_down (addr + len) 4096
          in if e \<le> s then m
             else pmm_add_ram s (e - s)
                    (m\<lparr>g_avail := range_add (g_avail m) PMM_MAX_RANGES s e\<rparr>))"

definition pmm_reserve :: "u64 \<Rightarrow> u64 \<Rightarrow> 'a pmm_map_scheme \<Rightarrow> 'a pmm_map_scheme" where
  "pmm_reserve addr len m =
    (if len = 0 then m
     else if length (g_resv m) \<ge> PMM_MAX_RESERVED then m
     else m\<lparr>g_resv := g_resv m @ [\<lparr>r_start = align_down addr 4096,
                                    r_end = align_up (addr + len) 4096\<rparr>]\<rparr>)"

text \<open>First reserved range overlapping \<open>[s, e)\<close>.\<close>

definition resv_overlap :: "'a pmm_map_scheme \<Rightarrow> u64 \<Rightarrow> u64 \<Rightarrow> pmm_range option" where
  "resv_overlap m s e = List.find (\<lambda>r. r_start r < e \<and> s < r_end r) (g_resv m)"

text \<open>
  The common tail of the parsers; \<open>kend\<close> is the physical address of \<open>_kernel_end\<close>.
\<close>

definition pmm_setup :: "u64 \<Rightarrow> 'a pmm_map_scheme \<Rightarrow> 'a pmm_map_scheme" where
  "pmm_setup kend m0 =
    (let m = pmm_reserve 0 kend m0;
         total = foldl (\<lambda>t r. t + (r_end r - r_start r)) 0 (g_avail m)
     in m\<lparr>total_memory := total,
          g_early_cur := map r_start (g_avail m),
          g_early_top := map r_end (g_avail m),
          max_phys_addr_seen := foldl (\<lambda>x r. if r_end r > x then r_end r else x) 0 (g_avail m),
          g_managed_frames := total div 4096\<rparr>)"

text \<open>An \<open>EFI_MEMORY_DESCRIPTOR\<close>: the three fields the parser reads.\<close>

record efi_desc =
  efi_type :: u32
  efi_start :: u64
  efi_pages :: u64

definition pmm_add_efi :: "efi_desc \<Rightarrow> 'a pmm_map_scheme \<Rightarrow> 'a pmm_map_scheme" where
  "pmm_add_efi d m =
    (let t = efi_type d; len = efi_pages d * 4096
     in if t = 7 then pmm_add_avail (efi_start d) len m
        else if 1 \<le> t \<and> t \<le> 6 \<or> t = 9 \<or> t = 10 \<or> t = 14 then pmm_add_ram (efi_start d) len m
        else m)"

definition pmm_init_uefi ::
  "u64 \<Rightarrow> efi_desc list option \<Rightarrow> u64 \<Rightarrow> 'a pmm_map_scheme \<Rightarrow> 'a pmm_map_scheme" where
  "pmm_init_uefi kend descs desc_size m =
    (case descs of
       None \<Rightarrow> pmm_setup kend (pmm_add_avail 0x00100000 (127 * 1024 * 1024) m)
     | Some ds \<Rightarrow>
         if ds = [] \<or> desc_size < 32
         then pmm_setup kend (pmm_add_avail 0x00100000 (127 * 1024 * 1024) m)
         else let m1 = fold pmm_add_efi ds m;
                  m2 = (if g_avail m1 = [] then pmm_add_avail 0x00100000 (63 * 1024 * 1024) m1 else m1)
              in pmm_setup kend m2)"

subsection \<open>What a range list means\<close>

definition cover :: "pmm_range list \<Rightarrow> u64 set" where
  "cover l = (\<Union>r\<in>set l. {r_start r ..< r_end r})"

definition ranges_ok :: "pmm_range list \<Rightarrow> bool" where
  "ranges_ok l \<longleftrightarrow> (\<forall>r\<in>set l. r_start r < r_end r) \<and> sorted_wrt (\<lambda>a b. r_end a < r_start b) l"

lemma cover_simps [simp]:
  "cover [] = {}" "cover (r # l) = {r_start r ..< r_end r} \<union> cover l" "cover (l @ l') = cover l \<union> cover l'"
  by (auto simp: cover_def)

lemma ranges_ok_Cons:
  "ranges_ok (r # l) \<longleftrightarrow> r_start r < r_end r \<and> (\<forall>x\<in>set l. r_end r < r_start x) \<and> ranges_ok l"
  by (auto simp: ranges_ok_def)

lemma ranges_ok_append:
  "ranges_ok (l @ l') \<longleftrightarrow> ranges_ok l \<and> ranges_ok l' \<and> (\<forall>a\<in>set l. \<forall>b\<in>set l'. r_end a < r_start b)"
  by (auto simp: ranges_ok_def sorted_wrt_append)

lemma range_absorb_spec:
  assumes "ranges_ok rs" "r_start c < r_end c" "\<forall>r\<in>set rs. r_start c \<le> r_start r"
  shows "ranges_ok (range_absorb c rs) \<and> cover (range_absorb c rs) = cover (c # rs)
    \<and> (\<forall>r\<in>set (range_absorb c rs). r_start c \<le> r_start r) \<and> length (range_absorb c rs) \<le> Suc (length rs)"
  using assms
proof (induction c rs rule: range_absorb.induct)
  case (1 cur)
  then show ?case by (simp add: ranges_ok_def)
next
  case (2 cur r rs)
  show ?case
  proof (cases "r_start r \<le> r_end cur")
    case True
    define c where "c = (if r_end r > r_end cur then cur\<lparr>r_end := r_end r\<rparr> else cur)"
    have e: "range_absorb cur (r # rs) = range_absorb c rs" using True by (simp add: c_def)
    have ok: "ranges_ok rs" "r_start r < r_end r" "r_start cur \<le> r_start r" "\<forall>x\<in>set rs. r_start cur \<le> r_start x"
      using "2.prems" by (auto simp: ranges_ok_Cons)
    have c: "r_start c = r_start cur" "r_end cur \<le> r_end c" by (auto simp: c_def)
    have "{r_start c ..< r_end c} = {r_start cur ..< r_end cur} \<union> {r_start r ..< r_end r}"
      using True ok(2,3) by (auto simp: c_def)
    then have cov: "cover (c # rs) = cover (cur # r # rs)" by (simp add: Un_assoc)
    have "r_start c < r_end c" using c "2.prems"(2) by simp
    from "2.IH" [OF True, folded c_def, OF ok(1) this] ok(4)
    show ?thesis unfolding e cov [symmetric] c(1) by simp
  next
    case False
    then have lt: "r_end cur < r_start r" by simp
    have ok: "ranges_ok rs" "r_start r < r_end r" "\<forall>x\<in>set rs. r_end r < r_start x"
      using "2.prems"(1) by (simp_all add: ranges_ok_Cons)
    then have "\<forall>x\<in>set rs. r_end cur < r_start x" using lt by (meson less_trans)
    with lt ok "2.prems"(2,3) False show ?thesis by (simp add: ranges_ok_Cons)
  qed
qed

text \<open>
  \<open>range_add\<close> on a well-formed list adds exactly the new bytes, and keeps the list
  sorted, separated and within its table.
\<close>

lemma range_add_spec:
  assumes ok: "ranges_ok l" and len: "length l \<le> mx"
  shows "ranges_ok (range_add l mx st en) \<and> length (range_add l mx st en) \<le> mx
    \<and> cover (range_add l mx st en) \<subseteq> cover l \<union> {st ..< en} \<and> cover l \<subseteq> cover (range_add l mx st en)
    \<and> (length l < mx \<longrightarrow> cover (range_add l mx st en) = cover l \<union> {st ..< en})"
proof (cases "en \<le> st")
  case True
  with assms show ?thesis by (simp add: range_add_def)
next
  case ne: False
  define xs where "xs = takeWhile (\<lambda>r. r_end r < st) l"
  define ys where "ys = dropWhile (\<lambda>r. r_end r < st) l"
  have l: "l = xs @ ys" by (simp add: xs_def ys_def)
  have xs: "\<forall>x\<in>set xs. r_end x < st" by (auto simp: xs_def dest: set_takeWhileD)
  have ti: "take (length xs) l = xs" "drop (length xs) l = ys" by (simp_all add: l)
  show ?thesis
  proof (cases "ys \<noteq> [] \<and> r_start (hd ys) \<le> en")
    case False
    have "ranges_ok xs" "ranges_ok ys" "\<forall>a\<in>set xs. \<forall>b\<in>set ys. r_end a < r_start b"
      using ok by (simp_all add: l ranges_ok_append)
    moreover have "\<forall>b\<in>set ys. en < r_start b"
    proof (cases ys)
      case (Cons c rs)
      with False have "en < r_start c" by simp
      moreover have "\<forall>b\<in>set rs. r_end c < r_start b" "r_start c < r_end c"
        using ok by (simp_all add: l Cons ranges_ok_append ranges_ok_Cons)
      ultimately show ?thesis using Cons by (simp) (meson less_trans)
    qed simp
    ultimately have new: "ranges_ok (xs @ [\<lparr>r_start = st, r_end = en\<rparr>] @ ys)"
      using xs ne by (simp add: ranges_ok_append ranges_ok_Cons)
    have "\<not> (length xs < length l \<and> r_start (l ! length xs) \<le> en)"
      using False by (cases ys) (simp_all add: l)
    then have e: "range_add l mx st en = (if length l \<ge> mx then l else xs @ [\<lparr>r_start = st, r_end = en\<rparr>] @ ys)"
      using ne by (simp only: range_add_def Let_def xs_def [symmetric] ti if_False)
    have "cover (xs @ [\<lparr>r_start = st, r_end = en\<rparr>] @ ys) = cover l \<union> {st ..< en}"
      by (simp add: l) blast
    with new ok len show ?thesis unfolding e by (cases "length l \<ge> mx") (simp_all add: l)
  next
    case True
    then obtain c rs where Cons: "ys = c # rs" and le: "r_start c \<le> en" by (cases ys) auto
    have c: "st \<le> r_end c" using Cons hd_dropWhile [of "\<lambda>r. r_end r < st" l] by (force simp: ys_def)
    have n: "l ! length xs = c" "drop (Suc (length xs)) l = rs" "length xs < length l" by (simp_all add: l Cons)
    have ok': "ranges_ok xs" "ranges_ok rs" "r_start c < r_end c" "\<forall>x\<in>set rs. r_end c < r_start x"
      "\<forall>a\<in>set xs. r_end a < r_start c"
      using ok by (simp_all add: l Cons ranges_ok_append ranges_ok_Cons)
    define c1 where "c1 = (if st < r_start c then c\<lparr>r_start := st\<rparr> else c)"
    define c2 where "c2 = (if en > r_end c1 then c1\<lparr>r_end := en\<rparr> else c1)"
    have e: "range_add l mx st en = xs @ range_absorb c2 rs"
      using ne le n
      by (simp only: range_add_def Let_def xs_def [symmetric] ti c1_def [symmetric] c2_def [symmetric]
          if_False simp_thms if_True)
    have c2: "r_start c2 = min st (r_start c)" "r_end c2 = max en (r_end c)"
      by (simp_all add: c2_def c1_def)
    have s: "r_start c2 < r_end c2" using ok'(3) by (simp add: c2 min_less_iff_disj less_max_iff_disj)
    have "\<forall>r\<in>set rs. r_start c2 \<le> r_start r"
      using ok'(3,4) unfolding c2 by (meson less_imp_le less_trans min.coboundedI2)
    note a = range_absorb_spec [OF ok'(2) s this]
    have "\<forall>a\<in>set xs. r_end a < r_start c2" using xs ok'(5) by (simp add: c2)
    with a ok'(1) have "ranges_ok (xs @ range_absorb c2 rs)"
      by (simp add: ranges_ok_append) (meson order_less_le_trans)
    moreover have "{r_start c2 ..< r_end c2} = {r_start c ..< r_end c} \<union> {st ..< en}"
      unfolding c2 using c le ne ok'(3) by (auto simp: min_le_iff_disj less_max_iff_disj)
    then have "cover (xs @ range_absorb c2 rs) = cover l \<union> {st ..< en}"
      using a by (simp add: l Cons) blast
    moreover have "length (xs @ range_absorb c2 rs) \<le> mx" using a len by (simp add: l Cons)
    ultimately show ?thesis unfolding e by simp
  qed
qed

lemma range_absorb_length: "length (range_absorb c rs) \<le> Suc (length rs)"
  by (induction c rs rule: range_absorb.induct) auto

lemma range_add_length: "length (range_add l mx st en) \<le> Suc (length l)"
  using range_absorb_length
  by (auto simp: range_add_def Let_def intro: le_trans [OF add_left_mono [OF range_absorb_length]])

subsection \<open>The UEFI memory map\<close>

text \<open>
  A descriptor as firmware hands it over: page aligned and inside the 64-bit address
  space.
\<close>

definition efi_ok :: "efi_desc \<Rightarrow> bool" where
  "efi_ok d \<longleftrightarrow> page_aligned (efi_start d) \<and> unat (efi_start d) + unat (efi_pages d) * 4096 < 2 ^ 64"

definition efi_bytes :: "efi_desc \<Rightarrow> u64 set" where
  "efi_bytes d = {efi_start d ..< efi_start d + efi_pages d * 4096}"

definition efi_usable :: "efi_desc \<Rightarrow> bool" where
  "efi_usable d \<longleftrightarrow> efi_type d = 7"

definition efi_ram :: "efi_desc \<Rightarrow> bool" where
  "efi_ram d \<longleftrightarrow> efi_type d \<in> {1, 2, 3, 4, 5, 6, 7, 9, 10, 14}"

definition map_ok :: "'a pmm_map_scheme \<Rightarrow> bool" where
  "map_ok m \<longleftrightarrow> ranges_ok (g_avail m) \<and> ranges_ok (g_ram m)"

lemma efi_end:
  assumes "efi_ok d"
  shows "page_aligned (efi_start d + efi_pages d * 4096)"
    "unat (efi_start d + efi_pages d * 4096) = unat (efi_start d) + unat (efi_pages d) * 4096"
proof -
  have m: "unat (efi_pages d * 4096) = unat (efi_pages d) * 4096"
    using assms by (subst unat_word_ariths(2)) (simp add: efi_ok_def)
  then show e: "unat (efi_start d + efi_pages d * 4096) = unat (efi_start d) + unat (efi_pages d) * 4096"
    using assms by (subst unat_word_ariths(1)) (simp add: efi_ok_def)
  show "page_aligned (efi_start d + efi_pages d * 4096)"
    using assms unfolding page_aligned_iff e by (simp add: efi_ok_def page_aligned_iff)
qed

lemma efi_empty: "efi_pages d * 4096 = 0 \<Longrightarrow> efi_bytes d = {}"
  by (simp add: efi_bytes_def)

lemma pmm_add_ram_efi:
  assumes "efi_ok d" "ranges_ok (g_ram m)" "length (g_ram m) < PMM_MAX_RANGES"
  shows "ranges_ok (g_ram (pmm_add_ram (efi_start d) (efi_pages d * 4096) m))"
    "cover (g_ram (pmm_add_ram (efi_start d) (efi_pages d * 4096) m)) = cover (g_ram m) \<union> efi_bytes d"
    "length (g_ram (pmm_add_ram (efi_start d) (efi_pages d * 4096) m)) \<le> Suc (length (g_ram m))"
    "g_avail (pmm_add_ram (efi_start d) (efi_pages d * 4096) m) = g_avail m"
  using assms range_add_spec [OF assms(2), of PMM_MAX_RANGES] range_add_length efi_end(1) [OF assms(1)] efi_empty [of d]
  by (auto simp: pmm_add_ram_def efi_bytes_def efi_ok_def le_Suc_eq)

lemma pmm_add_avail_efi:
  assumes "efi_ok d" "map_ok m" "length (g_ram m) < PMM_MAX_RANGES" "length (g_avail m) < PMM_MAX_RANGES"
  defines "m' \<equiv> pmm_add_avail (efi_start d) (efi_pages d * 4096) m"
  shows "map_ok m' \<and> cover (g_ram m') = cover (g_ram m) \<union> efi_bytes d
    \<and> cover (g_avail m') = cover (g_avail m) \<union> efi_bytes d
    \<and> length (g_ram m') \<le> Suc (length (g_ram m)) \<and> length (g_avail m') \<le> Suc (length (g_avail m))"
proof (cases "efi_pages d * 4096 = 0")
  case True
  then show ?thesis using assms(2) by (simp add: m'_def pmm_add_avail_def efi_empty)
next
  case False
  let ?s = "efi_start d" and ?e = "efi_start d + efi_pages d * 4096"
  let ?m = "m\<lparr>g_avail := range_add (g_avail m) PMM_MAX_RANGES ?s ?e\<rparr>"
  have "?s \<le> ?e" using efi_end(2) [OF assms(1)] by (simp add: word_le_nat_alt)
  with False have lt: "\<not> ?e \<le> ?s" by (metis add_cancel_right_right order_antisym)
  have e: "m' = pmm_add_ram ?s (efi_pages d * 4096) ?m"
    using False lt assms(1) efi_end(1) [OF assms(1)]
    by (simp add: m'_def pmm_add_avail_def efi_ok_def Let_def)
  have r: "ranges_ok (g_ram ?m)" "length (g_ram ?m) < PMM_MAX_RANGES" "ranges_ok (g_avail m)"
    using assms by (simp_all add: map_ok_def)
  note a = range_add_spec [OF r(3), of PMM_MAX_RANGES ?s ?e] range_add_length [of "g_avail m" PMM_MAX_RANGES ?s ?e]
  show ?thesis
    unfolding e map_ok_def pmm_add_ram_efi(2,4) [OF assms(1) r(1,2)]
    using pmm_add_ram_efi [OF assms(1) r(1,2)] a assms(4) by (simp add: efi_bytes_def)
qed

lemma pmm_add_efi_step:
  assumes "efi_ok d" "map_ok m" "length (g_ram m) < PMM_MAX_RANGES" "length (g_avail m) < PMM_MAX_RANGES"
  shows "map_ok (pmm_add_efi d m)
    \<and> cover (g_avail (pmm_add_efi d m)) = cover (g_avail m) \<union> (if efi_usable d then efi_bytes d else {})
    \<and> cover (g_ram (pmm_add_efi d m)) = cover (g_ram m) \<union> (if efi_ram d then efi_bytes d else {})
    \<and> length (g_ram (pmm_add_efi d m)) \<le> Suc (length (g_ram m))
    \<and> length (g_avail (pmm_add_efi d m)) \<le> Suc (length (g_avail m))"
proof -
  have t: "1 \<le> t \<and> t \<le> 6 \<longleftrightarrow> t \<in> {1, 2, 3, 4, 5, 6}" for t :: u32
  proof
    assume "1 \<le> t \<and> t \<le> 6"
    then have "unat t \<in> {1, 2, 3, 4, 5, 6}" by (auto simp: word_le_nat_alt)
    then show "t \<in> {1, 2, 3, 4, 5, 6}" by (auto simp: word_unat_eq_iff)
  qed auto
  consider "efi_type d = 7" | "efi_type d \<noteq> 7" "efi_ram d" | "\<not> efi_ram d" by blast
  then show ?thesis
  proof cases
    case 1
    with pmm_add_avail_efi [OF assms] show ?thesis
      by (simp add: pmm_add_efi_def efi_usable_def efi_ram_def)
  next
    case 2
    then have e: "pmm_add_efi d m = pmm_add_ram (efi_start d) (efi_pages d * 4096) m"
      by (auto simp: pmm_add_efi_def Let_def t efi_ram_def)
    have "ranges_ok (g_ram m)" using assms(2) by (simp add: map_ok_def)
    note r = pmm_add_ram_efi [OF assms(1) this assms(3)]
    show ?thesis using 2 r assms(2) by (simp add: e efi_usable_def map_ok_def)
  next
    case 3
    then have "efi_type d \<noteq> 7" "pmm_add_efi d m = m"
      by (auto simp: pmm_add_efi_def Let_def t efi_ram_def)
    with 3 assms(2) show ?thesis by (simp add: efi_usable_def)
  qed
qed

lemma fold_pmm_add_efi:
  assumes "\<forall>d\<in>set ds. efi_ok d" "map_ok m"
    "length (g_ram m) + length ds \<le> PMM_MAX_RANGES" "length (g_avail m) + length ds \<le> PMM_MAX_RANGES"
  shows "map_ok (fold pmm_add_efi ds m)
    \<and> cover (g_avail (fold pmm_add_efi ds m)) = cover (g_avail m) \<union> (\<Union>d \<in> {d \<in> set ds. efi_usable d}. efi_bytes d)
    \<and> cover (g_ram (fold pmm_add_efi ds m)) = cover (g_ram m) \<union> (\<Union>d \<in> {d \<in> set ds. efi_ram d}. efi_bytes d)"
  using assms
proof (induction ds arbitrary: m)
  case (Cons d ds)
  then have "map_ok (pmm_add_efi d m)
    \<and> cover (g_avail (pmm_add_efi d m)) = cover (g_avail m) \<union> (if efi_usable d then efi_bytes d else {})
    \<and> cover (g_ram (pmm_add_efi d m)) = cover (g_ram m) \<union> (if efi_ram d then efi_bytes d else {})
    \<and> length (g_ram (pmm_add_efi d m)) \<le> Suc (length (g_ram m))
    \<and> length (g_avail (pmm_add_efi d m)) \<le> Suc (length (g_avail m))"
    by (intro pmm_add_efi_step) simp_all
  note st = this
  have "length (g_ram (pmm_add_efi d m)) + length ds \<le> PMM_MAX_RANGES"
    "length (g_avail (pmm_add_efi d m)) + length ds \<le> PMM_MAX_RANGES"
    using st Cons.prems(3,4) by auto
  from Cons.IH [OF _ _ this] st Cons.prems(1) show ?case by auto
qed simp

lemma pmm_setup_map [simp]:
  "g_avail (pmm_setup kend m) = g_avail m" "g_ram (pmm_setup kend m) = g_ram m"
  by (simp_all add: pmm_setup_def pmm_reserve_def Let_def)

lemma pmm_setup_cursors:
  "g_early_cur (pmm_setup kend m) = map r_start (g_avail m)"
  "g_early_top (pmm_setup kend m) = map r_end (g_avail m)"
  by (simp_all add: pmm_setup_def pmm_reserve_def Let_def)

subsection \<open>Properties\<close>

text \<open>\<open>range_add\<close> (mm/pmm.c) keeps a range table sorted, separated and within its
  capacity; it never forgets a byte already recorded, never records a byte outside the
  new range, and unless the table is full the result covers exactly the old bytes and the
  new range, also where the new range bridges or swallows several entries.
\<close>

theorem range_add_exact:
  assumes "ranges_ok l" "length l \<le> mx"
  shows "ranges_ok (range_add l mx st en) \<and> length (range_add l mx st en) \<le> mx
    \<and> cover l \<subseteq> cover (range_add l mx st en) \<and> cover (range_add l mx st en) \<subseteq> cover l \<union> {st ..< en}
    \<and> (length l < mx \<longrightarrow> cover (range_add l mx st en) = cover l \<union> {st ..< en})"
  using range_add_spec [OF assms, of st en] by simp

text \<open>From an empty map and a firmware map of at most 256 page-aligned descriptors with
  some conventional memory, \<open>pmm_init_uefi\<close> records as usable exactly the bytes of the
  conventional descriptors and as RAM exactly the bytes of the RAM-like ones: memory of
  any other type is never handed out, and none is lost.
\<close>

theorem uefi_map_exact:
  assumes "g_avail m = []" "g_ram m = []"
    and "length ds \<le> PMM_MAX_RANGES" "\<forall>d\<in>set ds. efi_ok d"
    and "\<exists>d\<in>set ds. efi_usable d \<and> efi_bytes d \<noteq> {}" "\<not> desc_size < 32"
  shows "cover (g_avail (pmm_init_uefi kend (Some ds) desc_size m))
           = (\<Union>d \<in> {d \<in> set ds. efi_usable d}. efi_bytes d)
       \<and> cover (g_ram (pmm_init_uefi kend (Some ds) desc_size m))
           = (\<Union>d \<in> {d \<in> set ds. efi_ram d}. efi_bytes d)
       \<and> map_ok (pmm_init_uefi kend (Some ds) desc_size m)"
proof -
  have "map_ok m" using assms(1,2) by (simp add: map_ok_def ranges_ok_def)
  note f = fold_pmm_add_efi [OF assms(4) this]
  have c: "cover (g_avail (fold pmm_add_efi ds m)) = (\<Union>d \<in> {d \<in> set ds. efi_usable d}. efi_bytes d)"
    using f assms(1-3) by simp
  with assms(5) have "g_avail (fold pmm_add_efi ds m) \<noteq> []" by (metis (mono_tags, lifting) UN_iff cover_simps(1) empty_iff ex_in_conv mem_Collect_eq)
  moreover have "ds \<noteq> []" using assms(5) by auto
  ultimately have "pmm_init_uefi kend (Some ds) desc_size m = pmm_setup kend (fold pmm_add_efi ds m)"
    using assms(6) by (simp add: pmm_init_uefi_def)
  with f c assms(1-3) show ?thesis by (simp add: map_ok_def)
qed

definition empty_map :: pmm_map where
  "empty_map = \<lparr>g_avail = [], g_early_cur = [], g_early_top = [], g_ram = [], g_resv = [],
     total_memory = 0, g_managed_frames = 0, g_early_used = 0, max_phys_addr_seen = 0\<rparr>"

end
