(* ===== verification/Pmm_Early.thy ===== *)
theory Pmm_Early
  imports Pmm_Range
begin

text \<open>
  The early allocator of \<open>mm/pmm.c\<close>, used before the sections exist: a bump pointer
  from the bottom (\<open>early_alloc\<close>) and one from the top (\<open>early_alloc_top\<close>) of every
  usable range, both stepping over the reserved ranges.  The bottom-up inner loop restarts
  at \<open>align_up(r->end)\<close>, which wraps for a range that ends in the last page of the
  address space, so it is a partial function: \<open>None\<close> is a loop that does not end, and
  \<open>early_fit_total\<close> shows that it ends for physical addresses up to $2^{52}$.
\<close>

subsection \<open>Operations\<close>

partial_function (option) early_fit ::
  "'a pmm_map_scheme \<Rightarrow> u64 \<Rightarrow> u64 \<Rightarrow> u64 \<Rightarrow> u64 \<Rightarrow> u64 \<Rightarrow> u64 option option" where
  "early_fit m sz al tp limit cur =
    (if cur + sz > tp \<or> cur + sz > limit then Some None
     else case resv_overlap m cur (cur + sz) of
            Some r \<Rightarrow> early_fit m sz al tp limit (align_up (r_end r) al)
          | None \<Rightarrow> Some (Some cur))"

definition early_claim :: "'a pmm_map_scheme \<Rightarrow> nat \<Rightarrow> u64 \<Rightarrow> u64 \<Rightarrow> 'a pmm_map_scheme" where
  "early_claim m i cur en =
    (let from0 = align_up (g_early_cur m ! i) 4096;
         frm = (if align_down cur 4096 > from0 then align_down cur 4096 else from0)
     in m\<lparr>g_early_used := g_early_used m + (align_up en 4096 - frm) div 4096,
          g_early_cur := (g_early_cur m)[i := en]\<rparr>)"

function early_alloc_loop ::
  "'a pmm_map_scheme \<Rightarrow> u64 \<Rightarrow> u64 \<Rightarrow> u64 \<Rightarrow> nat \<Rightarrow> ('a pmm_map_scheme \<times> u64) option" where
  "early_alloc_loop m sz al limit i =
    (if i < length (g_avail m)
     then case early_fit m sz al (g_early_top m ! i) limit (align_up (g_early_cur m ! i) al) of
            None \<Rightarrow> None
          | Some None \<Rightarrow> early_alloc_loop m sz al limit (Suc i)
          | Some (Some cur) \<Rightarrow> Some (early_claim m i cur (cur + sz), cur)
     else Some (m, 0))"
  by pat_completeness auto
termination by (relation "measure (\<lambda>(m, sz, al, limit, i). length (g_avail m) - i)") auto

definition early_alloc ::
  "'a pmm_map_scheme \<Rightarrow> u64 \<Rightarrow> u64 \<Rightarrow> u64 \<Rightarrow> ('a pmm_map_scheme \<times> u64) option" where
  "early_alloc m sz al limit = early_alloc_loop m sz al limit 0"

lemma top_step_decreases:
  assumes "\<not> tp < sz" "resv_overlap m (align_down (tp - sz) al) (align_down (tp - sz) al + sz) = Some r"
  shows "r_start r < tp"
proof -
  have "r_start r < align_down (tp - sz) al + sz"
    using assms(2) by (auto simp: resv_overlap_def find_Some_iff)
  also have "align_down (tp - sz) al + sz \<le> tp"
  proof -
    have "unat (align_down (tp - sz) al) \<le> unat tp - unat sz" "unat sz \<le> unat tp"
      using align_down_le [of "tp - sz" al] assms(1) by (simp_all add: word_nat_order unat_simps_k)
    then show ?thesis using unat64_lt [of tp] by (simp add: word_nat_order unat_simps_k)
  qed
  finally show ?thesis .
qed

function early_top_fit ::
  "'a pmm_map_scheme \<Rightarrow> u64 \<Rightarrow> u64 \<Rightarrow> u64 \<Rightarrow> u64 \<Rightarrow> u64 \<Rightarrow> u64 option" where
  "early_top_fit m sz al cur start tp =
    (if tp < sz then None
     else let s = align_down (tp - sz) al
          in if s < cur \<or> s < start then None
             else case resv_overlap m s (s + sz) of
                    Some r \<Rightarrow> early_top_fit m sz al cur start (r_start r)
                  | None \<Rightarrow> Some s)"
  by pat_completeness auto
termination
  by (relation "measure (\<lambda>(m, sz, al, cur, start, tp). unat tp)")
    (auto simp: word_less_nat_alt [symmetric] dest: top_step_decreases)

declare early_top_fit.simps [simp del] early_alloc_loop.simps [simp del]

definition early_claim_top :: "'a pmm_map_scheme \<Rightarrow> nat \<Rightarrow> u64 \<Rightarrow> u64 \<Rightarrow> 'a pmm_map_scheme" where
  "early_claim_top m i s sz =
    (let to0 = align_down (g_early_top m ! i) 4096;
         to = (if align_up (s + sz) 4096 < to0 then align_up (s + sz) 4096 else to0)
     in m\<lparr>g_early_used := g_early_used m + (to - align_down s 4096) div 4096,
          g_early_top := (g_early_top m)[i := s]\<rparr>)"

text \<open>The ranges from index \<open>i - 1\<close> downwards.\<close>

fun early_alloc_top_loop ::
  "'a pmm_map_scheme \<Rightarrow> u64 \<Rightarrow> u64 \<Rightarrow> nat \<Rightarrow> 'a pmm_map_scheme \<times> u64" where
  "early_alloc_top_loop m sz al 0 = (m, 0)"
| "early_alloc_top_loop m sz al (Suc i) =
    (case early_top_fit m sz al (g_early_cur m ! i) (r_start (g_avail m ! i)) (g_early_top m ! i) of
       None \<Rightarrow> early_alloc_top_loop m sz al i
     | Some s \<Rightarrow> (early_claim_top m i s sz, s))"

definition early_alloc_top :: "'a pmm_map_scheme \<Rightarrow> u64 \<Rightarrow> u64 \<Rightarrow> 'a pmm_map_scheme \<times> u64" where
  "early_alloc_top m sz al = early_alloc_top_loop m sz al (length (g_avail m))"

subsection \<open>The two searches\<close>

text \<open>
  The bytes \<open>[p, p + sz)\<close> are a legal placement: aligned, below the bounds, and clear of
  every reserved range.
\<close>

definition fits :: "'a pmm_map_scheme \<Rightarrow> u64 \<Rightarrow> nat \<Rightarrow> u64 \<Rightarrow> u64 \<Rightarrow> bool" where
  "fits m sz k bound p \<longleftrightarrow> 2 ^ k dvd unat p \<and> unat p + unat sz \<le> unat bound
     \<and> resv_overlap m p (p + sz) = None"

lemma resv_overlap_None:
  "resv_overlap m s e = None \<longleftrightarrow> (\<forall>r\<in>set (g_resv m). \<not> (r_start r < e \<and> s < r_end r))"
  by (auto simp: resv_overlap_def find_None_iff)

lemma resv_overlap_SomeD:
  "resv_overlap m s e = Some r \<Longrightarrow> r \<in> set (g_resv m) \<and> r_start r < e \<and> s < r_end r"
  by (auto simp: resv_overlap_def find_Some_iff)

definition resv_bounded :: "'a pmm_map_scheme \<Rightarrow> bool" where
  "resv_bounded m \<longleftrightarrow> (\<forall>r\<in>set (g_resv m). unat (r_end r) \<le> 2 ^ 52)"

lemma early_fit_total:
  assumes "k \<le> 52" "unat sz \<le> 2 ^ 52" "resv_bounded m" "unat tp \<le> 2 ^ 52"
    and "unat cur \<le> 2 ^ 52" "2 ^ k dvd unat cur"
  shows "\<exists>res. early_fit m sz (2 ^ k) tp limit cur = Some res \<and>
    (case res of
       Some p \<Rightarrow> cur \<le> p \<and> fits m sz k tp p \<and> fits m sz k limit p
     | None \<Rightarrow> \<forall>q. cur \<le> q \<and> fits m sz k tp q \<longrightarrow> \<not> fits m sz k limit q)"
  using assms(5,6)
proof (induction "2 ^ 52 - unat cur" arbitrary: cur rule: less_induct)
  case less
  have e: "unat (cur + sz) = unat cur + unat sz"
    using less.prems(1) assms(2) by (intro unat_add64) simp
  have mono: "cur + sz \<le> q + sz" if "cur \<le> q" "unat q + unat sz \<le> unat tp" for q
    using that assms(4) by (simp add: word_nat_order e unat_simps_k)
  show ?case
  proof (cases "cur + sz > tp \<or> cur + sz > limit")
    case True
    then have "\<forall>q. cur \<le> q \<and> fits m sz k tp q \<longrightarrow> \<not> fits m sz k limit q"
      by (auto simp: fits_def word_nat_order e)
    with True show ?thesis by (subst early_fit.simps) simp
  next
    case False
    show ?thesis
    proof (cases "resv_overlap m cur (cur + sz)")
      case None
      with False less.prems have "fits m sz k tp cur \<and> fits m sz k limit cur"
        by (simp add: fits_def word_nat_order e)
      with None False show ?thesis by (subst early_fit.simps) simp
    next
      case (Some r)
      let ?c = "align_up (r_end r) (2 ^ k)"
      note r = resv_overlap_SomeD [OF Some]
      have rb: "unat (r_end r) \<le> 2 ^ 52" using r assms(3) by (simp add: resv_bounded_def)
      note a = align_up_phys [OF assms(1) rb]
      have lt: "cur < ?c" using r a(1) by (blast intro: order_less_le_trans)
      then have "2 ^ 52 - unat ?c < 2 ^ 52 - unat cur"
        using a(3) by (simp add: word_nat_order diff_less_mono2)
      from less.hyps [OF this a(3,2)] obtain res where
        res: "early_fit m sz (2 ^ k) tp limit ?c = Some res" and
        ok: "case res of Some p \<Rightarrow> ?c \<le> p \<and> fits m sz k tp p \<and> fits m sz k limit p
          | None \<Rightarrow> \<forall>q. ?c \<le> q \<and> fits m sz k tp q \<longrightarrow> \<not> fits m sz k limit q" by blast
      have skip: "?c \<le> q" if "cur \<le> q" "fits m sz k tp q" for q
      proof (rule a(4))
        show "2 ^ k dvd unat q" using that(2) by (simp add: fits_def)
        have "r_start r < q + sz" using r mono [of q] that by (auto simp: fits_def)
        with that(2) r show "r_end r \<le> q" by (auto simp: fits_def resv_overlap_None)
      qed
      have "early_fit m sz (2 ^ k) tp limit cur = Some res"
        using False Some res by (subst early_fit.simps) simp
      with ok lt skip show ?thesis by (cases res) auto
    qed
  qed
qed

lemma fits_bound_mono: "fits m sz k b p \<Longrightarrow> b \<le> b' \<Longrightarrow> fits m sz k b' p"
  by (auto simp: fits_def word_nat_order)

lemma early_top_fit_sound:
  "early_top_fit m sz (2 ^ k) cur start tp = Some s \<Longrightarrow> cur \<le> s \<and> start \<le> s \<and> fits m sz k tp s"
proof (induction "unat tp" arbitrary: tp rule: less_induct)
  case less
  let ?s = "align_down (tp - sz) (2 ^ k)"
  from less.prems have nz: "\<not> tp < sz" and ns: "\<not> (?s < cur \<or> ?s < start)"
    by (subst (asm) early_top_fit.simps; simp add: Let_def split: if_splits)+
  show ?case
  proof (cases "resv_overlap m ?s (?s + sz)")
    case None
    then have s: "s = ?s" using less.prems nz ns by (subst (asm) early_top_fit.simps) (simp add: Let_def)
    have "unat ?s \<le> unat tp - unat sz" "unat sz \<le> unat tp"
      using align_down_le [of "tp - sz" "2 ^ k"] nz by (simp_all add: word_nat_order unat_simps_k)
    with None ns show ?thesis by (auto simp: s fits_def align_down_dvd)
  next
    case (Some r)
    have lt: "r_start r < tp" by (rule top_step_decreases [OF nz Some])
    have "early_top_fit m sz (2 ^ k) cur start (r_start r) = Some s"
      using less.prems nz ns Some by (subst (asm) early_top_fit.simps) (simp add: Let_def)
    from less.hyps [OF _ this] lt show ?thesis
      using fits_bound_mono [of m sz k "r_start r" s tp] by (simp add: word_nat_order)
  qed
qed

subsection \<open>What is left to hand out\<close>

definition early_space :: "'a pmm_map_scheme \<Rightarrow> u64 set" where
  "early_space m = (\<Union>i<length (g_avail m). {g_early_cur m ! i ..< g_early_top m ! i})"

definition early_inv :: "'a pmm_map_scheme \<Rightarrow> bool" where
  "early_inv m \<longleftrightarrow> ranges_ok (g_avail m) \<and> resv_bounded m
     \<and> length (g_early_cur m) = length (g_avail m) \<and> length (g_early_top m) = length (g_avail m)
     \<and> (\<exists>r\<in>set (g_resv m). r_start r = 0 \<and> 0 < r_end r)
     \<and> (\<forall>i<length (g_avail m). unat (r_end (g_avail m ! i)) \<le> 2 ^ 52
          \<and> r_start (g_avail m ! i) \<le> g_early_cur m ! i \<and> g_early_cur m ! i \<le> g_early_top m ! i
          \<and> g_early_top m ! i \<le> r_end (g_avail m ! i))"

lemma ranges_ok_disjoint:
  assumes "ranges_ok l" "i < length l" "j < length l" "i \<noteq> j" "x \<in> {r_start (l ! i) ..< r_end (l ! i)}"
  shows "x \<notin> {r_start (l ! j) ..< r_end (l ! j)}"
proof -
  have s: "sorted_wrt (\<lambda>a b. r_end a < r_start b) l" using assms(1) by (simp add: ranges_ok_def)
  show ?thesis
  proof (cases "i < j")
    case True
    then have "r_end (l ! i) < r_start (l ! j)" using sorted_wrt_nth_less [OF s _ assms(3)] by simp
    with assms(5) show ?thesis by auto
  next
    case False
    then have "r_end (l ! j) < r_start (l ! i)" using sorted_wrt_nth_less [OF s _ assms(2)] assms(4) by simp
    with assms(5) show ?thesis by auto
  qed
qed

text \<open>
  Narrowing one cursor pair to a part of what it was removes from the space exactly the
  bytes given up.
\<close>

lemma early_space_narrow:
  assumes inv: "early_inv m" and i: "i < length (g_avail m)"
    and avail: "g_avail m' = g_avail m"
    and cur: "g_early_cur m' = (g_early_cur m)[i := c]" and top': "g_early_top m' = (g_early_top m)[i := t]"
    and b: "g_early_cur m ! i \<le> c" "t \<le> g_early_top m ! i"
    and A: "A \<subseteq> {g_early_cur m ! i ..< g_early_top m ! i}" "A \<inter> {c ..< t} = {}"
  shows "early_space m' \<subseteq> early_space m - A" "A \<subseteq> early_space m"
proof -
  have len: "length (g_early_cur m) = length (g_avail m)" "length (g_early_top m) = length (g_avail m)"
    using inv by (simp_all add: early_inv_def)
  have sub: "{g_early_cur m ! j ..< g_early_top m ! j} \<subseteq> {r_start (g_avail m ! j) ..< r_end (g_avail m ! j)}"
    if "j < length (g_avail m)" for j
    using inv that by (force simp: early_inv_def)
  have ok: "ranges_ok (g_avail m)" using inv by (simp add: early_inv_def)
  show "A \<subseteq> early_space m" using A(1) i by (auto simp: early_space_def)
  show "early_space m' \<subseteq> early_space m - A"
  proof
    fix x assume "x \<in> early_space m'"
    then obtain j where j: "j < length (g_avail m)" "x \<in> {g_early_cur m' ! j ..< g_early_top m' ! j}"
      by (auto simp: early_space_def avail)
    show "x \<in> early_space m - A"
    proof (cases "j = i")
      case True
      with j i len have x: "x \<in> {c ..< t}" by (simp add: cur top')
      then have "x \<in> {g_early_cur m ! i ..< g_early_top m ! i}" using b by auto
      with x A(2) i show ?thesis by (auto simp: early_space_def)
    next
      case False
      with j have x: "x \<in> {g_early_cur m ! j ..< g_early_top m ! j}" by (simp add: cur top')
      then have "x \<notin> {r_start (g_avail m ! i) ..< r_end (g_avail m ! i)}"
        using ranges_ok_disjoint [OF ok j(1) i] False sub [OF j(1)] by blast
      then have "x \<notin> A" using A(1) sub [OF i] by blast
      with x j show ?thesis by (auto simp: early_space_def)
    qed
  qed
qed

text \<open>
  The result of an allocation attempt: either the map is unchanged and the result is 0, or
  the block is a legal placement out of the space, which shrinks by at least the block.
\<close>

definition early_ok :: "'a pmm_map_scheme \<Rightarrow> u64 \<Rightarrow> nat \<Rightarrow> 'a pmm_map_scheme \<Rightarrow> u64 \<Rightarrow> bool" where
  "early_ok m sz k m' p \<longleftrightarrow> early_inv m' \<and> g_avail m' = g_avail m \<and> g_resv m' = g_resv m
     \<and> (p = 0 \<longrightarrow> m' = m)
     \<and> (p \<noteq> 0 \<longrightarrow> {p ..< p + sz} \<subseteq> early_space m - cover (g_resv m) \<and> 2 ^ k dvd unat p
          \<and> unat (p + sz) = unat p + unat sz \<and> early_space m' \<subseteq> early_space m - {p ..< p + sz})"

lemma fits_nonzero:
  assumes "early_inv m" "fits m sz k b p" "0 < sz"
  shows "p \<noteq> 0"
proof
  assume "p = 0"
  with assms(2) have "\<forall>r\<in>set (g_resv m). \<not> (r_start r < sz \<and> 0 < r_end r)"
    by (simp add: fits_def resv_overlap_None)
  with assms(1,3) show False by (auto simp: early_inv_def)
qed

lemma fits_end: "fits m sz k b p \<Longrightarrow> unat (p + sz) = unat p + unat sz \<and> p + sz \<le> b \<and> p \<le> p + sz"
proof -
  assume "fits m sz k b p"
  then have le: "unat p + unat sz \<le> unat b" by (simp add: fits_def)
  with unat64_lt [of b] have "unat p + unat sz < 2 ^ 64" by linarith
  then have "unat (p + sz) = unat p + unat sz" by (rule unat_add64)
  with le show ?thesis by (simp add: word_nat_order)
qed

lemma fits_not_reserved:
  assumes "fits m sz k b p"
  shows "{p ..< p + sz} \<inter> cover (g_resv m) = {}"
proof (rule ccontr)
  assume "{p ..< p + sz} \<inter> cover (g_resv m) \<noteq> {}"
  then obtain x r where x: "p \<le> x" "x < p + sz" "r \<in> set (g_resv m)" "r_start r \<le> x" "x < r_end r"
    by (auto simp: cover_def)
  from assms x(3) have "\<not> (r_start r < p + sz \<and> p < r_end r)" by (simp add: fits_def resv_overlap_None)
  with x show False by (meson order_le_less_trans)
qed

lemma early_claim_ok:
  assumes inv: "early_inv m" and i: "i < length (g_avail m)" and sz: "0 < sz"
    and f: "fits m sz k (g_early_top m ! i) p" and c: "g_early_cur m ! i \<le> p"
  shows "early_ok m sz k (early_claim m i p (p + sz)) p"
proof -
  let ?m = "early_claim m i p (p + sz)"
  note e = fits_end [OF f]
  have s: "g_avail ?m = g_avail m" "g_resv ?m = g_resv m" "g_early_cur ?m = (g_early_cur m)[i := p + sz]"
    "g_early_top ?m = (g_early_top m)[i := g_early_top m ! i]"
    by (simp_all add: early_claim_def Let_def)
  have cur: "g_early_cur m ! i \<le> p + sz" using c e by (blast intro: order_trans)
  have A: "{p ..< p + sz} \<subseteq> {g_early_cur m ! i ..< g_early_top m ! i}"
    "{p ..< p + sz} \<inter> {p + sz ..< g_early_top m ! i} = {}" using c e by auto
  note n = early_space_narrow [OF inv i s(1,3,4) cur order_refl A]
  have "early_inv ?m"
    using inv i cur e unfolding early_inv_def s resv_bounded_def
    by (auto simp: nth_list_update intro: order_trans)
  with n e f fits_not_reserved [OF f] fits_nonzero [OF inv f sz] show ?thesis
    by (auto simp: early_ok_def s fits_def)
qed

lemma early_claim_top_ok:
  assumes inv: "early_inv m" and i: "i < length (g_avail m)" and sz: "0 < sz"
    and f: "fits m sz k (g_early_top m ! i) p" and c: "g_early_cur m ! i \<le> p"
  shows "early_ok m sz k (early_claim_top m i p sz) p"
proof -
  let ?m = "early_claim_top m i p sz"
  note e = fits_end [OF f]
  have s: "g_avail ?m = g_avail m" "g_resv ?m = g_resv m" "g_early_top ?m = (g_early_top m)[i := p]"
    "g_early_cur ?m = (g_early_cur m)[i := g_early_cur m ! i]"
    by (simp_all add: early_claim_top_def Let_def)
  have top': "p \<le> g_early_top m ! i" using e by (blast intro: order_trans)
  have A: "{p ..< p + sz} \<subseteq> {g_early_cur m ! i ..< g_early_top m ! i}"
    "{p ..< p + sz} \<inter> {g_early_cur m ! i ..< p} = {}" using c e by auto
  note n = early_space_narrow [OF inv i s(1,4,3) order_refl top' A]
  have "early_inv ?m"
    using inv i c top' unfolding early_inv_def s resv_bounded_def
    by (auto simp: nth_list_update intro: order_trans)
  with n e f fits_not_reserved [OF f] fits_nonzero [OF inv f sz] show ?thesis
    by (auto simp: early_ok_def s fits_def)
qed

lemma early_alloc_loop_ok:
  assumes inv: "early_inv m" and sz: "0 < sz" "unat sz \<le> 2 ^ 52" and k: "k \<le> 52"
  shows "\<exists>m' p. early_alloc_loop m sz (2 ^ k) limit i = Some (m', p) \<and> early_ok m sz k m' p
    \<and> (p \<noteq> 0 \<longrightarrow> fits m sz k limit p)
    \<and> (p = 0 \<longrightarrow> (\<forall>j q. i \<le> j \<and> j < length (g_avail m) \<and> g_early_cur m ! j \<le> q
          \<and> fits m sz k (g_early_top m ! j) q \<longrightarrow> \<not> fits m sz k limit q))"
proof (induction "length (g_avail m) - i" arbitrary: i rule: less_induct)
  case less
  show ?case
  proof (cases "i < length (g_avail m)")
    case False
    then show ?thesis using inv by (subst early_alloc_loop.simps) (auto simp: early_ok_def)
  next
    case True
    let ?c = "align_up (g_early_cur m ! i) (2 ^ k)" and ?t = "g_early_top m ! i"
    have t: "unat ?t \<le> 2 ^ 52" "unat (g_early_cur m ! i) \<le> 2 ^ 52" and rb: "resv_bounded m"
      using inv True by (force simp: early_inv_def word_nat_order)+
    note a = align_up_phys [OF k t(2)]
    obtain res where res: "early_fit m sz (2 ^ k) ?t limit ?c = Some res" and
      ok: "case res of Some p \<Rightarrow> ?c \<le> p \<and> fits m sz k ?t p \<and> fits m sz k limit p
         | None \<Rightarrow> \<forall>q. ?c \<le> q \<and> fits m sz k ?t q \<longrightarrow> \<not> fits m sz k limit q"
      using early_fit_total [OF k sz(2) rb t(1) a(3,2)] by blast
    show ?thesis
    proof (cases res)
      case (Some p)
      with ok have f: "?c \<le> p" "fits m sz k ?t p" "fits m sz k limit p" by simp_all
      have "g_early_cur m ! i \<le> p" using a(1) f(1) by (rule order_trans)
      from early_claim_ok [OF inv True sz(1) f(2) this] fits_nonzero [OF inv f(2) sz(1)]
      show ?thesis using f(3) True res Some by (subst early_alloc_loop.simps) simp
    next
      case None
      have none: "\<not> fits m sz k limit q" if "g_early_cur m ! i \<le> q" "fits m sz k ?t q" for q
      proof -
        have "?c \<le> q" by (rule a(4) [OF that(1)]) (use that(2) in \<open>simp add: fits_def\<close>)
        with that(2) ok None show ?thesis by simp
      qed
      have "length (g_avail m) - Suc i < length (g_avail m) - i" using True by simp
      from less.hyps [OF this] obtain m' p where
        m': "early_alloc_loop m sz (2 ^ k) limit (Suc i) = Some (m', p)" "early_ok m sz k m' p"
        "p \<noteq> 0 \<longrightarrow> fits m sz k limit p"
        "p = 0 \<longrightarrow> (\<forall>j q. Suc i \<le> j \<and> j < length (g_avail m) \<and> g_early_cur m ! j \<le> q
          \<and> fits m sz k (g_early_top m ! j) q \<longrightarrow> \<not> fits m sz k limit q)" by blast
      have "early_alloc_loop m sz (2 ^ k) limit i = Some (m', p)"
        using True res None m'(1) by (subst early_alloc_loop.simps) simp
      moreover have "p = 0 \<longrightarrow> (\<forall>j q. i \<le> j \<and> j < length (g_avail m) \<and> g_early_cur m ! j \<le> q
          \<and> fits m sz k (g_early_top m ! j) q \<longrightarrow> \<not> fits m sz k limit q)"
      proof (intro impI allI, elim conjE)
        fix j q assume q: "p = 0" "i \<le> j" "j < length (g_avail m)" "g_early_cur m ! j \<le> q"
          "fits m sz k (g_early_top m ! j) q"
        show "\<not> fits m sz k limit q"
        proof (cases "j = i")
          case True
          with q none show ?thesis by simp
        next
          case False
          with q(2) have "Suc i \<le> j" by simp
          with q m'(4) show ?thesis by simp
        qed
      qed
      ultimately show ?thesis using m'(2,3) by (intro exI conjI)
    qed
  qed
qed

lemma early_alloc_top_loop_ok:
  assumes inv: "early_inv m" and sz: "0 < sz" and i: "i \<le> length (g_avail m)"
  shows "case early_alloc_top_loop m sz (2 ^ k) i of (m', p) \<Rightarrow> early_ok m sz k m' p"
  using i
proof (induction i)
  case 0
  with inv show ?case by (simp add: early_ok_def)
next
  case (Suc i)
  then have i: "i < length (g_avail m)" by simp
  show ?case
  proof (cases "early_top_fit m sz (2 ^ k) (g_early_cur m ! i) (r_start (g_avail m ! i)) (g_early_top m ! i)")
    case None
    with Suc show ?thesis by simp
  next
    case (Some s)
    from early_claim_top_ok [OF inv i sz] early_top_fit_sound [OF Some] Some show ?thesis by simp
  qed
qed

text \<open>After \<open>pmm_setup\<close> the whole of the usable memory is available.\<close>

lemma pmm_setup_inv:
  assumes "ranges_ok (g_avail m)" "\<forall>r\<in>set (g_avail m). unat (r_end r) \<le> 2 ^ 52"
    and "resv_bounded m" "length (g_resv m) < PMM_MAX_RESERVED" "0 < kend" "unat kend \<le> 2 ^ 52"
  shows "early_inv (pmm_setup kend m)" "early_space (pmm_setup kend m) = cover (g_avail m)"
proof -
  have k: "align_up kend 4096 \<noteq> 0" "unat (align_up kend 4096) \<le> 2 ^ 52"
    using align_up_phys(1,3) [of 12 kend] assms(5,6) by (auto simp: word_gt_0)
  have r: "g_resv (pmm_setup kend m) = g_resv m @ [\<lparr>r_start = 0, r_end = align_up kend 4096\<rparr>]"
    using assms(4,5) by (auto simp: pmm_setup_def pmm_reserve_def Let_def align_down_def word_gt_0)
  show "early_inv (pmm_setup kend m)"
    using assms(1-3) k unfolding early_inv_def resv_bounded_def r pmm_setup_cursors pmm_setup_map
    by (auto simp: ranges_ok_def word_gt_0 nth_mem intro: less_imp_le)
  have "cover l = (\<Union>i<length l. {r_start (l ! i) ..< r_end (l ! i)})" for l
    unfolding cover_def set_conv_nth by auto
  then show "early_space (pmm_setup kend m) = cover (g_avail m)"
    by (simp add: early_space_def pmm_setup_cursors)
qed

subsection \<open>Sequences of early allocations\<close>

text \<open>
  Successful calls to the two allocators, in any order, with the blocks they returned.
\<close>

definition phys_size :: "u64 \<Rightarrow> bool" where
  "phys_size sz \<longleftrightarrow> 0 < sz \<and> unat sz \<le> 2 ^ 52"

inductive early_steps :: "'a pmm_map_scheme \<Rightarrow> (u64 \<times> u64) list \<Rightarrow> 'a pmm_map_scheme \<Rightarrow> bool" where
  es_done: "early_steps m [] m"
| es_up: "early_alloc m sz (2 ^ k) limit = Some (m1, p) \<Longrightarrow> p \<noteq> 0 \<Longrightarrow> phys_size sz
    \<Longrightarrow> k \<le> 52 \<Longrightarrow> early_steps m1 bs m2 \<Longrightarrow> early_steps m ((p, sz) # bs) m2"
| es_down: "early_alloc_top m sz (2 ^ k) = (m1, p) \<Longrightarrow> p \<noteq> 0 \<Longrightarrow> 0 < sz
    \<Longrightarrow> early_steps m1 bs m2 \<Longrightarrow> early_steps m ((p, sz) # bs) m2"

definition block :: "u64 \<times> u64 \<Rightarrow> u64 set" where
  "block b = {fst b ..< fst b + snd b}"

definition blocks_ok :: "'a pmm_map_scheme \<Rightarrow> (u64 \<times> u64) list \<Rightarrow> 'a pmm_map_scheme \<Rightarrow> bool" where
  "blocks_ok m bs m' \<longleftrightarrow> early_inv m' \<and> early_space m' \<subseteq> early_space m \<and> g_resv m' = g_resv m
     \<and> (\<forall>b\<in>set bs. block b \<subseteq> early_space m - cover (g_resv m) \<and> block b \<inter> early_space m' = {})
     \<and> sorted_wrt (\<lambda>a b. block a \<inter> block b = {}) bs"

lemma blocks_ok_Cons:
  assumes ok: "early_ok m sz k m1 p" and "p \<noteq> 0" and b: "blocks_ok m1 bs m2"
  shows "blocks_ok m ((p, sz) # bs) m2"
proof -
  have s: "block (p, sz) \<subseteq> early_space m - cover (g_resv m)" "early_space m1 \<subseteq> early_space m - block (p, sz)"
    "g_resv m1 = g_resv m"
    using ok \<open>p \<noteq> 0\<close> by (simp_all add: early_ok_def block_def)
  have r: "early_inv m2" "early_space m2 \<subseteq> early_space m1" "g_resv m2 = g_resv m1"
    "\<forall>b\<in>set bs. block b \<subseteq> early_space m1 - cover (g_resv m1) \<and> block b \<inter> early_space m2 = {}"
    "sorted_wrt (\<lambda>a b. block a \<inter> block b = {}) bs"
    using b by (simp_all add: blocks_ok_def)
  have "block b \<subseteq> early_space m - cover (g_resv m) \<and> block (p, sz) \<inter> block b = {}" if "b \<in> set bs" for b
  proof -
    have "block b \<subseteq> early_space m1 - cover (g_resv m)" using r(4) that s(3) by simp
    with s(2) show ?thesis by blast
  qed
  moreover have "block (p, sz) \<inter> early_space m2 = {}" "early_space m2 \<subseteq> early_space m" using s r(2) by blast+
  ultimately show ?thesis using s(1,3) r by (simp add: blocks_ok_def)
qed

lemma early_steps_ok: "early_steps m bs m' \<Longrightarrow> early_inv m \<Longrightarrow> blocks_ok m bs m'"
proof (induction rule: early_steps.induct)
  case (es_done m)
  then show ?case by (simp add: blocks_ok_def)
next
  case (es_up m sz k limit m1 p bs m2)
  then have ok: "early_ok m sz k m1 p"
    using early_alloc_loop_ok [of m sz k limit 0] by (auto simp: early_alloc_def phys_size_def)
  then have "early_inv m1" by (simp add: early_ok_def)
  with ok es_up show ?case by (intro blocks_ok_Cons) simp_all
next
  case (es_down m sz k m1 p bs m2)
  then have ok: "early_ok m sz k m1 p"
    using early_alloc_top_loop_ok [of m sz "length (g_avail m)" k] by (simp add: early_alloc_top_def)
  then have "early_inv m1" by (simp add: early_ok_def)
  with ok es_down show ?case by (intro blocks_ok_Cons) simp_all
qed

definition one_range_map :: pmm_map where
  "one_range_map = empty_map\<lparr>g_avail := [\<lparr>r_start = 0x1000, r_end = 0x9000\<rparr>]\<rparr>"

lemma one_range_setup:
  "pmm_setup 0x2000 one_range_map = one_range_map\<lparr>g_early_cur := [0x1000], g_early_top := [0x9000],
     g_resv := [\<lparr>r_start = 0, r_end = 0x2000\<rparr>], total_memory := 0x8000, max_phys_addr_seen := 0x9000,
     g_managed_frames := 8\<rparr>"
  by (simp add: pmm_setup_def pmm_reserve_def one_range_map_def empty_map_def PMM_MAX_RESERVED_def
      align_up_def align_down_def)

subsection \<open>Properties\<close>

text \<open>
  C34.  Whatever sequence of early allocations, bottom-up and top-down, is made after
  \<open>pmm_setup\<close> on a memory map below $2^{52}$: every block lies inside usable memory and
  outside every reserved range (the kernel image among them), no two blocks overlap, and
  none overlaps what the allocator still has to give.
\<close>

theorem early_blocks_disjoint:
  assumes "ranges_ok (g_avail m)" "\<forall>r\<in>set (g_avail m). unat (r_end r) \<le> 2 ^ 52"
    and "resv_bounded m" "length (g_resv m) < PMM_MAX_RESERVED" "0 < kend" "unat kend \<le> 2 ^ 52"
    and "early_steps (pmm_setup kend m) bs m'"
  shows "(\<forall>b\<in>set bs. block b \<subseteq> cover (g_avail m) - cover (g_resv (pmm_setup kend m))
            \<and> block b \<inter> early_space m' = {})
       \<and> sorted_wrt (\<lambda>a b. block a \<inter> block b = {}) bs"
proof -
  note s = pmm_setup_inv [OF assms(1-6)]
  from early_steps_ok [OF assms(7) s(1)] show ?thesis by (simp add: blocks_ok_def s(2))
qed

theorem early_blocks_disjoint_witness:
  "\<exists>m'. early_steps (pmm_setup 0x2000 one_range_map) [(0x8000, 0x1000)] m'
     \<and> block (0x8000, 0x1000) \<subseteq> cover (g_avail one_range_map)
          - cover (g_resv (pmm_setup 0x2000 one_range_map))"
proof -
  let ?m = "pmm_setup 0x2000 one_range_map"
  have "early_alloc_top ?m 0x1000 (2 ^ 12) = (?m\<lparr>g_early_used := 1, g_early_top := [0x8000]\<rparr>, 0x8000)"
    unfolding one_range_setup
    by (simp add: early_alloc_top_def one_range_map_def empty_map_def early_top_fit.simps [of _ _ _ _ _ "0x9000"]
        resv_overlap_def early_claim_top_def align_up_def align_down_def)
  then have st: "early_steps ?m [(0x8000, 0x1000)] (?m\<lparr>g_early_used := 1, g_early_top := [0x8000]\<rparr>)"
    by (rule es_down) (simp_all add: es_done)
  have "block (0x8000, 0x1000) \<subseteq> cover (g_avail one_range_map) - cover (g_resv ?m)"
    using early_blocks_disjoint [OF _ _ _ _ _ _ st]
    by (simp add: one_range_map_def empty_map_def ranges_ok_def resv_bounded_def PMM_MAX_RESERVED_def)
  with st show ?thesis by blast
qed

text \<open>
  C35.  The bottom-up early allocator always returns, and it answers 0 only when no aligned
  placement below the limit and clear of the reserved ranges is left between the cursors
  of any usable range; the map is then unchanged.
\<close>

theorem early_alloc_complete:
  assumes "early_inv m" "0 < sz" "unat sz \<le> 2 ^ 52" "k \<le> 52"
  shows "\<exists>m' p. early_alloc m sz (2 ^ k) limit = Some (m', p)
    \<and> (p = 0 \<longrightarrow> m' = m \<and> (\<forall>j < length (g_avail m). \<forall>q \<ge> g_early_cur m ! j.
          fits m sz k (g_early_top m ! j) q \<longrightarrow> \<not> fits m sz k limit q))
    \<and> (p \<noteq> 0 \<longrightarrow> fits m sz k limit p)"
proof -
  obtain m' p where a: "early_alloc m sz (2 ^ k) limit = Some (m', p)" "early_ok m sz k m' p"
    "p \<noteq> 0 \<longrightarrow> fits m sz k limit p"
    "p = 0 \<longrightarrow> (\<forall>j q. 0 \<le> j \<and> j < length (g_avail m) \<and> g_early_cur m ! j \<le> q
          \<and> fits m sz k (g_early_top m ! j) q \<longrightarrow> \<not> fits m sz k limit q)"
    using early_alloc_loop_ok [OF assms, of limit 0] unfolding early_alloc_def by (elim exE conjE)
  moreover have "p = 0 \<longrightarrow> m' = m" using a(2) by (simp add: early_ok_def)
  ultimately show ?thesis by (intro exI [of _ m'] exI [of _ p]) simp
qed

theorem early_alloc_complete_witness:
  "\<exists>m' p. early_alloc (pmm_setup 0x2000 one_range_map) 0x1000 (2 ^ 12) 0x20000000 = Some (m', p)"
proof -
  have "early_inv (pmm_setup 0x2000 one_range_map)"
    by (intro pmm_setup_inv)
      (simp_all add: one_range_map_def empty_map_def ranges_ok_def resv_bounded_def PMM_MAX_RESERVED_def)
  from early_alloc_complete [OF this, of "0x1000" 12 "0x20000000"] show ?thesis by auto
qed

end
