(* ===== verification/Popcount.thy ===== *)
theory Popcount
  imports Prelude
begin

text \<open>
  \<open>popcount64\<close> of \<open>mm/pmm.c\<close>: the branch-free population count the frame
  allocator uses for its free-frame accounting, with the proof that its four
  mask-and-add steps compute the number of set bits.  The steps are followed on natural
  numbers in base 4, 16 and 256: \<open>dsum b n x\<close> is the sum of the \<open>n\<close> lowest
  base-\<open>b\<close> digits of \<open>x\<close>, \<open>dle b l n x\<close> says that these digits are at most
  \<open>l\<close> and that nothing is left above them.
\<close>

definition popcount64 :: "u64 \<Rightarrow> u64" where
  "popcount64 x0 =
    (let x1 = x0 - ((drop_bit 1 x0) AND 0x5555555555555555);
         x2 = (x1 AND 0x3333333333333333) + ((drop_bit 2 x1) AND 0x3333333333333333);
         x3 = (x2 + drop_bit 4 x2) AND 0x0F0F0F0F0F0F0F0F
     in drop_bit 56 (x3 * 0x0101010101010101))"

fun popcount_nat :: "nat \<Rightarrow> nat \<Rightarrow> nat" where
  "popcount_nat 0 x = 0"
| "popcount_nat (Suc n) x = of_bool (odd x) + popcount_nat n (x div 2)"

text \<open>masks with n digits in base b\<close>
fun rep_mask :: "nat \<Rightarrow> nat \<Rightarrow> nat \<Rightarrow> nat" where
  "rep_mask b d 0 = 0"
| "rep_mask b d (Suc n) = d + b * rep_mask b d n"

fun dsum :: "nat \<Rightarrow> nat \<Rightarrow> nat \<Rightarrow> nat" where
  "dsum b 0 x = 0"
| "dsum b (Suc n) x = x mod b + dsum b n (x div b)"

fun dle :: "nat \<Rightarrow> nat \<Rightarrow> nat \<Rightarrow> nat \<Rightarrow> bool" where
  "dle b l 0 x = (x = 0)"
| "dle b l (Suc n) x = (x mod b \<le> l \<and> dle b l n (x div b))"

lemma dsum_digit: "d < b \<Longrightarrow> dsum b (Suc n) (d + b * y) = d + dsum b n y"
  and dle_digit: "d < b \<Longrightarrow> dle b l (Suc n) (d + b * y) = (d \<le> l \<and> dle b l n y)"
  by simp_all

lemma pop_step1:
  "x < 4 ^ n \<Longrightarrow> dsum 4 n (x - (x div 2 AND rep_mask 4 1 n)) = popcount_nat (2 * n) x
     \<and> dle 4 2 n (x - (x div 2 AND rep_mask 4 1 n))"
proof (induction n arbitrary: x)
  case 0
  then show ?case by simp
next
  case (Suc n)
  obtain p w where x: "x = p + 2 * w" "p < 2" "x mod 2 = p" "x div 2 = w"
    by (rule digit_cases [of 2 x]) simp_all
  obtain q y where w: "w = q + 2 * y" "q < 2" "w mod 2 = q" "w div 2 = y"
    by (rule digit_cases [of 2 w]) simp_all
  obtain r t where y: "y = r + 2 * t" "r < 2" "y mod 2 = r" "y div 2 = t"
    by (rule digit_cases [of 2 y]) simp_all
  have y4: "y < 4 ^ n" using Suc.prems x(1) w(1) by simp
  let ?m = "rep_mask 4 1 n"
  have "(q + 2 * r) AND 1 = q" using w(2) by (simp add: and_one_eq)
  moreover have "x div 2 = (q + 2 * r) + 4 * t" using x(4) w(1) y(1) by simp
  ultimately have a: "x div 2 AND rep_mask 4 1 (Suc n) = q + 4 * (t AND ?m)"
    using and_add_shifted [of "q + 2 * r" 2 1 t ?m] w(2) y(2) by simp
  have le: "t AND ?m \<le> y" using and_nat_le1 [of t ?m] y(1) by simp
  have r: "x - (x div 2 AND rep_mask 4 1 (Suc n)) = (p + q) + 4 * (y - (y div 2 AND ?m))"
    unfolding a y(4) using x(1) w(1) le by (simp add: diff_mult_distrib2)
  have pc: "popcount_nat (2 * Suc n) x = p + q + popcount_nat (2 * n) y"
    using x(2-4) w(2-4) by (auto simp: odd_iff_mod_2_eq_one of_bool_def less_2_cases_iff)
  have d: "p + q < 4" "p + q \<le> 2" using x(2) w(2) by simp_all
  show ?case unfolding r pc dsum_digit [OF d(1)] dle_digit [OF d(1)]
    using Suc.IH [OF y4] d(2) by simp
qed

lemma pop_step2:
  "dle 4 2 (2 * n) z \<Longrightarrow>
     dsum 16 n ((z AND rep_mask 16 3 n) + (z div 4 AND rep_mask 16 3 n)) = dsum 4 (2 * n) z
     \<and> dle 16 4 n ((z AND rep_mask 16 3 n) + (z div 4 AND rep_mask 16 3 n))"
proof (induction n arbitrary: z)
  case 0
  then show ?case by simp
next
  case (Suc n)
  obtain e y where z: "z = e + 16 * y" and e: "e < 16" by (rule digit_cases [of 16 z]) simp_all
  obtain a b where ab: "e = a + 4 * b" and a: "a < 4" by (rule digit_cases [of 4 e]) simp_all
  with e have b: "b < 4" by simp
  let ?m = "rep_mask 16 3 n"
  have zd: "z mod 4 = a" "z div 4 = b + 4 * y" "(b + 4 * y) mod 4 = b" "(b + 4 * y) div 4 = y"
  proof -
    have z': "z = a + 4 * (b + 4 * y)" using z ab by simp
    show "z mod 4 = a" "z div 4 = b + 4 * y"
      unfolding z' by (rule digit_mod [OF a], rule digit_div [OF a])
    show "(b + 4 * y) mod 4 = b" "(b + 4 * y) div 4 = y"
      by (rule digit_mod [OF b], rule digit_div [OF b])
  qed
  have prem: "a \<le> 2" "b \<le> 2" "dle 4 2 (2 * n) y"
    using Suc.prems a b by (simp_all add: zd)
  have ds: "dsum 4 (2 * Suc n) z = a + b + dsum 4 (2 * n) y" using a b by (simp add: zd)
  have "(a + 4 * b) AND 3 = a"
    using and_add_shifted [of a 2 3 b 0] a by (simp add: and_3_eq_mod)
  then have l: "z AND rep_mask 16 3 (Suc n) = a + 16 * (y AND ?m)"
    using and_add_shifted [of "a + 4 * b" 4 3 y ?m] e ab z by simp
  have z4: "z div 4 = (b + 4 * (y mod 4)) + 16 * (y div 4)"
  proof -
    obtain r q where yr: "y = r + 4 * q" "y mod 4 = r" "y div 4 = q"
      by (rule digit_cases [of 4 y]) simp_all
    show ?thesis unfolding zd(2) yr(2,3) using yr(1) by simp
  qed
  have "(b + 4 * (y mod 4)) AND 3 = b"
    using and_add_shifted [of b 2 3 "y mod 4" 0] b by (simp add: and_3_eq_mod)
  moreover have "b + 4 * (y mod 4) < 16" using b by simp
  ultimately have h: "z div 4 AND rep_mask 16 3 (Suc n) = b + 16 * (y div 4 AND ?m)"
    using and_add_shifted [of "b + 4 * (y mod 4)" 4 3 "y div 4" ?m] by (simp add: z4)
  have s: "(z AND rep_mask 16 3 (Suc n)) + (z div 4 AND rep_mask 16 3 (Suc n))
      = (a + b) + 16 * ((y AND ?m) + (y div 4 AND ?m))"
    unfolding l h by simp
  have ab: "a + b < 16" using prem by simp
  show ?case unfolding s ds dsum_digit [OF ab] dle_digit [OF ab]
    using Suc.IH [OF prem(3)] prem(1,2) by simp
qed

lemma pop_step3:
  "dle 16 4 (2 * n) z \<Longrightarrow>
     dsum 256 n ((z + z div 16) AND rep_mask 256 15 n) = dsum 16 (2 * n) z
     \<and> dle 256 8 n ((z + z div 16) AND rep_mask 256 15 n)"
proof (induction n arbitrary: z)
  case 0
  then show ?case by simp
next
  case (Suc n)
  obtain e y where z: "z = e + 256 * y" and e: "e < 256" by (rule digit_cases [of 256 z]) simp_all
  obtain a b where ab: "e = a + 16 * b" and a: "a < 16" by (rule digit_cases [of 16 e]) simp_all
  with e have b: "b < 16" by simp
  let ?m = "rep_mask 256 15 n"
  have zd: "z mod 16 = a" "z div 16 = b + 16 * y" "(b + 16 * y) mod 16 = b" "(b + 16 * y) div 16 = y"
  proof -
    have z': "z = a + 16 * (b + 16 * y)" using z ab by simp
    show "z mod 16 = a" "z div 16 = b + 16 * y"
      unfolding z' by (rule digit_mod [OF a], rule digit_div [OF a])
    show "(b + 16 * y) mod 16 = b" "(b + 16 * y) div 16 = y"
      by (rule digit_mod [OF b], rule digit_div [OF b])
  qed
  have prem: "a \<le> 4" "b \<le> 4" "dle 16 4 (2 * n) y"
    using Suc.prems a b by (simp_all add: zd)
  have ds: "dsum 16 (2 * Suc n) z = a + b + dsum 16 (2 * n) y" using a b by (simp add: zd)
  have ym: "y mod 16 \<le> 4" using prem(3) by (cases n) auto
  have "((a + b) + 16 * (b + y mod 16)) AND 15 = a + b"
    using and_add_shifted [of "a + b" 4 15 "b + y mod 16" 0] prem by (simp add: and_15_eq_mod)
  moreover have "(a + b) + 16 * (b + y mod 16) < 256"
  proof -
    have "16 * (b + y mod 16) \<le> 16 * 8" using prem(2) ym by (intro mult_le_mono2) simp
    with prem(1,2) show ?thesis by simp
  qed
  moreover have "z + z div 16 = ((a + b) + 16 * (b + y mod 16)) + 256 * (y + y div 16)"
  proof -
    obtain r q where yr: "y = r + 16 * q" "y mod 16 = r" "y div 16 = q"
      by (rule digit_cases [of 16 y]) simp_all
    show ?thesis unfolding zd(2) yr(2,3) using z ab yr(1) by simp
  qed
  ultimately have h: "(z + z div 16) AND rep_mask 256 15 (Suc n) = (a + b) + 256 * ((y + y div 16) AND ?m)"
    using and_add_shifted [of "(a + b) + 16 * (b + y mod 16)" 8 15 "y + y div 16" ?m] by simp
  have ab: "a + b < 256" using prem by simp
  show ?case unfolding h ds dsum_digit [OF ab] dle_digit [OF ab]
    using Suc.IH [OF prem(3)] prem(1,2) by simp
qed

lemma byte_sums_lt:
  fixes b0 b1 b2 b3 b4 b5 b6 b7 :: nat
  assumes "b0 \<le> 8" "b1 \<le> 8" "b2 \<le> 8" "b3 \<le> 8" "b4 \<le> 8" "b5 \<le> 8" "b6 \<le> 8" "b7 \<le> 8"
  shows "b0 + 256 * (b0 + b1) + 65536 * (b0 + b1 + b2) + 16777216 * (b0 + b1 + b2 + b3)
     + 4294967296 * (b0 + b1 + b2 + b3 + b4) + 1099511627776 * (b0 + b1 + b2 + b3 + b4 + b5)
     + 281474976710656 * (b0 + b1 + b2 + b3 + b4 + b5 + b6) < 72057594037927936"
  using assms by simp

lemma byte_product:
  fixes b0 b1 b2 b3 b4 b5 b6 b7 :: nat
  shows "(b0 + 256 * (b1 + 256 * (b2 + 256 * (b3 + 256 * (b4 + 256 * (b5 + 256 * (b6 + 256 * b7)))))))
     * 72340172838076673 =
    (b0 + 256 * (b0 + b1) + 65536 * (b0 + b1 + b2) + 16777216 * (b0 + b1 + b2 + b3)
     + 4294967296 * (b0 + b1 + b2 + b3 + b4) + 1099511627776 * (b0 + b1 + b2 + b3 + b4 + b5)
     + 281474976710656 * (b0 + b1 + b2 + b3 + b4 + b5 + b6))
    + 72057594037927936 * (b0 + b1 + b2 + b3 + b4 + b5 + b6 + b7)
    + 18446744073709551616 * ((b1 + b2 + b3 + b4 + b5 + b6 + b7) + 256 * (b2 + b3 + b4 + b5 + b6 + b7)
     + 65536 * (b3 + b4 + b5 + b6 + b7) + 16777216 * (b4 + b5 + b6 + b7) + 4294967296 * (b5 + b6 + b7)
     + 1099511627776 * (b6 + b7) + 281474976710656 * b7)"
  by simp

lemma dsum_8: "dsum b 8 x = x mod b + (x div b mod b + (x div b div b mod b + (x div b div b div b mod b +
    (x div b div b div b div b mod b + (x div b div b div b div b div b mod b +
    (x div b div b div b div b div b div b mod b + x div b div b div b div b div b div b div b mod b))))))"
  by (simp add: eval_nat_numeral(2,3))

lemma dle_8: "dle b l 8 x = (x mod b \<le> l \<and> x div b mod b \<le> l \<and> x div b div b mod b \<le> l \<and>
    x div b div b div b mod b \<le> l \<and> x div b div b div b div b mod b \<le> l \<and>
    x div b div b div b div b div b mod b \<le> l \<and> x div b div b div b div b div b div b mod b \<le> l \<and>
    x div b div b div b div b div b div b div b mod b \<le> l \<and>
    x div b div b div b div b div b div b div b div b = 0)"
  by (simp add: eval_nat_numeral(2,3))

lemma pop_step4:
  assumes "dle 256 8 8 z"
  shows "(z * 0x0101010101010101) mod 2 ^ 64 div 2 ^ 56 = dsum 256 8 z \<and> dsum 256 8 z \<le> 64"
proof -
  obtain b0 z1 where 0: "z = b0 + 256 * z1" "z mod 256 = b0" "z div 256 = z1" by (rule digit_cases [of 256 z]) simp_all
  obtain b1 z2 where 1: "z1 = b1 + 256 * z2" "z1 mod 256 = b1" "z1 div 256 = z2" by (rule digit_cases [of 256 z1]) simp_all
  obtain b2 z3 where 2: "z2 = b2 + 256 * z3" "z2 mod 256 = b2" "z2 div 256 = z3" by (rule digit_cases [of 256 z2]) simp_all
  obtain b3 z4 where 3: "z3 = b3 + 256 * z4" "z3 mod 256 = b3" "z3 div 256 = z4" by (rule digit_cases [of 256 z3]) simp_all
  obtain b4 z5 where 4: "z4 = b4 + 256 * z5" "z4 mod 256 = b4" "z4 div 256 = z5" by (rule digit_cases [of 256 z4]) simp_all
  obtain b5 z6 where 5: "z5 = b5 + 256 * z6" "z5 mod 256 = b5" "z5 div 256 = z6" by (rule digit_cases [of 256 z5]) simp_all
  obtain b6 z7 where 6: "z6 = b6 + 256 * z7" "z6 mod 256 = b6" "z6 div 256 = z7" by (rule digit_cases [of 256 z6]) simp_all
  obtain b7 z8 where 7: "z7 = b7 + 256 * z8" "z7 mod 256 = b7" "z7 div 256 = z8" by (rule digit_cases [of 256 z7]) simp_all
  note d = 0(2,3) 1(2,3) 2(2,3) 3(2,3) 4(2,3) 5(2,3) 6(2,3) 7(2,3)
  have le: "b0 \<le> 8" "b1 \<le> 8" "b2 \<le> 8" "b3 \<le> 8" "b4 \<le> 8" "b5 \<le> 8" "b6 \<le> 8" "b7 \<le> 8" and z8: "z8 = 0"
    using assms unfolding dle_8 d by simp_all
  let ?S = "b0 + b1 + b2 + b3 + b4 + b5 + b6 + b7"
  have s: "dsum 256 8 z = ?S" unfolding dsum_8 d by simp
  let ?L = "b0 + 256 * (b0 + b1) + 65536 * (b0 + b1 + b2) + 16777216 * (b0 + b1 + b2 + b3)
     + 4294967296 * (b0 + b1 + b2 + b3 + b4) + 1099511627776 * (b0 + b1 + b2 + b3 + b4 + b5)
     + 281474976710656 * (b0 + b1 + b2 + b3 + b4 + b5 + b6)"
  have L: "?L < 72057594037927936" by (rule byte_sums_lt [OF le])
  have S: "?S \<le> 64" using le by simp
  have "?L + 72057594037927936 * ?S < 72057594037927936 + 72057594037927936 * 64"
    by (rule add_less_le_mono [OF L mult_le_mono2 [OF S]])
  then have "?L + 72057594037927936 * ?S < 18446744073709551616"
    by (rule less_trans) simp
  moreover have "z = b0 + 256 * (b1 + 256 * (b2 + 256 * (b3 + 256 * (b4 + 256 * (b5 + 256 * (b6 + 256 * b7))))))"
    using 0(1) 1(1) 2(1) 3(1) 4(1) 5(1) 6(1) 7(1) z8 by simp
  ultimately have "(z * 72340172838076673) mod 18446744073709551616 = ?L + 72057594037927936 * ?S"
    by (simp only: byte_product mod_mult_self2 mod_less)
  moreover have "(?L + 72057594037927936 * ?S) div 72057594037927936 = ?S"
    by (rule digit_div [OF L])
  ultimately have "(z * 72340172838076673) mod 18446744073709551616 div 72057594037927936 = ?S"
    by (simp only:)
  with s S show ?thesis by simp
qed

lemma rep_mask_closed: "c * rep_mask (Suc c) d n + d = d * Suc c ^ n"
proof (induction n)
  case (Suc n)
  have "c * rep_mask (Suc c) d (Suc n) + d = Suc c * (c * rep_mask (Suc c) d n + d)"
    by (simp add: algebra_simps)
  then show ?case unfolding Suc.IH by (simp add: algebra_simps)
qed simp

lemma rep_masks: "rep_mask 4 1 32 = 0x5555555555555555" "rep_mask 16 3 16 = 0x3333333333333333"
   "rep_mask 256 15 8 = 0x0F0F0F0F0F0F0F0F"
  using rep_mask_closed [of 3 1 32] rep_mask_closed [of 15 3 16] rep_mask_closed [of 255 15 8] by simp_all

lemma popcount_nat_card: "popcount_nat n x = card {i. i < n \<and> bit x i}"
proof (induction n arbitrary: x)
  case (Suc n)
  have "{i. i < Suc n \<and> bit x i} = (if odd x then {0} else {}) \<union> Suc ` {i. i < n \<and> bit (x div 2) i}"
    by (auto simp: bit_Suc bit_0 image_iff split: if_splits) (metis bit_0 bit_Suc less_Suc_eq_0_disj not0_implies_Suc)+
  then show ?case by (simp add: Suc.IH card_image)
qed simp

lemma popcount64_card: "unat (popcount64 x) = card {i. bit x i}"
proof -
  let ?x = "unat x"
  let ?z1 = "?x - (?x div 2 AND rep_mask 4 1 32)"
  let ?z2 = "(?z1 AND rep_mask 16 3 16) + (?z1 div 4 AND rep_mask 16 3 16)"
  let ?z3 = "(?z2 + ?z2 div 16) AND rep_mask 256 15 8"
  have x: "?x < 4 ^ 32" using unsigned_less [of x] by simp
  have p1: "dsum 4 32 ?z1 = popcount_nat 64 ?x" "dle 4 2 32 ?z1" using pop_step1 [OF x] by simp_all
  have p2: "dsum 16 16 ?z2 = popcount_nat 64 ?x" "dle 16 4 16 ?z2" using pop_step2 [of 16 ?z1] p1 by simp_all
  have p3: "dsum 256 8 ?z3 = popcount_nat 64 ?x" "dle 256 8 8 ?z3" using pop_step3 [of 8 ?z2] p2 by simp_all
  have m: "unat (0x5555555555555555::64 word) = rep_mask 4 1 32" "unat (0x3333333333333333::64 word) = rep_mask 16 3 16"
    "unat (0x0F0F0F0F0F0F0F0F::64 word) = rep_mask 256 15 8"
    unfolding rep_masks by simp_all
  define x1 where "x1 = x - ((drop_bit 1 x) AND 0x5555555555555555)"
  define x2 where "x2 = (x1 AND 0x3333333333333333) + ((drop_bit 2 x1) AND 0x3333333333333333)"
  define x3 where "x3 = (x2 + drop_bit 4 x2) AND 0x0F0F0F0F0F0F0F0F"
  have "unat (drop_bit 1 x AND 0x5555555555555555) = (?x div 2 AND rep_mask 4 1 32)"
    by (simp add: unsigned_and_eq drop_bit_eq_div unat_div m(1) [simplified])
  moreover have "(?x div 2 AND rep_mask 4 1 32) \<le> ?x" using and_nat_le1 [of "?x div 2" "rep_mask 4 1 32"] by simp
  ultimately have u1: "unat x1 = ?z1" by (simp add: x1_def unat_sub word_le_nat_alt)
  have l2: "(y AND rep_mask 16 3 16) \<le> 0x3333333333333333" for y
    using and_nat_le2 [of y "rep_mask 16 3 16"] by (simp add: rep_masks)
  have le2: "?z2 \<le> 0x6666666666666666" using l2 [of ?z1] l2 [of "?z1 div 4"] by linarith
  have u2: "unat x2 = ?z2"
    using le2 by (simp add: x2_def unat_word_ariths(1) unsigned_and_eq drop_bit_eq_div unat_div u1 m(2) [simplified])
  have aux: "w + w div 16 < 2 ^ 64" if "w \<le> 0x6666666666666666" for w :: nat
    using that div_le_dividend [of w 16] by (simp del: div_le_dividend)
  have "?z2 + ?z2 div 16 < 2 ^ 64" by (rule aux [OF le2])
  then have u3: "unat x3 = ?z3"
    by (simp add: x3_def unat_word_ariths(1) unsigned_and_eq drop_bit_eq_div unat_div u2 m(3) [simplified])
  have "unat (drop_bit 56 (x3 * 0x0101010101010101)) = (?z3 * 0x0101010101010101) mod 2 ^ 64 div 2 ^ 56"
    by (simp add: drop_bit_eq_div unat_div unat_word_ariths(2) u3)
  also have "\<dots> = popcount_nat 64 ?x" by (rule trans [OF conjunct1 [OF pop_step4 [OF p3(2)]] p3(1)])
  also have "\<dots> = card {i. bit x i}"
    unfolding popcount_nat_card by (rule arg_cong [where f = card]) (auto simp: bit_unsigned_iff dest: bit_imp_le_length)
  finally show ?thesis unfolding popcount64_def Let_def x1_def [symmetric] x2_def [symmetric] x3_def [symmetric] .
qed
end
