(* ===== verification/Pmm_Section.thy ===== *)
theory Pmm_Section
  imports Popcount
begin

text \<open>
  One section of the physical memory manager (\<open>mm/pmm.c\<close>): a 1 GiB slice of
  physical memory with one bit per frame, a summary bit per bitmap word, a free counter
  and a scan hint.  \<open>sec_mark\<close> changes the state of a range of frames, \<open>sec_find\<close>
  looks for a free frame.  Frame and word indices are relative to the section and kept as
  \<open>nat\<close>; the code's \<open>>> 6\<close> and \<open>& 63\<close> are \<open>div 64\<close> and \<open>mod 64\<close>.
  The C arrays \<open>bitmap\<close>, \<open>summary\<close>, \<open>refs\<close> and \<open>refs_used\<close> are functions of
  their index.
\<close>

subsection \<open>Geometry and state\<close>

definition PMM_FRAME_SIZE :: u64 where
  "PMM_FRAME_SIZE = 4096"

definition PMM_SECTION_FRAMES :: nat where
  "PMM_SECTION_FRAMES = 2 ^ 18"

definition PMM_SECTION_WORDS :: nat where
  "PMM_SECTION_WORDS = PMM_SECTION_FRAMES div 64"

text \<open>
  A refcount chunk: the frame that holds it and its 4096 saturating counters.
\<close>

record ref_chunk =
  chunk_phys :: u64
  chunk_cnt :: "nat \<Rightarrow> u8"

record pmm_section =
  sec_free :: u32
  sec_hint :: u32
  sec_refs :: "nat \<Rightarrow> ref_chunk option"
  sec_refs_used :: "nat \<Rightarrow> u16"
  sec_summary :: "nat \<Rightarrow> u64"
  sec_bitmap :: "nat \<Rightarrow> u64"

subsection \<open>Operations\<close>

definition sec_summary_update :: "pmm_section \<Rightarrow> nat \<Rightarrow> pmm_section" where
  "sec_summary_update s w =
    (let b = push_bit (w mod 64) 1; sw = sec_summary s (w div 64)
     in s\<lparr>sec_summary := (sec_summary s)
           (w div 64 := if sec_bitmap s w = ones64 then sw OR b else sw AND NOT b)\<rparr>)"

function sec_mark_loop ::
  "pmm_section \<Rightarrow> nat \<Rightarrow> nat \<Rightarrow> bool \<Rightarrow> u64 \<Rightarrow> pmm_section \<times> u64" where
  "sec_mark_loop s lo hi st changed =
    (if lo < hi then
       let w = lo div 64; b = lo mod 64;
           n = (if 64 - b > hi - lo then hi - lo else 64 - b);
           mask = (if n = 64 then ones64 else push_bit b (push_bit n 1 - 1));
           old = sec_bitmap s w;
           nw = (if st then old OR mask else old AND NOT mask)
       in sec_mark_loop (sec_summary_update (s\<lparr>sec_bitmap := (sec_bitmap s)(w := nw)\<rparr>) w)
            (lo + n) hi st (changed + popcount64 (old XOR nw))
     else (s, changed))"
  by pat_completeness auto
termination by (relation "measure (\<lambda>(s, lo, hi, st, c). hi - lo)") auto

definition sec_mark :: "pmm_section \<Rightarrow> nat \<Rightarrow> nat \<Rightarrow> bool \<Rightarrow> pmm_section \<times> u64" where
  "sec_mark s lo hi st =
    (let (s', changed) = sec_mark_loop s lo hi st 0
     in (s'\<lparr>sec_free := (if st then sec_free s' - ucast changed
                           else sec_free s' + ucast changed)\<rparr>, changed))"

text \<open>
  One pass of the scan of \<open>sec_find\<close> over the words \<open>w .. w_end - 1\<close>: the word where
  it stopped and the frame found.
\<close>

function sec_scan :: "pmm_section \<Rightarrow> nat \<Rightarrow> nat \<Rightarrow> nat \<Rightarrow> (nat \<times> nat) option" where
  "sec_scan s mx w w_end =
    (if w < w_end then
       let sw = sec_summary s (w div 64) OR (push_bit (w mod 64) 1 - 1)
       in if sw = ones64 then sec_scan s mx (w div 64 * 64 + 63 + 1) w_end
          else let w' = w div 64 * 64 + ctz64 (NOT sw)
               in if w' \<ge> w_end then None
                  else let f = w' * 64 + ctz64 (NOT (sec_bitmap s w'))
                       in if f < mx then Some (w', f) else None
     else None)"
  by pat_completeness auto
termination
proof (relation "measure (\<lambda>(s, mx, w, w_end). w_end - w)", goal_cases)
  case (2 s mx w w_end x)
  have "w mod 64 < 64" by simp
  then have "w < w div 64 * 64 + 63 + 1" using div_mult_mod_eq [of w 64] by linarith
  with 2 show ?case by simp
qed simp

definition sec_find :: "pmm_section \<Rightarrow> nat \<Rightarrow> pmm_section \<times> nat option" where
  "sec_find s mx =
    (if sec_free s = 0 then (s, None)
     else let max_w = (mx + 63) div 64;
              start = (if unat (sec_hint s) < max_w then unat (sec_hint s) else 0)
          in case sec_scan s mx start max_w of
               Some (w, f) \<Rightarrow> (s\<lparr>sec_hint := of_nat w\<rparr>, Some f)
             | None \<Rightarrow> (case sec_scan s mx 0 start of
                 Some (w, f) \<Rightarrow> (s\<lparr>sec_hint := of_nat w\<rparr>, Some f)
               | None \<Rightarrow> (s, None)))"

subsection \<open>What a section means\<close>

definition frame_used :: "pmm_section \<Rightarrow> nat \<Rightarrow> bool" where
  "frame_used s f \<longleftrightarrow> bit (sec_bitmap s (f div 64)) (f mod 64)"

definition sec_free_set :: "pmm_section \<Rightarrow> nat set" where
  "sec_free_set s = {f. f < PMM_SECTION_FRAMES \<and> \<not> frame_used s f}"

definition summary_ok :: "pmm_section \<Rightarrow> bool" where
  "summary_ok s \<longleftrightarrow> (\<forall>w < PMM_SECTION_WORDS.
     bit (sec_summary s (w div 64)) (w mod 64) \<longleftrightarrow> sec_bitmap s w = ones64)"

text \<open>
  The invariant of a section: the summary is exact and the counter is the number of clear
  bits.
\<close>

definition sec_inv :: "pmm_section \<Rightarrow> bool" where
  "sec_inv s \<longleftrightarrow> summary_ok s \<and> unat (sec_free s) = card (sec_free_set s)"

declare sec_mark_loop.simps [simp del] sec_scan.simps [simp del]

subsection \<open>Marking\<close>

text \<open>
  One iteration of the marking loop, seen on frames: inside a single bitmap word the
  frames \<open>lo .. lo + n - 1\<close> take the new state and the number of flipped bits is the
  number of frames that were in the other state.
\<close>

definition mark_word :: "u64 \<Rightarrow> nat \<Rightarrow> nat \<Rightarrow> bool \<Rightarrow> u64" where
  "mark_word old b n st =
    (let mask = (if n = 64 then ones64 else push_bit b (push_bit n 1 - 1))
     in if st then old OR mask else old AND NOT mask)"

lemma bit_mark_word:
  assumes "b + n \<le> 64" "i < 64"
  shows "bit (mark_word old b n st) i \<longleftrightarrow> (if b \<le> i \<and> i < b + n then st else bit old i)"
  using assms bit_segment_mask [of b n i]
  by (auto simp: mark_word_def Let_def bit_or_iff bit_and_iff bit_not_iff)

lemma mark_word_changed:
  assumes "b + n \<le> 64"
  shows "{i. bit (old XOR mark_word old b n st) i} = {i. b \<le> i \<and> i < b + n \<and> bit old i \<noteq> st}"
proof -
  have "bit (old XOR mark_word old b n st) i \<longleftrightarrow> b \<le> i \<and> i < b + n \<and> bit old i \<noteq> st" for i
  proof (cases "i < 64")
    case True
    with assms show ?thesis by (auto simp: bit_xor_iff bit_mark_word)
  next
    case False
    with assms show ?thesis by (auto dest: bit_imp_le_length)
  qed
  then show ?thesis by blast
qed

definition mark_step :: "pmm_section \<Rightarrow> nat \<Rightarrow> nat \<Rightarrow> bool \<Rightarrow> pmm_section" where
  "mark_step s lo n st =
    sec_summary_update (s\<lparr>sec_bitmap := (sec_bitmap s)
      (lo div 64 := mark_word (sec_bitmap s (lo div 64)) (lo mod 64) n st)\<rparr>) (lo div 64)"

definition seg_len :: "nat \<Rightarrow> nat \<Rightarrow> nat" where
  "seg_len lo hi = (if 64 - lo mod 64 > hi - lo then hi - lo else 64 - lo mod 64)"

lemma seg_len_bounds:
  "lo < hi \<Longrightarrow> 0 < seg_len lo hi" "lo < hi \<Longrightarrow> lo + seg_len lo hi \<le> hi"
  "lo mod 64 + seg_len lo hi \<le> 64"
  by (auto simp: seg_len_def)

lemma sec_mark_loop_unfold:
  "sec_mark_loop s lo hi st c =
    (if lo < hi
     then sec_mark_loop (mark_step s lo (seg_len lo hi) st) (lo + seg_len lo hi) hi st
            (c + popcount64 (sec_bitmap s (lo div 64)
               XOR mark_word (sec_bitmap s (lo div 64)) (lo mod 64) (seg_len lo hi) st))
     else (s, c))"
  by (subst sec_mark_loop.simps) (simp only: Let_def mark_step_def mark_word_def seg_len_def)

lemma same_word_iff:
  "lo mod 64 + n \<le> (64::nat) \<Longrightarrow>
    (f div 64 = lo div 64 \<and> lo mod 64 \<le> f mod 64 \<and> f mod 64 < lo mod 64 + n) \<longleftrightarrow> lo \<le> f \<and> f < lo + n"
proof -
  assume n: "lo mod 64 + n \<le> 64"
  have f: "f = f div 64 * 64 + f mod 64" and lo: "lo = lo div 64 * 64 + lo mod 64"
    by simp_all
  show ?thesis
  proof
    assume "f div 64 = lo div 64 \<and> lo mod 64 \<le> f mod 64 \<and> f mod 64 < lo mod 64 + n"
    then show "lo \<le> f \<and> f < lo + n" using f lo by linarith
  next
    assume a: "lo \<le> f \<and> f < lo + n"
    then have "lo div 64 \<le> f div 64" by (simp add: div_le_mono)
    moreover have "f < Suc (lo div 64) * 64" using a n lo unfolding mult_Suc by linarith
    then have "f div 64 < Suc (lo div 64)" by (simp only: div_less_iff_less_mult)
    ultimately have "f div 64 = lo div 64" by simp
    with a f lo show "f div 64 = lo div 64 \<and> lo mod 64 \<le> f mod 64 \<and> f mod 64 < lo mod 64 + n"
      by linarith
  qed
qed

lemma frame_used_mark_step:
  assumes "lo mod 64 + n \<le> 64"
  shows "frame_used (mark_step s lo n st) f \<longleftrightarrow> (if lo \<le> f \<and> f < lo + n then st else frame_used s f)"
  using same_word_iff [OF assms, of f] bit_mark_word [OF assms, of "f mod 64"]
  by (auto simp: frame_used_def mark_step_def sec_summary_update_def Let_def)

lemma mark_step_count:
  assumes "lo mod 64 + n \<le> 64"
  shows "unat (popcount64 (sec_bitmap s (lo div 64)
           XOR mark_word (sec_bitmap s (lo div 64)) (lo mod 64) n st))
         = card {f. lo \<le> f \<and> f < lo + n \<and> frame_used s f \<noteq> st}"
proof -
  let ?g = "\<lambda>i. lo div 64 * 64 + i"
  have "{f. lo \<le> f \<and> f < lo + n \<and> frame_used s f \<noteq> st} =
      ?g ` {i. lo mod 64 \<le> i \<and> i < lo mod 64 + n \<and> bit (sec_bitmap s (lo div 64)) i \<noteq> st}"
    (is "?A = ?g ` ?B")
  proof (intro set_eqI iffI)
    fix f assume f: "f \<in> ?A"
    then have "f div 64 = lo div 64 \<and> lo mod 64 \<le> f mod 64 \<and> f mod 64 < lo mod 64 + n"
      using same_word_iff [OF assms] by blast
    with f show "f \<in> ?g ` ?B"
      using div_mult_mod_eq [of f 64]
      by (intro image_eqI [of _ _ "f mod 64"]) (simp_all add: frame_used_def)
  next
    fix f assume "f \<in> ?g ` ?B"
    then obtain i where i: "f = lo div 64 * 64 + i" "i \<in> ?B" by blast
    then have "f div 64 = lo div 64" "f mod 64 = i" using assms by simp_all
    with i show "f \<in> ?A" using same_word_iff [OF assms, of f] by (auto simp: frame_used_def)
  qed
  then show ?thesis
    by (simp add: popcount64_card mark_word_changed [OF assms] card_image inj_on_def)
qed

lemma summary_ok_mark_step:
  "summary_ok s \<Longrightarrow> summary_ok (mark_step s lo n st)"
proof -
  assume ok: "summary_ok s"
  have "bit (sec_summary (mark_step s lo n st) (w div 64)) (w mod 64)
      \<longleftrightarrow> sec_bitmap (mark_step s lo n st) w = ones64" if w: "w < PMM_SECTION_WORDS" for w
  proof (cases "w = lo div 64")
    case True
    then show ?thesis
      by (auto simp: mark_step_def sec_summary_update_def Let_def bit_simps)
  next
    case False
    then have "w div 64 \<noteq> lo div 64 div 64 \<or> w mod 64 \<noteq> lo div 64 mod 64"
      by (metis div_mult_mod_eq)
    with False ok w show ?thesis
      by (auto simp: summary_ok_def mark_step_def sec_summary_update_def Let_def bit_simps)
  qed
  then show ?thesis by (simp add: summary_ok_def)
qed

lemma mark_step_frame [simp]:
  "sec_free (mark_step s lo n st) = sec_free s"
  "sec_hint (mark_step s lo n st) = sec_hint s"
  "sec_refs (mark_step s lo n st) = sec_refs s"
  "sec_refs_used (mark_step s lo n st) = sec_refs_used s"
  by (simp_all add: mark_step_def sec_summary_update_def Let_def)

lemma sec_mark_loop_frame:
  "sec_free (fst (sec_mark_loop s lo hi st c)) = sec_free s
   \<and> sec_hint (fst (sec_mark_loop s lo hi st c)) = sec_hint s
   \<and> sec_refs (fst (sec_mark_loop s lo hi st c)) = sec_refs s
   \<and> sec_refs_used (fst (sec_mark_loop s lo hi st c)) = sec_refs_used s"
proof (induction "hi - lo" arbitrary: s lo c rule: less_induct)
  case less
  show ?case
  proof (cases "lo < hi")
    case True
    then have "hi - (lo + seg_len lo hi) < hi - lo" using seg_len_bounds(1) [OF True] by simp
    from less [OF this] show ?thesis
      by (subst (1 2 3 4) sec_mark_loop_unfold) (simp add: True)
  qed (subst (1 2 3 4) sec_mark_loop_unfold, simp)
qed

lemma sec_mark_loop_used:
  "frame_used (fst (sec_mark_loop s lo hi st c)) f
     \<longleftrightarrow> (if lo \<le> f \<and> f < hi then st else frame_used s f)"
proof (induction "hi - lo" arbitrary: s lo c rule: less_induct)
  case less
  show ?case
  proof (cases "lo < hi")
    case True
    note b = seg_len_bounds(1) [OF True] seg_len_bounds(2) [OF True] seg_len_bounds(3) [of lo hi]
    then have "hi - (lo + seg_len lo hi) < hi - lo" using True by simp
    from less [OF this] b show ?thesis
      by (subst sec_mark_loop_unfold) (auto simp: True frame_used_mark_step [OF b(3)])
  qed (subst sec_mark_loop_unfold, auto)
qed

lemma sec_mark_loop_summary:
  "summary_ok s \<Longrightarrow> summary_ok (fst (sec_mark_loop s lo hi st c))"
proof (induction "hi - lo" arbitrary: s lo c rule: less_induct)
  case less
  show ?case
  proof (cases "lo < hi")
    case True
    then have "hi - (lo + seg_len lo hi) < hi - lo" using seg_len_bounds(1) [OF True] by simp
    from less(1) [OF this summary_ok_mark_step [OF less(2)]] show ?thesis
      by (subst sec_mark_loop_unfold) (simp add: True)
  qed (subst sec_mark_loop_unfold, simp add: less.prems)
qed

lemma card_flipped_split:
  "lo \<le> m \<Longrightarrow> m \<le> hi \<Longrightarrow>
    card {f. lo \<le> f \<and> f < (hi::nat) \<and> P f} =
    card {f. lo \<le> f \<and> f < m \<and> P f} + card {f. m \<le> f \<and> f < hi \<and> P f}"
proof -
  assume m: "lo \<le> m" "m \<le> hi"
  have "{f. lo \<le> f \<and> f < hi \<and> P f} = {f. lo \<le> f \<and> f < m \<and> P f} \<union> {f. m \<le> f \<and> f < hi \<and> P f}"
    using m by auto
  then show ?thesis by (simp add: card_Un_disjoint disjoint_iff)
qed

lemma card_flipped_le: "card {f. lo \<le> f \<and> f < (hi::nat) \<and> P f} \<le> hi - lo"
proof -
  have "{f. lo \<le> f \<and> f < hi \<and> P f} \<subseteq> {lo..<hi}" by auto
  from card_mono [OF _ this] show ?thesis by simp
qed

lemma sec_mark_loop_count:
  "unat c + (hi - lo) < 2 ^ 64 \<Longrightarrow>
   unat (snd (sec_mark_loop s lo hi st c))
     = unat c + card {f. lo \<le> f \<and> f < hi \<and> frame_used s f \<noteq> st}"
proof (induction "hi - lo" arbitrary: s lo c rule: less_induct)
  case less
  show ?case
  proof (cases "lo < hi")
    case True
    let ?n = "seg_len lo hi"
    let ?k = "popcount64 (sec_bitmap s (lo div 64)
               XOR mark_word (sec_bitmap s (lo div 64)) (lo mod 64) ?n st)"
    note b = seg_len_bounds(1) [OF True] seg_len_bounds(2) [OF True] seg_len_bounds(3) [of lo hi]
    have k: "unat ?k = card {f. lo \<le> f \<and> f < lo + ?n \<and> frame_used s f \<noteq> st}"
      by (rule mark_step_count [OF b(3)])
    with card_flipped_le [of lo "lo + ?n"] have kn: "unat ?k \<le> ?n" by simp
    then have c: "unat (c + ?k) = unat c + unat ?k"
      using less.prems b(1,2) by (simp add: unat_word_ariths(1))
    have "hi - (lo + ?n) < hi - lo" using True b(1) by simp
    moreover have "unat (c + ?k) + (hi - (lo + ?n)) < 2 ^ 64"
      using less.prems b(2) kn c by linarith
    ultimately have "unat (snd (sec_mark_loop s lo hi st c)) = unat (c + ?k) +
        card {f. lo + ?n \<le> f \<and> f < hi \<and> frame_used (mark_step s lo ?n st) f \<noteq> st}"
      by (subst sec_mark_loop_unfold) (simp add: True less.hyps)
    also have "{f. lo + ?n \<le> f \<and> f < hi \<and> frame_used (mark_step s lo ?n st) f \<noteq> st}
        = {f. lo + ?n \<le> f \<and> f < hi \<and> frame_used s f \<noteq> st}"
      by (auto simp: frame_used_mark_step [OF b(3)])
    finally show ?thesis
      using card_flipped_split [of lo "lo + ?n" hi "\<lambda>f. frame_used s f \<noteq> st"] b(2) c k by simp
  qed (subst sec_mark_loop_unfold, simp)
qed

subsection \<open>The effect of \<open>sec_mark\<close>\<close>

lemma sec_mark_used:
  "frame_used (fst (sec_mark s lo hi st)) f \<longleftrightarrow> (if lo \<le> f \<and> f < hi then st else frame_used s f)"
  using sec_mark_loop_used [of s lo hi st 0 f]
  by (simp add: sec_mark_def split_beta Let_def frame_used_def)

lemma sec_mark_count:
  "hi - lo < 2 ^ 64 \<Longrightarrow>
   unat (snd (sec_mark s lo hi st)) = card {f. lo \<le> f \<and> f < hi \<and> frame_used s f \<noteq> st}"
  using sec_mark_loop_count [of 0 hi lo s st] by (simp add: sec_mark_def split_beta Let_def)

lemma sec_mark_frame [simp]:
  "sec_hint (fst (sec_mark s lo hi st)) = sec_hint s"
  "sec_refs (fst (sec_mark s lo hi st)) = sec_refs s"
  "sec_refs_used (fst (sec_mark s lo hi st)) = sec_refs_used s"
  using sec_mark_loop_frame [of s lo hi st 0] by (simp_all add: sec_mark_def split_beta Let_def)

lemma sec_free_set_mark:
  "hi \<le> PMM_SECTION_FRAMES \<Longrightarrow> sec_free_set (fst (sec_mark s lo hi st)) =
    (if st then sec_free_set s - {lo..<hi} else sec_free_set s \<union> {lo..<hi})"
  by (auto simp: sec_free_set_def sec_mark_used split: if_splits)

lemma finite_sec_free_set [simp]: "finite (sec_free_set s)"
  by (rule finite_subset [of _ "{..<PMM_SECTION_FRAMES}"]) (auto simp: sec_free_set_def)

lemma card_sec_free_set_le: "card (sec_free_set s) \<le> PMM_SECTION_FRAMES"
  using card_mono [of "{..<PMM_SECTION_FRAMES}" "sec_free_set s"] by (auto simp: sec_free_set_def)

lemma flipped_eq:
  "hi \<le> PMM_SECTION_FRAMES \<Longrightarrow> {f. lo \<le> f \<and> f < hi \<and> frame_used s f \<noteq> st} =
    (if st then sec_free_set s \<inter> {lo..<hi} else {lo..<hi} - sec_free_set s)"
  by (auto simp: sec_free_set_def)

lemma sec_mark_changed:
  "hi \<le> PMM_SECTION_FRAMES \<Longrightarrow> unat (snd (sec_mark s lo hi st)) =
    card (if st then sec_free_set s \<inter> {lo..<hi} else {lo..<hi} - sec_free_set s)"
  by (subst sec_mark_count) (simp add: PMM_SECTION_FRAMES_def, simp only: flipped_eq)

lemma sec_mark_free:
  "sec_free (fst (sec_mark s lo hi st)) =
    (if st then sec_free s - ucast (snd (sec_mark s lo hi st))
     else sec_free s + ucast (snd (sec_mark s lo hi st)))"
  using sec_mark_loop_frame [of s lo hi st 0]
  by (cases st) (simp_all add: sec_mark_def split_beta Let_def)

lemma sec_mark_summary: "summary_ok s \<Longrightarrow> summary_ok (fst (sec_mark s lo hi st))"
  using sec_mark_loop_summary [of s lo hi st 0]
  by (simp add: sec_mark_def split_beta Let_def summary_ok_def)

lemma card_free_set_mark:
  assumes "hi \<le> PMM_SECTION_FRAMES"
  shows "int (card (sec_free_set (fst (sec_mark s lo hi st)))) =
    (if st then int (card (sec_free_set s)) - int (unat (snd (sec_mark s lo hi st)))
     else int (card (sec_free_set s)) + int (unat (snd (sec_mark s lo hi st))))"
proof (cases st)
  case True
  have "card (sec_free_set s - {lo..<hi}) + card (sec_free_set s \<inter> {lo..<hi}) = card (sec_free_set s)"
    by (metis card_Int_Diff add.commute finite_sec_free_set)
  with True show ?thesis by (simp add: sec_free_set_mark sec_mark_changed assms)
next
  case False
  have "card (sec_free_set s \<union> {lo..<hi}) = card (sec_free_set s) + card ({lo..<hi} - sec_free_set s)"
    using card_Un_disjoint [of "sec_free_set s" "{lo..<hi} - sec_free_set s"] by (simp add: Un_Diff_cancel)
  with False show ?thesis by (simp add: sec_free_set_mark sec_mark_changed assms)
qed

lemma sec_mark_inv:
  assumes "sec_inv s" "hi \<le> PMM_SECTION_FRAMES"
  shows "sec_inv (fst (sec_mark s lo hi st))"
proof -
  let ?c = "snd (sec_mark s lo hi st)" and ?s = "fst (sec_mark s lo hi st)"
  have "hi - lo < 2 ^ 64" using assms(2) by (simp add: PMM_SECTION_FRAMES_def)
  then have "unat ?c \<le> hi - lo"
    using card_flipped_le [of lo hi] by (simp add: sec_mark_count)
  then have c: "unat ?c \<le> 2 ^ 18" using assms(2) by (simp add: PMM_SECTION_FRAMES_def)
  then have u: "unat (ucast ?c :: u32) = unat ?c"
    by (simp add: unsigned_ucast_eq take_bit_nat_eq_self_iff)
  have f: "unat (sec_free s) = card (sec_free_set s)" using assms(1) by (simp add: sec_inv_def)
  note cs = card_free_set_mark [OF assms(2), of s lo st] card_sec_free_set_le [of ?s]
  have "unat (sec_free ?s) = card (sec_free_set ?s)"
  proof (cases st)
    case True
    from cs(1) True have "int (card (sec_free_set ?s)) = int (card (sec_free_set s)) - int (unat ?c)"
      by simp
    with f have e: "unat ?c \<le> unat (sec_free s)" "card (sec_free_set ?s) = unat (sec_free s) - unat ?c"
      by linarith+
    then have "unat (sec_free s - ucast ?c) = unat (sec_free s) - unat ?c"
      by (simp add: unat_sub word_le_nat_alt u)
    with True e show ?thesis by (simp add: sec_mark_free)
  next
    case False
    from cs(1) False have "int (card (sec_free_set ?s)) = int (card (sec_free_set s)) + int (unat ?c)"
      by simp
    with f have s: "unat (sec_free s) + unat ?c = card (sec_free_set ?s)" by linarith
    also have "\<dots> \<le> 2 ^ 18" using cs(2) by (simp add: PMM_SECTION_FRAMES_def)
    finally have "unat (sec_free s + ucast ?c) = unat (sec_free s) + unat ?c"
      by (simp add: unat_word_ariths(1) u)
    with False s show ?thesis by (simp add: sec_mark_free)
  qed
  with assms(1) show ?thesis by (simp add: sec_inv_def sec_mark_summary)
qed

subsection \<open>Searching\<close>

lemma full_word_used: "sec_bitmap s (g div 64) = ones64 \<Longrightarrow> frame_used s g"
  by (simp add: frame_used_def bit_simps)

lemma scan_word_bit:
  assumes "summary_ok s" "w < PMM_SECTION_WORDS" "i < 64"
  shows "bit (sec_summary s (w div 64) OR (push_bit (w mod 64) 1 - 1)) i
     \<longleftrightarrow> i < w mod 64 \<or> sec_bitmap s (w div 64 * 64 + i) = ones64"
proof -
  have "w div 64 < 64" using assms(2)
    by (simp add: PMM_SECTION_WORDS_def PMM_SECTION_FRAMES_def div_less_iff_less_mult)
  then have "w div 64 * 64 + i < PMM_SECTION_WORDS"
    using assms(3) by (simp add: PMM_SECTION_WORDS_def PMM_SECTION_FRAMES_def)
  then have "bit (sec_summary s (w div 64)) i \<longleftrightarrow> sec_bitmap s (w div 64 * 64 + i) = ones64"
    using assms(1,3) unfolding summary_ok_def
    by (elim allE [of _ "w div 64 * 64 + i"]) simp
  moreover have "w mod 64 + 0 \<le> 64" by (simp add: less_imp_le)
  ultimately show ?thesis
    using bit_segment_mask [of 0 "w mod 64" i] by (auto simp: bit_or_iff less_imp_le)
qed

text \<open>All frames of the words \<open>w .. w' - 1\<close> are used.\<close>

definition words_full :: "pmm_section \<Rightarrow> nat \<Rightarrow> nat \<Rightarrow> bool" where
  "words_full s w w' \<longleftrightarrow> (\<forall>v. w \<le> v \<and> v < w' \<longrightarrow> sec_bitmap s v = ones64)"

lemma words_full_used:
  "words_full s w w' \<Longrightarrow> w * 64 \<le> g \<Longrightarrow> g < w' * 64 \<Longrightarrow> frame_used s g"
  by (rule full_word_used)
    (simp add: words_full_def div_less_iff_less_mult less_eq_div_iff_mult_less_eq)

lemma scan_group:
  assumes "summary_ok s" "w < PMM_SECTION_WORDS" "k \<le> 64"
    and "\<And>i. i < k \<Longrightarrow> bit (sec_summary s (w div 64) OR (push_bit (w mod 64) 1 - 1)) i"
  shows "words_full s w (w div 64 * 64 + k)"
  unfolding words_full_def
proof (intro allI impI)
  fix v assume v: "w \<le> v \<and> v < w div 64 * 64 + k"
  define i where "i = v - w div 64 * 64"
  have "w = w div 64 * 64 + w mod 64" by simp
  then have i: "v = w div 64 * 64 + i" "w mod 64 \<le> i" "i < k" using v unfolding i_def by linarith+
  with assms(3,4) scan_word_bit [OF assms(1,2), of i] show "sec_bitmap s v = ones64" by auto
qed

lemma scan_hit:
  assumes "summary_ok s" "w < PMM_SECTION_WORDS"
    and "sw = sec_summary s (w div 64) OR (push_bit (w mod 64) 1 - 1)" "sw \<noteq> ones64"
    and "w' = w div 64 * 64 + ctz64 (NOT sw)"
  shows "words_full s w w'" "w \<le> w'" "sec_bitmap s w' \<noteq> ones64"
proof -
  have n: "NOT sw \<noteq> 0" using assms(4) by (metis bit.double_compl)
  note c = ctz64_props(1,2) [OF n]
  have lt: "bit sw i" if "i < ctz64 (NOT sw)" for i
    using ctz64_props(3) [OF n that] that c(1) by (simp add: bit_not_iff)
  show "words_full s w w'"
    unfolding assms(5) by (rule scan_group [OF assms(1,2)]) (use c lt assms(3) in auto)
  have "\<not> bit sw (ctz64 (NOT sw))" using c by (simp add: bit_not_iff)
  then have "\<not> ctz64 (NOT sw) < w mod 64 \<and> sec_bitmap s w' \<noteq> ones64"
    using scan_word_bit [OF assms(1,2) c(1)] assms(3,5) by simp
  then show "w \<le> w'" "sec_bitmap s w' \<noteq> ones64"
    using div_mult_mod_eq [of w 64] unfolding assms(5) by linarith+
qed

lemma first_clear_bit:
  assumes "b \<noteq> ones64"
  shows "ctz64 (NOT b) < 64" "\<not> bit b (ctz64 (NOT b))" "i < ctz64 (NOT b) \<Longrightarrow> bit b i"
proof -
  have n: "NOT b \<noteq> 0" using assms by (metis bit.double_compl)
  show "ctz64 (NOT b) < 64" by (rule ctz64_props(1) [OF n])
  then show "\<not> bit b (ctz64 (NOT b))" "i < ctz64 (NOT b) \<Longrightarrow> bit b i"
    using ctz64_props(2) [OF n] ctz64_props(3) [OF n, of i] by (auto simp: bit_not_iff)
qed

lemma sec_scan_spec:
  assumes "summary_ok s" "w_end \<le> PMM_SECTION_WORDS"
  shows "case sec_scan s mx w w_end of
      Some (w', f) \<Rightarrow> w \<le> w' \<and> w' < w_end \<and> f div 64 = w' \<and> f < mx \<and> \<not> frame_used s f
        \<and> (\<forall>g. w * 64 \<le> g \<and> g < f \<longrightarrow> frame_used s g)
    | None \<Rightarrow> \<forall>g. w * 64 \<le> g \<and> g < w_end * 64 \<and> g < mx \<longrightarrow> frame_used s g"
proof (induction "w_end - w" arbitrary: w rule: less_induct)
  case less
  define sw where "sw = sec_summary s (w div 64) OR (push_bit (w mod 64) 1 - 1)"
  define w1 where "w1 = w div 64 * 64 + ctz64 (NOT sw)"
  define f where "f = w1 * 64 + ctz64 (NOT (sec_bitmap s w1))"
  consider "\<not> w < w_end" | "w < w_end" "sw = ones64" | "w < w_end" "sw \<noteq> ones64" by blast
  then show ?case
  proof cases
    case 1
    then show ?thesis by (subst sec_scan.simps) auto
  next
    case 2
    let ?w = "w div 64 * 64 + 64"
    have lt: "w < ?w" using div_mult_mod_eq [of w 64] mod_less_divisor [of 64 w] by linarith
    have full: "words_full s w ?w"
      by (rule scan_group [OF assms(1)])
        (use 2 assms(2) in \<open>simp_all add: sw_def [symmetric] bit_ones64 del: push_bit_of_1\<close>)
    have u: "sec_scan s mx w w_end = sec_scan s mx ?w w_end"
      using 2 by (subst sec_scan.simps) (simp add: sw_def add.commute)
    have ih: "case sec_scan s mx ?w w_end of
      Some (w', f) \<Rightarrow> ?w \<le> w' \<and> w' < w_end \<and> f div 64 = w' \<and> f < mx \<and> \<not> frame_used s f
        \<and> (\<forall>g. ?w * 64 \<le> g \<and> g < f \<longrightarrow> frame_used s g)
    | None \<Rightarrow> \<forall>g. ?w * 64 \<le> g \<and> g < w_end * 64 \<and> g < mx \<longrightarrow> frame_used s g"
      by (rule less) (use 2 lt in linarith)
    have used: "frame_used s g" if "w * 64 \<le> g" "\<not> ?w * 64 \<le> g" for g
      by (rule words_full_used [OF full]) (use that in auto)
    show ?thesis using ih lt used unfolding u by (fastforce split: option.splits)
  next
    case 3
    then have w: "w < PMM_SECTION_WORDS" using assms(2) by simp
    note h = scan_hit [OF assms(1) w sw_def 3(2) w1_def]
    note c = first_clear_bit [OF h(3)]
    have f: "f div 64 = w1" "f mod 64 = ctz64 (NOT (sec_bitmap s w1))" using c(1) by (simp_all add: f_def)
    then have free: "\<not> frame_used s f" using c(2) by (simp add: frame_used_def)
    have before: "frame_used s g" if g: "w * 64 \<le> g" "g < f" for g
    proof (cases "g < w1 * 64")
      case False
      then have "g div 64 = w1" "g mod 64 < ctz64 (NOT (sec_bitmap s w1))"
        using g(2) c(1) same_word_iff [of "w1 * 64" 64 g] same_word_iff [of "w1 * 64" "ctz64 (NOT (sec_bitmap s w1))" g]
        by (simp_all add: f_def)
      then show ?thesis using c(3) by (simp add: frame_used_def)
    qed (use words_full_used [OF h(1) g(1)] in simp)
    have u: "sec_scan s mx w w_end = (if w1 \<ge> w_end then None else if f < mx then Some (w1, f) else None)"
      using 3 by (subst sec_scan.simps) (simp add: sw_def w1_def f_def Let_def)
    have "frame_used s g" if "w1 \<ge> w_end" "w * 64 \<le> g" "g < w_end * 64" for g
      by (rule words_full_used [OF h(1) that(2)]) (use that in simp)
    then show ?thesis using h(2) f(1) free before by (auto simp: u)
  qed
qed

lemma sec_find_spec:
  assumes "sec_inv s" "mx \<le> PMM_SECTION_FRAMES"
  shows "case sec_find s mx of
      (s', Some f) \<Rightarrow> f < mx \<and> \<not> frame_used s f \<and> s' = s\<lparr>sec_hint := of_nat (f div 64)\<rparr>
    | (s', None) \<Rightarrow> s' = s \<and> (\<forall>g < mx. frame_used s g)"
proof (cases "sec_free s = 0")
  case True
  then have "sec_free_set s = {}" using assms(1) by (simp add: sec_inv_def)
  then have "\<forall>g < mx. frame_used s g" using assms(2) by (auto simp: sec_free_set_def)
  with True show ?thesis by (simp add: sec_find_def)
next
  case False
  define mw where "mw = (mx + 63) div 64"
  define st where "st = (if unat (sec_hint s) < mw then unat (sec_hint s) else 0)"
  have mw: "mw \<le> PMM_SECTION_WORDS" "mx \<le> mw * 64" "st \<le> mw"
    using assms(2) by (auto simp: mw_def st_def PMM_SECTION_WORDS_def PMM_SECTION_FRAMES_def)
  have so: "summary_ok s" using assms(1) by (simp add: sec_inv_def)
  note a = sec_scan_spec [OF so mw(1), where mx = mx and w = st]
  note b = sec_scan_spec [OF so le_trans [OF mw(3) mw(1)], where mx = mx and w = 0]
  show ?thesis
  proof (cases "sec_scan s mx st mw")
    case (Some p)
    with a False show ?thesis
      by (cases p) (auto simp: sec_find_def Let_def mw_def [symmetric] st_def [symmetric])
  next
    case None
    note n = None
    show ?thesis
    proof (cases "sec_scan s mx 0 st")
      case (Some p)
      with b n False show ?thesis
        by (cases p) (auto simp: sec_find_def Let_def mw_def [symmetric] st_def [symmetric])
    next
      case None
      have "frame_used s g" if "g < mx" for g
        using a b None n that mw(2) by (cases "g < st * 64") auto
      with None n False show ?thesis
        by (simp add: sec_find_def Let_def mw_def [symmetric] st_def [symmetric])
    qed
  qed
qed

end
