(* ===== verification/Pmm.thy ===== *)
theory Pmm
  imports Pmm_Early Pmm_Section
begin

text \<open>
  The physical memory manager of \<open>mm/pmm.c\<close> after \<open>pmm_late_init\<close>: an array of
  sections, single-frame and run allocation with the two zones (DMA32 below 4 GiB, normal
  above), freeing, and copy-on-write reference counts.  Frame numbers and section indices
  are \<open>nat\<close>, byte addresses and limits \<open>u64\<close>; a physical address 0 is the failure
  value, as in the code.  The spin lock is held over each public operation, so each is one
  atomic state transformer.
\<close>

subsection \<open>State\<close>

record pmm = pmm_map +
  g_sec :: "pmm_section option list"
  g_sectioned :: bool
  g_hint_normal :: nat
  g_hint_dma32 :: nat
  g_free_frames :: u64
  g_meta_bytes :: u64
  g_ref_chunks :: u64

definition PMM_DMA32_LIMIT :: u64 where
  "PMM_DMA32_LIMIT = 0x100000000"

definition PMM_EARLY_LIMIT :: u64 where
  "PMM_EARLY_LIMIT = 0x20000000"

abbreviation g_nsec :: "pmm \<Rightarrow> nat" where
  "g_nsec p \<equiv> length (g_sec p)"

definition sec_of :: "pmm \<Rightarrow> nat \<Rightarrow> pmm_section option" where
  "sec_of p frame =
    (let s = frame div PMM_SECTION_FRAMES in if s < g_nsec p then g_sec p ! s else None)"

definition set_sec :: "pmm \<Rightarrow> nat \<Rightarrow> pmm_section \<Rightarrow> pmm" where
  "set_sec p si s = p\<lparr>g_sec := (g_sec p)[si := Some s]\<rparr>"

subsection \<open>Marking across sections\<close>

function frames_mark :: "pmm \<Rightarrow> nat \<Rightarrow> nat \<Rightarrow> bool \<Rightarrow> pmm" where
  "frames_mark p f_lo f_hi st =
    (if f_lo < f_hi then
       let si = f_lo div PMM_SECTION_FRAMES;
           sec_end = (si + 1) * PMM_SECTION_FRAMES;
           e = (if f_hi < sec_end then f_hi else sec_end)
       in frames_mark
            (case if si < g_nsec p then g_sec p ! si else None of
               Some s \<Rightarrow>
                 let base = si * PMM_SECTION_FRAMES;
                     (s', c) = sec_mark s (f_lo - base) (e - base) st;
                     p' = set_sec p si s'
                 in p'\<lparr>g_free_frames := (if st then g_free_frames p' - c else g_free_frames p' + c)\<rparr>
             | None \<Rightarrow> p) e f_hi st
     else p)"
  by pat_completeness auto
termination
proof (relation "measure (\<lambda>(p, f_lo, f_hi, st). f_hi - f_lo)", goal_cases)
  case (2 p f_lo f_hi st x xa xb)
  have "f_lo < (f_lo div PMM_SECTION_FRAMES + 1) * PMM_SECTION_FRAMES"
    using dividend_less_div_times [of PMM_SECTION_FRAMES f_lo] by (simp add: PMM_SECTION_FRAMES_def)
  with 2 show ?case by auto
qed simp

declare frames_mark.simps [simp del]

subsection \<open>Allocation\<close>

text \<open>
  The body of the loop of \<open>alloc_in\<close> for section \<open>si\<close>: \<open>None\<close> is \<open>continue\<close>.
\<close>

definition alloc_in_sec :: "pmm \<Rightarrow> nat \<Rightarrow> nat \<Rightarrow> (pmm \<times> nat) option" where
  "alloc_in_sec p f_max si =
    (case g_sec p ! si of
       None \<Rightarrow> None
     | Some s \<Rightarrow>
         if sec_free s = 0 then None
         else let base = si * PMM_SECTION_FRAMES
              in if f_max \<le> base then None
                 else let mx = (if f_max - base < PMM_SECTION_FRAMES then f_max - base else PMM_SECTION_FRAMES)
                      in case sec_find s mx of
                           (s', None) \<Rightarrow> None
                         | (s', Some f) \<Rightarrow>
                             let p' = set_sec p si (fst (sec_mark s' f (f + 1) True))
                             in Some (p'\<lparr>g_free_frames := g_free_frames p' - 1\<rparr>, base + f))"

function alloc_in_loop :: "pmm \<Rightarrow> nat \<Rightarrow> nat \<Rightarrow> nat \<Rightarrow> nat \<Rightarrow> nat \<Rightarrow> (pmm \<times> nat \<times> nat) option" where
  "alloc_in_loop p s_lo s_hi f_max h k =
    (if k < s_hi - s_lo then
       let si = (if h + k \<ge> s_hi then h + k - (s_hi - s_lo) else h + k)
       in case alloc_in_sec p f_max si of
            None \<Rightarrow> alloc_in_loop p s_lo s_hi f_max h (k + 1)
          | Some (p', f) \<Rightarrow> Some (p', si, f)
     else None)"
  by pat_completeness auto
termination by (relation "measure (\<lambda>(p, s_lo, s_hi, f_max, h, k). s_hi - s_lo - k)") auto

declare alloc_in_loop.simps [simp del]

text \<open>State, new value of the rolling hint and frame.\<close>

definition alloc_in :: "pmm \<Rightarrow> nat \<Rightarrow> nat \<Rightarrow> nat \<Rightarrow> nat \<Rightarrow> (pmm \<times> nat \<times> nat) option" where
  "alloc_in p s_lo s_hi0 f_max hint =
    (let s_hi = (if s_hi0 > g_nsec p then g_nsec p else s_hi0)
     in if s_lo \<ge> s_hi then None
        else let h = (if hint \<ge> s_lo \<and> hint < s_hi then hint else s_lo)
             in alloc_in_loop p s_lo s_hi f_max h 0)"

definition sec_count_below :: "u64 \<Rightarrow> nat" where
  "sec_count_below limit = unat (drop_bit 30 (limit + 0x40000000 - 1))"

text \<open>\<open>None\<close>: the early allocator does not return.\<close>

definition alloc_frame_nolock_below :: "pmm \<Rightarrow> u64 \<Rightarrow> (pmm \<times> u64) option" where
  "alloc_frame_nolock_below p limit =
    (if \<not> g_sectioned p then
       early_alloc p 4096 4096 (if limit < PMM_EARLY_LIMIT then limit else PMM_EARLY_LIMIT)
     else
       let f_max = (if limit = ones64 then unat ones64 else unat (limit div 4096));
           dma_secs = unat (drop_bit 30 PMM_DMA32_LIMIT);
           f = (if limit > PMM_DMA32_LIMIT
                then alloc_in p dma_secs
                       (sec_count_below (if limit = ones64 then drop_bit 1 ones64 else limit))
                       f_max (g_hint_normal p)
                else None)
       in case f of
            Some (p', h, n) \<Rightarrow> Some (p'\<lparr>g_hint_normal := h\<rparr>, of_nat n * 4096)
          | None \<Rightarrow>
              let lim = (if limit < PMM_DMA32_LIMIT then limit else PMM_DMA32_LIMIT)
              in case alloc_in p 0 (sec_count_below lim) (unat (lim div 4096)) (g_hint_dma32 p) of
                   Some (p', h, n) \<Rightarrow> Some (p'\<lparr>g_hint_dma32 := h\<rparr>, of_nat n * 4096)
                 | None \<Rightarrow> Some (p, 0))"

definition pmm_alloc_frame :: "pmm \<Rightarrow> (pmm \<times> u64) option" where
  "pmm_alloc_frame p = alloc_frame_nolock_below p ones64"

definition pmm_alloc_below :: "pmm \<Rightarrow> u64 \<Rightarrow> (pmm \<times> u64) option" where
  "pmm_alloc_below p limit = alloc_frame_nolock_below p limit"

subsection \<open>Invariant and abstraction\<close>

definition frame_free :: "pmm \<Rightarrow> nat \<Rightarrow> bool" where
  "frame_free p n = (case sec_of p n of None \<Rightarrow> False | Some s \<Rightarrow> \<not> frame_used s (n mod PMM_SECTION_FRAMES))"

definition free_set :: "pmm \<Rightarrow> nat set" where
  "free_set p = {n. frame_free p n}"

text \<open>
  Sections are exact, the global counter is the number of free frames, the array covers at
  most the 52-bit physical address space, and frame 0, whose address would read as
  failure, is not free.
\<close>

definition secs_ok :: "pmm \<Rightarrow> bool" where
  "secs_ok p \<longleftrightarrow> g_nsec p \<le> 2 ^ 22 \<and> (\<forall>s. Some s \<in> set (g_sec p) \<longrightarrow> sec_inv s)"

definition pmm_inv :: "pmm \<Rightarrow> bool" where
  "pmm_inv p \<longleftrightarrow> secs_ok p \<and> unat (g_free_frames p) = card (free_set p) \<and> 0 \<notin> free_set p"

lemma F_pos [simp]: "0 < PMM_SECTION_FRAMES"
  by (simp add: PMM_SECTION_FRAMES_def)

lemma sec_of_set_sec:
  "si < g_nsec p \<Longrightarrow> sec_of (set_sec p si s) n =
    (if n div PMM_SECTION_FRAMES = si then Some s else sec_of p n)"
  by (auto simp: sec_of_def set_sec_def Let_def)

lemma g_nsec_set_sec [simp]: "g_nsec (set_sec p si s) = g_nsec p"
  by (simp add: set_sec_def)

lemma free_set_counter [simp]: "free_set (p\<lparr>g_free_frames := x\<rparr>) = free_set p"
  "free_set (p\<lparr>g_hint_normal := h\<rparr>) = free_set p" "free_set (p\<lparr>g_hint_dma32 := h\<rparr>) = free_set p"
  "free_set (p\<lparr>g_ref_chunks := x\<rparr>) = free_set p"
  by (simp_all add: free_set_def frame_free_def sec_of_def Let_def)

lemma free_set_iff:
  "n \<in> free_set p \<longleftrightarrow> (\<exists>s. sec_of p n = Some s \<and> n mod PMM_SECTION_FRAMES \<in> sec_free_set s)"
  by (auto simp: free_set_def frame_free_def sec_free_set_def split: option.splits)

lemma free_set_set_sec:
  assumes "si < g_nsec p" "g_sec p ! si = Some s"
  shows "n \<in> free_set (set_sec p si s') \<longleftrightarrow>
    (if n div PMM_SECTION_FRAMES = si then n mod PMM_SECTION_FRAMES \<in> sec_free_set s' else n \<in> free_set p)"
    "n div PMM_SECTION_FRAMES = si \<Longrightarrow> n \<in> free_set p \<longleftrightarrow> n mod PMM_SECTION_FRAMES \<in> sec_free_set s"
  using assms by (simp_all add: free_set_iff sec_of_set_sec) (simp add: sec_of_def)

lemma secs_ok_set_sec: "secs_ok p \<Longrightarrow> sec_inv s \<Longrightarrow> secs_ok (set_sec p si s)"
  by (auto simp: secs_ok_def set_sec_def dest!: subsetD [OF set_update_subset_insert])

lemma secs_ok_sec: "secs_ok p \<Longrightarrow> si < g_nsec p \<Longrightarrow> g_sec p ! si = Some s \<Longrightarrow> sec_inv s"
  unfolding secs_ok_def by (metis nth_mem)

lemma finite_free_set [simp]: "finite (free_set p)"
proof (rule finite_subset)
  show "free_set p \<subseteq> {..< g_nsec p * PMM_SECTION_FRAMES}"
    by (auto simp: free_set_iff sec_of_def Let_def div_less_iff_less_mult split: if_splits)
qed simp

text \<open>
  What no operation of the allocator touches: the boot map and the reference counts.
\<close>

definition refs_of :: "pmm \<Rightarrow> ((nat \<Rightarrow> ref_chunk option) \<times> (nat \<Rightarrow> u16)) option list" where
  "refs_of p = map (map_option (\<lambda>s. (sec_refs s, sec_refs_used s))) (g_sec p)"

definition same_env :: "pmm \<Rightarrow> pmm \<Rightarrow> bool" where
  "same_env p p' \<longleftrightarrow> refs_of p' = refs_of p \<and> g_sectioned p' = g_sectioned p
     \<and> g_ref_chunks p' = g_ref_chunks p \<and> pmm_map.truncate p' = pmm_map.truncate p"

lemma same_env_refl [simp]: "same_env p p"
  by (simp add: same_env_def)

lemma same_env_trans: "same_env p q \<Longrightarrow> same_env q r \<Longrightarrow> same_env p r"
  by (simp add: same_env_def)

lemma same_env_hints [simp]:
  "same_env p (q\<lparr>g_hint_normal := h\<rparr>) = same_env p q" "same_env p (q\<lparr>g_hint_dma32 := h\<rparr>) = same_env p q"
  "same_env p (q\<lparr>g_free_frames := x\<rparr>) = same_env p q"
  by (simp_all add: same_env_def refs_of_def pmm_map.truncate_def)

lemma same_env_set_sec:
  assumes "si < g_nsec p" "g_sec p ! si = Some s" "sec_refs s' = sec_refs s" "sec_refs_used s' = sec_refs_used s"
  shows "same_env p (set_sec p si s')"
proof -
  have "map (map_option (\<lambda>s. (sec_refs s, sec_refs_used s))) ((g_sec p)[si := Some s'])
      = map (map_option (\<lambda>s. (sec_refs s, sec_refs_used s))) (g_sec p)"
    by (rule nth_equalityI) (auto simp: nth_list_update assms)
  then show ?thesis by (simp add: same_env_def refs_of_def set_sec_def pmm_map.truncate_def)
qed

lemma secs_ok_hints [simp]:
  "secs_ok (q\<lparr>g_hint_normal := h\<rparr>) = secs_ok q" "secs_ok (q\<lparr>g_hint_dma32 := h\<rparr>) = secs_ok q"
  "secs_ok (q\<lparr>g_free_frames := x\<rparr>) = secs_ok q" "secs_ok (q\<lparr>g_ref_chunks := x\<rparr>) = secs_ok q"
  by (simp_all add: secs_ok_def)

text \<open>Frame \<open>n\<close> was free and has been claimed; nothing else changed.\<close>

definition claimed :: "pmm \<Rightarrow> nat \<Rightarrow> pmm \<Rightarrow> bool" where
  "claimed p n p' \<longleftrightarrow> n \<in> free_set p \<and> free_set p' = free_set p - {n} \<and> secs_ok p' \<and> same_env p p'
     \<and> g_nsec p' = g_nsec p \<and> g_free_frames p' = g_free_frames p - 1"

lemma sec_hint_irrelevant [simp]:
  "sec_inv (s\<lparr>sec_hint := h\<rparr>) = sec_inv s" "sec_free_set (s\<lparr>sec_hint := h\<rparr>) = sec_free_set s"
  by (simp_all add: sec_inv_def summary_ok_def sec_free_set_def frame_used_def)

lemma alloc_in_sec_spec:
  assumes ok: "secs_ok p" and si: "si < g_nsec p"
  shows "case alloc_in_sec p f_max si of
      None \<Rightarrow> \<forall>n\<in>free_set p. n div PMM_SECTION_FRAMES = si \<longrightarrow> f_max \<le> n
    | Some (p', n) \<Rightarrow> n div PMM_SECTION_FRAMES = si \<and> n < f_max \<and> claimed p n p'"
proof (cases "g_sec p ! si")
  case None
  with si have "n \<notin> free_set p" if "n div PMM_SECTION_FRAMES = si" for n
    using that by (simp add: free_set_iff sec_of_def)
  with None show ?thesis by (auto simp: alloc_in_sec_def)
next
  case (Some s)
  note inv = secs_ok_sec [OF ok si Some]
  note fs = free_set_set_sec [OF si Some]
  define base where "base = si * PMM_SECTION_FRAMES"
  define mx where "mx = (if f_max - base < PMM_SECTION_FRAMES then f_max - base else PMM_SECTION_FRAMES)"
  have n: "n = base + n mod PMM_SECTION_FRAMES" if "n div PMM_SECTION_FRAMES = si" for n
    using that div_mult_mod_eq [of n PMM_SECTION_FRAMES] by (simp add: base_def)
  have none: "\<forall>n\<in>free_set p. n div PMM_SECTION_FRAMES = si \<longrightarrow> f_max \<le> n"
    if "\<forall>g < mx. g \<notin> sec_free_set s"
  proof (intro ballI impI)
    fix x assume x: "x \<in> free_set p" "x div PMM_SECTION_FRAMES = si"
    have "x mod PMM_SECTION_FRAMES \<in> sec_free_set s" using x fs(2) by simp
    with that have "mx \<le> x mod PMM_SECTION_FRAMES" using not_less by blast
    then have "mx < PMM_SECTION_FRAMES" using mod_less_divisor [OF F_pos] by (rule order_le_less_trans)
    then have "mx = f_max - base" by (simp add: mx_def split: if_splits)
    with n [OF x(2)] \<open>mx \<le> x mod PMM_SECTION_FRAMES\<close> show "f_max \<le> x" by linarith
  qed
  show ?thesis
  proof (cases "sec_free s = 0 \<or> f_max \<le> base")
    case True
    then have "\<forall>g < mx. g \<notin> sec_free_set s"
      using inv by (auto simp: sec_inv_def mx_def)
    with none True Some show ?thesis by (auto simp: alloc_in_sec_def base_def)
  next
    case False
    have mxF: "mx \<le> PMM_SECTION_FRAMES" by (simp add: mx_def)
    note f = sec_find_spec [OF inv mxF]
    obtain s' r where sf: "sec_find s mx = (s', r)" by force
    show ?thesis
    proof (cases r)
      case None
      with f sf have "\<forall>g < mx. g \<notin> sec_free_set s" by (simp add: sec_free_set_def)
      with none None sf False Some show ?thesis
        by (auto simp: alloc_in_sec_def base_def [symmetric] mx_def [symmetric] Let_def)
    next
      case (Some g)
      with f sf have g: "g < mx" "\<not> frame_used s g" "s' = s\<lparr>sec_hint := of_nat (g div 64)\<rparr>" by simp_all
      let ?s = "fst (sec_mark s' g (g + 1) True)"
      let ?p = "(set_sec p si ?s)\<lparr>g_free_frames := g_free_frames p - 1\<rparr>"
      have gF: "g < PMM_SECTION_FRAMES" using g(1) mxF by simp
      have e: "alloc_in_sec p f_max si = Some (?p, base + g)"
        using \<open>g_sec p ! si = Some s\<close> False sf Some
        by (simp add: alloc_in_sec_def base_def [symmetric] mx_def [symmetric] Let_def set_sec_def)
      have dm: "(base + g) div PMM_SECTION_FRAMES = si" "(base + g) mod PMM_SECTION_FRAMES = g"
        using gF by (simp_all add: base_def)
      have lt: "base + g < f_max" using g(1) False by (simp add: mx_def split: if_splits)
      have fset: "sec_free_set ?s = sec_free_set s - {g}"
        using gF by (subst sec_free_set_mark) (auto simp: g(3))
      have "sec_inv ?s" by (rule sec_mark_inv) (use inv gF in \<open>simp_all add: g(3)\<close>)
      with ok have ok': "secs_ok ?p" by (simp add: secs_ok_set_sec)
      have "x \<in> free_set ?p \<longleftrightarrow> x \<in> free_set p - {base + g}" for x
        using fs [of x] fset dm n [of x] by auto
      then have "free_set ?p = free_set p - {base + g}" by blast
      moreover have "base + g \<in> free_set p" using fs(2) [OF dm(1)] g(2) gF by (simp add: dm sec_free_set_def)
      moreover have "same_env p ?p"
        using same_env_set_sec [OF si \<open>g_sec p ! si = Some s\<close>, of ?s] by (simp add: g(3))
      ultimately show ?thesis using ok' dm lt by (simp add: e claimed_def set_sec_def)
    qed
  qed
qed

definition rot :: "nat \<Rightarrow> nat \<Rightarrow> nat \<Rightarrow> nat \<Rightarrow> nat" where
  "rot s_lo s_hi h k = (if h + k \<ge> s_hi then h + k - (s_hi - s_lo) else h + k)"

lemma rot_range: "s_lo \<le> h \<Longrightarrow> h < s_hi \<Longrightarrow> k < s_hi - s_lo \<Longrightarrow> s_lo \<le> rot s_lo s_hi h k \<and> rot s_lo s_hi h k < s_hi"
  by (auto simp: rot_def)

lemma rot_surj:
  assumes "s_lo \<le> h" "h < s_hi" "s_lo \<le> si" "si < s_hi"
  shows "\<exists>k < s_hi - s_lo. rot s_lo s_hi h k = si"
proof (cases "h \<le> si")
  case True
  with assms show ?thesis by (intro exI [of _ "si - h"]) (auto simp: rot_def)
next
  case False
  with assms show ?thesis by (intro exI [of _ "si + (s_hi - s_lo) - h"]) (auto simp: rot_def)
qed

lemma alloc_in_loop_spec:
  assumes ok: "secs_ok p" and h: "s_lo \<le> h" "h < s_hi" "s_hi \<le> g_nsec p"
  shows "case alloc_in_loop p s_lo s_hi f_max h k of
      None \<Rightarrow> \<forall>j. k \<le> j \<and> j < s_hi - s_lo \<longrightarrow>
        (\<forall>n\<in>free_set p. n div PMM_SECTION_FRAMES = rot s_lo s_hi h j \<longrightarrow> f_max \<le> n)
    | Some (p', si, n) \<Rightarrow> s_lo \<le> si \<and> si < s_hi \<and> n div PMM_SECTION_FRAMES = si \<and> n < f_max \<and> claimed p n p'"
proof (induction "s_hi - s_lo - k" arbitrary: k rule: less_induct)
  case less
  show ?case
  proof (cases "k < s_hi - s_lo")
    case False
    then show ?thesis by (subst alloc_in_loop.simps) auto
  next
    case True
    let ?si = "rot s_lo s_hi h k"
    have r: "s_lo \<le> ?si" "?si < s_hi" using rot_range [OF h(1,2) True] by simp_all
    then have "?si < g_nsec p" using h(3) by simp
    note a = alloc_in_sec_spec [OF ok this, of f_max]
    show ?thesis
    proof (cases "alloc_in_sec p f_max ?si")
      case None
      have u: "alloc_in_loop p s_lo s_hi f_max h k = alloc_in_loop p s_lo s_hi f_max h (Suc k)"
        using True None by (subst alloc_in_loop.simps) (simp add: rot_def)
      have ih: "case alloc_in_loop p s_lo s_hi f_max h (Suc k) of
          None \<Rightarrow> \<forall>j. Suc k \<le> j \<and> j < s_hi - s_lo \<longrightarrow>
            (\<forall>n\<in>free_set p. n div PMM_SECTION_FRAMES = rot s_lo s_hi h j \<longrightarrow> f_max \<le> n)
        | Some (p', si, n) \<Rightarrow> s_lo \<le> si \<and> si < s_hi \<and> n div PMM_SECTION_FRAMES = si \<and> n < f_max \<and> claimed p n p'"
        by (rule less) (use True in simp)
      show ?thesis
      proof (cases "alloc_in_loop p s_lo s_hi f_max h (Suc k)")
        case none: None
        have "\<forall>n\<in>free_set p. n div PMM_SECTION_FRAMES = rot s_lo s_hi h j \<longrightarrow> f_max \<le> n"
          if "k \<le> j \<and> j < s_hi - s_lo" for j
        proof (cases "j = k")
          case True
          with a None show ?thesis by simp
        next
          case False
          with that have "Suc k \<le> j \<and> j < s_hi - s_lo" by simp
          with ih none show ?thesis by simp
        qed
        with none show ?thesis by (simp add: u)
      next
        case (Some x)
        with ih show ?thesis by (simp add: u)
      qed
    next
      case (Some x)
      with a r True show ?thesis
        by (subst alloc_in_loop.simps) (auto simp: rot_def Let_def split: prod.splits)
    qed
  qed
qed

lemma alloc_in_spec:
  assumes ok: "secs_ok p"
  shows "case alloc_in p s_lo s_hi f_max hint of
      None \<Rightarrow> \<forall>n\<in>free_set p. s_lo \<le> n div PMM_SECTION_FRAMES \<and> n div PMM_SECTION_FRAMES < s_hi \<longrightarrow> f_max \<le> n
    | Some (p', h, n) \<Rightarrow> s_lo \<le> n div PMM_SECTION_FRAMES \<and> n div PMM_SECTION_FRAMES < s_hi \<and> n < f_max \<and> claimed p n p'"
proof -
  define hi where "hi = (if s_hi > g_nsec p then g_nsec p else s_hi)"
  have below: "n div PMM_SECTION_FRAMES < g_nsec p" if "n \<in> free_set p" for n
    using that by (auto simp: free_set_iff sec_of_def Let_def split: if_splits)
  show ?thesis
  proof (cases "s_lo \<ge> hi")
    case True
    then have "alloc_in p s_lo s_hi f_max hint = None" by (simp add: alloc_in_def hi_def [symmetric])
    moreover have "\<not> (s_lo \<le> n div PMM_SECTION_FRAMES \<and> n div PMM_SECTION_FRAMES < s_hi)" if "n \<in> free_set p" for n
      using below [OF that] True by (auto simp: hi_def split: if_splits)
    ultimately show ?thesis by auto
  next
    case False
    define h where "h = (if hint \<ge> s_lo \<and> hint < hi then hint else s_lo)"
    have h: "s_lo \<le> h" "h < hi" using False by (auto simp: h_def)
    have hi: "hi \<le> g_nsec p" "hi \<le> s_hi" by (auto simp: hi_def)
    have e: "alloc_in p s_lo s_hi f_max hint = alloc_in_loop p s_lo hi f_max h 0"
      using False by (simp add: alloc_in_def hi_def [symmetric] h_def [symmetric] Let_def)
    note l = alloc_in_loop_spec [OF ok h hi(1), where f_max = f_max and k = 0]
    show ?thesis
    proof (cases "alloc_in_loop p s_lo hi f_max h 0")
      case None
      have "f_max \<le> n" if "n \<in> free_set p" "s_lo \<le> n div PMM_SECTION_FRAMES" "n div PMM_SECTION_FRAMES < s_hi" for n
      proof -
        note t = that
        have "n div PMM_SECTION_FRAMES < hi" using below [OF t(1)] t(3) by (simp add: hi_def)
        then obtain j where "j < hi - s_lo" "rot s_lo hi h j = n div PMM_SECTION_FRAMES"
          using rot_surj [OF h(1,2) t(2)] by blast
        with l None t(1) show ?thesis by simp
      qed
      with None show ?thesis by (simp add: e)
    next
      case (Some x)
      with l hi(2) show ?thesis by (auto simp: e split: prod.splits)
    qed
  qed
qed

lemma sec_count_covers:
  assumes "unat limit \<le> 2 ^ 64 - 2 ^ 30" "n < unat limit div 4096"
  shows "n div PMM_SECTION_FRAMES < sec_count_below limit"
proof -
  have "limit + 0x40000000 - 1 = limit + 0x3FFFFFFF" by simp
  moreover have "unat (limit + 0x3FFFFFFF) = unat limit + 0x3FFFFFFF"
    using assms(1) by (subst unat_add64) simp_all
  ultimately have c: "sec_count_below limit = (unat limit + 0x3FFFFFFF) div 2 ^ 30"
    by (simp only: sec_count_below_def unat_drop_bit64)
  have "Suc n \<le> unat limit div 4096" using assms(2) by simp
  then have "Suc n * 4096 \<le> unat limit" by (simp only: less_eq_div_iff_mult_less_eq zero_less_numeral)
  moreover have "n div PMM_SECTION_FRAMES * 2 ^ 18 \<le> n"
    unfolding PMM_SECTION_FRAMES_def by (rule div_times_less_eq_dividend)
  ultimately have "Suc (n div PMM_SECTION_FRAMES) * 2 ^ 30 \<le> unat limit + 0x3FFFFFFF" by simp
  then have "Suc (n div PMM_SECTION_FRAMES) \<le> (unat limit + 0x3FFFFFFF) div 2 ^ 30"
    by (subst less_eq_div_iff_mult_less_eq) simp_all
  then show ?thesis by (simp add: c)
qed

lemma claimed_inv:
  assumes "pmm_inv p" "claimed p n p'"
  shows "pmm_inv p'"
proof -
  have c: "n \<in> free_set p" "free_set p' = free_set p - {n}" "g_free_frames p' = g_free_frames p - 1"
    "secs_ok p'" using assms(2) by (simp_all add: claimed_def)
  have "0 < card (free_set p)" using c(1) by (metis card_gt_0_iff empty_iff finite_free_set)
  moreover have "unat (g_free_frames p) = card (free_set p)" using assms(1) by (simp add: pmm_inv_def)
  ultimately have "unat (g_free_frames p - 1) = card (free_set p) - 1"
    by (subst unat_sub64) simp_all
  with c assms(1) show ?thesis by (simp add: pmm_inv_def)
qed

lemma free_frame_bound:
  assumes "secs_ok p" "n \<in> free_set p"
  shows "n < 2 ^ 40"
proof -
  have "n div PMM_SECTION_FRAMES < g_nsec p"
    using assms(2) by (auto simp: free_set_iff sec_of_def Let_def split: if_splits)
  then have "n div 2 ^ 18 < 2 ^ 22" using assms(1) by (simp add: secs_ok_def PMM_SECTION_FRAMES_def)
  then have "n < 2 ^ 22 * 2 ^ 18" by (subst (asm) div_less_iff_less_mult) simp_all
  then show ?thesis by simp
qed

lemma frame_addr: "n < 2 ^ 40 \<Longrightarrow> unat (of_nat n * 4096 :: u64) = n * 4096"
  by (subst unat_word_ariths(2)) (simp add: unat_of_nat)

text \<open>
  The contract of a single-frame allocation below \<open>limit\<close>: failure exactly when no free
  frame fits, otherwise one free frame below the limit is claimed, from the normal zone
  whenever that has one.
\<close>

definition alloc_result :: "pmm \<Rightarrow> u64 \<Rightarrow> pmm \<Rightarrow> u64 \<Rightarrow> bool" where
  "alloc_result p limit p' a \<longleftrightarrow>
    (if a = 0 then p' = p \<and> (\<forall>n\<in>free_set p. unat limit div 4096 \<le> n)
     else let n = unat a div 4096
          in unat a = n * 4096 \<and> claimed p n p' \<and> n < unat limit div 4096
             \<and> (n < 2 ^ 20 \<longrightarrow> (\<forall>m\<in>free_set p. m < unat limit div 4096 \<longrightarrow> m < 2 ^ 20)))"

lemma alloc_result_hit:
  assumes "pmm_inv p" "claimed p n p'" "n < unat limit div 4096" "same_env p q" "free_set q = free_set p'"
    "g_nsec q = g_nsec p'" "secs_ok q" "g_free_frames q = g_free_frames p'"
    and "n < 2 ^ 20 \<Longrightarrow> \<forall>m\<in>free_set p. m < unat limit div 4096 \<longrightarrow> m < 2 ^ 20"
  shows "alloc_result p limit q (of_nat n * 4096)"
proof -
  have n: "n \<in> free_set p" "secs_ok p" "0 \<notin> free_set p" using assms(1,2) by (simp_all add: claimed_def pmm_inv_def)
  note u = frame_addr [OF free_frame_bound [OF n(2,1)]]
  have "n \<noteq> 0" using n by metis
  with u have nz: "of_nat n * 4096 \<noteq> (0 :: u64)" by (metis mult_is_0 unsigned_0 zero_neq_numeral)
  have "claimed p n q" using assms(2,4-8) by (simp add: claimed_def)
  with u nz assms(3,9) show ?thesis by (simp add: alloc_result_def)
qed

lemma alloc_frame_sectioned:
  assumes inv: "pmm_inv p" and sec: "g_sectioned p" and lim: "limit = ones64 \<or> unat limit \<le> 2 ^ 64 - 2 ^ 30"
  shows "\<exists>p' a. alloc_frame_nolock_below p limit = Some (p', a) \<and> alloc_result p limit p' a"
proof -
  have ok: "secs_ok p" using inv by (simp add: pmm_inv_def)
  define fm where "fm = (if limit = ones64 then unat ones64 else unat (limit div 4096))"
  define cnt where "cnt = sec_count_below (if limit = ones64 then drop_bit 1 ones64 else limit)"
  define lo where "lo = (if limit < PMM_DMA32_LIMIT then limit else PMM_DMA32_LIMIT)"
  define f where "f = (if limit > PMM_DMA32_LIMIT then alloc_in p 4 cnt fm (g_hint_normal p) else None)"
  have bound: "n < 2 ^ 40" if "n \<in> free_set p" for n by (rule free_frame_bound [OF ok that])
  have fm: "n < fm \<longleftrightarrow> n < unat limit div 4096" if "n \<in> free_set p" for n
    using bound [OF that] by (auto simp: fm_def unat_div)
  have cnt: "n div PMM_SECTION_FRAMES < cnt" if "n \<in> free_set p" "n < unat limit div 4096" for n
  proof (cases "limit = ones64")
    case True
    have u: "unat (drop_bit 1 ones64 :: u64) = 0x7FFFFFFFFFFFFFFF" by (simp only: unat_drop_bit64 unat_ones64) simp
    have "n div PMM_SECTION_FRAMES < sec_count_below (drop_bit 1 ones64)"
      by (rule sec_count_covers; unfold u) (use bound [OF that(1)] in simp_all)
    with True show ?thesis by (simp add: cnt_def)
  next
    case False
    with lim that show ?thesis unfolding cnt_def by (intro sec_count_covers) simp_all
  qed
  have lo: "unat lo = min (unat limit) (2 ^ 32)" by (simp add: lo_def PMM_DMA32_LIMIT_def word_nat_order)
  have zone: "4 \<le> n div PMM_SECTION_FRAMES \<longleftrightarrow> \<not> n < 2 ^ 20" for n
    by (simp add: PMM_SECTION_FRAMES_def not_less less_eq_div_iff_mult_less_eq)
  have dma: "unat (drop_bit 30 PMM_DMA32_LIMIT) = 4" by (simp only: unat_drop_bit64 PMM_DMA32_LIMIT_def) simp
  have e: "alloc_frame_nolock_below p limit = (case f of
      Some (p', h, n) \<Rightarrow> Some (p'\<lparr>g_hint_normal := h\<rparr>, of_nat n * 4096)
    | None \<Rightarrow> (case alloc_in p 0 (sec_count_below lo) (unat (lo div 4096)) (g_hint_dma32 p) of
           Some (p', h, n) \<Rightarrow> Some (p'\<lparr>g_hint_dma32 := h\<rparr>, of_nat n * 4096)
         | None \<Rightarrow> Some (p, 0)))"
    using sec by (simp only: alloc_frame_nolock_below_def Let_def dma fm_def [symmetric] cnt_def [symmetric]
        lo_def [symmetric] f_def [symmetric] not_True_eq_False if_False)
  note N = alloc_in_spec [OF ok, of 4 cnt fm "g_hint_normal p"]
  note D = alloc_in_spec [OF ok, of 0 "sec_count_below lo" "unat (lo div 4096)" "g_hint_dma32 p"]
  show ?thesis
  proof (cases f)
    case (Some x)
    then obtain p' h n where x: "f = Some (p', h, n)" by (cases x) auto
    with N have "4 \<le> n div PMM_SECTION_FRAMES" "n < fm" "claimed p n p'" by (simp_all add: f_def split: if_splits)
    with inv fm [of n] zone [of n] have "alloc_result p limit (p'\<lparr>g_hint_normal := h\<rparr>) (of_nat n * 4096)"
      by (intro alloc_result_hit [where n = n and p' = p']) (simp_all add: claimed_def)
    with x e show ?thesis by simp
  next
    case None
    have high: "m < 2 ^ 20" if "m \<in> free_set p" "m < unat limit div 4096" for m
    proof (rule ccontr)
      assume m: "\<not> m < 2 ^ 20"
      with that(2) have "limit > PMM_DMA32_LIMIT" by (simp add: PMM_DMA32_LIMIT_def word_nat_order)
      with N None have "fm \<le> m" using cnt [OF that] zone [of m] m that(1) by (simp add: f_def)
      with fm [OF that(1)] that(2) show False by simp
    qed
    have lom: "m < unat limit div 4096 \<longleftrightarrow> m < unat (lo div 4096)" if "m \<in> free_set p" for m
      using high [OF that] by (auto simp: unat_div lo min_def)
    have locnt: "m div PMM_SECTION_FRAMES < sec_count_below lo" if "m < unat (lo div 4096)" for m
      using that by (intro sec_count_covers) (simp_all add: lo unat_div)
    show ?thesis
    proof (cases "alloc_in p 0 (sec_count_below lo) (unat (lo div 4096)) (g_hint_dma32 p)")
      case none: None
      have "unat limit div 4096 \<le> m" if "m \<in> free_set p" for m
      proof (rule ccontr)
        assume "\<not> unat limit div 4096 \<le> m"
        then have m: "m < unat (lo div 4096)" using lom [OF that] by simp
        have "unat (lo div 4096) \<le> m" using D none that locnt [OF m] by simp
        with m show False by simp
      qed
      with none None e show ?thesis by (auto simp: alloc_result_def)
    next
      case (Some x)
      then obtain p' h n where x: "alloc_in p 0 (sec_count_below lo) (unat (lo div 4096)) (g_hint_dma32 p)
        = Some (p', h, n)" by (cases x) auto
      with D have n: "n < unat (lo div 4096)" "claimed p n p'" by simp_all
      then have "n \<in> free_set p" by (simp add: claimed_def)
      with n inv lom high have "alloc_result p limit (p'\<lparr>g_hint_dma32 := h\<rparr>) (of_nat n * 4096)"
        by (intro alloc_result_hit [where n = n and p' = p']) (simp_all add: claimed_def)
      with x None e show ?thesis by simp
    qed
  qed
qed

end
