(* ===== verification/Frame_Allocator.thy ===== *)
theory Frame_Allocator
  imports Prelude
begin

text \<open>
  The interface the rest of the kernel uses of the physical memory manager: take a free
  frame, give one back.  \<open>avail\<close> is the set of free frames, \<open>managed\<close> the set of frames
  the allocator accounts for.  Clients reason from the four laws; \<open>Pmm_Run\<close> interprets
  the locale on the model of \<open>mm/pmm.c\<close>.
\<close>

locale frame_allocator =
  fixes inv :: "'s \<Rightarrow> bool"
    and avail :: "'s \<Rightarrow> nat set"
    and managed :: "'s \<Rightarrow> nat set"
    and alloc :: "'s \<Rightarrow> ('s \<times> nat) option"
    and release :: "nat \<Rightarrow> 's \<Rightarrow> 's"
  assumes avail_managed: "inv s \<Longrightarrow> finite (avail s) \<and> avail s \<subseteq> managed s"
    and alloc_Some: "inv s \<Longrightarrow> alloc s = Some (s', n) \<Longrightarrow>
      inv s' \<and> n \<in> avail s \<and> avail s' = avail s - {n} \<and> managed s' = managed s"
    and alloc_None: "inv s \<Longrightarrow> alloc s = None \<Longrightarrow> avail s = {}"
    and release_managed: "inv s \<Longrightarrow> n \<in> managed s \<Longrightarrow>
      inv (release n s) \<and> avail (release n s) = insert n (avail s) \<and> managed (release n s) = managed s"
begin

fun alloc_n :: "nat \<Rightarrow> 's \<Rightarrow> ('s \<times> nat list) option" where
  "alloc_n 0 s = Some (s, [])"
| "alloc_n (Suc k) s =
    (case alloc s of
       None \<Rightarrow> None
     | Some (s', n) \<Rightarrow> (case alloc_n k s' of None \<Rightarrow> None | Some (s'', ns) \<Rightarrow> Some (s'', n # ns)))"

lemma alloc_n_ok:
  "inv s \<Longrightarrow> k \<le> card (avail s) \<Longrightarrow>
    \<exists>s' ns. alloc_n k s = Some (s', ns) \<and> inv s' \<and> length ns = k \<and> distinct ns
      \<and> set ns \<subseteq> avail s \<and> avail s' = avail s - set ns \<and> managed s' = managed s"
proof (induction k arbitrary: s)
  case (Suc k)
  have "avail s \<noteq> {}" using Suc.prems(2) by auto
  with alloc_None [OF Suc.prems(1)] have "alloc s \<noteq> None" by blast
  then obtain s1 n where a: "alloc s = Some (s1, n)" by (cases "alloc s") auto
  note s = alloc_Some [OF Suc.prems(1) a]
  have "k \<le> card (avail s1)" using s Suc.prems avail_managed [OF Suc.prems(1)] by auto
  from Suc.IH [OF conjunct1 [OF s] this] obtain s2 ns where "alloc_n k s1 = Some (s2, ns)" "inv s2" "length ns = k" "distinct ns"
    "set ns \<subseteq> avail s1" "avail s2 = avail s1 - set ns" "managed s2 = managed s1"
    by (elim exE conjE)
  moreover have "n \<notin> set ns" "set (n # ns) \<subseteq> avail s" "avail s - {n} - set ns = avail s - set (n # ns)"
    using calculation(5) s by auto
  ultimately show ?case using a s by simp
qed simp

text \<open>
  A history of allocations and releases by clients that release only what they hold;
  \<open>own\<close> is the set of frames held.
\<close>

inductive history :: "'s \<Rightarrow> nat set \<Rightarrow> 's \<Rightarrow> nat set \<Rightarrow> bool" where
  h_refl: "history s own s own"
| h_alloc: "history s own s1 own1 \<Longrightarrow> alloc s1 = Some (s2, n) \<Longrightarrow> history s own s2 (insert n own1)"
| h_free: "history s own s1 own1 \<Longrightarrow> n \<in> own1 \<Longrightarrow> history s own (release n s1) (own1 - {n})"

lemma history_safe:
  "history s own s' own' \<Longrightarrow> inv s \<Longrightarrow> own \<subseteq> managed s \<Longrightarrow> own \<inter> avail s = {} \<Longrightarrow>
    inv s' \<and> own' \<inter> avail s' = {} \<and> own' \<union> avail s' = own \<union> avail s \<and> managed s' = managed s"
proof (induction rule: history.induct)
  case (h_alloc s own s1 own1 s2 n)
  then have i: "inv s1" "own1 \<inter> avail s1 = {}" "own1 \<union> avail s1 = own \<union> avail s" "managed s1 = managed s" by auto
  note a = alloc_Some [OF i(1) h_alloc.hyps(2)]
  then have "insert n own1 \<inter> avail s2 = {}" "insert n own1 \<union> avail s2 = own1 \<union> avail s1" using i(2) by auto
  with a i show ?case by simp
next
  case (h_free s own s1 own1 n)
  then have i: "inv s1" "own1 \<inter> avail s1 = {}" "own1 \<union> avail s1 = own \<union> avail s" "managed s1 = managed s" by auto
  have "n \<in> own \<union> avail s" using i(3) h_free.hyps(2) by (metis UnI1)
  then have "n \<in> managed s1" using h_free.prems(2) i(4) avail_managed [OF h_free.prems(1)] by auto
  note r = release_managed [OF i(1) this]
  then have "(own1 - {n}) \<inter> avail (release n s1) = {}" "(own1 - {n}) \<union> avail (release n s1) = own1 \<union> avail s1"
    using i(2) h_free.hyps(2) by auto
  with r i show ?case by simp
qed simp

lemma alloc_release:
  "inv s \<Longrightarrow> alloc s = Some (s', n) \<Longrightarrow> avail (release n s') = avail s"
proof -
  assume a: "inv s" "alloc s = Some (s', n)"
  note s = alloc_Some [OF a]
  with avail_managed [OF a(1)] have "n \<in> managed s'" by auto
  with s release_managed [of s' n] show ?thesis by auto
qed

end

end
