(* ===== verification/Pmm_Run.thy ===== *)
theory Pmm_Run
  imports Pmm Frame_Allocator
begin

text \<open>
  Runs of contiguous frames (\<open>run_in\<close>, \<open>alloc_run_nolock_below\<close>) and freeing
  (\<open>pmm_free_contiguous\<close>) of \<open>mm/pmm.c\<close>.
\<close>

subsection \<open>Operations\<close>

text \<open>
  The scan of one section for \<open>count\<close> free frames in a row: the loop variables are the
  next frame \<open>f\<close>, the length \<open>run\<close> of the current run and where it started.
\<close>

function run_scan :: "pmm_section \<Rightarrow> nat \<Rightarrow> nat \<Rightarrow> nat \<Rightarrow> nat \<Rightarrow> nat \<Rightarrow> nat option" where
  "run_scan s mx count f run run_start =
    (if f < mx then
       let w = f div 64
       in if f mod 64 = 0 \<and> f + 64 \<le> mx \<and> sec_bitmap s w = ones64
          then run_scan s mx count (f + 64) 0 run_start
          else if f mod 64 = 0 \<and> f + 64 \<le> mx \<and> sec_bitmap s w = 0
          then let rs = (if run = 0 then f else run_start)
               in if run + 64 \<ge> count then Some rs
                  else run_scan s mx count (f + 64) (run + 64) rs
          else if \<not> bit (sec_bitmap s w) (f mod 64)
          then let rs = (if run = 0 then f else run_start)
               in if run + 1 \<ge> count then Some rs
                  else run_scan s mx count (f + 1) (run + 1) rs
          else run_scan s mx count (f + 1) 0 run_start
     else None)"
  by pat_completeness auto
termination by (relation "measure (\<lambda>(s, mx, count, f, run, rs). mx - f)") auto

declare run_scan.simps [simp del]

function run_in_loop :: "pmm \<Rightarrow> nat \<Rightarrow> nat \<Rightarrow> nat \<Rightarrow> nat \<Rightarrow> (pmm \<times> nat) option" where
  "run_in_loop p si s_hi f_max count =
    (if si < s_hi then
       case g_sec p ! si of
         None \<Rightarrow> run_in_loop p (si + 1) s_hi f_max count
       | Some s \<Rightarrow>
           if unat (sec_free s) < count then run_in_loop p (si + 1) s_hi f_max count
           else let base = si * PMM_SECTION_FRAMES
                in if f_max \<le> base then None
                   else let mx = (if f_max - base < PMM_SECTION_FRAMES then f_max - base else PMM_SECTION_FRAMES)
                        in case run_scan s mx count 0 0 0 of
                             Some rs \<Rightarrow>
                               let p' = set_sec p si (fst (sec_mark s rs (rs + count) True))
                               in Some (p'\<lparr>g_free_frames := g_free_frames p' - of_nat count\<rparr>, base + rs)
                           | None \<Rightarrow> run_in_loop p (si + 1) s_hi f_max count
     else None)"
  by pat_completeness auto
termination by (relation "measure (\<lambda>(p, si, s_hi, f_max, count). s_hi - si)") auto

declare run_in_loop.simps [simp del]

definition run_in :: "pmm \<Rightarrow> nat \<Rightarrow> nat \<Rightarrow> nat \<Rightarrow> nat \<Rightarrow> (pmm \<times> nat) option" where
  "run_in p s_lo s_hi f_max count =
    run_in_loop p s_lo (if s_hi > g_nsec p then g_nsec p else s_hi) f_max count"

definition alloc_run_nolock_below :: "pmm \<Rightarrow> nat \<Rightarrow> u64 \<Rightarrow> (pmm \<times> u64) option" where
  "alloc_run_nolock_below p count limit =
    (if count = 0 \<or> count > PMM_SECTION_FRAMES then Some (p, 0)
     else if \<not> g_sectioned p then
       early_alloc p (of_nat count * 4096) 4096 (if limit < PMM_EARLY_LIMIT then limit else PMM_EARLY_LIMIT)
     else
       let f_max = (if limit = ones64 then unat ones64 else unat (limit div 4096));
           dma_secs = unat (drop_bit 30 PMM_DMA32_LIMIT);
           f = (if limit > PMM_DMA32_LIMIT then run_in p dma_secs (g_nsec p) f_max count else None)
       in case f of
            Some (p', n) \<Rightarrow> Some (p', of_nat n * 4096)
          | None \<Rightarrow>
              let lim = (if limit < PMM_DMA32_LIMIT then limit else PMM_DMA32_LIMIT)
              in case run_in p 0 (sec_count_below lim) (unat (lim div 4096)) count of
                   Some (p', n) \<Rightarrow> Some (p', of_nat n * 4096)
                 | None \<Rightarrow> Some (p, 0))"

definition pmm_alloc_contiguous_below :: "pmm \<Rightarrow> nat \<Rightarrow> u64 \<Rightarrow> (pmm \<times> u64) option" where
  "pmm_alloc_contiguous_below p count limit =
    (if count = 0 then Some (p, 0)
     else if count = 1 then alloc_frame_nolock_below p limit
     else alloc_run_nolock_below p count limit)"

definition pmm_alloc_contiguous :: "pmm \<Rightarrow> nat \<Rightarrow> (pmm \<times> u64) option" where
  "pmm_alloc_contiguous p count = pmm_alloc_contiguous_below p count ones64"

text \<open>One iteration of the loop of \<open>pmm_free_contiguous\<close>.\<close>

definition free_one :: "nat \<Rightarrow> pmm \<Rightarrow> pmm" where
  "free_one f p =
    (case sec_of p f of
       None \<Rightarrow> p
     | Some s \<Rightarrow>
         let i = f mod PMM_SECTION_FRAMES
         in if bit (sec_bitmap s (i div 64)) (i mod 64)
            then let s1 = fst (sec_mark s i (i + 1) False);
                     s2 = (if unat (sec_hint s1) > i div 64 then s1\<lparr>sec_hint := of_nat (i div 64)\<rparr> else s1);
                     p' = set_sec p (f div PMM_SECTION_FRAMES) s2
                 in p'\<lparr>g_free_frames := g_free_frames p' + 1\<rparr>
            else p)"

definition pmm_free_contiguous :: "pmm \<Rightarrow> u64 \<Rightarrow> u64 \<Rightarrow> pmm" where
  "pmm_free_contiguous p addr count =
    (let base = addr div 4096
     in if g_sectioned p then fold free_one [unat base ..< unat (base + count)] p else p)"

definition pmm_free_frame :: "pmm \<Rightarrow> u64 \<Rightarrow> pmm" where
  "pmm_free_frame p addr = pmm_free_contiguous p addr 1"

subsection \<open>The scan finds the first run\<close>

definition free_run :: "pmm_section \<Rightarrow> nat \<Rightarrow> nat \<Rightarrow> nat \<Rightarrow> bool" where
  "free_run s mx count r \<longleftrightarrow> r + count \<le> mx \<and> (\<forall>g. r \<le> g \<and> g < r + count \<longrightarrow> \<not> frame_used s g)"

text \<open>The loop invariant: \<open>run\<close> free frames end at \<open>f\<close>, and no run starts before them.\<close>

definition scan_inv :: "pmm_section \<Rightarrow> nat \<Rightarrow> nat \<Rightarrow> nat \<Rightarrow> nat \<Rightarrow> nat \<Rightarrow> bool" where
  "scan_inv s mx count f run rs \<longleftrightarrow> run \<le> f \<and> run < count \<and> (run \<noteq> 0 \<longrightarrow> rs = f - run)
     \<and> (\<forall>g. f - run \<le> g \<and> g < f \<longrightarrow> \<not> frame_used s g)
     \<and> (\<forall>r. free_run s mx count r \<longrightarrow> f - run \<le> r)"

lemma scan_invD:
  assumes "scan_inv s mx count f run rs"
  shows "run \<le> f" "run < count" "run \<noteq> 0 \<Longrightarrow> rs = f - run"
    "f - run \<le> g \<Longrightarrow> g < f \<Longrightarrow> \<not> frame_used s g" "free_run s mx count r \<Longrightarrow> f - run \<le> r"
  using assms by (simp_all only: scan_inv_def simp_thms)

lemma scan_invI:
  assumes "run \<le> f" "run < count" "run \<noteq> 0 \<Longrightarrow> rs = f - run"
    "\<And>g. f - run \<le> g \<Longrightarrow> g < f \<Longrightarrow> \<not> frame_used s g" "\<And>r. free_run s mx count r \<Longrightarrow> f - run \<le> r"
  shows "scan_inv s mx count f run rs"
  unfolding scan_inv_def using assms by (intro conjI impI allI; (elim conjE)?)

lemma scan_free_upto:
  assumes "scan_inv s mx count f run rs" "\<And>g. f \<le> g \<Longrightarrow> g < f + n \<Longrightarrow> \<not> frame_used s g"
    "f - run \<le> g" "g < f + n"
  shows "\<not> frame_used s g"
  using scan_invD(4) [OF assms(1,3)] assms(2) [of g] assms(4) by (cases "g < f") simp_all

lemma scan_inv_free:
  assumes inv: "scan_inv s mx count f run rs" and fr: "\<And>g. f \<le> g \<Longrightarrow> g < f + n \<Longrightarrow> \<not> frame_used s g"
    and lt: "run + n < count" and n: "0 < n"
  shows "scan_inv s mx count (f + n) (run + n) (if run = 0 then f else rs)"
proof -
  note d = scan_invD(1-3) [OF inv]
  have e: "f + n - (run + n) = f - run" by simp
  show ?thesis
  proof (rule scan_invI, unfold e)
    show "(if run = 0 then f else rs) = f - run" using d(3) by simp
    show "\<not> frame_used s g" if "f - run \<le> g" "g < f + n" for g
      by (rule scan_free_upto [OF inv fr that])
    show "f - run \<le> r" if "free_run s mx count r" for r by (rule scan_invD(5) [OF inv that])
  qed (use d lt in simp_all)
qed

lemma scan_inv_hit:
  assumes inv: "scan_inv s mx count f run rs" and fr: "\<And>g. f \<le> g \<Longrightarrow> g < f + n \<Longrightarrow> \<not> frame_used s g"
    and c: "run + n \<ge> count" "f + n \<le> mx"
  shows "free_run s mx count (if run = 0 then f else rs)
    \<and> (\<forall>r. free_run s mx count r \<longrightarrow> (if run = 0 then f else rs) \<le> r)"
proof -
  note d = scan_invD(1-3) [OF inv]
  have e: "(if run = 0 then f else rs) = f - run" using d(3) by simp
  have le: "f - run + count \<le> f + n" using d c by simp
  have "free_run s mx count (f - run)"
    unfolding free_run_def
  proof (intro conjI allI impI, goal_cases)
    case 1
    show ?case using le c(2) by simp
  next
    case (2 g)
    then show ?case using le by (intro scan_free_upto [OF inv fr]) auto
  qed
  with scan_invD(5) [OF inv] show ?thesis unfolding e by (intro conjI allI impI)
qed

lemma scan_inv_used:
  assumes inv: "scan_inv s mx count f run rs" and used: "\<And>g. f \<le> g \<Longrightarrow> g < f + n \<Longrightarrow> frame_used s g"
    and n: "0 < n"
  shows "scan_inv s mx count (f + n) 0 rs'"
proof (rule scan_invI)
  note d = scan_invD(1,2) [OF inv]
  show "f + n - 0 \<le> r" if r: "free_run s mx count r" for r
  proof (rule ccontr)
    assume lt: "\<not> f + n - 0 \<le> r"
    have "f - run \<le> r" by (rule scan_invD(5) [OF inv r])
    with lt d n have m: "max r f < r + count" "f \<le> max r f" "max r f < f + n" "r \<le> max r f" by auto
    then have "\<not> frame_used s (max r f)" using r unfolding free_run_def by simp
    with used [OF m(2,3)] show False by simp
  qed
qed (use scan_invD(2) [OF inv] in auto)

lemma run_scan_spec:
  "scan_inv s mx count f run rs \<Longrightarrow>
    (case run_scan s mx count f run rs of
       Some r \<Rightarrow> free_run s mx count r \<and> (\<forall>q. free_run s mx count q \<longrightarrow> r \<le> q)
     | None \<Rightarrow> \<forall>q. \<not> free_run s mx count q)"
proof (induction s mx count f run rs rule: run_scan.induct)
  case (1 s mx count f run rs)
  let ?w = "sec_bitmap s (f div 64)"
  have word: "frame_used s g \<longleftrightarrow> bit ?w (g mod 64)" if "f mod 64 = 0" "f \<le> g" "g < f + 64" for g
    using that same_word_iff [of f 64 g] by (simp add: frame_used_def)
  consider (over) "\<not> f < mx"
    | (full) "f < mx" "f mod 64 = 0 \<and> f + 64 \<le> mx \<and> ?w = ones64"
    | (empty) "f < mx" "f mod 64 = 0 \<and> f + 64 \<le> mx \<and> ?w = 0"
    | (bit) "f < mx" "\<not> (f mod 64 = 0 \<and> f + 64 \<le> mx \<and> ?w = ones64)" "\<not> (f mod 64 = 0 \<and> f + 64 \<le> mx \<and> ?w = 0)"
    by blast
  then show ?case
  proof cases
    case over
    have "\<not> free_run s mx count q" for q
    proof
      assume q: "free_run s mx count q"
      then have "q + count \<le> mx" by (simp add: free_run_def)
      with scan_invD(5) [OF "1.prems" q] scan_invD(1,2) [OF "1.prems"] over show False by linarith
    qed
    with over show ?thesis by (subst run_scan.simps) simp
  next
    case full
    then have "frame_used s g" if "f \<le> g" "g < f + 64" for g using word [OF _ that] by (simp add: bit_simps)
    from scan_inv_used [OF "1.prems" this, of 64] have "scan_inv s mx count (f + 64) 0 rs" by simp
    from "1.IH"(1) [OF full(1) refl full(2) this] full show ?thesis by (subst run_scan.simps) simp
  next
    case empty
    then have fr: "\<not> frame_used s g" if "f \<le> g" "g < f + 64" for g using word [OF _ that] by simp
    have ne: "\<not> (f mod 64 = 0 \<and> f + 64 \<le> mx \<and> ?w = ones64)" using empty(2) by simp
    show ?thesis
    proof (cases "run + 64 \<ge> count")
      case True
      with empty scan_inv_hit [OF "1.prems" fr True] show ?thesis by (subst run_scan.simps) simp
    next
      case False
      then have "scan_inv s mx count (f + 64) (run + 64) (if run = 0 then f else rs)"
        by (intro scan_inv_free [OF "1.prems" fr]) simp_all
      from "1.IH"(2) [OF empty(1) refl ne empty(2) refl False this] empty False show ?thesis
        by (subst run_scan.simps) simp
    qed
  next
    case bit
    show ?thesis
    proof (cases "bit ?w (f mod 64)")
      case True
      then have "frame_used s g" if "f \<le> g" "g < f + 1" for g
        using that by (simp add: frame_used_def le_less_Suc_eq)
      from scan_inv_used [OF "1.prems" this, of 1] have "scan_inv s mx count (f + 1) 0 rs" by simp
      with "1.IH"(4) [OF bit(1) refl bit(2,3)] True show ?thesis
        by (subst run_scan.simps) (simp only: Let_def bit if_True if_False simp_thms)
    next
      case False
      then have fr: "\<not> frame_used s g" if "f \<le> g" "g < f + 1" for g
        using that by (simp add: frame_used_def le_less_Suc_eq)
      show ?thesis
      proof (cases "run + 1 \<ge> count")
        case True
        have "f + 1 \<le> mx" using bit(1) by simp
        have "free_run s mx count (if run = 0 then f else rs)
          \<and> (\<forall>r. free_run s mx count r \<longrightarrow> (if run = 0 then f else rs) \<le> r)"
          by (rule scan_inv_hit [OF "1.prems" _ True \<open>f + 1 \<le> mx\<close>]) (rule fr)
        with True False show ?thesis
          by (subst run_scan.simps) (simp only: Let_def bit if_True if_False simp_thms option.case, elim conjE)
      next
        case short: False
        then have "scan_inv s mx count (f + 1) (run + 1) (if run = 0 then f else rs)"
          by (intro scan_inv_free [OF "1.prems" fr]) simp_all
        with "1.IH"(3) [OF bit(1) refl bit(2,3) False refl short] False short show ?thesis
          by (subst run_scan.simps) (simp only: Let_def bit if_True if_False simp_thms)
      qed
    qed
  qed
qed

subsection \<open>Runs of the whole map\<close>

definition free_span :: "pmm \<Rightarrow> nat \<Rightarrow> nat \<Rightarrow> bool" where
  "free_span p count n \<longleftrightarrow> n mod PMM_SECTION_FRAMES + count \<le> PMM_SECTION_FRAMES
     \<and> {n ..< n + count} \<subseteq> free_set p"

definition claimed_run :: "pmm \<Rightarrow> nat \<Rightarrow> nat \<Rightarrow> pmm \<Rightarrow> bool" where
  "claimed_run p n count p' \<longleftrightarrow> free_span p count n \<and> free_set p' = free_set p - {n ..< n + count}
     \<and> secs_ok p' \<and> same_env p p' \<and> g_nsec p' = g_nsec p \<and> g_free_frames p' = g_free_frames p - of_nat count"

lemma span_in_section:
  assumes "n mod F + count \<le> F" "n \<le> g" "g < n + count" "0 < (F::nat)"
  shows "g div F = n div F \<and> g mod F = n mod F + (g - n)"
proof -
  define d where "d = n mod F + (g - n)"
  have g: "g = d + F * (n div F)"
    using assms(2) div_mult_mod_eq [of n F] by (simp add: d_def mult.commute)
  have lt: "d < F" using assms by (simp add: d_def)
  have "g div F = n div F" "g mod F = d" unfolding g by (rule digit_div [OF lt], rule digit_mod [OF lt])
  then show ?thesis by (simp add: d_def)
qed

lemma free_span_iff:
  assumes "si < g_nsec p" "g_sec p ! si = Some s" "n div PMM_SECTION_FRAMES = si" "0 < count"
  defines "base \<equiv> si * PMM_SECTION_FRAMES"
  shows "free_span p count n \<and> n + count \<le> f_max
    \<longleftrightarrow> free_run s (min (f_max - base) PMM_SECTION_FRAMES) count (n mod PMM_SECTION_FRAMES)"
proof -
  let ?F = PMM_SECTION_FRAMES
  have n: "n = base + n mod ?F" using assms(3) div_mult_mod_eq [of n ?F] by (simp add: base_def)
  have fs: "g \<in> free_set p \<longleftrightarrow> \<not> frame_used s (g mod ?F)" if "g div ?F = si" for g
    using free_set_set_sec(2) [OF assms(1,2) that] by (simp add: sec_free_set_def)
  have le: "n + count \<le> f_max \<longleftrightarrow> n mod ?F + count \<le> f_max - base" using n assms(4) by linarith
  show ?thesis
  proof
    assume a: "free_span p count n \<and> n + count \<le> f_max"
    then have m: "n mod ?F + count \<le> ?F" and sub: "{n ..< n + count} \<subseteq> free_set p" by (simp_all add: free_span_def)
    have "\<not> frame_used s g" if "n mod ?F \<le> g" "g < n mod ?F + count" for g
    proof -
      have h: "base + g \<in> free_set p" by (rule subsetD [OF sub]) (use that n in auto)
      have "g < ?F" using that m by simp
      then have "(base + g) div ?F = si" "(base + g) mod ?F = g" by (simp_all add: base_def)
      with fs [of "base + g"] h show ?thesis by simp
    qed
    with a m le show "free_run s (min (f_max - base) ?F) count (n mod ?F)" by (simp add: free_run_def)
  next
    assume a: "free_run s (min (f_max - base) ?F) count (n mod ?F)"
    then have m: "n mod ?F + count \<le> ?F" "n mod ?F + count \<le> f_max - base" by (simp_all add: free_run_def)
    have "g \<in> free_set p" if "n \<le> g" "g < n + count" for g
    proof -
      have g: "g div ?F = si" "g mod ?F = n mod ?F + (g - n)"
        using span_in_section [OF m(1) that] assms(3) by simp_all
      have "n mod ?F \<le> g mod ?F" "g mod ?F < n mod ?F + count" using that by (simp_all add: g(2))
      then have "\<not> frame_used s (g mod ?F)" using a unfolding free_run_def by simp
      with fs [OF g(1)] show ?thesis by simp
    qed
    then have "{n ..< n + count} \<subseteq> free_set p" by (meson atLeastLessThan_iff subsetI)
    with m le show "free_span p count n \<and> n + count \<le> f_max" by (simp add: free_span_def)
  qed
qed

lemma free_span_count:
  assumes "secs_ok p" "si < g_nsec p" "g_sec p ! si = Some s" "n div PMM_SECTION_FRAMES = si" "0 < count"
    and "free_span p count n"
  shows "count \<le> unat (sec_free s)"
proof -
  have "free_run s (min (n + count - si * PMM_SECTION_FRAMES) PMM_SECTION_FRAMES) count (n mod PMM_SECTION_FRAMES)"
    using free_span_iff [OF assms(2-5), of "n + count"] assms(6) by simp
  then have "{n mod PMM_SECTION_FRAMES ..< n mod PMM_SECTION_FRAMES + count} \<subseteq> sec_free_set s"
    by (auto simp: free_run_def sec_free_set_def)
  from card_mono [OF _ this] secs_ok_sec [OF assms(1-3)] show ?thesis by (simp add: sec_inv_def)
qed

lemma claim_run_sec:
  assumes ok: "secs_ok p" and si: "si < g_nsec p" "g_sec p ! si = Some s" and c: "0 < count"
    and r: "free_run s (min (f_max - si * PMM_SECTION_FRAMES) PMM_SECTION_FRAMES) count rs"
  defines "p' \<equiv> (set_sec p si (fst (sec_mark s rs (rs + count) True)))\<lparr>g_free_frames := g_free_frames p - of_nat count\<rparr>"
    and "n \<equiv> si * PMM_SECTION_FRAMES + rs"
  shows "n div PMM_SECTION_FRAMES = si \<and> n + count \<le> f_max \<and> claimed_run p n count p'"
proof -
  let ?F = PMM_SECTION_FRAMES and ?s = "fst (sec_mark s rs (rs + count) True)"
  have le: "rs + count \<le> ?F" using r by (simp add: free_run_def)
  with c have rs: "rs < ?F" by simp
  then have n: "n div ?F = si" "n mod ?F = rs" by (simp_all add: n_def)
  have sp: "free_span p count n" "n + count \<le> f_max"
    using free_span_iff [OF si n(1) c, of f_max] r n(2) by simp_all
  have inv: "sec_inv ?s" by (rule sec_mark_inv [OF secs_ok_sec [OF ok si] le])
  have fset: "sec_free_set ?s = sec_free_set s - {rs ..< rs + count}" using sec_free_set_mark [OF le] by simp
  have fs: "x \<in> free_set p' \<longleftrightarrow> x \<in> free_set p - {n ..< n + count}" for x
  proof (cases "x div ?F = si")
    case True
    have x: "x = si * ?F + x mod ?F" using True div_mult_mod_eq [of x ?F] by simp
    then have "x mod ?F \<in> {rs ..< rs + count} \<longleftrightarrow> x \<in> {n ..< n + count}" by (auto simp: n_def)
    with True show ?thesis using free_set_set_sec [OF si, of x] by (simp add: p'_def fset)
  next
    case False
    then have "x \<notin> {n ..< n + count}"
      using span_in_section [of n ?F count x] le n by auto
    with False show ?thesis using free_set_set_sec(1) [OF si, of x] by (simp add: p'_def)
  qed
  have "same_env p p'"
    using same_env_set_sec [OF si, of ?s] by (simp add: p'_def)
  moreover have "secs_ok p'" using secs_ok_set_sec [OF ok inv] by (simp add: p'_def)
  moreover have "free_set p' = free_set p - {n ..< n + count}" using fs by blast
  ultimately show ?thesis using n(1) sp by (simp add: claimed_run_def p'_def)
qed

lemma run_in_loop_spec:
  assumes ok: "secs_ok p" and hi: "s_hi \<le> g_nsec p" and c: "0 < count"
  shows "case run_in_loop p si s_hi f_max count of
      None \<Rightarrow> \<forall>n. si \<le> n div PMM_SECTION_FRAMES \<and> n div PMM_SECTION_FRAMES < s_hi \<and> n + count \<le> f_max
                \<longrightarrow> \<not> free_span p count n
    | Some (p', n) \<Rightarrow> si \<le> n div PMM_SECTION_FRAMES \<and> n div PMM_SECTION_FRAMES < s_hi \<and> n + count \<le> f_max
                \<and> claimed_run p n count p'"
    (is "?P si")
proof (induction "s_hi - si" arbitrary: si rule: less_induct)
  case less
  let ?F = PMM_SECTION_FRAMES
  show ?case
  proof (cases "si < s_hi")
    case False
    then show ?thesis by (subst run_in_loop.simps) auto
  next
    case True
    then have si: "si < g_nsec p" using hi by simp
    have ih: "?P (si + 1)" by (rule less) (use True in simp)
    have next_sec: ?thesis
      if u: "run_in_loop p si s_hi f_max count = run_in_loop p (si + 1) s_hi f_max count"
        and no: "\<And>n. n div ?F = si \<Longrightarrow> n + count \<le> f_max \<Longrightarrow> \<not> free_span p count n"
    proof (cases "run_in_loop p (si + 1) s_hi f_max count")
      case None
      have "\<not> free_span p count n" if n: "si \<le> n div ?F" "n div ?F < s_hi" "n + count \<le> f_max" for n
      proof (cases "n div ?F = si")
        case False
        with n have "si + 1 \<le> n div ?F" by simp
        with ih None n show ?thesis by simp
      qed (use no n in simp)
      with None u show ?thesis by simp
    next
      case (Some x)
      with ih u show ?thesis by (cases x) simp
    qed
    show ?thesis
    proof (cases "g_sec p ! si")
      case None
      have "\<not> free_span p count n" if "n div ?F = si" for n
      proof
        assume "free_span p count n"
        then have "n \<in> free_set p" using c by (auto simp: free_span_def)
        with that None si show False by (simp add: free_set_iff sec_of_def)
      qed
      with None True show ?thesis by (intro next_sec) (subst run_in_loop.simps, simp_all)
    next
      case (Some s)
      note iff = free_span_iff [OF si Some _ c, of _ f_max]
      consider (few) "unat (sec_free s) < count" | (lim) "\<not> unat (sec_free s) < count" "f_max \<le> si * ?F"
        | (scan) "\<not> unat (sec_free s) < count" "\<not> f_max \<le> si * ?F" by blast
      then show ?thesis
      proof cases
        case few
        have "\<not> free_span p count n" if "n div ?F = si" for n
          using free_span_count [OF ok si Some that c] few by force
        with few Some True show ?thesis by (intro next_sec) (subst run_in_loop.simps, simp_all)
      next
        case lim
        have "\<not> n + count \<le> f_max" if "si \<le> n div ?F" for n
        proof -
          have "si * ?F \<le> n" using that by (metis F_pos less_eq_div_iff_mult_less_eq)
          with lim(2) c show ?thesis by linarith
        qed
        then have "\<forall>n. si \<le> n div ?F \<and> n div ?F < s_hi \<and> n + count \<le> f_max \<longrightarrow> \<not> free_span p count n" by auto
        with lim Some True show ?thesis by (subst run_in_loop.simps) (simp add: Let_def)
      next
        case scan
        let ?mx = "min (f_max - si * ?F) ?F"
        have mx: "(if f_max - si * ?F < ?F then f_max - si * ?F else ?F) = ?mx" by simp
        have "scan_inv s ?mx count 0 0 0" using c by (intro scan_invI) simp_all
        note rs = run_scan_spec [OF this]
        show ?thesis
        proof (cases "run_scan s ?mx count 0 0 0")
          case None
          with rs have "\<not> free_run s ?mx count q" for q by simp
          then have "\<not> free_span p count n" if "n div ?F = si" "n + count \<le> f_max" for n
            using iff [OF that(1)] that(2) by simp
          moreover have "run_in_loop p si s_hi f_max count = run_in_loop p (si + 1) s_hi f_max count"
            using None Some True scan by (subst run_in_loop.simps) (simp only: Let_def mx if_True if_False option.case)
          ultimately show ?thesis by (intro next_sec)
        next
          case hit: (Some r)
          with rs have "free_run s ?mx count r" by simp
          note cl = claim_run_sec [OF ok si Some c this]
          have "run_in_loop p si s_hi f_max count = Some ((set_sec p si (fst (sec_mark s r (r + count) True)))
              \<lparr>g_free_frames := g_free_frames p - of_nat count\<rparr>, si * ?F + r)"
            using hit Some True scan
            by (subst run_in_loop.simps) (simp only: Let_def mx if_True if_False option.case, simp add: set_sec_def)
          with cl True show ?thesis by simp
        qed
      qed
    qed
  qed
qed

lemma run_in_spec:
  assumes ok: "secs_ok p" and c: "0 < count"
  shows "case run_in p s_lo s_hi f_max count of
      None \<Rightarrow> \<forall>n. s_lo \<le> n div PMM_SECTION_FRAMES \<and> n div PMM_SECTION_FRAMES < s_hi \<and> n + count \<le> f_max
                \<longrightarrow> \<not> free_span p count n
    | Some (p', n) \<Rightarrow> s_lo \<le> n div PMM_SECTION_FRAMES \<and> n div PMM_SECTION_FRAMES < s_hi \<and> n + count \<le> f_max
                \<and> claimed_run p n count p'"
proof -
  define hi where "hi = (if s_hi > g_nsec p then g_nsec p else s_hi)"
  have hi: "hi \<le> g_nsec p" "hi \<le> s_hi" by (auto simp: hi_def)
  have below: "n div PMM_SECTION_FRAMES < g_nsec p" if "free_span p count n" for n
  proof -
    have "n \<in> free_set p" using that c by (auto simp: free_span_def)
    then show ?thesis by (auto simp: free_set_iff sec_of_def Let_def split: if_splits)
  qed
  note l = run_in_loop_spec [OF ok hi(1) c, where si = s_lo and f_max = f_max]
  have e: "run_in p s_lo s_hi f_max count = run_in_loop p s_lo hi f_max count"
    by (simp add: run_in_def hi_def)
  show ?thesis
  proof (cases "run_in_loop p s_lo hi f_max count")
    case None
    have "\<not> free_span p count n"
      if "s_lo \<le> n div PMM_SECTION_FRAMES" "n div PMM_SECTION_FRAMES < s_hi" "n + count \<le> f_max" for n
    proof
      assume sp: "free_span p count n"
      with below that(2) have "n div PMM_SECTION_FRAMES < hi" by (simp add: hi_def)
      with l None that sp show False by simp
    qed
    with None e show ?thesis by simp
  next
    case (Some x)
    with l hi(2) e show ?thesis by (cases x) simp
  qed
qed

text \<open>
  The contract of a run allocation: 0 exactly when no section holds \<open>count\<close> free frames
  in a row below the limit, otherwise such a run is claimed, above 4 GiB when possible.
\<close>

definition run_result :: "pmm \<Rightarrow> nat \<Rightarrow> u64 \<Rightarrow> pmm \<Rightarrow> u64 \<Rightarrow> bool" where
  "run_result p count limit p' a \<longleftrightarrow>
    (if a = 0 then p' = p \<and> (\<forall>n. n + count \<le> unat limit div 4096 \<longrightarrow> \<not> free_span p count n)
     else let n = unat a div 4096
          in unat a = n * 4096 \<and> claimed_run p n count p' \<and> n + count \<le> unat limit div 4096)"

lemma run_result_hit:
  assumes inv: "pmm_inv p" and c: "0 < count" and cl: "claimed_run p n count p'" and le: "n + count \<le> unat limit div 4096"
  shows "run_result p count limit p' (of_nat n * 4096)"
proof -
  have sp: "{n ..< n + count} \<subseteq> free_set p" using cl by (simp add: claimed_run_def free_span_def)
  then have n: "n \<in> free_set p" using c by auto
  have ok: "secs_ok p" "0 \<notin> free_set p" using inv by (simp_all add: pmm_inv_def)
  note u = frame_addr [OF free_frame_bound [OF ok(1) n]]
  have "n \<noteq> 0" using n ok by metis
  with u have "of_nat n * 4096 \<noteq> (0 :: u64)" by (metis mult_is_0 unsigned_0 zero_neq_numeral)
  with u cl le show ?thesis by (simp add: run_result_def)
qed

lemma alloc_run_sectioned:
  assumes inv: "pmm_inv p" and sec: "g_sectioned p" and c: "0 < count" "count \<le> PMM_SECTION_FRAMES"
  shows "\<exists>p' a. alloc_run_nolock_below p count limit = Some (p', a) \<and> run_result p count limit p' a"
proof -
  have ok: "secs_ok p" using inv by (simp add: pmm_inv_def)
  define fm where "fm = (if limit = ones64 then unat ones64 else unat (limit div 4096))"
  define lo where "lo = (if limit < PMM_DMA32_LIMIT then limit else PMM_DMA32_LIMIT)"
  define f where "f = (if limit > PMM_DMA32_LIMIT then run_in p 4 (g_nsec p) fm count else None)"
  have bound: "n + count < 2 ^ 41 \<and> n div PMM_SECTION_FRAMES < g_nsec p" if "free_span p count n" for n
  proof -
    have n: "n \<in> free_set p" using that c(1) by (auto simp: free_span_def)
    with free_frame_bound [OF ok n] c(2) show ?thesis
      by (auto simp: PMM_SECTION_FRAMES_def free_set_iff sec_of_def Let_def split: if_splits)
  qed
  have fm: "n + count \<le> fm \<longleftrightarrow> n + count \<le> unat limit div 4096" if "free_span p count n" for n
    using bound [OF that] by (auto simp: fm_def unat_div)
  have lo: "unat lo = min (unat limit) (2 ^ 32)" by (simp add: lo_def PMM_DMA32_LIMIT_def word_nat_order)
  have dma: "unat (drop_bit 30 PMM_DMA32_LIMIT) = 4" by (simp only: unat_drop_bit64 PMM_DMA32_LIMIT_def) simp
  have nc: "\<not> (count = 0 \<or> count > PMM_SECTION_FRAMES)" using c by simp
  have e: "alloc_run_nolock_below p count limit = (case f of
      Some (p', n) \<Rightarrow> Some (p', of_nat n * 4096)
    | None \<Rightarrow> (case run_in p 0 (sec_count_below lo) (unat (lo div 4096)) count of
           Some (p', n) \<Rightarrow> Some (p', of_nat n * 4096)
         | None \<Rightarrow> Some (p, 0)))"
    using sec nc by (simp only: alloc_run_nolock_below_def Let_def dma fm_def [symmetric]
        lo_def [symmetric] f_def [symmetric] not_True_eq_False if_False)
  note N = run_in_spec [OF ok c(1), of 4 "g_nsec p" fm]
  note D = run_in_spec [OF ok c(1), of 0 "sec_count_below lo" "unat (lo div 4096)"]
  show ?thesis
  proof (cases f)
    case (Some x)
    then obtain p' n where x: "f = Some (p', n)" by (cases x) auto
    with N have n: "n + count \<le> fm" "claimed_run p n count p'" by (simp_all add: f_def split: if_splits)
    then have "n + count \<le> unat limit div 4096" using fm [of n] by (simp add: claimed_run_def)
    from run_result_hit [OF inv c(1) n(2) this] x e show ?thesis by simp
  next
    case None
    show ?thesis
    proof (cases "run_in p 0 (sec_count_below lo) (unat (lo div 4096)) count")
      case (Some x)
      then obtain p' n where x: "run_in p 0 (sec_count_below lo) (unat (lo div 4096)) count = Some (p', n)"
        by (cases x) auto
      with D have n: "n + count \<le> unat (lo div 4096)" "claimed_run p n count p'" by simp_all
      then have "n + count \<le> unat limit div 4096" by (simp add: unat_div lo min_def split: if_splits)
      from run_result_hit [OF inv c(1) n(2) this] x None e show ?thesis by simp
    next
      case none: None
      have "\<not> free_span p count n" if n: "n + count \<le> unat limit div 4096" for n
      proof
        assume sp: "free_span p count n"
        show False
        proof (cases "4 \<le> n div PMM_SECTION_FRAMES")
          case True
          then have "4 * 2 ^ 18 \<le> n" by (simp add: PMM_SECTION_FRAMES_def less_eq_div_iff_mult_less_eq)
          with n c(1) have "limit > PMM_DMA32_LIMIT" by (simp add: PMM_DMA32_LIMIT_def word_nat_order)
          with N None True bound [OF sp] fm [OF sp] n sp show False by (simp add: f_def)
        next
          case False
          then have "n div 262144 \<le> 3" by (simp add: PMM_SECTION_FRAMES_def)
          moreover have "n mod 262144 + count \<le> 262144" using sp by (simp add: free_span_def PMM_SECTION_FRAMES_def)
          ultimately have "n + count \<le> 1048576" using div_mult_mod_eq [of n 262144] by linarith
          with n have le: "n + count \<le> unat (lo div 4096)" by (simp add: unat_div lo min_def)
          then have "n < unat lo div 4096" using c(1) by (simp add: unat_div)
          then have "n div PMM_SECTION_FRAMES < sec_count_below lo"
            by (intro sec_count_covers) (simp_all add: lo)
          with D none le sp show False by simp
        qed
      qed
      with none None e show ?thesis by (auto simp: run_result_def)
    qed
  qed
qed

subsection \<open>Freeing\<close>

definition released :: "pmm \<Rightarrow> nat set \<Rightarrow> pmm \<Rightarrow> bool" where
  "released p A p' \<longleftrightarrow> free_set p' = free_set p \<union> A \<and> secs_ok p' \<and> same_env p p' \<and> g_nsec p' = g_nsec p
     \<and> (\<forall>f. sec_of p' f = None \<longleftrightarrow> sec_of p f = None)
     \<and> unat (g_free_frames p') = card (free_set p')"

lemma card_free_bound: "secs_ok p \<Longrightarrow> card (free_set p) \<le> 2 ^ 40"
proof -
  assume "secs_ok p"
  then have "free_set p \<subseteq> {..< 2 ^ 40}" using free_frame_bound by auto
  from card_mono [OF _ this] show ?thesis by simp
qed

lemma free_one_spec:
  assumes ok: "secs_ok p" and cnt: "unat (g_free_frames p) = card (free_set p)"
  shows "released p (if sec_of p f = None then {} else {f}) (free_one f p)"
proof (cases "sec_of p f")
  case None
  with ok cnt show ?thesis by (simp add: released_def free_one_def)
next
  case (Some s)
  let ?F = PMM_SECTION_FRAMES
  define i where "i = f mod ?F"
  have si: "f div ?F < g_nsec p" "g_sec p ! (f div ?F) = Some s"
    using Some by (auto simp: sec_of_def Let_def split: if_splits)
  have i: "i < ?F" by (simp add: i_def)
  have fs: "f \<in> free_set p \<longleftrightarrow> \<not> frame_used s i"
    using free_set_set_sec(2) [OF si refl] i by (simp add: i_def sec_free_set_def)
  show ?thesis
  proof (cases "frame_used s i")
    case False
    with Some fs ok cnt show ?thesis
      by (auto simp: released_def free_one_def frame_used_def i_def [symmetric] insert_absorb)
  next
    case True
    define s1 where "s1 = fst (sec_mark s i (i + 1) False)"
    define s2 where "s2 = (if unat (sec_hint s1) > i div 64 then s1\<lparr>sec_hint := of_nat (i div 64)\<rparr> else s1)"
    define p' where "p' = (set_sec p (f div ?F) s2)\<lparr>g_free_frames := g_free_frames p + 1\<rparr>"
    have e: "free_one f p = p'"
      using Some True
      by (simp add: free_one_def frame_used_def i_def [symmetric] s1_def s2_def p'_def Let_def set_sec_def)
    have inv: "sec_inv s2"
      using sec_mark_inv [OF secs_ok_sec [OF ok si], of "i + 1" i False] i by (simp add: s2_def s1_def)
    have fset: "sec_free_set s2 = sec_free_set s \<union> {i}"
      using sec_free_set_mark [of "i + 1" s i False] i by (auto simp: s2_def s1_def)
    have "x \<in> free_set p' \<longleftrightarrow> x \<in> free_set p \<union> {f}" for x
    proof (cases "x div ?F = f div ?F")
      case True
      then have "x mod ?F = i \<longleftrightarrow> x = f" unfolding i_def by (metis div_mult_mod_eq)
      with True show ?thesis using free_set_set_sec [OF si, of x] by (auto simp: p'_def fset)
    next
      case False
      then have "x \<noteq> f" by blast
      with False show ?thesis using free_set_set_sec(1) [OF si, of x] by (simp add: p'_def)
    qed
    then have fset': "free_set p' = free_set p \<union> {f}" by blast
    have ok': "secs_ok p'" using secs_ok_set_sec [OF ok inv] by (simp add: p'_def)
    have "same_env p p'"
      using same_env_set_sec [OF si, of s2] by (simp add: p'_def s2_def s1_def)
    moreover have "\<forall>g. sec_of p' g = None \<longleftrightarrow> sec_of p g = None"
      using si by (auto simp: p'_def sec_of_def set_sec_def Let_def nth_list_update)
    moreover have "unat (g_free_frames p') = card (free_set p')"
    proof -
      have c: "card (free_set p') = Suc (card (free_set p))" using fs True by (simp add: fset')
      with card_free_bound [OF ok'] cnt have "unat (g_free_frames p) + unat (1 :: u64) < 2 ^ 64" by simp
      from unat_add64 [OF this] c cnt show ?thesis by (simp add: p'_def)
    qed
    ultimately show ?thesis using Some ok' fset' by (simp add: e released_def p'_def)
  qed
qed

lemma released_trans:
  assumes "released p A q" "released q B r"
  shows "released p (A \<union> B) r"
  using assms same_env_trans [of p q r] by (auto simp: released_def)

lemma fold_free_spec:
  assumes "secs_ok p" "unat (g_free_frames p) = card (free_set p)"
  shows "released p {f \<in> set fs. sec_of p f \<noteq> None} (fold free_one fs p)"
  using assms
proof (induction fs arbitrary: p)
  case Nil
  then show ?case by (simp add: released_def)
next
  case (Cons f fs)
  note r = free_one_spec [OF Cons.prems, of f]
  have "released (free_one f p) {g \<in> set fs. sec_of (free_one f p) g \<noteq> None} (fold free_one fs (free_one f p))"
    by (rule Cons.IH) (use r in \<open>simp_all add: released_def\<close>)
  moreover have "{g \<in> set fs. sec_of (free_one f p) g \<noteq> None} = {g \<in> set fs. sec_of p g \<noteq> None}"
    using r by (simp add: released_def)
  ultimately have "released p ((if sec_of p f = None then {} else {f}) \<union> {g \<in> set fs. sec_of p g \<noteq> None})
    (fold free_one fs (free_one f p))"
    using released_trans [OF r] by simp
  moreover have "(if sec_of p f = None then {} else {f}) \<union> {g \<in> set fs. sec_of p g \<noteq> None}
      = {g \<in> set (f # fs). sec_of p g \<noteq> None}" by auto
  ultimately show ?case by (simp only: fold_Cons comp_apply)
qed

subsection \<open>The allocator as an interface\<close>

definition pmm_ready :: "pmm \<Rightarrow> bool" where
  "pmm_ready p \<longleftrightarrow> pmm_inv p \<and> g_sectioned p"

definition pmm_managed :: "pmm \<Rightarrow> nat set" where
  "pmm_managed p = {n. sec_of p n \<noteq> None} - {0}"

definition pmm_take :: "pmm \<Rightarrow> (pmm \<times> nat) option" where
  "pmm_take p = (case pmm_alloc_frame p of
     None \<Rightarrow> None
   | Some (p', a) \<Rightarrow> if a = 0 then None else Some (p', unat a div 4096))"

definition pmm_give :: "nat \<Rightarrow> pmm \<Rightarrow> pmm" where
  "pmm_give n p = pmm_free_frame p (of_nat n * 4096)"

lemma refs_of_sec_of: "refs_of p' = refs_of p \<Longrightarrow> sec_of p' n = None \<longleftrightarrow> sec_of p n = None"
proof -
  assume r: "refs_of p' = refs_of p"
  have l: "g_nsec p' = g_nsec p" using arg_cong [OF r, of length] by (simp add: refs_of_def)
  have "g_sec p' ! i = None \<longleftrightarrow> g_sec p ! i = None" if "i < g_nsec p" for i
  proof -
    have "refs_of p' ! i = None \<longleftrightarrow> refs_of p ! i = None" by (simp add: r)
    with that l show ?thesis by (simp add: refs_of_def)
  qed
  with l show ?thesis by (simp add: sec_of_def Let_def)
qed

lemma pmm_take_Some:
  assumes "pmm_ready p" "pmm_take p = Some (p', n)"
  shows "pmm_ready p' \<and> claimed p n p'"
proof -
  have r: "pmm_inv p" "g_sectioned p" using assms(1) by (simp_all add: pmm_ready_def)
  obtain q a where q: "alloc_frame_nolock_below p ones64 = Some (q, a)" "alloc_result p ones64 q a"
    using alloc_frame_sectioned [OF r, of ones64] by auto
  with assms(2) have "a \<noteq> 0" "q = p'" "n = unat a div 4096"
    by (auto simp: pmm_take_def pmm_alloc_frame_def split: if_splits)
  with q have c: "claimed p n p'" by (simp add: alloc_result_def Let_def)
  then have "g_sectioned p'" using r(2) by (simp add: claimed_def same_env_def)
  with c claimed_inv [OF r(1) c] show ?thesis by (simp add: pmm_ready_def)
qed

lemma pmm_take_None: "pmm_ready p \<Longrightarrow> pmm_take p = None \<Longrightarrow> free_set p = {}"
proof -
  assume a: "pmm_ready p" "pmm_take p = None"
  have r: "pmm_inv p" "g_sectioned p" using a(1) by (simp_all add: pmm_ready_def)
  obtain q x where q: "alloc_frame_nolock_below p ones64 = Some (q, x)" "alloc_result p ones64 q x"
    using alloc_frame_sectioned [OF r, of ones64] by auto
  with a(2) have "x = 0" by (simp add: pmm_take_def pmm_alloc_frame_def split: if_splits)
  with q(2) have "\<forall>n\<in>free_set p. 2 ^ 40 \<le> n" by (auto simp: alloc_result_def)
  moreover have "n < 2 ^ 40" if "n \<in> free_set p" for n
    using free_frame_bound [OF _ that] r(1) by (simp add: pmm_inv_def)
  ultimately show ?thesis by fastforce
qed

lemma managed_bound: "secs_ok p \<Longrightarrow> n \<in> pmm_managed p \<Longrightarrow> n < 2 ^ 40"
proof -
  assume a: "secs_ok p" "n \<in> pmm_managed p"
  then have "n div PMM_SECTION_FRAMES < g_nsec p"
    by (auto simp: pmm_managed_def sec_of_def Let_def split: if_splits)
  then have "n div 2 ^ 18 < 2 ^ 22" using a(1) by (simp add: secs_ok_def PMM_SECTION_FRAMES_def)
  then have "n < 2 ^ 22 * 2 ^ 18" by (subst (asm) div_less_iff_less_mult) simp_all
  then show ?thesis by simp
qed

lemma pmm_give_released:
  assumes r: "pmm_ready p" and n: "n \<in> pmm_managed p"
  shows "released p {n} (pmm_give n p)"
proof -
  have ok: "secs_ok p" "unat (g_free_frames p) = card (free_set p)" "g_sectioned p"
    using r by (simp_all add: pmm_ready_def pmm_inv_def)
  have lt: "n < 2 ^ 40" by (rule managed_bound [OF ok(1) n])
  have b: "unat (of_nat n * 4096 div 4096 :: u64) = n" by (simp add: unat_div frame_addr [OF lt])
  have "unat (of_nat n * 4096 div 4096 + 1 :: u64) = n + 1"
    using lt by (subst unat_add64) (simp_all add: b)
  with b ok(3) have "pmm_give n p = fold free_one [n] p"
    by (simp add: pmm_give_def pmm_free_frame_def pmm_free_contiguous_def Let_def)
  moreover have "{f \<in> set [n]. sec_of p f \<noteq> None} = {n}" using n by (auto simp: pmm_managed_def)
  ultimately show ?thesis using fold_free_spec [OF ok(1,2), of "[n]"] by simp
qed

interpretation pmm_alloc: frame_allocator pmm_ready free_set pmm_managed pmm_take pmm_give
proof
  fix p assume r: "pmm_ready p"
  then show "finite (free_set p) \<and> free_set p \<subseteq> pmm_managed p"
    by (auto simp: pmm_managed_def free_set_iff pmm_ready_def pmm_inv_def)
  show "free_set p = {}" if "pmm_take p = None" by (rule pmm_take_None [OF r that])
  show "pmm_ready p' \<and> n \<in> free_set p \<and> free_set p' = free_set p - {n} \<and> pmm_managed p' = pmm_managed p"
    if "pmm_take p = Some (p', n)" for p' n
    using pmm_take_Some [OF r that] refs_of_sec_of [of p' p]
    by (simp add: claimed_def same_env_def pmm_managed_def)
  show "pmm_ready (pmm_give n p) \<and> free_set (pmm_give n p) = insert n (free_set p)
      \<and> pmm_managed (pmm_give n p) = pmm_managed p" if n: "n \<in> pmm_managed p" for n
  proof -
    note g = pmm_give_released [OF r n]
    have "0 \<notin> free_set (pmm_give n p)"
      using g n r by (auto simp: released_def pmm_managed_def pmm_ready_def pmm_inv_def)
    with g r show ?thesis
      by (simp add: released_def pmm_managed_def pmm_ready_def pmm_inv_def same_env_def)
  qed
qed

end
