(* ===== verification/Pmm_Init.thy ===== *)
theory Pmm_Init
  imports Pmm_Run
begin

text \<open>
  \<open>pmm_late_init\<close> of \<open>mm/pmm.c\<close>: the hand-over from the early allocator to the
  sectioned allocator.  The section array and the descriptors are allocated top-down from
  the early allocator, every frame the early allocator did not consume is freed, and the
  reserved ranges are marked used again.
\<close>

subsection \<open>Operations\<close>

definition sec_init :: pmm_section where
  "sec_init = \<lparr>sec_free = 0, sec_hint = 0, sec_refs = (\<lambda>_. None), sec_refs_used = (\<lambda>_. 0),
     sec_summary = (\<lambda>_. ones64), sec_bitmap = (\<lambda>_. ones64)\<rparr>"

text \<open>\<open>sizeof(pmm_section_t)\<close>\<close>

definition SECTION_SIZE :: u64 where
  "SECTION_SIZE = 4 + 4 + 64 * 8 + 64 * 2 + 64 * 8 + 4096 * 8"

definition pmm_sections_needed :: "pmm \<Rightarrow> nat" where
  "pmm_sections_needed p = unat (drop_bit 30 (max_phys_addr_seen p + 0x40000000 - 1))"

definition add_section :: "nat \<Rightarrow> pmm \<Rightarrow> pmm" where
  "add_section si p =
    (if g_sec p ! si \<noteq> None then p
     else let (p', a) = early_alloc_top p SECTION_SIZE 64
          in if a = 0 then p'
             else p'\<lparr>g_sec := (g_sec p')[si := Some sec_init],
                     g_meta_bytes := g_meta_bytes p' + SECTION_SIZE\<rparr>)"

definition add_sections :: "pmm_range \<Rightarrow> pmm \<Rightarrow> pmm" where
  "add_sections r p =
    fold add_section [unat (drop_bit 30 (r_start r)) ..< Suc (unat (drop_bit 30 (r_end r - 1)))] p"

definition free_range :: "nat \<Rightarrow> pmm \<Rightarrow> pmm" where
  "free_range i p =
    (let s = align_up (g_early_cur p ! i) 4096; e = align_down (g_early_top p ! i) 4096
     in if s < e then frames_mark p (unat (s div 4096)) (unat (e div 4096)) False else p)"

definition reserve_range :: "pmm_range \<Rightarrow> pmm \<Rightarrow> pmm" where
  "reserve_range r p = frames_mark p (unat (r_start r div 4096)) (unat (r_end r div 4096)) True"

definition pmm_late_init :: "bool \<Rightarrow> pmm \<Rightarrow> pmm" where
  "pmm_late_init physmap_ready p =
    (if g_sectioned p then p
     else if \<not> physmap_ready then p
     else let n = pmm_sections_needed p;
              arr_bytes = of_nat n * 8;
              (p1, arr) = early_alloc_top p arr_bytes 64
          in if arr = 0 then p1
             else let p2 = fold add_sections (g_avail p1)
                             (p1\<lparr>g_sec := replicate n None, g_meta_bytes := arr_bytes\<rparr>);
                      p3 = fold free_range [0 ..< length (g_avail p2)] (p2\<lparr>g_free_frames := 0\<rparr>);
                      p4 = fold reserve_range (g_resv p3) p3
                  in p4\<lparr>g_sectioned := True, g_hint_normal := unat (drop_bit 30 PMM_DMA32_LIMIT),
                        g_hint_dma32 := 0\<rparr>)"

subsection \<open>Marking frames of one section and of all\<close>

definition mark_sec :: "pmm \<Rightarrow> nat \<Rightarrow> pmm_section \<Rightarrow> nat \<Rightarrow> nat \<Rightarrow> bool \<Rightarrow> pmm" where
  "mark_sec p si s lo hi st =
    (let (s', c) = sec_mark s lo hi st; p' = set_sec p si s'
     in p'\<lparr>g_free_frames := (if st then g_free_frames p' - c else g_free_frames p' + c)\<rparr>)"

definition exact :: "pmm \<Rightarrow> bool" where
  "exact p \<longleftrightarrow> secs_ok p \<and> unat (g_free_frames p) = card (free_set p)"

definition same_secs :: "pmm \<Rightarrow> pmm \<Rightarrow> bool" where
  "same_secs p q \<longleftrightarrow> same_env p q \<and> g_nsec q = g_nsec p"

lemma same_secs_refl [simp]: "same_secs p p"
  by (simp add: same_secs_def)

lemma same_secs_trans: "same_secs p q \<Longrightarrow> same_secs q r \<Longrightarrow> same_secs p r"
  using same_env_trans [of p q r] by (simp add: same_secs_def)

lemma same_secs_None: "same_secs p q \<Longrightarrow> sec_of q n = None \<longleftrightarrow> sec_of p n = None"
  by (rule refs_of_sec_of) (simp add: same_secs_def same_env_def)

lemma mark_sec_free_set:
  assumes si: "si < g_nsec p" "g_sec p ! si = Some s" and hi: "hi \<le> PMM_SECTION_FRAMES"
  defines "base \<equiv> si * PMM_SECTION_FRAMES"
  shows "free_set (mark_sec p si s lo hi st) =
    (if st then free_set p - {base + lo ..< base + hi} else free_set p \<union> {base + lo ..< base + hi})"
proof -
  let ?F = PMM_SECTION_FRAMES
  have "x \<in> free_set (mark_sec p si s lo hi st) \<longleftrightarrow>
     (if st then x \<in> free_set p - {base + lo ..< base + hi} else x \<in> free_set p \<union> {base + lo ..< base + hi})" for x
  proof (cases "x div ?F = si")
    case True
    have x: "x = base + x mod ?F" using True div_mult_mod_eq [of x ?F] by (simp add: base_def)
    then have "x mod ?F \<in> {lo ..< hi} \<longleftrightarrow> x \<in> {base + lo ..< base + hi}" by auto
    with True show ?thesis
      using free_set_set_sec [OF si, of x] by (auto simp: mark_sec_def split_beta Let_def sec_free_set_mark [OF hi])
  next
    case False
    have "x \<notin> {base + lo ..< base + hi}"
    proof
      assume a: "x \<in> {base + lo ..< base + hi}"
      define d where "d = x - base"
      have "x = d + ?F * si" using a by (simp add: d_def base_def mult.commute)
      moreover have "d < ?F" using a hi unfolding d_def by (simp only: atLeastLessThan_iff) linarith
      ultimately have "x div ?F = si" using digit_div [of d ?F si] by (simp only:)
      with False show False by simp
    qed
    with False show ?thesis
      using free_set_set_sec(1) [OF si, of x] by (auto simp: mark_sec_def split_beta Let_def)
  qed
  then show ?thesis by auto
qed

lemma mark_sec_changed:
  fixes lo hi :: nat
  assumes si: "si < g_nsec p" "g_sec p ! si = Some s" and hi: "hi \<le> PMM_SECTION_FRAMES"
  defines "R \<equiv> {si * PMM_SECTION_FRAMES + lo ..< si * PMM_SECTION_FRAMES + hi}"
  shows "unat (snd (sec_mark s lo hi st)) = card (if st then free_set p \<inter> R else R - free_set p)"
proof -
  let ?F = PMM_SECTION_FRAMES and ?g = "\<lambda>i. si * PMM_SECTION_FRAMES + i"
  have mem: "?g i \<in> free_set p \<longleftrightarrow> i \<in> sec_free_set s" if "i < hi" for i
  proof -
    have "i < ?F" using that hi by simp
    then have "?g i div ?F = si" "?g i mod ?F = i" by simp_all
    then show ?thesis using free_set_set_sec(2) [OF si, of "?g i"] by simp
  qed
  have R: "R = ?g ` {lo ..< hi}" unfolding R_def by (simp add: image_add_atLeastLessThan add.commute)
  have "(if st then free_set p \<inter> R else R - free_set p)
      = ?g ` (if st then sec_free_set s \<inter> {lo ..< hi} else {lo ..< hi} - sec_free_set s)"
    unfolding R using mem by (cases st) (auto simp del: image_add_atLeastLessThan)
  then show ?thesis
    using sec_mark_changed [OF hi, of s lo st] by (simp only: card_image inj_on_def) (simp add: card_image inj_on_def)
qed

lemma mark_sec_spec:
  assumes ex: "exact p" and si: "si < g_nsec p" "g_sec p ! si = Some s" and hi: "hi \<le> PMM_SECTION_FRAMES"
  shows "exact (mark_sec p si s lo hi st)" "same_secs p (mark_sec p si s lo hi st)"
proof -
  let ?p = "mark_sec p si s lo hi st" and ?c = "snd (sec_mark s lo hi st)"
  let ?R = "{si * PMM_SECTION_FRAMES + lo ..< si * PMM_SECTION_FRAMES + hi}"
  have ok: "secs_ok p" and cnt: "unat (g_free_frames p) = card (free_set p)" using ex by (simp_all add: exact_def)
  have ok': "secs_ok ?p"
    using secs_ok_set_sec [OF ok sec_mark_inv [OF secs_ok_sec [OF ok si] hi]]
    by (simp add: mark_sec_def split_beta Let_def)
  show "same_secs p ?p"
    using same_env_set_sec [OF si, of "fst (sec_mark s lo hi st)"]
    by (simp add: same_secs_def mark_sec_def split_beta Let_def)
  note fs = mark_sec_free_set [OF si hi, of lo st] and c = mark_sec_changed [OF si hi, of lo st]
  have "unat (g_free_frames ?p) = card (free_set ?p)"
  proof (cases st)
    case True
    have "card (free_set p) = card (free_set p \<inter> ?R) + card (free_set p - ?R)" by (rule card_Int_Diff) simp
    moreover have "unat ?c = card (free_set p \<inter> ?R)" "free_set ?p = free_set p - ?R"
      using c fs True by simp_all
    ultimately have le: "unat ?c \<le> unat (g_free_frames p)" and e: "card (free_set ?p) = unat (g_free_frames p) - unat ?c"
      using cnt by simp_all
    have "g_free_frames ?p = g_free_frames p - ?c"
      using True by (simp add: mark_sec_def split_beta Let_def set_sec_def)
    with unat_sub64 [OF le] e show ?thesis by simp
  next
    case False
    have "card (free_set p \<union> ?R) = card (free_set p) + card (?R - free_set p)"
      using card_Un_disjoint [of "free_set p" "?R - free_set p"] by (simp add: Un_Diff_cancel)
    moreover have "unat ?c = card (?R - free_set p)" "free_set ?p = free_set p \<union> ?R" using c fs False by simp_all
    ultimately have e: "card (free_set ?p) = unat (g_free_frames p) + unat ?c" using cnt by simp
    have "unat (g_free_frames p) + unat ?c < 2 ^ 64"
      unfolding e [symmetric] by (rule le_less_trans [OF card_free_bound [OF ok']]) simp
    moreover have "g_free_frames ?p = g_free_frames p + ?c"
      using False by (simp add: mark_sec_def split_beta Let_def set_sec_def)
    ultimately show ?thesis using unat_add64 [of "g_free_frames p" ?c] e by simp
  qed
  with ok' show "exact ?p" by (simp add: exact_def)
qed

definition mark_effect :: "pmm \<Rightarrow> nat set \<Rightarrow> bool \<Rightarrow> pmm \<Rightarrow> bool" where
  "mark_effect p R st q \<longleftrightarrow> exact q \<and> same_secs p q
     \<and> free_set q = (if st then free_set p - R else free_set p \<union> {n \<in> R. sec_of p n \<noteq> None})"

lemma mark_effect_trans:
  assumes "mark_effect p R st q" "mark_effect q R' st r"
  shows "mark_effect p (R \<union> R') st r"
proof -
  have n: "sec_of q n \<noteq> None \<longleftrightarrow> sec_of p n \<noteq> None" for n
    using assms(1) same_secs_None [of p q n] by (simp add: mark_effect_def)
  have "{n \<in> R \<union> R'. sec_of p n \<noteq> None} = {n \<in> R. sec_of p n \<noteq> None} \<union> {n \<in> R'. sec_of q n \<noteq> None}"
    by (simp only: n) blast
  then show ?thesis
    using assms same_secs_trans [of p q r] by (auto simp: mark_effect_def)
qed

definition seg_end :: "nat \<Rightarrow> nat \<Rightarrow> nat" where
  "seg_end f_lo f_hi = min f_hi ((f_lo div PMM_SECTION_FRAMES + 1) * PMM_SECTION_FRAMES)"

definition mark_seg :: "pmm \<Rightarrow> nat \<Rightarrow> nat \<Rightarrow> bool \<Rightarrow> pmm" where
  "mark_seg p f_lo e st =
    (let si = f_lo div PMM_SECTION_FRAMES
     in case if si < g_nsec p then g_sec p ! si else None of
          Some s \<Rightarrow> mark_sec p si s (f_lo - si * PMM_SECTION_FRAMES) (e - si * PMM_SECTION_FRAMES) st
        | None \<Rightarrow> p)"

lemma frames_mark_unfold:
  "frames_mark p f_lo f_hi st =
    (if f_lo < f_hi then frames_mark (mark_seg p f_lo (seg_end f_lo f_hi) st) (seg_end f_lo f_hi) f_hi st else p)"
proof -
  have "(if f_hi < (f_lo div PMM_SECTION_FRAMES + 1) * PMM_SECTION_FRAMES then f_hi
      else (f_lo div PMM_SECTION_FRAMES + 1) * PMM_SECTION_FRAMES) = seg_end f_lo f_hi"
    by (simp only: seg_end_def min_def not_less split: if_split) auto
  then show ?thesis
    by (subst frames_mark.simps) (simp only: Let_def mark_seg_def mark_sec_def split_def)
qed

lemma seg_end_bounds:
  assumes "f_lo < f_hi"
  defines "base \<equiv> f_lo div PMM_SECTION_FRAMES * PMM_SECTION_FRAMES"
  shows "f_lo < seg_end f_lo f_hi" "seg_end f_lo f_hi \<le> f_hi" "base \<le> f_lo"
    "seg_end f_lo f_hi - base \<le> PMM_SECTION_FRAMES"
proof -
  have "f_lo < (f_lo div PMM_SECTION_FRAMES + 1) * PMM_SECTION_FRAMES"
    using dividend_less_div_times [of PMM_SECTION_FRAMES f_lo] by simp
  with assms(1) show "f_lo < seg_end f_lo f_hi" by (simp add: seg_end_def)
  show "seg_end f_lo f_hi \<le> f_hi" by (simp add: seg_end_def)
  show "base \<le> f_lo" by (simp add: base_def)
  show "seg_end f_lo f_hi - base \<le> PMM_SECTION_FRAMES" by (simp add: seg_end_def base_def)
qed

lemma mark_seg_effect:
  assumes ex: "exact p" and lt: "f_lo < f_hi"
  shows "mark_effect p {f_lo ..< seg_end f_lo f_hi} st (mark_seg p f_lo (seg_end f_lo f_hi) st)"
proof -
  define si where "si = f_lo div PMM_SECTION_FRAMES"
  define e where "e = seg_end f_lo f_hi"
  note b = seg_end_bounds [OF lt, folded si_def e_def]
  have in_sec: "n div PMM_SECTION_FRAMES = si" if "n \<in> {f_lo ..< e}" for n
  proof -
    define d where "d = n - si * PMM_SECTION_FRAMES"
    have "n = d + PMM_SECTION_FRAMES * si" "d < PMM_SECTION_FRAMES"
      using that b by (simp_all only: d_def atLeastLessThan_iff mult.commute) linarith+
    then show ?thesis using digit_div [of d PMM_SECTION_FRAMES si] by (simp only:)
  qed
  show ?thesis unfolding e_def [symmetric]
  proof (cases "if si < g_nsec p then g_sec p ! si else None")
    case None
    have "sec_of p n = None" if "n \<in> {f_lo ..< e}" for n
      using in_sec [OF that] None by (simp add: sec_of_def Let_def)
    then have em: "{n \<in> {f_lo ..< e}. sec_of p n \<noteq> None} = {}" "free_set p - {f_lo ..< e} = free_set p"
      by (auto simp: free_set_iff)
    have "mark_seg p f_lo e st = p"
      using None by (simp only: mark_seg_def Let_def si_def [symmetric] option.case)
    with ex show "mark_effect p {f_lo ..< e} st (mark_seg p f_lo e st)"
      by (simp only: mark_effect_def em Un_empty_right if_cancel same_secs_refl simp_thms)
  next
    case (Some s)
    then have si: "si < g_nsec p" "g_sec p ! si = Some s" by (simp_all split: if_splits)
    have "sec_of p n \<noteq> None" if "n \<in> {f_lo ..< e}" for n
      using in_sec [OF that] si by (simp add: sec_of_def Let_def)
    then have all: "{n \<in> {f_lo ..< e}. sec_of p n \<noteq> None} = {f_lo ..< e}" by blast
    have r: "{si * PMM_SECTION_FRAMES + (f_lo - si * PMM_SECTION_FRAMES) ..<
        si * PMM_SECTION_FRAMES + (e - si * PMM_SECTION_FRAMES)} = {f_lo ..< e}" using b by simp
    have m: "mark_seg p f_lo e st = mark_sec p si s (f_lo - si * PMM_SECTION_FRAMES) (e - si * PMM_SECTION_FRAMES) st"
      using Some by (simp only: mark_seg_def Let_def si_def [symmetric] option.case)
    show "mark_effect p {f_lo ..< e} st (mark_seg p f_lo e st)"
      unfolding mark_effect_def m all
      using mark_sec_spec [OF ex si b(4)] mark_sec_free_set [OF si b(4), unfolded r] by (simp only: r simp_thms)
  qed
qed

lemma frames_mark_effect:
  "exact p \<Longrightarrow> mark_effect p {f_lo ..< f_hi} st (frames_mark p f_lo f_hi st)"
proof (induction "f_hi - f_lo" arbitrary: p f_lo rule: less_induct)
  case less
  show ?case
  proof (cases "f_lo < f_hi")
    case False
    with less.prems show ?thesis by (subst frames_mark_unfold) (simp add: mark_effect_def)
  next
    case True
    note b = seg_end_bounds(1,2) [OF True] and m = mark_seg_effect [OF less.prems True, of st]
    have "mark_effect (mark_seg p f_lo (seg_end f_lo f_hi) st) {seg_end f_lo f_hi ..< f_hi} st
        (frames_mark (mark_seg p f_lo (seg_end f_lo f_hi) st) (seg_end f_lo f_hi) f_hi st)"
      by (rule less.hyps) (use b m in \<open>simp_all add: mark_effect_def\<close>)
    from mark_effect_trans [OF m this]
    have "mark_effect p ({f_lo ..< seg_end f_lo f_hi} \<union> {seg_end f_lo f_hi ..< f_hi}) st
      (frames_mark (mark_seg p f_lo (seg_end f_lo f_hi) st) (seg_end f_lo f_hi) f_hi st)" .
    moreover have "{f_lo ..< seg_end f_lo f_hi} \<union> {seg_end f_lo f_hi ..< f_hi} = {f_lo ..< f_hi}" using b by auto
    ultimately show ?thesis using True by (subst frames_mark_unfold) simp
  qed
qed

subsection \<open>The hand-over\<close>

lemma same_env_map:
  "same_env p q \<Longrightarrow> g_early_cur q = g_early_cur p \<and> g_early_top q = g_early_top p
     \<and> g_avail q = g_avail p \<and> g_resv q = g_resv p \<and> max_phys_addr_seen q = max_phys_addr_seen p"
  by (simp add: same_env_def pmm_map.truncate_def)

definition left_frames :: "pmm \<Rightarrow> nat \<Rightarrow> nat set" where
  "left_frames p i = {unat (align_up (g_early_cur p ! i) 4096 div 4096) ..<
     unat (align_down (g_early_top p ! i) 4096 div 4096)}"

definition resv_frames :: "pmm_range \<Rightarrow> nat set" where
  "resv_frames r = {unat (r_start r div 4096) ..< unat (r_end r div 4096)}"

lemma free_range_effect: "exact p \<Longrightarrow> mark_effect p (left_frames p i) False (free_range i p)"
proof (cases "align_up (g_early_cur p ! i) 4096 < align_down (g_early_top p ! i) 4096")
  case True
  then show "exact p \<Longrightarrow> ?thesis"
    using frames_mark_effect by (simp add: free_range_def left_frames_def Let_def)
next
  case False
  then have "unat (align_down (g_early_top p ! i) 4096 div 4096) \<le> unat (align_up (g_early_cur p ! i) 4096 div 4096)"
    by (simp add: unat_div word_nat_order div_le_mono)
  then have "left_frames p i = {}" by (simp add: left_frames_def)
  with False show "exact p \<Longrightarrow> ?thesis" by (simp add: free_range_def mark_effect_def)
qed

lemma fold_free_range:
  "exact p \<Longrightarrow> mark_effect p (\<Union>i\<in>set is. left_frames p i) False (fold free_range is p)"
proof (induction "is" arbitrary: p)
  case Nil
  then show ?case by (simp add: mark_effect_def)
next
  case (Cons i "is")
  note a = free_range_effect [OF Cons.prems, of i]
  then have "same_env p (free_range i p)" "exact (free_range i p)" by (simp_all add: mark_effect_def same_secs_def)
  note m = same_env_map [OF this(1)] and b = Cons.IH [OF this(2)]
  have "left_frames (free_range i p) j = left_frames p j" for j using m by (simp add: left_frames_def)
  with mark_effect_trans [OF a b] show ?case by simp
qed

lemma fold_reserve_range:
  "exact p \<Longrightarrow> mark_effect p (\<Union>r\<in>set rs. resv_frames r) True (fold reserve_range rs p)"
proof (induction rs arbitrary: p)
  case Nil
  then show ?case by (simp add: mark_effect_def)
next
  case (Cons r rs)
  have a: "mark_effect p (resv_frames r) True (reserve_range r p)"
    using frames_mark_effect [OF Cons.prems] by (simp add: reserve_range_def resv_frames_def)
  then have "exact (reserve_range r p)" by (simp add: mark_effect_def)
  from mark_effect_trans [OF a Cons.IH [OF this]] show ?case by simp
qed

text \<open>While the sections are being created: all of them are full.\<close>

definition building :: "pmm \<Rightarrow> pmm \<Rightarrow> bool" where
  "building p q \<longleftrightarrow> early_inv q \<and> g_avail q = g_avail p \<and> g_resv q = g_resv p \<and> early_space q \<subseteq> early_space p
     \<and> g_nsec q = g_nsec p \<and> (\<forall>s. Some s \<in> set (g_sec q) \<longrightarrow> s = sec_init)"

lemma early_top_keeps:
  assumes "early_alloc_top p sz (2 ^ k) = (p', a)" "early_inv p" "0 < sz"
  shows "early_inv p' \<and> g_avail p' = g_avail p \<and> g_resv p' = g_resv p \<and> early_space p' \<subseteq> early_space p
    \<and> g_sec p' = g_sec p \<and> g_sectioned p' = g_sectioned p"
proof -
  have ok: "early_ok p sz k p' a"
    using early_alloc_top_loop_ok [OF assms(2,3) order_refl, of k] assms(1) by (simp add: early_alloc_top_def)
  have "g_sec (fst (early_alloc_top_loop p sz al i)) = g_sec p
      \<and> g_sectioned (fst (early_alloc_top_loop p sz al i)) = g_sectioned p" for al i
    by (induction p sz al i rule: early_alloc_top_loop.induct)
      (simp_all add: early_claim_top_def Let_def split: option.splits)
  from this [of "2 ^ k" "length (g_avail p)"] assms(1) have "g_sec p' = g_sec p \<and> g_sectioned p' = g_sectioned p"
    by (simp add: early_alloc_top_def)
  moreover have "early_space p' \<subseteq> early_space p" using ok by (cases "a = 0") (auto simp: early_ok_def)
  ultimately show ?thesis using ok by (simp add: early_ok_def)
qed

lemma early_inv_ext [simp]:
  "early_inv (p\<lparr>g_sec := x, g_meta_bytes := y\<rparr>) = early_inv (p :: pmm)"
  "early_space (p\<lparr>g_sec := x, g_meta_bytes := y\<rparr>) = early_space p"
  by (simp_all add: early_inv_def early_space_def resv_bounded_def)

lemma add_section_building: "building p q \<Longrightarrow> building p (add_section si q)"
proof (cases "g_sec q ! si \<noteq> None")
  case True
  then show "building p q \<Longrightarrow> ?thesis" by (simp add: add_section_def)
next
  case False
  assume b: "building p q"
  obtain q' a where e: "early_alloc_top q SECTION_SIZE 64 = (q', a)" by force
  have "early_alloc_top q SECTION_SIZE (2 ^ 6) = (q', a)" using e by simp
  note k = early_top_keeps [OF this]
  have "0 < SECTION_SIZE" by (simp add: SECTION_SIZE_def)
  with k b have k: "early_inv q'" "g_avail q' = g_avail q" "g_resv q' = g_resv q"
    "early_space q' \<subseteq> early_space q" "g_sec q' = g_sec q" by (simp_all add: building_def)
  have "\<forall>s. Some s \<in> set ((g_sec q)[si := Some sec_init]) \<longrightarrow> s = sec_init"
    using b by (auto simp: building_def dest!: subsetD [OF set_update_subset_insert])
  with False e k b show ?thesis by (auto simp: add_section_def building_def)
qed

lemma add_sections_building: "building p q \<Longrightarrow> building p (fold add_sections rs q)"
proof (induction rs arbitrary: q)
  case (Cons r rs)
  have "building p (fold add_section is q)" if "building p q" for "is" q
    using that by (induction "is" arbitrary: q) (simp_all add: add_section_building)
  with Cons show ?case by (simp add: add_sections_def)
qed simp

text \<open>
  The early allocator has room for one more descriptor.  Once it has none it stays so, and as
  long as it has, every section asked for is there.
\<close>

definition desc_room :: "pmm \<Rightarrow> bool" where
  "desc_room p \<longleftrightarrow> snd (early_alloc_top p SECTION_SIZE 64) \<noteq> 0"

lemma early_top_fit_resv:
  "g_resv m' = g_resv m \<Longrightarrow> early_top_fit m' sz al cur start tp = early_top_fit m sz al cur start tp"
proof (induction "unat tp" arbitrary: tp rule: less_induct)
  case less
  have o: "resv_overlap m' s e = resv_overlap m s e" for s e using less.prems by (simp add: resv_overlap_def)
  have "early_top_fit m' sz al cur start (r_start r) = early_top_fit m sz al cur start (r_start r)"
    if "\<not> tp < sz" "resv_overlap m (align_down (tp - sz) al) (align_down (tp - sz) al + sz) = Some r" for r
    using less.hyps [OF _ less.prems] top_step_decreases [OF that] by (simp add: word_nat_order)
  then show ?case
    unfolding early_top_fit.simps [of m' _ _ _ _ tp] early_top_fit.simps [of m _ _ _ _ tp] Let_def o
    by (auto split: option.splits)
qed

lemma desc_room_same:
  assumes "g_avail p' = g_avail p" "g_early_cur p' = g_early_cur p" "g_early_top p' = g_early_top p" "g_resv p' = g_resv p"
  shows "desc_room p' = desc_room p"
proof -
  have "snd (early_alloc_top_loop p' sz al i) = snd (early_alloc_top_loop p sz al i)" for sz al i
    by (induction i) (simp_all add: assms early_top_fit_resv [OF assms(4)] split: option.splits)
  then show ?thesis by (simp add: desc_room_def early_alloc_top_def assms(1))
qed

definition fills :: "nat set \<Rightarrow> pmm \<Rightarrow> bool" where
  "fills S q \<longleftrightarrow> (desc_room q \<longrightarrow> (\<forall>si\<in>S. si < g_nsec q \<longrightarrow> g_sec q ! si \<noteq> None))"

lemma add_section_fills:
  assumes b: "building p q" and f: "fills S q"
  shows "fills (insert si S) (add_section si q)"
proof -
  obtain q' a where e: "early_alloc_top q SECTION_SIZE 64 = (q', a)" by force
  have iv: "early_inv q" using b by (simp add: building_def)
  have sz: "0 < SECTION_SIZE" by (simp add: SECTION_SIZE_def)
  have "early_ok q SECTION_SIZE 6 q' a"
    using early_alloc_top_loop_ok [OF iv sz order_refl, of 6] e by (simp add: early_alloc_top_def)
  then have q0: "a = 0 \<Longrightarrow> q' = q" by (simp add: early_ok_def)
  have "early_alloc_top q SECTION_SIZE (2 ^ 6) = (q', a)" using e by simp
  from early_top_keeps [OF this iv sz] have s: "g_sec q' = g_sec q" by simp
  show ?thesis
  proof (cases "g_sec q ! si \<noteq> None \<or> a = 0")
    case True
    then have "add_section si q = q" using e q0 by (auto simp: add_section_def)
    moreover have "\<not> desc_room q \<or> g_sec q ! si \<noteq> None" using True e by (auto simp: desc_room_def)
    ultimately show ?thesis using f by (auto simp: fills_def)
  next
    case False
    then have r: "desc_room q" and g: "g_sec (add_section si q) = (g_sec q)[si := Some sec_init]"
      using e s by (auto simp: desc_room_def add_section_def)
    have "g_sec (add_section si q) ! j \<noteq> None" if "j < g_nsec q" "j = si \<or> g_sec q ! j \<noteq> None" for j
      using that by (cases "j = si") (simp_all add: g)
    with f r show ?thesis by (auto simp: fills_def g)
  qed
qed

definition section_span :: "pmm_range \<Rightarrow> nat set" where
  "section_span r = {unat (drop_bit 30 (r_start r)) .. unat (drop_bit 30 (r_end r - 1))}"

lemma add_sections_fills:
  "building p q \<Longrightarrow> fills S q \<Longrightarrow> fills (S \<union> (\<Union>r\<in>set rs. section_span r)) (fold add_sections rs q)"
proof (induction rs arbitrary: q S)
  case (Cons r rs)
  have step: "building p (fold add_section is q) \<and> fills (S \<union> set is) (fold add_section is q)"
    if "building p q" "fills S q" for "is" q S
    using that
  proof (induction "is" arbitrary: q S)
    case (Cons i "is")
    show ?case using Cons.IH [OF add_section_building [OF Cons.prems(1)] add_section_fills [OF Cons.prems]] by simp
  qed simp
  have set: "set [unat (drop_bit 30 (r_start r)) ..< Suc (unat (drop_bit 30 (r_end r - 1)))] = section_span r"
    by (simp only: section_span_def set_upt atLeastLessThanSuc_atLeastAtMost)
  note s = step [OF Cons.prems, of "[unat (drop_bit 30 (r_start r)) ..< Suc (unat (drop_bit 30 (r_end r - 1)))]", unfolded set]
  show ?case using Cons.IH [OF conjunct1 [OF s] conjunct2 [OF s]] by (simp add: add_sections_def Un_assoc)
qed simp

lemma sec_init_inv: "sec_inv sec_init" "sec_free_set sec_init = {}"
  by (auto simp: sec_inv_def summary_ok_def sec_init_def sec_free_set_def frame_used_def bit_simps)

lemma building_exact:
  assumes "building p q" "g_nsec p \<le> 2 ^ 22"
  shows "exact (q\<lparr>g_free_frames := 0\<rparr>)" "free_set q = {}"
proof -
  have s: "s = sec_init" if "sec_of q n = Some s" for s n
  proof -
    have "n div PMM_SECTION_FRAMES < g_nsec q" "g_sec q ! (n div PMM_SECTION_FRAMES) = Some s"
      using that by (simp_all add: sec_of_def Let_def split: if_splits)
    then have "Some s \<in> set (g_sec q)" by (metis nth_mem)
    with assms(1) show ?thesis by (simp add: building_def)
  qed
  then show f: "free_set q = {}" using sec_init_inv(2) by (fastforce simp: free_set_iff)
  have "secs_ok q" using assms sec_init_inv(1) by (auto simp: secs_ok_def building_def)
  with f show "exact (q\<lparr>g_free_frames := 0\<rparr>)" by (simp add: exact_def)
qed

lemma left_frame_range:
  assumes "early_inv p" "i < length (g_avail p)" "n \<in> left_frames p i" "unat x div 4096 = n"
  shows "x \<in> {g_early_cur p ! i ..< g_early_top p ! i}"
proof -
  let ?c = "g_early_cur p ! i" and ?t = "g_early_top p ! i"
  have "unat ?t \<le> 2 ^ 52" "unat ?c \<le> 2 ^ 52"
    using assms(1,2) by (force simp: early_inv_def word_nat_order)+
  then have c: "?c \<le> align_up ?c (2 ^ 12)" "2 ^ 12 dvd unat (align_up ?c (2 ^ 12))"
    using align_up_phys(1,2) [of 12 ?c] by simp_all
  have n: "unat (align_up ?c 4096) div 4096 \<le> n" "n < unat (align_down ?t 4096) div 4096"
    using assms(3) by (simp_all add: left_frames_def unat_div)
  have x: "n * 4096 \<le> unat x" "unat x < Suc n * 4096"
    using assms(4) div_mult_mod_eq [of "unat x" 4096] mod_less_divisor [of 4096 "unat x"] by simp_all
  have "unat (align_up ?c 4096) = unat (align_up ?c 4096) div 4096 * 4096" using c(2) by simp
  also have "\<dots> \<le> n * 4096" using n(1) by (rule mult_le_mono1)
  finally have "unat ?c \<le> unat x" using c(1) x(1) by (simp add: word_nat_order)
  moreover have "Suc n * 4096 \<le> unat (align_down ?t 4096)"
    using n(2) unfolding Suc_le_eq [symmetric] by (simp only: less_eq_div_iff_mult_less_eq zero_less_numeral)
  then have "unat x < unat ?t" using x(2) align_down_le [of ?t 4096] unfolding word_nat_order by linarith
  ultimately show ?thesis by (simp add: word_nat_order)
qed

lemma left_frame_bytes:
  assumes "early_inv p" "i < length (g_avail p)" "n \<in> left_frames p i" "unat x div 4096 = n"
  shows "x \<in> early_space p"
  using left_frame_range [OF assms] assms(2) by (auto simp: early_space_def)

lemma resv_frame_bytes:
  assumes "page_aligned (r_start r)" "page_aligned (r_end r)" "x \<in> {r_start r ..< r_end r}"
  shows "unat x div 4096 \<in> resv_frames r"
proof -
  obtain a b where ab: "unat (r_start r) = 4096 * a" "unat (r_end r) = 4096 * b"
    using assms(1,2) by (auto simp: page_aligned_iff elim!: dvdE)
  have "4096 * a \<le> unat x" "unat x < 4096 * b" using assms(3) by (simp_all add: word_nat_order ab [symmetric])
  then have "a \<le> unat x div 4096" "unat x div 4096 < b"
    by (simp_all add: less_eq_div_iff_mult_less_eq div_less_iff_less_mult mult.commute)
  then show ?thesis by (simp add: resv_frames_def unat_div ab)
qed

lemma sections_needed:
  assumes "unat (max_phys_addr_seen p) \<le> 2 ^ 52" "0 < max_phys_addr_seen p"
  shows "0 < pmm_sections_needed p" "pmm_sections_needed p \<le> 2 ^ 22"
proof -
  let ?m = "max_phys_addr_seen p"
  have "?m + 0x40000000 - 1 = ?m + 0x3FFFFFFF" by simp
  moreover have "unat (?m + 0x3FFFFFFF) = unat ?m + 0x3FFFFFFF" using assms(1) by (subst unat_add64) simp_all
  ultimately have n: "pmm_sections_needed p = (unat ?m + 0x3FFFFFFF) div 2 ^ 30"
    by (simp only: pmm_sections_needed_def unat_drop_bit64)
  have "1 \<le> unat ?m" using assms(2) by (simp add: word_nat_order)
  then have "1 * 2 ^ 30 \<le> unat ?m + 0x3FFFFFFF" by simp
  then have "1 \<le> (unat ?m + 0x3FFFFFFF) div 2 ^ 30" by (subst less_eq_div_iff_mult_less_eq) simp_all
  then show "0 < pmm_sections_needed p" by (simp add: n)
  have "unat ?m + 0x3FFFFFFF < Suc (2 ^ 22) * 2 ^ 30" using assms(1) by simp
  then have "(unat ?m + 0x3FFFFFFF) div 2 ^ 30 < Suc (2 ^ 22)" by (subst div_less_iff_less_mult) simp_all
  then show "pmm_sections_needed p \<le> 2 ^ 22" by (simp add: n)
qed

text \<open>The section of a frame that is left to hand over.\<close>

lemma left_frame_section:
  assumes inv: "early_inv p" and i: "i < length (g_avail p)" and n: "n \<in> left_frames p i"
    and mx: "unat (M) \<le> 2 ^ 52" "r_end (g_avail p ! i) \<le> M"
  shows "n div PMM_SECTION_FRAMES \<in> section_span (g_avail p ! i)" "n div PMM_SECTION_FRAMES < unat (drop_bit 30 (M + 0x40000000 - 1))"
proof -
  let ?r = "g_avail p ! i"
  have b: "unat (r_end ?r) \<le> 2 ^ 52" "r_start ?r \<le> g_early_cur p ! i" "g_early_top p ! i \<le> r_end ?r"
    using inv i by (simp_all add: early_inv_def)
  have "n < unat (align_down (g_early_top p ! i) 4096) div 4096" using n by (simp add: left_frames_def unat_div)
  then have "Suc n * 4096 \<le> unat (align_down (g_early_top p ! i) 4096)"
    unfolding Suc_le_eq [symmetric] by (simp only: less_eq_div_iff_mult_less_eq zero_less_numeral)
  then have "n * 4096 < unat (align_down (g_early_top p ! i) 4096)" by simp
  then have "n * 4096 < 2 ^ 64" using unat64_lt by (rule less_trans)
  then have ux: "unat (of_nat (n * 4096) :: u64) = n * 4096" unfolding unat_of_nat by (simp only: take_bit_nat_eq_self len_of_numeral_defs mod_less) simp
  then have "of_nat (n * 4096) \<in> {g_early_cur p ! i ..< g_early_top p ! i}" by (intro left_frame_range [OF inv i n]) simp
  with b ux have x: "unat (r_start ?r) \<le> n * 4096" "n * 4096 < unat (r_end ?r)"
    unfolding atLeastLessThan_iff word_nat_order by linarith+
  have nd: "n div PMM_SECTION_FRAMES = n * 4096 div 2 ^ 30"
    using div_mult_mult2 [of 4096 n "2 ^ 18"] by (simp add: PMM_SECTION_FRAMES_def)
  have "unat (r_end ?r - 1) = unat (r_end ?r) - 1" using x(2) unat_sub64 [of 1 "r_end ?r"] by simp
  then have "n * 4096 \<le> unat (r_end ?r - 1)" using x(2) by simp
  with x(1) show "n div PMM_SECTION_FRAMES \<in> section_span ?r"
    by (simp only: section_span_def nd unat_drop_bit64 atLeastAtMost_iff div_le_mono)
  have "M + 0x40000000 - 1 = M + 0x3FFFFFFF" by simp
  moreover have "unat (M + 0x3FFFFFFF) = unat M + 0x3FFFFFFF" using mx(1) by (subst unat_add64) simp_all
  ultimately have k: "unat (drop_bit 30 (M + 0x40000000 - 1)) = (unat M + 0x3FFFFFFF) div 2 ^ 30"
    by (simp only: unat_drop_bit64)
  have "n * 4096 + 2 ^ 30 \<le> unat M + 0x3FFFFFFF" using x(2) mx(2) by (simp add: word_nat_order)
  then have "(n * 4096 + 2 ^ 30) div 2 ^ 30 \<le> unat (drop_bit 30 (M + 0x40000000 - 1))" unfolding k by (rule div_le_mono)
  then show "n div PMM_SECTION_FRAMES < unat (drop_bit 30 (M + 0x40000000 - 1))" by (simp only: nd) simp
qed

lemma fills_left:
  assumes "early_inv q" "i < length (g_avail q)" "n \<in> left_frames q i" "unat (max_phys_addr_seen p) \<le> 2 ^ 52"
    "\<forall>r\<in>set (g_avail q). r_end r \<le> max_phys_addr_seen p" "g_nsec q = pmm_sections_needed p"
    "fills (\<Union>r\<in>set (g_avail q). section_span r) q" "desc_room q"
  shows "sec_of q n \<noteq> None"
proof -
  note s = left_frame_section [OF assms(1-4), folded pmm_sections_needed_def]
  have r: "g_avail q ! i \<in> set (g_avail q)" using assms(2) by simp
  with s assms(5,6) have "n div PMM_SECTION_FRAMES \<in> (\<Union>r\<in>set (g_avail q). section_span r)" "n div PMM_SECTION_FRAMES < g_nsec q" by auto
  with assms(7,8) show ?thesis by (auto simp: fills_def sec_of_def Let_def)
qed

text \<open>The allocator with its sections built, before any frame is freed.\<close>

definition built_sections :: "pmm \<Rightarrow> pmm" where
  "built_sections p = fold add_sections (g_avail p)
     ((fst (early_alloc_top p (of_nat (pmm_sections_needed p) * 8) 64))
       \<lparr>g_sec := replicate (pmm_sections_needed p) None, g_meta_bytes := of_nat (pmm_sections_needed p) * 8\<rparr>)"

lemma late_init_effect:
  assumes inv: "early_inv p" and ns: "\<not> g_sectioned p"
    and mx: "unat (max_phys_addr_seen p) \<le> 2 ^ 52" "0 < max_phys_addr_seen p"
    and done': "g_sectioned (pmm_late_init True p)"
  obtains q r where "q = built_sections p" "exact (q\<lparr>g_free_frames := 0\<rparr>)" "free_set q = {}" "early_inv q" "early_space q \<subseteq> early_space p"
    "g_resv q = g_resv p" "g_avail q = g_avail p" "g_nsec q = pmm_sections_needed p" "fills (\<Union>r\<in>set (g_avail q). section_span r) q"
    "mark_effect (q\<lparr>g_free_frames := 0\<rparr>) (\<Union>i<length (g_avail q). left_frames q i) False r"
    "mark_effect r (\<Union>x\<in>set (g_resv p). resv_frames x) True (fold reserve_range (g_resv r) r)"
    "pmm_late_init True p = (fold reserve_range (g_resv r) r)\<lparr>g_sectioned := True,
       g_hint_normal := unat (drop_bit 30 PMM_DMA32_LIMIT), g_hint_dma32 := 0\<rparr>"
proof -
  define n where "n = pmm_sections_needed p"
  have n: "0 < n" "n \<le> 2 ^ 22" using sections_needed [OF mx] by (simp_all add: n_def)
  then have "unat (of_nat n * 8 :: u64) = n * 8" by (subst unat_word_ariths(2)) (simp add: unat_of_nat)
  with n(1) have sz: "0 < (of_nat n * 8 :: u64)" by (simp add: word_nat_order)
  obtain p1 a where e: "early_alloc_top p (of_nat n * 8) 64 = (p1, a)" by force
  have "early_alloc_top p (of_nat n * 8) (2 ^ 6) = (p1, a)" using e by simp
  note k = early_top_keeps [OF this inv sz]
  have a: "a \<noteq> 0" using done' e ns k by (auto simp: pmm_late_init_def n_def [symmetric])
  define p1' where "p1' = p1\<lparr>g_sec := replicate n None, g_meta_bytes := of_nat n * 8\<rparr>"
  define q where "q = fold add_sections (g_avail p1) p1'"
  have "building p1' p1'" using k by (auto simp: building_def p1'_def)
  then have b: "building p1' q" unfolding q_def by (rule add_sections_building)
  have q: "early_inv q" "g_resv q = g_resv p" "early_space q \<subseteq> early_space p"
    using b k by (auto simp: building_def p1'_def)
  have "fills {} p1'" by (simp add: fills_def)
  from add_sections_fills [OF \<open>building p1' p1'\<close> this, of "g_avail p1", folded q_def]
  have "fills (\<Union>r\<in>set (g_avail p1). section_span r) q" by simp
  moreover have "g_avail q = g_avail p1" "g_avail p1 = g_avail p" "g_nsec q = n" using b k by (simp_all add: building_def p1'_def)
  ultimately have f: "g_avail q = g_avail p" "g_nsec q = pmm_sections_needed p" "fills (\<Union>r\<in>set (g_avail q). section_span r) q"
    by (simp_all add: n_def)
  have "g_nsec p1' \<le> 2 ^ 22" using n(2) by (simp add: p1'_def)
  note ex = building_exact [OF b this]
  have bs: "q = built_sections p" using k by (simp add: q_def p1'_def built_sections_def n_def [symmetric] e)
  define r where "r = fold free_range [0 ..< length (g_avail q)] (q\<lparr>g_free_frames := 0\<rparr>)"
  have lf: "left_frames (q\<lparr>g_free_frames := 0\<rparr>) i = left_frames q i" for i by (simp add: left_frames_def)
  have m1: "mark_effect (q\<lparr>g_free_frames := 0\<rparr>) (\<Union>i<length (g_avail q). left_frames q i) False r"
    using fold_free_range [OF ex(1), of "[0 ..< length (g_avail q)]"]
    by (simp add: r_def lf atLeast0LessThan)
  then have r: "exact r" "g_resv r = g_resv p"
    using q(2) same_env_map [of "q\<lparr>g_free_frames := 0\<rparr>" r] by (simp_all add: mark_effect_def same_secs_def)
  have m2: "mark_effect r (\<Union>x\<in>set (g_resv p). resv_frames x) True (fold reserve_range (g_resv r) r)"
    using fold_reserve_range [OF r(1), of "g_resv r"] r(2) by simp
  have "pmm_late_init True p = (fold reserve_range (g_resv r) r)\<lparr>g_sectioned := True,
      g_hint_normal := unat (drop_bit 30 PMM_DMA32_LIMIT), g_hint_dma32 := 0\<rparr>"
    using ns a by (simp add: pmm_late_init_def n_def [symmetric] e Let_def p1'_def [symmetric] q_def [symmetric] r_def)
  from that [OF bs ex q(1,3,2) f m1 m2 this] show thesis .
qed

lemma late_init_map:
  assumes "early_inv p" "\<not> g_sectioned p" "unat (max_phys_addr_seen p) \<le> 2 ^ 52" "0 < max_phys_addr_seen p"
    "g_sectioned (pmm_late_init True p)"
  defines "p' \<equiv> pmm_late_init True p" and "q \<equiv> built_sections p"
  shows "g_early_cur p' = g_early_cur q \<and> g_early_top p' = g_early_top q \<and> g_avail p' = g_avail q \<and> g_resv p' = g_resv q"
proof (rule late_init_effect [OF assms(1-5)])
  fix q' r
  assume "q' = built_sections p" and m: "mark_effect (q'\<lparr>g_free_frames := 0\<rparr>) (\<Union>i<length (g_avail q'). left_frames q' i) False r"
    "mark_effect r (\<Union>x\<in>set (g_resv p). resv_frames x) True (fold reserve_range (g_resv r) r)"
    and e: "pmm_late_init True p = (fold reserve_range (g_resv r) r)\<lparr>g_sectioned := True,
       g_hint_normal := unat (drop_bit 30 PMM_DMA32_LIMIT), g_hint_dma32 := 0\<rparr>"
  then have "same_env (q\<lparr>g_free_frames := 0\<rparr>) r" "same_env r (fold reserve_range (g_resv r) r)" by (simp_all add: mark_effect_def same_secs_def q_def)
  with same_env_map [OF this(1)] same_env_map [OF this(2)] show ?thesis by (simp add: p'_def e)
qed

lemma pmm_flags [simp]:
  "free_set (p\<lparr>g_sectioned := b\<rparr>) = free_set p" "sec_of (p\<lparr>g_sectioned := b\<rparr>) n = sec_of p n"
  "sec_of (p\<lparr>g_hint_normal := h\<rparr>) n = sec_of p n" "sec_of (p\<lparr>g_hint_dma32 := h\<rparr>) n = sec_of p n"
  "sec_of (p\<lparr>g_free_frames := x\<rparr>) n = sec_of p n" "secs_ok (p\<lparr>g_sectioned := b\<rparr>) = secs_ok p"
  "left_frames (p\<lparr>g_sectioned := b\<rparr>) i = left_frames p i"
  "left_frames (p\<lparr>g_hint_normal := h\<rparr>) i = left_frames p i" "left_frames (p\<lparr>g_hint_dma32 := h\<rparr>) i = left_frames p i"
  by (simp_all add: free_set_def frame_free_def sec_of_def Let_def secs_ok_def left_frames_def)

lemma late_init_sections:
  assumes inv: "early_inv p" and ns: "\<not> g_sectioned p"
    and mx: "unat (max_phys_addr_seen p) \<le> 2 ^ 52" "0 < max_phys_addr_seen p"
    and top: "\<forall>r\<in>set (g_avail p). r_end r \<le> max_phys_addr_seen p" and done': "g_sectioned (pmm_late_init True p)"
  defines "p' \<equiv> pmm_late_init True p"
  assumes i: "i < length (g_avail p')" "n \<in> left_frames p' i" "sec_of p' n = None"
  shows "snd (early_alloc_top p' SECTION_SIZE 64) = 0"
proof (rule late_init_effect [OF inv ns mx done'])
  fix q r
  assume q: "q = built_sections p" "early_inv q" and f: "g_avail q = g_avail p" "g_nsec q = pmm_sections_needed p"
      "fills (\<Union>r\<in>set (g_avail q). section_span r) q"
    and m: "mark_effect (q\<lparr>g_free_frames := 0\<rparr>) (\<Union>i<length (g_avail q). left_frames q i) False r"
      "mark_effect r (\<Union>x\<in>set (g_resv p). resv_frames x) True (fold reserve_range (g_resv r) r)"
    and e: "pmm_late_init True p = (fold reserve_range (g_resv r) r)\<lparr>g_sectioned := True,
       g_hint_normal := unat (drop_bit 30 PMM_DMA32_LIMIT), g_hint_dma32 := 0\<rparr>"
  have M: "g_early_cur p' = g_early_cur q" "g_early_top p' = g_early_top q" "g_avail p' = g_avail q" "g_resv p' = g_resv q"
    using late_init_map [OF inv ns mx done'] unfolding p'_def q(1) by blast+
  have "same_secs (q\<lparr>g_free_frames := 0\<rparr>) (fold reserve_range (g_resv r) r)" using m same_secs_trans by (auto simp: mark_effect_def)
  from same_secs_None [OF this, of n] have "sec_of q n = None" using i(3) by (simp add: p'_def e)
  moreover have "left_frames p' i = left_frames q i" by (simp add: left_frames_def M)
  ultimately have "\<not> desc_room q" using fills_left [OF q(2), of i n p] i(1,2) mx(1) top f M(3) by auto
  then show ?thesis using desc_room_same [OF M(3,1,2,4)] by (simp add: desc_room_def)
qed

subsection \<open>Properties\<close>

text \<open>
  C30.  \<open>pmm_late_init\<close> hands over exactly: afterwards the free frames are those of the
  created sections that lie wholly in memory the early allocator did not consume and in
  no reserved range; every byte of a free frame is usable memory not handed out before
  and not reserved; and the allocator is ready (exact counters and summaries, frame 0
  not free).  A frame left by the early allocator misses its section only when the early
  allocator has no room for another descriptor.
\<close>

theorem late_init_hand_over:
  assumes inv: "early_inv p" and ns: "\<not> g_sectioned p"
    and mx: "unat (max_phys_addr_seen p) \<le> 2 ^ 52" "0 < max_phys_addr_seen p"
    and top: "\<forall>r\<in>set (g_avail p). r_end r \<le> max_phys_addr_seen p"
    and al: "\<forall>r\<in>set (g_resv p). page_aligned (r_start r) \<and> page_aligned (r_end r)"
    and done': "g_sectioned (pmm_late_init True p)"
  shows "pmm_ready (pmm_late_init True p)
    \<and> free_set (pmm_late_init True p) = {n. sec_of (pmm_late_init True p) n \<noteq> None
       \<and> (\<exists>i<length (g_avail (pmm_late_init True p)). n \<in> left_frames (pmm_late_init True p) i)
       \<and> (\<forall>r\<in>set (g_resv p). n \<notin> resv_frames r)}
    \<and> (\<forall>i<length (g_avail (pmm_late_init True p)). \<forall>n\<in>left_frames (pmm_late_init True p) i.
         sec_of (pmm_late_init True p) n = None \<longrightarrow> snd (early_alloc_top (pmm_late_init True p) SECTION_SIZE 64) = 0)
    \<and> (\<forall>x. unat x div 4096 \<in> free_set (pmm_late_init True p) \<longrightarrow> x \<in> early_space p - cover (g_resv p))"
proof (intro conjI)
  obtain q r where "q = built_sections p" and q: "exact (q\<lparr>g_free_frames := 0\<rparr>)" "free_set q = {}" "early_inv q" "early_space q \<subseteq> early_space p"
    "g_resv q = g_resv p" and m1: "mark_effect (q\<lparr>g_free_frames := 0\<rparr>) (\<Union>i<length (g_avail q). left_frames q i) False r"
    and m2: "mark_effect r (\<Union>x\<in>set (g_resv p). resv_frames x) True (fold reserve_range (g_resv r) r)"
    and e: "pmm_late_init True p = (fold reserve_range (g_resv r) r)\<lparr>g_sectioned := True,
       g_hint_normal := unat (drop_bit 30 PMM_DMA32_LIMIT), g_hint_dma32 := 0\<rparr>"
    by (rule late_init_effect [OF inv ns mx done']) blast
  let ?f = "fold reserve_range (g_resv r) r"
  have ss: "same_secs (q\<lparr>g_free_frames := 0\<rparr>) ?f"
    using m1 m2 same_secs_trans by (auto simp: mark_effect_def)
  then have map: "g_avail ?f = g_avail q" "left_frames ?f i = left_frames q i" for i
    using same_env_map [of "q\<lparr>g_free_frames := 0\<rparr>" ?f] by (simp_all add: same_secs_def left_frames_def)
  have none: "sec_of ?f n = None \<longleftrightarrow> sec_of q n = None" for n using same_secs_None [OF ss, of n] by simp
  have free: "free_set ?f = {n \<in> (\<Union>i<length (g_avail q). left_frames q i). sec_of q n \<noteq> None}
      - (\<Union>x\<in>set (g_resv p). resv_frames x)"
    using m1 m2 q(2) by (simp add: mark_effect_def)
  show "free_set (pmm_late_init True p) = {n. sec_of (pmm_late_init True p) n \<noteq> None
       \<and> (\<exists>i<length (g_avail (pmm_late_init True p)). n \<in> left_frames (pmm_late_init True p) i)
       \<and> (\<forall>r\<in>set (g_resv p). n \<notin> resv_frames r)}"
    unfolding e using free by (auto simp: map none)
  show "\<forall>i<length (g_avail (pmm_late_init True p)). \<forall>n\<in>left_frames (pmm_late_init True p) i.
      sec_of (pmm_late_init True p) n = None \<longrightarrow> snd (early_alloc_top (pmm_late_init True p) SECTION_SIZE 64) = 0"
    using late_init_sections [OF inv ns mx top done'] by blast
  have bytes: "x \<in> early_space p - cover (g_resv p)" if "unat x div 4096 \<in> free_set ?f" for x
  proof -
    from that obtain i where i: "i < length (g_avail q)" "unat x div 4096 \<in> left_frames q i"
      and nr: "\<forall>r\<in>set (g_resv p). unat x div 4096 \<notin> resv_frames r"
      unfolding free by auto
    have "x \<notin> {r_start r ..< r_end r}" if "r \<in> set (g_resv p)" for r
      using resv_frame_bytes [of r x] al nr that by auto
    then have "x \<notin> cover (g_resv p)" by (auto simp: cover_def)
    with left_frame_bytes [OF q(3) i refl] q(4) show ?thesis by auto
  qed
  then show "\<forall>x. unat x div 4096 \<in> free_set (pmm_late_init True p) \<longrightarrow> x \<in> early_space p - cover (g_resv p)"
    by (simp add: e)
  have "0 \<in> cover (g_resv p)" using inv by (auto simp: early_inv_def cover_def)
  then have "0 \<notin> free_set ?f" using bytes [of 0] by auto
  moreover have "exact ?f" using m2 by (simp add: mark_effect_def)
  ultimately show "pmm_ready (pmm_late_init True p)"
    by (simp add: e pmm_ready_def pmm_inv_def exact_def)
qed

definition boot_pmm :: pmm where
  "boot_pmm = pmm_map.extend (pmm_setup 0x100000
       (empty_map\<lparr>g_avail := [\<lparr>r_start = 0x100000, r_end = 0x200000\<rparr>]\<rparr>))
     \<lparr>g_sec = [], g_sectioned = False, g_hint_normal = 0, g_hint_dma32 = 0, g_free_frames = 0,
        g_meta_bytes = 0, g_ref_chunks = 0\<rparr>"

lemma boot_pmm_eq:
  "boot_pmm = \<lparr>g_avail = [\<lparr>r_start = 0x100000, r_end = 0x200000\<rparr>], g_early_cur = [0x100000],
     g_early_top = [0x200000], g_ram = [], g_resv = [\<lparr>r_start = 0, r_end = 0x100000\<rparr>],
     total_memory = 0x100000, g_managed_frames = 0x100, g_early_used = 0, max_phys_addr_seen = 0x200000,
     g_sec = [], g_sectioned = False, g_hint_normal = 0, g_hint_dma32 = 0, g_free_frames = 0,
     g_meta_bytes = 0, g_ref_chunks = 0\<rparr>"
  by (simp add: boot_pmm_def pmm_setup_def pmm_reserve_def empty_map_def PMM_MAX_RESERVED_def
      align_up_def align_down_def pmm_map.extend_def)

lemma boot_pmm_inv: "early_inv boot_pmm"
  by (simp add: boot_pmm_eq early_inv_def ranges_ok_def resv_bounded_def)

lemma boot_pmm_sectioned: "g_sectioned (pmm_late_init True boot_pmm)"
proof -
  have n: "pmm_sections_needed boot_pmm = 1"
    by (simp add: pmm_sections_needed_def boot_pmm_eq drop_bit_eq_div)
  have "snd (early_alloc_top boot_pmm 8 64) = 0x1FFFC0"
    by (simp add: boot_pmm_eq early_alloc_top_def early_top_fit.simps [of _ _ _ _ _ "0x200000"]
        resv_overlap_def align_down_def)
  then show ?thesis by (simp add: pmm_late_init_def boot_pmm_eq [symmetric] n split_beta Let_def)
qed

lemma boot_pmm_fields:
  "g_avail boot_pmm = [\<lparr>r_start = 0x100000, r_end = 0x200000\<rparr>]" "g_early_cur boot_pmm = [0x100000]"
  "g_early_top boot_pmm = [0x200000]" "g_resv boot_pmm = [\<lparr>r_start = 0, r_end = 0x100000\<rparr>]"
  "max_phys_addr_seen boot_pmm = 0x200000" "\<not> g_sectioned boot_pmm"
  by (simp_all add: boot_pmm_eq)

lemma boot_top_alloc:
  assumes "g_avail p = g_avail boot_pmm" "g_early_cur p = g_early_cur boot_pmm" "g_resv p = g_resv boot_pmm"
    "g_early_top p = [tp]" "sz \<le> tp" "0x100000 \<le> align_down (tp - sz) 64"
  shows "early_alloc_top p sz 64 = (early_claim_top p 0 (align_down (tp - sz) 64) sz, align_down (tp - sz) 64)"
  using assms by (simp add: early_alloc_top_def early_top_fit.simps [of _ _ _ _ _ tp] boot_pmm_fields resv_overlap_def Let_def linorder_not_less [symmetric])

lemma boot_built:
  defines "q \<equiv> built_sections boot_pmm"
  shows "g_early_top q = [0x1F7B00]" "g_early_cur q = g_early_cur boot_pmm" "g_avail q = g_avail boot_pmm" "g_resv q = g_resv boot_pmm"
proof -
  let ?p = "(fst (early_alloc_top boot_pmm 8 64))\<lparr>g_sec := [None], g_meta_bytes := 8\<rparr>"
  have n: "pmm_sections_needed boot_pmm = 1"
    by (simp add: pmm_sections_needed_def boot_pmm_fields drop_bit_eq_div)
  have p: "g_early_top ?p = [0x1FFFC0]" "g_early_cur ?p = g_early_cur boot_pmm" "g_avail ?p = g_avail boot_pmm"
      "g_resv ?p = g_resv boot_pmm" "g_sec ?p = [None]"
    by (simp_all add: boot_top_alloc [OF refl refl refl boot_pmm_fields(3)] early_claim_top_def Let_def align_down_def boot_pmm_fields)
  have q: "q = add_section 0 ?p"
    by (simp add: q_def built_sections_def n add_sections_def boot_pmm_fields drop_bit_eq_div)
  have "early_alloc_top ?p SECTION_SIZE 64 = (early_claim_top ?p 0 0x1F7B00 SECTION_SIZE, 0x1F7B00)"
    by (subst boot_top_alloc [OF p(3,2,4,1)]) (simp_all add: SECTION_SIZE_def align_down_def)
  with p show "g_early_top q = [0x1F7B00]" "g_early_cur q = g_early_cur boot_pmm" "g_avail q = g_avail boot_pmm" "g_resv q = g_resv boot_pmm"
    by (simp_all add: q add_section_def early_claim_top_def Let_def)
qed

lemma boot_pmm_top:
  "g_early_top (pmm_late_init True boot_pmm) = [0x1F7B00]" "g_early_cur (pmm_late_init True boot_pmm) = [0x100000]"
  "g_avail (pmm_late_init True boot_pmm) = g_avail boot_pmm" "snd (early_alloc_top (pmm_late_init True boot_pmm) SECTION_SIZE 64) \<noteq> 0"
proof -
  let ?p = "pmm_late_init True boot_pmm" and ?q = "built_sections boot_pmm"
  have "g_early_cur ?p = g_early_cur ?q \<and> g_early_top ?p = g_early_top ?q \<and> g_avail ?p = g_avail ?q \<and> g_resv ?p = g_resv ?q"
    by (rule late_init_map [OF boot_pmm_inv _ _ _ boot_pmm_sectioned]) (simp_all add: boot_pmm_fields)
  then have p: "g_early_top ?p = [0x1F7B00]" "g_early_cur ?p = g_early_cur boot_pmm" "g_avail ?p = g_avail boot_pmm" "g_resv ?p = g_resv boot_pmm"
    by (simp_all add: boot_built)
  then show "g_early_top ?p = [0x1F7B00]" "g_early_cur ?p = [0x100000]" "g_avail ?p = g_avail boot_pmm"
    by (simp_all add: boot_pmm_fields)
  show "snd (early_alloc_top ?p SECTION_SIZE 64) \<noteq> 0"
    by (subst boot_top_alloc [OF p(3,2,4,1)]) (simp_all add: SECTION_SIZE_def align_down_def)
qed

theorem late_init_hand_over_witness: "0x180 \<in> free_set (pmm_late_init True boot_pmm)"
proof -
  let ?p = "pmm_late_init True boot_pmm"
  note h = late_init_hand_over [OF boot_pmm_inv boot_pmm_fields(6) _ _ _ _ boot_pmm_sectioned]
  have free: "free_set ?p = {n. sec_of ?p n \<noteq> None \<and> (\<exists>i<length (g_avail ?p). n \<in> left_frames ?p i)
       \<and> (\<forall>r\<in>set (g_resv boot_pmm). n \<notin> resv_frames r)}"
    and sec: "\<forall>i<length (g_avail ?p). \<forall>n\<in>left_frames ?p i. sec_of ?p n = None \<longrightarrow> snd (early_alloc_top ?p SECTION_SIZE 64) = 0"
    using h by (simp_all add: boot_pmm_fields page_aligned_iff)
  have l: "0x180 \<in> left_frames ?p 0" by (simp add: left_frames_def boot_pmm_top align_up_def align_down_def)
  moreover have i: "0 < length (g_avail ?p)" by (simp add: boot_pmm_top boot_pmm_fields)
  moreover have "sec_of ?p 0x180 \<noteq> None" using sec i l boot_pmm_top(4) by blast
  moreover have "\<forall>r\<in>set (g_resv boot_pmm). 0x180 \<notin> resv_frames r" by (simp add: boot_pmm_fields resv_frames_def)
  ultimately show ?thesis unfolding free by blast
qed

lemma claimed_run_ready:
  assumes "pmm_ready p" "claimed_run p n count p'"
  shows "pmm_ready p'"
proof -
  have c: "{n ..< n + count} \<subseteq> free_set p" "free_set p' = free_set p - {n ..< n + count}" "secs_ok p'" "same_env p p'"
    "g_free_frames p' = g_free_frames p - of_nat count"
    using assms(2) by (simp_all add: claimed_run_def free_span_def)
  have r: "secs_ok p" "unat (g_free_frames p) = card (free_set p)" "0 \<notin> free_set p" "g_sectioned p"
    using assms(1) by (simp_all add: pmm_ready_def pmm_inv_def)
  have le: "count \<le> card (free_set p)" using card_mono [OF finite_free_set c(1)] by simp
  with card_free_bound [OF r(1)] have u: "unat (of_nat count :: u64) = count" by (simp add: unat_of_nat)
  have "unat (g_free_frames p') = card (free_set p) - count" using le u r(2) by (simp add: c(5) unat_sub64)
  also have "\<dots> = card (free_set p')" using c(1) by (simp add: c(2) card_Diff_subset)
  finally show ?thesis using c r by (simp add: pmm_ready_def pmm_inv_def same_env_def)
qed

text \<open>A small ready allocator: one section with the frames 64 and 65 free.\<close>

definition two_frames :: pmm where
  "two_frames = mark_sec (boot_pmm\<lparr>g_sec := [Some sec_init], g_sectioned := True\<rparr>) 0 sec_init 64 66 False"

lemma two_frames_free: "free_set two_frames = {64, 65}" and two_frames_ready: "pmm_ready two_frames"
proof -
  let ?p = "boot_pmm\<lparr>g_sec := [Some sec_init], g_sectioned := True\<rparr>"
  have so: "sec_of ?p n = Some s \<Longrightarrow> s = sec_init" for n s
    by (simp add: sec_of_def Let_def split: if_splits)
  then have f: "free_set ?p = {}" using sec_init_inv(2) by (fastforce simp: free_set_iff)
  have ex: "exact ?p" using f sec_init_inv(1) by (simp add: exact_def secs_ok_def) (simp add: boot_pmm_eq)
  have si: "0 < g_nsec ?p" "g_sec ?p ! 0 = Some sec_init" "66 \<le> PMM_SECTION_FRAMES"
    by (simp_all add: PMM_SECTION_FRAMES_def)
  have "{64 ..< 66} = {64, 65 :: nat}" by auto
  then show fr: "free_set two_frames = {64, 65}"
    using mark_sec_free_set [OF si, of 64 False] f by (simp add: two_frames_def)
  have "g_sectioned two_frames" by (simp add: two_frames_def mark_sec_def split_beta Let_def set_sec_def)
  with mark_sec_spec(1) [OF ex si, of 64 False] fr show "pmm_ready two_frames"
    by (simp add: pmm_ready_def pmm_inv_def exact_def two_frames_def)
qed

text \<open>
  C29.  Single-frame allocation (\<open>pmm_alloc_below\<close>, and \<open>pmm_alloc_frame\<close> with no limit)
  on a ready allocator: it answers 0, changing nothing, exactly when no free frame lies
  wholly below the limit; otherwise it claims one free frame below the limit and nothing
  else changes, and the frame is at or above 4 GiB whenever such a frame was free.
\<close>

theorem pmm_alloc_below_correct:
  assumes "pmm_ready p" "limit = ones64 \<or> unat limit \<le> 2 ^ 64 - 2 ^ 30"
  shows "\<exists>p' a. pmm_alloc_below p limit = Some (p', a) \<and> pmm_ready p' \<and> alloc_result p limit p' a"
proof -
  have r: "pmm_inv p" "g_sectioned p" using assms(1) by (simp_all add: pmm_ready_def)
  obtain p' a where a: "alloc_frame_nolock_below p limit = Some (p', a)" "alloc_result p limit p' a"
    using alloc_frame_sectioned [OF r assms(2)] by auto
  have "pmm_ready p'"
  proof (cases "a = 0")
    case False
    with a(2) have c: "claimed p (unat a div 4096) p'" by (simp add: alloc_result_def Let_def)
    then have "g_sectioned p'" using r(2) by (simp add: claimed_def same_env_def)
    with claimed_inv [OF r(1) c] show ?thesis by (simp add: pmm_ready_def)
  qed (use a(2) assms(1) in \<open>simp add: alloc_result_def\<close>)
  with a show ?thesis by (simp add: pmm_alloc_below_def)
qed

theorem pmm_alloc_below_correct_witness:
  "\<exists>p' a. pmm_alloc_below two_frames 0x100000000 = Some (p', a) \<and> a \<noteq> 0
     \<and> claimed two_frames (unat a div 4096) p'"
proof -
  obtain p' a where a: "pmm_alloc_below two_frames 0x100000000 = Some (p', a)" "alloc_result two_frames 0x100000000 p' a"
    using pmm_alloc_below_correct [OF two_frames_ready, of "0x100000000"] by auto
  have "a \<noteq> 0" using a(2) by (auto simp: alloc_result_def two_frames_free split: if_splits)
  with a show ?thesis by (simp add: alloc_result_def Let_def)
qed

text \<open>Contiguous allocation of 2 to $2^{18}$ frames: it answers 0, changing nothing,
  exactly when no section holds that many consecutive free frames below the limit;
  otherwise it claims such a run, inside one section and below the limit, and nothing else
  changes.
\<close>

theorem pmm_alloc_contiguous_correct:
  assumes "pmm_ready p" "2 \<le> count" "count \<le> PMM_SECTION_FRAMES"
  shows "\<exists>p' a. pmm_alloc_contiguous_below p count limit = Some (p', a) \<and> pmm_ready p'
     \<and> run_result p count limit p' a"
proof -
  have r: "pmm_inv p" "g_sectioned p" "0 < count" using assms(1,2) by (simp_all add: pmm_ready_def)
  obtain p' a where a: "alloc_run_nolock_below p count limit = Some (p', a)" "run_result p count limit p' a"
    using alloc_run_sectioned [OF r assms(3), of limit] by auto
  have "pmm_ready p'"
  proof (cases "a = 0")
    case False
    with a(2) have c: "claimed_run p (unat a div 4096) count p'" by (simp add: run_result_def Let_def)
    show ?thesis by (rule claimed_run_ready [OF assms(1) c])
  qed (use a(2) assms(1) in \<open>simp add: run_result_def\<close>)
  with a assms(2) show ?thesis by (simp add: pmm_alloc_contiguous_below_def)
qed

text \<open>\<open>pmm_free_contiguous\<close> on a ready allocator frees exactly the frames of the range
  that have a section, keeps the counters exact, and leaves frames that were free as they
  were, so that freeing twice is the same as freeing once.
\<close>

theorem pmm_free_exact:
  assumes "pmm_ready p" "0 < addr div 4096" "unat (addr div 4096) + unat count < 2 ^ 64"
  defines "R \<equiv> {unat (addr div 4096) ..< unat (addr div 4096) + unat count}"
  shows "pmm_ready (pmm_free_contiguous p addr count)
    \<and> free_set (pmm_free_contiguous p addr count) = free_set p \<union> {n \<in> R. sec_of p n \<noteq> None}
    \<and> free_set (pmm_free_contiguous (pmm_free_contiguous p addr count) addr count)
       = free_set (pmm_free_contiguous p addr count)"
proof (intro conjI)
  have eff: "pmm_ready (pmm_free_contiguous q addr count)
      \<and> free_set (pmm_free_contiguous q addr count) = free_set q \<union> {n \<in> R. sec_of q n \<noteq> None}
      \<and> (\<forall>n. sec_of (pmm_free_contiguous q addr count) n = None \<longleftrightarrow> sec_of q n = None)"
    if "pmm_ready q" for q
  proof -
    have r: "secs_ok q" "unat (g_free_frames q) = card (free_set q)" "0 \<notin> free_set q" "g_sectioned q"
      using that by (simp_all add: pmm_ready_def pmm_inv_def)
    have e: "pmm_free_contiguous q addr count
        = fold free_one [unat (addr div 4096) ..< unat (addr div 4096) + unat count] q"
      using r(4) unat_add64 [OF assms(3)] by (simp add: pmm_free_contiguous_def Let_def)
    have f: "released q {n \<in> R. sec_of q n \<noteq> None} (pmm_free_contiguous q addr count)"
      using fold_free_spec [OF r(1,2), of "[unat (addr div 4096) ..< unat (addr div 4096) + unat count]"]
      by (simp add: e R_def)
    have "0 \<notin> R" using assms(2) by (simp add: R_def word_nat_order)
    with f r show ?thesis by (auto simp: released_def pmm_ready_def pmm_inv_def same_env_def)
  qed
  note 1 = eff [OF assms(1)]
  then show "pmm_ready (pmm_free_contiguous p addr count)"
    "free_set (pmm_free_contiguous p addr count) = free_set p \<union> {n \<in> R. sec_of p n \<noteq> None}" by simp_all
  with 1 eff [of "pmm_free_contiguous p addr count"]
  show "free_set (pmm_free_contiguous (pmm_free_contiguous p addr count) addr count)
       = free_set (pmm_free_contiguous p addr count)" by auto
qed

text \<open>
  C13.  In any history of single-frame allocations and of releases of frames the callers
  hold, started with nothing held, no frame is ever held twice or held while free, and no
  frame is lost: the held and the free frames are always the frames free at the start.
\<close>

theorem pmm_history_safe:
  assumes "pmm_ready p" "pmm_alloc.history p {} p' own"
  shows "pmm_ready p' \<and> own \<inter> free_set p' = {} \<and> own \<union> free_set p' = free_set p"
  using pmm_alloc.history_safe [OF assms(2,1)] by auto

theorem pmm_history_safe_witness:
  "\<exists>p' n. pmm_alloc.history two_frames {} p' {n} \<and> {n} \<inter> free_set p' = {} \<and> {n} \<union> free_set p' = {64, 65}"
proof -
  obtain p' n where "pmm_take two_frames = Some (p', n)"
    using pmm_take_None [OF two_frames_ready] two_frames_free by (cases "pmm_take two_frames") auto
  then have h: "pmm_alloc.history two_frames {} p' {n}"
    using pmm_alloc.h_alloc [OF pmm_alloc.h_refl, of two_frames p' n "{}"] by simp
  from pmm_history_safe [OF two_frames_ready h] h show ?thesis by (auto simp: two_frames_free)
qed

end
