(* ===== verification/Pmm_Ref.thy ===== *)
theory Pmm_Ref
  imports Pmm_Init
begin

text \<open>
  Copy-on-write reference counts of \<open>mm/pmm.c\<close>: one saturating byte per frame, kept in
  lazily allocated 4096-entry chunks that are themselves frames of the allocator and go
  back to it when their last count drops to zero.
\<close>

subsection \<open>Operations\<close>

definition PMM_REF_STICKY :: u8 where
  "PMM_REF_STICKY = 0xFF"

abbreviation ref_chunk_no :: "nat \<Rightarrow> nat" where
  "ref_chunk_no frame \<equiv> frame mod PMM_SECTION_FRAMES div 4096"

abbreviation ref_offset :: "nat \<Rightarrow> nat" where
  "ref_offset frame \<equiv> frame mod PMM_SECTION_FRAMES mod 4096"

text \<open>
  \<open>ref_slot\<close>: the chunk that holds the count of \<open>frame\<close>, created on demand.  The
  pointer into the chunk is the chunk itself, at offset \<open>ref_offset frame\<close>.
\<close>

definition ref_slot :: "pmm \<Rightarrow> nat \<Rightarrow> bool \<Rightarrow> pmm \<times> ref_chunk option" where
  "ref_slot p frame create =
    (case if g_sectioned p then sec_of p frame else None of
       None \<Rightarrow> (p, None)
     | Some s \<Rightarrow>
         let c = ref_chunk_no frame
         in case sec_refs s c of
              Some ch \<Rightarrow> (p, Some ch)
            | None \<Rightarrow>
                if \<not> create then (p, None)
                else case alloc_frame_nolock_below p ones64 of
                       None \<Rightarrow> (p, None)
                     | Some (p1, a) \<Rightarrow>
                         if a = 0 then (p1, None)
                         else case sec_of p1 frame of
                                None \<Rightarrow> (p1, None)
                              | Some s1 \<Rightarrow>
                                  let ch = \<lparr>chunk_phys = a, chunk_cnt = (\<lambda>_. 0)\<rparr>;
                                      s2 = s1\<lparr>sec_refs := (sec_refs s1)(c := Some ch)\<rparr>
                                  in ((set_sec p1 (frame div PMM_SECTION_FRAMES) s2)
                                        \<lparr>g_ref_chunks := g_ref_chunks p1 + 1\<rparr>, Some ch))"

definition ref_chunk_put :: "pmm \<Rightarrow> nat \<Rightarrow> nat \<Rightarrow> pmm" where
  "ref_chunk_put p si c =
    (case g_sec p ! si of
       None \<Rightarrow> p
     | Some s \<Rightarrow>
         let s1 = s\<lparr>sec_refs_used := (sec_refs_used s)(c := sec_refs_used s c - 1)\<rparr>;
             p1 = set_sec p si s1
         in if sec_refs_used s1 c \<noteq> 0 then p1
            else case sec_refs s1 c of
                   None \<Rightarrow> p1
                 | Some ch \<Rightarrow>
                     let p2 = (set_sec p1 si (s1\<lparr>sec_refs := (sec_refs s1)(c := None)\<rparr>))
                                \<lparr>g_ref_chunks := g_ref_chunks p1 - 1\<rparr>;
                         n = unat (chunk_phys ch div 4096);
                         i = n mod PMM_SECTION_FRAMES
                     in case sec_of p2 n of
                          None \<Rightarrow> p2
                        | Some fs \<Rightarrow>
                            let p3 = set_sec p2 (n div PMM_SECTION_FRAMES) (fst (sec_mark fs i (i + 1) False))
                            in p3\<lparr>g_free_frames := g_free_frames p3 + 1\<rparr>)"

definition set_ref :: "pmm \<Rightarrow> nat \<Rightarrow> ref_chunk \<Rightarrow> u16 \<Rightarrow> u8 \<Rightarrow> pmm" where
  "set_ref p frame ch used v =
    (case sec_of p frame of
       None \<Rightarrow> p
     | Some s \<Rightarrow>
         let c = ref_chunk_no frame
         in set_sec p (frame div PMM_SECTION_FRAMES)
              (s\<lparr>sec_refs := (sec_refs s)(c := Some (ch\<lparr>chunk_cnt := (chunk_cnt ch)(ref_offset frame := v)\<rparr>)),
                 sec_refs_used := (sec_refs_used s)(c := used)\<rparr>))"

definition refs_used_of :: "pmm \<Rightarrow> nat \<Rightarrow> u16" where
  "refs_used_of p frame = (case sec_of p frame of None \<Rightarrow> 0 | Some s \<Rightarrow> sec_refs_used s (ref_chunk_no frame))"

text \<open>True is the return value 0, False is -1.\<close>

definition pmm_share_frame :: "pmm \<Rightarrow> u64 \<Rightarrow> pmm \<times> bool" where
  "pmm_share_frame p addr =
    (let frame = unat (addr div 4096); (p1, r) = ref_slot p frame True
     in case r of
          None \<Rightarrow> (p1, False)
        | Some ch \<Rightarrow>
            let v = chunk_cnt ch (ref_offset frame);
                used = (if v = 0 then refs_used_of p1 frame + 1 else refs_used_of p1 frame)
            in (set_ref p1 frame ch used (if v \<noteq> PMM_REF_STICKY then v + 1 else v), True))"

definition pmm_unref_frame :: "pmm \<Rightarrow> u64 \<Rightarrow> pmm \<times> bool" where
  "pmm_unref_frame p addr =
    (let frame = unat (addr div 4096); (p1, r) = ref_slot p frame False
     in case r of
          None \<Rightarrow> (p1, False)
        | Some ch \<Rightarrow>
            let v = chunk_cnt ch (ref_offset frame)
            in if v > 0
               then (if v \<noteq> PMM_REF_STICKY
                     then let p2 = set_ref p1 frame ch (refs_used_of p1 frame) (v - 1)
                          in if v - 1 = 0 then ref_chunk_put p2 (frame div PMM_SECTION_FRAMES) (ref_chunk_no frame)
                             else p2
                     else p1, True)
               else (p1, False))"

definition pmm_frame_shared :: "pmm \<Rightarrow> u64 \<Rightarrow> bool" where
  "pmm_frame_shared p addr =
    (let frame = unat (addr div 4096)
     in case snd (ref_slot p frame False) of
          None \<Rightarrow> False
        | Some ch \<Rightarrow> chunk_cnt ch (ref_offset frame) > 0)"

subsection \<open>Views of the reference tables\<close>

definition ref_tab :: "pmm \<Rightarrow> nat \<Rightarrow> nat \<Rightarrow> ref_chunk option \<times> u16" where
  "ref_tab p si c = (if si < g_nsec p then
     (case g_sec p ! si of None \<Rightarrow> (None, 0) | Some s \<Rightarrow> (sec_refs s c, sec_refs_used s c)) else (None, 0))"

text \<open>The number of extra references of a frame.\<close>

definition extra_refs :: "pmm \<Rightarrow> nat \<Rightarrow> u8" where
  "extra_refs p frame = (case fst (ref_tab p (frame div PMM_SECTION_FRAMES) (ref_chunk_no frame)) of
     None \<Rightarrow> 0 | Some ch \<Rightarrow> chunk_cnt ch (ref_offset frame))"

definition chunk_frame :: "ref_chunk \<Rightarrow> nat" where
  "chunk_frame ch = unat (chunk_phys ch div 4096)"

definition nonzero_count :: "(nat \<Rightarrow> u8) \<Rightarrow> nat" where
  "nonzero_count cnt = card {k. k < 4096 \<and> cnt k \<noteq> 0}"

text \<open>
  A chunk's use count is the number of its non-zero entries and is never 0, and the frame
  a chunk lives in is managed, not free, and used by no other chunk.
\<close>

definition chunk_ok :: "pmm \<Rightarrow> ref_chunk \<Rightarrow> u16 \<Rightarrow> bool" where
  "chunk_ok p ch u \<longleftrightarrow> u \<noteq> 0 \<and> unat u = nonzero_count (chunk_cnt ch)
     \<and> chunk_frame ch \<in> pmm_managed p \<and> chunk_frame ch \<notin> free_set p"

definition ref_inv :: "pmm \<Rightarrow> bool" where
  "ref_inv p \<longleftrightarrow>
     (\<forall>si c. case ref_tab p si c of (None, u) \<Rightarrow> u = 0 | (Some ch, u) \<Rightarrow> chunk_ok p ch u)
     \<and> (\<forall>si c sj d ch ch'. fst (ref_tab p si c) = Some ch \<and> fst (ref_tab p sj d) = Some ch'
          \<and> chunk_frame ch = chunk_frame ch' \<longrightarrow> si = sj \<and> c = d)"

subsection \<open>The tables under the allocator's operations\<close>

lemma ref_tab_refs_of:
  "ref_tab p si c = (if si < length (refs_of p) then
     (case refs_of p ! si of None \<Rightarrow> (None, 0) | Some (r, u) \<Rightarrow> (r c, u c)) else (None, 0))"
  by (auto simp: ref_tab_def refs_of_def split: option.splits)

lemma ref_tab_env: "same_env p q \<Longrightarrow> ref_tab q = ref_tab p"
  by (simp add: fun_eq_iff ref_tab_refs_of same_env_def)

lemma ref_tab_set_sec:
  "si < g_nsec p \<Longrightarrow> ref_tab (set_sec p si s) sj c =
    (if sj = si then (sec_refs s c, sec_refs_used s c) else ref_tab p sj c)"
  by (auto simp: ref_tab_def set_sec_def)

lemma ref_tab_counters [simp]:
  "ref_tab (p\<lparr>g_ref_chunks := x\<rparr>) = ref_tab p" "ref_tab (p\<lparr>g_free_frames := x\<rparr>) = ref_tab p"
  by (simp_all add: fun_eq_iff ref_tab_def)

lemma ready_ref_chunks [simp]:
  "pmm_ready (p\<lparr>g_ref_chunks := x\<rparr>) = pmm_ready p" "pmm_managed (p\<lparr>g_ref_chunks := x\<rparr>) = pmm_managed p"
  "sec_of (p\<lparr>g_ref_chunks := x\<rparr>) n = sec_of p n"
  by (simp_all add: pmm_ready_def pmm_inv_def pmm_managed_def sec_of_def Let_def)

lemma sec_refs_irrelevant [simp]:
  "sec_inv (s\<lparr>sec_refs := x\<rparr>) = sec_inv s" "sec_inv (s\<lparr>sec_refs_used := y\<rparr>) = sec_inv s"
  "sec_free_set (s\<lparr>sec_refs := x\<rparr>) = sec_free_set s" "sec_free_set (s\<lparr>sec_refs_used := y\<rparr>) = sec_free_set s"
  by (simp_all add: sec_inv_def summary_ok_def sec_free_set_def frame_used_def)

lemma sec_of_SomeD:
  "sec_of p n = Some s \<Longrightarrow> n div PMM_SECTION_FRAMES < g_nsec p \<and> g_sec p ! (n div PMM_SECTION_FRAMES) = Some s"
  by (simp add: sec_of_def Let_def split: if_splits)

text \<open>Replacing only the reference tables of a section leaves the allocator as it was.\<close>

lemma set_sec_refs:
  assumes si: "si < g_nsec p" "g_sec p ! si = Some s" and r: "pmm_ready p"
    and s': "sec_free_set s' = sec_free_set s" "sec_inv s'"
  shows "pmm_ready (set_sec p si s')" "free_set (set_sec p si s') = free_set p"
    "pmm_managed (set_sec p si s') = pmm_managed p"
proof -
  show f: "free_set (set_sec p si s') = free_set p"
    using free_set_set_sec [OF si] s'(1) by (simp add: set_eq_iff)
  have "sec_of (set_sec p si s') n = None \<longleftrightarrow> sec_of p n = None" for n
    using sec_of_set_sec [OF si(1), of s' n] si by (simp add: sec_of_def)
  then show "pmm_managed (set_sec p si s') = pmm_managed p" by (simp add: pmm_managed_def)
  show "pmm_ready (set_sec p si s')"
    using r secs_ok_set_sec [of p s' si] s'(2) f by (simp add: pmm_ready_def pmm_inv_def) (simp add: set_sec_def)
qed

lemma frame_ref_inj:
  assumes "g div PMM_SECTION_FRAMES = f div PMM_SECTION_FRAMES" "ref_chunk_no g = ref_chunk_no f"
    "ref_offset g = ref_offset f"
  shows "g = f"
proof -
  have "g mod PMM_SECTION_FRAMES = f mod PMM_SECTION_FRAMES"
    using assms(2,3) by (metis div_mult_mod_eq)
  with assms(1) show ?thesis by (metis div_mult_mod_eq)
qed

lemma extra_refs_update:
  assumes "ref_tab q = (\<lambda>si c. if si = f div PMM_SECTION_FRAMES \<and> c = ref_chunk_no f
      then (Some (ch\<lparr>chunk_cnt := (chunk_cnt ch)(ref_offset f := v)\<rparr>), u) else ref_tab p si c)"
    and "\<And>k. k \<noteq> ref_offset f \<Longrightarrow> chunk_cnt ch k = (case fst (ref_tab p (f div PMM_SECTION_FRAMES) (ref_chunk_no f)) of
         None \<Rightarrow> 0 | Some c0 \<Rightarrow> chunk_cnt c0 k)"
  shows "extra_refs q f = v" "g \<noteq> f \<Longrightarrow> extra_refs q g = extra_refs p g"
proof -
  show "extra_refs q f = v" by (simp add: extra_refs_def assms(1))
  assume ne: "g \<noteq> f"
  show "extra_refs q g = extra_refs p g"
  proof (cases "g div PMM_SECTION_FRAMES = f div PMM_SECTION_FRAMES \<and> ref_chunk_no g = ref_chunk_no f")
    case True
    with ne have "ref_offset g \<noteq> ref_offset f" using frame_ref_inj by blast
    with True assms(2) show ?thesis by (simp add: extra_refs_def assms(1))
  next
    case False
    then show ?thesis by (simp only: extra_refs_def assms(1) if_False)
  qed
qed

text \<open>How the number of shared frames of a chunk follows one count.\<close>

lemma card_nonzero_update:
  fixes cnt :: "nat \<Rightarrow> u8"
  assumes "k < 4096"
  shows "nonzero_count (cnt(k := v)) + of_bool (cnt k \<noteq> 0) = nonzero_count cnt + of_bool (v \<noteq> 0)"
proof -
  let ?R = "{j. j < 4096 \<and> j \<noteq> k \<and> cnt j \<noteq> 0}"
  have *: "{j. j < 4096 \<and> c j \<noteq> 0} = (if c k = 0 then ?R else insert k ?R)"
    if "\<And>j. j \<noteq> k \<Longrightarrow> c j = cnt j" for c :: "nat \<Rightarrow> u8"
  proof (rule set_eqI)
    fix j show "j \<in> {j. j < 4096 \<and> c j \<noteq> 0} \<longleftrightarrow> j \<in> (if c k = 0 then ?R else insert k ?R)"
      using assms that [of j] by (cases "j = k") auto
  qed
  have f: "finite ?R" by simp
  have a: "{j. j < 4096 \<and> (cnt(k := v)) j \<noteq> 0} = (if (cnt(k := v)) k = 0 then ?R else insert k ?R)"
    by (rule *) simp
  have b: "{j. j < 4096 \<and> cnt j \<noteq> 0} = (if cnt k = 0 then ?R else insert k ?R)" by (rule *) simp
  show ?thesis unfolding nonzero_count_def a b using f by simp
qed

lemma card_nonzero_le: "nonzero_count cnt \<le> 4096"
proof -
  have "{j. j < 4096 \<and> cnt j \<noteq> 0} \<subseteq> {..< 4096}" by auto
  from card_mono [OF _ this] show ?thesis by (simp add: nonzero_count_def)
qed

lemma nonzero_count_pos: "k < 4096 \<Longrightarrow> cnt k \<noteq> 0 \<Longrightarrow> 0 < nonzero_count cnt"
  by (auto simp: nonzero_count_def card_gt_0_iff)

text \<open>
  What \<open>ref_slot\<close> delivers: the chunk in the table, or a fresh zero chunk in a frame
  that was free.
\<close>

definition slot_ok :: "pmm \<Rightarrow> nat \<Rightarrow> pmm \<Rightarrow> ref_chunk \<Rightarrow> bool" where
  "slot_ok p f p1 ch \<longleftrightarrow>
    (let tab = ref_tab p (f div PMM_SECTION_FRAMES) (ref_chunk_no f)
     in pmm_ready p1 \<and> pmm_managed p1 = pmm_managed p \<and> sec_of p1 f \<noteq> None
        \<and> ref_tab p1 = (\<lambda>si c. if si = f div PMM_SECTION_FRAMES \<and> c = ref_chunk_no f
                              then (Some ch, snd tab) else ref_tab p si c)
        \<and> (case fst tab of
             Some ch0 \<Rightarrow> ch = ch0 \<and> p1 = p
           | None \<Rightarrow> chunk_cnt ch = (\<lambda>_. 0) \<and> chunk_frame ch \<in> free_set p
                    \<and> free_set p1 = free_set p - {chunk_frame ch}))"

lemma ref_tab_sec_of: "sec_of p f = Some s \<Longrightarrow>
    ref_tab p (f div PMM_SECTION_FRAMES) c = (sec_refs s c, sec_refs_used s c)"
  by (auto simp: ref_tab_def dest: sec_of_SomeD)

lemma ref_slot_fresh:
  assumes r: "pmm_ready p" and sec: "sec_of p f = Some s" and none: "sec_refs s (ref_chunk_no f) = None"
    and cl: "claimed p (unat a div 4096) q" and rq: "pmm_ready q"
    and s1: "sec_of q f = Some s1"
  defines "ch \<equiv> \<lparr>chunk_phys = a, chunk_cnt = (\<lambda>_. 0)\<rparr>"
  shows "slot_ok p f ((set_sec q (f div PMM_SECTION_FRAMES)
      (s1\<lparr>sec_refs := (sec_refs s1)(ref_chunk_no f := Some ch)\<rparr>))\<lparr>g_ref_chunks := x\<rparr>) ch"
proof -
  let ?si = "f div PMM_SECTION_FRAMES" and ?c = "ref_chunk_no f"
  let ?s = "s1\<lparr>sec_refs := (sec_refs s1)(?c := Some ch)\<rparr>"
  let ?q = "set_sec q ?si ?s"
  note si = sec_of_SomeD [OF s1]
  have env: "same_env p q" "chunk_frame ch \<in> free_set p" "free_set q = free_set p - {chunk_frame ch}"
    using cl by (simp_all add: claimed_def ch_def chunk_frame_def unat_div)
  have inv: "sec_inv s1" using secs_ok_sec [of q ?si s1] si rq by (simp add: pmm_ready_def pmm_inv_def)
  have sp: "pmm_ready ?q" "free_set ?q = free_set q" "pmm_managed ?q = pmm_managed q"
    using set_sec_refs [OF conjunct1 [OF si] conjunct2 [OF si] rq, of ?s] inv by simp_all
  have "sec_of q n = None \<longleftrightarrow> sec_of p n = None" for n
    using env(1) refs_of_sec_of [of q p n] by (simp add: same_env_def)
  then have man: "pmm_managed q = pmm_managed p" by (simp add: pmm_managed_def)
  have tq: "ref_tab q = ref_tab p" by (rule ref_tab_env [OF env(1)])
  then have ts: "(sec_refs s1 c, sec_refs_used s1 c) = ref_tab p ?si c" for c
    using ref_tab_sec_of [OF s1, of c] by simp
  have tab: "ref_tab ?q sj c = (if sj = ?si \<and> c = ?c then (Some ch, snd (ref_tab p ?si ?c)) else ref_tab p sj c)" for sj c
    using ref_tab_set_sec [OF conjunct1 [OF si], of ?s sj c] ts [of c] tq by (auto simp: prod_eq_iff)
  have "sec_of ?q f \<noteq> None" using sec_of_set_sec [OF conjunct1 [OF si], of ?s f] by simp
  moreover have "ref_tab p ?si ?c = (None, sec_refs_used s ?c)" using ref_tab_sec_of [OF sec, of ?c] none by simp
  ultimately show ?thesis
    using sp man tab env by (simp add: slot_ok_def Let_def fun_eq_iff) (simp add: ch_def)
qed

lemma ref_slot_cases:
  assumes r: "pmm_ready p" and e: "ref_slot p f create = (p1, res)"
  shows "case res of
      None \<Rightarrow> p1 = p \<and> (\<not> create \<longrightarrow> fst (ref_tab p (f div PMM_SECTION_FRAMES) (ref_chunk_no f)) = None)
    | Some ch \<Rightarrow> slot_ok p f p1 ch \<and> (\<not> create \<longrightarrow> p1 = p \<and> fst (ref_tab p (f div PMM_SECTION_FRAMES) (ref_chunk_no f)) = Some ch)"
proof (cases "sec_of p f")
  case None
  then have "fst (ref_tab p (f div PMM_SECTION_FRAMES) c) = None" for c
    by (simp add: ref_tab_def sec_of_def Let_def split: if_splits)
  with None e show ?thesis by (auto simp: ref_slot_def split: if_splits)
next
  case (Some s)
  let ?c = "ref_chunk_no f"
  have gs: "g_sectioned p" using r by (simp add: pmm_ready_def)
  note tab = ref_tab_sec_of [OF Some, of ?c]
  show ?thesis
  proof (cases "sec_refs s ?c")
    case ch: (Some ch)
    with e Some gs have "p1 = p" "res = Some ch" by (simp_all add: ref_slot_def)
    with ch tab r Some show ?thesis by (simp add: slot_ok_def fun_eq_iff)
  next
    case None
    show ?thesis
    proof (cases create)
      case False
      with e Some gs None tab show ?thesis by (simp add: ref_slot_def split: prod.splits)
    next
      case True
      have inv: "pmm_inv p" using r by (simp add: pmm_ready_def)
      obtain q a where q: "alloc_frame_nolock_below p ones64 = Some (q, a)" "alloc_result p ones64 q a"
        using alloc_frame_sectioned [OF inv gs, of ones64] by auto
      show ?thesis
      proof (cases "a = 0")
        case True
        with q(2) have "q = p" by (simp add: alloc_result_def)
        with True \<open>create\<close> e Some gs None q(1) show ?thesis by (simp add: ref_slot_def)
      next
        case False
        with q(2) have cl: "claimed p (unat a div 4096) q" by (simp add: alloc_result_def Let_def)
        have rq: "pmm_ready q"
          using claimed_inv [OF inv cl] gs cl by (simp add: pmm_ready_def claimed_def same_env_def)
        have "sec_of q f \<noteq> None" using cl refs_of_sec_of [of q p f] Some by (simp add: claimed_def same_env_def)
        then obtain s1 where s1: "sec_of q f = Some s1" by blast
        note fresh = ref_slot_fresh [OF r Some None cl rq s1]
        from False \<open>create\<close> e Some gs None q(1) s1 fresh show ?thesis
          by (auto simp: ref_slot_def Let_def)
      qed
    qed
  qed
qed

lemma ref_invD:
  assumes "ref_inv p"
  shows "ref_tab p si c = (None, u) \<Longrightarrow> u = 0" "ref_tab p si c = (Some ch, u) \<Longrightarrow> chunk_ok p ch u"
    "fst (ref_tab p si c) = Some ch \<Longrightarrow> fst (ref_tab p sj d) = Some ch' \<Longrightarrow> chunk_frame ch = chunk_frame ch'
      \<Longrightarrow> si = sj \<and> c = d"
proof -
  have a: "case ref_tab p si c of (None, u) \<Rightarrow> u = 0 | (Some ch, u) \<Rightarrow> chunk_ok p ch u"
    using assms by (simp add: ref_inv_def)
  show "ref_tab p si c = (None, u) \<Longrightarrow> u = 0" "ref_tab p si c = (Some ch, u) \<Longrightarrow> chunk_ok p ch u"
    using a by simp_all
  assume t: "fst (ref_tab p si c) = Some ch" "fst (ref_tab p sj d) = Some ch'" "chunk_frame ch = chunk_frame ch'"
  have "\<forall>si c sj d ch ch'. fst (ref_tab p si c) = Some ch \<and> fst (ref_tab p sj d) = Some ch'
          \<and> chunk_frame ch = chunk_frame ch' \<longrightarrow> si = sj \<and> c = d"
    using assms unfolding ref_inv_def by (rule conjunct2)
  then have "fst (ref_tab p si c) = Some ch \<and> fst (ref_tab p sj d) = Some ch' \<and> chunk_frame ch = chunk_frame ch'
      \<longrightarrow> si = sj \<and> c = d" by (elim allE)
  with t show "si = sj \<and> c = d" by simp
qed

text \<open>
  Changing one entry of the tables keeps the invariant when the new chunk is well formed
  and its frame is that of the old entry or was free, and nothing that was used is free
  now.
\<close>

lemma ref_inv_update:
  assumes inv: "ref_inv p" and man: "pmm_managed q = pmm_managed p" and fr: "free_set q \<subseteq> free_set p"
    and tab: "ref_tab q = (\<lambda>si c. if si = i \<and> c = d then (Some ch, u) else ref_tab p si c)"
    and ok: "chunk_ok q ch u"
    and new: "\<And>ch0. fst (ref_tab p i d) = Some ch0 \<Longrightarrow> chunk_frame ch = chunk_frame ch0"
      "fst (ref_tab p i d) = None \<Longrightarrow> chunk_frame ch \<in> free_set p"
  shows "ref_inv q"
proof -
  have other: "chunk_frame c0 \<noteq> chunk_frame ch"
    if t: "fst (ref_tab p si c) = Some c0" and ne: "\<not> (si = i \<and> c = d)" for si c c0
  proof (cases "fst (ref_tab p i d)")
    case None
    obtain u0 where u0: "ref_tab p si c = (Some c0, u0)" using t by (cases "ref_tab p si c") auto
    have "chunk_frame c0 \<notin> free_set p" using ref_invD(2) [OF inv u0] by (simp add: chunk_ok_def)
    with new(2) [OF None] show ?thesis by auto
  next
    case (Some c1)
    with new(1) ref_invD(3) [OF inv t Some] ne show ?thesis by auto
  qed
  show ?thesis
    unfolding ref_inv_def
  proof (rule conjI, goal_cases)
    case 1
    show ?case
    proof (intro allI)
    fix si c
    show "case ref_tab q si c of (None, u) \<Rightarrow> u = 0 | (Some ch, u) \<Rightarrow> chunk_ok q ch u"
    proof (cases "si = i \<and> c = d")
      case True
      with ok tab show ?thesis by simp
    next
      case False
      then have e: "ref_tab q si c = ref_tab p si c" by (simp only: tab if_False)
      obtain r w where rw: "ref_tab p si c = (r, w)" by force
      show ?thesis
      proof (cases r)
        case None
        with ref_invD(1) [OF inv, of si c w] e rw show ?thesis by simp
      next
        case (Some c0)
        with rw have t: "ref_tab p si c = (Some c0, w)" by simp
        have "chunk_ok p c0 w" by (rule ref_invD(2) [OF inv t])
        then have "chunk_ok q c0 w" using man fr by (auto simp: chunk_ok_def)
        with e t show ?thesis by simp
      qed
    qed
    qed
  next
    case 2
    show ?case
    proof (intro allI impI, elim conjE)
    fix si c sj dd c0 c1
    assume t: "fst (ref_tab q si c) = Some c0" "fst (ref_tab q sj dd) = Some c1" "chunk_frame c0 = chunk_frame c1"
    consider (both) "si = i \<and> c = d" "sj = i \<and> dd = d" | (left) "si = i \<and> c = d" "\<not> (sj = i \<and> dd = d)"
      | (right) "\<not> (si = i \<and> c = d)" "sj = i \<and> dd = d" | (none) "\<not> (si = i \<and> c = d)" "\<not> (sj = i \<and> dd = d)" by blast
    then show "si = sj \<and> c = dd"
    proof cases
      case both
      then show ?thesis by simp
    next
      case left
      have "c0 = ch" using t(1) left(1) by (simp add: tab)
      moreover have "fst (ref_tab p sj dd) = Some c1" using t(2) left(2) by (simp only: tab if_False)
      ultimately
      show ?thesis using other [OF _ left(2)] t(3) by metis
    next
      case right
      have "c1 = ch" using t(2) right(2) by (simp add: tab)
      moreover have "fst (ref_tab p si c) = Some c0" using t(1) right(1) by (simp only: tab if_False)
      ultimately
      show ?thesis using other [OF _ right(1)] t(3) by metis
    next
      case none
      with t have "fst (ref_tab p si c) = Some c0" "fst (ref_tab p sj dd) = Some c1"
        by (simp_all only: tab if_False)
      with ref_invD(3) [OF inv] t(3) show ?thesis by metis
    qed
    qed
  qed
qed

lemma set_ref_effect:
  fixes ch :: ref_chunk and u :: u16 and v :: u8
  assumes r: "pmm_ready p" and sec: "sec_of p f \<noteq> None"
  defines "q \<equiv> set_ref p f ch u v"
  shows "pmm_ready q" "free_set q = free_set p" "pmm_managed q = pmm_managed p" "sec_of q f \<noteq> None"
    "ref_tab q = (\<lambda>si c. if si = f div PMM_SECTION_FRAMES \<and> c = ref_chunk_no f
       then (Some (ch\<lparr>chunk_cnt := (chunk_cnt ch)(ref_offset f := v)\<rparr>), u) else ref_tab p si c)"
proof -
  obtain s where s: "sec_of p f = Some s" using sec by blast
  let ?si = "f div PMM_SECTION_FRAMES" and ?c = "ref_chunk_no f"
  let ?s = "s\<lparr>sec_refs := (sec_refs s)(?c := Some (ch\<lparr>chunk_cnt := (chunk_cnt ch)(ref_offset f := v)\<rparr>)),
      sec_refs_used := (sec_refs_used s)(?c := u)\<rparr>"
  note si = sec_of_SomeD [OF s]
  have q: "q = set_sec p ?si ?s" by (simp add: q_def set_ref_def s Let_def)
  have inv: "sec_inv s" using secs_ok_sec [of p ?si s] si r by (simp add: pmm_ready_def pmm_inv_def)
  show "pmm_ready q" "free_set q = free_set p" "pmm_managed q = pmm_managed p"
    unfolding q using set_sec_refs [OF conjunct1 [OF si] conjunct2 [OF si] r, of ?s] inv by simp_all
  show "sec_of q f \<noteq> None" unfolding q using sec_of_set_sec [OF conjunct1 [OF si], of ?s f] by simp
  have "ref_tab q sj c = (if sj = ?si \<and> c = ?c
       then (Some (ch\<lparr>chunk_cnt := (chunk_cnt ch)(ref_offset f := v)\<rparr>), u) else ref_tab p sj c)" for sj c
    using ref_tab_set_sec [OF conjunct1 [OF si], of ?s sj c] ref_tab_sec_of [OF s, of c] by (auto simp: q)
  then show "ref_tab q = (\<lambda>si c. if si = ?si \<and> c = ?c
       then (Some (ch\<lparr>chunk_cnt := (chunk_cnt ch)(ref_offset f := v)\<rparr>), u) else ref_tab p si c)"
    by (intro ext)
qed

lemma refs_used_of_tab: "sec_of p f \<noteq> None \<Longrightarrow>
    refs_used_of p f = snd (ref_tab p (f div PMM_SECTION_FRAMES) (ref_chunk_no f))"
  using ref_tab_sec_of [of p f] by (auto simp: refs_used_of_def)

lemma ref_offset_lt [simp]: "ref_offset f < 4096"
  by simp

lemma chunk_cnt_upd [simp]: "chunk_frame (ch\<lparr>chunk_cnt := x\<rparr>) = chunk_frame ch"
  by (simp add: chunk_frame_def)

text \<open>The state of a slot obtained with \<open>create\<close>: its count and use count.\<close>

lemma slot_count:
  assumes inv: "ref_inv p" and rp: "pmm_ready p" and ok: "slot_ok p f p1 ch"
  shows "chunk_cnt ch (ref_offset f) = extra_refs p f"
    "\<And>k. chunk_cnt ch k = (case fst (ref_tab p (f div PMM_SECTION_FRAMES) (ref_chunk_no f)) of
         None \<Rightarrow> 0 | Some c0 \<Rightarrow> chunk_cnt c0 k)"
    "unat (refs_used_of p1 f) = nonzero_count (chunk_cnt ch)"
    "chunk_frame ch \<in> pmm_managed p1" "chunk_frame ch \<notin> free_set p1" "free_set p1 \<subseteq> free_set p"
proof -
  let ?si = "f div PMM_SECTION_FRAMES" and ?c = "ref_chunk_no f"
  obtain r u where t: "ref_tab p ?si ?c = (r, u)" by force
  have u: "refs_used_of p1 f = u"
    using ok t refs_used_of_tab [of p1 f] by (simp add: slot_ok_def Let_def)
  have "chunk_cnt ch (ref_offset f) = extra_refs p f
    \<and> (\<forall>k. chunk_cnt ch k = (case fst (ref_tab p ?si ?c) of None \<Rightarrow> 0 | Some c0 \<Rightarrow> chunk_cnt c0 k))
    \<and> unat u = nonzero_count (chunk_cnt ch)
    \<and> chunk_frame ch \<in> pmm_managed p1 \<and> chunk_frame ch \<notin> free_set p1 \<and> free_set p1 \<subseteq> free_set p"
  proof (cases r)
    case (Some c0)
    with ok t have e: "ch = c0" "p1 = p" by (simp_all add: slot_ok_def Let_def)
    have "chunk_ok p c0 u" using ref_invD(2) [OF inv] t Some by simp
    with e t Some show ?thesis by (simp add: chunk_ok_def extra_refs_def)
  next
    case None
    with ok t have e: "chunk_cnt ch = (\<lambda>_. 0)" "chunk_frame ch \<in> free_set p" "free_set p1 = free_set p - {chunk_frame ch}"
      "pmm_managed p1 = pmm_managed p" by (simp_all add: slot_ok_def Let_def)
    have "u = 0" using ref_invD(1) [OF inv] t None by simp
    moreover have "chunk_frame ch \<in> pmm_managed p" using pmm_alloc.avail_managed [OF rp] e(2) by auto
    ultimately show ?thesis using e t None by (auto simp: extra_refs_def nonzero_count_def)
  qed
  with u show "chunk_cnt ch (ref_offset f) = extra_refs p f"
    "\<And>k. chunk_cnt ch k = (case fst (ref_tab p ?si ?c) of None \<Rightarrow> 0 | Some c0 \<Rightarrow> chunk_cnt c0 k)"
    "unat (refs_used_of p1 f) = nonzero_count (chunk_cnt ch)"
    "chunk_frame ch \<in> pmm_managed p1" "chunk_frame ch \<notin> free_set p1" "free_set p1 \<subseteq> free_set p"
    by auto
qed

text \<open>Writing a non-zero count through a slot.\<close>

lemma set_ref_slot:
  assumes inv: "ref_inv p" and rp: "pmm_ready p" and ok: "slot_ok p f p1 ch" and v: "v \<noteq> 0"
    and u: "u = (if chunk_cnt ch (ref_offset f) = 0 then refs_used_of p1 f + 1 else refs_used_of p1 f)"
  shows "pmm_ready (set_ref p1 f ch u v)" "ref_inv (set_ref p1 f ch u v)"
    "extra_refs (set_ref p1 f ch u v) f = v" "g \<noteq> f \<Longrightarrow> extra_refs (set_ref p1 f ch u v) g = extra_refs p g"
    "free_set (set_ref p1 f ch u v) = free_set p1"
proof -
  let ?q = "set_ref p1 f ch u v" and ?ch = "ch\<lparr>chunk_cnt := (chunk_cnt ch)(ref_offset f := v)\<rparr>"
  let ?si = "f div PMM_SECTION_FRAMES" and ?c = "ref_chunk_no f"
  have p1: "pmm_ready p1" "sec_of p1 f \<noteq> None" "pmm_managed p1 = pmm_managed p"
    "ref_tab p1 = (\<lambda>si c. if si = ?si \<and> c = ?c then (Some ch, snd (ref_tab p ?si ?c)) else ref_tab p si c)"
    using ok by (simp_all add: slot_ok_def Let_def)
  note q = set_ref_effect [OF p1(1,2), of ch u v] and c = slot_count [OF inv rp ok]
  show "pmm_ready ?q" "free_set ?q = free_set p1" by (rule q(1), rule q(2))
  have tab: "ref_tab ?q = (\<lambda>si c. if si = ?si \<and> c = ?c then (Some ?ch, u) else ref_tab p si c)"
    unfolding q(5) p1(4) by (intro ext) (simp split: if_split)
  show "extra_refs ?q f = v" "g \<noteq> f \<Longrightarrow> extra_refs ?q g = extra_refs p g"
    using extra_refs_update [OF tab] c(2) by auto
  have "nonzero_count (chunk_cnt ?ch) + of_bool (chunk_cnt ch (ref_offset f) \<noteq> 0)
      = nonzero_count (chunk_cnt ch) + 1"
    using card_nonzero_update [OF ref_offset_lt, of "chunk_cnt ch" f v] v by simp
  then have card: "nonzero_count (chunk_cnt ?ch)
      = (if chunk_cnt ch (ref_offset f) = 0 then unat (refs_used_of p1 f) + 1 else unat (refs_used_of p1 f))"
    using c(3) by (auto split: if_splits)
  have "nonzero_count (chunk_cnt ?ch) \<le> 4096" by (rule card_nonzero_le)
  then have uu: "unat u = nonzero_count (chunk_cnt ?ch)"
    unfolding card u by (auto simp: unat_word_ariths(1))
  have "0 < unat u" unfolding uu by (rule nonzero_count_pos [OF ref_offset_lt [of f]]) (simp add: v)
  then have "u \<noteq> 0" by auto
  with uu c(4,5) q(2,3) have okq: "chunk_ok ?q ?ch u" by (simp add: chunk_ok_def)
  show "ref_inv ?q"
  proof (rule ref_inv_update [OF inv _ _ tab okq])
    show "pmm_managed ?q = pmm_managed p" using q(3) p1(3) by simp
    show "free_set ?q \<subseteq> free_set p" using q(2) c(6) by simp
    show "chunk_frame ?ch = chunk_frame ch0" if "fst (ref_tab p ?si ?c) = Some ch0" for ch0
      using ok that by (simp add: slot_ok_def Let_def)
    show "chunk_frame ?ch \<in> free_set p" if "fst (ref_tab p ?si ?c) = None"
      using ok that by (simp add: slot_ok_def Let_def)
  qed
qed

lemma sticky_nonzero: "(if v \<noteq> PMM_REF_STICKY then v + 1 else v) \<noteq> 0"
proof -
  have "v + 1 = 0 \<longleftrightarrow> v = - 1" by (metis eq_neg_iff_add_eq_0)
  moreover have "(- 1 :: u8) = PMM_REF_STICKY" "PMM_REF_STICKY \<noteq> 0" by (simp_all add: PMM_REF_STICKY_def)
  ultimately show ?thesis by (simp split: if_split)
qed

lemma if_not_P2: "(if x \<noteq> k then y else x) = (if x = k then k else y)"
  by simp

lemma share_spec:
  assumes rp: "pmm_ready p" and inv: "ref_inv p" and e: "pmm_share_frame p addr = (p', ok)"
  defines "f \<equiv> unat (addr div 4096)"
  shows "pmm_ready p' \<and> ref_inv p' \<and> (\<not> ok \<longrightarrow> p' = p) \<and> free_set p' \<subseteq> free_set p
    \<and> (ok \<longrightarrow> extra_refs p' f = (if extra_refs p f = 255 then 255 else extra_refs p f + 1)
          \<and> (\<forall>g. g \<noteq> f \<longrightarrow> extra_refs p' g = extra_refs p g))"
proof -
  obtain p1 r where s: "ref_slot p f True = (p1, r)" by force
  note rc = ref_slot_cases [OF rp s]
  show ?thesis
  proof (cases r)
    case None
    with rc e s rp inv show ?thesis by (simp add: pmm_share_frame_def f_def [symmetric])
  next
    case (Some ch)
    with rc have ok1: "slot_ok p f p1 ch" by simp
    let ?v = "chunk_cnt ch (ref_offset f)"
    let ?w = "if ?v \<noteq> PMM_REF_STICKY then ?v + 1 else ?v"
    let ?u = "if ?v = 0 then refs_used_of p1 f + 1 else refs_used_of p1 f"
    have "pmm_share_frame p addr = (set_ref p1 f ch ?u ?w, True)"
      by (simp only: pmm_share_frame_def f_def [symmetric] s Some Let_def prod.case option.case)
    with e have p': "p' = set_ref p1 f ch ?u ?w" "ok" by (simp_all only: prod.inject)
    have nz: "?w \<noteq> 0" by (rule sticky_nonzero)
    have vex: "?v = extra_refs p f" by (rule slot_count(1) [OF inv rp ok1])
    note q = set_ref_slot [OF inv rp ok1 nz refl] and sub = slot_count(6) [OF inv rp ok1]
    have w: "?w = (if extra_refs p f = 255 then 255 else extra_refs p f + 1)"
      unfolding vex PMM_REF_STICKY_def by (rule if_not_P2)
    show ?thesis
      unfolding p'(1)
    proof (intro conjI impI allI)
      show "pmm_ready (set_ref p1 f ch ?u ?w)" by (rule q(1))
      show "ref_inv (set_ref p1 f ch ?u ?w)" by (rule q(2))
      show "free_set (set_ref p1 f ch ?u ?w) \<subseteq> free_set p" using q(5) sub by (simp only:)
      show "extra_refs (set_ref p1 f ch ?u ?w) f = (if extra_refs p f = 255 then 255 else extra_refs p f + 1)"
        by (rule trans [OF q(3) w])
      show "extra_refs (set_ref p1 f ch ?u ?w) g = extra_refs p g" if "g \<noteq> f" for g by (rule q(4) [OF that])
    qed (use p'(2) in simp)
  qed
qed

subsection \<open>Dropping a reference\<close>

lemma ref_inv_remove:
  assumes inv: "ref_inv p" and man: "pmm_managed q = pmm_managed p"
    and tab: "ref_tab q = (\<lambda>si c. if si = i \<and> c = d then (None, 0) else ref_tab p si c)"
    and old: "fst (ref_tab p i d) = Some ch" and fr: "free_set q = insert (chunk_frame ch) (free_set p)"
  shows "ref_inv q"
  unfolding ref_inv_def
proof (rule conjI, goal_cases)
  case 1
  show ?case
  proof (intro allI)
    fix si c
    show "case ref_tab q si c of (None, u) \<Rightarrow> u = 0 | (Some ch, u) \<Rightarrow> chunk_ok q ch u"
    proof (cases "si = i \<and> c = d")
      case True
      with tab show ?thesis by simp
    next
      case False
      then have e: "ref_tab q si c = ref_tab p si c" by (simp only: tab if_False)
      obtain r w where rw: "ref_tab p si c = (r, w)" by force
      show ?thesis
      proof (cases r)
        case None
        with ref_invD(1) [OF inv, of si c w] e rw show ?thesis by simp
      next
        case (Some c0)
        with rw have t: "ref_tab p si c = (Some c0, w)" by simp
        then have "chunk_frame c0 \<noteq> chunk_frame ch" using ref_invD(3) [OF inv _ old, of si c c0] False by auto
        moreover have "chunk_ok p c0 w" by (rule ref_invD(2) [OF inv t])
        ultimately have "chunk_ok q c0 w" using man fr by (auto simp: chunk_ok_def)
        with e t show ?thesis by simp
      qed
    qed
  qed
next
  case 2
  show ?case
  proof (intro allI impI, elim conjE)
    fix si c sj dd c0 c1
    assume t: "fst (ref_tab q si c) = Some c0" "fst (ref_tab q sj dd) = Some c1" "chunk_frame c0 = chunk_frame c1"
    have "fst (ref_tab p si c) = Some c0" using t(1) by (simp add: tab split: if_splits)
    moreover have "fst (ref_tab p sj dd) = Some c1" using t(2) by (simp add: tab split: if_splits)
    ultimately show "si = sj \<and> c = dd" using ref_invD(3) [OF inv] t(3) by metis
  qed
qed

lemma free_used_frame:
  assumes r: "pmm_ready p" and n: "n \<in> pmm_managed p" "n \<notin> free_set p" and s: "sec_of p n = Some s"
  defines "q \<equiv> (set_sec p (n div PMM_SECTION_FRAMES)
      (fst (sec_mark s (n mod PMM_SECTION_FRAMES) (n mod PMM_SECTION_FRAMES + 1) False)))\<lparr>g_free_frames := g_free_frames p + 1\<rparr>"
  shows "pmm_ready q" "free_set q = insert n (free_set p)" "ref_tab q = ref_tab p" "pmm_managed q = pmm_managed p"
proof -
  let ?F = PMM_SECTION_FRAMES
  let ?si = "n div ?F" and ?i = "n mod ?F"
  have si: "?si < g_nsec p" "g_sec p ! ?si = Some s" using sec_of_SomeD [OF s] by simp_all
  have hi: "?i + 1 \<le> ?F" using mod_less_divisor [OF F_pos, of n] by linarith
  have ex: "exact p" using r by (simp add: pmm_ready_def pmm_inv_def exact_def)
  have R: "{?si * ?F + ?i ..< ?si * ?F + (?i + 1)} = {n}" by auto
  have "unat (snd (sec_mark s ?i (?i + 1) False)) = card ({n} - free_set p)"
    using mark_sec_changed [OF si hi, of ?i False] unfolding R by simp
  also have "{n} - free_set p = {n}" using n(2) by blast
  finally have "snd (sec_mark s ?i (?i + 1) False) = 1" by (simp add: word_unat_eq_iff)
  then have q: "q = mark_sec p ?si s ?i (?i + 1) False"
    by (simp add: q_def mark_sec_def split_beta Let_def set_sec_def)
  note m = mark_sec_spec [OF ex si hi, of ?i False, folded q]
  show f: "free_set q = insert n (free_set p)"
    using mark_sec_free_set [OF si hi, of ?i False, folded q] unfolding R by simp
  have env: "same_env p q" using m(2) by (simp add: same_secs_def)
  show "ref_tab q = ref_tab p" by (rule ref_tab_env [OF env])
  show "pmm_managed q = pmm_managed p" using same_secs_None [OF m(2)] by (simp add: pmm_managed_def)
  have "0 \<notin> free_set q" using f n(1) r by (auto simp: pmm_managed_def pmm_ready_def pmm_inv_def)
  with m(1) env r show "pmm_ready q" by (simp add: pmm_ready_def pmm_inv_def exact_def same_env_def)
qed

lemma ref_chunk_put_effect:
  assumes r: "pmm_ready q" and s: "sec_of q f = Some s" and t: "ref_tab q (f div PMM_SECTION_FRAMES) (ref_chunk_no f) = (Some ch, u)"
    and man: "chunk_frame ch \<in> pmm_managed q" "chunk_frame ch \<notin> free_set q"
  defines "p' \<equiv> ref_chunk_put q (f div PMM_SECTION_FRAMES) (ref_chunk_no f)"
  shows "pmm_ready p' \<and> pmm_managed p' = pmm_managed q
    \<and> free_set p' = (if u - 1 = 0 then insert (chunk_frame ch) (free_set q) else free_set q)
    \<and> ref_tab p' = (\<lambda>si c. if si = f div PMM_SECTION_FRAMES \<and> c = ref_chunk_no f
         then (if u - 1 = 0 then (None, 0) else (Some ch, u - 1)) else ref_tab q si c)"
proof -
  let ?si = "f div PMM_SECTION_FRAMES" and ?c = "ref_chunk_no f"
  have si: "?si < g_nsec q" "g_sec q ! ?si = Some s" using sec_of_SomeD [OF s] by simp_all
  have su: "sec_refs s ?c = Some ch" "sec_refs_used s ?c = u" using t ref_tab_sec_of [OF s, of ?c] by simp_all
  have inv: "sec_inv s" using secs_ok_sec [OF _ si] r by (simp add: pmm_ready_def pmm_inv_def)
  define s1 where "s1 = s\<lparr>sec_refs_used := (sec_refs_used s)(?c := u - 1)\<rparr>"
  define p1 where "p1 = set_sec q ?si s1"
  have p1: "pmm_ready p1" "free_set p1 = free_set q" "pmm_managed p1 = pmm_managed q"
    unfolding p1_def using set_sec_refs [OF si r, of s1] inv by (simp_all add: s1_def)
  have tab1: "ref_tab p1 sj c = (if sj = ?si \<and> c = ?c then (Some ch, u - 1) else ref_tab q sj c)" for sj c
    using ref_tab_set_sec [OF si(1), of s1 sj c] ref_tab_sec_of [OF s, of c] su by (auto simp: p1_def s1_def)
  show ?thesis
  proof (cases "u - 1 = 0")
    case False
    then have "p' = p1" using si su by (simp add: p'_def ref_chunk_put_def s1_def p1_def Let_def)
    with False p1 tab1 show ?thesis by (simp add: fun_eq_iff)
  next
    case True
    define s2 where "s2 = s1\<lparr>sec_refs := (sec_refs s1)(?c := None)\<rparr>"
    define p2 where "p2 = (set_sec p1 ?si s2)\<lparr>g_ref_chunks := g_ref_chunks p1 - 1\<rparr>"
    have si1: "?si < g_nsec p1" "g_sec p1 ! ?si = Some s1" using si by (simp_all add: p1_def set_sec_def)
    have p2: "pmm_ready p2" "free_set p2 = free_set q" "pmm_managed p2 = pmm_managed q"
      using set_sec_refs [OF si1 p1(1), of s2] inv p1 by (simp_all add: p2_def s2_def s1_def)
    have tab2: "ref_tab p2 sj c = (if sj = ?si \<and> c = ?c then (None, 0) else ref_tab q sj c)" for sj c
      using ref_tab_set_sec [OF si1(1), of s2 sj c] tab1 [of sj c] ref_tab_sec_of [OF s, of c] su True
      by (auto simp: p2_def s2_def s1_def)
    define n where "n = chunk_frame ch"
    have n: "n \<in> pmm_managed p2" "n \<notin> free_set p2" using man p2 by (simp_all add: n_def)
    then obtain fs where fs: "sec_of p2 n = Some fs" by (auto simp: pmm_managed_def)
    note fin = free_used_frame [OF p2(1) n fs]
    have "p' = (set_sec p2 (n div PMM_SECTION_FRAMES)
      (fst (sec_mark fs (n mod PMM_SECTION_FRAMES) (n mod PMM_SECTION_FRAMES + 1) False)))\<lparr>g_free_frames := g_free_frames p2 + 1\<rparr>"
      using si su True fs
      by (simp add: p'_def ref_chunk_put_def s1_def [symmetric] p1_def [symmetric] s2_def [symmetric] p2_def [symmetric]
          Let_def n_def [symmetric] chunk_frame_def [symmetric] set_sec_def)
        (simp add: s1_def s2_def p1_def p2_def n_def chunk_frame_def set_sec_def)
    with fin p2 tab2 True show ?thesis by (simp add: fun_eq_iff n_def)
  qed
qed

lemma unref_last:
  assumes rp: "pmm_ready p" and inv: "ref_inv p" and t: "ref_tab p (f div PMM_SECTION_FRAMES) (ref_chunk_no f) = (Some ch, u)"
    and sec: "sec_of p f \<noteq> None" and one: "chunk_cnt ch (ref_offset f) = 1"
  defines "p' \<equiv> ref_chunk_put (set_ref p f ch u 0) (f div PMM_SECTION_FRAMES) (ref_chunk_no f)"
  shows "pmm_ready p' \<and> ref_inv p' \<and> extra_refs p' f = 0 \<and> (\<forall>g. g \<noteq> f \<longrightarrow> extra_refs p' g = extra_refs p g)"
proof -
  let ?si = "f div PMM_SECTION_FRAMES" and ?c = "ref_chunk_no f"
  let ?q = "set_ref p f ch u 0" and ?ch = "ch\<lparr>chunk_cnt := (chunk_cnt ch)(ref_offset f := 0)\<rparr>"
  note q = set_ref_effect [OF rp sec, of ch u 0]
  obtain s where s: "sec_of ?q f = Some s" using q(4) by blast
  have ok: "chunk_ok p ch u" by (rule ref_invD(2) [OF inv t])
  then have m: "chunk_frame ?ch \<in> pmm_managed ?q" "chunk_frame ?ch \<notin> free_set ?q"
    using q(2,3) by (simp_all add: chunk_ok_def)
  have "ref_tab ?q ?si ?c = (Some ?ch, u)" using q(5) by simp
  note e = ref_chunk_put_effect [OF q(1) s this m, folded p'_def]
  have tab: "ref_tab p' = (\<lambda>si c. if si = ?si \<and> c = ?c
      then (if u - 1 = 0 then (None, 0) else (Some ?ch, u - 1)) else ref_tab p si c)"
    using e q(5) by (intro ext) (simp split: if_split)
  have cnt: "nonzero_count (chunk_cnt ?ch) + 1 = unat u"
    using card_nonzero_update [OF ref_offset_lt, of "chunk_cnt ch" f 0] one ok by (simp add: chunk_ok_def)
  then have u1: "unat (u - 1) = nonzero_count (chunk_cnt ?ch)" using ok by (simp add: chunk_ok_def unat_minus_one)
  show ?thesis
  proof (cases "u - 1 = 0")
    case False
    then have tab': "ref_tab p' = (\<lambda>si c. if si = ?si \<and> c = ?c then (Some ?ch, u - 1) else ref_tab p si c)"
      using tab by (simp only: if_False)
    have x: "extra_refs p' f = 0" "g \<noteq> f \<Longrightarrow> extra_refs p' g = extra_refs p g" for g
      using extra_refs_update [OF tab'] t by simp_all
    have ok': "chunk_ok p' ?ch (u - 1)" using False u1 e m q by (simp add: chunk_ok_def)
    have "ref_inv p'"
      by (rule ref_inv_update [OF inv _ _ tab' ok']) (use e q False t in simp_all)
    with e x show ?thesis by simp
  next
    case True
    then have tab': "ref_tab p' = (\<lambda>si c. if si = ?si \<and> c = ?c then (None, 0) else ref_tab p si c)"
      using tab by (simp only: if_True simp_thms)
    have "ref_inv p'"
      by (rule ref_inv_remove [OF inv _ tab', of ch]) (use e q True t in simp_all)
    moreover have "extra_refs p' f = 0" by (simp add: extra_refs_def tab')
    moreover have "extra_refs p' g = extra_refs p g" if g: "g \<noteq> f" for g
    proof (cases "g div PMM_SECTION_FRAMES = ?si \<and> ref_chunk_no g = ?c")
      case same: True
      have "nonzero_count (chunk_cnt ?ch) = 0" using True u1 by simp
      then have "chunk_cnt ?ch (ref_offset g) = 0" using nonzero_count_pos [OF ref_offset_lt [of g], of "chunk_cnt ?ch"] by force
      moreover have "ref_offset g \<noteq> ref_offset f" using frame_ref_inj [of g f] same g by blast
      ultimately have "chunk_cnt ch (ref_offset g) = 0" by simp
      with same t show ?thesis by (simp add: extra_refs_def tab')
    next
      case False
      then show ?thesis by (simp only: extra_refs_def tab' if_False)
    qed
    ultimately show ?thesis using e by simp
  qed
qed

lemma unref_spec:
  assumes rp: "pmm_ready p" and inv: "ref_inv p" and e: "pmm_unref_frame p addr = (p', still)"
  defines "f \<equiv> unat (addr div 4096)"
  shows "pmm_ready p' \<and> ref_inv p' \<and> (still \<longleftrightarrow> extra_refs p f \<noteq> 0)
    \<and> extra_refs p' f = (if extra_refs p f = 0 \<or> extra_refs p f = 255 then extra_refs p f else extra_refs p f - 1)
    \<and> (\<forall>g. g \<noteq> f \<longrightarrow> extra_refs p' g = extra_refs p g)"
proof -
  obtain p1 r where s: "ref_slot p f False = (p1, r)" by force
  note rc = ref_slot_cases [OF rp s]
  show ?thesis
  proof (cases r)
    case None
    with rc e s have "p' = p" "\<not> still" "extra_refs p f = 0"
      by (simp_all add: pmm_unref_frame_def f_def [symmetric] extra_refs_def)
    with rp inv show ?thesis by simp
  next
    case (Some ch)
    with rc have p1: "p1 = p" by simp
    with rc Some have ok1: "slot_ok p f p ch" by simp
    let ?v = "chunk_cnt ch (ref_offset f)"
    have vex: "?v = extra_refs p f" by (rule slot_count(1) [OF inv rp ok1])
    have e1: "pmm_unref_frame p addr = (if ?v > 0
        then (if ?v \<noteq> PMM_REF_STICKY
              then if ?v - 1 = 0 then ref_chunk_put (set_ref p f ch (refs_used_of p f) (?v - 1)) (f div PMM_SECTION_FRAMES) (ref_chunk_no f)
                   else set_ref p f ch (refs_used_of p f) (?v - 1)
              else p, True)
        else (p, False))"
      by (simp only: pmm_unref_frame_def f_def [symmetric] s Some p1 Let_def prod.case option.case)
    consider (zero) "?v = 0" | (sticky) "?v = 255" | (last) "?v = 1" | (more) "?v \<noteq> 0" "?v \<noteq> 255" "?v \<noteq> 1" by blast
    then show ?thesis
    proof cases
      case zero
      with e e1 vex rp inv show ?thesis by auto
    next
      case sticky
      then have "pmm_unref_frame p addr = (p, True)" by (simp add: e1 PMM_REF_STICKY_def)
      with e sticky vex rp inv show ?thesis by auto
    next
      case last
      have sec: "sec_of p f \<noteq> None" using ok1 by (simp add: slot_ok_def Let_def)
      obtain u where t: "ref_tab p (f div PMM_SECTION_FRAMES) (ref_chunk_no f) = (Some ch, u)"
        using rc Some by (cases "ref_tab p (f div PMM_SECTION_FRAMES) (ref_chunk_no f)") auto
      have "refs_used_of p f = u" using refs_used_of_tab [OF sec] t by simp
      then have "pmm_unref_frame p addr
          = (ref_chunk_put (set_ref p f ch u 0) (f div PMM_SECTION_FRAMES) (ref_chunk_no f), True)"
        using last by (simp add: e1 PMM_REF_STICKY_def)
      with e have "p' = ref_chunk_put (set_ref p f ch u 0) (f div PMM_SECTION_FRAMES) (ref_chunk_no f)" "still" by simp_all
      with unref_last [OF rp inv t sec last] vex last show ?thesis by simp
    next
      case more
      then have nz: "?v - 1 \<noteq> 0" by simp
      have "pmm_unref_frame p addr = (set_ref p f ch (refs_used_of p f) (?v - 1), True)"
        using more nz by (simp add: e1 PMM_REF_STICKY_def word_gt_0)
      with e have p': "p' = set_ref p f ch (refs_used_of p f) (?v - 1)" "still" by simp_all
      have "refs_used_of p f = (if ?v = 0 then refs_used_of p f + 1 else refs_used_of p f)" using more by simp
      note q = set_ref_slot [OF inv rp ok1 nz this]
      from q p' vex more show ?thesis by simp
    qed
  qed
qed

subsection \<open>Refinement to saturating counters\<close>

text \<open>
  The abstract view of the tables is one counter per frame: 0 means a single owner, 255 is
  sticky.  Both operations refine a step on that view.
\<close>

definition sat_inc :: "u8 \<Rightarrow> u8" where
  "sat_inc v = (if v = 255 then 255 else v + 1)"

definition sat_dec :: "u8 \<Rightarrow> u8" where
  "sat_dec v = (if v = 0 \<or> v = 255 then v else v - 1)"

lemma two_frames_refs: "ref_inv two_frames" "extra_refs two_frames = (\<lambda>f. 0)"
proof -
  let ?p = "boot_pmm\<lparr>g_sec := [Some sec_init], g_sectioned := True\<rparr>"
  have si: "0 < g_nsec ?p" "g_sec ?p ! 0 = Some sec_init" by simp_all
  have "sec_refs (fst (sec_mark sec_init 64 66 False)) = sec_refs sec_init"
    "sec_refs_used (fst (sec_mark sec_init 64 66 False)) = sec_refs_used sec_init"
    using sec_mark_frame [of sec_init 64 66 False] by simp_all
  then have t: "ref_tab two_frames = (\<lambda>si c. (None, 0))"
    by (intro ext) (simp add: ref_tab_def two_frames_def mark_sec_def split_beta Let_def set_sec_def sec_init_def)
  then show "ref_inv two_frames" by (simp add: ref_inv_def)
  from t show "extra_refs two_frames = (\<lambda>f. 0)" by (intro ext) (simp add: extra_refs_def)
qed

text \<open>
  C20. Sharing a frame keeps the allocator and its reference tables consistent and is a
  saturating increment of that frame's counter alone; when no frame is left for a new table
  chunk it reports failure and changes nothing.
\<close>

theorem share_refines:
  assumes "pmm_ready p" "ref_inv p"
  shows "case pmm_share_frame p addr of (p', ok) \<Rightarrow>
      pmm_ready p' \<and> ref_inv p'
      \<and> (if ok then extra_refs p' = (extra_refs p)(unat (addr div 4096) := sat_inc (extra_refs p (unat (addr div 4096))))
         else p' = p)"
proof (cases "pmm_share_frame p addr")
  case (Pair p' ok)
  note s = share_spec [OF assms Pair]
  have "extra_refs p' = (extra_refs p)(unat (addr div 4096) := sat_inc (extra_refs p (unat (addr div 4096))))" if ok
    using s that by (auto simp: sat_inc_def)
  with s Pair show ?thesis by auto
qed

theorem share_refines_witness:
  "pmm_ready two_frames \<and> ref_inv two_frames \<and> (case pmm_share_frame two_frames 0x40000 of (p', ok) \<Rightarrow>
      pmm_ready p' \<and> ref_inv p' \<and> (if ok then extra_refs p' = (\<lambda>f. 0)(64 := 1) else p' = two_frames))"
  using share_refines [OF two_frames_ready two_frames_refs(1), of "0x40000"] two_frames_ready two_frames_refs
  by (simp add: sat_inc_def split_beta)

text \<open>Dropping a reference is a saturating decrement of that frame's counter alone, its
  result says whether another owner remains, and a table chunk whose last counter drops to
  zero is returned to the allocator with both invariants kept.
\<close>

theorem unref_refines:
  assumes "pmm_ready p" "ref_inv p"
  shows "case pmm_unref_frame p addr of (p', still) \<Rightarrow>
      pmm_ready p' \<and> ref_inv p' \<and> (still \<longleftrightarrow> extra_refs p (unat (addr div 4096)) \<noteq> 0)
      \<and> extra_refs p' = (extra_refs p)(unat (addr div 4096) := sat_dec (extra_refs p (unat (addr div 4096))))"
proof (cases "pmm_unref_frame p addr")
  case (Pair p' still)
  note s = unref_spec [OF assms Pair]
  then have "extra_refs p' = (extra_refs p)(unat (addr div 4096) := sat_dec (extra_refs p (unat (addr div 4096))))"
    by (intro ext) (auto simp: sat_dec_def)
  with s Pair show ?thesis by simp
qed

end
