(* ===== verification/Arrays.thy ===== *)
theory Arrays
  imports Prelude
begin

text \<open>
  Shared vocabulary for the tables and buffers of the kernel: the first slot of a table that
  satisfies a test (the \<^verbatim>\<open>for\<close> loops with an early \<^verbatim>\<open>return\<close>),
  and ring buffers addressed modulo their size.  The locale \<^verbatim>\<open>byte_stream\<close> is
  the contract of every byte queue: what is written comes out once, in order.
\<close>

subsection \<open>First matching slot\<close>

fun find_index :: "('a \<Rightarrow> bool) \<Rightarrow> 'a list \<Rightarrow> nat option" where
  "find_index P [] = None"
| "find_index P (x # xs) = (if P x then Some 0 else map_option Suc (find_index P xs))"

lemma find_index_Some:
  "find_index P xs = Some i \<longleftrightarrow> i < length xs \<and> P (xs ! i) \<and> (\<forall>j < i. \<not> P (xs ! j))"
proof (induction xs arbitrary: i)
  case (Cons x xs)
  have all: "(\<forall>j < Suc n. \<not> P ((x # xs) ! j)) \<longleftrightarrow> \<not> P x \<and> (\<forall>j < n. \<not> P (xs ! j))" for n
    by (auto simp: less_Suc_eq_0_disj)
  show ?case using Cons.IH by (cases i) (auto simp: all)
qed simp

lemma find_index_SomeD:
  assumes "find_index P xs = Some i"
  shows "i < length xs" "P (xs ! i)" "j < i \<Longrightarrow> \<not> P (xs ! j)"
  using assms by (simp_all add: find_index_Some)

lemma find_index_None: "find_index P xs = None \<longleftrightarrow> (\<forall>x \<in> set xs. \<not> P x)"
  by (induction xs) auto

lemma find_index_unique:
  assumes "i < length xs" "P (xs ! i)" and "\<And>j. j < length xs \<Longrightarrow> P (xs ! j) \<Longrightarrow> j = i"
  shows "find_index P xs = Some i"
proof -
  have "\<not> P (xs ! j)" if "j < i" for j using assms(3) [of j] assms(1) that by linarith
  with assms(1,2) show ?thesis by (simp add: find_index_Some)
qed

subsection \<open>Flag words\<close>

lemma bit_flag: "bit (push_bit k (1 :: 'a :: len word)) n \<longleftrightarrow> k < LENGTH('a) \<and> n = k"
  by (simp only: bit_push_bit_iff bit_1_iff) auto

lemma word_nonzero_bit: "w \<noteq> 0 \<longleftrightarrow> (\<exists>n. bit w n)" for w :: "'a :: len word"
  by (auto simp: bit_eq_iff dest: bit_imp_le_length)

lemma and_push_bit: "w AND push_bit i 1 \<noteq> 0 \<longleftrightarrow> bit w i" for w :: "'a :: len word"
  by (simp only: word_nonzero_bit bit_and_iff bit_flag) (auto dest: bit_imp_le_length)

lemma unat_of_nat64: "n < 2 ^ 64 \<Longrightarrow> unat (of_nat n :: u64) = n"
  by (simp add: unat_of_nat take_bit_nat_eq_self)

lemma unat_mod64: "n < 2 ^ 64 \<Longrightarrow> unat ((of_nat n :: u64) mod 64) = n mod 64"
  by (simp add: unat_mod unat_of_nat64)

subsection \<open>Ring buffers\<close>

text \<open>The contents of a ring, oldest first, and a store of consecutive elements into it.\<close>

definition ring_list :: "nat \<Rightarrow> (nat \<Rightarrow> 'a) \<Rightarrow> nat \<Rightarrow> nat \<Rightarrow> 'a list" where
  "ring_list N b h n = map (\<lambda>i. b ((h + i) mod N)) [0 ..< n]"

fun ring_store :: "nat \<Rightarrow> (nat \<Rightarrow> 'a) \<Rightarrow> nat \<Rightarrow> 'a list \<Rightarrow> (nat \<Rightarrow> 'a)" where
  "ring_store N b t [] = b"
| "ring_store N b t (x # xs) = ring_store N (b(t mod N := x)) (t + 1) xs"

lemma length_ring_list [simp]: "length (ring_list N b h n) = n"
  by (simp add: ring_list_def)

lemma ring_list_0 [simp]: "ring_list N b h 0 = []"
  by (simp add: ring_list_def)

lemma ring_list_nth: "i < n \<Longrightarrow> ring_list N b h n ! i = b ((h + i) mod N)"
  by (simp add: ring_list_def)

lemma ring_list_mod: "ring_list N b (h mod N) n = ring_list N b h n"
  by (simp add: ring_list_def mod_add_left_eq)

lemma ring_list_split:
  assumes "k \<le> n"
  shows "ring_list N b h n = ring_list N b h k @ ring_list N b ((h + k) mod N) (n - k)"
proof -
  have "ring_list N b h n = ring_list N b h k @ ring_list N b (h + k) (n - k)"
    using assms by (intro nth_equalityI) (auto simp: nth_append ring_list_nth)
  then show ?thesis by (simp only: ring_list_mod)
qed

lemma ring_list_snoc: "ring_list N b h (Suc n) = ring_list N b h n @ [b ((h + n) mod N)]"
  by (simp add: ring_list_def)

lemma mod_add_inj_le:
  fixes N :: nat
  assumes "i \<le> j" "j < N" "(h + j) mod N = (h + i) mod N"
  shows "j - i = 0"
proof -
  have "N dvd h + j - (h + i)" using assms(1,3) by (subst mod_eq_dvd_iff_nat [symmetric]) simp_all
  then have "N dvd j - i" by simp
  then show ?thesis using assms(2) dvd_imp_le [of N "j - i"] by linarith
qed

lemma mod_add_inj:
  fixes N :: nat
  assumes "i < N" "j < N" "(h + i) mod N = (h + j) mod N"
  shows "i = j"
proof (cases "i \<le> j")
  case True
  with mod_add_inj_le [OF True assms(2) assms(3) [symmetric]] show ?thesis by simp
next
  case False
  with mod_add_inj_le [OF _ assms(1) assms(3)] show ?thesis by simp
qed

lemma mod_window_inj:
  fixes N :: nat
  assumes "i < j" "j < i + N"
  shows "i mod N \<noteq> j mod N"
proof
  assume "i mod N = j mod N"
  then have "N dvd j - i" using assms(1) by (subst mod_eq_dvd_iff_nat [symmetric]) simp_all
  then show False using assms dvd_imp_le [of N "j - i"] by linarith
qed

lemma ring_list_put:
  assumes "n < N"
  shows "ring_list N (b((h + n) mod N := x)) h (Suc n) = ring_list N b h n @ [x]"
proof -
  have "(h + i) mod N \<noteq> (h + n) mod N" if "i < n" for i
    using mod_add_inj [of i N n h] that assms by auto
  then have "ring_list N (b((h + n) mod N := x)) h n = ring_list N b h n"
    by (intro nth_equalityI) (auto simp: ring_list_nth)
  then show ?thesis by (simp add: ring_list_snoc)
qed

lemma ring_store_list:
  assumes "n + length xs \<le> N"
  shows "ring_list N (ring_store N b (h + n) xs) h (n + length xs) = ring_list N b h n @ xs"
  using assms
proof (induction xs arbitrary: b n)
  case (Cons x xs)
  have "ring_list N (ring_store N (b((h + n) mod N := x)) (h + Suc n) xs) h (Suc n + length xs)
    = ring_list N (b((h + n) mod N := x)) h (Suc n) @ xs"
    using Cons.prems by (intro Cons.IH) simp
  also have "\<dots> = ring_list N b h n @ x # xs"
    using Cons.prems by (simp add: ring_list_put)
  finally show ?case by simp
qed simp

lemma ring_store_mod: "ring_store N b (t mod N) xs = ring_store N b t xs"
proof (induction xs arbitrary: b t)
  case (Cons x xs)
  have "ring_store N c (t mod N + 1) xs = ring_store N c (t + 1) xs" for c
    by (subst (1 2) Cons.IH [symmetric]) (simp only: mod_add_left_eq)
  then show ?case by simp
qed simp

subsection \<open>The contract of a byte queue\<close>

locale byte_stream =
  fixes inv :: "'s \<Rightarrow> bool"
    and content :: "'s \<Rightarrow> 'b list"
    and push :: "'s \<Rightarrow> 'b list \<Rightarrow> 's \<times> nat"
    and pull :: "'s \<Rightarrow> nat \<Rightarrow> 's \<times> 'b list"
  assumes push_law: "inv s \<Longrightarrow> push s xs = (s', n) \<Longrightarrow>
      inv s' \<and> n \<le> length xs \<and> content s' = content s @ take n xs"
    and pull_law: "inv s \<Longrightarrow> pull s k = (s', ys) \<Longrightarrow>
      inv s' \<and> length ys \<le> k \<and> content s = ys @ content s'"
begin

text \<open>Any interleaving of writers and readers, with all bytes accepted and all bytes delivered.\<close>

inductive stream_run :: "'s \<Rightarrow> 'b list \<Rightarrow> 'b list \<Rightarrow> 's \<Rightarrow> bool" where
  run_start: "stream_run s [] [] s"
| run_push: "stream_run s w r s1 \<Longrightarrow> push s1 xs = (s2, n) \<Longrightarrow> stream_run s (w @ take n xs) r s2"
| run_pull: "stream_run s w r s1 \<Longrightarrow> pull s1 k = (s2, ys) \<Longrightarrow> stream_run s w (r @ ys) s2"

theorem stream_fifo:
  assumes "stream_run s w r s'" "inv s"
  shows "inv s' \<and> content s @ w = r @ content s'"
  using assms
proof (induction rule: stream_run.induct)
  case (run_push s w r s1 xs s2 n)
  then have "inv s1" and eq: "content s @ w = r @ content s1" by simp_all
  with push_law [OF this(1) run_push.hyps(2)] show ?case
    by (simp add: append_assoc [symmetric] eq del: append_assoc)
next
  case (run_pull s w r s1 k s2 ys)
  then have "inv s1" and eq: "content s @ w = r @ content s1" by simp_all
  with pull_law [OF this(1) run_pull.hyps(2)] show ?case by simp
qed simp

end

subsection \<open>Words in memory\<close>

text \<open>The eight bytes of a word, lowest first, and the word that some bytes store.\<close>

definition le64 :: "u64 \<Rightarrow> u8 list" where
  "le64 w = map (\<lambda>k. ucast (drop_bit (8 * k) w)) [0 ..< 8]"

definition of_le64 :: "u8 list \<Rightarrow> u64" where
  "of_le64 bs = foldr (\<lambda>b acc. ucast b OR push_bit 8 acc) bs 0"

lemma le_fold:
  fixes w :: "'a :: len word"
  shows "foldr (\<lambda>b acc. ucast b OR push_bit 8 acc) (map (\<lambda>k. ucast (drop_bit (8 * k) w) :: u8) [j ..< j + n]) 0
    = take_bit (8 * n) (drop_bit (8 * j) w)"
proof (induction n arbitrary: j)
  case (Suc n)
  have "[j ..< j + Suc n] = j # [Suc j ..< Suc j + n]" by (simp add: upt_conv_Cons)
  then have "foldr (\<lambda>b acc. ucast b OR push_bit 8 acc) (map (\<lambda>k. ucast (drop_bit (8 * k) w) :: u8) [j ..< j + Suc n]) 0
      = ucast (ucast (drop_bit (8 * j) w) :: u8) OR push_bit 8 (take_bit (8 * n) (drop_bit (8 * Suc j) w))"
    using Suc [of "Suc j"] by simp
  also have "\<dots> = take_bit (8 * Suc n) (drop_bit (8 * j) w)"
    by (rule bit_word_eqI)
      (auto simp: bit_or_iff bit_push_bit_iff bit_take_bit_iff bit_drop_bit_eq bit_ucast_iff add.commute algebra_simps)
  finally show ?case .
qed simp

lemma of_le64_le64: "of_le64 (le64 w) = w"
  using le_fold [of w 0 8] by (simp add: of_le64_def le64_def take_bit_word_eq_self)

lemma length_le64 [simp]: "length (le64 w) = 8"
  by (simp add: le64_def)

end
