(* ===== verification/Pipe.thy ===== *)
theory Pipe
  imports Arrays
begin

text \<open>
  Anonymous pipes (kernel/pipe.c): a static pool of 64 rings of 4096 bytes with a count of
  readers and writers.  A \<^verbatim>\<open>pipe_t*\<close> is the index of its slot, \<^const>\<open>None\<close>
  being NULL.  The ring indices are natural numbers: the invariant keeps them below the ring
  size, so the 32-bit sums of the code do not wrap.  The calls that leave the component, the
  scheduler's wake-up and the posting of SIGPIPE, are recorded in order in
  \<^verbatim>\<open>pipe_calls\<close>.
\<close>

definition PIPE_SIZE :: nat where
  "PIPE_SIZE = 4096"

definition PIPE_MAX :: nat where
  "PIPE_MAX = 64"

record pipe =
  pipe_used :: bool
  pipe_buf :: "nat \<Rightarrow> u8"
  pipe_head :: nat
  pipe_len :: nat
  pipe_readers :: int
  pipe_writers :: int

datatype pipe_call = Wake_pipe nat | Post_SIGPIPE

record pipes =
  g_pipes :: "pipe list"
  pipe_calls :: "pipe_call list"

definition set_pipe :: "pipes \<Rightarrow> nat \<Rightarrow> pipe \<Rightarrow> pipes" where
  "set_pipe s i p = s\<lparr>g_pipes := (g_pipes s)[i := p]\<rparr>"

definition sched_wake_pipe :: "pipes \<Rightarrow> nat \<Rightarrow> pipes" where
  "sched_wake_pipe s i = s\<lparr>pipe_calls := pipe_calls s @ [Wake_pipe i]\<rparr>"

definition pipe_alloc :: "pipes \<Rightarrow> pipes \<times> nat option" where
  "pipe_alloc s = (case find_index (\<lambda>p. \<not> pipe_used p) (g_pipes s) of
     None \<Rightarrow> (s, None)
   | Some i \<Rightarrow> (set_pipe s i ((g_pipes s ! i)\<lparr>pipe_used := True, pipe_head := 0, pipe_len := 0,
        pipe_readers := 1, pipe_writers := 1\<rparr>), Some i))"

text \<open>The result carries the bytes stored in the caller's buffer.\<close>

definition pipe_read :: "pipes \<Rightarrow> nat option \<Rightarrow> int \<Rightarrow> pipes \<times> int \<times> u8 list" where
  "pipe_read s ptr len = (case ptr of
     None \<Rightarrow> (s, -1, [])
   | Some i \<Rightarrow>
       if len \<le> 0 then (s, -1, [])
       else let p = g_pipes s ! i in
         if pipe_len p = 0 then (s, if pipe_writers p = 0 then 0 else -2, [])
         else let n = min (nat len) (pipe_len p);
                  d = map (\<lambda>k. pipe_buf p ((pipe_head p + k) mod PIPE_SIZE)) [0 ..< n];
                  p' = p\<lparr>pipe_head := (pipe_head p + n) mod PIPE_SIZE, pipe_len := pipe_len p - n\<rparr>
              in (sched_wake_pipe (set_pipe s i p') i, int n, d))"

definition pipe_write_mode :: "pipes \<Rightarrow> nat option \<Rightarrow> u8 list \<Rightarrow> bool \<Rightarrow> pipes \<times> int" where
  "pipe_write_mode s ptr src atomic = (case ptr of
     None \<Rightarrow> (s, -1)
   | Some i \<Rightarrow>
       if length src = 0 then (s, -1)
       else let p = g_pipes s ! i in
         if pipe_readers p = 0 then (s\<lparr>pipe_calls := pipe_calls s @ [Post_SIGPIPE]\<rparr>, -1)
         else let space = PIPE_SIZE - pipe_len p in
           if space = 0 \<or> atomic \<and> space < length src then (s, -2)
           else let n = min (length src) space;
                    tail = (pipe_head p + pipe_len p) mod PIPE_SIZE;
                    p' = p\<lparr>pipe_buf := ring_store PIPE_SIZE (pipe_buf p) tail (take n src),
                           pipe_len := pipe_len p + n\<rparr>
                in (sched_wake_pipe (set_pipe s i p') i, int n))"

definition pipe_write :: "pipes \<Rightarrow> nat option \<Rightarrow> u8 list \<Rightarrow> pipes \<times> int" where
  "pipe_write s ptr src = pipe_write_mode s ptr src (length src \<le> PIPE_SIZE)"

definition pipe_write_some :: "pipes \<Rightarrow> nat option \<Rightarrow> u8 list \<Rightarrow> pipes \<times> int" where
  "pipe_write_some s ptr src = pipe_write_mode s ptr src False"

definition pipe_ref :: "pipes \<Rightarrow> nat option \<Rightarrow> bool \<Rightarrow> pipes" where
  "pipe_ref s ptr writer = (case ptr of
     None \<Rightarrow> s
   | Some i \<Rightarrow> let p = g_pipes s ! i in
       set_pipe s i (if writer then p\<lparr>pipe_writers := pipe_writers p + 1\<rparr>
                     else p\<lparr>pipe_readers := pipe_readers p + 1\<rparr>))"

definition pipe_unref :: "pipes \<Rightarrow> nat option \<Rightarrow> bool \<Rightarrow> pipes" where
  "pipe_unref s ptr writer = (case ptr of
     None \<Rightarrow> s
   | Some i \<Rightarrow>
       let p = g_pipes s ! i;
           p1 = (if writer then (if pipe_writers p > 0 then p\<lparr>pipe_writers := pipe_writers p - 1\<rparr> else p)
                 else (if pipe_readers p > 0 then p\<lparr>pipe_readers := pipe_readers p - 1\<rparr> else p));
           p2 = (if pipe_readers p1 = 0 \<and> pipe_writers p1 = 0 then p1\<lparr>pipe_used := False\<rparr> else p1)
       in sched_wake_pipe (set_pipe s i p2) i)"

definition pipe_poll :: "pipes \<Rightarrow> nat option \<Rightarrow> bool \<Rightarrow> u32" where
  "pipe_poll s ptr writer = (case ptr of
     None \<Rightarrow> 0x20
   | Some i \<Rightarrow>
       let p = g_pipes s ! i in
       if writer then
         (if pipe_readers p = 0 then 0x08 else if pipe_len p < PIPE_SIZE then 0x04 else 0)
       else
         (if pipe_len p > 0 then 0x01 else 0) OR (if pipe_writers p = 0 then 0x01 OR 0x10 else 0))"

subsection \<open>Invariant and contents\<close>

definition pipe_ok :: "pipe \<Rightarrow> bool" where
  "pipe_ok p \<longleftrightarrow> pipe_head p < PIPE_SIZE \<and> pipe_len p \<le> PIPE_SIZE \<and> 0 \<le> pipe_readers p \<and> 0 \<le> pipe_writers p
     \<and> (pipe_used p \<longleftrightarrow> pipe_readers p > 0 \<or> pipe_writers p > 0)"

definition pipes_ok :: "pipes \<Rightarrow> bool" where
  "pipes_ok s \<longleftrightarrow> length (g_pipes s) = PIPE_MAX \<and> (\<forall>p \<in> set (g_pipes s). pipe_ok p)"

definition pipe_bytes :: "pipes \<Rightarrow> nat \<Rightarrow> u8 list" where
  "pipe_bytes s i = (let p = g_pipes s ! i in ring_list PIPE_SIZE (pipe_buf p) (pipe_head p) (pipe_len p))"

definition pipe_live :: "pipes \<Rightarrow> nat \<Rightarrow> bool" where
  "pipe_live s i \<longleftrightarrow> i < PIPE_MAX \<and> pipe_used (g_pipes s ! i)"

lemma PIPE_SIZE_pos [simp]: "0 < PIPE_SIZE"
  by (simp add: PIPE_SIZE_def)

lemma pipes_okD: "pipes_ok s \<Longrightarrow> i < PIPE_MAX \<Longrightarrow> pipe_ok (g_pipes s ! i)"
  by (simp add: pipes_ok_def)

lemma set_pipe_ok: "pipes_ok s \<Longrightarrow> pipe_ok p \<Longrightarrow> pipes_ok (set_pipe s i p)"
  by (auto simp: pipes_ok_def set_pipe_def dest!: set_update_subset_insert [THEN subsetD])

lemma set_pipe_nth:
  "pipes_ok s \<Longrightarrow> i < PIPE_MAX \<Longrightarrow> g_pipes (set_pipe s i p) ! j = (if j = i then p else g_pipes s ! j)"
  by (simp add: set_pipe_def pipes_ok_def)

lemma wake_simps [simp]:
  "g_pipes (sched_wake_pipe s i) = g_pipes s" "pipes_ok (sched_wake_pipe s i) = pipes_ok s"
  "pipe_bytes (sched_wake_pipe s i) = pipe_bytes s"
  by (simp_all add: sched_wake_pipe_def pipes_ok_def pipe_bytes_def fun_eq_iff)

lemma pipe_bytes_set:
  "pipes_ok s \<Longrightarrow> i < PIPE_MAX \<Longrightarrow> pipe_bytes (set_pipe s i p) j =
     (if j = i then ring_list PIPE_SIZE (pipe_buf p) (pipe_head p) (pipe_len p) else pipe_bytes s j)"
  by (simp add: pipe_bytes_def set_pipe_nth)

subsection \<open>Reads and writes as list operations\<close>

lemma pipe_read_spec:
  assumes ok: "pipes_ok s" and i: "i < PIPE_MAX" and r: "pipe_read s (Some i) len = (s', r, d)"
  shows "pipes_ok s' \<and> pipe_bytes s i = d @ pipe_bytes s' i \<and> length d \<le> nat len
    \<and> (\<forall>j. j \<noteq> i \<longrightarrow> pipe_bytes s' j = pipe_bytes s j)
    \<and> r = (if len \<le> 0 then -1 else if pipe_bytes s i = [] then (if pipe_writers (g_pipes s ! i) = 0 then 0 else -2)
           else int (min (nat len) (length (pipe_bytes s i))))
    \<and> (0 < r \<longrightarrow> length d = nat r)"
proof -
  let ?p = "g_pipes s ! i"
  have p: "pipe_ok ?p" using ok i by (rule pipes_okD)
  have l: "length (pipe_bytes s i) = pipe_len ?p" by (simp add: pipe_bytes_def Let_def)
  show ?thesis
  proof (cases "len \<le> 0 \<or> pipe_len ?p = 0")
    case True
    with r ok l show ?thesis by (auto simp: pipe_read_def Let_def pipe_bytes_def split: if_splits)
  next
    case False
    define n where "n = min (nat len) (pipe_len ?p)"
    define p' where "p' = ?p\<lparr>pipe_head := (pipe_head ?p + n) mod PIPE_SIZE, pipe_len := pipe_len ?p - n\<rparr>"
    have e: "s' = sched_wake_pipe (set_pipe s i p') i" "r = int n" "d = ring_list PIPE_SIZE (pipe_buf ?p) (pipe_head ?p) n"
      using r False by (auto simp: pipe_read_def Let_def n_def p'_def ring_list_def)
    have p': "pipe_ok p'" using p by (auto simp: pipe_ok_def p'_def)
    have ne: "pipe_bytes s i \<noteq> []" using l False by force
    have "pipe_bytes s i = d @ pipe_bytes s' i"
      using ring_list_split [of n "pipe_len ?p" PIPE_SIZE "pipe_buf ?p" "pipe_head ?p"]
      by (simp add: e pipe_bytes_set [OF ok i] p'_def n_def) (simp add: pipe_bytes_def Let_def)
    moreover have "pipes_ok s'" "\<forall>j. j \<noteq> i \<longrightarrow> pipe_bytes s' j = pipe_bytes s j"
      using p' ok i by (simp_all add: e set_pipe_ok pipe_bytes_set)
    moreover have "length d = n" by (simp add: e)
    ultimately show ?thesis using False ne l e(2) by (auto simp: n_def)
  qed
qed

lemma pipe_write_mode_spec:
  assumes ok: "pipes_ok s" and i: "i < PIPE_MAX" and w: "pipe_write_mode s (Some i) src atomic = (s', r)"
  defines "space \<equiv> PIPE_SIZE - length (pipe_bytes s i)"
  shows "pipes_ok s' \<and> pipe_bytes s' i = pipe_bytes s i @ take (nat r) src
    \<and> (\<forall>j. j \<noteq> i \<longrightarrow> pipe_bytes s' j = pipe_bytes s j)
    \<and> r = (if src = [] \<or> pipe_readers (g_pipes s ! i) = 0 then -1
           else if space = 0 \<or> atomic \<and> space < length src then -2
           else int (min (length src) space))"
proof -
  let ?p = "g_pipes s ! i"
  have p: "pipe_ok ?p" using ok i by (rule pipes_okD)
  have l: "space = PIPE_SIZE - pipe_len ?p" by (simp add: pipe_bytes_def Let_def space_def)
  show ?thesis
  proof (cases "src = [] \<or> pipe_readers ?p = 0 \<or> space = 0 \<or> atomic \<and> space < length src")
    case True
    then have "s' = s \<or> s' = s\<lparr>pipe_calls := pipe_calls s @ [Post_SIGPIPE]\<rparr>" "r < 0"
      "r = (if src = [] \<or> pipe_readers ?p = 0 then -1 else -2)"
      using w by (auto simp: pipe_write_mode_def Let_def l split: if_splits)
    with True ok show ?thesis by (auto simp: pipes_ok_def pipe_bytes_def)
  next
    case False
    define n where "n = min (length src) space"
    define p' where "p' = ?p\<lparr>pipe_buf := ring_store PIPE_SIZE (pipe_buf ?p) (pipe_head ?p + pipe_len ?p) (take n src),
        pipe_len := pipe_len ?p + n\<rparr>"
    have e: "s' = sched_wake_pipe (set_pipe s i p') i" "r = int n"
      using w False by (auto simp: pipe_write_mode_def Let_def n_def p'_def l ring_store_mod)
    have p': "pipe_ok p'" using p by (auto simp: pipe_ok_def p'_def n_def l)
    have n: "pipe_len ?p + length (take n src) \<le> PIPE_SIZE" "length (take n src) = n"
      using p by (auto simp: pipe_ok_def n_def l)
    have "pipe_bytes s' i = pipe_bytes s i @ take n src"
      using ring_store_list [OF n(1), of "pipe_buf ?p" "pipe_head ?p"] n(2)
      by (simp add: e pipe_bytes_set [OF ok i] p'_def) (simp add: pipe_bytes_def Let_def)
    moreover have "pipes_ok s'" "\<forall>j. j \<noteq> i \<longrightarrow> pipe_bytes s' j = pipe_bytes s j"
      using p' ok i by (simp_all add: e set_pipe_ok pipe_bytes_set)
    ultimately show ?thesis using False e(2) by (simp add: n_def)
  qed
qed

subsection \<open>A pipe is a byte stream\<close>

text \<open>The two ends of slot i, as the byte-queue contract sees them.\<close>

definition pipe_push :: "nat \<Rightarrow> pipes \<Rightarrow> u8 list \<Rightarrow> pipes \<times> nat" where
  "pipe_push i s xs = (case pipe_write s (Some i) xs of (s', r) \<Rightarrow> (s', nat r))"

definition pipe_pull :: "nat \<Rightarrow> pipes \<Rightarrow> nat \<Rightarrow> pipes \<times> u8 list" where
  "pipe_pull i s k = (case pipe_read s (Some i) (int k) of (s', r, d) \<Rightarrow> (s', d))"

definition pipe_inv :: "nat \<Rightarrow> pipes \<Rightarrow> bool" where
  "pipe_inv i s \<longleftrightarrow> pipes_ok s \<and> i < PIPE_MAX"

interpretation pipe_stream: byte_stream "pipe_inv i" "\<lambda>s. pipe_bytes s i" "pipe_push i" "pipe_pull i"
  for i
proof (unfold_locales, goal_cases)
  case (1 s xs s' n)
  obtain s1 r where w: "pipe_write_mode s (Some i) xs (length xs \<le> PIPE_SIZE) = (s1, r)" by force
  with 1(2) have e: "s1 = s'" "n = nat r" by (simp_all add: pipe_push_def pipe_write_def)
  have ok: "pipes_ok s" "i < PIPE_MAX" using 1(1) by (simp_all add: pipe_inv_def)
  from pipe_write_mode_spec [OF ok w [unfolded e(1)]]
  have sp: "pipes_ok s'" "pipe_bytes s' i = pipe_bytes s i @ take (nat r) xs" "r \<le> int (length xs)"
    by (elim conjE; assumption | (elim conjE, simp))+
  from sp e(2) ok(2) show ?case by (simp add: pipe_inv_def nat_le_iff)
next
  case (2 s k s' ys)
  obtain s1 r d where w: "pipe_read s (Some i) (int k) = (s1, r, d)" by (cases "pipe_read s (Some i) (int k)")
  with 2(2) have e: "s1 = s'" "d = ys" by (simp_all add: pipe_pull_def)
  have ok: "pipes_ok s" "i < PIPE_MAX" using 2(1) by (simp_all add: pipe_inv_def)
  from pipe_read_spec [OF ok w [unfolded e]]
  have "pipes_ok s'" "pipe_bytes s i = ys @ pipe_bytes s' i" "length ys \<le> k"
    by (elim conjE; simp only: nat_int)+
  with ok(2) show ?case by (simp add: pipe_inv_def)
qed

subsection \<open>Allocation and references\<close>

lemma pipe_alloc_spec:
  assumes ok: "pipes_ok s" and a: "pipe_alloc s = (s', r)"
  shows "pipes_ok s' \<and> (case r of
      None \<Rightarrow> s' = s \<and> (\<forall>i. i < PIPE_MAX \<longrightarrow> pipe_used (g_pipes s ! i))
    | Some i \<Rightarrow> i < PIPE_MAX \<and> \<not> pipe_used (g_pipes s ! i) \<and> pipe_live s' i \<and> pipe_bytes s' i = []
        \<and> (\<forall>j. j \<noteq> i \<longrightarrow> g_pipes s' ! j = g_pipes s ! j))"
proof (cases "find_index (\<lambda>p. \<not> pipe_used p) (g_pipes s)")
  case None
  with a have "s' = s" "r = None" by (simp_all add: pipe_alloc_def)
  moreover have "pipe_used (g_pipes s ! i)" if "i < PIPE_MAX" for i
    using None that ok by (simp add: find_index_None pipes_ok_def)
  ultimately show ?thesis using ok by simp
next
  case (Some i)
  let ?p = "(g_pipes s ! i)\<lparr>pipe_used := True, pipe_head := 0, pipe_len := 0, pipe_readers := 1, pipe_writers := 1\<rparr>"
  have e: "s' = set_pipe s i ?p" "r = Some i" using a Some by (simp_all add: pipe_alloc_def)
  have i: "i < PIPE_MAX" "\<not> pipe_used (g_pipes s ! i)"
    using find_index_SomeD [OF Some] ok by (simp_all add: pipes_ok_def)
  have "pipes_ok s'" unfolding e by (rule set_pipe_ok [OF ok]) (simp add: pipe_ok_def)
  then show ?thesis using i
    by (simp add: e pipe_live_def set_pipe_nth [OF ok i(1)] pipe_bytes_set [OF ok i(1)])
qed

lemma pipe_ref_ok: "pipes_ok s \<Longrightarrow> pipe_live s i \<Longrightarrow> pipes_ok (pipe_ref s (Some i) w)"
  using pipes_okD [of s i] by (auto simp: pipe_ref_def Let_def pipe_live_def pipe_ok_def intro!: set_pipe_ok)

lemma pipe_unref_ok: "pipes_ok s \<Longrightarrow> i < PIPE_MAX \<Longrightarrow> pipes_ok (pipe_unref s (Some i) w)"
  using pipes_okD [of s i] by (auto simp: pipe_unref_def Let_def pipe_ok_def intro!: set_pipe_ok)

definition no_pipes :: pipes where
  "no_pipes = \<lparr>g_pipes = replicate 64 \<lparr>pipe_used = False, pipe_buf = (\<lambda>_. 0), pipe_head = 0, pipe_len = 0,
     pipe_readers = 0, pipe_writers = 0\<rparr>, pipe_calls = []\<rparr>"

definition one_pipe :: pipes where
  "one_pipe = fst (pipe_alloc no_pipes)"

lemma one_pipe_eq:
  "one_pipe = \<lparr>g_pipes = (g_pipes no_pipes)[0 := \<lparr>pipe_used = True, pipe_buf = (\<lambda>_. 0), pipe_head = 0,
      pipe_len = 0, pipe_readers = 1, pipe_writers = 1\<rparr>], pipe_calls = []\<rparr>"
proof -
  have "find_index (\<lambda>p. \<not> pipe_used p) (g_pipes no_pipes) = Some 0" by (simp add: find_index_Some no_pipes_def)
  then show ?thesis by (simp add: one_pipe_def pipe_alloc_def set_pipe_def) (simp add: no_pipes_def)
qed

lemma one_pipe_ok: "pipes_ok one_pipe"
proof -
  have "pipes_ok no_pipes" by (simp add: pipes_ok_def no_pipes_def PIPE_MAX_def pipe_ok_def PIPE_SIZE_def)
  then show ?thesis using pipe_alloc_spec [of no_pipes one_pipe "snd (pipe_alloc no_pipes)"] by (simp add: one_pipe_def)
qed

subsection \<open>Properties\<close>

text \<open>
  C18. A pipe is a lossless byte stream: over any interleaving of writes and reads on one
  pipe, the bytes buffered at the start followed by the bytes accepted are the bytes
  delivered followed by the bytes still buffered.
\<close>

theorem pipe_stream_lossless:
  assumes "pipe_stream.stream_run i s accepted delivered s'" "pipes_ok s" "i < PIPE_MAX"
  shows "pipes_ok s' \<and> pipe_bytes s i @ accepted = delivered @ pipe_bytes s' i"
  using pipe_stream.stream_fifo [OF assms(1)] assms(2,3) by (simp add: pipe_inv_def)

theorem pipe_stream_lossless_witness:
  "\<exists>s1 s2. pipe_push 0 one_pipe [1, 2, 3] = (s1, 3) \<and> pipe_pull 0 s1 2 = (s2, [1, 2])
     \<and> [1, 2, 3] = [1, 2] @ pipe_bytes s2 0"
proof -
  note op = one_pipe_eq
  have b: "pipe_bytes one_pipe 0 = []" by (simp add: op pipe_bytes_def no_pipes_def)
  obtain s1 where p: "pipe_push 0 one_pipe [1, 2, 3] = (s1, 3)"
    by (simp add: op pipe_push_def pipe_write_def pipe_write_mode_def PIPE_SIZE_def Let_def no_pipes_def)
  then have s1: "s1 = fst (pipe_push 0 one_pipe [1, 2, 3])" by simp
  obtain s2 where q: "pipe_pull 0 s1 2 = (s2, [1, 2])"
    by (simp add: s1 op pipe_push_def pipe_write_def pipe_write_mode_def PIPE_SIZE_def Let_def no_pipes_def
        pipe_pull_def pipe_read_def sched_wake_pipe_def set_pipe_def upt_rec)
  have "pipe_stream.stream_run 0 one_pipe ([] @ take 3 [1, 2, 3]) ([] @ [1, 2]) s2"
    by (rule pipe_stream.run_pull [OF pipe_stream.run_push [OF pipe_stream.run_start p] q])
  from pipe_stream_lossless [OF this one_pipe_ok] p q b show ?thesis by (simp add: PIPE_MAX_def)
qed

text \<open>
  C19. A write of at most PIPE_BUF bytes is atomic.  It stores all its bytes and returns their
  number, or stores none: it returns -1 when no reader is left and -2 (would block) when the
  free space is too small.
\<close>

theorem pipe_write_atomic:
  assumes "pipes_ok s" "i < PIPE_MAX" "src \<noteq> []" "length src \<le> PIPE_SIZE"
  shows "case pipe_write s (Some i) src of (s', r) \<Rightarrow>
     (if pipe_readers (g_pipes s ! i) = 0 then r = -1 \<and> pipe_bytes s' i = pipe_bytes s i
      else if length (pipe_bytes s i) + length src > PIPE_SIZE then r = -2 \<and> s' = s
      else r = int (length src) \<and> pipe_bytes s' i = pipe_bytes s i @ src)"
proof (cases "pipe_write s (Some i) src")
  case (Pair s' r)
  let ?n = "length (pipe_bytes s i)"
  have w: "pipe_write_mode s (Some i) src True = (s', r)" using Pair assms(4) by (simp add: pipe_write_def)
  have len: "?n = pipe_len (g_pipes s ! i)" by (simp add: pipe_bytes_def Let_def)
  have le: "?n \<le> PIPE_SIZE" using pipes_okD [OF assms(1,2)] by (simp add: len pipe_ok_def)
  have "s' = s" if "pipe_readers (g_pipes s ! i) \<noteq> 0" "?n + length src > PIPE_SIZE"
  proof -
    have "PIPE_SIZE - pipe_len (g_pipes s ! i) < length src" using that(2) le unfolding len by linarith
    with w that(1) assms(3) show ?thesis by (simp add: pipe_write_mode_def Let_def)
  qed
  with pipe_write_mode_spec [OF assms(1,2) w] le assms(3,4) Pair show ?thesis
    by (cases "pipe_readers (g_pipes s ! i) = 0"; cases "?n + length src > PIPE_SIZE") auto
qed

theorem pipe_write_atomic_witness:
  "pipes_ok one_pipe \<and> (case pipe_write one_pipe (Some 0) [7, 8] of (s', r) \<Rightarrow> r = 2 \<and> pipe_bytes s' 0 = [7, 8])"
proof -
  have "pipe_bytes one_pipe 0 = []" "pipe_readers (g_pipes one_pipe ! 0) = 1"
    by (simp_all add: one_pipe_eq no_pipes_def pipe_bytes_def)
  then show ?thesis using pipe_write_atomic [OF one_pipe_ok, of 0 "[7, 8]"] one_pipe_ok
    by (simp add: PIPE_MAX_def PIPE_SIZE_def split_beta)
qed

end
