(* ===== verification/Process.thy ===== *)
theory Process
  imports Prelude
begin

text \<open>
  The process descriptor (kernel/process.h) and the trap frame (kernel/trapframe.h), with
  the fields the modelled components read or write: identity, capabilities, wait conditions,
  signals, job control, credentials and scheduling.  Pointers to other kernel objects (pipe,
  pty, manifest) are optional values; C flags are truth values.
\<close>

record trapframe =
  tf_r15 :: u64
  tf_r14 :: u64
  tf_r13 :: u64
  tf_r12 :: u64
  tf_r11 :: u64
  tf_r10 :: u64
  tf_r9 :: u64
  tf_r8 :: u64
  tf_rbp :: u64
  tf_rdi :: u64
  tf_rsi :: u64
  tf_rdx :: u64
  tf_rcx :: u64
  tf_rbx :: u64
  tf_rax :: u64
  tf_int_no :: u64
  tf_err_code :: u64
  tf_rip :: u64
  tf_cs :: u64
  tf_rflags :: u64
  tf_rsp :: u64
  tf_ss :: u64

text \<open>The supplementary groups are the first \<^verbatim>\<open>ngroups\<close> entries of the array.\<close>

record proc_cred =
  ruid :: u32
  euid :: u32
  suid :: u32
  rgid :: u32
  egid :: u32
  sgid :: u32
  groups :: "u32 list"

datatype proc_state = PROC_NEW | PROC_READY | PROC_RUNNING | PROC_BLOCKED | PROC_ZOMBIE | PROC_STOPPED

record process =
  pid :: u32
  state :: proc_state
  tf :: "trapframe option"
  manifest_flags :: "u32 option"
  cap_net :: bool
  cap_enforce :: bool
  cap_mask :: u32
  no_new_privs :: bool
  wait_pid :: int
  recv_chan :: int
  wait_pipe :: "nat option"
  wait_tty :: bool
  wait_pty :: "nat option"
  sig_eintr_rip :: u64
  sig_rerun_eintr :: bool
  sig_pending :: u64
  sig_blocked :: u64
  sig_handler :: "nat \<Rightarrow> u64"
  sig_restorer :: u64
  stop_report :: bool
  cont_report :: bool
  stop_sig :: int
  sigsusp_active :: bool
  sigsusp_saved :: u64
  pgid :: u32
  ppid :: u32
  sid :: u32
  spawner_pid :: u32
  cred :: proc_cred
  umask :: u32

text \<open>A freshly created process with given identity, for concrete instances.\<close>

definition root_cred :: proc_cred where
  "root_cred = \<lparr>ruid = 0, euid = 0, suid = 0, rgid = 0, egid = 0, sgid = 0, groups = []\<rparr>"

definition user_cred :: "u32 \<Rightarrow> u32 \<Rightarrow> proc_cred" where
  "user_cred u g = \<lparr>ruid = u, euid = u, suid = u, rgid = g, egid = g, sgid = g, groups = []\<rparr>"

definition new_process :: "u32 \<Rightarrow> proc_cred \<Rightarrow> process" where
  "new_process p c = \<lparr>pid = p, state = PROC_NEW, tf = None, manifest_flags = None, cap_net = False,
     cap_enforce = False, cap_mask = 0, no_new_privs = False, wait_pid = -1, recv_chan = -1, wait_pipe = None,
     wait_tty = False, wait_pty = None, sig_eintr_rip = 0, sig_rerun_eintr = False, sig_pending = 0, sig_blocked = 0,
     sig_handler = (\<lambda>_. 0), sig_restorer = 0, stop_report = False, cont_report = False, stop_sig = 0,
     sigsusp_active = False, sigsusp_saved = 0, pgid = p, ppid = 0, sid = p, spawner_pid = 0, cred = c, umask = 18\<rparr>"

end
