(* ===== verification/Cap.thy ===== *)
theory Cap
  imports Process Arrays
begin

text \<open>
  Capabilities and their audit trail (kernel/cap.c, kernel/cap.h): the checks of the system
  call layer, the ring of audit records, and the exec rule that a process with
  no_new_privs can never gain a capability from a new image.  A NULL process is
  \<^const>\<open>None\<close>.  The debug console mirror of the audit trail is output only and left out.
\<close>

subsection \<open>Capability bits\<close>

definition CAP_NET :: u32 where "CAP_NET = push_bit 4 1"
definition CAP_FS_READ :: u32 where "CAP_FS_READ = push_bit 6 1"
definition CAP_FS_WRITE :: u32 where "CAP_FS_WRITE = push_bit 7 1"
definition CAP_PROC :: u32 where "CAP_PROC = push_bit 8 1"
definition CAP_IPC :: u32 where "CAP_IPC = push_bit 9 1"
definition CAP_SIGNAL :: u32 where "CAP_SIGNAL = push_bit 10 1"
definition CAP_TIME :: u32 where "CAP_TIME = push_bit 11 1"
definition CAP_POWER :: u32 where "CAP_POWER = push_bit 12 1"
definition CAP_INPUT :: u32 where "CAP_INPUT = push_bit 13 1"
definition CAP_DISPLAY :: u32 where "CAP_DISPLAY = push_bit 14 1"
definition CAP_AUDIT_SETID :: u32 where "CAP_AUDIT_SETID = push_bit 15 1"
definition CAP_AUDIT_DRIVER :: u32 where "CAP_AUDIT_DRIVER = push_bit 31 1"

definition CAP_IMPLICIT_SET :: u32 where
  "CAP_IMPLICIT_SET = CAP_FS_READ OR CAP_FS_WRITE OR CAP_PROC OR CAP_IPC OR CAP_SIGNAL OR CAP_TIME OR CAP_POWER"

definition CAP_EXPLICIT_SET :: u32 where
  "CAP_EXPLICIT_SET = CAP_NET OR CAP_INPUT OR CAP_DISPLAY"

definition MANIFEST_FLAG_SESSION_GATEWAY :: u32 where
  "MANIFEST_FLAG_SESSION_GATEWAY = push_bit 16 1"

lemmas cap_defs = CAP_NET_def CAP_FS_READ_def CAP_FS_WRITE_def CAP_PROC_def CAP_IPC_def CAP_SIGNAL_def
  CAP_TIME_def CAP_POWER_def CAP_INPUT_def CAP_DISPLAY_def CAP_AUDIT_SETID_def CAP_AUDIT_DRIVER_def
  CAP_IMPLICIT_SET_def CAP_EXPLICIT_SET_def

definition cap_name :: "u32 \<Rightarrow> string" where
  "cap_name cap =
    (if cap = CAP_NET then ''NET'' else if cap = CAP_FS_READ then ''FS_READ''
     else if cap = CAP_FS_WRITE then ''FS_WRITE'' else if cap = CAP_PROC then ''PROC''
     else if cap = CAP_IPC then ''IPC'' else if cap = CAP_SIGNAL then ''SIGNAL''
     else if cap = CAP_TIME then ''TIME'' else if cap = CAP_POWER then ''POWER''
     else if cap = CAP_INPUT then ''INPUT'' else if cap = CAP_DISPLAY then ''DISPLAY''
     else if cap = CAP_AUDIT_SETID then ''SETID'' else if cap = CAP_AUDIT_DRIVER then ''DRIVER''
     else ''?'')"

subsection \<open>The audit ring\<close>

definition AUDIT_RING :: nat where
  "AUDIT_RING = 64"

record cap_audit_rec =
  rec_pid :: u32
  rec_cap :: u32
  rec_syscall :: u64
  rec_seq :: u64
  rec_allowed :: bool
  rec_name :: string

record cap_audit_state =
  g_audit :: "nat \<Rightarrow> cap_audit_rec"
  g_audit_head :: u64

text \<open>The bounded copy of a C string; a NULL name is copied as the empty string.\<close>

definition copy_name :: "string option \<Rightarrow> string" where
  "copy_name src = (case src of None \<Rightarrow> [] | Some s \<Rightarrow> take 15 s)"

definition cap_audit :: "cap_audit_state \<Rightarrow> u32 \<Rightarrow> u32 \<Rightarrow> u64 \<Rightarrow> string option \<Rightarrow> bool \<Rightarrow> cap_audit_state" where
  "cap_audit a p cap num name allowed =
    a\<lparr>g_audit := (g_audit a)(unat (g_audit_head a mod 64) :=
        \<lparr>rec_pid = p, rec_cap = cap, rec_syscall = num, rec_seq = g_audit_head a,
         rec_allowed = allowed, rec_name = copy_name name\<rparr>),
      g_audit_head := g_audit_head a + 1\<rparr>"

definition cap_audit_dump :: "cap_audit_state \<Rightarrow> int \<Rightarrow> cap_audit_rec list \<times> int" where
  "cap_audit_dump a maxn =
    (let n = (if g_audit_head a < 64 then uint (g_audit_head a) else 64);
         n = (if n > maxn then maxn else n);
         start = g_audit_head a - word_of_int n
     in (map (\<lambda>i. g_audit a (unat ((start + of_nat i) mod 64))) [0 ..< nat n], n))"

definition cap_audit_total :: "cap_audit_state \<Rightarrow> u64" where
  "cap_audit_total a = g_audit_head a"

subsection \<open>Checks\<close>

definition cap_allowed :: "process option \<Rightarrow> u32 \<Rightarrow> bool" where
  "cap_allowed po cap = (case po of
     None \<Rightarrow> True
   | Some p \<Rightarrow> if \<not> cap_enforce p then True else cap_mask p AND cap \<noteq> 0)"

definition cap_check :: "cap_audit_state \<Rightarrow> process option \<Rightarrow> u32 \<Rightarrow> u64 \<Rightarrow> string option \<Rightarrow> cap_audit_state \<times> bool" where
  "cap_check a po cap num name =
    (let ok = cap_allowed po cap
     in case po of
          Some p \<Rightarrow>
            if cap_enforce p then (cap_audit a (pid p) cap num name ok, ok)
            else if \<not> ok then (cap_audit a (pid p) cap num name ok, ok)
            else (a, ok)
        | None \<Rightarrow> if \<not> ok then (cap_audit a 0 cap num name ok, ok) else (a, ok))"

definition cap_check_explicit ::
  "cap_audit_state \<Rightarrow> process option \<Rightarrow> u32 \<Rightarrow> u64 \<Rightarrow> string option \<Rightarrow> cap_audit_state \<times> bool" where
  "cap_check_explicit a po cap num name = (case po of
     None \<Rightarrow> (a, True)
   | Some p \<Rightarrow>
       if pid p = 0 then (a, True)
       else let ok = (cap_mask p AND cap \<noteq> 0)
            in if \<not> ok \<or> cap_enforce p then (cap_audit a (pid p) cap num name ok, ok) else (a, ok))"

subsection \<open>Exec confinement\<close>

definition cap_effective :: "process option \<Rightarrow> u32" where
  "cap_effective po = (case po of
     None \<Rightarrow> CAP_IMPLICIT_SET OR CAP_EXPLICIT_SET
   | Some p \<Rightarrow>
       if pid p = 0 then CAP_IMPLICIT_SET OR CAP_EXPLICIT_SET
       else if cap_enforce p then
         let m = cap_mask p AND (CAP_IMPLICIT_SET OR CAP_EXPLICIT_SET)
         in if \<not> cap_net p then m AND NOT CAP_NET else m
       else let m = CAP_IMPLICIT_SET OR (cap_mask p AND (CAP_INPUT OR CAP_DISPLAY))
            in if cap_net p then m OR CAP_NET else m)"

record cap_exec_bound_t =
  b_valid :: bool
  b_enforce :: bool
  b_nnp :: bool
  b_eff :: u32

definition cap_exec_bound :: "process option \<Rightarrow> cap_exec_bound_t" where
  "cap_exec_bound po =
    (let valid = (case po of None \<Rightarrow> False | Some p \<Rightarrow> pid p \<noteq> 0)
     in \<lparr>b_valid = valid,
         b_enforce = (if valid then cap_enforce (the po) else False),
         b_nnp = (if valid then no_new_privs (the po) else False),
         b_eff = cap_effective po\<rparr>)"

text \<open>One denial record per capability bit that the bound withheld, lowest bit first.\<close>

definition audit_lost :: "cap_audit_state \<Rightarrow> u32 \<Rightarrow> u32 \<Rightarrow> string option \<Rightarrow> cap_audit_state" where
  "audit_lost a p lost what =
    fold (\<lambda>i a. if lost AND push_bit i 1 \<noteq> 0 then cap_audit a p (push_bit i 1) 0 what False else a) [0 ..< 32] a"

definition cap_exec_transition ::
  "cap_audit_state \<Rightarrow> process \<Rightarrow> cap_exec_bound_t \<Rightarrow> string option \<Rightarrow> cap_audit_state \<times> process" where
  "cap_exec_transition a p b what =
    (let gateway = (case manifest_flags p of None \<Rightarrow> False | Some f \<Rightarrow> f AND MANIFEST_FLAG_SESSION_GATEWAY \<noteq> 0)
     in if b_valid b \<and> b_nnp b then
          let want = cap_effective (Some p);
              got = want AND b_eff b;
              q = p\<lparr>cap_enforce := cap_enforce p \<or> b_enforce b, cap_mask := got,
                    cap_net := (got AND CAP_NET \<noteq> 0), no_new_privs := True\<rparr>;
              lost = want AND NOT got
          in (audit_lost a (pid p) lost what, q)
        else (a, p\<lparr>no_new_privs := cap_enforce p \<and> \<not> gateway\<rparr>))"

subsection \<open>Bits of the capability sets\<close>

lemma bit_cap_sets:
  "bit CAP_IMPLICIT_SET n \<longleftrightarrow> 6 \<le> n \<and> n \<le> 12"
  "bit CAP_EXPLICIT_SET n \<longleftrightarrow> n = 4 \<or> n = 13 \<or> n = 14"
  "bit CAP_NET n \<longleftrightarrow> n = 4" "bit CAP_INPUT n \<longleftrightarrow> n = 13" "bit CAP_DISPLAY n \<longleftrightarrow> n = 14"
  by (simp_all only: cap_defs bit_or_iff bit_flag) auto

lemma bit_cap_effective:
  assumes "pid p \<noteq> 0" "n < 32"
  shows "bit (cap_effective (Some p)) n \<longleftrightarrow>
    (if n = 4 then cap_net p \<and> (cap_enforce p \<longrightarrow> bit (cap_mask p) 4)
     else if n = 13 \<or> n = 14 then bit (cap_mask p) n
     else 6 \<le> n \<and> n \<le> 12 \<and> (cap_enforce p \<longrightarrow> bit (cap_mask p) n))"
  using assms by (auto simp: cap_effective_def Let_def bit_and_iff bit_or_iff bit_not_iff bit_cap_sets)

lemma transition_effective:
  assumes p: "pid p \<noteq> 0" and o: "pid old \<noteq> 0" and nnp: "no_new_privs old"
    and t: "cap_exec_transition a p (cap_exec_bound (Some old)) what = (a', q)"
  shows "pid q = pid p \<and> no_new_privs q \<and> (cap_enforce q \<longleftrightarrow> cap_enforce p \<or> cap_enforce old)
    \<and> cap_effective (Some q) = cap_effective (Some p) AND cap_effective (Some old)"
proof -
  let ?got = "cap_effective (Some p) AND cap_effective (Some old)"
  have q: "q = p\<lparr>cap_enforce := cap_enforce p \<or> cap_enforce old, cap_mask := ?got,
      cap_net := (?got AND CAP_NET \<noteq> 0), no_new_privs := True\<rparr>"
    using t o nnp by (simp add: cap_exec_transition_def cap_exec_bound_def Let_def)
  have net: "?got AND CAP_NET \<noteq> 0 \<longleftrightarrow> bit ?got 4" by (simp only: CAP_NET_def and_push_bit)
  have "cap_effective (Some q) = ?got"
  proof (rule bit_word_eqI)
    fix n assume "n < LENGTH(32)"
    then have n: "n < 32" by simp
    have "pid q \<noteq> 0" using p q by simp
    from bit_cap_effective [OF this n] bit_cap_effective [OF p n] bit_cap_effective [OF o n] net
    show "bit (cap_effective (Some q)) n = bit ?got n" by (auto simp: q bit_and_iff)
  qed
  with q show ?thesis by simp
qed

text \<open>
  Any sequence of exec and spawn steps: each new image starts from the state its own manifest
  gave it and is then bounded by the process that started it.
\<close>

inductive exec_chain :: "process \<Rightarrow> process \<Rightarrow> bool" where
  chain_start: "exec_chain p p"
| chain_exec: "exec_chain p q \<Longrightarrow> pid r \<noteq> 0 \<Longrightarrow>
    cap_exec_transition a r (cap_exec_bound (Some q)) what = (a', r') \<Longrightarrow> exec_chain p r'"

subsection \<open>The contents of the audit ring\<close>

type_synonym audit_event = "u32 \<times> u32 \<times> u64 \<times> string option \<times> bool"

definition audit_all :: "cap_audit_state \<Rightarrow> audit_event list \<Rightarrow> cap_audit_state" where
  "audit_all a es = fold (\<lambda>(p, c, num, name, ok) a. cap_audit a p c num name ok) es a"

definition audit_rec :: "nat \<Rightarrow> audit_event \<Rightarrow> cap_audit_rec" where
  "audit_rec i e = (case e of (p, c, num, name, ok) \<Rightarrow>
     \<lparr>rec_pid = p, rec_cap = c, rec_syscall = num, rec_seq = of_nat i, rec_allowed = ok, rec_name = copy_name name\<rparr>)"

lemma audit_all_snoc:
  "audit_all a (es @ [(p, c, num, name, ok)]) = cap_audit (audit_all a es) p c num name ok"
  by (simp add: audit_all_def)

lemma audit_all_contents:
  assumes "g_audit_head a = 0" "length es < 2 ^ 64"
  shows "g_audit_head (audit_all a es) = of_nat (length es)
    \<and> (\<forall>i. i < length es \<and> length es \<le> i + 64 \<longrightarrow> g_audit (audit_all a es) (i mod 64) = audit_rec i (es ! i))"
  using assms(2)
proof (induction es rule: rev_induct)
  case Nil
  then show ?case using assms(1) by (simp add: audit_all_def)
next
  case (snoc e es)
  obtain p c num name ok where e: "e = (p, c, num, name, ok)" by (cases e) auto
  let ?n = "length es" and ?a = "audit_all a es"
  from snoc have hd: "g_audit_head ?a = of_nat ?n"
    and old: "i < ?n \<Longrightarrow> ?n \<le> i + 64 \<Longrightarrow> g_audit ?a (i mod 64) = audit_rec i (es ! i)" for i by auto
  have slot: "unat (g_audit_head ?a mod 64) = ?n mod 64" using snoc.prems by (simp add: hd unat_mod64)
  have "g_audit (audit_all a (es @ [e])) (i mod 64) = audit_rec i ((es @ [e]) ! i)"
    if i: "i < Suc ?n" "Suc ?n \<le> i + 64" for i
  proof (cases "i = ?n")
    case True
    then show ?thesis unfolding e audit_all_snoc by (simp add: cap_audit_def slot [unfolded hd] hd audit_rec_def)
  next
    case False
    then have ne: "i mod 64 \<noteq> ?n mod 64" using i by (intro mod_window_inj) simp_all
    with False i old [of i] show ?thesis unfolding e audit_all_snoc
      by (simp add: cap_audit_def slot nth_append)
  qed
  moreover have "g_audit_head (audit_all a (es @ [e])) = of_nat (Suc ?n)"
    unfolding e audit_all_snoc by (simp add: cap_audit_def hd add.commute)
  ultimately show ?case by simp
qed

subsection \<open>Properties\<close>

text \<open>
  C6. Once a process has no_new_privs, no sequence of exec or spawn steps, whatever manifests
  the new images carry, gives a descendant an effective capability the process did not have,
  clears no_new_privs, or lifts confinement.
\<close>

theorem no_new_privs_no_escalation:
  assumes "exec_chain p q" "pid p \<noteq> 0" "no_new_privs p"
  shows "cap_effective (Some q) AND NOT (cap_effective (Some p)) = 0
    \<and> no_new_privs q \<and> (cap_enforce p \<longrightarrow> cap_enforce q) \<and> pid q \<noteq> 0"
  using assms
proof (induction rule: exec_chain.induct)
  case (chain_start p)
  then show ?case by simp
next
  case (chain_exec p q r a what a' r')
  then have q: "cap_effective (Some q) AND NOT (cap_effective (Some p)) = 0" "no_new_privs q"
    "cap_enforce p \<longrightarrow> cap_enforce q" "pid q \<noteq> 0" by simp_all
  note t = transition_effective [OF chain_exec.hyps(2) q(4,2) chain_exec.hyps(3)]
  then have "cap_effective (Some r') AND NOT (cap_effective (Some p)) =
      cap_effective (Some r) AND (cap_effective (Some q) AND NOT (cap_effective (Some p)))"
    by (simp add: and.assoc)
  with t q chain_exec.hyps(2) show ?case by simp
qed

definition confined_child :: process where
  "confined_child = (new_process 7 root_cred)\<lparr>no_new_privs := True, cap_enforce := True, cap_mask := CAP_FS_READ\<rparr>"

definition greedy_image :: process where
  "greedy_image = (new_process 7 root_cred)\<lparr>cap_net := True, cap_mask := CAP_NET OR CAP_INPUT\<rparr>"

theorem no_new_privs_no_escalation_witness:
  "cap_effective (Some (snd (cap_exec_transition \<lparr>g_audit = undefined, g_audit_head = 0\<rparr> greedy_image
       (cap_exec_bound (Some confined_child)) (Some ''exec'')))) AND NOT (cap_effective (Some confined_child)) = 0
   \<and> pid confined_child \<noteq> 0 \<and> no_new_privs confined_child"
proof -
  let ?a = "\<lparr>g_audit = undefined, g_audit_head = 0\<rparr>"
  let ?t = "cap_exec_transition ?a greedy_image (cap_exec_bound (Some confined_child)) (Some ''exec'')"
  have p: "pid confined_child \<noteq> 0" "no_new_privs confined_child" "pid greedy_image \<noteq> 0"
    by (simp_all add: confined_child_def greedy_image_def new_process_def)
  have "exec_chain confined_child (snd ?t)"
    by (rule exec_chain.chain_exec [OF exec_chain.chain_start p(3), of ?a _ "Some ''exec''" "fst ?t"]) simp
  from no_new_privs_no_escalation [OF this p(1,2)] p show ?thesis by blast
qed

text \<open>The audit trail loses nothing within its window: after any sequence of audited events,
  a dump of at most max records returns exactly the most recent ones that the 64-entry ring
  holds, oldest first, each with its sequence number.
\<close>

theorem audit_dump_recent:
  assumes "g_audit_head a = 0" "length es < 2 ^ 64" "0 \<le> maxn"
  shows "cap_audit_dump (audit_all a es) maxn =
    (let n = min (nat maxn) (min 64 (length es))
     in (map (\<lambda>i. audit_rec i (es ! i)) [length es - n ..< length es], int n))"
proof -
  let ?l = "length es" and ?b = "audit_all a es"
  define n where "n = min (nat maxn) (min 64 ?l)"
  from audit_all_contents [OF assms(1,2)] have hd: "g_audit_head ?b = of_nat ?l"
    and rec: "i < ?l \<Longrightarrow> ?l \<le> i + 64 \<Longrightarrow> g_audit ?b (i mod 64) = audit_rec i (es ! i)" for i by auto
  have u: "unat (g_audit_head ?b) = ?l" using assms(2) by (simp add: hd unat_of_nat64)
  have lt: "g_audit_head ?b < 64 \<longleftrightarrow> ?l < 64" using u by (simp add: word_less_nat_alt)
  have ui: "uint (g_audit_head ?b) = int ?l" using u by (simp add: uint_nat)
  have n1: "(if (if g_audit_head ?b < 64 then uint (g_audit_head ?b) else 64) > maxn then maxn
      else (if g_audit_head ?b < 64 then uint (g_audit_head ?b) else 64)) = int n"
    using assms(3) by (auto simp: n_def lt ui min_def)
  have le: "n \<le> ?l" "n \<le> 64" by (simp_all add: n_def)
  have start: "g_audit_head ?b - word_of_int (int n) = of_nat (?l - n)" by (simp add: hd of_nat_diff le)
  have "g_audit ?b (unat ((g_audit_head ?b - word_of_int (int n) + of_nat i) mod 64)) = audit_rec (?l - n + i) (es ! (?l - n + i))"
    if "i < n" for i
  proof -
    have "unat ((of_nat (?l - n + i) :: u64) mod 64) = (?l - n + i) mod 64"
      by (rule unat_mod64) (use assms(2) that le in linarith)
    moreover have "g_audit_head ?b - word_of_int (int n) + of_nat i = of_nat (?l - n + i)" by (simp only: start of_nat_add)
    moreover have "?l - n + i < ?l" "?l \<le> ?l - n + i + 64" using that le by linarith+
    ultimately show ?thesis using rec by simp
  qed
  then have "map (\<lambda>i. g_audit ?b (unat ((g_audit_head ?b - word_of_int (int n) + of_nat i) mod 64))) [0 ..< n]
      = map (\<lambda>i. audit_rec i (es ! i)) [?l - n ..< ?l]"
    using le by (intro nth_equalityI) simp_all
  then show ?thesis unfolding cap_audit_dump_def Let_def n1 n_def [symmetric] by simp
qed

end
