(* ===== verification/User_Copy.thy ===== *)
theory User_Copy
  imports Arrays
begin

text \<open>
  The transfer primitives between kernel and user memory (mm/user_copy.c) and the fault
  tolerant instructions they run (arch/x86/uaccess.asm).  Memory is what the kernel can reach after
  demand paging and copy-on-write: the bytes that can be read and the addresses that can be
  written, since CR0.WP makes the kernel honour read-only pages.  Any other access is a page fault
  that cannot be repaired, which the exception table turns into an early return.  The kernel side
  of a transfer is the list of bytes read or written.  The SMAP window (stac/clac) around each
  access has no effect on the bytes.
\<close>

record memory =
  m_byte :: "u64 \<Rightarrow> u8 option"
  m_writable :: "u64 \<Rightarrow> bool"

definition USER_ADDR_MAX :: u64 where
  "USER_ADDR_MAX = 0x0000800000000000"

definition USER_ADDR_MIN :: u64 where
  "USER_ADDR_MIN = 0x0000000100000000"

definition EFAULT :: int where
  "EFAULT = 14"

definition ENAMETOOLONG :: int where
  "ENAMETOOLONG = 36"

definition user_range_valid :: "u64 \<Rightarrow> u64 \<Rightarrow> bool" where
  "user_range_valid start len =
    (if start = 0 then False
     else if len = 0 then False
     else if start < USER_ADDR_MIN then False
     else if start \<ge> USER_ADDR_MAX then False
     else if len > USER_ADDR_MAX then False
     else if start + len < start then False
     else if start + len > USER_ADDR_MAX then False
     else True)"

subsection \<open>The access instructions\<close>

text \<open>
  The string move of the copy primitive: bytes moved and bytes left when it stops, at the
  end or at the first fault.
\<close>

fun uaccess_load :: "memory \<Rightarrow> u64 \<Rightarrow> nat \<Rightarrow> u8 list \<times> nat" where
  "uaccess_load m a 0 = ([], 0)"
| "uaccess_load m a (Suc n) = (case m_byte m a of
     None \<Rightarrow> ([], Suc n)
   | Some b \<Rightarrow> (case uaccess_load m (a + 1) n of (bs, left) \<Rightarrow> (b # bs, left)))"

definition stores :: "memory \<Rightarrow> u64 \<Rightarrow> bool" where
  "stores m a \<longleftrightarrow> m_byte m a \<noteq> None \<and> m_writable m a"

fun uaccess_store :: "memory \<Rightarrow> u64 \<Rightarrow> u8 list \<Rightarrow> memory \<times> nat" where
  "uaccess_store m a [] = (m, 0)"
| "uaccess_store m a (b # bs) =
    (if \<not> stores m a then (m, Suc (length bs))
     else uaccess_store (m\<lparr>m_byte := (m_byte m)(a \<mapsto> b)\<rparr>) (a + 1) bs)"

text \<open>
  The string copy: index reached, bytes stored so far, and the result (the index at the NUL
  or at the limit, -1 on a fault).
\<close>

fun uaccess_strncpy :: "memory \<Rightarrow> u64 \<Rightarrow> nat \<Rightarrow> u8 list \<times> int" where
  "uaccess_strncpy m a 0 = ([], 0)"
| "uaccess_strncpy m a (Suc n) = (case m_byte m a of
     None \<Rightarrow> ([], -1)
   | Some b \<Rightarrow>
       if b = 0 then ([b], 0)
       else (case uaccess_strncpy m (a + 1) n of (bs, r) \<Rightarrow> (b # bs, if r < 0 then r else r + 1)))"

subsection \<open>The checked transfers\<close>

definition copy_from_user :: "memory \<Rightarrow> u64 \<Rightarrow> u64 \<Rightarrow> u8 list \<times> int" where
  "copy_from_user m src len =
    (if \<not> user_range_valid src len then ([], - EFAULT)
     else case uaccess_load m src (unat len) of (bs, left) \<Rightarrow> (bs, if left \<noteq> 0 then - EFAULT else 0))"

definition copy_to_user :: "memory \<Rightarrow> u64 \<Rightarrow> u8 list \<Rightarrow> memory \<times> int" where
  "copy_to_user m dst bs =
    (if \<not> user_range_valid dst (of_nat (length bs)) then (m, - EFAULT)
     else case uaccess_store m dst bs of (m', left) \<Rightarrow> (m', if left \<noteq> 0 then - EFAULT else 0))"

text \<open>The kernel buffer is a list of \<^verbatim>\<open>max\<close> bytes; the copy overwrites its front.\<close>

definition strncpy_from_user :: "memory \<Rightarrow> u8 list \<Rightarrow> u64 \<Rightarrow> u64 \<Rightarrow> u8 list \<times> int" where
  "strncpy_from_user m dst s maxn =
    (if maxn = 0 then (dst, - ENAMETOOLONG)
     else if s < USER_ADDR_MIN \<or> s \<ge> USER_ADDR_MAX then (dst, - EFAULT)
     else let lim = (if maxn > USER_ADDR_MAX - s then USER_ADDR_MAX - s else maxn);
              (bs, n) = uaccess_strncpy m s (unat lim);
              dst1 = bs @ drop (length bs) dst
          in if n < 0 then (dst1, - EFAULT)
             else if n = uint lim then (dst1[unat (maxn - 1) := 0], if lim < maxn then - EFAULT else - ENAMETOOLONG)
             else (dst1, n))"

record ex_entry =
  ex_insn :: u64
  ex_fixup :: u64

definition uaccess_fixup_lookup :: "ex_entry list \<Rightarrow> u64 \<Rightarrow> u64" where
  "uaccess_fixup_lookup tab rip = (case find_index (\<lambda>e. ex_insn e = rip) tab of
     None \<Rightarrow> 0 | Some i \<Rightarrow> ex_fixup (tab ! i))"

subsection \<open>Ranges\<close>

definition user_window :: "u64 set" where
  "user_window = {a. USER_ADDR_MIN \<le> a \<and> a < USER_ADDR_MAX}"

lemma user_range_valid_conj:
  "user_range_valid start len \<longleftrightarrow> len \<noteq> 0 \<and> USER_ADDR_MIN \<le> start \<and> start < USER_ADDR_MAX \<and> len \<le> USER_ADDR_MAX
     \<and> start \<le> start + len \<and> start + len \<le> USER_ADDR_MAX"
proof -
  have "start \<noteq> 0" if "USER_ADDR_MIN \<le> start" using that by (auto simp: USER_ADDR_MIN_def)
  then show ?thesis unfolding user_range_valid_def not_less [symmetric] by (simp only: if_bool_eq_conj) blast
qed

lemma user_range_valid_iff:
  "user_range_valid start len \<longleftrightarrow> 0 < unat len \<and> 0x100000000 \<le> unat start \<and> unat start + unat len \<le> 0x800000000000"
proof -
  have lens: "len \<noteq> 0 \<longleftrightarrow> 0 < unat len" by (simp add: unat_gt_0)
  have M: "unat USER_ADDR_MIN = 0x100000000" "unat USER_ADDR_MAX = 0x800000000000"
    by (simp_all add: USER_ADDR_MIN_def USER_ADDR_MAX_def)
  show ?thesis
  proof (cases "unat start < 0x800000000000 \<and> unat len \<le> 0x800000000000")
    case True
    then have "unat start + unat len < 2 ^ 64" by simp
    then have "unat (start + len) = unat start + unat len" by (rule unat_add64)
    with True show ?thesis
      unfolding user_range_valid_conj word_le_nat_alt word_less_nat_alt M lens by linarith
  next
    case False
    then show ?thesis unfolding user_range_valid_conj word_le_nat_alt word_less_nat_alt M lens by linarith
  qed
qed

lemma in_window: "a \<in> user_window \<longleftrightarrow> 0x100000000 \<le> unat a \<and> unat a < 0x800000000000"
  by (simp add: user_window_def USER_ADDR_MIN_def USER_ADDR_MAX_def word_le_nat_alt word_less_nat_alt)

lemma range_window:
  assumes "user_range_valid start len" "i < unat len"
  shows "start + of_nat i \<in> user_window" "unat (start + of_nat i) = unat start + i"
proof -
  have u: "0x100000000 \<le> unat start" "unat start + unat len \<le> 0x800000000000"
    using assms(1) by (simp_all add: user_range_valid_iff)
  have "unat (of_nat i :: u64) = i" by (rule unat_of_nat64) (use u assms(2) in simp)
  then show e: "unat (start + of_nat i) = unat start + i" using u assms(2) by (subst unat_add64) simp_all
  show "start + of_nat i \<in> user_window" using u assms(2) by (simp add: in_window e)
qed

subsection \<open>The instructions\<close>

lemma uaccess_load_spec:
  assumes "uaccess_load m a n = (bs, left)"
  shows "length bs + left = n" "i < length bs \<Longrightarrow> m_byte m (a + of_nat i) = Some (bs ! i)"
    "left \<noteq> 0 \<Longrightarrow> m_byte m (a + of_nat (length bs)) = None"
proof -
  have "length bs + left = n \<and> (\<forall>i. i < length bs \<longrightarrow> m_byte m (a + of_nat i) = Some (bs ! i))
    \<and> (left \<noteq> 0 \<longrightarrow> m_byte m (a + of_nat (length bs)) = None)"
    using assms
  proof (induction m a n arbitrary: bs rule: uaccess_load.induct)
    case (2 m a n)
    show ?case
    proof (cases "m_byte m a")
      case (Some b)
      obtain cs where r: "uaccess_load m (a + 1) n = (cs, left)" "bs = b # cs"
        using 2(2) Some by (auto split: prod.splits)
      have "m_byte m (a + of_nat i) = Some (bs ! i)" if "i < length bs" for i
        using 2(1) [OF Some r(1)] Some r(2) that by (cases i) (simp_all add: add.assoc)
      with 2(1) [OF Some r(1)] r(2) show ?thesis by (simp add: add.assoc)
    qed (use 2(2) in auto)
  qed simp
  then show "length bs + left = n" "i < length bs \<Longrightarrow> m_byte m (a + of_nat i) = Some (bs ! i)"
    "left \<noteq> 0 \<Longrightarrow> m_byte m (a + of_nat (length bs)) = None" by simp_all
qed

lemma uaccess_load_local:
  assumes "\<And>i. i < n \<Longrightarrow> m_byte m (a + of_nat i) = m_byte m' (a + of_nat i)"
  shows "uaccess_load m a n = uaccess_load m' a n"
  using assms
proof (induction n arbitrary: a)
  case (Suc n)
  have "m_byte m a = m_byte m' a" using Suc.prems [of 0] by simp
  moreover have "uaccess_load m (a + 1) n = uaccess_load m' (a + 1) n"
    by (rule Suc.IH) (use Suc.prems [of "Suc i" for i] in \<open>simp add: add.assoc\<close>)
  ultimately show ?case by (simp split: option.split)
qed simp

lemma uaccess_store_spec:
  assumes "uaccess_store m a bs = (m', left)" "length bs < 2 ^ 64"
  shows "m_writable m' = m_writable m \<and> left \<le> length bs
    \<and> (\<forall>x. m_byte m' x = (if unat (x - a) < length bs - left then Some (bs ! unat (x - a)) else m_byte m x))
    \<and> (\<forall>i. i < length bs - left \<longrightarrow> stores m (a + of_nat i))
    \<and> (left = 0 \<longleftrightarrow> (\<forall>i. i < length bs \<longrightarrow> stores m (a + of_nat i)))"
  using assms
proof (induction m a bs rule: uaccess_store.induct)
  case (2 m a b bs)
  show ?case
  proof (cases "stores m a")
    case False
    with 2(2) show ?thesis by auto
  next
    case True
    let ?m = "m\<lparr>m_byte := (m_byte m)(a \<mapsto> b)\<rparr>"
    have r: "uaccess_store ?m (a + 1) bs = (m', left)" using 2(2) True by simp
    have ih: "m_writable m' = m_writable m" "left \<le> length bs"
      "\<And>x. m_byte m' x = (if unat (x - (a + 1)) < length bs - left then Some (bs ! unat (x - (a + 1))) else m_byte ?m x)"
      "\<And>i. i < length bs - left \<Longrightarrow> stores ?m (a + 1 + of_nat i)" "left = 0 \<longleftrightarrow> (\<forall>i. i < length bs \<longrightarrow> stores ?m (a + 1 + of_nat i))"
      using 2(1) [OF _ r] True 2(3) by simp_all
    have step: "unat (x - a) = Suc (unat (x - (a + 1)))" if "x \<noteq> a" for x
    proof -
      have "x - a \<noteq> 0" using that by simp
      then have "unat (x - a) = Suc (unat (x - a - 1))" by (metis unat_minus_one Suc_pred' unat_gt_0)
      then show ?thesis by (simp add: algebra_simps)
    qed
    have val: "m_byte m' x = (if unat (x - a) < length (b # bs) - left then Some ((b # bs) ! unat (x - a)) else m_byte m x)" for x
    proof (cases "x = a")
      case True
      have "unat (a - (a + 1)) = 2 ^ 64 - 1" by (simp add: unsigned_minus_1_eq_mask mask_eq_exp_minus_1)
      then have "\<not> unat (a - (a + 1)) < length bs - left" using 2(3) by simp
      with ih(2) ih(3) [of a] True show ?thesis by simp
    next
      case False
      with ih(2) ih(3) [of x] step [OF False] show ?thesis by (auto simp: Suc_diff_le)
    qed
    have dom: "stores ?m (a + 1 + of_nat i) \<longleftrightarrow> stores m (a + of_nat (Suc i))" for i
      using True by (auto simp: add.assoc stores_def)
    have all: "(\<forall>i. i < Suc n \<longrightarrow> stores m (a + of_nat i)) \<longleftrightarrow> (\<forall>i. i < n \<longrightarrow> stores ?m (a + 1 + of_nat i))" for n
      unfolding dom using True by (auto simp del: of_nat_Suc simp: less_Suc_eq_0_disj)
    have "\<forall>i. i < length (b # bs) - left \<longrightarrow> stores m (a + of_nat i)"
      using all [of "length bs - left"] ih(2,4) by (simp add: Suc_diff_le)
    with all [of "length bs"] ih(1,2,5) val show ?thesis by simp
  qed
qed simp

lemma uaccess_strncpy_spec:
  assumes "uaccess_strncpy m a n = (bs, r)"
  shows "length bs \<le> n \<and> (\<forall>i. i < length bs \<longrightarrow> m_byte m (a + of_nat i) = Some (bs ! i))
    \<and> (if r < 0 then r = -1 \<and> m_byte m (a + of_nat (length bs)) = None
       else (\<forall>i. i < nat r \<longrightarrow> bs ! i \<noteq> 0) \<and> (if nat r = n then length bs = n else length bs = Suc (nat r) \<and> bs ! nat r = 0))"
  using assms
proof (induction m a n arbitrary: bs r rule: uaccess_strncpy.induct)
  case (2 m a n)
  show ?case
  proof (cases "m_byte m a")
    case None
    with 2(2) show ?thesis by simp
  next
    case (Some b)
    show ?thesis
    proof (cases "b = 0")
      case True
      with 2(2) Some show ?thesis by auto
    next
      case False
      obtain cs q where r: "uaccess_strncpy m (a + 1) n = (cs, q)" by force
      then have e: "bs = b # cs" "r = (if q < 0 then q else q + 1)" using 2(2) Some False by simp_all
      note ih = 2(1) [OF Some False r]
      have mem: "m_byte m (a + of_nat i) = Some (bs ! i)" if "i < length bs" for i
        using ih e that Some by (cases i) (simp_all add: add.assoc)
      have nz: "bs ! i \<noteq> 0" if "\<not> q < 0" "i < nat r" for i
        using ih e that False by (cases i) (auto simp: nat_add_distrib)
      have nr: "nat r = Suc (nat q)" if "\<not> q < 0" using e that by (simp add: Suc_nat_eq_nat_zadd1)
      from ih e mem nz nr show ?thesis by (auto simp: add.assoc)
    qed
  qed
qed simp

subsection \<open>The transfers\<close>

lemma copy_to_user_spec:
  assumes "length bs < 2 ^ 64"
  shows "case copy_to_user m dst bs of (m', r) \<Rightarrow>
      m_writable m' = m_writable m \<and> (\<forall>a. a \<notin> user_window \<or> \<not> m_writable m a \<longrightarrow> m_byte m' a = m_byte m a)
      \<and> (r = 0 \<longleftrightarrow> user_range_valid dst (of_nat (length bs)) \<and> (\<forall>i. i < length bs \<longrightarrow> stores m (dst + of_nat i)))
      \<and> (r = 0 \<longrightarrow> m_byte m' = (\<lambda>a. if unat (a - dst) < length bs then Some (bs ! unat (a - dst)) else m_byte m a))
      \<and> (r \<noteq> 0 \<longrightarrow> r = - EFAULT)"
proof (cases "user_range_valid dst (of_nat (length bs))")
  case False
  then show ?thesis by (simp add: copy_to_user_def EFAULT_def)
next
  case True
  obtain m' left where st: "uaccess_store m dst bs = (m', left)" by force
  note sp = uaccess_store_spec [OF st assms]
  have e: "copy_to_user m dst bs = (m', if left \<noteq> 0 then - EFAULT else 0)" using True st by (simp add: copy_to_user_def)
  have len: "unat (of_nat (length bs) :: u64) = length bs" by (rule unat_of_nat64 [OF assms])
  have "m_byte m' a = m_byte m a" if a: "a \<notin> user_window \<or> \<not> m_writable m a" for a
  proof -
    have "\<not> unat (a - dst) < length bs - left"
    proof
      assume l: "unat (a - dst) < length bs - left"
      then have "stores m (dst + of_nat (unat (a - dst)))" using sp by blast
      moreover have "dst + of_nat (unat (a - dst)) \<in> user_window" by (rule range_window(1) [OF True]) (use l len in linarith)
      ultimately show False using a by (simp add: stores_def)
    qed
    with sp show ?thesis by simp
  qed
  with sp True show ?thesis unfolding e by (auto simp: EFAULT_def)
qed

lemma copy_from_user_spec:
  "(snd (copy_from_user m src len) = 0 \<longleftrightarrow> user_range_valid src len \<and> (\<forall>i. i < unat len \<longrightarrow> m_byte m (src + of_nat i) \<noteq> None))
   \<and> (snd (copy_from_user m src len) = 0 \<longrightarrow> map Some (fst (copy_from_user m src len)) = map (\<lambda>i. m_byte m (src + of_nat i)) [0 ..< unat len])
   \<and> ((\<forall>a. a \<in> user_window \<longrightarrow> m_byte m2 a = m_byte m a) \<longrightarrow> copy_from_user m2 src len = copy_from_user m src len)"
proof (cases "user_range_valid src len")
  case False
  then show ?thesis by (simp add: copy_from_user_def EFAULT_def)
next
  case True
  obtain bs left where ld: "uaccess_load m src (unat len) = (bs, left)" by force
  note sp = uaccess_load_spec [OF ld]
  have e: "copy_from_user m src len = (bs, if left \<noteq> 0 then - EFAULT else 0)" using True ld by (simp add: copy_from_user_def)
  have zero: "left = 0 \<longleftrightarrow> (\<forall>i. i < unat len \<longrightarrow> m_byte m (src + of_nat i) \<noteq> None)"
  proof
    assume "left = 0"
    then show "\<forall>i. i < unat len \<longrightarrow> m_byte m (src + of_nat i) \<noteq> None" using sp(1,2) by auto
  next
    assume all: "\<forall>i. i < unat len \<longrightarrow> m_byte m (src + of_nat i) \<noteq> None"
    show "left = 0"
    proof (rule ccontr)
      assume n: "left \<noteq> 0"
      then have "length bs < unat len" using sp(1) by simp
      then show False using all sp(3) [OF n] by blast
    qed
  qed
  have bytes: "map Some bs = map (\<lambda>i. m_byte m (src + of_nat i)) [0 ..< unat len]" if "left = 0"
    using sp(1,2) that by (intro nth_equalityI) simp_all
  have "copy_from_user m2 src len = copy_from_user m src len" if w: "\<forall>a. a \<in> user_window \<longrightarrow> m_byte m2 a = m_byte m a"
  proof -
    have "uaccess_load m2 src (unat len) = uaccess_load m src (unat len)"
      by (rule uaccess_load_local) (use range_window(1) [OF True] w in blast)
    then show ?thesis by (simp add: copy_from_user_def)
  qed
  with zero bytes True show ?thesis by (simp add: e EFAULT_def)
qed

lemma copy_from_user_ok:
  "snd (copy_from_user m src len) = 0 \<longleftrightarrow> user_range_valid src len \<and> (\<forall>i. i < unat len \<longrightarrow> m_byte m (src + of_nat i) \<noteq> None)"
  using copy_from_user_spec [of m src len m] by blast

lemma copy_from_user_bytes:
  "snd (copy_from_user m src len) = 0 \<Longrightarrow> map Some (fst (copy_from_user m src len)) = map (\<lambda>i. m_byte m (src + of_nat i)) [0 ..< unat len]"
  using copy_from_user_spec [of m src len m] by blast

subsection \<open>Properties\<close>

text \<open>
  C4. copy_to_user never writes outside the user window and never to a page that is not writable,
  whatever address and length it is given; it returns 0 exactly when the range lies in the window
  and every byte of it is mapped and writable, and then the range holds the bytes and nothing else
  changed; otherwise it returns -EFAULT.
\<close>

theorem copy_to_user_confined:
  assumes "length bs < 2 ^ 64"
  shows "case copy_to_user m dst bs of (m', r) \<Rightarrow>
      m_writable m' = m_writable m \<and> (\<forall>a. a \<notin> user_window \<or> \<not> m_writable m a \<longrightarrow> m_byte m' a = m_byte m a)
      \<and> (r = 0 \<longleftrightarrow> user_range_valid dst (of_nat (length bs))
           \<and> (\<forall>i. i < length bs \<longrightarrow> m_byte m (dst + of_nat i) \<noteq> None \<and> m_writable m (dst + of_nat i)))
      \<and> (r = 0 \<longrightarrow> m_byte m' = (\<lambda>a. if unat (a - dst) < length bs then Some (bs ! unat (a - dst)) else m_byte m a))
      \<and> (r \<noteq> 0 \<longrightarrow> r = - EFAULT)"
  using copy_to_user_spec [OF assms, of m dst] unfolding stores_def .

text \<open>Zeros in the user window, whose page at 0x100001000 is read-only.\<close>

definition flat_memory :: memory where
  "flat_memory = \<lparr>m_byte = \<lambda>a. if a \<in> user_window then Some 0 else Some 1, m_writable = \<lambda>a. a AND NOT 0xFFF \<noteq> 0x100001000\<rparr>"

lemma flat_range: "user_range_valid 0x100000000 3"
  by (simp add: user_range_valid_iff)

theorem copy_to_user_confined_witness:
  "(case copy_to_user flat_memory 0x100000000 [1, 2, 3] of (m', r) \<Rightarrow> r = 0 \<and> m_byte m' 0x100000001 = Some 2 \<and> m_byte m' 0xFFFFFFFF = Some 1)
   \<and> (case copy_to_user flat_memory 0x100000FFE [1, 2, 3] of (m', r) \<Rightarrow> r = - EFAULT \<and> m_byte m' 0x100001000 = Some 0)"
proof
  have "\<forall>i. i < length [1, 2, 3 :: u8] \<longrightarrow> m_byte flat_memory (0x100000000 + of_nat i) \<noteq> None \<and> m_writable flat_memory (0x100000000 + of_nat i)"
    by (auto simp: flat_memory_def less_Suc_eq numeral_3_eq_3)
  then show "case copy_to_user flat_memory 0x100000000 [1, 2, 3] of (m', r) \<Rightarrow> r = 0 \<and> m_byte m' 0x100000001 = Some 2 \<and> m_byte m' 0xFFFFFFFF = Some 1"
    using copy_to_user_confined [of "[1, 2, 3]" flat_memory "0x100000000"] flat_range
    by (simp add: split_beta) (simp add: flat_memory_def in_window)
  have "\<not> (\<forall>i. i < length [1, 2, 3 :: u8] \<longrightarrow> m_byte flat_memory (0x100000FFE + of_nat i) \<noteq> None \<and> m_writable flat_memory (0x100000FFE + of_nat i))"
    by (auto simp: flat_memory_def intro!: exI [of _ 2])
  then show "case copy_to_user flat_memory 0x100000FFE [1, 2, 3] of (m', r) \<Rightarrow> r = - EFAULT \<and> m_byte m' 0x100001000 = Some 0"
    using copy_to_user_confined [of "[1, 2, 3]" flat_memory "0x100000FFE"] by (auto simp: split_beta flat_memory_def in_window)
qed

text \<open>
  C26. copy_from_user returns 0 exactly when the range lies in the user window and is mapped,
  and then delivers the bytes of the range; its result does not depend on any byte outside
  the window, so no kernel data can be read through it.
\<close>

theorem copy_from_user_correct:
  "(snd (copy_from_user m src len) = 0 \<longleftrightarrow> user_range_valid src len \<and> (\<forall>i. i < unat len \<longrightarrow> m_byte m (src + of_nat i) \<noteq> None))
   \<and> (snd (copy_from_user m src len) = 0 \<longrightarrow> map Some (fst (copy_from_user m src len)) = map (\<lambda>i. m_byte m (src + of_nat i)) [0 ..< unat len])
   \<and> ((\<forall>a. a \<in> user_window \<longrightarrow> m_byte m2 a = m_byte m a) \<longrightarrow> copy_from_user m2 src len = copy_from_user m src len)"
  by (rule copy_from_user_spec)

theorem copy_from_user_correct_witness:
  "snd (copy_from_user flat_memory 0x100000000 3) = 0 \<and> fst (copy_from_user flat_memory 0x100000000 3) = [0, 0, 0]"
proof -
  have "\<forall>i. i < 3 \<longrightarrow> m_byte flat_memory (0x100000000 + of_nat i) = Some 0"
    using range_window(1) [OF flat_range] by (simp add: flat_memory_def)
  then have m: "i < 3 \<Longrightarrow> m_byte flat_memory (0x100000000 + of_nat i) = Some 0" for i by blast
  have "snd (copy_from_user flat_memory 0x100000000 3) = 0"
    using copy_from_user_correct [of flat_memory "0x100000000" 3 flat_memory] m flat_range by simp
  moreover from this have "map Some (fst (copy_from_user flat_memory 0x100000000 3)) = map Some [0, 0, 0]"
    using copy_from_user_correct [of flat_memory "0x100000000" 3 flat_memory] m [of 0] m [of 1] m [of 2] by (simp add: upt_rec)
  ultimately show ?thesis using inj_map_eq_map [OF inj_Some] by blast
qed

text \<open>strncpy_from_user never reads beyond the user window.  A non-negative result n means the
  buffer starts with n non-zero bytes read from the user string and a NUL; every other result
  is -EFAULT or -ENAMETOOLONG, and -ENAMETOOLONG leaves the buffer terminated.
\<close>

theorem strncpy_from_user_correct:
  assumes "unat maxn \<le> length dst"
  shows "case strncpy_from_user m dst s maxn of (d, r) \<Rightarrow>
      (if 0 \<le> r
       then nat r < unat maxn \<and> d ! nat r = 0
         \<and> (\<forall>i. i < nat r \<longrightarrow> d ! i \<noteq> 0 \<and> s + of_nat i \<in> user_window \<and> m_byte m (s + of_nat i) = Some (d ! i))
       else r = - EFAULT \<or> r = - ENAMETOOLONG \<and> (maxn \<noteq> 0 \<longrightarrow> d ! unat (maxn - 1) = 0))"
proof (cases "maxn = 0 \<or> s < USER_ADDR_MIN \<or> s \<ge> USER_ADDR_MAX")
  case True
  then show ?thesis
    by (cases "maxn = 0") (simp_all add: strncpy_from_user_def EFAULT_def ENAMETOOLONG_def)
next
  case False
  define lim where "lim = (if maxn > USER_ADDR_MAX - s then USER_ADDR_MAX - s else maxn)"
  obtain bs n where st: "uaccess_strncpy m s (unat lim) = (bs, n)" by force
  note sp = uaccess_strncpy_spec [OF st]
  let ?d = "bs @ drop (length bs) dst"
  have e: "strncpy_from_user m dst s maxn = (if n < 0 then (?d, - EFAULT)
      else if n = uint lim then (?d[unat (maxn - 1) := 0], if lim < maxn then - EFAULT else - ENAMETOOLONG) else (?d, n))"
    unfolding strncpy_from_user_def Let_def lim_def [symmetric] st prod.case using False by (simp only: de_Morgan_disj simp_thms if_False)
  have le: "lim \<le> maxn" unfolding lim_def by (split if_split) (blast intro: less_imp_le order_refl)
  then have lm: "unat lim \<le> unat maxn" by (simp add: word_le_nat_alt)
  have mx: "0 < unat maxn" using False by (simp add: unat_gt_0)
  have "unat (maxn - 1) = unat maxn - 1" using False by (intro unat_minus_one) simp
  then have last: "unat (maxn - 1) < length ?d" using assms mx by simp
  have dist: "unat (USER_ADDR_MAX - s) = unat USER_ADDR_MAX - unat s" using False by (intro unat_sub64) (simp add: not_le word_less_nat_alt)
  have win: "s + of_nat i \<in> user_window" if "i < unat lim" for i
  proof (rule range_window(1) [of s lim i])
    have "lim \<le> USER_ADDR_MAX - s" unfolding lim_def by (split if_split) (blast intro: leI order_refl)
    then have "unat lim \<le> unat USER_ADDR_MAX - unat s" unfolding word_le_nat_alt dist .
    moreover have "unat USER_ADDR_MIN \<le> unat s" "unat s < unat USER_ADDR_MAX" using False by (simp_all only: word_less_nat_alt word_le_nat_alt de_Morgan_disj not_less not_le)
    moreover have "unat USER_ADDR_MIN = 0x100000000" "unat USER_ADDR_MAX = 0x800000000000"
      by (simp_all add: USER_ADDR_MIN_def USER_ADDR_MAX_def)
    ultimately show "user_range_valid s lim" using that unfolding user_range_valid_iff by linarith
  qed (rule that)
  show ?thesis
  proof (cases "n < 0 \<or> n = uint lim")
    case True
    have "(?d[unat (maxn - 1) := 0]) ! unat (maxn - 1) = 0" using last by simp
    with True show ?thesis unfolding e by (cases "n < 0") (simp_all add: EFAULT_def ENAMETOOLONG_def)
  next
    case nz: False
    have ne: "nat n \<noteq> unat lim" using nz unfolding uint_nat by linarith
    have n0: "\<not> n < 0" using nz by simp
    have mem: "\<forall>i. i < length bs \<longrightarrow> m_byte m (s + of_nat i) = Some (bs ! i)" using sp by (rule conjunct2 [THEN conjunct1])
    have "(\<forall>i. i < nat n \<longrightarrow> bs ! i \<noteq> 0) \<and> length bs = Suc (nat n) \<and> bs ! nat n = 0"
      using sp [THEN conjunct2, THEN conjunct2, unfolded if_not_P [OF n0] if_not_P [OF ne]] .
    moreover have "length bs \<le> unat lim" using sp by (rule conjunct1)
    ultimately have b: "length bs = Suc (nat n)" "bs ! nat n = 0" "Suc (nat n) \<le> unat lim"
      "\<And>i. i < nat n \<Longrightarrow> bs ! i \<noteq> 0" "\<And>i. i < nat n \<Longrightarrow> m_byte m (s + of_nat i) = Some (bs ! i)"
      using mem by simp_all
    have d: "?d ! i = bs ! i" if "i \<le> nat n" for i using that b(1) by (simp add: nth_append)
    have "strncpy_from_user m dst s maxn = (?d, n)" unfolding e using nz by (simp only: de_Morgan_disj if_False simp_thms)
    moreover have "nat n < unat maxn" using b(3) lm by linarith
    moreover have "s + of_nat i \<in> user_window" if "i < nat n" for i using win [of i] that b(3) by linarith
    ultimately show ?thesis using d b n0 by simp
  qed
qed

end
