(* ===== verification/Vfs.thy ===== *)
theory Vfs
  imports Arrays
begin

text \<open>
  The virtual file system (fs/vfs.c, fs/vfs.h): the mount table, the routing of a path to
  the mount that owns it, the path walk with symbolic links and search permission checks,
  and the entry operations built on it.

  A file system is the table of functions it registers (\<^verbatim>\<open>vfs_fs_ops_t\<close>), here a
  record over the state \<^typ>\<open>'w\<close> of all file systems; an operation the table leaves NULL is
  \<^const>\<open>None\<close>.  A pointer to a table is its number in \<^verbatim>\<open>tab\<close>.  Paths are C strings,
  so they hold no NUL character; the empty string also stands for a NULL path.  Locking is
  left out, and the page cache invalidations are recorded in \<^verbatim>\<open>pc_inval\<close>.
\<close>

datatype vfs_node_type = VFS_NODE_FILE | VFS_NODE_DIR | VFS_NODE_SYMLINK

record vfs_inode =
  i_type :: vfs_node_type
  i_size :: nat
  i_ops :: "nat option"
  i_mode :: u32
  i_uid :: u32
  i_gid :: u32
  i_atime :: u64
  i_mtime :: u64

record vfs_attr =
  a_mode :: u32
  a_uid :: u32
  a_gid :: u32
  a_atime :: u64
  a_mtime :: u64

definition VFS_ATTR_MODE :: u32 where "VFS_ATTR_MODE = 0x01"
definition VFS_ATTR_UID :: u32 where "VFS_ATTR_UID = 0x02"
definition VFS_ATTR_GID :: u32 where "VFS_ATTR_GID = 0x04"
definition VFS_ATTR_ATIME :: u32 where "VFS_ATTR_ATIME = 0x08"
definition VFS_ATTR_MTIME :: u32 where "VFS_ATTR_MTIME = 0x10"

text \<open>
  \<^verbatim>\<open>op_poke\<close> is the store through the inode pointer that the lookup of a path returned.
\<close>

record 'w vfs_fs_ops =
  op_flags :: u32
  op_lookup :: "'w \<Rightarrow> string \<Rightarrow> vfs_inode option"
  op_poke :: "'w \<Rightarrow> string \<Rightarrow> vfs_inode \<Rightarrow> 'w"
  op_readdir :: "'w \<Rightarrow> string \<Rightarrow> int \<times> vfs_inode list"
  op_read :: "'w \<Rightarrow> vfs_inode \<Rightarrow> nat \<Rightarrow> nat \<Rightarrow> int \<times> u8 list"
  op_write :: "'w \<Rightarrow> vfs_inode \<Rightarrow> nat \<Rightarrow> u8 list \<Rightarrow> 'w \<times> int"
  op_create :: "'w \<Rightarrow> string \<Rightarrow> u8 list \<Rightarrow> 'w \<times> int"
  op_mkdir :: "'w \<Rightarrow> string \<Rightarrow> 'w \<times> int"
  op_remove :: "'w \<Rightarrow> string \<Rightarrow> 'w \<times> int"
  op_rename :: "('w \<Rightarrow> string \<Rightarrow> string \<Rightarrow> 'w \<times> int) option"
  op_truncate :: "('w \<Rightarrow> string \<Rightarrow> nat \<Rightarrow> 'w \<times> int) option"
  op_setattr :: "('w \<Rightarrow> string \<Rightarrow> vfs_attr \<Rightarrow> u32 \<Rightarrow> 'w \<times> int) option"
  op_readlink :: "('w \<Rightarrow> string \<Rightarrow> int \<times> string) option"
  op_symlink :: "('w \<Rightarrow> string \<Rightarrow> string \<Rightarrow> 'w \<times> int) option"
  op_sync :: "('w \<Rightarrow> 'w \<times> int) option"
  op_link :: "('w \<Rightarrow> string \<Rightarrow> string \<Rightarrow> 'w \<times> int) option"
  op_mntinfo :: "('w \<Rightarrow> int \<times> string option) option"

record vfs_mount_t =
  m_point :: string
  m_store :: "nat option"
  m_ops :: nat
  m_name :: string
  m_dev :: u64

definition VFS_MAX_MOUNTS :: nat where
  "VFS_MAX_MOUNTS = 12"

record 'w vfs_state =
  g_mounts :: "vfs_mount_t list"
  g_mp_used :: "bool list"
  g_anon_minor :: u64
  pc_inval :: "nat list"
  fs_world :: 'w

type_synonym 'w fs_table = "nat \<Rightarrow> 'w vfs_fs_ops"

subsection \<open>Device numbers\<close>

definition vfs_makedev :: "u64 \<Rightarrow> u64 \<Rightarrow> u64" where
  "vfs_makedev ma mi = push_bit 8 (ma AND 0xfff) OR push_bit 32 (ma AND NOT 0xfff)
     OR (mi AND 0xff) OR push_bit 12 (mi AND NOT 0xff)"

definition char_in :: "char \<Rightarrow> char \<Rightarrow> char \<Rightarrow> bool" where
  "char_in lo hi c \<longleftrightarrow> (of_char lo :: nat) \<le> of_char c \<and> (of_char c :: nat) \<le> of_char hi"

definition is_digit :: "char \<Rightarrow> bool" where
  "is_digit c \<longleftrightarrow> char_in (CHR ''0'') (CHR ''9'') c"

definition char_diff :: "char \<Rightarrow> char \<Rightarrow> u64" where
  "char_diff c d = of_char c - of_char d"

fun part_digits :: "string \<Rightarrow> u64 \<Rightarrow> u64 option" where
  "part_digits [] v = Some v"
| "part_digits (c # t) v = (if \<not> is_digit c then None else part_digits t (v * 10 + char_diff c (CHR ''0'')))"

text \<open>The partition number, when the suffix is accepted.\<close>

definition vfs_part_suffix :: "string \<Rightarrow> u64 option" where
  "vfs_part_suffix t =
    (if t = [] then Some 0
     else case part_digits t 0 of None \<Rightarrow> None | Some v \<Rightarrow> if v < 16 then Some v else None)"

definition read_digits :: "string \<Rightarrow> u64" where
  "read_digits t = foldl (\<lambda>c d. c * 10 + char_diff d (CHR ''0'')) 0 (takeWhile is_digit t)"

definition fnv_hash :: "string \<Rightarrow> u32" where
  "fnv_hash s = foldl (\<lambda>h c. (h XOR of_char c) * 16777619) 2166136261 s"

definition other_dev :: "string \<Rightarrow> u64" where
  "other_dev n = vfs_makedev 240 (ucast (fnv_hash n AND 0xfffff))"

definition skip_p :: "string \<Rightarrow> string" where
  "skip_p q = (case q of c # r \<Rightarrow> if c = CHR ''p'' then r else q | [] \<Rightarrow> q)"

definition nvme_dev :: "string \<Rightarrow> u64 option" where
  "nvme_dev q =
    (let c = read_digits q; q1 = dropWhile is_digit q;
         (ns, q2) = (case q1 of
             d # r \<Rightarrow> if d = CHR ''n'' then (read_digits r, dropWhile is_digit r) else (0, q1)
           | [] \<Rightarrow> (0, q1))
     in if ns \<noteq> 0 then
          (case vfs_part_suffix (skip_p q2) of
             Some part \<Rightarrow> Some (vfs_makedev 259 (((c * 16 + ns - 1) * 16 + part) AND 0xfffff))
           | None \<Rightarrow> None)
        else None)"

definition vfs_blkdev_id :: "string \<Rightarrow> u64" where
  "vfs_blkdev_id n =
    (if n = [] then 0
     else case n of
       a # b # c # t \<Rightarrow>
         if (a = CHR ''v'' \<or> a = CHR ''s'') \<and> b = CHR ''d'' \<and> char_in (CHR ''a'') (CHR ''z'') c then
           (case vfs_part_suffix t of
              Some part \<Rightarrow> vfs_makedev (if a = CHR ''v'' then 253 else 8) (char_diff c (CHR ''a'') * 16 + part)
            | None \<Rightarrow> other_dev n)
         else (case t of
             d # q \<Rightarrow>
               if [a, b, c, d] = ''nvme'' then (case nvme_dev q of Some v \<Rightarrow> v | None \<Rightarrow> other_dev n)
               else if [a, b, c] = ''usb'' \<and> is_digit d then
                 (case vfs_part_suffix (skip_p q) of
                    Some part \<Rightarrow> vfs_makedev 8 ((char_diff d (CHR ''0'') + 8) * 16 + part)
                  | None \<Rightarrow> other_dev n)
               else other_dev n
           | [] \<Rightarrow> other_dev n)
     | _ \<Rightarrow> other_dev n)"

definition strip_dev :: "string \<Rightarrow> string" where
  "strip_dev s = (if take 5 s = ''/dev/'' then drop 5 s else s)"

definition vfs_dev_for :: "'w fs_table \<Rightarrow> 'w \<Rightarrow> nat \<Rightarrow> u64" where
  "vfs_dev_for tab w ops = (case op_mntinfo (tab ops) of
     None \<Rightarrow> 0
   | Some mi \<Rightarrow> (case mi w of
       (r, Some src) \<Rightarrow> if r = 0 \<and> src \<noteq> [] then vfs_blkdev_id (strip_dev src) else 0
     | (_, None) \<Rightarrow> 0))"

subsection \<open>The mount table\<close>

definition vfs_init :: "'w vfs_state \<Rightarrow> 'w vfs_state" where
  "vfs_init s = s\<lparr>g_mounts := [], g_mp_used := replicate VFS_MAX_MOUNTS False\<rparr>"

definition find_mount_by_point :: "vfs_mount_t list \<Rightarrow> string \<Rightarrow> nat option" where
  "find_mount_by_point ms mp = find_index (\<lambda>m. m_point m = mp) ms"

definition pagecache_drop :: "'w vfs_state \<Rightarrow> nat \<Rightarrow> 'w vfs_state" where
  "pagecache_drop s ops = s\<lparr>pc_inval := pc_inval s @ [ops]\<rparr>"

text \<open>Append an entry; a mount without a block device takes the next anonymous number.\<close>

definition push_mount :: "'w vfs_state \<Rightarrow> string \<Rightarrow> nat option \<Rightarrow> nat \<Rightarrow> string \<Rightarrow> u64 \<Rightarrow> 'w vfs_state" where
  "push_mount s mp slot ops name dev =
    (let minor = (if dev \<noteq> 0 then g_anon_minor s else g_anon_minor s + 1)
     in s\<lparr>g_mounts := g_mounts s @ [\<lparr>m_point = mp, m_store = slot, m_ops = ops, m_name = name,
            m_dev = (if dev \<noteq> 0 then dev else vfs_makedev 0 minor)\<rparr>],
          g_anon_minor := minor\<rparr>)"

definition vfs_mount_root :: "'w fs_table \<Rightarrow> 'w vfs_state \<Rightarrow> nat \<Rightarrow> string \<Rightarrow> 'w vfs_state \<times> int" where
  "vfs_mount_root tab s ops name =
    (let dev = vfs_dev_for tab (fs_world s) ops; s = pagecache_drop s ops
     in if find_mount_by_point (g_mounts s) ''/'' \<noteq> None then (s, -1)
        else if length (g_mounts s) \<ge> VFS_MAX_MOUNTS then (s, -1)
        else (push_mount s ''/'' None ops name dev, 0))"

definition vfs_replace_root :: "'w fs_table \<Rightarrow> 'w vfs_state \<Rightarrow> nat \<Rightarrow> string \<Rightarrow> 'w vfs_state \<times> int" where
  "vfs_replace_root tab s ops name =
    (let dev = vfs_dev_for tab (fs_world s) ops
     in case find_mount_by_point (g_mounts s) ''/'' of
          Some i \<Rightarrow>
            let m = g_mounts s ! i; old = m_ops m;
                m' = m\<lparr>m_ops := ops, m_name := name, m_dev := (if dev \<noteq> 0 then dev else m_dev m)\<rparr>;
                s1 = s\<lparr>g_mounts := (g_mounts s)[i := m']\<rparr>;
                s2 = (if old \<noteq> ops then pagecache_drop s1 old else s1)
            in (pagecache_drop s2 ops, 0)
        | None \<Rightarrow> vfs_mount_root tab s ops name)"

definition strip_slashes :: "string \<Rightarrow> string" where
  "strip_slashes mp = hd mp # rev (dropWhile (\<lambda>c. c = CHR ''/'') (rev (tl mp)))"

definition vfs_mount :: "'w fs_table \<Rightarrow> 'w vfs_state \<Rightarrow> string \<Rightarrow> nat \<Rightarrow> string \<Rightarrow> 'w vfs_state \<times> int" where
  "vfs_mount tab s mount_point ops name =
    (if mount_point = [] \<or> hd mount_point \<noteq> CHR ''/'' then (s, -1)
     else if length mount_point > 255 then (s, -1)
     else let mp = strip_slashes mount_point in
       if length mp = 1 then (s, -1)
       else let dev = vfs_dev_for tab (fs_world s) ops in
         if find_mount_by_point (g_mounts s) mp \<noteq> None then (s, -1)
         else if length (g_mounts s) \<ge> VFS_MAX_MOUNTS then (s, -1)
         else (case find_index (\<lambda>u. \<not> u) (g_mp_used s) of
             None \<Rightarrow> (s, -1)
           | Some k \<Rightarrow>
               (pagecache_drop (push_mount (s\<lparr>g_mp_used := (g_mp_used s)[k := True]\<rparr>) mp (Some k) ops name dev) ops, 0)))"

definition mp_store_put :: "bool list \<Rightarrow> nat option \<Rightarrow> bool list" where
  "mp_store_put used slot = (case slot of None \<Rightarrow> used | Some k \<Rightarrow> used[k := False])"

definition remove_nth :: "nat \<Rightarrow> 'a list \<Rightarrow> 'a list" where
  "remove_nth i xs = take i xs @ drop (Suc i) xs"

definition vfs_unmount :: "'w vfs_state \<Rightarrow> string \<Rightarrow> 'w vfs_state \<times> int" where
  "vfs_unmount s mount_point =
    (if mount_point = ''/'' then (s, -1)
     else case find_mount_by_point (g_mounts s) mount_point of
       None \<Rightarrow> (s, -1)
     | Some i \<Rightarrow>
         let m = g_mounts s ! i;
             s1 = s\<lparr>g_mounts := remove_nth i (g_mounts s), g_mp_used := mp_store_put (g_mp_used s) (m_store m)\<rparr>
         in (if m_ops m \<in> m_ops ` set (g_mounts s1) then s1 else pagecache_drop s1 (m_ops m), 0))"

text \<open>One call of the sync callback per distinct file system, in table order.\<close>

definition vfs_sync_all :: "'w fs_table \<Rightarrow> 'w vfs_state \<Rightarrow> 'w vfs_state \<times> int" where
  "vfs_sync_all tab s =
    (let ids = rev (remdups (rev (map m_ops (g_mounts s))));
         (w, done) = foldl (\<lambda>(w, done) i. case op_sync (tab i) of
             None \<Rightarrow> (w, done)
           | Some f \<Rightarrow> (case f w of (w', r) \<Rightarrow> (w', if r = 0 then done + 1 else done))) (fs_world s, 0) ids
     in (s\<lparr>fs_world := w\<rparr>, done))"

definition vfs_unmount_all :: "'w vfs_state \<Rightarrow> 'w vfs_state \<times> int" where
  "vfs_unmount_all s =
    (let gone = filter (\<lambda>m. m_point m \<noteq> ''/'') (g_mounts s)
     in (s\<lparr>g_mounts := filter (\<lambda>m. m_point m = ''/'') (g_mounts s),
           g_mp_used := foldl mp_store_put (g_mp_used s) (map m_store gone)\<rparr>, int (length gone)))"

subsection \<open>Routing a path to its mount\<close>

text \<open>Does the mount point own the path: a prefix that ends at a component boundary.\<close>

definition mount_match :: "string \<Rightarrow> string \<Rightarrow> bool" where
  "mount_match mp path \<longleftrightarrow> take (length mp) path = mp \<and>
     (mp = ''/'' \<or> length path = length mp \<or> length mp < length path \<and> path ! length mp = CHR ''/'')"

fun resolve_best :: "vfs_mount_t list \<Rightarrow> string \<Rightarrow> vfs_mount_t option \<Rightarrow> nat \<Rightarrow> vfs_mount_t option" where
  "resolve_best [] path best best_len = best"
| "resolve_best (m # ms) path best best_len =
    (let mp = m_point m; mlen = length mp in
     if \<not> mount_match mp path then resolve_best ms path best best_len
     else if mp = ''/'' then
       (if best_len = 0 then resolve_best ms path (Some m) 1 else resolve_best ms path best best_len)
     else if mlen > best_len then resolve_best ms path (Some m) mlen
     else resolve_best ms path best best_len)"

definition rel_path :: "string \<Rightarrow> string \<Rightarrow> nat \<Rightarrow> string" where
  "rel_path mp path rel_sz =
    (let tail = (if mp = ''/'' then path else drop (length mp) path)
     in if tail = [] then ''/''
        else take (rel_sz - 1) (if hd tail \<noteq> CHR ''/'' then CHR ''/'' # tail else tail))"

definition vfs_resolve :: "vfs_mount_t list \<Rightarrow> string \<Rightarrow> nat \<Rightarrow> (vfs_mount_t \<times> string) option" where
  "vfs_resolve ms path rel_sz =
    (let path = (if path = [] then ''/'' else path)
     in case resolve_best ms path None 0 of
          None \<Rightarrow> None
        | Some m \<Rightarrow> Some (m, rel_path (m_point m) path rel_sz))"

definition vfs_mount_point_for :: "vfs_mount_t list \<Rightarrow> string \<Rightarrow> string option" where
  "vfs_mount_point_for ms path = map_option (\<lambda>(m, rel). m_point m) (vfs_resolve ms path 256)"

definition vfs_lookup :: "'w fs_table \<Rightarrow> 'w vfs_state \<Rightarrow> string \<Rightarrow> vfs_inode option" where
  "vfs_lookup tab s path = (case vfs_resolve (g_mounts s) path 256 of
     None \<Rightarrow> None
   | Some (m, rel) \<Rightarrow> map_option (\<lambda>ino. ino\<lparr>i_ops := Some (m_ops m)\<rparr>) (op_lookup (tab (m_ops m)) (fs_world s) rel))"

subsection \<open>The path walk\<close>

definition VFS_MAXHOPS :: nat where
  "VFS_MAXHOPS = 40"

definition VFS_PATH :: nat where
  "VFS_PATH = 256"

definition is_slash :: "char \<Rightarrow> bool" where
  "is_slash c \<longleftrightarrow> c = CHR ''/''"

definition vfs_copy :: "string \<Rightarrow> nat \<Rightarrow> string option" where
  "vfs_copy s cap = (if length s \<le> cap - 1 then Some s else None)"

text \<open>The canonical prefix without its last component.\<close>

definition drop_last :: "string \<Rightarrow> string" where
  "drop_last res = rev (drop 1 (dropWhile (\<lambda>c. \<not> is_slash c) (rev res)))"

text \<open>
  The link's target as the file system reports it.  The walk reads it through
  \<^verbatim>\<open>vfs_readlink\<close>, whose canonicalisation is the identity there: the prefix is canonical
  and its parent has just been found to be a directory.
\<close>

definition readlink_at :: "'w fs_table \<Rightarrow> 'w vfs_state \<Rightarrow> string \<Rightarrow> int \<times> string" where
  "readlink_at tab s cp = (case vfs_resolve (g_mounts s) cp 256 of
     None \<Rightarrow> (-1, [])
   | Some (m, rel) \<Rightarrow> (case op_readlink (tab (m_ops m)) of None \<Rightarrow> (-1, []) | Some f \<Rightarrow> f (fs_world s) rel))"

text \<open>The path that replaces a link: its target, relative to the directory holding it, then the rest.\<close>

definition link_path :: "string \<Rightarrow> string \<Rightarrow> string \<Rightarrow> string" where
  "link_path base tgt rest =
    (if tgt \<noteq> [] \<and> is_slash (hd tgt) then tgt else base @ ''/'' @ tgt) @ (if rest \<noteq> [] then ''/'' @ rest else [])"

definition search_root :: "'w fs_table \<Rightarrow> 'w vfs_state \<Rightarrow> (vfs_inode \<Rightarrow> int) option \<Rightarrow> int" where
  "search_root tab s search = (case search of
     None \<Rightarrow> 0
   | Some f \<Rightarrow> (case vfs_lookup tab s ''/'' of Some r \<Rightarrow> f r | None \<Rightarrow> 0))"

text \<open>
  One turn of the main loop: \<^verbatim>\<open>res\<close> is the canonical prefix resolved so far,
  \<^verbatim>\<open>todo\<close> what is left.  A turn ends the walk or continues it; following a link
  restarts at the root with one hop more.
\<close>

datatype walk_turn = Walk_done "int + string" | Walk_more nat string string

definition walk_entry :: "'w fs_table \<Rightarrow> 'w vfs_state \<Rightarrow> (vfs_inode \<Rightarrow> int) option \<Rightarrow> nat \<Rightarrow> string \<Rightarrow> string \<Rightarrow> string \<Rightarrow> vfs_inode \<Rightarrow> walk_turn" where
  "walk_entry tab s search hops res res1 rest ino =
    (if i_type ino = VFS_NODE_SYMLINK then
       if hops + 1 > VFS_MAXHOPS then Walk_done (Inl (-40))
       else let (n, tgt) = readlink_at tab s res1 in
         if n \<le> 0 then Walk_done (Inl (-2))
         else if length (link_path res tgt rest) > VFS_PATH - 1 then Walk_done (Inl (-36))
         else if search_root tab s search \<noteq> 0 then Walk_done (Inl (search_root tab s search))
         else Walk_more (hops + 1) [] (link_path res tgt rest)
     else if rest \<noteq> [] \<and> i_type ino \<noteq> VFS_NODE_DIR then Walk_done (Inl (-20))
     else let se = (if rest = [] then 0 else case search of None \<Rightarrow> 0 | Some f \<Rightarrow> f ino) in
       if se \<noteq> 0 then Walk_done (Inl se) else Walk_more hops res1 rest)"

definition walk_step :: "'w fs_table \<Rightarrow> 'w vfs_state \<Rightarrow> (vfs_inode \<Rightarrow> int) option \<Rightarrow> bool \<Rightarrow> nat \<Rightarrow> string \<Rightarrow> string \<Rightarrow> walk_turn" where
  "walk_step tab s search follow hops res todo =
    (let t = dropWhile is_slash todo in
     if t = [] then Walk_done (Inr res)
     else let c = takeWhile (\<lambda>x. \<not> is_slash x) t;
              rest = dropWhile is_slash (dropWhile (\<lambda>x. \<not> is_slash x) t);
              last = (rest = []) in
       if c = ''.'' then Walk_more hops res rest
       else if c = ''..'' then Walk_more hops (drop_last res) rest
       else if length res + 1 + length c \<ge> VFS_PATH then Walk_done (Inl (-36))
       else let res1 = res @ ''/'' @ c in
         if last \<and> \<not> follow then Walk_done (Inr res1)
         else case vfs_lookup tab s res1 of
             None \<Rightarrow> Walk_done (if last then Inr res1 else Inl (-2))
           | Some ino \<Rightarrow> walk_entry tab s search hops res res1 rest ino)"

lemma walk_rest_shorter:
  assumes "dropWhile is_slash todo \<noteq> []"
  shows "length (dropWhile is_slash (dropWhile (\<lambda>x. \<not> is_slash x) (dropWhile is_slash todo))) < length todo"
proof -
  let ?t = "dropWhile is_slash todo"
  have "\<not> is_slash (hd ?t)" using assms by (rule hd_dropWhile)
  then have "length (dropWhile (\<lambda>x. \<not> is_slash x) ?t) < length ?t"
    using assms by (cases ?t) (simp_all add: le_imp_less_Suc length_dropWhile_le)
  moreover have "length (dropWhile is_slash (dropWhile (\<lambda>x. \<not> is_slash x) ?t)) \<le> length (dropWhile (\<lambda>x. \<not> is_slash x) ?t)"
    by (rule length_dropWhile_le)
  moreover have "length ?t \<le> length todo" by (rule length_dropWhile_le)
  ultimately show ?thesis by linarith
qed

lemma walk_entry_more:
  assumes "walk_entry tab s search hops res res1 rest ino = Walk_more h r t"
  shows "(h = Suc hops \<and> hops < VFS_MAXHOPS \<and> r = [] \<and> search_root tab s search = 0)
    \<or> (h = hops \<and> r = res1 \<and> t = rest
        \<and> (rest \<noteq> [] \<longrightarrow> i_type ino = VFS_NODE_DIR \<and> (case search of None \<Rightarrow> True | Some f \<Rightarrow> f ino = 0)))"
  using assms by (auto simp: walk_entry_def Let_def split: if_splits prod.splits option.splits)

lemma walk_entry_done: "walk_entry tab s search hops res res1 rest ino \<noteq> Walk_done (Inr out)"
  by (auto simp: walk_entry_def Let_def split: prod.splits option.splits)

lemma walk_step_more:
  assumes "walk_step tab s search follow hops res todo = Walk_more h r t"
  shows "(h = Suc hops \<and> hops < VFS_MAXHOPS) \<or> (h = hops \<and> length t < length todo)"
proof (cases "dropWhile is_slash todo = []")
  case True
  with assms show ?thesis by (simp add: walk_step_def)
next
  case False
  with assms walk_rest_shorter [OF False] show ?thesis
    by (auto simp: walk_step_def Let_def simp del: dropWhile_eq_Nil_conv split: if_splits option.splits dest: walk_entry_more)
qed

text \<open>The walk ends: every turn uses up a hop, or keeps the hops and shortens what is left.\<close>

function walk_loop :: "'w fs_table \<Rightarrow> 'w vfs_state \<Rightarrow> (vfs_inode \<Rightarrow> int) option \<Rightarrow> bool \<Rightarrow> nat \<Rightarrow> string \<Rightarrow> string \<Rightarrow> int + string" where
  "walk_loop tab s search follow hops res todo =
    (case walk_step tab s search follow hops res todo of
       Walk_done r \<Rightarrow> r
     | Walk_more hops' res' todo' \<Rightarrow> walk_loop tab s search follow hops' res' todo')"
  by pat_completeness auto

termination walk_loop
  by (relation "measures [\<lambda>(tab, s, search, follow, hops, res, todo). VFS_MAXHOPS - hops,
      \<lambda>(tab, s, search, follow, hops, res, todo). length todo]")
    (auto dest: walk_step_more)

declare walk_loop.simps [simp del]

definition vfs_walk_checked ::
  "'w fs_table \<Rightarrow> 'w vfs_state \<Rightarrow> string \<Rightarrow> nat \<Rightarrow> bool \<Rightarrow> (vfs_inode \<Rightarrow> int) option \<Rightarrow> int + string" where
  "vfs_walk_checked tab s path outsz follow search =
    (if path = [] \<or> \<not> is_slash (hd path) then Inl (-2)
     else case vfs_copy path VFS_PATH of
       None \<Rightarrow> Inl (-36)
     | Some todo \<Rightarrow>
         if search_root tab s search \<noteq> 0 then Inl (search_root tab s search)
         else case walk_loop tab s search follow 0 [] todo of
           Inl e \<Rightarrow> Inl e
         | Inr res \<Rightarrow> (case vfs_copy (if res = [] then ''/'' else res) outsz of
             None \<Rightarrow> Inl (-36) | Some out \<Rightarrow> Inr out))"

definition vfs_walk :: "'w fs_table \<Rightarrow> 'w vfs_state \<Rightarrow> string \<Rightarrow> nat \<Rightarrow> bool \<Rightarrow> int + string" where
  "vfs_walk tab s path outsz follow = vfs_walk_checked tab s path outsz follow None"

text \<open>The directory part of a path: everything before its last slash.\<close>

definition vfs_parent_of :: "string \<Rightarrow> nat \<Rightarrow> string" where
  "vfs_parent_of p cap =
    (let ls = length p - 1 - length (takeWhile (\<lambda>c. \<not> is_slash c) (rev p))
     in if \<not> list_ex is_slash p \<or> ls = 0 then ''/'' else take (min ls (cap - 1)) p)"

definition dot_at :: "string \<Rightarrow> nat \<Rightarrow> bool" where
  "dot_at p i =
    (let at = (\<lambda>k. if k < length p then Some (p ! k) else None);
         brk = (\<lambda>k. at k = None \<or> at k = Some (CHR ''/''))
     in at i = Some (CHR ''.'') \<and> (i = 0 \<or> at (i - 1) = Some (CHR ''/''))
        \<and> (brk (i + 1) \<or> at (i + 1) = Some (CHR ''.'') \<and> brk (i + 2)))"

definition vfs_canon_entry :: "'w fs_table \<Rightarrow> 'w vfs_state \<Rightarrow> string \<Rightarrow> nat \<Rightarrow> int + string" where
  "vfs_canon_entry tab s path cap =
    (if path = [] \<or> \<not> is_slash (hd path) then Inl (-2)
     else let pi = vfs_lookup tab s (vfs_parent_of path VFS_PATH);
              dots = list_ex (dot_at path) [0 ..< length path]
          in if (case pi of Some d \<Rightarrow> i_type d = VFS_NODE_DIR | None \<Rightarrow> False) \<and> \<not> dots
             then (case vfs_copy path cap of Some q \<Rightarrow> Inr q | None \<Rightarrow> Inl (-36))
             else vfs_walk tab s path cap False)"

definition vfs_lookup_ex :: "'w fs_table \<Rightarrow> 'w vfs_state \<Rightarrow> string \<Rightarrow> bool \<Rightarrow> int + vfs_inode" where
  "vfs_lookup_ex tab s path follow =
    (let ino = vfs_lookup tab s path in
     if ino \<noteq> None \<and> (\<not> follow \<or> i_type (the ino) \<noteq> VFS_NODE_SYMLINK) then Inr (the ino)
     else case vfs_walk tab s path VFS_PATH follow of
         Inl e \<Rightarrow> Inl e
       | Inr cp \<Rightarrow> (case vfs_lookup tab s cp of None \<Rightarrow> Inl (-2) | Some i \<Rightarrow> Inr i))"

definition vfs_lookup_follow :: "'w fs_table \<Rightarrow> 'w vfs_state \<Rightarrow> string \<Rightarrow> vfs_inode option" where
  "vfs_lookup_follow tab s path = (case vfs_lookup_ex tab s path True of Inl _ \<Rightarrow> None | Inr i \<Rightarrow> Some i)"

subsection \<open>Entry operations\<close>

text \<open>Run a file system operation on the world of a state.\<close>

definition fs_do :: "'w vfs_state \<Rightarrow> 'w \<times> int \<Rightarrow> 'w vfs_state \<times> int" where
  "fs_do s wr = (s\<lparr>fs_world := fst wr\<rparr>, snd wr)"

text \<open>Canonicalise the entry, route it, and hand the relative path to an operation.\<close>

definition on_entry :: "'w fs_table \<Rightarrow> 'w vfs_state \<Rightarrow> string \<Rightarrow> ('w vfs_fs_ops \<Rightarrow> string \<Rightarrow> 'w vfs_state \<times> int) \<Rightarrow> 'w vfs_state \<times> int" where
  "on_entry tab s path f = (case vfs_canon_entry tab s path VFS_PATH of
     Inl e \<Rightarrow> (s, e)
   | Inr cp \<Rightarrow> (case vfs_resolve (g_mounts s) cp 256 of
       None \<Rightarrow> (s, -1)
     | Some (m, rel) \<Rightarrow> f (tab (m_ops m)) rel))"

definition vfs_create :: "'w fs_table \<Rightarrow> 'w vfs_state \<Rightarrow> string \<Rightarrow> u8 list \<Rightarrow> 'w vfs_state \<times> int" where
  "vfs_create tab s path data = on_entry tab s path (\<lambda>ops rel. fs_do s (op_create ops (fs_world s) rel data))"

definition vfs_write :: "'w fs_table \<Rightarrow> 'w vfs_state \<Rightarrow> string \<Rightarrow> nat \<Rightarrow> u8 list \<Rightarrow> 'w vfs_state \<times> int" where
  "vfs_write tab s path offset data = (case vfs_lookup_follow tab s path of
     None \<Rightarrow> (s, -1)
   | Some ino \<Rightarrow>
       if i_type ino \<noteq> VFS_NODE_FILE then (s, -1)
       else (case i_ops ino of
           None \<Rightarrow> (s, -1)
         | Some k \<Rightarrow> fs_do s (op_write (tab k) (fs_world s) ino offset data)))"

definition vfs_read_all :: "'w fs_table \<Rightarrow> 'w vfs_state \<Rightarrow> string \<Rightarrow> nat \<Rightarrow> int \<times> u8 list" where
  "vfs_read_all tab s path bufsize = (case vfs_lookup tab s path of
     None \<Rightarrow> (-1, [])
   | Some ino \<Rightarrow>
       if i_type ino \<noteq> VFS_NODE_FILE then (-1, [])
       else (case i_ops ino of
           None \<Rightarrow> (-1, [])
         | Some k \<Rightarrow>
             if i_size ino > bufsize then (-1, [])
             else (case op_read (tab k) (fs_world s) ino 0 (i_size ino) of
                 (r, bs) \<Rightarrow> (if r \<ge> 0 then int (i_size ino) else -1, bs))))"

definition vfs_readdir :: "'w fs_table \<Rightarrow> 'w vfs_state \<Rightarrow> string \<Rightarrow> int \<times> vfs_inode list" where
  "vfs_readdir tab s path =
    (let d = vfs_lookup tab s path;
         path = (if (d = None \<or> i_type (the d) \<noteq> VFS_NODE_DIR) \<and> path \<noteq> [] \<and> is_slash (hd path)
                 then (case vfs_walk tab s path 256 True of Inr cp \<Rightarrow> cp | Inl _ \<Rightarrow> path) else path)
     in case vfs_resolve (g_mounts s) path 256 of
          None \<Rightarrow> (-1, [])
        | Some (m, rel) \<Rightarrow> op_readdir (tab (m_ops m)) (fs_world s) rel)"

definition vfs_mkdir :: "'w fs_table \<Rightarrow> 'w vfs_state \<Rightarrow> string \<Rightarrow> 'w vfs_state \<times> int" where
  "vfs_mkdir tab s path = on_entry tab s path (\<lambda>ops rel. fs_do s (op_mkdir ops (fs_world s) rel))"

definition vfs_remove :: "'w fs_table \<Rightarrow> 'w vfs_state \<Rightarrow> string \<Rightarrow> 'w vfs_state \<times> int" where
  "vfs_remove tab s path = on_entry tab s path (\<lambda>ops rel. fs_do s (op_remove ops (fs_world s) rel))"

definition vfs_is_mount_point :: "vfs_mount_t list \<Rightarrow> string \<Rightarrow> bool" where
  "vfs_is_mount_point ms p = list_ex (\<lambda>m. m_point m = p) ms"

text \<open>EROFS passes through; every other failure is EIO.\<close>

definition fs_result :: "'w vfs_state \<times> int \<Rightarrow> 'w vfs_state \<times> int" where
  "fs_result sr = (fst sr, if snd sr = 0 then 0 else if snd sr = -30 then -30 else -5)"

definition vfs_rmdir :: "'w fs_table \<Rightarrow> 'w vfs_state \<Rightarrow> string \<Rightarrow> 'w vfs_state \<times> int" where
  "vfs_rmdir tab s path = (case vfs_canon_entry tab s path VFS_PATH of
     Inl e \<Rightarrow> (s, e)
   | Inr cp \<Rightarrow> (case vfs_lookup tab s cp of
       None \<Rightarrow> (s, -2)
     | Some ino \<Rightarrow>
         if i_type ino \<noteq> VFS_NODE_DIR then (s, -20)
         else if vfs_is_mount_point (g_mounts s) cp then (s, -16)
         else let (r, children) = vfs_readdir tab s cp in
           if r \<noteq> 0 then (s, -5)
           else if children \<noteq> [] then (s, -39)
           else (case vfs_resolve (g_mounts s) cp 256 of
               None \<Rightarrow> (s, -1)
             | Some (m, rel) \<Rightarrow> fs_result (fs_do s (op_remove (tab (m_ops m)) (fs_world s) rel)))))"

definition rename_target_check :: "'w fs_table \<Rightarrow> 'w vfs_state \<Rightarrow> bool \<Rightarrow> string \<Rightarrow> int" where
  "rename_target_check tab s src_dir cn = (case vfs_lookup tab s cn of
     None \<Rightarrow> 0
   | Some dst \<Rightarrow>
       let dst_dir = (i_type dst = VFS_NODE_DIR) in
       if src_dir \<and> \<not> dst_dir then -20
       else if \<not> src_dir \<and> dst_dir then -21
       else if dst_dir \<and> snd (vfs_readdir tab s cn) \<noteq> [] then -39
       else 0)"

definition vfs_rename :: "'w fs_table \<Rightarrow> 'w vfs_state \<Rightarrow> string \<Rightarrow> string \<Rightarrow> 'w vfs_state \<times> int" where
  "vfs_rename tab s oldp newp =
    (case vfs_canon_entry tab s oldp VFS_PATH of Inl e \<Rightarrow> (s, e) | Inr co \<Rightarrow>
     case vfs_canon_entry tab s newp VFS_PATH of Inl e \<Rightarrow> (s, e) | Inr cn \<Rightarrow>
     case vfs_resolve (g_mounts s) co 256 of None \<Rightarrow> (s, -2) | Some (mo, ro) \<Rightarrow>
     case vfs_resolve (g_mounts s) cn 256 of None \<Rightarrow> (s, -2) | Some (mn, rn) \<Rightarrow>
     case vfs_lookup tab s co of None \<Rightarrow> (s, -2) | Some src \<Rightarrow>
       let src_dir = (i_type src = VFS_NODE_DIR) in
       if m_point mo \<noteq> m_point mn then (s, -18)
       else if vfs_is_mount_point (g_mounts s) co \<or> vfs_is_mount_point (g_mounts s) cn then (s, -16)
       else if cn = co then (s, 0)
       else if src_dir \<and> take (length co + 1) cn = co @ ''/'' then (s, -22)
       else if rename_target_check tab s src_dir cn \<noteq> 0 then (s, rename_target_check tab s src_dir cn)
       else (case op_rename (tab (m_ops mo)) of
           None \<Rightarrow> (s, -1)
         | Some f \<Rightarrow> fs_result (fs_do s (f (fs_world s) ro rn))))"

definition vfs_link :: "'w fs_table \<Rightarrow> 'w vfs_state \<Rightarrow> string \<Rightarrow> string \<Rightarrow> 'w vfs_state \<times> int" where
  "vfs_link tab s oldp newp =
    (case vfs_canon_entry tab s oldp VFS_PATH of Inl e \<Rightarrow> (s, e) | Inr co \<Rightarrow>
     case vfs_canon_entry tab s newp VFS_PATH of Inl e \<Rightarrow> (s, e) | Inr cn \<Rightarrow>
     case vfs_lookup tab s co of None \<Rightarrow> (s, -2) | Some src \<Rightarrow>
       if i_type src = VFS_NODE_DIR then (s, -1)
       else if vfs_lookup tab s cn \<noteq> None then (s, -17)
       else (case vfs_resolve (g_mounts s) co 256 of None \<Rightarrow> (s, -2) | Some (mo, ro) \<Rightarrow>
         case vfs_resolve (g_mounts s) cn 256 of None \<Rightarrow> (s, -2) | Some (mn, rn) \<Rightarrow>
         if m_point mo \<noteq> m_point mn then (s, -18)
         else (case op_link (tab (m_ops mo)) of
             None \<Rightarrow> (s, -1)
           | Some f \<Rightarrow> fs_result (fs_do s (f (fs_world s) ro rn)))))"

definition vfs_truncate :: "'w fs_table \<Rightarrow> 'w vfs_state \<Rightarrow> string \<Rightarrow> nat \<Rightarrow> 'w vfs_state \<times> int" where
  "vfs_truncate tab s path new_size = (case vfs_lookup_ex tab s path True of
     Inl e \<Rightarrow> (s, if e \<noteq> 0 then e else -2)
   | Inr ino \<Rightarrow>
       if i_type ino = VFS_NODE_DIR then (s, -21)
       else (case vfs_walk tab s path VFS_PATH True of
           Inl e \<Rightarrow> (s, e)
         | Inr cp \<Rightarrow> (case vfs_resolve (g_mounts s) cp 256 of
             None \<Rightarrow> (s, -1)
           | Some (m, rel) \<Rightarrow> (case op_truncate (tab (m_ops m)) of
               None \<Rightarrow> (s, -1) | Some f \<Rightarrow> fs_do s (f (fs_world s) rel new_size)))))"

text \<open>The attribute change kept on the in-memory inode, for file systems without metadata.\<close>

definition inode_setattr :: "vfs_inode \<Rightarrow> vfs_attr \<Rightarrow> u32 \<Rightarrow> vfs_inode" where
  "inode_setattr ino a valid =
    (let t0 = i_mode ino AND 0xF000;
         t = (if t0 = 0 then (case i_type ino of VFS_NODE_DIR \<Rightarrow> 0x4000 | VFS_NODE_SYMLINK \<Rightarrow> 0xA000 | VFS_NODE_FILE \<Rightarrow> 0x8000)
              else t0)
     in ino\<lparr>i_mode := (if valid AND VFS_ATTR_MODE \<noteq> 0 then t OR (a_mode a AND 0xFFF) else i_mode ino),
            i_uid := (if valid AND VFS_ATTR_UID \<noteq> 0 then a_uid a else i_uid ino),
            i_gid := (if valid AND VFS_ATTR_GID \<noteq> 0 then a_gid a else i_gid ino),
            i_atime := (if valid AND VFS_ATTR_ATIME \<noteq> 0 then a_atime a else i_atime ino),
            i_mtime := (if valid AND VFS_ATTR_MTIME \<noteq> 0 then a_mtime a else i_mtime ino)\<rparr>)"

definition vfs_setattr_at :: "'w fs_table \<Rightarrow> 'w vfs_state \<Rightarrow> string \<Rightarrow> vfs_attr \<Rightarrow> u32 \<Rightarrow> 'w vfs_state \<times> int" where
  "vfs_setattr_at tab s cp a valid = (case vfs_resolve (g_mounts s) cp 256 of
     None \<Rightarrow> (s, -1)
   | Some (m, rel) \<Rightarrow> (case op_setattr (tab (m_ops m)) of
       Some f \<Rightarrow> fs_do s (f (fs_world s) rel a valid)
     | None \<Rightarrow> (case vfs_lookup tab s cp of
         None \<Rightarrow> (s, -2)
       | Some ino \<Rightarrow> (s\<lparr>fs_world := op_poke (tab (m_ops m)) (fs_world s) rel (inode_setattr ino a valid)\<rparr>, 0))))"

definition vfs_setattr :: "'w fs_table \<Rightarrow> 'w vfs_state \<Rightarrow> string \<Rightarrow> vfs_attr \<Rightarrow> u32 \<Rightarrow> 'w vfs_state \<times> int" where
  "vfs_setattr tab s path a valid = (case vfs_walk tab s path VFS_PATH True of
     Inl e \<Rightarrow> (s, e) | Inr cp \<Rightarrow> vfs_setattr_at tab s cp a valid)"

definition vfs_lsetattr :: "'w fs_table \<Rightarrow> 'w vfs_state \<Rightarrow> string \<Rightarrow> vfs_attr \<Rightarrow> u32 \<Rightarrow> 'w vfs_state \<times> int" where
  "vfs_lsetattr tab s path a valid = (case vfs_canon_entry tab s path VFS_PATH of
     Inl e \<Rightarrow> (s, e) | Inr cp \<Rightarrow> vfs_setattr_at tab s cp a valid)"

definition vfs_readlink :: "'w fs_table \<Rightarrow> 'w vfs_state \<Rightarrow> string \<Rightarrow> int \<times> string" where
  "vfs_readlink tab s path = (case vfs_canon_entry tab s path VFS_PATH of
     Inl e \<Rightarrow> (-1, []) | Inr cp \<Rightarrow> readlink_at tab s cp)"

definition vfs_symlink :: "'w fs_table \<Rightarrow> 'w vfs_state \<Rightarrow> string \<Rightarrow> string \<Rightarrow> 'w vfs_state \<times> int" where
  "vfs_symlink tab s target linkpath = on_entry tab s linkpath (\<lambda>ops rel.
     case op_symlink ops of None \<Rightarrow> (s, -1) | Some f \<Rightarrow> fs_do s (f (fs_world s) target rel))"

subsection \<open>Mount introspection\<close>

definition vfs_mount_point_of :: "vfs_mount_t list \<Rightarrow> nat \<Rightarrow> string option" where
  "vfs_mount_point_of ms ops = foldl (\<lambda>best m.
     if m_ops m = ops \<and> (best = None \<or> length (m_point m) > length (the best)) then Some (m_point m) else best) None ms"

definition vfs_sync_ops :: "'w fs_table \<Rightarrow> 'w vfs_state \<Rightarrow> nat option \<Rightarrow> 'w vfs_state \<times> int" where
  "vfs_sync_ops tab s ops = (case ops of
     None \<Rightarrow> (s, 0)
   | Some k \<Rightarrow> (case op_sync (tab k) of None \<Rightarrow> (s, 0) | Some f \<Rightarrow> fs_do s (f (fs_world s))))"

definition vfs_dev_of_ops :: "vfs_mount_t list \<Rightarrow> nat \<Rightarrow> u64" where
  "vfs_dev_of_ops ms ops = (case find_index (\<lambda>m. m_ops m = ops) ms of None \<Rightarrow> 0 | Some i \<Rightarrow> m_dev (ms ! i))"

definition vfs_mount_count :: "vfs_mount_t list \<Rightarrow> int" where
  "vfs_mount_count ms = int (length ms)"

definition vfs_mount_info :: "vfs_mount_t list \<Rightarrow> int \<Rightarrow> (string \<times> string) option" where
  "vfs_mount_info ms i = (if i < 0 \<or> i \<ge> int (length ms) then None else Some (m_point (ms ! nat i), m_name (ms ! nat i)))"

definition vfs_mount_ops_at :: "vfs_mount_t list \<Rightarrow> int \<Rightarrow> nat option" where
  "vfs_mount_ops_at ms i = (if 0 \<le> i \<and> i < int (length ms) then Some (m_ops (ms ! nat i)) else None)"

end
