(* ===== verification/Vfs_Walk.thy ===== *)
theory Vfs_Walk
  imports Vfs
begin

text \<open>
  What the routing and the path walk of fs/vfs.c guarantee: a path goes to the mount with the
  longest matching mount point; a walk ends with a canonical path whose every directory has
  been looked up, is a directory, and has passed the search check; the mount table keeps its
  shape and its root under every mount operation.
\<close>

subsection \<open>Canonical paths\<close>

definition path_join :: "string list \<Rightarrow> string" where
  "path_join cs = concat (map (\<lambda>c. CHR ''/'' # c) cs)"

definition comp_ok :: "string \<Rightarrow> bool" where
  "comp_ok c \<longleftrightarrow> c \<noteq> [] \<and> c \<noteq> ''.'' \<and> c \<noteq> ''..'' \<and> (\<forall>x \<in> set c. \<not> is_slash x)"

lemma path_join_simps [simp]:
  "path_join [] = []" "path_join (cs @ [c]) = path_join cs @ CHR ''/'' # c"
  by (simp_all add: path_join_def)

lemma drop_last_join:
  assumes "\<forall>c \<in> set cs. comp_ok c"
  shows "drop_last (path_join cs) = path_join (butlast cs)"
proof (cases cs rule: rev_cases)
  case Nil
  then show ?thesis by (simp add: drop_last_def)
next
  case (snoc ds d)
  have "dropWhile (\<lambda>c. \<not> is_slash c) (rev d @ CHR ''/'' # rev (path_join ds)) = CHR ''/'' # rev (path_join ds)"
    using assms snoc by (subst dropWhile_append2) (auto simp: comp_ok_def is_slash_def)
  then show ?thesis using snoc by (simp add: drop_last_def)
qed

lemma walk_comp_ok:
  assumes "dropWhile is_slash todo \<noteq> []" and c: "c = takeWhile (\<lambda>x. \<not> is_slash x) (dropWhile is_slash todo)"
    and "c \<noteq> ''.''" "c \<noteq> ''..''"
  shows "comp_ok c"
proof -
  have "\<not> is_slash (hd (dropWhile is_slash todo))" using assms(1) by (rule hd_dropWhile)
  then have "c \<noteq> []" using assms(1) c by (cases "dropWhile is_slash todo") simp_all
  with assms(3,4) c show ?thesis by (auto simp: comp_ok_def dest: set_takeWhileD)
qed

subsection \<open>Searched directories\<close>

definition dir_ok :: "'w fs_table \<Rightarrow> 'w vfs_state \<Rightarrow> (vfs_inode \<Rightarrow> int) option \<Rightarrow> string \<Rightarrow> bool" where
  "dir_ok tab s search p \<longleftrightarrow> (\<exists>ino. vfs_lookup tab s p = Some ino \<and> i_type ino = VFS_NODE_DIR
     \<and> (case search of None \<Rightarrow> True | Some f \<Rightarrow> f ino = 0))"

definition walked :: "'w fs_table \<Rightarrow> 'w vfs_state \<Rightarrow> (vfs_inode \<Rightarrow> int) option \<Rightarrow> string list \<Rightarrow> bool" where
  "walked tab s search cs \<longleftrightarrow> (\<forall>c \<in> set cs. comp_ok c)
     \<and> (\<forall>k. 0 < k \<and> k < length cs \<longrightarrow> dir_ok tab s search (path_join (take k cs)))"

lemma walked_Nil [simp]: "walked tab s search []"
  by (simp add: walked_def)

lemma walked_butlast:
  assumes "walked tab s search cs"
  shows "walked tab s search (butlast cs)"
proof -
  have "dir_ok tab s search (path_join (take k (butlast cs)))" if "0 < k" "k < length (butlast cs)" for k
  proof -
    have "k < length cs" using that by simp
    then show ?thesis using assms that(1) by (simp add: take_butlast walked_def)
  qed
  then show ?thesis using assms by (auto simp: walked_def dest: in_set_butlastD)
qed

lemma walked_butlast_dir:
  "walked tab s search cs \<Longrightarrow> butlast cs \<noteq> [] \<Longrightarrow> dir_ok tab s search (path_join (butlast cs))"
  by (simp add: walked_def butlast_conv_take)

lemma walked_snoc:
  assumes "walked tab s search cs" "comp_ok c" "cs \<noteq> [] \<Longrightarrow> dir_ok tab s search (path_join cs)"
  shows "walked tab s search (cs @ [c])"
  using assms by (auto simp: walked_def less_Suc_eq)

text \<open>The invariant of the loop.\<close>

definition walk_inv :: "'w fs_table \<Rightarrow> 'w vfs_state \<Rightarrow> (vfs_inode \<Rightarrow> int) option \<Rightarrow> string \<Rightarrow> string \<Rightarrow> bool" where
  "walk_inv tab s search res todo \<longleftrightarrow> (\<exists>cs. walked tab s search cs \<and> res = path_join cs
     \<and> (dropWhile is_slash todo \<noteq> [] \<and> cs \<noteq> [] \<longrightarrow> dir_ok tab s search (path_join cs)))"

lemma walk_invI:
  assumes "walked tab s search cs" "dropWhile is_slash todo \<noteq> [] \<Longrightarrow> cs \<noteq> [] \<Longrightarrow> dir_ok tab s search (path_join cs)"
  shows "walk_inv tab s search (path_join cs) todo"
  unfolding walk_inv_def
proof (intro exI conjI impI)
  show "walked tab s search cs" by (rule assms(1))
  show "dir_ok tab s search (path_join cs)" if "dropWhile is_slash todo \<noteq> [] \<and> cs \<noteq> []"
    by (rule assms(2)) (use that in blast)+
qed (rule refl)

lemma turn_cases:
  assumes "turn = (if A then Walk_done (Inl a) else if B then Walk_done (Inr r)
    else case l of None \<Rightarrow> Walk_done (if D then Inr r else Inl b) | Some i \<Rightarrow> f i)"
  obtains n where "turn = Walk_done (Inl n)" | "turn = Walk_done (Inr r)" | i where "l = Some i" "turn = f i"
  using assms by (cases l) (auto split: if_splits)

lemma walk_step_inv:
  assumes inv: "walk_inv tab s search res todo" and e: "walk_step tab s search follow hops res todo = turn"
  shows "case turn of
      Walk_done (Inr out) \<Rightarrow> \<exists>ds. walked tab s search ds \<and> out = path_join ds
    | Walk_done (Inl _) \<Rightarrow> True
    | Walk_more h r t \<Rightarrow> walk_inv tab s search r t"
proof -
  let ?t = "dropWhile is_slash todo"
  let ?c = "takeWhile (\<lambda>x. \<not> is_slash x) ?t"
  let ?rest = "dropWhile is_slash (dropWhile (\<lambda>x. \<not> is_slash x) ?t)"
  obtain cs where cs: "walked tab s search cs" "res = path_join cs"
    "?t \<noteq> [] \<Longrightarrow> cs \<noteq> [] \<Longrightarrow> dir_ok tab s search (path_join cs)"
    using inv unfolding walk_inv_def by blast
  show ?thesis
  proof (cases "?t = []")
    case True
    then have "turn = Walk_done (Inr res)" using e by (simp add: walk_step_def)
    with cs(1,2) show ?thesis by simp blast
  next
    case t: False
    have cok: "\<forall>c \<in> set cs. comp_ok c" using cs(1) by (simp add: walked_def)
    consider (dot) "?c = ''.''" | (dotdot) "?c = ''..''" | (comp) "?c \<noteq> ''.''" "?c \<noteq> ''..''" by blast
    then show ?thesis
    proof cases
      case dot
      then have "turn = Walk_more hops res ?rest" using e t by (simp add: walk_step_def Let_def del: dropWhile_eq_Nil_conv)
      moreover have "walk_inv tab s search res ?rest"
        unfolding cs(2) by (rule walk_invI [OF cs(1) cs(3) [OF t]])
      ultimately show ?thesis by simp
    next
      case dotdot
      then have "turn = Walk_more hops (drop_last res) ?rest"
        using e t by (simp add: walk_step_def Let_def del: dropWhile_eq_Nil_conv)
      moreover have "walk_inv tab s search (drop_last res) ?rest"
        unfolding cs(2) drop_last_join [OF cok] by (rule walk_invI [OF walked_butlast [OF cs(1)] walked_butlast_dir [OF cs(1)]])
      ultimately show ?thesis by simp
    next
      case comp
      let ?r1 = "res @ ''/'' @ ?c"
      have ok1: "walked tab s search (cs @ [?c])"
        by (rule walked_snoc [OF cs(1) walk_comp_ok [OF t refl comp] cs(3) [OF t]])
      have r1: "?r1 = path_join (cs @ [?c])" using cs(2) by simp
      have te: "turn = (if length res + 1 + length ?c \<ge> VFS_PATH then Walk_done (Inl (-36))
          else if ?rest = [] \<and> \<not> follow then Walk_done (Inr ?r1)
          else case vfs_lookup tab s ?r1 of
              None \<Rightarrow> Walk_done (if ?rest = [] then Inr ?r1 else Inl (-2))
            | Some ino \<Rightarrow> walk_entry tab s search hops res ?r1 ?rest ino)"
        unfolding e [symmetric] walk_step_def Let_def if_not_P [OF t] if_not_P [OF comp(1)] if_not_P [OF comp(2)] ..
      show ?thesis
      proof (rule turn_cases [OF te], goal_cases)
        case (1 n)
        then show ?thesis by simp
      next
        case 2
        with ok1 r1 show ?thesis by auto
      next
        case entry: (3 ino)
        show ?thesis
        proof (cases turn)
          case (Walk_done r)
          then have "r \<noteq> Inr out" for out
            using entry(2) walk_entry_done [of tab s search hops res ?r1 ?rest ino out] by metis
          with Walk_done show ?thesis by (cases r) auto
        next
          case (Walk_more h r t')
          then have "walk_inv tab s search r t'" using walk_entry_more [OF entry(2) [symmetric, unfolded Walk_more]]
          proof (elim disjE conjE)
            assume "r = []"
            then show ?thesis using walk_invI [OF walked_Nil, of t' tab s search] by simp
          next
            assume r: "r = ?r1" "t' = ?rest" and d: "?rest \<noteq> [] \<longrightarrow> i_type ino = VFS_NODE_DIR \<and> (case search of None \<Rightarrow> True | Some f \<Rightarrow> f ino = 0)"
            have "dir_ok tab s search (path_join (cs @ [?c]))" if "dropWhile is_slash ?rest \<noteq> []"
            proof -
              have "?rest \<noteq> []" using that by (rule contrapos_nn) (simp only: dropWhile.simps)
              from d [rule_format, OF this] entry(1) show ?thesis unfolding r1 [symmetric] dir_ok_def by blast
            qed
            then show ?thesis unfolding r r1 by (rule walk_invI [OF ok1])
          qed
          with Walk_more show ?thesis by simp
        qed
      qed
    qed
  qed
qed

lemma walk_loop_walked:
  assumes "walk_loop tab s search follow hops res todo = Inr out" "walk_inv tab s search res todo"
  shows "\<exists>ds. walked tab s search ds \<and> out = path_join ds"
  using assms
proof (induction tab s search follow hops res todo rule: walk_loop.induct)
  case (1 tab s search follow hops res todo)
  note st = walk_step_inv [OF "1.prems"(2) refl, of follow hops]
  show ?case
  proof (cases "walk_step tab s search follow hops res todo")
    case (Walk_done r)
    with "1.prems"(1) have "r = Inr out" by (simp add: walk_loop.simps [of tab s search follow hops res todo])
    with st Walk_done show ?thesis by simp
  next
    case (Walk_more h r t)
    with "1.prems"(1) st show ?thesis
      by (intro "1.IH" [OF Walk_more]) (simp_all add: walk_loop.simps [of tab s search follow hops res todo])
  qed
qed

subsection \<open>Longest prefix\<close>

definition best_ok :: "string \<Rightarrow> vfs_mount_t option \<Rightarrow> nat \<Rightarrow> bool" where
  "best_ok path best n \<longleftrightarrow> (case best of None \<Rightarrow> n = 0 | Some b \<Rightarrow> n = length (m_point b) \<and> 0 < n \<and> mount_match (m_point b) path)"

lemma resolve_best_spec:
  assumes "\<forall>m \<in> set ms. m_point m \<noteq> []" "best_ok path best n"
  shows "case resolve_best ms path best n of
      None \<Rightarrow> best = None \<and> (\<forall>m \<in> set ms. \<not> mount_match (m_point m) path)
    | Some b \<Rightarrow> (b \<in> set ms \<or> best = Some b) \<and> mount_match (m_point b) path \<and> n \<le> length (m_point b)
        \<and> (\<forall>m \<in> set ms. mount_match (m_point m) path \<longrightarrow> length (m_point m) \<le> length (m_point b))"
  using assms
proof (induction ms arbitrary: best n)
  case Nil
  then show ?case by (cases best) (simp_all add: best_ok_def)
next
  case (Cons m ms)
  let ?mp = "m_point m"
  define take_it where "take_it \<longleftrightarrow> mount_match ?mp path \<and> n < length ?mp"
  have ne: "0 < length ?mp" using Cons.prems(1) by simp
  show ?case
  proof (cases take_it)
    case True
    then have mm: "mount_match ?mp path" "n < length ?mp" by (simp_all add: take_it_def)
    have e: "resolve_best (m # ms) path best n = resolve_best ms path (Some m) (length ?mp)"
      using mm by (auto simp: Let_def)
    have "best_ok path (Some m) (length ?mp)" using mm ne by (simp add: best_ok_def)
    with Cons.prems(1) have "case resolve_best ms path (Some m) (length ?mp) of
      None \<Rightarrow> Some m = None \<and> (\<forall>m \<in> set ms. \<not> mount_match (m_point m) path)
    | Some b \<Rightarrow> (b \<in> set ms \<or> Some m = Some b) \<and> mount_match (m_point b) path \<and> length ?mp \<le> length (m_point b)
        \<and> (\<forall>m \<in> set ms. mount_match (m_point m) path \<longrightarrow> length (m_point m) \<le> length (m_point b))"
      by (intro Cons.IH) simp_all
    with mm show ?thesis unfolding e by (auto split: option.splits)
  next
    case False
    have e: "resolve_best (m # ms) path best n = resolve_best ms path best n"
      using False ne by (auto simp: Let_def take_it_def)
    from Cons.prems have "case resolve_best ms path best n of
      None \<Rightarrow> best = None \<and> (\<forall>m \<in> set ms. \<not> mount_match (m_point m) path)
    | Some b \<Rightarrow> (b \<in> set ms \<or> best = Some b) \<and> mount_match (m_point b) path \<and> n \<le> length (m_point b)
        \<and> (\<forall>m \<in> set ms. mount_match (m_point m) path \<longrightarrow> length (m_point m) \<le> length (m_point b))"
      by (intro Cons.IH) simp_all
    moreover have "best = None \<Longrightarrow> n = 0" using Cons.prems(2) by (simp add: best_ok_def)
    ultimately show ?thesis using False ne unfolding e take_it_def by (auto split: option.splits)
  qed
qed

subsection \<open>The mount table\<close>

definition point_ok :: "string \<Rightarrow> bool" where
  "point_ok mp \<longleftrightarrow> 1 < length mp \<and> hd mp = CHR ''/'' \<and> last mp \<noteq> CHR ''/''"

text \<open>
  Every mount point is the root or an absolute path without a trailing slash, no two mounts
  share one, and the owned path slots in use are exactly those of the non-root mounts.
\<close>

definition mounts_ok :: "'w vfs_state \<Rightarrow> bool" where
  "mounts_ok s \<longleftrightarrow> distinct (map m_point (g_mounts s)) \<and> length (g_mounts s) \<le> VFS_MAX_MOUNTS
     \<and> (\<forall>m \<in> set (g_mounts s). if m_store m = None then m_point m = ''/'' else point_ok (m_point m))
     \<and> (\<forall>m \<in> set (g_mounts s). \<forall>m' \<in> set (g_mounts s). m_store m = m_store m' \<longrightarrow> m = m')
     \<and> length (g_mp_used s) = VFS_MAX_MOUNTS
     \<and> (\<forall>m \<in> set (g_mounts s). \<forall>k. m_store m = Some k \<longrightarrow> k < VFS_MAX_MOUNTS)
     \<and> (\<forall>k < VFS_MAX_MOUNTS. g_mp_used s ! k \<longleftrightarrow> Some k \<in> m_store ` set (g_mounts s))"

lemma mounts_ok_used:
  "mounts_ok s \<Longrightarrow> k < VFS_MAX_MOUNTS \<Longrightarrow> g_mp_used s ! k \<longleftrightarrow> Some k \<in> m_store ` set (g_mounts s)"
  by (simp add: mounts_ok_def)

lemma remove_nth_filter:
  assumes "distinct (map f xs)" "i < length xs"
  shows "remove_nth i xs = filter (\<lambda>x. f x \<noteq> f (xs ! i)) xs"
proof -
  let ?a = "take i xs" and ?b = "drop (Suc i) xs" and ?x = "xs ! i"
  have xs: "xs = ?a @ ?x # ?b" using assms(2) by (rule id_take_nth_drop)
  have "distinct (map f (?a @ ?x # ?b))" using assms(1) xs by simp
  then have "f ?x \<notin> f ` set ?a" "f ?x \<notin> f ` set ?b" by auto
  then have "filter (\<lambda>x. f x \<noteq> f ?x) ?a = ?a" "filter (\<lambda>x. f x \<noteq> f ?x) ?b = ?b" by (simp_all add: filter_id_conv) (metis imageI)+
  then have "filter (\<lambda>x. f x \<noteq> f ?x) (?a @ ?x # ?b) = ?a @ ?b" by simp
  with xs show ?thesis by (simp add: remove_nth_def)
qed

lemma strip_slashes_ok:
  assumes "mp \<noteq> []" "hd mp = CHR ''/''" "length (strip_slashes mp) \<noteq> 1"
  shows "point_ok (strip_slashes mp)"
proof -
  let ?r = "dropWhile (\<lambda>c. c = CHR ''/'') (rev (tl mp))"
  have "?r \<noteq> []" using assms(3) by (auto simp: strip_slashes_def)
  then have "hd ?r \<noteq> CHR ''/''" by (rule hd_dropWhile)
  with \<open>?r \<noteq> []\<close> assms(2) show ?thesis by (simp add: point_ok_def strip_slashes_def last_rev del: dropWhile_eq_Nil_conv)
qed

text \<open>A new entry with a fresh mount point and a fresh slot (or the root) keeps the table in shape.\<close>

lemma push_mount_ok:
  assumes ok: "mounts_ok s" and n: "length (g_mounts s) < VFS_MAX_MOUNTS"
    and new: "find_mount_by_point (g_mounts s) mp = None"
    and slot: "case sl of None \<Rightarrow> mp = ''/'' \<and> used = g_mp_used s
      | Some k \<Rightarrow> point_ok mp \<and> k < VFS_MAX_MOUNTS \<and> \<not> g_mp_used s ! k \<and> used = (g_mp_used s)[k := True]"
  shows "mounts_ok (push_mount (s\<lparr>g_mp_used := used\<rparr>) mp sl ops name dev)"
proof -
  let ?m = "\<lparr>m_point = mp, m_store = sl, m_ops = ops, m_name = name,
    m_dev = (if dev \<noteq> 0 then dev else vfs_makedev 0 (g_anon_minor s + 1))\<rparr>"
  have gm: "g_mounts (push_mount (s\<lparr>g_mp_used := used\<rparr>) mp sl ops name dev) = g_mounts s @ [?m]"
    "g_mp_used (push_mount (s\<lparr>g_mp_used := used\<rparr>) mp sl ops name dev) = used"
    by (simp_all add: push_mount_def Let_def)
  have np: "mp \<notin> m_point ` set (g_mounts s)" using new by (auto simp: find_mount_by_point_def find_index_None)
  have ns: "sl \<notin> m_store ` set (g_mounts s)"
  proof
    assume "sl \<in> m_store ` set (g_mounts s)"
    then obtain m where m: "m \<in> set (g_mounts s)" "m_store m = sl" by auto
    show False
    proof (cases sl)
      case None
      with m ok have "m_point m = ''/''" by (auto simp: mounts_ok_def)
      then have "''/'' \<in> m_point ` set (g_mounts s)" using m(1) by (metis imageI)
      with None slot np show False by simp
    next
      case (Some k)
      then have "k < VFS_MAX_MOUNTS" using slot by simp
      moreover have "Some k \<in> m_store ` set (g_mounts s)" using m Some by (metis imageI)
      ultimately have "g_mp_used s ! k" using mounts_ok_used [OF ok] by simp
      with Some slot show False by simp
    qed
  qed
  have dist: "distinct (map m_point (g_mounts s @ [?m]))" using ok np by (auto simp: mounts_ok_def)
  have len: "length (g_mounts s @ [?m]) \<le> VFS_MAX_MOUNTS" using n by simp
  have pt: "\<forall>m \<in> set (g_mounts s @ [?m]). if m_store m = None then m_point m = ''/'' else point_ok (m_point m)"
    using ok slot by (auto simp: mounts_ok_def split: option.splits)
  have inj: "\<forall>m \<in> set (g_mounts s @ [?m]). \<forall>m' \<in> set (g_mounts s @ [?m]). m_store m = m_store m' \<longrightarrow> m = m'"
    using ok ns by (auto simp: mounts_ok_def)
  have ul: "length used = VFS_MAX_MOUNTS" using ok slot by (auto simp: mounts_ok_def split: option.splits)
  have rng: "\<forall>m \<in> set (g_mounts s @ [?m]). \<forall>k. m_store m = Some k \<longrightarrow> k < VFS_MAX_MOUNTS"
    using ok slot by (auto simp: mounts_ok_def split: option.splits)
  have use: "used ! k \<longleftrightarrow> Some k \<in> m_store ` set (g_mounts s @ [?m])" if "k < VFS_MAX_MOUNTS" for k
    using ok slot that by (cases sl) (auto simp: mounts_ok_def nth_list_update)
  show ?thesis unfolding mounts_ok_def gm by (intro conjI dist len pt inj ul rng allI impI use)
qed

text \<open>Removing mounts and releasing exactly their slots keeps the table in shape.\<close>

lemma drop_mounts_ok:
  assumes ok: "mounts_ok s" and len: "length used = VFS_MAX_MOUNTS"
    and used: "\<And>k. k < VFS_MAX_MOUNTS \<Longrightarrow>
      used ! k \<longleftrightarrow> g_mp_used s ! k \<and> Some k \<notin> m_store ` {m \<in> set (g_mounts s). \<not> P m}"
  shows "mounts_ok (s\<lparr>g_mounts := filter P (g_mounts s), g_mp_used := used\<rparr>)"
proof -
  have inj: "m = m'" if "m \<in> set (g_mounts s)" "m' \<in> set (g_mounts s)" "m_store m = m_store m'" for m m'
    using ok that unfolding mounts_ok_def by blast
  have u: "used ! k \<longleftrightarrow> Some k \<in> m_store ` set (filter P (g_mounts s))" if k: "k < VFS_MAX_MOUNTS" for k
  proof
    assume "used ! k"
    then have "Some k \<in> m_store ` set (g_mounts s)" "Some k \<notin> m_store ` {m \<in> set (g_mounts s). \<not> P m}"
      using used [OF k] mounts_ok_used [OF ok k] by simp_all
    then show "Some k \<in> m_store ` set (filter P (g_mounts s))" by auto
  next
    assume "Some k \<in> m_store ` set (filter P (g_mounts s))"
    then obtain m where m: "m \<in> set (g_mounts s)" "P m" "m_store m = Some k" by auto
    have "Some k \<in> m_store ` set (g_mounts s)" using m(1,3) by (metis imageI)
    moreover have "Some k \<notin> m_store ` {m \<in> set (g_mounts s). \<not> P m}"
    proof
      assume "Some k \<in> m_store ` {m \<in> set (g_mounts s). \<not> P m}"
      then obtain m' where "m' \<in> set (g_mounts s)" "\<not> P m'" "m_store m' = Some k" by auto
      with inj [of m m'] m show False by simp
    qed
    ultimately show "used ! k" using used [OF k] mounts_ok_used [OF ok k] by simp
  qed
  have dist: "distinct (map m_point (filter P (g_mounts s)))" using ok by (simp add: mounts_ok_def distinct_map_filter)
  have "length (g_mounts s) \<le> VFS_MAX_MOUNTS" using ok by (simp add: mounts_ok_def)
  then have n: "length (filter P (g_mounts s)) \<le> VFS_MAX_MOUNTS" by (rule le_trans [OF length_filter_le])
  have inj': "\<forall>m \<in> set (filter P (g_mounts s)). \<forall>m' \<in> set (filter P (g_mounts s)). m_store m = m_store m' \<longrightarrow> m = m'"
    using inj by (simp only: set_filter mem_Collect_eq) blast
  have rest: "\<forall>m \<in> set (filter P (g_mounts s)). if m_store m = None then m_point m = ''/'' else point_ok (m_point m)"
    "\<forall>m \<in> set (filter P (g_mounts s)). \<forall>k. m_store m = Some k \<longrightarrow> k < VFS_MAX_MOUNTS"
    using ok by (auto simp: mounts_ok_def)
  have e: "g_mounts (s\<lparr>g_mounts := filter P (g_mounts s), g_mp_used := used\<rparr>) = filter P (g_mounts s)"
    "g_mp_used (s\<lparr>g_mounts := filter P (g_mounts s), g_mp_used := used\<rparr>) = used" by simp_all
  show ?thesis unfolding mounts_ok_def e by (intro conjI dist n rest inj' len allI impI u)
qed

lemma mp_store_put_nth:
  "length (mp_store_put used sl) = length used"
  "k < length used \<Longrightarrow> mp_store_put used sl ! k \<longleftrightarrow> used ! k \<and> sl \<noteq> Some k"
proof -
  show "length (mp_store_put used sl) = length used" by (cases sl) (simp_all add: mp_store_put_def)
  assume k: "k < length used"
  show "mp_store_put used sl ! k \<longleftrightarrow> used ! k \<and> sl \<noteq> Some k"
  proof (cases sl)
    case (Some j)
    with k show ?thesis by (cases "j = k") (simp_all add: mp_store_put_def)
  qed (simp add: mp_store_put_def)
qed

lemma nth_put_all:
  "length (foldl mp_store_put used sl) = length used"
  "k < length used \<Longrightarrow> foldl mp_store_put used sl ! k \<longleftrightarrow> used ! k \<and> Some k \<notin> set sl"
  by (induction sl arbitrary: used) (auto simp: mp_store_put_nth)

lemma root_iff:
  assumes "mounts_ok s" "m \<in> set (g_mounts s)"
  shows "m_point m = ''/'' \<longleftrightarrow> m_store m = None"
proof -
  have "if m_store m = None then m_point m = ''/'' else point_ok (m_point m)" using assms unfolding mounts_ok_def by blast
  then show ?thesis by (auto simp: point_ok_def split: if_splits)
qed

lemma vfs_unmount_spec:
  assumes ok: "mounts_ok s" and u: "vfs_unmount s mp = (s', r)"
  shows "mounts_ok s' \<and> (if r = 0 then g_mounts s' = filter (\<lambda>m. m_point m \<noteq> mp) (g_mounts s) \<and> mp \<noteq> ''/'' else s' = s)
    \<and> (r = 0 \<longleftrightarrow> mp \<noteq> ''/'' \<and> mp \<in> m_point ` set (g_mounts s))"
proof (cases "mp = ''/'' \<or> find_mount_by_point (g_mounts s) mp = None")
  case True
  then have "vfs_unmount s mp = (s, -1)" by (cases "mp = ''/''") (simp_all add: vfs_unmount_def)
  then have e: "s' = s" "r = -1" using u by simp_all
  have "mp = ''/'' \<or> mp \<notin> m_point ` set (g_mounts s)"
    using True by (auto simp: find_mount_by_point_def find_index_None)
  with e ok show ?thesis by auto
next
  case False
  then obtain i where i: "find_mount_by_point (g_mounts s) mp = Some i" by auto
  let ?m = "g_mounts s ! i" and ?P = "\<lambda>m. m_point m \<noteq> mp"
  have il: "i < length (g_mounts s)" "m_point ?m = mp"
    using find_index_SomeD [OF i [unfolded find_mount_by_point_def]] by simp_all
  have dist: "distinct (map m_point (g_mounts s))" using ok by (simp add: mounts_ok_def)
  have rm: "remove_nth i (g_mounts s) = filter ?P (g_mounts s)" using remove_nth_filter [OF dist il(1)] il(2) by simp
  let ?s1 = "s\<lparr>g_mounts := filter ?P (g_mounts s), g_mp_used := mp_store_put (g_mp_used s) (m_store ?m)\<rparr>"
  have e: "s' = ?s1 \<or> s' = pagecache_drop ?s1 (m_ops ?m)" "r = 0"
    using u i False by (auto simp: vfs_unmount_def Let_def rm)
  have same: "m = ?m" if "m \<in> set (g_mounts s)" "m_point m = mp" for m
    using dist that il by (auto simp: distinct_map inj_on_def)
  have gone: "{m \<in> set (g_mounts s). \<not> ?P m} = {?m}" using same il by (auto intro: nth_mem)
  have "length (g_mp_used s) = VFS_MAX_MOUNTS" using ok by (simp add: mounts_ok_def)
  then have "mounts_ok ?s1"
    by (intro drop_mounts_ok [OF ok]) (simp_all only: gone mp_store_put_nth image_insert image_empty, auto)
  moreover have "mounts_ok (pagecache_drop t k) = mounts_ok t" for t :: "'a vfs_state" and k
    by (simp add: mounts_ok_def pagecache_drop_def)
  moreover have "mp \<in> m_point ` set (g_mounts s)" using il by (metis imageI nth_mem)
  moreover have "g_mounts s' = filter ?P (g_mounts s)" using e(1) by (auto simp: pagecache_drop_def)
  moreover have "mp \<noteq> ''/''" using False by simp
  ultimately show ?thesis using e by (simp only: simp_thms if_True) blast
qed

lemma vfs_unmount_all_ok: "mounts_ok s \<Longrightarrow> mounts_ok (fst (vfs_unmount_all s))"
  unfolding vfs_unmount_all_def Let_def fst_conv
  by (rule drop_mounts_ok) (auto simp: nth_put_all mounts_ok_def)

lemma vfs_mount_ok:
  assumes ok: "mounts_ok s" and m: "vfs_mount tab s mp ops name = (s', r)"
  shows "mounts_ok s' \<and> set (g_mounts s) \<subseteq> set (g_mounts s')"
proof -
  have drop: "mounts_ok (pagecache_drop t k) = mounts_ok t" "g_mounts (pagecache_drop t k) = g_mounts t"
    for t :: "'a vfs_state" and k by (simp_all add: mounts_ok_def pagecache_drop_def)
  show ?thesis
  proof (cases "s' = s")
    case True
    with ok show ?thesis by simp
  next
    case False
    let ?p = "strip_slashes mp"
    from m False obtain k where h: "mp \<noteq> []" "hd mp = CHR ''/''" "length ?p \<noteq> 1"
      "find_mount_by_point (g_mounts s) ?p = None" "length (g_mounts s) < VFS_MAX_MOUNTS"
      "find_index (\<lambda>u. \<not> u) (g_mp_used s) = Some k"
      and s': "s' = pagecache_drop (push_mount (s\<lparr>g_mp_used := (g_mp_used s)[k := True]\<rparr>) ?p (Some k) ops name
          (vfs_dev_for tab (fs_world s) ops)) ops"
      by (auto simp: vfs_mount_def Let_def split: if_splits option.splits)
    have k: "k < VFS_MAX_MOUNTS" "\<not> g_mp_used s ! k"
      using find_index_SomeD [OF h(6)] ok by (simp_all add: mounts_ok_def)
    have "mounts_ok (push_mount (s\<lparr>g_mp_used := (g_mp_used s)[k := True]\<rparr>) ?p (Some k) ops name (vfs_dev_for tab (fs_world s) ops))"
      by (rule push_mount_ok [OF ok h(5,4)]) (use strip_slashes_ok [OF h(1,2,3)] k in simp)
    then show ?thesis unfolding s' drop by (auto simp: push_mount_def Let_def)
  qed
qed

lemma pagecache_drop_simps [simp]:
  "mounts_ok (pagecache_drop s k) = mounts_ok s" "g_mounts (pagecache_drop s k) = g_mounts s"
  "g_mp_used (pagecache_drop s k) = g_mp_used s"
  by (simp_all add: mounts_ok_def pagecache_drop_def)

lemma vfs_mount_root_ok:
  assumes ok: "mounts_ok s" and m: "vfs_mount_root tab s ops name = (s', r)"
  shows "mounts_ok s' \<and> set (g_mounts s) \<subseteq> set (g_mounts s')"
proof (cases "r = 0")
  case True
  let ?s = "pagecache_drop s ops"
  have h: "find_mount_by_point (g_mounts ?s) ''/'' = None" "length (g_mounts ?s) < VFS_MAX_MOUNTS"
    and s': "s' = push_mount ?s ''/'' None ops name (vfs_dev_for tab (fs_world s) ops)"
    using m True by (auto simp: vfs_mount_root_def Let_def split: if_splits)
  have upd: "?s\<lparr>g_mp_used := g_mp_used ?s\<rparr> = ?s" by (simp add: pagecache_drop_def)
  have "mounts_ok s'" unfolding s'
    by (rule push_mount_ok [where s = ?s and sl = None and used = "g_mp_used ?s", unfolded upd]) (use ok h in simp_all)
  then show ?thesis by (auto simp: s' push_mount_def Let_def)
next
  case False
  with m ok show ?thesis by (auto simp: vfs_mount_root_def Let_def split: if_splits)
qed

lemma map_update_same: "i < length xs \<Longrightarrow> f x = f (xs ! i) \<Longrightarrow> map f (xs[i := x]) = map f xs"
  by (metis length_map list_update_id map_update nth_map)

lemma replace_mount_ok:
  assumes ok: "mounts_ok s" and i: "i < length (g_mounts s)"
    and m: "m_point m = m_point (g_mounts s ! i)" "m_store m = m_store (g_mounts s ! i)"
  shows "mounts_ok (s\<lparr>g_mounts := (g_mounts s)[i := m]\<rparr>)"
proof -
  let ?ms = "g_mounts s"
  have p: "map m_point (?ms[i := m]) = map m_point ?ms" "map m_store (?ms[i := m]) = map m_store ?ms"
    using i m by (simp_all only: map_update_same)
  have dist: "distinct (map m_store ?ms)"
    unfolding distinct_conv_nth
  proof (intro allI impI)
    fix a b assume ab: "a < length (map m_store ?ms)" "b < length (map m_store ?ms)" "a \<noteq> b"
    have "distinct (map m_point ?ms)" using ok by (simp add: mounts_ok_def)
    then have "?ms ! a \<noteq> ?ms ! b" using ab by (metis distinct_map nth_eq_iff_index_eq length_map)
    moreover have "?ms ! a \<in> set ?ms" "?ms ! b \<in> set ?ms" using ab by simp_all
    ultimately have "m_store (?ms ! a) \<noteq> m_store (?ms ! b)" using ok unfolding mounts_ok_def by blast
    with ab show "map m_store ?ms ! a \<noteq> map m_store ?ms ! b" by simp
  qed
  have inj: "\<forall>x \<in> set (?ms[i := m]). \<forall>y \<in> set (?ms[i := m]). m_store x = m_store y \<longrightarrow> x = y"
    using dist p(2) by (metis distinct_map inj_on_def)
  have st: "m_store ` set (?ms[i := m]) = m_store ` set ?ms" using p(2) by (metis set_map)
  have el: "(x \<in> set ?ms \<or> x = m) \<and> (x = m \<longrightarrow> (\<exists>y \<in> set ?ms. m_point x = m_point y \<and> m_store x = m_store y))"
    if "x \<in> set (?ms[i := m])" for x
    using that set_update_subset_insert [of ?ms i m] i m by (metis insertE nth_mem subsetD)
  have pt: "\<forall>x \<in> set (?ms[i := m]). if m_store x = None then m_point x = ''/'' else point_ok (m_point x)"
    "\<forall>x \<in> set (?ms[i := m]). \<forall>k. m_store x = Some k \<longrightarrow> k < VFS_MAX_MOUNTS"
    using el ok unfolding mounts_ok_def by metis+
  show ?thesis using ok inj st pt p(1) unfolding mounts_ok_def by simp
qed

lemma vfs_replace_root_ok:
  assumes ok: "mounts_ok s" and m: "vfs_replace_root tab s ops name = (s', r)"
  shows "mounts_ok s' \<and> m_point ` set (g_mounts s) \<subseteq> m_point ` set (g_mounts s')"
proof (cases "find_mount_by_point (g_mounts s) ''/''")
  case None
  with m have "vfs_mount_root tab s ops name = (s', r)" by (simp add: vfs_replace_root_def Let_def)
  from vfs_mount_root_ok [OF ok this] show ?thesis by blast
next
  case (Some i)
  have i: "i < length (g_mounts s)" using find_index_SomeD(1) [OF Some [unfolded find_mount_by_point_def]] .
  let ?m = "(g_mounts s ! i)\<lparr>m_ops := ops, m_name := name,
    m_dev := (if vfs_dev_for tab (fs_world s) ops \<noteq> 0 then vfs_dev_for tab (fs_world s) ops else m_dev (g_mounts s ! i))\<rparr>"
  let ?s = "s\<lparr>g_mounts := (g_mounts s)[i := ?m]\<rparr>"
  have "mounts_ok ?s" by (rule replace_mount_ok [OF ok i]) simp_all
  moreover have "s' = pagecache_drop (if m_ops (g_mounts s ! i) \<noteq> ops then pagecache_drop ?s (m_ops (g_mounts s ! i)) else ?s) ops"
    using m Some by (simp add: vfs_replace_root_def Let_def)
  then have "mounts_ok s' = mounts_ok ?s" "g_mounts s' = g_mounts ?s"
    by (cases "m_ops (g_mounts s ! i) \<noteq> ops"; simp)+
  moreover have "map m_point ((g_mounts s)[i := ?m]) = map m_point (g_mounts s)"
    by (rule map_update_same [OF i]) simp
  then have "m_point ` set ((g_mounts s)[i := ?m]) = m_point ` set (g_mounts s)" by (metis set_map)
  ultimately show ?thesis by simp
qed

text \<open>The operations on the mount table.\<close>

inductive vfs_step :: "'w fs_table \<Rightarrow> 'w vfs_state \<Rightarrow> 'w vfs_state \<Rightarrow> bool" for tab where
  step_root: "vfs_mount_root tab s ops name = (s', r) \<Longrightarrow> vfs_step tab s s'"
| step_replace: "vfs_replace_root tab s ops name = (s', r) \<Longrightarrow> vfs_step tab s s'"
| step_mount: "vfs_mount tab s mp ops name = (s', r) \<Longrightarrow> vfs_step tab s s'"
| step_unmount: "vfs_unmount s mp = (s', r) \<Longrightarrow> vfs_step tab s s'"
| step_unmount_all: "vfs_unmount_all s = (s', n) \<Longrightarrow> vfs_step tab s s'"

lemma vfs_step_ok:
  assumes "vfs_step tab s s'" "mounts_ok s"
  shows "mounts_ok s' \<and> (''/'' \<in> m_point ` set (g_mounts s) \<longrightarrow> ''/'' \<in> m_point ` set (g_mounts s'))"
  using assms
proof (cases rule: vfs_step.cases)
  case (step_root ops name r)
  from vfs_mount_root_ok [OF assms(2) this] show ?thesis by blast
next
  case (step_replace ops name r)
  from vfs_replace_root_ok [OF assms(2) this] show ?thesis by blast
next
  case (step_mount mp ops name r)
  from vfs_mount_ok [OF assms(2) this] show ?thesis by blast
next
  case (step_unmount mp r)
  note u = vfs_unmount_spec [OF assms(2) this]
  then have "''/'' \<in> m_point ` set (g_mounts s')" if "''/'' \<in> m_point ` set (g_mounts s)"
    using that by (cases "r = 0") auto
  with u show ?thesis by blast
next
  case (step_unmount_all n)
  then have "s' = fst (vfs_unmount_all s)" by simp
  moreover have "g_mounts (fst (vfs_unmount_all s)) = filter (\<lambda>m. m_point m = ''/'') (g_mounts s)"
    by (simp add: vfs_unmount_all_def Let_def)
  ultimately show ?thesis using vfs_unmount_all_ok [OF assms(2)] by auto
qed

lemma vfs_steps_ok:
  assumes "(vfs_step tab)\<^sup>*\<^sup>* s s'" "mounts_ok s"
  shows "mounts_ok s' \<and> (''/'' \<in> m_point ` set (g_mounts s) \<longrightarrow> ''/'' \<in> m_point ` set (g_mounts s'))"
  using assms by (induction rule: rtranclp_induct) (use vfs_step_ok in blast)+

lemma vfs_init_ok: "mounts_ok (vfs_init s)"
  by (simp add: mounts_ok_def vfs_init_def VFS_MAX_MOUNTS_def)

text \<open>A slot for the path of a new mount is always left when the table is not full.\<close>

lemma mount_slot_free:
  assumes ok: "mounts_ok s" and n: "length (g_mounts s) < VFS_MAX_MOUNTS"
  shows "find_index (\<lambda>u. \<not> u) (g_mp_used s) \<noteq> None"
proof
  assume "find_index (\<lambda>u. \<not> u) (g_mp_used s) = None"
  then have all: "\<forall>u \<in> set (g_mp_used s). u" by (simp add: find_index_None)
  have "Some k \<in> m_store ` set (g_mounts s)" if k: "k < VFS_MAX_MOUNTS" for k
  proof -
    have "k < length (g_mp_used s)" using ok k by (simp add: mounts_ok_def)
    with all have "g_mp_used s ! k" by (metis nth_mem)
    with mounts_ok_used [OF ok k] show ?thesis by simp
  qed
  then have "Some ` {0 ..< VFS_MAX_MOUNTS} \<subseteq> m_store ` set (g_mounts s)" by auto
  then have "card (Some ` {0 ..< VFS_MAX_MOUNTS}) \<le> card (m_store ` set (g_mounts s))" by (rule card_mono [OF finite_imageI [OF finite_set]])
  also have "\<dots> \<le> card (set (g_mounts s))" by (rule card_image_le) simp
  also have "\<dots> \<le> length (g_mounts s)" by (rule card_length)
  finally show False using n by (simp add: card_image)
qed

text \<open>
  What it means to resolve a path, apart from permissions, errors and limits: from the directory
  \<open>dir\<close> (the empty string is the root) the path \<open>todo\<close> leads to \<open>out\<close>, and \<open>ds\<close> are the
  directories passed on the way, one for each component that is looked at, those of links and
  dot-dot included.
\<close>

definition first_comp :: "string \<Rightarrow> string" where
  "first_comp todo = takeWhile (\<lambda>x. \<not> is_slash x) (dropWhile is_slash todo)"

definition rest_comps :: "string \<Rightarrow> string" where
  "rest_comps todo = dropWhile is_slash (dropWhile (\<lambda>x. \<not> is_slash x) (dropWhile is_slash todo))"

inductive resolves :: "'w fs_table \<Rightarrow> 'w vfs_state \<Rightarrow> bool \<Rightarrow> string \<Rightarrow> string \<Rightarrow> string list \<Rightarrow> string \<Rightarrow> bool" for tab s follow where
  at_end: "dropWhile is_slash todo = [] \<Longrightarrow> resolves tab s follow dir todo [] dir"
| at_dot: "first_comp todo = ''.'' \<Longrightarrow> resolves tab s follow dir (rest_comps todo) ds out \<Longrightarrow> resolves tab s follow dir todo (dir # ds) out"
| at_dotdot: "first_comp todo = ''..'' \<Longrightarrow> resolves tab s follow (drop_last dir) (rest_comps todo) ds out \<Longrightarrow> resolves tab s follow dir todo (dir # ds) out"
| at_last: "comp_ok (first_comp todo) \<Longrightarrow> rest_comps todo = [] \<Longrightarrow> \<not> follow \<or> vfs_lookup tab s (dir @ ''/'' @ first_comp todo) = None
    \<Longrightarrow> resolves tab s follow dir todo [dir] (dir @ ''/'' @ first_comp todo)"
| at_entry: "comp_ok (first_comp todo) \<Longrightarrow> vfs_lookup tab s (dir @ ''/'' @ first_comp todo) = Some ino \<Longrightarrow> i_type ino \<noteq> VFS_NODE_SYMLINK
    \<Longrightarrow> resolves tab s follow (dir @ ''/'' @ first_comp todo) (rest_comps todo) ds out \<Longrightarrow> resolves tab s follow dir todo (dir # ds) out"
| at_link: "comp_ok (first_comp todo) \<Longrightarrow> vfs_lookup tab s (dir @ ''/'' @ first_comp todo) = Some ino \<Longrightarrow> i_type ino = VFS_NODE_SYMLINK
    \<Longrightarrow> readlink_at tab s (dir @ ''/'' @ first_comp todo) = (n, tgt) \<Longrightarrow> 0 < n
    \<Longrightarrow> resolves tab s follow [] (link_path dir tgt (rest_comps todo)) ds out \<Longrightarrow> resolves tab s follow dir todo (dir # ds) out"

text \<open>One turn of the walk is one step of the resolution.\<close>

lemma walk_step_resolves:
  assumes e: "walk_step tab s search follow hops res todo = turn" and ok: "\<And>n. turn \<noteq> Walk_done (Inl n)"
  shows "case turn of
      Walk_done r \<Rightarrow> \<exists>out. r = Inr out \<and> resolves tab s follow res todo (if dropWhile is_slash todo = [] then [] else [res]) out
    | Walk_more h r t \<Rightarrow> dropWhile is_slash todo \<noteq> [] \<and> (\<forall>ds out. resolves tab s follow r t ds out \<longrightarrow> resolves tab s follow res todo (res # ds) out)"
proof (cases "dropWhile is_slash todo = []")
  case True
  then have "turn = Walk_done (Inr res)" using e by (simp add: walk_step_def)
  with resolves.at_end [OF True] True show ?thesis by simp
next
  case t: False
  let ?c = "first_comp todo" and ?rest = "rest_comps todo"
  consider (dot) "?c = ''.''" | (dotdot) "?c = ''..''" | (comp) "?c \<noteq> ''.''" "?c \<noteq> ''..''" by blast
  then show ?thesis
  proof cases
    case dot
    then have "turn = Walk_more hops res ?rest"
      using e t by (simp add: walk_step_def Let_def first_comp_def rest_comps_def del: dropWhile_eq_Nil_conv)
    with t show ?thesis by (simp add: resolves.at_dot [OF dot] del: dropWhile_eq_Nil_conv)
  next
    case dotdot
    then have "turn = Walk_more hops (drop_last res) ?rest"
      using e t by (simp add: walk_step_def Let_def first_comp_def rest_comps_def del: dropWhile_eq_Nil_conv)
    with t show ?thesis by (simp add: resolves.at_dotdot [OF dotdot] del: dropWhile_eq_Nil_conv)
  next
    case comp
    let ?r1 = "res @ ''/'' @ ?c"
    have cok: "comp_ok ?c" using walk_comp_ok [OF t first_comp_def comp] .
    have te: "turn = (if length res + 1 + length ?c \<ge> VFS_PATH then Walk_done (Inl (-36))
        else if ?rest = [] \<and> \<not> follow then Walk_done (Inr ?r1)
        else case vfs_lookup tab s ?r1 of
            None \<Rightarrow> Walk_done (if ?rest = [] then Inr ?r1 else Inl (-2))
          | Some ino \<Rightarrow> walk_entry tab s search hops res ?r1 ?rest ino)"
      unfolding e [symmetric] walk_step_def Let_def if_not_P [OF t] first_comp_def [symmetric] rest_comps_def [symmetric]
        if_not_P [OF comp(1)] if_not_P [OF comp(2)] ..
    show ?thesis
    proof (cases "?rest = [] \<and> (\<not> follow \<or> vfs_lookup tab s ?r1 = None)")
      case True
      then have "turn = Walk_done (Inr ?r1)" using te ok by (auto split: if_splits option.splits)
      with resolves.at_last [OF cok] True t show ?thesis by auto
    next
      case False
      then obtain ino where l: "vfs_lookup tab s ?r1 = Some ino" "turn = walk_entry tab s search hops res ?r1 ?rest ino"
        using te ok by (auto split: if_splits option.splits)
      show ?thesis
      proof (cases "i_type ino = VFS_NODE_SYMLINK")
        case True
        obtain n tgt where r: "readlink_at tab s ?r1 = (n, tgt)" by force
        have "turn = Walk_more (hops + 1) [] (link_path res tgt ?rest)" "0 < n"
          using l(2) ok True r by (auto simp: walk_entry_def Let_def split: if_splits)
        with resolves.at_link [OF cok l(1) True r] t show ?thesis by simp
      next
        case no: False
        then have "turn = Walk_more hops ?r1 ?rest" using l(2) ok by (auto simp: walk_entry_def Let_def split: if_splits)
        with resolves.at_entry [OF cok l(1) no] t show ?thesis by simp
      qed
    qed
  qed
qed

text \<open>Every directory that a successful walk passes through is the root or has passed the check.\<close>

lemma walk_loop_resolves:
  assumes "walk_loop tab s search follow hops res todo = Inr out" "walk_inv tab s search res todo"
  shows "\<exists>ds. resolves tab s follow res todo ds out \<and> list_all (\<lambda>d. d = [] \<or> dir_ok tab s search d) ds"
  using assms
proof (induction tab s search follow hops res todo rule: walk_loop.induct)
  case (1 tab s search follow hops res todo)
  obtain turn where e: "walk_step tab s search follow hops res todo = turn" by blast
  have here: "res = [] \<or> dir_ok tab s search res" if "dropWhile is_slash todo \<noteq> []"
    using 1(3) that by (auto simp: walk_inv_def path_join_def)
  show ?case
  proof (cases turn)
    case (Walk_done r)
    then have r: "r = Inr out" using 1(2) e by (simp add: walk_loop.simps)
    from walk_step_resolves [OF e] Walk_done r have "resolves tab s follow res todo (if dropWhile is_slash todo = [] then [] else [res]) out" by auto
    then show ?thesis using here by (intro exI conjI) (assumption, simp)
  next
    case (Walk_more h r t)
    have "walk_loop tab s search follow h r t = Inr out" using 1(2) e Walk_more by (simp add: walk_loop.simps)
    moreover have "walk_inv tab s search r t" using walk_step_inv [OF 1(3) e] Walk_more by simp
    ultimately obtain ds where ds: "resolves tab s follow r t ds out" "list_all (\<lambda>d. d = [] \<or> dir_ok tab s search d) ds"
      using 1(1) [of h r t] e Walk_more by auto
    from walk_step_resolves [OF e] Walk_more ds(1) have "resolves tab s follow res todo (res # ds) out" "dropWhile is_slash todo \<noteq> []" by auto
    with ds(2) here show ?thesis by (intro exI [of _ "res # ds"]) simp
  qed
qed

lemma walk_checked_resolves:
  assumes "vfs_walk_checked tab s path outsz follow (Some f) = Inr out"
  shows "\<exists>ds res. resolves tab s follow [] path ds res \<and> out = (if res = [] then ''/'' else res)
    \<and> list_all (\<lambda>d. if d = [] then \<forall>r. vfs_lookup tab s ''/'' = Some r \<longrightarrow> f r = 0 else dir_ok tab s (Some f) d) ds"
proof -
  from assms obtain todo res where h: "vfs_copy path VFS_PATH = Some todo" "search_root tab s (Some f) = 0"
    "walk_loop tab s (Some f) follow 0 [] todo = Inr res" "vfs_copy (if res = [] then ''/'' else res) outsz = Some out"
    by (auto simp: vfs_walk_checked_def split: if_splits option.splits sum.splits)
  have "walk_inv tab s (Some f) (path_join []) todo" by (rule walk_invI) simp_all
  then have "walk_inv tab s (Some f) [] todo" by simp
  from walk_loop_resolves [OF h(3) this] obtain ds where "resolves tab s follow [] todo ds res" "list_all (\<lambda>d. d = [] \<or> dir_ok tab s (Some f) d) ds" by blast
  moreover have "f r = 0" if "vfs_lookup tab s ''/'' = Some r" for r using h(2) that by (simp add: search_root_def)
  moreover have "todo = path" "out = (if res = [] then ''/'' else res)" using h(1,4) by (auto simp: vfs_copy_def split: if_splits)
  ultimately show ?thesis by (auto simp: list_all_iff)
qed

lemma walk_checked_spec:
  assumes "vfs_walk_checked tab s path outsz follow (Some f) = Inr out" "0 < outsz"
  shows "\<exists>cs. out = (if cs = [] then ''/'' else path_join cs) \<and> (\<forall>c \<in> set cs. comp_ok c) \<and> length out < outsz
    \<and> (\<forall>r. vfs_lookup tab s ''/'' = Some r \<longrightarrow> f r = 0)
    \<and> (\<forall>k. 0 < k \<and> k < length cs \<longrightarrow>
         (\<exists>d. vfs_lookup tab s (path_join (take k cs)) = Some d \<and> i_type d = VFS_NODE_DIR \<and> f d = 0))"
proof -
  from assms(1) obtain todo res where h: "search_root tab s (Some f) = 0"
    "walk_loop tab s (Some f) follow 0 [] todo = Inr res" "vfs_copy (if res = [] then ''/'' else res) outsz = Some out"
    by (auto simp: vfs_walk_checked_def split: if_splits option.splits sum.splits)
  have "walk_inv tab s (Some f) (path_join []) todo" by (rule walk_invI) simp_all
  from walk_loop_walked [OF h(2)] this obtain cs where cs: "walked tab s (Some f) cs" "res = path_join cs" by auto
  have out: "out = (if res = [] then ''/'' else res)" "length out < outsz"
    using h(3) assms(2) by (auto simp: vfs_copy_def split: if_splits)
  have "res = [] \<longleftrightarrow> cs = []" unfolding cs(2) by (cases cs) (simp_all add: path_join_def)
  with out cs(2) have o: "out = (if cs = [] then ''/'' else path_join cs)" by simp
  have root: "f r = 0" if "vfs_lookup tab s ''/'' = Some r" for r using h(1) that by (simp add: search_root_def)
  show ?thesis
    by (intro exI [of _ cs] conjI o out(2)) (use cs(1) root in \<open>auto simp: walked_def dir_ok_def\<close>)
qed

subsection \<open>A small file system\<close>

text \<open>A root with a directory, a file in it, and a link to the directory.\<close>

definition demo_inode :: "vfs_node_type \<Rightarrow> vfs_inode" where
  "demo_inode t = \<lparr>i_type = t, i_size = 0, i_ops = None, i_mode = 0, i_uid = 0, i_gid = 0, i_atime = 0, i_mtime = 0\<rparr>"

definition demo_lookup :: "string \<Rightarrow> vfs_inode option" where
  "demo_lookup p = (if p = ''/'' \<or> p = ''/a'' then Some (demo_inode VFS_NODE_DIR)
     else if p = ''/a/b'' then Some (demo_inode VFS_NODE_FILE)
     else if p = ''/l'' then Some (demo_inode VFS_NODE_SYMLINK) else None)"

definition demo_ops :: "unit vfs_fs_ops" where
  "demo_ops = \<lparr>op_flags = 0, op_lookup = (\<lambda>w p. demo_lookup p), op_poke = (\<lambda>w p i. w), op_readdir = (\<lambda>w p. (0, [])),
     op_read = (\<lambda>w i k n. (0, [])), op_write = (\<lambda>w i k d. (w, 0)), op_create = (\<lambda>w p d. (w, 0)), op_mkdir = (\<lambda>w p. (w, 0)),
     op_remove = (\<lambda>w p. (w, 0)), op_rename = None, op_truncate = None, op_setattr = None,
     op_readlink = Some (\<lambda>w p. (1, ''a'')), op_symlink = None, op_sync = None, op_link = None, op_mntinfo = None\<rparr>"

definition demo_state :: "unit vfs_state" where
  "demo_state = fst (vfs_mount_root (\<lambda>k. demo_ops)
     (vfs_init \<lparr>g_mounts = [], g_mp_used = [], g_anon_minor = 16, pc_inval = [], fs_world = ()\<rparr>) 0 ''demo'')"

lemma demo_mounts: "\<exists>d. g_mounts demo_state = [\<lparr>m_point = ''/'', m_store = None, m_ops = 0, m_name = ''demo'', m_dev = d\<rparr>]"
  by (simp add: demo_state_def vfs_mount_root_def Let_def vfs_init_def find_mount_by_point_def pagecache_drop_def
      push_mount_def VFS_MAX_MOUNTS_def)

lemma demo_lookup_state:
  assumes "p \<noteq> []" "hd p = CHR ''/''" "length p < 256"
  shows "vfs_lookup (\<lambda>k. demo_ops) demo_state p = map_option (\<lambda>i. i\<lparr>i_ops := Some 0\<rparr>) (demo_lookup p)"
proof -
  obtain d where d: "g_mounts demo_state = [\<lparr>m_point = ''/'', m_store = None, m_ops = 0, m_name = ''demo'', m_dev = d\<rparr>]"
    using demo_mounts by blast
  have "take 1 p = ''/''" using assms by (cases p) simp_all
  then show ?thesis using assms
    by (simp add: vfs_lookup_def vfs_resolve_def d mount_match_def rel_path_def Let_def demo_ops_def)
qed

lemma demo_steps: "(vfs_step (\<lambda>k. demo_ops))\<^sup>*\<^sup>* (vfs_init \<lparr>g_mounts = [], g_mp_used = [], g_anon_minor = 16, pc_inval = [], fs_world = ()\<rparr>) demo_state"
  unfolding demo_state_def by (rule r_into_rtranclp, rule vfs_step.step_root, rule prod.collapse [symmetric])

subsection \<open>Properties\<close>

text \<open>
  C7. The path walk enforces search permission everywhere.  When it succeeds, its result is a
  canonical path (no empty, dot or dot-dot component, shorter than the caller's buffer), the
  root passed the search check, and every directory the result descends through, links
  resolved, exists, is a directory and passed the check.
\<close>

theorem walk_searches_every_directory:
  assumes "vfs_walk_checked tab s path outsz follow (Some f) = Inr out" "0 < outsz"
  shows "\<exists>cs. out = (if cs = [] then ''/'' else path_join cs) \<and> (\<forall>c \<in> set cs. comp_ok c) \<and> length out < outsz
    \<and> (\<forall>r. vfs_lookup tab s ''/'' = Some r \<longrightarrow> f r = 0)
    \<and> (\<forall>k. 0 < k \<and> k < length cs \<longrightarrow>
         (\<exists>d. vfs_lookup tab s (path_join (take k cs)) = Some d \<and> i_type d = VFS_NODE_DIR \<and> f d = 0))"
  by (rule walk_checked_spec [OF assms])

theorem walk_searches_every_directory_witness:
  "vfs_walk_checked (\<lambda>k. demo_ops) demo_state ''/l/./b'' 256 True (Some (\<lambda>i. 0)) = Inr ''/a/b'' \<and>
   (\<exists>cs. ''/a/b'' = (if cs = [] then ''/'' else path_join cs) \<and> length ''/a/b'' < 256)"
proof -
  let ?L = "vfs_lookup (\<lambda>k. demo_ops) demo_state"
  have l: "?L ''/'' = Some ((demo_inode VFS_NODE_DIR)\<lparr>i_ops := Some 0\<rparr>)" "?L ''/a'' = Some ((demo_inode VFS_NODE_DIR)\<lparr>i_ops := Some 0\<rparr>)"
    "?L ''/l'' = Some ((demo_inode VFS_NODE_SYMLINK)\<lparr>i_ops := Some 0\<rparr>)" "?L ''/a/b'' = Some ((demo_inode VFS_NODE_FILE)\<lparr>i_ops := Some 0\<rparr>)"
    by (simp_all add: demo_lookup_state demo_lookup_def)
  have r: "readlink_at (\<lambda>k. demo_ops) demo_state ''/l'' = (1, ''a'')"
    using demo_mounts by (auto simp: readlink_at_def vfs_resolve_def mount_match_def rel_path_def demo_ops_def)
  have w: "vfs_walk_checked (\<lambda>k. demo_ops) demo_state ''/l/./b'' 256 True (Some (\<lambda>i. 0)) = Inr ''/a/b''"
    by (simp add: vfs_walk_checked_def vfs_copy_def VFS_PATH_def search_root_def l walk_loop.simps walk_step_def
        walk_entry_def VFS_MAXHOPS_def r link_path_def is_slash_def demo_inode_def)
  show ?thesis using walk_searches_every_directory [OF w] w by fastforce
qed

text \<open>A path is served by the mount whose mount point is the longest prefix of it that ends at
  a component boundary, and by none exactly when no mount point matches.
\<close>

theorem resolve_longest_prefix:
  assumes "mounts_ok s" "path \<noteq> []"
  shows "case vfs_resolve (g_mounts s) path n of
      None \<Rightarrow> \<forall>m. m \<in> set (g_mounts s) \<longrightarrow> \<not> mount_match (m_point m) path
    | Some (b, rel) \<Rightarrow> b \<in> set (g_mounts s) \<and> mount_match (m_point b) path \<and> rel = rel_path (m_point b) path n
        \<and> (\<forall>m. m \<in> set (g_mounts s) \<and> mount_match (m_point m) path \<longrightarrow> length (m_point m) \<le> length (m_point b))"
proof -
  have ne: "\<forall>m \<in> set (g_mounts s). m_point m \<noteq> []"
    using assms(1) unfolding mounts_ok_def point_ok_def by (metis list.distinct(1) list.size(3) not_less_zero)
  have "best_ok path None 0" by (simp add: best_ok_def)
  from resolve_best_spec [OF ne this] assms(2) show ?thesis
    by (cases "resolve_best (g_mounts s) path None 0") (auto simp: vfs_resolve_def Let_def)
qed

text \<open>
  C27. Whatever sequence of mount, remount and unmount calls is made after initialisation, the
  mount table stays well formed (distinct, absolute, slash-terminated-free mount points, path
  slots in use exactly by the non-root mounts) and a mounted root file system is never lost.
\<close>

theorem mount_table_safe:
  assumes "(vfs_step tab)\<^sup>*\<^sup>* (vfs_init s0) s" "(vfs_step tab)\<^sup>*\<^sup>* s s'"
  shows "mounts_ok s' \<and> (''/'' \<in> m_point ` set (g_mounts s) \<longrightarrow> ''/'' \<in> m_point ` set (g_mounts s'))"
  using vfs_steps_ok [OF assms(2)] vfs_steps_ok [OF assms(1) vfs_init_ok] by blast

theorem mount_table_safe_witness:
  "''/'' \<in> m_point ` set (g_mounts (fst (vfs_unmount demo_state ''/'')))"
proof -
  have "(vfs_step (\<lambda>k. demo_ops))\<^sup>*\<^sup>* demo_state (fst (vfs_unmount demo_state ''/''))"
    by (rule r_into_rtranclp, rule vfs_step.step_unmount, rule prod.collapse [symmetric])
  from mount_table_safe [OF demo_steps this] demo_mounts show ?thesis by auto
qed

text \<open>vfs_mount succeeds exactly when the mount point is absolute, not too long, not the root,
  not yet mounted and the table has room; an unmount of the same point then restores the mount
  table and the path slots.
\<close>

theorem mount_unmount_roundtrip:
  assumes "mounts_ok s"
  shows "case vfs_mount tab s mp ops name of (s1, r) \<Rightarrow>
      (r = 0 \<longleftrightarrow> mp \<noteq> [] \<and> hd mp = CHR ''/'' \<and> length mp \<le> 255 \<and> length (strip_slashes mp) \<noteq> 1
         \<and> strip_slashes mp \<notin> m_point ` set (g_mounts s) \<and> length (g_mounts s) < VFS_MAX_MOUNTS)
      \<and> (r = 0 \<longrightarrow> (case vfs_unmount s1 (strip_slashes mp) of (s2, q) \<Rightarrow> q = 0 \<and> g_mounts s2 = g_mounts s))"
proof (cases "vfs_mount tab s mp ops name")
  case (Pair s1 r)
  let ?p = "strip_slashes mp"
  have new: "find_mount_by_point (g_mounts s) ?p = None \<longleftrightarrow> ?p \<notin> m_point ` set (g_mounts s)"
    unfolding find_mount_by_point_def find_index_None by (metis imageE imageI)
  have iff: "r = 0 \<longleftrightarrow> mp \<noteq> [] \<and> hd mp = CHR ''/'' \<and> length mp \<le> 255 \<and> length ?p \<noteq> 1
         \<and> ?p \<notin> m_point ` set (g_mounts s) \<and> length (g_mounts s) < VFS_MAX_MOUNTS"
    using Pair mount_slot_free [OF assms] unfolding new [symmetric]
    by (auto simp: vfs_mount_def Let_def split: if_splits option.splits)
  moreover have "case vfs_unmount s1 ?p of (s2, q) \<Rightarrow> q = 0 \<and> g_mounts s2 = g_mounts s" if r: "r = 0"
  proof -
    have np: "?p \<notin> m_point ` set (g_mounts s)" "point_ok ?p" using iff r strip_slashes_ok by blast+
    obtain m where m: "g_mounts s1 = g_mounts s @ [m]" "m_point m = ?p"
      using Pair r by (auto simp: vfs_mount_def Let_def push_mount_def split: if_splits option.splits)
    have ok1: "mounts_ok s1" using vfs_mount_ok [OF assms Pair] by blast
    obtain s2 q where u: "vfs_unmount s1 ?p = (s2, q)" by force
    have root: "?p \<noteq> ''/''" using np(2) by (auto simp: point_ok_def)
    have "filter (\<lambda>x. m_point x \<noteq> ?p) (g_mounts s) = g_mounts s" using np(1) unfolding filter_id_conv by (metis imageI)
    with vfs_unmount_spec [OF ok1 u] m root u show ?thesis by (auto split: if_splits)
  qed
  ultimately show ?thesis using Pair by simp
qed

end
