(* ===== verification/Cred.thy ===== *)
theory Cred
  imports Process Vfs_Walk User_Copy
begin

text \<open>
  Credentials and discretionary access control (kernel/cred.c): the permission decision on an
  inode, path resolution with search checks, creation, deletion and attribute policies, the
  rules for signalling and inspecting a process, set-id execution, and the id system calls.
  A NULL process is \<^const>\<open>None\<close>; the file system is the state of \<^verbatim>\<open>Vfs\<close> with its
  operation tables.  The log lines written to the debug console are left out.
\<close>

definition S_IFMT :: u32 where "S_IFMT = 0xF000"
definition S_IFDIR :: u32 where "S_IFDIR = 0x4000"
definition S_IFREG :: u32 where "S_IFREG = 0x8000"
definition S_IFLNK :: u32 where "S_IFLNK = 0xA000"
definition S_ISUID :: u32 where "S_ISUID = 0x800"
definition S_ISGID :: u32 where "S_ISGID = 0x400"
definition S_ISVTX :: u32 where "S_ISVTX = 0x200"
definition CRED_UNCHANGED :: u32 where "CRED_UNCHANGED = 0xFFFFFFFF"
definition UTIME_NOW_SENTINEL :: u64 where "UTIME_NOW_SENTINEL = 0xFFFFFFFFFFFFFFFF"
definition VFS_FS_RDONLY :: u32 where "VFS_FS_RDONLY = 2"
definition MAY_EXEC :: u32 where "MAY_EXEC = 1"
definition MAY_WRITE :: u32 where "MAY_WRITE = 2"
definition MAY_READ :: u32 where "MAY_READ = 4"

lemmas mode_defs = S_IFMT_def S_IFDIR_def S_IFREG_def S_IFLNK_def S_ISUID_def S_ISGID_def S_ISVTX_def
  MAY_EXEC_def MAY_WRITE_def MAY_READ_def

definition CRED_NGROUPS :: nat where
  "CRED_NGROUPS = 32"

subsection \<open>Identity\<close>

definition cred_init_root :: proc_cred where
  "cred_init_root = \<lparr>ruid = 0, euid = 0, suid = 0, rgid = 0, egid = 0, sgid = 0, groups = []\<rparr>"

definition cred_is_kernel :: "process option \<Rightarrow> bool" where
  "cred_is_kernel c = (case c of None \<Rightarrow> True | Some p \<Rightarrow> pid p = 0)"

definition cred_is_root :: "process option \<Rightarrow> bool" where
  "cred_is_root c \<longleftrightarrow> cred_is_kernel c \<or> euid (cred (the c)) = 0"

definition in_group_ids :: "proc_cred \<Rightarrow> u32 \<Rightarrow> u32 \<Rightarrow> bool" where
  "in_group_ids cr g gid \<longleftrightarrow> g = gid \<or> gid \<in> set (take CRED_NGROUPS (groups cr))"

definition cred_in_group :: "process option \<Rightarrow> u32 \<Rightarrow> bool" where
  "cred_in_group c gid = (if cred_is_kernel c then True else in_group_ids (cred (the c)) (egid (cred (the c))) gid)"

subsection \<open>The permission decision\<close>

definition cred_inode_mode :: "vfs_inode option \<Rightarrow> u32" where
  "cred_inode_mode io = (case io of
     None \<Rightarrow> 0
   | Some ino \<Rightarrow>
       let m = i_mode ino;
           t = (case i_type ino of VFS_NODE_DIR \<Rightarrow> S_IFDIR | VFS_NODE_SYMLINK \<Rightarrow> S_IFLNK | VFS_NODE_FILE \<Rightarrow> S_IFREG)
       in if m = 0 then t OR (if i_type ino = VFS_NODE_DIR then 0x1ED else 0x1A4)
          else if m AND S_IFMT = 0 then m OR t else m)"

definition perm_ids :: "u32 \<Rightarrow> u32 \<Rightarrow> proc_cred \<Rightarrow> vfs_inode \<Rightarrow> u32 \<Rightarrow> int" where
  "perm_ids uid gid cr ino req0 =
    (let m = cred_inode_mode (Some ino); req = req0 AND 7
     in if uid = 0 then
          (if req AND MAY_EXEC \<noteq> 0 \<and> m AND S_IFMT \<noteq> S_IFDIR \<and> m AND 0x49 = 0 then -13 else 0)
        else let bits = (if uid = i_uid ino then drop_bit 6 m AND 7
                         else if in_group_ids cr gid (i_gid ino) then drop_bit 3 m AND 7
                         else m AND 7)
             in if bits AND req = req then 0 else -13)"

definition ro_fs :: "'w fs_table \<Rightarrow> vfs_inode \<Rightarrow> bool" where
  "ro_fs tab ino = (case i_ops ino of None \<Rightarrow> False | Some k \<Rightarrow> op_flags (tab k) AND VFS_FS_RDONLY \<noteq> 0)"

definition cred_inode_perm :: "'w fs_table \<Rightarrow> process option \<Rightarrow> vfs_inode option \<Rightarrow> u32 \<Rightarrow> int" where
  "cred_inode_perm tab c io req =
    (if cred_is_kernel c \<or> io = None then 0
     else if req AND MAY_WRITE \<noteq> 0 \<and> ro_fs tab (the io) then -30
     else perm_ids (euid (cred (the c))) (egid (cred (the c))) (cred (the c)) (the io) req)"

definition cred_inode_perm_real :: "'w fs_table \<Rightarrow> process option \<Rightarrow> vfs_inode option \<Rightarrow> u32 \<Rightarrow> int" where
  "cred_inode_perm_real tab c io req =
    (if cred_is_kernel c \<or> io = None then 0
     else if req AND MAY_WRITE \<noteq> 0 \<and> ro_fs tab (the io) then -30
     else perm_ids (ruid (cred (the c))) (rgid (cred (the c))) (cred (the c)) (the io) req)"

definition search_cb :: "'w fs_table \<Rightarrow> process option \<Rightarrow> vfs_inode \<Rightarrow> int" where
  "search_cb tab c dir = cred_inode_perm tab c (Some dir) MAY_EXEC"

subsection \<open>Paths\<close>

definition cred_resolve :: "'w fs_table \<Rightarrow> 'w vfs_state \<Rightarrow> process option \<Rightarrow> string \<Rightarrow> bool \<Rightarrow> nat \<Rightarrow> int + string" where
  "cred_resolve tab s c path follow cap =
    (if cred_is_root c then vfs_walk tab s path cap follow
     else vfs_walk_checked tab s path cap follow (Some (search_cb tab c)))"

text \<open>The canonical path and the inode, or the error.\<close>

definition cred_check_path ::
  "'w fs_table \<Rightarrow> 'w vfs_state \<Rightarrow> process option \<Rightarrow> string \<Rightarrow> bool \<Rightarrow> u32 \<Rightarrow> nat \<Rightarrow> int + (string \<times> vfs_inode)" where
  "cred_check_path tab s c path follow req cap = (case cred_resolve tab s c path follow cap of
     Inl e \<Rightarrow> Inl e
   | Inr canon \<Rightarrow> (case vfs_lookup tab s canon of
       None \<Rightarrow> Inl (-2)
     | Some ino \<Rightarrow>
         if req \<noteq> 0 \<and> cred_inode_perm tab c (Some ino) req \<noteq> 0 then Inl (cred_inode_perm tab c (Some ino) req)
         else Inr (canon, ino)))"

definition parent_of :: "string \<Rightarrow> nat \<Rightarrow> string" where
  "parent_of p cap =
    (let ls = length p - 1 - length (takeWhile (\<lambda>c. \<not> is_slash c) (rev p))
     in if \<not> list_ex is_slash p \<or> ls = 0 then ''/'' else take (min ls (cap - 1)) p)"

definition cred_may_create :: "'w fs_table \<Rightarrow> 'w vfs_state \<Rightarrow> process option \<Rightarrow> string \<Rightarrow> int" where
  "cred_may_create tab s c canon = (case vfs_lookup tab s (parent_of canon 256) of
     None \<Rightarrow> -2
   | Some d \<Rightarrow> if i_type d \<noteq> VFS_NODE_DIR then -20 else cred_inode_perm tab c (Some d) (MAY_WRITE OR MAY_EXEC))"

definition cred_may_delete :: "'w fs_table \<Rightarrow> 'w vfs_state \<Rightarrow> process option \<Rightarrow> string \<Rightarrow> int" where
  "cred_may_delete tab s c canon = (case vfs_lookup tab s (parent_of canon 256) of
     None \<Rightarrow> -2
   | Some d \<Rightarrow>
       if i_type d \<noteq> VFS_NODE_DIR then -20
       else let e = cred_inode_perm tab c (Some d) (MAY_WRITE OR MAY_EXEC) in
         if e \<noteq> 0 then e
         else if cred_is_root c then 0
         else (case vfs_lookup tab s canon of
             None \<Rightarrow> -2
           | Some v \<Rightarrow>
               if cred_inode_mode (Some d) AND S_ISVTX \<noteq> 0 \<and> i_uid v \<noteq> euid (cred (the c))
                  \<and> i_uid d \<noteq> euid (cred (the c)) then -1 else 0))"

definition cred_is_owner :: "process option \<Rightarrow> vfs_inode option \<Rightarrow> bool" where
  "cred_is_owner c io = (if cred_is_root c then True
     else case io of None \<Rightarrow> False | Some ino \<Rightarrow> i_uid ino = euid (cred (the c)))"

definition cred_new_owner :: "'w fs_table \<Rightarrow> 'w vfs_state \<Rightarrow> process option \<Rightarrow> string \<Rightarrow> u32 \<times> u32 \<times> bool" where
  "cred_new_owner tab s c parent =
    (let uid = (if cred_is_kernel c then 0 else euid (cred (the c)));
         gid = (if cred_is_kernel c then 0 else egid (cred (the c)))
     in case vfs_lookup tab s parent of
          Some d \<Rightarrow> if cred_inode_mode (Some d) AND S_ISGID \<noteq> 0 then (uid, i_gid d, True) else (uid, gid, False)
        | None \<Rightarrow> (uid, gid, False))"

definition cred_apply_new :: "'w fs_table \<Rightarrow> 'w vfs_state \<Rightarrow> process option \<Rightarrow> string \<Rightarrow> u32 \<Rightarrow> bool \<Rightarrow> 'w vfs_state" where
  "cred_apply_new tab s c canon mode is_dir =
    (let um = (case c of None \<Rightarrow> 0x12 | Some p \<Rightarrow> umask p);
         want = ((if mode \<noteq> 0 then mode else if is_dir then 0x1FF else 0x1B6) AND 0xFFF) AND NOT um;
         (uid, gid, sg) = cred_new_owner tab s c (parent_of canon 256);
         want = (if sg \<and> is_dir then want OR S_ISGID else want);
         want = (if \<not> is_dir \<and> want AND S_ISGID \<noteq> 0 \<and> \<not> cred_is_root c \<and> \<not> cred_in_group c gid
                 then want AND NOT S_ISGID else want)
     in case vfs_lookup tab s canon of
          None \<Rightarrow> s
        | Some ino \<Rightarrow>
            let have_m = cred_inode_mode (Some ino) AND 0xFFF;
                valid = (if have_m \<noteq> want \<or> i_mode ino = 0 then VFS_ATTR_MODE else 0)
                  OR (if i_uid ino \<noteq> uid then VFS_ATTR_UID else 0) OR (if i_gid ino \<noteq> gid then VFS_ATTR_GID else 0);
                a = \<lparr>a_mode = want, a_uid = uid, a_gid = gid, a_atime = 0, a_mtime = 0\<rparr>
            in if valid \<noteq> 0 then fst (vfs_lsetattr tab s canon a valid) else s)"

subsection \<open>Attribute changes\<close>

definition attr_result :: "'w vfs_state \<times> int \<Rightarrow> 'w vfs_state \<times> int" where
  "attr_result sr = (fst sr, if snd sr < 0 then (if snd sr = -1 then -5 else snd sr) else 0)"

definition cred_chmod :: "'w fs_table \<Rightarrow> 'w vfs_state \<Rightarrow> process option \<Rightarrow> string \<Rightarrow> u32 \<Rightarrow> 'w vfs_state \<times> int" where
  "cred_chmod tab s c canon mode = (case vfs_lookup tab s canon of
     None \<Rightarrow> (s, -2)
   | Some ino \<Rightarrow>
       if \<not> cred_is_kernel c \<and> ro_fs tab ino then (s, -30)
       else if \<not> cred_is_owner c (Some ino) then (s, -1)
       else let m0 = mode AND 0xFFF;
                m = (if \<not> cred_is_root c \<and> m0 AND S_ISGID \<noteq> 0 \<and> i_type ino \<noteq> VFS_NODE_DIR
                        \<and> \<not> cred_in_group c (i_gid ino) then m0 AND NOT S_ISGID else m0)
            in attr_result (vfs_lsetattr tab s canon \<lparr>a_mode = m, a_uid = 0, a_gid = 0, a_atime = 0, a_mtime = 0\<rparr> VFS_ATTR_MODE))"

definition cred_chown :: "'w fs_table \<Rightarrow> 'w vfs_state \<Rightarrow> process option \<Rightarrow> string \<Rightarrow> u32 \<Rightarrow> u32 \<Rightarrow> 'w vfs_state \<times> int" where
  "cred_chown tab s c canon uid gid = (case vfs_lookup tab s canon of
     None \<Rightarrow> (s, -2)
   | Some ino \<Rightarrow>
       if \<not> cred_is_kernel c \<and> ro_fs tab ino then (s, -30)
       else let ouid = i_uid ino; ogid = i_gid ino; omode = cred_inode_mode (Some ino);
                is_dir = (i_type ino = VFS_NODE_DIR);
                chu = (uid \<noteq> CRED_UNCHANGED \<and> uid \<noteq> ouid); chg = (gid \<noteq> CRED_UNCHANGED \<and> gid \<noteq> ogid)
       in if \<not> cred_is_root c \<and> (chu \<or> chg \<and> (euid (cred (the c)) \<noteq> ouid \<or> \<not> cred_in_group c gid)
              \<or> \<not> chg \<and> euid (cred (the c)) \<noteq> ouid) then (s, -1)
          else let valid = (if uid \<noteq> CRED_UNCHANGED then VFS_ATTR_UID else 0) OR (if gid \<noteq> CRED_UNCHANGED then VFS_ATTR_GID else 0)
          in if valid = 0 then (s, 0)
             else let nm0 = omode AND 0xFFF AND NOT S_ISUID;
                      nm = (if omode AND 0x8 \<noteq> 0 then nm0 AND NOT S_ISGID else nm0);
                      strip = (\<not> is_dir \<and> (chu \<or> chg) \<and> omode AND (S_ISUID OR S_ISGID) \<noteq> 0 \<and> nm \<noteq> omode AND 0xFFF)
                  in attr_result (vfs_lsetattr tab s canon
                       \<lparr>a_mode = (if strip then nm else omode AND 0xFFF), a_uid = uid, a_gid = gid, a_atime = 0, a_mtime = 0\<rparr>
                       (if strip then valid OR VFS_ATTR_MODE else valid)))"

text \<open>The wall clock is the parameter \<^verbatim>\<open>now_sec\<close>.\<close>

definition cred_utimes :: "'w fs_table \<Rightarrow> 'w vfs_state \<Rightarrow> u64 \<Rightarrow> process option \<Rightarrow> string \<Rightarrow> u64 \<Rightarrow> u64 \<Rightarrow> 'w vfs_state \<times> int" where
  "cred_utimes tab s now_sec c canon at mt = (case vfs_lookup tab s canon of
     None \<Rightarrow> (s, -2)
   | Some ino \<Rightarrow>
       if \<not> cred_is_kernel c \<and> ro_fs tab ino then (s, -30)
       else let now = (at = UTIME_NOW_SENTINEL \<and> mt = UTIME_NOW_SENTINEL);
                e = (if cred_is_owner c (Some ino) then 0
                     else if \<not> now then -1 else cred_inode_perm tab c (Some ino) MAY_WRITE)
            in if e \<noteq> 0 then (s, e)
               else attr_result (vfs_lsetattr tab s canon
                 \<lparr>a_mode = 0, a_uid = 0, a_gid = 0, a_atime = (if at = UTIME_NOW_SENTINEL then now_sec else at),
                  a_mtime = (if mt = UTIME_NOW_SENTINEL then now_sec else mt)\<rparr> (VFS_ATTR_ATIME OR VFS_ATTR_MTIME)))"

subsection \<open>Rules between processes\<close>

definition cred_may_signal :: "process option \<Rightarrow> process option \<Rightarrow> int \<Rightarrow> bool" where
  "cred_may_signal so t sig =
    (if cred_is_kernel so \<or> t = None then True
     else let s = cred (the so); q = cred (the t) in
       if euid s = 0 then True
       else if euid s = ruid q \<or> euid s = suid q \<or> ruid s = ruid q \<or> ruid s = suid q then True
       else sig = 18 \<and> sid (the so) = sid (the t))"

definition cred_may_inspect :: "process option \<Rightarrow> process option \<Rightarrow> bool" where
  "cred_may_inspect c t =
    (if cred_is_root c \<or> t = None then True
     else let u = euid (cred (the c)); g = egid (cred (the c)); q = cred (the t)
          in ruid q = u \<and> euid q = u \<and> suid q = u \<and> rgid q = g \<and> egid q = g \<and> sgid q = g)"

definition cred_on_root_mount :: "vfs_mount_t list \<Rightarrow> string \<Rightarrow> bool" where
  "cred_on_root_mount ms canon \<longleftrightarrow> vfs_mount_point_for ms canon = Some ''/''"

definition cred_exec_setid :: "proc_cred \<Rightarrow> u32 \<Rightarrow> u32 \<Rightarrow> u32 \<Rightarrow> bool \<Rightarrow> proc_cred \<times> bool" where
  "cred_exec_setid cr fmode fuid fgid allowed =
    (let oe = euid cr; og = egid cr;
         wantg = (fmode AND S_ISGID \<noteq> 0 \<and> fmode AND 0x8 \<noteq> 0);
         want = (fmode AND S_ISUID \<noteq> 0 \<or> wantg);
         cr = (if want \<and> allowed
               then cr\<lparr>euid := (if fmode AND S_ISUID \<noteq> 0 then fuid else euid cr), egid := (if wantg then fgid else egid cr)\<rparr>
               else cr);
         cr = cr\<lparr>suid := euid cr, sgid := egid cr\<rparr>
     in (cr, euid cr \<noteq> oe \<or> egid cr \<noteq> og))"

subsection \<open>The id system calls\<close>

datatype cred_call = SYS_GETUID | SYS_GETEUID | SYS_GETGID | SYS_GETEGID | SYS_SETUID | SYS_SETGID
  | SYS_SETRESUID | SYS_SETRESGID | SYS_GETGROUPS | SYS_SETGROUPS | SYS_OTHER

definition is_one_of :: "u32 \<Rightarrow> u32 \<times> u32 \<times> u32 \<Rightarrow> bool" where
  "is_one_of v ids = (case ids of (a, b, c) \<Rightarrow> v = a \<or> v = b \<or> v = c)"

definition set_res :: "u32 \<times> u32 \<times> u32 \<Rightarrow> u32 \<Rightarrow> u32 \<Rightarrow> u32 \<Rightarrow> bool \<Rightarrow> int + (u32 \<times> u32 \<times> u32)" where
  "set_res ids r e s priv =
    (if \<not> priv \<and> (r \<noteq> CRED_UNCHANGED \<and> \<not> is_one_of r ids \<or> e \<noteq> CRED_UNCHANGED \<and> \<not> is_one_of e ids
        \<or> s \<noteq> CRED_UNCHANGED \<and> \<not> is_one_of s ids) then Inl (-1)
     else case ids of (a, b, c) \<Rightarrow> Inr (if r \<noteq> CRED_UNCHANGED then r else a, if e \<noteq> CRED_UNCHANGED then e else b,
       if s \<noteq> CRED_UNCHANGED then s else c))"

definition le_bytes :: "u32 \<Rightarrow> u8 list" where
  "le_bytes w = map (\<lambda>k. ucast (drop_bit (8 * k) w)) [0 ..< 4]"

definition bytes_le :: "u8 list \<Rightarrow> u32" where
  "bytes_le bs = foldr (\<lambda>b acc. ucast b OR push_bit 8 acc) bs 0"

fun u32s_of :: "u8 list \<Rightarrow> u32 list" where
  "u32s_of (a # b # c # d # r) = bytes_le [a, b, c, d] # u32s_of r"
| "u32s_of _ = []"

text \<open>The credentials, the user memory, and the result of the calling process.\<close>

definition cred_syscall :: "memory \<Rightarrow> proc_cred \<Rightarrow> cred_call \<Rightarrow> u64 \<Rightarrow> u64 \<Rightarrow> u64 \<Rightarrow> memory \<times> proc_cred \<times> int" where
  "cred_syscall mem cr num a0 a1 a2 =
    (let priv = (euid cr = 0) in
     case num of
       SYS_GETUID \<Rightarrow>
         if a0 = 0 then (mem, cr, uint (ruid cr))
         else (case copy_to_user mem a0 (concat (map le_bytes [ruid cr, euid cr, suid cr])) of
             (mem', r) \<Rightarrow> (mem', cr, if r \<noteq> 0 then -14 else uint (ruid cr)))
     | SYS_GETGID \<Rightarrow>
         if a0 = 0 then (mem, cr, uint (rgid cr))
         else (case copy_to_user mem a0 (concat (map le_bytes [rgid cr, egid cr, sgid cr])) of
             (mem', r) \<Rightarrow> (mem', cr, if r \<noteq> 0 then -14 else uint (rgid cr)))
     | SYS_GETEUID \<Rightarrow> (mem, cr, uint (euid cr))
     | SYS_GETEGID \<Rightarrow> (mem, cr, uint (egid cr))
     | SYS_SETUID \<Rightarrow>
         let u = ucast a0 in
         if u = CRED_UNCHANGED then (mem, cr, -22)
         else if priv then (mem, cr\<lparr>ruid := u, euid := u, suid := u\<rparr>, 0)
         else if u = ruid cr \<or> u = suid cr then (mem, cr\<lparr>euid := u\<rparr>, 0)
         else (mem, cr, -1)
     | SYS_SETGID \<Rightarrow>
         let g = ucast a0 in
         if g = CRED_UNCHANGED then (mem, cr, -22)
         else if priv then (mem, cr\<lparr>rgid := g, egid := g, sgid := g\<rparr>, 0)
         else if g = rgid cr \<or> g = sgid cr then (mem, cr\<lparr>egid := g\<rparr>, 0)
         else (mem, cr, -1)
     | SYS_SETRESUID \<Rightarrow>
         (case set_res (ruid cr, euid cr, suid cr) (ucast a0) (ucast a1) (ucast a2) priv of
            Inl e \<Rightarrow> (mem, cr, e)
          | Inr (r, e, s) \<Rightarrow> (mem, cr\<lparr>ruid := r, euid := e, suid := s\<rparr>, 0))
     | SYS_SETRESGID \<Rightarrow>
         (case set_res (rgid cr, egid cr, sgid cr) (ucast a0) (ucast a1) (ucast a2) priv of
            Inl e \<Rightarrow> (mem, cr, e)
          | Inr (r, e, s) \<Rightarrow> (mem, cr\<lparr>rgid := r, egid := e, sgid := s\<rparr>, 0))
     | SYS_GETGROUPS \<Rightarrow>
         let n = sint a0; ng = length (groups cr) in
         if n < 0 then (mem, cr, -22)
         else if n = 0 then (mem, cr, int ng)
         else if n < int ng then (mem, cr, -22)
         else if ng \<noteq> 0 then
           (case copy_to_user mem a1 (concat (map le_bytes (groups cr))) of
              (mem', r) \<Rightarrow> (mem', cr, if r \<noteq> 0 then -14 else int ng))
         else (mem, cr, int ng)
     | SYS_SETGROUPS \<Rightarrow>
         let n = sint a0 in
         if \<not> priv then (mem, cr, -1)
         else if n < 0 \<or> n > int CRED_NGROUPS then (mem, cr, -22)
         else if n = 0 then (mem, cr\<lparr>groups := []\<rparr>, 0)
         else (case copy_from_user mem a1 (a0 * 4) of
             (bs, r) \<Rightarrow> if r \<noteq> 0 then (mem, cr, -14) else (mem, cr\<lparr>groups := u32s_of bs\<rparr>, 0))
     | SYS_OTHER \<Rightarrow> (mem, cr, -38))"

subsection \<open>What the calls can change\<close>

definition uids :: "proc_cred \<Rightarrow> u32 set" where
  "uids cr = {ruid cr, euid cr, suid cr}"

definition gids :: "proc_cred \<Rightarrow> u32 set" where
  "gids cr = {rgid cr, egid cr, sgid cr}"

definition cred_calls :: "memory \<Rightarrow> proc_cred \<Rightarrow> (cred_call \<times> u64 \<times> u64 \<times> u64) list \<Rightarrow> memory \<times> proc_cred" where
  "cred_calls mem cr cs = foldl (\<lambda>(m, c) (num, a0, a1, a2). case cred_syscall m c num a0 a1 a2 of (m', c', r) \<Rightarrow> (m', c')) (mem, cr) cs"

lemma set_res_unpriv:
  "set_res (a, b, c) r e s False = Inr (x, y, z) \<Longrightarrow> {x, y, z} \<subseteq> {a, b, c}"
  by (auto simp: set_res_def is_one_of_def split: if_splits)

lemma cred_syscall_unpriv:
  assumes "euid cr \<noteq> 0" "cred_syscall mem cr num a0 a1 a2 = (mem', cr', r)"
  shows "uids cr' \<subseteq> uids cr \<and> gids cr' \<subseteq> gids cr \<and> groups cr' = groups cr"
proof (cases num)
  case SYS_SETRESUID
  show ?thesis
  proof (cases "set_res (ruid cr, euid cr, suid cr) (ucast a0) (ucast a1) (ucast a2) False")
    case (Inr t)
    obtain x y z where t: "t = (x, y, z)" by (cases t)
    with Inr SYS_SETRESUID assms have "cr' = cr\<lparr>ruid := x, euid := y, suid := z\<rparr>" by (simp add: cred_syscall_def)
    with set_res_unpriv [OF Inr [unfolded t]] show ?thesis by (simp add: uids_def gids_def)
  qed (use SYS_SETRESUID assms in \<open>simp add: cred_syscall_def\<close>)
next
  case SYS_SETRESGID
  show ?thesis
  proof (cases "set_res (rgid cr, egid cr, sgid cr) (ucast a0) (ucast a1) (ucast a2) False")
    case (Inr t)
    obtain x y z where t: "t = (x, y, z)" by (cases t)
    with Inr SYS_SETRESGID assms have "cr' = cr\<lparr>rgid := x, egid := y, sgid := z\<rparr>" by (simp add: cred_syscall_def)
    with set_res_unpriv [OF Inr [unfolded t]] show ?thesis by (simp add: uids_def gids_def)
  qed (use SYS_SETRESGID assms in \<open>simp add: cred_syscall_def\<close>)
qed (use assms in \<open>auto simp: cred_syscall_def uids_def gids_def Let_def split: if_splits prod.splits\<close>)

lemma cred_calls_unpriv:
  assumes "0 \<notin> uids cr"
  shows "uids (snd (cred_calls mem cr cs)) \<subseteq> uids cr \<and> gids (snd (cred_calls mem cr cs)) \<subseteq> gids cr
    \<and> groups (snd (cred_calls mem cr cs)) = groups cr"
proof (induction cs rule: rev_induct)
  case Nil
  then show ?case by (simp add: cred_calls_def)
next
  case (snoc x cs)
  obtain num a0 a1 a2 where x: "x = (num, a0, a1, a2)" by (cases x)
  obtain m c where mc: "cred_calls mem cr cs = (m, c)" by force
  obtain m' c' r where st: "cred_syscall m c num a0 a1 a2 = (m', c', r)" by (cases "cred_syscall m c num a0 a1 a2")
  have "euid c \<noteq> 0" using snoc.IH mc assms by (auto simp: uids_def)
  from cred_syscall_unpriv [OF this st] snoc.IH mc
  have "uids c' \<subseteq> uids cr \<and> gids c' \<subseteq> gids cr \<and> groups c' = groups cr" by auto
  moreover have "cred_calls mem cr (cs @ [x]) = (m', c')" using mc st by (simp add: cred_calls_def x)
  ultimately show ?case by simp
qed

subsection \<open>Properties\<close>

text \<open>
  C8. A path check that succeeds for an unprivileged process means what Unix promises: the path
  resolves to the object the check returns, the process may search every directory that the
  resolution passes through (the root, the directories inside the targets of links and those
  left again by dot-dot included), and the object grants every requested permission.
\<close>

theorem check_path_grants:
  assumes "cred_check_path tab s c path follow req cap = Inr (canon, ino)" "\<not> cred_is_root c" "req \<noteq> 0"
  shows "vfs_lookup tab s canon = Some ino \<and> cred_inode_perm tab c (Some ino) req = 0
    \<and> (\<exists>ds res. resolves tab s follow [] path ds res \<and> canon = (if res = [] then ''/'' else res)
        \<and> list_all (\<lambda>d. if d = [] then \<forall>r. vfs_lookup tab s ''/'' = Some r \<longrightarrow> cred_inode_perm tab c (Some r) MAY_EXEC = 0
             else \<exists>r. vfs_lookup tab s d = Some r \<and> i_type r = VFS_NODE_DIR \<and> cred_inode_perm tab c (Some r) MAY_EXEC = 0) ds)"
proof -
  have w: "vfs_walk_checked tab s path cap follow (Some (search_cb tab c)) = Inr canon"
    and l: "vfs_lookup tab s canon = Some ino" and pm: "cred_inode_perm tab c (Some ino) req = 0"
    using assms by (auto simp: cred_check_path_def cred_resolve_def split: sum.splits option.splits if_splits)
  from walk_checked_resolves [OF w] obtain ds res where "resolves tab s follow [] path ds res" "canon = (if res = [] then ''/'' else res)"
    "list_all (\<lambda>d. if d = [] then \<forall>r. vfs_lookup tab s ''/'' = Some r \<longrightarrow> search_cb tab c r = 0 else dir_ok tab s (Some (search_cb tab c)) d) ds" by blast
  with l pm show ?thesis unfolding search_cb_def dir_ok_def option.case by blast
qed

definition alice :: process where
  "alice = new_process 7 (user_cred 1000 100)"

theorem check_path_grants_witness:
  "\<exists>ino ds. cred_check_path (\<lambda>k. demo_ops) demo_state (Some alice) ''/l/./b'' True MAY_READ 256 = Inr (''/a/b'', ino)
    \<and> cred_inode_perm (\<lambda>k. demo_ops) (Some alice) (Some ino) MAY_READ = 0 \<and> resolves (\<lambda>k. demo_ops) demo_state True [] ''/l/./b'' ds ''/a/b''"
proof -
  let ?L = "vfs_lookup (\<lambda>k. demo_ops) demo_state"
  let ?i = "\<lambda>t. (demo_inode t)\<lparr>i_ops := Some 0\<rparr>"
  have l: "?L ''/'' = Some (?i VFS_NODE_DIR)" "?L ''/a'' = Some (?i VFS_NODE_DIR)" "?L ''/l'' = Some (?i VFS_NODE_SYMLINK)" "?L ''/a/b'' = Some (?i VFS_NODE_FILE)"
    by (simp_all add: demo_lookup_state demo_lookup_def)
  have rl: "readlink_at (\<lambda>k. demo_ops) demo_state ''/l'' = (1, ''a'')"
    using demo_mounts by (auto simp: readlink_at_def vfs_resolve_def mount_match_def rel_path_def demo_ops_def)
  have ty: "i_type (demo_inode t) = t" for t by (simp add: demo_inode_def)
  have root: "\<not> cred_is_root (Some alice)"
    by (simp add: cred_is_root_def cred_is_kernel_def alice_def new_process_def user_cred_def)
  have x: "search_cb (\<lambda>k. demo_ops) (Some alice) (?i VFS_NODE_DIR) = 0" "cred_inode_perm (\<lambda>k. demo_ops) (Some alice) (Some (?i VFS_NODE_FILE)) MAY_READ = 0"
    by (simp_all add: search_cb_def cred_inode_perm_def cred_is_kernel_def alice_def new_process_def user_cred_def perm_ids_def
        cred_inode_mode_def demo_inode_def mode_defs in_group_ids_def demo_ops_def)
  have "cred_check_path (\<lambda>k. demo_ops) demo_state (Some alice) ''/l/./b'' True MAY_READ 256 = Inr (''/a/b'', ?i VFS_NODE_FILE)"
    using root by (simp add: cred_check_path_def cred_resolve_def vfs_walk_checked_def vfs_copy_def VFS_PATH_def search_root_def l rl x
        walk_loop.simps walk_step_def walk_entry_def VFS_MAXHOPS_def link_path_def is_slash_def ty)
  with check_path_grants [OF this root] show ?thesis by (auto simp: MAY_READ_def split: if_splits)
qed

text \<open>
  C21. An unprivileged process cannot acquire an identity: whatever sequence of id system calls
  it makes with whatever arguments, its user and group ids stay among those it started with
  and its supplementary groups do not change.
\<close>

theorem id_calls_confined:
  assumes "0 \<notin> uids cr"
  shows "uids (snd (cred_calls mem cr cs)) \<subseteq> uids cr \<and> gids (snd (cred_calls mem cr cs)) \<subseteq> gids cr
    \<and> groups (snd (cred_calls mem cr cs)) = groups cr"
  by (rule cred_calls_unpriv [OF assms])

theorem id_calls_confined_witness:
  "uids (snd (cred_calls flat_memory (user_cred 1000 100) [(SYS_SETUID, 0, 0, 0), (SYS_SETRESUID, 0, 0, 0)])) \<subseteq> {1000}"
  using id_calls_confined [of "user_cred 1000 100" flat_memory "[(SYS_SETUID, 0, 0, 0), (SYS_SETRESUID, 0, 0, 0)]"]
  by (simp add: uids_def user_cred_def)

end
