(* ===== verification/Signal.thy ===== *)
theory Signal
  imports Cred
begin

text \<open>
  POSIX signals (kernel/signal.c, kernel/signal.h): posting into the pending mask, the rules
  for what interrupts a blocking call, delivery on the way back to ring 3 with a frame on the
  user stack, the return from a handler, and the kill and job control calls.  The process
  table is a list in the order of \<^verbatim>\<open>process_foreach\<close>; a process pointer is an index
  into it.  The scheduler's wake-up is the change of state it makes; the notification of the
  parent of a continued process is recorded.  Termination and stop of the current task, which
  never return, are outcomes of their own.
\<close>

definition NSIG :: nat where "NSIG = 32"
definition SIGKILL :: nat where "SIGKILL = 9"
definition SIGSEGV :: nat where "SIGSEGV = 11"
definition SIGCHLD :: nat where "SIGCHLD = 17"
definition SIGCONT :: nat where "SIGCONT = 18"
definition SIGSTOP :: nat where "SIGSTOP = 19"
definition SIGTSTP :: nat where "SIGTSTP = 20"
definition SIGTTIN :: nat where "SIGTTIN = 21"
definition SIGTTOU :: nat where "SIGTTOU = 22"
definition SIGURG :: nat where "SIGURG = 23"
definition SIGWINCH :: nat where "SIGWINCH = 28"
definition SIG_DFL :: u64 where "SIG_DFL = 0"
definition SIG_IGN :: u64 where "SIG_IGN = 1"

lemmas sig_defs = NSIG_def SIGKILL_def SIGSEGV_def SIGCHLD_def SIGCONT_def SIGSTOP_def SIGTSTP_def
  SIGTTIN_def SIGTTOU_def SIGURG_def SIGWINCH_def SIG_DFL_def SIG_IGN_def

definition SIGBIT :: "nat \<Rightarrow> u64" where
  "SIGBIT n = push_bit n 1"

definition SIG_UNMASKABLE :: u64 where
  "SIG_UNMASKABLE = SIGBIT SIGKILL OR SIGBIT SIGSTOP"

definition sig_default_ignore :: "nat \<Rightarrow> bool" where
  "sig_default_ignore s \<longleftrightarrow> s = SIGCHLD \<or> s = SIGCONT \<or> s = SIGURG \<or> s = SIGWINCH"

definition sig_default_stop :: "nat \<Rightarrow> bool" where
  "sig_default_stop s \<longleftrightarrow> s = SIGSTOP \<or> s = SIGTSTP \<or> s = SIGTTIN \<or> s = SIGTTOU"

definition signal_init_proc :: "process \<Rightarrow> process" where
  "signal_init_proc p = p\<lparr>sig_pending := 0, sig_blocked := 0,
     sig_handler := (\<lambda>i. if i < NSIG then SIG_DFL else sig_handler p i), sig_restorer := 0\<rparr>"

definition sig_noop_mask :: "process \<Rightarrow> u64" where
  "sig_noop_mask p = foldl (\<lambda>m s. let d = sig_handler p s in
     if s = SIGKILL \<or> s = SIGSTOP then m
     else if d = SIG_IGN \<or> d = SIG_DFL \<and> sig_default_ignore s then m OR SIGBIT s else m) 0 [1 ..< NSIG]"

definition sig_deliverable :: "process \<Rightarrow> u64" where
  "sig_deliverable p = (sig_pending p AND NOT (sig_blocked p)) OR (sig_pending p AND SIG_UNMASKABLE)"

definition signal_pending :: "process option \<Rightarrow> bool" where
  "signal_pending po = (case po of
     None \<Rightarrow> False
   | Some p \<Rightarrow> sig_deliverable p AND NOT (sig_noop_mask p) \<noteq> 0 \<or> sig_rerun_eintr p)"

text \<open>The process with the stop signal consumed, and its number, or 0.\<close>

definition signal_take_stop :: "process \<Rightarrow> process \<times> nat" where
  "signal_take_stop p =
    (let d = sig_deliverable p in
     if d AND SIGBIT SIGKILL \<noteq> 0 then (p, 0)
     else case find_index (\<lambda>s. bit d s \<and> (s = SIGSTOP \<or> sig_default_stop s \<and> sig_handler p s = SIG_DFL)) [1 ..< NSIG] of
         None \<Rightarrow> (p, 0)
       | Some i \<Rightarrow> (p\<lparr>sig_pending := sig_pending p AND NOT (SIGBIT (i + 1))\<rparr>, i + 1))"

definition signal_ttin_acts :: "process option \<Rightarrow> bool" where
  "signal_ttin_acts po = (case po of
     None \<Rightarrow> False
   | Some p \<Rightarrow> if bit (sig_blocked p) SIGTTIN then False else sig_handler p SIGTTIN \<noteq> SIG_IGN)"

subsection \<open>Posting\<close>

definition sched_wake_task :: "process \<Rightarrow> proc_state \<Rightarrow> process \<times> bool" where
  "sched_wake_task p from_state = (if state p \<noteq> from_state then (p, False) else (p\<lparr>state := PROC_READY\<rparr>, True))"

text \<open>The effect of SIGCONT on stops, and whether the parent is to be notified.\<close>

definition post_cont :: "process \<Rightarrow> process \<times> bool" where
  "post_cont p =
    (let p = p\<lparr>sig_pending := sig_pending p AND NOT (SIGBIT SIGSTOP OR SIGBIT SIGTSTP OR SIGBIT SIGTTIN OR SIGBIT SIGTTOU)\<rparr>
     in if state p = PROC_STOPPED
        then (case sched_wake_task p PROC_STOPPED of
            (q, True) \<Rightarrow> (q\<lparr>stop_report := False, cont_report := True\<rparr>, True) | (q, False) \<Rightarrow> (q, False))
        else (p, False))"

definition post_kill_stopped :: "process \<Rightarrow> process" where
  "post_kill_stopped p = (if state p = PROC_STOPPED
     then (case sched_wake_task p PROC_STOPPED of (q, True) \<Rightarrow> q\<lparr>stop_report := False\<rparr> | (q, False) \<Rightarrow> q) else p)"

definition wake_for_signal :: "process \<Rightarrow> nat \<Rightarrow> process" where
  "wake_for_signal p sig =
    (let p = p\<lparr>wait_pid := -1, recv_chan := -1, wait_pipe := None, wait_tty := False, wait_pty := None\<rparr>;
         p = (case tf p of
             Some t \<Rightarrow> if sig \<noteq> SIGKILL \<and> sig_handler p sig > 1 then p\<lparr>sig_eintr_rip := tf_rip t\<rparr> else p
           | None \<Rightarrow> p)
     in fst (sched_wake_task p PROC_BLOCKED))"

definition signal_post :: "process \<Rightarrow> int \<Rightarrow> process \<times> int \<times> bool" where
  "signal_post p sig0 =
    (if sig0 \<le> 0 \<or> sig0 \<ge> int NSIG then (p, -1, False)
     else if state p = PROC_ZOMBIE then (p, -1, False)
     else let sig = nat sig0;
              (p, notify) = (if sig = SIGCONT then post_cont p else (p, False));
              p = (if sig = SIGKILL then post_kill_stopped p else p);
              p = (if sig_default_stop sig then p\<lparr>sig_pending := sig_pending p AND NOT (SIGBIT SIGCONT)\<rparr> else p);
              p = p\<lparr>sig_pending := sig_pending p OR SIGBIT sig\<rparr>;
              deliverable = (sig = SIGKILL \<or> sig = SIGSTOP \<or> \<not> bit (sig_blocked p) sig);
              deliverable = (if deliverable \<and> sig_noop_mask p AND SIGBIT sig \<noteq> 0 then False else deliverable);
              p = (if deliverable \<and> state p = PROC_BLOCKED then wake_for_signal p sig else p)
          in (p, 0, notify))"

subsection \<open>Groups\<close>

record sig_state =
  procs :: "process list"
  g_foreground_pgid :: u32
  cont_notified :: "u32 list"

definition signal_set_foreground_pgid :: "sig_state \<Rightarrow> u32 \<Rightarrow> sig_state" where
  "signal_set_foreground_pgid s g = s\<lparr>g_foreground_pgid := g\<rparr>"

definition signal_get_foreground_pgid :: "sig_state \<Rightarrow> u32" where
  "signal_get_foreground_pgid s = g_foreground_pgid s"

definition post_at :: "sig_state \<Rightarrow> nat \<Rightarrow> int \<Rightarrow> sig_state \<times> int" where
  "post_at s i sig = (case signal_post (procs s ! i) sig of
     (p, r, notify) \<Rightarrow> (s\<lparr>procs := (procs s)[i := p],
        cont_notified := cont_notified s @ (if notify then [ppid p] else [])\<rparr>, r))"

definition PG_MAX :: nat where
  "PG_MAX = 64"

record pg_ctx =
  c_pgid :: u32
  c_t :: "nat list"
  c_skip :: u32
  c_all :: bool
  c_sender :: "process option"
  c_sig :: int
  c_denied :: nat

definition pg_cb :: "pg_ctx \<Rightarrow> nat \<times> process \<Rightarrow> pg_ctx" where
  "pg_cb c ip = (case ip of (i, p) \<Rightarrow>
     if state p = PROC_ZOMBIE \<or> length (c_t c) \<ge> PG_MAX then c
     else if \<not> (if c_all c then pid p \<noteq> 0 \<and> pid p \<noteq> c_skip c else pgid p = c_pgid c) then c
     else if c_sender c \<noteq> None \<and> \<not> cred_may_signal (c_sender c) (Some p) (c_sig c) then c\<lparr>c_denied := c_denied c + 1\<rparr>
     else if c_all c \<and> c_sender c \<noteq> None \<and> pid p = 1 \<and> \<not> cred_is_root (c_sender c) then c
     else c\<lparr>c_t := c_t c @ [i]\<rparr>)"

definition pg_collect :: "sig_state \<Rightarrow> pg_ctx \<Rightarrow> pg_ctx" where
  "pg_collect s c = foldl pg_cb c (enumerate 0 (procs s))"

definition post_collected :: "sig_state \<Rightarrow> nat list \<Rightarrow> int \<Rightarrow> sig_state \<times> nat" where
  "post_collected s ts sig = foldl (\<lambda>(s, n) i. case post_at s i sig of (s', r) \<Rightarrow> (s', if r = 0 then n + 1 else n)) (s, 0) ts"

definition signal_post_pgid :: "sig_state \<Rightarrow> u32 \<Rightarrow> int \<Rightarrow> sig_state \<times> nat" where
  "signal_post_pgid s g sig =
    (if g = 0 then (s, 0)
     else let c = pg_collect s \<lparr>c_pgid = g, c_t = [], c_skip = 0, c_all = False, c_sender = None, c_sig = sig, c_denied = 0\<rparr>
          in post_collected s (c_t c) sig)"

definition signal_post_all :: "sig_state \<Rightarrow> u32 \<Rightarrow> int \<Rightarrow> sig_state \<times> nat" where
  "signal_post_all s except sig =
    (let c = pg_collect s \<lparr>c_pgid = 0, c_t = [], c_skip = except, c_all = True, c_sender = None, c_sig = sig, c_denied = 0\<rparr>
     in post_collected s (c_t c) sig)"

text \<open>The number signalled and the number refused.\<close>

definition signal_post_checked :: "sig_state \<Rightarrow> process \<Rightarrow> u32 \<Rightarrow> bool \<Rightarrow> int \<Rightarrow> sig_state \<times> nat \<times> nat" where
  "signal_post_checked s sender g every sig =
    (let c = pg_collect s \<lparr>c_pgid = g, c_t = [], c_skip = (if every then pid sender else 0), c_all = every,
           c_sender = Some sender, c_sig = sig, c_denied = 0\<rparr>
     in if sig = 0 then (s, length (c_t c), c_denied c)
        else case post_collected s (c_t c) sig of (s', n) \<Rightarrow> (s', n, c_denied c))"

definition process_find_by_pid :: "process list \<Rightarrow> u32 \<Rightarrow> nat option" where
  "process_find_by_pid ps q = find_index (\<lambda>p. pid p = q) ps"

definition signal_pgid_exists :: "sig_state \<Rightarrow> u32 \<Rightarrow> bool" where
  "signal_pgid_exists s g \<longleftrightarrow> length (filter (\<lambda>p. pgid p = g \<and> state p \<noteq> PROC_ZOMBIE) (procs s)) > 0"

definition ksys_kill :: "sig_state \<Rightarrow> process option \<Rightarrow> int \<Rightarrow> int \<Rightarrow> sig_state \<times> int" where
  "ksys_kill s cur target sig =
    (if sig < 0 \<or> sig \<ge> int NSIG then (s, -22)
     else if target \<le> 0 then
       (case cur of
          None \<Rightarrow> (s, -3)
        | Some c \<Rightarrow>
            if target = -2147483648 then (s, -3)
            else let g = (if target = 0 then pgid c else word_of_int (- target)) in
              case signal_post_checked s c (if target = -1 then 0 else g) (target = -1) sig of
                (s', n, denied) \<Rightarrow> if n > 0 then (s', 0) else (s', if denied \<noteq> 0 then -1 else -3))
     else case process_find_by_pid (procs s) (word_of_int target) of
         None \<Rightarrow> (s, -3)
       | Some i \<Rightarrow>
           let t = procs s ! i in
           if state t \<noteq> PROC_ZOMBIE \<and> \<not> cred_may_signal cur (Some t) sig then (s, -1)
           else if sig = 0 \<or> state t = PROC_ZOMBIE then (s, 0)
           else (case post_at s i sig of (s', r) \<Rightarrow> (s', if r = 0 then 0 else -3)))"

definition ksys_setpgid :: "sig_state \<Rightarrow> nat option \<Rightarrow> int \<Rightarrow> int \<Rightarrow> sig_state \<times> int" where
  "ksys_setpgid s cur target g = (case cur of
     None \<Rightarrow> (s, -1)
   | Some ci \<Rightarrow>
       (case (if target = 0 then Some ci else process_find_by_pid (procs s) (word_of_int target)) of
          None \<Rightarrow> (s, -3)
        | Some i \<Rightarrow>
            let t = procs s ! i; c = procs s ! ci in
            if i \<noteq> ci \<and> \<not> cred_is_root (Some c) \<and> \<not> ((ppid t = pid c \<or> spawner_pid t = pid c) \<and> sid t = sid c) then (s, -3)
            else if g < 0 then (s, -22)
            else (s\<lparr>procs := (procs s)[i := t\<lparr>pgid := (if g = 0 then pid t else word_of_int g)\<rparr>]\<rparr>, 0)))"

definition ksys_getpgid :: "sig_state \<Rightarrow> nat option \<Rightarrow> int \<Rightarrow> int" where
  "ksys_getpgid s cur target =
    (case (if target = 0 then cur else process_find_by_pid (procs s) (word_of_int target)) of
       None \<Rightarrow> -3 | Some i \<Rightarrow> uint (pgid (procs s ! i)))"

definition ksys_sigaction :: "process option \<Rightarrow> int \<Rightarrow> u64 \<Rightarrow> u64 \<Rightarrow> process option \<times> int" where
  "ksys_sigaction cur sig handler restorer = (case cur of
     None \<Rightarrow> (None, -1)
   | Some p \<Rightarrow>
       if sig \<le> 0 \<or> sig \<ge> int NSIG then (Some p, -1)
       else if nat sig = SIGKILL \<or> nat sig = SIGSTOP then (Some p, -1)
       else (Some (p\<lparr>sig_handler := (sig_handler p)(nat sig := handler),
              sig_restorer := (if restorer \<noteq> 0 then restorer else sig_restorer p)\<rparr>), 0))"

definition ksys_sigprocmask :: "memory \<Rightarrow> process \<Rightarrow> int \<Rightarrow> u64 \<Rightarrow> u64 \<Rightarrow> memory \<times> process \<times> int" where
  "ksys_sigprocmask mem p how set_m oldset_user =
    (let old = sig_blocked p;
         nb = (if how = 0 then Some (sig_blocked p OR set_m) else if how = 1 then Some (sig_blocked p AND NOT set_m)
               else if how = 2 then Some set_m else None)
     in case nb of
          None \<Rightarrow> (mem, p, -1)
        | Some b \<Rightarrow>
            let p = p\<lparr>sig_blocked := b AND NOT SIG_UNMASKABLE\<rparr> in
            if oldset_user = 0 then (mem, p, 0)
            else (case copy_to_user mem oldset_user (le64 old) of (mem', r) \<Rightarrow> (mem', p, if r \<noteq> 0 then -1 else 0)))"

subsection \<open>The frame on the user stack\<close>

definition SIGFRAME_MAGIC :: u64 where
  "SIGFRAME_MAGIC = 0x5347465253454330"

definition tf_words :: "trapframe \<Rightarrow> u64 list" where
  "tf_words t = [tf_r15 t, tf_r14 t, tf_r13 t, tf_r12 t, tf_r11 t, tf_r10 t, tf_r9 t, tf_r8 t, tf_rbp t, tf_rdi t, tf_rsi t,
     tf_rdx t, tf_rcx t, tf_rbx t, tf_rax t, tf_int_no t, tf_err_code t, tf_rip t, tf_cs t, tf_rflags t, tf_rsp t, tf_ss t]"

definition tf_of_words :: "u64 list \<Rightarrow> trapframe" where
  "tf_of_words w = \<lparr>tf_r15 = w ! 0, tf_r14 = w ! 1, tf_r13 = w ! 2, tf_r12 = w ! 3, tf_r11 = w ! 4, tf_r10 = w ! 5,
     tf_r9 = w ! 6, tf_r8 = w ! 7, tf_rbp = w ! 8, tf_rdi = w ! 9, tf_rsi = w ! 10, tf_rdx = w ! 11, tf_rcx = w ! 12,
     tf_rbx = w ! 13, tf_rax = w ! 14, tf_int_no = w ! 15, tf_err_code = w ! 16, tf_rip = w ! 17, tf_cs = w ! 18,
     tf_rflags = w ! 19, tf_rsp = w ! 20, tf_ss = w ! 21\<rparr>"

record sigframe =
  sf_magic :: u64
  sf_saved_mask :: u64
  sf_saved :: trapframe
  sf_fpu :: "u8 list"

definition SIGFRAME_SIZE :: nat where
  "SIGFRAME_SIZE = 704"

text \<open>The memory image: little-endian words, then the 512 bytes of the FPU area (already 16-aligned).\<close>

definition sigframe_bytes :: "sigframe \<Rightarrow> u8 list" where
  "sigframe_bytes sf = concat (map le64 (sf_magic sf # sf_saved_mask sf # tf_words (sf_saved sf))) @ sf_fpu sf"

definition frame_word :: "u8 list \<Rightarrow> nat \<Rightarrow> u64" where
  "frame_word bs i = of_le64 (take 8 (drop (8 * i) bs))"

definition sigframe_of :: "u8 list \<Rightarrow> sigframe" where
  "sigframe_of bs = \<lparr>sf_magic = frame_word bs 0, sf_saved_mask = frame_word bs 1,
     sf_saved = tf_of_words (map (\<lambda>i. frame_word bs (i + 2)) [0 ..< 22]), sf_fpu = drop 192 bs\<rparr>"

subsection \<open>Delivery\<close>

datatype dispatch = Disp_return memory process trapframe | Disp_kill memory process nat | Disp_stop process nat

definition enter_handler :: "memory \<Rightarrow> process \<Rightarrow> trapframe \<Rightarrow> u8 list \<Rightarrow> nat \<Rightarrow> dispatch" where
  "enter_handler mem p t fpu sig =
    (let sf = \<lparr>sf_magic = SIGFRAME_MAGIC, sf_saved_mask = (if sigsusp_active p then sigsusp_saved p else sig_blocked p),
               sf_saved = t, sf_fpu = fpu\<rparr>;
         p1 = p\<lparr>sigsusp_active := False\<rparr>;
         usp = tf_rsp t - 128;
         frame = (usp - of_nat SIGFRAME_SIZE) AND NOT 15;
         (mem1, r1) = copy_to_user mem frame (sigframe_bytes sf)
     in if r1 \<noteq> 0 then Disp_kill mem1 p1 sig
        else let ret_slot = frame - 8; (mem2, r2) = copy_to_user mem1 ret_slot (le64 (sig_restorer p1)) in
          if r2 \<noteq> 0 then Disp_kill mem2 p1 sig
          else Disp_return mem2 (p1\<lparr>sig_blocked := sig_blocked p1 OR SIGBIT sig\<rparr>)
                 (t\<lparr>tf_rip := sig_handler p1 sig, tf_rsp := ret_slot, tf_rdi := of_nat sig, tf_rax := 0,
                    tf_rflags := tf_rflags t AND NOT 0x400\<rparr>))"

text \<open>One turn of the delivery loop: an outcome, or the process with an ignored signal consumed.\<close>

definition dispatch_turn :: "memory \<Rightarrow> process \<Rightarrow> trapframe \<Rightarrow> u8 list \<Rightarrow> dispatch + process" where
  "dispatch_turn mem p t fpu = (case find_index (\<lambda>s. bit (sig_deliverable p) s) [1 ..< NSIG] of
     None \<Rightarrow> Inl (Disp_return mem (if sigsusp_active p then p\<lparr>sig_blocked := sigsusp_saved p, sigsusp_active := False\<rparr> else p) t)
   | Some i \<Rightarrow>
       let sig = i + 1; p = p\<lparr>sig_pending := sig_pending p AND NOT (SIGBIT sig)\<rparr>; disp = sig_handler p sig in
       if sig = SIGKILL then Inl (Disp_kill mem p sig)
       else if sig = SIGSTOP then Inl (Disp_stop (p\<lparr>stop_sig := int sig\<rparr>) sig)
       else if disp = SIG_IGN then Inr p
       else if disp = SIG_DFL then
         (if sig_default_ignore sig then Inr p
          else if sig_default_stop sig then Inl (Disp_stop (p\<lparr>stop_sig := int sig\<rparr>) sig)
          else Inl (Disp_kill mem p sig))
       else Inl (enter_handler mem p t fpu sig))"

lemma find_index_upt:
  assumes "find_index P [1 ..< n] = Some i"
  shows "P (i + 1)" "i + 1 < n"
  using find_index_SomeD(1,2) [OF assms] by simp_all

lemma clear_bit_less:
  fixes w :: u64
  assumes "bit w s"
  shows "unat (w AND NOT (push_bit s 1)) < unat w"
proof -
  have "w AND NOT (push_bit s 1) \<le> w" by (rule word_and_le2)
  moreover have "\<not> bit (w AND NOT (push_bit s 1)) s"
    using assms bit_imp_le_length [OF assms] by (simp only: bit_and_iff bit_not_iff bit_flag) simp
  then have "w AND NOT (push_bit s 1) \<noteq> w" using assms by metis
  ultimately have "w AND NOT (push_bit s 1) < w" by (simp only: order.strict_iff_order simp_thms)
  then show ?thesis by (simp only: word_less_nat_alt)
qed

lemma deliverable_pending: "bit (sig_deliverable p) s \<Longrightarrow> bit (sig_pending p) s"
  by (auto simp: sig_deliverable_def bit_or_iff bit_and_iff)

lemma dispatch_turn_pending:
  assumes "dispatch_turn mem p t fpu = Inr q"
  shows "unat (sig_pending q) < unat (sig_pending p)"
proof (cases "find_index (\<lambda>s. bit (sig_deliverable p) s) [1 ..< NSIG]")
  case None
  with assms show ?thesis by (simp add: dispatch_turn_def)
next
  case (Some i)
  then have "sig_pending q = sig_pending p AND NOT (SIGBIT (i + 1))"
    using assms by (auto simp: dispatch_turn_def Let_def split: if_splits)
  with clear_bit_less [OF deliverable_pending [OF find_index_upt(1) [OF Some]]] show ?thesis
    unfolding SIGBIT_def by (simp only:)
qed

text \<open>The delivery loop: each ignored signal is consumed, so it ends.\<close>

function dispatch_loop :: "memory \<Rightarrow> process \<Rightarrow> trapframe \<Rightarrow> u8 list \<Rightarrow> dispatch" where
  "dispatch_loop mem p t fpu = (case dispatch_turn mem p t fpu of
     Inl d \<Rightarrow> d | Inr q \<Rightarrow> dispatch_loop mem q t fpu)"
  by pat_completeness auto

termination dispatch_loop
  by (relation "measure (\<lambda>(mem, p, t, fpu). unat (sig_pending p))") (auto dest: dispatch_turn_pending)

declare dispatch_loop.simps [simp del]

definition signal_dispatch :: "memory \<Rightarrow> process option \<Rightarrow> trapframe \<Rightarrow> u8 list \<Rightarrow> dispatch option" where
  "signal_dispatch mem cur t fpu =
    (if tf_cs t AND 3 \<noteq> 3 then None
     else case cur of None \<Rightarrow> None | Some p \<Rightarrow> Some (dispatch_loop mem p t fpu))"

subsection \<open>Return from a handler\<close>

datatype sigret = Sigret_fail | Sigret_kill nat | Sigret_ok process trapframe "u8 list" u64

definition mask_mxcsr :: "u32 \<Rightarrow> u8 list \<Rightarrow> u8 list" where
  "mask_mxcsr m fpu = take 24 fpu @ le_bytes (bytes_le (take 4 (drop 24 fpu)) AND m) @ drop 28 fpu"

text \<open>The MXCSR mask is what the processor reports; the loaded FPU image is part of the outcome.\<close>

definition ksys_sigreturn :: "memory \<Rightarrow> u32 \<Rightarrow> process \<Rightarrow> trapframe \<Rightarrow> sigret" where
  "ksys_sigreturn mem mxcsr_mask p t =
    (let (bs, r) = copy_from_user mem (tf_rsp t) (of_nat SIGFRAME_SIZE) in
     if r \<noteq> 0 then Sigret_fail
     else let sf = sigframe_of bs in
       if sf_magic sf \<noteq> SIGFRAME_MAGIC then Sigret_kill SIGSEGV
       else let u = (sf_saved sf)\<lparr>tf_cs := 0x1B, tf_ss := 0x23,
                      tf_rflags := (tf_rflags (sf_saved sf) AND NOT 0x200) OR 0x202\<rparr> in
         if tf_rsp u \<ge> 0x0000800000000000 then Sigret_fail
         else Sigret_ok (p\<lparr>sig_blocked := sf_saved_mask sf\<rparr>) u (mask_mxcsr mxcsr_mask (sf_fpu sf)) (tf_rax u))"

subsection \<open>The frame image\<close>

lemma take_drop_le64:
  "i < length ws \<Longrightarrow> take 8 (drop (8 * i) (concat (map le64 ws) @ rest)) = le64 (ws ! i)"
proof (induction ws arbitrary: i)
  case (Cons w ws)
  then show ?case by (cases i) simp_all
qed simp

lemma length_concat_le64: "length (concat (map le64 ws)) = 8 * length ws"
  by (induction ws) simp_all

lemma tf_of_tf_words: "tf_of_words (tf_words t) = t"
  by (simp add: tf_words_def tf_of_words_def)

lemma length_tf_words [simp]: "length (tf_words t) = 22"
  by (simp add: tf_words_def)

lemma sigframe_of_bytes: "sigframe_of (sigframe_bytes sf) = sf"
proof -
  let ?ws = "sf_magic sf # sf_saved_mask sf # tf_words (sf_saved sf)"
  have w: "frame_word (sigframe_bytes sf) i = ?ws ! i" if "i < 24" for i
  proof -
    have l: "i < length ?ws" using that by simp
    show ?thesis unfolding frame_word_def sigframe_bytes_def take_drop_le64 [OF l] by (rule of_le64_le64)
  qed
  have "map (\<lambda>i. frame_word (sigframe_bytes sf) (i + 2)) [0 ..< 22] = tf_words (sf_saved sf)"
    by (rule nth_equalityI) (simp_all add: w)
  moreover have "drop 192 (sigframe_bytes sf) = sf_fpu sf"
    by (simp add: sigframe_bytes_def length_concat_le64)
  ultimately show ?thesis using w [of 0] w [of 1] by (simp add: sigframe_of_def tf_of_tf_words)
qed

lemma length_sigframe_bytes: "length (sf_fpu sf) = 512 \<Longrightarrow> length (sigframe_bytes sf) = 704"
  by (simp add: sigframe_bytes_def length_concat_le64)

text \<open>A frame held at the stack pointer is what the return from a handler loads.\<close>

lemma sigreturn_frame:
  assumes "user_range_valid (tf_rsp t) 704"
    and mem: "\<And>i. i < 704 \<Longrightarrow> m_byte mem (tf_rsp t + of_nat i) = Some (sigframe_bytes sf ! i)"
    and fpu: "length (sf_fpu sf) = 512" and magic: "sf_magic sf = SIGFRAME_MAGIC"
    and rsp: "tf_rsp (sf_saved sf) < 0x0000800000000000"
  shows "ksys_sigreturn mem msk p t = Sigret_ok (p\<lparr>sig_blocked := sf_saved_mask sf\<rparr>)
      ((sf_saved sf)\<lparr>tf_cs := 0x1B, tf_ss := 0x23, tf_rflags := (tf_rflags (sf_saved sf) AND NOT 0x200) OR 0x202\<rparr>)
      (mask_mxcsr msk (sf_fpu sf)) (tf_rax (sf_saved sf))"
proof -
  obtain bs r where c: "copy_from_user mem (tf_rsp t) 704 = (bs, r)" by force
  have u: "unat (704 :: u64) = 704" by simp
  have ok: "r = 0" using copy_from_user_ok [of mem "tf_rsp t" 704] assms(1) mem c by (simp add: u)
  have "map Some bs = map (\<lambda>i. m_byte mem (tf_rsp t + of_nat i)) [0 ..< 704]"
    using copy_from_user_bytes [of mem "tf_rsp t" 704] ok c by (simp add: u)
  also have "\<dots> = map Some (sigframe_bytes sf)"
    by (rule nth_equalityI) (simp_all add: length_sigframe_bytes [OF fpu] mem)
  finally have "bs = sigframe_bytes sf" by (simp add: inj_map_eq_map)
  with c ok magic rsp show ?thesis
    by (simp add: ksys_sigreturn_def SIGFRAME_SIZE_def sigframe_of_bytes Let_def not_le)
qed

lemma enter_handler_frame:
  assumes e: "enter_handler mem p t fpu sig = Disp_return mem' p' t'" and fpu: "length fpu = 512"
  defines "sf \<equiv> \<lparr>sf_magic = SIGFRAME_MAGIC, sf_saved_mask = (if sigsusp_active p then sigsusp_saved p else sig_blocked p),
    sf_saved = t, sf_fpu = fpu\<rparr>"
  shows "user_range_valid (tf_rsp t' + 8) 704 \<and> (\<forall>i. i < 704 \<longrightarrow> m_byte mem' (tf_rsp t' + 8 + of_nat i) = Some (sigframe_bytes sf ! i))"
proof -
  define frame where "frame = (tf_rsp t - 128 - of_nat SIGFRAME_SIZE) AND NOT 15"
  let ?b = "sigframe_bytes sf" and ?r = "le64 (sig_restorer p)"
  obtain mem1 r1 where c1: "copy_to_user mem frame ?b = (mem1, r1)" by force
  obtain mem2 r2 where c2: "copy_to_user mem1 (frame - 8) ?r = (mem2, r2)" by force
  have e': "r1 = 0" "r2 = 0" "mem' = mem2" "tf_rsp t' = frame - 8"
    using e c1 c2 by (auto simp: enter_handler_def Let_def sf_def frame_def split: if_splits)
  have lb: "length ?b = 704" by (rule length_sigframe_bytes) (simp add: sf_def fpu)
  have s1: "user_range_valid frame 704" "m_byte mem1 = (\<lambda>a. if unat (a - frame) < 704 then Some (?b ! unat (a - frame)) else m_byte mem a)"
    using copy_to_user_spec [of ?b mem frame] c1 e'(1) lb by simp_all
  have s2: "m_byte mem2 = (\<lambda>a. if unat (a - (frame - 8)) < 8 then Some (?r ! unat (a - (frame - 8))) else m_byte mem1 a)"
    using copy_to_user_spec [of ?r mem1 "frame - 8"] c2 e'(2) by simp
  have "m_byte mem2 (frame + of_nat i) = Some (?b ! i)" if i: "i < 704" for i
  proof -
    have "frame + of_nat i - (frame - 8) = of_nat (i + 8)" by simp
    moreover have "unat (of_nat (i + 8) :: u64) = i + 8" by (rule unat_of_nat64) (use i in simp)
    moreover have "unat (of_nat i :: u64) = i" by (rule unat_of_nat64) (use i in simp)
    ultimately show ?thesis unfolding s2 s1(2) using i by simp
  qed
  with s1(1) e'(3,4) show ?thesis by simp
qed

lemma enter_handler_ok:
  assumes "length fpu = 512" and mem: "\<And>a. stores mem a"
    and "user_range_valid ((tf_rsp t - 128 - of_nat SIGFRAME_SIZE) AND NOT 15) 704"
    and "user_range_valid (((tf_rsp t - 128 - of_nat SIGFRAME_SIZE) AND NOT 15) - 8) 8"
    and neq: "sig_handler p sig \<noteq> tf_rip t"
  shows "\<exists>m q u. enter_handler mem p t fpu sig = Disp_return m q u \<and> u \<noteq> t"
proof -
  define frame where "frame = (tf_rsp t - 128 - of_nat SIGFRAME_SIZE) AND NOT 15"
  let ?sf = "\<lparr>sf_magic = SIGFRAME_MAGIC, sf_saved_mask = (if sigsusp_active p then sigsusp_saved p else sig_blocked p),
    sf_saved = t, sf_fpu = fpu\<rparr>"
  obtain mem1 r1 where c1: "copy_to_user mem frame (sigframe_bytes ?sf) = (mem1, r1)" by force
  obtain mem2 r2 where c2: "copy_to_user mem1 (frame - 8) (le64 (sig_restorer p)) = (mem2, r2)" by force
  have lb: "length (sigframe_bytes ?sf) = 704" by (rule length_sigframe_bytes) (simp add: assms(1))
  have r1: "r1 = 0" "\<And>a. stores mem1 a"
    using copy_to_user_spec [of "sigframe_bytes ?sf" mem frame] c1 assms(3) mem lb by (simp_all add: frame_def stores_def)
  then have r2: "r2 = 0"
    using copy_to_user_spec [of "le64 (sig_restorer p)" mem1 "frame - 8"] c2 assms(4) by (simp add: frame_def)
  have "tf_rip (t\<lparr>tf_rip := sig_handler p sig, tf_rsp := frame - 8, tf_rdi := of_nat sig, tf_rax := 0,
      tf_rflags := tf_rflags t AND NOT 0x400\<rparr>) \<noteq> tf_rip t" using neq by simp
  then have "t\<lparr>tf_rip := sig_handler p sig, tf_rsp := frame - 8, tf_rdi := of_nat sig, tf_rax := 0,
      tf_rflags := tf_rflags t AND NOT 0x400\<rparr> \<noteq> t" by metis
  with c1 c2 r1(1) r2 show ?thesis by (simp add: enter_handler_def Let_def frame_def)
qed

lemma dispatch_loop_return:
  assumes "dispatch_loop mem p t fpu = Disp_return mem' p' t'"
  shows "(mem' = mem \<and> t' = t) \<or> (\<exists>q sig. enter_handler mem q t fpu sig = Disp_return mem' p' t'
    \<and> sig_blocked q = sig_blocked p \<and> sigsusp_active q = sigsusp_active p \<and> sigsusp_saved q = sigsusp_saved p)"
  using assms
proof (induction mem p t fpu rule: dispatch_loop.induct)
  case (1 mem p t fpu)
  show ?case
  proof (cases "dispatch_turn mem p t fpu")
    case (Inl d)
    then have "dispatch_turn mem p t fpu = Inl (Disp_return mem' p' t')"
      using 1(2) by (simp add: dispatch_loop.simps [of mem p t fpu])
    then show ?thesis by (auto simp: dispatch_turn_def Let_def split: option.splits if_splits)
  next
    case (Inr q)
    have "sig_blocked q = sig_blocked p \<and> sigsusp_active q = sigsusp_active p \<and> sigsusp_saved q = sigsusp_saved p"
      using Inr by (auto simp: dispatch_turn_def Let_def split: option.splits if_splits)
    with 1(1) [OF Inr] 1(2) Inr show ?thesis by (simp add: dispatch_loop.simps [of mem p t fpu])
  qed
qed

text \<open>While SIGKILL is pending, only signals with a smaller number can be delivered before it.\<close>

lemma dispatch_turn_kill:
  assumes k: "bit (sig_pending p) SIGKILL" and e: "dispatch_turn mem p t fpu = r"
  shows "case r of
      Inl (Disp_kill _ _ s) \<Rightarrow> s \<le> SIGKILL
    | Inl (Disp_stop _ _) \<Rightarrow> False
    | Inl (Disp_return _ q _) \<Rightarrow> bit (sig_pending q) SIGKILL \<and> unat (sig_pending q) < unat (sig_pending p)
    | Inr q \<Rightarrow> bit (sig_pending q) SIGKILL"
proof -
  have d: "bit (sig_deliverable p) SIGKILL"
    using k by (simp only: sig_deliverable_def SIG_UNMASKABLE_def SIGBIT_def bit_or_iff bit_and_iff bit_flag) (simp add: sig_defs)
  have "SIGKILL \<in> set [1 ..< NSIG]" by (simp add: sig_defs)
  with d obtain i where i: "find_index (\<lambda>s. bit (sig_deliverable p) s) [1 ..< NSIG] = Some i"
    by (metis find_index_None not_None_eq)
  note fi = find_index_SomeD [OF i]
  have "i + 1 \<le> SIGKILL"
  proof (rule ccontr)
    assume "\<not> i + 1 \<le> SIGKILL"
    then have "8 < i" by (simp add: sig_defs)
    with fi(3) [of 8] have "\<not> bit (sig_deliverable p) ([1 ..< NSIG] ! 8)" by blast
    with d show False by (simp add: sig_defs)
  qed
  then have le: "i + 1 \<le> SIGKILL" "i + 1 \<noteq> SIGSTOP" "\<not> sig_default_stop (i + 1)"
    by (auto simp: sig_default_stop_def sig_defs)
  have less: "unat (sig_pending p AND NOT (SIGBIT (i + 1))) < unat (sig_pending p)"
    unfolding SIGBIT_def by (rule clear_bit_less [OF deliverable_pending [OF find_index_upt(1) [OF i]]])
  have keep: "bit (sig_pending p AND NOT (SIGBIT (i + 1))) SIGKILL" if "i + 1 \<noteq> SIGKILL"
    using k that unfolding SIGBIT_def by (simp only: bit_and_iff bit_not_iff bit_flag) (simp add: sig_defs)
  have eh: "enter_handler mem q t fpu s = Disp_return m q' t' \<Longrightarrow> sig_pending q' = sig_pending q"
    "enter_handler mem q t fpu s = Disp_kill m q' s' \<Longrightarrow> s' = s" "enter_handler mem q t fpu s \<noteq> Disp_stop q' s'" for q s m q' t' s'
    by (auto simp: enter_handler_def Let_def split: if_splits prod.splits)
  show ?thesis
  proof (cases "i + 1 = SIGKILL")
    case True
    then show ?thesis using e i by (auto simp: dispatch_turn_def Let_def)
  next
    case False
    let ?q = "p\<lparr>sig_pending := sig_pending p AND NOT (SIGBIT (i + 1))\<rparr>"
    have r: "r = (if sig_handler ?q (i + 1) = SIG_IGN then Inr ?q
        else if sig_handler ?q (i + 1) = SIG_DFL then
          (if sig_default_ignore (i + 1) then Inr ?q else Inl (Disp_kill mem ?q (i + 1)))
        else Inl (enter_handler mem ?q t fpu (i + 1)))"
      using e i False le by (simp add: dispatch_turn_def Let_def cong: if_cong)
    show ?thesis
    proof (cases "enter_handler mem ?q t fpu (i + 1)")
      case (Disp_return m q' t')
      with eh(1) [OF Disp_return] keep [OF False] less le(1) show ?thesis unfolding r by simp
    next
      case (Disp_kill m q' s')
      with eh(2) [OF Disp_kill] keep [OF False] le(1) show ?thesis unfolding r by simp
    next
      case (Disp_stop q' s')
      with eh(3) show ?thesis by blast
    qed
  qed
qed

lemma dispatch_loop_kill:
  assumes "bit (sig_pending p) SIGKILL"
  shows "case dispatch_loop mem p t fpu of
      Disp_kill _ _ s \<Rightarrow> s \<le> SIGKILL
    | Disp_stop _ _ \<Rightarrow> False
    | Disp_return _ q _ \<Rightarrow> bit (sig_pending q) SIGKILL \<and> unat (sig_pending q) < unat (sig_pending p)"
  using assms
proof (induction mem p t fpu rule: dispatch_loop.induct)
  case (1 mem p t fpu)
  note turn = dispatch_turn_kill [OF 1(2) refl, of mem t fpu]
  show ?case
  proof (cases "dispatch_turn mem p t fpu")
    case (Inl d)
    with turn show ?thesis by (simp add: dispatch_loop.simps [of mem p t fpu] split: dispatch.splits)
  next
    case (Inr q)
    with turn 1(1) [OF Inr] dispatch_turn_pending [OF Inr] show ?thesis
      by (simp add: dispatch_loop.simps [of mem p t fpu] split: dispatch.splits)
  qed
qed

lemma forced_rflags: "w AND 0x202 = 0x202 \<Longrightarrow> (w AND NOT 0x200) OR 0x202 = (w :: u64)"
proof (rule bit_word_eqI)
  fix n assume w: "w AND 0x202 = 0x202" and "n < LENGTH(64)"
  have m: "(0x202 :: u64) = push_bit 9 1 OR push_bit 1 1" "(0x200 :: u64) = push_bit 9 1" by simp_all
  have "bit w 9" "bit w 1"
    using arg_cong [OF w, of "\<lambda>v. bit v 9"] arg_cong [OF w, of "\<lambda>v. bit v 1"]
    unfolding m by (simp_all only: bit_and_iff bit_or_iff bit_flag) simp_all
  then show "bit ((w AND NOT 0x200) OR 0x202) n = bit w n"
    unfolding m by (auto simp only: bit_and_iff bit_or_iff bit_not_iff bit_flag intro: impossible_bit dest: bit_imp_possible_bit)
qed

lemma signal_roundtrip:
  assumes d: "signal_dispatch mem (Some p) t fpu = Some (Disp_return mem' p' t')" and moved: "t' \<noteq> t"
    and fpu: "length fpu = 512" and user: "tf_cs t = 0x1B" "tf_ss t = 0x23" "tf_rflags t AND 0x202 = 0x202"
    and rsp: "tf_rsp t < 0x0000800000000000"
    and ret: "tf_rsp u = tf_rsp t' + 8" and kept: "\<And>i. i < 704 \<Longrightarrow> m_byte mem'' (tf_rsp u + of_nat i) = m_byte mem' (tf_rsp u + of_nat i)"
  shows "ksys_sigreturn mem'' msk q u =
    Sigret_ok (q\<lparr>sig_blocked := (if sigsusp_active p then sigsusp_saved p else sig_blocked p)\<rparr>) t (mask_mxcsr msk fpu) (tf_rax t)"
proof -
  have "dispatch_loop mem p t fpu = Disp_return mem' p' t'"
    using d by (simp add: signal_dispatch_def split: if_splits)
  from dispatch_loop_return [OF this] moved obtain r sig
    where e: "enter_handler mem r t fpu sig = Disp_return mem' p' t'"
      and r: "sig_blocked r = sig_blocked p" "sigsusp_active r = sigsusp_active p" "sigsusp_saved r = sigsusp_saved p" by blast
  let ?sf = "\<lparr>sf_magic = SIGFRAME_MAGIC, sf_saved_mask = (if sigsusp_active p then sigsusp_saved p else sig_blocked p),
    sf_saved = t, sf_fpu = fpu\<rparr>"
  note fr = enter_handler_frame [OF e fpu, unfolded r]
  have "ksys_sigreturn mem'' msk q u = Sigret_ok (q\<lparr>sig_blocked := sf_saved_mask ?sf\<rparr>)
      ((sf_saved ?sf)\<lparr>tf_cs := 0x1B, tf_ss := 0x23, tf_rflags := (tf_rflags (sf_saved ?sf) AND NOT 0x200) OR 0x202\<rparr>)
      (mask_mxcsr msk (sf_fpu ?sf)) (tf_rax (sf_saved ?sf))"
    by (rule sigreturn_frame) (use fr ret kept fpu rsp in simp_all)
  also have "(sf_saved ?sf)\<lparr>tf_cs := 0x1B, tf_ss := 0x23, tf_rflags := (tf_rflags (sf_saved ?sf) AND NOT 0x200) OR 0x202\<rparr> = t"
    using user forced_rflags [OF user(3)] by (cases t) (simp only: trapframe.simps sigframe.simps)
  finally show ?thesis by simp
qed

subsection \<open>Properties\<close>

text \<open>
  C24. Signal handling is transparent to the interrupted program: when delivery on the return
  to ring 3 redirected it into a handler, then whatever registers the handler leaves behind, a
  sigreturn with the stack pointer at the frame restores every register of the interrupted
  trap frame, the signal mask (the one saved by a pending sigsuspend, if any) and the FPU image,
  as long as the handler left the frame on its stack alone.\<close>

theorem handler_roundtrip:
  assumes "signal_dispatch mem (Some p) t fpu = Some (Disp_return mem' p' t')" and "t' \<noteq> t"
    and "length fpu = 512" and "tf_cs t = 0x1B" and "tf_ss t = 0x23" and "tf_rflags t AND 0x202 = 0x202"
    and "tf_rsp t < 0x0000800000000000" and "tf_rsp u = tf_rsp t' + 8"
    and "\<And>i. i < 704 \<Longrightarrow> m_byte mem'' (tf_rsp u + of_nat i) = m_byte mem' (tf_rsp u + of_nat i)"
  shows "ksys_sigreturn mem'' msk q u =
    Sigret_ok (q\<lparr>sig_blocked := (if sigsusp_active p then sigsusp_saved p else sig_blocked p)\<rparr>) t (mask_mxcsr msk fpu) (tf_rax t)"
  using assms by (rule signal_roundtrip)

text \<open>A process with a handler for signal 10 and that signal pending, interrupted in user mode.\<close>

definition zero_memory :: memory where
  "zero_memory = \<lparr>m_byte = \<lambda>_. Some 0, m_writable = \<lambda>_. True\<rparr>"

definition caught :: process where
  "caught = alice\<lparr>sig_pending := SIGBIT 10, sig_handler := (\<lambda>_. 0x400000), sig_blocked := 8\<rparr>"

definition user_tf :: trapframe where
  "user_tf = (tf_of_words (replicate 22 7))\<lparr>tf_cs := 0x1B, tf_ss := 0x23, tf_rflags := 0x202, tf_rsp := 0x200000000\<rparr>"

lemma caught_dispatch:
  "\<exists>mem' p' t'. signal_dispatch zero_memory (Some caught) user_tf (replicate 512 0) = Some (Disp_return mem' p' t') \<and> t' \<noteq> user_tf"
proof -
  have "sig_pending caught = push_bit 10 1" "sig_blocked caught = push_bit 3 1" by (simp_all add: caught_def SIGBIT_def)
  then have d: "bit (sig_deliverable caught) s \<longleftrightarrow> s = 10" for s
    unfolding sig_deliverable_def SIG_UNMASKABLE_def SIGBIT_def
    by (auto simp only: bit_or_iff bit_and_iff bit_not_iff bit_flag) (simp_all add: sig_defs)
  have f: "find_index (\<lambda>s. bit (sig_deliverable caught) s) [1 ..< NSIG] = Some 9"
    unfolding d by code_simp
  let ?p = "caught\<lparr>sig_pending := sig_pending caught AND NOT (SIGBIT 10)\<rparr>"
  have "\<exists>m q u. enter_handler zero_memory ?p user_tf (replicate 512 0) 10 = Disp_return m q u \<and> u \<noteq> user_tf"
    by (rule enter_handler_ok)
      (simp_all add: user_range_valid_iff user_tf_def SIGFRAME_SIZE_def caught_def tf_of_words_def stores_def zero_memory_def)
  moreover have "dispatch_turn zero_memory caught user_tf (replicate 512 0)
      = Inl (enter_handler zero_memory ?p user_tf (replicate 512 0) 10)"
    using f by (simp add: dispatch_turn_def Let_def caught_def sig_defs)
  ultimately show ?thesis
    by (simp add: signal_dispatch_def user_tf_def dispatch_loop.simps [of _ caught])
qed

theorem handler_roundtrip_witness:
  "\<exists>mem' p' t'. signal_dispatch zero_memory (Some caught) user_tf (replicate 512 0) = Some (Disp_return mem' p' t')
     \<and> ksys_sigreturn mem' 0xFFFF p' (t'\<lparr>tf_rsp := tf_rsp t' + 8, tf_rax := 1, tf_rbx := 2\<rparr>)
       = Sigret_ok (p'\<lparr>sig_blocked := 8\<rparr>) user_tf (mask_mxcsr 0xFFFF (replicate 512 0)) 7"
proof -
  obtain mem' p' t' where d: "signal_dispatch zero_memory (Some caught) user_tf (replicate 512 0) = Some (Disp_return mem' p' t')"
    "t' \<noteq> user_tf" using caught_dispatch by blast
  have "ksys_sigreturn mem' 0xFFFF p' (t'\<lparr>tf_rsp := tf_rsp t' + 8, tf_rax := 1, tf_rbx := 2\<rparr>)
      = Sigret_ok (p'\<lparr>sig_blocked := (if sigsusp_active caught then sigsusp_saved caught else sig_blocked caught)\<rparr>)
          user_tf (mask_mxcsr 0xFFFF (replicate 512 0)) (tf_rax user_tf)"
    by (rule handler_roundtrip [OF d]) (simp_all add: user_tf_def)
  with d(1) show ?thesis by (simp add: caught_def alice_def new_process_def user_tf_def tf_of_words_def)
qed

text \<open>
  C9. SIGKILL cannot be masked, ignored, handled or turned into a stop: while it is pending the
  delivery loop ends the process, by SIGKILL or by a signal with a smaller number, or enters the
  handler of such a signal with SIGKILL still pending and strictly fewer pending signals.\<close>

theorem sigkill_inescapable:
  assumes "bit (sig_pending p) SIGKILL"
  shows "case dispatch_loop mem p t fpu of
      Disp_kill _ _ s \<Rightarrow> s \<le> SIGKILL
    | Disp_stop _ _ \<Rightarrow> False
    | Disp_return _ q _ \<Rightarrow> bit (sig_pending q) SIGKILL \<and> unat (sig_pending q) < unat (sig_pending p)"
  using assms by (rule dispatch_loop_kill)

theorem sigkill_inescapable_witness:
  "case dispatch_loop \<lparr>m_byte = \<lambda>_. None, m_writable = \<lambda>_. False\<rparr> (caught\<lparr>sig_pending := 0x80200\<rparr>) user_tf [] of
      Disp_kill _ _ s \<Rightarrow> s \<le> SIGKILL
    | Disp_stop _ _ \<Rightarrow> False
    | Disp_return _ q _ \<Rightarrow> bit (sig_pending q) SIGKILL \<and> unat (sig_pending q) < 0x80200"
proof -
  have "bit (sig_pending (caught\<lparr>sig_pending := 0x80200\<rparr>)) SIGKILL" by (simp add: SIGKILL_def)
  from sigkill_inescapable [OF this, of "\<lparr>m_byte = \<lambda>_. None, m_writable = \<lambda>_. False\<rparr>" user_tf "[]"] show ?thesis
    by (simp split: dispatch.splits)
qed

text \<open>
  C40. A forged signal frame keeps the I/O privilege level: for every trap frame of the caller's
  choice with a canonical user stack pointer there is a user memory from which sigreturn loads it
  with the user selectors and the interrupt flag forced but with bits 12 and 13 of rflags, the
  IOPL, as the caller chose them.\<close>

theorem sigreturn_keeps_iopl:
  fixes saved :: trapframe
  assumes "tf_rsp saved < 0x0000800000000000"
  shows "\<exists>mem t u. ksys_sigreturn mem msk p t = Sigret_ok (p\<lparr>sig_blocked := 0\<rparr>) u (mask_mxcsr msk (replicate 512 0)) (tf_rax saved)
    \<and> tf_cs u = 0x1B \<and> tf_ss u = 0x23 \<and> tf_rip u = tf_rip saved \<and> tf_rflags u AND 0x3000 = tf_rflags saved AND 0x3000"
proof -
  let ?sf = "\<lparr>sf_magic = SIGFRAME_MAGIC, sf_saved_mask = 0, sf_saved = saved, sf_fpu = replicate 512 0\<rparr>"
  let ?t = "saved\<lparr>tf_rsp := 0x200000000\<rparr>"
  let ?mem = "\<lparr>m_byte = \<lambda>a :: u64. if unat (a - 0x200000000) < 704 then Some (sigframe_bytes ?sf ! unat (a - 0x200000000)) else None, m_writable = \<lambda>_. True\<rparr>"
  let ?u = "saved\<lparr>tf_cs := 0x1B, tf_ss := 0x23, tf_rflags := (tf_rflags saved AND NOT 0x200) OR 0x202\<rparr>"
  have "ksys_sigreturn ?mem msk p ?t = Sigret_ok (p\<lparr>sig_blocked := sf_saved_mask ?sf\<rparr>)
      ((sf_saved ?sf)\<lparr>tf_cs := 0x1B, tf_ss := 0x23, tf_rflags := (tf_rflags (sf_saved ?sf) AND NOT 0x200) OR 0x202\<rparr>)
      (mask_mxcsr msk (sf_fpu ?sf)) (tf_rax (sf_saved ?sf))"
    by (rule sigreturn_frame)
      (use assms in \<open>simp_all add: unat_of_nat64 user_range_valid_def USER_ADDR_MIN_def USER_ADDR_MAX_def\<close>)
  then have ok: "ksys_sigreturn ?mem msk p ?t = Sigret_ok (p\<lparr>sig_blocked := 0\<rparr>) ?u
      (mask_mxcsr msk (replicate 512 0)) (tf_rax saved)" by (simp only: sigframe.simps)
  have "NOT 0x200 AND 0x3000 = (0x3000 :: u64)" "0x202 AND 0x3000 = (0 :: u64)" by simp_all
  then have fl: "((tf_rflags saved AND NOT 0x200) OR 0x202) AND 0x3000 = tf_rflags saved AND 0x3000"
    by (simp only: and.assoc bit.conj_disj_distrib2 bit.disj_zero_right)
  show ?thesis
    by (rule exI [of _ ?mem], rule exI [of _ ?t], rule exI [of _ ?u]) (use ok fl in simp)
qed

theorem sigreturn_keeps_iopl_witness:
  "\<exists>mem t u. ksys_sigreturn mem 0xFFFF caught t
      = Sigret_ok (caught\<lparr>sig_blocked := 0\<rparr>) u (mask_mxcsr 0xFFFF (replicate 512 0)) (tf_rax user_tf)
    \<and> tf_cs u = 0x1B \<and> tf_ss u = 0x23 \<and> tf_rip u = tf_rip user_tf \<and> tf_rflags u AND 0x3000 = 0x3000"
  using sigreturn_keeps_iopl [of "user_tf\<lparr>tf_rflags := 0x3202\<rparr>" "0xFFFF" caught] by (simp add: user_tf_def)

end
