(* ===== verification/Vmm.thy ===== *)
theory Vmm
  imports Pmm_Ref Arrays
begin

text \<open>
  The virtual memory manager (mm/vmm.c): four-level page tables held in physical frames.
  Physical memory is a map from the address of a frame to its 512 words, so page tables and
  data pages live in one memory and every sharing is visible.  A table pointer (through the
  physmap or, at boot, the identity map) is the physical address of the table.  An address
  space is the physical address of its top table; its set of active CPUs only selects the
  processors that a TLB shootdown interrupts, and the shootdowns are recorded.
\<close>

record vmm =
  pm :: "u64 \<Rightarrow> nat \<Rightarrow> u64"
  frames :: pmm
  kernel_space :: u64
  physmap_initialized :: bool
  shootdowns :: "(u64 option \<times> u64 \<times> nat) list"

definition VMM_FLAG_PRESENT :: u64 where "VMM_FLAG_PRESENT = 0x1"
definition VMM_FLAG_RW :: u64 where "VMM_FLAG_RW = 0x2"
definition VMM_FLAG_USER :: u64 where "VMM_FLAG_USER = 0x4"
definition VMM_FLAG_PWT :: u64 where "VMM_FLAG_PWT = 0x8"
definition VMM_FLAG_PCD :: u64 where "VMM_FLAG_PCD = 0x10"
definition VMM_FLAG_PS :: u64 where "VMM_FLAG_PS = 0x80"
definition VMM_FLAG_COW :: u64 where "VMM_FLAG_COW = 0x200"
definition VMM_FLAG_PROTNONE :: u64 where "VMM_FLAG_PROTNONE = 0x400"
definition VMM_FLAG_DEVICE :: u64 where "VMM_FLAG_DEVICE = 0x800"
definition VMM_FLAG_NOEXEC :: u64 where "VMM_FLAG_NOEXEC = 0x8000000000000000"
definition ADDRESS_MASK :: u64 where "ADDRESS_MASK = 0x000FFFFFFFFFF000"
definition VMM_USER_TOP :: u64 where "VMM_USER_TOP = 0x0000800000000000"
definition USER_CODE_BASE :: u64 where "USER_CODE_BASE = 0x100000000"
definition USER_STACK_TOP :: u64 where "USER_STACK_TOP = 0x3FFF00000"

lemmas flag_defs = VMM_FLAG_PRESENT_def VMM_FLAG_RW_def VMM_FLAG_USER_def VMM_FLAG_PWT_def VMM_FLAG_PCD_def
  VMM_FLAG_PS_def VMM_FLAG_COW_def VMM_FLAG_PROTNONE_def VMM_FLAG_DEVICE_def VMM_FLAG_NOEXEC_def ADDRESS_MASK_def

definition has :: "u64 \<Rightarrow> u64 \<Rightarrow> bool" where
  "has e f \<longleftrightarrow> e AND f \<noteq> 0"

definition vmm_pte_has_frame :: "u64 \<Rightarrow> bool" where
  "vmm_pte_has_frame pte \<longleftrightarrow> pte AND (VMM_FLAG_PRESENT OR VMM_FLAG_PROTNONE) \<noteq> 0"

definition pml4_i :: "u64 \<Rightarrow> nat" where "pml4_i va = unat (drop_bit 39 va AND 0x1FF)"
definition pdpt_i :: "u64 \<Rightarrow> nat" where "pdpt_i va = unat (drop_bit 30 va AND 0x1FF)"
definition pdt_i :: "u64 \<Rightarrow> nat" where "pdt_i va = unat (drop_bit 21 va AND 0x1FF)"
definition pt_i :: "u64 \<Rightarrow> nat" where "pt_i va = unat (drop_bit 12 va AND 0x1FF)"

subsection \<open>Physical memory and frames\<close>

definition set_entry :: "vmm \<Rightarrow> u64 \<Rightarrow> nat \<Rightarrow> u64 \<Rightarrow> vmm" where
  "set_entry s t i e = s\<lparr>pm := (pm s)(t := (pm s t)(i := e))\<rparr>"

definition zero_frame :: "vmm \<Rightarrow> u64 \<Rightarrow> vmm" where
  "zero_frame s phys = s\<lparr>pm := (pm s)(phys := (\<lambda>_. 0))\<rparr>"

text \<open>A frame from the physical memory manager; address 0 stands for failure, as in the code.\<close>

definition get_frame :: "vmm \<Rightarrow> vmm \<times> u64" where
  "get_frame s = (case pmm_alloc_frame (frames s) of None \<Rightarrow> (s, 0) | Some (p, a) \<Rightarrow> (s\<lparr>frames := p\<rparr>, a))"

definition put_frame :: "vmm \<Rightarrow> u64 \<Rightarrow> vmm" where
  "put_frame s a = s\<lparr>frames := pmm_free_frame (frames s) a\<rparr>"

text \<open>Drop one reference to a frame that may be shared, freeing it with the last.\<close>

definition drop_frame :: "vmm \<Rightarrow> u64 \<Rightarrow> vmm" where
  "drop_frame s a = (let (p, still) = pmm_unref_frame (frames s) a; s = s\<lparr>frames := p\<rparr> in
     if still then s else put_frame s a)"

definition share_frame :: "vmm \<Rightarrow> u64 \<Rightarrow> vmm \<times> bool" where
  "share_frame s a = (let (p, ok) = pmm_share_frame (frames s) a in (s\<lparr>frames := p\<rparr>, ok))"

definition tlb_shootdown :: "vmm \<Rightarrow> u64 option \<Rightarrow> u64 \<Rightarrow> nat \<Rightarrow> vmm" where
  "tlb_shootdown s space va n = s\<lparr>shootdowns := shootdowns s @ [(space, va, n)]\<rparr>"

subsection \<open>Walking and building the tables\<close>

definition get_or_create_table :: "vmm \<Rightarrow> u64 \<Rightarrow> nat \<Rightarrow> u64 \<Rightarrow> vmm \<times> u64 option" where
  "get_or_create_table s t i flags =
    (let e = pm s t i in
     if \<not> has e VMM_FLAG_PRESENT then
       let (s, frame) = get_frame s in
       if frame = 0 then (s, None)
       else let s = zero_frame s frame; phys = frame AND ADDRESS_MASK
         in (set_entry s t i (phys OR (flags AND (VMM_FLAG_USER OR VMM_FLAG_PWT OR VMM_FLAG_PCD)) OR VMM_FLAG_RW OR VMM_FLAG_PRESENT), Some phys)
     else (s, Some (e AND ADDRESS_MASK)))"

definition next_table :: "vmm \<Rightarrow> u64 \<Rightarrow> nat \<Rightarrow> bool \<Rightarrow> u64 \<Rightarrow> vmm \<times> u64 option" where
  "next_table s t i create flags =
    (if \<not> has (pm s t i) VMM_FLAG_PRESENT then
       (if \<not> create then (s, None) else get_or_create_table s t i flags)
     else (s, Some (pm s t i AND ADDRESS_MASK)))"

definition get_pt_space :: "vmm \<Rightarrow> u64 \<Rightarrow> u64 \<Rightarrow> bool \<Rightarrow> u64 \<Rightarrow> vmm \<times> u64 option" where
  "get_pt_space s space va create flags =
    (case next_table s (space AND ADDRESS_MASK) (pml4_i va) create flags of
       (s, None) \<Rightarrow> (s, None)
     | (s, Some pdpt) \<Rightarrow> (case next_table s pdpt (pdpt_i va) create flags of
           (s, None) \<Rightarrow> (s, None)
         | (s, Some pdt) \<Rightarrow> next_table s pdt (pdt_i va) create flags))"

definition get_pt :: "vmm \<Rightarrow> u64 \<Rightarrow> bool \<Rightarrow> u64 \<Rightarrow> vmm \<times> u64 option" where
  "get_pt s va create flags = get_pt_space s (kernel_space s) va create flags"

definition vmm_walk_translate :: "vmm \<Rightarrow> u64 \<Rightarrow> u64 \<Rightarrow> u64" where
  "vmm_walk_translate s pml4 va =
    (if \<not> physmap_initialized s then 0
     else let e = pm s (pml4 AND ADDRESS_MASK) (pml4_i va) in
       if \<not> has e VMM_FLAG_PRESENT then 0
       else let e = pm s (e AND ADDRESS_MASK) (pdpt_i va) in
         if \<not> has e VMM_FLAG_PRESENT then 0
         else if has e VMM_FLAG_PS then (e AND 0x000FFFFFC0000000) OR (va AND 0x3FFFFFFF)
         else let e = pm s (e AND ADDRESS_MASK) (pdt_i va) in
           if \<not> has e VMM_FLAG_PRESENT then 0
           else if has e VMM_FLAG_PS then (e AND 0x000FFFFFFFE00000) OR (va AND 0x1FFFFF)
           else let e = pm s (e AND ADDRESS_MASK) (pt_i va) in
             if \<not> has e VMM_FLAG_PRESENT then 0
             else (e AND ADDRESS_MASK) OR (va AND 0xFFF))"

definition vmm_translate :: "vmm \<Rightarrow> u64 \<Rightarrow> u64" where
  "vmm_translate s va = vmm_walk_translate s (kernel_space s) va"

definition vmm_translate_in_space :: "vmm \<Rightarrow> u64 \<Rightarrow> u64 \<Rightarrow> u64" where
  "vmm_translate_in_space s space va = vmm_walk_translate s space va"

subsection \<open>Mapping, unmapping and protection\<close>

definition wx_request :: "u64 \<Rightarrow> bool" where
  "wx_request flags \<longleftrightarrow> has flags VMM_FLAG_RW \<and> \<not> has flags VMM_FLAG_NOEXEC"

definition vmm_map :: "vmm \<Rightarrow> u64 \<Rightarrow> u64 \<Rightarrow> u64 \<Rightarrow> vmm \<times> int" where
  "vmm_map s va phys flags =
    (if va AND 0xFFF \<noteq> 0 \<or> phys AND 0xFFF \<noteq> 0 then (s, -1)
     else if wx_request flags then (s, -5)
     else if has flags VMM_FLAG_USER \<and> va \<ge> 0xFFFF800000000000 then (s, -4)
     else case get_pt s va True flags of
         (s, None) \<Rightarrow> (s, -2)
       | (s, Some pt) \<Rightarrow>
           if has (pm s pt (pt_i va)) VMM_FLAG_PRESENT then (s, -3)
           else (set_entry s pt (pt_i va) ((phys AND ADDRESS_MASK) OR (flags AND NOT VMM_FLAG_PS) OR VMM_FLAG_PRESENT), 0))"

definition vmm_map_in_space :: "vmm \<Rightarrow> u64 \<Rightarrow> u64 \<Rightarrow> u64 \<Rightarrow> u64 \<Rightarrow> vmm \<times> int" where
  "vmm_map_in_space s space va phys flags =
    (if va AND 0xFFF \<noteq> 0 \<or> phys AND 0xFFF \<noteq> 0 then (s, -1)
     else if wx_request flags then (s, -5)
     else if has flags VMM_FLAG_USER \<and> va \<ge> 0xFFFF800000000000 then (s, -4)
     else case get_pt_space s space va True flags of
         (s, None) \<Rightarrow> (s, -2)
       | (s, Some pt) \<Rightarrow>
           if vmm_pte_has_frame (pm s pt (pt_i va)) then (s, -3)
           else if has flags VMM_FLAG_PROTNONE then (s, -1)
           else (set_entry s pt (pt_i va) ((phys AND ADDRESS_MASK) OR (flags AND NOT VMM_FLAG_PS) OR VMM_FLAG_PRESENT), 0))"

definition vmm_unmap_noflush :: "vmm \<Rightarrow> u64 \<Rightarrow> vmm \<times> int" where
  "vmm_unmap_noflush s va =
    (if va AND 0xFFF \<noteq> 0 then (s, -1)
     else case get_pt s va False 0 of
         (s, None) \<Rightarrow> (s, -2)
       | (s, Some pt) \<Rightarrow>
           if \<not> has (pm s pt (pt_i va)) VMM_FLAG_PRESENT then (s, -3) else (set_entry s pt (pt_i va) 0, 0))"

definition vmm_unmap :: "vmm \<Rightarrow> u64 \<Rightarrow> vmm \<times> int" where
  "vmm_unmap s va = (let (s, r) = vmm_unmap_noflush s va in (if r = 0 then tlb_shootdown s None va 1 else s, r))"

definition vmm_unmap_in_space :: "vmm \<Rightarrow> u64 \<Rightarrow> u64 \<Rightarrow> vmm \<times> int" where
  "vmm_unmap_in_space s space va =
    (if va AND 0xFFF \<noteq> 0 \<or> va \<ge> VMM_USER_TOP then (s, -1)
     else case get_pt_space s space va False 0 of
         (s, None) \<Rightarrow> (s, -2)
       | (s, Some pt) \<Rightarrow>
           let e = pm s pt (pt_i va) in
           if \<not> vmm_pte_has_frame e then (s, -3)
           else let s = tlb_shootdown (set_entry s pt (pt_i va) 0) (Some space) va 1
             in if has e VMM_FLAG_DEVICE then (s, 0) else (drop_frame s (e AND ADDRESS_MASK), 0))"

text \<open>The new leaf entry of a page whose protection changes; the frame may be shared.\<close>

definition protect_entry :: "u64 \<Rightarrow> u64 \<Rightarrow> bool \<Rightarrow> u64" where
  "protect_entry old flags shared =
    (let phys = old AND ADDRESS_MASK in
     if has old VMM_FLAG_DEVICE then
       let keep = old AND (VMM_FLAG_DEVICE OR VMM_FLAG_PWT OR VMM_FLAG_PCD) in
       if has flags VMM_FLAG_PROTNONE then phys OR keep OR VMM_FLAG_PROTNONE OR VMM_FLAG_NOEXEC
       else phys OR keep OR VMM_FLAG_PRESENT OR VMM_FLAG_USER OR VMM_FLAG_NOEXEC OR (flags AND VMM_FLAG_RW)
     else if has flags VMM_FLAG_PROTNONE then phys OR VMM_FLAG_PROTNONE OR VMM_FLAG_NOEXEC
     else let nf = (flags AND NOT (VMM_FLAG_PS OR VMM_FLAG_COW OR VMM_FLAG_PROTNONE)) OR VMM_FLAG_PRESENT OR VMM_FLAG_USER in
       phys OR (if has old VMM_FLAG_COW \<or> shared then (nf AND NOT VMM_FLAG_RW) OR VMM_FLAG_COW else nf))"

definition vmm_protect_in_space :: "vmm \<Rightarrow> u64 \<Rightarrow> u64 \<Rightarrow> u64 \<Rightarrow> vmm \<times> int" where
  "vmm_protect_in_space s space va flags =
    (if va AND 0xFFF \<noteq> 0 \<or> va \<ge> VMM_USER_TOP then (s, -1)
     else if wx_request flags then (s, -5)
     else case get_pt_space s space va False 0 of
         (s, None) \<Rightarrow> (s, -3)
       | (s, Some pt) \<Rightarrow>
           let old = pm s pt (pt_i va) in
           if \<not> vmm_pte_has_frame old then (s, -3)
           else (tlb_shootdown (set_entry s pt (pt_i va)
                   (protect_entry old flags (pmm_frame_shared (frames s) (old AND ADDRESS_MASK)))) (Some space) va 1, 0))"

definition vmm_alloc_page :: "vmm \<Rightarrow> u64 \<Rightarrow> u64 \<Rightarrow> vmm \<times> int" where
  "vmm_alloc_page s va flags =
    (let (s, frame) = get_frame s in
     if frame = 0 then (s, -1) else vmm_map (zero_frame s frame) va frame (flags OR VMM_FLAG_RW))"

definition vmm_alloc_page_in_space :: "vmm \<Rightarrow> u64 \<Rightarrow> u64 \<Rightarrow> u64 \<Rightarrow> vmm \<times> int" where
  "vmm_alloc_page_in_space s space va flags =
    (let (s, frame) = get_frame s in
     if frame = 0 then (s, -1) else vmm_map_in_space (zero_frame s frame) space va frame (flags OR VMM_FLAG_RW))"

definition user_flags :: "bool \<Rightarrow> bool \<Rightarrow> u64" where
  "user_flags rw exec = VMM_FLAG_PRESENT OR VMM_FLAG_USER OR (if rw then VMM_FLAG_RW else 0) OR (if exec then 0 else VMM_FLAG_NOEXEC)"

definition map_user_page_in_space :: "vmm \<Rightarrow> u64 \<Rightarrow> u64 \<Rightarrow> bool \<Rightarrow> bool \<Rightarrow> vmm \<times> int" where
  "map_user_page_in_space s space va rw exec =
    (if va AND 0xFFF \<noteq> 0 then (s, -1)
     else let (s, frame) = get_frame s in
       if frame = 0 then (s, -2)
       else let (s, res) = vmm_map_in_space (zero_frame s frame) space va frame (user_flags rw exec) in
         if res \<noteq> 0 then (s, res)
         else if rw then (s, 0)
         else case get_pt_space s space va False 0 of
             (s, None) \<Rightarrow> (s, 0)
           | (s, Some pt) \<Rightarrow>
               (if has (pm s pt (pt_i va)) VMM_FLAG_PRESENT
                then (set_entry s pt (pt_i va) (pm s pt (pt_i va) AND NOT VMM_FLAG_RW), 0) else (s, 0)))"

text \<open>The pages of a user stack below its top, highest first, up to the first failure, then the guard page.\<close>

fun stack_pages :: "vmm \<Rightarrow> u64 \<Rightarrow> u64 list \<Rightarrow> vmm" where
  "stack_pages s space [] = s"
| "stack_pages s space (va # vas) =
    (let (s, r) = map_user_page_in_space s space va True False in if r \<noteq> 0 then s else stack_pages s space vas)"

definition vmm_alloc_user_stack_in_space :: "vmm \<Rightarrow> u64 \<Rightarrow> int \<Rightarrow> vmm \<times> u64" where
  "vmm_alloc_user_stack_in_space s space pages0 =
    (let pages = (if pages0 \<le> 0 then 4 else nat pages0); top_va = USER_STACK_TOP;
         s = stack_pages s space (map (\<lambda>i. top_va - of_nat (i + 1) * 4096) [0 ..< pages]);
         guard = top_va - of_nat (pages + 1) * 4096
     in case get_pt_space s space guard True (VMM_FLAG_RW OR VMM_FLAG_USER) of
          (s, None) \<Rightarrow> (s, top_va)
        | (s, Some pt) \<Rightarrow> (set_entry s pt (pt_i guard) 0, top_va))"

subsection \<open>Address spaces\<close>

definition share_kernel_half :: "vmm \<Rightarrow> u64 \<Rightarrow> u64 \<Rightarrow> vmm" where
  "share_kernel_half s old_t new_t = fold (\<lambda>i s. let e = pm s old_t i in
     if has e VMM_FLAG_PRESENT then set_entry s new_t i (e AND NOT VMM_FLAG_USER) else s) [256 ..< 512] s"

definition strip_kernel_half :: "vmm \<Rightarrow> u64 \<Rightarrow> vmm" where
  "strip_kernel_half s t = fold (\<lambda>i s. let e = pm s t i in
     if has e VMM_FLAG_PRESENT \<and> has e VMM_FLAG_USER then set_entry s t i (e AND NOT VMM_FLAG_USER) else s) [256 ..< 512] s"

definition vmm_harden_user_space :: "vmm \<Rightarrow> u64 \<Rightarrow> vmm" where
  "vmm_harden_user_space s space = strip_kernel_half s (space AND ADDRESS_MASK)"

text \<open>The parameter tells whether the heap can hold the descriptor of the new space.\<close>

definition vmm_space_create_user :: "vmm \<Rightarrow> bool \<Rightarrow> vmm \<times> u64 option" where
  "vmm_space_create_user s kmalloc_ok =
    (let (s, pml4_new) = get_frame s in
     if pml4_new = 0 then (s, None)
     else let s = zero_frame s pml4_new; new_phys = pml4_new AND ADDRESS_MASK;
              s = share_kernel_half s (kernel_space s AND ADDRESS_MASK) new_phys;
              (s, priv) = get_frame s
       in if priv = 0 then (put_frame s pml4_new, None)
          else let s = zero_frame s priv;
                   s = set_entry s new_phys (pml4_i USER_CODE_BASE)
                         ((priv AND ADDRESS_MASK) OR VMM_FLAG_PRESENT OR VMM_FLAG_RW OR VMM_FLAG_USER)
            in if \<not> kmalloc_ok then (s, None) else (strip_kernel_half s new_phys, Some new_phys))"

definition user_pdpt_slots :: "nat list" where
  "user_pdpt_slots = [pdpt_i USER_CODE_BASE ..< Suc (pdpt_i USER_STACK_TOP)]"

definition destroy_leaf :: "u64 \<Rightarrow> nat \<Rightarrow> vmm \<Rightarrow> vmm" where
  "destroy_leaf pt ti s = (let pte = pm s pt ti in
     if \<not> vmm_pte_has_frame pte then s
     else if has pte VMM_FLAG_DEVICE then s
     else drop_frame s (pte AND ADDRESS_MASK))"

definition destroy_pde :: "u64 \<Rightarrow> nat \<Rightarrow> vmm \<Rightarrow> vmm" where
  "destroy_pde pdt di s = (let pdte = pm s pdt di in
     if \<not> has pdte VMM_FLAG_PRESENT then s
     else if has pdte VMM_FLAG_PS then s
     else let pt = pdte AND ADDRESS_MASK in put_frame (fold (destroy_leaf pt) [0 ..< 512] s) pt)"

definition destroy_pdpte :: "u64 \<Rightarrow> nat \<Rightarrow> vmm \<Rightarrow> vmm" where
  "destroy_pdpte pdpt pi s = (let pdpte = pm s pdpt pi in
     if \<not> has pdpte VMM_FLAG_PRESENT then s
     else let pdt = pdpte AND ADDRESS_MASK; s = put_frame (fold (destroy_pde pdt) [0 ..< 512] s) pdt in set_entry s pdpt pi 0)"

definition vmm_space_destroy :: "vmm \<Rightarrow> u64 \<Rightarrow> vmm" where
  "vmm_space_destroy s space =
    (let pml4 = space AND ADDRESS_MASK; pml4e = pm s pml4 0;
         s = (if has pml4e VMM_FLAG_PRESENT
              then let pdpt = pml4e AND ADDRESS_MASK in put_frame (fold (destroy_pdpte pdpt) user_pdpt_slots s) pdpt
              else s)
     in put_frame s pml4)"

definition count_pt :: "vmm \<Rightarrow> u64 \<Rightarrow> nat" where
  "count_pt s pt = length (filter (\<lambda>ti. vmm_pte_has_frame (pm s pt ti)) [0 ..< 512])"

definition count_pdt :: "vmm \<Rightarrow> u64 \<Rightarrow> nat" where
  "count_pdt s pdt = sum_list (map (\<lambda>di. let e = pm s pdt di in
     if \<not> has e VMM_FLAG_PRESENT \<or> has e VMM_FLAG_PS then 0 else count_pt s (e AND ADDRESS_MASK)) [0 ..< 512])"

definition vmm_count_user_pages :: "vmm \<Rightarrow> u64 \<Rightarrow> nat" where
  "vmm_count_user_pages s space =
    (let pml4e = pm s (space AND ADDRESS_MASK) 0 in
     if \<not> has pml4e VMM_FLAG_PRESENT then 0
     else let pdpt = pml4e AND ADDRESS_MASK in
       sum_list (map (\<lambda>pi. let e = pm s pdpt pi in if \<not> has e VMM_FLAG_PRESENT then 0 else count_pdt s (e AND ADDRESS_MASK)) user_pdpt_slots))"

subsection \<open>Copy-on-write duplication\<close>

text \<open>A loop that stops at the first failure.\<close>

fun for_ok :: "('a \<Rightarrow> vmm \<Rightarrow> vmm \<times> bool) \<Rightarrow> 'a list \<Rightarrow> vmm \<Rightarrow> vmm \<times> bool" where
  "for_ok f [] s = (s, True)"
| "for_ok f (x # xs) s = (case f x s of (s, True) \<Rightarrow> for_ok f xs s | (s, False) \<Rightarrow> (s, False))"

text \<open>The parent's entry and the child's flags after sharing a present page.\<close>

definition fork_flags :: "u64 \<Rightarrow> u64" where
  "fork_flags pte = (let flags = pte AND NOT ADDRESS_MASK AND NOT VMM_FLAG_PRESENT in
     if has pte VMM_FLAG_RW then (flags AND NOT VMM_FLAG_RW) OR VMM_FLAG_COW else flags)"

definition fork_leaf :: "u64 \<Rightarrow> u64 \<Rightarrow> nat \<Rightarrow> nat \<Rightarrow> nat \<Rightarrow> vmm \<Rightarrow> vmm \<times> bool" where
  "fork_leaf child pt pi di ti s =
    (let pte = pm s pt ti in
     if \<not> vmm_pte_has_frame pte then (s, True)
     else let va = push_bit 30 (of_nat pi) OR push_bit 21 (of_nat di) OR push_bit 12 (of_nat ti); phys = pte AND ADDRESS_MASK in
       if has pte VMM_FLAG_DEVICE then
         (case get_pt_space s child va True (VMM_FLAG_USER OR VMM_FLAG_RW) of
            (s, None) \<Rightarrow> (s, True) | (s, Some cpt) \<Rightarrow> (set_entry s cpt ti pte, True))
       else if \<not> has pte VMM_FLAG_PRESENT then
         (case get_pt_space s child va True (VMM_FLAG_USER OR VMM_FLAG_RW) of
            (s, None) \<Rightarrow> (s, False)
          | (s, Some cpt) \<Rightarrow>
              let (s, ok) = share_frame s phys in if \<not> ok then (s, False) else (set_entry s cpt ti pte, True))
       else
         let (s, ok) = share_frame s phys in
         if \<not> ok then (s, False)
         else let s = (if has pte VMM_FLAG_RW then set_entry s pt ti (phys OR fork_flags pte OR VMM_FLAG_PRESENT) else s);
                  (s, r) = vmm_map_in_space s child va phys (fork_flags pte)
           in (if r \<noteq> 0 then s\<lparr>frames := fst (pmm_unref_frame (frames s) phys)\<rparr> else s, True))"

definition fork_pde :: "u64 \<Rightarrow> u64 \<Rightarrow> nat \<Rightarrow> nat \<Rightarrow> vmm \<Rightarrow> vmm \<times> bool" where
  "fork_pde child pdt pi di s = (let pdte = pm s pdt di in
     if \<not> has pdte VMM_FLAG_PRESENT \<or> has pdte VMM_FLAG_PS then (s, True)
     else for_ok (fork_leaf child (pdte AND ADDRESS_MASK) pi di) [0 ..< 512] s)"

definition fork_pdpte :: "u64 \<Rightarrow> u64 \<Rightarrow> nat \<Rightarrow> vmm \<Rightarrow> vmm \<times> bool" where
  "fork_pdpte child pdpt pi s = (let pdpte = pm s pdpt pi in
     if \<not> has pdpte VMM_FLAG_PRESENT then (s, True)
     else for_ok (fork_pde child (pdpte AND ADDRESS_MASK) pi) [0 ..< 512] s)"

definition vmm_fork_space :: "vmm \<Rightarrow> u64 \<Rightarrow> bool \<Rightarrow> vmm \<times> u64 option" where
  "vmm_fork_space s parent kmalloc_ok =
    (case vmm_space_create_user s kmalloc_ok of
       (s, None) \<Rightarrow> (s, None)
     | (s, Some child) \<Rightarrow>
         let pml4e = pm s (parent AND ADDRESS_MASK) 0;
             (s, ok) = (if has pml4e VMM_FLAG_PRESENT then for_ok (fork_pdpte child (pml4e AND ADDRESS_MASK)) user_pdpt_slots s else (s, True));
             s = tlb_shootdown s (Some parent) 0 0
         in if ok then (s, Some child) else (vmm_space_destroy s child, None))"

end
