(* ===== verification/Vmm_Tree.thy ===== *)
theory Vmm_Tree
  imports Vmm
begin

text \<open>
  The page tables of an address space as a tree.  A path of table indices names a table;
  \<open>tree_ok\<close> says that the user half of a space is a tree of distinct frames that the
  physical memory manager does not consider free.  Under it the builders of mm/vmm.c keep
  every leaf entry but the one they are asked to change.
\<close>

fun walk :: "vmm \<Rightarrow> u64 \<Rightarrow> nat list \<Rightarrow> u64 option" where
  "walk s t [] = Some t"
| "walk s t (i # is) = (if has (pm s t i) VMM_FLAG_PRESENT then walk s (pm s t i AND ADDRESS_MASK) is else None)"

definition frame_no :: "u64 \<Rightarrow> nat" where
  "frame_no a = unat (a div 4096)"

definition upath :: "nat list \<Rightarrow> bool" where
  "upath p \<longleftrightarrow> length p \<le> 3 \<and> (p \<noteq> [] \<longrightarrow> hd p < 256)"

definition held_table :: "vmm \<Rightarrow> u64 \<Rightarrow> bool" where
  "held_table s t \<longleftrightarrow> t AND ADDRESS_MASK = t \<and> frame_no t \<notin> free_set (frames s)"

definition tree_ok :: "vmm \<Rightarrow> u64 \<Rightarrow> bool" where
  "tree_ok s root \<longleftrightarrow> pmm_ready (frames s)
     \<and> (\<forall>p t. upath p \<and> walk s root p = Some t \<longrightarrow> held_table s t)
     \<and> (\<forall>p q t. upath p \<and> upath q \<and> walk s root p = Some t \<and> walk s root q = Some t \<longrightarrow> p = q)"

lemma tree_okI:
  assumes "pmm_ready (frames s)" "\<And>p t. upath p \<Longrightarrow> walk s root p = Some t \<Longrightarrow> held_table s t"
    "\<And>p q t. upath p \<Longrightarrow> upath q \<Longrightarrow> walk s root p = Some t \<Longrightarrow> walk s root q = Some t \<Longrightarrow> p = q"
  shows "tree_ok s root"
  using assms unfolding tree_ok_def by blast

lemma tree_okD:
  assumes "tree_ok s root"
  shows "pmm_ready (frames s)" "upath p \<Longrightarrow> walk s root p = Some t \<Longrightarrow> held_table s t"
    "upath p \<Longrightarrow> upath q \<Longrightarrow> walk s root p = Some t \<Longrightarrow> walk s root q = Some t \<Longrightarrow> p = q"
  using assms unfolding tree_ok_def by blast+

lemma walk_append: "walk s t (p @ q) = (case walk s t p of None \<Rightarrow> None | Some u \<Rightarrow> walk s u q)"
  by (induction p arbitrary: t) auto

lemma walk_snoc: "walk s t (p @ [i]) = (case walk s t p of None \<Rightarrow> None
    | Some u \<Rightarrow> if has (pm s u i) VMM_FLAG_PRESENT then Some (pm s u i AND ADDRESS_MASK) else None)"
  by (simp add: walk_append split: option.splits)

lemma walk_pm: "pm s = pm s' \<Longrightarrow> walk s t p = walk s' t p"
  by (induction p arbitrary: t) auto

lemma upath_snoc: "upath (p @ [i]) \<Longrightarrow> upath p"
  by (cases p) (auto simp: upath_def)

lemma set_entry_simps [simp]:
  "pm (set_entry s t i e) u = (if u = t then (pm s t)(i := e) else pm s u)" "frames (set_entry s t i e) = frames s"
  "kernel_space (set_entry s t i e) = kernel_space s" "physmap_initialized (set_entry s t i e) = physmap_initialized s"
  by (simp_all add: set_entry_def)

lemma zero_frame_simps [simp]:
  "pm (zero_frame s f) u = (if u = f then (\<lambda>_. 0) else pm s u)" "frames (zero_frame s f) = frames s"
  "kernel_space (zero_frame s f) = kernel_space s" "physmap_initialized (zero_frame s f) = physmap_initialized s"
  by (simp_all add: zero_frame_def)

text \<open>An entry change affects only the walks through that entry.\<close>

lemma walk_set_entry:
  assumes ok: "tree_ok s root" and t: "upath p" "walk s root p = Some t"
  shows "upath q \<Longrightarrow> \<not> (\<exists>r. q = p @ i # r) \<Longrightarrow> walk (set_entry s t i e) root q = walk s root q"
proof (induction q rule: rev_induct)
  case (snoc j q)
  have q: "upath q" "\<not> (\<exists>r. q = p @ i # r)" using upath_snoc [OF snoc.prems(1)] snoc.prems(2) by auto
  note IH = snoc.IH [OF q]
  show ?case
  proof (cases "walk s root q")
    case (Some u)
    have "\<not> (u = t \<and> j = i)"
    proof
      assume u: "u = t \<and> j = i"
      then have "q = p" using tree_okD(3) [OF ok q(1) t(1) _ t(2)] Some by simp
      with u snoc.prems(2) show False by simp
    qed
    then have "pm (set_entry s t i e) u j = pm s u j" by auto
    with IH Some show ?thesis by (simp only: walk_snoc option.case)
  qed (use IH in \<open>simp add: walk_snoc\<close>)
qed simp

text \<open>So a leaf entry change affects no walk to a table.\<close>

lemma walk_set_leaf:
  assumes "tree_ok s root" "upath p" "length p = 3" "walk s root p = Some t" "upath q"
  shows "walk (set_entry s t i e) root q = walk s root q"
proof (rule walk_set_entry [OF assms(1,2,4,5)])
  show "\<not> (\<exists>r. q = p @ i # r)" using assms(3,5) by (auto simp: upath_def)
qed

lemma tree_set_leaf:
  assumes "tree_ok s root" "upath p" "length p = 3" "walk s root p = Some t"
  shows "tree_ok (set_entry s t i e) root"
  by (rule tree_okI)
    (use tree_okD [OF assms(1)] walk_set_leaf [OF assms] in \<open>simp_all add: held_table_def\<close>)

text \<open>Memory that is not a table of the space does not matter to it.\<close>

lemma walk_other:
  assumes ok: "tree_ok s root" and same: "\<And>u i p. upath p \<Longrightarrow> length p \<le> 2 \<Longrightarrow> walk s root p = Some u \<Longrightarrow> pm s' u i = pm s u i"
  shows "upath q \<Longrightarrow> walk s' root q = walk s root q"
proof (induction q rule: rev_induct)
  case (snoc j q)
  have q: "upath q" "length q \<le> 2" using upath_snoc [OF snoc.prems(1)] snoc.prems(1) by (auto simp: upath_def)
  show ?case
  proof (cases "walk s root q")
    case (Some u)
    with same [OF q Some] snoc.IH [OF q(1)] show ?thesis by (simp add: walk_snoc)
  qed (use snoc.IH [OF q(1)] in \<open>simp add: walk_snoc\<close>)
qed simp

subsection \<open>Frames from the allocator\<close>

lemma mask_frame:
  assumes "n < 2 ^ 40"
  shows "(of_nat n * 4096 :: u64) AND ADDRESS_MASK = of_nat n * 4096" "frame_no (of_nat n * 4096) = n"
proof -
  have m: "ADDRESS_MASK = push_bit 12 (mask 40)" by (simp add: ADDRESS_MASK_def mask_eq_exp_minus_1)
  have "(of_nat n * 4096 :: u64) = push_bit 12 (of_nat n)" by (simp add: push_bit_eq_mult)
  moreover have "(of_nat n :: u64) AND mask 40 = of_nat n"
    using assms unat_of_nat64 [of n]
    by (simp add: take_bit_eq_mask [symmetric] word_unat_eq_iff unsigned_take_bit_eq take_bit_nat_eq_self)
  ultimately show "(of_nat n * 4096 :: u64) AND ADDRESS_MASK = of_nat n * 4096"
    unfolding m by (simp add: push_bit_and [symmetric])
  show "frame_no (of_nat n * 4096) = n" using frame_addr [OF assms] by (simp add: frame_no_def unat_div)
qed

lemma alloc_page_addr:
  assumes "pmm_ready p" "pmm_alloc_frame p = Some (p', a)" "a \<noteq> 0"
  obtains n where "n < 2 ^ 40" "a = of_nat n * 4096"
proof -
  have r: "pmm_inv p" "g_sectioned p" using assms(1) by (simp_all add: pmm_ready_def)
  then have res: "alloc_result p ones64 p' a"
    using alloc_frame_sectioned [OF r, of ones64] assms(2) by (simp add: pmm_alloc_frame_def)
  define n where "n = unat a div 4096"
  have "unat a = n * 4096" "n \<in> free_set p"
    using res assms(3) by (simp_all add: alloc_result_def claimed_def Let_def n_def)
  moreover have "secs_ok p" using r(1) by (simp add: pmm_inv_def)
  ultimately have n: "n < 2 ^ 40" using free_frame_bound by blast
  moreover have "a = of_nat n * 4096" using \<open>unat a = n * 4096\<close> frame_addr [OF n] by (simp add: word_unat_eq_iff)
  ultimately show ?thesis by (rule that)
qed

lemma get_frame_spec:
  assumes r: "pmm_ready (frames s)" and g: "get_frame s = (s', a)" and a: "a \<noteq> 0"
  shows "pmm_ready (frames s')" "pm s' = pm s" "kernel_space s' = kernel_space s" "physmap_initialized s' = physmap_initialized s"
    "a AND ADDRESS_MASK = a" "frame_no a \<in> free_set (frames s)" "free_set (frames s') = free_set (frames s) - {frame_no a}"
    "pmm_managed (frames s') = pmm_managed (frames s)"
proof -
  obtain p where p: "pmm_alloc_frame (frames s) = Some (p, a)" "s' = s\<lparr>frames := p\<rparr>"
    using g a by (auto simp: get_frame_def split: option.splits)
  then have t: "pmm_take (frames s) = Some (p, unat a div 4096)" using a by (simp add: pmm_take_def)
  have f: "frame_no a = unat a div 4096" by (simp add: frame_no_def unat_div)
  show "pmm_ready (frames s')" "frame_no a \<in> free_set (frames s)" "free_set (frames s') = free_set (frames s) - {frame_no a}"
    "pmm_managed (frames s') = pmm_managed (frames s)"
    using pmm_alloc.alloc_Some [OF r t] p(2) f by simp_all
  show "pm s' = pm s" "kernel_space s' = kernel_space s" "physmap_initialized s' = physmap_initialized s" using p(2) by simp_all
  show "a AND ADDRESS_MASK = a" by (rule alloc_page_addr [OF r p(1) a]) (simp add: mask_frame(1))
qed

lemma get_frame_fail:
  assumes g: "get_frame s = (s', 0)" and r: "pmm_ready (frames s)"
  shows "s' = s"
proof -
  have i: "pmm_inv (frames s)" "g_sectioned (frames s)" using r by (simp_all add: pmm_ready_def)
  obtain p a where p: "pmm_alloc_frame (frames s) = Some (p, a)" "alloc_result (frames s) ones64 p a"
    using alloc_frame_sectioned [OF i, of ones64] unfolding pmm_alloc_frame_def by blast
  with g have "a = 0" "s' = s\<lparr>frames := p\<rparr>" by (simp_all add: get_frame_def)
  with p(2) show ?thesis by (simp add: alloc_result_def)
qed

text \<open>A frame taken from the allocator is none of the tables.\<close>

lemma fresh_not_table:
  assumes "tree_ok s root" "frame_no a \<in> free_set (frames s)" "upath p" "walk s root p = Some t"
  shows "t \<noteq> a"
  using tree_okD(2) [OF assms(1,3,4)] assms(2) by (auto simp: held_table_def)

lemma tree_get_frame:
  assumes ok: "tree_ok s root" and g: "get_frame s = (s', a)" and a: "a \<noteq> 0"
  shows "tree_ok s' root" "tree_ok (zero_frame s' a) root" "upath p \<Longrightarrow> walk (zero_frame s' a) root p = walk s root p"
proof -
  note f = get_frame_spec [OF tree_okD(1) [OF ok] g a]
  have w: "walk s' root p = walk s root p" for p by (rule walk_pm [OF f(2)])
  show "tree_ok s' root"
    by (rule tree_okI) (use tree_okD [OF ok] f in \<open>simp_all add: w held_table_def\<close>)
  have w': "walk (zero_frame s' a) root p = walk s root p" if "upath p" for p
    by (rule walk_other [OF ok _ that]) (use fresh_not_table [OF ok f(6)] f(2) in auto)
  then show "upath p \<Longrightarrow> walk (zero_frame s' a) root p = walk s root p" .
  show "tree_ok (zero_frame s' a) root"
    by (rule tree_okI) (use tree_okD [OF ok] f in \<open>simp_all add: w' held_table_def\<close>)
qed

subsection \<open>Leaf entries\<close>

definition table_path :: "u64 \<Rightarrow> nat list" where
  "table_path va = [pml4_i va, pdpt_i va, pdt_i va]"

definition user_va :: "u64 \<Rightarrow> bool" where
  "user_va va \<longleftrightarrow> va < VMM_USER_TOP"

text \<open>The leaf entry of an address; a missing table counts as an empty one.\<close>

definition pte :: "vmm \<Rightarrow> u64 \<Rightarrow> u64 \<Rightarrow> u64" where
  "pte s root va = (case walk s root (table_path va) of None \<Rightarrow> 0 | Some t \<Rightarrow> pm s t (pt_i va))"

lemma index_bits: "unat (drop_bit k va AND 0x1FF) = unat va div 2 ^ k mod 512" for va :: u64
proof -
  have "drop_bit k va AND 0x1FF = take_bit 9 (drop_bit k va)"
    using take_bit_eq_mask [of 9 "drop_bit k va"] by (simp add: mask_eq_exp_minus_1)
  then show ?thesis by (simp add: unsigned_take_bit_eq unat_drop_bit64) (simp add: take_bit_eq_mod)
qed

lemma upath_user: "user_va va \<Longrightarrow> upath (table_path va)"
proof -
  assume "user_va va"
  then have "unat va < 2 ^ 47" by (simp add: user_va_def VMM_USER_TOP_def word_less_nat_alt)
  then have "unat va div 2 ^ 39 < 256" by (simp add: div_less_iff_less_mult)
  moreover have "unat va div 2 ^ 39 mod 512 \<le> unat va div 2 ^ 39" by (rule mod_less_eq_dividend)
  ultimately have "pml4_i va < 256" unfolding pml4_i_def index_bits by linarith
  then show ?thesis by (simp add: upath_def table_path_def)
qed

text \<open>User addresses with the same indices lie on the same page.\<close>

lemma same_page:
  assumes "user_va va" "user_va vb" "table_path va = table_path vb" "pt_i va = pt_i vb"
  shows "unat va div 4096 = unat vb div 4096"
proof -
  define x y where "x = unat va" and "y = unat vb"
  have lt: "x < 2 ^ 47" "y < 2 ^ 47"
    using assms(1,2) by (simp_all add: user_va_def VMM_USER_TOP_def word_less_nat_alt x_def y_def)
  have i: "x div 2 ^ 39 mod 512 = y div 2 ^ 39 mod 512" "x div 2 ^ 30 mod 512 = y div 2 ^ 30 mod 512"
    "x div 2 ^ 21 mod 512 = y div 2 ^ 21 mod 512" "x div 2 ^ 12 mod 512 = y div 2 ^ 12 mod 512"
    using assms(3,4) unfolding table_path_def pml4_i_def pdpt_i_def pdt_i_def pt_i_def index_bits x_def y_def by simp_all
  have d: "n div 2 ^ 12 = n div 2 ^ 12 mod 512 + 512 * (n div 2 ^ 21 mod 512 + 512 * (n div 2 ^ 30 mod 512 + 512 * (n div 2 ^ 39)))" for n :: nat
  proof -
    have "n div 2 ^ 21 = n div 2 ^ 12 div 512" "n div 2 ^ 30 = n div 2 ^ 21 div 512" "n div 2 ^ 39 = n div 2 ^ 30 div 512"
      by (simp_all add: div_mult2_eq [symmetric])
    then show ?thesis using mod_mult_div_eq [of _ 512] by (metis add.commute mod_mult_div_eq)
  qed
  have "x div 2 ^ 39 < 512" "y div 2 ^ 39 < 512" using lt by (simp_all add: div_less_iff_less_mult)
  then have "x div 2 ^ 39 = y div 2 ^ 39" using i(1) by simp
  then have "x div 2 ^ 12 = y div 2 ^ 12" using d [of x] d [of y] i by simp
  then show ?thesis by (simp add: x_def y_def)
qed

lemma same_page_indices:
  assumes "unat vb div 4096 = unat va div 4096"
  shows "table_path vb = table_path va" "pt_i vb = pt_i va"
proof -
  have "unat vb div 2 ^ k = unat va div 2 ^ k" if "12 \<le> k" for k
  proof -
    have "(2 :: nat) ^ k = 4096 * 2 ^ (k - 12)" using that power_add [of "2 :: nat" 12 "k - 12"] by simp
    then show ?thesis using assms by (simp add: div_mult2_eq)
  qed
  from this [of 39] this [of 30] this [of 21] this [of 12] show "table_path vb = table_path va" "pt_i vb = pt_i va"
    unfolding table_path_def pml4_i_def pdpt_i_def pdt_i_def pt_i_def index_bits by simp_all
qed

text \<open>What building tables keeps: all leaf entries of the user half.\<close>

definition builds :: "vmm \<Rightarrow> u64 \<Rightarrow> vmm \<Rightarrow> bool" where
  "builds s root s' \<longleftrightarrow> tree_ok s' root
     \<and> free_set (frames s') \<subseteq> free_set (frames s) \<and> pmm_managed (frames s') = pmm_managed (frames s)
     \<and> kernel_space s' = kernel_space s \<and> physmap_initialized s' = physmap_initialized s
     \<and> (\<forall>va. user_va va \<longrightarrow> pte s' root va = pte s root va)
     \<and> (\<forall>a i. frame_no a \<notin> free_set (frames s) \<and> (\<forall>p. upath p \<and> length p \<le> 2 \<longrightarrow> walk s root p \<noteq> Some a) \<longrightarrow> pm s' a i = pm s a i)
     \<and> (\<forall>p t. upath p \<and> walk s root p = Some t \<longrightarrow> walk s' root p = Some t)
     \<and> (\<forall>p t. upath p \<and> walk s' root p = Some t \<longrightarrow> walk s root p = Some t \<or> frame_no t \<in> free_set (frames s))"

lemma buildsD:
  assumes "builds s root s'"
  shows "tree_ok s' root" "free_set (frames s') \<subseteq> free_set (frames s)" "pmm_managed (frames s') = pmm_managed (frames s)"
    "kernel_space s' = kernel_space s" "physmap_initialized s' = physmap_initialized s"
    "user_va va \<Longrightarrow> pte s' root va = pte s root va"
    "frame_no a \<notin> free_set (frames s) \<Longrightarrow> (\<And>p. upath p \<Longrightarrow> length p \<le> 2 \<Longrightarrow> walk s root p \<noteq> Some a) \<Longrightarrow> pm s' a i = pm s a i"
    "upath p \<Longrightarrow> walk s root p = Some t \<Longrightarrow> walk s' root p = Some t"
    "upath p \<Longrightarrow> walk s' root p = Some t \<Longrightarrow> walk s root p = Some t \<or> frame_no t \<in> free_set (frames s)"
  using assms unfolding builds_def by blast+

lemma buildsI:
  assumes "tree_ok s' root" "free_set (frames s') \<subseteq> free_set (frames s)" "pmm_managed (frames s') = pmm_managed (frames s)"
    "kernel_space s' = kernel_space s" "physmap_initialized s' = physmap_initialized s"
    "\<And>va. user_va va \<Longrightarrow> pte s' root va = pte s root va"
    "\<And>a i. frame_no a \<notin> free_set (frames s) \<Longrightarrow> (\<And>p. upath p \<Longrightarrow> length p \<le> 2 \<Longrightarrow> walk s root p \<noteq> Some a) \<Longrightarrow> pm s' a i = pm s a i"
    "\<And>p t. upath p \<Longrightarrow> walk s root p = Some t \<Longrightarrow> walk s' root p = Some t"
    "\<And>p t. upath p \<Longrightarrow> walk s' root p = Some t \<Longrightarrow> walk s root p = Some t \<or> frame_no t \<in> free_set (frames s)"
  shows "builds s root s'"
  using assms unfolding builds_def by blast

lemma builds_refl: "tree_ok s root \<Longrightarrow> builds s root s"
  by (rule buildsI) auto

lemma builds_trans:
  assumes a: "builds s root s1" and b: "builds s1 root s2"
  shows "builds s root s2"
proof (rule buildsI)
  show "tree_ok s2 root" "free_set (frames s2) \<subseteq> free_set (frames s)" "pmm_managed (frames s2) = pmm_managed (frames s)"
    "kernel_space s2 = kernel_space s" "physmap_initialized s2 = physmap_initialized s"
    using buildsD(1-5) [OF a] buildsD(1-5) [OF b] by auto
  show "pte s2 root va = pte s root va" if "user_va va" for va using buildsD(6) [OF a that] buildsD(6) [OF b that] by simp
  show "walk s2 root p = Some t" if "upath p" "walk s root p = Some t" for p t using buildsD(8) [OF b that(1) buildsD(8) [OF a that]] .
  show "walk s root p = Some t \<or> frame_no t \<in> free_set (frames s)" if "upath p" "walk s2 root p = Some t" for p t
    using buildsD(9) [OF b that] buildsD(9) [OF a that(1)] buildsD(2) [OF a] by blast
  show "pm s2 x i = pm s x i" if x: "frame_no x \<notin> free_set (frames s)" "\<And>p. upath p \<Longrightarrow> length p \<le> 2 \<Longrightarrow> walk s root p \<noteq> Some x" for x i
  proof -
    have "walk s1 root p \<noteq> Some x" if "upath p" "length p \<le> 2" for p using buildsD(9) [OF a that(1)] x that by blast
    then have "pm s2 x i = pm s1 x i" using buildsD(7) [OF b, of x i] buildsD(2) [OF a] x(1) by blast
    with buildsD(7) [OF a x] show ?thesis by simp
  qed
qed

lemma entry_mask:
  assumes "a AND ADDRESS_MASK = a" "x AND ADDRESS_MASK = 0"
  shows "(a OR x) AND ADDRESS_MASK = a"
  using assms by (simp add: bit.conj_disj_distrib2)

lemma has_or: "has (x OR f) f \<longleftrightarrow> f \<noteq> 0"
proof -
  have "(x OR f) AND f = f" by (rule bit_word_eqI) (auto simp: bit_simps)
  then show ?thesis by (simp add: has_def)
qed

lemma table_entry:
  fixes flags :: u64
  assumes "a AND ADDRESS_MASK = a"
  defines "e \<equiv> (a AND ADDRESS_MASK) OR (flags AND (VMM_FLAG_USER OR VMM_FLAG_PWT OR VMM_FLAG_PCD)) OR VMM_FLAG_RW OR VMM_FLAG_PRESENT"
  shows "has e VMM_FLAG_PRESENT" "e AND ADDRESS_MASK = a"
proof -
  have f: "VMM_FLAG_USER AND ADDRESS_MASK = 0" "VMM_FLAG_PWT AND ADDRESS_MASK = 0" "VMM_FLAG_PCD AND ADDRESS_MASK = 0"
    "VMM_FLAG_RW AND ADDRESS_MASK = 0" "VMM_FLAG_PRESENT AND ADDRESS_MASK = 0" by (simp_all add: flag_defs)
  have "e = a OR ((flags AND (VMM_FLAG_USER OR VMM_FLAG_PWT OR VMM_FLAG_PCD)) OR (VMM_FLAG_RW OR VMM_FLAG_PRESENT))"
    unfolding e_def assms(1) by (simp only: or.assoc)
  moreover have "((flags AND (VMM_FLAG_USER OR VMM_FLAG_PWT OR VMM_FLAG_PCD)) OR (VMM_FLAG_RW OR VMM_FLAG_PRESENT)) AND ADDRESS_MASK = 0"
    unfolding bit.conj_disj_distrib2 and.assoc f by simp
  ultimately show "e AND ADDRESS_MASK = a" using entry_mask [OF assms(1)] by metis
  show "has e VMM_FLAG_PRESENT" unfolding e_def or.assoc [symmetric] has_or by (simp add: VMM_FLAG_PRESENT_def)
qed

text \<open>Linking a fresh, empty table into an absent entry.\<close>

lemma link_table:
  assumes ok: "tree_ok s root" and p: "upath p" "length p \<le> 2" "walk s root p = Some t" "upath (p @ [i])"
    and absent: "\<not> has (pm s t i) VMM_FLAG_PRESENT" and g: "get_frame s = (s1, a)" "a \<noteq> 0"
    and e: "has e VMM_FLAG_PRESENT" "e AND ADDRESS_MASK = a"
  shows "builds s root (set_entry (zero_frame s1 a) t i e)" (is "builds s root ?s'")
    and "walk (set_entry (zero_frame s1 a) t i e) root (p @ [i]) = Some a"
proof -
  note f = get_frame_spec [OF tree_okD(1) [OF ok] g] and T = tree_get_frame [OF ok g]
  have at: "t \<noteq> a" by (rule fresh_not_table [OF ok f(6) p(1,3)])
  have tz: "walk (zero_frame s1 a) root p = Some t" using T(3) [OF p(1)] p(3) by simp
  have wo: "walk ?s' root q = walk s root q" if "upath q" "\<not> (\<exists>r. q = p @ i # r)" for q
    using walk_set_entry [OF T(2) p(1) tz that] T(3) [OF that(1)] by simp
  have wp: "walk ?s' root p = Some t" using wo [OF p(1)] p(3) by simp
  have none: "walk s root (p @ i # r) = None" for r using p(3) absent by (simp add: walk_append)
  show new: "walk ?s' root (p @ [i]) = Some a" using wp e by (simp add: walk_snoc)
  have pz: "pm ?s' a j = 0" for j using at by simp
  have deep: "walk ?s' root (p @ i # r) = (if r = [] then Some a else None)" for r
  proof (cases r)
    case (Cons j r')
    have "walk ?s' root ((p @ [i]) @ j # r') = None" unfolding walk_append [of _ _ "p @ [i]"] new
      using pz [of j] by (simp add: has_def del: set_entry_simps)
    with Cons show ?thesis by simp
  qed (use new in simp)
  have w: "walk ?s' root q = Some u \<longleftrightarrow> walk s root q = Some u \<or> q = p @ [i] \<and> u = a" if "upath q" for q u
  proof (cases "\<exists>r. q = p @ i # r")
    case True
    then obtain r where q: "q = p @ i # r" by blast
    show ?thesis unfolding q deep none by auto
  next
    case False
    then show ?thesis using wo [OF that] by auto
  qed
  have fr: "frames ?s' = frames s1" by simp
  show "builds s root ?s'"
  proof (rule buildsI)
    show "tree_ok ?s' root"
    proof (rule tree_okI)
      show "pmm_ready (frames ?s')" using f(1) fr by simp
      show "held_table ?s' u" if "upath q" "walk ?s' root q = Some u" for q u
        using that w [OF that(1)] tree_okD(2) [OF ok that(1)] f(5,7) fr unfolding held_table_def by auto
      show "q = q'" if "upath q" "upath q'" "walk ?s' root q = Some u" "walk ?s' root q' = Some u" for q q' u
        using that w [OF that(1)] w [OF that(2)] tree_okD(3) [OF ok that(1,2)] fresh_not_table [OF ok f(6)] by metis
    qed
    show "free_set (frames ?s') \<subseteq> free_set (frames s)" "pmm_managed (frames ?s') = pmm_managed (frames s)" using f(7,8) fr by auto
    show "kernel_space ?s' = kernel_space s" "physmap_initialized ?s' = physmap_initialized s" using f(3,4) by simp_all
    show "pte ?s' root va = pte s root va" if va: "user_va va" for va
    proof (cases "walk s root (table_path va)")
      case None
      then have "walk ?s' root (table_path va) = None \<or> walk ?s' root (table_path va) = Some a"
        using w [OF upath_user [OF va]] by (cases "walk ?s' root (table_path va)") auto
      with None pz show ?thesis by (auto simp: pte_def)
    next
      case (Some u)
      then have "walk ?s' root (table_path va) = Some u" using w [OF upath_user [OF va]] by blast
      moreover have "u \<noteq> t" "u \<noteq> a" using tree_okD(3) [OF ok upath_user [OF va] p(1) Some] p(2,3) fresh_not_table [OF ok f(6) upath_user [OF va] Some]
        by (auto simp: table_path_def)
      ultimately show ?thesis using Some f(2) by (simp add: pte_def)
    qed
    show "pm ?s' x j = pm s x j" if "frame_no x \<notin> free_set (frames s)" "\<And>p. upath p \<Longrightarrow> length p \<le> 2 \<Longrightarrow> walk s root p \<noteq> Some x" for x j
      using that p f(2,6) by auto
    show "walk ?s' root q = Some u" if "upath q" "walk s root q = Some u" for q u using that w by blast
    show "walk s root q = Some u \<or> frame_no u \<in> free_set (frames s)" if "upath q" "walk ?s' root q = Some u" for q u
      using that w f(6) by blast
  qed
qed

lemma next_table_builds:
  assumes ok: "tree_ok s root" and p: "upath p" "length p \<le> 2" "walk s root p = Some t" "upath (p @ [i])"
    and n: "next_table s t i create flags = (s', r)"
  shows "builds s root s'" "\<And>u. r = Some u \<Longrightarrow> walk s' root (p @ [i]) = Some u"
    "\<not> create \<Longrightarrow> s' = s \<and> r = walk s root (p @ [i])"
proof -
  have "builds s root s' \<and> (\<forall>u. r = Some u \<longrightarrow> walk s' root (p @ [i]) = Some u) \<and> (\<not> create \<longrightarrow> s' = s \<and> r = walk s root (p @ [i]))"
  proof (cases "has (pm s t i) VMM_FLAG_PRESENT \<or> \<not> create")
    case True
    with n p(3) builds_refl [OF ok] show ?thesis by (auto simp: next_table_def walk_snoc split: if_splits)
  next
    case False
    then have a: "\<not> has (pm s t i) VMM_FLAG_PRESENT" by blast
    obtain s1 a' where g: "get_frame s = (s1, a')" by force
    show ?thesis
    proof (cases "a' = 0")
      case True
      with n False g get_frame_fail [of s s1] tree_okD(1) [OF ok] builds_refl [OF ok] show ?thesis
        by (auto simp: next_table_def get_or_create_table_def)
    next
      case False
      note te = table_entry [OF get_frame_spec(5) [OF tree_okD(1) [OF ok] g False], of flags]
      note l = link_table [OF ok p a g False te]
      have "s' = set_entry (zero_frame s1 a') t i ((a' AND ADDRESS_MASK) OR (flags AND (VMM_FLAG_USER OR VMM_FLAG_PWT OR VMM_FLAG_PCD)) OR VMM_FLAG_RW OR VMM_FLAG_PRESENT)"
        "r = Some a'" "create"
        using n a g False \<open>\<not> (has (pm s t i) VMM_FLAG_PRESENT \<or> \<not> create)\<close> get_frame_spec(5) [OF tree_okD(1) [OF ok] g False]
        by (simp_all add: next_table_def get_or_create_table_def)
      with l show ?thesis by simp
    qed
  qed
  then show "builds s root s'" "\<And>u. r = Some u \<Longrightarrow> walk s' root (p @ [i]) = Some u" "\<not> create \<Longrightarrow> s' = s \<and> r = walk s root (p @ [i])" by blast+
qed

declare walk.simps(2) [simp del]

lemma walk_more: "walk s t p = None \<Longrightarrow> walk s t (p @ q) = None"
  by (simp add: walk_append)

lemma root_masked: "tree_ok s root \<Longrightarrow> root AND ADDRESS_MASK = root"
  using tree_okD(2) [of s root "[]" root] by (simp add: upath_def held_table_def)

lemma get_pt_spec:
  assumes ok: "tree_ok s root" and va: "user_va va" and g: "get_pt_space s root va create flags = (s', r)"
  shows "builds s root s'" "\<And>t. r = Some t \<Longrightarrow> walk s' root (table_path va) = Some t"
    "\<not> create \<Longrightarrow> s' = s \<and> r = walk s root (table_path va)"
proof -
  have u: "upath []" "upath [pml4_i va]" "upath [pml4_i va, pdpt_i va]" "upath [pml4_i va, pdpt_i va, pdt_i va]"
    using upath_user [OF va] by (simp_all add: upath_def table_path_def)
  obtain s1 r1 where n1: "next_table s root (pml4_i va) create flags = (s1, r1)" by force
  note N1 = next_table_builds [OF ok u(1) _ _ _ n1, simplified, OF u(2)]
  have "builds s root s' \<and> (\<forall>t. r = Some t \<longrightarrow> walk s' root (table_path va) = Some t) \<and> (\<not> create \<longrightarrow> s' = s \<and> r = walk s root (table_path va))"
  proof (cases r1)
    case None
    with g n1 have "s' = s1" "r = None" by (simp_all add: get_pt_space_def root_masked [OF ok])
    moreover have "walk s root (table_path va) = None" if "\<not> create"
      using N1(3) [OF that] None walk_more [of s root "[pml4_i va]" "[pdpt_i va, pdt_i va]"] by (simp add: table_path_def)
    ultimately show ?thesis using N1(1,3) by auto
  next
    case (Some t1)
    obtain s2 r2 where n2: "next_table s1 t1 (pdpt_i va) create flags = (s2, r2)" by force
    note N2 = next_table_builds [OF buildsD(1) [OF N1(1)] u(2) _ N1(2) [OF Some] _ n2, simplified, OF u(3)]
    show ?thesis
    proof (cases r2)
      case None
      with g n1 n2 Some have "s' = s2" "r = None" by (simp_all add: get_pt_space_def root_masked [OF ok])
      moreover have "walk s root (table_path va) = None" if "\<not> create"
        using N1(3) [OF that] N2(3) [OF that] None walk_more [of s root "[pml4_i va, pdpt_i va]" "[pdt_i va]"] by (simp add: table_path_def)
      ultimately show ?thesis using N1(3) N2(3) builds_trans [OF N1(1) N2(1)] by auto
    next
      case (Some t2)
      with g n1 n2 \<open>r1 = Some t1\<close> have n3: "next_table s2 t2 (pdt_i va) create flags = (s', r)"
        by (simp add: get_pt_space_def root_masked [OF ok])
      note N3 = next_table_builds [OF buildsD(1) [OF N2(1)] u(3) _ N2(2) [OF Some] _ n3, simplified, OF u(4)]
      show ?thesis using builds_trans [OF builds_trans [OF N1(1) N2(1)] N3(1)] N1(3) N2(3) N3(2,3) by (auto simp: table_path_def)
    qed
  qed
  then show "builds s root s'" "\<And>t. r = Some t \<Longrightarrow> walk s' root (table_path va) = Some t"
    "\<not> create \<Longrightarrow> s' = s \<and> r = walk s root (table_path va)" by blast+
qed

subsection \<open>Leaf entry changes\<close>

text \<open>Setting the leaf entry of a user address changes that page's entry and no other.\<close>

lemma set_leaf_pte:
  assumes ok: "tree_ok s root" and va: "user_va va" and t: "walk s root (table_path va) = Some t"
  shows "tree_ok (set_entry s t (pt_i va) e) root"
    "user_va vb \<Longrightarrow> pte (set_entry s t (pt_i va) e) root vb = (if unat vb div 4096 = unat va div 4096 then e else pte s root vb)"
proof -
  have u: "upath (table_path va)" "length (table_path va) = 3" using upath_user [OF va] by (simp_all add: table_path_def)
  show "tree_ok (set_entry s t (pt_i va) e) root" by (rule tree_set_leaf [OF ok u t])
  assume vb: "user_va vb"
  have w: "walk (set_entry s t (pt_i va) e) root (table_path vb) = walk s root (table_path vb)"
    by (rule walk_set_leaf [OF ok u t upath_user [OF vb]])
  show "pte (set_entry s t (pt_i va) e) root vb = (if unat vb div 4096 = unat va div 4096 then e else pte s root vb)"
  proof (cases "unat vb div 4096 = unat va div 4096")
    case True
    note i = same_page_indices [OF True]
    show ?thesis unfolding if_P [OF True] unfolding pte_def i w [unfolded i] t by simp
  next
    case False
    then have "\<not> (table_path vb = table_path va \<and> pt_i vb = pt_i va)" using same_page [OF vb va] by blast
    moreover have "table_path vb = table_path va" if "walk s root (table_path vb) = Some t"
      using tree_okD(3) [OF ok upath_user [OF vb] u(1) that t] .
    ultimately show ?thesis using False w by (auto simp: pte_def split: option.splits)
  qed
qed

text \<open>The state after the leaf entry of one page was set, possibly after building tables.\<close>

definition leaf_set :: "vmm \<Rightarrow> u64 \<Rightarrow> u64 \<Rightarrow> u64 \<Rightarrow> vmm \<Rightarrow> bool" where
  "leaf_set s root va e s' \<longleftrightarrow> tree_ok s' root
     \<and> (\<forall>vb. user_va vb \<longrightarrow> pte s' root vb = (if unat vb div 4096 = unat va div 4096 then e else pte s root vb))
     \<and> (\<forall>a. frame_no a \<notin> free_set (frames s) \<and> (\<forall>p. upath p \<longrightarrow> walk s root p \<noteq> Some a) \<longrightarrow> pm s' a = pm s a)"

lemma leaf_setD:
  assumes "leaf_set s root va e s'"
  shows "tree_ok s' root" "user_va vb \<Longrightarrow> pte s' root vb = (if unat vb div 4096 = unat va div 4096 then e else pte s root vb)"
    "frame_no a \<notin> free_set (frames s) \<Longrightarrow> (\<And>p. upath p \<Longrightarrow> walk s root p \<noteq> Some a) \<Longrightarrow> pm s' a = pm s a"
  using assms unfolding leaf_set_def by blast+

text \<open>Building tables and then setting the leaf entry in the table found.\<close>

lemma leaf_setI:
  assumes b: "builds s root s1" and va: "user_va va" and t: "walk s1 root (table_path va) = Some t"
  shows "leaf_set s root va e (set_entry s1 t (pt_i va) e)"
  unfolding leaf_set_def
proof (intro conjI allI impI)
  note S = set_leaf_pte [OF buildsD(1) [OF b] va t]
  show "tree_ok (set_entry s1 t (pt_i va) e) root" by (rule S(1))
  show "pte (set_entry s1 t (pt_i va) e) root vb = (if unat vb div 4096 = unat va div 4096 then e else pte s root vb)" if "user_va vb" for vb
    using S(2) [OF that] buildsD(6) [OF b that] by simp
  fix a assume a: "frame_no a \<notin> free_set (frames s) \<and> (\<forall>p. upath p \<longrightarrow> walk s root p \<noteq> Some a)"
  then have "t \<noteq> a" using buildsD(9) [OF b upath_user [OF va] t] upath_user [OF va] by auto
  moreover have "pm s1 a = pm s a" using buildsD(7) [OF b] a by blast
  ultimately show "pm (set_entry s1 t (pt_i va) e) a = pm s a" by simp
qed

lemma shootdown_simps [simp]:
  "pm (tlb_shootdown s sp v n) = pm s" "frames (tlb_shootdown s sp v n) = frames s"
  "kernel_space (tlb_shootdown s sp v n) = kernel_space s" "physmap_initialized (tlb_shootdown s sp v n) = physmap_initialized s"
  by (simp_all add: tlb_shootdown_def)

lemma walk_same_pm [simp]:
  "walk (s\<lparr>frames := p\<rparr>) root q = walk s root q" "walk (tlb_shootdown s sp v n) root q = walk s root q"
  by (rule walk_pm, simp)+

lemma pte_same_pm [simp]: "pte (s\<lparr>frames := p\<rparr>) root va = pte s root va" "pte (tlb_shootdown s sp v n) root va = pte s root va"
  unfolding pte_def by (simp_all split: option.splits)

lemma tree_shootdown [simp]: "tree_ok (tlb_shootdown s sp v n) root = tree_ok s root"
  unfolding tree_ok_def held_table_def by simp

lemma map_in_space_cases:
  assumes ok: "tree_ok s root" and va: "user_va va" and m: "vmm_map_in_space s root va phys flags = (s', r)"
  shows "if r = 0 then leaf_set s root va ((phys AND ADDRESS_MASK) OR (flags AND NOT VMM_FLAG_PS) OR VMM_FLAG_PRESENT) s'
       \<and> va AND 0xFFF = 0 \<and> phys AND 0xFFF = 0 \<and> \<not> wx_request flags \<and> \<not> vmm_pte_has_frame (pte s root va) \<and> \<not> has flags VMM_FLAG_PROTNONE
     else builds s root s'"
proof (cases "va AND 0xFFF \<noteq> 0 \<or> phys AND 0xFFF \<noteq> 0 \<or> wx_request flags \<or> has flags VMM_FLAG_USER \<and> va \<ge> 0xFFFF800000000000")
  case True
  with m have "r \<noteq> 0 \<and> s' = s" by (auto simp: vmm_map_in_space_def split: if_splits)
  with builds_refl [OF ok] show ?thesis by simp
next
  case False
  obtain s1 p where g: "get_pt_space s root va True flags = (s1, p)" by force
  note G = get_pt_spec [OF ok va g]
  show ?thesis
  proof (cases p)
    case None
    with False m g G(1) show ?thesis by (auto simp: vmm_map_in_space_def)
  next
    case (Some t)
    have e: "pm s1 t (pt_i va) = pte s root va" using buildsD(6) [OF G(1) va] G(2) [OF Some] by (simp add: pte_def)
    have r: "(s', r) = (if vmm_pte_has_frame (pte s root va) then (s1, -3) else if has flags VMM_FLAG_PROTNONE then (s1, -1)
        else (set_entry s1 t (pt_i va) ((phys AND ADDRESS_MASK) OR (flags AND NOT VMM_FLAG_PS) OR VMM_FLAG_PRESENT), 0))"
      using False m g Some unfolding vmm_map_in_space_def e [symmetric] by (auto split: if_splits)
    show ?thesis using r False G(1) leaf_setI [OF G(1) va G(2) [OF Some]] by (auto split: if_splits)
  qed
qed

lemma unmap_in_space_cases:
  assumes ok: "tree_ok s root" and m: "vmm_unmap_in_space s root va = (s', r)"
  shows "if r = 0 then user_va va \<and> va AND 0xFFF = 0 \<and> vmm_pte_has_frame (pte s root va)
       \<and> (\<exists>s1. leaf_set s root va 0 s1 \<and> frames s1 = frames s
            \<and> s' = (if has (pte s root va) VMM_FLAG_DEVICE then s1 else drop_frame s1 (pte s root va AND ADDRESS_MASK)))
     else s' = s"
proof (cases "va AND 0xFFF \<noteq> 0 \<or> va \<ge> VMM_USER_TOP")
  case True
  with m show ?thesis by (auto simp: vmm_unmap_in_space_def)
next
  case False
  then have va: "user_va va" by (simp add: user_va_def not_le)
  obtain s1 p where g: "get_pt_space s root va False 0 = (s1, p)" by force
  have G: "s1 = s" "p = walk s root (table_path va)" using get_pt_spec(3) [OF ok va g] by simp_all
  show ?thesis
  proof (cases p)
    case None
    with False m g G show ?thesis by (auto simp: vmm_unmap_in_space_def)
  next
    case (Some t)
    then have t: "walk s root (table_path va) = Some t" and gs: "get_pt_space s root va False 0 = (s, Some t)" using G g by simp_all
    have e: "pm s t (pt_i va) = pte s root va" using t by (simp add: pte_def)
    show ?thesis
    proof (cases "vmm_pte_has_frame (pte s root va)")
      case True
      let ?s1 = "tlb_shootdown (set_entry s t (pt_i va) 0) (Some root) va 1"
      have "leaf_set s root va 0 ?s1" "frames ?s1 = frames s" using leaf_setI [OF builds_refl [OF ok] va t] by (simp_all add: leaf_set_def)
      moreover have "r = 0" "s' = (if has (pte s root va) VMM_FLAG_DEVICE then ?s1 else drop_frame ?s1 (pte s root va AND ADDRESS_MASK))"
        using True False m gs by (auto simp: vmm_unmap_in_space_def e Let_def split: if_splits)
      ultimately show ?thesis using True False va by auto
    next
      case False
      then show ?thesis using \<open>\<not> (va AND 0xFFF \<noteq> 0 \<or> va \<ge> VMM_USER_TOP)\<close> m gs by (auto simp: vmm_unmap_in_space_def e)
    qed
  qed
qed

lemma protect_in_space_cases:
  assumes ok: "tree_ok s root" and m: "vmm_protect_in_space s root va flags = (s', r)"
  shows "if r = 0 then user_va va \<and> va AND 0xFFF = 0 \<and> \<not> wx_request flags \<and> vmm_pte_has_frame (pte s root va)
       \<and> leaf_set s root va (protect_entry (pte s root va) flags (pmm_frame_shared (frames s) (pte s root va AND ADDRESS_MASK))) s'
       \<and> frames s' = frames s
     else s' = s"
proof (cases "va AND 0xFFF \<noteq> 0 \<or> va \<ge> VMM_USER_TOP \<or> wx_request flags")
  case True
  with m show ?thesis by (auto simp: vmm_protect_in_space_def split: if_splits)
next
  case False
  then have va: "user_va va" by (simp add: user_va_def not_le)
  obtain s1 p where g: "get_pt_space s root va False 0 = (s1, p)" by force
  have G: "s1 = s" "p = walk s root (table_path va)" using get_pt_spec(3) [OF ok va g] by simp_all
  show ?thesis
  proof (cases p)
    case None
    with False m g G show ?thesis by (auto simp: vmm_protect_in_space_def)
  next
    case (Some t)
    then have t: "walk s root (table_path va) = Some t" and gs: "get_pt_space s root va False 0 = (s, Some t)" using G g by simp_all
    have e: "pm s t (pt_i va) = pte s root va" using t by (simp add: pte_def)
    show ?thesis using False m gs va leaf_setI [OF builds_refl [OF ok] va t]
      by (auto simp: vmm_protect_in_space_def e Let_def leaf_set_def split: if_splits)
  qed
qed

subsection \<open>Translation\<close>

text \<open>Through tables without large pages the translation is the frame of the leaf entry.\<close>

lemma translate_pte:
  assumes ok: "tree_ok s root" and va: "user_va va" and on: "physmap_initialized s"
    and small: "\<And>t. walk s root [pml4_i va] = Some t \<Longrightarrow> \<not> has (pm s t (pdpt_i va)) VMM_FLAG_PS"
      "\<And>t. walk s root [pml4_i va, pdpt_i va] = Some t \<Longrightarrow> \<not> has (pm s t (pdt_i va)) VMM_FLAG_PS"
  shows "vmm_translate_in_space s root va =
    (if has (pte s root va) VMM_FLAG_PRESENT then (pte s root va AND ADDRESS_MASK) OR (va AND 0xFFF) else 0)"
proof -
  have z: "\<not> has 0 VMM_FLAG_PRESENT" by (simp add: has_def)
  show ?thesis
    using small on z unfolding vmm_translate_in_space_def vmm_walk_translate_def root_masked [OF ok] pte_def table_path_def
    by (auto simp: walk.simps Let_def)
qed

end
