(* ===== verification/Vmm_Safe.thy ===== *)
theory Vmm_Safe
  imports Vmm_Tree
begin

text \<open>
  What the page-table operations of mm/vmm.c guarantee: exact effect on the leaf entries of a
  space, no page both writable and executable, and no writable entry for a frame that is
  shared copy-on-write.
\<close>

lemma flag_bits:
  "VMM_FLAG_PRESENT = push_bit 0 1" "VMM_FLAG_RW = push_bit 1 1" "VMM_FLAG_USER = push_bit 2 1" "VMM_FLAG_PWT = push_bit 3 1"
  "VMM_FLAG_PCD = push_bit 4 1" "VMM_FLAG_PS = push_bit 7 1" "VMM_FLAG_COW = push_bit 9 1" "VMM_FLAG_PROTNONE = push_bit 10 1"
  "VMM_FLAG_DEVICE = push_bit 11 1" "VMM_FLAG_NOEXEC = push_bit 63 1"
  by (simp_all add: flag_defs)

lemma has_bit:
  "has e VMM_FLAG_PRESENT \<longleftrightarrow> bit e 0" "has e VMM_FLAG_RW \<longleftrightarrow> bit e 1" "has e VMM_FLAG_COW \<longleftrightarrow> bit e 9"
  "has e VMM_FLAG_PROTNONE \<longleftrightarrow> bit e 10" "has e VMM_FLAG_DEVICE \<longleftrightarrow> bit e 11" "has e VMM_FLAG_NOEXEC \<longleftrightarrow> bit e 63"
  "has e VMM_FLAG_USER \<longleftrightarrow> bit e 2"
  unfolding has_def flag_bits by (rule and_push_bit)+

lemma bit_address_mask: "bit ADDRESS_MASK n \<longleftrightarrow> 12 \<le> n \<and> n < 52"
proof -
  have m: "ADDRESS_MASK = push_bit 12 (mask 40)" by (simp add: ADDRESS_MASK_def mask_eq_exp_minus_1)
  show ?thesis unfolding m by (auto simp: bit_simps)
qed

lemma has_frame_bit: "vmm_pte_has_frame e \<longleftrightarrow> bit e 0 \<or> bit e 10"
  using has_bit(1,4) [of e] unfolding vmm_pte_has_frame_def bit.conj_disj_distrib or_eq_0_iff has_def by blast

lemmas entry_bits = bit_or_iff bit_and_iff bit_not_iff bit_address_mask bit_flag flag_bits

text \<open>The entry that a change of protection installs.\<close>

lemma protect_entry_bits:
  fixes old :: u64 and shared :: bool
  assumes "\<not> wx_request flags"
  defines "e \<equiv> protect_entry old flags shared"
  shows "bit e 1 \<Longrightarrow> bit e 63" "bit e 0 \<or> bit e 10" "\<not> (bit e 0 \<and> bit e 10)"
    "bit old 9 \<or> shared \<Longrightarrow> \<not> bit old 11 \<Longrightarrow> \<not> bit e 1"
  using assms(1) unfolding e_def protect_entry_def wx_request_def has_bit Let_def
  by (auto simp: entry_bits split: if_splits)

text \<open>The entry that a mapping installs: the frame, the flags, present.\<close>

definition map_entry :: "u64 \<Rightarrow> u64 \<Rightarrow> u64" where
  "map_entry phys flags = (phys AND ADDRESS_MASK) OR (flags AND NOT VMM_FLAG_PS) OR VMM_FLAG_PRESENT"

lemma map_entry_bits:
  "bit (map_entry phys flags) 0" "bit (map_entry phys flags) 1 \<longleftrightarrow> bit flags 1" "bit (map_entry phys flags) 63 \<longleftrightarrow> bit flags 63"
  "bit (map_entry phys flags) 10 \<longleftrightarrow> bit flags 10" "bit (map_entry phys flags) 2 \<longleftrightarrow> bit flags 2"
  by (auto simp: map_entry_def entry_bits)

subsection \<open>No writable and executable page\<close>

definition wx_free :: "vmm \<Rightarrow> u64 \<Rightarrow> bool" where
  "wx_free s root \<longleftrightarrow> (\<forall>va. user_va va \<longrightarrow> \<not> (bit (pte s root va) 1 \<and> \<not> bit (pte s root va) 63))"

lemma wx_free_leaf:
  assumes "leaf_set s root va e s'" "wx_free s root" "bit e 1 \<longrightarrow> bit e 63"
  shows "wx_free s' root"
  using assms(2,3) leaf_setD(2) [OF assms(1)] unfolding wx_free_def by (metis (full_types))

lemma wx_free_map:
  assumes "tree_ok s root" "wx_free s root" "user_va va" "vmm_map_in_space s root va phys flags = (s', r)"
  shows "wx_free s' root"
proof (cases "r = 0")
  case True
  with map_in_space_cases [OF assms(1,3,4)] have m: "leaf_set s root va (map_entry phys flags) s'" "\<not> wx_request flags"
    by (simp_all add: map_entry_def)
  show ?thesis by (rule wx_free_leaf [OF m(1) assms(2)]) (use m(2) in \<open>simp only: map_entry_bits wx_request_def has_bit, blast\<close>)
next
  case False
  with map_in_space_cases [OF assms(1,3,4)] have "builds s root s'" by simp
  then show ?thesis using assms(2) buildsD(6) unfolding wx_free_def by metis
qed

lemma wx_free_protect:
  assumes "tree_ok s root" "wx_free s root" "vmm_protect_in_space s root va flags = (s', r)"
  shows "wx_free s' root"
proof (cases "r = 0")
  case True
  with protect_in_space_cases [OF assms(1,3)] have "leaf_set s root va (protect_entry (pte s root va) flags
      (pmm_frame_shared (frames s) (pte s root va AND ADDRESS_MASK))) s'" "\<not> wx_request flags" by simp_all
  then show ?thesis using wx_free_leaf [OF _ assms(2)] protect_entry_bits(1) by blast
next
  case False
  with protect_in_space_cases [OF assms(1,3)] assms(2) show ?thesis by simp
qed

lemma drop_frame_pm [simp]: "pm (drop_frame s a) = pm s" "pte (drop_frame s a) root va = pte s root va"
proof -
  show p: "pm (drop_frame s a) = pm s" by (simp add: drop_frame_def put_frame_def split_beta Let_def)
  have "walk (drop_frame s a) root q = walk s root q" for q by (rule walk_pm [OF p])
  then show "pte (drop_frame s a) root va = pte s root va" by (simp add: pte_def p split: option.splits)
qed

lemma wx_free_unmap:
  assumes "tree_ok s root" "wx_free s root" "vmm_unmap_in_space s root va = (s', r)"
  shows "wx_free s' root"
proof (cases "r = 0")
  case True
  with unmap_in_space_cases [OF assms(1,3)] obtain s1 where s1: "leaf_set s root va 0 s1"
    "s' = (if has (pte s root va) VMM_FLAG_DEVICE then s1 else drop_frame s1 (pte s root va AND ADDRESS_MASK))" by auto
  have "wx_free s1 root" using wx_free_leaf [OF s1(1) assms(2)] by simp
  with s1(2) show ?thesis by (simp add: wx_free_def)
next
  case False
  with unmap_in_space_cases [OF assms(1,3)] assms(2) show ?thesis by simp
qed

subsection \<open>A small address space\<close>

text \<open>One chain of tables at 0x1000 to 0x4000 whose last table maps the page 0x100000000, copy-on-write, to the
  frame 0x5000.\<close>

definition demo_space :: vmm where
  "demo_space = \<lparr>pm = \<lambda>t i. if t = 0x1000 \<and> i = 0 then 0x2007 else if t = 0x2000 \<and> i = 4 then 0x3007
      else if t = 0x3000 \<and> i = 0 then 0x4007 else if t = 0x4000 \<and> i = 0 then 0x8000000000005205
      else if t = 0x5000 then of_nat i else 0,
    frames = two_frames, kernel_space = 0x1000, physmap_initialized = True, shootdowns = []\<rparr>"

lemma demo_next: "walk demo_space t (i # p) = (if t = 0x1000 \<and> i = 0 then walk demo_space 0x2000 p
    else if t = 0x2000 \<and> i = 4 then walk demo_space 0x3000 p else if t = 0x3000 \<and> i = 0 then walk demo_space 0x4000 p
    else if has (pm demo_space t i) VMM_FLAG_PRESENT then walk demo_space (pm demo_space t i AND ADDRESS_MASK) p else None)"
  by (subst walk.simps(2)) (simp add: demo_space_def has_def flag_defs ADDRESS_MASK_def)

lemma demo_absent: "t \<in> {0x1000, 0x2000, 0x3000} \<Longrightarrow> has (pm demo_space t i) VMM_FLAG_PRESENT \<longleftrightarrow> (if t = 0x2000 then i = 4 else i = 0)"
  by (auto simp: demo_space_def has_def flag_defs)

lemma demo_walk:
  assumes "upath p" "walk demo_space 0x1000 p = Some t"
  shows "(p, t) \<in> {([], 0x1000), ([0], 0x2000), ([0, 4], 0x3000), ([0, 4, 0], 0x4000)}"
proof -
  consider "p = []" | i where "p = [i]" | i j where "p = [i, j]" | i j k where "p = [i, j, k]"
    using assms(1) by (auto simp: upath_def length_Suc_conv le_Suc_eq numeral_3_eq_3)
  then show ?thesis
    by cases (use assms(2) in \<open>auto simp: demo_next demo_absent simp del: walk.simps(2) split: if_splits\<close>)
qed

lemma demo_tree: "tree_ok demo_space 0x1000"
proof (rule tree_okI)
  show "pmm_ready (frames demo_space)" by (simp add: demo_space_def two_frames_ready)
  fix p t assume p: "upath p" "walk demo_space 0x1000 p = Some t"
  show "held_table demo_space t" using demo_walk [OF p]
    by (auto simp: held_table_def frame_no_def ADDRESS_MASK_def demo_space_def two_frames_free)
  fix q assume q: "upath q" "walk demo_space 0x1000 q = Some t"
  show "p = q" using demo_walk [OF p] demo_walk [OF q] by auto
qed

lemma demo_indices:
  "table_path 0x100000000 = [0, 4, 0]" "table_path 0x100001000 = [0, 4, 0]" "pt_i 0x100000000 = 0" "pt_i 0x100001000 = 1"
  by (simp_all add: table_path_def pml4_i_def pdpt_i_def pdt_i_def pt_i_def)

lemma demo_table: "walk demo_space 0x1000 [0, 4, 0] = Some 0x4000"
  by (simp add: demo_next)

lemma demo_pte: "pte demo_space 0x1000 0x100000000 = 0x8000000000005205" "pte demo_space 0x1000 0x100001000 = 0"
  unfolding pte_def demo_indices demo_table by (simp_all add: demo_space_def)

lemma demo_user: "user_va 0x100000000" "user_va 0x100001000" "user_va 0x100001234"
  by (simp_all add: user_va_def VMM_USER_TOP_def)

subsection \<open>Properties\<close>

text \<open>The calls that change the entries of one space.\<close>

datatype space_call = Map u64 u64 u64 | Unmap u64 | Protect u64 u64

fun space_do :: "u64 \<Rightarrow> space_call \<Rightarrow> vmm \<Rightarrow> vmm \<times> int" where
  "space_do root (Map va phys flags) s = vmm_map_in_space s root va phys flags"
| "space_do root (Unmap va) s = vmm_unmap_in_space s root va"
| "space_do root (Protect va flags) s = vmm_protect_in_space s root va flags"

fun call_user :: "space_call \<Rightarrow> bool" where
  "call_user (Map va _ _) = user_va va"
| "call_user _ = True"

text \<open>
  C5. Write xor execute: whatever flags a caller passes, no mapping, unmapping or change of
  protection in a space whose pages are all either read-only or non-executable gives it a page
  that is both writable and executable.
\<close>

theorem wx_preserved:
  assumes "tree_ok s root" "wx_free s root" "call_user c" "space_do root c s = (s', r)"
  shows "wx_free s' root"
proof (cases c)
  case (Map va phys flags)
  show ?thesis by (rule wx_free_map [OF assms(1,2)]) (use assms(3,4) Map in simp_all)
next
  case (Unmap va)
  show ?thesis by (rule wx_free_unmap [OF assms(1,2)]) (use assms(4) Unmap in simp)
next
  case (Protect va flags)
  show ?thesis by (rule wx_free_protect [OF assms(1,2)]) (use assms(4) Protect in simp)
qed

lemma demo_wx: "wx_free demo_space 0x1000"
proof -
  have "bit (pte demo_space 0x1000 va) 1 \<longrightarrow> bit (pte demo_space 0x1000 va) 63" if va: "user_va va" for va
  proof (cases "walk demo_space 0x1000 (table_path va)")
    case None
    then show ?thesis by (simp add: pte_def)
  next
    case (Some t)
    then have "t \<in> {0x1000, 0x2000, 0x3000, 0x4000}" "length (table_path va) = 3" using demo_walk [OF upath_user [OF va] Some] by (auto simp: table_path_def)
    then have "t = 0x4000" using demo_walk [OF upath_user [OF va] Some] by auto
    with Some show ?thesis by (simp add: pte_def demo_space_def bit_numeral_rec)
  qed
  then show ?thesis by (auto simp: wx_free_def)
qed

theorem wx_preserved_witness:
  "wx_free (fst (space_do 0x1000 (Protect 0x100000000 0x7) demo_space)) 0x1000"
  using wx_preserved [OF demo_tree demo_wx, of "Protect 0x100000000 0x7"] by (simp add: prod_eq_iff del: space_do.simps)

text \<open>A successful \<open>vmm_map_in_space\<close> makes exactly the requested page translate to the requested
  frame: it was unmapped before, every other page of the user half keeps its entry, and a
  failing call keeps them all, whatever tables it had to build.
\<close>

theorem vmm_map_exact:
  assumes "tree_ok s root" "user_va va" "vmm_map_in_space s root va phys flags = (s', r)"
  shows "tree_ok s' root \<and> (\<forall>vb. user_va vb \<longrightarrow> pte s' root vb =
     (if r = 0 \<and> unat vb div 4096 = unat va div 4096 then map_entry phys flags else pte s root vb))
     \<and> (r = 0 \<longrightarrow> \<not> vmm_pte_has_frame (pte s root va))"
proof (cases "r = 0")
  case True
  note m = map_in_space_cases [OF assms, unfolded if_P [OF True], folded map_entry_def]
  show ?thesis using m leaf_setD(1,2) [OF conjunct1 [OF m]] True by simp
next
  case False
  note b = map_in_space_cases [OF assms, unfolded if_not_P [OF False]]
  show ?thesis using buildsD(1,6) [OF b] False by simp
qed

lemma demo_links: "pm demo_space 0x1000 0 = 0x2007" "pm demo_space 0x2000 4 = 0x3007" "pm demo_space 0x3000 0 = 0x4007"
  by (simp_all add: demo_space_def)

lemma demo_map: "snd (vmm_map_in_space demo_space 0x1000 0x100001000 0x6000 0x8000000000000007) = 0"
proof -
  have u: "user_va 0x100001000" by (simp add: demo_user)
  obtain s1 p where g: "get_pt_space demo_space 0x1000 0x100001000 True 0x8000000000000007 = (s1, p)" by force
  have n: "next_table demo_space 0x1000 0 c f = (demo_space, Some 0x2000)" "next_table demo_space 0x2000 4 c f = (demo_space, Some 0x3000)"
    "next_table demo_space 0x3000 0 c f = (demo_space, Some 0x4000)" for c f
    by (simp_all add: next_table_def demo_links has_def flag_defs ADDRESS_MASK_def)
  have "s1 = demo_space \<and> p = Some 0x4000" using g
    by (simp add: get_pt_space_def n ADDRESS_MASK_def pml4_i_def pdpt_i_def pdt_i_def)
  then show ?thesis using g by (simp add: vmm_map_in_space_def wx_request_def has_def flag_defs vmm_pte_has_frame_def demo_indices demo_space_def)
qed

text \<open>
  C23. A change of protection never opens a frame that is shared copy-on-write for writing: when
  the entry is marked copy-on-write or its frame has further owners, the new entry is
  read-only whatever protection was asked for, and every other page keeps its entry.
\<close>

theorem protect_keeps_cow:
  assumes "tree_ok s root" "vmm_protect_in_space s root va flags = (s', r)"
    "has (pte s root va) VMM_FLAG_COW \<or> pmm_frame_shared (frames s) (pte s root va AND ADDRESS_MASK)"
    "\<not> has (pte s root va) VMM_FLAG_DEVICE" "\<not> has (pte s root va) VMM_FLAG_RW"
  shows "\<not> has (pte s' root va) VMM_FLAG_RW
    \<and> (\<forall>vb. user_va vb \<and> unat vb div 4096 \<noteq> unat va div 4096 \<longrightarrow> pte s' root vb = pte s root vb)"
proof (cases "r = 0")
  case True
  note p = protect_in_space_cases [OF assms(1,2), unfolded if_P [OF True]]
  then have "\<not> bit (protect_entry (pte s root va) flags (pmm_frame_shared (frames s) (pte s root va AND ADDRESS_MASK))) 1"
    using protect_entry_bits(4) assms(3,4) unfolding has_bit by blast
  with p show ?thesis unfolding has_bit by (auto simp: leaf_set_def)
next
  case False
  with protect_in_space_cases [OF assms(1,2)] assms(5) show ?thesis by simp
qed

theorem protect_keeps_cow_witness:
  "\<not> has (pte (fst (vmm_protect_in_space demo_space 0x1000 0x100000000 0x8000000000000007)) 0x1000 0x100000000) VMM_FLAG_RW"
proof -
  obtain s' r where e: "vmm_protect_in_space demo_space 0x1000 0x100000000 0x8000000000000007 = (s', r)" by force
  from protect_keeps_cow [OF demo_tree e] show ?thesis by (simp add: e demo_pte has_def flag_defs)
qed

end
