(* ===== verification/Vma.thy ===== *)
theory Vma
  imports Arrays
begin

text \<open>
  Virtual memory areas (mm/vma.c): the table of reserved ranges of a process, with tombstones
  for removed slots, and what backs each page of a range.  A slot pointer is an index.  The
  table is the list of the first \<^verbatim>\<open>count\<close> slots; the bytes of a pinned image are
  read from kernel memory, a page of a mapped file from the page cache.
\<close>

datatype vma_type = VMA_TYPE_ANON | VMA_TYPE_FILE | VMA_TYPE_PHYS | VMA_TYPE_NONE

record vma =
  v_start :: u64
  v_end :: u64
  v_flags :: u64
  v_type :: vma_type
  file_base :: u64
  file_off :: u64
  file_pad :: u64
  file_len :: u64
  file_inode :: "nat option"
  file_voff :: u64
  phys_base :: u64

type_synonym vma_set = "vma list"

definition VMA_MAX :: nat where
  "VMA_MAX = 64"

abbreviation live :: "vma \<Rightarrow> bool" where
  "live v \<equiv> v_type v \<noteq> VMA_TYPE_NONE"

text \<open>The table and the slot that was filled, or nothing when the table is full.\<close>

definition vma_put :: "vma_set \<Rightarrow> vma \<Rightarrow> (vma_set \<times> nat) option" where
  "vma_put s v = (case find_index (\<lambda>v. v_type v = VMA_TYPE_NONE) s of
     Some i \<Rightarrow> Some (s[i := v], i)
   | None \<Rightarrow> if length s \<ge> VMA_MAX then None else Some (s @ [v], length s))"

definition vma_add :: "vma_set \<Rightarrow> u64 \<Rightarrow> u64 \<Rightarrow> u64 \<Rightarrow> vma_type \<Rightarrow> u64 \<Rightarrow> u64 \<Rightarrow> u64 \<Rightarrow> u64 \<Rightarrow> vma_set \<times> int" where
  "vma_add s st en flags ty base off pad len =
    (case vma_put s \<lparr>v_start = st, v_end = en, v_flags = flags, v_type = ty, file_base = base, file_off = off,
        file_pad = pad, file_len = len, file_inode = None, file_voff = 0, phys_base = 0\<rparr> of
       None \<Rightarrow> (s, -1) | Some (s', _) \<Rightarrow> (s', 0))"

definition covers :: "u64 \<Rightarrow> vma \<Rightarrow> bool" where
  "covers addr v \<longleftrightarrow> live v \<and> v_start v \<le> addr \<and> addr < v_end v"

definition vma_find :: "vma_set \<Rightarrow> u64 \<Rightarrow> nat option" where
  "vma_find s addr = find_index (covers addr) s"

definition vma_find_mut :: "vma_set \<Rightarrow> u64 \<Rightarrow> nat option" where
  "vma_find_mut s addr = find_index (covers addr) s"

definition vma_add_phys :: "vma_set \<Rightarrow> u64 \<Rightarrow> u64 \<Rightarrow> u64 \<Rightarrow> u64 \<Rightarrow> vma_set \<times> int" where
  "vma_add_phys s st en flags phys =
    (if st AND 0xFFF \<noteq> 0 \<or> en AND 0xFFF \<noteq> 0 \<or> phys AND 0xFFF \<noteq> 0 \<or> en \<le> st then (s, -1)
     else let (s, r) = vma_add s st en flags VMA_TYPE_PHYS 0 0 0 0 in
       if r \<noteq> 0 then (s, -1)
       else case vma_find_mut s st of None \<Rightarrow> (s, -1) | Some i \<Rightarrow> (s[i := (s ! i)\<lparr>phys_base := phys\<rparr>], 0))"

definition vma_add_file :: "vma_set \<Rightarrow> u64 \<Rightarrow> u64 \<Rightarrow> u64 \<Rightarrow> nat \<Rightarrow> u64 \<Rightarrow> vma_set \<times> int" where
  "vma_add_file s st en flags inode voff =
    (let (s, r) = vma_add s st en flags VMA_TYPE_FILE 0 0 0 0 in
     if r \<noteq> 0 then (s, -1)
     else case vma_find_mut s st of
         None \<Rightarrow> (s, -1)
       | Some i \<Rightarrow> (s[i := (s ! i)\<lparr>file_inode := Some inode, file_voff := voff\<rparr>], 0))"

definition vma_remove :: "vma_set \<Rightarrow> nat \<Rightarrow> vma_set" where
  "vma_remove s i = s[i := (s ! i)\<lparr>v_type := VMA_TYPE_NONE, v_start := 0, v_end := 0\<rparr>]"

text \<open>The upper part of a region cut at an address, with its backing rebased.\<close>

definition split_hi :: "vma \<Rightarrow> u64 \<Rightarrow> vma" where
  "split_hi v addr =
    (let d = addr - v_start v; hi = v\<lparr>v_start := addr\<rparr> in
     if v_type v = VMA_TYPE_PHYS then hi\<lparr>phys_base := phys_base v + d\<rparr>
     else if v_type v = VMA_TYPE_FILE \<and> file_inode v \<noteq> None then hi\<lparr>file_voff := file_voff v + d\<rparr>
     else if v_type v = VMA_TYPE_FILE then
       (if d \<le> file_pad v then hi\<lparr>file_pad := file_pad v - d\<rparr>
        else let skip = d - file_pad v in
          if skip \<ge> file_len v then hi\<lparr>file_len := 0, file_pad := 0\<rparr>
          else hi\<lparr>file_off := file_off v + skip, file_len := file_len v - skip, file_pad := 0\<rparr>)
     else hi)"

definition vma_split :: "vma_set \<Rightarrow> nat \<Rightarrow> u64 \<Rightarrow> vma_set \<times> int" where
  "vma_split s i addr =
    (let v = s ! i in
     if \<not> live v \<or> addr AND 0xFFF \<noteq> 0 \<or> addr \<le> v_start v \<or> addr \<ge> v_end v then (s, -1)
     else let hi = split_hi v addr;
              (s, r) = vma_add s (v_start hi) (v_end hi) (v_flags hi) (v_type hi) (file_base hi) (file_off hi) (file_pad hi) (file_len hi)
       in if r \<noteq> 0 then (s, -1)
          else case find_index (\<lambda>c. c \<noteq> i \<and> live (s ! c) \<and> v_start (s ! c) = addr \<and> v_end (s ! c) = v_end hi) [0 ..< length s] of
              None \<Rightarrow> (s, -1)
            | Some n \<Rightarrow>
                (let s = s[n := (s ! n)\<lparr>file_inode := file_inode hi, file_voff := file_voff hi, phys_base := phys_base hi\<rparr>]
                 in (s[i := (s ! i)\<lparr>v_end := addr\<rparr>], 0)))"

definition vma_overlaps :: "vma_set \<Rightarrow> u64 \<Rightarrow> u64 \<Rightarrow> bool" where
  "vma_overlaps s st en = (\<exists>v \<in> set s. live v \<and> st < v_end v \<and> v_start v < en)"

definition vma_total_bytes :: "vma_set \<Rightarrow> u64" where
  "vma_total_bytes s = foldl (\<lambda>t v. if live v then t + (v_end v - v_start v) else t) 0 s"

subsection \<open>The contents of a page\<close>

definition vma_memcpy :: "u8 list \<Rightarrow> nat \<Rightarrow> u8 list \<Rightarrow> u8 list" where
  "vma_memcpy d off bs = take off d @ bs @ drop (off + length bs) d"

definition vma_memset :: "u8 \<Rightarrow> nat \<Rightarrow> u8 list" where
  "vma_memset val n = replicate n val"

text \<open>Kernel memory, and the cached page of an inode at a page-aligned offset.\<close>

type_synonym kmem = "u64 \<Rightarrow> u8"
type_synonym page_cache = "nat \<Rightarrow> u64 \<Rightarrow> u8 list option"

definition image_page :: "kmem \<Rightarrow> vma \<Rightarrow> u64 \<Rightarrow> u8 list" where
  "image_page kmem v pg =
    (let poff = pg - v_start v; cstart = file_pad v; cend = file_pad v + file_len v;
         ov_s = (if poff > cstart then poff else cstart);
         ov_e = (if poff + 0x1000 < cend then poff + 0x1000 else cend);
         dst = vma_memset 0 0x1000
     in if ov_s < ov_e then
          let copy_len = ov_e - ov_s; dst_off = ov_s - poff; src_off = file_off v + (ov_s - cstart)
          in vma_memcpy dst (unat dst_off) (map (\<lambda>k. kmem (file_base v + src_off + of_nat k)) [0 ..< unat copy_len])
        else dst)"

definition fault_page :: "kmem \<Rightarrow> page_cache \<Rightarrow> vma \<Rightarrow> u64 \<Rightarrow> u8 list" where
  "fault_page kmem cache v pg =
    (case (v_type v, file_inode v) of
       (VMA_TYPE_FILE, Some ino) \<Rightarrow>
         (case cache ino ((file_voff v + (pg - v_start v)) AND NOT 0xFFF) of
            Some p \<Rightarrow> p | None \<Rightarrow> vma_memset 0 0x1000)
     | (VMA_TYPE_FILE, None) \<Rightarrow> if file_base v \<noteq> 0 then image_page kmem v pg else vma_memset 0 0x1000
     | _ \<Rightarrow> vma_memset 0 0x1000)"

text \<open>What a fault on a page of a region installs: a device page, or a fresh frame with these bytes.\<close>

datatype page_src = Src_phys u64 | Src_fill "u8 list"

definition page_source :: "kmem \<Rightarrow> page_cache \<Rightarrow> vma \<Rightarrow> u64 \<Rightarrow> page_src" where
  "page_source kmem cache v pg = (if v_type v = VMA_TYPE_PHYS then Src_phys (phys_base v + (pg - v_start v))
     else Src_fill (fault_page kmem cache v pg))"

definition backing :: "kmem \<Rightarrow> page_cache \<Rightarrow> vma_set \<Rightarrow> u64 \<Rightarrow> (u64 \<times> page_src) option" where
  "backing kmem cache s a = map_option (\<lambda>i. (v_flags (s ! i), page_source kmem cache (s ! i) (a AND NOT 0xFFF))) (vma_find s a)"

subsection \<open>Well-formed tables\<close>

definition vma_wf :: "vma \<Rightarrow> bool" where
  "vma_wf v \<longleftrightarrow> (live v \<longrightarrow> v_start v < v_end v \<and> page_aligned (v_start v) \<and> page_aligned (v_end v)
     \<and> unat (v_end v) \<le> 2 ^ 47 \<and> unat (file_pad v) + unat (file_len v) < 2 ^ 64)"

definition apart :: "vma \<Rightarrow> vma \<Rightarrow> bool" where
  "apart v w \<longleftrightarrow> (live v \<longrightarrow> live w \<longrightarrow> v_end v \<le> v_start w \<or> v_end w \<le> v_start v)"

definition vma_ok :: "vma_set \<Rightarrow> bool" where
  "vma_ok s \<longleftrightarrow> length s \<le> VMA_MAX \<and> (\<forall>i < length s. vma_wf (s ! i))
     \<and> (\<forall>i < length s. \<forall>j < length s. i \<noteq> j \<longrightarrow> apart (s ! i) (s ! j))"

lemma vma_okI:
  assumes "length s \<le> VMA_MAX" "\<And>i. i < length s \<Longrightarrow> vma_wf (s ! i)"
    "\<And>i j. i < length s \<Longrightarrow> j < length s \<Longrightarrow> i \<noteq> j \<Longrightarrow> apart (s ! i) (s ! j)"
  shows "vma_ok s"
  using assms unfolding vma_ok_def by blast

lemma vma_okD:
  assumes "vma_ok s"
  shows "length s \<le> VMA_MAX" "i < length s \<Longrightarrow> vma_wf (s ! i)"
    "i < length s \<Longrightarrow> j < length s \<Longrightarrow> i \<noteq> j \<Longrightarrow> apart (s ! i) (s ! j)"
  using assms unfolding vma_ok_def by blast+

lemma apart_sym: "apart v w \<Longrightarrow> apart w v"
  unfolding apart_def by blast

lemma apart_covers: "apart v w \<Longrightarrow> covers a v \<Longrightarrow> covers a w \<Longrightarrow> False"
  unfolding apart_def covers_def by (meson leD le_less_trans order_less_le_trans)

lemma vma_find_eq:
  assumes "vma_ok s" "i < length s" "covers a (s ! i)"
  shows "vma_find s a = Some i"
  unfolding vma_find_def
  by (rule find_index_unique) (use assms vma_okD(3) [OF assms(1)] apart_covers in blast)+

lemma vma_find_None: "vma_find s a = None \<longleftrightarrow> (\<forall>i < length s. \<not> covers a (s ! i))"
  unfolding vma_find_def find_index_None by (metis in_set_conv_nth)

lemma vma_put_props:
  assumes "vma_put s v = Some (s', n)" "length s \<le> VMA_MAX"
  shows "n < length s'" "s' ! n = v" "length s \<le> length s'" "length s' \<le> VMA_MAX"
    "j < length s \<Longrightarrow> j \<noteq> n \<Longrightarrow> s' ! j = s ! j" "n < length s \<Longrightarrow> \<not> live (s ! n)"
    "j < length s' \<Longrightarrow> j \<noteq> n \<Longrightarrow> j < length s"
  using assms
  by (auto simp: vma_put_def nth_append split: option.splits if_splits dest: find_index_SomeD)

text \<open>A put into a well-formed table keeps it so when the new region is apart from the live ones.\<close>

lemma vma_put_ok:
  assumes ok: "vma_ok s" and p: "vma_put s v = Some (s', n)" and wf: "vma_wf v"
    and sep: "\<And>j. j < length s \<Longrightarrow> apart (s ! j) v"
  shows "vma_ok s'"
proof (rule vma_okI)
  note pp = vma_put_props [OF p vma_okD(1) [OF ok]]
  show "length s' \<le> VMA_MAX" by (rule pp(4))
  show "vma_wf (s' ! i)" if "i < length s'" for i
    using that wf pp(2) pp(5,7) [of i] vma_okD(2) [OF ok, of i] by (cases "i = n") simp_all
  show "apart (s' ! i) (s' ! j)" if "i < length s'" "j < length s'" "i \<noteq> j" for i j
  proof (cases "i = n \<or> j = n")
    case True
    with that pp(2) pp(5,7) [of i] pp(5,7) [of j] sep [of i] apart_sym [OF sep [of j]] show ?thesis by metis
  next
    case False
    with that pp(5,7) [of i] pp(5,7) [of j] vma_okD(3) [OF ok, of i j] show ?thesis by metis
  qed
qed

subsection \<open>Page contents\<close>

lemma page_of:
  fixes a :: u64
  shows "unat (a AND NOT 0xFFF) = unat a div 4096 * 4096"
  using unat_align_down [of a 12] by (simp add: align_down_def)

text \<open>A page of an address inside a page-aligned range lies inside that range.\<close>

lemma page_in:
  assumes "page_aligned lo" "page_aligned hi" "lo \<le> a" "a < hi"
  shows "lo \<le> a AND NOT 0xFFF" "unat (a AND NOT 0xFFF) + 4096 \<le> unat hi" "a AND NOT 0xFFF < hi"
proof -
  obtain l h where l: "unat lo = 4096 * l" and h: "unat hi = 4096 * h"
    using assms(1,2) unfolding page_aligned_iff by (metis dvd_def mod_eq_0_iff_dvd)
  define q where "q = unat a div 4096"
  have "l \<le> q" "q < h" using assms(3,4) l h unfolding word_nat_order q_def by linarith+
  then show "lo \<le> a AND NOT 0xFFF" "unat (a AND NOT 0xFFF) + 4096 \<le> unat hi" "a AND NOT 0xFFF < hi"
    unfolding word_nat_order page_of l h q_def [symmetric] by linarith+
qed

lemma memcpy_nth:
  assumes "off + length bs \<le> length d" "k < length d"
  shows "vma_memcpy d off bs ! k = (if off \<le> k \<and> k < off + length bs then bs ! (k - off) else d ! k)"
    and "length (vma_memcpy d off bs) = length d"
  using assms by (auto simp: vma_memcpy_def nth_append)

text \<open>The byte of an image region at an offset from its start: the file content in its window, zero outside.\<close>

definition image_byte :: "kmem \<Rightarrow> vma \<Rightarrow> nat \<Rightarrow> u8" where
  "image_byte kmem v k = (if unat (file_pad v) \<le> k \<and> k < unat (file_pad v) + unat (file_len v)
     then kmem (file_base v + file_off v + of_nat (k - unat (file_pad v))) else 0)"

lemma image_page_bytes:
  assumes win: "unat (file_pad v) + unat (file_len v) < 2 ^ 64" and pg: "v_start v \<le> pg" "unat pg + 4096 < 2 ^ 64"
  shows "image_page kmem v pg = map (\<lambda>k. image_byte kmem v (unat pg - unat (v_start v) + k)) [0 ..< 4096]"
proof -
  define q P L where "q = unat pg - unat (v_start v)" and "P = unat (file_pad v)" and "L = unat (file_len v)"
  let ?poff = "pg - v_start v" and ?cend = "file_pad v + file_len v"
  define ov_s ov_e where "ov_s = (if ?poff > file_pad v then ?poff else file_pad v)"
    and "ov_e = (if ?poff + 0x1000 < ?cend then ?poff + 0x1000 else ?cend)"
  have u: "unat ?poff = q" using pg(1) by (simp add: q_def unat_sub64 word_le_nat_alt)
  moreover have "unat (?poff + 0x1000) = q + 4096"
    using pg(2) u by (subst unat_add64) (simp_all add: q_def)
  moreover have "unat ?cend = P + L" using win by (simp add: unat_add64 P_def L_def)
  ultimately have S: "unat ov_s = max q P" and E: "unat ov_e = min (q + 4096) (P + L)"
    unfolding ov_s_def ov_e_def word_less_nat_alt by (auto simp: P_def)
  have im: "image_page kmem v pg = (if ov_s < ov_e then vma_memcpy (vma_memset 0 0x1000) (unat (ov_s - ?poff))
      (map (\<lambda>k. kmem (file_base v + (file_off v + (ov_s - file_pad v)) + of_nat k)) [0 ..< unat (ov_e - ov_s)]) else vma_memset 0 0x1000)"
    unfolding image_page_def Let_def ov_s_def ov_e_def by (rule refl)
  show ?thesis
  proof (cases "ov_s < ov_e")
    case False
    then have "image_byte kmem v (q + k) = 0" if "k < 4096" for k
      using S E that unfolding word_less_nat_alt image_byte_def P_def L_def by auto
    then show ?thesis using False unfolding im q_def [symmetric]
      by (auto simp: vma_memset_def intro!: nth_equalityI)
  next
    case True
    let ?S = "max q P" and ?E = "min (q + 4096) (P + L)"
    have lt: "?S < ?E" using True S E unfolding word_less_nat_alt by simp
    have off: "unat (ov_s - ?poff) = ?S - q" and len: "unat (ov_e - ov_s) = ?E - ?S"
      using S E u lt by (simp_all add: unat_sub64)
    have src: "ov_s - file_pad v = of_nat (?S - P)"
    proof -
      have "unat (ov_s - file_pad v) = ?S - P" using S by (simp add: unat_sub64 P_def)
      moreover have "of_nat (unat (ov_s - file_pad v)) = ov_s - file_pad v" by simp
      ultimately show ?thesis by metis
    qed
    define bs where "bs = map (\<lambda>k. kmem (file_base v + (file_off v + (ov_s - file_pad v)) + of_nat k)) [0 ..< ?E - ?S]"
    have bs: "length bs = ?E - ?S" "\<And>k. k < ?E - ?S \<Longrightarrow> bs ! k = kmem (file_base v + file_off v + (of_nat (?S - P) + of_nat k))"
      unfolding bs_def src by (simp_all add: add.assoc)
    have b: "?S - q + length bs \<le> length (vma_memset 0 0x1000)" using lt by (simp add: vma_memset_def bs)
    note m = memcpy_nth [OF b, unfolded bs(1), of k for k]
    have "image_page kmem v pg = vma_memcpy (vma_memset 0 0x1000) (?S - q) bs"
      using True unfolding im off len bs_def by simp
    also have "\<dots> = map (\<lambda>k. image_byte kmem v (q + k)) [0 ..< 4096]"
    proof (rule nth_equalityI)
      show l: "length (vma_memcpy (vma_memset 0 0x1000) (?S - q) bs) = length (map (\<lambda>k. image_byte kmem v (q + k)) [0 ..< 4096])"
        using m(2) [of 0] by (simp add: vma_memset_def)
      fix k assume "k < length (vma_memcpy (vma_memset 0 0x1000) (?S - q) bs)"
      then have k: "k < 4096" "k < length (vma_memset 0 0x1000)" unfolding l by (simp_all add: vma_memset_def)
      have "vma_memcpy (vma_memset 0 0x1000) (?S - q) bs ! k = image_byte kmem v (q + k)"
      proof (cases "?S - q \<le> k \<and> k < ?S - q + (?E - ?S)")
        case True
        then have "?S - P + (k - (?S - q)) = q + k - P" and lt': "k - (?S - q) < ?E - ?S" by linarith+
        then have "of_nat (?S - P) + of_nat (k - (?S - q)) = (of_nat (q + k - P) :: u64)" by (metis of_nat_add)
        moreover have "P \<le> q + k \<and> q + k < P + L" using True by linarith
        ultimately show ?thesis
          unfolding m(1) [OF k(2)] if_P [OF True] bs(2) [OF lt'] image_byte_def by (simp add: P_def L_def algebra_simps)
      next
        case False
        then have out: "\<not> (P \<le> q + k \<and> q + k < P + L)" using k lt by auto
        show ?thesis unfolding m(1) [OF k(2)] if_not_P [OF False] image_byte_def P_def [symmetric] L_def [symmetric] if_not_P [OF out]
          using k(1) by (simp add: vma_memset_def)
      qed
      then show "vma_memcpy (vma_memset 0 0x1000) (?S - q) bs ! k = map (\<lambda>k. image_byte kmem v (q + k)) [0 ..< 4096] ! k"
        using k(1) by simp
    qed
    finally show ?thesis unfolding q_def .
  qed
qed

subsection \<open>Splitting a region\<close>

lemma split_hi_simps [simp]:
  "v_start (split_hi v addr) = addr" "v_end (split_hi v addr) = v_end v" "v_flags (split_hi v addr) = v_flags v"
  "v_type (split_hi v addr) = v_type v" "file_base (split_hi v addr) = file_base v" "file_inode (split_hi v addr) = file_inode v"
  by (simp_all add: split_hi_def Let_def)

lemma split_hi_window:
  assumes "unat (file_pad v) + unat (file_len v) < 2 ^ 64"
  shows "unat (file_pad (split_hi v addr)) + unat (file_len (split_hi v addr)) < 2 ^ 64"
  using assms unat64_lt [of "file_len v"]
  by (auto simp: split_hi_def Let_def unat_sub64 word_nat_order not_le)

text \<open>The rebased window holds the same bytes at the same addresses.\<close>

lemma split_hi_byte:
  assumes ty: "v_type v = VMA_TYPE_FILE" "file_inode v = None" and at: "v_start v \<le> addr"
    and win: "unat (file_pad v) + unat (file_len v) < 2 ^ 64"
  shows "image_byte kmem (split_hi v addr) k = image_byte kmem v (unat addr - unat (v_start v) + k)"
proof -
  let ?d = "addr - v_start v" and ?P = "unat (file_pad v)" and ?L = "unat (file_len v)"
  have d: "unat ?d = unat addr - unat (v_start v)" using at by (simp add: unat_sub64 word_nat_order)
  consider "?d \<le> file_pad v" | "\<not> ?d \<le> file_pad v" "?d - file_pad v \<ge> file_len v"
    | "\<not> ?d \<le> file_pad v" "\<not> ?d - file_pad v \<ge> file_len v" by blast
  then show ?thesis
  proof cases
    case 1
    then have "unat (file_pad v - ?d) = ?P - unat ?d" "unat ?d \<le> ?P" by (simp_all add: unat_sub64 word_nat_order)
    with 1 ty show ?thesis unfolding d [symmetric] by (auto simp: split_hi_def image_byte_def Let_def algebra_simps)
  next
    case 2
    then have "?P < unat ?d" "?L \<le> unat ?d - ?P" by (simp_all add: unat_sub64 word_nat_order)
    with 2 ty show ?thesis unfolding d [symmetric] by (auto simp: split_hi_def image_byte_def Let_def)
  next
    case 3
    then have n: "?P < unat ?d" "unat (?d - file_pad v) = unat ?d - ?P" "unat ?d - ?P < ?L"
      by (simp_all add: unat_sub64 word_nat_order)
    then have l: "unat (file_len v - (?d - file_pad v)) = ?L - (unat ?d - ?P)" by (simp add: unat_sub64)
    have "?d - file_pad v = of_nat (unat ?d - ?P)" unfolding n(2) [symmetric] by simp
    moreover have "unat ?d - ?P + k = unat ?d + k - ?P" using n(1) by linarith
    ultimately have "(?d - file_pad v) + of_nat k = of_nat (unat ?d + k - ?P)" by (metis of_nat_add)
    then have a: "file_base v + (file_off v + (?d - file_pad v)) + of_nat k
        = file_base v + file_off v + of_nat (unat ?d + k - ?P)" by (simp only: add.assoc)
    have hi: "split_hi v addr = v\<lparr>v_start := addr, file_off := file_off v + (?d - file_pad v),
        file_len := file_len v - (?d - file_pad v), file_pad := 0\<rparr>" using 3 ty by (simp add: split_hi_def Let_def)
    have "image_byte kmem (split_hi v addr) k
        = (if k < ?L - (unat ?d - ?P) then kmem (file_base v + (file_off v + (?d - file_pad v)) + of_nat k) else 0)"
      unfolding image_byte_def hi by (simp add: l)
    also have "\<dots> = image_byte kmem v (unat ?d + k)" unfolding a image_byte_def using n by auto
    finally show ?thesis unfolding d .
  qed
qed

lemma page_source_end [simp]: "page_source kmem cache (v\<lparr>v_end := e\<rparr>) pg = page_source kmem cache v pg"
proof -
  have "image_page kmem (v\<lparr>v_end := e\<rparr>) pg = image_page kmem v pg" by (cases v) (simp only: image_page_def vma.simps)
  then show ?thesis by (cases "v_type v"; cases "file_inode v") (simp_all add: page_source_def fault_page_def)
qed

lemma split_hi_source:
  assumes wf: "vma_wf v" "live v" and at: "v_start v \<le> addr" "addr \<le> pg" "unat pg + 4096 < 2 ^ 64"
  shows "page_source kmem cache (split_hi v addr) pg = page_source kmem cache v pg"
proof -
  have win: "unat (file_pad v) + unat (file_len v) < 2 ^ 64" using wf by (simp add: vma_wf_def)
  consider "v_type v = VMA_TYPE_PHYS" | "v_type v = VMA_TYPE_ANON" | i where "v_type v = VMA_TYPE_FILE" "file_inode v = Some i"
    | "v_type v = VMA_TYPE_FILE" "file_inode v = None"
    using wf(2) by (metis not_None_eq vma_type.exhaust)
  then show ?thesis
  proof cases
    case 4
    have "image_page kmem (split_hi v addr) pg = map (\<lambda>k. image_byte kmem (split_hi v addr) (unat pg - unat addr + k)) [0 ..< 4096]"
      using image_page_bytes [of "split_hi v addr" pg kmem] split_hi_window [OF win] at by simp
    also have "\<dots> = map (\<lambda>k. image_byte kmem v (unat pg - unat (v_start v) + k)) [0 ..< 4096]"
      using at unfolding split_hi_byte [OF 4 at(1) win] word_nat_order by (simp add: add.assoc [symmetric])
    also have "\<dots> = image_page kmem v pg" using image_page_bytes [OF win, of pg kmem] at by (simp add: order.trans)
    finally show ?thesis using 4 by (simp add: page_source_def fault_page_def)
  qed (simp_all add: page_source_def fault_page_def split_hi_def Let_def)
qed

lemma vma_put_replace:
  "vma_put s v = Some (s', n) \<Longrightarrow> vma_put s w = Some (s'[n := w], n)"
  by (auto simp: vma_put_def split: option.splits if_splits)

definition can_split :: "vma \<Rightarrow> u64 \<Rightarrow> bool" where
  "can_split v addr \<longleftrightarrow> live v \<and> page_aligned addr \<and> v_start v < addr \<and> addr < v_end v"

text \<open>On a well-formed table the slot searched for after the insertion is the new one.\<close>

lemma vma_split_eq:
  assumes ok: "vma_ok s" and i: "i < length s"
  shows "vma_split s i addr = (if can_split (s ! i) addr then
      (case vma_put s (split_hi (s ! i) addr) of None \<Rightarrow> (s, -1) | Some (s1, n) \<Rightarrow> (s1[i := (s ! i)\<lparr>v_end := addr\<rparr>], 0))
    else (s, -1))"
proof (cases "can_split (s ! i) addr")
  case False
  then have "\<not> live (s ! i) \<or> addr AND 0xFFF \<noteq> 0 \<or> addr \<le> v_start (s ! i) \<or> v_end (s ! i) \<le> addr"
    unfolding can_split_def page_aligned_def by (auto simp: not_less)
  then show ?thesis using False by (auto simp: vma_split_def)
next
  case True
  define v hi where "v = s ! i" and "hi = split_hi v addr"
  define lo where "lo = hi\<lparr>file_inode := None, file_voff := 0, phys_base := 0\<rparr>"
  have g: "live v" "page_aligned addr" "v_start v < addr" "addr < v_end v" using True unfolding can_split_def v_def by blast+
  have add: "vma_add s (v_start hi) (v_end hi) (v_flags hi) (v_type hi) (file_base hi) (file_off hi) (file_pad hi) (file_len hi)
      = (case vma_put s lo of None \<Rightarrow> (s, -1) | Some (s', _) \<Rightarrow> (s', 0))"
    unfolding vma_add_def lo_def by (cases hi) (simp only: vma.simps)
  have c: "\<not> (\<not> live v \<or> addr AND 0xFFF \<noteq> 0 \<or> addr \<le> v_start v \<or> v_end v \<le> addr)"
    using g unfolding page_aligned_def by (auto dest: leD)
  have sp: "vma_split s i addr = (let (s, r) = (case vma_put s lo of None \<Rightarrow> (s, -1 :: int) | Some (s', _) \<Rightarrow> (s', 0)) in
      if r \<noteq> 0 then (s, -1) else case find_index (\<lambda>c. c \<noteq> i \<and> live (s ! c) \<and> v_start (s ! c) = addr \<and> v_end (s ! c) = v_end hi) [0 ..< length s] of
        None \<Rightarrow> (s, -1) | Some n \<Rightarrow>
          (let s = s[n := (s ! n)\<lparr>file_inode := file_inode hi, file_voff := file_voff hi, phys_base := phys_base hi\<rparr>]
           in (s[i := (s ! i)\<lparr>v_end := addr\<rparr>], 0)))"
    unfolding vma_split_def v_def [symmetric] hi_def [symmetric] Let_def if_not_P [OF c] add by (rule refl)
  show ?thesis
  proof (cases "vma_put s lo")
    case None
    then have "vma_put s hi = None" by (auto simp: vma_put_def split: option.splits if_splits)
    with None True show ?thesis unfolding sp by (simp add: hi_def v_def)
  next
    case (Some x)
    obtain s0 n where p: "vma_put s lo = Some (s0, n)" using Some by (cases x) simp
    note pp = vma_put_props [OF p vma_okD(1) [OF ok]]
    have ni: "n \<noteq> i" using pp(6) g(1) i unfolding v_def by blast
    have f: "find_index (\<lambda>c. c \<noteq> i \<and> live (s0 ! c) \<and> v_start (s0 ! c) = addr \<and> v_end (s0 ! c) = v_end hi) [0 ..< length s0] = Some n"
    proof (rule find_index_unique)
      show "n < length [0 ..< length s0]" using pp(1) by simp
      show "[0 ..< length s0] ! n \<noteq> i \<and> live (s0 ! ([0 ..< length s0] ! n)) \<and> v_start (s0 ! ([0 ..< length s0] ! n)) = addr
          \<and> v_end (s0 ! ([0 ..< length s0] ! n)) = v_end hi"
        using pp(1,2) ni g(1) by (simp add: lo_def hi_def)
      fix j assume "j < length [0 ..< length s0]" and "[0 ..< length s0] ! j \<noteq> i \<and> live (s0 ! ([0 ..< length s0] ! j))
        \<and> v_start (s0 ! ([0 ..< length s0] ! j)) = addr \<and> v_end (s0 ! ([0 ..< length s0] ! j)) = v_end hi"
      then have j: "j < length s0" "j \<noteq> i" "live (s0 ! j)" "v_start (s0 ! j) = addr" "v_end (s0 ! j) = v_end v"
        by (simp_all add: hi_def)
      show "j = n"
      proof (rule ccontr)
        assume "j \<noteq> n"
        then have "j < length s" "s0 ! j = s ! j" using pp(5,7) [of j] j(1) by blast+
        with j g have "covers addr (s ! j)" "covers addr (s ! i)" unfolding covers_def v_def by auto
        with apart_covers vma_okD(3) [OF ok \<open>j < length s\<close> i j(2)] show False by blast
      qed
    qed
    have "s0 ! i = v" using pp(5) [OF i] ni unfolding v_def by blast
    moreover have "(s0 ! n)\<lparr>file_inode := file_inode hi, file_voff := file_voff hi, phys_base := phys_base hi\<rparr> = hi"
      unfolding pp(2) lo_def by simp
    ultimately have "vma_split s i addr = (s0[n := hi, i := v\<lparr>v_end := addr\<rparr>], 0)"
      using ni unfolding sp p by (simp add: f Let_def)
    with True vma_put_replace [OF p, of hi] show ?thesis by (simp add: hi_def v_def)
  qed
qed

lemma vma_split_result:
  assumes ok: "vma_ok s" and i: "i < length s" and r: "vma_split s i addr = (s', 0)"
  obtains s1 n where "vma_put s (split_hi (s ! i) addr) = Some (s1, n)" "n \<noteq> i" "s' = s1[i := (s ! i)\<lparr>v_end := addr\<rparr>]"
    "live (s ! i)" "page_aligned addr" "v_start (s ! i) < addr" "addr < v_end (s ! i)"
proof -
  have c: "can_split (s ! i) addr" using r unfolding vma_split_eq [OF ok i] by (simp split: if_splits)
  obtain s1 n where p: "vma_put s (split_hi (s ! i) addr) = Some (s1, n)" "s' = s1[i := (s ! i)\<lparr>v_end := addr\<rparr>]"
    using r c unfolding vma_split_eq [OF ok i] by (auto split: option.splits)
  have "n \<noteq> i" using vma_put_props(6) [OF p(1) vma_okD(1) [OF ok]] c i unfolding can_split_def by blast
  with that p c show ?thesis unfolding can_split_def by blast
qed

lemma vma_split_backing:
  assumes ok: "vma_ok s" and i: "i < length s" and r: "vma_split s i addr = (s', 0)"
  shows "vma_ok s' \<and> (\<forall>a. backing kmem cache s' a = backing kmem cache s a)"
proof -
  obtain s1 n where p: "vma_put s (split_hi (s ! i) addr) = Some (s1, n)" and ni: "n \<noteq> i" and s': "s' = s1[i := (s ! i)\<lparr>v_end := addr\<rparr>]"
    and g: "live (s ! i)" "page_aligned addr" "v_start (s ! i) < addr" "addr < v_end (s ! i)"
    by (rule vma_split_result [OF ok i r])
  define v hi lo where "v = s ! i" and "hi = split_hi v addr" and "lo = v\<lparr>v_end := addr\<rparr>"
  note pp = vma_put_props [OF p [folded v_def hi_def] vma_okD(1) [OF ok]]
  have wf: "vma_wf v" using vma_okD(2) [OF ok i] unfolding v_def .
  note wf' = wf [unfolded vma_wf_def, rule_format, OF g(1) [folded v_def]]
  have at: "s' ! i = lo" "s' ! n = hi" "length s' = length s1" "\<And>j. j < length s \<Longrightarrow> j \<noteq> n \<Longrightarrow> j \<noteq> i \<Longrightarrow> s' ! j = s ! j"
    using pp(1,2,3,5) i ni unfolding s' lo_def v_def by auto
  have in_s: "j = n \<or> j = i \<or> j < length s \<and> s' ! j = s ! j" if "j < length s'" for j
    using that pp(7) [of j] at(3,4) by metis
  have ends: "v_start lo = v_start v" "v_end lo = addr" "v_start hi = addr" "v_end hi = v_end v" "live lo" "live hi"
    using g(1) by (simp_all add: lo_def hi_def v_def)
  have ok': "vma_ok s'"
  proof (rule vma_okI)
    show "length s' \<le> VMA_MAX" using pp(4) at(3) by simp
    have "vma_wf lo" "vma_wf hi"
      using wf' g(2-4) split_hi_window [of v addr] less_imp_le [OF g(4) [unfolded word_less_nat_alt]]
      unfolding vma_wf_def ends by (auto simp: lo_def hi_def v_def)
    then show "vma_wf (s' ! j)" if "j < length s'" for j
      using in_s [OF that] at(1,2) vma_okD(2) [OF ok, of j] by metis
    have "apart lo hi" "apart hi lo" unfolding apart_def ends by simp_all
    moreover have "apart (s ! j) lo \<and> apart (s ! j) hi \<and> apart lo (s ! j) \<and> apart hi (s ! j)" if "j < length s" "j \<noteq> i" for j
      using vma_okD(3) [OF ok that(1) i that(2)] g(1,3,4) unfolding apart_def ends v_def word_nat_order by auto
    ultimately show "apart (s' ! j) (s' ! k)" if "j < length s'" "k < length s'" "j \<noteq> k" for j k
      using that in_s [OF that(1)] in_s [OF that(2)] at(1,2) vma_okD(3) [OF ok, of j k] by metis
  qed
  have "backing kmem cache s' a = backing kmem cache s a" for a
  proof (cases "covers a v")
    case True
    then have f: "vma_find s a = Some i" using vma_find_eq [OF ok i] unfolding v_def by blast
    show ?thesis
    proof (cases "a < addr")
      case True
      then have "covers a (s' ! i)" using \<open>covers a v\<close> unfolding at covers_def ends by (simp add: lo_def)
      then have "vma_find s' a = Some i" using vma_find_eq [OF ok', of i a] i pp(3) at(3) by simp
      then show ?thesis unfolding backing_def f by (simp add: at) (simp add: lo_def v_def)
    next
      case False
      then have c: "covers a (s' ! n)" using \<open>covers a v\<close> unfolding at covers_def ends by (simp add: hi_def)
      then have f': "vma_find s' a = Some n" using vma_find_eq [OF ok', of n a] pp(1) at(3) by simp
      have b: "addr \<le> a" "a < v_end v" using c unfolding at covers_def ends by simp_all
      note pg = page_in [OF g(2) conjunct1 [OF conjunct2 [OF conjunct2 [OF wf']]] b]
      have "page_source kmem cache hi (a AND NOT 0xFFF) = page_source kmem cache v (a AND NOT 0xFFF)"
        unfolding hi_def by (rule split_hi_source) (use wf g pg wf' in \<open>simp_all add: v_def\<close>)
      then show ?thesis unfolding backing_def f f' by (simp add: at) (simp add: hi_def v_def)
    qed
  next
    case False
    then have n: "\<not> covers a lo" "\<not> covers a hi" using g(3,4) unfolding covers_def ends by (auto simp: hi_def lo_def v_def)
    show ?thesis
    proof (cases "vma_find s a")
      case None
      then have "vma_find s' a = None" using n in_s at(1,2) unfolding vma_find_None by metis
      with None show ?thesis by (simp add: backing_def)
    next
      case (Some j)
      then have j: "j < length s" "covers a (s ! j)" unfolding vma_find_def by (auto dest: find_index_SomeD)
      then have "j \<noteq> i" "j \<noteq> n" using False pp(6) unfolding v_def covers_def by auto
      then have e: "s' ! j = s ! j" using at(4) j(1) by blast
      then have "vma_find s' a = Some j" using vma_find_eq [OF ok', of j a] j pp(3) at(3) by simp
      with Some e show ?thesis by (simp add: backing_def)
    qed
  qed
  with ok' show ?thesis by blast
qed

subsection \<open>Adding and removing regions\<close>

lemma backing_put:
  assumes ok: "vma_ok s" and p: "vma_put s v = Some (s', n)" and wf: "vma_wf v"
    and sep: "\<And>j. j < length s \<Longrightarrow> apart (s ! j) v"
  shows "backing kmem cache s' a = (if covers a v then Some (v_flags v, page_source kmem cache v (a AND NOT 0xFFF)) else backing kmem cache s a)"
proof -
  note pp = vma_put_props [OF p vma_okD(1) [OF ok]] and ok' = vma_put_ok [OF ok p wf sep]
  show ?thesis
  proof (cases "covers a v")
    case True
    with pp(2) have "vma_find s' a = Some n" using vma_find_eq [OF ok' pp(1), of a] by simp
    with True pp(2) show ?thesis by (simp add: backing_def)
  next
    case False
    show ?thesis
    proof (cases "vma_find s a")
      case None
      then have "vma_find s' a = None" using False pp(2,5,7) unfolding vma_find_None by metis
      with None False show ?thesis by (simp add: backing_def)
    next
      case (Some j)
      then have j: "j < length s" "covers a (s ! j)" unfolding vma_find_def by (auto dest: find_index_SomeD)
      then have "j \<noteq> n" using pp(6) unfolding covers_def by auto
      then have e: "s' ! j = s ! j" using pp(5) j(1) by blast
      then have "vma_find s' a = Some j" using vma_find_eq [OF ok', of j a] j pp(3) by simp
      with Some e False show ?thesis by (simp add: backing_def)
    qed
  qed
qed

lemma not_overlaps_apart:
  assumes "\<not> vma_overlaps s st en" "v_start v = st" "v_end v = en" "j < length s"
  shows "apart (s ! j) v"
  using assms nth_mem [OF assms(4)] unfolding vma_overlaps_def apart_def by (meson linorder_not_less)

text \<open>A table slot whose region already covers the start of a new region would take its backing;
  the callers check \<open>vma_overlaps\<close> first, and then the slot found is the new one.\<close>

lemma put_update:
  assumes ok: "vma_ok s" and p: "vma_put s v = Some (s', n)" and wf: "vma_wf v" "live v"
    and sep: "\<And>j. j < length s \<Longrightarrow> apart (s ! j) v"
  shows "vma_find_mut s' (v_start v) = Some n" "vma_put s (f v) = Some (s'[n := f (s' ! n)], n)"
proof -
  note pp = vma_put_props [OF p vma_okD(1) [OF ok]]
  have "covers (v_start v) (s' ! n)" using wf unfolding pp(2) covers_def vma_wf_def by simp
  then show "vma_find_mut s' (v_start v) = Some n"
    using vma_find_eq [OF vma_put_ok [OF ok p wf(1) sep] pp(1)] unfolding vma_find_def vma_find_mut_def by blast
  show "vma_put s (f v) = Some (s'[n := f (s' ! n)], n)" unfolding pp(2) by (rule vma_put_replace [OF p])
qed

lemma vma_add_file_eq:
  assumes "vma_ok s" and "st < en" "page_aligned st" "page_aligned en" "unat en \<le> 2 ^ 47" and "\<not> vma_overlaps s st en"
    and r: "vma_add_file s st en flags ino voff = (s', 0)"
  obtains n where "vma_put s \<lparr>v_start = st, v_end = en, v_flags = flags, v_type = VMA_TYPE_FILE, file_base = 0, file_off = 0,
        file_pad = 0, file_len = 0, file_inode = Some ino, file_voff = voff, phys_base = 0\<rparr> = Some (s', n)"
proof -
  let ?v = "\<lparr>v_start = st, v_end = en, v_flags = flags, v_type = VMA_TYPE_FILE, file_base = 0, file_off = 0,
        file_pad = 0, file_len = 0, file_inode = None, file_voff = 0, phys_base = 0\<rparr>"
  obtain s1 n where p: "vma_put s ?v = Some (s1, n)"
    using r unfolding vma_add_file_def vma_add_def by (cases "vma_put s ?v") auto
  have wf: "vma_wf ?v" "live ?v" using assms(2-5) by (simp_all add: vma_wf_def)
  note u = put_update [OF assms(1) p wf not_overlaps_apart [OF assms(6)], simplified]
  have "s' = s1[n := (s1 ! n)\<lparr>file_inode := Some ino, file_voff := voff\<rparr>]"
    using r u(1) unfolding vma_add_file_def vma_add_def p by simp
  with u(2) [of "\<lambda>v. v\<lparr>file_inode := Some ino, file_voff := voff\<rparr>"] that show ?thesis by simp
qed

lemma vma_add_phys_eq:
  assumes "vma_ok s" and "unat en \<le> 2 ^ 47" and "\<not> vma_overlaps s st en"
    and r: "vma_add_phys s st en flags phys = (s', 0)"
  obtains n where "vma_put s \<lparr>v_start = st, v_end = en, v_flags = flags, v_type = VMA_TYPE_PHYS, file_base = 0, file_off = 0,
        file_pad = 0, file_len = 0, file_inode = None, file_voff = 0, phys_base = phys\<rparr> = Some (s', n)"
    "st < en" "page_aligned st" "page_aligned en"
proof -
  let ?v = "\<lparr>v_start = st, v_end = en, v_flags = flags, v_type = VMA_TYPE_PHYS, file_base = 0, file_off = 0,
        file_pad = 0, file_len = 0, file_inode = None, file_voff = 0, phys_base = 0\<rparr>"
  have g: "st < en" "page_aligned st" "page_aligned en"
    using r unfolding vma_add_phys_def page_aligned_def by (auto simp: not_le split: if_splits)
  obtain s1 n where p: "vma_put s ?v = Some (s1, n)"
    using r unfolding vma_add_phys_def vma_add_def by (cases "vma_put s ?v") (auto split: if_splits)
  have wf: "vma_wf ?v" "live ?v" using assms(2) g by (simp_all add: vma_wf_def)
  note u = put_update [OF assms(1) p wf not_overlaps_apart [OF assms(3)], simplified]
  have "s' = s1[n := (s1 ! n)\<lparr>phys_base := phys\<rparr>]"
    using r u(1) unfolding vma_add_phys_def vma_add_def p by (simp split: if_splits)
  with u(2) [of "\<lambda>v. v\<lparr>phys_base := phys\<rparr>"] that g show ?thesis by simp
qed

lemma vma_remove_backing:
  assumes ok: "vma_ok s" and i: "i < length s"
  shows "vma_ok (vma_remove s i)"
    "backing kmem cache (vma_remove s i) a = (if covers a (s ! i) then None else backing kmem cache s a)"
proof -
  have at: "j < length s \<Longrightarrow> j \<noteq> i \<Longrightarrow> vma_remove s i ! j = s ! j" "\<not> live (vma_remove s i ! i)" "length (vma_remove s i) = length s" for j
    using i by (simp_all add: vma_remove_def)
  show ok': "vma_ok (vma_remove s i)"
  proof (rule vma_okI)
    show "vma_wf (vma_remove s i ! j)" if "j < length (vma_remove s i)" for j
      using that at vma_okD(2) [OF ok, of j] unfolding vma_wf_def by metis
    show "apart (vma_remove s i ! j) (vma_remove s i ! k)" if "j < length (vma_remove s i)" "k < length (vma_remove s i)" "j \<noteq> k" for j k
      using that at vma_okD(3) [OF ok, of j k] unfolding apart_def by metis
  qed (use at vma_okD(1) [OF ok] in simp)
  have "j = i" if "j < length s" "covers a (s ! j)" "covers a (s ! i)" for j
    using that vma_okD(3) [OF ok that(1) i] apart_covers by blast
  then have c: "covers a (vma_remove s i ! j) \<longleftrightarrow> \<not> covers a (s ! i) \<and> covers a (s ! j)" if "j < length s" for j
    using that at unfolding covers_def by metis
  show "backing kmem cache (vma_remove s i) a = (if covers a (s ! i) then None else backing kmem cache s a)"
  proof (cases "vma_find (vma_remove s i) a")
    case None
    then have "covers a (s ! i) \<or> vma_find s a = None" using c at(3) unfolding vma_find_None by metis
    with None show ?thesis by (auto simp: backing_def)
  next
    case (Some j)
    then have j: "j < length s" "covers a (vma_remove s i ! j)" using at(3) unfolding vma_find_def by (auto dest: find_index_SomeD)
    then have "vma_find s a = Some j" "\<not> covers a (s ! i)" "vma_remove s i ! j = s ! j"
      using vma_find_eq [OF ok] c at covers_def by metis+
    with Some show ?thesis by (simp add: backing_def)
  qed
qed

subsection \<open>Properties\<close>

text \<open>
  C33. Splitting a region is invisible to the program: every address keeps its protection and the
  page a fault on it would install, for anonymous, file, image and device regions alike, and
  the table stays well formed.
\<close>

theorem vma_split_invisible:
  assumes "vma_ok s" "i < length s" "vma_split s i addr = (s', 0)"
  shows "vma_ok s' \<and> (\<forall>a. backing kmem cache s' a = backing kmem cache s a)"
  using assms by (rule vma_split_backing)

definition image_region :: vma where
  "image_region = \<lparr>v_start = 0x400000, v_end = 0x403000, v_flags = 5, v_type = VMA_TYPE_FILE, file_base = 0x10000,
    file_off = 0x200, file_pad = 0x100, file_len = 0x1800, file_inode = None, file_voff = 0, phys_base = 0\<rparr>"

theorem vma_split_invisible_witness:
  "snd (vma_split [image_region] 0 0x401000) = 0
   \<and> backing (\<lambda>a. ucast a) (\<lambda>_ _. None) (fst (vma_split [image_region] 0 0x401000)) 0x401005
     = backing (\<lambda>a. ucast a) (\<lambda>_ _. None) [image_region] 0x401005"
proof -
  have ok: "vma_ok [image_region]" by (simp add: vma_ok_def vma_wf_def image_region_def VMA_MAX_def page_aligned_def)
  have r: "snd (vma_split [image_region] 0 0x401000) = 0"
    by (simp add: vma_split_eq [OF ok, of 0] can_split_def vma_put_def VMA_MAX_def)
      (simp add: image_region_def page_aligned_def)
  then have e: "vma_split [image_region] 0 0x401000 = (fst (vma_split [image_region] 0 0x401000), 0)" by (metis prod.collapse)
  show ?thesis using vma_split_invisible [OF ok _ e] r by simp
qed

end
