(* ===== verification/Vmm_Fault.thy ===== *)
theory Vmm_Fault
  imports Vmm_Safe Vma
begin

text \<open>
  Page faults: materialising a page of a reserved region (\<open>vma_fault_in\<close> of mm/vma.c) and
  resolving a write to a copy-on-write page (\<open>vmm_cow_fault\<close> of mm/vmm.c), dispatched by
  \<open>vmm_try_handle_page_fault\<close>.  The current process contributes its space and its regions.
\<close>

definition set_page :: "vmm \<Rightarrow> u64 \<Rightarrow> (nat \<Rightarrow> u64) \<Rightarrow> vmm" where
  "set_page s a w = s\<lparr>pm := (pm s)(a := w)\<rparr>"

definition page_words :: "u8 list \<Rightarrow> nat \<Rightarrow> u64" where
  "page_words bs i = foldr (\<lambda>b acc. ucast b OR push_bit 8 acc) (take 8 (drop (8 * i) bs)) 0"

definition vma_fault_in :: "kmem \<Rightarrow> page_cache \<Rightarrow> vmm \<Rightarrow> u64 \<Rightarrow> vma \<Rightarrow> u64 \<Rightarrow> vmm \<times> int" where
  "vma_fault_in kmem cache s space v addr =
    (let pg = addr AND NOT 0xFFF in
     if pg < v_start v \<or> pg \<ge> v_end v then (s, -2)
     else if has (v_flags v) VMM_FLAG_PROTNONE then (s, -4)
     else if v_type v = VMA_TYPE_PHYS then
       vmm_map_in_space s space pg (phys_base v + (pg - v_start v))
         (v_flags v OR VMM_FLAG_DEVICE OR VMM_FLAG_PWT OR VMM_FLAG_NOEXEC)
     else let (s, frame) = get_frame s in
       if frame = 0 then (s, -3)
       else let fphys = frame AND ADDRESS_MASK;
                s = set_page s fphys (page_words (fault_page kmem cache v pg));
                (s, r) = vmm_map_in_space s space pg fphys (v_flags v)
         in if r \<noteq> 0 then (put_frame s frame, r) else (s, 0))"

text \<open>The regions of the current process, when the faulting space is its own.\<close>

definition cow_allowed :: "vma_set option \<Rightarrow> u64 \<Rightarrow> bool" where
  "cow_allowed vmas va = (case vmas of None \<Rightarrow> False | Some vs \<Rightarrow>
     (case vma_find vs va of None \<Rightarrow> False
      | Some i \<Rightarrow> has (v_flags (vs ! i)) VMM_FLAG_RW \<and> \<not> has (v_flags (vs ! i)) VMM_FLAG_PROTNONE))"

definition vmm_cow_fault :: "vmm \<Rightarrow> u64 \<Rightarrow> vma_set option \<Rightarrow> u64 \<Rightarrow> vmm \<times> int" where
  "vmm_cow_fault s space vmas addr =
    (if addr < USER_CODE_BASE \<or> addr \<ge> USER_STACK_TOP then (s, -1)
     else let va = addr AND NOT 0xFFF in
       case get_pt_space s space va False 0 of
         (s, None) \<Rightarrow> (s, -1)
       | (s, Some pt) \<Rightarrow>
           let e = pm s pt (pt_i va) in
           if \<not> has e VMM_FLAG_PRESENT \<or> \<not> has e VMM_FLAG_COW then (s, -1)
           else if \<not> cow_allowed vmas va then (s, -1)
           else let oldphys = e AND ADDRESS_MASK; (s, nf) = get_frame s in
             if nf = 0 then (s, -1)
             else let nphys = nf AND ADDRESS_MASK;
                      s = drop_frame (set_page s nphys (pm s oldphys)) oldphys;
                      flags = (e AND NOT ADDRESS_MASK AND NOT VMM_FLAG_COW) OR VMM_FLAG_RW
               in (tlb_shootdown (set_entry s pt (pt_i va) (nphys OR flags)) (Some space) va 1, 0))"

record mproc =
  p_space :: "u64 option"
  vmas :: vma_set
  brk_start :: u64
  brk_cur :: u64
  mmap_next :: u64
  mem_limit :: u64

definition vmm_try_handle_page_fault :: "kmem \<Rightarrow> page_cache \<Rightarrow> vmm \<Rightarrow> mproc option \<Rightarrow> u64 \<Rightarrow> u64 \<Rightarrow> vmm \<times> int" where
  "vmm_try_handle_page_fault kmem cache s cur addr err =
    (let (s, r) = (if bit err 0 \<and> bit err 1 then
           (case cur of None \<Rightarrow> (s, -1)
            | Some c \<Rightarrow> (case p_space c of None \<Rightarrow> (s, -1) | Some sp \<Rightarrow> vmm_cow_fault s sp (Some (vmas c)) addr))
         else (s, -1))
     in if r = 0 then (s, 0)
        else if \<not> bit err 0 then
          (case cur of None \<Rightarrow> (s, -1)
           | Some c \<Rightarrow> (case p_space c of None \<Rightarrow> (s, -1)
              | Some sp \<Rightarrow> (case vma_find (vmas c) addr of None \<Rightarrow> (s, -1)
                  | Some i \<Rightarrow> if has (v_flags (vmas c ! i)) VMM_FLAG_PROTNONE then (s, -1)
                      else let (s, r) = vma_fault_in kmem cache s sp (vmas c ! i) addr in (s, if r = 0 then 0 else -1))))
        else (s, -1))"

subsection \<open>Filling a fresh frame\<close>

lemma set_page_simps [simp]:
  "pm (set_page s a w) u = (if u = a then w else pm s u)" "frames (set_page s a w) = frames s"
  "kernel_space (set_page s a w) = kernel_space s" "physmap_initialized (set_page s a w) = physmap_initialized s"
  by (simp_all add: set_page_def)

lemma set_page_tree:
  assumes ok: "tree_ok s root" and no: "\<And>p t. upath p \<Longrightarrow> walk s root p = Some t \<Longrightarrow> t \<noteq> a"
  shows "tree_ok (set_page s a w) root" "upath p \<Longrightarrow> walk (set_page s a w) root p = walk s root p"
    "user_va va \<Longrightarrow> pte (set_page s a w) root va = pte s root va"
proof -
  have wk: "walk (set_page s a w) root p = walk s root p" if "upath p" for p
    by (rule walk_other [OF ok _ that]) (use no in auto)
  then show "upath p \<Longrightarrow> walk (set_page s a w) root p = walk s root p" .
  show "tree_ok (set_page s a w) root"
    by (rule tree_okI) (use tree_okD [OF ok] in \<open>simp_all add: wk held_table_def\<close>)
  assume va: "user_va va"
  show "pte (set_page s a w) root va = pte s root va"
    using no [OF upath_user [OF va]] by (auto simp: pte_def wk [OF upath_user [OF va]] split: option.splits)
qed

lemma page_user:
  assumes "user_va addr"
  shows "user_va (addr AND NOT 0xFFF)"
  using assms word_and_le2 [of addr "NOT 0xFFF"] unfolding user_va_def by (simp add: le_less_trans)

lemma page_base: "(addr AND NOT 0xFFF) AND 0xFFF = (0 :: u64)"
  by (simp add: and.assoc)

lemma fresh_page:
  assumes ok: "tree_ok s root" and g: "get_frame s = (s1, a)" "a \<noteq> 0"
  shows "tree_ok (set_page s1 a w) root" "upath p \<Longrightarrow> walk (set_page s1 a w) root p = walk s root p"
    "user_va va \<Longrightarrow> pte (set_page s1 a w) root va = pte s root va" "a AND ADDRESS_MASK = a"
    "frame_no a \<in> free_set (frames s)" "frame_no a \<notin> free_set (frames s1)" "free_set (frames s1) \<subseteq> free_set (frames s)"
    "pm s1 = pm s" "upath p \<Longrightarrow> walk s root p \<noteq> Some a"
proof -
  note f = get_frame_spec [OF tree_okD(1) [OF ok] g]
  have w: "walk s1 root p = walk s root p" for p by (rule walk_pm [OF f(2)])
  have no: "t \<noteq> a" if "upath p" "walk s root p = Some t" for p t by (rule fresh_not_table [OF ok f(6) that])
  note S = set_page_tree [OF tree_get_frame(1) [OF ok g], of a, unfolded w, OF no]
  have "pte s1 root va = pte s root va" for va unfolding pte_def w f(2) by (rule refl)
  then show "tree_ok (set_page s1 a w) root" "upath p \<Longrightarrow> walk (set_page s1 a w) root p = walk s root p"
    "user_va va \<Longrightarrow> pte (set_page s1 a w) root va = pte s root va" using S by auto
  show "a AND ADDRESS_MASK = a" "frame_no a \<in> free_set (frames s)" "frame_no a \<notin> free_set (frames s1)"
    "free_set (frames s1) \<subseteq> free_set (frames s)" "pm s1 = pm s" using f by auto
  show "upath p \<Longrightarrow> walk s root p \<noteq> Some a" using no by blast
qed

text \<open>A serviced fault installs a fresh frame with the page's contents and changes no other entry.\<close>

lemma fault_in_spec:
  assumes ok: "tree_ok s root" and va: "user_va addr" and m: "v_type v \<noteq> VMA_TYPE_PHYS"
    and r: "vma_fault_in kmem cache s root v addr = (s', 0)"
  obtains a where "frame_no a \<in> free_set (frames s)" "a AND ADDRESS_MASK = a" "upath p \<Longrightarrow> walk s root p \<noteq> Some a"
    "tree_ok s' root" "\<And>vb. user_va vb \<Longrightarrow> pte s' root vb = (if unat vb div 4096 = unat addr div 4096 then map_entry a (v_flags v) else pte s root vb)"
    "pm s' a = page_words (fault_page kmem cache v (addr AND NOT 0xFFF))" "\<not> vmm_pte_has_frame (pte s root addr)"
proof -
  let ?pg = "addr AND NOT 0xFFF" and ?w = "page_words (fault_page kmem cache v (addr AND NOT 0xFFF))"
  obtain s1 a where g: "get_frame s = (s1, a)" by force
  have a: "a \<noteq> 0" using r g m by (auto simp: vma_fault_in_def Let_def split: if_splits)
  note F = fresh_page [OF ok g a]
  let ?s2 = "set_page s1 a ?w"
  have map: "vmm_map_in_space ?s2 root ?pg a (v_flags v) = (s', 0)"
    using r g a m F(4) by (auto simp: vma_fault_in_def Let_def split: if_splits prod.splits)
  note M = map_in_space_cases [OF F(1) page_user [OF va] map, unfolded if_P [OF refl], folded map_entry_def]
  have same: "unat ?pg div 4096 = unat addr div 4096" unfolding page_of by simp
  note L = leaf_setD [OF conjunct1 [OF M]]
  have "pm s' a = pm ?s2 a" by (rule L(3)) (use F(2,6,9) in auto)
  moreover have "pte s root ?pg = pte s root addr" unfolding pte_def same_page_indices [OF same] by (rule refl)
  moreover have "\<not> vmm_pte_has_frame (pte s root ?pg)" using M F(3) [OF page_user [OF va]] by simp
  ultimately show ?thesis
    using that [OF F(5,4,9) L(1)] L(2) F(3) unfolding same by simp
qed

lemma pte_pm: "pm s = pm s' \<Longrightarrow> pte s root va = pte s' root va"
  unfolding pte_def using walk_pm [of s s'] by (simp split: option.splits)

text \<open>A resolved copy-on-write fault gives the page a fresh frame with the same contents.\<close>

definition cow_entry :: "u64 \<Rightarrow> u64 \<Rightarrow> u64" where
  "cow_entry a e = a OR ((e AND NOT ADDRESS_MASK AND NOT VMM_FLAG_COW) OR VMM_FLAG_RW)"

lemma cow_entry_bits:
  assumes "a AND ADDRESS_MASK = a" "bit e 0"
  shows "bit (cow_entry a e) 0" "bit (cow_entry a e) 1" "\<not> bit (cow_entry a e) 9" "bit (cow_entry a e) 63 \<longleftrightarrow> bit e 63"
    "cow_entry a e AND ADDRESS_MASK = a"
proof -
  have n: "\<not> bit a k" if "\<not> (12 \<le> k \<and> k < 52)" for k
    using arg_cong [OF assms(1), of "\<lambda>x. bit x k"] that by (simp add: bit_and_iff bit_address_mask)
  show "bit (cow_entry a e) 0" "bit (cow_entry a e) 1" "\<not> bit (cow_entry a e) 9" "bit (cow_entry a e) 63 \<longleftrightarrow> bit e 63"
    using assms(2) n by (auto simp: cow_entry_def entry_bits)
  show "cow_entry a e AND ADDRESS_MASK = a" unfolding cow_entry_def
    by (rule entry_mask [OF assms(1)], rule bit_word_eqI) (simp only: entry_bits bit_0_eq bot_apply, auto)
qed

lemma cow_fault_spec:
  assumes ok: "tree_ok s root" and r: "vmm_cow_fault s root vs addr = (s', 0)"
  defines "e \<equiv> pte s root (addr AND NOT 0xFFF)"
  obtains a where "user_va addr" "bit e 0" "bit e 9" "cow_allowed vs (addr AND NOT 0xFFF)"
    "frame_no a \<in> free_set (frames s)" "a AND ADDRESS_MASK = a" "\<And>p. upath p \<Longrightarrow> walk s root p \<noteq> Some a"
    "\<And>vb. user_va vb \<Longrightarrow> pte s' root vb = (if unat vb div 4096 = unat addr div 4096 then cow_entry a e else pte s root vb)"
    "pm s' a = pm s (e AND ADDRESS_MASK)"
    "\<And>x. x \<noteq> a \<Longrightarrow> (\<And>p. upath p \<Longrightarrow> walk s root p \<noteq> Some x) \<Longrightarrow> pm s' x = pm s x"
proof -
  define va where "va = addr AND NOT 0xFFF"
  note e_def = e_def [folded va_def]
  have lim: "\<not> (addr < USER_CODE_BASE \<or> addr \<ge> USER_STACK_TOP)" using r by (auto simp: vmm_cow_fault_def)
  then have "addr < USER_STACK_TOP" by (simp add: not_le)
  then have ua: "user_va addr" unfolding user_va_def by (rule less_le_trans) (simp add: USER_STACK_TOP_def VMM_USER_TOP_def)
  note pva = page_user [OF ua, folded va_def]
  obtain p where gp: "get_pt_space s root va False 0 = (s, p)" and p: "p = walk s root (table_path va)"
    using get_pt_spec(3) [OF ok pva] by (metis prod.collapse)
  obtain t where t: "p = Some t" using r lim gp by (cases p) (auto simp: vmm_cow_fault_def Let_def va_def)
  have e: "pm s t (pt_i va) = e" using p t unfolding e_def pte_def by (metis option.simps(5))
  have c: "bit e 0" "bit e 9" "cow_allowed vs va"
    using r lim gp t unfolding vmm_cow_fault_def Let_def has_bit va_def [symmetric] by (auto simp: e split: if_splits)
  obtain s1 a where g: "get_frame s = (s1, a)" by force
  have a: "a \<noteq> 0"
    using r lim gp t g c unfolding vmm_cow_fault_def Let_def has_bit va_def [symmetric] by (auto simp: e split: if_splits)
  note F = fresh_page [OF ok g a]
  let ?s3 = "set_page s1 a (pm s (e AND ADDRESS_MASK))"
  have s': "s' = tlb_shootdown (set_entry (drop_frame ?s3 (e AND ADDRESS_MASK)) t (pt_i va) (cow_entry a e)) (Some root) va 1"
    using r lim gp t g c a F(4,8) unfolding vmm_cow_fault_def Let_def has_bit va_def [symmetric] cow_entry_def by (simp add: e split: if_splits)
  have pm': "pm s' = pm (set_entry ?s3 t (pt_i va) (cow_entry a e))" unfolding s' by (rule ext) simp
  have t3: "walk ?s3 root (table_path va) = Some t" using F(2) [OF upath_user [OF pva]] p t by simp
  have ta: "t \<noteq> a" using F(9) [OF upath_user [OF pva]] p t by auto
  have same: "unat va div 4096 = unat addr div 4096" unfolding va_def page_of by simp
  have "pte s' root vb = (if unat vb div 4096 = unat addr div 4096 then cow_entry a e else pte s root vb)" if "user_va vb" for vb
    using pte_pm [OF pm', of root vb] set_leaf_pte(2) [OF F(1) pva t3 that] F(3) [OF that] unfolding same by simp
  moreover have "pm s' a = pm s (e AND ADDRESS_MASK)" unfolding pm' using ta by simp
  moreover have "pm s' x = pm s x" if "x \<noteq> a" "\<And>p. upath p \<Longrightarrow> walk s root p \<noteq> Some x" for x
    using that(1) that(2) [OF upath_user [OF pva]] p t F(8) unfolding pm' by auto
  ultimately show ?thesis using that [OF ua c [unfolded va_def] F(5,4,9)] by blast
qed

text \<open>A refused fault changes no entry, whatever it allocated on the way.\<close>

lemma fault_in_refused:
  assumes ok: "tree_ok s root" and va: "user_va addr" and r: "vma_fault_in kmem cache s root v addr = (s', r)" "r \<noteq> 0" and vb: "user_va vb"
  shows "pte s' root vb = pte s root vb"
proof -
  define pg where "pg = addr AND NOT 0xFFF"
  note up = page_user [OF va, folded pg_def]
  have refused: "pte s2 root vb = pte s1 root vb" if "tree_ok s1 root" "vmm_map_in_space s1 root pg x fl = (s2, q)" "q \<noteq> 0" for s1 s2 x fl q
    using map_in_space_cases [OF that(1) up that(2)] that(3) buildsD(6) [OF _ vb] by simp
  consider "s' = s" | "v_type v = VMA_TYPE_PHYS" "vmm_map_in_space s root pg (phys_base v + (pg - v_start v))
      (v_flags v OR VMM_FLAG_DEVICE OR VMM_FLAG_PWT OR VMM_FLAG_NOEXEC) = (s', r)"
    | s1 a where "get_frame s = (s1, a)" "a \<noteq> 0" "v_type v \<noteq> VMA_TYPE_PHYS"
    using r(1) get_frame_fail [OF _ tree_okD(1) [OF ok]] unfolding vma_fault_in_def pg_def [symmetric]
    by (auto simp: Let_def split: if_splits prod.splits)
  then show ?thesis
  proof cases
    case 2
    with refused [OF ok] r(2) show ?thesis by blast
  next
    case (3 s1 a)
    note F = fresh_page [OF ok 3(1,2)]
    let ?w = "page_words (fault_page kmem cache v pg)"
    obtain s2 q where m: "vmm_map_in_space (set_page s1 a ?w) root pg a (v_flags v) = (s2, q)" by force
    have "s' = s \<or> (s' = put_frame s2 a \<and> q \<noteq> 0)" using r 3 m F(4) unfolding vma_fault_in_def pg_def [symmetric]
      by (auto simp: Let_def split: if_splits)
    then show ?thesis
    proof
      assume "s' = put_frame s2 a \<and> q \<noteq> 0"
      then show ?thesis using refused [OF F(1) m] F(3) [OF vb] by (simp add: put_frame_def)
    qed simp
  qed simp
qed

subsection \<open>Progress\<close>

lemma get_frame_some:
  assumes r: "pmm_ready (frames s)" and f: "n \<in> free_set (frames s)" "n < 2 ^ 52 - 1"
  obtains s1 a where "get_frame s = (s1, a)" "a \<noteq> 0"
proof -
  have i: "pmm_inv (frames s)" "g_sectioned (frames s)" using r by (simp_all add: pmm_ready_def)
  obtain p a where p: "pmm_alloc_frame (frames s) = Some (p, a)" "alloc_result (frames s) ones64 p a"
    using alloc_frame_sectioned [OF i, of ones64] unfolding pmm_alloc_frame_def by blast
  have "a \<noteq> 0" using p(2) f unfolding alloc_result_def by (auto split: if_splits)
  with p(1) show ?thesis by (intro that [of "s\<lparr>frames := p\<rparr>" a]) (simp_all add: get_frame_def)
qed

lemma cow_fault_resolves:
  assumes ok: "tree_ok s root" and f: "n \<in> free_set (frames s)" "n < 2 ^ 52 - 1"
    and lim: "USER_CODE_BASE \<le> addr" "addr < USER_STACK_TOP"
    and e: "has (pte s root (addr AND NOT 0xFFF)) VMM_FLAG_PRESENT" "has (pte s root (addr AND NOT 0xFFF)) VMM_FLAG_COW"
    and c: "cow_allowed vs (addr AND NOT 0xFFF)"
  obtains s' where "vmm_cow_fault s root vs addr = (s', 0)"
proof -
  define va where "va = addr AND NOT 0xFFF"
  have "user_va addr" unfolding user_va_def using lim(2) by (rule less_le_trans) (simp add: USER_STACK_TOP_def VMM_USER_TOP_def)
  note pva = page_user [OF this, folded va_def]
  have gp: "get_pt_space s root va False 0 = (s, walk s root (table_path va))"
    using get_pt_spec(3) [OF ok pva] by (metis prod.collapse)
  obtain t where t: "walk s root (table_path va) = Some t"
    using e(1) unfolding va_def [symmetric] pte_def by (auto simp: has_def split: option.splits)
  then have et: "pm s t (pt_i va) = pte s root va" by (simp add: pte_def)
  obtain s1 a where g: "get_frame s = (s1, a)" "a \<noteq> 0" by (rule get_frame_some [OF tree_okD(1) [OF ok] f])
  have "snd (vmm_cow_fault s root vs addr) = 0"
    using lim gp t et g e c unfolding vmm_cow_fault_def va_def [symmetric] by (simp add: Let_def not_le not_less)
  then show ?thesis using that by (metis prod.collapse)
qed

lemma next_table_present: "has (pm s t i) VMM_FLAG_PRESENT \<Longrightarrow> next_table s t i c f = (s, Some (pm s t i AND ADDRESS_MASK))"
  by (simp add: next_table_def)

lemma get_pt_present:
  assumes "root AND ADDRESS_MASK = root" "walk s root (table_path va) = Some t"
  shows "get_pt_space s root va create flags = (s, Some t)"
  using assms unfolding get_pt_space_def table_path_def by (auto simp: walk.simps next_table_present split: if_splits)

text \<open>A page whose table exists is always materialised while a frame is free.\<close>

lemma fault_in_resolves:
  assumes ok: "tree_ok s root" and f: "n \<in> free_set (frames s)" "n < 2 ^ 52 - 1" and va: "user_va addr"
    and v: "v_start v \<le> addr AND NOT 0xFFF" "addr AND NOT 0xFFF < v_end v" "v_type v \<noteq> VMA_TYPE_PHYS"
    and fl: "\<not> has (v_flags v) VMM_FLAG_PROTNONE" "\<not> wx_request (v_flags v)"
    and t: "walk s root (table_path (addr AND NOT 0xFFF)) = Some t" and e: "\<not> vmm_pte_has_frame (pte s root (addr AND NOT 0xFFF))"
  obtains s' where "vma_fault_in kmem cache s root v addr = (s', 0)"
proof -
  define pg where "pg = addr AND NOT 0xFFF"
  obtain s1 a where g: "get_frame s = (s1, a)" "a \<noteq> 0" by (rule get_frame_some [OF tree_okD(1) [OF ok] f])
  note F = fresh_page [OF ok g] and up = page_user [OF va, folded pg_def]
  let ?s2 = "set_page s1 a (page_words (fault_page kmem cache v pg))"
  have w: "walk ?s2 root (table_path pg) = Some t" using F(2) [OF upath_user [OF up]] t unfolding pg_def by simp
  have "pm ?s2 t (pt_i pg) = pte ?s2 root pg" using w by (simp add: pte_def)
  also have "\<dots> = pte s root pg" by (rule F(3) [OF up])
  finally have "\<not> vmm_pte_has_frame (pm ?s2 t (pt_i pg))" using e unfolding pg_def by argo
  moreover have "pg AND 0xFFF = 0" using page_base [of addr] unfolding pg_def .
  moreover have "a AND 0xFFF = 0" using arg_cong [OF F(4), of "\<lambda>x. x AND 0xFFF"] by (simp add: and.assoc ADDRESS_MASK_def)
  moreover have "\<not> 0xFFFF800000000000 \<le> pg" using up unfolding user_va_def VMM_USER_TOP_def not_le by (rule less_trans) simp
  ultimately have m: "snd (vmm_map_in_space ?s2 root pg a (v_flags v)) = 0"
    using fl unfolding vmm_map_in_space_def get_pt_present [OF root_masked [OF ok] w] by simp
  have "snd (vma_fault_in kmem cache s root v addr) = 0"
    using v fl g m F(4) unfolding vma_fault_in_def pg_def [symmetric] by (simp add: Let_def not_le not_less split_beta)
  then show ?thesis using that by (metis prod.collapse)
qed

subsection \<open>Properties\<close>

text \<open>
  C16. A write to a copy-on-write page of a region that permits writing is always resolved while
  a frame is free: the page becomes present and writable on a frame that was free before, with
  the contents of the old frame, no other page of the space changes its entry, and the old
  frame keeps its contents for its other owners.
\<close>

theorem cow_fault_private_copy:
  assumes "tree_ok s root" "n \<in> free_set (frames s)" "n < 2 ^ 52 - 1" "USER_CODE_BASE \<le> addr" "addr < USER_STACK_TOP"
    "has (pte s root (addr AND NOT 0xFFF)) VMM_FLAG_PRESENT" "has (pte s root (addr AND NOT 0xFFF)) VMM_FLAG_COW"
    "cow_allowed vs (addr AND NOT 0xFFF)"
  shows "\<exists>s' a. vmm_cow_fault s root vs addr = (s', 0) \<and> frame_no a \<in> free_set (frames s)
     \<and> (\<forall>vb. user_va vb \<longrightarrow> pte s' root vb = (if unat vb div 4096 = unat addr div 4096
           then cow_entry a (pte s root (addr AND NOT 0xFFF)) else pte s root vb))
     \<and> has (cow_entry a (pte s root (addr AND NOT 0xFFF))) VMM_FLAG_RW
     \<and> cow_entry a (pte s root (addr AND NOT 0xFFF)) AND ADDRESS_MASK = a
     \<and> pm s' a = pm s (pte s root (addr AND NOT 0xFFF) AND ADDRESS_MASK)
     \<and> (\<forall>x. x \<noteq> a \<and> (\<forall>p. upath p \<longrightarrow> walk s root p \<noteq> Some x) \<longrightarrow> pm s' x = pm s x)"
proof -
  obtain s' where r: "vmm_cow_fault s root vs addr = (s', 0)" by (rule cow_fault_resolves [OF assms])
  define e where "e = pte s root (addr AND NOT 0xFFF)"
  obtain a where a: "bit e 0" "frame_no a \<in> free_set (frames s)" "a AND ADDRESS_MASK = a"
    "\<And>vb. user_va vb \<Longrightarrow> pte s' root vb = (if unat vb div 4096 = unat addr div 4096 then cow_entry a e else pte s root vb)"
    "pm s' a = pm s (e AND ADDRESS_MASK)"
    "\<And>x. x \<noteq> a \<Longrightarrow> (\<And>p. upath p \<Longrightarrow> walk s root p \<noteq> Some x) \<Longrightarrow> pm s' x = pm s x"
    unfolding e_def by (rule cow_fault_spec [OF assms(1) r]) blast
  note c = cow_entry_bits(2,5) [OF a(3,1)]
  show ?thesis unfolding e_def [symmetric] has_bit using r a c by blast
qed

definition demo_region :: vma where
  "demo_region = \<lparr>v_start = 0x100000000, v_end = 0x100004000, v_flags = 0x8000000000000007, v_type = VMA_TYPE_ANON, file_base = 0,
    file_off = 0, file_pad = 0, file_len = 0, file_inode = None, file_voff = 0, phys_base = 0\<rparr>"

theorem cow_fault_private_copy_witness:
  "\<exists>s' a. vmm_cow_fault demo_space 0x1000 (Some [demo_region]) 0x100000123 = (s', 0) \<and> frame_no a \<in> {64, 65}
     \<and> pm s' a 7 = 7 \<and> pm s' 0x5000 7 = 7"
proof -
  have p: "(0x100000123 :: u64) AND NOT 0xFFF = 0x100000000" by simp
  have f: "frames demo_space = two_frames" by (simp add: demo_space_def)
  have h: "64 \<in> free_set (frames demo_space)" "USER_CODE_BASE \<le> 0x100000123" "0x100000123 < USER_STACK_TOP"
    "has (pte demo_space 0x1000 (0x100000123 AND NOT 0xFFF)) VMM_FLAG_PRESENT" "has (pte demo_space 0x1000 (0x100000123 AND NOT 0xFFF)) VMM_FLAG_COW"
    "cow_allowed (Some [demo_region]) (0x100000123 AND NOT 0xFFF)"
    unfolding p f two_frames_free demo_pte
    by (simp_all add: USER_CODE_BASE_def USER_STACK_TOP_def has_def flag_defs cow_allowed_def vma_find_def covers_def demo_region_def)
  have n: "(64 :: nat) < 2 ^ 52 - 1" by simp
  have e: "(0x8000000000005205 :: u64) AND ADDRESS_MASK = 0x5000" by (simp add: ADDRESS_MASK_def)
  obtain s' a where r: "vmm_cow_fault demo_space 0x1000 (Some [demo_region]) 0x100000123 = (s', 0)" "frame_no a \<in> {64, 65}"
     "pm s' a = pm demo_space 0x5000" "\<And>x. x \<noteq> a \<Longrightarrow> (\<And>p. upath p \<Longrightarrow> walk demo_space 0x1000 p \<noteq> Some x) \<Longrightarrow> pm s' x = pm demo_space x"
    using cow_fault_private_copy [OF demo_tree h(1) n h(2-6), unfolded p demo_pte e f two_frames_free] by blast
  have "a \<noteq> 0x5000" using r(2) by (auto simp: frame_no_def)
  moreover have "walk demo_space 0x1000 q \<noteq> Some 0x5000" if "upath q" for q using demo_walk [OF that, of "0x5000"] by auto
  ultimately have "pm s' 0x5000 = pm demo_space 0x5000" by (intro r(4)) auto
  with r show ?thesis by (auto simp: demo_space_def)
qed

text \<open>What a serviced fault leaves, by the source of the page.\<close>

definition installed :: "vmm \<Rightarrow> u64 \<Rightarrow> u64 \<Rightarrow> vmm \<Rightarrow> u64 \<Rightarrow> page_src \<Rightarrow> bool" where
  "installed s root addr s' flags src = (\<exists>a fl.
     (\<forall>vb. user_va vb \<longrightarrow> pte s' root vb = (if unat vb div 4096 = unat addr div 4096 then map_entry a fl else pte s root vb))
     \<and> (case src of Src_fill bytes \<Rightarrow> fl = flags \<and> frame_no a \<in> free_set (frames s) \<and> pm s' a = page_words bytes
         | Src_phys ph \<Rightarrow> a = ph \<and> fl = flags OR VMM_FLAG_DEVICE OR VMM_FLAG_PWT OR VMM_FLAG_NOEXEC))"

lemma fault_in_installs:
  assumes ok: "tree_ok s root" and va: "user_va addr" and r: "vma_fault_in kmem cache s root v addr = (s', 0)"
  shows "installed s root addr s' (v_flags v) (page_source kmem cache v (addr AND NOT 0xFFF))"
proof (cases "v_type v = VMA_TYPE_PHYS")
  case True
  define pg where "pg = addr AND NOT 0xFFF"
  have m: "vmm_map_in_space s root pg (phys_base v + (pg - v_start v)) (v_flags v OR VMM_FLAG_DEVICE OR VMM_FLAG_PWT OR VMM_FLAG_NOEXEC) = (s', 0)"
    using r True unfolding vma_fault_in_def pg_def [symmetric] by (simp add: Let_def split: if_splits)
  note L = leaf_setD(2) [OF conjunct1 [OF map_in_space_cases [OF ok page_user [OF va, folded pg_def] m, unfolded if_P [OF refl], folded map_entry_def]]]
  have "unat pg div 4096 = unat addr div 4096" unfolding pg_def page_of by simp
  with L show ?thesis using True unfolding installed_def page_source_def pg_def [symmetric] by auto
next
  case False
  obtain a where "frame_no a \<in> free_set (frames s)"
    "\<And>vb. user_va vb \<Longrightarrow> pte s' root vb = (if unat vb div 4096 = unat addr div 4096 then map_entry a (v_flags v) else pte s root vb)"
    "pm s' a = page_words (fault_page kmem cache v (addr AND NOT 0xFFF))"
    by (rule fault_in_spec [OF ok va False r]) blast
  then show ?thesis using False unfolding installed_def page_source_def by auto
qed

text \<open>
  C22. A fault on a page that is not present is serviced exactly as the region table says.  Outside
  every region it is refused with nothing changed; inside one, a serviced fault installs the
  region's page at the faulting address alone, a device page or a frame that was free and now
  holds the page's bytes, with the region's protection; a refused fault changes no entry.
\<close>

theorem demand_fault_exact:
  assumes "tree_ok s root" "user_va addr" "\<not> bit err 0" "p_space c = Some root"
    "vmm_try_handle_page_fault kmem cache s (Some c) addr err = (s', r)"
  shows "case backing kmem cache (vmas c) addr of None \<Rightarrow> r = -1 \<and> s' = s
     | Some (flags, src) \<Rightarrow> if r = 0 then \<not> has flags VMM_FLAG_PROTNONE \<and> installed s root addr s' flags src
         else (\<forall>vb. user_va vb \<longrightarrow> pte s' root vb = pte s root vb)"
proof (cases "vma_find (vmas c) addr")
  case None
  with assms(3-5) show ?thesis by (simp add: vmm_try_handle_page_fault_def backing_def)
next
  case (Some i)
  let ?v = "vmas c ! i"
  obtain s1 q where f: "vma_fault_in kmem cache s root ?v addr = (s1, q)" by force
  show ?thesis
  proof (cases "has (v_flags ?v) VMM_FLAG_PROTNONE")
    case True
    with assms(3-5) Some show ?thesis by (simp add: vmm_try_handle_page_fault_def backing_def)
  next
    case False
    then have "s' = s1" "r = (if q = 0 then 0 else -1)" using assms(3-5) Some f by (simp_all add: vmm_try_handle_page_fault_def)
    then show ?thesis using Some False f fault_in_installs [OF assms(1,2), of kmem cache ?v] fault_in_refused [OF assms(1,2) f]
      unfolding backing_def by (cases "q = 0") (auto simp del: bit_not_int_iff)
  qed
qed

definition demo_proc :: mproc where
  "demo_proc = \<lparr>p_space = Some 0x1000, vmas = [demo_region], brk_start = 0, brk_cur = 0, mmap_next = 0, mem_limit = 0\<rparr>"

lemma demo_backing: "backing kmem cache [demo_region] 0x100001800 = Some (0x8000000000000007, Src_fill (vma_memset 0 0x1000))"
  by (simp add: backing_def vma_find_def covers_def page_source_def fault_page_def demo_region_def)

theorem demand_fault_exact_witness:
  "\<exists>s'. vmm_try_handle_page_fault (\<lambda>_. 0) (\<lambda>_ _. None) demo_space (Some demo_proc) 0x100001800 4 = (s', 0)
     \<and> installed demo_space 0x1000 0x100001800 s' 0x8000000000000007 (Src_fill (vma_memset 0 0x1000))"
proof -
  have p: "(0x100001800 :: u64) AND NOT 0xFFF = 0x100001000" by simp
  have u: "user_va 0x100001800" by (simp add: user_va_def VMM_USER_TOP_def)
  have h: "64 \<in> free_set (frames demo_space)" "(64 :: nat) < 2 ^ 52 - 1" by (simp_all add: demo_space_def two_frames_free)
  have t: "walk demo_space 0x1000 (table_path (0x100001800 AND NOT 0xFFF)) = Some 0x4000"
    "\<not> vmm_pte_has_frame (pte demo_space 0x1000 (0x100001800 AND NOT 0xFFF))"
    unfolding p demo_indices demo_table demo_pte by (simp_all add: vmm_pte_has_frame_def)
  have v: "v_start demo_region \<le> 0x100001800 AND NOT 0xFFF" "0x100001800 AND NOT 0xFFF < v_end demo_region" "v_type demo_region \<noteq> VMA_TYPE_PHYS"
    "\<not> has (v_flags demo_region) VMM_FLAG_PROTNONE" "\<not> wx_request (v_flags demo_region)"
    unfolding p by (simp_all add: demo_region_def wx_request_def has_def flag_defs)
  obtain s' where f: "vma_fault_in (\<lambda>_. 0) (\<lambda>_ _. None) demo_space 0x1000 demo_region 0x100001800 = (s', 0)"
    by (rule fault_in_resolves [OF demo_tree h u v t])
  have r: "vmm_try_handle_page_fault (\<lambda>_. 0) (\<lambda>_ _. None) demo_space (Some demo_proc) 0x100001800 4 = (s', 0)"
    using f by (simp add: vmm_try_handle_page_fault_def demo_proc_def vma_find_def covers_def bit_numeral_rec)
      (simp add: demo_region_def has_def flag_defs)
  show ?thesis using demand_fault_exact [OF demo_tree u _ _ r] r demo_backing by (simp add: demo_proc_def)
qed

end
