(* ===== verification/Mmap.thy ===== *)
theory Mmap
  imports Vmm_Fault
begin

text \<open>
  The memory system calls (kernel/syscall.c): brk, mmap, munmap and mprotect, and the mapping
  of the frame buffer (drivers/fbdev.c).  They edit the region table of the calling process
  and the leaf entries of its space; pages themselves appear on demand (\<open>Vmm_Fault\<close>).
\<close>

definition USER_MMAP_BASE :: u64 where "USER_MMAP_BASE = 0x300000000"
definition USER_MMAP_END :: u64 where "USER_MMAP_END = 0x3F0000000"
definition PROT_READ :: u32 where "PROT_READ = 1"
definition PROT_WRITE :: u32 where "PROT_WRITE = 2"
definition PROT_EXEC :: u32 where "PROT_EXEC = 4"
definition MAP_SHARED :: u32 where "MAP_SHARED = 1"
definition MAP_PRIVATE :: u32 where "MAP_PRIVATE = 2"
definition MAP_ANONYMOUS :: u32 where "MAP_ANONYMOUS = 0x20"

definition m18_prot_to_flags :: "u32 \<Rightarrow> u64" where
  "m18_prot_to_flags prot =
    (if prot AND (PROT_READ OR PROT_WRITE OR PROT_EXEC) = 0 then VMM_FLAG_PROTNONE OR VMM_FLAG_NOEXEC
     else VMM_FLAG_USER OR (if prot AND PROT_WRITE \<noteq> 0 then VMM_FLAG_RW else 0)
            OR (if prot AND PROT_EXEC = 0 then VMM_FLAG_NOEXEC else 0))"

definition pgup :: "u64 \<Rightarrow> u64" where
  "pgup x = (x + 0xFFF) AND NOT 0xFFF"

definition m18_user_span :: "u64 \<Rightarrow> u64 \<Rightarrow> u64" where
  "m18_user_span addr len =
    (if addr AND 0xFFF \<noteq> 0 \<or> len = 0 then 0
     else if addr < USER_CODE_BASE \<or> addr \<ge> VMM_USER_TOP then 0
     else if len > VMM_USER_TOP - addr then 0
     else if pgup len > VMM_USER_TOP - addr then 0 else pgup len)"

text \<open>The pages a loop from \<open>lo\<close> in steps of a page below \<open>hi\<close> visits.\<close>

definition page_list :: "u64 \<Rightarrow> u64 \<Rightarrow> u64 list" where
  "page_list lo hi = map (\<lambda>k. lo + of_nat k * 0x1000) [0 ..< (unat hi - unat lo + 0xFFF) div 0x1000]"

definition unmap_pages :: "u64 option \<Rightarrow> u64 \<Rightarrow> u64 \<Rightarrow> vmm \<Rightarrow> vmm" where
  "unmap_pages space lo hi s = (case space of None \<Rightarrow> s
     | Some sp \<Rightarrow> fold (\<lambda>va s. fst (vmm_unmap_in_space s sp va)) (page_list lo hi) s)"

definition protect_pages :: "u64 option \<Rightarrow> u64 \<Rightarrow> u64 \<Rightarrow> u64 \<Rightarrow> vmm \<Rightarrow> vmm" where
  "protect_pages space lo hi flags s = (case space of None \<Rightarrow> s
     | Some sp \<Rightarrow> fold (\<lambda>va s. fst (vmm_protect_in_space s sp va flags)) (page_list lo hi) s)"

subsection \<open>brk\<close>

definition heap_flags :: u64 where
  "heap_flags = VMM_FLAG_USER OR VMM_FLAG_RW OR VMM_FLAG_NOEXEC"

definition brk_grow :: "mproc \<Rightarrow> u64 \<Rightarrow> u64 \<Rightarrow> mproc option" where
  "brk_grow c old new_brk =
    (if mem_limit c \<noteq> 0 \<and> vma_total_bytes (vmas c) + (new_brk - old) > mem_limit c then None
     else case (if old > brk_start c then vma_find_mut (vmas c) (old - 1) else None) of
         Some i \<Rightarrow>
           (let h = vmas c ! i in
            if v_end h = old \<and> v_type h = VMA_TYPE_ANON \<and> v_flags h = heap_flags
            then Some (c\<lparr>vmas := (vmas c)[i := h\<lparr>v_end := new_brk\<rparr>]\<rparr>)
            else let (vs, r) = vma_add (vmas c) old new_brk heap_flags VMA_TYPE_ANON 0 0 0 0 in if r \<noteq> 0 then None else Some (c\<lparr>vmas := vs\<rparr>))
       | None \<Rightarrow> let (vs, r) = vma_add (vmas c) old new_brk heap_flags VMA_TYPE_ANON 0 0 0 0 in if r \<noteq> 0 then None else Some (c\<lparr>vmas := vs\<rparr>))"

definition brk_trim :: "u64 \<Rightarrow> u64 \<Rightarrow> u64 \<Rightarrow> vma \<Rightarrow> vma" where
  "brk_trim start new_brk old v =
    (if \<not> live v \<or> v_end v \<le> new_brk \<or> v_start v \<ge> old then v
     else if v_start v < start then v
     else if v_start v \<ge> new_brk then v\<lparr>v_type := VMA_TYPE_NONE, v_start := 0, v_end := 0\<rparr>
     else v\<lparr>v_end := new_brk\<rparr>)"

definition ksys_brk :: "vmm \<Rightarrow> mproc \<Rightarrow> u64 \<Rightarrow> vmm \<times> mproc \<times> u64" where
  "ksys_brk s c new0 =
    (if new0 = 0 then (s, c, brk_cur c)
     else let new_brk = pgup new0; old = brk_cur c in
       if new_brk < brk_start c \<or> new_brk \<ge> USER_MMAP_BASE then (s, c, brk_cur c)
       else if new_brk = old then (s, c, old)
       else if new_brk > old then
         (case brk_grow c old new_brk of None \<Rightarrow> (s, c, old) | Some c \<Rightarrow> (s, c\<lparr>brk_cur := new_brk\<rparr>, new_brk))
       else (unmap_pages (p_space c) new_brk old s,
             c\<lparr>vmas := map (brk_trim (brk_start c) new_brk old) (vmas c), brk_cur := new_brk\<rparr>, new_brk))"

subsection \<open>mmap\<close>

record fdent =
  fd_used :: bool
  fd_is_pipe :: bool
  fd_is_sock :: bool
  fd_inode :: "nat option"
  fd_flags :: u32

text \<open>What the file systems say of an inode, and the frame buffer, if there is one.\<close>

record inode_env =
  devfs_is_fb :: "nat \<Rightarrow> bool"
  input_is_client :: "nat \<Rightarrow> bool"
  no_cache :: "nat \<Rightarrow> bool"
  fb_info :: "(u64 \<times> u32 \<times> u32) option"

definition raw_size :: "u32 \<Rightarrow> u32 \<Rightarrow> u64" where
  "raw_size pitch height = ucast pitch * ucast height"

fun fault_all :: "kmem \<Rightarrow> page_cache \<Rightarrow> u64 \<Rightarrow> vma \<Rightarrow> u64 list \<Rightarrow> vmm \<Rightarrow> vmm" where
  "fault_all kmem cache sp v [] s = s"
| "fault_all kmem cache sp v (va # vas) s =
    (let (s, r) = vma_fault_in kmem cache s sp v va in if r \<noteq> 0 \<and> r \<noteq> -3 then s else fault_all kmem cache sp v vas s)"

definition fbdev_mmap :: "inode_env \<Rightarrow> kmem \<Rightarrow> page_cache \<Rightarrow> vmm \<Rightarrow> mproc \<Rightarrow> u64 \<Rightarrow> u32 \<Rightarrow> u32 \<Rightarrow> u64 \<Rightarrow> vmm \<times> mproc \<times> u64" where
  "fbdev_mmap env kmem cache s c len0 prot flags off =
    (case fb_info env of None \<Rightarrow> (s, c, - 19)
     | Some (addr, pitch, height) \<Rightarrow>
       if flags AND MAP_SHARED = 0 \<or> flags AND MAP_PRIVATE \<noteq> 0 \<or> flags AND MAP_ANONYMOUS \<noteq> 0 then (s, c, - 22)
       else if prot AND PROT_EXEC \<noteq> 0 then (s, c, - 13)
       else if prot AND (PROT_READ OR PROT_WRITE) = 0 then (s, c, - 22)
       else if addr AND 0xFFF \<noteq> 0 \<or> off AND 0xFFF \<noteq> 0 \<or> len0 = 0 then (s, c, - 22)
       else let fb_size = (raw_size pitch height + 0xFFF) AND NOT 0xFFF; len = (len0 + 0xFFF) AND NOT 0xFFF in
         if len = 0 \<or> off \<ge> fb_size \<or> len > fb_size - off then (s, c, - 22)
         else let base = mmap_next c in
           if base \<ge> USER_MMAP_END \<or> len > USER_MMAP_END - base then (s, c, - 12)
           else if mem_limit c \<noteq> 0 \<and> vma_total_bytes (vmas c) + len > mem_limit c then (s, c, - 12)
           else let vf = VMM_FLAG_USER OR VMM_FLAG_NOEXEC OR (if prot AND PROT_WRITE \<noteq> 0 then VMM_FLAG_RW else 0);
                    (vs, r) = vma_add_phys (vmas c) base (base + len) vf (addr + off) in
             if r \<noteq> 0 then (s, c\<lparr>vmas := vs\<rparr>, - 12)
             else let c = c\<lparr>vmas := vs, mmap_next := base + len\<rparr>;
                      s = (case (p_space c, vma_find vs base) of
                             (Some sp, Some i) \<Rightarrow> fault_all kmem cache sp (vs ! i) (page_list base (base + len)) s
                           | _ \<Rightarrow> s)
               in (s, c, base))"

text \<open>The descriptor of a mapping request, when it is open and names a file.\<close>

definition map_fd :: "(nat \<Rightarrow> fdent) \<Rightarrow> int \<Rightarrow> (fdent \<times> nat) option" where
  "map_fd fds fd = (if fd < 0 \<or> fd \<ge> 32 then None
     else let f = fds (nat fd) in
       if \<not> fd_used f \<or> fd_is_pipe f \<or> fd_is_sock f then None else map_option (Pair f) (fd_inode f))"

definition ksys_mmap6 :: "inode_env \<Rightarrow> (nat \<Rightarrow> fdent) \<Rightarrow> kmem \<Rightarrow> page_cache \<Rightarrow> vmm \<Rightarrow> mproc \<Rightarrow> u64 \<Rightarrow> u32 \<Rightarrow> u32 \<Rightarrow> int \<Rightarrow> u64 \<Rightarrow> vmm \<times> mproc \<times> u64" where
  "ksys_mmap6 env fds kmem cache s c len0 prot flags fd off =
    (let anon = flags AND MAP_ANONYMOUS \<noteq> 0; file = (if anon then None else map_fd fds fd) in
     if len0 = 0 then (s, c, - 1)
     else if (case file of None \<Rightarrow> False | Some (f, _) \<Rightarrow> fd_flags f AND 3 = 1
                 \<or> flags AND MAP_SHARED \<noteq> 0 \<and> prot AND PROT_WRITE \<noteq> 0 \<and> fd_flags f AND 3 \<noteq> 2) then (s, c, - 13)
     else if (case file of None \<Rightarrow> False | Some (_, ino) \<Rightarrow> devfs_is_fb env ino) then fbdev_mmap env kmem cache s c len0 prot flags off
     else if (case file of None \<Rightarrow> False | Some (_, ino) \<Rightarrow> input_is_client env ino) then (s, c, - 19)
     else if prot AND PROT_WRITE \<noteq> 0 \<and> prot AND PROT_EXEC \<noteq> 0 then (s, c, - 1)
     else let base = mmap_next c in
       if base \<ge> USER_MMAP_END \<or> len0 > USER_MMAP_END - base then (s, c, - 1)
       else let len = pgup len0 in
         if len > USER_MMAP_END - base then (s, c, - 1)
         else if mem_limit c \<noteq> 0 \<and> vma_total_bytes (vmas c) + len > mem_limit c then (s, c, - 1)
         else if anon then
           (let (vs, r) = vma_add (vmas c) base (base + len) (m18_prot_to_flags prot) VMA_TYPE_ANON 0 0 0 0 in
            if r \<noteq> 0 then (s, c, - 1) else (s, c\<lparr>vmas := vs, mmap_next := base + len\<rparr>, base))
         else case file of None \<Rightarrow> (s, c, - 1)
           | Some (_, ino) \<Rightarrow>
               if no_cache env ino then (s, c, - 19)
               else let (vs, r) = vma_add_file (vmas c) base (base + len) (m18_prot_to_flags prot) ino 0 in
                 if r \<noteq> 0 then (s, c\<lparr>vmas := vs\<rparr>, - 1) else (s, c\<lparr>vmas := vs, mmap_next := base + len\<rparr>, base))"

definition ksys_mmap :: "inode_env \<Rightarrow> (nat \<Rightarrow> fdent) \<Rightarrow> kmem \<Rightarrow> page_cache \<Rightarrow> vmm \<Rightarrow> mproc \<Rightarrow> u64 \<Rightarrow> u32 \<Rightarrow> u32 \<Rightarrow> int \<Rightarrow> vmm \<times> mproc \<times> u64" where
  "ksys_mmap env fds kmem cache s c len prot flags fd = ksys_mmap6 env fds kmem cache s c len prot flags fd 0"

subsection \<open>munmap\<close>

definition touches :: "u64 \<Rightarrow> u64 \<Rightarrow> vma \<Rightarrow> bool" where
  "touches addr en v \<longleftrightarrow> live v \<and> addr < v_end v \<and> v_start v < en"

definition overlap_lo :: "u64 \<Rightarrow> vma \<Rightarrow> u64" where
  "overlap_lo addr v = (if addr > v_start v then addr else v_start v)"

definition overlap_hi :: "u64 \<Rightarrow> vma \<Rightarrow> u64" where
  "overlap_hi en v = (if en < v_end v then en else v_end v)"

definition munmap_ptes :: "u64 option \<Rightarrow> u64 \<Rightarrow> u64 \<Rightarrow> vma_set \<Rightarrow> vmm \<Rightarrow> vmm" where
  "munmap_ptes space addr en vs s = fold (\<lambda>v s. if touches addr en v
     then unmap_pages space (overlap_lo addr v AND NOT 0xFFF) (overlap_hi en v) s else s) vs s"

text \<open>What happens to the region in slot \<open>i\<close>.\<close>

definition munmap_slot :: "u64 \<Rightarrow> u64 \<Rightarrow> vma_set \<Rightarrow> nat \<Rightarrow> vma_set" where
  "munmap_slot addr en vs i =
    (let v = vs ! i in
     if \<not> touches addr en v then vs
     else if addr \<le> v_start v \<and> en \<ge> v_end v then vma_remove vs i
     else if addr \<le> v_start v then vs[i := v\<lparr>v_start := en\<rparr>]
     else if en \<ge> v_end v then vs[i := v\<lparr>v_end := addr\<rparr>]
     else if v_type v = VMA_TYPE_PHYS then
       (let vs = fst (vma_split vs i en) in vs[i := (vs ! i)\<lparr>v_end := addr\<rparr>])
     else let old_end = v_end v; vs = vs[i := v\<lparr>v_end := addr\<rparr>] in
       if v_type v = VMA_TYPE_ANON then fst (vma_add vs en old_end (v_flags v) VMA_TYPE_ANON 0 0 0 0) else vs)"

lemma length_vma_put: "vma_put vs v = Some (vs', n) \<Longrightarrow> length vs \<le> length vs' \<and> max VMA_MAX (length vs') = max VMA_MAX (length vs)"
  by (auto simp: vma_put_def split: option.splits if_splits)

lemma length_vma_add:
  "length vs \<le> length (fst (vma_add vs a b f t w x y z)) \<and> max VMA_MAX (length (fst (vma_add vs a b f t w x y z))) = max VMA_MAX (length vs)"
  using length_vma_put [of vs] by (auto simp: vma_add_def split: option.splits)

lemma length_vma_split:
  "length vs \<le> length (fst (vma_split vs i a)) \<and> max VMA_MAX (length (fst (vma_split vs i a))) = max VMA_MAX (length vs)"
  using length_vma_add [of vs "v_start (split_hi (vs ! i) a)" "v_end (split_hi (vs ! i) a)" "v_flags (split_hi (vs ! i) a)" "v_type (split_hi (vs ! i) a)"
      "file_base (split_hi (vs ! i) a)" "file_off (split_hi (vs ! i) a)" "file_pad (split_hi (vs ! i) a)" "file_len (split_hi (vs ! i) a)"]
  unfolding vma_split_def Let_def by (auto split: option.splits prod.splits if_splits)

lemma length_split_eq: "(vs', r) = vma_split vs i a \<Longrightarrow> max VMA_MAX (length vs') = max VMA_MAX (length vs)"
  using length_vma_split [of vs i a] by (metis fst_conv)

lemma length_munmap_slot:
  "length vs \<le> length (munmap_slot a b vs i) \<and> max VMA_MAX (length (munmap_slot a b vs i)) = max VMA_MAX (length vs)"
  using length_vma_split [of vs i b] length_vma_add [of "vs[i := (vs ! i)\<lparr>v_end := a\<rparr>]"]
  by (simp add: munmap_slot_def Let_def vma_remove_def)

text \<open>The loops over the table: it may grow under them, but never past its size.\<close>

function munmap_loop :: "u64 \<Rightarrow> u64 \<Rightarrow> vma_set \<Rightarrow> nat \<Rightarrow> vma_set" where
  "munmap_loop addr en vs i = (if i < length vs then munmap_loop addr en (munmap_slot addr en vs i) (i + 1) else vs)"
  by pat_completeness auto

termination munmap_loop
proof (relation "measure (\<lambda>(a, b, vs, i). max VMA_MAX (length vs) - i)")
  fix a b vs i assume "i < length (vs :: vma_set)"
  then show "((a, b, munmap_slot a b vs i, i + 1), a, b, vs, i) \<in> measure (\<lambda>(a, b, vs, i). max VMA_MAX (length vs) - i)"
    using length_munmap_slot [of vs a b i] by auto
qed simp

declare munmap_loop.simps [simp del]

definition ksys_munmap :: "vmm \<Rightarrow> mproc \<Rightarrow> u64 \<Rightarrow> u64 \<Rightarrow> vmm \<times> mproc \<times> int" where
  "ksys_munmap s c addr len0 =
    (let len = m18_user_span addr len0; en = addr + len in
     if len = 0 then (s, c, -1)
     else (munmap_ptes (p_space c) addr en (vmas c) s, c\<lparr>vmas := munmap_loop addr en (vmas c) 0\<rparr>, 0))"

subsection \<open>mprotect\<close>

function split_loop :: "u64 \<Rightarrow> vma_set \<Rightarrow> nat \<Rightarrow> vma_set \<times> bool" where
  "split_loop addr vs i =
    (if i < length vs then
       let v = vs ! i in
       if live v \<and> v_start v < addr \<and> addr < v_end v
       then (let (vs', r) = vma_split vs i addr in if r \<noteq> 0 then (vs', False) else split_loop addr vs' (i + 1))
       else split_loop addr vs (i + 1)
     else (vs, True))"
  by pat_completeness auto

termination split_loop
  by (relation "measure (\<lambda>(a, vs, i). max VMA_MAX (length vs) - i)") (auto dest!: length_split_eq)

declare split_loop.simps [simp del]

definition set_range_flags :: "u64 \<Rightarrow> u64 \<Rightarrow> u64 \<Rightarrow> vma \<Rightarrow> vma" where
  "set_range_flags addr en f v = (if live v \<and> addr \<le> v_start v \<and> v_end v \<le> en then v\<lparr>v_flags := f\<rparr> else v)"

definition mprotect_ptes :: "u64 option \<Rightarrow> u64 \<Rightarrow> u64 \<Rightarrow> u64 \<Rightarrow> vma_set \<Rightarrow> vmm \<Rightarrow> vmm" where
  "mprotect_ptes space addr en f vs s = fold (\<lambda>v s. if touches addr en v
     then protect_pages space (overlap_lo addr v AND NOT 0xFFF) (overlap_hi en v) f s else s) vs s"

definition ksys_mprotect :: "vmm \<Rightarrow> mproc \<Rightarrow> u64 \<Rightarrow> u64 \<Rightarrow> u32 \<Rightarrow> vmm \<times> mproc \<times> int" where
  "ksys_mprotect s c addr len0 prot =
    (if prot AND PROT_WRITE \<noteq> 0 \<and> prot AND PROT_EXEC \<noteq> 0 then (s, c, -1)
     else let len = m18_user_span addr len0; en = addr + len in
       if len = 0 then (s, c, -1)
       else if \<not> vma_overlaps (vmas c) addr en then (s, c, -1)
       else if prot AND PROT_EXEC \<noteq> 0 \<and> (\<exists>v \<in> set (vmas c). v_type v = VMA_TYPE_PHYS \<and> addr < v_end v \<and> v_start v < en) then (s, c, -1)
       else let newf = m18_prot_to_flags prot; (vs, ok) = split_loop addr (vmas c) 0 in
         if \<not> ok then (s, c\<lparr>vmas := vs\<rparr>, -1)
         else let (vs, ok) = split_loop en vs 0 in
           if \<not> ok then (s, c\<lparr>vmas := vs\<rparr>, -1)
           else let vs = map (set_range_flags addr en newf) vs
             in (mprotect_ptes (p_space c) addr en newf vs s, c\<lparr>vmas := vs\<rparr>, 0))"

end
