(* ===== verification/Mmap_Ptes.thy ===== *)
theory Mmap_Ptes
  imports Mmap
begin

text \<open>
  What munmap and mprotect do to the page tables: the loops over the pages of a range change the
  leaf entries of exactly the mapped pages of the regions in the range, and invalidate each of
  them.
\<close>

lemma and_not_disjoint: "x AND m = 0 \<Longrightarrow> x AND NOT m = x" for x m :: "'a::len word"
  by (metis bit.conj_disj_distrib bit.disj_cancel_right bit.conj_one_right or.left_neutral)

lemma page_aligned_base: "page_aligned x \<Longrightarrow> x AND NOT 0xFFF = x"
  unfolding page_aligned_def by (rule and_not_disjoint)

subsection \<open>One page\<close>

text \<open>The tables of a space without regard to the frames its pages use.\<close>

definition tables_ok :: "vmm \<Rightarrow> u64 \<Rightarrow> bool" where
  "tables_ok s root \<longleftrightarrow> (\<exists>f. tree_ok (s\<lparr>frames := f\<rparr>) root)"

lemma tree_tables: "tree_ok s root \<Longrightarrow> tables_ok s root"
  unfolding tables_ok_def by (rule exI [of _ "frames s"]) simp

lemma tree_ok_same: "pm s = pm s' \<Longrightarrow> frames s = frames s' \<Longrightarrow> tree_ok s root = tree_ok s' root"
  using walk_pm [of s s'] by (simp add: tree_ok_def held_table_def)

lemma pte_frames [simp]: "pte (s\<lparr>frames := f\<rparr>) root va = pte s root va"
  by (rule pte_pm) simp

lemma pte_same_page: "unat vb div 4096 = unat va div 4096 \<Longrightarrow> pte s root vb = pte s root va"
  using same_page_indices [of vb va] by (simp add: pte_def split: option.splits)

lemma get_pt_lookup:
  "get_pt_space s root va False fl = (s, walk s (root AND ADDRESS_MASK) (table_path va))"
  by (simp add: get_pt_space_def next_table_def table_path_def walk.simps)

definition clear_pte :: "u64 \<Rightarrow> u64" where
  "clear_pte e = (if vmm_pte_has_frame e then 0 else e)"

lemma no_frame_0 [simp]: "\<not> vmm_pte_has_frame 0"
  by (simp add: vmm_pte_has_frame_def)

lemma drop_frame_shootdowns [simp]: "shootdowns (drop_frame s a) = shootdowns s"
  by (simp add: drop_frame_def put_frame_def split_beta Let_def)

text \<open>Every leaf entry of the user half changes by \<open>g\<close> if \<open>P\<close> holds of its page, and not otherwise.\<close>

definition edits :: "(u64 \<Rightarrow> u64) \<Rightarrow> (nat \<Rightarrow> bool) \<Rightarrow> u64 \<Rightarrow> vmm \<Rightarrow> vmm \<Rightarrow> bool" where
  "edits g P root s s' \<longleftrightarrow> (\<forall>vb. user_va vb \<longrightarrow> pte s' root vb = (if P (unat vb div 4096) then g (pte s root vb) else pte s root vb))"

lemma edits_trans:
  "edits g P root s t \<Longrightarrow> edits g Q root t u \<Longrightarrow> (\<And>e. g (g e) = g e) \<Longrightarrow> edits g (\<lambda>n. P n \<or> Q n) root s u"
  by (auto simp: edits_def)

lemma edits_page:
  assumes "\<And>vb. user_va vb \<Longrightarrow> pte s' root vb = (if unat vb div 4096 = unat va div 4096 then g (pte s root va) else pte s root vb)"
  shows "edits g (\<lambda>n. n = unat va div 4096) root s s'"
  unfolding edits_def
proof (intro allI impI)
  fix vb assume "user_va vb"
  then show "pte s' root vb = (if unat vb div 4096 = unat va div 4096 then g (pte s root vb) else pte s root vb)"
    using assms [of vb] pte_same_page [of vb va s root] by presburger
qed

lemma edits_none: "g (pte s root va) = pte s root va \<Longrightarrow> edits g (\<lambda>n. n = unat va div 4096) root s s"
proof (rule edits_page)
  fix vb assume "g (pte s root va) = pte s root va"
  then show "pte s root vb = (if unat vb div 4096 = unat va div 4096 then g (pte s root va) else pte s root vb)"
    using pte_same_page [of vb va s root] by presburger
qed

lemma unmap_page:
  assumes t: "tables_ok s root" and va: "user_va va" "va AND 0xFFF = 0"
  defines "s' \<equiv> fst (vmm_unmap_in_space s root va)"
  shows "tables_ok s' root" "edits clear_pte (\<lambda>n. n = unat va div 4096) root s s'"
    "set (shootdowns s') = set (shootdowns s) \<union> (if vmm_pte_has_frame (pte s root va) then {(Some root, va, 1)} else {})"
proof -
  obtain f where f: "tree_ok (s\<lparr>frames := f\<rparr>) root" using t by (auto simp: tables_ok_def)
  have rm: "root AND ADDRESS_MASK = root" by (rule root_masked [OF f])
  have W: "walk (s\<lparr>frames := f\<rparr>) root p = walk s root p" for p by (rule walk_pm) simp
  have nt: "\<not> va \<ge> VMM_USER_TOP" using va(1) by (simp add: user_va_def)
  have "tables_ok s' root \<and> edits clear_pte (\<lambda>n. n = unat va div 4096) root s s' \<and>
    set (shootdowns s') = set (shootdowns s) \<union> (if vmm_pte_has_frame (pte s root va) then {(Some root, va, 1)} else {})"
  proof (cases "vmm_pte_has_frame (pte s root va)")
    case False
    then have "s' = s" using va nt
      by (auto simp: s'_def vmm_unmap_in_space_def get_pt_lookup rm pte_def Let_def split: option.splits)
    then show ?thesis using t False edits_none [of clear_pte s root va] by (simp add: clear_pte_def)
  next
    case True
    then obtain pt where pt: "walk s root (table_path va) = Some pt" "pte s root va = pm s pt (pt_i va)"
      by (cases "walk s root (table_path va)") (simp_all add: pte_def)
    let ?e = "set_entry s pt (pt_i va) 0"
    have s': "pm s' = pm ?e" "shootdowns s' = shootdowns s @ [(Some root, va, 1)]"
      using True pt va nt by (simp_all add: s'_def vmm_unmap_in_space_def get_pt_lookup rm Let_def tlb_shootdown_def set_entry_def)
    note S = set_leaf_pte [OF f va(1), where e = 0, unfolded W, OF pt(1)]
    have e: "set_entry (s\<lparr>frames := f\<rparr>) pt (pt_i va) 0 = ?e\<lparr>frames := f\<rparr>" by (simp add: set_entry_def)
    have "tree_ok (s'\<lparr>frames := f\<rparr>) root" using S(1) tree_ok_same [of "?e\<lparr>frames := f\<rparr>" "s'\<lparr>frames := f\<rparr>" root] s'(1) unfolding e by simp
    moreover have "edits clear_pte (\<lambda>n. n = unat va div 4096) root s s'"
      by (rule edits_page) (use S(2) True in \<open>simp add: e clear_pte_def pte_pm [OF s'(1)]\<close>)
    ultimately show ?thesis using s'(2) True by (auto simp: tables_ok_def)
  qed
  then show "tables_ok s' root" "edits clear_pte (\<lambda>n. n = unat va div 4096) root s s'"
    "set (shootdowns s') = set (shootdowns s) \<union> (if vmm_pte_has_frame (pte s root va) then {(Some root, va, 1)} else {})" by blast+
qed

text \<open>What mprotect does to a leaf entry.\<close>

definition change_pte :: "pmm \<Rightarrow> u64 \<Rightarrow> u64 \<Rightarrow> u64" where
  "change_pte p flags e = (if vmm_pte_has_frame e then protect_entry e flags (pmm_frame_shared p (e AND ADDRESS_MASK)) else e)"

lemma protect_page:
  assumes t: "tree_ok s root" and va: "user_va va" "va AND 0xFFF = 0" and w: "\<not> wx_request flags"
  defines "s' \<equiv> fst (vmm_protect_in_space s root va flags)"
  shows "tree_ok s' root" "frames s' = frames s" "edits (change_pte (frames s) flags) (\<lambda>n. n = unat va div 4096) root s s'"
    "set (shootdowns s') = set (shootdowns s) \<union> (if vmm_pte_has_frame (pte s root va) then {(Some root, va, 1)} else {})"
proof -
  have rm: "root AND ADDRESS_MASK = root" by (rule root_masked [OF t])
  have nt: "\<not> va \<ge> VMM_USER_TOP" using va(1) by (simp add: user_va_def)
  have "tree_ok s' root \<and> frames s' = frames s \<and> edits (change_pte (frames s) flags) (\<lambda>n. n = unat va div 4096) root s s' \<and>
    set (shootdowns s') = set (shootdowns s) \<union> (if vmm_pte_has_frame (pte s root va) then {(Some root, va, 1)} else {})"
  proof (cases "vmm_pte_has_frame (pte s root va)")
    case False
    then have "s' = s" using va nt w
      by (auto simp: s'_def vmm_protect_in_space_def get_pt_lookup rm pte_def Let_def split: option.splits)
    then show ?thesis using t False edits_none [of "change_pte (frames s) flags" s root va] by (simp add: change_pte_def)
  next
    case True
    then obtain pt where pt: "walk s root (table_path va) = Some pt" "pte s root va = pm s pt (pt_i va)"
      by (cases "walk s root (table_path va)") (simp_all add: pte_def)
    let ?n = "change_pte (frames s) flags (pte s root va)"
    let ?e = "set_entry s pt (pt_i va) ?n"
    have s': "pm s' = pm ?e" "frames s' = frames ?e" "shootdowns s' = shootdowns s @ [(Some root, va, 1)]"
      using True pt va nt w by (simp_all add: s'_def vmm_protect_in_space_def get_pt_lookup rm Let_def tlb_shootdown_def set_entry_def change_pte_def)
    note S = set_leaf_pte [OF t va(1) pt(1), where e = ?n]
    have "tree_ok s' root" using S(1) tree_ok_same [OF s'(1,2), of root] by simp
    moreover have "edits (change_pte (frames s) flags) (\<lambda>n. n = unat va div 4096) root s s'"
      by (rule edits_page) (use S(2) in \<open>simp add: pte_pm [OF s'(1)]\<close>)
    ultimately show ?thesis using s'(2,3) True by simp
  qed
  then show "tree_ok s' root" "frames s' = frames s" "edits (change_pte (frames s) flags) (\<lambda>n. n = unat va div 4096) root s s'"
    "set (shootdowns s') = set (shootdowns s) \<union> (if vmm_pte_has_frame (pte s root va) then {(Some root, va, 1)} else {})" by blast+
qed

subsection \<open>The pages of a range\<close>

lemma page_list_iff:
  assumes al: "page_aligned lo" "page_aligned hi"
  shows "va \<in> set (page_list lo hi) \<longleftrightarrow> va AND 0xFFF = 0 \<and> lo \<le> va \<and> va < hi"
proof -
  obtain l h where l: "unat lo = 4096 * l" and h: "unat hi = 4096 * h"
    using al unfolding page_aligned_iff by (metis dvd_def mod_eq_0_iff_dvd)
  have n: "(unat hi - unat lo + 0xFFF) div 0x1000 = h - l" unfolding l h by (simp add: diff_mult_distrib2 [symmetric])
  have u: "unat (lo + of_nat k * 0x1000) = 4096 * (l + k)" if "k < h - l" for k
  proof -
    have "4096 * (l + k) < unat hi" using that unfolding h by simp
    then have b: "4096 * (l + k) < 2 ^ 64" using unat64_lt by (rule less_trans)
    then have "unat (of_nat k * 0x1000 :: u64) = k * 4096" by (subst unat_word_ariths(2)) (simp add: unat_of_nat)
    with b l show ?thesis by (subst unat_add64) simp_all
  qed
  show ?thesis
  proof
    assume "va \<in> set (page_list lo hi)"
    then obtain k where k: "k < h - l" "va = lo + of_nat k * 0x1000" by (auto simp: page_list_def n)
    note U = u [OF k(1), folded k(2)]
    have "page_aligned va" using U by (simp add: page_aligned_iff)
    then show "va AND 0xFFF = 0 \<and> lo \<le> va \<and> va < hi" using k(1) U by (simp add: word_nat_order l h page_aligned_def)
  next
    assume a: "va AND 0xFFF = 0 \<and> lo \<le> va \<and> va < hi"
    then obtain q where q: "unat va = 4096 * q" by (metis page_aligned_def page_aligned_iff dvd_def mod_eq_0_iff_dvd)
    with a have b: "l \<le> q" "q < h" by (simp_all add: word_nat_order l h)
    then have "va = lo + of_nat (q - l) * 0x1000" using u [of "q - l"] q by (simp add: word_unat_eq_iff)
    then show "va \<in> set (page_list lo hi)" using b by (auto simp: page_list_def n intro!: image_eqI [of _ _ "q - l"])
  qed
qed

text \<open>The entries of the pages that satisfy \<open>P\<close> are changed by \<open>g\<close>, and each that was mapped is invalidated.\<close>

definition swept :: "(u64 \<Rightarrow> u64) \<Rightarrow> u64 \<Rightarrow> (nat \<Rightarrow> bool) \<Rightarrow> vmm \<Rightarrow> vmm \<Rightarrow> bool" where
  "swept g root P s s' \<longleftrightarrow> edits g P root s s' \<and> set (shootdowns s) \<subseteq> set (shootdowns s')
     \<and> (\<forall>va. user_va va \<and> va AND 0xFFF = 0 \<and> P (unat va div 4096) \<and> vmm_pte_has_frame (pte s root va) \<longrightarrow> (Some root, va, 1) \<in> set (shootdowns s'))"

lemma swept_refl: "swept g root (\<lambda>_. False) s s"
  by (simp add: swept_def edits_def)

lemma swept_trans:
  assumes a: "swept g root P s t" and b: "swept g root Q t u" and g: "\<And>e. g (g e) = g e"
  shows "swept g root (\<lambda>n. P n \<or> Q n) s u"
  unfolding swept_def
proof (intro conjI allI impI)
  show "edits g (\<lambda>n. P n \<or> Q n) root s u" using a b g edits_trans unfolding swept_def by blast
  show "set (shootdowns s) \<subseteq> set (shootdowns u)" using a b unfolding swept_def by blast
  fix va assume va: "user_va va \<and> va AND 0xFFF = 0 \<and> (P (unat va div 4096) \<or> Q (unat va div 4096)) \<and> vmm_pte_has_frame (pte s root va)"
  show "(Some root, va, 1) \<in> set (shootdowns u)"
  proof (cases "P (unat va div 4096)")
    case True
    with va a b show ?thesis unfolding swept_def by blast
  next
    case False
    then have "pte t root va = pte s root va" using a va unfolding swept_def edits_def by simp
    with va b False show ?thesis unfolding swept_def by metis
  qed
qed

text \<open>What the loops need of an operation on one page.\<close>

locale page_op =
  fixes root :: u64 and good :: "vmm \<Rightarrow> bool" and step :: "u64 \<Rightarrow> vmm \<Rightarrow> vmm" and g :: "u64 \<Rightarrow> u64"
  assumes step_good: "good s \<Longrightarrow> user_va va \<Longrightarrow> va AND 0xFFF = 0 \<Longrightarrow> good (step va s)"
    and step_edits: "good s \<Longrightarrow> user_va va \<Longrightarrow> va AND 0xFFF = 0 \<Longrightarrow> edits g (\<lambda>n. n = unat va div 4096) root s (step va s)"
    and step_flush: "good s \<Longrightarrow> user_va va \<Longrightarrow> va AND 0xFFF = 0 \<Longrightarrow> set (shootdowns (step va s)) =
      set (shootdowns s) \<union> (if vmm_pte_has_frame (pte s root va) then {(Some root, va, 1)} else {})"
    and idem: "g (g e) = g e"
begin

lemma step_swept:
  assumes s: "good s" "user_va va" "va AND 0xFFF = 0"
  shows "swept g root (\<lambda>n. n = unat va div 4096) s (step va s)"
  unfolding swept_def
proof (intro conjI allI impI)
  fix vb assume vb: "user_va vb \<and> vb AND 0xFFF = 0 \<and> unat vb div 4096 = unat va div 4096 \<and> vmm_pte_has_frame (pte s root vb)"
  then have "page_aligned vb" "page_aligned va" using s(3) by (simp_all add: page_aligned_def)
  then have "unat vb = unat va" using vb by (simp add: page_aligned_iff) (metis div_mult_mod_eq)
  then have "vb = va" by (simp add: word_unat_eq_iff)
  with vb step_flush [OF s] show "(Some root, vb, 1) \<in> set (shootdowns (step va s))" by simp
qed (use step_edits [OF s] step_flush [OF s] in simp_all)

lemma fold_pages:
  "good s \<Longrightarrow> (\<And>va. va \<in> set L \<Longrightarrow> user_va va \<and> va AND 0xFFF = 0) \<Longrightarrow>
    good (fold step L s) \<and> swept g root (\<lambda>n. \<exists>va\<in>set L. n = unat va div 4096) s (fold step L s)"
proof (induction L arbitrary: s)
  case Nil
  then show ?case by (simp add: swept_refl)
next
  case (Cons va L)
  have v: "user_va va" "va AND 0xFFF = 0" using Cons.prems(2) [of va] by simp_all
  have i: "good (fold step L (step va s)) \<and> swept g root (\<lambda>n. \<exists>va\<in>set L. n = unat va div 4096) (step va s) (fold step L (step va s))"
    by (rule Cons.IH [OF step_good [OF Cons.prems(1) v]]) (use Cons.prems(2) in simp)
  with swept_trans [OF step_swept [OF Cons.prems(1) v] conjunct2 [OF i] idem] show ?case by simp
qed

lemma fold_regions:
  assumes "good s" "\<And>v. v \<in> set vs \<Longrightarrow> T v \<Longrightarrow> \<forall>va \<in> set (L v). user_va va \<and> va AND 0xFFF = 0"
  shows "swept g root (\<lambda>n. \<exists>v\<in>set vs. T v \<and> (\<exists>va\<in>set (L v). n = unat va div 4096)) s (fold (\<lambda>v s. if T v then fold step (L v) s else s) vs s)"
  using assms
proof (induction vs arbitrary: s)
  case Nil
  then show ?case by (simp add: swept_refl)
next
  case (Cons v vs)
  let ?s = "if T v then fold step (L v) s else s"
  have "good (fold step (L v) s) \<and> swept g root (\<lambda>n. \<exists>va\<in>set (L v). n = unat va div 4096) s (fold step (L v) s)" if "T v"
    by (rule fold_pages [OF Cons.prems(1)]) (use Cons.prems(2) [of v] that in simp)
  then have h: "good ?s" "swept g root (\<lambda>n. T v \<and> (\<exists>va\<in>set (L v). n = unat va div 4096)) s ?s"
    using Cons.prems(1) swept_refl [of g root s] by (cases "T v"; simp)+
  have "swept g root (\<lambda>n. \<exists>v\<in>set vs. T v \<and> (\<exists>va\<in>set (L v). n = unat va div 4096)) ?s (fold (\<lambda>v s. if T v then fold step (L v) s else s) vs ?s)"
    by (rule Cons.IH [OF h(1)], rule Cons.prems(2)) simp_all
  from swept_trans [OF h(2) this idem] show ?case by simp
qed

end

lemma clear_idem: "clear_pte (clear_pte e) = clear_pte e"
  by (simp add: clear_pte_def)

interpretation unmap_op: page_op root "\<lambda>s. tables_ok s root" "\<lambda>va s. fst (vmm_unmap_in_space s root va)" clear_pte for root
  by unfold_locales (simp_all add: unmap_page clear_idem)

text \<open>The flags that mprotect asks for, and the entry it installs, bit by bit.\<close>

lemma bit_push_one: "k < 64 \<Longrightarrow> bit (push_bit k (1 :: u64)) n \<longleftrightarrow> n = k"
  by (auto simp: bit_exp_iff)

lemma bit_of_flag:
  "bit VMM_FLAG_PRESENT n \<longleftrightarrow> n = 0" "bit VMM_FLAG_RW n \<longleftrightarrow> n = 1" "bit VMM_FLAG_USER n \<longleftrightarrow> n = 2" "bit VMM_FLAG_PWT n \<longleftrightarrow> n = 3"
  "bit VMM_FLAG_PCD n \<longleftrightarrow> n = 4" "bit VMM_FLAG_PS n \<longleftrightarrow> n = 7" "bit VMM_FLAG_COW n \<longleftrightarrow> n = 9" "bit VMM_FLAG_PROTNONE n \<longleftrightarrow> n = 10"
  "bit VMM_FLAG_DEVICE n \<longleftrightarrow> n = 11" "bit VMM_FLAG_NOEXEC n \<longleftrightarrow> n = 63"
  unfolding flag_bits by (rule bit_push_one, simp)+

lemmas pte_bits = bit_or_iff bit_and_iff bit_not_iff bit_address_mask bit_of_flag

lemma prot_bits:
  "bit (m18_prot_to_flags prot) n \<longleftrightarrow> (if prot AND (PROT_READ OR PROT_WRITE OR PROT_EXEC) = 0 then n = 10 \<or> n = 63
     else n = 2 \<or> n = 1 \<and> prot AND PROT_WRITE \<noteq> 0 \<or> n = 63 \<and> prot AND PROT_EXEC = 0)"
  by (auto simp: m18_prot_to_flags_def pte_bits)

lemma protect_bits:
  "bit (protect_entry e (m18_prot_to_flags prot) sh) n \<longleftrightarrow> bit e n \<and> 12 \<le> n \<and> n < 52 \<or> bit e 11 \<and> bit e n \<and> n \<in> {3, 4, 11} \<or>
    (if prot AND (PROT_READ OR PROT_WRITE OR PROT_EXEC) = 0 then n = 10 \<or> n = 63
     else n = 0 \<or> n = 2 \<or> n = 1 \<and> prot AND PROT_WRITE \<noteq> 0 \<and> (bit e 11 \<or> \<not> (bit e 9 \<or> sh))
       \<or> n = 63 \<and> (prot AND PROT_EXEC = 0 \<or> bit e 11) \<or> n = 9 \<and> \<not> bit e 11 \<and> (bit e 9 \<or> sh))"
proof -
  consider "bit e 11" | "\<not> bit e 11" "bit e 9 \<or> sh" | "\<not> bit e 11" "\<not> (bit e 9 \<or> sh)" by blast
  then show ?thesis
    by cases (cases "prot AND (PROT_READ OR PROT_WRITE OR PROT_EXEC) = 0";
      simp add: protect_entry_def has_bit Let_def pte_bits prot_bits; fastforce dest: bit_imp_le_length)+
qed

lemma change_idem:
  "change_pte p (m18_prot_to_flags prot) (change_pte p (m18_prot_to_flags prot) e) = change_pte p (m18_prot_to_flags prot) e"
proof (cases "vmm_pte_has_frame e")
  case True
  let ?f = "m18_prot_to_flags prot" and ?sh = "pmm_frame_shared p (e AND ADDRESS_MASK)"
  let ?e = "protect_entry e ?f ?sh"
  have "vmm_pte_has_frame ?e" unfolding has_frame_bit protect_bits by simp
  moreover have "?e AND ADDRESS_MASK = e AND ADDRESS_MASK"
    by (rule bit_word_eqI) (auto simp: bit_and_iff bit_address_mask protect_bits split: if_splits)
  moreover have "protect_entry ?e ?f ?sh = ?e"
    by (rule bit_word_eqI) (simp add: protect_bits; blast)
  ultimately show ?thesis using True by (simp add: change_pte_def)
qed (simp add: change_pte_def)

interpretation protect_op: page_op root "\<lambda>s. tree_ok s root \<and> frames s = p \<and> \<not> wx_request (m18_prot_to_flags prot)"
  "\<lambda>va s. fst (vmm_protect_in_space s root va (m18_prot_to_flags prot))" "change_pte p (m18_prot_to_flags prot)" for root p prot
  by unfold_locales (auto simp: protect_page change_idem)

subsection \<open>The range of a call\<close>

lemma overlap_bounds:
  assumes v: "vma_wf v" "touches addr en v" and r: "page_aligned addr" "page_aligned en" "unat en \<le> 2 ^ 47"
  shows "overlap_lo addr v AND NOT 0xFFF = overlap_lo addr v" "page_aligned (overlap_lo addr v)" "page_aligned (overlap_hi en v)"
    "unat (overlap_hi en v) \<le> 2 ^ 47"
    "overlap_lo addr v \<le> a \<and> a < overlap_hi en v \<longleftrightarrow> addr \<le> a \<and> a < en \<and> covers a v"
proof -
  have w: "live v" "page_aligned (v_start v)" "page_aligned (v_end v)" "unat (v_end v) \<le> 2 ^ 47"
    using v by (simp_all add: vma_wf_def touches_def)
  show al: "page_aligned (overlap_lo addr v)" "page_aligned (overlap_hi en v)" "unat (overlap_hi en v) \<le> 2 ^ 47"
    using w r by (simp_all add: overlap_lo_def overlap_hi_def)
  show "overlap_lo addr v AND NOT 0xFFF = overlap_lo addr v" by (rule page_aligned_base [OF al(1)])
  show "overlap_lo addr v \<le> a \<and> a < overlap_hi en v \<longleftrightarrow> addr \<le> a \<and> a < en \<and> covers a v"
    using w(1) unfolding overlap_lo_def overlap_hi_def covers_def word_nat_order by auto
qed

lemma page_between:
  assumes "page_aligned lo" "page_aligned hi" "unat vb div 4096 = unat va div 4096" "lo \<le> va" "va < hi"
  shows "lo \<le> vb" "vb < hi"
proof -
  have e: "vb AND NOT 0xFFF = va AND NOT 0xFFF" unfolding word_unat_eq_iff page_of assms(3) ..
  have p: "lo \<le> vb AND NOT 0xFFF" "unat (vb AND NOT 0xFFF) + 4096 \<le> unat hi" using page_in [OF assms(1,2,4,5)] unfolding e by blast+
  have "unat (vb AND NOT 0xFFF) \<le> unat vb" "unat vb < unat (vb AND NOT 0xFFF) + 4096"
    unfolding page_of using div_mult_mod_eq [of "unat vb" 4096] mod_less_divisor [of 4096 "unat vb"] by linarith+
  with p show "lo \<le> vb" "vb < hi" unfolding word_nat_order by linarith+
qed

lemma region_pages:
  assumes ok: "vma_ok vs" and r: "page_aligned addr" "page_aligned en" "unat en \<le> 2 ^ 47"
  defines "L \<equiv> \<lambda>v. page_list (overlap_lo addr v AND NOT 0xFFF) (overlap_hi en v)"
  shows "v \<in> set vs \<Longrightarrow> touches addr en v \<Longrightarrow> va \<in> set (L v) \<Longrightarrow> user_va va \<and> va AND 0xFFF = 0"
    "(\<exists>v\<in>set vs. touches addr en v \<and> (\<exists>va\<in>set (L v). unat vb div 4096 = unat va div 4096)) \<longleftrightarrow>
      addr \<le> vb \<and> vb < en \<and> vma_find vs vb \<noteq> None"
proof -
  have wf: "vma_wf v" if "v \<in> set vs" for v using vma_okD(2) [OF ok] that by (metis in_set_conv_nth)
  have L: "va \<in> set (L v) \<longleftrightarrow> va AND 0xFFF = 0 \<and> overlap_lo addr v \<le> va \<and> va < overlap_hi en v"
    if "v \<in> set vs" "touches addr en v" for va v
    using page_list_iff [OF overlap_bounds(2,3) [OF wf [OF that(1)] that(2) r]] overlap_bounds(1) [OF wf [OF that(1)] that(2) r]
    by (simp add: L_def)
  show "user_va va \<and> va AND 0xFFF = 0" if "v \<in> set vs" "touches addr en v" "va \<in> set (L v)"
    using L [OF that(1,2), of va] that(3) overlap_bounds(4) [OF wf [OF that(1)] that(2) r]
    by (simp add: user_va_def VMM_USER_TOP_def word_nat_order)
  show "(\<exists>v\<in>set vs. touches addr en v \<and> (\<exists>va\<in>set (L v). unat vb div 4096 = unat va div 4096)) \<longleftrightarrow>
      addr \<le> vb \<and> vb < en \<and> vma_find vs vb \<noteq> None" (is "?l = ?r")
  proof
    assume ?l
    then obtain v va where v: "v \<in> set vs" "touches addr en v" "va \<in> set (L v)" "unat vb div 4096 = unat va div 4096" by blast
    note O = overlap_bounds [OF wf [OF v(1)] v(2) r]
    have "overlap_lo addr v \<le> vb" "vb < overlap_hi en v" using page_between [OF O(2,3) v(4)] L [OF v(1,2)] v(3) by blast+
    then have "addr \<le> vb \<and> vb < en \<and> covers vb v" using O(5) by blast
    with v(1) show ?r unfolding vma_find_None by (metis in_set_conv_nth)
  next
    assume a: ?r
    then obtain v where v: "v \<in> set vs" "covers vb v" unfolding vma_find_None by (metis nth_mem)
    then have t: "touches addr en v" using a unfolding covers_def touches_def by (meson le_less_trans)
    note O = overlap_bounds [OF wf [OF v(1)] t r]
    let ?p = "vb AND NOT 0xFFF"
    have "overlap_lo addr v \<le> vb" "vb < overlap_hi en v" using O(5) a v(2) by blast+
    from page_in [OF O(2,3) this] have "overlap_lo addr v \<le> ?p" "?p < overlap_hi en v" by blast+
    moreover have "page_aligned ?p" unfolding page_aligned_iff page_of by simp
    ultimately have "?p \<in> set (L v)" unfolding L [OF v(1) t] page_aligned_def by blast
    moreover have "unat vb div 4096 = unat ?p div 4096" unfolding page_of by simp
    ultimately show ?l using v(1) t by blast
  qed
qed

text \<open>In the range of a call, the entries of the pages with a region change and no other.\<close>

definition range_edit :: "(u64 \<Rightarrow> u64) \<Rightarrow> u64 \<Rightarrow> u64 \<Rightarrow> u64 \<Rightarrow> vma_set \<Rightarrow> vmm \<Rightarrow> vmm \<Rightarrow> bool" where
  "range_edit g root addr en vs s s' \<longleftrightarrow>
    (\<forall>a. user_va a \<longrightarrow> pte s' root a = (if addr \<le> a \<and> a < en \<and> vma_find vs a \<noteq> None then g (pte s root a) else pte s root a)) \<and>
    (\<forall>a. user_va a \<and> a AND 0xFFF = 0 \<and> addr \<le> a \<and> a < en \<and> vma_find vs a \<noteq> None \<and> vmm_pte_has_frame (pte s root a) \<longrightarrow>
       (Some root, a, 1) \<in> set (shootdowns s'))"

lemma range_edit_swept:
  assumes "vma_ok vs" "page_aligned addr" "page_aligned en" "unat en \<le> 2 ^ 47"
    "swept g root (\<lambda>n. \<exists>v\<in>set vs. touches addr en v \<and>
       (\<exists>va\<in>set (page_list (overlap_lo addr v AND NOT 0xFFF) (overlap_hi en v)). n = unat va div 4096)) s s'"
  shows "range_edit g root addr en vs s s'"
  using assms(5) unfolding swept_def edits_def range_edit_def region_pages(2) [OF assms(1-4)] by blast

lemma munmap_ptes_edit:
  assumes r: "vma_ok vs" "page_aligned addr" "page_aligned en" "unat en \<le> 2 ^ 47" and t: "tree_ok s root"
  shows "range_edit clear_pte root addr en vs s (munmap_ptes (Some root) addr en vs s)"
proof (rule range_edit_swept [OF r])
  show "swept clear_pte root (\<lambda>n. \<exists>v\<in>set vs. touches addr en v \<and>
       (\<exists>va\<in>set (page_list (overlap_lo addr v AND NOT 0xFFF) (overlap_hi en v)). n = unat va div 4096)) s
      (munmap_ptes (Some root) addr en vs s)"
    unfolding munmap_ptes_def unmap_pages_def option.case
    by (rule unmap_op.fold_regions [OF tree_tables [OF t]]) (use region_pages(1) [OF r] in blast)
qed

lemma mprotect_ptes_edit:
  assumes r: "vma_ok vs" "page_aligned addr" "page_aligned en" "unat en \<le> 2 ^ 47" and t: "tree_ok s root"
    and w: "\<not> wx_request (m18_prot_to_flags prot)"
  shows "range_edit (change_pte (frames s) (m18_prot_to_flags prot)) root addr en vs s
    (mprotect_ptes (Some root) addr en (m18_prot_to_flags prot) vs s)"
proof (rule range_edit_swept [OF r])
  show "swept (change_pte (frames s) (m18_prot_to_flags prot)) root (\<lambda>n. \<exists>v\<in>set vs. touches addr en v \<and>
       (\<exists>va\<in>set (page_list (overlap_lo addr v AND NOT 0xFFF) (overlap_hi en v)). n = unat va div 4096)) s
      (mprotect_ptes (Some root) addr en (m18_prot_to_flags prot) vs s)"
    unfolding mprotect_ptes_def protect_pages_def option.case
    by (rule protect_op.fold_regions) (use t w region_pages(1) [OF r] in blast)+
qed

end
