(* ===== verification/Mmap_Safe.thy ===== *)
theory Mmap_Safe
  imports Mmap_Ptes
begin

text \<open>
  What the memory system calls guarantee about the regions and the page tables of a process:
  mprotect changes the protection of exactly the requested range and the contents of no page,
  munmap leaves neither a region nor a mapped page in its range; and where munmap goes wrong.
\<close>

definition straddles :: "u64 \<Rightarrow> vma \<Rightarrow> bool" where
  "straddles a v \<longleftrightarrow> live v \<and> v_start v < a \<and> a < v_end v"

subsection \<open>Cutting at a boundary\<close>

lemma split_pieces:
  assumes ok: "vma_ok vs" and i: "i < length vs" and r: "vma_split vs i addr = (vs', 0)"
  shows "length vs \<le> length vs'" "\<not> straddles addr (vs' ! i)"
    "j < length vs' \<Longrightarrow> \<not> straddles addr (vs' ! j) \<or> j < length vs \<and> j \<noteq> i \<and> vs' ! j = vs ! j"
    "v \<in> set vs' \<Longrightarrow> straddles b v \<Longrightarrow> \<exists>w \<in> set vs. straddles b w"
proof -
  obtain s1 n where p: "vma_put vs (split_hi (vs ! i) addr) = Some (s1, n)" and ni: "n \<noteq> i"
    and s': "vs' = s1[i := (vs ! i)\<lparr>v_end := addr\<rparr>]" and g: "live (vs ! i)" "page_aligned addr" "v_start (vs ! i) < addr" "addr < v_end (vs ! i)"
    by (rule vma_split_result [OF ok i r])
  note pp = vma_put_props [OF p vma_okD(1) [OF ok]]
  show len: "length vs \<le> length vs'" using pp(3) s' by simp
  have at: "vs' ! i = (vs ! i)\<lparr>v_end := addr\<rparr>" "vs' ! n = split_hi (vs ! i) addr" "n < length vs'"
    "\<And>j. j < length vs' \<Longrightarrow> j \<noteq> n \<Longrightarrow> j \<noteq> i \<Longrightarrow> j < length vs \<and> vs' ! j = vs ! j"
    using pp(1,2,3,5,7) i ni unfolding s' by auto
  have ni: "\<not> straddles addr (vs' ! i)" "\<not> straddles addr (vs' ! n)" unfolding at straddles_def by simp_all
  then show "\<not> straddles addr (vs' ! i)" by blast
  show "j < length vs' \<Longrightarrow> \<not> straddles addr (vs' ! j) \<or> j < length vs \<and> j \<noteq> i \<and> vs' ! j = vs ! j"
    using ni at(4) [of j] by metis
  assume v: "v \<in> set vs'" "straddles b v"
  obtain j where j: "j < length vs'" "v = vs' ! j" using v(1) by (auto simp: in_set_conv_nth)
  show "\<exists>w \<in> set vs. straddles b w"
  proof (cases "j = i \<or> j = n")
    case True
    then have "straddles b (vs ! i)" using v(2) j(2) at(1,2) g(3,4) by (auto simp: straddles_def)
    with nth_mem [OF i] show ?thesis by blast
  next
    case False
    with at(4) [OF j(1)] j v(2) show ?thesis using nth_mem by metis
  qed
qed

lemma split_loop_spec:
  assumes "split_loop addr vs i = (vs', True)" "vma_ok vs" "\<And>j. j < i \<Longrightarrow> j < length vs \<Longrightarrow> \<not> straddles addr (vs ! j)"
  shows "vma_ok vs' \<and> (\<forall>a. backing kmem cache vs' a = backing kmem cache vs a) \<and> (\<forall>v \<in> set vs'. \<not> straddles addr v)
    \<and> (\<forall>b. (\<forall>v \<in> set vs. \<not> straddles b v) \<longrightarrow> (\<forall>v \<in> set vs'. \<not> straddles b v))"
  using assms
proof (induction addr vs i rule: split_loop.induct)
  case (1 addr vs i)
  consider "\<not> i < length vs" | "i < length vs" "\<not> straddles addr (vs ! i)" | "i < length vs" "straddles addr (vs ! i)" by blast
  then show ?case
  proof cases
    case 1
    then have e: "vs' = vs" using "1.prems"(1) by (simp add: split_loop.simps [of addr vs i])
    have "\<not> straddles addr v" if vm: "v \<in> set vs" for v
    proof -
      obtain j where "j < length vs" "v = vs ! j" using vm by (auto simp: in_set_conv_nth)
      with "1.prems"(3) [of j] 1 show ?thesis by simp
    qed
    with e "1.prems"(2) show ?thesis by blast
  next
    case 2
    then have l: "split_loop addr vs (i + 1) = (vs', True)"
      using "1.prems"(1) by (simp add: split_loop.simps [of addr vs i] straddles_def Let_def split: if_splits)
    show ?thesis
      by (rule "1.IH"(2) [OF 2(1) refl _ l "1.prems"(2)])
        (use 2 "1.prems"(3) less_Suc_eq in \<open>auto simp: straddles_def\<close>)
  next
    case 3
    obtain vs1 r where s: "vma_split vs i addr = (vs1, r)" by force
    have l: "r = 0" "split_loop addr vs1 (i + 1) = (vs', True)"
      using "1.prems"(1) 3 s by (simp_all add: split_loop.simps [of addr vs i] straddles_def Let_def split: if_splits)
    note s0 = s [unfolded l(1)]
    note P = split_pieces [OF "1.prems"(2) 3(1) s0] and B = vma_split_backing [OF "1.prems"(2) 3(1) s0, of kmem cache]
    have "\<not> straddles addr (vs1 ! j)" if "j < i + 1" "j < length vs1" for j
      using P(2) P(3) [OF that(2)] "1.prems"(3) [of j] that(1) by (cases "j = i") auto
    then have "vma_ok vs' \<and> (\<forall>a. backing kmem cache vs' a = backing kmem cache vs1 a) \<and> (\<forall>v \<in> set vs'. \<not> straddles addr v)
        \<and> (\<forall>b. (\<forall>v \<in> set vs1. \<not> straddles b v) \<longrightarrow> (\<forall>v \<in> set vs'. \<not> straddles b v))"
      using "1.IH"(1) [OF 3(1) refl _ s [symmetric] refl _ l(2)] 3(2) l(1) B by (simp add: straddles_def)
    with B P(4) show ?thesis by metis
  qed
qed

subsection \<open>Changing the protection of a range\<close>

lemma image_page_flags [simp]: "image_page kmem (v\<lparr>v_flags := f\<rparr>) pg = image_page kmem v pg"
  by (cases v) (simp only: image_page_def vma.simps)

lemma page_source_flags [simp]: "page_source kmem cache (v\<lparr>v_flags := f\<rparr>) pg = page_source kmem cache v pg"
  by (cases "v_type v"; cases "file_inode v") (simp_all add: page_source_def fault_page_def)

lemma set_range_same [simp]:
  "covers a (set_range_flags lo hi f v) = covers a v" "vma_wf (set_range_flags lo hi f v) = vma_wf v"
  "apart (set_range_flags lo hi f v) (set_range_flags lo hi f w) = apart v w"
  "page_source kmem cache (set_range_flags lo hi f v) pg = page_source kmem cache v pg"
  by (simp_all add: set_range_flags_def covers_def vma_wf_def apart_def)

lemma set_range_backing:
  assumes ok: "vma_ok vs" and cut: "\<And>v. v \<in> set vs \<Longrightarrow> \<not> straddles lo v" "\<And>v. v \<in> set vs \<Longrightarrow> \<not> straddles hi v"
  shows "vma_ok (map (set_range_flags lo hi f) vs)"
    "backing kmem cache (map (set_range_flags lo hi f) vs) a =
      (if lo \<le> a \<and> a < hi then map_option (\<lambda>(_, p). (f, p)) (backing kmem cache vs a) else backing kmem cache vs a)"
proof -
  show "vma_ok (map (set_range_flags lo hi f) vs)" using ok unfolding vma_ok_def by simp
  have fi: "vma_find (map (set_range_flags lo hi f) vs) a = vma_find vs a"
  proof -
    have "find_index (covers a) (map g vs) = find_index (covers a) vs" if "\<And>v. covers a (g v) = covers a v" for g
      using that by (induction vs) auto
    then show ?thesis unfolding vma_find_def by simp
  qed
  show "backing kmem cache (map (set_range_flags lo hi f) vs) a =
      (if lo \<le> a \<and> a < hi then map_option (\<lambda>(_, p). (f, p)) (backing kmem cache vs a) else backing kmem cache vs a)"
  proof (cases "vma_find vs a")
    case None
    then show ?thesis unfolding backing_def fi by simp
  next
    case (Some i)
    then have i: "i < length vs" "covers a (vs ! i)" unfolding vma_find_def by (auto dest: find_index_SomeD)
    have fl: "v_flags (set_range_flags lo hi f (vs ! i)) = (if lo \<le> a \<and> a < hi then f else v_flags (vs ! i))"
    proof (cases "lo \<le> a \<and> a < hi")
      case True
      have "\<not> v_start (vs ! i) < lo" "\<not> hi < v_end (vs ! i)"
        using True i(2) cut(1) [OF nth_mem [OF i(1)]] cut(2) [OF nth_mem [OF i(1)]] le_less_trans [of lo a "v_end (vs ! i)"] le_less_trans [of "v_start (vs ! i)" a hi]
        unfolding straddles_def covers_def by blast+
      with True i(2) show ?thesis by (simp add: set_range_flags_def covers_def not_less)
    next
      case False
      then have "\<not> (lo \<le> v_start (vs ! i) \<and> v_end (vs ! i) \<le> hi)"
        using i(2) order.trans [of lo "v_start (vs ! i)" a] less_le_trans [of a "v_end (vs ! i)" hi] unfolding covers_def by blast
      with False show ?thesis by (auto simp: set_range_flags_def)
    qed
    show ?thesis unfolding backing_def fi Some using i(1) fl by simp
  qed
qed

lemma mprotect_backing:
  assumes ok: "vma_ok (vmas c)" and r: "ksys_mprotect s c addr len prot = (s', c', 0)"
  shows "vma_ok (vmas c') \<and> (\<forall>a. backing kmem cache (vmas c') a =
    (if addr \<le> a \<and> a < addr + m18_user_span addr len
     then map_option (\<lambda>(_, p). (m18_prot_to_flags prot, p)) (backing kmem cache (vmas c) a) else backing kmem cache (vmas c) a))"
proof -
  let ?en = "addr + m18_user_span addr len" and ?f = "m18_prot_to_flags prot"
  obtain vs1 ok1 where l1: "split_loop addr (vmas c) 0 = (vs1, ok1)" by force
  obtain vs2 ok2 where l2: "split_loop ?en vs1 0 = (vs2, ok2)" by force
  have e: "ok1" "ok2" "vmas c' = map (set_range_flags addr ?en ?f) vs2"
    using r l1 l2 by (auto simp: ksys_mprotect_def Let_def split: if_splits)
  note S1 = split_loop_spec [OF l1 [unfolded eqTrueI [OF e(1)]] ok, of kmem cache, simplified]
  note S2 = split_loop_spec [OF l2 [unfolded eqTrueI [OF e(2)]] conjunct1 [OF S1], of kmem cache, simplified]
  have cut: "\<not> straddles addr v" "\<not> straddles ?en v" if "v \<in> set vs2" for v using S1 S2 that by blast+
  have b: "backing kmem cache vs2 a = backing kmem cache (vmas c) a" for a using S1 S2 by metis
  have R: "vma_ok (map (set_range_flags addr ?en ?f) vs2)"
    by (rule set_range_backing(1) [OF conjunct1 [OF S2]]) (use cut in blast)+
  have "backing kmem cache (map (set_range_flags addr ?en ?f) vs2) a =
      (if addr \<le> a \<and> a < ?en then map_option (\<lambda>(_, p). (?f, p)) (backing kmem cache vs2 a) else backing kmem cache vs2 a)" for a
    by (rule set_range_backing(2) [OF conjunct1 [OF S2]]) (use cut in blast)+
  with R show ?thesis unfolding e(3) b by blast
qed

subsection \<open>Unmapping a range\<close>

definition outside :: "u64 \<Rightarrow> u64 \<Rightarrow> vma \<Rightarrow> bool" where
  "outside lo hi v \<longleftrightarrow> \<not> touches lo hi v"

lemma span_bounds:
  assumes "m18_user_span addr len \<noteq> 0"
  defines "en \<equiv> addr + m18_user_span addr len"
  shows "page_aligned addr" "page_aligned en" "addr < en" "unat en \<le> 2 ^ 47" "unat en = unat addr + unat (m18_user_span addr len)"
proof -
  have a: "addr AND 0xFFF = 0" "len \<noteq> 0" "addr < VMM_USER_TOP" "pgup len \<le> VMM_USER_TOP - addr" "m18_user_span addr len = pgup len"
    using assms(1) by (auto simp: m18_user_span_def not_le not_less split: if_splits)
  then show al: "page_aligned addr" by (simp add: page_aligned_def)
  have top: "unat VMM_USER_TOP = 2 ^ 47" by (simp add: VMM_USER_TOP_def)
  have u: "unat addr < 2 ^ 47" using a(3) unfolding word_less_nat_alt top .
  have "unat (VMM_USER_TOP - addr) = 2 ^ 47 - unat addr" using u by (subst unat_sub64) (simp_all add: top)
  then have l: "unat (pgup len) \<le> 2 ^ 47 - unat addr" using a(4) unfolding word_le_nat_alt by simp
  show en: "unat en = unat addr + unat (m18_user_span addr len)" unfolding en_def a(5) using u l by (intro unat_add64) simp
  then show "unat en \<le> 2 ^ 47" using l u a(5) by simp
  have "0 < unat (pgup len)" using assms(1) a(5) by (simp add: unat_gt_0)
  then show "addr < en" unfolding word_less_nat_alt using en a(5) by simp
  have "unat (pgup len) mod 4096 = 0" unfolding pgup_def page_of by simp
  then show "page_aligned en" using al en unfolding page_aligned_iff a(5) by (simp add: mod_add_eq [symmetric])
qed

text \<open>Shrinking one region in place.\<close>

definition within :: "vma \<Rightarrow> vma \<Rightarrow> bool" where
  "within w v \<longleftrightarrow> (live w \<longrightarrow> live v \<and> v_start v \<le> v_start w \<and> v_end w \<le> v_end v)"

lemma within_apart: "within w v \<Longrightarrow> apart u v \<Longrightarrow> apart u w \<and> apart w u"
  unfolding within_def apart_def by (meson order.trans)

lemma vma_ok_update:
  assumes ok: "vma_ok vs" and i: "i < length vs" and w: "vma_wf w" "within w (vs ! i)"
  shows "vma_ok (vs[i := w])"
proof (rule vma_okI)
  show "length (vs[i := w]) \<le> VMA_MAX" using vma_okD(1) [OF ok] by simp
  show "vma_wf (vs[i := w] ! j)" if "j < length (vs[i := w])" for j
    using that w(1) vma_okD(2) [OF ok, of j] by (cases "j = i") simp_all
  show "apart (vs[i := w] ! j) (vs[i := w] ! k)" if "j < length (vs[i := w])" "k < length (vs[i := w])" "j \<noteq> k" for j k
    using that i vma_okD(3) [OF ok, of j k] within_apart [OF w(2) vma_okD(3) [OF ok _ i]]
    by (cases "j = i"; cases "k = i") auto
qed

lemma wf_shrink:
  assumes "vma_wf v" "live v"
  shows "page_aligned e \<Longrightarrow> v_start v < e \<Longrightarrow> e < v_end v \<Longrightarrow> vma_wf (v\<lparr>v_end := e\<rparr>)"
    "page_aligned e \<Longrightarrow> v_start v < e \<Longrightarrow> e < v_end v \<Longrightarrow> vma_wf (v\<lparr>v_start := e\<rparr>)"
  using assms unfolding vma_wf_def by (auto simp: word_less_nat_alt)

text \<open>The piece above a hole punched into an anonymous region.\<close>

definition anon_region :: "u64 \<Rightarrow> u64 \<Rightarrow> u64 \<Rightarrow> vma" where
  "anon_region st en f = \<lparr>v_start = st, v_end = en, v_flags = f, v_type = VMA_TYPE_ANON, file_base = 0, file_off = 0,
     file_pad = 0, file_len = 0, file_inode = None, file_voff = 0, phys_base = 0\<rparr>"

lemma vma_add_anon:
  "vma_add vs st en f VMA_TYPE_ANON 0 0 0 0 = (case vma_put vs (anon_region st en f) of None \<Rightarrow> (vs, -1) | Some (vs', _) \<Rightarrow> (vs', 0))"
  by (simp add: vma_add_def anon_region_def)

text \<open>What one turn of the loop does: the table stays well formed, slot \<open>i\<close> and every slot it
  changed leave the range.\<close>

definition clears :: "u64 \<Rightarrow> u64 \<Rightarrow> vma_set \<Rightarrow> nat \<Rightarrow> vma_set \<Rightarrow> bool" where
  "clears lo hi vs i vs' \<longleftrightarrow> vma_ok vs' \<and> length vs \<le> length vs' \<and> \<not> touches lo hi (vs' ! i)
     \<and> (\<forall>j < length vs'. \<not> touches lo hi (vs' ! j) \<or> j < length vs \<and> vs' ! j = vs ! j)"

lemma clears_update:
  assumes ok: "vma_ok vs" "i < length vs" and w: "vma_wf w" "within w (vs ! i)" "\<not> touches lo hi w"
  shows "clears lo hi vs i (vs[i := w])"
  unfolding clears_def
proof (intro conjI allI impI)
  show "vma_ok (vs[i := w])" by (rule vma_ok_update [OF ok w(1,2)])
  fix j assume "j < length (vs[i := w])"
  then show "\<not> touches lo hi (vs[i := w] ! j) \<or> j < length vs \<and> vs[i := w] ! j = vs ! j"
    using w(3) by (cases "j = i") simp_all
qed (use ok w in simp_all)

lemma clears_put:
  assumes c: "clears lo hi vs i vs1" and i: "i < length vs" "live (vs1 ! i)" and p: "vma_put vs1 w = Some (vs2, n)"
    and w: "vma_wf w" "\<And>j. j < length vs1 \<Longrightarrow> apart (vs1 ! j) w" "\<not> touches lo hi w"
  shows "clears lo hi vs i vs2"
proof -
  have ok1: "vma_ok vs1" using c by (simp add: clears_def)
  note pp = vma_put_props [OF p vma_okD(1) [OF ok1]]
  have li: "i < length vs1" using c i by (simp add: clears_def)
  then have ni: "n \<noteq> i" using pp(6) i(2) by blast
  show ?thesis unfolding clears_def
  proof (intro conjI allI impI)
    show "vma_ok vs2" by (rule vma_put_ok [OF ok1 p w(1,2)])
    show "length vs \<le> length vs2" using c pp(3) by (simp add: clears_def)
    show "\<not> touches lo hi (vs2 ! i)" using c pp(5) [OF li] ni by (simp add: clears_def)
    fix j assume "j < length vs2"
    then show "\<not> touches lo hi (vs2 ! j) \<or> j < length vs \<and> vs2 ! j = vs ! j"
      using c pp(2,5,7) w(3) unfolding clears_def by metis
  qed
qed

lemma find_index_same: "i < length xs \<Longrightarrow> P w = P (xs ! i) \<Longrightarrow> find_index P (xs[i := w]) = find_index P xs"
  by (induction xs arbitrary: i) (auto simp: nth_Cons split: nat.splits)

text \<open>Filling a free slot and changing another, used one commute.\<close>

lemma put_update_swap:
  assumes "vma_put vs h = Some (vs1, n)" "i < length vs" "live (vs ! i)" "live w"
  shows "vma_put (vs[i := w]) h = Some (vs1[i := w], n)"
proof -
  have f: "find_index (\<lambda>v. v_type v = VMA_TYPE_NONE) (vs[i := w]) = find_index (\<lambda>v. v_type v = VMA_TYPE_NONE) vs"
    by (rule find_index_same) (use assms in simp_all)
  show ?thesis
  proof (cases "find_index (\<lambda>v. v_type v = VMA_TYPE_NONE) vs")
    case None
    with assms f show ?thesis by (auto simp: vma_put_def list_update_append split: if_splits)
  next
    case (Some k)
    then have "k \<noteq> i" using find_index_SomeD(2) [OF Some] assms(3) by auto
    with assms f Some show ?thesis by (auto simp: vma_put_def list_update_swap)
  qed
qed

lemma munmap_slot_clears:
  assumes ok: "vma_ok vs" and i: "i < length vs" and r: "page_aligned lo" "page_aligned hi" "lo < hi"
  shows "clears lo hi vs i (munmap_slot lo hi vs i)"
proof (cases "touches lo hi (vs ! i)")
  case False
  then show ?thesis using ok by (simp add: munmap_slot_def clears_def)
next
  case True
  define v where "v = vs ! i"
  have t: "live v" "lo < v_end v" "v_start v < hi" using True unfolding touches_def v_def by blast+
  have wf: "vma_wf v" using vma_okD(2) [OF ok i] unfolding v_def .
  have sl: "munmap_slot lo hi vs i = (if lo \<le> v_start v \<and> hi \<ge> v_end v then vma_remove vs i
     else if lo \<le> v_start v then vs[i := v\<lparr>v_start := hi\<rparr>]
     else if hi \<ge> v_end v then vs[i := v\<lparr>v_end := lo\<rparr>]
     else if v_type v = VMA_TYPE_PHYS then (let vs = fst (vma_split vs i hi) in vs[i := (vs ! i)\<lparr>v_end := lo\<rparr>])
     else let vs1 = vs[i := v\<lparr>v_end := lo\<rparr>] in
       if v_type v = VMA_TYPE_ANON then fst (vma_add vs1 hi (v_end v) (v_flags v) VMA_TYPE_ANON 0 0 0 0) else vs1)"
    using True unfolding munmap_slot_def v_def [symmetric] Let_def by simp
  consider "lo \<le> v_start v" "v_end v \<le> hi" | "lo \<le> v_start v" "hi < v_end v" | "v_start v < lo" "v_end v \<le> hi"
    | "v_start v < lo" "hi < v_end v" by (meson not_le)
  then show ?thesis
  proof cases
    case 1
    then have "munmap_slot lo hi vs i = vs[i := v\<lparr>v_type := VMA_TYPE_NONE, v_start := 0, v_end := 0\<rparr>]"
      unfolding sl by (simp add: vma_remove_def v_def)
    moreover have "clears lo hi vs i (vs[i := v\<lparr>v_type := VMA_TYPE_NONE, v_start := 0, v_end := 0\<rparr>])"
      by (rule clears_update [OF ok i]) (simp_all add: vma_wf_def within_def touches_def)
    ultimately show ?thesis by simp
  next
    case 2
    have "clears lo hi vs i (vs[i := v\<lparr>v_start := hi\<rparr>])"
      by (rule clears_update [OF ok i])
        (use wf_shrink(2) [OF wf t(1) r(2) t(3) 2(2)] t less_imp_le in \<open>auto simp: within_def touches_def v_def [symmetric]\<close>)
    with 2 show ?thesis unfolding sl by (simp add: not_le [THEN iffD2, OF 2(2)])
  next
    case 3
    have "clears lo hi vs i (vs[i := v\<lparr>v_end := lo\<rparr>])"
      by (rule clears_update [OF ok i])
        (use wf_shrink(1) [OF wf t(1) r(1) 3(1) t(2)] t less_imp_le in \<open>auto simp: within_def touches_def v_def [symmetric]\<close>)
    with 3 show ?thesis unfolding sl by (simp add: not_le [THEN iffD2, OF 3(1)])
  next
    case 4
    note n4 = not_le [THEN iffD2, OF 4(1)] not_le [THEN iffD2, OF 4(2)]
    have hiv: "v_start v < hi" using 4(1) r(3) by (rule less_trans)
    let ?w = "v\<lparr>v_end := lo\<rparr>"
    have cw: "clears lo hi vs i (vs[i := ?w])"
      by (rule clears_update [OF ok i])
        (use wf_shrink(1) [OF wf t(1) r(1) 4(1) t(2)] t less_imp_le in \<open>auto simp: within_def touches_def v_def [symmetric]\<close>)
    have hole: "clears lo hi vs i vs2" if p: "vma_put (vs[i := ?w]) h = Some (vs2, n)" and h: "vma_wf h" "v_start h = hi" "v_end h = v_end v" for h vs2 n
    proof (rule clears_put [OF cw i _ p h(1)])
      show "live (vs[i := ?w] ! i)" using i t(1) by simp
      show "\<not> touches lo hi h" by (simp add: touches_def h(2))
      have "within h v" using t(1) h(2,3) less_imp_le [OF hiv] unfolding within_def by simp
      then show "apart (vs[i := ?w] ! j) h" if "j < length (vs[i := ?w])" for j
        using that i vma_okD(3) [OF ok _ i, of j] within_apart [of h v "vs ! j"] r(3) h(2) less_imp_le
        by (cases "j = i") (auto simp: apart_def v_def)
    qed
    show ?thesis
    proof (cases "v_type v = VMA_TYPE_PHYS")
      case True
      have c: "can_split (vs ! i) hi" using t(1) r(2) hiv 4(2) unfolding can_split_def v_def by blast
      show ?thesis
      proof (cases "vma_put vs (split_hi v hi)")
        case None
        then have "vma_split vs i hi = (vs, -1)" using c unfolding vma_split_eq [OF ok i] v_def by simp
        with 4 True cw show ?thesis unfolding sl by (simp add: v_def [symmetric] n4)
      next
        case (Some x)
        obtain vs1 n where p: "vma_put vs (split_hi v hi) = Some (vs1, n)" using Some by (cases x) simp
        then have "vma_split vs i hi = (vs1[i := v\<lparr>v_end := hi\<rparr>], 0)" using c unfolding vma_split_eq [OF ok i] v_def by simp
        moreover have "i < length vs1" using vma_put_props(3) [OF p vma_okD(1) [OF ok]] i by simp
        ultimately have e: "munmap_slot lo hi vs i = vs1[i := ?w]" using True unfolding sl by (simp add: n4)
        have wfh: "vma_wf (split_hi v hi)" using wf t(1) r(2) 4(2) split_hi_window [of v hi] by (simp add: vma_wf_def)
        show ?thesis unfolding e
          by (rule hole [OF put_update_swap [OF p i] wfh]) (use t(1) in \<open>simp_all add: v_def [symmetric]\<close>)
      qed
    next
      case False
      show ?thesis
      proof (cases "v_type v = VMA_TYPE_ANON")
        case True
        then have e: "munmap_slot lo hi vs i = fst (case vma_put (vs[i := ?w]) (anon_region hi (v_end v) (v_flags v)) of None \<Rightarrow> (vs[i := ?w], -1 :: int) | Some (vs', _) \<Rightarrow> (vs', 0))"
          using 4 unfolding sl by (simp add: n4 vma_add_anon Let_def)
        have wfa: "vma_wf (anon_region hi (v_end v) (v_flags v))"
          using wf t(1) r(2) 4(2) by (simp add: vma_wf_def anon_region_def)
        show ?thesis unfolding e
          using cw hole [OF _ wfa] by (auto simp: anon_region_def split: option.splits)
      next
        case False
        with \<open>v_type v \<noteq> VMA_TYPE_PHYS\<close> 4 cw show ?thesis unfolding sl by (simp add: n4)
      qed
    qed
  qed
qed

lemma munmap_loop_clears:
  assumes "vma_ok vs" "page_aligned lo" "page_aligned hi" "lo < hi" "\<And>j. j < i \<Longrightarrow> j < length vs \<Longrightarrow> \<not> touches lo hi (vs ! j)"
  shows "vma_ok (munmap_loop lo hi vs i) \<and> (\<forall>v \<in> set (munmap_loop lo hi vs i). \<not> touches lo hi v)"
  using assms
proof (induction lo hi vs i rule: munmap_loop.induct)
  case (1 lo hi vs i)
  show ?case
  proof (cases "i < length vs")
    case False
    then have e: "munmap_loop lo hi vs i = vs" by (simp add: munmap_loop.simps [of lo hi vs i])
    have "\<not> touches lo hi v" if vm: "v \<in> set vs" for v
    proof -
      obtain j where "j < length vs" "v = vs ! j" using vm by (auto simp: in_set_conv_nth)
      with "1.prems"(5) [of j] False show ?thesis by simp
    qed
    with e "1.prems"(1) show ?thesis by simp
  next
    case True
    note c = munmap_slot_clears [OF "1.prems"(1) True "1.prems"(2-4), unfolded clears_def]
    have "\<not> touches lo hi (munmap_slot lo hi vs i ! j)" if "j < i + 1" "j < length (munmap_slot lo hi vs i)" for j
      using c that "1.prems"(5) [of j] by (cases "j = i") auto
    with "1.IH" [OF True] c "1.prems"(2-4) True show ?thesis by (simp add: munmap_loop.simps [of lo hi vs i])
  qed
qed

lemma munmap_none:
  assumes ok: "vma_ok (vmas c)" and r: "ksys_munmap s c addr len = (s', c', 0)"
  shows "vma_ok (vmas c') \<and> (\<forall>a. addr \<le> a \<and> a < addr + m18_user_span addr len \<longrightarrow> vma_find (vmas c') a = None)"
proof -
  let ?en = "addr + m18_user_span addr len"
  have nz: "m18_user_span addr len \<noteq> 0" and e: "vmas c' = munmap_loop addr ?en (vmas c) 0"
    using r by (auto simp: ksys_munmap_def Let_def split: if_splits)
  note L = munmap_loop_clears [OF ok span_bounds(1-3) [OF nz], of 0, simplified, folded e]
  have "vma_find (vmas c') a = None" if "addr \<le> a \<and> a < ?en" for a
    unfolding vma_find_None
  proof (intro allI impI notI)
    fix i assume i: "i < length (vmas c')" "covers a (vmas c' ! i)"
    then have "touches addr ?en (vmas c' ! i)" using that le_less_trans [of addr a] le_less_trans [of "v_start (vmas c' ! i)" a ?en]
      unfolding covers_def touches_def by blast
    with L nth_mem [OF i(1)] show False by blast
  qed
  with L show ?thesis by blast
qed

text \<open>Outside the range nothing changes, provided that the regions cut are anonymous and that a
  hole finds a slot for its upper part.\<close>

lemma backing_update:
  assumes ok: "vma_ok vs" "vma_ok (vs[i := w])" and i: "i < length vs"
    and same: "covers a w = covers a (vs ! i)" "v_flags w = v_flags (vs ! i)"
      "\<And>pg. page_source kmem cache w pg = page_source kmem cache (vs ! i) pg"
  shows "backing kmem cache (vs[i := w]) a = backing kmem cache vs a"
proof (cases "vma_find vs a")
  case None
  then have "vma_find (vs[i := w]) a = None" using same(1) i unfolding vma_find_None by (auto simp: nth_list_update)
  with None show ?thesis by (simp add: backing_def)
next
  case (Some j)
  then have j: "j < length vs" "covers a (vs ! j)" unfolding vma_find_def by (auto dest: find_index_SomeD)
  then have "vma_find (vs[i := w]) a = Some j" using vma_find_eq [OF ok(2), of j a] same(1) by (cases "j = i") simp_all
  with Some j same show ?thesis by (cases "j = i") (simp_all add: backing_def)
qed

lemma anon_source: "v_type v = VMA_TYPE_ANON \<Longrightarrow> page_source kmem cache v pg = Src_fill (vma_memset 0 0x1000)"
  by (simp add: page_source_def fault_page_def)

definition cut_anon :: "u64 \<Rightarrow> u64 \<Rightarrow> vma \<Rightarrow> bool" where
  "cut_anon lo hi v \<longleftrightarrow> (touches lo hi v \<longrightarrow> v_type v = VMA_TYPE_ANON \<or> lo \<le> v_start v \<and> v_end v \<le> hi)"

definition room :: "u64 \<Rightarrow> u64 \<Rightarrow> vma_set \<Rightarrow> bool" where
  "room lo hi vs \<longleftrightarrow> length vs < VMA_MAX \<or> (\<forall>j < length vs. \<not> touches lo hi (vs ! j))"

lemma within_sep:
  assumes ok: "vma_ok vs" and i: "i < length vs" and w: "live (vs ! i)" "within h (vs ! i)" "apart w h"
    and j: "j < length (vs[i := w])"
  shows "apart (vs[i := w] ! j) h"
  using j i vma_okD(3) [OF ok _ i, of j] within_apart [of h "vs ! i" "vs ! j"] w by (cases "j = i") auto

lemma munmap_hole_backing:
  assumes ok: "vma_ok vs" and i: "i < length vs" and r: "page_aligned lo" "page_aligned hi" "lo < hi"
    and v: "v_type v = VMA_TYPE_ANON" "v_start v < lo" "hi < v_end v" "vs ! i = v" and lt: "length vs < VMA_MAX"
    and a: "\<not> (lo \<le> a \<and> a < hi)"
  shows "backing kmem cache (munmap_slot lo hi vs i) a = backing kmem cache vs a \<and> room lo hi (munmap_slot lo hi vs i)"
proof -
  let ?w = "v\<lparr>v_end := lo\<rparr>" and ?h = "anon_region hi (v_end v) (v_flags v)"
  note n = not_le [THEN iffD2, OF v(2)] not_le [THEN iffD2, OF v(3)]
  have t: "live v" "lo < v_end v" "v_start v < hi" using v r(3) less_trans by auto
  then have th: "touches lo hi v" by (simp add: touches_def)
  have wf: "vma_wf v" using vma_okD(2) [OF ok i] v(4) by simp
  have wfh: "vma_wf ?h" using wf t(1) r(2) v(3) by (simp add: vma_wf_def anon_region_def)
  have wfw: "vma_wf ?w" by (rule wf_shrink(1) [OF wf t(1) r(1) v(2) t(2)])
  have ww: "within ?w (vs ! i)" using t v(4) less_imp_le [OF t(2)] by (simp add: within_def)
  have okw: "vma_ok (vs[i := ?w])" by (rule vma_ok_update [OF ok i wfw ww])
  obtain vs2 k where p: "vma_put (vs[i := ?w]) ?h = Some (vs2, k)"
    using lt by (cases "vma_put (vs[i := ?w]) ?h") (auto simp: vma_put_def split: option.splits if_splits)
  have e: "munmap_slot lo hi vs i = vs2" using th v p n unfolding munmap_slot_def by (simp add: vma_add_anon Let_def)
  have wh: "within ?h (vs ! i)" using t v(4) less_imp_le [OF t(3)] by (simp add: within_def anon_region_def)
  have ap: "apart ?w ?h" using less_imp_le [OF r(3)] by (simp add: apart_def anon_region_def)
  have sep: "apart (vs[i := ?w] ! j) ?h" if "j < length (vs[i := ?w])" for j
    by (rule within_sep [OF ok i _ wh ap that]) (use t(1) v(4) in simp)
  have "backing kmem cache vs2 a = (if covers a ?h then Some (v_flags v, page_source kmem cache ?h (a AND NOT 0xFFF)) else backing kmem cache (vs[i := ?w]) a)"
    using backing_put [OF okw p wfh sep] by (simp add: anon_region_def)
  also have "\<dots> = backing kmem cache vs a"
  proof (cases "covers a ?h")
    case True
    then have "covers a v" using t(1,3) less_imp_le [OF t(3)] order.trans unfolding covers_def anon_region_def by auto
    then have "backing kmem cache vs a = Some (v_flags v, page_source kmem cache v (a AND NOT 0xFFF))"
      using vma_find_eq [OF ok i] v(4) by (simp add: backing_def)
    with True v(1) show ?thesis by (simp add: anon_source anon_region_def)
  next
    case False
    have "covers a ?w = covers a v" using False a t v(2,3) unfolding covers_def anon_region_def
      by (auto simp: not_le not_less dest: less_trans less_le_trans)
    then show ?thesis using False v(1,4) by (simp add: backing_update [OF ok okw i] anon_source)
  qed
  finally have B: "backing kmem cache vs2 a = backing kmem cache vs a" .
  note c = munmap_slot_clears [OF ok i r, unfolded e clears_def]
  have "\<not> touches lo hi (vs2 ! j)" if j: "j < length vs2" for j
  proof (cases "j = i \<or> \<not> (j < length vs \<and> vs2 ! j = vs ! j)")
    case True
    then show ?thesis using c j by blast
  next
    case False
    then have "apart (vs ! j) v" using vma_okD(3) [OF ok _ i, of j] v(4) by simp
    then show ?thesis using False t(1) v(2,3) unfolding apart_def touches_def
      by (metis less_trans not_less)
  qed
  then show ?thesis using B e by (simp add: room_def)
qed

lemma munmap_slot_backing:
  assumes ok: "vma_ok vs" and i: "i < length vs" and r: "page_aligned lo" "page_aligned hi" "lo < hi"
    and cut: "cut_anon lo hi (vs ! i)" and rm: "room lo hi vs" and a: "\<not> (lo \<le> a \<and> a < hi)"
  shows "backing kmem cache (munmap_slot lo hi vs i) a = backing kmem cache vs a \<and> room lo hi (munmap_slot lo hi vs i)"
proof (cases "touches lo hi (vs ! i)")
  case False
  then show ?thesis using rm by (simp add: munmap_slot_def)
next
  case True
  define v where "v = vs ! i"
  have t: "live v" "lo < v_end v" "v_start v < hi" using True unfolding touches_def v_def by blast+
  have wf: "vma_wf v" using vma_okD(2) [OF ok i] unfolding v_def .
  have lt: "length vs < VMA_MAX" using rm True i unfolding room_def by blast
  have ro: "room lo hi (vs[i := w])" for w using lt by (simp add: room_def)
  have cov: "covers a v \<longleftrightarrow> v_start v \<le> a \<and> a < v_end v" using t(1) by (simp add: covers_def)
  show ?thesis
  proof (cases "lo \<le> v_start v \<and> v_end v \<le> hi")
    case full: True
    then have "munmap_slot lo hi vs i = vma_remove vs i" using True unfolding munmap_slot_def v_def [symmetric] Let_def by simp
    moreover have "\<not> covers a v" using a full order.trans [of lo "v_start v" a] less_le_trans [of a "v_end v" hi] unfolding cov by blast
    ultimately show ?thesis using vma_remove_backing(2) [OF ok i, of kmem cache a] ro unfolding v_def by (simp add: vma_remove_def)
  next
    case part: False
    then have an: "v_type v = VMA_TYPE_ANON" using cut True unfolding cut_anon_def v_def by blast
    have upd: "backing kmem cache (vs[i := w]) a = backing kmem cache vs a"
      if "v_type w = VMA_TYPE_ANON" "v_flags w = v_flags v" "covers a w = covers a v" "vma_wf w" "within w v" for w
      by (rule backing_update [OF ok vma_ok_update [OF ok i] i]) (use that an in \<open>simp_all add: anon_source v_def\<close>)
    consider "lo \<le> v_start v" "hi < v_end v" | "v_start v < lo" "v_end v \<le> hi" | "v_start v < lo" "hi < v_end v" using part by (meson not_le)
    then show ?thesis
    proof cases
      case 1
      have "covers a (v\<lparr>v_start := hi\<rparr>) = covers a v" using a t(1,3) 1 order.trans [of lo "v_start v" a] unfolding covers_def by (auto simp: not_less)
      moreover have "munmap_slot lo hi vs i = vs[i := v\<lparr>v_start := hi\<rparr>]"
        using True 1 not_le [THEN iffD2, OF 1(2)] unfolding munmap_slot_def v_def [symmetric] Let_def by simp
      ultimately show ?thesis using upd [of "v\<lparr>v_start := hi\<rparr>"] wf_shrink(2) [OF wf t(1) r(2) t(3) 1(2)] an t ro less_imp_le [OF t(3)] by (simp add: within_def)
    next
      case 2
      have "covers a (v\<lparr>v_end := lo\<rparr>) = covers a v" using a t(1,2) 2 less_le_trans [of a "v_end v" hi] less_trans [of a lo "v_end v"] unfolding covers_def by (auto simp: not_le)
      moreover have "munmap_slot lo hi vs i = vs[i := v\<lparr>v_end := lo\<rparr>]"
        using True 2 not_le [THEN iffD2, OF 2(1)] unfolding munmap_slot_def v_def [symmetric] Let_def by simp
      ultimately show ?thesis using upd [of "v\<lparr>v_end := lo\<rparr>"] wf_shrink(1) [OF wf t(1) r(1) 2(1) t(2)] an t ro less_imp_le [OF t(2)] by (simp add: within_def)
    next
      case 3
      then show ?thesis by (rule munmap_hole_backing [OF ok i r an _ _ v_def [symmetric] lt a])
    qed
  qed
qed

lemma munmap_loop_backing:
  assumes "vma_ok vs" "page_aligned lo" "page_aligned hi" "lo < hi" "\<forall>v \<in> set vs. cut_anon lo hi v" "room lo hi vs" "\<not> (lo \<le> a \<and> a < hi)"
  shows "backing kmem cache (munmap_loop lo hi vs i) a = backing kmem cache vs a"
  using assms
proof (induction lo hi vs i rule: munmap_loop.induct)
  case (1 lo hi vs i)
  show ?case
  proof (cases "i < length vs")
    case True
    let ?s = "munmap_slot lo hi vs i"
    note c = munmap_slot_clears [OF "1.prems"(1) True "1.prems"(2-4), unfolded clears_def]
    have "\<forall>v \<in> set ?s. cut_anon lo hi v" using c "1.prems"(5) by (metis cut_anon_def in_set_conv_nth)
    moreover have "backing kmem cache ?s a = backing kmem cache vs a \<and> room lo hi ?s"
      by (rule munmap_slot_backing [OF "1.prems"(1) True "1.prems"(2-4) _ "1.prems"(6,7)]) (use "1.prems"(5) True in simp)
    ultimately show ?thesis using "1.IH" [OF True] c "1.prems"(2-4,7) True by (simp add: munmap_loop.simps [of lo hi vs i])
  qed (simp add: munmap_loop.simps [of lo hi vs i])
qed

text \<open>Every mapped page of the user half lies in a region.\<close>

definition pages_backed :: "vmm \<Rightarrow> u64 \<Rightarrow> vma_set \<Rightarrow> bool" where
  "pages_backed s root vs \<longleftrightarrow> (\<forall>a. user_va a \<and> vmm_pte_has_frame (pte s root a) \<longrightarrow> vma_find vs a \<noteq> None)"

text \<open>The entry of a page after mprotect: the same frame; present unless all access is withdrawn;
  writable only if asked for, and not while the frame is shared copy-on-write; never executable
  for device memory.\<close>

definition reprotected :: "u32 \<Rightarrow> bool \<Rightarrow> u64 \<Rightarrow> u64 \<Rightarrow> bool" where
  "reprotected prot shared old e \<longleftrightarrow> e AND ADDRESS_MASK = old AND ADDRESS_MASK \<and> vmm_pte_has_frame e
     \<and> (has e VMM_FLAG_PRESENT \<longleftrightarrow> prot AND (PROT_READ OR PROT_WRITE OR PROT_EXEC) \<noteq> 0)
     \<and> (has e VMM_FLAG_RW \<longleftrightarrow> prot AND PROT_WRITE \<noteq> 0 \<and> (has old VMM_FLAG_DEVICE \<or> \<not> has old VMM_FLAG_COW \<and> \<not> shared))
     \<and> (has e VMM_FLAG_NOEXEC \<longleftrightarrow> prot AND PROT_EXEC = 0 \<or> has old VMM_FLAG_DEVICE)"

lemma protect_reprotected: "reprotected prot sh old (protect_entry old (m18_prot_to_flags prot) sh)"
proof -
  have z: "prot AND (PROT_READ OR PROT_WRITE OR PROT_EXEC) = 0 \<Longrightarrow> prot AND PROT_WRITE = 0 \<and> prot AND PROT_EXEC = 0"
    by (simp add: bit.conj_disj_distrib or_eq_0_iff)
  have "protect_entry old (m18_prot_to_flags prot) sh AND ADDRESS_MASK = old AND ADDRESS_MASK"
    by (rule bit_word_eqI) (auto simp: bit_and_iff bit_address_mask protect_bits split: if_splits)
  then show ?thesis using z unfolding reprotected_def has_bit has_frame_bit protect_bits by (simp; blast)
qed

lemma backing_None: "backing kmem cache vs a = None \<longleftrightarrow> vma_find vs a = None"
  by (simp add: backing_def)

lemma mprotect_pages:
  assumes ok: "vma_ok (vmas c)" and r: "ksys_mprotect s c addr len prot = (s', c', 0)"
    and t: "p_space c = Some root" "tree_ok s root"
  shows "range_edit (change_pte (frames s) (m18_prot_to_flags prot)) root addr (addr + m18_user_span addr len) (vmas c) s s'"
proof -
  let ?en = "addr + m18_user_span addr len" and ?f = "m18_prot_to_flags prot"
  note B = mprotect_backing [OF ok r, of "\<lambda>_. 0" "\<lambda>_ _. None"]
  have find: "vma_find (vmas c') a = None \<longleftrightarrow> vma_find (vmas c) a = None" for a
    using B backing_None [of "\<lambda>_. 0" "\<lambda>_ _. None" "vmas c'" a] backing_None [of "\<lambda>_. 0" "\<lambda>_ _. None" "vmas c" a]
    by (auto split: if_splits)
  have nz: "m18_user_span addr len \<noteq> 0" and wx: "\<not> (prot AND PROT_WRITE \<noteq> 0 \<and> prot AND PROT_EXEC \<noteq> 0)"
    and s': "s' = mprotect_ptes (Some root) addr ?en ?f (vmas c') s"
    using r t(1) by (auto simp: ksys_mprotect_def Let_def split: if_splits prod.splits)
  have w: "\<not> wx_request ?f" using wx unfolding wx_request_def has_bit prot_bits by auto
  note b = span_bounds [OF nz]
  show ?thesis using mprotect_ptes_edit [OF conjunct1 [OF B] b(1,2,4) t(2) w, folded s']
    unfolding range_edit_def find .
qed

lemma munmap_pages:
  assumes ok: "vma_ok (vmas c)" and r: "ksys_munmap s c addr len = (s', c', 0)"
    and t: "p_space c = Some root" "tree_ok s root"
  shows "range_edit clear_pte root addr (addr + m18_user_span addr len) (vmas c) s s'"
proof -
  have nz: "m18_user_span addr len \<noteq> 0" and s': "s' = munmap_ptes (Some root) addr (addr + m18_user_span addr len) (vmas c) s"
    using r t(1) by (auto simp: ksys_munmap_def Let_def split: if_splits)
  show ?thesis unfolding s' by (rule munmap_ptes_edit [OF ok span_bounds(1,2,4) [OF nz] t(2)])
qed

subsection \<open>Properties\<close>

text \<open>
  C15. A successful mprotect changes the protection of exactly the mapped addresses of its range
  and of no other, and no address changes the page that a fault on it would install, however
  the range cuts the regions.  In the page tables of the process it rewrites, and invalidates,
  the entry of every page of the range that is mapped, keeping its frame, and no other entry of
  the user half; writing stays withheld while a frame is shared copy-on-write.
\<close>

theorem mprotect_exact:
  assumes "vma_ok (vmas c)" "ksys_mprotect s c addr len prot = (s', c', 0)"
  defines "en \<equiv> addr + m18_user_span addr len"
  shows "vma_ok (vmas c') \<and> (\<forall>a. backing kmem cache (vmas c') a =
    (if addr \<le> a \<and> a < en
     then map_option (\<lambda>(_, p). (m18_prot_to_flags prot, p)) (backing kmem cache (vmas c) a) else backing kmem cache (vmas c) a))
    \<and> (\<forall>root. p_space c = Some root \<and> tree_ok s root \<and> pages_backed s root (vmas c) \<longrightarrow> pages_backed s' root (vmas c')
       \<and> (\<forall>a. user_va a \<longrightarrow> (if addr \<le> a \<and> a < en \<and> vmm_pte_has_frame (pte s root a)
            then reprotected prot (pmm_frame_shared (frames s) (pte s root a AND ADDRESS_MASK)) (pte s root a) (pte s' root a)
              \<and> (a AND 0xFFF = 0 \<longrightarrow> (Some root, a, 1) \<in> set (shootdowns s'))
            else pte s' root a = pte s root a)))"
proof -
  note B = mprotect_backing [OF assms(1,2), of kmem cache, folded en_def]
  have find: "vma_find (vmas c') a = None \<longleftrightarrow> vma_find (vmas c) a = None" for a
    using B backing_None [of kmem cache "vmas c'" a] backing_None [of kmem cache "vmas c" a] by (auto split: if_splits)
  have "pages_backed s' root (vmas c') \<and> (\<forall>a. user_va a \<longrightarrow> (if addr \<le> a \<and> a < en \<and> vmm_pte_has_frame (pte s root a)
      then reprotected prot (pmm_frame_shared (frames s) (pte s root a AND ADDRESS_MASK)) (pte s root a) (pte s' root a)
        \<and> (a AND 0xFFF = 0 \<longrightarrow> (Some root, a, 1) \<in> set (shootdowns s'))
      else pte s' root a = pte s root a))"
    if t: "p_space c = Some root" "tree_ok s root" "pages_backed s root (vmas c)" for root
  proof -
    note E = mprotect_pages [OF assms(1,2) t(1,2), folded en_def, unfolded range_edit_def]
    have p: "pte s' root a = (if addr \<le> a \<and> a < en \<and> vmm_pte_has_frame (pte s root a)
        then protect_entry (pte s root a) (m18_prot_to_flags prot) (pmm_frame_shared (frames s) (pte s root a AND ADDRESS_MASK)) else pte s root a)"
      if "user_va a" for a
      using E t(3) that unfolding pages_backed_def change_pte_def by auto
    then have "pages_backed s' root (vmas c')" using t(3) unfolding pages_backed_def find by (auto split: if_splits)
    moreover have "(Some root, a, 1) \<in> set (shootdowns s')"
      if "user_va a" "addr \<le> a" "a < en" "vmm_pte_has_frame (pte s root a)" "a AND 0xFFF = 0" for a
      using E t(3) that unfolding pages_backed_def by blast
    ultimately show ?thesis using p protect_reprotected by simp
  qed
  with B show ?thesis by blast
qed

lemma demo_ok: "vma_ok (vmas demo_proc)"
  by (simp add: vma_ok_def vma_wf_def demo_proc_def demo_region_def VMA_MAX_def page_aligned_def)

lemma demo_split:
  "split_loop 0x100001000 [demo_region] 0 = ([demo_region\<lparr>v_end := 0x100001000\<rparr>, split_hi demo_region 0x100001000], True)"
proof -
  have ok: "vma_ok [demo_region]" using demo_ok by (simp add: demo_proc_def)
  have "vma_split [demo_region] 0 0x100001000 = ([demo_region\<lparr>v_end := 0x100001000\<rparr>, split_hi demo_region 0x100001000], 0)"
    by (simp add: vma_split_eq [OF ok, of 0] can_split_def vma_put_def VMA_MAX_def) (simp add: demo_region_def page_aligned_def)
  then show ?thesis
    by (simp add: split_loop.simps [of _ "[demo_region]"] split_loop.simps [of _ "[_, _]"]) (simp add: demo_region_def split_hi_def)
qed

lemma demo_span: "m18_user_span 0x100000000 0x1000 = 0x1000"
  by (simp add: m18_user_span_def pgup_def USER_CODE_BASE_def VMM_USER_TOP_def)

lemma demo_pages: "pages_backed demo_space 0x1000 (vmas demo_proc)"
  unfolding pages_backed_def
proof (intro allI impI, elim conjE)
  fix a assume a: "user_va a" "vmm_pte_has_frame (pte demo_space 0x1000 a)"
  then obtain t where t: "walk demo_space 0x1000 (table_path a) = Some t" "vmm_pte_has_frame (pm demo_space t (pt_i a))"
    by (cases "walk demo_space 0x1000 (table_path a)") (simp_all add: pte_def)
  have "(table_path a, t) = ([0, 4, 0], 0x4000)" using demo_walk [OF upath_user [OF a(1)] t(1)] by (auto simp: table_path_def)
  moreover from this t(2) have "pt_i a = 0" by (auto simp: demo_space_def split: if_splits)
  ultimately have "unat a div 4096 = unat (0x100000000 :: u64) div 4096"
    by (intro same_page [OF a(1) demo_user(1)]) (simp_all add: demo_indices)
  then have "0x100000000 \<le> unat a" "unat a < 0x100001000" using div_mult_mod_eq [of "unat a" 4096] mod_less_divisor [of 4096 "unat a"] by simp_all
  then have "covers a demo_region" by (simp add: covers_def demo_region_def word_nat_order)
  then show "vma_find (vmas demo_proc) a \<noteq> None" by (simp add: vma_find_def demo_proc_def)
qed

text \<open>Taking all access from the first page of the region.\<close>

theorem mprotect_exact_witness:
  "\<exists>s' c'. ksys_mprotect demo_space demo_proc 0x100000000 0x1000 0 = (s', c', 0)
    \<and> backing (\<lambda>_. 0) (\<lambda>_ _. None) (vmas c') 0x100001800 = Some (0x8000000000000007, Src_fill (vma_memset 0 0x1000))
    \<and> \<not> has (pte s' 0x1000 0x100000000) VMM_FLAG_PRESENT \<and> pte s' 0x1000 0x100000000 AND ADDRESS_MASK = 0x5000"
proof -
  let ?vs = "[demo_region\<lparr>v_end := 0x100001000\<rparr>, split_hi demo_region 0x100001000]"
  have "split_loop 0x100000000 [demo_region] 0 = ([demo_region], True)"
    by (simp add: split_loop.simps [of _ "[_]"]) (simp add: demo_region_def)
  then have "snd (snd (ksys_mprotect demo_space demo_proc 0x100000000 0x1000 0)) = 0"
    using demo_split by (simp add: ksys_mprotect_def demo_span demo_proc_def Let_def vma_overlaps_def)
      (simp add: demo_region_def)
  then obtain s' c' where r: "ksys_mprotect demo_space demo_proc 0x100000000 0x1000 0 = (s', c', 0)" by (metis prod.collapse)
  note M = mprotect_exact [OF demo_ok r, of "\<lambda>_. 0" "\<lambda>_ _. None", unfolded demo_span]
  have "p_space demo_proc = Some 0x1000" by (simp add: demo_proc_def)
  with M demo_tree demo_pages demo_user(1) have "reprotected 0 (pmm_frame_shared (frames demo_space) (pte demo_space 0x1000 0x100000000 AND ADDRESS_MASK))
      (pte demo_space 0x1000 0x100000000) (pte s' 0x1000 0x100000000)"
    by (auto simp: demo_pte vmm_pte_has_frame_def flag_defs split: if_splits)
  moreover have "backing (\<lambda>_. 0) (\<lambda>_ _. None) (vmas c') 0x100001800 = backing (\<lambda>_. 0) (\<lambda>_ _. None) (vmas demo_proc) 0x100001800"
    using M by simp
  ultimately show ?thesis using r by (simp add: reprotected_def demo_pte ADDRESS_MASK_def demo_backing demo_proc_def)
qed

text \<open>
  C14. After a successful munmap no region covers an address of its range and, if the mapped
  pages of the process all lie in regions, no page of the range is mapped; each page that was
  is invalidated, and every other entry of the user half is as before.  Outside the range every
  address keeps its protection and its page and the mapped pages still lie in regions, provided
  that the regions the range cuts are anonymous and that the table has a free slot.
\<close>

theorem munmap_exact:
  assumes "vma_ok (vmas c)" "ksys_munmap s c addr len = (s', c', 0)"
  defines "en \<equiv> addr + m18_user_span addr len"
  shows "vma_ok (vmas c') \<and> (\<forall>a. addr \<le> a \<and> a < en \<longrightarrow> vma_find (vmas c') a = None)
    \<and> (\<forall>root. p_space c = Some root \<and> tree_ok s root \<and> pages_backed s root (vmas c) \<longrightarrow>
        (\<forall>a. user_va a \<longrightarrow> (if addr \<le> a \<and> a < en then \<not> vmm_pte_has_frame (pte s' root a)
              \<and> (a AND 0xFFF = 0 \<and> vmm_pte_has_frame (pte s root a) \<longrightarrow> (Some root, a, 1) \<in> set (shootdowns s'))
            else pte s' root a = pte s root a)))
    \<and> ((\<forall>v \<in> set (vmas c). cut_anon addr en v) \<and> length (vmas c) < VMA_MAX \<longrightarrow>
        (\<forall>a. \<not> (addr \<le> a \<and> a < en) \<longrightarrow> backing kmem cache (vmas c') a = backing kmem cache (vmas c) a)
        \<and> (\<forall>root. p_space c = Some root \<and> tree_ok s root \<and> pages_backed s root (vmas c) \<longrightarrow> pages_backed s' root (vmas c')))"
proof -
  have nz: "m18_user_span addr len \<noteq> 0" and e: "vmas c' = munmap_loop addr en (vmas c) 0"
    using assms(2) by (auto simp: ksys_munmap_def Let_def en_def split: if_splits)
  note N = munmap_none [OF assms(1,2), folded en_def]
  have out: "backing kmem cache (vmas c') a = backing kmem cache (vmas c) a"
    if "\<forall>v \<in> set (vmas c). cut_anon addr en v" "length (vmas c) < VMA_MAX" "\<not> (addr \<le> a \<and> a < en)" for a
    unfolding e by (rule munmap_loop_backing [OF assms(1) span_bounds(1-3) [OF nz, folded en_def] that(1) _ that(3)])
      (use that(2) in \<open>simp add: room_def\<close>)
  have pages: "if addr \<le> a \<and> a < en then \<not> vmm_pte_has_frame (pte s' root a)
        \<and> (a AND 0xFFF = 0 \<and> vmm_pte_has_frame (pte s root a) \<longrightarrow> (Some root, a, 1) \<in> set (shootdowns s'))
      else pte s' root a = pte s root a"
    if "p_space c = Some root \<and> tree_ok s root \<and> pages_backed s root (vmas c)" "user_va a" for root a
    using munmap_pages [OF assms(1,2), of root, folded en_def] that unfolding range_edit_def pages_backed_def clear_pte_def
    by (auto split: if_splits)
  have "pages_backed s' root (vmas c')"
    if "\<forall>v \<in> set (vmas c). cut_anon addr en v" "length (vmas c) < VMA_MAX" "p_space c = Some root \<and> tree_ok s root \<and> pages_backed s root (vmas c)" for root
    unfolding pages_backed_def
  proof (intro allI impI, elim conjE)
    fix a assume a: "user_va a" "vmm_pte_has_frame (pte s' root a)"
    with pages [OF that(3) a(1)] have i: "\<not> (addr \<le> a \<and> a < en)" "vmm_pte_has_frame (pte s root a)" by (auto split: if_splits)
    then show "vma_find (vmas c') a \<noteq> None"
      using out [OF that(1,2) i(1)] backing_None [of kmem cache _ a] a(1) that(3) unfolding pages_backed_def by metis
  qed
  with N out pages show ?thesis by blast
qed

theorem munmap_exact_witness:
  "\<exists>s' c'. ksys_munmap demo_space demo_proc 0x100000000 0x1000 = (s', c', 0) \<and> vma_find (vmas c') 0x100000800 = None
    \<and> \<not> vmm_pte_has_frame (pte s' 0x1000 0x100000000) \<and> (Some 0x1000, 0x100000000, 1) \<in> set (shootdowns s')
    \<and> backing (\<lambda>_. 0) (\<lambda>_ _. None) (vmas c') 0x100001800 = Some (0x8000000000000007, Src_fill (vma_memset 0 0x1000))"
proof -
  obtain s' c' where r: "ksys_munmap demo_space demo_proc 0x100000000 0x1000 = (s', c', 0)"
    by (simp add: ksys_munmap_def demo_span)
  note M = munmap_exact [OF demo_ok r, of "\<lambda>_. 0" "\<lambda>_ _. None", unfolded demo_span]
  have "p_space demo_proc = Some 0x1000" by (simp add: demo_proc_def)
  with M demo_tree demo_pages demo_user(1) have "\<not> vmm_pte_has_frame (pte s' 0x1000 0x100000000)" "(Some 0x1000, 0x100000000, 1) \<in> set (shootdowns s')"
    by (auto simp: demo_pte vmm_pte_has_frame_def flag_defs split: if_splits)
  moreover have "\<forall>v \<in> set (vmas demo_proc). cut_anon 0x100000000 (0x100000000 + 0x1000) v" "length (vmas demo_proc) < VMA_MAX"
    by (simp_all add: cut_anon_def demo_region_def demo_proc_def VMA_MAX_def)
  with M have "backing (\<lambda>_. 0) (\<lambda>_ _. None) (vmas c') 0x100001800 = backing (\<lambda>_. 0) (\<lambda>_ _. None) (vmas demo_proc) 0x100001800" by simp
  moreover have "vma_find (vmas c') 0x100000800 = None" using M by simp
  ultimately show ?thesis using r by (simp add: demo_backing demo_proc_def)
qed

text \<open>A turn of the loop leaves the other regions alone.\<close>

lemma put_other: "vma_put vs w = Some (vs', n) \<Longrightarrow> length vs \<le> VMA_MAX \<Longrightarrow> j < length vs \<Longrightarrow> live (vs ! j) \<Longrightarrow> vs' ! j = vs ! j"
  using vma_put_props(5,6) [of vs w vs' n] by (cases "j = n") auto

lemma munmap_slot_other:
  assumes ok: "vma_ok vs" and i: "i < length vs" and j: "j < length vs" "j \<noteq> i" "live (vs ! j)"
  shows "munmap_slot lo hi vs i ! j = vs ! j"
proof -
  have n: "length vs \<le> VMA_MAX" by (rule vma_okD(1) [OF ok])
  have "fst (vma_split vs i hi) ! j = vs ! j"
    using put_other [OF _ n j(1,3)] j(2) by (auto simp: vma_split_eq [OF ok i] split: option.splits)
  moreover have "fst (vma_add (vs[i := w]) hi e f VMA_TYPE_ANON 0 0 0 0) ! j = vs ! j" for w e f
    using put_other [of "vs[i := w]" _ _ _ j] n j by (auto simp: vma_add_anon split: option.splits)
  ultimately show ?thesis using j(2) by (simp add: munmap_slot_def Let_def vma_remove_def)
qed

lemma munmap_loop_past:
  assumes "vma_ok vs" "page_aligned lo" "page_aligned hi" "lo < hi" "j < i" "j < length vs" "live (vs ! j)"
  shows "munmap_loop lo hi vs i ! j = vs ! j \<and> j < length (munmap_loop lo hi vs i)"
  using assms
proof (induction lo hi vs i rule: munmap_loop.induct)
  case (1 lo hi vs i)
  show ?case
  proof (cases "i < length vs")
    case True
    let ?s = "munmap_slot lo hi vs i"
    note c = munmap_slot_clears [OF "1.prems"(1) True "1.prems"(2-4), unfolded clears_def]
    have o: "?s ! j = vs ! j" by (rule munmap_slot_other [OF "1.prems"(1) True]) (use "1.prems" in simp_all)
    have "munmap_loop lo hi ?s (i + 1) ! j = ?s ! j \<and> j < length (munmap_loop lo hi ?s (i + 1))"
    proof (rule "1.IH" [OF True _ "1.prems"(2-4)])
      show "vma_ok ?s" "j < i + 1" "j < length ?s" "live (?s ! j)" using c o "1.prems"(5-7) by simp_all
    qed
    then show ?thesis unfolding o munmap_loop.simps [of lo hi vs i] if_P [OF True] .
  next
    case False
    then show ?thesis using "1.prems"(6) unfolding munmap_loop.simps [of lo hi vs i] by simp
  qed
qed

text \<open>A region whose front lies in the range keeps its slot and loses only that front.\<close>

lemma munmap_loop_front:
  assumes "vma_ok vs" "page_aligned lo" "page_aligned hi" "lo < hi" "i \<le> j" "j < length vs" "touches lo hi (vs ! j)"
    "lo \<le> v_start (vs ! j)" "hi < v_end (vs ! j)"
  shows "munmap_loop lo hi vs i ! j = (vs ! j)\<lparr>v_start := hi\<rparr> \<and> j < length (munmap_loop lo hi vs i)"
  using assms
proof (induction lo hi vs i rule: munmap_loop.induct)
  case (1 lo hi vs i)
  let ?s = "munmap_slot lo hi vs i"
  have i: "i < length vs" using "1.prems"(5,6) by simp
  have l: "live (vs ! j)" using "1.prems"(7) by (simp add: touches_def)
  note c = munmap_slot_clears [OF "1.prems"(1) i "1.prems"(2-4), unfolded clears_def]
  have e: "munmap_loop lo hi vs i = munmap_loop lo hi ?s (i + 1)" using i by (simp add: munmap_loop.simps [of lo hi vs i])
  show ?case
  proof (cases "i = j")
    case True
    have s: "?s = vs[i := (vs ! i)\<lparr>v_start := hi\<rparr>]"
      using "1.prems"(7-9) True not_le [THEN iffD2, OF "1.prems"(9)] unfolding munmap_slot_def by simp
    have "munmap_loop lo hi ?s (i + 1) ! j = ?s ! j \<and> j < length (munmap_loop lo hi ?s (i + 1))"
    proof (rule munmap_loop_past [OF _ "1.prems"(2-4)])
      show "vma_ok ?s" "j < i + 1" "j < length ?s" "live (?s ! j)" using c True i l s by simp_all
    qed
    then show ?thesis unfolding e using s True i by simp
  next
    case False
    have o: "?s ! j = vs ! j" by (rule munmap_slot_other [OF "1.prems"(1) i]) (use "1.prems"(6) False l in simp_all)
    have "munmap_loop lo hi ?s (i + 1) ! j = (?s ! j)\<lparr>v_start := hi\<rparr> \<and> j < length (munmap_loop lo hi ?s (i + 1))"
    proof (rule "1.IH" [OF i _ "1.prems"(2-4)])
      show "vma_ok ?s" "i + 1 \<le> j" "j < length ?s" using c False "1.prems"(5,6) by simp_all
      show "touches lo hi (?s ! j)" "lo \<le> v_start (?s ! j)" "hi < v_end (?s ! j)" unfolding o by (rule "1.prems"(7-9))+
    qed
    then show ?thesis unfolding e o .
  qed
qed

lemma page_of_add:
  assumes "page_aligned b" "unat b + unat k < 2 ^ 64"
  shows "(b + k) AND NOT 0xFFF = b + (k AND NOT 0xFFF)"
proof -
  obtain q where q: "unat b = 4096 * q" using assms(1) unfolding page_aligned_iff by (metis dvd_def mod_eq_0_iff_dvd)
  have le: "unat (k AND NOT 0xFFF) \<le> unat k" unfolding page_of by (rule div_times_less_eq_dividend)
  have "unat b + unat (k AND NOT 0xFFF) < 2 ^ 64" using le assms(2) by linarith
  from unat_add64 [OF this] have "unat (b + (k AND NOT 0xFFF)) = 4096 * q + unat k div 4096 * 4096" unfolding page_of q .
  moreover have "unat ((b + k) AND NOT 0xFFF) = (4096 * q + unat k) div 4096 * 4096" unfolding page_of unat_add64 [OF assms(2)] q ..
  ultimately show ?thesis unfolding word_unat_eq_iff by simp
qed

text \<open>
  C39. Unmapping the front of a file mapping shifts its contents: the region's start moves up but
  its offset into the file does not, so a page that remains, when it is first touched, is
  filled with the contents that lie as far from the start of the old region as it lies from
  the start of the new one.
\<close>

theorem munmap_front_shifts:
  assumes "vma_ok (vmas c)" "ksys_munmap s c addr len = (s', c', 0)" "v \<in> set (vmas c)" "v_type v = VMA_TYPE_FILE"
    "addr \<le> v_start v" "v_start v < addr + m18_user_span addr len"
    "unat (addr + m18_user_span addr len) + unat k < unat (v_end v)"
  shows "backing kmem cache (vmas c') (addr + m18_user_span addr len + k) = backing kmem cache (vmas c) (v_start v + k)"
proof -
  let ?en = "addr + m18_user_span addr len"
  obtain j where j: "j < length (vmas c)" "vmas c ! j = v" using assms(3) by (auto simp: in_set_conv_nth)
  have nz: "m18_user_span addr len \<noteq> 0" and e: "vmas c' = munmap_loop addr ?en (vmas c) 0"
    using assms(2) by (auto simp: ksys_munmap_def Let_def split: if_splits)
  note b = span_bounds [OF nz]
  have wf: "vma_wf v" "live v" using vma_okD(2) [OF assms(1) j(1)] j(2) assms(4) by simp_all
  then have w: "page_aligned (v_start v)" "unat (v_end v) \<le> 2 ^ 47" by (simp_all add: vma_wf_def)
  have t: "touches addr ?en v" "?en < v_end v" using assms(5-7) wf(2) unfolding touches_def word_nat_order by linarith+
  have L: "vmas c' ! j = v\<lparr>v_start := ?en\<rparr>" "j < length (vmas c')"
    using munmap_loop_front [OF assms(1) b(1-3) _ j(1), of 0] t assms(5) j(2) unfolding e by simp_all
  have u: "unat ?en + unat k < 2 ^ 64" "unat (v_start v) + unat k < 2 ^ 64" using assms(6,7) w(2) unfolding word_nat_order by simp_all
  have cv: "covers (?en + k) (v\<lparr>v_start := ?en\<rparr>)" "covers (v_start v + k) v"
    using wf(2) assms(6,7) unfolding covers_def word_nat_order unat_add64 [OF u(1)] unat_add64 [OF u(2)] by simp_all
  have f: "vma_find (vmas c') (?en + k) = Some j" "vma_find (vmas c) (v_start v + k) = Some j"
    using vma_find_eq [OF conjunct1 [OF munmap_none [OF assms(1,2)]] L(2)] vma_find_eq [OF assms(1) j(1)] cv j(2) L(1) by simp_all
  have "page_source kmem cache (v\<lparr>v_start := ?en\<rparr>) (?en + x) = page_source kmem cache v (v_start v + x)" for x
    by (cases "file_inode v"; simp add: page_source_def fault_page_def image_page_def Let_def assms(4))
  then show ?thesis using f L(1) j(2) page_of_add [OF b(2) u(1)] page_of_add [OF w(1) u(2)] by (simp add: backing_def)
qed

text \<open>A process with a mapped file and a stack: file 7 from offset 0, whose pages hold their number.\<close>

definition file_region :: vma where
  "file_region = demo_region\<lparr>v_type := VMA_TYPE_FILE, file_inode := Some 7\<rparr>"

definition stack_region :: vma where
  "stack_region = demo_region\<lparr>v_start := 0x7FFF0000000, v_end := 0x7FFF0004000\<rparr>"

theorem munmap_front_shifts_witness:
  "\<exists>s' c'. ksys_munmap demo_space (demo_proc\<lparr>vmas := [stack_region, file_region]\<rparr>) 0x100000000 0x1000 = (s', c', 0)
    \<and> backing (\<lambda>_. 0) (\<lambda>_ off. Some [of_nat (unat off div 4096)]) [stack_region, file_region] 0x100002000 = Some (0x8000000000000007, Src_fill [2])
    \<and> backing (\<lambda>_. 0) (\<lambda>_ off. Some [of_nat (unat off div 4096)]) (vmas c') 0x100002000 = Some (0x8000000000000007, Src_fill [1])"
proof -
  let ?c = "demo_proc\<lparr>vmas := [stack_region, file_region]\<rparr>"
  obtain s' c' where r: "ksys_munmap demo_space ?c 0x100000000 0x1000 = (s', c', 0)" by (simp add: ksys_munmap_def demo_span)
  have ok: "vma_ok (vmas ?c)"
    by (simp add: vma_ok_def vma_wf_def stack_region_def file_region_def demo_region_def VMA_MAX_def page_aligned_def apart_def less_Suc_eq)
  have "backing (\<lambda>_. 0) (\<lambda>_ off. Some [of_nat (unat off div 4096)]) (vmas ?c) (0x100000000 + k) = Some (0x8000000000000007, Src_fill [m])"
    if "k = 0x1000 \<and> m = 1 \<or> k = 0x2000 \<and> m = 2" for k m
    using that by (auto simp: backing_def vma_find_def covers_def page_source_def fault_page_def stack_region_def file_region_def demo_region_def)
  from this [of "0x1000" 1] this [of "0x2000" 2] munmap_front_shifts [OF ok r, of file_region "0x1000" "\<lambda>_. 0" "\<lambda>_ off. Some [of_nat (unat off div 4096)]"] r
  show ?thesis by (simp add: demo_span) (simp add: file_region_def demo_region_def)
qed

end
