(* ===== verification/Refine.thy ===== *)
theory Refine
  imports Main
begin

text \<open>
  The contract between a stateful component and its abstract specification.  An operation
  returns a C result: negative, and then nothing visible has changed, or the effect that the
  specification gives.  A component that meets the contract step by step meets it over every
  sequence of calls.
\<close>

fun run_ops :: "('c \<Rightarrow> 's \<Rightarrow> 's \<times> int) \<Rightarrow> 'c list \<Rightarrow> 's \<Rightarrow> 's \<times> int list" where
  "run_ops step [] s = (s, [])"
| "run_ops step (c # cs) s = (let (s, r) = step c s; (s, rs) = run_ops step cs s in (s, r # rs))"

text \<open>The specification along the results that the calls returned.\<close>

fun run_spec :: "('c \<Rightarrow> 'm \<Rightarrow> 'm option) \<Rightarrow> 'c list \<Rightarrow> int list \<Rightarrow> 'm \<Rightarrow> 'm option" where
  "run_spec spec (c # cs) (r # rs) m = (if r < 0 then run_spec spec cs rs m
     else case spec c m of None \<Rightarrow> None | Some m' \<Rightarrow> run_spec spec cs rs m')"
| "run_spec spec _ _ m = Some m"

fun run_safe :: "('c \<Rightarrow> 'm \<Rightarrow> 'm option) \<Rightarrow> ('c \<Rightarrow> 'm \<Rightarrow> bool) \<Rightarrow> 'c list \<Rightarrow> 'm \<Rightarrow> bool" where
  "run_safe spec safe [] m \<longleftrightarrow> True"
| "run_safe spec safe (c # cs) m \<longleftrightarrow> safe c m \<and> run_safe spec safe cs m \<and> (case spec c m of None \<Rightarrow> True | Some m' \<Rightarrow> run_safe spec safe cs m')"

locale refines =
  fixes inv :: "'s \<Rightarrow> bool" and abst :: "'s \<Rightarrow> 'm" and step :: "'c \<Rightarrow> 's \<Rightarrow> 's \<times> int"
    and spec :: "'c \<Rightarrow> 'm \<Rightarrow> 'm option" and safe :: "'c \<Rightarrow> 'm \<Rightarrow> bool"
  assumes step_refines: "inv s \<Longrightarrow> safe c (abst s) \<Longrightarrow> step c s = (s', r) \<Longrightarrow>
      inv s' \<and> (if r < 0 then abst s' = abst s else spec c (abst s) = Some (abst s'))"
begin

lemma run_refines:
  assumes "inv s" "run_safe spec safe cs (abst s)" "run_ops step cs s = (s', rs)"
  shows "inv s' \<and> run_spec spec cs rs (abst s) = Some (abst s')"
  using assms
proof (induction cs arbitrary: s rs)
  case (Cons c cs)
  obtain s1 r rs1 where s1: "step c s = (s1, r)" "run_ops step cs s1 = (s', rs1)" "rs = r # rs1"
    using Cons.prems(3) by (auto simp: Let_def split: prod.splits)
  have st: "inv s1 \<and> (if r < 0 then abst s1 = abst s else spec c (abst s) = Some (abst s1))"
    by (rule step_refines [OF Cons.prems(1) _ s1(1)]) (use Cons.prems(2) in simp)
  then have "run_safe spec safe cs (abst s1)" using Cons.prems(2) by (auto split: if_splits)
  from Cons.IH [OF _ this s1(2)] st show ?case by (auto simp: s1(3) split: if_splits)
qed simp

end

end
