(* ===== verification/Ramfs.thy ===== *)
theory Ramfs
  imports Arrays Vfs Refine
begin

text \<open>
  The in-memory file system (fs/ramfs.c): a table of at most 256 entries addressed by full
  path names.  An entry with the empty name is a free slot.  The length of \<open>r_tab\<close> is
  \<open>ramfs_count\<close>.  The data buffer of an entry is the list of its bytes, so its length is
  the entry's size.  Whether the kernel heap can serve a request is the parameter
  \<open>kmalloc\<close> of the operations that allocate.
\<close>

definition RAMFS_MAX_FILES :: nat where "RAMFS_MAX_FILES = 256"
definition RAMFS_NAME_MAX :: nat where "RAMFS_NAME_MAX = 96"

record ramfs_entry =
  re_name :: string
  re_data :: "u8 list"
  re_flags :: u32

record ramfs =
  r_tab :: "ramfs_entry list"
  r_inited :: bool

definition immutable :: "ramfs_entry \<Rightarrow> bool" where
  "immutable e \<longleftrightarrow> re_flags e AND 1 \<noteq> 0"

definition is_directory :: "ramfs_entry \<Rightarrow> bool" where
  "is_directory e \<longleftrightarrow> re_flags e AND 2 \<noteq> 0"

definition str_copy :: "string \<Rightarrow> string" where
  "str_copy src = take (RAMFS_NAME_MAX - 1) src"

text \<open>A name below a directory: the directory's name, a slash, anything.\<close>

definition below :: "string \<Rightarrow> string \<Rightarrow> bool" where
  "below path name \<longleftrightarrow> take (length path) name = path \<and> length path < length name \<and> name ! length path = CHR ''/''"

definition ramfs_find :: "ramfs \<Rightarrow> string \<Rightarrow> nat option" where
  "ramfs_find s name = (if name = [] then None else find_index (\<lambda>e. re_name e = name) (r_tab s))"

definition ramfs_add_common :: "(nat \<Rightarrow> bool) \<Rightarrow> ramfs \<Rightarrow> string \<Rightarrow> u8 list \<Rightarrow> u32 \<Rightarrow> ramfs \<times> int" where
  "ramfs_add_common kmalloc s name data flags =
    (if name = [] \<or> length name \<ge> RAMFS_NAME_MAX then (s, -1)
     else if \<exists>e \<in> set (r_tab s). re_name e = name then (s, -1)
     else let e = \<lparr>re_name = str_copy name, re_data = data, re_flags = flags\<rparr>;
              oom = (data \<noteq> [] \<and> flags AND 1 = 0 \<and> \<not> kmalloc (length data)) in
       case find_index (\<lambda>e. re_name e = []) (r_tab s) of
         Some i \<Rightarrow>
           if oom then (s\<lparr>r_tab := (r_tab s)[i := \<lparr>re_name = [], re_data = [], re_flags = flags\<rparr>]\<rparr>, -1)
           else (s\<lparr>r_tab := (r_tab s)[i := e]\<rparr>, 0)
       | None \<Rightarrow>
           if length (r_tab s) \<ge> RAMFS_MAX_FILES then (s, -1)
           else if oom then (s, -1)
           else (s\<lparr>r_tab := r_tab s @ [e]\<rparr>, 0))"

definition ramfs_add :: "(nat \<Rightarrow> bool) \<Rightarrow> ramfs \<Rightarrow> string \<Rightarrow> u8 list \<Rightarrow> ramfs \<times> int" where
  "ramfs_add kmalloc s name data = ramfs_add_common kmalloc s name data 0"

definition ramfs_add_static :: "(nat \<Rightarrow> bool) \<Rightarrow> ramfs \<Rightarrow> string \<Rightarrow> u8 list \<Rightarrow> ramfs \<times> int" where
  "ramfs_add_static kmalloc s name data = ramfs_add_common kmalloc s name data 1"

text \<open>The entry of a name, when it may be changed.\<close>

definition writable_entry :: "ramfs \<Rightarrow> string \<Rightarrow> nat option" where
  "writable_entry s name = (case ramfs_find s name of None \<Rightarrow> None
     | Some i \<Rightarrow> if immutable (r_tab s ! i) then None else Some i)"

definition set_data :: "ramfs \<Rightarrow> nat \<Rightarrow> u8 list \<Rightarrow> ramfs" where
  "set_data s i d = s\<lparr>r_tab := (r_tab s)[i := (r_tab s ! i)\<lparr>re_data := d\<rparr>]\<rparr>"

definition c_int :: "nat \<Rightarrow> int" where
  "c_int n = sint (of_nat n :: u32)"

definition ramfs_write :: "(nat \<Rightarrow> bool) \<Rightarrow> ramfs \<Rightarrow> string \<Rightarrow> nat \<Rightarrow> u8 list \<Rightarrow> ramfs \<times> int" where
  "ramfs_write kmalloc s name offset src =
    (case writable_entry s name of None \<Rightarrow> (s, -1)
     | Some i \<Rightarrow>
         let d = re_data (r_tab s ! i); en = offset + length src in
         if offset > length d then (s, -1)
         else if en > length d \<and> \<not> kmalloc en then (s, -1)
         else (set_data s i (take offset d @ src @ drop en d), c_int (length src)))"

definition ramfs_truncate :: "(nat \<Rightarrow> bool) \<Rightarrow> ramfs \<Rightarrow> string \<Rightarrow> nat \<Rightarrow> ramfs \<times> int" where
  "ramfs_truncate kmalloc s name new_size =
    (case writable_entry s name of None \<Rightarrow> (s, -1)
     | Some i \<Rightarrow>
         let d = re_data (r_tab s ! i) in
         if new_size = length d then (s, 0)
         else if new_size = 0 then (set_data s i [], 0)
         else if \<not> kmalloc new_size then (s, -1)
         else (set_data s i (take new_size d @ replicate (new_size - length d) 0), 0))"

definition free_slot :: ramfs_entry where
  "free_slot = \<lparr>re_name = [], re_data = [], re_flags = 0\<rparr>"

definition ramfs_remove :: "ramfs \<Rightarrow> string \<Rightarrow> ramfs \<times> int" where
  "ramfs_remove s name =
    (case find_index (\<lambda>e. re_name e = name) (r_tab s) of None \<Rightarrow> (s, -1)
     | Some i \<Rightarrow>
         if immutable (r_tab s ! i) then (s, -1)
         else if i + 1 = length (r_tab s) then (s\<lparr>r_tab := butlast (r_tab s)\<rparr>, 0)
         else (s\<lparr>r_tab := (r_tab s)[i := free_slot]\<rparr>, 0))"

definition ramfs_list :: "ramfs \<Rightarrow> nat \<Rightarrow> nat list" where
  "ramfs_list s n = take n (filter (\<lambda>i. re_name (r_tab s ! i) \<noteq> []) [0 ..< length (r_tab s)])"

definition root_path :: "string \<Rightarrow> bool" where
  "root_path path \<longleftrightarrow> path = [] \<or> path = ''/''"

definition ramfs_is_dir :: "ramfs \<Rightarrow> string \<Rightarrow> int" where
  "ramfs_is_dir s path =
    (if root_path path then 1
     else case ramfs_find s path of None \<Rightarrow> -1 | Some i \<Rightarrow> if is_directory (r_tab s ! i) then 1 else 0)"

definition direct_child :: "string \<Rightarrow> string \<Rightarrow> bool" where
  "direct_child path name = (if root_path path then CHR ''/'' \<notin> set name
     else below path name \<and> CHR ''/'' \<notin> set (drop (length path + 1) name))"

definition ramfs_list_path :: "ramfs \<Rightarrow> string \<Rightarrow> nat \<Rightarrow> nat list" where
  "ramfs_list_path s path n =
    (if \<not> root_path path \<and> ramfs_is_dir s path \<noteq> 1 then []
     else take n (filter (\<lambda>i. re_name (r_tab s ! i) \<noteq> [] \<and> direct_child path (re_name (r_tab s ! i))) [0 ..< length (r_tab s)]))"

definition is_dir_entry :: "ramfs \<Rightarrow> string \<Rightarrow> bool" where
  "is_dir_entry s path = (case ramfs_find s path of None \<Rightarrow> False | Some i \<Rightarrow> is_directory (r_tab s ! i))"

definition path_validate_parent :: "ramfs \<Rightarrow> string \<Rightarrow> bool" where
  "path_validate_parent s path =
    (\<forall>i \<in> {0 ..< length path}. path ! i = CHR ''/'' \<longrightarrow> i < RAMFS_NAME_MAX \<and> is_dir_entry s (take i path))"

definition ramfs_mkdir :: "(nat \<Rightarrow> bool) \<Rightarrow> ramfs \<Rightarrow> string \<Rightarrow> ramfs \<times> int" where
  "ramfs_mkdir kmalloc s path =
    (if path = [] then (s, -1)
     else if length path \<ge> RAMFS_NAME_MAX then (s, -1)
     else if ramfs_find s path \<noteq> None then (s, -1)
     else if \<not> path_validate_parent s path then (s, -1)
     else ramfs_add_common kmalloc s path [] 2)"

definition ramfs_rmdir :: "ramfs \<Rightarrow> string \<Rightarrow> ramfs \<times> int" where
  "ramfs_rmdir s path =
    (case ramfs_find s path of None \<Rightarrow> (s, -1)
     | Some i \<Rightarrow>
         if \<not> is_directory (r_tab s ! i) then (s, -1)
         else if immutable (r_tab s ! i) then (s, -1)
         else if \<exists>j \<in> {0 ..< length (r_tab s)}. j \<noteq> i \<and> below path (re_name (r_tab s ! j)) then (s, -1)
         else ramfs_remove s path)"

text \<open>The directory part of a path, up to its last slash.\<close>

definition parent_part :: "string \<Rightarrow> string option" where
  "parent_part path = (if CHR ''/'' \<in> set path
     then Some (rev (tl (dropWhile (\<lambda>c. c \<noteq> CHR ''/'') (rev path)))) else None)"

definition rename_child :: "string \<Rightarrow> string \<Rightarrow> ramfs_entry \<Rightarrow> ramfs_entry" where
  "rename_child old_name new_path e = (if below old_name (re_name e)
     then e\<lparr>re_name := str_copy (new_path @ drop (length old_name) (re_name e))\<rparr> else e)"

definition ramfs_rename :: "ramfs \<Rightarrow> string \<Rightarrow> string \<Rightarrow> ramfs \<times> int" where
  "ramfs_rename s old_path new_path =
    (if old_path = [] \<or> new_path = [] then (s, -1)
     else if length new_path \<ge> RAMFS_NAME_MAX then (s, -1)
     else if ramfs_find s new_path \<noteq> None then (s, -1)
     else case writable_entry s old_path of None \<Rightarrow> (s, -1)
     | Some i \<Rightarrow>
         let e = r_tab s ! i; old_name = re_name e in
         if is_directory e \<and> below old_path new_path \<and> length old_path + 1 < length new_path then (s, -1)
         else if (case parent_part new_path of None \<Rightarrow> False | Some p \<Rightarrow> \<not> is_dir_entry s p) then (s, -1)
         else let e' = e\<lparr>re_name := str_copy new_path\<rparr>;
                  tab = (if is_directory e then map (rename_child old_name new_path) (r_tab s) else r_tab s)
           in (s\<lparr>r_tab := tab[i := e']\<rparr>, 0))"

subsection \<open>The table as a map\<close>

type_synonym fs_map = "string \<Rightarrow> (u32 \<times> u8 list) option"

definition files :: "ramfs \<Rightarrow> fs_map" where
  "files s name = map_option (\<lambda>i. (re_flags (r_tab s ! i), re_data (r_tab s ! i))) (ramfs_find s name)"

definition ramfs_ok :: "ramfs \<Rightarrow> bool" where
  "ramfs_ok s \<longleftrightarrow> length (r_tab s) \<le> RAMFS_MAX_FILES \<and> (\<forall>e \<in> set (r_tab s). length (re_name e) < RAMFS_NAME_MAX)
     \<and> (\<forall>i < length (r_tab s). \<forall>j < length (r_tab s). re_name (r_tab s ! i) \<noteq> [] \<and> re_name (r_tab s ! i) = re_name (r_tab s ! j) \<longrightarrow> i = j)"

lemma ramfs_okI:
  assumes "length (r_tab s) \<le> RAMFS_MAX_FILES" "\<And>j. j < length (r_tab s) \<Longrightarrow> length (re_name (r_tab s ! j)) < RAMFS_NAME_MAX"
    "\<And>i j. i < length (r_tab s) \<Longrightarrow> j < length (r_tab s) \<Longrightarrow> re_name (r_tab s ! i) \<noteq> [] \<Longrightarrow> re_name (r_tab s ! i) = re_name (r_tab s ! j) \<Longrightarrow> i = j"
  shows "ramfs_ok s"
  using assms unfolding ramfs_ok_def by (auto simp: in_set_conv_nth)

lemma ramfs_okD:
  assumes "ramfs_ok s"
  shows "length (r_tab s) \<le> RAMFS_MAX_FILES" "j < length (r_tab s) \<Longrightarrow> length (re_name (r_tab s ! j)) < RAMFS_NAME_MAX"
    "i < length (r_tab s) \<Longrightarrow> j < length (r_tab s) \<Longrightarrow> re_name (r_tab s ! i) \<noteq> [] \<Longrightarrow> re_name (r_tab s ! i) = re_name (r_tab s ! j) \<Longrightarrow> i = j"
  using assms unfolding ramfs_ok_def by auto

lemma find_entry:
  assumes "ramfs_ok s"
  shows "ramfs_find s n = Some i \<longleftrightarrow> n \<noteq> [] \<and> i < length (r_tab s) \<and> re_name (r_tab s ! i) = n"
proof
  assume r: "n \<noteq> [] \<and> i < length (r_tab s) \<and> re_name (r_tab s ! i) = n"
  then have "find_index (\<lambda>e. re_name e = n) (r_tab s) = Some i"
    by (intro find_index_unique) (use ramfs_okD(3) [OF assms] in auto)
  with r show "ramfs_find s n = Some i" by (simp add: ramfs_find_def)
qed (auto simp: ramfs_find_def find_index_Some split: if_splits)

lemma files_Some:
  assumes "ramfs_ok s"
  shows "files s n = Some v \<longleftrightarrow> n \<noteq> [] \<and> (\<exists>i < length (r_tab s). re_name (r_tab s ! i) = n \<and> v = (re_flags (r_tab s ! i), re_data (r_tab s ! i)))"
  unfolding files_def map_option_eq_Some find_entry [OF assms] by auto

lemma files_None: "files s n = None \<longleftrightarrow> n = [] \<or> (\<forall>e \<in> set (r_tab s). re_name e \<noteq> n)"
  by (auto simp: files_def ramfs_find_def find_index_None)

lemma files_Nil [simp]: "files s [] = None"
  by (simp add: files_None)

lemma files_eqI:
  assumes "ramfs_ok s'" "\<And>n v. m n = Some v \<longleftrightarrow> n \<noteq> [] \<and> (\<exists>i < length (r_tab s'). re_name (r_tab s' ! i) = n \<and> v = (re_flags (r_tab s' ! i), re_data (r_tab s' ! i)))"
  shows "files s' = m"
  using assms(2) files_Some [OF assms(1)] by (intro ext) (metis not_Some_eq)

lemma ex_update:
  assumes "i < length xs"
  shows "(\<exists>j < length (xs[i := e]). P (xs[i := e] ! j)) \<longleftrightarrow> P e \<or> (\<exists>j < length xs. j \<noteq> i \<and> P (xs ! j))"
  using assms by (metis length_list_update nth_list_update_eq nth_list_update_neq)

text \<open>Writing a slot: its old name goes, its new name, if any, comes.\<close>

lemma slot_update:
  assumes ok: "ramfs_ok s" and i: "i < length (r_tab s)" and n: "length (re_name e) < RAMFS_NAME_MAX"
    and new: "re_name e = [] \<or> re_name e = re_name (r_tab s ! i) \<or> files s (re_name e) = None"
  defines "s' \<equiv> s\<lparr>r_tab := (r_tab s)[i := e]\<rparr>"
  shows "ramfs_ok s'" "files s' = (\<lambda>x. if x \<noteq> [] \<and> x = re_name e then Some (re_flags e, re_data e)
      else if x = re_name (r_tab s ! i) then None else files s x)"
proof -
  have t': "r_tab s' = (r_tab s)[i := e]" by (simp add: s'_def)
  have cl: "j = i" if j: "j < length (r_tab s)" "re_name (r_tab s ! j) = re_name e" "re_name e \<noteq> []" for j
  proof (rule disjE [OF new])
    assume "re_name e = re_name (r_tab s ! i) \<or> files s (re_name e) = None"
    then show ?thesis using ramfs_okD(3) [OF ok j(1) i] j nth_mem [OF j(1)] unfolding files_None by auto
  qed (use j in simp)
  show ok': "ramfs_ok s'"
  proof (rule ramfs_okI)
    fix j k assume jk: "j < length (r_tab s')" "k < length (r_tab s')" "re_name (r_tab s' ! j) \<noteq> []" "re_name (r_tab s' ! j) = re_name (r_tab s' ! k)"
    have l: "j < length (r_tab s)" "k < length (r_tab s)" using jk(1,2) by (simp_all add: t')
    consider "j = i" | "k = i" | "j \<noteq> i" "k \<noteq> i" by blast
    then show "j = k"
    proof cases
      case 1
      with jk(3,4) cl [OF l(2)] i show ?thesis by (cases "k = i") (simp_all add: t')
    next
      case 2
      with jk(3,4) cl [OF l(1)] i show ?thesis by (cases "j = i") (simp_all add: t')
    next
      case 3
      with jk(3,4) ramfs_okD(3) [OF ok l] show ?thesis by (simp add: t')
    qed
  next
    fix j assume "j < length (r_tab s')"
    then show "length (re_name (r_tab s' ! j)) < RAMFS_NAME_MAX" using n ramfs_okD(2) [OF ok, of j] by (cases "j = i") (simp_all add: t')
  qed (use ramfs_okD(1) [OF ok] in \<open>simp add: t'\<close>)
  show "files s' = (\<lambda>x. if x \<noteq> [] \<and> x = re_name e then Some (re_flags e, re_data e)
      else if x = re_name (r_tab s ! i) then None else files s x)"
  proof (rule files_eqI [OF ok'])
    fix x v
    have U: "(\<exists>j<length (r_tab s'). re_name (r_tab s' ! j) = x \<and> v = (re_flags (r_tab s' ! j), re_data (r_tab s' ! j))) \<longleftrightarrow>
       (re_name e = x \<and> v = (re_flags e, re_data e)) \<or> (\<exists>j < length (r_tab s). j \<noteq> i \<and> re_name (r_tab s ! j) = x \<and> v = (re_flags (r_tab s ! j), re_data (r_tab s ! j)))"
      unfolding t' by (rule ex_update [OF i, of e "\<lambda>e. re_name e = x \<and> v = (re_flags e, re_data e)"])
    show "((if x \<noteq> [] \<and> x = re_name e then Some (re_flags e, re_data e)
      else if x = re_name (r_tab s ! i) then None else files s x) = Some v) = (x \<noteq> [] \<and>
        (\<exists>j<length (r_tab s'). re_name (r_tab s' ! j) = x \<and> v = (re_flags (r_tab s' ! j), re_data (r_tab s' ! j))))"
    proof (cases "x \<noteq> [] \<and> x = re_name e")
      case True
      then have "\<not> (\<exists>j < length (r_tab s). j \<noteq> i \<and> re_name (r_tab s ! j) = x \<and> v = (re_flags (r_tab s ! j), re_data (r_tab s ! j)))" using cl by auto
      with True show ?thesis unfolding U if_P [OF True] option.inject by metis
    next
      case False
      have "x \<noteq> [] \<and> (\<exists>j < length (r_tab s). j \<noteq> i \<and> re_name (r_tab s ! j) = x \<and> v = (re_flags (r_tab s ! j), re_data (r_tab s ! j)))
        \<longleftrightarrow> x \<noteq> re_name (r_tab s ! i) \<and> files s x = Some v"
        unfolding files_Some [OF ok] using ramfs_okD(3) [OF ok _ i] i by metis
      with False show ?thesis unfolding U if_not_P [OF False] by (metis option.distinct(1))
    qed
  qed
qed

text \<open>A free slot at the end of the table is not visible.\<close>

lemma find_index_append: "find_index P (xs @ [y]) = (case find_index P xs of None \<Rightarrow> if P y then Some (length xs) else None | Some i \<Rightarrow> Some i)"
  by (induction xs) (auto split: option.splits)

lemma pad_files:
  assumes "re_name f = []"
  shows "files (s\<lparr>r_tab := r_tab s @ [f]\<rparr>) = files s"
proof
  fix n
  show "files (s\<lparr>r_tab := r_tab s @ [f]\<rparr>) n = files s n"
    using assms by (cases "find_index (\<lambda>e. re_name e = n) (r_tab s)")
      (auto simp: files_def ramfs_find_def find_index_append nth_append dest: find_index_SomeD)
qed

lemma pad_ok:
  assumes f: "re_name f = []" and l: "length (r_tab s) < RAMFS_MAX_FILES"
  shows "ramfs_ok (s\<lparr>r_tab := r_tab s @ [f]\<rparr>) \<longleftrightarrow> ramfs_ok s"
proof
  assume ok: "ramfs_ok (s\<lparr>r_tab := r_tab s @ [f]\<rparr>)"
  show "ramfs_ok s"
  proof (rule ramfs_okI)
    fix i j assume h: "i < length (r_tab s)" "j < length (r_tab s)" "re_name (r_tab s ! i) \<noteq> []" "re_name (r_tab s ! i) = re_name (r_tab s ! j)"
    show "i = j" by (rule ramfs_okD(3) [OF ok]) (use h in \<open>simp_all add: nth_append\<close>)
  next
    fix j assume "j < length (r_tab s)"
    then show "length (re_name (r_tab s ! j)) < RAMFS_NAME_MAX" using ramfs_okD(2) [OF ok, of j] by (simp add: nth_append)
  qed (use l in simp)
next
  assume ok: "ramfs_ok s"
  show "ramfs_ok (s\<lparr>r_tab := r_tab s @ [f]\<rparr>)"
  proof (rule ramfs_okI)
    fix i j assume h: "i < length (r_tab (s\<lparr>r_tab := r_tab s @ [f]\<rparr>))" "j < length (r_tab (s\<lparr>r_tab := r_tab s @ [f]\<rparr>))"
      "re_name (r_tab (s\<lparr>r_tab := r_tab s @ [f]\<rparr>) ! i) \<noteq> []" "re_name (r_tab (s\<lparr>r_tab := r_tab s @ [f]\<rparr>) ! i) = re_name (r_tab (s\<lparr>r_tab := r_tab s @ [f]\<rparr>) ! j)"
    have "i < length (r_tab s)" "j < length (r_tab s)" using h f by (auto simp: nth_append split: if_splits)
    then show "i = j" using h by (intro ramfs_okD(3) [OF ok]) (simp_all add: nth_append)
  next
    fix j assume "j < length (r_tab (s\<lparr>r_tab := r_tab s @ [f]\<rparr>))"
    then show "length (re_name (r_tab (s\<lparr>r_tab := r_tab s @ [f]\<rparr>) ! j)) < RAMFS_NAME_MAX"
      using ramfs_okD(2) [OF ok, of j] f by (auto simp: nth_append RAMFS_NAME_MAX_def)
  qed (use l in simp)
qed

lemma str_copy_short: "length n < RAMFS_NAME_MAX \<Longrightarrow> str_copy n = n"
  by (simp add: str_copy_def RAMFS_NAME_MAX_def)

lemma fresh_files: "(\<exists>e \<in> set (r_tab s). re_name e = n) \<longleftrightarrow> files s n \<noteq> None" if "n \<noteq> []"
  using that files_None [of s n] by auto

lemma add_spec:
  assumes ok: "ramfs_ok s" and r: "ramfs_add_common kmalloc s name data flags = (s', r)"
  shows "ramfs_ok s' \<and> (if r = 0 then name \<noteq> [] \<and> length name < RAMFS_NAME_MAX \<and> files s name = None \<and> files s' = (files s)(name \<mapsto> (flags, data))
     else r = -1 \<and> files s' = files s)"
proof (cases "name = [] \<or> length name \<ge> RAMFS_NAME_MAX \<or> files s name \<noteq> None")
  case True
  then have "s' = s \<and> r = -1" using r fresh_files [of name s] by (auto simp: ramfs_add_common_def split: if_splits)
  with ok show ?thesis by simp
next
  case False
  then have n: "name \<noteq> []" "length name < RAMFS_NAME_MAX" "files s name = None" by (meson not_le)+
  let ?e = "\<lparr>re_name = name, re_data = data, re_flags = flags\<rparr>" and ?f = "\<lparr>re_name = [], re_data = [], re_flags = flags\<rparr>"
  define oom where "oom = (data \<noteq> [] \<and> flags AND 1 = 0 \<and> \<not> kmalloc (length data))"
  have upd: "ramfs_ok (u\<lparr>r_tab := (r_tab u)[i := ?e]\<rparr>) \<and> files (u\<lparr>r_tab := (r_tab u)[i := ?e]\<rparr>) = (files u)(name \<mapsto> (flags, data))"
    if "ramfs_ok u" "i < length (r_tab u)" "re_name (r_tab u ! i) = []" "files u name = None" for u i
    using slot_update [OF that(1,2), of ?e] that(3,4) n by (simp add: fun_eq_iff)
  show ?thesis
  proof (cases "find_index (\<lambda>e. re_name e = []) (r_tab s)")
    case (Some i)
    note i = find_index_SomeD(1,2) [OF Some]
    have "(s', r) = (if oom then (s\<lparr>r_tab := (r_tab s)[i := ?f]\<rparr>, -1) else (s\<lparr>r_tab := (r_tab s)[i := ?e]\<rparr>, 0))"
      using r Some n fresh_files [OF n(1), of s] unfolding oom_def by (auto simp: ramfs_add_common_def str_copy_short Let_def split: if_splits)
    moreover have "ramfs_ok (s\<lparr>r_tab := (r_tab s)[i := ?f]\<rparr>) \<and> files (s\<lparr>r_tab := (r_tab s)[i := ?f]\<rparr>) = files s"
      using slot_update [OF ok i(1), of ?f] i(2) by (simp add: fun_eq_iff RAMFS_NAME_MAX_def)
    ultimately show ?thesis using upd [OF ok i n(3)] n by (auto split: if_splits)
  next
    case None
    have "(s', r) = (if length (r_tab s) \<ge> RAMFS_MAX_FILES \<or> oom then (s, -1) else (s\<lparr>r_tab := r_tab s @ [?e]\<rparr>, 0))"
      using r None n fresh_files [OF n(1), of s] unfolding oom_def by (auto simp: ramfs_add_common_def str_copy_short Let_def split: if_splits)
    moreover have "ramfs_ok (s\<lparr>r_tab := r_tab s @ [?e]\<rparr>) \<and> files (s\<lparr>r_tab := r_tab s @ [?e]\<rparr>) = (files s)(name \<mapsto> (flags, data))"
      if l: "length (r_tab s) < RAMFS_MAX_FILES"
      using upd [of "s\<lparr>r_tab := r_tab s @ [?f]\<rparr>" "length (r_tab s)"] pad_ok [OF _ l, of ?f] pad_files [of ?f s] ok n(3) by (simp add: list_update_append)
    ultimately show ?thesis using ok n by (auto split: if_splits)
  qed
qed

lemma entry_files:
  assumes ok: "ramfs_ok s" and w: "writable_entry s name = Some i"
  shows "i < length (r_tab s)" "name \<noteq> []" "re_name (r_tab s ! i) = name" "\<not> immutable (r_tab s ! i)"
    "files s name = Some (re_flags (r_tab s ! i), re_data (r_tab s ! i))"
proof -
  have "ramfs_find s name = Some i" "\<not> immutable (r_tab s ! i)" using w by (auto simp: writable_entry_def split: option.splits if_splits)
  then show "i < length (r_tab s)" "name \<noteq> []" "re_name (r_tab s ! i) = name" "\<not> immutable (r_tab s ! i)"
    using find_entry [OF ok] by simp_all
  show "files s name = Some (re_flags (r_tab s ! i), re_data (r_tab s ! i))"
    using \<open>ramfs_find s name = Some i\<close> by (simp only: files_def option.map)
qed

lemma set_data_spec:
  assumes ok: "ramfs_ok s" and w: "writable_entry s name = Some i"
  shows "ramfs_ok (set_data s i d)" "files (set_data s i d) = (files s)(name \<mapsto> (re_flags (r_tab s ! i), d))"
proof -
  note E = entry_files [OF ok w]
  note S = slot_update [OF ok E(1), of "(r_tab s ! i)\<lparr>re_data := d\<rparr>", folded set_data_def]
  show "ramfs_ok (set_data s i d)" using S(1) ramfs_okD(2) [OF ok E(1)] by simp
  show "files (set_data s i d) = (files s)(name \<mapsto> (re_flags (r_tab s ! i), d))"
    using S(2) ramfs_okD(2) [OF ok E(1)] E(2,3) by (auto simp: fun_eq_iff)
qed

lemma write_spec:
  assumes ok: "ramfs_ok s" and r: "ramfs_write kmalloc s name off src = (s', r)" and l: "length src < 2 ^ 31"
  shows "ramfs_ok s' \<and> (if r < 0 then r = -1 \<and> files s' = files s else r = int (length src) \<and>
     (\<exists>fl d. files s name = Some (fl, d) \<and> fl AND 1 = 0 \<and> off \<le> length d
        \<and> files s' = (files s)(name \<mapsto> (fl, take off d @ src @ drop (off + length src) d))))"
proof (cases "writable_entry s name")
  case None
  with ok r show ?thesis by (simp add: ramfs_write_def)
next
  case (Some i)
  note E = entry_files [OF ok Some]
  have c: "c_int (length src) = int (length src)" using l unfolding c_int_def
    by (simp add: signed_of_nat signed_take_bit_int_eq_self)
  consider "s' = s" "r = -1" | "off \<le> length (re_data (r_tab s ! i))" "r = int (length src)"
      "s' = set_data s i (take off (re_data (r_tab s ! i)) @ src @ drop (off + length src) (re_data (r_tab s ! i)))"
    using r Some c by (auto simp: ramfs_write_def Let_def split: if_splits)
  then show ?thesis
  proof cases
    case 2
    with E set_data_spec [OF ok Some] show ?thesis by (auto simp: immutable_def)
  qed (use ok in simp)
qed

lemma truncate_spec:
  assumes ok: "ramfs_ok s" and r: "ramfs_truncate kmalloc s name sz = (s', r)"
  shows "ramfs_ok s' \<and> (if r < 0 then r = -1 \<and> files s' = files s else r = 0 \<and>
     (\<exists>fl d. files s name = Some (fl, d) \<and> fl AND 1 = 0 \<and> files s' = (files s)(name \<mapsto> (fl, take sz d @ replicate (sz - length d) 0))))"
proof (cases "writable_entry s name")
  case None
  with ok r show ?thesis by (simp add: ramfs_truncate_def)
next
  case (Some i)
  note E = entry_files [OF ok Some]
  let ?d = "re_data (r_tab s ! i)"
  have self: "files s = (files s)(name \<mapsto> (re_flags (r_tab s ! i), ?d))" using E(5) by (simp add: fun_upd_idem)
  consider "s' = s" "r = -1" | "s' = s" "r = 0" "sz = length ?d" | "r = 0" "s' = set_data s i (take sz ?d @ replicate (sz - length ?d) 0)"
    using r Some by (auto simp: ramfs_truncate_def Let_def split: if_splits)
  then show ?thesis
  proof cases
    case 2
    with E self ok show ?thesis by (auto simp: immutable_def)
  next
    case 3
    with E set_data_spec [OF ok Some] show ?thesis by (auto simp: immutable_def)
  qed (use ok in simp)
qed

lemma remove_spec:
  assumes ok: "ramfs_ok s" and n: "name \<noteq> []" and r: "ramfs_remove s name = (s', r)"
  shows "ramfs_ok s' \<and> (if r = 0 then (\<exists>fl d. files s name = Some (fl, d) \<and> fl AND 1 = 0) \<and> files s' = (files s)(name := None)
     else r = -1 \<and> files s' = files s)"
proof (cases "writable_entry s name")
  case None
  then have "s' = s" "r = -1" using r n by (auto simp: ramfs_remove_def writable_entry_def ramfs_find_def split: option.splits if_splits)
  with ok show ?thesis by simp
next
  case (Some i)
  note E = entry_files [OF ok Some]
  have f: "find_index (\<lambda>e. re_name e = name) (r_tab s) = Some i"
    using Some n by (auto simp: writable_entry_def ramfs_find_def split: option.splits if_splits)
  let ?u = "s\<lparr>r_tab := (r_tab s)[i := free_slot]\<rparr>"
  have u: "ramfs_ok ?u" "files ?u = (files s)(name := None)"
    using slot_update [OF ok E(1), of free_slot] E(3) by (auto simp: free_slot_def RAMFS_NAME_MAX_def fun_eq_iff)
  have e: "(s', r) = (if i + 1 = length (r_tab s) then (s\<lparr>r_tab := butlast (r_tab s)\<rparr>, 0) else (?u, 0))"
    using r f E(4) by (simp add: ramfs_remove_def split: if_splits)
  show ?thesis
  proof (cases "i + 1 = length (r_tab s)")
    case True
    let ?b = "s\<lparr>r_tab := butlast (r_tab s)\<rparr>"
    have "r_tab s \<noteq> []" using E(1) by auto
    then have "?u = ?b\<lparr>r_tab := r_tab ?b @ [free_slot]\<rparr>" using True
      by (metis Suc_eq_plus1 append_butlast_last_id diff_Suc_1 length_butlast list_update_length ramfs.select_convs(1) ramfs.surjective ramfs.update_convs(1))
    then have "ramfs_ok ?b \<and> files ?b = files ?u"
      using u(1) pad_ok [of free_slot ?b] pad_files [of free_slot ?b] ramfs_okD(1) [OF ok] E(1) by (simp add: free_slot_def)
    with e True u(2) E(4,5) show ?thesis by (auto simp: immutable_def)
  next
    case False
    with e u E(4,5) show ?thesis by (auto simp: immutable_def)
  qed
qed

subsection \<open>Renaming\<close>

lemma below_iff: "below p x \<longleftrightarrow> (\<exists>r. x = p @ CHR ''/'' # r)"
proof
  assume b: "below p x"
  then have "x = take (length p) x @ x ! length p # drop (Suc (length p)) x"
    unfolding below_def by (metis append_take_drop_id Cons_nth_drop_Suc)
  with b show "\<exists>r. x = p @ CHR ''/'' # r" unfolding below_def by metis
qed (auto simp: below_def nth_append)

text \<open>Moving a directory renames everything below it; the inverse move undoes it.\<close>

definition renamed :: "string \<Rightarrow> string \<Rightarrow> string \<Rightarrow> string" where
  "renamed old new x = (if x = old then new else if below old x then new @ drop (length old) x else x)"

definition moved :: "string \<Rightarrow> string \<Rightarrow> fs_map \<Rightarrow> fs_map" where
  "moved old new m = (\<lambda>x. if x = new \<or> below new x then m (renamed new old x) else if x = old \<or> below old x then None else m x)"

definition rename_safe :: "string \<Rightarrow> string \<Rightarrow> fs_map \<Rightarrow> bool" where
  "rename_safe old new m \<longleftrightarrow> (\<forall>x \<in> dom m. \<not> below new x \<and> (below old x \<longrightarrow> length new + length x < RAMFS_NAME_MAX + length old))"

lemma renamed_back: "x \<noteq> new \<Longrightarrow> \<not> below new x \<Longrightarrow> renamed new old (renamed old new x) = x"
  by (auto simp: renamed_def below_iff)

lemma renamed_forth: "renamed old new (renamed new old y) = y \<longleftrightarrow> y = new \<or> below new y \<or> y \<noteq> old \<and> \<not> below old y" if "old \<noteq> new"
  using that by (auto simp: renamed_def below_iff)

text \<open>A table whose names change by an invertible function.\<close>

lemma map_names:
  assumes ok: "ramfs_ok s" and len: "length (r_tab s') = length (r_tab s)"
    and t: "\<And>j. j < length (r_tab s) \<Longrightarrow> re_name (r_tab s' ! j) = g (re_name (r_tab s ! j))
        \<and> re_flags (r_tab s' ! j) = re_flags (r_tab s ! j) \<and> re_data (r_tab s' ! j) = re_data (r_tab s ! j)"
    and g: "g [] = []" "\<And>x. x \<in> dom (files s) \<Longrightarrow> g' (g x) = x \<and> g x \<noteq> [] \<and> length (g x) < RAMFS_NAME_MAX"
  shows "ramfs_ok s'" "files s' = (\<lambda>y. if g (g' y) = y then files s (g' y) else None)"
proof -
  have live: "re_name (r_tab s ! j) \<in> dom (files s)" if "j < length (r_tab s)" "re_name (r_tab s ! j) \<noteq> []" for j
    using files_Some [OF ok] that by blast
  show ok': "ramfs_ok s'"
  proof (rule ramfs_okI, unfold len)
    fix j k assume l: "j < length (r_tab s)" "k < length (r_tab s)" and e: "re_name (r_tab s' ! j) \<noteq> []" "re_name (r_tab s' ! j) = re_name (r_tab s' ! k)"
    have nz: "re_name (r_tab s ! j) \<noteq> []" "re_name (r_tab s ! k) \<noteq> []" using e t [OF l(1)] t [OF l(2)] g(1) by auto
    then have "re_name (r_tab s ! j) = re_name (r_tab s ! k)"
      using e(2) t [OF l(1)] t [OF l(2)] g(2) [OF live [OF l(1) nz(1)]] g(2) [OF live [OF l(2) nz(2)]] by metis
    then show "j = k" by (rule ramfs_okD(3) [OF ok l nz(1)])
  next
    fix j assume j: "j < length (r_tab s)"
    show "length (re_name (r_tab s' ! j)) < RAMFS_NAME_MAX"
      using t [OF j] g(1) g(2) [OF live [OF j]] by (cases "re_name (r_tab s ! j) = []") (auto simp: RAMFS_NAME_MAX_def)
  qed (use ramfs_okD(1) [OF ok] in simp)
  show "files s' = (\<lambda>y. if g (g' y) = y then files s (g' y) else None)"
  proof (rule files_eqI [OF ok'], unfold len)
    fix y v
    let ?v = "\<lambda>j. (re_flags (r_tab s ! j), re_data (r_tab s ! j))"
    have "(\<exists>j<length (r_tab s). re_name (r_tab s' ! j) = y \<and> v = (re_flags (r_tab s' ! j), re_data (r_tab s' ! j)))
      \<longleftrightarrow> (\<exists>j<length (r_tab s). g (re_name (r_tab s ! j)) = y \<and> v = ?v j)" using t by metis
    moreover have "y \<noteq> [] \<and> (\<exists>j<length (r_tab s). g (re_name (r_tab s ! j)) = y \<and> v = ?v j) \<longleftrightarrow> g (g' y) = y \<and> files s (g' y) = Some v"
    proof
      assume "y \<noteq> [] \<and> (\<exists>j<length (r_tab s). g (re_name (r_tab s ! j)) = y \<and> v = ?v j)"
      then obtain j where j: "j < length (r_tab s)" "g (re_name (r_tab s ! j)) = y" "v = ?v j" "y \<noteq> []" by blast
      then have nz: "re_name (r_tab s ! j) \<noteq> []" using g(1) by metis
      then have e: "g' y = re_name (r_tab s ! j)" using g(2) [OF live [OF j(1) nz]] j(2) by blast
      show "g (g' y) = y \<and> files s (g' y) = Some v" unfolding e files_Some [OF ok] using j nz by blast
    next
      assume r: "g (g' y) = y \<and> files s (g' y) = Some v"
      then obtain j where j: "j < length (r_tab s)" "re_name (r_tab s ! j) = g' y" "v = ?v j" using files_Some [OF ok] by blast
      moreover have "y \<noteq> []" using g(2) [OF domI, of "g' y"] r by metis
      ultimately show "y \<noteq> [] \<and> (\<exists>j<length (r_tab s). g (re_name (r_tab s ! j)) = y \<and> v = ?v j)" using r by metis
    qed
    ultimately show "((if g (g' y) = y then files s (g' y) else None) = Some v) = (y \<noteq> [] \<and>
      (\<exists>j<length (r_tab s). re_name (r_tab s' ! j) = y \<and> v = (re_flags (r_tab s' ! j), re_data (r_tab s' ! j))))" by simp
  qed
qed

lemma rename_dir_spec:
  assumes ok: "ramfs_ok s" and sf: "rename_safe old new (files s)" and i: "writable_entry s old = Some i"
    and n: "new \<noteq> []" "length new < RAMFS_NAME_MAX" "files s new = None"
  defines "s' \<equiv> s\<lparr>r_tab := (map (rename_child old new) (r_tab s))[i := (r_tab s ! i)\<lparr>re_name := new\<rparr>]\<rparr>"
  shows "ramfs_ok s' \<and> files s' = moved old new (files s)"
proof -
  note E = entry_files [OF ok i]
  have old: "re_name (r_tab s ! j) = old \<longleftrightarrow> j = i" if "j < length (r_tab s)" for j
    using ramfs_okD(3) [OF ok that E(1)] E(2,3) by auto
  have safe: "\<not> below new x" "x \<noteq> new" "length (renamed old new x) < RAMFS_NAME_MAX" "x \<noteq> []" if "x \<in> dom (files s)" for x
  proof -
    obtain v where "files s x = Some v" using \<open>x \<in> dom (files s)\<close> by blast
    then obtain j where "j < length (r_tab s)" "re_name (r_tab s ! j) = x" unfolding files_Some [OF ok] by blast
    then have "length x < RAMFS_NAME_MAX" using ramfs_okD(2) [OF ok, of j] by simp
    moreover have "\<not> below new x \<and> (below old x \<longrightarrow> length new + length x < RAMFS_NAME_MAX + length old)"
      using that sf unfolding rename_safe_def by blast
    ultimately show "\<not> below new x" "length (renamed old new x) < RAMFS_NAME_MAX" using n(2) by (auto simp: renamed_def)
    show "x \<noteq> new" "x \<noteq> []" using that n(3) by auto
  qed
  have t: "re_name (r_tab s' ! j) = renamed old new (re_name (r_tab s ! j)) \<and> re_flags (r_tab s' ! j) = re_flags (r_tab s ! j)
      \<and> re_data (r_tab s' ! j) = re_data (r_tab s ! j)" if j: "j < length (r_tab s)" for j
  proof (cases "j = i")
    case True
    with j E(3) show ?thesis by (simp add: s'_def renamed_def)
  next
    case False
    have "renamed old new (re_name (r_tab s ! j)) = str_copy (new @ drop (length old) (re_name (r_tab s ! j)))" if b: "below old (re_name (r_tab s ! j))"
    proof -
      have e: "renamed old new (re_name (r_tab s ! j)) = new @ drop (length old) (re_name (r_tab s ! j))" using b old [OF j] False by (simp add: renamed_def)
      have "re_name (r_tab s ! j) \<noteq> []" using b by (auto simp: below_def)
      then have "re_name (r_tab s ! j) \<in> dom (files s)" using files_Some [OF ok] j by blast
      from safe(3) [OF this] show ?thesis unfolding e by (rule str_copy_short [symmetric])
    qed
    with False j old [OF j] show ?thesis by (auto simp: s'_def rename_child_def renamed_def)
  qed
  have "old \<noteq> []" "old \<noteq> new" using E(2,5) n(3) by auto
  then have b: "renamed old new [] = []" by (simp add: renamed_def below_def)
  have g: "renamed new old (renamed old new x) = x \<and> renamed old new x \<noteq> [] \<and> length (renamed old new x) < RAMFS_NAME_MAX" if "x \<in> dom (files s)" for x
    using safe [OF that] n(1) renamed_back [of x new old] by (auto simp: renamed_def)
  have len: "length (r_tab s') = length (r_tab s)" by (simp add: s'_def)
  have F: "files s' = (\<lambda>y. if renamed old new (renamed new old y) = y then files s (renamed new old y) else None)"
    by (rule map_names(2) [OF ok len t b g])
  have "files s' = moved old new (files s)" unfolding F moved_def renamed_forth [OF \<open>old \<noteq> new\<close>]
    by (rule ext) (auto simp: renamed_def)
  with map_names(1) [OF ok len t b g] show ?thesis by blast
qed

lemma dir_entry_files: "ramfs_ok s \<Longrightarrow> is_dir_entry s p \<longleftrightarrow> (\<exists>fl d. files s p = Some (fl, d) \<and> fl AND 2 \<noteq> 0)"
  by (auto simp: is_dir_entry_def files_def is_directory_def split: option.splits)

lemma rename_spec:
  assumes ok: "ramfs_ok s" and r: "ramfs_rename s old new = (s', r)" and sf: "rename_safe old new (files s)"
  shows "ramfs_ok s' \<and> (if r = 0 then (\<exists>fl d. files s old = Some (fl, d) \<and> fl AND 1 = 0 \<and> files s new = None
        \<and> files s' = (if fl AND 2 \<noteq> 0 then moved old new (files s) else (files s)(old := None, new \<mapsto> (fl, d))))
     else r = -1 \<and> s' = s)"
proof (cases "r = 0")
  case True
  obtain i where i: "writable_entry s old = Some i" "new \<noteq> []" "length new < RAMFS_NAME_MAX" "ramfs_find s new = None"
    "s' = s\<lparr>r_tab := (if is_directory (r_tab s ! i) then map (rename_child (re_name (r_tab s ! i)) new) (r_tab s) else r_tab s)[i := (r_tab s ! i)\<lparr>re_name := new\<rparr>]\<rparr>"
    using r True by (auto simp: ramfs_rename_def Let_def str_copy_short split: if_splits option.splits)
  note E = entry_files [OF ok i(1)]
  have new: "files s new = None" using i(4) by (simp add: files_def)
  show ?thesis
  proof (cases "is_directory (r_tab s ! i)")
    case d: True
    with rename_dir_spec [OF ok sf i(1-3) new] True E(3,4,5) i(5) new show ?thesis by (auto simp: is_directory_def immutable_def)
  next
    case d: False
    have e: "s' = s\<lparr>r_tab := (r_tab s)[i := (r_tab s ! i)\<lparr>re_name := new\<rparr>]\<rparr>" using i(5) d by simp
    note S = slot_update [OF ok E(1), of "(r_tab s ! i)\<lparr>re_name := new\<rparr>", folded e]
    have "ramfs_ok s'" using S(1) i(3) new by simp
    moreover have "files s' = (files s)(old := None, new \<mapsto> (re_flags (r_tab s ! i), re_data (r_tab s ! i)))"
      using S(2) i(2,3) new E(3) by (auto simp: fun_eq_iff)
    ultimately show ?thesis using True d E(4,5) new by (auto simp: is_directory_def immutable_def)
  qed
next
  case False
  then have "r = -1 \<and> s' = s" using r by (auto simp: ramfs_rename_def Let_def split: if_splits option.splits)
  with ok False show ?thesis by simp
qed

subsection \<open>Refinement of a map\<close>

datatype fs_call = Add string "u8 list" | Add_static string "u8 list" | Write string nat "u8 list" | Truncate string nat
  | Remove string | Mkdir string | Rmdir string | Rename string string

fun fs_do :: "(nat \<Rightarrow> bool) \<Rightarrow> fs_call \<Rightarrow> ramfs \<Rightarrow> ramfs \<times> int" where
  "fs_do kmalloc (Add n d) s = ramfs_add kmalloc s n d"
| "fs_do kmalloc (Add_static n d) s = ramfs_add_static kmalloc s n d"
| "fs_do kmalloc (Write n off d) s = ramfs_write kmalloc s n off d"
| "fs_do kmalloc (Truncate n sz) s = ramfs_truncate kmalloc s n sz"
| "fs_do kmalloc (Remove n) s = ramfs_remove s n"
| "fs_do kmalloc (Mkdir n) s = ramfs_mkdir kmalloc s n"
| "fs_do kmalloc (Rmdir n) s = ramfs_rmdir s n"
| "fs_do kmalloc (Rename a b) s = ramfs_rename s a b"

definition new_name :: "string \<Rightarrow> fs_map \<Rightarrow> bool" where
  "new_name n m \<longleftrightarrow> n \<noteq> [] \<and> length n < RAMFS_NAME_MAX \<and> m n = None"

definition dir_in :: "fs_map \<Rightarrow> string \<Rightarrow> bool" where
  "dir_in m p \<longleftrightarrow> (\<exists>fl d. m p = Some (fl, d) \<and> fl AND 2 \<noteq> 0)"

text \<open>The effect on the map when the call may succeed.\<close>

fun fs_spec :: "fs_call \<Rightarrow> fs_map \<Rightarrow> fs_map option" where
  "fs_spec (Add n d) m = (if new_name n m then Some (m(n \<mapsto> (0, d))) else None)"
| "fs_spec (Add_static n d) m = (if new_name n m then Some (m(n \<mapsto> (1, d))) else None)"
| "fs_spec (Write n off src) m = (case m n of None \<Rightarrow> None | Some (fl, d) \<Rightarrow>
     if fl AND 1 = 0 \<and> off \<le> length d then Some (m(n \<mapsto> (fl, take off d @ src @ drop (off + length src) d))) else None)"
| "fs_spec (Truncate n sz) m = (case m n of None \<Rightarrow> None | Some (fl, d) \<Rightarrow>
     if fl AND 1 = 0 then Some (m(n \<mapsto> (fl, take sz d @ replicate (sz - length d) 0))) else None)"
| "fs_spec (Remove n) m = (case m n of None \<Rightarrow> None | Some (fl, d) \<Rightarrow> if fl AND 1 = 0 then Some (m(n := None)) else None)"
| "fs_spec (Mkdir n) m = (if new_name n m \<and> (\<forall>i < length n. n ! i = CHR ''/'' \<longrightarrow> dir_in m (take i n)) then Some (m(n \<mapsto> (2, []))) else None)"
| "fs_spec (Rmdir n) m = (case m n of None \<Rightarrow> None | Some (fl, d) \<Rightarrow>
     if fl AND 1 = 0 \<and> fl AND 2 \<noteq> 0 \<and> (\<forall>x \<in> dom m. \<not> below n x) then Some (m(n := None)) else None)"
| "fs_spec (Rename a b) m = (case m a of None \<Rightarrow> None | Some (fl, d) \<Rightarrow>
     if fl AND 1 = 0 \<and> m b = None then Some (if fl AND 2 \<noteq> 0 then moved a b m else m(a := None, b \<mapsto> (fl, d))) else None)"

fun fs_safe :: "fs_call \<Rightarrow> fs_map \<Rightarrow> bool" where
  "fs_safe (Write n off d) m \<longleftrightarrow> length d < 2 ^ 31"
| "fs_safe (Remove n) m \<longleftrightarrow> n \<noteq> []"
| "fs_safe (Rename a b) m \<longleftrightarrow> rename_safe a b m"
| "fs_safe _ m \<longleftrightarrow> True"

lemma mkdir_spec:
  assumes ok: "ramfs_ok s" and r: "ramfs_mkdir kmalloc s n = (s', r)"
  shows "ramfs_ok s' \<and> (if r < 0 then files s' = files s else fs_spec (Mkdir n) (files s) = Some (files s'))"
proof (cases "ramfs_add_common kmalloc s n [] 2 = (s', r) \<and> path_validate_parent s n")
  case True
  then have "\<forall>i < length n. n ! i = CHR ''/'' \<longrightarrow> dir_in (files s) (take i n)"
    using dir_entry_files [OF ok] unfolding path_validate_parent_def dir_in_def by auto
  with add_spec [OF ok conjunct1 [OF True]] show ?thesis by (auto simp: new_name_def split: if_splits)
next
  case False
  then have "s' = s \<and> r = -1" using r by (auto simp: ramfs_mkdir_def split: if_splits)
  with ok show ?thesis by simp
qed

lemma rmdir_spec:
  assumes ok: "ramfs_ok s" and r: "ramfs_rmdir s n = (s', r)"
  shows "ramfs_ok s' \<and> (if r < 0 then files s' = files s else fs_spec (Rmdir n) (files s) = Some (files s'))"
proof (cases "ramfs_remove s n = (s', r) \<and> (\<exists>i. ramfs_find s n = Some i \<and> is_directory (r_tab s ! i)
    \<and> \<not> (\<exists>j \<in> {0 ..< length (r_tab s)}. j \<noteq> i \<and> below n (re_name (r_tab s ! j))))")
  case True
  then obtain i where i: "ramfs_remove s n = (s', r)" "ramfs_find s n = Some i" "is_directory (r_tab s ! i)"
    "\<not> (\<exists>j \<in> {0 ..< length (r_tab s)}. j \<noteq> i \<and> below n (re_name (r_tab s ! j)))" by blast
  note e = i(2) [unfolded find_entry [OF ok]]
  have nb: "\<not> below n x" if "x \<in> dom (files s)" for x
  proof -
    obtain v where "files s x = Some v" using \<open>x \<in> dom (files s)\<close> by blast
    then obtain j where "j < length (r_tab s)" "re_name (r_tab s ! j) = x" unfolding files_Some [OF ok] by blast
    then show ?thesis using i(4) e by (cases "j = i") (auto simp: below_def)
  qed
  have fl: "files s n = Some (re_flags (r_tab s ! i), re_data (r_tab s ! i))" using i(2) by (simp only: files_def option.map)
  have "n \<noteq> []" using e by blast
  from remove_spec [OF ok this i(1)] nb fl i(3) show ?thesis by (auto simp: is_directory_def split: if_splits)
next
  case False
  then have "s' = s \<and> r = -1" using r by (auto simp: ramfs_rmdir_def split: if_splits option.splits)
  with ok show ?thesis by simp
qed

lemma fs_do_refines:
  assumes ok: "ramfs_ok s" and sf: "fs_safe c (files s)" and r: "fs_do kmalloc c s = (s', r)"
  shows "ramfs_ok s' \<and> (if r < 0 then files s' = files s else fs_spec c (files s) = Some (files s'))"
proof (cases c)
  case (Add n d)
  with r have a: "ramfs_add_common kmalloc s n d 0 = (s', r)" by (simp add: ramfs_add_def)
  from add_spec [OF ok a] Add show ?thesis by (auto simp: new_name_def split: if_splits)
next
  case (Add_static n d)
  with r have a: "ramfs_add_common kmalloc s n d 1 = (s', r)" by (simp add: ramfs_add_static_def)
  from add_spec [OF ok a] Add_static show ?thesis by (auto simp: new_name_def split: if_splits)
next
  case (Write n off d)
  with r sf have a: "ramfs_write kmalloc s n off d = (s', r)" "length d < 2 ^ 31" by simp_all
  from write_spec [OF ok a] Write show ?thesis by (auto split: if_splits)
next
  case (Truncate n sz)
  with r have a: "ramfs_truncate kmalloc s n sz = (s', r)" by simp
  from truncate_spec [OF ok a] Truncate show ?thesis by (auto split: if_splits)
next
  case (Remove n)
  with r sf have a: "n \<noteq> []" "ramfs_remove s n = (s', r)" by simp_all
  from remove_spec [OF ok a] Remove show ?thesis by (auto split: if_splits)
next
  case (Mkdir n)
  with r have a: "ramfs_mkdir kmalloc s n = (s', r)" by simp
  from mkdir_spec [OF ok a] show ?thesis unfolding Mkdir .
next
  case (Rmdir n)
  with r have a: "ramfs_rmdir s n = (s', r)" by simp
  from rmdir_spec [OF ok a] show ?thesis unfolding Rmdir .
next
  case (Rename x y)
  with r sf have a: "ramfs_rename s x y = (s', r)" "rename_safe x y (files s)" by simp_all
  from rename_spec [OF ok a] Rename show ?thesis by (auto split: if_splits)
qed

interpretation ramfs: refines ramfs_ok files "fs_do kmalloc" fs_spec fs_safe
  by unfold_locales (rule fs_do_refines)

text \<open>
  C17. Over every sequence of calls the table of the RAM file system behaves as a map from path
  names to files: each call that succeeds has exactly the effect of the map operation, on
  no other name, and each call that fails, for whatever reason, leaves the map as it was.
  The only calls outside the claim are removals of the empty name, writes of 2 GiB or more,
  and directory moves that would truncate or collide with a name below the target.
\<close>

theorem ramfs_is_map:
  assumes "ramfs_ok s" "run_safe fs_spec fs_safe cs (files s)" "run_ops (fs_do kmalloc) cs s = (s', rs)"
  shows "ramfs_ok s' \<and> run_spec fs_spec cs rs (files s) = Some (files s')"
  using assms by (rule ramfs.run_refines)

definition empty_ramfs :: ramfs where
  "empty_ramfs = \<lparr>r_tab = [], r_inited = False\<rparr>"

definition demo_calls :: "fs_call list" where
  "demo_calls = [Mkdir ''a'', Add ''a/f'' [1, 2], Rename ''a'' ''b'']"

lemma empty_ramfs_ok: "ramfs_ok empty_ramfs" "files empty_ramfs = Map.empty"
  by (auto simp: ramfs_ok_def files_def ramfs_find_def empty_ramfs_def)

lemma demo_safe: "run_safe fs_spec fs_safe demo_calls Map.empty"
  by (simp add: demo_calls_def new_name_def RAMFS_NAME_MAX_def rename_safe_def below_def)

lemma demo_results: "snd (run_ops (fs_do (\<lambda>_. True)) demo_calls empty_ramfs) = [0, 0, 0]"
  by code_simp

theorem ramfs_is_map_witness:
  "files (fst (run_ops (fs_do (\<lambda>_. True)) demo_calls empty_ramfs)) ''b/f'' = Some (0, [1, 2])"
proof -
  obtain s' where r: "run_ops (fs_do (\<lambda>_. True)) demo_calls empty_ramfs = (s', [0, 0, 0])"
    using demo_results by (metis prod.collapse)
  have "run_spec fs_spec demo_calls [0, 0, 0] Map.empty = Some (files s')"
    using ramfs_is_map [OF empty_ramfs_ok(1) _ r] demo_safe by (simp add: empty_ramfs_ok(2))
  then have "files s' = moved ''a'' ''b'' [''a'' \<mapsto> (2, []), ''a/f'' \<mapsto> (0, [1, 2])]"
    by (simp add: demo_calls_def new_name_def RAMFS_NAME_MAX_def)
  then show ?thesis by (simp add: r moved_def renamed_def below_def)
qed

end
