(* ===== verification/Ramfs_Vfs.thy ===== *)
theory Ramfs_Vfs
  imports Ramfs
begin

text \<open>
  The adapter between the RAM file system and the virtual file system (fs/ramfs_vfs.c), and the
  start-up contents (\<open>ramfs_init\<close> of fs/ramfs.c).  Inodes live in a fixed cache and are
  named by their slot; an inode is bound to an entry of the table, to the root, or dead.
  Invalidations of the page cache are recorded by slot in \<open>pc_gone\<close>.
\<close>

subsection \<open>Start-up contents\<close>

definition bytes_of :: "string \<Rightarrow> u8 list" where
  "bytes_of = map of_char"

text \<open>Appending a string to a buffer of \<open>n\<close> bytes, keeping room for the terminator.\<close>

definition buf_put :: "nat \<Rightarrow> string \<Rightarrow> string \<Rightarrow> string" where
  "buf_put n buf t = buf @ take (n - 1 - length buf) t"

definition newline :: string where
  "newline = [CHR 0x0A]"

definition version_text :: "string \<Rightarrow> string \<Rightarrow> string" where
  "version_text ts gh = foldl (buf_put 128) []
     [''VERSION='', ''0.1.0-dev'', newline @ ''BUILD_TS='', ts, newline @ ''GIT_HASH='', gh, newline]"

fun dec_text :: "nat \<Rightarrow> string" where
  "dec_text n = (if n < 10 then [char_of (48 + n)] else dec_text (n div 10) @ [char_of (48 + n mod 10)])"

definition manifest_line :: "string \<Rightarrow> ramfs_entry \<Rightarrow> string" where
  "manifest_line buf e =
    (let b = buf_put 4096 buf (if is_directory e then ''DIR'' else ''FILE'') @ '' '';
         b = buf_put 4096 b (dec_text (length (re_data e))) @ '' ''
     in buf_put 4096 b (re_name e) @ newline)"

fun manifest_text :: "ramfs_entry list \<Rightarrow> string \<Rightarrow> string" where
  "manifest_text [] buf = buf"
| "manifest_text (e # es) buf = (let b = manifest_line buf e in if length b \<ge> 4094 then b else manifest_text es b)"

definition manifest_header :: string where
  "manifest_header = ''# SecOS RAMFS Manifest'' @ newline @ ''# List of initial entries'' @ newline"

definition ramfs_init :: "(nat \<Rightarrow> bool) \<Rightarrow> string \<Rightarrow> string \<Rightarrow> ramfs \<Rightarrow> ramfs" where
  "ramfs_init kmalloc ts gh s =
    (if r_inited s then s
     else let st = (\<lambda>n t s. fst (ramfs_add_static kmalloc s n (bytes_of t)));
              s = s\<lparr>r_inited := True\<rparr>;
              s = st ''README.txt'' (''SecOS RAMFS'' @ newline @ ''This is a demonstrative in-memory filesystem.'' @ newline) s;
              s = st ''hello.txt'' (''Hello from RAMFS!'' @ newline) s;
              s = fst (ramfs_mkdir kmalloc s ''docs'');
              s = fst (ramfs_add kmalloc s ''docs/info.txt'' (bytes_of ''Documentazione RAMFS dir docs''));
              s = st ''VERSION'' (version_text ts gh) s;
              s = fst (ramfs_mkdir kmalloc s ''sys'');
              s = st ''sys/syscalls.txt'' (''0 exit'' @ newline @ ''1 write'' @ newline @ ''2 read'' @ newline @ ''3 sleep'' @ newline) s;
              s = st ''init.rc'' (''# SecOS init.rc - shell commands here run at boot (quiet by default)'' @ newline) s;
              listed = map (\<lambda>i. r_tab s ! i) (ramfs_list s RAMFS_MAX_FILES)
       in st ''sys/manifest.txt'' (manifest_text listed (buf_put 4096 [] manifest_header)) s)"

subsection \<open>The inode cache\<close>

record ramfs_inode = vfs_inode +
  rv_path :: string
  rv_entry :: "nat option"

record ramfs_vfs =
  store :: ramfs
  icache :: "ramfs_inode list"
  pc_gone :: "nat list"

definition ICACHE_MAX :: nat where "ICACHE_MAX = RAMFS_MAX_FILES + 4"
definition INODE_PATH :: nat where "INODE_PATH = 256"

definition inode_is_dead :: "ramfs_inode \<Rightarrow> bool" where
  "inode_is_dead ino \<longleftrightarrow> rv_entry ino = None \<and> rv_path ino \<noteq> ''/''"

definition cache_fix_after_remove :: "ramfs_vfs \<Rightarrow> nat \<Rightarrow> ramfs_vfs" where
  "cache_fix_after_remove s gone = s\<lparr>
     icache := map (\<lambda>i. if rv_entry i = Some gone then i\<lparr>rv_entry := None, rv_path := ''?''\<rparr> else i) (icache s),
     pc_gone := pc_gone s @ filter (\<lambda>i. rv_entry (icache s ! i) = Some gone) [0 ..< length (icache s)]\<rparr>"

definition zero_inode :: ramfs_inode where
  "zero_inode = \<lparr>i_type = VFS_NODE_FILE, i_size = 0, i_ops = None, i_mode = 0, i_uid = 0, i_gid = 0, i_atime = 0, i_mtime = 0,
     rv_path = [], rv_entry = None\<rparr>"

text \<open>The slot an entry gets: its own, a new one, or that of a dead inode; and whether it is new to the entry.\<close>

definition inode_slot :: "ramfs_inode list \<Rightarrow> nat \<Rightarrow> (ramfs_inode list \<times> nat \<times> bool) option" where
  "inode_slot c e = (case find_index (\<lambda>i. rv_entry i = Some e) c of
       Some k \<Rightarrow> Some (c, k, False)
     | None \<Rightarrow> if length c < ICACHE_MAX then Some (c @ [zero_inode], length c, True)
         else (case find_index inode_is_dead c of Some k \<Rightarrow> Some (c, k, True) | None \<Rightarrow> None))"

definition inode_from_entry :: "ramfs_vfs \<Rightarrow> nat \<Rightarrow> ramfs_vfs \<times> nat option" where
  "inode_from_entry s e = (case inode_slot (icache s) e of None \<Rightarrow> (s, None)
     | Some (c, k, fresh) \<Rightarrow>
         let en = r_tab (store s) ! e;
             ino = (if fresh then (c ! k)\<lparr>i_mode := 0, i_uid := 0, i_gid := 0, i_atime := 0, i_mtime := 0\<rparr> else c ! k);
             ino = ino\<lparr>rv_path := (if re_name en = [] then ''/'' else take (INODE_PATH - 1) (CHR ''/'' # re_name en)),
                       i_type := (if is_directory en then VFS_NODE_DIR else VFS_NODE_FILE),
                       i_size := length (re_data en), rv_entry := Some e\<rparr>
         in (s\<lparr>icache := c[k := ino]\<rparr>, Some k))"

definition clear_ops :: "ramfs_vfs \<Rightarrow> nat option \<Rightarrow> ramfs_vfs" where
  "clear_ops s k = (case k of None \<Rightarrow> s | Some k \<Rightarrow> s\<lparr>icache := (icache s)[k := (icache s ! k)\<lparr>i_ops := None\<rparr>]\<rparr>)"

definition strip_slash :: "string \<Rightarrow> string" where
  "strip_slash p = (case p of c # r \<Rightarrow> if c = CHR ''/'' then r else p | [] \<Rightarrow> p)"

definition root_inode :: ramfs_inode where
  "root_inode = zero_inode\<lparr>rv_path := ''/'', i_type := VFS_NODE_DIR\<rparr>"

definition ramfs_vfs_lookup :: "ramfs_vfs \<Rightarrow> string \<Rightarrow> ramfs_vfs \<times> nat option" where
  "ramfs_vfs_lookup s path =
    (if path = ''/'' then
       (case find_index (\<lambda>i. rv_path i = ''/'') (icache s) of
          Some k \<Rightarrow> (s, Some k)
        | None \<Rightarrow> if length (icache s) \<ge> ICACHE_MAX then (s, None)
            else (s\<lparr>icache := icache s @ [root_inode]\<rparr>, Some (length (icache s))))
     else case ramfs_find (store s) (strip_slash path) of None \<Rightarrow> (s, None)
       | Some e \<Rightarrow> let (s, k) = inode_from_entry s e in (clear_ops s k, k))"

text \<open>The inodes handed to the callback of a directory listing, in order.\<close>

fun iter_entries :: "ramfs_vfs \<Rightarrow> nat list \<Rightarrow> ramfs_vfs \<times> nat list" where
  "iter_entries s [] = (s, [])"
| "iter_entries s (e # es) =
    (let (s, k) = inode_from_entry s e; s = clear_ops s k; (s, ks) = iter_entries s es
     in (s, case k of None \<Rightarrow> ks | Some k \<Rightarrow> k # ks))"

definition ramfs_vfs_readdir :: "ramfs_vfs \<Rightarrow> string \<Rightarrow> ramfs_vfs \<times> nat list" where
  "ramfs_vfs_readdir s dir_path =
    (let p = (if dir_path = [] \<or> dir_path = ''/'' then [] else strip_slash dir_path)
     in iter_entries s (ramfs_list_path (store s) p RAMFS_MAX_FILES))"

definition ramfs_vfs_read :: "ramfs_vfs \<Rightarrow> nat \<Rightarrow> nat \<Rightarrow> nat \<Rightarrow> int \<times> u8 list" where
  "ramfs_vfs_read s k offset len =
    (let ino = icache s ! k in
     if i_type ino \<noteq> VFS_NODE_FILE then (-1, [])
     else case rv_entry ino of None \<Rightarrow> (-1, [])
       | Some e \<Rightarrow>
           let d = re_data (r_tab (store s) ! e) in
           if offset > length d then (-1, [])
           else let b = take len (drop offset d) in (c_int (length b), b))"

definition ramfs_vfs_write :: "(nat \<Rightarrow> bool) \<Rightarrow> ramfs_vfs \<Rightarrow> nat \<Rightarrow> nat \<Rightarrow> u8 list \<Rightarrow> ramfs_vfs \<times> int" where
  "ramfs_vfs_write kmalloc s k offset data =
    (let ino = icache s ! k in
     if i_type ino \<noteq> VFS_NODE_FILE then (s, -1)
     else case rv_entry ino of None \<Rightarrow> (s, -1)
       | Some e \<Rightarrow> let (t, r) = ramfs_write kmalloc (store s) (re_name (r_tab (store s) ! e)) offset data in (s\<lparr>store := t\<rparr>, r))"

definition ramfs_vfs_create :: "(nat \<Rightarrow> bool) \<Rightarrow> ramfs_vfs \<Rightarrow> string \<Rightarrow> u8 list \<Rightarrow> ramfs_vfs \<times> int" where
  "ramfs_vfs_create kmalloc s path initial =
    (let p = strip_slash path in
     if ramfs_find (store s) p \<noteq> None then (s, -1)
     else let (t, r) = ramfs_add kmalloc (store s) p initial in (s\<lparr>store := t\<rparr>, r))"

definition ramfs_vfs_mkdir :: "(nat \<Rightarrow> bool) \<Rightarrow> ramfs_vfs \<Rightarrow> string \<Rightarrow> ramfs_vfs \<times> int" where
  "ramfs_vfs_mkdir kmalloc s path = (let (t, r) = ramfs_mkdir kmalloc (store s) (strip_slash path) in (s\<lparr>store := t\<rparr>, r))"

definition ramfs_remove_fixed :: "ramfs_vfs \<Rightarrow> string \<Rightarrow> bool \<Rightarrow> ramfs_vfs \<times> int" where
  "ramfs_remove_fixed s p dir =
    (case ramfs_find (store s) p of None \<Rightarrow> (s, -1)
     | Some e \<Rightarrow>
         let (t, r) = (if dir then ramfs_rmdir (store s) p else ramfs_remove (store s) p); s = s\<lparr>store := t\<rparr>
         in (if r = 0 then cache_fix_after_remove s e else s, r))"

definition ramfs_vfs_remove :: "ramfs_vfs \<Rightarrow> string \<Rightarrow> ramfs_vfs \<times> int" where
  "ramfs_vfs_remove s path = ramfs_remove_fixed s (strip_slash path) False"

definition ramfs_vfs_rename :: "ramfs_vfs \<Rightarrow> string \<Rightarrow> string \<Rightarrow> ramfs_vfs \<times> int" where
  "ramfs_vfs_rename s oldp newp =
    (let p = strip_slash oldp; n = strip_slash newp in
     case ramfs_find (store s) p of None \<Rightarrow> (s, -1)
     | Some e \<Rightarrow>
         if immutable (r_tab (store s) ! e) then (s, -1)
         else let (s, r) = (case ramfs_find (store s) n of None \<Rightarrow> (s, 0)
                             | Some t \<Rightarrow> ramfs_remove_fixed s n (is_directory (r_tab (store s) ! t))) in
           if r \<noteq> 0 then (s, -1)
           else let (t, r) = ramfs_rename (store s) p n in (s\<lparr>store := t\<rparr>, r))"

definition ramfs_vfs_truncate :: "(nat \<Rightarrow> bool) \<Rightarrow> ramfs_vfs \<Rightarrow> string \<Rightarrow> nat \<Rightarrow> ramfs_vfs \<times> int" where
  "ramfs_vfs_truncate kmalloc s path ns = (let (t, r) = ramfs_truncate kmalloc (store s) (strip_slash path) ns in (s\<lparr>store := t\<rparr>, r))"

text \<open>Total, free and available blocks, and the number of free entries.\<close>

definition ramfs_vfs_statfs :: "ramfs_vfs \<Rightarrow> nat \<Rightarrow> nat \<times> nat \<times> nat" where
  "ramfs_vfs_statfs s free_memory =
    (let all = ramfs_list (store s) RAMFS_MAX_FILES;
         used = sum_list (map (\<lambda>i. (length (re_data (r_tab (store s) ! i)) + 4095) div 4096) all);
         freeb = free_memory div 4096
     in (used + freeb, freeb, RAMFS_MAX_FILES - length all))"

subsection \<open>Inodes keep their file\<close>

definition live_entry :: "ramfs \<Rightarrow> nat \<Rightarrow> bool" where
  "live_entry t e \<longleftrightarrow> e < length (r_tab t) \<and> re_name (r_tab t ! e) \<noteq> []"

definition bound :: "ramfs_vfs \<Rightarrow> nat \<Rightarrow> nat \<Rightarrow> bool" where
  "bound s k e \<longleftrightarrow> k < length (icache s) \<and> rv_entry (icache s ! k) = Some e"

definition dead :: "ramfs_vfs \<Rightarrow> nat \<Rightarrow> bool" where
  "dead s k \<longleftrightarrow> k < length (icache s) \<and> inode_is_dead (icache s ! k)"

definition vinv :: "ramfs_vfs \<Rightarrow> bool" where
  "vinv s \<longleftrightarrow> (\<forall>k e. bound s k e \<longrightarrow> live_entry (store s) e) \<and> (\<forall>k l e. bound s k e \<and> bound s l e \<longrightarrow> k = l)"

text \<open>
  From one state to another the inodes keep their files, apart from those of the entries in \<open>G\<close>, which
  die; as long as the cache has a fresh slot the dead stay dead.
\<close>

definition keeps_but :: "nat set \<Rightarrow> ramfs_vfs \<Rightarrow> ramfs_vfs \<Rightarrow> bool" where
  "keeps_but G s s' \<longleftrightarrow> vinv s' \<and> length (icache s) \<le> length (icache s') \<and> (\<forall>k e. bound s k e \<and> e \<notin> G \<longrightarrow> bound s' k e) \<and>
     (length (icache s') < ICACHE_MAX \<longrightarrow> (\<forall>k. (\<forall>e. e \<in> G \<and> bound s k e \<longrightarrow> dead s' k) \<and> (dead s k \<longrightarrow> dead s' k)))"

abbreviation keeps :: "ramfs_vfs \<Rightarrow> ramfs_vfs \<Rightarrow> bool" where
  "keeps \<equiv> keeps_but {}"

lemma vinvD: "vinv s \<Longrightarrow> bound s k e \<Longrightarrow> live_entry (store s) e" "vinv s \<Longrightarrow> bound s k e \<Longrightarrow> bound s l e \<Longrightarrow> k = l"
  unfolding vinv_def by blast+

lemma keeps_refl: "vinv s \<Longrightarrow> keeps s s"
  by (simp add: keeps_but_def)

lemma keeps_trans: "keeps_but G s t \<Longrightarrow> keeps_but H t u \<Longrightarrow> keeps_but (G \<union> H) s u"
  unfolding keeps_but_def by (meson Un_iff le_less_trans order.trans)

lemma keeps_trans': "keeps s t \<Longrightarrow> keeps t u \<Longrightarrow> keeps s u"
  using keeps_trans [of "{}" s t "{}" u] by simp

text \<open>The cache is the same up to the fields that binding does not look at.\<close>

lemma keeps_same:
  assumes "vinv s" "length (icache s') = length (icache s)"
    and "\<And>k. k < length (icache s) \<Longrightarrow> rv_entry (icache s' ! k) = rv_entry (icache s ! k) \<and> (inode_is_dead (icache s ! k) \<longrightarrow> inode_is_dead (icache s' ! k))"
    and live: "\<And>e. live_entry (store s) e \<Longrightarrow> live_entry (store s') e"
  shows "keeps s s'"
proof -
  have "bound s' k e \<longleftrightarrow> bound s k e" for k e using assms(2,3) by (auto simp: bound_def)
  moreover have "dead s k \<Longrightarrow> dead s' k" for k using assms(2,3) by (auto simp: dead_def)
  ultimately show ?thesis using assms(1,2) live unfolding keeps_but_def vinv_def by auto
qed

lemma keeps_store:
  assumes "vinv s" "\<And>e. live_entry (store s) e \<Longrightarrow> live_entry t e"
  shows "keeps s (s\<lparr>store := t\<rparr>)"
  by (rule keeps_same [OF assms(1)]) (use assms(2) in simp_all)

lemma live_update:
  assumes "re_name (r_tab t ! i) = [] \<or> re_name x \<noteq> []" "live_entry t e"
  shows "live_entry (t\<lparr>r_tab := (r_tab t)[i := x]\<rparr>) e"
  using assms by (cases "e = i") (auto simp: live_entry_def)

lemma live_add:
  assumes "live_entry t e"
  shows "live_entry (fst (ramfs_add_common kmalloc t n d fl)) e"
proof -
  have a: "live_entry (t\<lparr>r_tab := r_tab t @ [x]\<rparr>) e" for x using assms by (auto simp: live_entry_def nth_append)
  show ?thesis
  proof (cases "find_index (\<lambda>e. re_name e = []) (r_tab t)")
    case None
    with assms a show ?thesis by (auto simp: ramfs_add_common_def Let_def)
  next
    case (Some i)
    then have "re_name (r_tab t ! i) = []" using find_index_SomeD(2) by fastforce
    with Some assms live_update [of t i _ e] show ?thesis by (auto simp: ramfs_add_common_def Let_def)
  qed
qed

lemma live_set_data: "live_entry t e \<Longrightarrow> live_entry (set_data t i d) e"
  by (cases "e = i") (auto simp: live_entry_def set_data_def)

lemma live_write: "live_entry t e \<Longrightarrow> live_entry (fst (ramfs_write kmalloc t n off d)) e"
  by (auto simp: ramfs_write_def Let_def live_set_data split: option.splits)

lemma live_truncate: "live_entry t e \<Longrightarrow> live_entry (fst (ramfs_truncate kmalloc t n sz)) e"
  by (auto simp: ramfs_truncate_def Let_def live_set_data split: option.splits)

lemma live_mkdir: "live_entry t e \<Longrightarrow> live_entry (fst (ramfs_mkdir kmalloc t n)) e"
  by (simp add: ramfs_mkdir_def live_add)

lemma live_rename: "live_entry t e \<Longrightarrow> live_entry (fst (ramfs_rename t a b)) e"
proof -
  assume l: "live_entry t e"
  have c: "re_name (rename_child x b (r_tab t ! e)) \<noteq> []" if "b \<noteq> []" for x
    using l that by (auto simp: rename_child_def live_entry_def str_copy_def RAMFS_NAME_MAX_def)
  have "str_copy b \<noteq> []" if "b \<noteq> []" using that by (simp add: str_copy_def RAMFS_NAME_MAX_def)
  moreover have "re_name (xs[i := y] ! e) \<noteq> []" if "re_name y \<noteq> []" "re_name (xs ! e) \<noteq> []" "e < length xs" for xs i and y :: ramfs_entry
    using that by (cases "e = i") simp_all
  ultimately show ?thesis using l c unfolding ramfs_rename_def Let_def
    by (auto simp: live_entry_def split: option.splits)
qed

lemma live_remove:
  assumes r: "ramfs_remove t n = (t', r)" and f: "ramfs_find t n = Some e0" and l: "live_entry t e" "e \<noteq> e0 \<or> r \<noteq> 0"
  shows "live_entry t' e"
proof -
  have "find_index (\<lambda>e. re_name e = n) (r_tab t) = Some e0" using f by (auto simp: ramfs_find_def split: if_splits)
  with r l show ?thesis by (auto simp: ramfs_remove_def live_entry_def nth_butlast nth_list_update split: if_splits)
qed

text \<open>Binding an inode to a live entry.\<close>

lemma vinv_bind:
  assumes v: "vinv s" and l: "live_entry (store s) e" and st: "store s' = store s"
    and b: "\<And>l d. bound s' l d \<longleftrightarrow> bound s l d \<or> l = j \<and> d = e" and no: "\<And>l. \<not> bound s l e" "\<And>d. \<not> bound s j d"
  shows "vinv s'"
  unfolding vinv_def b st using v l no unfolding vinv_def by blast

lemma not_bound: "find_index (\<lambda>i. rv_entry i = Some e) (icache s) = None \<Longrightarrow> \<not> bound s l e"
  by (auto simp: find_index_None bound_def)

lemma inode_from_entry_keeps:
  assumes v: "vinv s" and l: "live_entry (store s) e" and r: "inode_from_entry s e = (s', k)"
  shows "keeps s s' \<and> store s' = store s \<and> (case k of None \<Rightarrow> s' = s | Some k \<Rightarrow> bound s' k e)"
proof (cases "inode_slot (icache s) e")
  case None
  with r v show ?thesis by (simp add: inode_from_entry_def keeps_refl)
next
  case (Some x)
  obtain c j fresh where x: "inode_slot (icache s) e = Some (c, j, fresh)" using Some by (cases x) auto
  obtain ino where s': "s' = s\<lparr>icache := c[j := ino]\<rparr>" "k = Some j" "rv_entry ino = Some e"
    using r x by (auto simp: inode_from_entry_def Let_def)
  show ?thesis
  proof (cases "find_index (\<lambda>i. rv_entry i = Some e) (icache s)")
    case own: (Some j')
    then have c: "c = icache s" "j < length c" "rv_entry (c ! j) = Some e" using x by (auto simp: inode_slot_def dest: find_index_SomeD)
    have "bound s' l d \<longleftrightarrow> bound s l d" for l d using c s' by (cases "l = j") (auto simp: bound_def)
    moreover have "dead s l \<Longrightarrow> dead s' l" for l using c s' by (cases "l = j") (auto simp: dead_def inode_is_dead_def)
    ultimately show ?thesis using v c s' unfolding keeps_but_def vinv_def by (auto simp: bound_def)
  next
    case none: None
    show ?thesis
    proof (cases "length (icache s) < ICACHE_MAX")
      case True
      then have c: "c = icache s @ [zero_inode]" "j = length (icache s)" using none x by (auto simp: inode_slot_def)
      then have b: "bound s' l d \<longleftrightarrow> bound s l d \<or> l = j \<and> d = e" for l d using s' by (auto simp: bound_def nth_append nth_list_update)
      have "vinv s'" by (rule vinv_bind [OF v l _ b not_bound [OF none]]) (use c s' in \<open>simp_all add: bound_def\<close>)
      moreover have "dead s l \<Longrightarrow> dead s' l" for l using c s' by (auto simp: dead_def nth_append)
      ultimately show ?thesis using b c s' unfolding keeps_but_def by auto
    next
      case False
      then have c: "c = icache s" "j < length c" "inode_is_dead (c ! j)" using none x by (auto simp: inode_slot_def dest: find_index_SomeD split: option.splits)
      have nj: "\<not> bound s j d" for d using c by (auto simp: bound_def inode_is_dead_def)
      have b: "bound s' l d \<longleftrightarrow> bound s l d \<or> l = j \<and> d = e" for l d using c s' nj by (cases "l = j") (auto simp: bound_def)
      have "vinv s'" by (rule vinv_bind [OF v l _ b not_bound [OF none] nj]) (use s' in simp)
      then show ?thesis using b c s' False unfolding keeps_but_def by auto
    qed
  qed
qed

lemma clear_ops_keeps: "vinv s \<Longrightarrow> keeps s (clear_ops s k) \<and> store (clear_ops s k) = store s"
proof -
  assume v: "vinv s"
  have e: "rv_entry ((icache s)[j := (icache s ! j)\<lparr>i_ops := None\<rparr>] ! l) = rv_entry (icache s ! l)
      \<and> inode_is_dead ((icache s)[j := (icache s ! j)\<lparr>i_ops := None\<rparr>] ! l) = inode_is_dead (icache s ! l)" if "l < length (icache s)" for j l
    using that by (cases "l = j") (simp_all add: inode_is_dead_def)
  have "keeps s (s\<lparr>icache := (icache s)[j := (icache s ! j)\<lparr>i_ops := None\<rparr>]\<rparr>)" for j
    by (rule keeps_same [OF v]) (use e in simp_all)
  then show ?thesis using keeps_refl [OF v] by (auto simp: clear_ops_def split: option.splits)
qed

lemma iter_entries_keeps:
  assumes "vinv s" "\<And>e. e \<in> set es \<Longrightarrow> live_entry (store s) e" "iter_entries s es = (s', ks)"
  shows "keeps s s'"
  using assms
proof (induction es arbitrary: s ks)
  case (Cons e es)
  obtain s1 k where f: "inode_from_entry s e = (s1, k)" by force
  have K: "keeps s s1" "store s1 = store s"
    using inode_from_entry_keeps [OF Cons.prems(1) _ f] Cons.prems(2) [of e] by simp_all
  have v1: "vinv s1" using K by (simp add: keeps_but_def)
  note C = clear_ops_keeps [OF v1, of k]
  obtain s2 ks2 where i: "iter_entries (clear_ops s1 k) es = (s2, ks2)" by force
  have "s2 = s'" using Cons.prems(3) f i by (simp add: Let_def split: option.splits)
  then have "keeps (clear_ops s1 k) s'"
    by (intro Cons.IH) (use C K Cons.prems(2) i in \<open>auto simp: keeps_but_def\<close>)
  from keeps_trans' [OF keeps_trans' [OF K(1)] this] C show ?case by simp
qed (simp add: keeps_refl)

lemma list_path_live: "e \<in> set (ramfs_list_path t p n) \<Longrightarrow> live_entry t e"
  by (auto simp: ramfs_list_path_def live_entry_def dest!: in_set_takeD split: if_splits)

lemma find_live: "ramfs_find t n = Some e \<Longrightarrow> live_entry t e"
  by (auto simp: ramfs_find_def live_entry_def dest: find_index_SomeD split: if_splits)

lemma lookup_keeps:
  assumes v: "vinv s" and r: "ramfs_vfs_lookup s p = (s', k)"
  shows "keeps s s'"
proof (cases "p = ''/''")
  case True
  have "keeps s (s\<lparr>icache := icache s @ [root_inode]\<rparr>)"
  proof -
    have b: "bound (s\<lparr>icache := icache s @ [root_inode]\<rparr>) l d \<longleftrightarrow> bound s l d" for l d
      by (auto simp: bound_def nth_append root_inode_def zero_inode_def less_Suc_eq)
    moreover have "dead s l \<Longrightarrow> dead (s\<lparr>icache := icache s @ [root_inode]\<rparr>) l" for l by (auto simp: dead_def nth_append)
    ultimately show ?thesis using v unfolding keeps_but_def vinv_def by auto
  qed
  with True r keeps_refl [OF v] show ?thesis by (auto simp: ramfs_vfs_lookup_def split: option.splits if_splits)
next
  case False
  show ?thesis
  proof (cases "ramfs_find (store s) (strip_slash p)")
    case None
    with False r keeps_refl [OF v] show ?thesis by (simp add: ramfs_vfs_lookup_def)
  next
    case (Some e)
    obtain s1 k1 where f: "inode_from_entry s e = (s1, k1)" by force
    have "s' = clear_ops s1 k1" using False r Some f by (auto simp: ramfs_vfs_lookup_def)
    moreover have k: "keeps s s1" using inode_from_entry_keeps [OF v find_live [OF Some] f] by blast
    moreover have "vinv s1" using k by (simp add: keeps_but_def)
    ultimately show ?thesis using clear_ops_keeps [of s1 k1] keeps_trans' [OF k] by simp
  qed
qed

lemma rename_dead:
  assumes "\<not> live_entry t e"
  shows "\<not> live_entry (fst (ramfs_rename t a b)) e"
proof (cases "e < length (r_tab t)")
  case True
  then have n: "re_name (r_tab t ! e) = []" using assms by (simp add: live_entry_def)
  have i: "i \<noteq> e" if "writable_entry t a = Some i" for i
    using that n by (auto simp: writable_entry_def ramfs_find_def dest!: find_index_SomeD split: option.splits if_splits)
  have "re_name (rename_child x y (r_tab t ! e)) = []" for x y using n by (simp add: rename_child_def below_def)
  then show ?thesis using True n i by (auto simp: ramfs_rename_def live_entry_def Let_def split: option.splits)
qed (auto simp: ramfs_rename_def live_entry_def Let_def split: option.splits)

lemma remove_dead:
  assumes "ramfs_remove t n = (t', 0)" "ramfs_find t n = Some e"
  shows "\<not> live_entry t' e"
proof -
  have "find_index (\<lambda>e. re_name e = n) (r_tab t) = Some e" "e < length (r_tab t)" using assms(2) by (auto simp: ramfs_find_def dest: find_index_SomeD split: if_splits)
  with assms(1) show ?thesis by (auto simp: ramfs_remove_def live_entry_def free_slot_def split: if_splits)
qed

text \<open>A call that takes files away, and takes their inodes with them.\<close>

definition drops :: "ramfs_vfs \<Rightarrow> ramfs_vfs \<Rightarrow> bool" where
  "drops s s' \<longleftrightarrow> (\<exists>G. keeps_but G s s' \<and> (\<forall>e. e \<in> G \<longrightarrow> \<not> live_entry (store s') e))"

lemma keeps_drops: "keeps s s' \<Longrightarrow> drops s s'"
  unfolding drops_def by blast

lemma remove_fixed_drops:
  assumes v: "vinv s" and r: "ramfs_remove_fixed s p dir = (s', r)"
  shows "drops s s'"
proof (cases "ramfs_find (store s) p")
  case None
  with r keeps_refl [OF v] show ?thesis by (simp add: ramfs_remove_fixed_def keeps_drops)
next
  case (Some e0)
  obtain t q where t: "(if dir then ramfs_rmdir (store s) p else ramfs_remove (store s) p) = (t, q)" by force
  have s': "s' = (if q = 0 then cache_fix_after_remove (s\<lparr>store := t\<rparr>) e0 else s\<lparr>store := t\<rparr>)" "r = q"
    using r Some t by (auto simp: ramfs_remove_fixed_def Let_def)
  have rm: "t = store s \<and> q \<noteq> 0 \<or> ramfs_remove (store s) p = (t, q)"
    using t Some by (auto simp: ramfs_rmdir_def split: if_splits)
  then have l: "live_entry t e" if "live_entry (store s) e" "e \<noteq> e0 \<or> q \<noteq> 0" for e
    using that live_remove [OF _ Some] by auto
  show ?thesis
  proof (cases "q = 0")
    case False
    then show ?thesis using s' keeps_store [OF v, of t] l by (simp add: keeps_drops)
  next
    case True
    then have e: "s' = cache_fix_after_remove (s\<lparr>store := t\<rparr>) e0" using s' by simp
    have b: "bound s' k e \<longleftrightarrow> bound s k e \<and> e \<noteq> e0" for k e unfolding e by (auto simp: bound_def cache_fix_after_remove_def split: if_splits)
    have d: "dead s' k \<longleftrightarrow> dead s k \<or> bound s k e0" for k unfolding e by (auto simp: dead_def bound_def inode_is_dead_def cache_fix_after_remove_def)
    have st: "store s' = t" unfolding e by (simp add: cache_fix_after_remove_def)
    have "vinv s'" unfolding vinv_def b st using v l unfolding vinv_def by blast
    moreover have "length (icache s') = length (icache s)" unfolding e by (simp add: cache_fix_after_remove_def)
    ultimately have "keeps_but {e0} s s'" unfolding keeps_but_def b d by auto
    moreover have "\<not> live_entry (store s') e0" using remove_dead [OF _ Some] rm True st by auto
    ultimately show ?thesis unfolding drops_def by blast
  qed
qed

lemma rename_drops:
  assumes v: "vinv s" and r: "ramfs_vfs_rename s a b = (s', r)"
  shows "drops s s'"
proof -
  let ?p = "strip_slash a" and ?n = "strip_slash b"
  define m where "m = (case ramfs_find (store s) ?n of None \<Rightarrow> (s, 0) | Some t \<Rightarrow> ramfs_remove_fixed s ?n (is_directory (r_tab (store s) ! t)))"
  obtain s1 q where m1: "m = (s1, q)" by force
  have k1: "drops s s1" using m1 keeps_refl [OF v] remove_fixed_drops [OF v] unfolding m_def by (auto intro: keeps_drops split: option.splits)
  then obtain G where G: "keeps_but G s s1" "\<And>e. e \<in> G \<Longrightarrow> \<not> live_entry (store s1) e" unfolding drops_def by blast
  then have "vinv s1" by (simp add: keeps_but_def)
  then have "keeps s1 (s1\<lparr>store := fst (ramfs_rename (store s1) ?p ?n)\<rparr>)" by (rule keeps_store) (rule live_rename)
  from keeps_trans [OF G(1) this] have "drops s (s1\<lparr>store := fst (ramfs_rename (store s1) ?p ?n)\<rparr>)"
    unfolding drops_def using rename_dead [OF G(2)] by (intro exI [of _ G]) simp
  moreover have "s' = s \<or> s' = s1 \<or> s' = s1\<lparr>store := fst (ramfs_rename (store s1) ?p ?n)\<rparr>"
    using r m1 unfolding ramfs_vfs_rename_def m_def [symmetric] Let_def by (auto simp: m_def [symmetric] split: option.splits if_splits prod.splits)
  ultimately show ?thesis using keeps_drops [OF keeps_refl [OF v]] k1 by blast
qed

datatype vcall = Lookup string | Readdir string | Write_at nat nat "u8 list" | Create string "u8 list" | Make_dir string
  | Unlink string | Move string string | Cut string nat

fun vdo :: "(nat \<Rightarrow> bool) \<Rightarrow> vcall \<Rightarrow> ramfs_vfs \<Rightarrow> ramfs_vfs \<times> int" where
  "vdo kmalloc (Lookup p) s = (fst (ramfs_vfs_lookup s p), 0)"
| "vdo kmalloc (Readdir p) s = (fst (ramfs_vfs_readdir s p), 0)"
| "vdo kmalloc (Write_at k off d) s = ramfs_vfs_write kmalloc s k off d"
| "vdo kmalloc (Create p d) s = ramfs_vfs_create kmalloc s p d"
| "vdo kmalloc (Make_dir p) s = ramfs_vfs_mkdir kmalloc s p"
| "vdo kmalloc (Unlink p) s = ramfs_vfs_remove s p"
| "vdo kmalloc (Move a b) s = ramfs_vfs_rename s a b"
| "vdo kmalloc (Cut p n) s = ramfs_vfs_truncate kmalloc s p n"

lemma vdo_drops:
  assumes v: "vinv s"
  shows "drops s (fst (vdo kmalloc c s))"
proof (cases c)
  case (Lookup p)
  then show ?thesis using keeps_drops [OF lookup_keeps [OF v surjective_pairing]] by simp
next
  case (Readdir p)
  have "drops s (fst (iter_entries s (ramfs_list_path (store s) q n)))" for q n
    by (rule keeps_drops, rule iter_entries_keeps [OF v _ surjective_pairing]) (rule list_path_live)
  with Readdir show ?thesis by (simp add: ramfs_vfs_readdir_def Let_def)
next
  case (Write_at k off d)
  have "drops s (s\<lparr>store := fst (ramfs_write kmalloc (store s) n off d)\<rparr>)" for n by (rule keeps_drops, rule keeps_store [OF v]) (rule live_write)
  with Write_at keeps_drops [OF keeps_refl [OF v]] show ?thesis by (auto simp: ramfs_vfs_write_def Let_def split_beta split: option.splits)
next
  case (Create p d)
  have "drops s (s\<lparr>store := fst (ramfs_add kmalloc (store s) n d)\<rparr>)" for n
    by (rule keeps_drops, rule keeps_store [OF v]) (simp add: ramfs_add_def live_add)
  with Create keeps_drops [OF keeps_refl [OF v]] show ?thesis by (simp add: ramfs_vfs_create_def Let_def split_beta)
next
  case (Make_dir p)
  have "drops s (s\<lparr>store := fst (ramfs_mkdir kmalloc (store s) n)\<rparr>)" for n by (rule keeps_drops, rule keeps_store [OF v]) (rule live_mkdir)
  with Make_dir show ?thesis by (simp add: ramfs_vfs_mkdir_def split_beta)
next
  case (Unlink p)
  then show ?thesis using remove_fixed_drops [OF v surjective_pairing] by (simp add: ramfs_vfs_remove_def)
next
  case (Move a b)
  then show ?thesis using rename_drops [OF v surjective_pairing] by simp
next
  case (Cut p n)
  have "drops s (s\<lparr>store := fst (ramfs_truncate kmalloc (store s) q n)\<rparr>)" for q by (rule keeps_drops, rule keeps_store [OF v]) (rule live_truncate)
  with Cut show ?thesis by (simp add: ramfs_vfs_truncate_def split_beta)
qed

text \<open>The entry holds a file before and after every call.\<close>

fun alive_during :: "(nat \<Rightarrow> bool) \<Rightarrow> vcall list \<Rightarrow> ramfs_vfs \<Rightarrow> nat \<Rightarrow> bool" where
  "alive_during kmalloc [] s e \<longleftrightarrow> live_entry (store s) e"
| "alive_during kmalloc (c # cs) s e \<longleftrightarrow> live_entry (store s) e \<and> alive_during kmalloc cs (fst (vdo kmalloc c s)) e"

lemma vdo_inode:
  fixes kmalloc c s
  assumes v: "vinv s"
  defines "s' \<equiv> fst (vdo kmalloc c s)"
  shows "vinv s'" "length (icache s) \<le> length (icache s')" "length (icache s') < ICACHE_MAX \<Longrightarrow> dead s k \<Longrightarrow> dead s' k"
    "length (icache s') < ICACHE_MAX \<Longrightarrow> bound s k e \<Longrightarrow> if live_entry (store s') e then bound s' k e else dead s' k"
proof -
  obtain G where G: "keeps_but G s s'" "\<And>e. e \<in> G \<Longrightarrow> \<not> live_entry (store s') e"
    using vdo_drops [OF v, of kmalloc c] unfolding drops_def s'_def by blast
  then show v': "vinv s'" and "length (icache s) \<le> length (icache s')" "length (icache s') < ICACHE_MAX \<Longrightarrow> dead s k \<Longrightarrow> dead s' k"
    unfolding keeps_but_def by blast+
  assume "length (icache s') < ICACHE_MAX" "bound s k e"
  with G vinvD(1) [OF v', of k e] show "if live_entry (store s') e then bound s' k e else dead s' k"
    unfolding keeps_but_def by (cases "e \<in> G") (simp_all, blast)
qed

lemma run_length: "vinv s \<Longrightarrow> length (icache s) \<le> length (icache (fst (run_ops (vdo kmalloc) cs s)))"
proof (induction cs arbitrary: s)
  case (Cons c cs)
  note V = vdo_inode [OF Cons.prems, of kmalloc c]
  show ?case using V(2) Cons.IH [OF V(1)] by (simp add: split_beta Let_def)
qed simp

lemma run_dead:
  "vinv s \<Longrightarrow> dead s k \<Longrightarrow> length (icache (fst (run_ops (vdo kmalloc) cs s))) < ICACHE_MAX \<Longrightarrow> dead (fst (run_ops (vdo kmalloc) cs s)) k"
proof (induction cs arbitrary: s)
  case (Cons c cs)
  note V = vdo_inode [OF Cons.prems(1), of kmalloc c]
  have e: "fst (run_ops (vdo kmalloc) (c # cs) s) = fst (run_ops (vdo kmalloc) cs (fst (vdo kmalloc c s)))" by (simp add: split_beta Let_def)
  have n: "length (icache (fst (vdo kmalloc c s))) < ICACHE_MAX" using run_length [OF V(1), of kmalloc cs] Cons.prems(3) unfolding e by linarith
  show ?case unfolding e by (rule Cons.IH [OF V(1) V(3) [OF n Cons.prems(2)]]) (use Cons.prems(3) e in simp)
qed simp

lemma run_inode:
  "vinv s \<Longrightarrow> bound s k e \<Longrightarrow> length (icache (fst (run_ops (vdo kmalloc) cs s))) < ICACHE_MAX \<Longrightarrow>
    if alive_during kmalloc cs s e then bound (fst (run_ops (vdo kmalloc) cs s)) k e else dead (fst (run_ops (vdo kmalloc) cs s)) k"
proof (induction cs arbitrary: s)
  case Nil
  then show ?case using vinvD(1) by simp
next
  case (Cons c cs)
  let ?s = "fst (vdo kmalloc c s)"
  note V = vdo_inode [OF Cons.prems(1), of kmalloc c]
  have e: "fst (run_ops (vdo kmalloc) (c # cs) s) = fst (run_ops (vdo kmalloc) cs ?s)" by (simp add: split_beta Let_def)
  note len = Cons.prems(3) [unfolded e]
  have n: "length (icache ?s) < ICACHE_MAX" using run_length [OF V(1), of kmalloc cs] len by linarith
  have l: "live_entry (store s) e" by (rule vinvD(1) [OF Cons.prems(1,2)])
  show ?case
  proof (cases "live_entry (store ?s) e")
    case True
    with V(4) [OF n Cons.prems(2)] Cons.IH [OF V(1) _ len] l show ?thesis unfolding e by simp
  next
    case False
    then have "\<not> alive_during kmalloc cs ?s e" by (cases cs) simp_all
    with False V(4) [OF n Cons.prems(2)] run_dead [OF V(1) _ len] show ?thesis unfolding e by simp
  qed
qed

text \<open>
  C25. An open file never turns into another one, although a removal frees its entry for the
  next creation.  Whatever sequence of lookups, listings, writes, creations, removals and renames
  runs, an inode bound to a file is afterwards bound to its entry if the file existed all the
  time, and otherwise dead, so that reads and writes through it fail even when another file has
  taken the entry, as long as the cache still has a fresh slot.
\<close>

theorem inode_never_switches:
  assumes "vinv s" "bound s k e" "run_ops (vdo kmalloc) cs s = (s', rs)" "length (icache s') < ICACHE_MAX"
  shows "if alive_during kmalloc cs s e then bound s' k e
    else ramfs_vfs_read s' k off len = (-1, []) \<and> ramfs_vfs_write kmalloc s' k off data = (s', -1)"
proof -
  have "ramfs_vfs_read s' k off len = (-1, []) \<and> ramfs_vfs_write kmalloc s' k off data = (s', -1)" if "dead s' k"
    using that by (simp add: dead_def inode_is_dead_def ramfs_vfs_read_def ramfs_vfs_write_def Let_def)
  with run_inode [OF assms(1,2), of kmalloc cs] assms(3,4) show ?thesis by (auto split: if_splits)
qed

definition open_x :: ramfs_vfs where
  "open_x = fst (run_ops (vdo (\<lambda>_. True)) [Create ''/x'' [1], Lookup ''/x''] \<lparr>store = empty_ramfs, icache = [], pc_gone = []\<rparr>)"

lemma open_x_eq: "icache open_x = [zero_inode\<lparr>rv_path := ''/x'', i_size := 1, rv_entry := Some 0\<rparr>]" "r_tab (store open_x) = [\<lparr>re_name = ''x'', re_data = [1], re_flags = 0\<rparr>]"
  by code_simp+

lemma reuse_x: "map rv_entry (icache (fst (run_ops (vdo (\<lambda>_. True)) [Unlink ''/x'', Create ''/y'' [9], Lookup ''/y''] open_x))) = [None, Some 0]"
  by code_simp

lemma gone_x: "\<not> alive_during (\<lambda>_. True) [Unlink ''/x'', Create ''/y'' [9], Lookup ''/y''] open_x 0"
  by code_simp

theorem inode_never_switches_witness:
  "ramfs_vfs_read (fst (run_ops (vdo (\<lambda>_. True)) [Unlink ''/x'', Create ''/y'' [9], Lookup ''/y''] open_x)) 0 0 1 = (-1, [])"
proof -
  obtain s' rs where r: "run_ops (vdo (\<lambda>_. True)) [Unlink ''/x'', Create ''/y'' [9], Lookup ''/y''] open_x = (s', rs)" by force
  have v: "vinv open_x" by (simp add: vinv_def bound_def open_x_eq live_entry_def)
  have b: "bound open_x 0 0" by (simp add: bound_def open_x_eq)
  have "map rv_entry (icache s') = [None, Some 0]" using reuse_x r by simp
  then have l: "length (icache s') = 2" by (metis length_map length_Cons list.size(3) numeral_2_eq_2)
  have n: "length (icache s') < ICACHE_MAX" unfolding l by (simp add: ICACHE_MAX_def RAMFS_MAX_FILES_def)
  from inode_never_switches [OF v b r n, of 0 1 "[]"] show ?thesis unfolding r fst_conv if_not_P [OF gone_x] by (rule conjunct1)
qed

end
