(* ===== verification/Block_Hash.thy ===== *)
theory Block_Hash
  imports Arrays
begin

text \<open>
  Hashing by blocks, shared by the three hash functions of crypto/.  A context holds a chaining
  state and the bytes of the block that is not yet full.  Absorbing data in pieces of any
  size leaves the context that absorbing their concatenation at once leaves.
\<close>

subsection \<open>Absorbing data\<close>

text \<open>The loop of \<open>sha256_update\<close> and \<open>sha512_update\<close>: fill the block, compress it when it is full.  The
  buffer is always shorter than a block, which the second test makes explicit.\<close>

function absorb :: "nat \<Rightarrow> ('st \<Rightarrow> u8 list \<Rightarrow> 'st) \<Rightarrow> 'st \<Rightarrow> u8 list \<Rightarrow> u8 list \<Rightarrow> 'st \<times> u8 list" where
  "absorb bs f st buf data =
    (if data = [] \<or> bs \<le> length buf then (st, buf)
     else let t = min (bs - length buf) (length data); buf' = buf @ take t data in
       if length buf' = bs then absorb bs f (f st buf') [] (drop t data) else absorb bs f st buf' (drop t data))"
  by pat_completeness auto
termination
  by (relation "measure (\<lambda>(bs, f, st, buf, data). length data)") (auto simp: min_def)

declare absorb.simps [simp del]

text \<open>The loop of \<open>sha1_update\<close>: one byte at a time.\<close>

fun absorb_bytes :: "nat \<Rightarrow> ('st \<Rightarrow> u8 list \<Rightarrow> 'st) \<Rightarrow> 'st \<Rightarrow> u8 list \<Rightarrow> u8 list \<Rightarrow> 'st \<times> u8 list" where
  "absorb_bytes bs f st buf [] = (st, buf)"
| "absorb_bytes bs f st buf (b # data) =
    (let buf' = buf @ [b] in
     if length buf' = bs then absorb_bytes bs f (f st buf') [] data else absorb_bytes bs f st buf' data)"

subsection \<open>The message a context stands for\<close>

definition blocks :: "nat \<Rightarrow> 'a list \<Rightarrow> 'a list list" where
  "blocks bs m = map (\<lambda>i. take bs (drop (i * bs) m)) [0 ..< length m div bs]"

definition rest :: "nat \<Rightarrow> 'a list \<Rightarrow> 'a list" where
  "rest bs m = drop (bs * (length m div bs)) m"

definition holds :: "nat \<Rightarrow> ('st \<Rightarrow> 'a list \<Rightarrow> 'st) \<Rightarrow> 'st \<Rightarrow> 'a list \<Rightarrow> 'st \<times> 'a list \<Rightarrow> bool" where
  "holds bs f iv m c \<longleftrightarrow> c = (foldl f iv (blocks bs m), rest bs m)"

lemma length_rest: "length (rest bs m) = length m mod bs"
  by (simp add: rest_def minus_mult_div_eq_mod)

lemma blocks_prefix:
  assumes "length (m @ t) div bs = length m div bs"
  shows "blocks bs (m @ t) = blocks bs m"
proof -
  have "take bs (drop (i * bs) (m @ t)) = take bs (drop (i * bs) m)" if "i < length m div bs" for i
  proof -
    have "Suc i * bs \<le> length m" using that by (metis Suc_leI div_times_less_eq_dividend le_trans mult_le_mono1)
    then show ?thesis by (simp add: take_append)
  qed
  with assms show ?thesis by (simp add: blocks_def)
qed

lemma rest_append:
  assumes "length (m @ t) div bs = length m div bs"
  shows "rest bs (m @ t) = rest bs m @ t"
proof -
  have "bs * (length m div bs) \<le> length m" by (rule times_div_less_eq_dividend)
  with assms show ?thesis by (simp add: rest_def)
qed

lemma blocks_full:
  assumes bs: "0 < bs" and l: "length (rest bs m @ t) = bs"
  shows "blocks bs (m @ t) = blocks bs m @ [rest bs m @ t]" "rest bs (m @ t) = []"
proof -
  let ?q = "length m div bs"
  have len: "length (m @ t) = Suc ?q * bs"
    using l length_rest [of bs m] div_mult_mod_eq [of "length m" bs] unfolding length_append mult_Suc by linarith
  then have d: "length (m @ t) div bs = Suc ?q" using bs by (metis nonzero_mult_div_cancel_right not_gr_zero)
  have p: "take bs (drop (i * bs) (m @ t)) = take bs (drop (i * bs) m)" if "i < ?q" for i
  proof -
    have "Suc i * bs \<le> length m" using that by (metis Suc_leI div_times_less_eq_dividend le_trans mult_le_mono1)
    then show ?thesis by (simp add: take_append)
  qed
  have qm: "?q * bs \<le> length m" by (rule div_times_less_eq_dividend)
  have "take bs (drop (?q * bs) (m @ t)) = rest bs m @ t" using qm l by (simp add: rest_def mult.commute)
  with p show "blocks bs (m @ t) = blocks bs m @ [rest bs m @ t]" unfolding blocks_def d by simp
  show "rest bs (m @ t) = []" using len d by (simp add: rest_def mult.commute)
qed

text \<open>Adding at most what fills the block.\<close>

lemma holds_step:
  assumes bs: "0 < bs" and h: "holds bs f iv m (st, buf)" and t: "length buf + length t \<le> bs"
  shows "holds bs f iv (m @ t) (if length (buf @ t) = bs then (f st (buf @ t), []) else (st, buf @ t))"
proof (cases "length (buf @ t) = bs")
  case True
  with h blocks_full [OF bs, of m t] show ?thesis by (simp add: holds_def)
next
  case False
  have r: "buf = rest bs m" using h by (simp add: holds_def)
  then have lt: "length m mod bs + length t < bs" using False t length_rest [of bs m] by simp
  have e: "length (m @ t) = (length m mod bs + length t) + bs * (length m div bs)"
    using mult_div_mod_eq [of bs "length m"] unfolding length_append by linarith
  have "length (m @ t) div bs = length m div bs + (length m mod bs + length t) div bs"
    unfolding e by (rule div_mult_self2) (use bs in simp)
  then have "length (m @ t) div bs = length m div bs" unfolding div_less [OF lt] by simp
  then show ?thesis using False h blocks_prefix [of m t bs] rest_append [of m t bs] by (auto simp: holds_def)
qed

lemma holds_lt: "0 < bs \<Longrightarrow> holds bs f iv m (st, buf) \<Longrightarrow> length buf < bs"
  by (simp add: holds_def length_rest)

lemma holds_absorb:
  assumes "0 < bs" "holds bs f iv m (st, buf)"
  shows "holds bs f iv (m @ data) (absorb bs f st buf data)"
  using assms
proof (induction bs f st buf data arbitrary: m rule: absorb.induct)
  case (1 bs f st buf data)
  show ?case
  proof (cases "data = []")
    case True
    with "1.prems" show ?thesis by (simp add: absorb.simps)
  next
    case False
    let ?t = "min (bs - length buf) (length data)"
    have lt: "length buf < bs" by (rule holds_lt [OF "1.prems"])
    have h: "holds bs f iv (m @ take ?t data) (if length (buf @ take ?t data) = bs then (f st (buf @ take ?t data), []) else (st, buf @ take ?t data))"
      by (rule holds_step [OF "1.prems"]) (use lt in auto)
    have c: "\<not> (data = [] \<or> bs \<le> length buf)" using False lt by simp
    show ?thesis
    proof (cases "length (buf @ take ?t data) = bs")
      case True
      have e: "absorb bs f st buf data = absorb bs f (f st (buf @ take ?t data)) [] (drop ?t data)"
        by (subst absorb.simps) (simp only: Let_def if_not_P [OF c] if_P [OF True])
      have "holds bs f iv (m @ take ?t data) (f st (buf @ take ?t data), [])" using h unfolding if_P [OF True] .
      from "1.IH"(1) [OF c refl refl True "1.prems"(1) this] show ?thesis unfolding e by (simp only: append_assoc append_take_drop_id)
    next
      case nf: False
      have e: "absorb bs f st buf data = absorb bs f st (buf @ take ?t data) (drop ?t data)"
        by (subst absorb.simps) (simp only: Let_def if_not_P [OF c] if_not_P [OF nf])
      have "holds bs f iv (m @ take ?t data) (st, buf @ take ?t data)" using h unfolding if_not_P [OF nf] .
      from "1.IH"(2) [OF c refl refl nf "1.prems"(1) this] show ?thesis unfolding e by (simp only: append_assoc append_take_drop_id)
    qed
  qed
qed

lemma holds_bytes:
  assumes "0 < bs" "holds bs f iv m (st, buf)"
  shows "holds bs f iv (m @ data) (absorb_bytes bs f st buf data)"
  using assms(2)
proof (induction data arbitrary: m st buf)
  case (Cons b data)
  have lt: "length buf < bs" by (rule holds_lt [OF assms(1) Cons.prems])
  have h: "holds bs f iv (m @ [b]) (if length (buf @ [b]) = bs then (f st (buf @ [b]), []) else (st, buf @ [b]))"
    by (rule holds_step [OF assms(1) Cons.prems]) (use lt in simp)
  show ?case
  proof (cases "length (buf @ [b]) = bs")
    case True
    with h Cons.IH [of "m @ [b]" "f st (buf @ [b])" "[]"] show ?thesis by simp
  next
    case False
    with h Cons.IH [of "m @ [b]" st "buf @ [b]"] show ?thesis by simp
  qed
qed simp

subsection \<open>Padding\<close>

text \<open>The loop that pads until the buffer has a given length, with fuel.\<close>

fun pad_to :: "nat \<Rightarrow> nat \<Rightarrow> ('c \<Rightarrow> nat) \<Rightarrow> ('c \<Rightarrow> 'c) \<Rightarrow> 'c \<Rightarrow> 'c" where
  "pad_to 0 tgt buflen step c = c"
| "pad_to (Suc n) tgt buflen step c = (if buflen c = tgt then c else pad_to n tgt buflen step (step c))"

definition zeros_for :: "nat \<Rightarrow> nat \<Rightarrow> nat \<Rightarrow> nat" where
  "zeros_for bs tgt n = (if n mod bs \<le> tgt then tgt - n mod bs else tgt + bs - n mod bs)"

definition padded :: "nat \<Rightarrow> nat \<Rightarrow> u8 list \<Rightarrow> u8 list \<Rightarrow> u8 list" where
  "padded bs tgt m lenb = m @ [0x80] @ replicate (zeros_for bs tgt (Suc (length m))) 0 @ lenb"

lemma zeros_for_Suc:
  assumes "tgt < bs" "n mod bs \<noteq> tgt"
  shows "zeros_for bs tgt n = Suc (zeros_for bs tgt (Suc n))"
proof -
  have "n mod bs < bs" using assms by simp
  with assms show ?thesis by (cases "Suc (n mod bs) = bs"; cases "Suc (n mod bs) \<le> tgt") (simp_all add: zeros_for_def mod_Suc)
qed

lemma zeros_for_lt: "tgt < bs \<Longrightarrow> zeros_for bs tgt n < bs"
  by (auto simp: zeros_for_def)

subsection \<open>The contract of a streaming hash\<close>

locale stream_hash =
  fixes bs tgt :: nat and compress :: "'st \<Rightarrow> u8 list \<Rightarrow> 'st" and iv :: 'st
    and new :: 'c and update :: "'c \<Rightarrow> u8 list \<Rightarrow> 'c" and st :: "'c \<Rightarrow> 'st" and buf :: "'c \<Rightarrow> u8 list"
  assumes tgt: "tgt < bs" and start: "st new = iv" "buf new = []"
    and update_holds: "holds bs compress iv m (st c, buf c) \<Longrightarrow> holds bs compress iv (m @ d) (st (update c d), buf (update c d))"
begin

lemma stream_holds: "holds bs compress iv (concat ds) (st (foldl update new ds), buf (foldl update new ds))"
proof (induction ds rule: rev_induct)
  case Nil
  show ?case by (simp add: holds_def start blocks_def rest_def)
next
  case (snoc d ds)
  then show ?case using update_holds [of "concat ds" "foldl update new ds" d] by simp
qed

lemma pad_holds:
  assumes "holds bs compress iv m (st c, buf c)" "zeros_for bs tgt (length m) \<le> n"
  defines "c' \<equiv> pad_to n tgt (\<lambda>c. length (buf c)) (\<lambda>c. update c [0]) c"
  shows "holds bs compress iv (m @ replicate (zeros_for bs tgt (length m)) 0) (st c', buf c') \<and> length (buf c') = tgt"
  using assms(1,2) unfolding c'_def
proof (induction n arbitrary: m c)
  case 0
  then have "length m mod bs = tgt" using zeros_for_Suc [OF tgt, of "length m"] by auto
  with 0 show ?case by (simp add: zeros_for_def holds_def length_rest)
next
  case (Suc n)
  have l: "length (buf c) = length m mod bs" using Suc.prems(1) by (simp add: holds_def length_rest)
  show ?case
  proof (cases "length m mod bs = tgt")
    case True
    with Suc.prems l show ?thesis by (simp add: zeros_for_def)
  next
    case False
    note z = zeros_for_Suc [OF tgt False]
    have "holds bs compress iv (m @ [0]) (st (update c [0]), buf (update c [0]))" by (rule update_holds [OF Suc.prems(1)])
    from Suc.IH [OF this] z Suc.prems(2) l False show ?thesis by (simp add: replicate_append_same [symmetric])
  qed
qed

text \<open>Padding and compressing the last block hashes the padded message.\<close>

lemma final_holds:
  assumes h: "holds bs compress iv m (st c, buf c)" and l: "length lenb = bs - tgt"
  defines "c' \<equiv> pad_to bs tgt (\<lambda>c. length (buf c)) (\<lambda>c. update c [0]) (update c [0x80])"
  shows "compress (st c') (buf c' @ lenb) = foldl compress iv (blocks bs (padded bs tgt m lenb))" "length (buf c') = tgt"
proof -
  let ?z = "zeros_for bs tgt (length (m @ [0x80]))" and ?m = "(m @ [0x80]) @ replicate (zeros_for bs tgt (length (m @ [0x80]))) 0"
  have h1: "holds bs compress iv (m @ [0x80]) (st (update c [0x80]), buf (update c [0x80]))" by (rule update_holds [OF h])
  note P = pad_holds [OF h1 less_imp_le [OF zeros_for_lt [OF tgt]], folded c'_def]
  show t: "length (buf c') = tgt" using P by blast
  have "0 < bs" using tgt by simp
  from holds_step [OF this conjunct1 [OF P], of lenb] l tgt t
  have "holds bs compress iv (?m @ lenb) (compress (st c') (buf c' @ lenb), [])" by simp
  then show "compress (st c') (buf c' @ lenb) = foldl compress iv (blocks bs (padded bs tgt m lenb))"
    by (simp add: holds_def padded_def)
qed

end

end
