(* ===== verification/Sha.thy ===== *)
theory Sha
  imports Block_Hash
begin

text \<open>
  SHA-256, SHA-512 and SHA-1 (crypto/sha256.c, sha512.c, sha1.c).  The buffer of a context is the
  list of its valid bytes, so its length is \<open>buflen\<close>: the stale bytes behind them are
  never read.  The specification of a digest compresses the padded message block by block.
\<close>

definition be32 :: "u32 \<Rightarrow> u8 list" where
  "be32 x = [ucast (drop_bit 24 x), ucast (drop_bit 16 x), ucast (drop_bit 8 x), ucast x]"

definition be64 :: "u64 \<Rightarrow> u8 list" where
  "be64 x = map (\<lambda>i. ucast (drop_bit (56 - i * 8) x)) [0 ..< 8]"

definition word32 :: "u8 list \<Rightarrow> nat \<Rightarrow> u32" where
  "word32 p i = push_bit 24 (ucast (p ! (i * 4))) OR push_bit 16 (ucast (p ! (i * 4 + 1)))
     OR push_bit 8 (ucast (p ! (i * 4 + 2))) OR ucast (p ! (i * 4 + 3))"

definition word64 :: "u8 list \<Rightarrow> nat \<Rightarrow> u64" where
  "word64 p i = foldl (\<lambda>w j. push_bit 8 w OR ucast (p ! (i * 8 + j))) 0 [0 ..< 8]"

lemma length_be64 [simp]: "length (be64 x) = 8"
  by (simp add: be64_def)

subsection \<open>SHA-256\<close>

definition SHA256_BLOCK_SIZE :: nat where "SHA256_BLOCK_SIZE = 64"

definition ror :: "u32 \<Rightarrow> nat \<Rightarrow> u32" where
  "ror x n = drop_bit n x OR push_bit (32 - n) x"

text \<open>The round constants, written in decimal.\<close>

definition K256 :: "u32 list" where
  "K256 = [
    1116352408, 1899447441, 3049323471, 3921009573, 961987163, 1508970993, 2453635748, 2870763221,
    3624381080, 310598401, 607225278, 1426881987, 1925078388, 2162078206, 2614888103, 3248222580,
    3835390401, 4022224774, 264347078, 604807628, 770255983, 1249150122, 1555081692, 1996064986,
    2554220882, 2821834349, 2952996808, 3210313671, 3336571891, 3584528711, 113926993, 338241895,
    666307205, 773529912, 1294757372, 1396182291, 1695183700, 1986661051, 2177026350, 2456956037,
    2730485921, 2820302411, 3259730800, 3345764771, 3516065817, 3600352804, 4094571909, 275423344,
    430227734, 506948616, 659060556, 883997877, 958139571, 1322822218, 1537002063, 1747873779,
    1955562222, 2024104815, 2227730452, 2361852424, 2428436474, 2756734187, 3204031479, 3329325298]"

definition sched256 :: "u8 list \<Rightarrow> u32 list" where
  "sched256 p = foldl (\<lambda>w i.
     let s0 = ror (w ! (i - 15)) 7 XOR ror (w ! (i - 15)) 18 XOR drop_bit 3 (w ! (i - 15));
         s1 = ror (w ! (i - 2)) 17 XOR ror (w ! (i - 2)) 19 XOR drop_bit 10 (w ! (i - 2))
     in w @ [w ! (i - 16) + s0 + w ! (i - 7) + s1]) (map (word32 p) [0 ..< 16]) [16 ..< 64]"

fun round256 :: "u32 list \<Rightarrow> u32 list \<Rightarrow> nat \<Rightarrow> u32 list" where
  "round256 w [a, b, c, d, e, f, g, h] i =
    (let S1 = ror e 6 XOR ror e 11 XOR ror e 25; ch = (e AND f) XOR (NOT e AND g); t1 = h + S1 + ch + K256 ! i + w ! i;
         S0 = ror a 2 XOR ror a 13 XOR ror a 22; maj = (a AND b) XOR (a AND c) XOR (b AND c); t2 = S0 + maj
     in [t1 + t2, a, b, c, d + t1, e, f, g])"
| "round256 w s i = s"

definition sha256_block :: "u32 list \<Rightarrow> u8 list \<Rightarrow> u32 list" where
  "sha256_block state p = map2 (+) state (foldl (round256 (sched256 p)) state [0 ..< 64])"

record sha256_ctx =
  state256 :: "u32 list"
  bitlen256 :: u64
  buf256 :: "u8 list"

definition IV256 :: "u32 list" where
  "IV256 = [0x6a09e667, 0xbb67ae85, 0x3c6ef372, 0xa54ff53a, 0x510e527f, 0x9b05688c, 0x1f83d9ab, 0x5be0cd19]"

definition sha256_init :: sha256_ctx where
  "sha256_init = \<lparr>state256 = IV256, bitlen256 = 0, buf256 = []\<rparr>"

definition sha256_update :: "sha256_ctx \<Rightarrow> u8 list \<Rightarrow> sha256_ctx" where
  "sha256_update c data =
    (let (st, buf) = absorb SHA256_BLOCK_SIZE sha256_block (state256 c) (buf256 c) data
     in c\<lparr>bitlen256 := bitlen256 c + of_nat (length data) * 8, state256 := st, buf256 := buf\<rparr>)"

definition sha256_final :: "sha256_ctx \<Rightarrow> u8 list" where
  "sha256_final c =
    (let bl = bitlen256 c; c = sha256_update c [0x80];
         c = pad_to SHA256_BLOCK_SIZE 56 (\<lambda>c. length (buf256 c)) (\<lambda>c. sha256_update c [0]) c
     in concat (map be32 (sha256_block (state256 c) (buf256 c @ be64 bl))))"

definition sha256 :: "u8 list \<Rightarrow> u8 list" where
  "sha256 data = sha256_final (sha256_update sha256_init data)"

definition sha256_spec :: "u8 list \<Rightarrow> u8 list" where
  "sha256_spec m = concat (map be32 (foldl sha256_block IV256 (blocks 64 (padded 64 56 m (be64 (of_nat (8 * length m)))))))"

interpretation h256: stream_hash 64 56 sha256_block IV256 sha256_init sha256_update state256 buf256
proof
  fix m d :: "u8 list" and c :: sha256_ctx
  assume "holds 64 sha256_block IV256 m (state256 c, buf256 c)"
  then have "holds 64 sha256_block IV256 (m @ d) (absorb 64 sha256_block (state256 c) (buf256 c) d)" by (intro holds_absorb) simp_all
  then show "holds 64 sha256_block IV256 (m @ d) (state256 (sha256_update c d), buf256 (sha256_update c d))"
    by (simp add: sha256_update_def SHA256_BLOCK_SIZE_def split_beta)
qed (simp_all add: sha256_init_def)

lemma bitlen_update: "bitlen256 (sha256_update c d) = bitlen256 c + of_nat (8 * length d)"
  by (simp add: sha256_update_def split_beta mult.commute)

lemma bitlen_stream: "bitlen256 (foldl sha256_update sha256_init ds) = of_nat (8 * length (concat ds))"
  by (induction ds rule: rev_induct) (simp_all add: bitlen_update sha256_init_def distrib_left)

lemma sha256_stream: "sha256_final (foldl sha256_update sha256_init ds) = sha256_spec (concat ds)"
  using h256.final_holds(1) [OF h256.stream_holds, of "be64 (of_nat (8 * length (concat ds)))" ds]
  by (simp add: sha256_final_def sha256_spec_def SHA256_BLOCK_SIZE_def bitlen_stream Let_def)

subsection \<open>SHA-512\<close>

definition SHA512_BLOCK_SIZE :: nat where "SHA512_BLOCK_SIZE = 128"

definition ror64 :: "u64 \<Rightarrow> nat \<Rightarrow> u64" where
  "ror64 x n = drop_bit n x OR push_bit (64 - n) x"

definition K512 :: "u64 list" where
  "K512 = [
    4794697086780616226, 8158064640168781261, 13096744586834688815, 16840607885511220156,
    4131703408338449720, 6480981068601479193, 10538285296894168987, 12329834152419229976,
    15566598209576043074, 1334009975649890238, 2608012711638119052, 6128411473006802146,
    8268148722764581231, 9286055187155687089, 11230858885718282805, 13951009754708518548,
    16472876342353939154, 17275323862435702243, 1135362057144423861, 2597628984639134821,
    3308224258029322869, 5365058923640841347, 6679025012923562964, 8573033837759648693,
    10970295158949994411, 12119686244451234320, 12683024718118986047, 13788192230050041572,
    14330467153632333762, 15395433587784984357, 489312712824947311, 1452737877330783856,
    2861767655752347644, 3322285676063803686, 5560940570517711597, 5996557281743188959,
    7280758554555802590, 8532644243296465576, 9350256976987008742, 10552545826968843579,
    11727347734174303076, 12113106623233404929, 14000437183269869457, 14369950271660146224,
    15101387698204529176, 15463397548674623760, 17586052441742319658, 1182934255886127544,
    1847814050463011016, 2177327727835720531, 2830643537854262169, 3796741975233480872,
    4115178125766777443, 5681478168544905931, 6601373596472566643, 7507060721942968483,
    8399075790359081724, 8693463985226723168, 9568029438360202098, 10144078919501101548,
    10430055236837252648, 11840083180663258601, 13761210420658862357, 14299343276471374635,
    14566680578165727644, 15097957966210449927, 16922976911328602910, 17689382322260857208,
    500013540394364858, 748580250866718886, 1242879168328830382, 1977374033974150939,
    2944078676154940804, 3659926193048069267, 4368137639120453308, 4836135668995329356,
    5532061633213252278, 6448918945643986474, 6902733635092675308, 7801388544844847127]"

definition sched512 :: "u8 list \<Rightarrow> u64 list" where
  "sched512 p = foldl (\<lambda>w i.
     let s0 = ror64 (w ! (i - 15)) 1 XOR ror64 (w ! (i - 15)) 8 XOR drop_bit 7 (w ! (i - 15));
         s1 = ror64 (w ! (i - 2)) 19 XOR ror64 (w ! (i - 2)) 61 XOR drop_bit 6 (w ! (i - 2))
     in w @ [w ! (i - 16) + s0 + w ! (i - 7) + s1]) (map (word64 p) [0 ..< 16]) [16 ..< 80]"

fun round512 :: "u64 list \<Rightarrow> u64 list \<Rightarrow> nat \<Rightarrow> u64 list" where
  "round512 w [a, b, c, d, e, f, g, h] i =
    (let S1 = ror64 e 14 XOR ror64 e 18 XOR ror64 e 41; ch = (e AND f) XOR (NOT e AND g); t1 = h + S1 + ch + K512 ! i + w ! i;
         S0 = ror64 a 28 XOR ror64 a 34 XOR ror64 a 39; maj = (a AND b) XOR (a AND c) XOR (b AND c); t2 = S0 + maj
     in [t1 + t2, a, b, c, d + t1, e, f, g])"
| "round512 w s i = s"

definition sha512_block :: "u64 list \<Rightarrow> u8 list \<Rightarrow> u64 list" where
  "sha512_block state p = map2 (+) state (foldl (round512 (sched512 p)) state [0 ..< 80])"

record sha512_ctx =
  state512 :: "u64 list"
  bitlen_lo :: u64
  bitlen_hi :: u64
  buf512 :: "u8 list"

definition IV512 :: "u64 list" where
  "IV512 = [0x6a09e667f3bcc908, 0xbb67ae8584caa73b, 0x3c6ef372fe94f82b, 0xa54ff53a5f1d36f1,
    0x510e527fade682d1, 0x9b05688c2b3e6c1f, 0x1f83d9abfb41bd6b, 0x5be0cd19137e2179]"

definition sha512_init :: sha512_ctx where
  "sha512_init = \<lparr>state512 = IV512, bitlen_lo = 0, bitlen_hi = 0, buf512 = []\<rparr>"

definition sha512_update :: "sha512_ctx \<Rightarrow> u8 list \<Rightarrow> sha512_ctx" where
  "sha512_update c data =
    (let add = of_nat (length data) * 8; lo = bitlen_lo c + add;
         (st, buf) = absorb SHA512_BLOCK_SIZE sha512_block (state512 c) (buf512 c) data
     in c\<lparr>bitlen_lo := lo, bitlen_hi := (if lo < add then bitlen_hi c + 1 else bitlen_hi c), state512 := st, buf512 := buf\<rparr>)"

definition sha512_final :: "sha512_ctx \<Rightarrow> u8 list" where
  "sha512_final c =
    (let lo = bitlen_lo c; hi = bitlen_hi c; c = sha512_update c [0x80];
         c = pad_to SHA512_BLOCK_SIZE 112 (\<lambda>c. length (buf512 c)) (\<lambda>c. sha512_update c [0]) c
     in concat (map be64 (sha512_block (state512 c) (buf512 c @ be64 hi @ be64 lo))))"

definition sha512 :: "u8 list \<Rightarrow> u8 list" where
  "sha512 data = sha512_final (sha512_update sha512_init data)"

text \<open>The length field has 128 bits.\<close>

definition sha512_spec :: "u8 list \<Rightarrow> u8 list" where
  "sha512_spec m = concat (map be64 (foldl sha512_block IV512 (blocks 128 (padded 128 112 m
     (be64 (of_nat (8 * length m div 2 ^ 64)) @ be64 (of_nat (8 * length m)))))))"

interpretation h512: stream_hash 128 112 sha512_block IV512 sha512_init sha512_update state512 buf512
proof
  fix m d :: "u8 list" and c :: sha512_ctx
  assume "holds 128 sha512_block IV512 m (state512 c, buf512 c)"
  then have "holds 128 sha512_block IV512 (m @ d) (absorb 128 sha512_block (state512 c) (buf512 c) d)" by (intro holds_absorb) simp_all
  then show "holds 128 sha512_block IV512 (m @ d) (state512 (sha512_update c d), buf512 (sha512_update c d))"
    by (simp add: sha512_update_def SHA512_BLOCK_SIZE_def split_beta Let_def)
qed (simp_all add: sha512_init_def)

subsection \<open>SHA-1\<close>

definition rol :: "u32 \<Rightarrow> nat \<Rightarrow> u32" where
  "rol v c = push_bit c v OR drop_bit (32 - c) v"

definition sched1 :: "u8 list \<Rightarrow> u32 list" where
  "sched1 p = foldl (\<lambda>w i. w @ [rol (w ! (i - 3) XOR w ! (i - 8) XOR w ! (i - 14) XOR w ! (i - 16)) 1])
     (map (word32 p) [0 ..< 16]) [16 ..< 80]"

fun round1 :: "u32 list \<Rightarrow> u32 list \<Rightarrow> nat \<Rightarrow> u32 list" where
  "round1 w [a, b, d, e, f] i =
    (let (t, k) = (if i < 20 then ((b AND d) OR (NOT b AND e), 0x5A827999)
                   else if i < 40 then (b XOR d XOR e, 0x6ED9EBA1)
                   else if i < 60 then ((b AND d) OR (b AND e) OR (d AND e), 0x8F1BBCDC)
                   else (b XOR d XOR e, 0xCA62C1D6))
     in [rol a 5 + t + f + k + w ! i, a, rol b 30, d, e])"
| "round1 w s i = s"

definition sha1_block :: "u32 list \<Rightarrow> u8 list \<Rightarrow> u32 list" where
  "sha1_block h p = map2 (+) h (foldl (round1 (sched1 p)) h [0 ..< 80])"

record sha1_ctx =
  h1 :: "u32 list"
  len1 :: u64
  buf1 :: "u8 list"

definition IV1 :: "u32 list" where
  "IV1 = [0x67452301, 0xEFCDAB89, 0x98BADCFE, 0x10325476, 0xC3D2E1F0]"

definition sha1_init :: sha1_ctx where
  "sha1_init = \<lparr>h1 = IV1, len1 = 0, buf1 = []\<rparr>"

definition sha1_update :: "sha1_ctx \<Rightarrow> u8 list \<Rightarrow> sha1_ctx" where
  "sha1_update c data =
    (let (h, buf) = absorb_bytes 64 sha1_block (h1 c) (buf1 c) data
     in c\<lparr>len1 := len1 c + of_nat (length data), h1 := h, buf1 := buf\<rparr>)"

definition sha1_final :: "sha1_ctx \<Rightarrow> u8 list" where
  "sha1_final c =
    (let bits = len1 c * 8; c = sha1_update c [0x80];
         c = pad_to 64 56 (\<lambda>c. length (buf1 c)) (\<lambda>c. sha1_update c [0]) c; c = sha1_update c (be64 bits)
     in concat (map be32 (h1 c)))"

definition sha1 :: "u8 list \<Rightarrow> u8 list" where
  "sha1 data = sha1_final (sha1_update sha1_init data)"

definition sha1_spec :: "u8 list \<Rightarrow> u8 list" where
  "sha1_spec m = concat (map be32 (foldl sha1_block IV1 (blocks 64 (padded 64 56 m (be64 (of_nat (8 * length m)))))))"

interpretation hash1: stream_hash 64 56 sha1_block IV1 sha1_init sha1_update h1 buf1
proof
  fix m d :: "u8 list" and c :: sha1_ctx
  assume "holds 64 sha1_block IV1 m (h1 c, buf1 c)"
  then have "holds 64 sha1_block IV1 (m @ d) (absorb_bytes 64 sha1_block (h1 c) (buf1 c) d)" by (intro holds_bytes) simp_all
  then show "holds 64 sha1_block IV1 (m @ d) (h1 (sha1_update c d), buf1 (sha1_update c d))"
    by (simp add: sha1_update_def split_beta)
qed (simp_all add: sha1_init_def)

lemma absorb_bytes_fill:
  assumes "length buf + length d = bs" "d \<noteq> []"
  shows "absorb_bytes bs f st buf d = (f st (buf @ d), [])"
  using assms
proof (induction d arbitrary: buf)
  case (Cons b d)
  then show ?case by (cases "d = []") auto
qed simp

lemma len1_stream: "len1 (foldl sha1_update sha1_init ds) = of_nat (length (concat ds))"
  by (induction ds rule: rev_induct) (simp_all add: sha1_update_def sha1_init_def split_beta)

lemma sha1_stream: "sha1_final (foldl sha1_update sha1_init ds) = sha1_spec (concat ds)"
proof -
  let ?c = "foldl sha1_update sha1_init ds" and ?l = "be64 (of_nat (length (concat ds)) * 8)"
  define c where "c = pad_to 64 56 (\<lambda>c. length (buf1 c)) (\<lambda>c. sha1_update c [0]) (sha1_update ?c [0x80])"
  note F = hash1.final_holds [OF hash1.stream_holds, of ?l ds, folded c_def, simplified]
  have "?l \<noteq> []" by (metis length_be64 list.size(3) zero_neq_numeral)
  then have "h1 (sha1_update c ?l) = sha1_block (h1 c) (buf1 c @ ?l)"
    using absorb_bytes_fill [of "buf1 c" ?l 64 sha1_block "h1 c"] F(2) by (simp add: sha1_update_def)
  then show ?thesis unfolding sha1_final_def sha1_spec_def Let_def len1_stream c_def [symmetric]
    using F(1) by (simp add: mult.commute)
qed

text \<open>The 128-bit length counts the bits of the message.\<close>

lemma div_carry:
  fixes n a w :: nat
  assumes "a < w"
  shows "(n + a) div w = (if n mod w + a < w then n div w else Suc (n div w))" "(n + a) mod w < a \<longleftrightarrow> \<not> n mod w + a < w"
proof -
  define r where "r = n mod w"
  have r: "r < w" "r + a < 2 * w" using assms by (simp_all add: r_def mult_2 add_strict_mono)
  have q: "(r + a) div w = (if r + a < w then 0 else 1)" using r by (simp add: div_nat_eqI)
  have "(n + a) div w = n div w + a div w + (n mod w + a mod w) div w" by (rule div_add1_eq)
  then show "(n + a) div w = (if n mod w + a < w then n div w else Suc (n div w))"
    using assms q by (simp add: r_def)
  have "(n + a) mod w = (r + a) mod w" by (simp add: r_def mod_add_left_eq)
  also have "\<dots> = (if r + a < w then r + a else r + a - w)" using r by (simp add: mod_if)
  finally show "(n + a) mod w < a \<longleftrightarrow> \<not> n mod w + a < w" using r(1) by (auto simp: r_def)
qed

lemma carry_step:
  fixes n a :: nat
  assumes "a < 2 ^ 64"
  defines "lo \<equiv> of_nat n + of_nat a :: u64"
  shows "(if lo < of_nat a then of_nat (n div 2 ^ 64) + 1 else of_nat (n div 2 ^ 64)) = (of_nat ((n + a) div 2 ^ 64) :: u64)"
proof -
  have lo: "unat lo = (n + a) mod 2 ^ 64" unfolding lo_def by (simp add: unat_of_nat take_bit_eq_mod flip: of_nat_add)
  have c: "lo < of_nat a \<longleftrightarrow> (n + a) mod 2 ^ 64 < a" unfolding word_less_nat_alt lo using assms(1) by (simp add: unat_of_nat64)
  show ?thesis unfolding c div_carry [OF assms(1)] by simp
qed

lemma bitlen512_update:
  "bitlen_lo (sha512_update c d) = bitlen_lo c + of_nat (8 * length d)"
  "bitlen_hi (sha512_update c d) = (if bitlen_lo c + of_nat (8 * length d) < of_nat (8 * length d) then bitlen_hi c + 1 else bitlen_hi c)"
  by (simp_all add: sha512_update_def split_beta Let_def mult.commute)

lemma bitlen512_stream:
  assumes "\<forall>d \<in> set ds. length d < 2 ^ 61"
  shows "bitlen_lo (foldl sha512_update sha512_init ds) = of_nat (8 * length (concat ds))
    \<and> bitlen_hi (foldl sha512_update sha512_init ds) = of_nat (8 * length (concat ds) div 2 ^ 64)"
  using assms
proof (induction ds rule: rev_induct)
  case (snoc d ds)
  have l: "8 * length d < 2 ^ 64" using snoc.prems by auto
  have e: "8 * length (concat (ds @ [d])) = 8 * length (concat ds) + 8 * length d" by simp
  note IH = snoc.IH [THEN conjunct1] snoc.IH [THEN conjunct2]
  have "\<forall>d \<in> set ds. length d < 2 ^ 61" using snoc.prems by simp
  from IH [OF this] have h: "bitlen_lo (foldl sha512_update sha512_init ds) = of_nat (8 * length (concat ds))"
    "bitlen_hi (foldl sha512_update sha512_init ds) = of_nat (8 * length (concat ds) div 2 ^ 64)" .
  show ?case unfolding foldl_append foldl_Cons foldl_Nil bitlen512_update e h carry_step [OF l] of_nat_add by (rule conjI [OF refl refl])
qed (simp add: sha512_init_def)

lemma sha512_stream:
  assumes "\<forall>d \<in> set ds. length d < 2 ^ 61"
  shows "sha512_final (foldl sha512_update sha512_init ds) = sha512_spec (concat ds)"
proof -
  let ?l = "be64 (of_nat (8 * length (concat ds) div 2 ^ 64)) @ be64 (of_nat (8 * length (concat ds)))"
  have "length ?l = 128 - 112" by simp
  note F = h512.final_holds(1) [OF h512.stream_holds this]
  show ?thesis unfolding sha512_final_def sha512_spec_def Let_def SHA512_BLOCK_SIZE_def
    conjunct1 [OF bitlen512_stream [OF assms]] conjunct2 [OF bitlen512_stream [OF assms]] F by (rule refl)
qed

text \<open>
  C28. Hashing is independent of how the data arrives: whatever the pieces passed to the update
  routine, each digest is the specified digest of their concatenation, the compression of
  the padded message with its bit length.  For SHA-512 a single piece is below 2 EiB.
\<close>

theorem hash_chunking:
  "sha256_final (foldl sha256_update sha256_init ds) = sha256_spec (concat ds)
   \<and> sha1_final (foldl sha1_update sha1_init ds) = sha1_spec (concat ds)
   \<and> ((\<forall>d \<in> set ds. length d < 2 ^ 61) \<longrightarrow> sha512_final (foldl sha512_update sha512_init ds) = sha512_spec (concat ds))"
  by (intro conjI impI sha256_stream sha1_stream sha512_stream)

theorem hash_chunking_witness:
  "sha512_final (sha512_update (sha512_update sha512_init [0x61]) [0x62, 0x63]) = sha512_spec [0x61, 0x62, 0x63]"
  using hash_chunking [of "[[0x61], [0x62, 0x63]]"] by simp

end
