(* ===== verification/Elf.thy ===== *)
theory Elf
  imports Mmap Sha
begin

text \<open>
  Program images (mm/elf.c, mm/elf_manifest.c, mm/elf_sign.c): the two loaders, the parser of the
  signed manifest and the signature check.  An image is a buffer in kernel memory given by its
  address and size; pointers are 64-bit addresses and pointer arithmetic wraps as it does on the
  machine.  Headers are read from memory field by field.  The scan over the notes of a segment can
  fail to end when its pointer wraps, so it is a partial function whose \<^verbatim>\<open>None\<close> is not
  returning.  The verification of an Ed25519 signature is a parameter.
\<close>

subsection \<open>Reading kernel memory\<close>

definition rd :: "kmem \<Rightarrow> u64 \<Rightarrow> nat \<Rightarrow> u64" where
  "rd m a n = of_le64 (map (\<lambda>i. m (a + of_nat i)) [0 ..< n])"

definition rd16 :: "kmem \<Rightarrow> u64 \<Rightarrow> u16" where "rd16 m a = ucast (rd m a 2)"
definition rd32 :: "kmem \<Rightarrow> u64 \<Rightarrow> u32" where "rd32 m a = ucast (rd m a 4)"
definition rd64 :: "kmem \<Rightarrow> u64 \<Rightarrow> u64" where "rd64 m a = rd m a 8"

definition bytes_at :: "kmem \<Rightarrow> u64 \<Rightarrow> u64 \<Rightarrow> u8 list" where
  "bytes_at m a n = map (\<lambda>k. m (a + of_nat k)) [0 ..< unat n]"

subsection \<open>Headers\<close>

record Elf64_Ehdr =
  e_ident :: "u8 list"
  e_type :: u16
  e_machine :: u16
  e_version :: u32
  e_entry :: u64
  e_phoff :: u64
  e_shoff :: u64
  e_flags :: u32
  e_ehsize :: u16
  e_phentsize :: u16
  e_phnum :: u16
  e_shentsize :: u16
  e_shnum :: u16
  e_shstrndx :: u16

record Elf64_Phdr =
  p_type :: u32
  p_flags :: u32
  p_offset :: u64
  p_vaddr :: u64
  p_paddr :: u64
  p_filesz :: u64
  p_memsz :: u64
  p_align :: u64

definition ehdr_at :: "kmem \<Rightarrow> u64 \<Rightarrow> Elf64_Ehdr" where
  "ehdr_at m a = \<lparr>e_ident = bytes_at m a 16, e_type = rd16 m (a + 16), e_machine = rd16 m (a + 18), e_version = rd32 m (a + 20),
     e_entry = rd64 m (a + 24), e_phoff = rd64 m (a + 32), e_shoff = rd64 m (a + 40), e_flags = rd32 m (a + 48),
     e_ehsize = rd16 m (a + 52), e_phentsize = rd16 m (a + 54), e_phnum = rd16 m (a + 56), e_shentsize = rd16 m (a + 58),
     e_shnum = rd16 m (a + 60), e_shstrndx = rd16 m (a + 62)\<rparr>"

definition phdr_at :: "kmem \<Rightarrow> u64 \<Rightarrow> Elf64_Phdr" where
  "phdr_at m a = \<lparr>p_type = rd32 m a, p_flags = rd32 m (a + 4), p_offset = rd64 m (a + 8), p_vaddr = rd64 m (a + 16),
     p_paddr = rd64 m (a + 24), p_filesz = rd64 m (a + 32), p_memsz = rd64 m (a + 40), p_align = rd64 m (a + 48)\<rparr>"

abbreviation sizeof_Ehdr :: u64 where "sizeof_Ehdr \<equiv> 64"
abbreviation sizeof_Phdr :: u64 where "sizeof_Phdr \<equiv> 56"

definition PT_LOAD :: u32 where "PT_LOAD = 1"
definition PT_NOTE :: u32 where "PT_NOTE = 4"
definition PF_X :: u32 where "PF_X = 1"
definition PF_W :: u32 where "PF_W = 2"
definition ELF_OK :: int where "ELF_OK = 0"
definition ELF_ERR_MAGIC :: int where "ELF_ERR_MAGIC = -1"
definition ELF_ERR_FMT :: int where "ELF_ERR_FMT = -2"
definition ELF_ERR_RANGE :: int where "ELF_ERR_RANGE = -3"
definition ELF_ERR_FLAG :: int where "ELF_ERR_FLAG = -4"
definition ELF_ERR_MAP :: int where "ELF_ERR_MAP = -5"
definition USER_DATA_BASE :: u64 where "USER_DATA_BASE = 0x200000000"

lemmas elf_consts = PT_LOAD_def PT_NOTE_def PF_X_def PF_W_def ELF_OK_def ELF_ERR_MAGIC_def ELF_ERR_FMT_def
  ELF_ERR_RANGE_def ELF_ERR_FLAG_def ELF_ERR_MAP_def

definition check_magic :: "Elf64_Ehdr \<Rightarrow> int" where
  "check_magic eh = (if take 4 (e_ident eh) \<noteq> [0x7F, 0x45, 0x4C, 0x46] then ELF_ERR_MAGIC else 0)"

text \<open>The checks on the file header that both loaders make; 0 means that they pass.\<close>

definition check_ehdr :: "kmem \<Rightarrow> u64 \<Rightarrow> u64 \<Rightarrow> int" where
  "check_ehdr m img sz =
    (if img = 0 \<or> sz < sizeof_Ehdr then ELF_ERR_FMT
     else let eh = ehdr_at m img in
       if check_magic eh \<noteq> 0 then ELF_ERR_MAGIC
       else if e_phoff eh = 0 \<or> e_phnum eh = 0 then ELF_ERR_FMT
       else if e_phentsize eh \<noteq> ucast sizeof_Phdr then ELF_ERR_FMT
       else 0)"

definition phdr_addr :: "kmem \<Rightarrow> u64 \<Rightarrow> nat \<Rightarrow> u64" where
  "phdr_addr m img i = img + e_phoff (ehdr_at m img) + of_nat i * sizeof_Phdr"

text \<open>The checks on a loadable segment; 0 means that it can be mapped.\<close>

definition check_segment :: "Elf64_Phdr \<Rightarrow> u64 \<Rightarrow> int" where
  "check_segment ph sz =
    (if p_flags ph AND PF_X \<noteq> 0 \<and> p_flags ph AND PF_W \<noteq> 0 then ELF_ERR_FLAG
     else if p_offset ph + p_filesz ph > sz then ELF_ERR_RANGE
     else if p_flags ph AND PF_X \<noteq> 0 \<and> (p_vaddr ph < USER_CODE_BASE \<or> p_vaddr ph \<ge> USER_DATA_BASE) then ELF_ERR_RANGE
     else if p_flags ph AND PF_X = 0 \<and> (p_vaddr ph < USER_DATA_BASE \<or> p_vaddr ph \<ge> USER_STACK_TOP - 0x100000) then ELF_ERR_RANGE
     else if p_align ph \<noteq> 0 \<and> p_align ph \<noteq> 0x1000 then ELF_ERR_FMT
     else 0)"

definition seg_memsz :: "Elf64_Phdr \<Rightarrow> u64" where
  "seg_memsz ph = (if p_memsz ph < p_filesz ph then p_filesz ph else p_memsz ph)"

definition seg_start :: "Elf64_Phdr \<Rightarrow> u64" where
  "seg_start ph = p_vaddr ph AND NOT 0xFFF"

definition seg_stop :: "Elf64_Phdr \<Rightarrow> u64" where
  "seg_stop ph = (p_vaddr ph + seg_memsz ph + 0xFFF) AND NOT 0xFFF"

subsection \<open>The demand-paging loader\<close>

definition seg_flags :: "Elf64_Phdr \<Rightarrow> u64" where
  "seg_flags ph = (if p_flags ph AND PF_X \<noteq> 0 then VMM_FLAG_USER else VMM_FLAG_USER OR VMM_FLAG_RW OR VMM_FLAG_NOEXEC)"

text \<open>The regions so far come back on every path; the footprint only matters on success.\<close>

fun lazy_loop :: "kmem \<Rightarrow> u64 \<Rightarrow> u64 \<Rightarrow> nat list \<Rightarrow> vma_set \<Rightarrow> u64 \<Rightarrow> vma_set \<times> (int + u64)" where
  "lazy_loop m img sz [] vset footprint = (vset, Inr footprint)"
| "lazy_loop m img sz (i # is) vset footprint =
    (let a = phdr_addr m img i; ph = phdr_at m a in
     if a + sizeof_Phdr > img + sz then (vset, Inl ELF_ERR_RANGE)
     else if p_type ph \<noteq> PT_LOAD then lazy_loop m img sz is vset footprint
     else if p_memsz ph = 0 \<and> p_filesz ph = 0 then lazy_loop m img sz is vset footprint
     else if check_segment ph sz \<noteq> 0 then (vset, Inl (check_segment ph sz))
     else if seg_memsz ph = 0 then lazy_loop m img sz is vset footprint
     else case vma_add vset (seg_start ph) (seg_stop ph) (seg_flags ph) VMA_TYPE_FILE img (p_offset ph)
                 (p_vaddr ph - seg_start ph) (p_filesz ph) of
         (vset, r) \<Rightarrow> if r \<noteq> 0 then (vset, Inl ELF_ERR_MAP)
           else lazy_loop m img sz is vset (footprint + (seg_stop ph - seg_start ph)))"

text \<open>On success the entry point and the reserved footprint.\<close>

definition elf_load_image_lazy :: "kmem \<Rightarrow> u64 \<Rightarrow> u64 \<Rightarrow> vma_set \<Rightarrow> vma_set \<times> (int + u64 \<times> u64)" where
  "elf_load_image_lazy m img sz vset =
    (if check_ehdr m img sz \<noteq> 0 then (vset, Inl (check_ehdr m img sz))
     else let eh = ehdr_at m img in
       case lazy_loop m img sz [0 ..< unat (e_phnum eh)] vset 0 of
         (vset, Inl e) \<Rightarrow> (vset, Inl e)
       | (vset, Inr footprint) \<Rightarrow> (vset, Inr (e_entry eh, footprint)))"

subsection \<open>The eager loader\<close>

text \<open>One byte of physical memory, which holds words.\<close>

definition poke :: "vmm \<Rightarrow> u64 \<Rightarrow> u8 \<Rightarrow> vmm" where
  "poke s phys b =
    (let t = phys AND NOT 0xFFF; o8 = unat (phys AND 0xFFF); w = pm s t (o8 div 8); k = 8 * (o8 mod 8)
     in set_entry s t (o8 div 8) ((w AND NOT (push_bit k 0xFF)) OR push_bit k (ucast b)))"

definition vmm_map_user_code_in_space :: "vmm \<Rightarrow> u64 \<Rightarrow> u64 \<Rightarrow> vmm \<times> int" where
  "vmm_map_user_code_in_space s space va = map_user_page_in_space s space va False True"

definition vmm_alloc_user_page_in_space :: "vmm \<Rightarrow> u64 \<Rightarrow> u64 \<Rightarrow> vmm \<times> int" where
  "vmm_alloc_user_page_in_space s space va = map_user_page_in_space s space va True False"

fun map_seg_pages :: "u64 \<Rightarrow> Elf64_Phdr \<Rightarrow> u64 list \<Rightarrow> vmm \<times> u64 list \<Rightarrow> (vmm \<times> u64 list) \<times> bool" where
  "map_seg_pages space ph [] s = (s, True)"
| "map_seg_pages space ph (va # vas) (s, pages) =
    (let (s, r) = (if p_flags ph AND PF_X \<noteq> 0 \<and> p_flags ph AND PF_W = 0 then vmm_map_user_code_in_space s space va
                   else vmm_alloc_user_page_in_space s space va)
     in if r \<noteq> 0 then ((s, pages), False) else map_seg_pages space ph vas (s, pages @ [va]))"

fun copy_seg :: "kmem \<Rightarrow> u64 \<Rightarrow> u64 \<Rightarrow> u64 \<Rightarrow> nat list \<Rightarrow> vmm \<Rightarrow> vmm \<times> bool" where
  "copy_seg m src space vaddr [] s = (s, True)"
| "copy_seg m src space vaddr (off # offs) s =
    (let phys = vmm_translate_in_space s space (vaddr + of_nat off)
     in if phys = 0 then (s, False) else copy_seg m src space vaddr offs (poke s phys (m (src + of_nat off))))"

definition zero_tail :: "u64 \<Rightarrow> u64 \<Rightarrow> nat list \<Rightarrow> vmm \<Rightarrow> vmm" where
  "zero_tail space vaddr offs s = fold (\<lambda>off s.
     let phys = vmm_translate_in_space s space (vaddr + of_nat off) in if phys = 0 then s else poke s phys 0) offs s"

definition load_segment :: "kmem \<Rightarrow> u64 \<Rightarrow> u64 \<Rightarrow> Elf64_Phdr \<Rightarrow> vmm \<times> u64 list \<Rightarrow> (vmm \<times> u64 list) \<times> int" where
  "load_segment m img space ph s =
    (case map_seg_pages space ph (page_list (seg_start ph) (seg_stop ph)) s of
       (s, False) \<Rightarrow> (s, ELF_ERR_MAP)
     | ((s, pages), True) \<Rightarrow> (case copy_seg m (img + p_offset ph) space (p_vaddr ph) [0 ..< unat (p_filesz ph)] s of
           (s, False) \<Rightarrow> ((s, pages), ELF_ERR_MAP)
         | (s, True) \<Rightarrow> ((zero_tail space (p_vaddr ph) [unat (p_filesz ph) ..< unat (seg_memsz ph)] s, pages), ELF_OK)))"

fun load_loop :: "kmem \<Rightarrow> u64 \<Rightarrow> u64 \<Rightarrow> u64 \<Rightarrow> nat list \<Rightarrow> vmm \<times> u64 list \<Rightarrow> (vmm \<times> u64 list) \<times> int" where
  "load_loop m img sz space [] s = (s, ELF_OK)"
| "load_loop m img sz space (i # is) s =
    (let a = phdr_addr m img i; ph = phdr_at m a in
     if a + sizeof_Phdr > img + sz then (s, ELF_ERR_RANGE)
     else if p_type ph \<noteq> PT_LOAD then load_loop m img sz space is s
     else if p_memsz ph = 0 \<and> p_filesz ph = 0 then load_loop m img sz space is s
     else if check_segment ph sz \<noteq> 0 then (s, check_segment ph sz)
     else if seg_memsz ph = 0 then load_loop m img sz space is s
     else case load_segment m img space ph s of
         (s, r) \<Rightarrow> if r \<noteq> 0 then (s, r) else load_loop m img sz space is s)"

definition count_pages :: "kmem \<Rightarrow> u64 \<Rightarrow> nat list \<Rightarrow> u32" where
  "count_pages m img is = foldl (\<lambda>n i. let ph = phdr_at m (phdr_addr m img i) in
     if p_type ph \<noteq> PT_LOAD \<or> seg_memsz ph = 0 then n
     else n + ucast (drop_bit 12 (seg_stop ph - seg_start ph))) 0 is"

text \<open>
  On success the entry point and the recorded pages: at most as many as were counted, none when
  the heap has no room for the array.
\<close>

definition elf_load_image :: "bool \<Rightarrow> kmem \<Rightarrow> u64 \<Rightarrow> u64 \<Rightarrow> u64 \<Rightarrow> vmm \<Rightarrow> vmm \<times> (int + u64 \<times> u64 list)" where
  "elf_load_image kmalloc_ok m img sz space s =
    (if check_ehdr m img sz \<noteq> 0 then (s, Inl (check_ehdr m img sz))
     else let eh = ehdr_at m img; is = [0 ..< unat (e_phnum eh)];
              total_pages = (if kmalloc_ok then count_pages m img is else 0)
       in case load_loop m img sz space is (s, []) of
            ((s, pages), r) \<Rightarrow> if r \<noteq> 0 then (s, Inl r) else (s, Inr (e_entry eh, take (unat total_pages) pages)))"

text \<open>The pages are those that the process recorded; none when it has no array.\<close>

definition elf_unload_process :: "u64 option \<Rightarrow> u64 list \<Rightarrow> vmm \<Rightarrow> vmm \<times> int" where
  "elf_unload_process space mapped_pages s =
    (case space of None \<Rightarrow> (s, -2) | Some sp \<Rightarrow> (fold (\<lambda>va s. fst (vmm_unmap_in_space s sp va)) mapped_pages s, 0))"

subsection \<open>Notes\<close>

definition align4 :: "u32 \<Rightarrow> u64" where
  "align4 n = ucast ((n + 3) AND NOT 3)"

text \<open>The first note of a segment that is accepted: the address and the size of its descriptor.\<close>

partial_function (option) note_scan :: "(kmem \<Rightarrow> u64 \<Rightarrow> bool) \<Rightarrow> kmem \<Rightarrow> u64 \<Rightarrow> u64 \<Rightarrow> (u64 \<times> u32) option option" where
  "note_scan ok m note fin =
    (if note + 12 \<le> fin then
       let namesz = rd32 m note; descsz = rd32 m (note + 4); desc = note + 12 + align4 namesz; nxt = desc + align4 descsz
       in if nxt > fin then Some None
          else if ok m note then Some (Some (desc, descsz))
          else note_scan ok m nxt fin
     else Some None)"

definition secos_name :: "kmem \<Rightarrow> u64 \<Rightarrow> bool" where
  "secos_name m note = (bytes_at m (note + 12) 5 = [0x53, 0x45, 0x43, 0x4F, 0x53])"

definition SECOS_NOTE_TYPE :: u32 where "SECOS_NOTE_TYPE = 0x51534543"
definition SECOS_SIG_NOTE_TYPE :: u32 where "SECOS_SIG_NOTE_TYPE = 0x51534947"

definition manifest_note :: "kmem \<Rightarrow> u64 \<Rightarrow> bool" where
  "manifest_note m note \<longleftrightarrow> rd32 m note \<noteq> 0 \<and> rd32 m (note + 4) \<noteq> 0 \<and> rd32 m (note + 8) = SECOS_NOTE_TYPE
     \<and> rd32 m note \<ge> 6 \<and> secos_name m note \<and> rd32 m (note + 4) \<ge> 24"

definition qsig_note :: "kmem \<Rightarrow> u64 \<Rightarrow> bool" where
  "qsig_note m note \<longleftrightarrow> rd32 m (note + 8) = SECOS_SIG_NOTE_TYPE \<and> rd32 m note \<ge> 6 \<and> secos_name m note \<and> rd32 m (note + 4) \<ge> 72"

subsection \<open>The manifest\<close>

record elf_manifest =
  mf_version :: u32
  mf_flags :: u32
  max_mem :: u64
  entry_hint :: u64
  mf_proc_type :: u32
  mf_dev_id :: u32
  mf_dev_caps :: u32

definition MANIFEST_OK :: int where "MANIFEST_OK = 0"
definition MANIFEST_ERR_NOT_FOUND :: int where "MANIFEST_ERR_NOT_FOUND = -1"
definition MANIFEST_ERR_FMT :: int where "MANIFEST_ERR_FMT = -2"
definition MANIFEST_ERR_RANGE :: int where "MANIFEST_ERR_RANGE = -3"
definition MANIFEST_ERR_UNSUPPORTED :: int where "MANIFEST_ERR_UNSUPPORTED = -4"
definition MANIFEST_VERSION_DRIVER :: u32 where "MANIFEST_VERSION_DRIVER = 2"
definition MANIFEST_PROC_TYPE_USER :: u32 where "MANIFEST_PROC_TYPE_USER = 0"
definition MANIFEST_PROC_TYPE_DRIVER :: u32 where "MANIFEST_PROC_TYPE_DRIVER = 1"
definition MANIFEST_FLAG_CAP_ENFORCE :: u32 where "MANIFEST_FLAG_CAP_ENFORCE = push_bit 5 1"
definition MANIFEST_FLAG_SETID :: u32 where "MANIFEST_FLAG_SETID = push_bit 15 1"

text \<open>
  The first accepted note over the program headers: \<^verbatim>\<open>None\<close> when a scan does not return,
  an error code, or the descriptor when there is one.
\<close>

fun note_loop :: "int \<Rightarrow> (kmem \<Rightarrow> u64 \<Rightarrow> bool) \<Rightarrow> kmem \<Rightarrow> u64 \<Rightarrow> u64 \<Rightarrow> nat list \<Rightarrow> (int + (u64 \<times> u32) option) option" where
  "note_loop err ok m img sz [] = Some (Inr None)"
| "note_loop err ok m img sz (i # is) =
    (let a = phdr_addr m img i; ph = phdr_at m a in
     if a + sizeof_Phdr > img + sz then Some (Inl err)
     else if p_type ph \<noteq> PT_NOTE then note_loop err ok m img sz is
     else if p_offset ph + p_filesz ph > sz then Some (Inl err)
     else case note_scan ok m (img + p_offset ph) (img + p_offset ph + p_filesz ph) of
         None \<Rightarrow> None
       | Some (Some d) \<Rightarrow> Some (Inr (Some d))
       | Some None \<Rightarrow> note_loop err ok m img sz is)"

definition raw_manifest :: "kmem \<Rightarrow> u64 \<Rightarrow> u32 \<Rightarrow> elf_manifest" where
  "raw_manifest m raw descsz =
    (let driver = (rd32 m raw \<ge> MANIFEST_VERSION_DRIVER \<and> descsz \<ge> 40) in
     \<lparr>mf_version = rd32 m raw, mf_flags = rd32 m (raw + 4), max_mem = rd64 m (raw + 8), entry_hint = rd64 m (raw + 16),
      mf_proc_type = (if driver then rd32 m (raw + 24) else MANIFEST_PROC_TYPE_USER),
      mf_dev_id = (if driver then rd32 m (raw + 28) else 0), mf_dev_caps = (if driver then rd32 m (raw + 32) else 0)\<rparr>)"

definition elf_manifest_parse :: "kmem \<Rightarrow> u64 \<Rightarrow> u64 \<Rightarrow> (int + elf_manifest) option" where
  "elf_manifest_parse m img sz =
    (if img = 0 \<or> sz < sizeof_Ehdr then Some (Inl MANIFEST_ERR_FMT)
     else let eh = ehdr_at m img in
       if e_phoff eh = 0 \<or> e_phnum eh = 0 then Some (Inl MANIFEST_ERR_NOT_FOUND)
       else if e_phentsize eh \<noteq> ucast sizeof_Phdr then Some (Inl MANIFEST_ERR_FMT)
       else case note_loop MANIFEST_ERR_RANGE manifest_note m img sz [0 ..< unat (e_phnum eh)] of
           None \<Rightarrow> None
         | Some (Inl e) \<Rightarrow> Some (Inl e)
         | Some (Inr None) \<Rightarrow> Some (Inl MANIFEST_ERR_NOT_FOUND)
         | Some (Inr (Some (raw, descsz))) \<Rightarrow> Some (Inr (raw_manifest m raw descsz)))"

definition elf_manifest_validate :: "elf_manifest \<Rightarrow> u64 \<Rightarrow> int" where
  "elf_manifest_validate mf real_entry =
    (if entry_hint mf \<noteq> 0 \<and> entry_hint mf \<noteq> real_entry then MANIFEST_ERR_UNSUPPORTED else MANIFEST_OK)"

subsection \<open>The signature\<close>

definition ELF_SIG_OK :: int where "ELF_SIG_OK = 0"
definition ELF_SIG_NOSIG :: int where "ELF_SIG_NOSIG = -1"
definition ELF_SIG_BAD :: int where "ELF_SIG_BAD = -2"
definition ELF_SIG_FMT :: int where "ELF_SIG_FMT = -3"
definition SECOS_MAX_REVOKED :: nat where "SECOS_MAX_REVOKED = 16"

definition find_qsig_sig_offset :: "kmem \<Rightarrow> u64 \<Rightarrow> u64 \<Rightarrow> u64 option" where
  "find_qsig_sig_offset m base sz =
    (if sz < sizeof_Ehdr then Some 0
     else let eh = ehdr_at m base in
       if e_phoff eh = 0 \<or> e_phnum eh = 0 then Some 0
       else if e_phentsize eh \<noteq> ucast sizeof_Phdr then Some 0
       else case note_loop 0 qsig_note m base sz [0 ..< unat (e_phnum eh)] of
           None \<Rightarrow> None
         | Some (Inr (Some (desc, _))) \<Rightarrow> Some (desc + 8 - base)
         | _ \<Rightarrow> Some 0)"

text \<open>The revoked keys, oldest first; a full list drops a further one.\<close>

definition elf_sign_key_revoked :: "u32 list \<Rightarrow> u32 \<Rightarrow> bool" where
  "elf_sign_key_revoked rv key_id = (key_id \<in> set rv)"

definition elf_sign_revoke_key :: "u32 list \<Rightarrow> u32 \<Rightarrow> u32 list" where
  "elf_sign_revoke_key rv key_id =
    (if key_id \<in> set rv then rv else if length rv < SECOS_MAX_REVOKED then rv @ [key_id] else rv)"

definition secos_trusted_pubkey :: "u8 list" where
  "secos_trusted_pubkey = [0xfc, 0x74, 0xfb, 0xf0, 0x3a, 0x91, 0x08, 0x73, 0x98, 0x7b, 0x16, 0xdf, 0x5f, 0xc8, 0x71, 0x20,
     0x1c, 0x9f, 0xe7, 0xcd, 0x34, 0x87, 0x4a, 0xf7, 0x00, 0xea, 0x74, 0xae, 0x45, 0x40, 0x55, 0x10]"

type_synonym sig_verify = "u8 list \<Rightarrow> u8 list \<Rightarrow> u8 list \<Rightarrow> bool"

definition elf_signature_verify :: "sig_verify \<Rightarrow> u32 list \<Rightarrow> kmem \<Rightarrow> u64 \<Rightarrow> u64 \<Rightarrow> int option" where
  "elf_signature_verify ed25519_verify rv m base sz =
    (if base = 0 \<or> sz < sizeof_Ehdr then Some ELF_SIG_FMT
     else case find_qsig_sig_offset m base sz of
       None \<Rightarrow> None
     | Some sig_off \<Rightarrow>
         if sig_off = 0 then Some ELF_SIG_NOSIG
         else if sig_off + 64 > sz then Some ELF_SIG_FMT
         else if sig_off \<ge> 4 \<and> elf_sign_key_revoked rv (rd32 m (base + sig_off - 4)) then Some ELF_SIG_BAD
         else let c = sha256_update sha256_init (bytes_at m base sig_off);
                  c = sha256_update c (replicate 64 0);
                  c = sha256_update c (bytes_at m (base + sig_off + 64) (sz - sig_off - 64))
           in if \<not> ed25519_verify (sha256_final c) (bytes_at m (base + sig_off) 64) secos_trusted_pubkey then Some ELF_SIG_BAD
              else Some ELF_SIG_OK)"

end
