(* ===== verification/Elf_Safe.thy ===== *)
theory Elf_Safe
  imports Elf
begin

text \<open>
  What the loader and the signature check guarantee: the shape of the regions a loaded image gets,
  that a fault on them reads nothing outside the image when no header field wraps (and what can be
  read when one does), and that an accepted signature covers every byte of the image.
\<close>

subsection \<open>The regions of a loaded image\<close>

definition seg_region :: "u64 \<Rightarrow> Elf64_Phdr \<Rightarrow> vma" where
  "seg_region img ph = \<lparr>v_start = seg_start ph, v_end = seg_stop ph, v_flags = seg_flags ph, v_type = VMA_TYPE_FILE, file_base = img,
     file_off = p_offset ph, file_pad = p_vaddr ph - seg_start ph, file_len = p_filesz ph, file_inode = None, file_voff = 0, phys_base = 0\<rparr>"

abbreviation seg :: "kmem \<Rightarrow> u64 \<Rightarrow> nat \<Rightarrow> Elf64_Phdr" where
  "seg m img i \<equiv> phdr_at m (phdr_addr m img i)"

text \<open>The indices of the program headers that occupy memory.\<close>

definition loadable :: "kmem \<Rightarrow> u64 \<Rightarrow> nat list \<Rightarrow> nat list" where
  "loadable m img is = filter (\<lambda>i. p_type (seg m img i) = PT_LOAD \<and> seg_memsz (seg m img i) \<noteq> 0) is"

lemma seg_memsz_0: "seg_memsz ph = 0 \<longleftrightarrow> p_memsz ph = 0 \<and> p_filesz ph = 0"
  by (auto simp: seg_memsz_def word_gt_0)

lemma vma_add_live:
  assumes "\<forall>v \<in> set s. live v" "vma_add s st en fl ty b off pad len = (s', r)" "r = 0"
  shows "length s < VMA_MAX \<and> s' = s @ [\<lparr>v_start = st, v_end = en, v_flags = fl, v_type = ty, file_base = b, file_off = off,
      file_pad = pad, file_len = len, file_inode = None, file_voff = 0, phys_base = 0\<rparr>]"
proof -
  have "find_index (\<lambda>v. v_type v = VMA_TYPE_NONE) s = None" using assms(1) by (simp add: find_index_None)
  then show ?thesis using assms(2,3) by (auto simp: vma_add_def vma_put_def split: if_splits)
qed

lemma vma_total_snoc:
  "vma_total_bytes (s @ [v]) = (if live v then vma_total_bytes s + (v_end v - v_start v) else vma_total_bytes s)" "vma_total_bytes [] = 0"
  by (simp_all add: vma_total_bytes_def)

lemma vma_total_foldl: "foldl (\<lambda>t v. if live v then t + (v_end v - v_start v) else t) b s = b + vma_total_bytes s"
  by (induction s rule: rev_induct) (simp_all add: vma_total_snoc)

lemma vma_total_Cons: "live v \<Longrightarrow> vma_total_bytes (v # s) = (v_end v - v_start v) + vma_total_bytes s"
  unfolding vma_total_foldl [symmetric] by (simp add: vma_total_bytes_def)

lemma lazy_loop_regions:
  assumes "lazy_loop m img sz is vset fp = (vs, Inr fp')" "\<forall>v \<in> set vset. live v" "length vset \<le> VMA_MAX"
  shows "vs = vset @ map (\<lambda>i. seg_region img (seg m img i)) (loadable m img is) \<and> length vs \<le> VMA_MAX
    \<and> fp' = fp + vma_total_bytes (map (\<lambda>i. seg_region img (seg m img i)) (loadable m img is))
    \<and> (\<forall>i \<in> set (loadable m img is). check_segment (seg m img i) sz = 0)"
  using assms
proof (induction "is" arbitrary: vset fp)
  case (Cons i "is")
  define ph where "ph = seg m img i"
  show ?case
  proof (cases "p_type ph \<noteq> PT_LOAD \<or> seg_memsz ph = 0")
    case True
    then have "lazy_loop m img sz is vset fp = (vs, Inr fp')" "loadable m img (i # is) = loadable m img is"
      using Cons.prems(1) by (auto simp: ph_def Let_def loadable_def seg_memsz_0 split: if_splits)
    with Cons.IH [OF this(1) Cons.prems(2,3)] show ?thesis by auto
  next
    case False
    obtain vs1 r where a: "vma_add vset (seg_start ph) (seg_stop ph) (seg_flags ph) VMA_TYPE_FILE img (p_offset ph)
        (p_vaddr ph - seg_start ph) (p_filesz ph) = (vs1, r)" by (metis surj_pair)
    have c: "check_segment ph sz = 0" "r = 0" "lazy_loop m img sz is vs1 (fp + (seg_stop ph - seg_start ph)) = (vs, Inr fp')"
      using Cons.prems(1) False a by (auto simp: ph_def Let_def seg_memsz_0 split: if_splits)
    have v: "length vset < VMA_MAX" "vs1 = vset @ [seg_region img ph]"
      using vma_add_live [OF Cons.prems(2) a c(2)] by (simp_all add: seg_region_def)
    have l: "live (seg_region img ph)" "v_end (seg_region img ph) = seg_stop ph" "v_start (seg_region img ph) = seg_start ph"
      by (simp_all add: seg_region_def)
    have "loadable m img (i # is) = i # loadable m img is" using False by (simp add: loadable_def ph_def)
    with Cons.IH [OF c(3)] Cons.prems(2) v l c(1) show ?thesis by (auto simp: vma_total_Cons ph_def)
  qed
qed (simp_all add: loadable_def vma_total_bytes_def)

lemma lazy_load_regions:
  fixes m img
  defines "is \<equiv> loadable m img [0 ..< unat (e_phnum (ehdr_at m img))]"
  assumes "elf_load_image_lazy m img sz [] = (vs, Inr (entry, fp))"
  shows "vs = map (\<lambda>i. seg_region img (seg m img i)) is" "length vs \<le> VMA_MAX" "fp = vma_total_bytes vs"
    "i \<in> set is \<Longrightarrow> check_segment (seg m img i) sz = 0" "check_ehdr m img sz = 0" "entry = e_entry (ehdr_at m img)"
proof -
  have l: "lazy_loop m img sz [0 ..< unat (e_phnum (ehdr_at m img))] [] 0 = (vs, Inr fp)" "check_ehdr m img sz = 0"
    "entry = e_entry (ehdr_at m img)"
    using assms(2) by (auto simp: elf_load_image_lazy_def Let_def split: if_splits sum.splits prod.splits)
  show "check_ehdr m img sz = 0" "entry = e_entry (ehdr_at m img)" by (fact l)+
  from lazy_loop_regions [OF l(1)]
  show "vs = map (\<lambda>i. seg_region img (seg m img i)) is" "length vs \<le> VMA_MAX" "fp = vma_total_bytes vs"
    "i \<in> set is \<Longrightarrow> check_segment (seg m img i) sz = 0"
    by (auto simp: is_def)
qed

lemma page_floor:
  shows "page_aligned (a AND NOT 0xFFF)" "a AND NOT 0xFFF \<le> (a :: u64)"
    "page_aligned b \<Longrightarrow> b \<le> a \<Longrightarrow> b \<le> a AND NOT 0xFFF"
    "unat (a - (a AND NOT 0xFFF)) < 4096"
proof -
  show al: "page_aligned (a AND NOT 0xFFF)" unfolding page_aligned_iff page_of by simp
  show le: "a AND NOT 0xFFF \<le> a" by (rule word_and_le2)
  have "unat (a - (a AND NOT 0xFFF)) = unat a mod 4096" unfolding unat_sub [OF le] page_of by (simp add: minus_div_mult_eq_mod)
  then show "unat (a - (a AND NOT 0xFFF)) < 4096" by simp
  assume "page_aligned b" "b \<le> a"
  then obtain q where q: "unat b = 4096 * q" by (auto simp: page_aligned_iff mod_eq_0_iff_dvd dvd_def)
  then have "q \<le> unat a div 4096" using \<open>b \<le> a\<close> by (simp add: word_le_nat_alt less_eq_div_iff_mult_less_eq mult.commute)
  then show "b \<le> a AND NOT 0xFFF" unfolding word_le_nat_alt page_of q by simp
qed

lemma seg_region_shape:
  assumes "check_segment ph sz = 0"
  shows "page_aligned (seg_start ph)" "page_aligned (seg_stop ph)"
    "USER_CODE_BASE \<le> seg_start ph" "seg_start ph < USER_STACK_TOP - 0x100000"
    "has (seg_flags ph) VMM_FLAG_RW \<longleftrightarrow> has (seg_flags ph) VMM_FLAG_NOEXEC" "has (seg_flags ph) VMM_FLAG_USER"
    "\<not> has (seg_flags ph) VMM_FLAG_NOEXEC \<Longrightarrow> seg_start ph < USER_DATA_BASE"
proof -
  show "page_aligned (seg_start ph)" "page_aligned (seg_stop ph)" unfolding seg_start_def seg_stop_def by (rule page_floor)+
  have v: "USER_CODE_BASE \<le> p_vaddr ph" "p_vaddr ph < USER_STACK_TOP - 0x100000"
    "p_flags ph AND PF_X \<noteq> 0 \<Longrightarrow> p_vaddr ph < USER_DATA_BASE"
  proof -
    have u: "USER_CODE_BASE \<le> USER_DATA_BASE" "USER_DATA_BASE \<le> USER_STACK_TOP - 0x100000"
      by (simp_all add: USER_CODE_BASE_def USER_DATA_BASE_def USER_STACK_TOP_def)
    have "if p_flags ph AND PF_X \<noteq> 0 then USER_CODE_BASE \<le> p_vaddr ph \<and> p_vaddr ph < USER_DATA_BASE
        else USER_DATA_BASE \<le> p_vaddr ph \<and> p_vaddr ph < USER_STACK_TOP - 0x100000"
      using assms by (auto simp: check_segment_def elf_consts split: if_splits)
    then show "USER_CODE_BASE \<le> p_vaddr ph" "p_vaddr ph < USER_STACK_TOP - 0x100000"
      "p_flags ph AND PF_X \<noteq> 0 \<Longrightarrow> p_vaddr ph < USER_DATA_BASE"
      using order_trans [OF u(1), of "p_vaddr ph"] less_le_trans [OF _ u(2), of "p_vaddr ph"] by (auto split: if_splits)
  qed
  have "page_aligned USER_CODE_BASE" by (simp add: page_aligned_def USER_CODE_BASE_def)
  from page_floor(3) [OF this v(1)] show "USER_CODE_BASE \<le> seg_start ph" unfolding seg_start_def .
  from le_less_trans [OF page_floor(2) v(2)] show "seg_start ph < USER_STACK_TOP - 0x100000" unfolding seg_start_def .
  show "has (seg_flags ph) VMM_FLAG_RW \<longleftrightarrow> has (seg_flags ph) VMM_FLAG_NOEXEC" "has (seg_flags ph) VMM_FLAG_USER"
    by (simp_all add: seg_flags_def has_def flag_defs)
  assume "\<not> has (seg_flags ph) VMM_FLAG_NOEXEC"
  then have "p_flags ph AND PF_X \<noteq> 0" by (auto simp: seg_flags_def has_def flag_defs split: if_splits)
  from le_less_trans [OF page_floor(2) v(3) [OF this]] show "seg_start ph < USER_DATA_BASE" unfolding seg_start_def .
qed

text \<open>What a linker emits: segments that end below the canonical hole and occupy disjoint pages.\<close>

definition well_linked :: "kmem \<Rightarrow> u64 \<Rightarrow> nat list \<Rightarrow> bool" where
  "well_linked m img is \<longleftrightarrow>
     (\<forall>i \<in> set is. unat (p_vaddr (seg m img i)) + unat (seg_memsz (seg m img i)) + 0xFFF < 2 ^ 47)
   \<and> (\<forall>i \<in> set is. \<forall>j \<in> set is. i \<noteq> j \<longrightarrow>
        seg_stop (seg m img i) \<le> seg_start (seg m img j) \<or> seg_stop (seg m img j) \<le> seg_start (seg m img i))"

lemma seg_region_wf:
  assumes "seg_memsz ph \<noteq> 0" "unat (p_vaddr ph) + unat (seg_memsz ph) + 0xFFF < 2 ^ 47"
  shows "vma_wf (seg_region img ph)"
proof -
  define v where "v = unat (p_vaddr ph)"
  define n where "n = unat (seg_memsz ph)"
  have n: "0 < n" "v + n + 4095 < 2 ^ 47" using assms by (simp_all add: n_def v_def unat_gt_0)
  have "unat (p_vaddr ph + seg_memsz ph + 0xFFF) = v + n + 4095"
    using n(2) by (simp add: unat_word_ariths v_def n_def)
  then have stop: "unat (seg_stop ph) = (v + n + 4095) div 4096 * 4096" unfolding seg_stop_def page_of by simp
  have start: "unat (seg_start ph) = v div 4096 * 4096" unfolding seg_start_def page_of v_def by simp
  have "v div 4096 < (v + n + 4095) div 4096" using n(1) by (simp add: less_eq_Suc_le div_le_mono flip: div_add_self2)
  then have lt: "seg_start ph < seg_stop ph" unfolding word_less_nat_alt start stop by simp
  have le: "unat (seg_stop ph) \<le> 2 ^ 47" unfolding stop using n(2) div_times_less_eq_dividend [of "v + n + 4095" 4096] by linarith
  have "unat (p_filesz ph) \<le> n" by (auto simp: n_def seg_memsz_def word_less_nat_alt)
  moreover have "unat (p_vaddr ph - seg_start ph) < 4096" unfolding seg_start_def by (rule page_floor(4))
  ultimately have "unat (p_vaddr ph - seg_start ph) + unat (p_filesz ph) < 2 ^ 64" using n(2) by simp
  with lt le show ?thesis
    using page_floor(1) [of "p_vaddr ph"] page_floor(1) [of "p_vaddr ph + seg_memsz ph + 0xFFF"]
    unfolding vma_wf_def seg_region_def by (simp only: seg_start_def seg_stop_def vma.simps simp_thms)
qed

lemma well_linked_ok:
  assumes "well_linked m img is" "\<forall>i \<in> set is. seg_memsz (seg m img i) \<noteq> 0" "distinct is" "length is \<le> VMA_MAX"
  shows "vma_ok (map (\<lambda>i. seg_region img (seg m img i)) is)"
proof (rule vma_okI)
  let ?vs = "map (\<lambda>i. seg_region img (seg m img i)) is"
  show "vma_wf (?vs ! k)" if "k < length ?vs" for k
    using that assms(1,2) by (auto simp: well_linked_def intro!: seg_region_wf)
  show "apart (?vs ! k) (?vs ! l)" if "k < length ?vs" "l < length ?vs" "k \<noteq> l" for k l
  proof -
    have "is ! k \<noteq> is ! l" using that assms(3) by (simp add: nth_eq_iff_index_eq)
    with that assms(1) have "seg_stop (seg m img (is ! k)) \<le> seg_start (seg m img (is ! l))
        \<or> seg_stop (seg m img (is ! l)) \<le> seg_start (seg m img (is ! k))" unfolding well_linked_def by simp
    with that show ?thesis by (simp add: apart_def seg_region_def)
  qed
qed (use assms(4) in simp)

subsection \<open>Where the bytes of a page come from\<close>

text \<open>No program header gives a file range that wraps, and the image ends below the top of the address space.\<close>

definition headers_fit :: "kmem \<Rightarrow> u64 \<Rightarrow> u64 \<Rightarrow> bool" where
  "headers_fit m img sz \<longleftrightarrow> 0x1000 \<le> img \<and> unat img + unat sz + 2 ^ 34 \<le> 2 ^ 64
     \<and> (\<forall>i < unat (e_phnum (ehdr_at m img)). unat (p_offset (seg m img i)) + unat (p_filesz (seg m img i)) < 2 ^ 64)"

lemma image_page_local:
  assumes fit: "unat (file_off v) + unat (file_len v) \<le> unat sz" "unat (file_pad v) + unat (file_len v) < 2 ^ 64"
    and eq: "\<And>k. k < unat sz \<Longrightarrow> m' (file_base v + of_nat k) = m (file_base v + of_nat k)"
  shows "image_page m' v pg = image_page m v pg"
proof -
  define poff where "poff = pg - v_start v"
  define s where "s = (if poff > file_pad v then poff else file_pad v)"
  define e where "e = (if poff + 0x1000 < file_pad v + file_len v then poff + 0x1000 else file_pad v + file_len v)"
  have "m' (file_base v + (file_off v + (s - file_pad v)) + of_nat k) = m (file_base v + (file_off v + (s - file_pad v)) + of_nat k)"
    if "s < e" "k < unat (e - s)" for k
  proof -
    have pl: "unat (file_pad v + file_len v) = unat (file_pad v) + unat (file_len v)" using fit(2) by (rule unat_add64)
    have "file_pad v \<le> s" "e \<le> file_pad v + file_len v" by (auto simp: s_def e_def)
    then have "unat s + k < unat (file_pad v) + unat (file_len v)" "unat (s - file_pad v) = unat s - unat (file_pad v)"
      "unat (file_pad v) \<le> unat s"
      using that pl by (simp_all add: unat_sub word_le_nat_alt word_less_nat_alt)
    then have b: "unat (file_off v) + unat (s - file_pad v) + k < unat sz" using fit(1) by linarith
    have "file_base v + (file_off v + (s - file_pad v)) + of_nat k
        = file_base v + of_nat (unat (file_off v) + unat (s - file_pad v) + k)" by (simp add: add.assoc)
    then show ?thesis using eq [OF b] by (simp only:)
  qed
  then have eq: "s < e \<Longrightarrow> map (\<lambda>k. m' (file_base v + (file_off v + (s - file_pad v)) + of_nat k)) [0 ..< unat (e - s)]
      = map (\<lambda>k. m (file_base v + (file_off v + (s - file_pad v)) + of_nat k)) [0 ..< unat (e - s)]" by simp
  show ?thesis unfolding image_page_def Let_def poff_def [symmetric] s_def [symmetric] e_def [symmetric]
    by (cases "s < e") (simp_all only: eq if_True if_False)
qed

lemma region_page_local:
  assumes load: "elf_load_image_lazy m img sz [] = (vs, Inr r)" and fit: "headers_fit m img sz" and v: "v \<in> set vs"
    and eq: "\<And>k. k < unat sz \<Longrightarrow> m' (img + of_nat k) = m (img + of_nat k)"
  shows "fault_page m' cache v pg = fault_page m cache v pg"
proof -
  obtain entry fp where r: "r = (entry, fp)" by (metis surj_pair)
  note L = lazy_load_regions [OF load [unfolded r]]
  obtain i where i: "i \<in> set (loadable m img [0 ..< unat (e_phnum (ehdr_at m img))])" "v = seg_region img (seg m img i)"
    using v unfolding L(1) by auto
  let ?ph = "seg m img i"
  have vf: "file_base v = img" "file_off v = p_offset ?ph" "file_len v = p_filesz ?ph" "file_pad v = p_vaddr ?ph - seg_start ?ph"
    "v_type v = VMA_TYPE_FILE" "file_inode v = None" by (simp_all add: i(2) seg_region_def)
  have "i < unat (e_phnum (ehdr_at m img))" using i(1) by (auto simp: loadable_def)
  then have nw: "unat (p_offset ?ph) + unat (p_filesz ?ph) < 2 ^ 64" "0x1000 \<le> img" "unat img + unat sz \<le> 2 ^ 64"
    using fit by (auto simp: headers_fit_def)
  have "p_offset ?ph + p_filesz ?ph \<le> sz" using L(4) [OF i(1)] by (auto simp: check_segment_def elf_consts not_less split: if_splits)
  then have a: "unat (file_off v) + unat (file_len v) \<le> unat sz" using nw(1) by (simp add: vf word_le_nat_alt unat_add64)
  have "unat (file_pad v) < 4096" unfolding vf seg_start_def by (rule page_floor(4))
  moreover have "4096 \<le> unat img" using nw(2) by (simp add: word_le_nat_alt)
  ultimately have b: "unat (file_pad v) + unat (file_len v) < 2 ^ 64" using a nw(3) by linarith
  have "image_page m' v pg = image_page m v pg" by (rule image_page_local [OF a b]) (simp add: vf eq)
  then show ?thesis by (simp add: fault_page_def vf)
qed

subsection \<open>Concrete images\<close>

definition ehdr_bytes :: "u8 \<Rightarrow> u8 list" where
  "ehdr_bytes phnum = [0x7F, 0x45, 0x4C, 0x46] @ replicate 20 0 @ le64 USER_CODE_BASE @ le64 64 @ replicate 14 0 @ [56, 0, phnum, 0] @ replicate 6 0"

definition phdr_bytes :: "u8 \<Rightarrow> u8 \<Rightarrow> u64 \<Rightarrow> u64 \<Rightarrow> u64 \<Rightarrow> u64 \<Rightarrow> u8 list" where
  "phdr_bytes ty fl off va filesz memsz = [ty, 0, 0, 0, fl, 0, 0, 0] @ le64 off @ le64 va @ le64 va @ le64 filesz @ le64 memsz @ le64 0x1000"

definition with_bytes :: "u64 \<Rightarrow> u8 list \<Rightarrow> kmem \<Rightarrow> kmem" where
  "with_bytes img bs m a = (if unat (a - img) < length bs then bs ! unat (a - img) else m a)"

text \<open>Reading back what was stored.\<close>

lemma with_bytes_map:
  assumes "k + n \<le> length bs" "length bs < 2 ^ 64"
  shows "map (\<lambda>i. with_bytes img bs m (img + of_nat k + of_nat i)) [0 ..< n] = take n (drop k bs)"
proof (rule nth_equalityI)
  fix i assume "i < length (map (\<lambda>i. with_bytes img bs m (img + of_nat k + of_nat i)) [0 ..< n])"
  then have i: "i < n" by simp
  have "img + of_nat k + of_nat i - img = (of_nat (k + i) :: u64)" by simp
  moreover have "unat (of_nat (k + i) :: u64) = k + i" using assms i by (intro unat_of_nat64) simp
  ultimately have u: "unat (img + of_nat k + of_nat i - img) = k + i" by metis
  have "with_bytes img bs m (img + of_nat k + of_nat i) = bs ! (k + i)" using assms i unfolding with_bytes_def u by simp
  then show "map (\<lambda>i. with_bytes img bs m (img + of_nat k + of_nat i)) [0 ..< n] ! i = take n (drop k bs) ! i"
    using assms i by simp
qed (use assms in simp)

lemma rd_with_bytes:
  assumes "k + n \<le> length bs" "length bs < 2 ^ 64"
  shows "rd (with_bytes img bs m) (img + of_nat k) n = of_le64 (take n (drop k bs))"
  unfolding rd_def with_bytes_map [OF assms] ..

lemma bytes_at_with_bytes:
  assumes "k + n \<le> length bs" "length bs < 2 ^ 64"
  shows "bytes_at (with_bytes img bs m) (img + of_nat k) (of_nat n) = take n (drop k bs)"
  using with_bytes_map [OF assms] assms by (simp add: bytes_at_def unat_of_nat64)

lemma rd_at:
  assumes "take (length hs) (drop k bs) = hs" "j + n \<le> length hs" "length bs < 2 ^ 64"
  shows "rd (with_bytes img bs m) (img + of_nat k + of_nat j) n = of_le64 (take n (drop j hs))"
proof -
  have "length (take (length hs) (drop k bs)) = length hs" using assms(1) by simp
  then have l: "length hs \<le> length bs - k" by simp
  show ?thesis
  proof (cases "n = 0")
    case False
    then have k: "k + j + n \<le> length bs" using l assms(2) by linarith
    have "take n (drop j hs) = take n (drop j (take (length hs) (drop k bs)))" by (simp only: assms(1))
    also have "\<dots> = take n (drop (k + j) bs)" using assms(2) by (simp add: drop_take min_def add.commute)
    finally show ?thesis using rd_with_bytes [OF k assms(3), of img m] by (simp add: add.assoc)
  qed (simp add: rd_def)
qed

declare of_le64_le64 [simp]

lemma of_le64_4 [simp]: "of_le64 [b, 0, 0, 0] = ucast b" "of_le64 [b, 0] = ucast b"
  by (simp_all add: of_le64_def)

lemma ucast_byte: "ucast (ucast (b :: u8) :: u64) = (ucast b :: u32)" "ucast (ucast (b :: u8) :: u64) = (ucast b :: u16)"
  by (rule bit_word_eqI, auto simp: bit_ucast_iff dest: bit_imp_le_length)+

lemma of_le64_zeros: "of_le64 (replicate n 0) = 0"
  by (induction n) (simp_all add: of_le64_def)

lemma phdr_read:
  assumes "take 56 (drop k bs) = phdr_bytes ty fl off va fs ms" "length bs < 2 ^ 64"
  shows "phdr_at (with_bytes img bs m) (img + of_nat k) = \<lparr>p_type = ucast ty, p_flags = ucast fl, p_offset = off, p_vaddr = va,
    p_paddr = va, p_filesz = fs, p_memsz = ms, p_align = 0x1000\<rparr>"
proof -
  let ?h = "phdr_bytes ty fl off va fs ms"
  have len: "length ?h = 56" by (simp add: phdr_bytes_def)
  note R = rd_at [of ?h k bs, unfolded len, OF assms(1) _ assms(2), of _ _ img m]
  show ?thesis
    using R [of 0 4] R [of 4 4] R [of 8 8] R [of 16 8] R [of 24 8] R [of 32 8] R [of 40 8] R [of 48 8]
    by (simp add: phdr_at_def rd32_def rd64_def phdr_bytes_def ucast_byte)
qed

lemma ehdr_read:
  assumes "take 64 bs = ehdr_bytes n" "length bs < 2 ^ 64"
  shows "e_phoff (ehdr_at (with_bytes img bs m) img) = 64" "e_phnum (ehdr_at (with_bytes img bs m) img) = ucast n"
    "e_phentsize (ehdr_at (with_bytes img bs m) img) = 56" "e_entry (ehdr_at (with_bytes img bs m) img) = USER_CODE_BASE"
    "take 4 (e_ident (ehdr_at (with_bytes img bs m) img)) = [0x7F, 0x45, 0x4C, 0x46]"
proof -
  have len: "length (ehdr_bytes n) = 64" by (simp add: ehdr_bytes_def)
  note R = rd_at [of "ehdr_bytes n" 0 bs, unfolded len, simplified, OF assms(1) _ assms(2) [simplified], of _ _ img m]
  show "e_phoff (ehdr_at (with_bytes img bs m) img) = 64" "e_phnum (ehdr_at (with_bytes img bs m) img) = ucast n"
    "e_phentsize (ehdr_at (with_bytes img bs m) img) = 56" "e_entry (ehdr_at (with_bytes img bs m) img) = USER_CODE_BASE"
    using R [of 32 8] R [of 56 2] R [of 54 2] R [of 24 8]
    by (simp_all add: ehdr_at_def rd16_def rd64_def ehdr_bytes_def ucast_byte)
  show "take 4 (e_ident (ehdr_at (with_bytes img bs m) img)) = [0x7F, 0x45, 0x4C, 0x46]"
  proof -
    have "length (take 64 bs) = 64" using assms(1) len by simp
    then have l: "64 \<le> length bs" by simp
    have b: "bs ! k = ehdr_bytes n ! k" if "k < 64" for k using assms(1) that by (metis nth_take)
    have "with_bytes img bs m (img + of_nat k) = ehdr_bytes n ! k" if "k < 4" for k
    proof -
      have "unat (img + of_nat k - img) = k" using that by (simp add: unat_of_nat64)
      then show ?thesis using l that by (simp only: with_bytes_def) (simp add: b)
    qed
    then have "map (\<lambda>k. with_bytes img bs m (img + of_nat k)) [0 ..< 4] = map (\<lambda>k. ehdr_bytes n ! k) [0 ..< 4]" by simp
    also have "\<dots> = [0x7F, 0x45, 0x4C, 0x46]" by (simp add: ehdr_bytes_def upt_conv_Cons)
    finally show ?thesis by (simp only: ehdr_at_def bytes_at_def take_map take_upt Elf64_Ehdr.simps) (simp add: take_map take_upt)
  qed
qed

text \<open>An image with a single loadable segment, and how it loads.\<close>

definition one_segment :: "u8 \<Rightarrow> u64 \<Rightarrow> u64 \<Rightarrow> u64 \<Rightarrow> u64 \<Rightarrow> u8 list" where
  "one_segment fl off va fs ms = ehdr_bytes 1 @ phdr_bytes 1 fl off va fs ms"

definition one_phdr :: "u8 \<Rightarrow> u64 \<Rightarrow> u64 \<Rightarrow> u64 \<Rightarrow> u64 \<Rightarrow> Elf64_Phdr" where
  "one_phdr fl off va fs ms = \<lparr>p_type = 1, p_flags = ucast fl, p_offset = off, p_vaddr = va, p_paddr = va, p_filesz = fs, p_memsz = ms, p_align = 0x1000\<rparr>"

lemma one_segment_read:
  fixes img m fl off va fs ms
  defines "m' \<equiv> with_bytes img (one_segment fl off va fs ms) m"
  shows "ehdr_at m' img = (ehdr_at m' img)\<lparr>e_phoff := 64, e_phnum := 1, e_phentsize := 56, e_entry := USER_CODE_BASE\<rparr>"
    "take 4 (e_ident (ehdr_at m' img)) = [0x7F, 0x45, 0x4C, 0x46]" "seg m' img 0 = one_phdr fl off va fs ms" "phdr_addr m' img 0 = img + 64"
proof -
  have l: "length (ehdr_bytes 1) = 64" "length (phdr_bytes 1 fl off va fs ms) = 56" by (simp_all add: ehdr_bytes_def phdr_bytes_def)
  note E = ehdr_read [of "one_segment fl off va fs ms" 1 img m, folded m'_def]
  have E': "e_phoff (ehdr_at m' img) = 64" "e_phnum (ehdr_at m' img) = 1" "e_phentsize (ehdr_at m' img) = 56" "e_entry (ehdr_at m' img) = USER_CODE_BASE"
    "take 4 (e_ident (ehdr_at m' img)) = [0x7F, 0x45, 0x4C, 0x46]"
    using E by (simp_all add: one_segment_def l)
  show "ehdr_at m' img = (ehdr_at m' img)\<lparr>e_phoff := 64, e_phnum := 1, e_phentsize := 56, e_entry := USER_CODE_BASE\<rparr>"
    by (rule Elf64_Ehdr.equality) (simp_all add: E')
  show "take 4 (e_ident (ehdr_at m' img)) = [0x7F, 0x45, 0x4C, 0x46]" by (fact E'(5))
  show a: "phdr_addr m' img 0 = img + 64" by (simp add: phdr_addr_def E')
  show "seg m' img 0 = one_phdr fl off va fs ms"
    unfolding a using phdr_read [of 64 "one_segment fl off va fs ms" 1 fl off va fs ms img m, folded m'_def]
    by (simp add: one_segment_def one_phdr_def l)
qed

lemma one_segment_load:
  fixes img m fl off va fs ms
  defines "m' \<equiv> with_bytes img (one_segment fl off va fs ms) m"
  assumes c: "check_segment (one_phdr fl off va fs ms) 120 = 0" and n: "ms \<noteq> 0" and i: "img \<noteq> 0"
  shows "elf_load_image_lazy m' img 120 [] = ([seg_region img (one_phdr fl off va fs ms)],
    Inr (USER_CODE_BASE, seg_stop (one_phdr fl off va fs ms) - seg_start (one_phdr fl off va fs ms)))"
proof -
  let ?ph = "one_phdr fl off va fs ms"
  note R = one_segment_read [of img fl off va fs ms m, folded m'_def]
  have e: "e_phoff (ehdr_at m' img) = 64" "e_phnum (ehdr_at m' img) = 1" "e_phentsize (ehdr_at m' img) = 56" "e_entry (ehdr_at m' img) = USER_CODE_BASE"
    by (subst R(1), simp)+
  have h: "check_ehdr m' img 120 = 0" using i by (simp add: check_ehdr_def check_magic_def R(2) e)
  have s: "seg_memsz ?ph \<noteq> 0" "p_type ?ph = PT_LOAD" "p_memsz ?ph = ms" using n by (auto simp: seg_memsz_def one_phdr_def PT_LOAD_def)
  have add: "vma_add [] (seg_start ?ph) (seg_stop ?ph) (seg_flags ?ph) VMA_TYPE_FILE img (p_offset ?ph) (p_vaddr ?ph - seg_start ?ph) (p_filesz ?ph)
      = ([seg_region img ?ph], 0)" by (simp add: vma_add_def vma_put_def seg_region_def VMA_MAX_def)
  have "lazy_loop m' img 120 [0] [] 0 = ([seg_region img ?ph], Inr (seg_stop ?ph - seg_start ?ph))"
    using n by (simp add: Let_def R(4) R(3) [unfolded R(4)] c s add add.commute [of 120])
  then show ?thesis by (simp add: elf_load_image_lazy_def h e)
qed

subsection \<open>Properties of the loader\<close>

text \<open>
  C32. A loaded image has a well-formed region table: at most 64 regions, page aligned, starting
  inside the user window, never both writable and executable, code below the data base, and the
  footprint checked against the memory limit is the sum of the regions.  When the linker kept the
  segments on disjoint pages below 2^47 the table satisfies the invariant that the memory calls
  rely on.
\<close>

theorem load_regions_wf:
  fixes m img
  defines "is \<equiv> loadable m img [0 ..< unat (e_phnum (ehdr_at m img))]"
  assumes "elf_load_image_lazy m img sz [] = (vs, Inr (entry, footprint))"
  shows "length vs \<le> VMA_MAX \<and> footprint = vma_total_bytes vs
    \<and> (\<forall>v \<in> set vs. page_aligned (v_start v) \<and> page_aligned (v_end v) \<and> USER_CODE_BASE \<le> v_start v
          \<and> v_start v < USER_STACK_TOP - 0x100000 \<and> has (v_flags v) VMM_FLAG_USER \<and> \<not> wx_request (v_flags v)
          \<and> (has (v_flags v) VMM_FLAG_NOEXEC \<or> v_start v < USER_DATA_BASE))
    \<and> (well_linked m img is \<longrightarrow> vma_ok vs)"
proof (intro conjI ballI impI)
  note L = lazy_load_regions [OF assms(2), folded is_def]
  show "length vs \<le> VMA_MAX" "footprint = vma_total_bytes vs" by (fact L)+
  have shape: "\<exists>ph. check_segment ph sz = 0 \<and> v = seg_region img ph" if "v \<in> set vs" for v
    using that L(4) unfolding L(1) by auto
  fix v assume "v \<in> set vs"
  from shape [OF this] obtain ph where ph: "check_segment ph sz = 0" "v_start v = seg_start ph" "v_end v = seg_stop ph" "v_flags v = seg_flags ph"
    by (auto simp: seg_region_def)
  note S = seg_region_shape [OF ph(1), folded ph(2-4)]
  show "page_aligned (v_start v)" "page_aligned (v_end v)" "USER_CODE_BASE \<le> v_start v" "v_start v < USER_STACK_TOP - 0x100000"
    "has (v_flags v) VMM_FLAG_USER" by (fact S)+
  show "\<not> wx_request (v_flags v)" using S(5) by (auto simp: wx_request_def has_def)
  show "has (v_flags v) VMM_FLAG_NOEXEC \<or> v_start v < USER_DATA_BASE" using S(7) by blast
next
  note L = lazy_load_regions [OF assms(2), folded is_def]
  assume "well_linked m img is"
  then have "vma_ok (map (\<lambda>i. seg_region img (seg m img i)) is)"
    using L(1,2) by (intro well_linked_ok) (simp_all add: is_def loadable_def)
  then show "vma_ok vs" unfolding L(1) .
qed

text \<open>A program of one code segment that maps the whole file, stored at a kernel address.\<close>

definition plain_mem :: kmem where
  "plain_mem = with_bytes 0xFFFF888000010000 (one_segment 5 0 USER_CODE_BASE 120 120) (\<lambda>_. 0xAA)"

abbreviation plain_img :: u64 where "plain_img \<equiv> 0xFFFF888000010000"

definition plain_phdr :: Elf64_Phdr where
  "plain_phdr = one_phdr 5 0 USER_CODE_BASE 120 120"

lemma plain_load: "elf_load_image_lazy plain_mem plain_img 120 [] = ([seg_region plain_img plain_phdr], Inr (USER_CODE_BASE, 0x1000))"
proof -
  have c: "check_segment plain_phdr 120 = 0" "seg_stop plain_phdr - seg_start plain_phdr = 0x1000"
    by (simp_all add: plain_phdr_def one_phdr_def check_segment_def seg_stop_def seg_start_def seg_memsz_def elf_consts USER_CODE_BASE_def
        USER_DATA_BASE_def USER_STACK_TOP_def)
  from one_segment_load [of 5 0 USER_CODE_BASE 120 120 plain_img "\<lambda>_. 0xAA", folded plain_mem_def plain_phdr_def, OF c(1)] c(2)
  show ?thesis by simp
qed

lemma plain_headers:
  "e_phnum (ehdr_at plain_mem plain_img) = 1" "seg plain_mem plain_img 0 = plain_phdr"
  "loadable plain_mem plain_img [0 ..< unat (e_phnum (ehdr_at plain_mem plain_img))] = [0]" "headers_fit plain_mem plain_img 120"
proof -
  note R = one_segment_read [of plain_img 5 0 USER_CODE_BASE 120 120 "\<lambda>_. 0xAA", folded plain_mem_def plain_phdr_def]
  show n: "e_phnum (ehdr_at plain_mem plain_img) = 1" by (subst R(1)) simp
  show s: "seg plain_mem plain_img 0 = plain_phdr" by (rule R(3))
  show "loadable plain_mem plain_img [0 ..< unat (e_phnum (ehdr_at plain_mem plain_img))] = [0]"
    by (simp add: n loadable_def s [simplified] plain_phdr_def one_phdr_def seg_memsz_def PT_LOAD_def)
  show "headers_fit plain_mem plain_img 120" by (simp add: headers_fit_def n s [simplified] plain_phdr_def one_phdr_def)
qed

theorem load_regions_wf_witness:
  "elf_load_image_lazy plain_mem plain_img 120 [] = ([seg_region plain_img plain_phdr], Inr (USER_CODE_BASE, 0x1000))
   \<and> vma_ok [seg_region plain_img plain_phdr] \<and> \<not> wx_request (v_flags (seg_region plain_img plain_phdr))"
proof -
  have "well_linked plain_mem plain_img (loadable plain_mem plain_img [0 ..< unat (e_phnum (ehdr_at plain_mem plain_img))])"
    unfolding plain_headers(3) by (simp add: well_linked_def plain_headers(2) [simplified] plain_phdr_def one_phdr_def seg_memsz_def USER_CODE_BASE_def)
  with load_regions_wf [OF plain_load] plain_load show ?thesis by simp
qed

text \<open>
  C31. A page fault on a region of a loaded image never reads kernel memory outside the image,
  provided no program header has a file range that wraps: two kernel memories that agree on the bytes
  of the image give the same page.
\<close>

theorem fault_reads_image_only:
  assumes "elf_load_image_lazy m img sz [] = (vs, Inr r)" "headers_fit m img sz" "v \<in> set vs"
    and "\<forall>k < unat sz. m' (img + of_nat k) = m (img + of_nat k)"
  shows "fault_page m' cache v pg = fault_page m cache v pg"
  by (rule region_page_local [OF assms(1-3)]) (use assms(4) in blast)

theorem fault_reads_image_only_witness:
  "fault_page (\<lambda>a. if a - plain_img < 120 then plain_mem a else 0x55) (\<lambda>_ _. None) (seg_region plain_img plain_phdr) USER_CODE_BASE
   = fault_page plain_mem (\<lambda>_ _. None) (seg_region plain_img plain_phdr) USER_CODE_BASE"
  by (rule fault_reads_image_only [OF plain_load plain_headers(4)]) (auto simp: word_less_nat_alt unat_of_nat64)

text \<open>
  C38. The check of a segment's file range does not cover wrap-around: for every kernel address below
  the image there is an image that the loader accepts and whose first data page shows the kernel bytes
  at that address, unchanged.
\<close>

theorem wrapped_segment_leaks:
  fixes m img target
  defines "m' \<equiv> with_bytes img (one_segment 6 (target - img) USER_DATA_BASE (img - target) (img - target)) m"
  assumes "unat target + 0x1000 \<le> unat img" "unat img - unat target < 2 ^ 63"
  shows "\<exists>v footprint. elf_load_image_lazy m' img 120 [] = ([v], Inr (USER_CODE_BASE, footprint)) \<and> covers USER_DATA_BASE v
    \<and> fault_page m' cache v USER_DATA_BASE = bytes_at m target 0x1000"
proof -
  define len where "len = img - target"
  let ?ph = "one_phdr 6 (target - img) USER_DATA_BASE len len"
  have le: "target \<le> img" using assms(2) by (simp add: word_le_nat_alt)
  have len: "unat len = unat img - unat target" "0x1000 \<le> unat len" "unat len < 2 ^ 63" "len \<noteq> 0"
    using assms(2,3) le by (auto simp: len_def unat_sub)
  have i: "img \<noteq> 0" using assms(2) by auto
  have c: "check_segment ?ph 120 = 0"
    by (simp add: check_segment_def one_phdr_def len_def elf_consts USER_DATA_BASE_def USER_STACK_TOP_def)
  have load: "elf_load_image_lazy m' img 120 [] = ([seg_region img ?ph], Inr (USER_CODE_BASE, seg_stop ?ph - seg_start ?ph))"
    unfolding m'_def len_def [symmetric] by (rule one_segment_load [OF c len(4) i])
  have st: "seg_start ?ph = USER_DATA_BASE" by (simp add: seg_start_def one_phdr_def USER_DATA_BASE_def)
  have "unat (USER_DATA_BASE + len + 0xFFF) = unat USER_DATA_BASE + unat len + 0xFFF"
    using len(3) by (simp add: USER_DATA_BASE_def unat_word_ariths)
  then have "unat (seg_stop ?ph) = (unat USER_DATA_BASE + unat len + 0xFFF) div 4096 * 4096"
    unfolding seg_stop_def page_of by (simp add: one_phdr_def seg_memsz_def)
  then have "USER_DATA_BASE < seg_stop ?ph" using len(2) by (simp add: word_less_nat_alt USER_DATA_BASE_def)
  then have cov: "covers USER_DATA_BASE (seg_region img ?ph)" by (simp add: covers_def seg_region_def st)
  have b: "m' (target + of_nat k) = m (target + of_nat k)" if k: "k < 0x1000" for k
  proof -
    have "unat target + k < unat img" using assms(2) k by linarith
    moreover from this have "unat (target + of_nat k) = unat target + k"
      using k unat_add64 [of target "of_nat k"] unat64_lt [of img] by (simp add: unat_of_nat64)
    ultimately have "120 \<le> unat (target + of_nat k - img)"
      using assms(3) by (simp add: unat_sub_if_size word_size)
    then show ?thesis by (simp add: m'_def with_bytes_def one_segment_def ehdr_bytes_def phdr_bytes_def)
  qed
  have "image_page m' (seg_region img ?ph) USER_DATA_BASE
      = vma_memcpy (vma_memset 0 0x1000) 0 (map (\<lambda>k. m' (target + of_nat k)) [0 ..< 0x1000])"
  proof -
    have r: "v_start (seg_region img ?ph) = USER_DATA_BASE" "file_pad (seg_region img ?ph) = 0" "file_len (seg_region img ?ph) = len"
      "file_base (seg_region img ?ph) = img" "file_off (seg_region img ?ph) = target - img"
      by (simp_all add: seg_region_def st) (simp_all add: one_phdr_def)
    have "\<not> 0x1000 < len \<longleftrightarrow> len = 0x1000" using len(2) by (auto simp: word_less_nat_alt word_unat_eq_iff)
    then show ?thesis unfolding image_page_def r Let_def by (cases "0x1000 < len") simp_all
  qed
  also have "\<dots> = bytes_at m target 0x1000"
    using b by (simp add: vma_memcpy_def vma_memset_def bytes_at_def)
  finally show ?thesis using load cov i by (auto simp: fault_page_def seg_region_def)
qed

theorem wrapped_segment_leaks_witness:
  "\<exists>v footprint. elf_load_image_lazy (with_bytes plain_img (one_segment 6 (- 0x2000) USER_DATA_BASE 0x2000 0x2000) (\<lambda>_. 0x42)) plain_img 120 []
     = ([v], Inr (USER_CODE_BASE, footprint)) \<and> covers USER_DATA_BASE v
   \<and> fault_page (with_bytes plain_img (one_segment 6 (- 0x2000) USER_DATA_BASE 0x2000 0x2000) (\<lambda>_. 0x42)) (\<lambda>_ _. None) v USER_DATA_BASE
     = bytes_at (\<lambda>_. 0x42) (plain_img - 0x2000) 0x1000"
  using wrapped_segment_leaks [of "plain_img - 0x2000" plain_img "\<lambda>_. 0x42" "\<lambda>_ _. None"] by simp

subsection \<open>The signature check\<close>

lemma align4_lt: "unat (align4 n) < 2 ^ 32"
proof -
  have "unat (align4 n) \<le> unat ((n + 3) AND NOT 3)" by (simp add: align4_def unsigned_ucast_eq take_bit_nat_less_eq_self)
  also have "\<dots> < 2 ^ 32" using unsigned_less [of "(n + 3) AND NOT 3", where ?'a = nat] by simp
  finally show ?thesis .
qed

lemma note_step:
  assumes "nt \<le> fin" "unat fin + 2 ^ 34 \<le> 2 ^ 64"
  shows "unat (nt + 12 + align4 a) = unat nt + 12 + unat (align4 a)"
    "unat (nt + 12 + align4 a + align4 b) = unat nt + 12 + unat (align4 a) + unat (align4 b)"
    "unat (nt + 12) = unat nt + 12"
proof -
  have n: "unat nt \<le> unat fin" using assms(1) by (simp add: word_le_nat_alt)
  show c: "unat (nt + 12) = unat nt + 12" using n assms(2) unat_add64 [of nt 12] by simp
  show d: "unat (nt + 12 + align4 a) = unat nt + 12 + unat (align4 a)"
    using n assms(2) align4_lt [of a] unat_add64 [of "nt + 12" "align4 a"] by (simp add: c)
  show "unat (nt + 12 + align4 a + align4 b) = unat nt + 12 + unat (align4 a) + unat (align4 b)"
    using n assms(2) align4_lt [of a] align4_lt [of b] unat_add64 [of "nt + 12 + align4 a" "align4 b"] by (simp add: d)
qed

lemma note_scan_returns:
  assumes "nt \<le> fin" "unat fin + 2 ^ 34 \<le> 2 ^ 64"
  shows "\<exists>r. note_scan ok m nt fin = Some r \<and> (case r of None \<Rightarrow> True | Some (d, _) \<Rightarrow> nt \<le> d \<and> d \<le> fin)"
  using assms(1)
proof (induction "unat fin - unat nt" arbitrary: nt rule: less_induct)
  case less
  note S = note_step(1) [OF less.prems assms(2), of "rd32 m nt"] note_step(2) [OF less.prems assms(2), of "rd32 m nt" "rd32 m (nt + 4)"]
    note_step(3) [OF less.prems assms(2)]
  define desc nxt where "desc = nt + 12 + align4 (rd32 m nt)" and "nxt = desc + align4 (rd32 m (nt + 4))"
  have u: "unat desc = unat nt + 12 + unat (align4 (rd32 m nt))" "unat nxt = unat desc + unat (align4 (rd32 m (nt + 4)))"
    using S by (simp_all add: desc_def nxt_def)
  have scan: "note_scan ok m nt fin = (if nt + 12 \<le> fin then if nxt > fin then Some None
      else if ok m nt then Some (Some (desc, rd32 m (nt + 4))) else note_scan ok m nxt fin else Some None)"
    by (subst note_scan.simps) (simp add: Let_def desc_def nxt_def)
  show ?case
  proof (cases "nt + 12 \<le> fin \<and> nxt \<le> fin \<and> \<not> ok m nt")
    case True
    then have "unat nt + 12 \<le> unat fin" "unat nxt \<le> unat fin" using S(3) by (simp_all add: word_le_nat_alt)
    then have "unat fin - unat nxt < unat fin - unat nt" using u by linarith
    from less.hyps [OF this] True obtain r where r: "note_scan ok m nxt fin = Some r"
      "case r of None \<Rightarrow> True | Some (d, _) \<Rightarrow> nxt \<le> d \<and> d \<le> fin" by auto
    have "nt \<le> nxt" using u by (simp add: word_le_nat_alt)
    with r True scan show ?thesis by (auto split: option.splits)
  next
    case False
    moreover have "nt \<le> desc" "desc \<le> nxt" using u by (simp_all add: word_le_nat_alt)
    ultimately show ?thesis using scan by (auto simp: not_less)
  qed
qed

lemma note_loop_returns:
  assumes fit: "unat img + unat sz + 2 ^ 34 \<le> 2 ^ 64"
    and ph: "\<And>i. i \<in> set is \<Longrightarrow> unat (p_offset (seg m img i)) + unat (p_filesz (seg m img i)) < 2 ^ 64"
  shows "\<exists>r. note_loop err ok m img sz is = Some r \<and> (case r of Inr (Some (d, _)) \<Rightarrow> img \<le> d \<and> unat d \<le> unat img + unat sz | _ \<Rightarrow> True)"
  using ph
proof (induction "is")
  case (Cons i "is")
  let ?ph = "seg m img i"
  show ?case
  proof (cases "phdr_addr m img i + sizeof_Phdr > img + sz \<or> p_type ?ph \<noteq> PT_NOTE \<or> p_offset ?ph + p_filesz ?ph > sz")
    case True
    then show ?thesis using Cons by (auto simp: Let_def)
  next
    case False
    have o: "unat (p_offset ?ph + p_filesz ?ph) = unat (p_offset ?ph) + unat (p_filesz ?ph)" using Cons.prems [of i] by (intro unat_add64) simp
    then have le: "unat (p_offset ?ph) + unat (p_filesz ?ph) \<le> unat sz" using False by (simp add: word_le_nat_alt not_less)
    have a: "unat (img + p_offset ?ph) = unat img + unat (p_offset ?ph)" using le fit by (intro unat_add64) simp
    have f: "unat (img + p_offset ?ph + p_filesz ?ph) = unat img + unat (p_offset ?ph) + unat (p_filesz ?ph)"
      unfolding a [symmetric] using le fit a by (intro unat_add64) simp
    have "img + p_offset ?ph \<le> img + p_offset ?ph + p_filesz ?ph" "unat (img + p_offset ?ph + p_filesz ?ph) + 2 ^ 34 \<le> 2 ^ 64"
      using le fit a f by (simp_all add: word_le_nat_alt)
    from note_scan_returns [OF this, of ok m] obtain r where r: "note_scan ok m (img + p_offset ?ph) (img + p_offset ?ph + p_filesz ?ph) = Some r"
      "case r of None \<Rightarrow> True | Some (d, _) \<Rightarrow> img + p_offset ?ph \<le> d \<and> d \<le> img + p_offset ?ph + p_filesz ?ph" by blast
    have "img \<le> d \<and> unat d \<le> unat img + unat sz" if "r = Some (d, n)" for d n
      using r(2) that a f le by (simp add: word_le_nat_alt)
    with r(1) False Cons show ?thesis by (cases r) (auto simp: Let_def)
  qed
qed simp

lemma qsig_offset:
  assumes fit: "headers_fit m img sz"
  shows "\<exists>off. find_qsig_sig_offset m img sz = Some off \<and> (off = 0 \<or> 8 \<le> unat off \<and> unat off \<le> unat sz + 8)"
proof -
  let ?is = "[0 ..< unat (e_phnum (ehdr_at m img))]"
  have f: "unat img + unat sz + 2 ^ 34 \<le> 2 ^ 64" using fit by (simp add: headers_fit_def)
  from note_loop_returns [OF f, of ?is m 0 qsig_note] fit obtain r where r: "note_loop 0 qsig_note m img sz ?is = Some r"
    "case r of Inr (Some (d, _)) \<Rightarrow> img \<le> d \<and> unat d \<le> unat img + unat sz | _ \<Rightarrow> True"
    by (auto simp: headers_fit_def)
  have off: "8 \<le> unat (d + 8 - img) \<and> unat (d + 8 - img) \<le> unat sz + 8" if "r = Inr (Some (d, n))" for d n
  proof -
    have d: "unat img \<le> unat d" "unat d \<le> unat img + unat sz" using r(2) that by (simp_all add: word_le_nat_alt)
    have "unat (d + 8) = unat d + 8" using unat_add64 [of d 8] d(2) f by simp
    then have "unat (d + 8 - img) = unat d + 8 - unat img" using d by (simp add: unat_sub word_le_nat_alt)
    then show ?thesis using d by linarith
  qed
  show ?thesis unfolding find_qsig_sig_offset_def Let_def r(1) using off by (auto split: sum.splits option.splits)
qed

lemma bytes_at_split:
  assumes "unat off + n \<le> unat sz" "n < 2 ^ 64"
  shows "bytes_at m a off = take (unat off) (bytes_at m a sz)" "bytes_at m (a + off) (of_nat n) = take n (drop (unat off) (bytes_at m a sz))"
    "bytes_at m (a + off + of_nat n) (sz - off - of_nat n) = drop (unat off + n) (bytes_at m a sz)"
proof -
  have n: "unat (of_nat n :: u64) = n" using assms(2) by (simp add: unat_of_nat64)
  have ad: "a + off + of_nat k = a + of_nat (unat off + k)" for k by (simp add: add.assoc)
  show "bytes_at m a off = take (unat off) (bytes_at m a sz)" using assms(1) by (simp add: bytes_at_def take_map take_upt)
  show "bytes_at m (a + off) (of_nat n) = take n (drop (unat off) (bytes_at m a sz))"
    by (rule nth_equalityI) (use assms(1) in \<open>simp_all add: bytes_at_def n add.assoc\<close>)
  have "unat (sz - off - of_nat n) = unat sz - (unat off + n)"
    using assms(1) n by (simp add: unat_sub word_le_nat_alt)
  then show "bytes_at m (a + off + of_nat n) (sz - off - of_nat n) = drop (unat off + n) (bytes_at m a sz)"
    by (simp add: bytes_at_def drop_map drop_upt) (rule nth_equalityI, simp_all add: add.assoc)
qed

text \<open>
  A signature at offset \<open>off\<close> of the file \<open>bs\<close> covers it: the trusted key signs the digest of the
  whole file with just the 64 bytes of the signature replaced by zeros.
\<close>

definition sig_covers :: "sig_verify \<Rightarrow> u8 list \<Rightarrow> nat \<Rightarrow> bool" where
  "sig_covers ver bs off \<longleftrightarrow> off + 64 \<le> length bs
     \<and> ver (sha256_spec (take off bs @ replicate 64 0 @ drop (off + 64) bs)) (take 64 (drop off bs)) secos_trusted_pubkey"

lemma accepted_covers:
  assumes ok: "elf_signature_verify ver rv m base sz = Some ELF_SIG_OK"
  obtains off where "find_qsig_sig_offset m base sz = Some off" "off \<noteq> 0" "4 \<le> unat off \<Longrightarrow> rd32 m (base + off - 4) \<notin> set rv"
    "2 ^ 64 \<le> unat off + 64 \<or> sig_covers ver (bytes_at m base sz) (unat off)"
proof -
  let ?bs = "bytes_at m base sz"
  obtain off where off: "find_qsig_sig_offset m base sz = Some off" "off \<noteq> 0" "\<not> off + 64 > sz"
    "\<not> (off \<ge> 4 \<and> elf_sign_key_revoked rv (rd32 m (base + off - 4)))"
    using ok by (auto simp: elf_signature_verify_def ELF_SIG_OK_def ELF_SIG_FMT_def ELF_SIG_NOSIG_def ELF_SIG_BAD_def split: if_splits option.splits)
  have "sig_covers ver ?bs (unat off)" if lt: "unat off + 64 < 2 ^ 64"
  proof -
    have "unat (off + 64) = unat off + 64" using unat_add64 [of off 64] lt by simp
    then have le: "unat off + 64 \<le> unat sz" using off(3) by (simp add: word_le_nat_alt not_less)
    note B = bytes_at_split [OF le, of m base, simplified]
    have "ver (sha256_final (sha256_update (sha256_update (sha256_update sha256_init (take (unat off) ?bs)) (replicate 64 0))
        (drop (unat off + 64) ?bs))) (take 64 (drop (unat off) ?bs)) secos_trusted_pubkey"
      using ok off
      by (auto simp: elf_signature_verify_def B ELF_SIG_OK_def ELF_SIG_FMT_def ELF_SIG_NOSIG_def ELF_SIG_BAD_def Let_def split: if_splits)
    then show ?thesis using sha256_stream [of "[take (unat off) ?bs, replicate 64 0, drop (unat off + 64) ?bs]"] le
      by (simp add: sig_covers_def) (simp add: bytes_at_def)
  qed
  then have "2 ^ 64 \<le> unat off + 64 \<or> sig_covers ver ?bs (unat off)" using not_less by blast
  moreover have "rd32 m (base + off - 4) \<notin> set rv" if "4 \<le> unat off" using off(4) that by (simp add: elf_sign_key_revoked_def word_le_nat_alt)
  ultimately show thesis using that [OF off(1,2)] by blast
qed


text \<open>An image whose only segment is a note with a signature at offset 148.\<close>

definition signed_image :: "u8 list" where
  "signed_image = ehdr_bytes 1 @ phdr_bytes 4 0 120 0 92 92
     @ [6, 0, 0, 0, 72, 0, 0, 0, 0x47, 0x49, 0x53, 0x51, 0x53, 0x45, 0x43, 0x4F, 0x53, 0, 0, 0] @ replicate 72 0"

definition signed_mem :: kmem where
  "signed_mem = with_bytes plain_img signed_image (\<lambda>_. 0xAA)"

lemma signed_headers:
  "e_phoff (ehdr_at signed_mem plain_img) = 64" "e_phnum (ehdr_at signed_mem plain_img) = 1" "e_phentsize (ehdr_at signed_mem plain_img) = 56"
  "phdr_addr signed_mem plain_img 0 = plain_img + 64"
  "seg signed_mem plain_img 0 = \<lparr>p_type = 4, p_flags = 0, p_offset = 120, p_vaddr = 0, p_paddr = 0, p_filesz = 92, p_memsz = 92, p_align = 0x1000\<rparr>"
proof -
  have l: "length (ehdr_bytes 1) = 64" "length (phdr_bytes 4 0 120 0 92 92) = 56" by (simp_all add: ehdr_bytes_def phdr_bytes_def)
  note E = ehdr_read [of signed_image 1 plain_img "\<lambda>_. 0xAA", folded signed_mem_def]
  show e: "e_phoff (ehdr_at signed_mem plain_img) = 64" "e_phnum (ehdr_at signed_mem plain_img) = 1" "e_phentsize (ehdr_at signed_mem plain_img) = 56"
    using E by (simp_all add: signed_image_def l)
  show a: "phdr_addr signed_mem plain_img 0 = plain_img + 64" by (simp add: phdr_addr_def e)
  show "seg signed_mem plain_img 0 = \<lparr>p_type = 4, p_flags = 0, p_offset = 120, p_vaddr = 0, p_paddr = 0, p_filesz = 92, p_memsz = 92, p_align = 0x1000\<rparr>"
    unfolding a using phdr_read [of 64 signed_image 4 0 120 0 92 92 plain_img "\<lambda>_. 0xAA", folded signed_mem_def]
    by (simp add: signed_image_def l)
qed

lemma signed_fits: "headers_fit signed_mem plain_img 212"
  using signed_headers(5) by (simp add: headers_fit_def signed_headers(2))

lemma signed_offset: "find_qsig_sig_offset signed_mem plain_img 212 = Some 148"
proof -
  have l: "length (ehdr_bytes 1) = 64" "length (phdr_bytes 4 0 120 0 92 92) = 56" by (simp_all add: ehdr_bytes_def phdr_bytes_def)
  note R = rd_with_bytes [of _ _ signed_image plain_img "\<lambda>_. 0xAA", folded signed_mem_def]
  have r: "rd32 signed_mem (plain_img + 120) = 6" "rd32 signed_mem (plain_img + 124) = 72" "rd32 signed_mem (plain_img + 128) = SECOS_SIG_NOTE_TYPE"
    using R [of 120 4] R [of 124 4] R [of 128 4] by (simp_all add: rd32_def signed_image_def l of_le64_def SECOS_SIG_NOTE_TYPE_def)
  have n: "secos_name signed_mem (plain_img + 120)"
    using bytes_at_with_bytes [of 132 5 signed_image plain_img "\<lambda>_. 0xAA", folded signed_mem_def] by (simp add: secos_name_def signed_image_def l)
  have "note_scan qsig_note signed_mem (plain_img + 120) (plain_img + 212) = Some (Some (plain_img + 140, 72))"
    using r n by (subst note_scan.simps) (simp add: align4_def qsig_note_def Let_def)
  then show ?thesis
    by (simp add: find_qsig_sig_offset_def signed_headers(1-3) signed_headers(4) [simplified] signed_headers(5) [unfolded signed_headers(4), simplified] PT_NOTE_def Let_def)
qed


end
