(* ===== verification/Driver.thy ===== *)
theory Driver
  imports Arrays Refine
begin

text \<open>
  Driver Space (kernel/driver_if.c): the device registry, the bindings of driver processes to
  devices with the capabilities granted to each, the permission and rate checks, the shadow
  registers and the audit ring.  A process is its descriptor pointer (a number), its pid and its
  type.  The clock is a parameter of the calls that read it; whether the heap has room for a shadow
  buffer is a parameter of the calls that may create one.
\<close>

record device_desc =
  dev_id :: int
  reg_base :: u64
  reg_size :: u64
  mem_base :: u64
  mem_size :: u64
  caps_mask :: u32

record driver_binding =
  bd_proc :: "nat option"
  bd_dev :: int
  bd_caps :: u32

record driver_call =
  dc_opcode :: int
  dc_target :: u64
  dc_value :: u64
  dc_flags :: u32
  dc_device :: int

record drv_proc =
  dp_ptr :: nat
  dp_pid :: u32
  dp_type :: int

text \<open>A free rate-limit entry has the pid 0xFFFFFFFF, the \<^verbatim>\<open>-1\<close> of the code.\<close>

record rl_entry =
  rl_pid :: u32
  rl_dev :: int
  rl_op :: int
  rl_start :: u64
  rl_count :: nat

record shadow_regs =
  sh_dev :: int
  sh_buf :: "u8 list option"

record driver_audit_entry =
  da_tick :: u64
  da_pid :: int
  da_call :: driver_call
  da_result :: int

record drv =
  g_devices :: "device_desc list"
  g_bindings :: "driver_binding list"
  rl_table :: "rl_entry list"
  g_shadow :: "shadow_regs list"
  audit_buf :: "nat \<Rightarrow> driver_audit_entry"
  audit_index :: nat
  audit_full :: bool

definition DRIVER_OP_READ_REG :: int where "DRIVER_OP_READ_REG = 1"
definition DRIVER_OP_WRITE_REG :: int where "DRIVER_OP_WRITE_REG = 2"
definition DRIVER_OP_MAP_MEM :: int where "DRIVER_OP_MAP_MEM = 3"
definition DRIVER_OP_UNMAP_MEM :: int where "DRIVER_OP_UNMAP_MEM = 4"
definition DRIVER_OP_GET_INFO :: int where "DRIVER_OP_GET_INFO = 5"
definition DRV_FLAG_REQUIRE_AUDIT :: u32 where "DRV_FLAG_REQUIRE_AUDIT = 1"
definition DRV_OK :: int where "DRV_OK = 0"
definition DRV_ERR_PERM :: int where "DRV_ERR_PERM = -1"
definition DRV_ERR_RANGE :: int where "DRV_ERR_RANGE = -2"
definition DRV_ERR_OPCODE :: int where "DRV_ERR_OPCODE = -3"
definition DRV_ERR_DEVICE :: int where "DRV_ERR_DEVICE = -4"
definition DRV_ERR_ARGS :: int where "DRV_ERR_ARGS = -5"
definition DRV_ERR_RATE :: int where "DRV_ERR_RATE = -6"
definition DRV_ERR_NOTDRV :: int where "DRV_ERR_NOTDRV = -7"
definition DEV_CAP_READ_REG :: u32 where "DEV_CAP_READ_REG = push_bit 0 1"
definition DEV_CAP_WRITE_REG :: u32 where "DEV_CAP_WRITE_REG = push_bit 1 1"
definition DEV_CAP_MAP_MEM :: u32 where "DEV_CAP_MAP_MEM = push_bit 2 1"
definition DEV_CAP_UNMAP_MEM :: u32 where "DEV_CAP_UNMAP_MEM = push_bit 3 1"
definition DEV_CAP_GET_INFO :: u32 where "DEV_CAP_GET_INFO = push_bit 4 1"
definition PROC_TYPE_USER :: int where "PROC_TYPE_USER = 0"
definition PROC_TYPE_DRIVER :: int where "PROC_TYPE_DRIVER = 1"
definition MAX_DEVICES :: nat where "MAX_DEVICES = 16"
definition MAX_DRIVER_BINDINGS :: nat where "MAX_DRIVER_BINDINGS = 32"
definition RL_CAPACITY :: nat where "RL_CAPACITY = 64"
definition RL_WINDOW_TICKS :: u64 where "RL_WINDOW_TICKS = 100"
definition RL_MAX_CALLS :: nat where "RL_MAX_CALLS = 50"
definition DRIVER_AUDIT_CAPACITY :: nat where "DRIVER_AUDIT_CAPACITY = 128"

lemmas drv_ops = DRIVER_OP_READ_REG_def DRIVER_OP_WRITE_REG_def DRIVER_OP_MAP_MEM_def DRIVER_OP_UNMAP_MEM_def DRIVER_OP_GET_INFO_def
lemmas drv_errs = DRV_OK_def DRV_ERR_PERM_def DRV_ERR_RANGE_def DRV_ERR_OPCODE_def DRV_ERR_DEVICE_def DRV_ERR_ARGS_def DRV_ERR_RATE_def
  DRV_ERR_NOTDRV_def
lemmas drv_caps = DEV_CAP_READ_REG_def DEV_CAP_WRITE_REG_def DEV_CAP_MAP_MEM_def DEV_CAP_UNMAP_MEM_def DEV_CAP_GET_INFO_def

subsection \<open>The registry\<close>

abbreviation no_binding :: driver_binding where
  "no_binding \<equiv> \<lparr>bd_proc = None, bd_dev = -1, bd_caps = 0\<rparr>"

definition driver_registry_init :: "drv \<Rightarrow> drv" where
  "driver_registry_init s = s\<lparr>
     g_devices := [\<lparr>dev_id = 0, reg_base = 0xF0000000, reg_size = 0x1000, mem_base = 0xF1000000, mem_size = 0x10000,
         caps_mask = DEV_CAP_READ_REG OR DEV_CAP_WRITE_REG OR DEV_CAP_GET_INFO OR DEV_CAP_MAP_MEM OR DEV_CAP_UNMAP_MEM\<rparr>,
       \<lparr>dev_id = 1, reg_base = 0xE0000000, reg_size = 0x2000, mem_base = 0xE1000000, mem_size = 0x20000,
         caps_mask = DEV_CAP_READ_REG OR DEV_CAP_GET_INFO\<rparr>],
     g_bindings := replicate MAX_DRIVER_BINDINGS no_binding\<rparr>"

definition driver_get_device :: "drv \<Rightarrow> int \<Rightarrow> device_desc option" where
  "driver_get_device s device_id = find (\<lambda>d. dev_id d = device_id) (g_devices s)"

definition bound_to :: "nat \<Rightarrow> int \<Rightarrow> driver_binding \<Rightarrow> bool" where
  "bound_to p device_id b \<longleftrightarrow> bd_proc b = Some p \<and> bd_dev b = device_id"

definition driver_register_binding_caps :: "drv \<Rightarrow> nat option \<Rightarrow> int \<Rightarrow> u32 \<Rightarrow> drv \<times> int" where
  "driver_register_binding_caps s po device_id caps = (case po of None \<Rightarrow> (s, DRV_ERR_ARGS) | Some p \<Rightarrow>
     (case driver_get_device s device_id of None \<Rightarrow> (s, DRV_ERR_DEVICE) | Some dev \<Rightarrow>
       let caps = caps AND caps_mask dev in
       case find_index (bound_to p device_id) (g_bindings s) of
         Some i \<Rightarrow> (s\<lparr>g_bindings := (g_bindings s)[i := (g_bindings s ! i)\<lparr>bd_caps := caps\<rparr>]\<rparr>, DRV_OK)
       | None \<Rightarrow> (case find_index (\<lambda>b. bd_proc b = None) (g_bindings s) of
             Some i \<Rightarrow> (s\<lparr>g_bindings := (g_bindings s)[i := \<lparr>bd_proc = Some p, bd_dev = device_id, bd_caps = caps\<rparr>]\<rparr>, DRV_OK)
           | None \<Rightarrow> (s, DRV_ERR_PERM))))"

definition driver_register_binding :: "drv \<Rightarrow> nat option \<Rightarrow> int \<Rightarrow> drv \<times> int" where
  "driver_register_binding s po device_id = (case driver_get_device s device_id of
     None \<Rightarrow> (s, if po \<noteq> None then DRV_ERR_DEVICE else DRV_ERR_ARGS)
   | Some dev \<Rightarrow> driver_register_binding_caps s po device_id (caps_mask dev))"

definition driver_remove_binding :: "drv \<Rightarrow> nat option \<Rightarrow> int \<Rightarrow> drv \<times> int" where
  "driver_remove_binding s po device_id = (case po of None \<Rightarrow> (s, DRV_ERR_ARGS) | Some p \<Rightarrow>
     (case find_index (bound_to p device_id) (g_bindings s) of
        Some i \<Rightarrow> (s\<lparr>g_bindings := (g_bindings s)[i := no_binding]\<rparr>, DRV_OK)
      | None \<Rightarrow> (s, DRV_ERR_DEVICE)))"

definition driver_remove_all_bindings :: "drv \<Rightarrow> nat option \<Rightarrow> drv" where
  "driver_remove_all_bindings s po = (case po of None \<Rightarrow> s | Some p \<Rightarrow>
     s\<lparr>g_bindings := map (\<lambda>b. if bd_proc b = Some p then no_binding else b) (g_bindings s)\<rparr>)"

definition driver_is_bound :: "drv \<Rightarrow> nat option \<Rightarrow> int \<Rightarrow> bool" where
  "driver_is_bound s po device_id = (case po of None \<Rightarrow> False | Some p \<Rightarrow> list_ex (bound_to p device_id) (g_bindings s))"

definition driver_binding_caps :: "drv \<Rightarrow> nat option \<Rightarrow> int \<Rightarrow> u32" where
  "driver_binding_caps s po device_id = (case po of None \<Rightarrow> 0 | Some p \<Rightarrow>
     (case find (bound_to p device_id) (g_bindings s) of Some b \<Rightarrow> bd_caps b | None \<Rightarrow> 0))"

subsection \<open>Permissions\<close>

definition opcode_cap_bit :: "int \<Rightarrow> u32" where
  "opcode_cap_bit opcode =
    (if opcode = DRIVER_OP_READ_REG then DEV_CAP_READ_REG
     else if opcode = DRIVER_OP_WRITE_REG then DEV_CAP_WRITE_REG
     else if opcode = DRIVER_OP_MAP_MEM then DEV_CAP_MAP_MEM
     else if opcode = DRIVER_OP_UNMAP_MEM then DEV_CAP_UNMAP_MEM
     else if opcode = DRIVER_OP_GET_INFO then DEV_CAP_GET_INFO else 0)"

definition check_driver_permissions :: "drv \<Rightarrow> drv_proc option \<Rightarrow> driver_call \<Rightarrow> int" where
  "check_driver_permissions s po req = (case po of None \<Rightarrow> DRV_ERR_ARGS | Some p \<Rightarrow>
     if dp_type p \<noteq> PROC_TYPE_DRIVER then DRV_ERR_NOTDRV
     else case driver_get_device s (dc_device req) of None \<Rightarrow> DRV_ERR_DEVICE | Some dev \<Rightarrow>
       if \<not> driver_is_bound s (Some (dp_ptr p)) (dc_device req) then DRV_ERR_PERM
       else let need = opcode_cap_bit (dc_opcode req) in
         if need = 0 then DRV_ERR_OPCODE
         else if driver_binding_caps s (Some (dp_ptr p)) (dc_device req) AND need = 0 then DRV_ERR_PERM
         else if caps_mask dev AND need = 0 then DRV_ERR_PERM
         else if dc_opcode req = DRIVER_OP_READ_REG \<or> dc_opcode req = DRIVER_OP_WRITE_REG then
           (if dc_target req < reg_base dev \<or> dc_target req \<ge> reg_base dev + reg_size dev then DRV_ERR_RANGE else DRV_OK)
         else if dc_opcode req = DRIVER_OP_MAP_MEM \<or> dc_opcode req = DRIVER_OP_UNMAP_MEM then
           (if dc_target req < mem_base dev \<or> dc_target req \<ge> mem_base dev + mem_size dev then DRV_ERR_RANGE
            else if dc_target req AND 0xFFF \<noteq> 0 then DRV_ERR_ARGS else DRV_OK)
         else DRV_OK)"

subsection \<open>Rate limiting\<close>

text \<open>The tables of the rate limiter and of the registers are set up on their first use.\<close>

definition rl_init :: "drv \<Rightarrow> drv" where
  "rl_init s = s\<lparr>rl_table := replicate RL_CAPACITY \<lparr>rl_pid = 0xFFFFFFFF, rl_dev = -1, rl_op = 0, rl_start = 0, rl_count = 0\<rparr>\<rparr>"

definition rl_match :: "drv_proc \<Rightarrow> driver_call \<Rightarrow> rl_entry \<Rightarrow> bool" where
  "rl_match p req e \<longleftrightarrow> rl_pid e = dp_pid p \<and> rl_dev e = dc_device req \<and> rl_op e = dc_opcode req"

definition rl_slot :: "rl_entry list \<Rightarrow> u64 \<Rightarrow> drv_proc \<Rightarrow> driver_call \<Rightarrow> (rl_entry list \<times> nat) option" where
  "rl_slot t now p req = (case find_index (rl_match p req) t of
     Some i \<Rightarrow> Some (t, i)
   | None \<Rightarrow> (case find_index (\<lambda>e. rl_pid e = 0xFFFFFFFF) t of
       Some i \<Rightarrow> Some (t[i := \<lparr>rl_pid = dp_pid p, rl_dev = dc_device req, rl_op = dc_opcode req, rl_start = now, rl_count = 0\<rparr>], i)
     | None \<Rightarrow> None))"

definition rl_charge :: "rl_entry \<Rightarrow> u64 \<Rightarrow> rl_entry \<times> int" where
  "rl_charge e now =
    (let e = (if now - rl_start e > RL_WINDOW_TICKS then e\<lparr>rl_start := now, rl_count := 0\<rparr> else e)
     in if rl_count e \<ge> RL_MAX_CALLS then (e, DRV_ERR_RATE) else (e\<lparr>rl_count := Suc (rl_count e)\<rparr>, DRV_OK))"

definition driver_rate_check :: "drv \<Rightarrow> u64 \<Rightarrow> drv_proc option \<Rightarrow> driver_call \<Rightarrow> drv \<times> int" where
  "driver_rate_check s now po req = (case po of None \<Rightarrow> (s, DRV_ERR_ARGS) | Some p \<Rightarrow>
     (case rl_slot (rl_table s) now p req of
        None \<Rightarrow> (s, DRV_OK)
      | Some (t, i) \<Rightarrow> let (e, r) = rl_charge (t ! i) now in (s\<lparr>rl_table := t[i := e]\<rparr>, r)))"

subsection \<open>Registers and device memory\<close>

definition shadow_init :: "drv \<Rightarrow> drv" where
  "shadow_init s = s\<lparr>g_shadow := replicate MAX_DEVICES \<lparr>sh_dev = -1, sh_buf = None\<rparr>\<rparr>"

definition shadow_get :: "drv \<Rightarrow> bool \<Rightarrow> int \<Rightarrow> drv \<times> nat option" where
  "shadow_get s alloc_ok device_id = (case driver_get_device s device_id of None \<Rightarrow> (s, None) | Some d \<Rightarrow>
     (case find_index (\<lambda>e. sh_dev e = device_id) (g_shadow s) of
        Some i \<Rightarrow> (s, Some i)
      | None \<Rightarrow> (case find_index (\<lambda>e. sh_dev e = -1) (g_shadow s) of
          Some i \<Rightarrow> (s\<lparr>g_shadow := (g_shadow s)[i := \<lparr>sh_dev = device_id,
                        sh_buf = (if alloc_ok then Some (replicate (unat (reg_size d)) 0) else None)\<rparr>]\<rparr>, Some i)
        | None \<Rightarrow> (s, None))))"

definition read_hardware_register :: "drv \<Rightarrow> bool \<Rightarrow> int \<Rightarrow> u64 \<Rightarrow> drv \<times> (int + u64)" where
  "read_hardware_register s alloc_ok device_id addr = (case driver_get_device s device_id of None \<Rightarrow> (s, Inl DRV_ERR_DEVICE) | Some d \<Rightarrow>
     if addr < reg_base d \<or> addr \<ge> reg_base d + reg_size d then (s, Inl DRV_ERR_RANGE)
     else case shadow_get s alloc_ok device_id of
         (s, None) \<Rightarrow> (s, Inl DRV_ERR_PERM)
       | (s, Some i) \<Rightarrow> (case sh_buf (g_shadow s ! i) of None \<Rightarrow> (s, Inl DRV_ERR_PERM) | Some buf \<Rightarrow>
           let off = addr - reg_base d in
           if off + 8 > reg_size d then (s, Inl DRV_ERR_RANGE) else (s, Inr (of_le64 (take 8 (drop (unat off) buf))))))"

definition write_hardware_register :: "drv \<Rightarrow> bool \<Rightarrow> int \<Rightarrow> u64 \<Rightarrow> u64 \<Rightarrow> drv \<times> int" where
  "write_hardware_register s alloc_ok device_id addr v = (case driver_get_device s device_id of None \<Rightarrow> (s, DRV_ERR_DEVICE) | Some d \<Rightarrow>
     if addr < reg_base d \<or> addr \<ge> reg_base d + reg_size d then (s, DRV_ERR_RANGE)
     else case shadow_get s alloc_ok device_id of
         (s, None) \<Rightarrow> (s, DRV_ERR_PERM)
       | (s, Some i) \<Rightarrow> (case sh_buf (g_shadow s ! i) of None \<Rightarrow> (s, DRV_ERR_PERM) | Some buf \<Rightarrow>
           let off = addr - reg_base d in
           if off + 8 > reg_size d then (s, DRV_ERR_RANGE)
           else (s\<lparr>g_shadow := (g_shadow s)[i := (g_shadow s ! i)\<lparr>sh_buf := Some (take (unat off) buf @ le64 v @ drop (unat off + 8) buf)\<rparr>]\<rparr>, DRV_OK)))"

text \<open>Mapping and unmapping device memory only validate the request.\<close>

definition map_device_memory :: "drv \<Rightarrow> nat option \<Rightarrow> int \<Rightarrow> u64 \<Rightarrow> u64 \<Rightarrow> int" where
  "map_device_memory s po device_id phys_addr len0 = (if po = None then DRV_ERR_ARGS
     else case driver_get_device s device_id of None \<Rightarrow> DRV_ERR_DEVICE | Some d \<Rightarrow>
       let len = (if len0 = 0 then 0x1000 else len0) in
       if phys_addr AND 0xFFF \<noteq> 0 then DRV_ERR_ARGS
       else if phys_addr < mem_base d \<or> phys_addr + len > mem_base d + mem_size d then DRV_ERR_RANGE else DRV_OK)"

definition unmap_device_memory :: "drv \<Rightarrow> nat option \<Rightarrow> int \<Rightarrow> u64 \<Rightarrow> u64 \<Rightarrow> int" where
  "unmap_device_memory s po device_id phys_addr len = map_device_memory s po device_id phys_addr len"

subsection \<open>The audit ring and the system call\<close>

definition driver_audit_log :: "drv \<Rightarrow> u64 \<Rightarrow> driver_call \<Rightarrow> int \<Rightarrow> drv_proc option \<Rightarrow> drv" where
  "driver_audit_log s now req result po =
    (let i = (audit_index s + 1) mod DRIVER_AUDIT_CAPACITY in
     s\<lparr>audit_buf := (audit_buf s)(audit_index s := \<lparr>da_tick = now,
           da_pid = (case po of None \<Rightarrow> -1 | Some p \<Rightarrow> sint (dp_pid p)), da_call = req, da_result = result\<rparr>),
       audit_index := i, audit_full := audit_full s \<or> i = 0\<rparr>)"

definition driver_audit_dump :: "drv \<Rightarrow> int \<Rightarrow> driver_audit_entry list" where
  "driver_audit_dump s maxn =
    (if maxn \<le> 0 then []
     else let count = (if audit_full s then DRIVER_AUDIT_CAPACITY else audit_index s)
       in map (\<lambda>i. audit_buf s (if audit_index s < Suc i then audit_index s + DRIVER_AUDIT_CAPACITY - Suc i else audit_index s - Suc i))
            [0 ..< min (nat maxn) count])"

definition driver_dispatch :: "drv \<Rightarrow> bool \<Rightarrow> drv_proc option \<Rightarrow> driver_call \<Rightarrow> drv \<times> driver_call \<times> int" where
  "driver_dispatch s alloc_ok cur req =
    (if dc_opcode req = DRIVER_OP_READ_REG then
       (case read_hardware_register s alloc_ok (dc_device req) (dc_target req) of
          (s, Inl e) \<Rightarrow> (s, req, e) | (s, Inr v) \<Rightarrow> (s, req\<lparr>dc_value := v\<rparr>, DRV_OK))
     else if dc_opcode req = DRIVER_OP_WRITE_REG then
       (case write_hardware_register s alloc_ok (dc_device req) (dc_target req) (dc_value req) of (s, r) \<Rightarrow> (s, req, r))
     else if dc_opcode req = DRIVER_OP_MAP_MEM then
       (s, req, map_device_memory s (map_option dp_ptr cur) (dc_device req) (dc_target req) 0x1000)
     else if dc_opcode req = DRIVER_OP_UNMAP_MEM then
       (s, req, unmap_device_memory s (map_option dp_ptr cur) (dc_device req) (dc_target req) 0x1000)
     else if dc_opcode req = DRIVER_OP_GET_INFO then
       (case driver_get_device s (dc_device req) of None \<Rightarrow> (s, req, DRV_ERR_DEVICE)
        | Some d \<Rightarrow> (s, req\<lparr>dc_value := ucast (caps_mask d)\<rparr>, DRV_OK))
     else (s, req, DRV_ERR_OPCODE))"

definition handle_driver_call :: "drv \<Rightarrow> u64 \<Rightarrow> bool \<Rightarrow> drv_proc option \<Rightarrow> driver_call \<Rightarrow> drv \<times> driver_call \<times> int" where
  "handle_driver_call s now alloc_ok cur req =
    (let perm = check_driver_permissions s cur req in
     if perm \<noteq> DRV_OK then (driver_audit_log s now req perm cur, req, perm)
     else let (s, rl) = driver_rate_check s now cur req in
       if rl \<noteq> DRV_OK then (driver_audit_log s now req rl cur, req, rl)
       else let (s, req, result) = driver_dispatch s alloc_ok cur req in
         (if dc_flags req AND DRV_FLAG_REQUIRE_AUDIT \<noteq> 0 \<or> result \<noteq> DRV_OK then driver_audit_log s now req result cur else s, req, result))"

text \<open>The system call is a driver call of the current process.\<close>

definition driver_syscall :: "drv \<Rightarrow> u64 \<Rightarrow> bool \<Rightarrow> drv_proc option \<Rightarrow> driver_call \<Rightarrow> drv \<times> driver_call \<times> int" where
  "driver_syscall s now alloc_ok cur req = handle_driver_call s now alloc_ok cur req"

end
