(* ===== verification/Slots.thy ===== *)
theory Slots
  imports Arrays
begin

text \<open>
  Tables of slots addressed by a key, the most common data structure of the kernel: an array in which
  a slot is free or holds an object with a key, searched from the front.  As long as no key
  occurs twice the table is a finite map, and filling, replacing and clearing a slot are the updates
  of that map.
\<close>

definition slot_of :: "('a \<Rightarrow> 'k option) \<Rightarrow> 'a list \<Rightarrow> 'k \<Rightarrow> 'a option" where
  "slot_of key xs k = find (\<lambda>x. key x = Some k) xs"

definition keyed :: "('a \<Rightarrow> 'k option) \<Rightarrow> 'a list \<Rightarrow> bool" where
  "keyed key xs \<longleftrightarrow> (\<forall>i < length xs. \<forall>j < length xs. key (xs ! i) \<noteq> None \<longrightarrow> key (xs ! i) = key (xs ! j) \<longrightarrow> i = j)"

lemma keyedD: "keyed key xs \<Longrightarrow> i < length xs \<Longrightarrow> j < length xs \<Longrightarrow> key (xs ! i) = Some k \<Longrightarrow> key (xs ! j) = Some k \<Longrightarrow> i = j"
  unfolding keyed_def by auto

lemma slot_of_None: "slot_of key xs k = None \<longleftrightarrow> (\<forall>i < length xs. key (xs ! i) \<noteq> Some k)"
  unfolding slot_of_def find_None_iff by (metis in_set_conv_nth)

lemma slot_of_SomeD: "slot_of key xs k = Some x \<Longrightarrow> \<exists>i < length xs. xs ! i = x \<and> key x = Some k"
  unfolding slot_of_def find_Some_iff by auto

lemma slot_of_Some:
  assumes "keyed key xs"
  shows "slot_of key xs k = Some x \<longleftrightarrow> (\<exists>i < length xs. xs ! i = x \<and> key x = Some k)"
proof (rule iffI [OF slot_of_SomeD])
  assume "\<exists>i < length xs. xs ! i = x \<and> key x = Some k"
  then obtain i where i: "i < length xs" "xs ! i = x" "key x = Some k" by blast
  then obtain y where y: "slot_of key xs k = Some y" using slot_of_None [of key xs k] by (cases "slot_of key xs k") auto
  from slot_of_SomeD [OF this] obtain j where j: "j < length xs" "xs ! j = y" "key y = Some k" by blast
  have "i = j" by (rule keyedD [OF assms i(1) j(1)]) (simp_all add: i j)
  with i j y show "slot_of key xs k = Some x" by simp
qed assumption

lemma slot_of_nth: "keyed key xs \<Longrightarrow> i < length xs \<Longrightarrow> key (xs ! i) = Some k \<Longrightarrow> slot_of key xs k = Some (xs ! i)"
  using slot_of_Some [of key xs k "xs ! i"] by auto

lemma find_index_slot:
  "find_index (\<lambda>x. key x = Some k) xs = Some i \<Longrightarrow> i < length xs \<and> key (xs ! i) = Some k"
  "find_index (\<lambda>x. key x = Some k) xs = None \<longleftrightarrow> slot_of key xs k = None"
  by (auto simp: find_index_Some find_index_None slot_of_def find_None_iff)

text \<open>A slot that is free, or already holds the key, takes a new object with that key.\<close>

lemma slot_put:
  assumes k: "keyed key xs" and i: "i < length xs" and y: "key y = Some k"
    and free: "key (xs ! i) = Some k \<or> key (xs ! i) = None \<and> slot_of key xs k = None"
  shows "keyed key (xs[i := y])" "slot_of key (xs[i := y]) = (slot_of key xs)(k \<mapsto> y)"
proof -
  have other: "key (xs ! j) \<noteq> Some k" if "j < length xs" "j \<noteq> i" for j
    using free that keyedD [OF k i that(1)] slot_of_None [of key xs k] by auto
  show k': "keyed key (xs[i := y])" unfolding keyed_def
  proof (intro allI impI)
    fix a b assume *: "a < length (xs[i := y])" "b < length (xs[i := y])" "key (xs[i := y] ! a) \<noteq> None" "key (xs[i := y] ! a) = key (xs[i := y] ! b)"
    show "a = b"
    proof (cases "a = i \<or> b = i")
      case True
      with * other [of a] other [of b] y i show ?thesis by (auto simp: nth_list_update split: if_splits)
    next
      case False
      with * k show ?thesis unfolding keyed_def by auto
    qed
  qed
  show "slot_of key (xs[i := y]) = (slot_of key xs)(k \<mapsto> y)"
  proof
    fix l
    show "slot_of key (xs[i := y]) l = ((slot_of key xs)(k \<mapsto> y)) l"
    proof (cases "l = k")
      case True
      then show ?thesis using slot_of_nth [OF k', of i k] i y by simp
    next
      case False
      have "slot_of key (xs[i := y]) l = Some x \<longleftrightarrow> slot_of key xs l = Some x" for x
        unfolding slot_of_Some [OF k'] slot_of_Some [OF k]
      proof (rule iff_exI)
        fix j
        show "(j < length (xs[i := y]) \<and> xs[i := y] ! j = x \<and> key x = Some l) = (j < length xs \<and> xs ! j = x \<and> key x = Some l)"
          using False free y i by (auto simp: nth_list_update)
      qed
      then have "slot_of key (xs[i := y]) l = slot_of key xs l" by (metis option.exhaust)
      then show ?thesis using False by simp
    qed
  qed
qed

lemma slot_clear:
  assumes k: "keyed key xs" and y: "key y = None"
  shows "keyed key (map (\<lambda>x. if P x then y else x) xs)"
    "slot_of key (map (\<lambda>x. if P x then y else x) xs) l = (case slot_of key xs l of Some x \<Rightarrow> if P x then None else Some x | None \<Rightarrow> None)"
proof -
  let ?f = "\<lambda>x. if P x then y else x"
  show k': "keyed key (map ?f xs)" unfolding keyed_def
  proof (intro allI impI)
    fix i j assume *: "i < length (map ?f xs)" "j < length (map ?f xs)" "key (map ?f xs ! i) \<noteq> None" "key (map ?f xs ! i) = key (map ?f xs ! j)"
    then have "\<not> P (xs ! i)" "\<not> P (xs ! j)" using y by (auto split: if_splits)
    with * show "i = j" using k unfolding keyed_def by simp
  qed
  have "slot_of key (map ?f xs) l = Some z \<longleftrightarrow> slot_of key xs l = Some z \<and> \<not> P z" for z
  proof -
    have "(i < length xs \<and> map ?f xs ! i = z \<and> key z = Some l) \<longleftrightarrow> (i < length xs \<and> xs ! i = z \<and> key z = Some l) \<and> \<not> P z" for i
      using y by (cases "P (xs ! i)") auto
    then show ?thesis unfolding slot_of_Some [OF k'] slot_of_Some [OF k] length_map by blast
  qed
  then have A: "slot_of key (map ?f xs) l = Some z \<longleftrightarrow> slot_of key xs l = Some z \<and> \<not> P z" for z by blast
  show "slot_of key (map ?f xs) l = (case slot_of key xs l of Some x \<Rightarrow> if P x then None else Some x | None \<Rightarrow> None)"
  proof (cases "slot_of key (map ?f xs) l")
    case None
    have "P z" if "slot_of key xs l = Some z" for z using A [of z] None that by simp
    with None show ?thesis by (cases "slot_of key xs l") simp_all
  next
    case (Some z)
    with A [of z] show ?thesis by simp
  qed
qed

lemma slot_clear_one:
  assumes k: "keyed key xs" and i: "i < length xs" "key (xs ! i) = Some l" and y: "key y = None"
  shows "keyed key (xs[i := y])" "slot_of key (xs[i := y]) = (slot_of key xs)(l := None)"
proof -
  have e: "xs[i := y] = map (\<lambda>x. if key x = Some l then y else x) xs"
  proof (rule nth_equalityI)
    fix j assume "j < length (xs[i := y])"
    then have j: "j < length xs" by simp
    have "key (xs ! j) = Some l \<longleftrightarrow> j = i" using keyedD [OF k i(1) j i(2)] i(2) by auto
    then show "xs[i := y] ! j = map (\<lambda>x. if key x = Some l then y else x) xs ! j" using j by (simp add: nth_list_update)
  qed simp
  show "keyed key (xs[i := y])" unfolding e by (rule slot_clear(1) [OF k y])
  show "slot_of key (xs[i := y]) = (slot_of key xs)(l := None)"
  proof
    fix j
    have "key x = Some j" if "slot_of key xs j = Some x" for x using slot_of_SomeD [OF that] by blast
    then show "slot_of key (xs[i := y]) j = ((slot_of key xs)(l := None)) j"
      unfolding e slot_clear(2) [OF k y] by (cases "slot_of key xs j") auto
  qed
qed

end
