(* ===== verification/Driver_Safe.thy ===== *)
theory Driver_Safe
  imports Driver Slots
begin

text \<open>
  Driver Space against its contract: the bindings behave as a map from a process and a device to the
  capabilities granted to it, the registers of a device as an array of bytes, and a call takes effect
  only under a grant, inside the window of its device, and below the rate limit.
\<close>

subsection \<open>The abstract state\<close>

definition bd_key :: "driver_binding \<Rightarrow> (nat \<times> int) option" where
  "bd_key b = map_option (\<lambda>p. (p, bd_dev b)) (bd_proc b)"

definition sh_key :: "shadow_regs \<Rightarrow> int option" where
  "sh_key e = (if sh_dev e = -1 then None else Some (sh_dev e))"

type_synonym grant_map = "nat \<times> int \<Rightarrow> u32 option"
type_synonym reg_file = "int \<Rightarrow> u8 list"

definition device_of :: "device_desc list \<Rightarrow> int \<Rightarrow> device_desc option" where
  "device_of devs d = find (\<lambda>v. dev_id v = d) devs"

definition grants :: "drv \<Rightarrow> grant_map" where
  "grants s k = map_option bd_caps (slot_of bd_key (g_bindings s) k)"

definition zeros :: "device_desc list \<Rightarrow> int \<Rightarrow> u8 list" where
  "zeros devs d = (case device_of devs d of Some v \<Rightarrow> replicate (unat (reg_size v)) 0 | None \<Rightarrow> [])"

definition regs :: "drv \<Rightarrow> reg_file" where
  "regs s d = (case slot_of sh_key (g_shadow s) d of
     Some e \<Rightarrow> (case sh_buf e of Some b \<Rightarrow> b | None \<Rightarrow> zeros (g_devices s) d)
   | None \<Rightarrow> zeros (g_devices s) d)"

definition devices_ok :: "device_desc list \<Rightarrow> bool" where
  "devices_ok devs \<longleftrightarrow> (\<forall>v \<in> set devs. dev_id v \<noteq> -1 \<and> unat (reg_base v) + unat (reg_size v) < 2 ^ 63 \<and> unat (mem_base v) + unat (mem_size v) < 2 ^ 63)"

definition drv_ok :: "device_desc list \<Rightarrow> drv \<Rightarrow> bool" where
  "drv_ok devs s \<longleftrightarrow> g_devices s = devs \<and> devices_ok devs \<and> keyed bd_key (g_bindings s) \<and> keyed sh_key (g_shadow s)
     \<and> (\<forall>p d c. grants s (p, d) = Some c \<longrightarrow> (\<exists>v. device_of devs d = Some v \<and> c AND NOT (caps_mask v) = 0))
     \<and> (\<forall>d. length (regs s d) = length (zeros devs d))"

lemma bound_key: "bound_to p d b \<longleftrightarrow> bd_key b = Some (p, d)"
  by (cases "bd_proc b") (auto simp: bound_to_def bd_key_def)

lemma bound_key_fun: "bound_to p d = (\<lambda>b. bd_key b = Some (p, d))"
  by (rule ext) (rule bound_key)

lemma get_device: "driver_get_device s d = device_of (g_devices s) d"
  by (simp add: driver_get_device_def device_of_def)

lemma no_binding_key [simp]: "bd_key no_binding = None"
  by (simp add: bd_key_def)

lemma bound_grants:
  "driver_is_bound s (Some p) d \<longleftrightarrow> grants s (p, d) \<noteq> None"
  "driver_binding_caps s (Some p) d = (case grants s (p, d) of Some c \<Rightarrow> c | None \<Rightarrow> 0)"
proof -
  have "list_ex P xs \<longleftrightarrow> find P xs \<noteq> None" for P and xs :: "driver_binding list" by (induction xs) auto
  then show "driver_is_bound s (Some p) d \<longleftrightarrow> grants s (p, d) \<noteq> None"
    by (simp add: driver_is_bound_def grants_def slot_of_def bound_key_fun)
  show "driver_binding_caps s (Some p) d = (case grants s (p, d) of Some c \<Rightarrow> c | None \<Rightarrow> 0)"
    by (simp add: driver_binding_caps_def grants_def slot_of_def bound_key_fun split: option.splits)
qed

subsection \<open>The specification\<close>

datatype drv_event = Bind nat int u32 | Bind_all nat int | Unbind nat int | Exit nat | Call drv_proc driver_call u64 bool

fun drv_do :: "drv_event \<Rightarrow> drv \<Rightarrow> drv \<times> int" where
  "drv_do (Bind p d c) s = driver_register_binding_caps s (Some p) d c"
| "drv_do (Bind_all p d) s = driver_register_binding s (Some p) d"
| "drv_do (Unbind p d) s = driver_remove_binding s (Some p) d"
| "drv_do (Exit p) s = (driver_remove_all_bindings s (Some p), 0)"
| "drv_do (Call p req now alloc_ok) s = (case handle_driver_call s now alloc_ok (Some p) req of (s, _, r) \<Rightarrow> (s, r))"

definition in_window :: "driver_call \<Rightarrow> device_desc \<Rightarrow> bool" where
  "in_window req v \<longleftrightarrow>
    (if dc_opcode req = DRIVER_OP_READ_REG \<or> dc_opcode req = DRIVER_OP_WRITE_REG
     then unat (reg_base v) \<le> unat (dc_target req) \<and> unat (dc_target req) + 8 \<le> unat (reg_base v) + unat (reg_size v)
     else if dc_opcode req = DRIVER_OP_MAP_MEM \<or> dc_opcode req = DRIVER_OP_UNMAP_MEM
     then unat (mem_base v) \<le> unat (dc_target req) \<and> unat (dc_target req) + 0x1000 \<le> unat (mem_base v) + unat (mem_size v)
       \<and> unat (dc_target req) mod 0x1000 = 0
     else dc_opcode req = DRIVER_OP_GET_INFO)"

definition call_allowed :: "device_desc list \<Rightarrow> grant_map \<Rightarrow> drv_proc \<Rightarrow> driver_call \<Rightarrow> bool" where
  "call_allowed devs g p req \<longleftrightarrow> dp_type p = PROC_TYPE_DRIVER \<and> (case (device_of devs (dc_device req), g (dp_ptr p, dc_device req)) of
     (Some v, Some c) \<Rightarrow> c AND NOT (caps_mask v) = 0 \<and> c AND opcode_cap_bit (dc_opcode req) \<noteq> 0 \<and> in_window req v
   | _ \<Rightarrow> False)"

definition patch :: "u8 list \<Rightarrow> nat \<Rightarrow> u8 list \<Rightarrow> u8 list" where
  "patch xs k ys = take k xs @ ys @ drop (k + length ys) xs"

definition reg_off :: "device_desc list \<Rightarrow> driver_call \<Rightarrow> nat" where
  "reg_off devs req = unat (dc_target req) - unat (reg_base (the (device_of devs (dc_device req))))"

fun drv_spec :: "device_desc list \<Rightarrow> drv_event \<Rightarrow> grant_map \<times> reg_file \<Rightarrow> (grant_map \<times> reg_file) option" where
  "drv_spec devs (Bind p d c) (g, r) = map_option (\<lambda>v. (g((p, d) \<mapsto> c AND caps_mask v), r)) (device_of devs d)"
| "drv_spec devs (Bind_all p d) (g, r) = map_option (\<lambda>v. (g((p, d) \<mapsto> caps_mask v), r)) (device_of devs d)"
| "drv_spec devs (Unbind p d) (g, r) = (if g (p, d) = None then None else Some (g((p, d) := None), r))"
| "drv_spec devs (Exit p) (g, r) = Some (\<lambda>(q, d). if q = p then None else g (q, d), r)"
| "drv_spec devs (Call p req now alloc_ok) (g, r) =
    (if \<not> call_allowed devs g p req then None
     else if dc_opcode req = DRIVER_OP_WRITE_REG
     then Some (g, r(dc_device req := patch (r (dc_device req)) (reg_off devs req) (le64 (dc_value req))))
     else Some (g, r))"

abbreviation drv_abst :: "drv \<Rightarrow> grant_map \<times> reg_file" where
  "drv_abst s \<equiv> (grants s, regs s)"

subsection \<open>The table of bindings\<close>

lemma drv_okD:
  assumes "drv_ok devs s"
  shows "g_devices s = devs" "devices_ok devs" "keyed bd_key (g_bindings s)" "keyed sh_key (g_shadow s)"
    "grants s (p, d) = Some c \<Longrightarrow> \<exists>v. device_of devs d = Some v \<and> c AND NOT (caps_mask v) = 0"
    "length (regs s d) = length (zeros devs d)"
  using assms unfolding drv_ok_def by blast+

lemma drv_okI:
  assumes "drv_ok devs s" "g_devices s' = g_devices s" "keyed bd_key (g_bindings s')" "keyed sh_key (g_shadow s')"
    "\<And>p d c. grants s' (p, d) = Some c \<Longrightarrow> grants s (p, d) = Some c \<or> (\<exists>v. device_of devs d = Some v \<and> c AND NOT (caps_mask v) = 0)"
    "\<And>d. length (regs s' d) = length (regs s d)"
  shows "drv_ok devs s'"
  using assms drv_okD [OF assms(1)] unfolding drv_ok_def by metis

lemma device_ok:
  assumes "devices_ok devs" "device_of devs d = Some v"
  shows "dev_id v = d" "d \<noteq> -1" "unat (reg_base v) + unat (reg_size v) < 2 ^ 63" "unat (mem_base v) + unat (mem_size v) < 2 ^ 63"
proof -
  have "v \<in> set devs" "dev_id v = d" using assms(2) by (auto simp: device_of_def find_Some_iff)
  then show "dev_id v = d" "d \<noteq> -1" "unat (reg_base v) + unat (reg_size v) < 2 ^ 63" "unat (mem_base v) + unat (mem_size v) < 2 ^ 63"
    using assms(1) by (auto simp: devices_ok_def)
qed

lemma regs_bindings [simp]: "regs (s\<lparr>g_bindings := b\<rparr>) = regs s"
  by (simp add: regs_def fun_eq_iff split: option.split)

lemma mask_and: "(c AND m) AND NOT m = (0 :: u32)"
  by (simp add: and.assoc)

lemma bind_put:
  assumes ok: "drv_ok devs s" and v: "device_of devs d = Some v" and i: "i < length (g_bindings s)" and y: "bd_key y = Some (p, d)"
    and c: "bd_caps y AND NOT (caps_mask v) = 0"
    and free: "bd_key (g_bindings s ! i) = Some (p, d) \<or> bd_key (g_bindings s ! i) = None \<and> slot_of bd_key (g_bindings s) (p, d) = None"
  defines "s' \<equiv> s\<lparr>g_bindings := (g_bindings s)[i := y]\<rparr>"
  shows "drv_ok devs s'" "grants s' = (grants s)((p, d) \<mapsto> bd_caps y)" "regs s' = regs s"
proof -
  note P = slot_put [OF drv_okD(3) [OF ok] i y free]
  show g: "grants s' = (grants s)((p, d) \<mapsto> bd_caps y)" by (simp add: fun_eq_iff grants_def s'_def P(2))
  show r: "regs s' = regs s" by (simp add: s'_def)
  show "drv_ok devs s'"
    by (rule drv_okI [OF ok]) (use P(1) drv_okD [OF ok] v c in \<open>auto simp: s'_def g [unfolded s'_def] split: if_splits\<close>)
qed

lemma register_refines:
  assumes ok: "drv_ok devs s" and r: "driver_register_binding_caps s (Some p) d c = (s', r)"
  shows "drv_ok devs s' \<and> (if r < 0 then drv_abst s' = drv_abst s else drv_spec devs (Bind p d c) (drv_abst s) = Some (drv_abst s'))"
proof (cases "device_of devs d")
  case None
  then show ?thesis using r ok by (simp add: driver_register_binding_caps_def get_device drv_okD(1) [OF ok] drv_errs split: if_splits)
next
  case (Some v)
  let ?b = "g_bindings s" and ?c = "c AND caps_mask v"
  show ?thesis
  proof (cases "find_index (bound_to p d) ?b")
    case (Some i)
    from find_index_slot(1) [OF this [unfolded bound_key_fun]] have i: "i < length ?b" "bd_key (?b ! i) = Some (p, d)" by auto
    have s': "s' = s\<lparr>g_bindings := ?b[i := (?b ! i)\<lparr>bd_caps := ?c\<rparr>]\<rparr>" "r = 0"
      using r \<open>device_of devs d = Some v\<close> Some by (simp_all add: driver_register_binding_caps_def get_device drv_okD(1) [OF ok] DRV_OK_def)
    have "bd_key ((?b ! i)\<lparr>bd_caps := ?c\<rparr>) = Some (p, d)" using i(2) by (simp add: bd_key_def)
    from bind_put [OF ok \<open>device_of devs d = Some v\<close> i(1) this _ disjI1 [OF i(2)]] \<open>device_of devs d = Some v\<close>
    show ?thesis by (simp add: s' mask_and)
  next
    case None
    then have n: "slot_of bd_key ?b (p, d) = None" using find_index_slot(2) [of bd_key "(p, d)" ?b] by (simp add: bound_key_fun)
    show ?thesis
    proof (cases "find_index (\<lambda>b. bd_proc b = None) ?b")
      case (Some i)
      have i: "i < length ?b" "bd_key (?b ! i) = None" using find_index_SomeD(1,2) [OF Some] by (simp_all add: bd_key_def)
      have s': "s' = s\<lparr>g_bindings := ?b[i := \<lparr>bd_proc = Some p, bd_dev = d, bd_caps = ?c\<rparr>]\<rparr>" "r = 0"
        using r \<open>device_of devs d = Some v\<close> None Some by (simp_all add: driver_register_binding_caps_def get_device drv_okD(1) [OF ok] DRV_OK_def)
      have "bd_key \<lparr>bd_proc = Some p, bd_dev = d, bd_caps = ?c\<rparr> = Some (p, d)" by (simp add: bd_key_def)
      from bind_put [OF ok \<open>device_of devs d = Some v\<close> i(1) this _ disjI2 [OF conjI [OF i(2) n]]] \<open>device_of devs d = Some v\<close>
      show ?thesis by (simp add: s' mask_and)
    next
      case none: None
      then show ?thesis using r ok None \<open>device_of devs d = Some v\<close>
        by (simp add: driver_register_binding_caps_def get_device drv_okD(1) [OF ok] drv_errs split: if_splits)
    qed
  qed
qed

lemma register_all_refines:
  assumes ok: "drv_ok devs s" and r: "driver_register_binding s (Some p) d = (s', r)"
  shows "drv_ok devs s' \<and> (if r < 0 then drv_abst s' = drv_abst s else drv_spec devs (Bind_all p d) (drv_abst s) = Some (drv_abst s'))"
proof (cases "device_of devs d")
  case None
  then show ?thesis using r ok by (simp add: driver_register_binding_def get_device drv_okD(1) [OF ok] drv_errs split: if_splits)
next
  case (Some v)
  then have "driver_register_binding_caps s (Some p) d (caps_mask v) = (s', r)"
    using r by (simp add: driver_register_binding_def get_device drv_okD(1) [OF ok])
  from register_refines [OF ok this] Some show ?thesis by (auto split: if_splits)
qed

lemma unbind_refines:
  assumes ok: "drv_ok devs s" and r: "driver_remove_binding s (Some p) d = (s', r)"
  shows "drv_ok devs s' \<and> (if r < 0 then drv_abst s' = drv_abst s else drv_spec devs (Unbind p d) (drv_abst s) = Some (drv_abst s'))"
proof (cases "find_index (bound_to p d) (g_bindings s)")
  case None
  then show ?thesis using r ok by (simp add: driver_remove_binding_def drv_errs split: if_splits)
next
  case (Some i)
  from find_index_slot(1) [OF this [unfolded bound_key_fun]] have i: "i < length (g_bindings s)" "bd_key (g_bindings s ! i) = Some (p, d)" by auto
  note C = slot_clear_one [OF drv_okD(3) [OF ok] i no_binding_key]
  have s': "s' = s\<lparr>g_bindings := (g_bindings s)[i := no_binding]\<rparr>" "r = 0" using r Some by (simp_all add: driver_remove_binding_def DRV_OK_def)
  have g: "grants s' = (grants s)((p, d) := None)" by (simp add: s' fun_eq_iff grants_def C(2))
  have "grants s (p, d) \<noteq> None" using slot_of_nth [OF drv_okD(3) [OF ok] i] by (simp add: grants_def)
  moreover have "drv_ok devs s'" by (rule drv_okI [OF ok]) (use C(1) drv_okD [OF ok] in \<open>auto simp: s' g [unfolded s'] split: if_splits\<close>)
  ultimately show ?thesis using g by (simp add: s')
qed

lemma exit_refines:
  assumes ok: "drv_ok devs s"
  shows "drv_ok devs (driver_remove_all_bindings s (Some p)) \<and> drv_spec devs (Exit p) (drv_abst s) = Some (drv_abst (driver_remove_all_bindings s (Some p)))"
proof -
  let ?s = "driver_remove_all_bindings s (Some p)"
  note C = slot_clear [OF drv_okD(3) [OF ok] no_binding_key, of "\<lambda>b. bd_proc b = Some p"]
  have g: "grants ?s (q, d) = (if q = p then None else grants s (q, d))" for q d
  proof (cases "slot_of bd_key (g_bindings s) (q, d)")
    case (Some b)
    then have "bd_proc b = Some q" using slot_of_SomeD [OF Some] by (auto simp: bd_key_def)
    with Some show ?thesis by (simp add: driver_remove_all_bindings_def grants_def C(2))
  qed (simp add: driver_remove_all_bindings_def grants_def C(2))
  have f: "g_devices ?s = g_devices s" "g_shadow ?s = g_shadow s" "keyed bd_key (g_bindings ?s)" "regs ?s = regs s"
    using C(1) by (simp_all add: driver_remove_all_bindings_def)
  have "drv_ok devs ?s" by (rule drv_okI [OF ok f(1,3)]) (use drv_okD(4) [OF ok] in \<open>auto simp: f g split: if_splits\<close>)
  then show ?thesis using g f(4) by (auto simp: fun_eq_iff)
qed

subsection \<open>The registers\<close>

lemma regs_put:
  assumes ok: "drv_ok devs s" and i: "i < length (g_shadow s)" and y: "sh_key y = Some d"
    and free: "sh_key (g_shadow s ! i) = Some d \<or> sh_key (g_shadow s ! i) = None \<and> slot_of sh_key (g_shadow s) d = None"
    and len: "\<And>b. sh_buf y = Some b \<Longrightarrow> length b = length (zeros devs d)"
  defines "s' \<equiv> s\<lparr>g_shadow := (g_shadow s)[i := y]\<rparr>"
  shows "drv_ok devs s'" "grants s' = grants s" "regs s' = (regs s)(d := case sh_buf y of Some b \<Rightarrow> b | None \<Rightarrow> zeros devs d)"
proof -
  note P = slot_put [OF drv_okD(4) [OF ok] i y free]
  show r: "regs s' = (regs s)(d := case sh_buf y of Some b \<Rightarrow> b | None \<Rightarrow> zeros devs d)"
    by (simp add: fun_eq_iff regs_def s'_def P(2) drv_okD(1) [OF ok] split: option.split)
  show g: "grants s' = grants s" by (simp add: fun_eq_iff grants_def s'_def)
  show "drv_ok devs s'"
    by (rule drv_okI [OF ok]) (use P(1) drv_okD [OF ok] len in \<open>auto simp: s'_def g [unfolded s'_def] r [unfolded s'_def] split: option.splits\<close>)
qed

lemma shadow_get_keeps:
  assumes ok: "drv_ok devs s" and v: "device_of devs d = Some v" and g: "shadow_get s alloc_ok d = (s', x)"
  shows "drv_ok devs s'" "drv_abst s' = drv_abst s" "g_devices s' = g_devices s"
    "x = Some i \<Longrightarrow> i < length (g_shadow s') \<and> sh_key (g_shadow s' ! i) = Some d"
proof -
  have d: "d \<noteq> -1" by (rule device_ok(2) [OF drv_okD(2) [OF ok] v])
  have dev: "driver_get_device s d = Some v" by (simp add: get_device drv_okD(1) [OF ok] v)
  have key: "sh_key e = Some d \<longleftrightarrow> sh_dev e = d" for e using d by (auto simp: sh_key_def)
  have "drv_ok devs s' \<and> drv_abst s' = drv_abst s \<and> g_devices s' = g_devices s
      \<and> (\<forall>i. x = Some i \<longrightarrow> i < length (g_shadow s') \<and> sh_key (g_shadow s' ! i) = Some d)"
  proof (cases "find_index (\<lambda>e. sh_dev e = d) (g_shadow s)")
    case (Some i)
    then show ?thesis using g ok by (auto simp: shadow_get_def dev key dest: find_index_SomeD)
  next
    case None
    then have n: "slot_of sh_key (g_shadow s) d = None" using find_index_slot(2) [of sh_key d "g_shadow s"] by (simp add: key)
    show ?thesis
    proof (cases "find_index (\<lambda>e. sh_dev e = -1) (g_shadow s)")
      case (Some i)
      define y where "y = \<lparr>sh_dev = d, sh_buf = (if alloc_ok then Some (replicate (unat (reg_size v)) 0) else None)\<rparr>"
      have i: "i < length (g_shadow s)" "sh_key (g_shadow s ! i) = None" using find_index_SomeD(1,2) [OF Some] by (simp_all add: sh_key_def)
      have z: "zeros devs d = replicate (unat (reg_size v)) 0" by (simp add: zeros_def v)
      have s': "s' = s\<lparr>g_shadow := (g_shadow s)[i := y]\<rparr>" "x = Some i" using g None Some by (simp_all add: shadow_get_def dev y_def)
      have yk: "sh_key y = Some d" by (simp add: key y_def)
      have len: "length b = length (zeros devs d)" if "sh_buf y = Some b" for b using that by (auto simp: y_def z split: if_splits)
      note P = regs_put [OF ok i(1) yk disjI2 [OF conjI [OF i(2) n]] len, folded s'(1)]
      have "regs s d = zeros devs d" by (simp add: regs_def n drv_okD(1) [OF ok])
      then have "(regs s)(d := case sh_buf y of Some b \<Rightarrow> b | None \<Rightarrow> zeros devs d) = regs s" by (auto simp: y_def z fun_eq_iff)
      with P show ?thesis using i(1) yk by (simp add: s')
    next
      case none: None
      then show ?thesis using g None ok by (simp add: shadow_get_def dev)
    qed
  qed
  then show "drv_ok devs s'" "drv_abst s' = drv_abst s" "g_devices s' = g_devices s"
    "x = Some i \<Longrightarrow> i < length (g_shadow s') \<and> sh_key (g_shadow s' ! i) = Some d" by auto
qed

lemma shadow_regs:
  assumes ok: "drv_ok devs s" and i: "i < length (g_shadow s)" "sh_key (g_shadow s ! i) = Some d" and b: "sh_buf (g_shadow s ! i) = Some buf"
  shows "regs s d = buf"
  using slot_of_nth [OF drv_okD(4) [OF ok] i] b by (simp add: regs_def)

text \<open>An access that both range checks let through lies inside the register window.\<close>

lemma reg_range:
  assumes v: "unat (reg_base v) + unat (reg_size v) < 2 ^ 63" and a: "\<not> (t < reg_base v \<or> t \<ge> reg_base v + reg_size v)" "\<not> t - reg_base v + 8 > reg_size v"
  shows "unat (t - reg_base v) = unat t - unat (reg_base v)" "unat (reg_base v) \<le> unat t" "unat t + 8 \<le> unat (reg_base v) + unat (reg_size v)"
proof -
  have s: "unat (reg_base v + reg_size v) = unat (reg_base v) + unat (reg_size v)" using v by (intro unat_add64) simp
  show le: "unat (reg_base v) \<le> unat t" using a(1) by (simp add: word_less_nat_alt)
  have lt: "unat t < unat (reg_base v) + unat (reg_size v)" using a(1) s by (simp add: word_less_nat_alt word_le_nat_alt not_le)
  show d: "unat (t - reg_base v) = unat t - unat (reg_base v)" using le by (simp add: unat_sub word_le_nat_alt)
  have "unat (t - reg_base v + 8) = unat (t - reg_base v) + 8" using unat_add64 [of "t - reg_base v" 8] d lt v by simp
  then show "unat t + 8 \<le> unat (reg_base v) + unat (reg_size v)" using a(2) d le by (simp add: word_less_nat_alt)
qed

lemma read_register:
  assumes ok: "drv_ok devs s" and v: "device_of devs d = Some v" and r: "read_hardware_register s alloc_ok d t = (s', x)"
  shows "drv_ok devs s' \<and> drv_abst s' = drv_abst s \<and> (case x of Inl e \<Rightarrow> e < 0
    | Inr w \<Rightarrow> unat (reg_base v) \<le> unat t \<and> unat t + 8 \<le> unat (reg_base v) + unat (reg_size v)
        \<and> w = of_le64 (take 8 (drop (unat t - unat (reg_base v)) (regs s d))))"
proof -
  have dev: "driver_get_device s d = Some v" by (simp add: get_device drv_okD(1) [OF ok] v)
  obtain s1 y where g: "shadow_get s alloc_ok d = (s1, y)" by force
  note G = shadow_get_keeps [OF ok v g]
  show ?thesis
  proof (cases "t < reg_base v \<or> t \<ge> reg_base v + reg_size v \<or> y = None")
    case True
    then show ?thesis using r ok G by (auto simp: read_hardware_register_def dev g drv_errs split: if_splits)
  next
    case False
    then obtain i where y: "y = Some i" by blast
    note i = G(4) [OF y]
    show ?thesis
    proof (cases "sh_buf (g_shadow s1 ! i) = None \<or> t - reg_base v + 8 > reg_size v")
      case True
      then show ?thesis using r ok G False y by (auto simp: read_hardware_register_def dev g drv_errs Let_def split: if_splits option.splits)
    next
      case f2: False
      then obtain buf where b: "sh_buf (g_shadow s1 ! i) = Some buf" by auto
      have "regs s d = buf" using shadow_regs [OF G(1) _ _ b] i G(2) by auto
      moreover have "s' = s1" "x = Inr (of_le64 (take 8 (drop (unat (t - reg_base v)) buf)))"
        using r False f2 b y by (auto simp: read_hardware_register_def dev g Let_def split: if_splits)
      ultimately show ?thesis using G(1,2) reg_range [OF device_ok(3) [OF drv_okD(2) [OF ok] v], of t] False f2 by auto
    qed
  qed
qed

lemma write_register:
  assumes ok: "drv_ok devs s" and v: "device_of devs d = Some v" and r: "write_hardware_register s alloc_ok d t w = (s', x)"
  shows "drv_ok devs s' \<and> grants s' = grants s \<and> (if x < 0 then regs s' = regs s
    else unat (reg_base v) \<le> unat t \<and> unat t + 8 \<le> unat (reg_base v) + unat (reg_size v)
      \<and> regs s' = (regs s)(d := patch (regs s d) (unat t - unat (reg_base v)) (le64 w)))"
proof -
  have dev: "driver_get_device s d = Some v" by (simp add: get_device drv_okD(1) [OF ok] v)
  obtain s1 y where g: "shadow_get s alloc_ok d = (s1, y)" by force
  note G = shadow_get_keeps [OF ok v g]
  show ?thesis
  proof (cases "t < reg_base v \<or> t \<ge> reg_base v + reg_size v \<or> y = None")
    case True
    then show ?thesis using r ok G by (auto simp: write_hardware_register_def dev g drv_errs split: if_splits)
  next
    case False
    then obtain i where y: "y = Some i" by blast
    note i = G(4) [OF y]
    show ?thesis
    proof (cases "sh_buf (g_shadow s1 ! i) = None \<or> t - reg_base v + 8 > reg_size v")
      case True
      then show ?thesis using r ok G False y by (auto simp: write_hardware_register_def dev g drv_errs Let_def split: if_splits option.splits)
    next
      case f2: False
      then obtain buf where b: "sh_buf (g_shadow s1 ! i) = Some buf" by auto
      have rb: "regs s d = buf" using shadow_regs [OF G(1) _ _ b] i G(2) by auto
      note R = reg_range [OF device_ok(3) [OF drv_okD(2) [OF ok] v], of t]
      have R': "unat (t - reg_base v) = unat t - unat (reg_base v)" "unat (reg_base v) \<le> unat t" "unat t + 8 \<le> unat (reg_base v) + unat (reg_size v)"
        using R False f2 by blast+
      define y' where "y' = (g_shadow s1 ! i)\<lparr>sh_buf := Some (patch buf (unat t - unat (reg_base v)) (le64 w))\<rparr>"
      have s': "s' = s1\<lparr>g_shadow := (g_shadow s1)[i := y']\<rparr>" "x = 0"
        using r False f2 b y R'(1) by (auto simp: write_hardware_register_def dev g Let_def y'_def patch_def DRV_OK_def)
      have lb: "length buf = unat (reg_size v)" using drv_okD(6) [OF ok, of d] by (simp add: rb zeros_def v)
      have len: "length b' = length (zeros devs d)" if "sh_buf y' = Some b'" for b'
        using that lb R' by (auto simp: y'_def patch_def zeros_def v)
      have yk: "sh_key y' = Some d" using i by (simp add: y'_def sh_key_def split: if_splits)
      from regs_put [OF G(1) _ yk _ len, of i, folded s'(1)] i G(2) R'(2,3) rb show ?thesis by (simp add: s'(2) y'_def)
    qed
  qed
qed

subsection \<open>Calls\<close>

lemma quiet_steps [simp]:
  "regs (s\<lparr>rl_table := t\<rparr>) = regs s" "grants (s\<lparr>rl_table := t\<rparr>) = grants s"
  "regs (driver_audit_log s now req r po) = regs s" "grants (driver_audit_log s now req r po) = grants s"
  "g_devices (driver_audit_log s now req r po) = g_devices s" "g_bindings (driver_audit_log s now req r po) = g_bindings s"
  "g_shadow (driver_audit_log s now req r po) = g_shadow s"
  by (auto simp: regs_def grants_def fun_eq_iff driver_audit_log_def Let_def split: option.split)

lemma quiet_ok:
  assumes "drv_ok devs s"
  shows "drv_ok devs (s\<lparr>rl_table := t\<rparr>)" "drv_ok devs (driver_audit_log s now req r po)"
  by (rule drv_okI [OF assms]; use drv_okD [OF assms] in auto)+

lemma rate_quiet:
  assumes "drv_ok devs s" "driver_rate_check s now po req = (s', r)"
  shows "drv_ok devs s'" "drv_abst s' = drv_abst s"
proof -
  have "\<exists>t. s' = s\<lparr>rl_table := t\<rparr>"
  proof (cases "s' = s")
    case True
    then show ?thesis by (intro exI [of _ "rl_table s"]) simp
  next
    case False
    then show ?thesis using assms(2) by (auto simp: driver_rate_check_def split: option.splits prod.splits)
  qed
  then show "drv_ok devs s'" "drv_abst s' = drv_abst s" using quiet_ok(1) [OF assms(1)] by auto
qed

lemma permission:
  assumes ok: "drv_ok devs s" and p: "check_driver_permissions s (Some p) req = DRV_OK"
  shows "\<exists>v c. dp_type p = PROC_TYPE_DRIVER \<and> device_of devs (dc_device req) = Some v \<and> grants s (dp_ptr p, dc_device req) = Some c
    \<and> c AND NOT (caps_mask v) = 0 \<and> c AND opcode_cap_bit (dc_opcode req) \<noteq> 0
    \<and> (dc_opcode req = DRIVER_OP_MAP_MEM \<or> dc_opcode req = DRIVER_OP_UNMAP_MEM \<longrightarrow>
         \<not> (dc_target req < mem_base v \<or> dc_target req \<ge> mem_base v + mem_size v) \<and> page_aligned (dc_target req))"
proof -
  obtain v where v: "device_of devs (dc_device req) = Some v" and t: "dp_type p = PROC_TYPE_DRIVER"
    using p by (auto simp: check_driver_permissions_def get_device drv_okD(1) [OF ok] drv_errs split: if_splits option.splits)
  obtain c where c: "grants s (dp_ptr p, dc_device req) = Some c"
    using p v t by (auto simp: check_driver_permissions_def get_device drv_okD(1) [OF ok] drv_errs bound_grants Let_def split: if_splits)
  have m: "c AND NOT (caps_mask v) = 0" using drv_okD(5) [OF ok c] v by auto
  show ?thesis using p t v c m
    by (auto simp: check_driver_permissions_def get_device drv_okD(1) [OF ok] drv_errs bound_grants Let_def page_aligned_def drv_ops split: if_splits)
qed

lemma mem_window:
  assumes "unat (mem_base v) + unat (mem_size v) < 2 ^ 63" "\<not> (t < mem_base v \<or> t \<ge> mem_base v + mem_size v)" "\<not> t + 0x1000 > mem_base v + mem_size v"
  shows "unat (mem_base v) \<le> unat t \<and> unat t + 0x1000 \<le> unat (mem_base v) + unat (mem_size v)"
proof -
  have s: "unat (mem_base v + mem_size v) = unat (mem_base v) + unat (mem_size v)" using assms(1) by (intro unat_add64) simp
  have t: "unat t < unat (mem_base v) + unat (mem_size v)" using assms(2) s by (simp add: word_less_nat_alt word_le_nat_alt not_le)
  then have "unat (t + 0x1000) = unat t + 0x1000" using unat_add64 [of t "0x1000"] assms(1) by simp
  then show ?thesis using assms(2,3) s by (simp add: word_less_nat_alt)
qed

lemma map_window:
  assumes "drv_ok devs s" "device_of devs d = Some v" "\<not> (t < mem_base v \<or> t \<ge> mem_base v + mem_size v)" "map_device_memory s po d t 0x1000 = r" "\<not> r < 0"
  shows "r = 0" "unat (mem_base v) \<le> unat t \<and> unat t + 0x1000 \<le> unat (mem_base v) + unat (mem_size v)"
proof -
  have "r = 0 \<and> \<not> t + 0x1000 > mem_base v + mem_size v"
    using assms(2,4,5) by (auto simp: map_device_memory_def get_device drv_okD(1) [OF assms(1)] drv_errs split: if_splits)
  with mem_window [OF device_ok(4) [OF drv_okD(2) [OF assms(1)] assms(2)] assms(3)]
  show "r = 0" "unat (mem_base v) \<le> unat t \<and> unat t + 0x1000 \<le> unat (mem_base v) + unat (mem_size v)" by auto
qed

lemma dispatch_refines:
  assumes ok: "drv_ok devs s" and perm: "check_driver_permissions s (Some p) req = DRV_OK" and d: "driver_dispatch s alloc_ok (Some p) req = (s', req', r)"
  shows "drv_ok devs s' \<and> (if r < 0 then drv_abst s' = drv_abst s else drv_spec devs (Call p req now alloc_ok) (drv_abst s) = Some (drv_abst s'))
    \<and> (dc_opcode req = DRIVER_OP_READ_REG \<longrightarrow> \<not> r < 0 \<longrightarrow> dc_value req' = of_le64 (take 8 (drop (reg_off devs req) (regs s (dc_device req)))))"
proof -
  obtain v c where P: "dp_type p = PROC_TYPE_DRIVER" "device_of devs (dc_device req) = Some v" "grants s (dp_ptr p, dc_device req) = Some c"
    "c AND NOT (caps_mask v) = 0" "c AND opcode_cap_bit (dc_opcode req) \<noteq> 0"
    "dc_opcode req = DRIVER_OP_MAP_MEM \<or> dc_opcode req = DRIVER_OP_UNMAP_MEM \<Longrightarrow>
       \<not> (dc_target req < mem_base v \<or> dc_target req \<ge> mem_base v + mem_size v) \<and> page_aligned (dc_target req)"
    using permission [OF ok perm] by blast
  have allowed: "call_allowed devs (grants s) p req" if "in_window req v" using P that by (simp add: call_allowed_def)
  have off: "reg_off devs req = unat (dc_target req) - unat (reg_base v)" by (simp add: reg_off_def P(2))
  consider (read) "dc_opcode req = DRIVER_OP_READ_REG" | (wr) "dc_opcode req = DRIVER_OP_WRITE_REG"
    | (mem) "dc_opcode req = DRIVER_OP_MAP_MEM \<or> dc_opcode req = DRIVER_OP_UNMAP_MEM" | (info) "dc_opcode req = DRIVER_OP_GET_INFO"
    using P(5) by (auto simp: opcode_cap_bit_def split: if_splits)
  then show ?thesis
  proof cases
    case read
    obtain s1 x where x: "read_hardware_register s alloc_ok (dc_device req) (dc_target req) = (s1, x)" by force
    note R = read_register [OF ok P(2) x]
    show ?thesis
    proof (cases x)
      case (Inl e)
      then show ?thesis using d R x read by (auto simp: driver_dispatch_def drv_ops)
    next
      case (Inr w)
      then have "in_window req v" using R read by (simp add: in_window_def)
      from allowed [OF this] show ?thesis using d R x read Inr by (auto simp: driver_dispatch_def drv_ops DRV_OK_def off)
    qed
  next
    case wr
    obtain s1 x where x: "write_hardware_register s alloc_ok (dc_device req) (dc_target req) (dc_value req) = (s1, x)" by force
    have s': "s' = s1" "r = x" "req' = req" using d x wr by (auto simp: driver_dispatch_def drv_ops)
    note W = write_register [OF ok P(2) x]
    show ?thesis
    proof (cases "x < 0")
      case False
      then have "in_window req v" using W wr by (simp add: in_window_def)
      from allowed [OF this] show ?thesis using W wr False by (simp add: s' off drv_ops)
    qed (use W wr in \<open>simp add: s' drv_ops\<close>)
  next
    case mem
    have s': "s' = s" "map_device_memory s (Some (dp_ptr p)) (dc_device req) (dc_target req) 0x1000 = r"
      using d mem by (auto simp: driver_dispatch_def drv_ops unmap_device_memory_def)
    have "call_allowed devs (grants s) p req" if "\<not> r < 0"
      using map_window [OF ok P(2) _ s'(2) that] P(6) [OF mem] mem
      by (intro allowed) (auto simp: in_window_def page_aligned_iff drv_ops)
    with mem show ?thesis using ok by (auto simp: s'(1) drv_ops)
  next
    case info
    then have "in_window req v" by (simp add: in_window_def drv_ops)
    from allowed [OF this] show ?thesis using d info P(2) ok by (auto simp: driver_dispatch_def drv_ops get_device drv_okD(1) [OF ok] DRV_OK_def)
  qed
qed

lemma nonpos:
  fixes a b :: int
  shows "a \<le> 0 \<Longrightarrow> b \<le> 0 \<Longrightarrow> (if c then a else b) \<le> 0" "a \<le> 0 \<Longrightarrow> (\<And>x. f x \<le> 0) \<Longrightarrow> (case z of None \<Rightarrow> a | Some x \<Rightarrow> f x) \<le> 0"
  by (auto split: option.split)

lemma call_refines:
  assumes ok: "drv_ok devs s" and h: "handle_driver_call s now alloc_ok (Some p) req = (s', req', r)"
  shows "drv_ok devs s' \<and> (if r < 0 then drv_abst s' = drv_abst s else drv_spec devs (Call p req now alloc_ok) (drv_abst s) = Some (drv_abst s'))
    \<and> (dc_opcode req = DRIVER_OP_READ_REG \<longrightarrow> \<not> r < 0 \<longrightarrow> dc_value req' = of_le64 (take 8 (drop (reg_off devs req) (regs s (dc_device req)))))"
proof (cases "check_driver_permissions s (Some p) req = DRV_OK")
  case False
  have "check_driver_permissions s (Some p) req \<le> 0"
    unfolding check_driver_permissions_def Let_def by (intro nonpos; simp add: drv_errs)
  with False h quiet_ok(2) [OF ok] show ?thesis by (auto simp: handle_driver_call_def Let_def drv_errs)
next
  case True
  obtain s1 rl where rl: "driver_rate_check s now (Some p) req = (s1, rl)" by force
  note Q = rate_quiet [OF ok rl]
  have neg: "rl \<le> 0" using rl by (auto simp: driver_rate_check_def rl_charge_def drv_errs Let_def split: option.splits prod.splits if_splits)
  show ?thesis
  proof (cases "rl = DRV_OK")
    case False
    then show ?thesis using h True rl neg quiet_ok(2) [OF Q(1)] Q(2) by (auto simp: handle_driver_call_def Let_def drv_errs)
  next
    case ok1: True
    obtain s2 req2 r2 where d: "driver_dispatch s1 alloc_ok (Some p) req = (s2, req2, r2)" by (metis prod_cases3)
    have "g_bindings s1 = g_bindings s \<and> g_devices s1 = g_devices s"
      using rl by (auto simp: driver_rate_check_def Let_def split: option.splits prod.splits)
    then have "driver_get_device s1 = driver_get_device s" "driver_is_bound s1 = driver_is_bound s" "driver_binding_caps s1 = driver_binding_caps s"
      by (auto simp: fun_eq_iff driver_get_device_def driver_is_bound_def driver_binding_caps_def split: option.split)
    then have "check_driver_permissions s1 (Some p) req = DRV_OK" using True unfolding check_driver_permissions_def by (simp only:)
    note D = dispatch_refines [OF Q(1) this d, of now]
    have e: "req' = req2" "r = r2" "s' = s2 \<or> s' = driver_audit_log s2 now req2 r2 (Some p)"
      using h True rl ok1 d by (auto simp: handle_driver_call_def Let_def)
    have q: "grants s1 = grants s" "regs s1 = regs s" using Q(2) by auto
    have f: "grants s' = grants s2" "regs s' = regs s2" using e(3) by auto
    have "drv_ok devs s'" using e(3) D quiet_ok(2) [of devs s2] by blast
    with D show ?thesis unfolding e(1,2) q f by blast
  qed
qed

lemma drv_do_refines:
  assumes "drv_ok devs s" "drv_do e s = (s', r)"
  shows "drv_ok devs s' \<and> (if r < 0 then drv_abst s' = drv_abst s else drv_spec devs e (drv_abst s) = Some (drv_abst s'))"
proof (cases e)
  case (Call p req now alloc_ok)
  then obtain req' where "handle_driver_call s now alloc_ok (Some p) req = (s', req', r)" using assms(2) by (auto split: prod.splits)
  from call_refines [OF assms(1) this] Call show ?thesis by blast
next
  case (Bind p d c)
  show ?thesis unfolding Bind by (rule register_refines [OF assms(1)]) (use assms(2) Bind in simp)
next
  case (Bind_all p d)
  show ?thesis unfolding Bind_all by (rule register_all_refines [OF assms(1)]) (use assms(2) Bind_all in simp)
next
  case (Unbind p d)
  show ?thesis unfolding Unbind by (rule unbind_refines [OF assms(1)]) (use assms(2) Unbind in simp)
next
  case (Exit p)
  with assms(2) have "s' = driver_remove_all_bindings s (Some p)" "r = 0" by auto
  with exit_refines [OF assms(1), of p] show ?thesis by (simp only: Exit) simp
qed

interpretation drv: refines "drv_ok devs" drv_abst drv_do "drv_spec devs" "\<lambda>_ _. True"
  by unfold_locales (rule drv_do_refines)

lemma run_safe_True: "run_safe spec (\<lambda>_ _. True) cs m"
  by (induction cs arbitrary: m) (auto split: option.split)

definition drv_boot :: "drv \<Rightarrow> drv" where
  "drv_boot s = shadow_init (rl_init (driver_registry_init s))"

lemma slot_of_replicate: "f e = None \<Longrightarrow> slot_of f (replicate n e) k = None"
  by (auto simp: slot_of_None)

lemma boot_state:
  "g_devices (drv_boot s) = g_devices (driver_registry_init s)" "grants (drv_boot s) = (\<lambda>_. None)"
  "regs (drv_boot s) = zeros (g_devices (driver_registry_init s))" "drv_ok (g_devices (driver_registry_init s)) (drv_boot s)"
proof -
  show d: "g_devices (drv_boot s) = g_devices (driver_registry_init s)"
    by (simp add: drv_boot_def shadow_init_def rl_init_def)
  show g: "grants (drv_boot s) = (\<lambda>_. None)"
    by (rule ext) (simp add: grants_def drv_boot_def shadow_init_def rl_init_def driver_registry_init_def slot_of_replicate)
  show r: "regs (drv_boot s) = zeros (g_devices (driver_registry_init s))"
    by (rule ext) (simp add: regs_def d, simp add: drv_boot_def shadow_init_def rl_init_def slot_of_replicate sh_key_def)
  have "devices_ok (g_devices (driver_registry_init s))"
    by (simp add: devices_ok_def driver_registry_init_def)
  moreover have "keyed bd_key (g_bindings (drv_boot s))" "keyed sh_key (g_shadow (drv_boot s))"
    by (simp_all add: keyed_def drv_boot_def shadow_init_def rl_init_def driver_registry_init_def sh_key_def)
  ultimately show "drv_ok (g_devices (driver_registry_init s)) (drv_boot s)"
    by (simp add: drv_ok_def d g r)
qed

subsection \<open>The rate limiter\<close>

abbreviation rate_run :: "drv_proc \<Rightarrow> driver_call \<Rightarrow> u64 list \<Rightarrow> drv \<Rightarrow> drv \<times> int list" where
  "rate_run p req \<equiv> run_ops (\<lambda>now s. driver_rate_check s now (Some p) req)"

lemma rate_untracked:
  assumes "find_index (rl_match p req) (rl_table s) = None" "find_index (\<lambda>e. rl_pid e = 0xFFFFFFFF) (rl_table s) = None"
  shows "rate_run p req ns s = (s, replicate (length ns) DRV_OK)"
proof -
  have "driver_rate_check s now (Some p) req = (s, DRV_OK)" for now
    using assms by (simp add: driver_rate_check_def rl_slot_def)
  then show ?thesis by (induction ns) auto
qed

lemma rate_tracked:
  assumes "find_index (rl_match p req) (rl_table s) = Some i" "\<And>n. n \<in> set ns \<Longrightarrow> n - rl_start (rl_table s ! i) \<le> RL_WINDOW_TICKS"
  shows "snd (rate_run p req ns s) = replicate (min (length ns) (RL_MAX_CALLS - rl_count (rl_table s ! i))) DRV_OK
    @ replicate (length ns - (RL_MAX_CALLS - rl_count (rl_table s ! i))) DRV_ERR_RATE"
  using assms
proof (induction ns arbitrary: s)
  case (Cons n ns)
  let ?t = "rl_table s" and ?e = "rl_table s ! i"
  let ?e' = "if rl_count ?e \<ge> RL_MAX_CALLS then ?e else ?e\<lparr>rl_count := Suc (rl_count ?e)\<rparr>"
  define s1 where "s1 = s\<lparr>rl_table := ?t[i := ?e']\<rparr>"
  have i: "i < length ?t" "rl_match p req ?e" "\<And>j. j < i \<Longrightarrow> \<not> rl_match p req (?t ! j)"
    using find_index_SomeD [OF Cons.prems(1)] by auto
  have step: "driver_rate_check s n (Some p) req = (s1, if rl_count ?e \<ge> RL_MAX_CALLS then DRV_ERR_RATE else DRV_OK)"
    using Cons.prems(1) Cons.prems(2) [of n] by (auto simp: driver_rate_check_def rl_slot_def rl_charge_def s1_def Let_def not_less [symmetric])
  have t1: "rl_table s1 ! i = ?e'" using i(1) by (simp add: s1_def)
  have "find_index (rl_match p req) (rl_table s1) = Some i"
    using i by (auto simp: find_index_Some s1_def rl_match_def)
  from Cons.IH [OF this] Cons.prems(2)
  have "snd (rate_run p req ns s1) = replicate (min (length ns) (RL_MAX_CALLS - rl_count ?e')) DRV_OK
    @ replicate (length ns - (RL_MAX_CALLS - rl_count ?e')) DRV_ERR_RATE" by (auto simp: t1)
  note R = this
  show ?case
  proof (cases "RL_MAX_CALLS - rl_count ?e")
    case 0
    with R show ?thesis by (simp add: step split_def)
  next
    case (Suc k)
    then have "\<not> RL_MAX_CALLS \<le> rl_count ?e" "RL_MAX_CALLS - Suc (rl_count ?e) = k" by auto
    with R Suc show ?thesis by (simp add: step split_def)
  qed
qed simp

subsection \<open>Driver Space keeps drivers inside their devices\<close>

text \<open>
  C10. Over every sequence of bindings, unbindings, exits and driver calls of any processes, Driver
  Space behaves as a map from processes and devices to granted capabilities and an array of bytes
  per device.  A binding grants the asked capabilities cut down to those of the device.  A call
  takes effect only if its process is a driver, holds a grant for the device with the capability
  of the operation, and stays inside the window of the device; a register write then changes
  exactly the eight bytes at its address, and every other call, accepted or refused, changes
  neither grants nor registers.  Every grant stays within the capabilities of its device.\<close>

theorem driver_calls_confined:
  assumes "drv_ok devs s" "run_ops drv_do es s = (s', rs)"
  shows "drv_ok devs s' \<and> run_spec (drv_spec devs) es rs (drv_abst s) = Some (drv_abst s')"
  using drv.run_refines [OF assms(1) run_safe_True assms(2)] .

abbreviation drv_start :: drv where
  "drv_start \<equiv> drv_boot \<lparr>g_devices = [], g_bindings = [], rl_table = [], g_shadow = [],
     audit_buf = (\<lambda>_. \<lparr>da_tick = 0, da_pid = 0, da_call = \<lparr>dc_opcode = 0, dc_target = 0, dc_value = 0, dc_flags = 0, dc_device = 0\<rparr>, da_result = 0\<rparr>),
     audit_index = 0, audit_full = False\<rparr>"

theorem driver_calls_confined_witness:
  "(let es = [Bind 3 1 7, Call \<lparr>dp_ptr = 3, dp_pid = 9, dp_type = PROC_TYPE_DRIVER\<rparr>
         \<lparr>dc_opcode = DRIVER_OP_WRITE_REG, dc_target = 0xE0000010, dc_value = 5, dc_flags = 0, dc_device = 1\<rparr> 0 True];
      (s', rs) = run_ops drv_do es drv_start
    in drv_ok (g_devices drv_start) s' \<and> rs = [0, -1] \<and> grants s' (3, 1) = Some 1)"
proof -
  let ?es = "[Bind 3 1 7, Call \<lparr>dp_ptr = 3, dp_pid = 9, dp_type = PROC_TYPE_DRIVER\<rparr>
         \<lparr>dc_opcode = DRIVER_OP_WRITE_REG, dc_target = 0xE0000010, dc_value = 5, dc_flags = 0, dc_device = 1\<rparr> 0 True]"
  obtain s' rs where r: "run_ops drv_do ?es drv_start = (s', rs)" by force
  have rs: "snd (run_ops drv_do ?es drv_start) = [0, -1]" by code_simp
  have "drv_ok (g_devices drv_start) drv_start" using boot_state(4) boot_state(1) by metis
  note C = driver_calls_confined [OF this r]
  then have "run_spec (drv_spec (g_devices drv_start)) ?es [0, -1] (drv_abst drv_start) = Some (drv_abst s')" using rs r by simp
  then have "grants s' (3, 1) = Some 1"
    by (auto simp: boot_state(1,2) driver_registry_init_def device_of_def DEV_CAP_READ_REG_def DEV_CAP_GET_INFO_def dest!: fun_cong [of _ _ "(3, 1)"])
  then show ?thesis using C rs r by (simp only: Let_def) simp
qed

text \<open>The window that a call at time \<open>now\<close> falls in and what is left of it, if there is a slot for it.\<close>

definition rl_budget :: "drv \<Rightarrow> drv_proc \<Rightarrow> driver_call \<Rightarrow> u64 \<Rightarrow> (u64 \<times> nat) option" where
  "rl_budget s p req now = (case find_index (rl_match p req) (rl_table s) of
     Some i \<Rightarrow> Some (if now - rl_start (rl_table s ! i) > RL_WINDOW_TICKS then (now, RL_MAX_CALLS)
       else (rl_start (rl_table s ! i), RL_MAX_CALLS - rl_count (rl_table s ! i)))
   | None \<Rightarrow> if list_ex (\<lambda>e. rl_pid e = 0xFFFFFFFF) (rl_table s) then Some (now, RL_MAX_CALLS) else None)"

lemma rl_tracked:
  assumes "rl_budget s p req now = Some (st, k)"
  shows "\<exists>s0 i. driver_rate_check s0 now (Some p) req = driver_rate_check s now (Some p) req \<and> find_index (rl_match p req) (rl_table s0) = Some i
    \<and> rl_start (rl_table s0 ! i) = st \<and> RL_MAX_CALLS - rl_count (rl_table s0 ! i) = k \<and> now - st \<le> RL_WINDOW_TICKS"
proof (cases "find_index (rl_match p req) (rl_table s)")
  case (Some i)
  let ?e = "rl_table s ! i" and ?x = "(rl_table s ! i)\<lparr>rl_start := now, rl_count := 0\<rparr>"
  note i = find_index_SomeD [OF Some]
  show ?thesis
  proof (cases "now - rl_start ?e > RL_WINDOW_TICKS")
    case True
    let ?s = "s\<lparr>rl_table := (rl_table s)[i := ?x]\<rparr>"
    have m: "find_index (rl_match p req) (rl_table ?s) = Some i" using i by (auto simp: find_index_Some rl_match_def)
    have "driver_rate_check ?s now (Some p) req = driver_rate_check s now (Some p) req"
      using True m Some i(1) by (simp add: driver_rate_check_def rl_slot_def rl_charge_def Let_def)
    then show ?thesis using assms True m Some i(1) by (intro exI [of _ ?s] exI [of _ i]) (auto simp: rl_budget_def)
  next
    case False
    then show ?thesis using assms Some by (intro exI [of _ s] exI [of _ i]) (auto simp: rl_budget_def)
  qed
next
  case None
  then have "list_ex (\<lambda>e. rl_pid e = 0xFFFFFFFF) (rl_table s)" using assms by (simp add: rl_budget_def split: if_splits)
  then obtain i where I: "find_index (\<lambda>e. rl_pid e = 0xFFFFFFFF) (rl_table s) = Some i"
    by (cases "find_index (\<lambda>e. rl_pid e = 0xFFFFFFFF) (rl_table s)") (auto simp: find_index_None list_ex_iff)
  note i = find_index_SomeD [OF I]
  let ?x = "\<lparr>rl_pid = dp_pid p, rl_dev = dc_device req, rl_op = dc_opcode req, rl_start = now, rl_count = 0\<rparr>"
  let ?s = "s\<lparr>rl_table := (rl_table s)[i := ?x]\<rparr>"
  have m: "find_index (rl_match p req) (rl_table ?s) = Some i" using i(1) None by (auto simp: find_index_Some find_index_None rl_match_def)
  have "driver_rate_check ?s now (Some p) req = driver_rate_check s now (Some p) req"
    using m None I i(1) by (simp add: driver_rate_check_def rl_slot_def)
  then show ?thesis using assms None m i(1) by (intro exI [of _ ?s] exI [of _ i]) (auto simp: rl_budget_def split: if_splits)
qed

text \<open>
  C36. Within one window the rate limiter lets exactly the calls through that are left of the
  fifty of a process, device and operation, and refuses every further one; a call after the
  window opens a new one.  Once its 64 slots are held by others, which no exit and no unbinding
  gives back, a new process, device or operation is not limited at all.\<close>

theorem rate_limit_exact:
  assumes "list_all (\<lambda>n. case rl_budget s p req now of None \<Rightarrow> True | Some (st, k) \<Rightarrow> n - st \<le> RL_WINDOW_TICKS) ns"
  shows "snd (rate_run p req (now # ns) s) = (case rl_budget s p req now of None \<Rightarrow> replicate (Suc (length ns)) DRV_OK
    | Some (st, k) \<Rightarrow> replicate (min (Suc (length ns)) k) DRV_OK @ replicate (Suc (length ns) - k) DRV_ERR_RATE)"
proof (cases "rl_budget s p req now")
  case None
  then have "find_index (rl_match p req) (rl_table s) = None" "find_index (\<lambda>e. rl_pid e = 0xFFFFFFFF) (rl_table s) = None"
    by (auto simp: rl_budget_def find_index_None list_ex_iff split: option.splits if_splits)
  from rate_untracked [OF this] None show ?thesis by (simp del: run_ops.simps)
next
  case (Some b)
  then obtain st k where b: "rl_budget s p req now = Some (st, k)" by (cases b) auto
  from rl_tracked [OF this] obtain s0 i where s0: "driver_rate_check s0 now (Some p) req = driver_rate_check s now (Some p) req"
    "find_index (rl_match p req) (rl_table s0) = Some i" "rl_start (rl_table s0 ! i) = st" "RL_MAX_CALLS - rl_count (rl_table s0 ! i) = k" "now - st \<le> RL_WINDOW_TICKS"
    by blast
  have "snd (rate_run p req (now # ns) s0) = replicate (min (length (now # ns)) k) DRV_OK @ replicate (length (now # ns) - k) DRV_ERR_RATE"
    using rate_tracked [OF s0(2), of "now # ns"] assms s0(3,5) unfolding s0(4) by (auto simp: b list_all_iff simp del: run_ops.simps replicate.simps)
  moreover have "rate_run p req (now # ns) s0 = rate_run p req (now # ns) s" by (simp add: s0(1))
  ultimately show ?thesis by (simp add: b del: run_ops.simps replicate.simps)
qed

theorem rate_limit_exact_witness:
  "snd (rate_run \<lparr>dp_ptr = 3, dp_pid = 9, dp_type = PROC_TYPE_DRIVER\<rparr>
     \<lparr>dc_opcode = DRIVER_OP_GET_INFO, dc_target = 0, dc_value = 0, dc_flags = 0, dc_device = 1\<rparr> (7 # replicate 59 8) drv_start)
   = replicate 50 DRV_OK @ replicate 10 DRV_ERR_RATE"
proof -
  let ?p = "\<lparr>dp_ptr = 3, dp_pid = 9, dp_type = PROC_TYPE_DRIVER\<rparr>"
  let ?r = "\<lparr>dc_opcode = DRIVER_OP_GET_INFO, dc_target = 0, dc_value = 0, dc_flags = 0, dc_device = 1\<rparr>"
  have b: "rl_budget drv_start ?p ?r 7 = Some (7, 50)" by code_simp
  show ?thesis using rate_limit_exact [of drv_start ?p ?r 7 "replicate 59 8"]
    by (simp add: b list_all_iff RL_WINDOW_TICKS_def del: run_ops.simps replicate.simps)
qed

end
