(* ===== verification/Exec.thy ===== *)
theory Exec
  imports Elf Cap Driver Pipe Mmap Signal
begin

text \<open>
  Program start (kernel/process.c): the image of a new program with its signature gate, its
  regions, its stack and its manifest; the arguments on the new stack; execve, which replaces the
  image of a process; and fork.  A task is the process descriptor with its memory, its image, its
  manifest, its driver privilege and its open files.  The kernel world holds page tables, kernel
  memory, Driver Space, the audit ring and the pipes; releasing an image and counting references
  to sockets, terminals and input devices are recorded as calls.  Results of the kernel heap and
  readings of the time-stamp counter come from outside.  Accounting fields (wake sequence,
  processor log, start time) are left out.
\<close>

record proc_fd =
  pf_inode :: "nat option"
  pf_offset :: u64
  pf_flags :: u32
  pf_used :: bool
  pf_is_pipe :: bool
  pf_pipe_w :: bool
  pf_cloexec :: bool
  pf_is_sock :: nat

datatype kcall = Kfree_image u64 | Socket_ref nat | Socket_unref nat | Pty_ref "nat option" | Pty_unref "nat option"
  | Input_ref "nat option" | Input_unref "nat option" | Ctty_ref "nat option" | Pty_exit | Vtcon_exit
  | Set_cmdline "u8 list list" "string option"

record kworld =
  k_vm :: vmm
  k_mem :: kmem
  k_drv :: drv
  k_audit :: cap_audit_state
  k_pipes :: pipes
  k_calls :: "kcall list"

record task =
  t_ptr :: nat
  t_proc :: process
  t_mem :: mproc
  t_manifest :: "elf_manifest option"
  t_image :: u64
  t_image_size :: u64
  t_entry :: u64
  t_stack_top :: u64
  t_user_bytes :: u64
  t_pages :: u32
  t_type :: int
  t_dev :: int
  t_dev_caps :: u32
  t_fds :: "proc_fd list"
  t_sleep_until :: u64
  t_pipe_wdone :: int
  t_fpu_valid :: bool
  t_rip :: u64
  t_rsp :: u64
  t_nsleep :: u64
  t_poll_deadline :: u64
  t_poll_active :: bool
  t_poll_wait :: bool
  t_affinity :: nat
  t_on_cpu :: bool
  t_ready_tick :: u64
  t_exit_code :: int
  t_collected :: bool
  t_wait_result :: int
  t_wait_ready :: bool
  t_cpu_ticks :: u64
  t_power_phase :: nat
  t_power_deadline :: u64
  t_ctty :: "nat option"
  t_ctty_detached :: bool
  t_cwd :: string
  t_kstack :: u64

record exec_env =
  x_verify :: sig_verify
  x_revoked :: "u32 list"
  x_cache :: page_cache
  x_space :: bool
  x_pin :: u64
  x_mf :: bool
  x_regions :: bool
  x_tsc :: "u64 \<times> u64 \<times> u64"

definition call :: "kcall \<Rightarrow> kworld \<Rightarrow> kworld" where
  "call c w = w\<lparr>k_calls := k_calls w @ [c]\<rparr>"

definition USER_HEAP_BASE :: u64 where "USER_HEAP_BASE = 0x280000000"
definition PROC_STACK_PAGES :: u64 where "PROC_STACK_PAGES = 8"
definition PROC_MAX_ARGS :: nat where "PROC_MAX_ARGS = 16"
definition PROC_MAX_ARG_LEN :: nat where "PROC_MAX_ARG_LEN = 256"
definition MANIFEST_CAP_MASK :: u32 where
  "MANIFEST_CAP_MASK = CAP_NET OR CAP_FS_READ OR CAP_FS_WRITE OR CAP_PROC OR CAP_IPC OR CAP_SIGNAL OR CAP_TIME OR CAP_POWER OR CAP_INPUT OR CAP_DISPLAY"

subsection \<open>The arguments of a program\<close>

definition aslr_slide :: "u64 \<Rightarrow> u64 \<Rightarrow> u64" where
  "aslr_slide tsc span_bytes =
    (if span_bytes < 0x2000 then 0
     else let x = tsc XOR push_bit 13 tsc; x = x XOR drop_bit 7 x; x = x XOR push_bit 17 x
       in push_bit 12 (x mod drop_bit 12 span_bytes))"

definition poke_bytes :: "u64 \<Rightarrow> u8 list \<Rightarrow> vmm \<Rightarrow> vmm" where
  "poke_bytes phys bs s = fold (\<lambda>(i, b) s. poke s (phys + of_nat i) b) (enumerate 0 bs) s"

text \<open>The physical address behind a user address, faulting its page in when it is not there.\<close>

definition uwrite_page :: "kmem \<Rightarrow> page_cache \<Rightarrow> u64 \<Rightarrow> vma_set \<Rightarrow> u64 \<Rightarrow> vmm \<Rightarrow> vmm \<times> u64" where
  "uwrite_page m cache space vs va s =
    (let phys = vmm_translate_in_space s space va in
     if phys \<noteq> 0 then (s, phys)
     else case vma_find vs va of
         None \<Rightarrow> (s, 0)
       | Some i \<Rightarrow> let (s, r) = vma_fault_in m cache s space (vs ! i) va in
           if r \<noteq> 0 then (s, 0) else (s, vmm_translate_in_space s space va))"

definition page_room :: "u64 \<Rightarrow> nat" where
  "page_room va = unat (0x1000 - (va AND 0xFFF))"

lemma page_room_pos: "0 < page_room va"
proof -
  have "va AND 0xFFF \<le> 0xFFF" by (rule word_and_le1)
  then have "0x1000 - (va AND 0xFFF) \<noteq> 0" by auto
  then show ?thesis by (simp add: page_room_def unat_gt_0)
qed

function uwrite :: "kmem \<Rightarrow> page_cache \<Rightarrow> u64 \<Rightarrow> vma_set \<Rightarrow> u64 \<Rightarrow> u8 list \<Rightarrow> vmm \<Rightarrow> vmm \<times> bool" where
  "uwrite m cache space vs va bs s =
    (if bs = [] then (s, True)
     else let (s, phys) = uwrite_page m cache space vs va s in
       if phys = 0 then (s, False)
       else let chunk = min (page_room va) (length bs) in
         uwrite m cache space vs (va + of_nat chunk) (drop chunk bs) (poke_bytes phys (take chunk bs) s))"
  by pat_completeness auto
termination by (relation "measure (\<lambda>(m, cache, space, vs, va, bs, s). length bs)") (use page_room_pos in auto)

declare uwrite.simps [simp del]

text \<open>The pointers to \<open>cnt\<close> strings of the block, from the string at \<open>off\<close> on; then the next free slot.\<close>

fun arg_slots :: "kmem \<Rightarrow> page_cache \<Rightarrow> u64 \<Rightarrow> vma_set \<Rightarrow> u64 \<Rightarrow> u8 list \<Rightarrow> nat \<Rightarrow> nat \<Rightarrow> u64 \<Rightarrow> vmm \<Rightarrow> vmm \<times> (nat \<times> u64) option" where
  "arg_slots m cache space vs strbase blob 0 off slot s = (s, Some (off, slot))"
| "arg_slots m cache space vs strbase blob (Suc cnt) off slot s =
    (if off \<ge> length blob then (s, None)
     else case uwrite m cache space vs slot (le64 (strbase + of_nat off)) s of
         (s, False) \<Rightarrow> (s, None)
       | (s, True) \<Rightarrow> arg_slots m cache space vs strbase blob cnt (off + length (takeWhile (\<lambda>b. b \<noteq> 0) (drop off blob)) + 1) (slot + 8) s)"

text \<open>One array of pointers with its NULL.\<close>

definition arg_array :: "kmem \<Rightarrow> page_cache \<Rightarrow> u64 \<Rightarrow> vma_set \<Rightarrow> u64 \<Rightarrow> u8 list \<Rightarrow> nat \<Rightarrow> nat \<Rightarrow> u64 \<Rightarrow> vmm \<Rightarrow> vmm \<times> (nat \<times> u64) option" where
  "arg_array m cache space vs strbase blob cnt off slot s =
    (case arg_slots m cache space vs strbase blob cnt off slot s of
       (s, None) \<Rightarrow> (s, None)
     | (s, Some (off, slot)) \<Rightarrow> (case uwrite m cache space vs slot (le64 0) s of
           (s, False) \<Rightarrow> (s, None)
         | (s, True) \<Rightarrow> (s, Some (off, slot + 8))))"

text \<open>On success the stack pointer and the addresses of the two arrays.\<close>

definition args_base :: "u64 \<Rightarrow> u64 \<Rightarrow> int \<Rightarrow> int \<Rightarrow> u64" where
  "args_base st_top blen argc envc = ((((st_top - blen) AND NOT 15) - (1 + of_int argc + 1 + of_int envc + 1) * 8) AND NOT 15)"

definition setup_user_args ::
  "kmem \<Rightarrow> page_cache \<Rightarrow> u64 \<Rightarrow> vma_set \<Rightarrow> u64 \<Rightarrow> u64 \<Rightarrow> u8 list \<Rightarrow> int \<Rightarrow> int \<Rightarrow> vmm \<Rightarrow> vmm \<times> (u64 \<times> u64 \<times> u64) option" where
  "setup_user_args m cache space vs st_top st_lo blob argc envc s =
    (let blen = of_nat (length blob) in
     if argc < 0 \<or> envc < 0 then (s, None)
     else if blen > st_top - st_lo then (s, None)
     else let strbase = st_top - blen; nslots = 1 + of_int argc + 1 + of_int envc + 1 :: u64 in
       if nslots * 8 > (strbase AND NOT 15) - st_lo then (s, None)
       else let base = args_base st_top blen argc envc in
         if base < st_lo + 0x1000 then (s, None)
         else case uwrite m cache space vs strbase blob s of
             (s, False) \<Rightarrow> (s, None)
           | (s, True) \<Rightarrow> (case uwrite m cache space vs base (le64 (of_int argc)) s of
                 (s, False) \<Rightarrow> (s, None)
               | (s, True) \<Rightarrow> (case arg_array m cache space vs strbase blob (nat argc) 0 (base + 8) s of
                     (s, None) \<Rightarrow> (s, None)
                   | (s, Some (off, envp)) \<Rightarrow> (case arg_array m cache space vs strbase blob (nat envc) off envp s of
                         (s, None) \<Rightarrow> (s, None)
                       | (s, Some _) \<Rightarrow> (s, Some (base, base + 8, envp))))))"

subsection \<open>The image of a program\<close>

record proc_image =
  im_space :: "u64 option"
  im_image :: u64
  im_size :: u64
  im_entry :: u64
  im_stack_top :: u64
  im_stack_lo :: u64
  im_footprint :: u64
  im_mf :: "elf_manifest option"

definition proc_image_free :: "proc_image \<Rightarrow> kworld \<Rightarrow> kworld" where
  "proc_image_free im w =
    (let w = (if im_image im \<noteq> 0 then call (Kfree_image (im_image im)) w else w)
     in case im_space im of None \<Rightarrow> w | Some sp \<Rightarrow> w\<lparr>k_vm := vmm_space_destroy (k_vm w) sp\<rparr>)"

text \<open>A copy of a buffer in kernel memory.\<close>

definition copy_image :: "u64 \<Rightarrow> u64 \<Rightarrow> u64 \<Rightarrow> kmem \<Rightarrow> kmem" where
  "copy_image old_image new_image sz m = (\<lambda>a. if a - new_image < sz then m (old_image + (a - new_image)) else m a)"

text \<open>The pinned image: the buffer handed over, or a copy of the program in fresh kernel memory.\<close>

definition pin_image :: "exec_env \<Rightarrow> u64 \<Rightarrow> u64 \<Rightarrow> u64 \<Rightarrow> kworld \<Rightarrow> kworld \<times> u64" where
  "pin_image env elf_buf sz owned w =
    (if owned \<noteq> 0 then (w, owned)
     else if x_pin env = 0 then (w, 0)
     else (w\<lparr>k_mem := copy_image elf_buf (x_pin env) sz (k_mem w)\<rparr>, x_pin env))"

text \<open>The manifest that holds for the process: one that does not parse or does not validate is dropped.\<close>

definition image_manifest :: "exec_env \<Rightarrow> kmem \<Rightarrow> u64 \<Rightarrow> u64 \<Rightarrow> u64 \<Rightarrow> u64 \<Rightarrow> (int + elf_manifest option) option" where
  "image_manifest env m img sz entry footprint =
    (if \<not> x_mf env then Some (Inr None)
     else case elf_manifest_parse m img sz of
         None \<Rightarrow> None
       | Some (Inl _) \<Rightarrow> Some (Inr None)
       | Some (Inr mf) \<Rightarrow>
           if elf_manifest_validate mf entry = MANIFEST_OK then
             (if max_mem mf \<noteq> 0 \<and> footprint > max_mem mf then Some (Inl (-12)) else Some (Inr (Some mf)))
           else Some (Inr None))"

definition proc_image_build :: "exec_env \<Rightarrow> u64 \<Rightarrow> u64 \<Rightarrow> u64 \<Rightarrow> u64 \<Rightarrow> kworld \<Rightarrow> (kworld \<times> (int + proc_image \<times> vma_set)) option" where
  "proc_image_build env elf_buf sz owned extra_stack w =
    (let im = \<lparr>im_space = None, im_image = owned, im_size = sz, im_entry = 0, im_stack_top = 0, im_stack_lo = 0, im_footprint = 0, im_mf = None\<rparr> in
     case elf_signature_verify (x_verify env) (x_revoked env) (k_mem w) elf_buf sz of
       None \<Rightarrow> None
     | Some sv \<Rightarrow>
         if sv \<noteq> ELF_SIG_OK then Some (proc_image_free im w, Inl (-13))
         else let (vm, sp) = vmm_space_create_user (k_vm w) (x_space env); w = w\<lparr>k_vm := vm\<rparr>; im = im\<lparr>im_space := sp\<rparr> in
           if sp = None then Some (proc_image_free im w, Inl (-12))
           else let (w, img) = pin_image env elf_buf sz owned w; im = im\<lparr>im_image := img\<rparr> in
             if img = 0 then Some (proc_image_free im w, Inl (-12))
             else case elf_load_image_lazy (k_mem w) img sz [] of
                 (vs, Inl _) \<Rightarrow> Some (proc_image_free im w, Inl (-8))
               | (vs, Inr (entry, footprint)) \<Rightarrow>
                   let st_bytes = PROC_STACK_PAGES * 0x1000 + ((extra_stack + 0xFFF) AND NOT 0xFFF);
                       st_top = USER_STACK_TOP - aslr_slide (fst (x_tsc env)) (16 * 1024 * 1024);
                       st_lo = st_top - st_bytes;
                       (vs, r) = vma_add vs st_lo st_top (VMM_FLAG_USER OR VMM_FLAG_RW OR VMM_FLAG_NOEXEC) VMA_TYPE_ANON 0 0 0 0;
                       im = im\<lparr>im_entry := entry, im_stack_top := st_top, im_stack_lo := st_lo, im_footprint := footprint + st_bytes\<rparr>
                   in if r \<noteq> 0 then Some (proc_image_free im w, Inl (-12))
                      else case image_manifest env (k_mem w) img sz entry (footprint + st_bytes) of
                          None \<Rightarrow> None
                        | Some (Inl e) \<Rightarrow> Some (proc_image_free im w, Inl e)
                        | Some (Inr mf) \<Rightarrow> Some (w, Inr (im\<lparr>im_mf := mf\<rparr>, vs)))"

definition proc_apply_caps :: "task \<Rightarrow> elf_manifest option \<Rightarrow> task" where
  "proc_apply_caps p mf = (case mf of
     None \<Rightarrow> p\<lparr>t_proc := (t_proc p)\<lparr>cap_net := False, cap_enforce := False, cap_mask := 0\<rparr>, t_mem := (t_mem p)\<lparr>mem_limit := 0\<rparr>\<rparr>
   | Some f \<Rightarrow> p\<lparr>t_proc := (t_proc p)\<lparr>cap_net := mf_flags f AND CAP_NET \<noteq> 0,
         cap_enforce := mf_flags f AND MANIFEST_FLAG_CAP_ENFORCE \<noteq> 0, cap_mask := mf_flags f AND MANIFEST_CAP_MASK\<rparr>,
       t_mem := (t_mem p)\<lparr>mem_limit := max_mem f\<rparr>\<rparr>)"

definition process_manifest_setid :: "task option \<Rightarrow> bool" where
  "process_manifest_setid p = (case p of None \<Rightarrow> False | Some p \<Rightarrow>
     (case t_manifest p of None \<Rightarrow> False | Some mf \<Rightarrow> mf_flags mf AND MANIFEST_FLAG_SETID \<noteq> 0))"

definition set_manifest :: "task \<Rightarrow> elf_manifest option \<Rightarrow> task" where
  "set_manifest p mf = p\<lparr>t_manifest := mf, t_proc := (t_proc p)\<lparr>manifest_flags := map_option mf_flags mf\<rparr>\<rparr>"

subsection \<open>execve\<close>

abbreviation fd_closed :: "proc_fd \<Rightarrow> proc_fd" where
  "fd_closed f \<equiv> f\<lparr>pf_used := False, pf_inode := None, pf_is_pipe := False, pf_pipe_w := False, pf_cloexec := False,
     pf_is_sock := 0, pf_offset := 0, pf_flags := 0\<rparr>"

definition close_on_exec :: "nat \<Rightarrow> kworld \<times> proc_fd list \<Rightarrow> kworld \<times> proc_fd list" where
  "close_on_exec i wd = (let (w, fds) = wd; f = fds ! i in
     if \<not> pf_used f \<or> \<not> pf_cloexec f then (w, fds)
     else let w = (if pf_is_pipe f then w\<lparr>k_pipes := pipe_unref (k_pipes w) (pf_inode f) (pf_pipe_w f)\<rparr>
            else if pf_is_sock f \<noteq> 0 then call (Socket_unref (pf_is_sock f - 1)) w
            else call (Input_unref (pf_inode f)) (call (Pty_unref (pf_inode f)) w))
       in (w, fds[i := fd_closed f]))"

text \<open>The new image in place of the old: caps, addresses, footprint.\<close>

definition exec_swap :: "exec_env \<Rightarrow> proc_image \<Rightarrow> vma_set \<Rightarrow> u64 \<Rightarrow> kworld \<Rightarrow> task \<Rightarrow> kworld \<times> task" where
  "exec_swap env im nv rsp w p =
    (let brk = USER_HEAP_BASE + aslr_slide (fst (snd (x_tsc env))) (32 * 1024 * 1024);
         mm = USER_MMAP_BASE + aslr_slide (snd (snd (x_tsc env))) (32 * 1024 * 1024);
         w = w\<lparr>k_drv := driver_remove_all_bindings (k_drv w) (Some (t_ptr p))\<rparr>;
         p = p\<lparr>t_type := PROC_TYPE_USER, t_dev := -1, t_dev_caps := 0\<rparr>;
         p = p\<lparr>t_mem := (t_mem p)\<lparr>p_space := im_space im, vmas := nv\<rparr>, t_image := im_image im, t_image_size := im_size im\<rparr>;
         p = set_manifest p (im_mf im);
         bound = cap_exec_bound (Some (t_proc p));
         p = proc_apply_caps p (im_mf im);
         (a, q) = cap_exec_transition (k_audit w) (t_proc p) bound (Some ''execve'')
     in (w\<lparr>k_audit := a\<rparr>, p\<lparr>t_proc := q, t_entry := im_entry im, t_stack_top := im_stack_top im,
           t_mem := (t_mem p)\<lparr>brk_start := brk, brk_cur := brk, mmap_next := mm\<rparr>,
           t_user_bytes := im_footprint im, t_pages := ucast (im_footprint im div 4096), t_rip := im_entry im, t_rsp := rsp\<rparr>))"

definition exec_release :: "u64 \<Rightarrow> u64 option \<Rightarrow> kworld \<Rightarrow> kworld" where
  "exec_release old_image old_space w =
    (let w = (if old_image \<noteq> 0 then call (Kfree_image old_image) w else w)
     in case old_space of None \<Rightarrow> w | Some sp \<Rightarrow> w\<lparr>k_vm := vmm_space_destroy (k_vm w) sp\<rparr>)"

definition exec_reset :: "task \<Rightarrow> task" where
  "exec_reset p = p\<lparr>t_proc := (t_proc p)\<lparr>
       sig_handler := (\<lambda>i. if i < 32 \<and> sig_handler (t_proc p) i \<noteq> 0 \<and> sig_handler (t_proc p) i \<noteq> 1 then 0 else sig_handler (t_proc p) i),
       sig_restorer := 0, sigsusp_active := False, wait_pipe := None, wait_tty := False, wait_pty := None, recv_chan := -1,
       sig_eintr_rip := 0, sig_rerun_eintr := False\<rparr>,
     t_sleep_until := 0, t_pipe_wdone := 0, t_fpu_valid := False, t_nsleep := 0, t_poll_active := False, t_poll_wait := False\<rparr>"

definition exec_frame :: "u64 \<Rightarrow> u64 \<Rightarrow> u64 \<Rightarrow> int \<Rightarrow> u64 \<Rightarrow> u64 \<Rightarrow> trapframe" where
  "exec_frame ino entry rsp argc argvp envp = \<lparr>tf_r15 = 0, tf_r14 = 0, tf_r13 = 0, tf_r12 = 0, tf_r11 = 0, tf_r10 = 0, tf_r9 = 0, tf_r8 = 0,
     tf_rbp = 0, tf_rdi = of_int argc, tf_rsi = argvp, tf_rdx = envp, tf_rcx = 0, tf_rbx = 0, tf_rax = 0, tf_int_no = ino, tf_err_code = 0,
     tf_rip = entry, tf_cs = 0x1B, tf_rflags = 0x202, tf_rsp = rsp, tf_ss = 0x23\<rparr>"

text \<open>
  The process and its trap frame are those of the running system call.  The result is \<^const>\<open>None\<close>
  only if the scan of the notes of the image does not end.
\<close>

definition is_elf :: "kmem \<Rightarrow> u64 \<Rightarrow> bool" where
  "is_elf m img \<longleftrightarrow> m img = 0x7F \<and> m (img + 1) = 0x45 \<and> m (img + 2) = 0x4C \<and> m (img + 3) = 0x46"

definition process_exec :: "exec_env \<Rightarrow> kworld \<Rightarrow> task \<Rightarrow> trapframe \<Rightarrow> u64 \<Rightarrow> u64 \<Rightarrow> u8 list \<Rightarrow> int \<Rightarrow> int \<Rightarrow> (kworld \<times> task \<times> trapframe \<times> int) option" where
  "process_exec env w p fr img sz blob argc envc =
    (if img = 0 then Some (w, p, fr, -14)
     else if sz < 4 \<or> \<not> is_elf (k_mem w) img then Some (call (Kfree_image img) w, p, fr, -8)
     else if \<not> x_regions env then Some (call (Kfree_image img) w, p, fr, -12)
     else let argbytes = of_nat (length blob) + (of_int argc + of_int envc + 3) * 8 + 32 in
       case proc_image_build env img sz img argbytes w of
         None \<Rightarrow> None
       | Some (w, Inl e) \<Rightarrow> Some (w, p, fr, e)
       | Some (w, Inr (im, nv)) \<Rightarrow>
           if (case im_mf im of None \<Rightarrow> False | Some mf \<Rightarrow> mf_proc_type mf = MANIFEST_PROC_TYPE_DRIVER)
           then Some (proc_image_free im w, p, fr, -13)
           else let sp = the (im_space im);
                    (vm, a) = setup_user_args (k_mem w) (x_cache env) sp nv (im_stack_top im) (im_stack_lo im) blob argc envc (k_vm w);
                    w = w\<lparr>k_vm := vm\<rparr>
             in case a of
                  None \<Rightarrow> Some (proc_image_free im w, p, fr, -7)
                | Some (rsp, argvp, envp) \<Rightarrow>
                    let w = w\<lparr>k_vm := vmm_harden_user_space (k_vm w) sp\<rparr>;
                        old_space = p_space (t_mem p); old_image = t_image p;
                        (w, p) = exec_swap env im nv rsp w p;
                        w = exec_release old_image old_space w;
                        (w, fds) = fold close_on_exec [0 ..< 32] (w, t_fds p);
                        p = exec_reset (p\<lparr>t_fds := fds\<rparr>)
                    in Some (w, p, exec_frame (tf_int_no fr) (im_entry im) rsp argc argvp envp, 0))"

subsection \<open>Open files across fork and exit\<close>

definition fd_ref :: "proc_fd \<Rightarrow> kworld \<Rightarrow> kworld" where
  "fd_ref f w = (if \<not> pf_used f then w
     else if pf_is_pipe f then w\<lparr>k_pipes := pipe_ref (k_pipes w) (pf_inode f) (pf_pipe_w f)\<rparr>
     else if pf_is_sock f \<noteq> 0 then call (Socket_ref (pf_is_sock f - 1)) w
     else call (Input_ref (pf_inode f)) (call (Pty_ref (pf_inode f)) w))"

text \<open>Which open inodes are terminal ends and which are input clients is known to their drivers.\<close>

record inode_kinds =
  kind_pty :: "nat option \<Rightarrow> bool"
  kind_input :: "nat option \<Rightarrow> bool"

definition release_fd :: "inode_kinds \<Rightarrow> nat \<Rightarrow> kworld \<times> proc_fd list \<Rightarrow> kworld \<times> proc_fd list" where
  "release_fd k i wd = (let (w, fds) = wd; f = fds ! i in
     if pf_used f \<and> pf_is_sock f \<noteq> 0 then
       (call (Socket_unref (pf_is_sock f - 1)) w, fds[i := f\<lparr>pf_is_sock := 0, pf_used := False, pf_inode := None\<rparr>])
     else if pf_used f \<and> pf_is_pipe f then
       (w\<lparr>k_pipes := pipe_unref (k_pipes w) (pf_inode f) (pf_pipe_w f)\<rparr>, fds[i := f\<lparr>pf_is_pipe := False, pf_used := False, pf_inode := None\<rparr>])
     else if pf_used f \<and> kind_pty k (pf_inode f) then
       (call (Pty_unref (pf_inode f)) w, fds[i := f\<lparr>pf_used := False, pf_inode := None\<rparr>])
     else if pf_used f \<and> kind_input k (pf_inode f) then
       (call (Input_unref (pf_inode f)) w, fds[i := f\<lparr>pf_used := False, pf_inode := None\<rparr>])
     else (w, fds))"

definition process_release_pipes :: "inode_kinds \<Rightarrow> kworld \<Rightarrow> task \<Rightarrow> kworld \<times> task" where
  "process_release_pipes k w p =
    (let (w, fds) = fold (release_fd k) [0 ..< 32] (w, t_fds p) in (call Vtcon_exit (call Pty_exit w), p\<lparr>t_fds := fds\<rparr>))"

text \<open>
  The list of mapped pages is empty under demand paging, so unloading has nothing to unmap.  The
  descriptor itself and its slot in the process table are gone afterwards.
\<close>

definition process_destroy :: "inode_kinds \<Rightarrow> kworld \<Rightarrow> task \<Rightarrow> kworld" where
  "process_destroy k w p =
    (let w = w\<lparr>k_drv := driver_remove_all_bindings (k_drv w) (Some (t_ptr p))\<rparr>;
         (w, p) = process_release_pipes k w p;
         w = w\<lparr>k_vm := fst (elf_unload_process (p_space (t_mem p)) [] (k_vm w))\<rparr>
     in exec_release (t_image p) (p_space (t_mem p)) w)"

subsection \<open>fork\<close>

record fork_env =
  f_pcb :: bool
  f_ptr :: nat
  f_pid :: u32
  f_home :: nat
  f_space :: bool
  f_image :: u64
  f_mf :: bool
  f_frame :: bool
  f_slot :: bool
  f_kstack :: u64

definition fork_region :: "u64 \<Rightarrow> u64 \<Rightarrow> vma \<Rightarrow> vma" where
  "fork_region old_image new_image v =
    (if v_type v = VMA_TYPE_FILE \<and> file_base v \<noteq> 0 then v\<lparr>file_base := new_image + (file_base v - old_image)\<rparr> else v)"

text \<open>The fields of a child that differ from its parent's.\<close>

definition fork_task :: "fork_env \<Rightarrow> task \<Rightarrow> trapframe \<Rightarrow> task" where
  "fork_task env p fr = p\<lparr>t_ptr := f_ptr env,
     t_proc := (t_proc p)\<lparr>pid := f_pid env, state := PROC_BLOCKED, tf := Some (fr\<lparr>tf_rax := 0\<rparr>),
       manifest_flags := (if f_mf env then manifest_flags (t_proc p) else None), sig_eintr_rip := 0, sig_rerun_eintr := False,
       wait_pid := -1, recv_chan := -1, wait_pipe := None, sig_pending := 0, ppid := pid (t_proc p), spawner_pid := 0,
       stop_report := False, cont_report := False, stop_sig := 0, wait_tty := False, wait_pty := None, sigsusp_active := False, sigsusp_saved := 0\<rparr>,
     t_manifest := (if f_mf env then t_manifest p else None), t_affinity := f_home env, t_on_cpu := False, t_ready_tick := 0, t_kstack := 0,
     t_fpu_valid := True, t_wait_result := 0, t_wait_ready := False, t_collected := False, t_sleep_until := 0, t_exit_code := 0, t_cpu_ticks := 0,
     t_pipe_wdone := 0, t_type := PROC_TYPE_USER, t_dev := -1, t_dev_caps := 0, t_power_phase := 0, t_power_deadline := 0,
     t_nsleep := 0, t_poll_deadline := 0, t_poll_active := False, t_poll_wait := False\<rparr>"

definition process_fork :: "inode_kinds \<Rightarrow> fork_env \<Rightarrow> kworld \<Rightarrow> task \<Rightarrow> trapframe \<Rightarrow> kworld \<times> task option" where
  "process_fork k env w parent fr = (case p_space (t_mem parent) of
     None \<Rightarrow> (w, None)
   | Some psp \<Rightarrow>
       if \<not> f_pcb env then (w, None)
       else let (vm, sp) = vmm_fork_space (k_vm w) psp (f_space env); w = w\<lparr>k_vm := vm\<rparr> in
         case sp of
           None \<Rightarrow> (w, None)
         | Some sp \<Rightarrow>
             let has_image = (t_image parent \<noteq> 0 \<and> t_image_size parent \<noteq> 0) in
             if has_image \<and> f_image env = 0 then (w\<lparr>k_vm := vmm_space_destroy (k_vm w) sp\<rparr>, None)
             else let img = (if has_image then f_image env else 0);
                      w = (if has_image then w\<lparr>k_mem := copy_image (t_image parent) img (t_image_size parent) (k_mem w)\<rparr> else w);
                      vs = (if has_image then map (fork_region (t_image parent) img) (vmas (t_mem parent)) else vmas (t_mem parent))
               in if \<not> f_frame env then (exec_release img (Some sp) w, None)
                  else let c = (fork_task env parent fr)\<lparr>t_image := img, t_mem := (t_mem parent)\<lparr>p_space := Some sp, vmas := vs\<rparr>\<rparr>;
                           w = call (Ctty_ref (t_ctty c)) (fold fd_ref (take 32 (t_fds c)) w)
                    in if \<not> f_slot env \<or> f_kstack env = 0 then
                         (exec_release img (Some sp) (fst (process_release_pipes k w c)), None)
                       else (w, Some (c\<lparr>t_kstack := f_kstack env, t_proc := (t_proc c)\<lparr>state := PROC_NEW\<rparr>\<rparr>)))"

subsection \<open>A process from a program\<close>

record create_env =
  c_exec :: exec_env
  c_pcb :: bool
  c_ptr :: nat
  c_pid :: u32
  c_home :: nat
  c_slot :: bool
  c_kstack :: u64
  c_frame :: bool
  c_blob :: bool

definition no_fd :: proc_fd where
  "no_fd = \<lparr>pf_inode = None, pf_offset = 0, pf_flags = 0, pf_used = False, pf_is_pipe = False, pf_pipe_w = False, pf_cloexec = False, pf_is_sock = 0\<rparr>"

definition first_fds :: "proc_fd list" where
  "first_fds = map (\<lambda>i. no_fd\<lparr>pf_used := i < 3\<rparr>) [0 ..< 32]"

definition create_process :: "create_env \<Rightarrow> process" where
  "create_process env = signal_init_proc \<lparr>pid = c_pid env, state = PROC_BLOCKED, tf = None, manifest_flags = None, cap_net = False,
     cap_enforce = False, cap_mask = 0, no_new_privs = False, wait_pid = -1, recv_chan = -1, wait_pipe = None,
     wait_tty = False, wait_pty = None, sig_eintr_rip = 0, sig_rerun_eintr = False, sig_pending = 0, sig_blocked = 0,
     sig_handler = (\<lambda>_. 0), sig_restorer = 0, stop_report = False, cont_report = False, stop_sig = 0,
     sigsusp_active = False, sigsusp_saved = 0, pgid = c_pid env, ppid = 0, sid = c_pid env, spawner_pid = 0, cred = cred_init_root, umask = 18\<rparr>"

definition create_task :: "create_env \<Rightarrow> proc_image \<Rightarrow> vma_set \<Rightarrow> task" where
  "create_task env im vs =
    (let brk = USER_HEAP_BASE + aslr_slide (fst (snd (x_tsc (c_exec env)))) (32 * 1024 * 1024);
         mm = USER_MMAP_BASE + aslr_slide (snd (snd (x_tsc (c_exec env)))) (32 * 1024 * 1024)
     in \<lparr>t_ptr = c_ptr env, t_proc = create_process env,
       t_mem = \<lparr>p_space = im_space im, vmas = vs, brk_start = brk, brk_cur = brk, mmap_next = mm, mem_limit = 0\<rparr>,
       t_manifest = None, t_image = im_image im, t_image_size = im_size im, t_entry = im_entry im, t_stack_top = im_stack_top im,
       t_user_bytes = im_footprint im, t_pages = ucast (im_footprint im div 4096), t_type = PROC_TYPE_USER, t_dev = -1, t_dev_caps = 0,
       t_fds = first_fds, t_sleep_until = 0, t_pipe_wdone = 0, t_fpu_valid = False, t_rip = im_entry im, t_rsp = im_stack_top im,
       t_nsleep = 0, t_poll_deadline = 0, t_poll_active = False, t_poll_wait = False, t_affinity = c_home env, t_on_cpu = False, t_ready_tick = 0,
       t_exit_code = 0, t_collected = False, t_wait_result = 0, t_wait_ready = False, t_cpu_ticks = 0, t_power_phase = 0, t_power_deadline = 0,
       t_ctty = None, t_ctty_detached = False, t_cwd = ''/'', t_kstack = 0\<rparr>)"

text \<open>A driver claim of the manifest binds the device, with the capabilities the device has; a bogus one is ignored.\<close>

definition claim_driver :: "kworld \<Rightarrow> task \<Rightarrow> kworld \<times> task" where
  "claim_driver w p = (case t_manifest p of None \<Rightarrow> (w, p) | Some mf \<Rightarrow>
     if mf_proc_type mf \<noteq> MANIFEST_PROC_TYPE_DRIVER then (w, p)
     else case driver_get_device (k_drv w) (sint (mf_dev_id mf)) of None \<Rightarrow> (w, p) | Some dev \<Rightarrow>
       let granted = mf_dev_caps mf AND caps_mask dev;
           (d, r) = driver_register_binding_caps (k_drv w) (Some (t_ptr p)) (sint (mf_dev_id mf)) granted;
           w = w\<lparr>k_drv := d\<rparr>
       in if r = DRV_OK then (w, p\<lparr>t_type := PROC_TYPE_DRIVER, t_dev := sint (mf_dev_id mf), t_dev_caps := granted\<rparr>) else (w, p))"

definition arg_block :: "(nat \<Rightarrow> u8 list option) \<Rightarrow> nat \<Rightarrow> u8 list" where
  "arg_block argv n = concat (map (\<lambda>i. take (PROC_MAX_ARG_LEN - 1) (case argv i of None \<Rightarrow> [] | Some a \<Rightarrow> a) @ [0]) [0 ..< n])"

text \<open>The initial frame; without arguments, or when they do not fit, the program starts with none.\<close>

definition create_frame :: "create_env \<Rightarrow> kworld \<Rightarrow> proc_image \<Rightarrow> vma_set \<Rightarrow> int \<Rightarrow> (nat \<Rightarrow> u8 list option) \<Rightarrow> kworld \<times> trapframe" where
  "create_frame env w im vs argc argv =
    (let fr = exec_frame 0x80 (im_entry im) (im_stack_top im) 0 0 0 in
     if argc \<le> 0 \<or> \<not> c_blob env then (w, fr)
     else let n = min (nat argc) PROC_MAX_ARGS;
              (vm, a) = setup_user_args (k_mem w) (x_cache (c_exec env)) (the (im_space im)) vs (im_stack_top im) (im_stack_lo im)
                (arg_block argv n) (int n) 0 (k_vm w);
              w = w\<lparr>k_vm := vm\<rparr>
       in case a of None \<Rightarrow> (w, fr)
          | Some (rsp, argvp, envp) \<Rightarrow> (w, fr\<lparr>tf_rsp := rsp, tf_rdi := of_nat n, tf_rsi := argvp, tf_rdx := envp\<rparr>))"

definition process_create_from_elf_args ::
  "create_env \<Rightarrow> kworld \<Rightarrow> u64 \<Rightarrow> u64 \<Rightarrow> int \<Rightarrow> (nat \<Rightarrow> u8 list option) \<Rightarrow> (kworld \<times> task option) option" where
  "process_create_from_elf_args env w elf_buf sz argc argv =
    (if \<not> c_pcb env then Some (w, None)
     else case proc_image_build (c_exec env) elf_buf sz 0 0 w of
         None \<Rightarrow> None
       | Some (w, Inl _) \<Rightarrow> Some (w, None)
       | Some (w, Inr (im, vs)) \<Rightarrow>
           let p = proc_apply_caps (set_manifest (create_task env im vs) (im_mf im)) (im_mf im);
               (a, q) = cap_exec_transition (k_audit w) (t_proc p) (cap_exec_bound None) (Some ''load'');
               (w, p) = claim_driver (w\<lparr>k_audit := a\<rparr>) (p\<lparr>t_proc := q\<rparr>)
           in if \<not> c_slot env \<or> c_kstack env = 0 \<or> \<not> c_frame env then
                Some (exec_release (t_image p) (im_space im) (w\<lparr>k_drv := driver_remove_all_bindings (k_drv w) (Some (t_ptr p))\<rparr>), None)
              else let (w, fr) = create_frame env w im vs argc argv;
                       w = w\<lparr>k_vm := vmm_harden_user_space (k_vm w) (the (im_space im))\<rparr>
                in Some (w, Some (p\<lparr>t_kstack := c_kstack env, t_proc := (t_proc p)\<lparr>tf := Some fr, state := PROC_NEW\<rparr>\<rparr>)))"

definition process_create_from_elf :: "create_env \<Rightarrow> kworld \<Rightarrow> u64 \<Rightarrow> u64 \<Rightarrow> (kworld \<times> task option) option" where
  "process_create_from_elf env w elf_buf sz = process_create_from_elf_args env w elf_buf sz 0 (\<lambda>_. None)"

end
