(* ===== verification/Sys_Exec.thy ===== *)
theory Sys_Exec
  imports Exec Cred
begin

text \<open>
  Starting a program from a path (kernel/syscall.c): execve with its argument block, spawn, and
  the resolution of a path against the working directory.  User memory is what the processor sees
  of it, the file system answers through its table, and results of the kernel allocator are
  parameters.
\<close>

definition EXEC_ARG_MAX :: nat where "EXEC_ARG_MAX = 128 * 1024"
definition EXEC_MAX_STRS :: nat where "EXEC_MAX_STRS = 2048"
definition EXEC_MAX_IMAGE :: nat where "EXEC_MAX_IMAGE = 16 * 1024 * 1024"
definition SYS_EXECVE :: u64 where "SYS_EXECVE = 60"
definition SYS_SPAWN :: u64 where "SYS_SPAWN = 8"
definition spawn_buf_size :: nat where "spawn_buf_size = 2 * 1024 * 1024"

subsection \<open>Paths\<close>

fun split_slash :: "string \<Rightarrow> string list" where
  "split_slash [] = [[]]"
| "split_slash (c # cs) = (if is_slash c then [] # split_slash cs else (case split_slash cs of [] \<Rightarrow> [[c]] | x # xs \<Rightarrow> (c # x) # xs))"

definition path_words :: "string \<Rightarrow> string list" where
  "path_words p = filter (\<lambda>x. x \<noteq> []) (split_slash p)"

definition put_part :: "string \<Rightarrow> string list \<Rightarrow> string list" where
  "put_part seg parts =
    (if seg = ''.'' then parts
     else if seg = ''..'' then butlast parts
     else if length parts < 64 then parts @ [seg] else parts)"

definition abs_path :: "string \<Rightarrow> string \<Rightarrow> string" where
  "abs_path cwd p =
    (if p \<noteq> [] \<and> is_slash (hd p) then take 511 p
     else let t = take 511 (if cwd \<noteq> [] then cwd else ''/'');
              t = (if (t = [] \<or> \<not> is_slash (last t)) \<and> length t < 511 then t @ ''/'' else t)
       in t @ take (511 - length t) p)"

definition proc_resolve_path :: "string \<Rightarrow> string \<Rightarrow> nat \<Rightarrow> string" where
  "proc_resolve_path cwd p outsz =
    (let parts = fold put_part (path_words (abs_path cwd p)) []
     in if parts = [] then ''/'' else take (outsz - 1) (concat (map (\<lambda>x. ''/'' @ x) parts)))"

subsection \<open>Set-id\<close>

definition setid_allowed :: "cap_audit_state \<Rightarrow> task \<Rightarrow> u32 \<Rightarrow> bool \<Rightarrow> bool \<Rightarrow> cap_audit_state \<times> bool" where
  "setid_allowed a p fmode setid_fs nnp =
    (let base = (setid_fs \<and> process_manifest_setid (Some p));
         want = (fmode AND S_ISUID \<noteq> 0 \<or> (fmode AND S_ISGID \<noteq> 0 \<and> fmode AND 8 \<noteq> 0))
     in if want \<and> base \<and> nnp then (cap_audit a (pid (t_proc p)) CAP_AUDIT_SETID SYS_EXECVE (Some ''setid-nnp'') False, False)
        else (a, base))"

text \<open>The ids of the new image.\<close>

definition exec_ids :: "kworld \<Rightarrow> task \<Rightarrow> vfs_inode \<Rightarrow> bool \<Rightarrow> bool \<Rightarrow> kworld \<times> task" where
  "exec_ids w p ino setid_fs nnp =
    (let fmode = cred_inode_mode (Some ino);
         (a, allowed) = setid_allowed (k_audit w) p fmode setid_fs nnp
     in (w\<lparr>k_audit := a\<rparr>, p\<lparr>t_proc := (t_proc p)\<lparr>cred := fst (cred_exec_setid (cred (t_proc p)) fmode (i_uid ino) (i_gid ino) allowed)\<rparr>\<rparr>))"

subsection \<open>execve\<close>

text \<open>
  The strings of a user array, appended to the block; \<open>n\<close> is how many more are allowed and \<open>i\<close> the index.
\<close>

fun copy_strv_from :: "memory \<Rightarrow> u64 \<Rightarrow> nat \<Rightarrow> nat \<Rightarrow> u8 list \<Rightarrow> int + (u8 list \<times> nat)" where
  "copy_strv_from m uvec n i blob =
    (let (bs, r) = copy_from_user m (uvec + of_nat i * 8) 8 in
     if r \<noteq> 0 then Inl (-14)
     else let us = of_le64 bs in
       if us = 0 then Inr (blob, i)
       else case n of
           0 \<Rightarrow> Inl (-7)
         | Suc n \<Rightarrow> let room = EXEC_ARG_MAX - length blob in
             if room = 0 then Inl (-7)
             else let (s, l) = strncpy_from_user m (replicate room 0) us (of_nat room) in
               if l = - ENAMETOOLONG then Inl (-7)
               else if l < 0 then Inl (-14)
               else copy_strv_from m uvec n (i + 1) (blob @ take (nat l + 1) s))"

declare copy_strv_from.simps [simp del]

definition exec_copy_strv :: "memory \<Rightarrow> u64 \<Rightarrow> u8 list \<Rightarrow> int + (u8 list \<times> nat)" where
  "exec_copy_strv m uvec blob = (if uvec = 0 then Inr (blob, 0) else copy_strv_from m uvec EXEC_MAX_STRS 0 blob)"

definition user_string :: "memory \<Rightarrow> u64 \<Rightarrow> nat \<Rightarrow> int + string" where
  "user_string m us cap =
    (let (s, l) = strncpy_from_user m (replicate cap 0) us (of_nat cap)
     in if l < 0 then Inl l else Inr (map (\<lambda>b. char_of (unat b)) (take (nat l) s)))"

text \<open>The file read into kernel memory at \<open>img\<close>.\<close>

definition load_at :: "kmem \<Rightarrow> u64 \<Rightarrow> u8 list \<Rightarrow> kmem" where
  "load_at m img bs = (\<lambda>a. if unat (a - img) < length bs then bs ! unat (a - img) else m a)"

text \<open>\<open>blob_ok\<close> and \<open>img\<close> are the results of the two allocations.\<close>

definition execve_args :: "memory \<Rightarrow> u64 \<Rightarrow> u64 \<Rightarrow> int + (u8 list \<times> nat \<times> nat)" where
  "execve_args m uargv uenvp = (case exec_copy_strv m uargv [] of
     Inl e \<Rightarrow> Inl e
   | Inr (blob, argc) \<Rightarrow> (case exec_copy_strv m uenvp blob of
       Inl e \<Rightarrow> Inl e
     | Inr (blob, envc) \<Rightarrow> Inr (blob, argc, envc)))"

definition execve_file :: "'w fs_table \<Rightarrow> 'w vfs_state \<Rightarrow> process \<Rightarrow> string \<Rightarrow> int + (string \<times> vfs_inode \<times> nat)" where
  "execve_file tab fs c ap = (case cred_check_path tab fs (Some c) ap True MAY_EXEC 256 of
     Inl e \<Rightarrow> Inl e
   | Inr (rp, ino) \<Rightarrow> (case i_ops ino of
       None \<Rightarrow> Inl (-13)
     | Some ops \<Rightarrow>
         if i_type ino \<noteq> VFS_NODE_FILE then Inl (-13)
         else if i_size ino = 0 then Inl (-8)
         else if i_size ino > EXEC_MAX_IMAGE then Inl (-12)
         else Inr (rp, ino, ops)))"

text \<open>The arguments that the process list shows: at most 32, read back from the block.\<close>

fun block_strs :: "nat \<Rightarrow> u8 list \<Rightarrow> u8 list list" where
  "block_strs 0 blob = []"
| "block_strs (Suc n) blob = (if blob = [] then [] else let s = takeWhile (\<lambda>b. b \<noteq> 0) blob in s # block_strs n (drop (length s + 1) blob))"

definition ksys_execve ::
  "'w fs_table \<Rightarrow> 'w vfs_state \<Rightarrow> memory \<Rightarrow> exec_env \<Rightarrow> bool \<Rightarrow> u64 \<Rightarrow> kworld \<Rightarrow> task \<Rightarrow> trapframe
     \<Rightarrow> u64 \<Rightarrow> u64 \<Rightarrow> u64 \<Rightarrow> (kworld \<times> task \<times> trapframe \<times> int) option" where
  "ksys_execve tab fs m env blob_ok img w c fr pathp uargv uenvp = (case user_string m pathp 256 of
     Inl e \<Rightarrow> Some (w, c, fr, e)
   | Inr kpath \<Rightarrow>
       if kpath = [] then Some (w, c, fr, -2)
       else if \<not> blob_ok then Some (w, c, fr, -12)
       else case execve_args m uargv uenvp of
           Inl e \<Rightarrow> Some (w, c, fr, e)
         | Inr (blob, argc, envc) \<Rightarrow> (case execve_file tab fs (t_proc c) (proc_resolve_path (t_cwd c) kpath 256) of
               Inl e \<Rightarrow> Some (w, c, fr, e)
             | Inr (rp, ino, ops) \<Rightarrow>
                 if img = 0 then Some (w, c, fr, -12)
                 else let (r, bs) = op_read (tab ops) (fs_world fs) ino 0 (i_size ino) in
                   if r < 0 then Some (call (Kfree_image img) w, c, fr, -13)
                   else let w = w\<lparr>k_mem := load_at (k_mem w) img bs\<rparr>; nnp = no_new_privs (t_proc c) in
                     case process_exec env w c fr img (of_nat (i_size ino)) blob (int argc) (int envc) of
                       None \<Rightarrow> None
                     | Some (w, c, fr, r) \<Rightarrow>
                         if r \<noteq> 0 then Some (w, c, fr, r)
                         else let (w, c) = exec_ids w c ino (cred_on_root_mount (g_mounts fs) rp) nnp
                           in Some (call (Set_cmdline (block_strs (min argc 32) blob) (Some rp)) w, c, fr, 0)))"

subsection \<open>spawn\<close>

definition inherit_fd :: "task \<Rightarrow> nat \<Rightarrow> kworld \<times> task \<Rightarrow> kworld \<times> task" where
  "inherit_fd parent i wc =
    (if \<not> pf_used (t_fds parent ! i) then wc
     else let f = (t_fds parent ! i)\<lparr>pf_cloexec := False\<rparr> in (fd_ref f (fst wc), (snd wc)\<lparr>t_fds := (t_fds (snd wc))[i := f]\<rparr>))"

definition spawn_inherit_stdio :: "kworld \<Rightarrow> task option \<Rightarrow> task \<Rightarrow> kworld \<times> task" where
  "spawn_inherit_stdio w parent child = (case parent of None \<Rightarrow> (w, child) | Some p \<Rightarrow> fold (inherit_fd p) [0 ..< 3] (w, child))"

text \<open>Under the spawner's no_new_privs a child keeps no device.\<close>

definition spawn_confine :: "kworld \<Rightarrow> task option \<Rightarrow> task \<Rightarrow> kworld \<times> task" where
  "spawn_confine w caller p =
    (let bound = cap_exec_bound (map_option t_proc caller);
         (a, q) = cap_exec_transition (k_audit w) (t_proc p) bound (Some ''spawn'');
         w = w\<lparr>k_audit := a\<rparr>; p = p\<lparr>t_proc := q\<rparr>
     in if b_valid bound \<and> b_nnp bound \<and> t_type p = PROC_TYPE_DRIVER
        then (w\<lparr>k_drv := driver_remove_all_bindings (k_drv w) (Some (t_ptr p)),
                k_audit := cap_audit (k_audit w) (pid (t_proc p)) CAP_AUDIT_DRIVER SYS_SPAWN (Some ''spawn-nnp'') False\<rparr>,
              p\<lparr>t_type := PROC_TYPE_USER, t_dev := -1, t_dev_caps := 0\<rparr>)
        else (w, p))"

text \<open>Group, session, terminal, mask, user and directory of the spawner; the kernel (pid 0) passes none of them on.\<close>

definition spawn_inherit :: "kworld \<Rightarrow> task option \<Rightarrow> task \<Rightarrow> kworld \<times> task" where
  "spawn_inherit w caller p = (case caller of
     None \<Rightarrow> (w, p\<lparr>t_proc := (t_proc p)\<lparr>spawner_pid := 0\<rparr>\<rparr>)
   | Some sp \<Rightarrow>
       let p = p\<lparr>t_proc := (t_proc p)\<lparr>spawner_pid := pid (t_proc sp)\<rparr>\<rparr> in
       if pid (t_proc sp) = 0 then (w, p)
       else (call (Ctty_ref (t_ctty sp)) w,
             p\<lparr>t_proc := (t_proc p)\<lparr>pgid := pgid (t_proc sp), sid := sid (t_proc sp), umask := umask (t_proc sp), cred := cred (t_proc sp)\<rparr>,
               t_ctty := t_ctty sp, t_ctty_detached := t_ctty_detached sp, t_cwd := (if t_cwd sp \<noteq> [] then t_cwd sp else t_cwd p)\<rparr>))"

definition spawn_path :: "'w fs_table \<Rightarrow> 'w vfs_state \<Rightarrow> task option \<Rightarrow> string \<Rightarrow> int + string" where
  "spawn_path tab fs caller path =
    (if path \<noteq> [] \<and> is_slash (hd path) then
       (case cred_check_path tab fs (map_option t_proc caller) path True MAY_EXEC 256 of
          Inl e \<Rightarrow> Inl (if e = -2 then -1 else e)
        | Inr (rp, xi) \<Rightarrow> if i_type xi \<noteq> VFS_NODE_FILE then Inl (-13) else Inr rp)
     else Inr path)"

text \<open>The file lands in the buffer at \<open>buf\<close>; \<open>now\<close> is the tick at which the child becomes ready.\<close>

definition ksys_spawn_argv ::
  "'w fs_table \<Rightarrow> 'w vfs_state \<Rightarrow> create_env \<Rightarrow> u64 \<Rightarrow> u64 \<Rightarrow> kworld \<Rightarrow> task option \<Rightarrow> string \<Rightarrow> int \<Rightarrow> (nat \<Rightarrow> u8 list option)
     \<Rightarrow> (kworld \<times> task option \<times> int) option" where
  "ksys_spawn_argv tab fs env buf now w caller path argc argv = (case spawn_path tab fs caller path of
     Inl e \<Rightarrow> Some (w, None, e)
   | Inr path \<Rightarrow>
       let (n, bs) = vfs_read_all tab fs path spawn_buf_size in
       if n \<le> 0 then Some (w, None, -1)
       else case process_create_from_elf_args env (w\<lparr>k_mem := load_at (k_mem w) buf bs\<rparr>) buf (of_int n) argc argv of
           None \<Rightarrow> None
         | Some (w, None) \<Rightarrow> Some (w, None, -1)
         | Some (w, Some p) \<Rightarrow>
             let bound = cap_exec_bound (map_option t_proc caller);
                 (w, p) = spawn_confine w caller p;
                 (w, p) = spawn_inherit_stdio w caller p;
                 (w, p) = spawn_inherit w caller p;
                 (w, p) = (case vfs_lookup tab fs path of
                     None \<Rightarrow> (w, p)
                   | Some fi \<Rightarrow> exec_ids w p fi (cred_on_root_mount (g_mounts fs) path) (b_valid bound \<and> b_nnp bound))
             in Some (w, Some (p\<lparr>t_ready_tick := now, t_proc := (t_proc p)\<lparr>state := PROC_READY\<rparr>\<rparr>), sint (pid (t_proc p))))"

end
