(* ===== verification/User_Space.thy ===== *)
theory User_Space
  imports Vmm_Fault Elf
begin

text \<open>
  A user address space as its owner sees it.  The invariant says that its page tables form a tree
  of small pages, that its pages are distinct frames apart from the tables, and that all of this
  lies in a given set of frames; under it user memory is a function from addresses to bytes,
  where a page that is not there yet reads as zero.
\<close>

subsection \<open>The invariant\<close>

definition no_ps :: "vmm \<Rightarrow> u64 \<Rightarrow> bool" where
  "no_ps s root \<longleftrightarrow> (\<forall>p t i. upath p \<and> p \<noteq> [] \<and> length p \<le> 2 \<and> walk s root p = Some t \<longrightarrow> \<not> has (pm s t i) VMM_FLAG_PS)"

abbreviation leaf :: "vmm \<Rightarrow> u64 \<Rightarrow> u64 \<Rightarrow> u64" where
  "leaf s root va \<equiv> pte s root va AND ADDRESS_MASK"

definition page_held :: "vmm \<Rightarrow> u64 \<Rightarrow> u64 \<Rightarrow> bool" where
  "page_held s root a \<longleftrightarrow> a \<noteq> 0 \<and> frame_no a \<notin> free_set (frames s) \<and> (\<forall>p. upath p \<longrightarrow> walk s root p \<noteq> Some a)"

definition space_ok :: "vmm \<Rightarrow> u64 \<Rightarrow> bool" where
  "space_ok s root \<longleftrightarrow> tree_ok s root \<and> physmap_initialized s \<and> no_ps s root
     \<and> (\<forall>va. user_va va \<and> vmm_pte_has_frame (pte s root va) \<longrightarrow> has (pte s root va) VMM_FLAG_PRESENT \<and> page_held s root (leaf s root va))
     \<and> (\<forall>va vb. user_va va \<and> user_va vb \<and> vmm_pte_has_frame (pte s root va) \<and> vmm_pte_has_frame (pte s root vb) \<and> leaf s root va = leaf s root vb
          \<longrightarrow> unat va div 4096 = unat vb div 4096)"

definition tables_in :: "nat set \<Rightarrow> vmm \<Rightarrow> u64 \<Rightarrow> bool" where
  "tables_in F s root \<longleftrightarrow> root AND ADDRESS_MASK = root \<and> (\<forall>p t. upath p \<and> walk s root p = Some t \<longrightarrow> frame_no t \<in> F)"

definition owns :: "nat set \<Rightarrow> vmm \<Rightarrow> u64 \<Rightarrow> bool" where
  "owns F s root \<longleftrightarrow> space_ok s root \<and> free_set (frames s) \<subseteq> F \<and> tables_in F s root
     \<and> (\<forall>va. user_va va \<and> vmm_pte_has_frame (pte s root va) \<longrightarrow> frame_no (leaf s root va) \<in> F)"

definition only_in :: "nat set \<Rightarrow> vmm \<Rightarrow> vmm \<Rightarrow> bool" where
  "only_in F s s' \<longleftrightarrow> (\<forall>a. frame_no a \<notin> F \<longrightarrow> pm s' a = pm s a)"

lemma only_in_refl [simp]: "only_in F s s"
  by (simp add: only_in_def)

lemma only_in_trans: "only_in F s s' \<Longrightarrow> only_in F s' s'' \<Longrightarrow> only_in F s s''"
  by (simp add: only_in_def)

lemma space_okD:
  assumes "space_ok s root"
  shows "tree_ok s root" "physmap_initialized s" "no_ps s root"
    "user_va va \<Longrightarrow> vmm_pte_has_frame (pte s root va) \<Longrightarrow> has (pte s root va) VMM_FLAG_PRESENT"
    "user_va va \<Longrightarrow> vmm_pte_has_frame (pte s root va) \<Longrightarrow> page_held s root (leaf s root va)"
    "user_va va \<Longrightarrow> user_va vb \<Longrightarrow> vmm_pte_has_frame (pte s root va) \<Longrightarrow> vmm_pte_has_frame (pte s root vb) \<Longrightarrow>
       leaf s root va = leaf s root vb \<Longrightarrow> unat va div 4096 = unat vb div 4096"
  using assms unfolding space_ok_def by blast+

lemma space_okI:
  assumes "tree_ok s root" "physmap_initialized s" "no_ps s root"
    "\<And>va. user_va va \<Longrightarrow> vmm_pte_has_frame (pte s root va) \<Longrightarrow> has (pte s root va) VMM_FLAG_PRESENT \<and> page_held s root (leaf s root va)"
    "\<And>va vb. user_va va \<Longrightarrow> user_va vb \<Longrightarrow> vmm_pte_has_frame (pte s root va) \<Longrightarrow> vmm_pte_has_frame (pte s root vb) \<Longrightarrow>
       leaf s root va = leaf s root vb \<Longrightarrow> unat va div 4096 = unat vb div 4096"
  shows "space_ok s root"
  using assms unfolding space_ok_def by blast

lemma ownsD:
  assumes "owns F s root"
  shows "space_ok s root" "free_set (frames s) \<subseteq> F" "tables_in F s root"
    "user_va va \<Longrightarrow> vmm_pte_has_frame (pte s root va) \<Longrightarrow> frame_no (leaf s root va) \<in> F"
    "upath p \<Longrightarrow> walk s root p = Some t \<Longrightarrow> frame_no t \<in> F" "tree_ok s root"
  using assms unfolding owns_def tables_in_def space_ok_def by blast+

lemma ownsI:
  assumes "space_ok s root" "free_set (frames s) \<subseteq> F" "\<And>p t. upath p \<Longrightarrow> walk s root p = Some t \<Longrightarrow> frame_no t \<in> F"
    "\<And>va. user_va va \<Longrightarrow> vmm_pte_has_frame (pte s root va) \<Longrightarrow> frame_no (leaf s root va) \<in> F"
  shows "owns F s root"
  using assms root_masked [OF space_okD(1) [OF assms(1)]] unfolding owns_def tables_in_def by blast

lemma has_frame_present: "has e VMM_FLAG_PRESENT \<Longrightarrow> vmm_pte_has_frame e"
  by (simp add: has_frame_bit has_bit)

subsection \<open>User memory\<close>

definition frame_byte :: "vmm \<Rightarrow> u64 \<Rightarrow> u8" where
  "frame_byte s phys = (let o8 = unat (phys AND 0xFFF) in ucast (drop_bit (8 * (o8 mod 8)) (pm s (phys AND NOT 0xFFF) (o8 div 8))))"

definition ubyte :: "vmm \<Rightarrow> u64 \<Rightarrow> u64 \<Rightarrow> u8" where
  "ubyte s root va = (if has (pte s root va) VMM_FLAG_PRESENT then frame_byte s (leaf s root va OR (va AND 0xFFF)) else 0)"

lemma masked_parts:
  fixes a x :: u64
  assumes "a AND ADDRESS_MASK = a"
  shows "(a OR (x AND 0xFFF)) AND NOT 0xFFF = a" "(a OR (x AND 0xFFF)) AND 0xFFF = x AND 0xFFF"
proof -
  have b: "bit (0xFFF :: u64) k \<longleftrightarrow> k < 12" for k
  proof -
    have "(0xFFF :: u64) = mask 12" by (simp add: mask_eq_exp_minus_1)
    then show ?thesis by (simp only: bit_mask_iff) auto
  qed
  have n: "bit a k \<Longrightarrow> 12 \<le> k" for k
    using arg_cong [OF assms, of "\<lambda>x. bit x k"] by (simp add: bit_and_iff bit_address_mask)
  show "(a OR (x AND 0xFFF)) AND NOT 0xFFF = a"
    by (rule bit_word_eqI, unfold bit_and_iff bit_or_iff bit_not_iff b) (use n in fastforce)
  show "(a OR (x AND 0xFFF)) AND 0xFFF = x AND 0xFFF"
    by (rule bit_word_eqI, unfold bit_and_iff bit_or_iff b) (use n in fastforce)
qed

lemma mask_mask: "(e AND ADDRESS_MASK) AND ADDRESS_MASK = e AND ADDRESS_MASK"
  by (simp add: and.assoc)

text \<open>Writing a byte of a frame.\<close>

lemma byte_lane:
  fixes w :: u64 and b :: u8
  assumes "i < 8" "j < 8"
  shows "(ucast (drop_bit (8 * j) ((w AND NOT (push_bit (8 * i) 0xFF)) OR push_bit (8 * i) (ucast b))) :: u8)
    = (if i = j then b else ucast (drop_bit (8 * j) w))"
proof (rule bit_word_eqI)
  fix k assume "k < LENGTH(8)"
  then have k: "k < 8" by simp
  have f: "bit (0xFF :: u64) n \<longleftrightarrow> n < 8" for n
  proof -
    have "(0xFF :: u64) = mask 8" by (simp add: mask_eq_exp_minus_1)
    then show ?thesis by (simp only: bit_mask_iff) auto
  qed
  have "8 * j + k < 8 * i \<or> 8 * i + 8 \<le> 8 * j + k" if "i \<noteq> j" using that k by linarith
  then show "bit (ucast (drop_bit (8 * j) ((w AND NOT (push_bit (8 * i) 0xFF)) OR push_bit (8 * i) (ucast b))) :: u8) k
      = bit (if i = j then b else ucast (drop_bit (8 * j) w)) k"
    using k assms unfolding if_distrib [of "\<lambda>x. bit x k"] bit_ucast_iff bit_drop_bit_eq comp_def bit_or_iff bit_and_iff bit_not_iff bit_push_bit_iff f
    by (auto dest: bit_imp_le_length)
qed

lemma poke_pm: "pm (poke s phys b) a = (if a = phys AND NOT 0xFFF then pm (poke s phys b) (phys AND NOT 0xFFF) else pm s a)"
  by (simp add: poke_def Let_def)

lemma poke_at:
  "pm (poke s phys b) t i = (if t = phys AND NOT 0xFFF \<and> i = unat (phys AND 0xFFF) div 8
     then (pm s t i AND NOT (push_bit (8 * (unat (phys AND 0xFFF) mod 8)) 0xFF)) OR push_bit (8 * (unat (phys AND 0xFFF) mod 8)) (ucast b) else pm s t i)"
  by (simp add: poke_def Let_def)

lemma poke_simps [simp]: "frames (poke s phys b) = frames s" "physmap_initialized (poke s phys b) = physmap_initialized s"
  by (simp_all add: poke_def Let_def)

lemma page_split: "(x AND NOT 0xFFF) OR (x AND 0xFFF) = x" for x :: u64
  by (rule bit_word_eqI) (auto simp: bit_simps)

lemma poke_byte: "frame_byte (poke s phys b) q = (if q = phys then b else frame_byte s q)"
proof -
  let ?o = "unat (phys AND 0xFFF)" and ?p = "unat (q AND 0xFFF)"
  have eq: "q = phys \<longleftrightarrow> q AND NOT 0xFFF = phys AND NOT 0xFFF \<and> ?o div 8 = ?p div 8 \<and> ?o mod 8 = ?p mod 8"
  proof
    assume a: "q AND NOT 0xFFF = phys AND NOT 0xFFF \<and> ?o div 8 = ?p div 8 \<and> ?o mod 8 = ?p mod 8"
    then have "?o = ?p" by (metis div_mod_decomp)
    then have "phys AND 0xFFF = q AND 0xFFF" by (simp only: word_unat_eq_iff)
    with a show "q = phys" using page_split [of q] page_split [of phys] by simp
  qed simp
  note L = byte_lane [of "?o mod 8" "?p mod 8" "pm s (q AND NOT 0xFFF) (?p div 8)" b]
  show ?thesis
  proof (cases "q AND NOT 0xFFF = phys AND NOT 0xFFF \<and> ?p div 8 = ?o div 8")
    case True
    then show ?thesis unfolding frame_byte_def Let_def poke_at if_P [OF True] using L eq by simp
  next
    case False
    then have "q \<noteq> phys" using eq by auto
    then show ?thesis unfolding frame_byte_def Let_def poke_at if_not_P [OF False] by simp
  qed
qed

subsection \<open>Steps that keep the invariant\<close>

lemma no_psD: "no_ps s root \<Longrightarrow> upath p \<Longrightarrow> p \<noteq> [] \<Longrightarrow> length p \<le> 2 \<Longrightarrow> walk s root p = Some t \<Longrightarrow> \<not> has (pm s t i) VMM_FLAG_PS"
  unfolding no_ps_def by blast

lemma owns_cong:
  assumes o: "owns F s root" and t: "tree_ok s' root" "physmap_initialized s'" "no_ps s' root" and f: "free_set (frames s') \<subseteq> free_set (frames s)"
    and e: "\<And>va. user_va va \<Longrightarrow> pte s' root va = pte s root va"
    and w: "\<And>p t. upath p \<Longrightarrow> walk s' root p = Some t \<Longrightarrow> walk s root p = Some t \<or> frame_no t \<in> free_set (frames s)"
  shows "owns F s' root"
proof (rule ownsI)
  note S = space_okD [OF ownsD(1) [OF o]] and O = ownsD [OF o]
  show "space_ok s' root"
  proof (rule space_okI [OF t])
    fix va assume va: "user_va va" "vmm_pte_has_frame (pte s' root va)"
    then have h: "vmm_pte_has_frame (pte s root va)" by (simp add: e)
    have "page_held s root (leaf s root va)" by (rule S(5) [OF va(1) h])
    then have "page_held s' root (leaf s root va)" using f w unfolding page_held_def by blast
    with S(4) [OF va(1) h] show "has (pte s' root va) VMM_FLAG_PRESENT \<and> page_held s' root (leaf s' root va)" by (simp add: e [OF va(1)])
  next
    fix va vb assume v: "user_va va" "user_va vb" "vmm_pte_has_frame (pte s' root va)" "vmm_pte_has_frame (pte s' root vb)" "leaf s' root va = leaf s' root vb"
    from S(6) [OF v(1,2)] v(3-5) show "unat va div 4096 = unat vb div 4096" unfolding e [OF v(1)] e [OF v(2)] .
  qed
  show "free_set (frames s') \<subseteq> F" using f O(2) by blast
  show "frame_no t \<in> F" if "upath p" "walk s' root p = Some t" for p t using w [OF that] O(2) O(5) [OF that(1)] by blast
  show "frame_no (leaf s' root va) \<in> F" if "user_va va" "vmm_pte_has_frame (pte s' root va)" for va
    using O(4) [OF that(1)] that(2) unfolding e [OF that(1)] .
qed

lemma owns_set_page:
  assumes o: "owns F s root" and no: "\<And>p. upath p \<Longrightarrow> walk s root p \<noteq> Some a" and a: "frame_no a \<in> F"
  shows "owns F (set_page s a w) root" "only_in F s (set_page s a w)" "user_va va \<Longrightarrow> pte (set_page s a w) root va = pte s root va"
proof -
  note S = space_okD [OF ownsD(1) [OF o]]
  have n: "t \<noteq> a" if "upath p" "walk s root p = Some t" for p t using no [OF that(1)] that(2) by auto
  have T: "tree_ok (set_page s a w) root" "upath p \<Longrightarrow> walk (set_page s a w) root p = walk s root p"
    "user_va va \<Longrightarrow> pte (set_page s a w) root va = pte s root va" for p va
    by (rule set_page_tree [OF ownsD(6) [OF o]]; use n in blast)+
  show pt: "user_va va \<Longrightarrow> pte (set_page s a w) root va = pte s root va" for va by (rule T(3))
  show "only_in F s (set_page s a w)" using a by (auto simp: only_in_def)
  have "no_ps (set_page s a w) root" unfolding no_ps_def
  proof (intro allI impI)
    fix p t i assume p: "upath p \<and> p \<noteq> [] \<and> length p \<le> 2 \<and> walk (set_page s a w) root p = Some t"
    then have "walk s root p = Some t" using T(2) [of p] by simp
    then show "\<not> has (pm (set_page s a w) t i) VMM_FLAG_PS" using no_psD [OF S(3), of p t i] n [of p t] p by simp
  qed
  then show "owns F (set_page s a w) root"
    by (intro owns_cong [OF o T(1)]) (use S(2) T in auto)
qed

lemma owns_get_frame:
  assumes o: "owns F s root" and g: "get_frame s = (s1, a)" "a \<noteq> 0"
  shows "owns F s1 root" "pm s1 = pm s" "a AND ADDRESS_MASK = a" "frame_no a \<in> F" "frame_no a \<notin> free_set (frames s1)"
    "\<And>p. upath p \<Longrightarrow> walk s root p \<noteq> Some a" "user_va vb \<Longrightarrow> vmm_pte_has_frame (pte s root vb) \<Longrightarrow> leaf s root vb \<noteq> a"
proof -
  note S = space_okD [OF ownsD(1) [OF o]] and f = get_frame_spec [OF tree_okD(1) [OF ownsD(6) [OF o]] g]
  show "pm s1 = pm s" "a AND ADDRESS_MASK = a" "frame_no a \<in> F" "frame_no a \<notin> free_set (frames s1)" using f ownsD(2) [OF o] by auto
  show "walk s root p \<noteq> Some a" if "upath p" for p using fresh_not_table [OF ownsD(6) [OF o] f(6) that] by blast
  show "user_va vb \<Longrightarrow> vmm_pte_has_frame (pte s root vb) \<Longrightarrow> leaf s root vb \<noteq> a" using S(5) [of vb] f(6) by (auto simp: page_held_def)
  have w: "walk s1 root p = walk s root p" "pte s1 root va = pte s root va" for p va by (rule walk_pm [OF f(2)], rule pte_pm [OF f(2)])
  have "no_ps s1 root" using S(3) unfolding no_ps_def w f(2) .
  then show "owns F s1 root"
    by (intro owns_cong [OF o tree_get_frame(1) [OF ownsD(6) [OF o] g]]) (use S(2) f(4,7) w in auto)
qed

lemma frame_no_inj:
  assumes "a AND ADDRESS_MASK = a" "b AND ADDRESS_MASK = b" "frame_no a = frame_no b"
  shows "a = b"
proof -
  have "unat x = 4096 * frame_no x" if "x AND ADDRESS_MASK = x" for x
  proof -
    have "x AND 0xFFF = 0" using masked_parts(2) [OF that, of 0] by simp
    then have "unat x mod 4096 = 0" unfolding page_aligned_iff [symmetric] page_aligned_def .
    then have "4096 * (unat x div 4096) = unat x" by (metis mult_div_mod_eq add.right_neutral)
    then show ?thesis by (simp add: frame_no_def unat_div)
  qed
  from this [OF assms(1)] this [OF assms(2)] assms(3) show ?thesis by (simp add: word_unat_eq_iff)
qed

lemma next_table_no_ps:
  assumes ok: "tree_ok s root" and p: "upath p" "length p \<le> 2" "walk s root p = Some t" "upath (p @ [i])"
    and n: "next_table s t i create flags = (s', r)" and ps: "no_ps s root"
  shows "no_ps s' root"
proof (cases "s' = s")
  case False
  then have c: "\<not> has (pm s t i) VMM_FLAG_PRESENT" "create" using n by (auto simp: next_table_def split: if_splits)
  obtain s1 a where g: "get_frame s = (s1, a)" by force
  have a: "a \<noteq> 0" using n c g False get_frame_fail [OF _ tree_okD(1) [OF ok], of s1]
    by (auto simp: next_table_def get_or_create_table_def Let_def split: if_splits)
  note f = get_frame_spec [OF tree_okD(1) [OF ok] g a]
  define e where "e = (a AND ADDRESS_MASK) OR (flags AND (VMM_FLAG_USER OR VMM_FLAG_PWT OR VMM_FLAG_PCD)) OR VMM_FLAG_RW OR VMM_FLAG_PRESENT"
  have s': "s' = set_entry (zero_frame s1 a) t i e"
    using n c g a by (auto simp: next_table_def get_or_create_table_def Let_def e_def split: if_splits)
  have e: "has e VMM_FLAG_PRESENT" "e AND ADDRESS_MASK = a" using table_entry [OF f(5), of flags] unfolding e_def by auto
  have "\<not> bit e 7"
    unfolding e_def bit_or_iff bit_and_iff bit_address_mask flag_bits by (simp add: bit_push_bit_iff)
  then have eps: "\<not> has e VMM_FLAG_PS" unfolding has_def flag_bits(6) and_push_bit by simp
  note B = buildsD [OF link_table(1) [OF ok p c(1) g a e]]
  show ?thesis unfolding no_ps_def s'
  proof (intro allI impI)
    fix q u j assume q: "upath q \<and> q \<noteq> [] \<and> length q \<le> 2 \<and> walk (set_entry (zero_frame s1 a) t i e) root q = Some u"
    then have "walk s root q = Some u \<or> frame_no u \<in> free_set (frames s)" using B(9) by blast
    then show "\<not> has (pm (set_entry (zero_frame s1 a) t i e) u j) VMM_FLAG_PS"
    proof
      assume "walk s root q = Some u"
      then show ?thesis using no_psD [OF ps, of q u j] q eps f(2) by (auto simp: has_def)
    next
      assume fu: "frame_no u \<in> free_set (frames s)"
      have h: "held_table (set_entry (zero_frame s1 a) t i e) u" using tree_okD(2) [OF B(1)] q by blast
      then have "frame_no u = frame_no a" using fu f(7) by (auto simp: held_table_def)
      then have "u = a" by (rule frame_no_inj [rotated 2]) (use h f(5) in \<open>auto simp: held_table_def\<close>)
      moreover have "t \<noteq> a" using tree_okD(2) [OF ok p(1,3)] f(6) by (auto simp: held_table_def)
      ultimately show ?thesis by (simp add: has_def)
    qed
  qed
qed (use ps in simp)

lemma get_pt_no_ps:
  assumes ok: "tree_ok s root" and va: "user_va va" and ps: "no_ps s root" and g: "get_pt_space s root va create flags = (s', r)"
  shows "no_ps s' root"
proof -
  have u: "upath []" "upath [pml4_i va]" "upath [pml4_i va, pdpt_i va]" "upath [pml4_i va, pdpt_i va, pdt_i va]"
    using upath_user [OF va] by (auto simp: table_path_def upath_def)
  obtain s1 r1 where n1: "next_table s root (pml4_i va) create flags = (s1, r1)" by force
  note N1 = next_table_builds [OF ok u(1) _ _ _ n1, simplified, OF u(2)] and P1 = next_table_no_ps [OF ok u(1) _ _ _ n1 ps, simplified, OF u(2)]
  show ?thesis
  proof (cases r1)
    case None
    then show ?thesis using g n1 P1 root_masked [OF ok] by (simp add: get_pt_space_def)
  next
    case (Some t1)
    obtain s2 r2 where n2: "next_table s1 t1 (pdpt_i va) create flags = (s2, r2)" by force
    have w1: "walk s1 root [pml4_i va] = Some t1" using N1(2) Some by blast
    note ok1 = buildsD(1) [OF N1(1)]
    note N2 = next_table_builds [OF ok1 u(2) _ w1 _ n2, simplified, OF u(3)] and P2 = next_table_no_ps [OF ok1 u(2) _ w1 _ n2 P1, simplified, OF u(3)]
    show ?thesis
    proof (cases r2)
      case None
      then show ?thesis using g n1 n2 Some P2 root_masked [OF ok] by (simp add: get_pt_space_def)
    next
      case (Some t2)
      have w2: "walk s2 root [pml4_i va, pdpt_i va] = Some t2" using N2(2) Some by blast
      have "next_table s2 t2 (pdt_i va) create flags = (s', r)"
        using g n1 n2 \<open>r1 = Some t1\<close> Some root_masked [OF ok] by (simp add: get_pt_space_def)
      from next_table_no_ps [OF buildsD(1) [OF N2(1)] u(3) _ w2 _ this P2, simplified, OF u(4)] show ?thesis .
    qed
  qed
qed

lemma owns_builds:
  assumes o: "owns F s root" and b: "builds s root s'" and ps: "no_ps s' root"
  shows "owns F s' root" "only_in F s s'" "\<And>va. user_va va \<Longrightarrow> pte s' root va = pte s root va" "\<And>va. user_va va \<Longrightarrow> ubyte s' root va = ubyte s root va"
proof -
  note B = buildsD [OF b] and S = space_okD [OF ownsD(1) [OF o]]
  show "owns F s' root" by (rule owns_cong [OF o B(1) _ ps B(2) B(6) B(9)]) (use B(5) S(2) in auto)
  show e: "user_va va \<Longrightarrow> pte s' root va = pte s root va" for va by (rule B(6))
  show "only_in F s s'" unfolding only_in_def
  proof (intro allI impI ext)
    fix a i assume "frame_no a \<notin> F"
    then show "pm s' a i = pm s a i" using ownsD(2) [OF o] ownsD(5) [OF o] by (intro B(7)) blast+
  qed
  fix va assume va: "user_va va"
  show "ubyte s' root va = ubyte s root va"
  proof (cases "has (pte s root va) VMM_FLAG_PRESENT")
    case True
    have h: "page_held s root (leaf s root va)" by (rule S(5) [OF va has_frame_present [OF True]])
    have "pm s' (leaf s root va) i = pm s (leaf s root va) i" for i by (rule B(7)) (use h in \<open>auto simp: page_held_def\<close>)
    then show ?thesis unfolding ubyte_def e [OF va] frame_byte_def Let_def masked_parts(1) [OF mask_mask] by simp
  qed (simp add: ubyte_def e [OF va])
qed

lemma map_entry_leaf:
  assumes "a AND ADDRESS_MASK = a" "flags AND ADDRESS_MASK = 0"
  shows "map_entry a flags AND ADDRESS_MASK = a" "has (map_entry a flags) VMM_FLAG_PRESENT"
proof -
  have n: "\<not> bit flags k" if "12 \<le> k" "k < 52" for k
    using arg_cong [OF assms(2), of "\<lambda>x. bit x k"] that by (simp add: bit_and_iff bit_address_mask)
  show "map_entry a flags AND ADDRESS_MASK = a" unfolding map_entry_def assms(1)
    by (rule entry_mask [OF assms(1)], rule bit_word_eqI) (use n in \<open>auto simp: entry_bits bit_address_mask bit_1_iff\<close>)
  show "has (map_entry a flags) VMM_FLAG_PRESENT" by (simp only: has_bit map_entry_bits)
qed

lemma frame_byte_cong: "pm s' (phys AND NOT 0xFFF) = pm s (phys AND NOT 0xFFF) \<Longrightarrow> frame_byte s' phys = frame_byte s phys"
  by (simp add: frame_byte_def)

lemma owns_leaf:
  fixes s t va a flags
  assumes o: "owns F s root" and va: "user_va va" and t: "walk s root (table_path va) = Some t" and e: "\<not> vmm_pte_has_frame (pte s root va)"
    and a: "a AND ADDRESS_MASK = a" "a \<noteq> 0" "frame_no a \<in> F" "frame_no a \<notin> free_set (frames s)" "\<And>p. upath p \<Longrightarrow> walk s root p \<noteq> Some a"
      "\<And>vb. user_va vb \<Longrightarrow> vmm_pte_has_frame (pte s root vb) \<Longrightarrow> leaf s root vb \<noteq> a"
    and fl: "flags AND ADDRESS_MASK = 0"
  defines "s' \<equiv> set_entry s t (pt_i va) (map_entry a flags)"
  shows "owns F s' root" "only_in F s s'"
    "\<And>vb. user_va vb \<Longrightarrow> pte s' root vb = (if unat vb div 4096 = unat va div 4096 then map_entry a flags else pte s root vb)"
    "\<And>vb. user_va vb \<Longrightarrow> ubyte s' root vb = (if unat vb div 4096 = unat va div 4096 then frame_byte s (a OR (vb AND 0xFFF)) else ubyte s root vb)"
proof -
  note S = space_okD [OF ownsD(1) [OF o]] and O = ownsD [OF o] and M = map_entry_leaf [OF a(1) fl]
  note up = upath_user [OF va]
  have l3: "length (table_path va) = 3" by (simp add: table_path_def)
  have w: "walk s' root q = walk s root q" if "upath q" for q unfolding s'_def by (rule walk_set_leaf [OF O(6) up l3 t that])
  show p: "pte s' root vb = (if unat vb div 4096 = unat va div 4096 then map_entry a flags else pte s root vb)" if "user_va vb" for vb
    unfolding s'_def by (rule set_leaf_pte(2) [OF O(6) va t that])
  show "only_in F s s'" using O(5) [OF up t] by (auto simp: only_in_def s'_def)
  have ps: "no_ps s' root" unfolding no_ps_def
  proof (intro allI impI)
    fix q u i assume q: "upath q \<and> q \<noteq> [] \<and> length q \<le> 2 \<and> walk s' root q = Some u"
    then have u: "walk s root q = Some u" using w [of q] by auto
    then have "u \<noteq> t" using tree_okD(3) [OF O(6) _ up u] t q l3 by auto
    then show "\<not> has (pm s' u i) VMM_FLAG_PS" using no_psD [OF S(3), of q u i] q u by (simp add: s'_def)
  qed
  have h: "page_held s' root x \<longleftrightarrow> page_held s root x" for x by (auto simp: page_held_def s'_def w [unfolded s'_def])
  have ha: "page_held s root a" using a by (auto simp: page_held_def)
  show "owns F s' root"
  proof (rule ownsI)
    show "space_ok s' root"
    proof (rule space_okI [OF _ _ ps])
      show "tree_ok s' root" unfolding s'_def by (rule tree_set_leaf [OF O(6) up l3 t])
      show "physmap_initialized s'" using S(2) by (simp add: s'_def)
      show "has (pte s' root vb) VMM_FLAG_PRESENT \<and> page_held s' root (leaf s' root vb)" if "user_va vb" "vmm_pte_has_frame (pte s' root vb)" for vb
        using that S(4,5) [OF that(1)] M ha unfolding h p [OF that(1)] by (simp split: if_splits)
      show "unat vb div 4096 = unat vc div 4096" if "user_va vb" "user_va vc" "vmm_pte_has_frame (pte s' root vb)" "vmm_pte_has_frame (pte s' root vc)"
        "leaf s' root vb = leaf s' root vc" for vb vc
        using that(3-5) S(6) [OF that(1,2)] a(6) [OF that(1)] a(6) [OF that(2)] M unfolding p [OF that(1)] p [OF that(2)] by (auto split: if_splits)
    qed
    show "free_set (frames s') \<subseteq> F" using O(2) by (simp add: s'_def)
    show "frame_no u \<in> F" if "upath q" "walk s' root q = Some u" for q u using O(5) that w by simp
    show "frame_no (leaf s' root vb) \<in> F" if "user_va vb" "vmm_pte_has_frame (pte s' root vb)" for vb
      using that O(4) [OF that(1)] M a(3) unfolding p [OF that(1)] by (simp split: if_splits)
  qed
  have pm: "x \<noteq> t \<Longrightarrow> pm s' x = pm s x" for x by (simp add: s'_def)
  have ta: "a \<noteq> t" using a(5) [OF up] t by auto
  fix vb assume vb: "user_va vb"
  show "ubyte s' root vb = (if unat vb div 4096 = unat va div 4096 then frame_byte s (a OR (vb AND 0xFFF)) else ubyte s root vb)"
  proof (cases "unat vb div 4096 = unat va div 4096")
    case True
    have "frame_byte s' (a OR (vb AND 0xFFF)) = frame_byte s (a OR (vb AND 0xFFF))"
      by (rule frame_byte_cong) (simp only: masked_parts(1) [OF a(1)] pm [OF ta])
    then show ?thesis using True M by (simp add: ubyte_def p [OF vb])
  next
    case False
    have "frame_byte s' (leaf s root vb OR (vb AND 0xFFF)) = frame_byte s (leaf s root vb OR (vb AND 0xFFF))" if "has (pte s root vb) VMM_FLAG_PRESENT"
    proof (rule frame_byte_cong)
      have "leaf s root vb \<noteq> t" using S(5) [OF vb has_frame_present [OF that]] up t by (auto simp: page_held_def)
      then show "pm s' ((leaf s root vb OR (vb AND 0xFFF)) AND NOT 0xFFF) = pm s ((leaf s root vb OR (vb AND 0xFFF)) AND NOT 0xFFF)"
        unfolding masked_parts(1) [OF mask_mask] by (rule pm)
    qed
    with False show ?thesis by (simp add: ubyte_def p [OF vb])
  qed
qed

text \<open>A frame that can become a page: held, and neither a table nor a page of the space.\<close>

definition spare :: "nat set \<Rightarrow> vmm \<Rightarrow> u64 \<Rightarrow> u64 \<Rightarrow> bool" where
  "spare F s root a \<longleftrightarrow> a AND ADDRESS_MASK = a \<and> frame_no a \<in> F \<and> page_held s root a
     \<and> (\<forall>vb. user_va vb \<and> vmm_pte_has_frame (pte s root vb) \<longrightarrow> leaf s root vb \<noteq> a)"

lemma spareD:
  assumes "spare F s root a"
  shows "a AND ADDRESS_MASK = a" "a \<noteq> 0" "frame_no a \<in> F" "frame_no a \<notin> free_set (frames s)" "\<And>p. upath p \<Longrightarrow> walk s root p \<noteq> Some a"
    "\<And>vb. user_va vb \<Longrightarrow> vmm_pte_has_frame (pte s root vb) \<Longrightarrow> leaf s root vb \<noteq> a"
  using assms unfolding spare_def page_held_def by blast+

lemma spare_builds:
  assumes "spare F s root a" "builds s root s'"
  shows "spare F s' root a" "pm s' a = pm s a"
proof -
  note A = spareD [OF assms(1)] and B = buildsD [OF assms(2)]
  have "page_held s' root a" using A(2,4,5) B(2,9) unfolding page_held_def by blast
  moreover have "leaf s' root vb \<noteq> a" if "user_va vb" "vmm_pte_has_frame (pte s' root vb)" for vb
    using A(6) [OF that(1)] that(2) unfolding B(6) [OF that(1)] .
  ultimately show "spare F s' root a" using A(1,3) unfolding spare_def by blast
  show "pm s' a = pm s a" by (rule ext, rule B(7) [OF A(4)]) (use A(5) in blast)
qed

definition maps_page :: "nat set \<Rightarrow> vmm \<Rightarrow> u64 \<Rightarrow> u64 \<Rightarrow> u64 \<Rightarrow> u64 \<Rightarrow> (u64 \<Rightarrow> u8) \<Rightarrow> vmm \<Rightarrow> bool" where
  "maps_page F s root va a flags bytes s' \<longleftrightarrow> owns F s' root \<and> only_in F s s' \<and> \<not> vmm_pte_has_frame (pte s root va)
     \<and> (\<forall>vb. user_va vb \<longrightarrow> pte s' root vb = (if unat vb div 4096 = unat va div 4096 then map_entry a flags else pte s root vb))
     \<and> (\<forall>vb. user_va vb \<longrightarrow> ubyte s' root vb = (if unat vb div 4096 = unat va div 4096 then bytes vb else ubyte s root vb))"

lemma owns_map:
  assumes o: "owns F s root" and va: "user_va va" and a: "spare F s root a" and fl: "flags AND ADDRESS_MASK = 0"
    and m: "vmm_map_in_space s root va a flags = (s', r)"
  shows "if r = 0 then maps_page F s root va a flags (\<lambda>vb. frame_byte s (a OR (vb AND 0xFFF))) s' else owns F s' root \<and> only_in F s s'"
proof (cases "r = 0")
  case True
  then obtain s1 t where g: "get_pt_space s root va True flags = (s1, Some t)" "\<not> vmm_pte_has_frame (pm s1 t (pt_i va))"
    and s': "s' = set_entry s1 t (pt_i va) (map_entry a flags)"
    using m by (auto simp: vmm_map_in_space_def map_entry_def split: if_splits prod.splits option.splits)
  note G = get_pt_spec [OF ownsD(6) [OF o] va g(1)] and ps = get_pt_no_ps [OF ownsD(6) [OF o] va space_okD(3) [OF ownsD(1) [OF o]] g(1)]
  note O1 = owns_builds [OF o G(1) ps] and A1 = spare_builds [OF a G(1)]
  have t: "walk s1 root (table_path va) = Some t" using G(2) by blast
  have e: "\<not> vmm_pte_has_frame (pte s1 root va)" using g(2) t by (simp add: pte_def)
  note L = owns_leaf [OF O1(1) va t e spareD [OF A1(1)] fl, folded s']
  have b: "frame_byte s1 (a OR (vb AND 0xFFF)) = frame_byte s (a OR (vb AND 0xFFF))" for vb
    by (rule frame_byte_cong) (simp only: masked_parts(1) [OF spareD(1) [OF a]] A1(2))
  show ?thesis using True L only_in_trans [OF O1(2) L(2)] e O1(3,4) va unfolding maps_page_def b by simp
next
  case False
  have "builds s root s'" using map_in_space_cases [OF ownsD(6) [OF o] va m] False by simp
  moreover have "no_ps s' root"
  proof (cases "s' = s")
    case True
    then show ?thesis using space_okD(3) [OF ownsD(1) [OF o]] by simp
  next
    case s': False
    obtain s1 q where g: "get_pt_space s root va True flags = (s1, q)" by force
    with m False s' have "s' = s1" by (auto simp: vmm_map_in_space_def split: if_splits option.splits)
    with get_pt_no_ps [OF ownsD(6) [OF o] va space_okD(3) [OF ownsD(1) [OF o]] g] show ?thesis by simp
  qed
  ultimately show ?thesis using False owns_builds [OF o] by simp
qed

lemma spare_fresh:
  assumes o: "owns F s root" and g: "get_frame s = (s1, a)" "a \<noteq> 0"
  shows "owns F (set_page s1 a w) root" "only_in F s (set_page s1 a w)" "spare F (set_page s1 a w) root a"
    "\<And>va. user_va va \<Longrightarrow> pte (set_page s1 a w) root va = pte s root va" "\<And>va. user_va va \<Longrightarrow> ubyte (set_page s1 a w) root va = ubyte s root va"
proof -
  note G = owns_get_frame [OF o g] and S = space_okD [OF ownsD(1) [OF o]]
  have w1: "walk s1 root p = walk s root p" "pte s1 root va = pte s root va" for p va by (rule walk_pm [OF G(2)], rule pte_pm [OF G(2)])
  have nt: "walk s1 root p \<noteq> Some a" if "upath p" for p using G(6) [OF that] by (simp add: w1)
  have P: "owns F (set_page s1 a w) root" "only_in F s1 (set_page s1 a w)" "user_va va \<Longrightarrow> pte (set_page s1 a w) root va = pte s1 root va" for va
    by (rule owns_set_page [OF G(1) _ G(4)]; use nt in blast)+
  show "owns F (set_page s1 a w) root" by (rule P(1))
  show "only_in F s (set_page s1 a w)" using P(2) G(2) by (simp add: only_in_def)
  show e: "pte (set_page s1 a w) root va = pte s root va" if "user_va va" for va using P(3) [OF that] by (simp add: w1)
  have "walk (set_page s1 a w) root p = walk s1 root p" if "upath p" for p
    by (rule set_page_tree(2) [OF ownsD(6) [OF G(1)]]) (use nt that in auto)
  then have "walk (set_page s1 a w) root p \<noteq> Some a" if "upath p" for p using nt [OF that] that by simp
  then have "page_held (set_page s1 a w) root a" using G(5) g(2) by (simp add: page_held_def)
  moreover have "leaf (set_page s1 a w) root vb \<noteq> a" if "user_va vb" "vmm_pte_has_frame (pte (set_page s1 a w) root vb)" for vb
    using G(7) [OF that(1)] that(2) unfolding e [OF that(1)] .
  ultimately show "spare F (set_page s1 a w) root a" using G(3,4) unfolding spare_def by blast
  fix va assume va: "user_va va"
  have "frame_byte (set_page s1 a w) (leaf s root va OR (va AND 0xFFF)) = frame_byte s (leaf s root va OR (va AND 0xFFF))" if "has (pte s root va) VMM_FLAG_PRESENT"
  proof (rule frame_byte_cong)
    have "leaf s root va \<noteq> a" by (rule G(7) [OF va has_frame_present [OF that]])
    then show "pm (set_page s1 a w) ((leaf s root va OR (va AND 0xFFF)) AND NOT 0xFFF) = pm s ((leaf s root va OR (va AND 0xFFF)) AND NOT 0xFFF)"
      unfolding masked_parts(1) [OF mask_mask] by (simp add: G(2))
  qed
  then show "ubyte (set_page s1 a w) root va = ubyte s root va" by (simp add: ubyte_def e [OF va])
qed

lemma maps_pageD:
  assumes "maps_page F s root va a flags bytes s'"
  shows "owns F s' root" "only_in F s s'" "\<not> vmm_pte_has_frame (pte s root va)"
    "user_va vb \<Longrightarrow> pte s' root vb = (if unat vb div 4096 = unat va div 4096 then map_entry a flags else pte s root vb)"
    "user_va vb \<Longrightarrow> ubyte s' root vb = (if unat vb div 4096 = unat va div 4096 then bytes vb else ubyte s root vb)"
  using assms unfolding maps_page_def by blast+

lemma owns_tables: "owns F s root \<Longrightarrow> tables_in F s root"
  by (rule ownsD(3))

lemma tables_in_pm: "tables_in F s root \<Longrightarrow> pm s' = pm s \<Longrightarrow> tables_in F s' root"
  unfolding tables_in_def by (metis walk_pm)

lemma put_frame_pm [simp]: "pm (put_frame s a) = pm s"
  by (simp add: put_frame_def)

lemma owns_fault_in:
  assumes o: "owns F s root" and va: "user_va addr" and ty: "v_type v \<noteq> VMA_TYPE_PHYS" and fl: "v_flags v AND ADDRESS_MASK = 0"
    and r: "vma_fault_in kmem cache s root v addr = (s', r)"
  shows "if r = 0 then \<exists>a s2. a AND ADDRESS_MASK = a \<and> a \<noteq> 0 \<and> pm s2 a = page_words (fault_page kmem cache v (addr AND NOT 0xFFF))
      \<and> maps_page F s root addr a (v_flags v) (\<lambda>vb. frame_byte s2 (a OR (vb AND 0xFFF))) s' else only_in F s s' \<and> tables_in F s' root"
proof -
  define pg where "pg = addr AND NOT 0xFFF"
  define w where "w = page_words (fault_page kmem cache v pg)"
  have upg: "user_va pg" unfolding pg_def by (rule page_user [OF va])
  have same: "unat pg div 4096 = unat addr div 4096" unfolding pg_def page_of by simp
  obtain s1 a where g: "get_frame s = (s1, a)" by force
  show ?thesis
  proof (cases "s' = s \<and> r \<noteq> 0")
    case True
    then show ?thesis using owns_tables [OF o] by simp
  next
    case False
    have a: "a \<noteq> 0" and ok: "\<not> (pg < v_start v \<or> pg \<ge> v_end v)" "\<not> has (v_flags v) VMM_FLAG_PROTNONE"
      using r g ty False get_frame_fail [of s s1] tree_okD(1) [OF ownsD(6) [OF o]]
      by (auto simp: vma_fault_in_def Let_def pg_def split: if_splits)
    note P = spare_fresh [OF o g a, where w = w]
    obtain s3 q where m: "vmm_map_in_space (set_page s1 a w) root pg a (v_flags v) = (s3, q)" by force
    have s': "s' = (if q = 0 then s3 else put_frame s3 a)" "r = q"
      using r g a ok ty m spareD(1) [OF P(3)] by (auto simp: vma_fault_in_def Let_def pg_def w_def split: if_splits)
    note M = owns_map [OF P(1) upg P(3) fl m]
    show ?thesis
    proof (cases "q = 0")
      case True
      note M = maps_pageD [OF M [unfolded if_P [OF True]]]
      have "pte s root addr = pte s root pg" unfolding pte_def same_page_indices [OF same] by (rule refl)
      then have mp: "maps_page F s root addr a (v_flags v) (\<lambda>vb. frame_byte (set_page s1 a w) (a OR (vb AND 0xFFF))) s3"
        using M(1,3,4,5) only_in_trans [OF P(2) M(2)] P(4,5) upg unfolding maps_page_def same by simp
      have "r = 0" "s' = s3" "pm (set_page s1 a w) a = w" using True s' by simp_all
      with mp a spareD(1) [OF P(3)] show ?thesis unfolding w_def pg_def if_P [OF \<open>r = 0\<close>] by blast
    next
      case False
      then have "owns F s3 root" "only_in F s s3" using M only_in_trans [OF P(2)] by auto
      with False s' show ?thesis using tables_in_pm [OF owns_tables, of F s3 root "put_frame s3 a"] by (simp add: only_in_def)
    qed
  qed
qed

subsection \<open>Reading and writing user memory\<close>

lemma owns_translate:
  assumes o: "owns F s root" and va: "user_va va"
  shows "vmm_translate_in_space s root va = (if has (pte s root va) VMM_FLAG_PRESENT then leaf s root va OR (va AND 0xFFF) else 0)"
    "has (pte s root va) VMM_FLAG_PRESENT \<Longrightarrow> leaf s root va OR (va AND 0xFFF) \<noteq> 0"
proof -
  note S = space_okD [OF ownsD(1) [OF o]]
  have u: "upath [pml4_i va]" "upath [pml4_i va, pdpt_i va]" using upath_user [OF va] by (auto simp: table_path_def upath_def)
  show "vmm_translate_in_space s root va = (if has (pte s root va) VMM_FLAG_PRESENT then leaf s root va OR (va AND 0xFFF) else 0)"
    by (rule translate_pte [OF S(1) va S(2)]) (use no_psD [OF S(3)] u in auto)
  show "leaf s root va OR (va AND 0xFFF) \<noteq> 0" if "has (pte s root va) VMM_FLAG_PRESENT"
    using S(5) [OF va has_frame_present [OF that]] masked_parts(1) [OF mask_mask, of "pte s root va" va] by (auto simp: page_held_def)
qed

lemma unat_low: "unat (x AND 0xFFF) = unat x mod 4096" for x :: u64
proof -
  have "x AND 0xFFF = take_bit 12 x" using take_bit_eq_mask [of 12 x] by (simp add: mask_eq_exp_minus_1)
  then show ?thesis by (simp add: unsigned_take_bit_eq) (simp add: take_bit_eq_mod)
qed

lemma same_address:
  fixes va vb :: u64
  assumes "unat va div 4096 = unat vb div 4096" "va AND 0xFFF = vb AND 0xFFF"
  shows "va = vb"
  using assms unat_low [of va] unat_low [of vb] by (metis div_mod_decomp word_unat_eq_iff)

lemma poke_set_page: "poke s phys b = set_page s (phys AND NOT 0xFFF) (pm (poke s phys b) (phys AND NOT 0xFFF))"
  by (simp add: poke_def set_page_def set_entry_def Let_def)

lemma owns_poke:
  assumes o: "owns F s root" and va: "user_va va" "has (pte s root va) VMM_FLAG_PRESENT" and phys: "phys = leaf s root va OR (va AND 0xFFF)"
  shows "owns F (poke s phys b) root" "only_in F s (poke s phys b)" "\<And>vb. user_va vb \<Longrightarrow> pte (poke s phys b) root vb = pte s root vb"
    "\<And>vb. user_va vb \<Longrightarrow> ubyte (poke s phys b) root vb = (if vb = va then b else ubyte s root vb)"
proof -
  note S = space_okD [OF ownsD(1) [OF o]]
  have l: "phys AND NOT 0xFFF = leaf s root va" "phys AND 0xFFF = va AND 0xFFF" unfolding phys by (rule masked_parts [OF mask_mask])+
  have h: "page_held s root (leaf s root va)" by (rule S(5) [OF va(1) has_frame_present [OF va(2)]])
  have f: "frame_no (leaf s root va) \<in> F" by (rule ownsD(4) [OF o va(1) has_frame_present [OF va(2)]])
  let ?w = "pm (poke s phys b) (leaf s root va)"
  have P: "owns F (set_page s (leaf s root va) ?w) root" "only_in F s (set_page s (leaf s root va) ?w)"
    "user_va vb \<Longrightarrow> pte (set_page s (leaf s root va) ?w) root vb = pte s root vb" for vb
    by (rule owns_set_page [OF o _ f]; use h in \<open>auto simp: page_held_def\<close>)+
  have e: "poke s phys b = set_page s (leaf s root va) ?w" using poke_set_page [of s phys b] unfolding l .
  show "owns F (poke s phys b) root" "only_in F s (poke s phys b)" using P(1,2) unfolding e [symmetric] .
  show p: "pte (poke s phys b) root vb = pte s root vb" if "user_va vb" for vb using P(3) [OF that] unfolding e [symmetric] .
  fix vb assume vb: "user_va vb"
  show "ubyte (poke s phys b) root vb = (if vb = va then b else ubyte s root vb)"
  proof (cases "has (pte s root vb) VMM_FLAG_PRESENT")
    case True
    have "leaf s root vb OR (vb AND 0xFFF) = phys \<longleftrightarrow> vb = va"
    proof
      assume a: "leaf s root vb OR (vb AND 0xFFF) = phys"
      then have m: "leaf s root vb = leaf s root va" "vb AND 0xFFF = va AND 0xFFF"
        using masked_parts [OF mask_mask, of "pte s root vb" vb] l by simp_all
      show "vb = va" by (rule same_address [OF S(6) [OF vb va(1) has_frame_present [OF True] has_frame_present [OF va(2)] m(1)] m(2)])
    qed (simp add: phys)
    then show ?thesis using True by (simp add: ubyte_def p [OF vb] poke_byte)
  next
    case False
    with va(2) have "vb \<noteq> va" by auto
    with False show ?thesis by (simp add: ubyte_def p [OF vb])
  qed
qed

subsection \<open>A new address space\<close>

lemma fold_entries:
  assumes "\<And>i s. f i s = s \<or> (\<exists>e. f i s = set_entry s t i e)"
  shows "frames (fold f xs s) = frames s" "kernel_space (fold f xs s) = kernel_space s" "physmap_initialized (fold f xs s) = physmap_initialized s"
    "u \<noteq> t \<Longrightarrow> pm (fold f xs s) u = pm s u" "i \<notin> set xs \<Longrightarrow> pm (fold f xs s) t i = pm s t i"
proof (induction xs arbitrary: s)
  case (Cons x xs)
  { case 1 then show ?case using Cons.IH(1) [of "f x s"] assms [of x s] by auto
  next case 2 then show ?case using Cons.IH(2) [of "f x s"] assms [of x s] by auto
  next case 3 then show ?case using Cons.IH(3) [of "f x s"] assms [of x s] by auto
  next case 4 then show ?case using Cons.IH(4) [of "f x s"] assms [of x s] by auto
  next case 5 then show ?case using Cons.IH(5) [of "f x s"] assms [of x s] by auto }
qed simp_all

lemma kernel_half:
  "frames (share_kernel_half s old t) = frames s" "kernel_space (share_kernel_half s old t) = kernel_space s"
  "physmap_initialized (share_kernel_half s old t) = physmap_initialized s"
  "u \<noteq> t \<Longrightarrow> pm (share_kernel_half s old t) u = pm s u" "i < 256 \<Longrightarrow> pm (share_kernel_half s old t) t i = pm s t i"
  "frames (strip_kernel_half s t) = frames s" "kernel_space (strip_kernel_half s t) = kernel_space s"
  "physmap_initialized (strip_kernel_half s t) = physmap_initialized s"
  "u \<noteq> t \<Longrightarrow> pm (strip_kernel_half s t) u = pm s u" "i < 256 \<Longrightarrow> pm (strip_kernel_half s t) t i = pm s t i"
  unfolding share_kernel_half_def strip_kernel_half_def Let_def
  by (rule fold_entries; auto)+

lemma first_slot: "pml4_i USER_CODE_BASE = 0"
  by (simp add: pml4_i_def USER_CODE_BASE_def)

text \<open>A new space has two tables and no page.\<close>

lemma create_user_spec:
  assumes r: "pmm_ready (frames s)" "physmap_initialized s" and c: "vmm_space_create_user s ok = (s', Some root)"
  shows "owns (free_set (frames s)) s' root" "only_in (free_set (frames s)) s s'" "\<And>va. user_va va \<Longrightarrow> pte s' root va = 0"
proof -
  obtain s1 p where g1: "get_frame s = (s1, p)" by force
  have p: "p \<noteq> 0" using c g1 by (auto simp: vmm_space_create_user_def)
  note f1 = get_frame_spec [OF r(1) g1 p]
  define s3 where "s3 = share_kernel_half (zero_frame s1 p) (kernel_space s1 AND ADDRESS_MASK) p"
  obtain s4 q where g2: "get_frame s3 = (s4, q)" by force
  have q: "q \<noteq> 0" using c g1 p g2 f1(5) by (auto simp: vmm_space_create_user_def Let_def s3_def)
  have r3: "pmm_ready (frames s3)" using f1(1) by (simp add: s3_def kernel_half)
  note f2 = get_frame_spec [OF r3 g2 q]
  let ?e = "q OR VMM_FLAG_PRESENT OR VMM_FLAG_RW OR VMM_FLAG_USER"
  have s': "s' = strip_kernel_half (set_entry (zero_frame s4 q) p 0 ?e) p" and root: "root = p"
    using c g1 p g2 q f1(5) f2(5) by (auto simp: vmm_space_create_user_def Let_def s3_def first_slot split: if_splits)
  have fr: "free_set (frames s') = free_set (frames s) - {frame_no p, frame_no q}" "frame_no p \<in> free_set (frames s)" "frame_no q \<in> free_set (frames s)"
    "frame_no p \<noteq> frame_no q"
    using f1(6,7) f2(6,7) by (auto simp: s' s3_def kernel_half)
  then have pq: "p \<noteq> q" by auto
  have e: "has ?e VMM_FLAG_PRESENT" "?e AND ADDRESS_MASK = q"
    using map_entry_leaf [OF f2(5), of "VMM_FLAG_RW OR VMM_FLAG_USER"] unfolding map_entry_def f2(5) by (auto simp: flag_defs has_def or.assoc)
  have pm_p: "pm s' p i = (if i = 0 then ?e else 0)" if "i < 256" for i
    using that pq by (simp add: s' kernel_half f2(2) s3_def)
  have pm_q: "pm s' q = (\<lambda>_. 0)" using pq by (simp add: s' kernel_half)
  have pm_o: "pm s' u = pm s u" if "u \<noteq> p" "u \<noteq> q" for u using that by (simp add: s' kernel_half f2(2) s3_def f1(2))
  have w: "(path = [] \<and> t = p) \<or> (path = [0] \<and> t = q)" if "upath path" "walk s' root path = Some t" for path t
  proof (cases path)
    case (Cons i rest)
    then have i: "i < 256" using that(1) by (simp add: upath_def)
    then have "i = 0" "walk s' q rest = Some t" using that(2) Cons pm_p [OF i] e by (auto simp: root has_def walk.simps split: if_splits)
    then show ?thesis using Cons pm_q by (cases rest) (auto simp: has_def walk.simps)
  qed (use that root in auto)
  show pte: "pte s' root va = 0" if "user_va va" for va
    using w [OF upath_user [OF that]] by (auto simp: pte_def table_path_def split: option.splits)
  have tree: "tree_ok s' root"
  proof (rule tree_okI)
    show "pmm_ready (frames s')" using f2(1) by (simp add: s' kernel_half)
    show "held_table s' t" if "upath path" "walk s' root path = Some t" for path t
      using w [OF that] fr f1(5) f2(5) by (auto simp: held_table_def)
    show "path = path'" if "upath path" "upath path'" "walk s' root path = Some t" "walk s' root path' = Some t" for path path' t
      using w [OF that(1,3)] w [OF that(2,4)] pq by auto
  qed
  have "no_ps s' root" unfolding no_ps_def
  proof (intro allI impI)
    fix path t i assume a: "upath path \<and> path \<noteq> [] \<and> length path \<le> 2 \<and> walk s' root path = Some t"
    then have "t = q" using w [of path t] by blast
    then show "\<not> has (pm s' t i) VMM_FLAG_PS" using pm_q by (simp add: has_def)
  qed
  then have "space_ok s' root" using tree pte r(2) f1(4) f2(4)
    by (intro space_okI) (auto simp: s' kernel_half s3_def vmm_pte_has_frame_def)
  then show "owns (free_set (frames s)) s' root"
    using fr w pte by (intro ownsI) (auto simp: vmm_pte_has_frame_def)
  show "only_in (free_set (frames s)) s s'" unfolding only_in_def using fr pm_o by metis
qed

lemma create_user_only_in:
  assumes r: "pmm_ready (frames s)" and c: "vmm_space_create_user s ok = (s', x)"
  shows "only_in (free_set (frames s)) s s'"
proof -
  obtain s1 p where g1: "get_frame s = (s1, p)" by force
  show ?thesis
  proof (cases "p = 0")
    case True
    then show ?thesis using c g1 get_frame_fail [of s s1] r by (auto simp: vmm_space_create_user_def)
  next
    case p: False
    note f1 = get_frame_spec [OF r(1) g1 p]
    define s3 where "s3 = share_kernel_half (zero_frame s1 p) (kernel_space s1 AND ADDRESS_MASK) p"
    obtain s4 q where g2: "get_frame s3 = (s4, q)" by force
    have r3: "pmm_ready (frames s3)" using f1(1) by (simp add: s3_def kernel_half)
    have pm3: "pm s3 u = pm s u" if "u \<noteq> p" for u using that by (simp add: s3_def kernel_half f1(2))
    show ?thesis
    proof (cases "q = 0")
      case True
      then have "s' = put_frame s3 p" using c g1 p g2 f1(5) get_frame_fail [of s3 s4] r3 by (simp add: vmm_space_create_user_def Let_def s3_def)
      then show ?thesis unfolding only_in_def using pm3 f1(6) by (metis put_frame_pm)
    next
      case q: False
      note f2 = get_frame_spec [OF r3 g2 q]
      have "frame_no q \<in> free_set (frames s)" using f2(6) f1(7) by (auto simp: s3_def kernel_half)
      moreover have "pm s' u = pm s u" if "u \<noteq> p" "u \<noteq> q" for u
        using c g1 p g2 q f1(5) that pm3 [OF that(1)] f2(2) by (auto simp: vmm_space_create_user_def Let_def s3_def kernel_half split: if_splits)
      ultimately show ?thesis unfolding only_in_def using f1(6) by metis
    qed
  qed
qed

subsection \<open>Hardening and destroying a space\<close>

lemma walk_low:
  assumes ok: "tree_ok s root" and same: "\<And>u i. u \<noteq> root \<or> i < 256 \<Longrightarrow> pm s' u i = pm s u i"
  shows "upath q \<Longrightarrow> walk s' root q = walk s root q"
proof (induction q rule: rev_induct)
  case (snoc j q)
  have q: "upath q" using upath_snoc [OF snoc.prems] .
  show ?case
  proof (cases "walk s root q")
    case (Some u)
    have "u \<noteq> root \<or> j < 256"
    proof (cases "q = []")
      case False
      then have "u \<noteq> root" using tree_okD(3) [OF ok q, of "[]" root] Some by (auto simp: upath_def)
      then show ?thesis by blast
    qed (use snoc.prems in \<open>simp add: upath_def\<close>)
    with same [of u j] snoc.IH [OF q] Some show ?thesis by (simp add: walk_snoc)
  qed (use snoc.IH [OF q] in \<open>simp add: walk_snoc\<close>)
qed simp

lemma owns_harden:
  assumes o: "owns F s root"
  shows "owns F (vmm_harden_user_space s root) root" "only_in F s (vmm_harden_user_space s root)"
    "\<And>va. user_va va \<Longrightarrow> pte (vmm_harden_user_space s root) root va = pte s root va"
    "\<And>va. user_va va \<Longrightarrow> ubyte (vmm_harden_user_space s root) root va = ubyte s root va"
proof -
  note S = space_okD [OF ownsD(1) [OF o]] and T = tree_okD [OF ownsD(6) [OF o]]
  let ?s = "strip_kernel_half s root"
  have h: "vmm_harden_user_space s root = ?s" using root_masked [OF S(1)] by (simp add: vmm_harden_user_space_def)
  have rt: "walk s root [] = Some root" "upath []" by (simp_all add: upath_def walk.simps)
  have low: "pm ?s u i = pm s u i" if "u \<noteq> root \<or> i < 256" for u i using that by (cases "u = root") (auto simp: kernel_half)
  have w: "walk ?s root p = walk s root p" if "upath p" for p by (rule walk_low [OF S(1) low that])
  have nr: "u \<noteq> root" if "upath p" "p \<noteq> []" "walk s root p = Some u" for p u using T(3) [OF that(1) rt(2) that(3)] that(2) rt by auto
  have "frame_no root \<in> F" by (rule ownsD(5) [OF o rt(2,1)])
  then have "pm ?s a = pm s a" if "frame_no a \<notin> F" for a using that by (intro kernel_half) auto
  then show "only_in F s (vmm_harden_user_space s root)" unfolding h only_in_def by blast
  have e: "pte ?s root va = pte s root va" if "user_va va" for va
  proof (cases "walk s root (table_path va)")
    case (Some u)
    have "u \<noteq> root" by (rule nr [OF upath_user [OF that] _ Some]) (simp add: table_path_def)
    with Some show ?thesis by (simp add: pte_def w [OF upath_user [OF that]] low)
  qed (simp add: pte_def w [OF upath_user [OF that]])
  then show "pte (vmm_harden_user_space s root) root va = pte s root va" if "user_va va" for va using that unfolding h .
  have "tree_ok ?s root" using T w by (intro tree_okI) (auto simp: kernel_half held_table_def)
  moreover have "no_ps ?s root" unfolding no_ps_def
  proof (intro allI impI)
    fix p t i assume a: "upath p \<and> p \<noteq> [] \<and> length p \<le> 2 \<and> walk ?s root p = Some t"
    then have t: "walk s root p = Some t" using w [of p] by auto
    then show "\<not> has (pm ?s t i) VMM_FLAG_PS" using no_psD [OF S(3), of p t i] nr [of p t] a by (simp add: low)
  qed
  ultimately show "owns F (vmm_harden_user_space s root) root" unfolding h
    by (intro owns_cong [OF o]) (use S(2) e w in \<open>auto simp: kernel_half\<close>)
  fix va assume va: "user_va va"
  have "frame_byte ?s (leaf s root va OR (va AND 0xFFF)) = frame_byte s (leaf s root va OR (va AND 0xFFF))" if "has (pte s root va) VMM_FLAG_PRESENT"
  proof (rule frame_byte_cong)
    have "leaf s root va \<noteq> root" using S(5) [OF va has_frame_present [OF that]] rt by (auto simp: page_held_def)
    then show "pm ?s ((leaf s root va OR (va AND 0xFFF)) AND NOT 0xFFF) = pm s ((leaf s root va OR (va AND 0xFFF)) AND NOT 0xFFF)"
      unfolding masked_parts(1) [OF mask_mask] by (simp add: kernel_half)
  qed
  then show "ubyte (vmm_harden_user_space s root) root va = ubyte s root va" unfolding h by (simp add: ubyte_def e [OF va])
qed

lemma pm_fold: "(\<And>x s. pm (f x s) = pm s) \<Longrightarrow> pm (fold f xs s) = pm s"
  by (induction xs arbitrary: s) auto

lemma destroy_pm:
  "pm (destroy_leaf pt ti s) = pm s" "pm (destroy_pde pdt di s) = pm s" "u \<noteq> pdpt \<Longrightarrow> pm (destroy_pdpte pdpt pi s) u = pm s u"
proof -
  show l: "pm (destroy_leaf pt ti s) = pm s" for pt ti s by (simp add: destroy_leaf_def Let_def)
  show d: "pm (destroy_pde pdt di s) = pm s" for pdt di s by (simp add: destroy_pde_def Let_def pm_fold [OF l])
  show "u \<noteq> pdpt \<Longrightarrow> pm (destroy_pdpte pdpt pi s) u = pm s u" by (simp add: destroy_pdpte_def Let_def pm_fold [OF d])
qed

lemma destroy_only_in:
  assumes "tables_in F s root"
  shows "only_in F s (vmm_space_destroy s root)"
proof -
  have m: "root AND ADDRESS_MASK = root" and f: "upath p \<Longrightarrow> walk s root p = Some t \<Longrightarrow> frame_no t \<in> F" for p t
    using assms by (auto simp: tables_in_def)
  let ?pdpt = "pm s root 0 AND ADDRESS_MASK"
  have keep: "pm (fold (destroy_pdpte pdpt) xs s) u = pm s u" if "u \<noteq> pdpt" for pdpt xs s u
    using that by (induction xs arbitrary: s) (auto simp: destroy_pm)
  have "frame_no ?pdpt \<in> F" if "has (pm s root 0) VMM_FLAG_PRESENT"
    using f [of "[0]" ?pdpt] that by (simp add: upath_def walk.simps)
  then have "pm (fold (destroy_pdpte ?pdpt) xs s) a = pm s a" if "has (pm s root 0) VMM_FLAG_PRESENT" "frame_no a \<notin> F" for xs a
    using keep that by metis
  then show ?thesis using m by (auto simp: only_in_def vmm_space_destroy_def Let_def)
qed

subsection \<open>Progress while frames are free\<close>

definition enough :: "vmm \<Rightarrow> nat \<Rightarrow> bool" where
  "enough s n \<longleftrightarrow> (\<exists>A. A \<subseteq> free_set (frames s) \<inter> {..< 2 ^ 52 - 1} \<and> finite A \<and> card A = n)"

lemma enough_mono:
  assumes "enough s m" "n \<le> m"
  shows "enough s n"
proof -
  from assms(1) obtain A where A: "A \<subseteq> free_set (frames s) \<inter> {..< 2 ^ 52 - 1}" "finite A" "card A = m" unfolding enough_def by blast
  from obtain_subset_with_card_n [of n A] assms(2) A(3) obtain B where "B \<subseteq> A" "card B = n" "finite B" by auto
  with A(1) show ?thesis unfolding enough_def by blast
qed

lemma enough_cong: "free_set (frames s') = free_set (frames s) \<Longrightarrow> enough s' n = enough s n"
  by (simp add: enough_def)

lemma enough_get:
  assumes r: "pmm_ready (frames s)" and e: "enough s (Suc n)"
  obtains s1 a where "get_frame s = (s1, a)" "a \<noteq> 0" "enough s1 n"
proof -
  from e obtain A where A: "A \<subseteq> free_set (frames s) \<inter> {..< 2 ^ 52 - 1}" "finite A" "card A = Suc n" unfolding enough_def by blast
  have "A \<noteq> {}" using A(3) by auto
  then obtain k where "k \<in> A" by blast
  then have k: "k \<in> free_set (frames s)" "k < 2 ^ 52 - 1" using A(1) by auto
  obtain s1 a where g: "get_frame s = (s1, a)" "a \<noteq> 0" by (rule get_frame_some [OF r k])
  note f = get_frame_spec [OF r g]
  have c: "n \<le> card (A - {frame_no a})" using A(2,3) by (cases "frame_no a \<in> A") auto
  have "enough s1 (card (A - {frame_no a}))" unfolding enough_def f(7)
    by (rule exI [of _ "A - {frame_no a}"]) (use A(1,2) in auto)
  from that [OF g enough_mono [OF this c]] show ?thesis .
qed

lemma enough_next:
  assumes r: "pmm_ready (frames s)" and e: "enough s (Suc n)"
  obtains s1 u where "next_table s t i True flags = (s1, Some u)" "pmm_ready (frames s1)" "enough s1 n"
proof (cases "has (pm s t i) VMM_FLAG_PRESENT")
  case True
  then show ?thesis using that r enough_mono [OF e, of n] by (simp add: next_table_def)
next
  case False
  obtain s1 a where g: "get_frame s = (s1, a)" "a \<noteq> 0" "enough s1 n" by (rule enough_get [OF r e])
  note f = get_frame_spec [OF r g(1,2)]
  have en: "enough (set_entry (zero_frame s1 a) t i x) n" for x using g(3) enough_cong [of "set_entry (zero_frame s1 a) t i x" s1] by simp
  show ?thesis
    by (rule that [of "set_entry (zero_frame s1 a) t i ((a AND ADDRESS_MASK) OR (flags AND (VMM_FLAG_USER OR VMM_FLAG_PWT OR VMM_FLAG_PCD)) OR VMM_FLAG_RW OR VMM_FLAG_PRESENT)" "a AND ADDRESS_MASK"])
      (use False g(1,2) f(1) en in \<open>simp_all add: next_table_def get_or_create_table_def Let_def\<close>)
qed

lemma enough_get_pt:
  assumes r: "pmm_ready (frames s)" and e: "enough s (n + 3)"
  obtains s1 t where "get_pt_space s root va True flags = (s1, Some t)" "enough s1 n"
proof -
  obtain s1 t1 where 1: "next_table s (root AND ADDRESS_MASK) (pml4_i va) True flags = (s1, Some t1)" "pmm_ready (frames s1)" "enough s1 (n + 2)"
    by (rule enough_next [OF r, of "n + 2"]) (use e in \<open>auto simp: numeral_3_eq_3 numeral_2_eq_2\<close>)
  obtain s2 t2 where 2: "next_table s1 t1 (pdpt_i va) True flags = (s2, Some t2)" "pmm_ready (frames s2)" "enough s2 (n + 1)"
    by (rule enough_next [OF 1(2), of "n + 1"]) (use 1(3) in \<open>auto simp: numeral_2_eq_2\<close>)
  obtain s3 t3 where 3: "next_table s2 t2 (pdt_i va) True flags = (s3, Some t3)" "enough s3 n"
    by (rule enough_next [OF 2(2), of n]) (use 2(3) in auto)
  show ?thesis by (rule that [of s3 t3]) (use 1 2 3 in \<open>simp_all add: get_pt_space_def\<close>)
qed

lemma enough_map:
  assumes ok: "tree_ok s root" and va: "user_va va" "va AND 0xFFF = 0" and a: "a AND ADDRESS_MASK = a"
    and fl: "\<not> wx_request flags" "\<not> has flags VMM_FLAG_PROTNONE" and p: "\<not> vmm_pte_has_frame (pte s root va)" and e: "enough s (n + 3)"
  obtains s' where "vmm_map_in_space s root va a flags = (s', 0)" "enough s' n"
proof -
  obtain s1 t where g: "get_pt_space s root va True flags = (s1, Some t)" "enough s1 n" by (rule enough_get_pt [OF tree_okD(1) [OF ok] e])
  note G = get_pt_spec [OF ok va(1) g(1)]
  have "pm s1 t (pt_i va) = pte s root va" using G(2) [OF refl] buildsD(6) [OF G(1) va(1)] by (simp add: pte_def)
  moreover have "\<not> va \<ge> 0xFFFF800000000000" using va(1) by (simp add: user_va_def VMM_USER_TOP_def not_le) (erule less_trans, simp)
  moreover have "a AND 0xFFF = 0" using masked_parts(2) [OF a, of 0] by simp
  ultimately have "vmm_map_in_space s root va a flags = (set_entry s1 t (pt_i va) ((a AND ADDRESS_MASK) OR (flags AND NOT VMM_FLAG_PS) OR VMM_FLAG_PRESENT), 0)"
    using va(2) fl p g(1) by (simp add: vmm_map_in_space_def)
  then show ?thesis using that enough_cong g(2) by (metis set_entry_simps(2))
qed

lemma enough_fault_in:
  assumes o: "owns F s root" and va: "user_va addr" and v: "v_start v \<le> addr AND NOT 0xFFF" "addr AND NOT 0xFFF < v_end v" "v_type v \<noteq> VMA_TYPE_PHYS"
    and fl: "\<not> has (v_flags v) VMM_FLAG_PROTNONE" "\<not> wx_request (v_flags v)" and p: "\<not> vmm_pte_has_frame (pte s root addr)" and e: "enough s (n + 4)"
  obtains s' where "vma_fault_in kmem cache s root v addr = (s', 0)" "enough s' n"
proof -
  define pg where "pg = addr AND NOT 0xFFF"
  have pg: "user_va pg" "pg AND 0xFFF = 0" unfolding pg_def by (rule page_user [OF va], rule page_base)
  have same: "unat pg div 4096 = unat addr div 4096" unfolding pg_def page_of by simp
  have pp: "pte s root pg = pte s root addr" unfolding pte_def same_page_indices [OF same] by (rule refl)
  obtain s1 a where g: "get_frame s = (s1, a)" "a \<noteq> 0" "enough s1 (n + 3)"
    by (rule enough_get [OF tree_okD(1) [OF ownsD(6) [OF o]], of "n + 3"]) (use e in \<open>auto simp: eval_nat_numeral\<close>)
  define w where "w = page_words (fault_page kmem cache v pg)"
  note P = spare_fresh [OF o g(1,2), where w = w]
  obtain s' where m: "vmm_map_in_space (set_page s1 a w) root pg a (v_flags v) = (s', 0)" "enough s' n"
    by (rule enough_map [OF ownsD(6) [OF P(1)] pg spareD(1) [OF P(3)] fl(2,1), of n])
      (use p pp P(4) [OF pg(1)] g(3) enough_cong [of "set_page s1 a w" s1] in simp_all)
  have "vma_fault_in kmem cache s root v addr = (s', 0)"
    using v(1,2) [folded pg_def] v(3) fl g(1,2) m(1) [unfolded w_def] spareD(1) [OF P(3)] unfolding vma_fault_in_def pg_def [symmetric]
    by (simp add: Let_def not_less not_le)
  from that [OF this m(2)] show ?thesis .
qed

lemma enough_create:
  assumes r: "pmm_ready (frames s)" and e: "enough s (n + 2)"
  obtains s' root where "vmm_space_create_user s True = (s', Some root)" "enough s' n"
proof -
  obtain s1 p where 1: "get_frame s = (s1, p)" "p \<noteq> 0" "enough s1 (n + 1)" by (rule enough_get [OF r, of "n + 1"]) (use e in \<open>auto simp: numeral_2_eq_2\<close>)
  note f1 = get_frame_spec [OF r 1(1,2)]
  define s3 where "s3 = share_kernel_half (zero_frame s1 p) (kernel_space s1 AND ADDRESS_MASK) p"
  have 3: "pmm_ready (frames s3)" "enough s3 (n + 1)" using f1(1) 1(3) enough_cong [of s3 s1] by (simp_all add: s3_def kernel_half)
  obtain s4 q where 4: "get_frame s3 = (s4, q)" "q \<noteq> 0" "enough s4 n" by (rule enough_get [OF 3(1), of n]) (use 3(2) in auto)
  obtain s' where s': "vmm_space_create_user s True = (s', Some p)" "frames s' = frames s4"
    using 1 4 f1(5) by (auto simp: vmm_space_create_user_def Let_def s3_def kernel_half)
  show ?thesis by (rule that [OF s'(1)]) (use 4(3) enough_cong [of s' s4] s'(2) in simp)
qed

end
