(* ===== verification/Exec_Args.thy ===== *)
theory Exec_Args
  imports Exec User_Space Mmap_Safe
begin

text \<open>
  The arguments of a program on its new stack: writing into a space that does not run yet is a
  write to user memory, it succeeds while frames are free, and the block of strings and the two
  arrays of pointers end up where the program looks for them.
\<close>

subsection \<open>Writing inside a page\<close>

lemma poke_bytes_snoc: "poke_bytes phys (bs @ [b]) s = poke (poke_bytes phys bs s) (phys + of_nat (length bs)) b"
  by (simp add: poke_bytes_def enumerate_append_eq)

lemma unat_user: "user_va va \<Longrightarrow> unat va < 2 ^ 47"
  by (simp add: user_va_def VMM_USER_TOP_def word_less_nat_alt)

lemma user_same_page:
  assumes "unat vb div 4096 = unat va div 4096" "user_va va"
  shows "user_va vb"
proof -
  have "unat va div 4096 < 2 ^ 35" using unat_user [OF assms(2)] by (simp add: div_less_iff_less_mult)
  then have "unat vb div 4096 < 2 ^ 35" unfolding assms(1) .
  then have "unat vb < 2 ^ 47" by (simp add: div_less_iff_less_mult)
  then show ?thesis by (simp add: user_va_def VMM_USER_TOP_def word_less_nat_alt)
qed

lemma unat_step:
  fixes va :: u64
  assumes "unat va + n < 2 ^ 64"
  shows "unat (va + of_nat n) = unat va + n"
  using assms by (simp add: unat_word_ariths unat_of_nat64)

lemma same_page_step:
  fixes m n :: nat
  assumes "m mod 4096 + n < 4096"
  shows "(m + n) div 4096 = m div 4096" "(m + n) mod 4096 = m mod 4096 + n"
proof -
  have "m + n = 4096 * (m div 4096) + (m mod 4096 + n)" by simp
  then show "(m + n) div 4096 = m div 4096" "(m + n) mod 4096 = m mod 4096 + n"
    using assms by (metis div_mult_self4 div_less add.right_neutral zero_neq_numeral, metis mod_mult_self4 mod_less)
qed

lemma phys_step:
  fixes a va :: u64
  assumes a: "a AND ADDRESS_MASK = a" and n: "unat va mod 4096 + n < 4096" "unat va < 2 ^ 47"
  shows "(a OR (va AND 0xFFF)) + of_nat n = a OR ((va + of_nat n) AND 0xFFF)"
proof -
  have b: "bit a k \<Longrightarrow> 12 \<le> k" for k
    using arg_cong [OF a, of "\<lambda>x. bit x k"] by (simp add: bit_and_iff bit_address_mask)
  have "bit (x AND 0xFFF) k \<Longrightarrow> k < 12" for x :: u64 and k
  proof -
    have "(0xFFF :: u64) = mask 12" by (simp add: mask_eq_exp_minus_1)
    then show "bit (x AND 0xFFF) k \<Longrightarrow> k < 12" by (simp only: bit_and_iff bit_mask_iff)
  qed
  with b have d: "a OR (x AND 0xFFF) = a + (x AND 0xFFF)" for x by (intro disjunctive_add [symmetric]) (meson not_le)
  have "unat ((va AND 0xFFF) + of_nat n) = unat va mod 4096 + n" using n by (subst unat_step) (simp_all add: unat_low)
  moreover have "unat ((va + of_nat n) AND 0xFFF) = unat va mod 4096 + n"
    unfolding unat_low using n same_page_step(2) [OF n(1)] by (subst unat_step) simp_all
  ultimately have "(va AND 0xFFF) + of_nat n = (va + of_nat n) AND 0xFFF" by (simp add: word_unat_eq_iff)
  then show ?thesis by (simp add: d add.assoc)
qed

definition wrote :: "vmm \<Rightarrow> u64 \<Rightarrow> u64 \<Rightarrow> u8 list \<Rightarrow> vmm \<Rightarrow> bool" where
  "wrote s root va bs s' \<longleftrightarrow> (\<forall>vb. user_va vb \<longrightarrow> ubyte s' root vb =
     (if unat va \<le> unat vb \<and> unat vb < unat va + length bs then bs ! (unat vb - unat va) else ubyte s root vb))"

lemma owns_poke_bytes:
  assumes o: "owns F s root" and va: "user_va va" "has (pte s root va) VMM_FLAG_PRESENT" and n: "unat va mod 4096 + length bs \<le> 4096"
    and phys: "phys = leaf s root va OR (va AND 0xFFF)"
  shows "owns F (poke_bytes phys bs s) root \<and> only_in F s (poke_bytes phys bs s) \<and> frames (poke_bytes phys bs s) = frames s
    \<and> (\<forall>vb. user_va vb \<longrightarrow> pte (poke_bytes phys bs s) root vb = pte s root vb) \<and> wrote s root va bs (poke_bytes phys bs s)"
  using n
proof (induction bs rule: rev_induct)
  case Nil
  then show ?case using o by (auto simp: poke_bytes_def wrote_def)
next
  case (snoc b bs)
  define s1 where "s1 = poke_bytes phys bs s"
  define vn where "vn = va + of_nat (length bs)"
  have IH: "owns F s1 root" "only_in F s s1" "frames s1 = frames s" "\<And>vb. user_va vb \<Longrightarrow> pte s1 root vb = pte s root vb" "wrote s root va bs s1"
    using snoc unfolding s1_def by auto
  have lt: "unat va < 2 ^ 47" by (rule unat_user [OF va(1)])
  have n: "unat va mod 4096 + length bs < 4096" using snoc.prems by simp
  have un: "unat vn = unat va + length bs" unfolding vn_def by (rule unat_step) (use lt n in simp)
  have same: "unat vn div 4096 = unat va div 4096" unfolding un by (rule same_page_step(1) [OF n])
  have uv: "user_va vn" by (rule user_same_page [OF same va(1)])
  have "pte s root vn = pte s root va" unfolding pte_def same_page_indices [OF same] by (rule refl)
  then have pv: "pte s1 root vn = pte s root va" using IH(4) [OF uv] by simp
  have ph: "phys + of_nat (length bs) = leaf s1 root vn OR (vn AND 0xFFF)"
    using phys_step [OF mask_mask n lt, of "pte s root va", folded vn_def] unfolding phys pv .
  have pr: "has (pte s1 root vn) VMM_FLAG_PRESENT" using va(2) pv by simp
  note P = owns_poke [OF IH(1) uv pr ph, where b = b]
  have e: "poke_bytes phys (bs @ [b]) s = poke s1 (phys + of_nat (length bs)) b" by (simp add: poke_bytes_snoc s1_def)
  have "wrote s root va (bs @ [b]) (poke s1 (phys + of_nat (length bs)) b)"
    unfolding wrote_def
  proof (intro allI impI)
    fix vb assume vb: "user_va vb"
    have eq: "vb = vn \<longleftrightarrow> unat vb = unat va + length bs" by (simp add: word_unat_eq_iff un)
    show "ubyte (poke s1 (phys + of_nat (length bs)) b) root vb =
      (if unat va \<le> unat vb \<and> unat vb < unat va + length (bs @ [b]) then (bs @ [b]) ! (unat vb - unat va) else ubyte s root vb)"
      using IH(5) vb unfolding P(4) [OF vb] eq wrote_def by (auto simp: nth_append)
  qed
  then show ?case unfolding e using P(1,3) only_in_trans [OF IH(2) P(2)] IH(3,4) by simp
qed

subsection \<open>Writing across pages\<close>

definition plain_regions :: "vma_set \<Rightarrow> bool" where
  "plain_regions vs \<longleftrightarrow> (\<forall>v \<in> set vs. v_type v \<noteq> VMA_TYPE_PHYS \<and> v_flags v AND ADDRESS_MASK = 0)"

lemma found_region:
  assumes "vma_find vs va = Some i"
  shows "vs ! i \<in> set vs" "v_start (vs ! i) \<le> va" "va < v_end (vs ! i)"
  using find_index_SomeD(1,2) [OF assms [unfolded vma_find_def]] by (auto simp: covers_def)

lemma uwrite_page_keeps:
  assumes o: "owns F s root" and vs: "plain_regions vs" and va: "user_va va" and u: "uwrite_page m cache root vs va s = (s', phys)"
  shows "only_in F s s' \<and> (if phys = 0 then tables_in F s' root
    else owns F s' root \<and> has (pte s' root va) VMM_FLAG_PRESENT \<and> phys = leaf s' root va OR (va AND 0xFFF))"
proof (cases "has (pte s root va) VMM_FLAG_PRESENT")
  case True
  then have "vmm_translate_in_space s root va = leaf s root va OR (va AND 0xFFF)" "leaf s root va OR (va AND 0xFFF) \<noteq> 0"
    using owns_translate [OF o va] by simp_all
  then have "s' = s" "phys = leaf s root va OR (va AND 0xFFF)" using u by (auto simp: uwrite_page_def Let_def)
  then show ?thesis using True o owns_tables [OF o] by simp
next
  case False
  then have t: "vmm_translate_in_space s root va = 0" using owns_translate(1) [OF o va] by simp
  show ?thesis
  proof (cases "vma_find vs va")
    case None
    then show ?thesis using u t owns_tables [OF o] by (auto simp: uwrite_page_def Let_def)
  next
    case (Some i)
    obtain s1 r where f: "vma_fault_in m cache s root (vs ! i) va = (s1, r)" by force
    have v: "v_type (vs ! i) \<noteq> VMA_TYPE_PHYS" "v_flags (vs ! i) AND ADDRESS_MASK = 0" using found_region(1) [OF Some] vs by (auto simp: plain_regions_def)
    note L = owns_fault_in [OF o va v f]
    have s': "s' = s1" "phys = (if r \<noteq> 0 then 0 else vmm_translate_in_space s1 root va)" using u t Some f by (auto simp: uwrite_page_def Let_def split: if_splits)
    show ?thesis
    proof (cases "r = 0")
      case True
      from L [unfolded if_P [OF True]] obtain a s2 where a: "a AND ADDRESS_MASK = a"
        "maps_page F s root va a (v_flags (vs ! i)) (\<lambda>vb. frame_byte s2 (a OR (vb AND 0xFFF))) s1" by blast
      note M = maps_pageD [OF a(2)]
      have "has (pte s1 root va) VMM_FLAG_PRESENT" using M(4) [OF va] map_entry_leaf(2) [OF a(1) v(2)] by simp
      then show ?thesis using M(1,2) owns_translate [OF M(1) va] True s' by simp
    next
      case False
      then show ?thesis using L s' by simp
    qed
  qed
qed

lemma chunk_page: "unat va mod 4096 + length (take (min (page_room va) n) bs) \<le> 4096"
proof -
  have "page_room va = 4096 - unat va mod 4096"
    unfolding page_room_def by (simp add: unat_sub_if' unat_low less_imp_le)
  moreover have "unat va mod 4096 < 4096" by simp
  ultimately show ?thesis by simp
qed

lemma uwrite_keeps:
  assumes "owns F s root" "plain_regions vs" "unat va + length bs \<le> 2 ^ 47" "uwrite m cache root vs va bs s = (s', ok)"
  shows "only_in F s s' \<and> (if ok then owns F s' root else tables_in F s' root)"
  using assms
proof (induction m cache root vs va bs s rule: uwrite.induct)
  case (1 m cache root vs va bs s)
  show ?case
  proof (cases "bs = []")
    case True
    with 1 show ?thesis by (subst (asm) uwrite.simps) auto
  next
    case False
    then have "unat va < 2 ^ 47" using 1(4) by (cases bs) auto
    then have va: "user_va va" by (simp add: user_va_def VMM_USER_TOP_def word_less_nat_alt)
    obtain s1 phys where p: "uwrite_page m cache root vs va s = (s1, phys)" by force
    note P = uwrite_page_keeps [OF 1(2,3) va p]
    let ?n = "min (page_room va) (length bs)"
    show ?thesis
    proof (cases "phys = 0")
      case True
      with P 1(5) False p show ?thesis by (subst (asm) uwrite.simps) auto
    next
      case ph: False
      have o: "owns F s1 root" "has (pte s1 root va) VMM_FLAG_PRESENT" "phys = leaf s1 root va OR (va AND 0xFFF)" using P ph by auto
      note B = owns_poke_bytes [OF o(1) va o(2) chunk_page [where n = "length bs" and bs = bs] o(3)]
      have "unat (va + of_nat ?n) = unat va + ?n" by (rule unat_step) (use 1(4) in simp)
      moreover have "uwrite m cache root vs (va + of_nat ?n) (drop ?n bs) (poke_bytes phys (take ?n bs) s1) = (s', ok)"
        using 1(5) False p ph by (subst (asm) uwrite.simps) (simp add: Let_def)
      ultimately have "only_in F (poke_bytes phys (take ?n bs) s1) s' \<and> (if ok then owns F s' root else tables_in F s' root)"
        using B 1(3,4) by (intro 1(1) [OF False p [symmetric] refl ph refl]) auto
      then show ?thesis using B P only_in_trans by blast
    qed
  qed
qed

subsection \<open>Writing to the stack\<close>

abbreviation stack_flags :: u64 where
  "stack_flags \<equiv> VMM_FLAG_USER OR VMM_FLAG_RW OR VMM_FLAG_NOEXEC"

lemma stack_flags:
  "\<not> wx_request stack_flags" "\<not> has stack_flags VMM_FLAG_PROTNONE" "stack_flags AND ADDRESS_MASK = 0"
  by (simp_all add: wx_request_def has_def flag_defs ADDRESS_MASK_def)

text \<open>Addresses from \<open>lo\<close> to \<open>hi\<close> fault into one anonymous region.\<close>

definition stack_in :: "vma_set \<Rightarrow> u64 \<Rightarrow> u64 \<Rightarrow> bool" where
  "stack_in vs lo hi \<longleftrightarrow> lo AND 0xFFF = 0 \<and> unat hi \<le> 2 ^ 47
     \<and> (\<forall>va. lo \<le> va \<and> va < hi \<longrightarrow> (\<exists>i. vma_find vs va = Some i \<and> vs ! i = anon_region lo hi stack_flags))"

definition page_at :: "nat \<Rightarrow> u64" where
  "page_at n = of_nat (n * 4096)"

lemma page_at:
  assumes "n * 4096 < 2 ^ 47"
  shows "unat (page_at n) = n * 4096" "user_va (page_at n)"
proof -
  show u: "unat (page_at n) = n * 4096" unfolding page_at_def by (rule unat_of_nat64) (use assms in simp)
  show "user_va (page_at n)" using assms by (simp add: user_va_def VMM_USER_TOP_def word_less_nat_alt u)
qed

definition missing :: "vmm \<Rightarrow> u64 \<Rightarrow> u64 \<Rightarrow> u64 \<Rightarrow> nat set" where
  "missing s root lo hi = {n. unat lo div 4096 \<le> n \<and> n * 4096 < unat hi \<and> \<not> vmm_pte_has_frame (pte s root (page_at n))}"

text \<open>A page takes one frame for itself and at most three for its tables.\<close>

definition fueled :: "nat set \<Rightarrow> vmm \<Rightarrow> u64 \<Rightarrow> u64 \<Rightarrow> u64 \<Rightarrow> bool" where
  "fueled F s root lo hi \<longleftrightarrow> owns F s root \<and> enough s (4 * card (missing s root lo hi))"

lemma finite_missing [simp]: "finite (missing s root lo hi)"
  by (rule finite_subset [of _ "{..< unat hi}"]) (auto simp: missing_def)

lemma page_entry:
  assumes "user_va va"
  shows "pte s root va = pte s root (page_at (unat va div 4096))"
proof -
  have "unat va div 4096 * 4096 < 2 ^ 47" by (rule le_less_trans [OF _ unat_user [OF assms]]) simp
  then have "unat va div 4096 = unat (page_at (unat va div 4096)) div 4096" by (simp add: page_at(1))
  then show ?thesis unfolding pte_def by (simp only: same_page_indices [of va "page_at (unat va div 4096)"])
qed

lemma missing_same:
  assumes "\<And>vb. user_va vb \<Longrightarrow> pte s' root vb = pte s root vb" "unat hi \<le> 2 ^ 47"
  shows "missing s' root lo hi = missing s root lo hi"
  using assms page_at(2) by (auto simp: missing_def)

lemma missing_map:
  assumes m: "maps_page F s root va a fl bytes s'" and e: "has (map_entry a fl) VMM_FLAG_PRESENT" and va: "lo \<le> va" "va < hi" "unat hi \<le> 2 ^ 47"
  shows "card (missing s root lo hi) = Suc (card (missing s' root lo hi))"
proof -
  note M = maps_pageD [OF m]
  let ?n = "unat va div 4096"
  have u: "user_va (page_at n)" "unat (page_at n) = n * 4096" if "n * 4096 < unat hi" for n
    using that va(3) by (auto intro!: page_at)
  have uv: "user_va va" using va(2,3) by (simp add: user_va_def VMM_USER_TOP_def word_less_nat_alt)
  have "?n * 4096 < unat hi" by (rule le_less_trans [OF _ va(2) [unfolded word_less_nat_alt]]) simp
  moreover have "unat lo div 4096 \<le> ?n" using va(1) by (simp add: word_le_nat_alt div_le_mono)
  ultimately have i: "?n \<in> missing s root lo hi" using M(3) unfolding missing_def page_entry [OF uv] by simp
  have "missing s' root lo hi = missing s root lo hi - {?n}"
    using M(4) [OF u(1)] has_frame_present [OF e] by (auto simp: missing_def u split: if_splits)
  with i show ?thesis by (metis card_Suc_Diff1 finite_missing)
qed

lemma anon_zero: "fault_page m cache (anon_region lo hi fl) pg = replicate 4096 0"
  by (simp add: fault_page_def anon_region_def vma_memset_def)

lemma zero_words: "page_words (replicate n 0) = (\<lambda>_. 0)"
proof
  fix i
  have "foldr (\<lambda>b acc. ucast (b :: u8) OR push_bit 8 acc) (replicate k 0) 0 = (0 :: u64)" for k by (induction k) auto
  then show "page_words (replicate n 0) i = 0" by (simp add: page_words_def)
qed

lemma page_within:
  fixes lo va :: u64
  assumes "lo AND 0xFFF = 0" "lo \<le> va"
  shows "lo \<le> va AND NOT 0xFFF"
proof -
  have "unat lo mod 4096 = 0" using assms(1) unat_low [of lo] by simp
  then have "unat lo = unat lo div 4096 * 4096" using div_mult_mod_eq [of "unat lo" 4096] by simp
  also have "\<dots> \<le> unat va div 4096 * 4096" using assms(2) by (simp add: word_le_nat_alt div_le_mono)
  finally show ?thesis by (simp only: word_le_nat_alt page_of)
qed

lemma stack_fault:
  assumes f: "fueled F s root lo hi" and st: "stack_in vs lo hi" and va: "lo \<le> va" "va < hi" and p: "\<not> vmm_pte_has_frame (pte s root va)"
    and i: "vs ! i = anon_region lo hi stack_flags"
  obtains s' where "vma_fault_in m cache s root (vs ! i) va = (s', 0)" "fueled F s' root lo hi" "only_in F s s'"
    "has (pte s' root va) VMM_FLAG_PRESENT" "\<And>vb. user_va vb \<Longrightarrow> ubyte s' root vb = ubyte s root vb"
proof -
  have o: "owns F s root" and en: "enough s (4 * card (missing s root lo hi))" using f by (simp_all add: fueled_def)
  have al: "lo AND 0xFFF = 0" and hi: "unat hi \<le> 2 ^ 47" using st by (simp_all add: stack_in_def)
  have uv: "user_va va" using va(2) hi by (simp add: user_va_def VMM_USER_TOP_def word_less_nat_alt)
  let ?v = "anon_region lo hi stack_flags"
  have v: "v_start ?v = lo" "v_end ?v = hi" "v_flags ?v = stack_flags" "v_type ?v \<noteq> VMA_TYPE_PHYS" by (simp_all add: anon_region_def)
  have r: "va AND NOT 0xFFF < hi" by (rule le_less_trans [OF word_and_le2 va(2)])
  have "card (missing s root lo hi) \<noteq> 0"
  proof -
    have "unat va div 4096 * 4096 < unat hi" by (rule le_less_trans [OF _ va(2) [unfolded word_less_nat_alt]]) simp
    then have "unat va div 4096 \<in> missing s root lo hi"
      using p va(1) unfolding missing_def page_entry [OF uv] by (simp add: word_le_nat_alt div_le_mono)
    then show ?thesis by auto
  qed
  then obtain k where k: "card (missing s root lo hi) = Suc k" by (metis not0_implies_Suc)
  have e4: "enough s (4 * k + 4)" using en k by (simp add: algebra_simps)
  obtain s' where s': "vma_fault_in m cache s root ?v va = (s', 0)" "enough s' (4 * k)"
    by (rule enough_fault_in [OF o uv _ _ v(4) _ _ p e4, where kmem = m and cache = cache])
      (use page_within [OF al va(1)] r v stack_flags in \<open>simp_all\<close>)
  from owns_fault_in [OF o uv v(4) _ s'(1)] obtain a s2 where a: "a AND ADDRESS_MASK = a" "pm s2 a = page_words (fault_page m cache ?v (va AND NOT 0xFFF))"
    and mp: "maps_page F s root va a stack_flags (\<lambda>vb. frame_byte s2 (a OR (vb AND 0xFFF))) s'" by (auto simp: v stack_flags)
  note M = maps_pageD [OF mp] and pr = map_entry_leaf(2) [OF a(1) stack_flags(3)]
  have z: "frame_byte s2 (a OR (vb AND 0xFFF)) = 0" for vb
    unfolding frame_byte_def Let_def masked_parts [OF a(1)] a(2) anon_zero zero_words by simp
  have nz: "ubyte s root vb = 0" if "unat vb div 4096 = unat va div 4096" for vb
  proof -
    have "pte s root vb = pte s root va" unfolding pte_def same_page_indices [OF that] by (rule refl)
    then show ?thesis using p has_frame_present by (auto simp: ubyte_def)
  qed
  show ?thesis
  proof (rule that [of s'])
    show "vma_fault_in m cache s root (vs ! i) va = (s', 0)" using s'(1) i by simp
    show "fueled F s' root lo hi" using M(1) s'(2) k missing_map [OF mp pr va hi] by (simp add: fueled_def)
    show "has (pte s' root va) VMM_FLAG_PRESENT" using M(4) [OF uv] pr by simp
    show "ubyte s' root vb = ubyte s root vb" if "user_va vb" for vb using M(5) [OF that] z nz by simp
  qed (rule M(2))
qed

lemma stack_page:
  assumes f: "fueled F s root lo hi" and st: "stack_in vs lo hi" and va: "lo \<le> va" "va < hi"
  obtains s' where "uwrite_page m cache root vs va s = (s', leaf s' root va OR (va AND 0xFFF))" "leaf s' root va OR (va AND 0xFFF) \<noteq> 0"
    "fueled F s' root lo hi" "only_in F s s'" "has (pte s' root va) VMM_FLAG_PRESENT" "\<And>vb. user_va vb \<Longrightarrow> ubyte s' root vb = ubyte s root vb"
proof -
  have o: "owns F s root" using f by (simp add: fueled_def)
  have uv: "user_va va" using va(2) st by (simp add: stack_in_def user_va_def VMM_USER_TOP_def word_less_nat_alt)
  show ?thesis
  proof (cases "vmm_pte_has_frame (pte s root va)")
    case True
    then have p: "has (pte s root va) VMM_FLAG_PRESENT" using space_okD(4) [OF ownsD(1) [OF o] uv] by blast
    show ?thesis by (rule that [of s]) (use f p owns_translate [OF o uv] in \<open>auto simp: uwrite_page_def\<close>)
  next
    case False
    obtain i where i: "vma_find vs va = Some i" "vs ! i = anon_region lo hi stack_flags" using st va unfolding stack_in_def by blast
    obtain s' where s': "vma_fault_in m cache s root (vs ! i) va = (s', 0)" "fueled F s' root lo hi" "only_in F s s'"
      "has (pte s' root va) VMM_FLAG_PRESENT" "\<And>vb. user_va vb \<Longrightarrow> ubyte s' root vb = ubyte s root vb"
      by (rule stack_fault [OF f st va False i(2), where m = m and cache = cache]) blast
    have "\<not> has (pte s root va) VMM_FLAG_PRESENT" using False has_frame_present by blast
    then have t: "vmm_translate_in_space s root va = 0" using owns_translate(1) [OF o uv] by simp
    have o': "owns F s' root" using s'(2) by (simp add: fueled_def)
    show ?thesis by (rule that [of s']) (use s' i(1) t owns_translate [OF o' uv] in \<open>auto simp: uwrite_page_def\<close>)
  qed
qed

lemma stack_write:
  assumes "fueled F s root lo hi" "stack_in vs lo hi" "lo \<le> va" "unat va + length bs \<le> unat hi"
  shows "\<exists>s'. uwrite m cache root vs va bs s = (s', True) \<and> fueled F s' root lo hi \<and> only_in F s s' \<and> wrote s root va bs s'"
  using assms
proof (induction m cache root vs va bs s rule: uwrite.induct)
  case (1 m cache root vs va bs s)
  show ?case
  proof (cases "bs = []")
    case True
    with 1 show ?thesis by (subst uwrite.simps) (auto simp: wrote_def)
  next
    case False
    have hi: "unat hi \<le> 2 ^ 47" using 1(3) by (simp add: stack_in_def)
    have lt: "va < hi" using 1(5) False by (cases bs) (auto simp: word_less_nat_alt)
    then have uv: "user_va va" using hi by (simp add: user_va_def VMM_USER_TOP_def word_less_nat_alt)
    obtain s1 where p: "uwrite_page m cache root vs va s = (s1, leaf s1 root va OR (va AND 0xFFF))" "leaf s1 root va OR (va AND 0xFFF) \<noteq> 0"
      "fueled F s1 root lo hi" "only_in F s s1" "has (pte s1 root va) VMM_FLAG_PRESENT" "\<And>vb. user_va vb \<Longrightarrow> ubyte s1 root vb = ubyte s root vb"
      by (rule stack_page [OF 1(2,3,4) lt, where m = m and cache = cache]) blast
    have o: "owns F s1 root" using p(3) by (simp add: fueled_def)
    let ?n = "min (page_room va) (length bs)"
    define s2 where "s2 = poke_bytes (leaf s1 root va OR (va AND 0xFFF)) (take ?n bs) s1"
    note B = owns_poke_bytes [OF o uv p(5) chunk_page [where n = "length bs" and bs = bs] refl, folded s2_def]
    have f2: "fueled F s2 root lo hi"
      using B p(3) missing_same [OF _ hi, of s2 root s1 lo] enough_cong [of s2 s1] by (simp add: fueled_def)
    have step: "unat (va + of_nat ?n) = unat va + ?n" by (rule unat_step) (use 1(5) hi in simp)
    have u: "uwrite m cache root vs va bs s = uwrite m cache root vs (va + of_nat ?n) (drop ?n bs) s2"
      using False p(1,2) unfolding s2_def by (subst uwrite.simps) (simp add: Let_def)
    have "\<exists>s'. uwrite m cache root vs (va + of_nat ?n) (drop ?n bs) s2 = (s', True) \<and> fueled F s' root lo hi \<and> only_in F s2 s' \<and> wrote s2 root (va + of_nat ?n) (drop ?n bs) s'"
      unfolding s2_def
      by (rule 1(1) [OF False p(1) [symmetric] refl p(2) refl]) (use f2 1(3,4,5) step in \<open>auto simp: s2_def word_le_nat_alt\<close>)
    then obtain s' where s': "uwrite m cache root vs va bs s = (s', True)" "fueled F s' root lo hi" "only_in F s2 s'" "wrote s2 root (va + of_nat ?n) (drop ?n bs) s'"
      unfolding u by blast
    have "wrote s root va bs s'" unfolding wrote_def
    proof (intro allI impI)
      fix vb assume vb: "user_va vb"
      have 1: "ubyte s' root vb = (if unat va + ?n \<le> unat vb \<and> unat vb < unat va + length bs then bs ! (unat vb - unat va) else ubyte s2 root vb)"
        using s'(4) vb unfolding wrote_def step by (auto simp: min_def)
      have 2: "ubyte s2 root vb = (if unat va \<le> unat vb \<and> unat vb < unat va + ?n then bs ! (unat vb - unat va) else ubyte s root vb)"
        using B vb p(6) [OF vb] unfolding wrote_def by (auto intro!: nth_take)
      show "ubyte s' root vb = (if unat va \<le> unat vb \<and> unat vb < unat va + length bs then bs ! (unat vb - unat va) else ubyte s root vb)"
        unfolding 1 2 by (auto simp: not_le not_less min_def)
    qed
    with s' show ?thesis using B p(4) only_in_trans by blast
  qed
qed

subsection \<open>The strings and the arrays\<close>

definition str_block :: "u8 list list \<Rightarrow> u8 list" where
  "str_block strs = concat (map (\<lambda>x. x @ [0]) strs)"

definition str_off :: "u8 list list \<Rightarrow> nat \<Rightarrow> nat" where
  "str_off strs i = length (str_block (take i strs))"

lemma str_block_simps [simp]: "str_block [] = []" "str_block (x # xs) = x @ 0 # str_block xs" "str_block (xs @ ys) = str_block xs @ str_block ys"
  by (simp_all add: str_block_def)

lemma str_off_step:
  assumes "k < length strs" "0 \<notin> set (strs ! k)"
  shows "str_off strs k < length (str_block strs)"
    "str_off strs k + length (takeWhile (\<lambda>b. b \<noteq> 0) (drop (str_off strs k) (str_block strs))) + 1 = str_off strs (Suc k)"
proof -
  have e: "str_block strs = str_block (take k strs) @ strs ! k @ 0 # str_block (drop (Suc k) strs)"
    using arg_cong [OF id_take_nth_drop [OF assms(1)], of str_block] by simp
  have d: "drop (str_off strs k) (str_block strs) = strs ! k @ 0 # str_block (drop (Suc k) strs)"
    unfolding str_off_def by (subst e) simp
  show "str_off strs k < length (str_block strs)" unfolding str_off_def by (subst e) simp
  have "takeWhile (\<lambda>b. b \<noteq> 0) (strs ! k @ 0 # str_block (drop (Suc k) strs)) = strs ! k"
    using assms(2) by (subst takeWhile_append2) auto
  then show "str_off strs k + length (takeWhile (\<lambda>b. b \<noteq> 0) (drop (str_off strs k) (str_block strs))) + 1 = str_off strs (Suc k)"
    unfolding d by (simp add: str_off_def take_Suc_conv_app_nth [OF assms(1)])
qed

definition words :: "u64 list \<Rightarrow> u8 list" where
  "words ws = concat (map le64 ws)"

lemma words_simps [simp]: "words [] = []" "words (x # xs) = le64 x @ words xs" "words (xs @ ys) = words xs @ words ys" "length (words ws) = 8 * length ws"
  by (simp_all add: words_def length_concat comp_def sum_list_triv)

lemma wrote_append:
  assumes "wrote s root va bs s1" "wrote s1 root (va + of_nat (length bs)) cs s2" "unat va + length bs < 2 ^ 64"
  shows "wrote s root va (bs @ cs) s2"
  using assms(1,2) unfolding wrote_def unat_step [OF assms(3)] by (auto simp: nth_append not_less)

lemma wrote_nil [simp]: "wrote s root va [] s"
  by (auto simp: wrote_def)

text \<open>One array: the pointers to \<open>cnt\<close> strings from number \<open>k\<close> on.\<close>

definition str_ptrs :: "u64 \<Rightarrow> u8 list list \<Rightarrow> nat \<Rightarrow> nat \<Rightarrow> u64 list" where
  "str_ptrs strbase strs k cnt = map (\<lambda>i. strbase + of_nat (str_off strs i)) [k ..< k + cnt]"

lemma str_ptrs_Suc: "str_ptrs b strs k (Suc cnt) = (b + of_nat (str_off strs k)) # str_ptrs b strs (Suc k) cnt"
  by (simp add: str_ptrs_def upt_conv_Cons del: upt_Suc)

lemma arg_slots_write:
  assumes "fueled F s root lo hi" "stack_in vs lo hi" "lo \<le> slot" "unat slot + 8 * cnt \<le> unat hi" "k + cnt \<le> length strs" "\<And>x. x \<in> set strs \<Longrightarrow> 0 \<notin> set x"
  shows "\<exists>s'. arg_slots m cache root vs strbase (str_block strs) cnt (str_off strs k) slot s = (s', Some (str_off strs (k + cnt), slot + 8 * of_nat cnt))
    \<and> fueled F s' root lo hi \<and> only_in F s s' \<and> wrote s root slot (words (str_ptrs strbase strs k cnt)) s'"
  using assms
proof (induction cnt arbitrary: k slot s)
  case 0
  then show ?case by (auto simp: str_ptrs_def)
next
  case (Suc cnt)
  have hi: "unat hi \<le> 2 ^ 47" using Suc.prems(2) by (simp add: stack_in_def)
  note O = str_off_step [of k strs]
  from stack_write [OF Suc.prems(1,2,3), of "le64 (strbase + of_nat (str_off strs k))" m cache] Suc.prems(4)
  obtain s1 where s1: "uwrite m cache root vs slot (le64 (strbase + of_nat (str_off strs k))) s = (s1, True)" "fueled F s1 root lo hi" "only_in F s s1"
    "wrote s root slot (le64 (strbase + of_nat (str_off strs k))) s1" by auto
  have st: "unat (slot + 8) = unat slot + 8" using unat_step [of slot 8] Suc.prems(4) hi by simp
  have "lo \<le> slot + 8" using Suc.prems(3) st by (simp add: word_le_nat_alt)
  then obtain s' where s': "arg_slots m cache root vs strbase (str_block strs) cnt (str_off strs (Suc k)) (slot + 8) s1 = (s', Some (str_off strs (Suc k + cnt), (slot + 8) + 8 * of_nat cnt))"
    "fueled F s' root lo hi" "only_in F s1 s'" "wrote s1 root (slot + 8) (words (str_ptrs strbase strs (Suc k) cnt)) s'"
    using Suc.IH [OF s1(2) Suc.prems(2), of "slot + 8" "Suc k"] Suc.prems(4,5,6) st by auto
  have "wrote s root slot (words (str_ptrs strbase strs k (Suc cnt))) s'"
    using wrote_append [OF s1(4), of "words (str_ptrs strbase strs (Suc k) cnt)" s'] s'(4) Suc.prems(4) hi by (simp add: str_ptrs_Suc)
  moreover have "arg_slots m cache root vs strbase (str_block strs) (Suc cnt) (str_off strs k) slot s = (s', Some (str_off strs (k + Suc cnt), slot + 8 * of_nat (Suc cnt)))"
    using s1(1) s'(1) O Suc.prems(5,6) by (simp add: algebra_simps)
  ultimately show ?case using s'(2) only_in_trans [OF s1(3) s'(3)] by blast
qed

lemma arg_array_write:
  assumes f: "fueled F s root lo hi" "stack_in vs lo hi" "lo \<le> slot" "unat slot + 8 * (cnt + 1) \<le> unat hi" and k: "k + cnt \<le> length strs" "\<And>x. x \<in> set strs \<Longrightarrow> 0 \<notin> set x"
  obtains s' where "arg_array m cache root vs strbase (str_block strs) cnt (str_off strs k) slot s = (s', Some (str_off strs (k + cnt), slot + 8 * of_nat (cnt + 1)))"
    "fueled F s' root lo hi" "only_in F s s'" "wrote s root slot (words (str_ptrs strbase strs k cnt @ [0])) s'"
proof -
  have hi: "unat hi \<le> 2 ^ 47" using f(2) by (simp add: stack_in_def)
  let ?e = "slot + 8 * of_nat cnt"
  from arg_slots_write [OF f(1-3) _ k, of m cache strbase] f(4)
  obtain s1 where s1: "arg_slots m cache root vs strbase (str_block strs) cnt (str_off strs k) slot s = (s1, Some (str_off strs (k + cnt), ?e))"
    "fueled F s1 root lo hi" "only_in F s s1" "wrote s root slot (words (str_ptrs strbase strs k cnt)) s1" by auto
  have st: "unat ?e = unat slot + 8 * cnt" using unat_step [of slot "8 * cnt"] f(4) hi by simp
  from stack_write [OF s1(2) f(2), of ?e "le64 0" m cache] f(3,4) st
  obtain s' where s': "uwrite m cache root vs ?e (le64 0) s1 = (s', True)" "fueled F s' root lo hi" "only_in F s1 s'" "wrote s1 root ?e (le64 0) s'"
    by (auto simp: word_le_nat_alt)
  have "wrote s root slot (words (str_ptrs strbase strs k cnt @ [0])) s'"
    using wrote_append [OF s1(4), of "le64 0" s'] s'(4) f(4) hi by (simp add: str_ptrs_def)
  then show ?thesis using that [of s'] s1(1) s' only_in_trans [OF s1(3) s'(3)] by (simp add: arg_array_def algebra_simps)
qed

definition arg_words :: "u64 \<Rightarrow> u8 list list \<Rightarrow> u8 list list \<Rightarrow> u64 list" where
  "arg_words strbase args envs = of_nat (length args) # str_ptrs strbase (args @ envs) 0 (length args) @ 0
     # str_ptrs strbase (args @ envs) (length args) (length envs) @ [0]"

lemma length_arg_words [simp]: "length (arg_words b args envs) = length args + length envs + 3"
  by (simp add: arg_words_def str_ptrs_def)

lemma align16: "unat (x AND NOT 15) = unat x div 16 * 16" for x :: u64
  using unat_align_down [of x 4] by (simp add: align_down_def)

text \<open>The arrays lie between the bottom of the stack and the strings, sixteen-byte aligned.\<close>

lemma args_base_range:
  fixes lo hi :: u64 and a e :: nat
  assumes room: "unat lo + 0x1000 + blen + 8 * (a + e + 3) + 30 \<le> unat hi" and hi: "unat hi \<le> 2 ^ 47"
  defines "strbase \<equiv> hi - of_nat blen" and "base \<equiv> args_base hi (of_nat blen) (int a) (int e)"
  shows "unat strbase = unat hi - blen" "unat base mod 16 = 0" "unat base + 8 * (a + e + 3) \<le> unat strbase" "unat lo + 0x1000 \<le> unat base"
    "(1 + of_int (int a) + 1 + of_int (int e) + 1) * 8 \<le> (strbase AND NOT 15) - lo" "of_nat blen \<le> hi - lo"
proof -
  have n: "unat (of_nat blen :: u64) = blen" by (rule unat_of_nat64) (use room hi in simp)
  have w: "(1 + of_int (int a) + 1 + of_int (int e) + 1) * 8 = (of_nat (8 * (a + e + 3)) :: u64)" by (simp add: algebra_simps)
  have m: "unat (of_nat (8 * (a + e + 3)) :: u64) = 8 * (a + e + 3)" by (rule unat_of_nat64) (use room hi in simp)
  have sub: "unat (x - y) = unat x - unat y" if "unat y \<le> unat x" for x y :: u64 using that by (simp add: unat_sub word_le_nat_alt)
  show s: "unat strbase = unat hi - blen" unfolding strbase_def using sub [of "of_nat blen" hi] n room by simp
  have al: "unat x - 15 \<le> unat (x AND NOT 15)" "unat (x AND NOT 15) \<le> unat x" for x :: u64
    unfolding align16 using div_mult_mod_eq [of "unat x" 16] mod_less_divisor [of 16 "unat x"] by linarith+
  have b: "base = ((strbase AND NOT 15) - of_nat (8 * (a + e + 3))) AND NOT 15" unfolding base_def args_base_def strbase_def w ..
  have d: "unat ((strbase AND NOT 15) - of_nat (8 * (a + e + 3))) = unat (strbase AND NOT 15) - 8 * (a + e + 3)"
    using sub [of "of_nat (8 * (a + e + 3))" "strbase AND NOT 15"] m al(1) [of strbase] s room by simp
  show "unat base mod 16 = 0" unfolding b align16 by simp
  show "unat base + 8 * (a + e + 3) \<le> unat strbase" "unat lo + 0x1000 \<le> unat base"
    using al [of strbase] al [of "(strbase AND NOT 15) - of_nat (8 * (a + e + 3))"] d s room unfolding b [symmetric] by linarith+
  have "unat ((strbase AND NOT 15) - lo) = unat (strbase AND NOT 15) - unat lo" by (rule sub) (use al(1) [of strbase] s room in linarith)
  then show "(1 + of_int (int a) + 1 + of_int (int e) + 1) * 8 \<le> (strbase AND NOT 15) - lo"
    unfolding w word_le_nat_alt m using al(1) [of strbase] s room by linarith
  show "of_nat blen \<le> hi - lo" unfolding word_le_nat_alt n using sub [of lo hi] room by simp
qed

lemma setup_user_args_ok:
  assumes f: "fueled F s root lo hi" "stack_in vs lo hi" and strs: "\<And>x. x \<in> set (args @ envs) \<Longrightarrow> 0 \<notin> set x"
    and room: "unat lo + 0x1000 + length (str_block (args @ envs)) + 8 * (length args + length envs + 3) + 30 \<le> unat hi"
  defines "blob \<equiv> str_block (args @ envs)"
  defines "strbase \<equiv> hi - of_nat (length blob)" and "base \<equiv> args_base hi (of_nat (length blob)) (int (length args)) (int (length envs))"
  obtains s' s1 where "setup_user_args m cache root vs hi lo blob (int (length args)) (int (length envs)) s = (s', Some (base, base + 8, base + 8 * of_nat (length args + 2)))"
    "fueled F s' root lo hi" "only_in F s s'" "wrote s root strbase blob s1" "wrote s1 root base (words (arg_words strbase args envs)) s'"
proof -
  let ?strs = "args @ envs" and ?a = "length args" and ?e = "length envs"
  have hi: "unat hi \<le> 2 ^ 47" using f(2) by (simp add: stack_in_def)
  note R = args_base_range [OF room [folded blob_def] hi, folded strbase_def base_def]
  have lo: "lo \<le> strbase" "lo \<le> base" using R(3,4) by (simp_all add: word_le_nat_alt)
  obtain s1 where s1: "uwrite m cache root vs strbase blob s = (s1, True)" "fueled F s1 root lo hi" "only_in F s s1" "wrote s root strbase blob s1"
    using stack_write [OF f lo(1), of blob m cache] R(1) room [folded blob_def] by auto
  have "unat base + length (le64 (of_int (int ?a))) \<le> unat hi" using R(1,3) by simp
  then obtain s2 where s2: "uwrite m cache root vs base (le64 (of_int (int ?a))) s1 = (s2, True)" "fueled F s2 root lo hi" "only_in F s1 s2" "wrote s1 root base (le64 (of_int (int ?a))) s2"
    using stack_write [OF s1(2) f(2) lo(2)] by blast
  have b8: "unat (base + 8) = unat base + 8" "lo \<le> base + 8" using unat_step [of base 8] R(1,3,4) hi by (simp_all add: word_le_nat_alt)
  obtain s3 where s3: "arg_array m cache root vs strbase blob ?a 0 (base + 8) s2 = (s3, Some (str_off ?strs ?a, base + 8 + 8 * of_nat (?a + 1)))"
    "fueled F s3 root lo hi" "only_in F s2 s3" "wrote s2 root (base + 8) (words (str_ptrs strbase ?strs 0 ?a @ [0])) s3"
    by (rule arg_array_write [OF s2(2) f(2) b8(2), where cnt = ?a and k = 0 and strs = ?strs and m = m and cache = cache and strbase = strbase])
      (use R(1,3) b8(1) strs in \<open>auto simp: str_off_def blob_def\<close>)
  let ?envp = "base + 8 + 8 * of_nat (?a + 1)"
  have en: "unat ?envp = unat base + 8 + 8 * (?a + 1)" "lo \<le> ?envp" using unat_step [of "base + 8" "8 * (?a + 1)"] b8 R(1,3) hi by (simp_all add: word_le_nat_alt)
  obtain s4 where s4: "arg_array m cache root vs strbase blob ?e (str_off ?strs ?a) ?envp s3 = (s4, Some (str_off ?strs (?a + ?e), ?envp + 8 * of_nat (?e + 1)))"
    "fueled F s4 root lo hi" "only_in F s3 s4" "wrote s3 root ?envp (words (str_ptrs strbase ?strs ?a ?e @ [0])) s4"
    by (rule arg_array_write [OF s3(2) f(2) en(2), where cnt = ?e and k = ?a and strs = ?strs and m = m and cache = cache and strbase = strbase])
      (use R(1,3) en(1) strs in \<open>auto simp: blob_def\<close>)
  have w13: "wrote s1 root base (le64 (of_int (int ?a)) @ words (str_ptrs strbase ?strs 0 ?a @ [0])) s3"
    by (rule wrote_append [OF s2(4)]) (use s3(4) R(1,3) hi in auto)
  have "wrote s1 root base ((le64 (of_int (int ?a)) @ words (str_ptrs strbase ?strs 0 ?a @ [0])) @ words (str_ptrs strbase ?strs ?a ?e @ [0])) s4"
    by (rule wrote_append [OF w13]) (use s4(4) R(1,3) hi in \<open>auto simp: str_ptrs_def algebra_simps\<close>)
  then have w: "wrote s1 root base (words (arg_words strbase args envs)) s4" by (simp add: arg_words_def)
  have "\<not> base < lo + 0x1000" using unat_step [of lo 4096] R(1,3,4) hi by (simp add: word_less_nat_alt)
  then have "setup_user_args m cache root vs hi lo blob (int ?a) (int ?e) s = (s4, Some (base, base + 8, base + 8 * of_nat (?a + 2)))"
    using R(5,6) s1(1) s2(1) s3(1) s4(1)
    by (simp add: setup_user_args_def Let_def not_less strbase_def [symmetric] base_def [symmetric] algebra_simps)
  then show ?thesis using that s4(2) w s1(3,4) s2(3) s3(3) s4(3) only_in_trans by blast
qed

subsection \<open>What the program reads\<close>

definition ubytes :: "vmm \<Rightarrow> u64 \<Rightarrow> u64 \<Rightarrow> nat \<Rightarrow> u8 list" where
  "ubytes s root va n = map (\<lambda>k. ubyte s root (va + of_nat k)) [0 ..< n]"

definition uword :: "vmm \<Rightarrow> u64 \<Rightarrow> u64 \<Rightarrow> u64" where
  "uword s root va = of_le64 (ubytes s root va 8)"

lemma wrote_read:
  assumes w: "wrote s root va bs s'" and r: "unat va + length bs \<le> 2 ^ 47" "k + n \<le> length bs"
  shows "ubytes s' root (va + of_nat k) n = take n (drop k bs)"
proof (rule nth_equalityI)
  fix j assume "j < length (ubytes s' root (va + of_nat k) n)"
  then have j: "j < n" by (simp add: ubytes_def)
  have "unat (va + of_nat (k + j)) = unat va + (k + j)" by (rule unat_step) (use r j in simp)
  moreover from this have "user_va (va + of_nat (k + j))" using r j by (simp add: user_va_def VMM_USER_TOP_def word_less_nat_alt)
  ultimately have "ubyte s' root (va + of_nat (k + j)) = bs ! (k + j)" using w r j by (simp add: wrote_def)
  with j r show "ubytes s' root (va + of_nat k) n ! j = take n (drop k bs) ! j" by (simp add: ubytes_def add.assoc)
qed (use r in \<open>simp add: ubytes_def\<close>)

lemma wrote_above:
  assumes w: "wrote s root va bs s'" and r: "unat va + length bs \<le> unat vb" "unat vb + n \<le> 2 ^ 47"
  shows "ubytes s' root vb n = ubytes s root vb n"
proof -
  have "ubyte s' root (vb + of_nat k) = ubyte s root (vb + of_nat k)" if "k < n" for k
  proof -
    have "unat (vb + of_nat k) = unat vb + k" by (rule unat_step) (use r that in simp)
    moreover from this have "user_va (vb + of_nat k)" using r that by (simp add: user_va_def VMM_USER_TOP_def word_less_nat_alt)
    ultimately show ?thesis using w r by (simp add: wrote_def)
  qed
  then show ?thesis by (simp add: ubytes_def)
qed

lemma words_nth: "i < length ws \<Longrightarrow> take 8 (drop (8 * i) (words ws)) = le64 (ws ! i)"
proof (induction ws arbitrary: i)
  case (Cons w ws)
  then show ?case by (cases i) auto
qed simp

lemma args_layout:
  assumes w: "wrote s root strbase blob s1" "wrote s1 root base (words ws) s'"
    and r: "unat base + 8 * length ws \<le> unat strbase" "unat strbase + length blob \<le> 2 ^ 47"
  shows "ubytes s' root strbase (length blob) = blob" "i < length ws \<Longrightarrow> uword s' root (base + 8 * of_nat i) = ws ! i"
proof -
  have "ubytes s' root strbase (length blob) = ubytes s1 root strbase (length blob)" by (rule wrote_above [OF w(2)]) (use r in simp_all)
  then show "ubytes s' root strbase (length blob) = blob" using wrote_read [OF w(1) r(2), of 0 "length blob"] by simp
  assume i: "i < length ws"
  have "ubytes s' root (base + of_nat (8 * i)) 8 = take 8 (drop (8 * i) (words ws))" by (rule wrote_read [OF w(2)]) (use r i in simp_all)
  then show "uword s' root (base + 8 * of_nat i) = ws ! i" by (simp add: uword_def words_nth [OF i] of_le64_le64)
qed

subsection \<open>Isolation of the argument writes\<close>

text \<open>Whether or not the arguments fit, only frames of the new space change.\<close>

definition kept :: "nat set \<Rightarrow> u64 \<Rightarrow> vmm \<Rightarrow> vmm \<Rightarrow> bool \<Rightarrow> bool" where
  "kept F root s s' ok \<longleftrightarrow> only_in F s s' \<and> tables_in F s' root \<and> (ok \<longrightarrow> owns F s' root)"

lemma keptD: "kept F root s s' ok \<Longrightarrow> only_in F s s'" "kept F root s s' ok \<Longrightarrow> tables_in F s' root" "kept F root s s' True \<Longrightarrow> owns F s' root"
  by (simp_all add: kept_def)

lemma kept_refl: "owns F s root \<Longrightarrow> kept F root s s ok"
  by (simp add: kept_def owns_tables)

lemma kept_trans: "kept F root s s1 True \<Longrightarrow> kept F root s1 s2 ok \<Longrightarrow> kept F root s s2 ok"
  using only_in_trans unfolding kept_def by blast

lemma uwrite_kept:
  assumes "owns F s root" "plain_regions vs" "unat va + length bs \<le> 2 ^ 47" "uwrite m cache root vs va bs s = (s', ok)"
  shows "kept F root s s' ok"
  using uwrite_keeps [OF assms] owns_tables unfolding kept_def by (auto split: if_splits)

lemma arg_slots_kept:
  assumes "owns F s root" "plain_regions vs" "unat slot + 8 * cnt \<le> 2 ^ 47" "arg_slots m cache root vs strbase blob cnt off slot s = (s', r)"
  shows "kept F root s s' (r \<noteq> None) \<and> (\<forall>off' slot'. r = Some (off', slot') \<longrightarrow> slot' = slot + 8 * of_nat cnt)"
  using assms
proof (induction cnt arbitrary: off slot s)
  case 0
  then show ?case by (auto intro: kept_refl)
next
  case (Suc cnt)
  obtain s1 ok where u: "uwrite m cache root vs slot (le64 (strbase + of_nat off)) s = (s1, ok)" by force
  note U = uwrite_kept [OF Suc.prems(1,2) _ u]
  show ?case
  proof (cases "off \<ge> length blob \<or> \<not> ok")
    case True
    with Suc.prems U u show ?thesis by (auto intro: kept_refl split: if_splits)
  next
    case False
    have st: "unat (slot + 8) = unat slot + 8" using unat_step [of slot 8] Suc.prems(3) by simp
    have a: "arg_slots m cache root vs strbase blob cnt (off + length (takeWhile (\<lambda>b. b \<noteq> 0) (drop off blob)) + 1) (slot + 8) s1 = (s', r)"
      using False Suc.prems(4) u by simp
    have k: "kept F root s s1 True" using U False Suc.prems(3) by simp
    from Suc.IH [OF keptD(3) [OF k] Suc.prems(2) _ a] st Suc.prems(3) kept_trans [OF k] show ?thesis by (auto simp: algebra_simps)
  qed
qed

lemma arg_array_kept:
  assumes o: "owns F s root" "plain_regions vs" "unat slot + 8 * (cnt + 1) \<le> 2 ^ 47" and a: "arg_array m cache root vs strbase blob cnt off slot s = (s', r)"
  shows "kept F root s s' (r \<noteq> None) \<and> (\<forall>off' slot'. r = Some (off', slot') \<longrightarrow> slot' = slot + 8 * of_nat (cnt + 1))"
proof -
  obtain s1 q where s1: "arg_slots m cache root vs strbase blob cnt off slot s = (s1, q)" by force
  note S = arg_slots_kept [OF o(1,2) _ s1]
  show ?thesis
  proof (cases q)
    case None
    with S o(3) a s1 show ?thesis by (auto simp: arg_array_def)
  next
    case (Some p)
    then have p: "q = Some (fst p, slot + 8 * of_nat cnt)" using S o(3) by (cases p) auto
    have st: "unat (slot + 8 * of_nat cnt) = unat slot + 8 * cnt" using unat_step [of slot "8 * cnt"] o(3) by simp
    obtain s2 ok where u: "uwrite m cache root vs (slot + 8 * of_nat cnt) (le64 0) s1 = (s2, ok)" by force
    have k: "kept F root s s1 True" using S o(3) p by simp
    have "kept F root s s2 ok" by (rule kept_trans [OF k], rule uwrite_kept [OF keptD(3) [OF k] o(2) _ u]) (use st o(3) in simp)
    with a s1 p u show ?thesis by (cases ok) (auto simp: arg_array_def algebra_simps)
  qed
qed

lemma args_base_bounds:
  fixes lo hi blen :: u64 and a e :: nat
  assumes hi: "lo \<le> hi" "unat hi \<le> 2 ^ 47" "lo AND 0xFFF = 0" and n: "a < 2 ^ 31" "e < 2 ^ 31" and g: "blen \<le> hi - lo"
    "(1 + of_int (int a) + 1 + of_int (int e) + 1) * 8 \<le> ((hi - blen) AND NOT 15) - lo"
  shows "unat (hi - blen) + unat blen \<le> 2 ^ 47" "unat (args_base hi blen (int a) (int e)) + 8 * (a + e + 3) \<le> 2 ^ 47"
proof -
  let ?n = "8 * (a + e + 3)" and ?s = "hi - blen" and ?x = "(hi - blen) AND NOT 15"
  have sub: "unat (x - y) = unat x - unat y" if "unat y \<le> unat x" for x y :: u64 using that by (simp add: unat_sub word_le_nat_alt)
  have w: "(1 + of_int (int a) + 1 + of_int (int e) + 1) * 8 = (of_nat ?n :: u64)" by (simp add: algebra_simps)
  have m: "unat (of_nat ?n :: u64) = ?n" by (rule unat_of_nat64) (use n in simp)
  have b: "unat blen \<le> unat hi - unat lo" using g(1) sub [of lo hi] hi(1) by (simp add: word_le_nat_alt)
  then have s: "unat ?s = unat hi - unat blen" by (intro sub) simp
  then show "unat ?s + unat blen \<le> 2 ^ 47" using b hi(2) by simp
  have al: "unat (x AND NOT 15) \<le> unat x" for x :: u64 unfolding align16 by simp
  have base: "args_base hi blen (int a) (int e) = (?x - of_nat ?n) AND NOT 15" unfolding args_base_def w ..
  have "unat lo mod 4096 = 0" using hi(3) unat_low [of lo] by simp
  then have "unat lo mod 16 = 0" using mod_mod_cancel [of 16 4096 "unat lo"] by simp
  then have "unat lo = unat lo div 16 * 16" using div_mult_mod_eq [of "unat lo" 16] by simp
  also have "\<dots> \<le> unat ?x" unfolding align16 using s b hi(1) by (intro mult_le_mono1 div_le_mono) (simp add: word_le_nat_alt)
  finally have lx: "unat lo \<le> unat ?x" .
  have "?n \<le> unat (?x - lo)" using g(2) unfolding w word_le_nat_alt m .
  then have nx: "?n \<le> unat ?x" using sub [OF lx] by linarith
  then have "unat (?x - of_nat ?n) = unat ?x - ?n" using sub [of "of_nat ?n" ?x] m by simp
  then show "unat (args_base hi blen (int a) (int e)) + ?n \<le> 2 ^ 47" using nx al [of "?x - of_nat ?n"] al [of ?s] s hi(2) unfolding base by linarith
qed

lemma setup_user_args_kept:
  assumes o: "owns F s root" "plain_regions vs" and hi: "lo \<le> hi" "unat hi \<le> 2 ^ 47" "lo AND 0xFFF = 0"
    and n: "argc < 2 ^ 31" "envc < 2 ^ 31" "length blob < 2 ^ 64" and r: "setup_user_args m cache root vs hi lo blob argc envc s = (s', r)"
  shows "kept F root s s' (r \<noteq> None)"
proof (cases "s' = s")
  case True
  then show ?thesis using kept_refl [OF o(1)] by simp
next
  case False
  let ?l = "of_nat (length blob) :: u64"
  have c0: "\<not> (argc < 0 \<or> envc < 0)" by (rule ccontr) (use r False in \<open>simp add: setup_user_args_def Let_def\<close>)
  then have c: "0 \<le> argc" "0 \<le> envc" by simp_all
  then obtain a e where ae: "argc = int a" "envc = int e" by (metis zero_le_imp_eq_int)
  let ?sb = "hi - ?l" and ?b = "args_base hi ?l argc envc"
  have g0: "\<not> hi - lo < ?l" by (rule ccontr) (use r False c0 in \<open>simp add: setup_user_args_def Let_def\<close>)
  have g1: "\<not> (?sb AND NOT 15) - lo < (1 + of_int argc + 1 + of_int envc + 1) * 8"
    by (rule ccontr) (use r False c0 g0 in \<open>simp add: setup_user_args_def Let_def\<close>)
  have g2: "\<not> ?b < lo + 0x1000" by (rule ccontr) (use r False c0 g0 g1 in \<open>simp add: setup_user_args_def Let_def\<close>)
  have g: "?l \<le> hi - lo" "(1 + of_int argc + 1 + of_int envc + 1) * 8 \<le> (?sb AND NOT 15) - lo" using g0 g1 by (simp_all only: not_less)
  note B = args_base_bounds [OF hi _ _ g(1), of a e, folded ae, unfolded unat_of_nat64 [OF n(3)], OF _ _ g(2)]
  have B1: "unat ?sb + length blob \<le> 2 ^ 47" and B2: "unat ?b + 8 * (a + e + 3) \<le> 2 ^ 47" by (rule B; use n(1,2) ae in simp)+
  obtain s1 k1 where s1: "uwrite m cache root vs ?sb blob s = (s1, k1)" by force
  note K1 = uwrite_kept [OF o B1 s1]
  obtain s2 k2 where s2: "uwrite m cache root vs ?b (le64 (of_int argc)) s1 = (s2, k2)" by force
  obtain s3 k3 where s3: "arg_array m cache root vs ?sb blob a 0 (?b + 8) s2 = (s3, k3)" by force
  obtain s4 k4 where s4: "arg_array m cache root vs ?sb blob e (fst (the k3)) (snd (the k3)) s3 = (s4, k4)" by force
  have b8: "unat (?b + 8) = unat ?b + 8" using unat_step [of ?b 8] B2 by simp
  have K2: "kept F root s s2 k2" if k1
  proof -
    have k: "kept F root s s1 True" using K1 that by simp
    show ?thesis by (rule kept_trans [OF k], rule uwrite_kept [OF keptD(3) [OF k] o(2) _ s2]) (use B2 in simp)
  qed
  have A3: "kept F root s2 s3 (k3 \<noteq> None) \<and> (\<forall>off' slot'. k3 = Some (off', slot') \<longrightarrow> slot' = ?b + 8 + 8 * of_nat (a + 1))" if k: k1 k2
  proof (rule arg_array_kept [OF _ o(2) _ s3])
    show "owns F s2 root" using K2 k by (simp add: keptD(3))
    show "unat (?b + 8) + 8 * (a + 1) \<le> 2 ^ 47" using B2 unfolding b8 by simp
  qed
  have K3: "kept F root s s3 (k3 \<noteq> None)" if k: k1 k2
  proof -
    have "kept F root s s2 True" using K2 k by simp
    then show ?thesis by (rule kept_trans) (rule conjunct1 [OF A3 [OF k]])
  qed
  have K4: "kept F root s s4 (k4 \<noteq> None)" if k: k1 k2 "k3 \<noteq> None"
  proof -
    have o3: "owns F s3 root" using K3 [OF k(1,2)] k(3) by (simp add: keptD(3))
    have en: "snd (the k3) = ?b + 8 + 8 * of_nat (a + 1)" using A3 [OF k(1,2)] k(3) by auto
    have "unat (?b + 8 + 8 * of_nat (a + 1)) = unat ?b + 8 + 8 * (a + 1)" using unat_step [of "?b + 8" "8 * (a + 1)"] b8 B2 by simp
    then have "unat (snd (the k3)) + 8 * (e + 1) \<le> 2 ^ 47" using en B2 by simp
    then have "kept F root s3 s4 (k4 \<noteq> None)" using arg_array_kept [OF o3 o(2) _ s4] by blast
    moreover have "kept F root s s3 True" using K3 [OF k(1,2)] k(3) by simp
    ultimately show ?thesis using kept_trans by blast
  qed
  have E: "s' = (if \<not> k1 then s1 else if \<not> k2 then s2 else if k3 = None then s3 else s4) \<and> (r \<noteq> None) = (k1 \<and> k2 \<and> k3 \<noteq> None \<and> k4 \<noteq> None)"
    using r [unfolded setup_user_args_def Let_def if_not_P [OF c0] if_not_P [OF g0] if_not_P [OF g1] if_not_P [OF g2]] s1 s2 s3 s4
    by (cases k1; cases k2; cases k3; cases k4) (auto simp: ae)
  consider "\<not> k1" | "k1" "\<not> k2" | "k1" "k2" "k3 = None" | "k1" "k2" "k3 \<noteq> None" by blast
  then show ?thesis
  proof cases
    case 1
    then show ?thesis using E K1 by simp
  next
    case 2
    then show ?thesis using E K2 by simp
  next
    case 3
    then show ?thesis using E K3 by simp
  next
    case 4
    then have "s' = s4 \<and> (r \<noteq> None) = (k4 \<noteq> None)" using E by meson
    then show ?thesis using K4 [OF 4] by simp
  qed
qed

subsection \<open>Two spaces with frames apart\<close>

lemma tables_walk:
  assumes t: "tables_in G s root" and o: "only_in F s s'" and d: "G \<inter> F = {}"
  shows "upath p \<Longrightarrow> walk s' root p = walk s root p"
proof (induction p rule: rev_induct)
  case (snoc j q)
  have q: "upath q" using upath_snoc [OF snoc.prems] .
  show ?case
  proof (cases "walk s root q")
    case (Some u)
    then have "frame_no u \<notin> F" using t q d unfolding tables_in_def by blast
    then have "pm s' u = pm s u" using o by (simp add: only_in_def)
    then show ?thesis using snoc.IH [OF q] Some by (simp add: walk_snoc)
  qed (use snoc.IH [OF q] in \<open>simp add: walk_snoc\<close>)
qed simp

lemma tables_apart:
  assumes "tables_in G s root" "only_in F s s'" "G \<inter> F = {}"
  shows "tables_in G s' root"
  using assms(1) tables_walk [OF assms] unfolding tables_in_def by (metis (no_types))

lemma owns_apart:
  assumes o: "owns F s root" and d: "only_in G s s'" "F \<inter> G = {}" and va: "user_va va"
  shows "pte s' root va = pte s root va" "ubyte s' root va = ubyte s root va"
proof -
  note w = tables_walk [OF owns_tables [OF o] d]
  show e: "pte s' root va = pte s root va"
  proof (cases "walk s root (table_path va)")
    case (Some t)
    then have "frame_no t \<notin> G" using ownsD(5) [OF o upath_user [OF va]] d(2) by blast
    then have "pm s' t = pm s t" using d(1) by (simp add: only_in_def)
    then show ?thesis using Some by (simp add: pte_def w [OF upath_user [OF va]])
  qed (simp add: pte_def w [OF upath_user [OF va]])
  have "frame_byte s' (leaf s root va OR (va AND 0xFFF)) = frame_byte s (leaf s root va OR (va AND 0xFFF))" if "has (pte s root va) VMM_FLAG_PRESENT"
  proof (rule frame_byte_cong)
    have "frame_no (leaf s root va) \<notin> G" using ownsD(4) [OF o va has_frame_present [OF that]] d(2) by blast
    then show "pm s' ((leaf s root va OR (va AND 0xFFF)) AND NOT 0xFFF) = pm s ((leaf s root va OR (va AND 0xFFF)) AND NOT 0xFFF)"
      unfolding masked_parts(1) [OF mask_mask] using d(1) by (simp add: only_in_def)
  qed
  then show "ubyte s' root va = ubyte s root va" by (simp add: ubyte_def e)
qed

end
