(* ===== verification/Exec_Safe.thy ===== *)
theory Exec_Safe
  imports Sys_Exec Exec_Args Elf_Safe Driver_Safe
begin

text \<open>
  Program start is safe: a failed execve changes nothing, a successful one runs only signed code
  in regions that are never writable and executable, with bounded capabilities and nothing of the
  old image left.
\<close>

subsection \<open>Building an image\<close>

lemma call_simps [simp]:
  "k_vm (call c w) = k_vm w" "k_mem (call c w) = k_mem w" "k_drv (call c w) = k_drv w" "k_audit (call c w) = k_audit w"
  "k_pipes (call c w) = k_pipes w" "k_calls (call c w) = k_calls w @ [c]"
  by (simp_all add: call_def)

lemma image_free_simps [simp]:
  "k_mem (proc_image_free im w) = k_mem w" "k_drv (proc_image_free im w) = k_drv w" "k_audit (proc_image_free im w) = k_audit w"
  "k_pipes (proc_image_free im w) = k_pipes w" "k_calls (proc_image_free im w) = k_calls w @ (if im_image im = 0 then [] else [Kfree_image (im_image im)])"
  "k_vm (proc_image_free im w) = (case im_space im of None \<Rightarrow> k_vm w | Some sp \<Rightarrow> vmm_space_destroy (k_vm w) sp)"
  by (simp_all add: proc_image_free_def Let_def split: option.split)

text \<open>Two worlds that differ in page tables only.\<close>

definition same_world :: "kworld \<Rightarrow> kworld \<Rightarrow> bool" where
  "same_world w w' \<longleftrightarrow> k_mem w' = k_mem w \<and> k_drv w' = k_drv w \<and> k_audit w' = k_audit w \<and> k_pipes w' = k_pipes w"

definition stack_bytes :: "u64 \<Rightarrow> u64" where
  "stack_bytes extra = PROC_STACK_PAGES * 0x1000 + ((extra + 0xFFF) AND NOT 0xFFF)"

definition stack_top :: "exec_env \<Rightarrow> u64" where
  "stack_top env = USER_STACK_TOP - aslr_slide (fst (x_tsc env)) (16 * 1024 * 1024)"

lemma build_fails:
  assumes "proc_image_build env buf sz owned extra w = Some (w', Inl e)" "owned \<noteq> 0"
  shows "same_world w w' \<and> e < 0 \<and> k_calls w' = k_calls w @ [Kfree_image owned]"
  using assms
  by (auto simp: proc_image_build_def same_world_def pin_image_def image_manifest_def Let_def
      split: option.splits prod.splits sum.splits if_splits)

lemma build_ok:
  assumes "proc_image_build env buf sz owned extra w = Some (w', Inr (im, vs))" "owned \<noteq> 0"
  shows "same_world w w'" "k_calls w' = k_calls w" "im_image im = owned" "im_size im = sz"
    "elf_signature_verify (x_verify env) (x_revoked env) (k_mem w) buf sz = Some ELF_SIG_OK"
    "\<exists>sp. im_space im = Some sp \<and> vmm_space_create_user (k_vm w) (x_space env) = (k_vm w', Some sp)"
    "im_stack_top im = stack_top env" "im_stack_lo im = stack_top env - stack_bytes extra"
    "\<exists>vs0 footprint. elf_load_image_lazy (k_mem w) owned sz [] = (vs0, Inr (im_entry im, footprint))
       \<and> vma_add vs0 (im_stack_lo im) (im_stack_top im) stack_flags VMA_TYPE_ANON 0 0 0 0 = (vs, 0) \<and> im_footprint im = footprint + stack_bytes extra"
    "image_manifest env (k_mem w) owned sz (im_entry im) (im_footprint im) = Some (Inr (im_mf im))"
  using assms unfolding stack_top_def stack_bytes_def
  by (auto simp: proc_image_build_def same_world_def pin_image_def Let_def split: option.splits prod.splits sum.splits if_splits)

subsection \<open>A failed execve\<close>

lemma exec_fails:
  assumes "process_exec env w p fr img sz blob argc envc = Some (w', p', fr', r)" "r \<noteq> 0"
  shows "p' = p \<and> fr' = fr \<and> r < 0 \<and> same_world w w' \<and> k_calls w' = k_calls w @ (if img = 0 then [] else [Kfree_image img])"
proof (cases "img = 0 \<or> sz < 4 \<or> \<not> is_elf (k_mem w) img \<or> \<not> x_regions env")
  case True
  with assms show ?thesis by (auto simp: process_exec_def same_world_def split: if_splits)
next
  case False
  let ?b = "proc_image_build env img sz img (of_nat (length blob) + (of_int argc + of_int envc + 3) * 8 + 32) w"
  obtain w1 r1 where b: "?b = Some (w1, r1)" using assms(1) False by (auto simp: process_exec_def Let_def split: option.splits)
  show ?thesis
  proof (cases r1)
    case (Inl e)
    with build_fails [of env img sz img _ w w1 e] b False assms show ?thesis by (auto simp: process_exec_def Let_def)
  next
    case (Inr q)
    then obtain im nv where q: "r1 = Inr (im, nv)" by (cases q) auto
    note B = build_ok [OF b [unfolded q]]
    show ?thesis using assms False b q B(1,2,3)
      by (auto simp: process_exec_def Let_def same_world_def split: if_splits prod.splits option.splits)
  qed
qed

subsection \<open>A successful execve\<close>

lemma exec_succeeded:
  assumes "process_exec env w p fr img sz blob argc envc = Some (w', p', fr', 0)"
  obtains im nv w1 vm rsp argvp envp wp w2 fds where "img \<noteq> 0" "4 \<le> sz" "is_elf (k_mem w) img"
    "proc_image_build env img sz img (of_nat (length blob) + (of_int argc + of_int envc + 3) * 8 + 32) w = Some (w1, Inr (im, nv))"
    "\<And>mf. im_mf im = Some mf \<Longrightarrow> mf_proc_type mf \<noteq> MANIFEST_PROC_TYPE_DRIVER"
    "setup_user_args (k_mem w1) (x_cache env) (the (im_space im)) nv (im_stack_top im) (im_stack_lo im) blob argc envc (k_vm w1) = (vm, Some (rsp, argvp, envp))"
    "exec_swap env im nv rsp (w1\<lparr>k_vm := vmm_harden_user_space vm (the (im_space im))\<rparr>) p = wp"
    "fold close_on_exec [0 ..< 32] (exec_release (t_image p) (p_space (t_mem p)) (fst wp), t_fds (snd wp)) = (w2, fds)"
    "w' = w2" "p' = exec_reset ((snd wp)\<lparr>t_fds := fds\<rparr>)" "fr' = exec_frame (tf_int_no fr) (im_entry im) rsp argc argvp envp"
proof -
  have g: "img \<noteq> 0" "\<not> sz < 4" "is_elf (k_mem w) img" "x_regions env"
    using assms by (auto simp: process_exec_def split: if_splits)
  let ?b = "proc_image_build env img sz img (of_nat (length blob) + (of_int argc + of_int envc + 3) * 8 + 32) w"
  obtain w1 r1 where b: "?b = Some (w1, r1)" using assms g by (auto simp: process_exec_def Let_def split: option.splits)
  have "r1 \<noteq> Inl e" for e
    using build_fails [of env img sz img _ w w1 e] b g assms by (auto simp: process_exec_def Let_def)
  then obtain im nv where q: "r1 = Inr (im, nv)" by (cases r1) auto
  obtain vm a where s: "setup_user_args (k_mem w1) (x_cache env) (the (im_space im)) nv (im_stack_top im) (im_stack_lo im) blob argc envc (k_vm w1) = (vm, a)"
    by force
  have "a \<noteq> None" "\<And>mf. im_mf im = Some mf \<Longrightarrow> mf_proc_type mf \<noteq> MANIFEST_PROC_TYPE_DRIVER"
    using assms g b q s by (auto simp: process_exec_def Let_def split: if_splits option.splits)
  then obtain rsp argvp envp where a: "a = Some (rsp, argvp, envp)" and mf: "\<And>mf. im_mf im = Some mf \<Longrightarrow> mf_proc_type mf \<noteq> MANIFEST_PROC_TYPE_DRIVER"
    by (cases a) auto
  show ?thesis
    by (rule that [OF g(1) _ g(3) b [unfolded q] mf s [unfolded a] refl surjective_pairing])
      (use assms g b q s a mf in \<open>auto simp: process_exec_def Let_def split_beta split: if_splits option.splits\<close>)
qed

lemma close_on_exec_inv:
  assumes "fold close_on_exec [0 ..< n] (w, fds) = (w', fds')" "n \<le> length fds"
  shows "length fds' = length fds \<and> (\<forall>i < length fds. fds' ! i = (if i < n \<and> pf_used (fds ! i) \<and> pf_cloexec (fds ! i) then fd_closed (fds ! i) else fds ! i))
    \<and> k_drv w' = k_drv w \<and> k_mem w' = k_mem w \<and> k_vm w' = k_vm w \<and> k_audit w' = k_audit w"
  using assms
proof (induction n arbitrary: w' fds')
  case (Suc n)
  obtain w1 fds1 where f: "fold close_on_exec [0 ..< n] (w, fds) = (w1, fds1)" by force
  note IH = Suc.IH [OF f]
  have "close_on_exec n (w1, fds1) = (w', fds')" using Suc.prems(1) f by simp
  moreover have "fds1 ! n = fds ! n" "n < length fds1" using IH Suc.prems(2) by auto
  ultimately show ?case using IH Suc.prems(2)
    by (auto simp: close_on_exec_def Let_def less_Suc_eq nth_list_update split: if_splits)
qed simp

lemma seg_region_wx: "check_segment ph sz = 0 \<Longrightarrow> \<not> wx_request (v_flags (seg_region img ph))"
  using seg_region_shape(5) [of ph sz] by (auto simp: seg_region_def wx_request_def has_def)

text \<open>The regions of a new image: its segments, all backed by the image, then the stack.\<close>

lemma image_regions:
  assumes "proc_image_build env buf sz owned extra w = Some (w', Inr (im, nv))" "owned \<noteq> 0"
  obtains phs where "nv = map (seg_region owned) phs @ [anon_region (im_stack_lo im) (im_stack_top im) stack_flags]"
    "\<And>ph. ph \<in> set phs \<Longrightarrow> check_segment ph sz = 0" "im_entry im = e_entry (ehdr_at (k_mem w) owned)" "length phs < VMA_MAX"
proof -
  from build_ok(9) [OF assms] obtain vs0 fp where l: "elf_load_image_lazy (k_mem w) owned sz [] = (vs0, Inr (im_entry im, fp))"
    and a: "vma_add vs0 (im_stack_lo im) (im_stack_top im) stack_flags VMA_TYPE_ANON 0 0 0 0 = (nv, 0)" by blast
  note L = lazy_load_regions [OF l]
  let ?phs = "map (seg (k_mem w) owned) (loadable (k_mem w) owned [0 ..< unat (e_phnum (ehdr_at (k_mem w) owned))])"
  have vs: "vs0 = map (seg_region owned) ?phs" by (simp add: L(1))
  have none: "find_index (\<lambda>v. v_type v = VMA_TYPE_NONE) vs0 = None" by (auto simp: find_index_None vs seg_region_def)
  with a have "nv = vs0 @ [anon_region (im_stack_lo im) (im_stack_top im) stack_flags]" "length vs0 < VMA_MAX"
    by (auto simp: vma_add_anon vma_put_def split: if_splits)
  then show ?thesis using that [of ?phs] L(4,6) vs by auto
qed

lemma bound_manifest [simp]: "cap_exec_bound (Some (p\<lparr>manifest_flags := f\<rparr>)) = cap_exec_bound (Some p)"
  by (simp add: cap_exec_bound_def cap_effective_def)

text \<open>What execve makes of the process descriptor.\<close>

lemma swap_spec:
  fixes p im
  assumes "exec_swap env im nv rsp w p = (w', p')"
  defines "q0 \<equiv> t_proc (proc_apply_caps (set_manifest p (im_mf im)) (im_mf im))"
  shows "k_drv w' = driver_remove_all_bindings (k_drv w) (Some (t_ptr p))" "t_type p' = PROC_TYPE_USER" "t_ptr p' = t_ptr p"
    "p_space (t_mem p') = im_space im" "vmas (t_mem p') = nv" "t_image p' = im_image im" "t_manifest p' = im_mf im" "t_fds p' = t_fds p"
    "cap_exec_transition (k_audit w) q0 (cap_exec_bound (Some (t_proc p))) (Some ''execve'') = (k_audit w', t_proc p')"
    "t_user_bytes p' = im_footprint im" "mem_limit (t_mem p') = (case im_mf im of None \<Rightarrow> 0 | Some mf \<Rightarrow> max_mem mf)"
    "k_mem w' = k_mem w" "k_vm w' = k_vm w" "k_calls w' = k_calls w" "k_pipes w' = k_pipes w"
  using assms(1) unfolding q0_def
  by (auto simp: exec_swap_def Let_def set_manifest_def proc_apply_caps_def split: prod.splits option.splits)

lemma apply_caps_pid: "pid (t_proc (proc_apply_caps (set_manifest p mf) mf)) = pid (t_proc p)"
  by (simp add: proc_apply_caps_def set_manifest_def split: option.split)

lemma transition_pid: "pid (snd (cap_exec_transition a p b what)) = pid p"
  by (simp add: cap_exec_transition_def Let_def)

lemma transition_free:
  assumes "\<not> b_nnp b" "cap_exec_transition a p b what = (a', q)"
  shows "cap_enforce q = cap_enforce p" "cap_effective (Some q) = cap_effective (Some p)"
  using assms by (auto simp: cap_exec_transition_def Let_def cap_effective_def)

lemma apply_caps_effective:
  assumes "pid (t_proc p) \<noteq> 0" "mf_flags f AND MANIFEST_FLAG_CAP_ENFORCE \<noteq> 0"
  shows "cap_effective (Some (t_proc (proc_apply_caps (set_manifest p (Some f)) (Some f)))) AND NOT (mf_flags f) = 0"
    "cap_enforce (t_proc (proc_apply_caps (set_manifest p (Some f)) (Some f)))"
proof -
  let ?q = "t_proc (proc_apply_caps (set_manifest p (Some f)) (Some f))"
  show e: "cap_enforce ?q" using assms(2) by (simp add: proc_apply_caps_def)
  have m: "cap_mask ?q = mf_flags f AND MANIFEST_CAP_MASK" by (simp add: proc_apply_caps_def)
  have p: "pid ?q \<noteq> 0" using assms(1) by (simp add: apply_caps_pid)
  show "cap_effective (Some ?q) AND NOT (mf_flags f) = 0"
    by (rule bit_word_eqI) (use bit_cap_effective [OF p] e m in \<open>auto simp: bit_simps split: if_splits\<close>)
qed

lemma no_grants_left: "grants (driver_remove_all_bindings d (Some p)) (p, dev) = None"
  by (auto simp: grants_def slot_of_None driver_remove_all_bindings_def bd_key_def)

subsection \<open>The stack of a new image\<close>

lemma stack_slide: obtains k where "k < 4096" "aslr_slide tsc (16 * 1024 * 1024) = of_nat (4096 * k)"
proof -
  obtain x :: u64 where x: "aslr_slide tsc (16 * 1024 * 1024) = push_bit 12 (x mod 0x1000)"
    by (rule that) (simp add: aslr_slide_def Let_def)
  have "unat (x mod 0x1000) < 4096" by (simp add: unat_mod)
  moreover have "push_bit 12 (x mod 0x1000) = of_nat (4096 * unat (x mod 0x1000))" by (simp add: push_bit_eq_mult)
  ultimately show ?thesis using that x by metis
qed

lemma stack_range:
  fixes env :: exec_env
  assumes "unat extra \<le> 2 ^ 20"
  defines "hi \<equiv> stack_top env" and "lo \<equiv> stack_top env - stack_bytes extra"
  shows "unat hi \<le> unat USER_STACK_TOP" "unat lo + 32768 + (unat extra + 4095) div 4096 * 4096 = unat hi" "lo AND 0xFFF = 0" "hi AND 0xFFF = 0"
    "unat USER_STACK_TOP - 2 ^ 24 \<le> unat hi"
proof -
  obtain k where k: "k < 4096" "aslr_slide (fst (x_tsc env)) (16 * 1024 * 1024) = of_nat (4096 * k)" by (rule stack_slide)
  have kn: "unat (of_nat (4096 * k) :: u64) = 4096 * k" by (rule unat_of_nat64) (use k in simp)
  have sub: "unat (x - y) = unat x - unat y" if "unat y \<le> unat x" for x y :: u64 using that by (simp add: unat_sub word_le_nat_alt)
  have top: "unat USER_STACK_TOP = 0x3FFF00000" by (simp add: USER_STACK_TOP_def)
  have h: "unat hi = 0x3FFF00000 - 4096 * k" unfolding hi_def stack_top_def k(2)
    using sub [of "of_nat (4096 * k)" USER_STACK_TOP] kn k(1) top by simp
  have e: "unat (extra + 0xFFF) = unat extra + 4095" using unat_step [of extra 4095] assms(1) by simp
  let ?p = "(unat extra + 4095) div 4096"
  have "?p * 4096 \<le> unat extra + 4095" by simp
  then have p: "?p * 4096 \<le> 1052671" using assms(1) by simp
  have b: "unat (stack_bytes extra) = 32768 + ?p * 4096"
  proof -
    have u: "unat ((extra + 0xFFF) AND NOT 0xFFF) = ?p * 4096" unfolding page_of e ..
    have "unat (0x8000 + ((extra + 0xFFF) AND NOT 0xFFF)) = 32768 + ?p * 4096"
      using unat_step [of "(extra + 0xFFF) AND NOT 0xFFF" 32768] u p by (simp add: add.commute)
    then show ?thesis by (simp add: stack_bytes_def PROC_STACK_PAGES_def)
  qed
  have l: "unat lo = unat hi - (32768 + ?p * 4096)"
    unfolding lo_def hi_def b [symmetric] by (rule sub) (use b h [unfolded hi_def] p k(1) in linarith)
  show "unat hi \<le> unat USER_STACK_TOP" "unat USER_STACK_TOP - 2 ^ 24 \<le> unat hi" using h top k(1) by simp_all
  show "unat lo + 32768 + ?p * 4096 = unat hi" using l h p k(1) by linarith
  have al: "x AND 0xFFF = 0" if "unat x = 4096 * j" for x :: u64 and j using that unat_low [of x] by (simp add: unat_eq_0)
  have "unat hi = 4096 * (0x3FFF00 - k)" using h by simp
  then show "hi AND 0xFFF = 0" by (rule al)
  have "unat lo = 4096 * (0x3FFF00 - k - 8 - ?p)" using l h by simp
  then show "lo AND 0xFFF = 0" by (rule al)
qed

subsection \<open>Isolation of a failed execve\<close>

lemma build_fails_vm:
  assumes "proc_image_build env buf sz owned extra w = Some (w', Inl e)" "owned \<noteq> 0"
    and c: "vmm_space_create_user (k_vm w) (x_space env) = (vm, sp)"
  shows "k_vm w' = k_vm w \<or> k_vm w' = (case sp of None \<Rightarrow> vm | Some root \<Rightarrow> vmm_space_destroy vm root)"
  using assms by (auto simp: proc_image_build_def pin_image_def Let_def split: option.splits prod.splits sum.splits if_splits)

lemma build_fails_only_in:
  assumes "proc_image_build env buf sz owned extra w = Some (w', Inl e)" "owned \<noteq> 0" and r: "pmm_ready (frames (k_vm w))" "physmap_initialized (k_vm w)"
  shows "only_in (free_set (frames (k_vm w))) (k_vm w) (k_vm w')"
proof -
  obtain vm sp where c: "vmm_space_create_user (k_vm w) (x_space env) = (vm, sp)" by force
  note C = create_user_only_in [OF r(1) c]
  have "only_in (free_set (frames (k_vm w))) vm (vmm_space_destroy vm root)" if "sp = Some root" for root
    using destroy_only_in [OF owns_tables [OF create_user_spec(1) [OF r]]] c that by blast
  with build_fails_vm [OF assms(1,2) c] C only_in_trans [OF C] show ?thesis by (cases sp) auto
qed

lemma image_plain:
  assumes "proc_image_build env buf sz owned extra w = Some (w', Inr (im, nv))" "owned \<noteq> 0"
  shows "plain_regions nv"
proof -
  obtain phs where nv: "nv = map (seg_region owned) phs @ [anon_region (im_stack_lo im) (im_stack_top im) stack_flags]"
    by (rule image_regions [OF assms]) blast
  have "seg_flags ph AND ADDRESS_MASK = 0" for ph by (simp add: seg_flags_def flag_defs ADDRESS_MASK_def)
  then show ?thesis using stack_flags(3) by (auto simp: plain_regions_def nv seg_region_def anon_region_def)
qed

text \<open>The limits that the system call puts on the arguments.\<close>

definition args_bounded :: "u8 list \<Rightarrow> int \<Rightarrow> int \<Rightarrow> bool" where
  "args_bounded blob argc envc \<longleftrightarrow> length blob \<le> EXEC_ARG_MAX \<and> 0 \<le> argc \<and> argc \<le> int EXEC_MAX_STRS \<and> 0 \<le> envc \<and> envc \<le> int EXEC_MAX_STRS"

definition arg_bytes :: "u8 list \<Rightarrow> int \<Rightarrow> int \<Rightarrow> u64" where
  "arg_bytes blob argc envc = of_nat (length blob) + (of_int argc + of_int envc + 3) * 8 + 32"

lemma arg_bytes_range:
  assumes "args_bounded blob argc envc"
  shows "unat (arg_bytes blob argc envc) = length blob + 8 * (nat argc + nat envc + 3) + 32" "unat (arg_bytes blob argc envc) \<le> 2 ^ 20"
proof -
  obtain a e where ae: "argc = int a" "envc = int e" using assms by (metis args_bounded_def zero_le_imp_eq_int)
  let ?n = "length blob + 8 * (a + e + 3) + 32"
  have w: "arg_bytes blob argc envc = of_nat ?n" by (simp add: arg_bytes_def ae algebra_simps)
  have b: "length blob \<le> 131072" "a \<le> 2048" "e \<le> 2048" using assms by (simp_all add: args_bounded_def ae EXEC_ARG_MAX_def EXEC_MAX_STRS_def)
  have u: "unat (of_nat ?n :: u64) = ?n" by (rule unat_of_nat64) (use b in simp)
  show "unat (arg_bytes blob argc envc) = length blob + 8 * (nat argc + nat envc + 3) + 32" unfolding w u by (simp add: ae)
  show "unat (arg_bytes blob argc envc) \<le> 2 ^ 20" unfolding w u using b by simp
qed

text \<open>A new image has its space, its regions and its stack in order.\<close>

lemma build_memory:
  assumes b: "proc_image_build env buf sz owned extra w = Some (w', Inr (im, nv))" "owned \<noteq> 0"
    and r: "pmm_ready (frames (k_vm w))" "physmap_initialized (k_vm w)" and x: "unat extra \<le> 2 ^ 20"
  obtains root where "im_space im = Some root" "owns (free_set (frames (k_vm w))) (k_vm w') root"
    "only_in (free_set (frames (k_vm w))) (k_vm w) (k_vm w')" "\<And>va. user_va va \<Longrightarrow> pte (k_vm w') root va = 0" "plain_regions nv"
    "im_stack_lo im \<le> im_stack_top im" "unat (im_stack_top im) \<le> 2 ^ 47" "im_stack_lo im AND 0xFFF = 0"
proof -
  from build_ok(6) [OF b] obtain root where c: "im_space im = Some root" "vmm_space_create_user (k_vm w) (x_space env) = (k_vm w', Some root)" by blast
  note C = create_user_spec [OF r c(2)] and S = stack_range [OF x, of env, folded build_ok(7,8) [OF b]]
  have "unat (im_stack_top im) \<le> 2 ^ 47" using S(1) by (simp add: USER_STACK_TOP_def)
  moreover have "im_stack_lo im \<le> im_stack_top im" using S(2) by (simp add: word_le_nat_alt)
  ultimately show ?thesis using that c(1) C image_plain [OF b] S(3) by blast
qed

lemma exec_fails_only_in:
  assumes e: "process_exec env w p fr img sz blob argc envc = Some (w', p', fr', r)" "r \<noteq> 0" and n: "args_bounded blob argc envc"
    and r: "pmm_ready (frames (k_vm w))" "physmap_initialized (k_vm w)"
  shows "only_in (free_set (frames (k_vm w))) (k_vm w) (k_vm w')"
proof (cases "img = 0 \<or> sz < 4 \<or> \<not> is_elf (k_mem w) img \<or> \<not> x_regions env")
  case True
  with e show ?thesis by (auto simp: process_exec_def split: if_splits)
next
  case False
  let ?F = "free_set (frames (k_vm w))"
  let ?b = "proc_image_build env img sz img (arg_bytes blob argc envc) w"
  note X = e(1) [unfolded process_exec_def Let_def arg_bytes_def [symmetric]]
  obtain w1 r1 where b: "?b = Some (w1, r1)" using X False by (auto split: option.splits)
  show ?thesis
  proof (cases r1)
    case (Inl er)
    with X b False have "w' = w1" by auto
    with build_fails_only_in [OF b [unfolded Inl] _ r] False show ?thesis by simp
  next
    case (Inr q)
    then obtain im nv where q: "r1 = Inr (im, nv)" by (cases q) auto
    obtain root where B: "im_space im = Some root" "owns ?F (k_vm w1) root" "only_in ?F (k_vm w) (k_vm w1)" "plain_regions nv"
      "im_stack_lo im \<le> im_stack_top im" "unat (im_stack_top im) \<le> 2 ^ 47" "im_stack_lo im AND 0xFFF = 0"
      by (rule build_memory [OF b [unfolded q] _ r arg_bytes_range(2) [OF n]]) (use False in auto)
    obtain vm a where s: "setup_user_args (k_mem w1) (x_cache env) root nv (im_stack_top im) (im_stack_lo im) blob argc envc (k_vm w1) = (vm, a)" by force
    have k: "kept ?F root (k_vm w1) vm (a \<noteq> None)"
      by (rule setup_user_args_kept [OF B(2,4-7) _ _ _ s]) (use n in \<open>auto simp: args_bounded_def EXEC_ARG_MAX_def EXEC_MAX_STRS_def\<close>)
    have "k_vm w' = vmm_space_destroy (k_vm w1) root \<or> k_vm w' = vmm_space_destroy vm root"
      using X False b q B(1) s e(2) by (auto split: if_splits option.splits prod.splits)
    moreover have "only_in ?F (k_vm w1) (vmm_space_destroy (k_vm w1) root)" by (rule destroy_only_in [OF owns_tables [OF B(2)]])
    moreover have "only_in ?F (k_vm w1) (vmm_space_destroy vm root)" by (rule only_in_trans [OF keptD(1) [OF k] destroy_only_in [OF keptD(2) [OF k]]])
    ultimately show ?thesis using only_in_trans [OF B(3)] by auto
  qed
qed

end
