(* ===== verification/Execve_Safe.thy ===== *)
theory Execve_Safe
  imports Exec_Safe
begin

text \<open>
  Lemmas about the execve system call: the block of arguments it builds is within its limits, the
  ways a call can end, what a failed or a successful replacement of the image leaves, and when a
  program can start and where it finds its arguments.
\<close>

subsection \<open>The argument block\<close>

lemma strncpy_length:
  assumes "unat maxn \<le> length dst" "strncpy_from_user m dst us maxn = (s, l)"
  shows "length s = length dst"
proof -
  define lim where "lim = (if maxn > USER_ADDR_MAX - us then USER_ADDR_MAX - us else maxn)"
  obtain bs n where st: "uaccess_strncpy m us (unat lim) = (bs, n)" by force
  have "lim \<le> maxn" unfolding lim_def by (split if_split) (blast intro: less_imp_le order_refl)
  then have "length bs \<le> length dst" using uaccess_strncpy_spec [OF st] assms(1) by (simp add: word_le_nat_alt)
  then show ?thesis using assms(2) unfolding strncpy_from_user_def Let_def lim_def [symmetric] st prod.case by (auto split: if_splits)
qed

lemma user_str:
  assumes "strncpy_from_user m (replicate cap 0) us (of_nat cap) = (s, l)" "0 \<le> l" "cap < 2 ^ 64"
  obtains x where "take (nat l + 1) s = x @ [0]" "0 \<notin> set x" "length x < cap" "\<And>i. i < length x \<Longrightarrow> us + of_nat i \<in> user_window \<and> m_byte m (us + of_nat i) = Some (x ! i)"
proof -
  have u: "unat (of_nat cap :: u64) = cap" by (rule unat_of_nat64) (rule assms(3))
  have c: "nat l < cap" "s ! nat l = 0" and g: "\<And>i. i < nat l \<Longrightarrow> s ! i \<noteq> 0 \<and> us + of_nat i \<in> user_window \<and> m_byte m (us + of_nat i) = Some (s ! i)"
    using strncpy_from_user_correct [of "of_nat cap" "replicate cap 0" us m] assms(1,2) u by auto
  have len: "length s = cap" using strncpy_length [OF _ assms(1)] u by simp
  show ?thesis
  proof (rule that [of "take (nat l) s"])
    show "take (nat l + 1) s = take (nat l) s @ [0]" using take_Suc_conv_app_nth [of "nat l" s] c len by simp
    show "0 \<notin> set (take (nat l) s)" using g len c by (auto simp: in_set_conv_nth)
  qed (use g c len in auto)
qed

lemma copy_strv_spec:
  assumes "copy_strv_from m uvec n i blob = Inr (blob', cnt)" "length blob \<le> EXEC_ARG_MAX"
  shows "\<exists>strs. blob' = blob @ str_block strs \<and> cnt = i + length strs \<and> length strs \<le> n \<and> (\<forall>x \<in> set strs. 0 \<notin> set x) \<and> length blob' \<le> EXEC_ARG_MAX"
  using assms
proof (induction n arbitrary: i blob)
  case 0
  then have "blob' = blob \<and> cnt = i" by (subst (asm) copy_strv_from.simps) (auto simp: Let_def split: if_splits prod.splits)
  then show ?case using 0(2) by (intro exI [of _ "[]"]) simp
next
  case (Suc k)
  obtain bs r where c: "copy_from_user m (uvec + of_nat i * 8) 8 = (bs, r)" by force
  have r: "r = 0" using Suc(2) c by (subst (asm) copy_strv_from.simps) (auto split: if_splits)
  show ?case
  proof (cases "of_le64 bs = 0")
    case True
    then have "blob' = blob \<and> cnt = i" using Suc(2) c r by (subst (asm) copy_strv_from.simps) simp
    then show ?thesis using Suc(3) by (intro exI [of _ "[]"]) simp
  next
    case False
    let ?room = "EXEC_ARG_MAX - length blob"
    have rm: "?room \<noteq> 0" using Suc(2) c r False by (subst (asm) copy_strv_from.simps) (auto split: if_splits)
    obtain s l where s: "strncpy_from_user m (replicate ?room 0) (of_le64 bs) (of_nat ?room) = (s, l)" by force
    have l: "l \<noteq> - ENAMETOOLONG \<and> \<not> l < 0"
      using Suc(2) c r False rm s by (subst (asm) copy_strv_from.simps) (auto simp: Let_def split: if_splits)
    obtain x where x: "take (nat l + 1) s = x @ [0]" "0 \<notin> set x" "length x < ?room"
      by (rule user_str [OF s]) (use l in \<open>auto simp: EXEC_ARG_MAX_def\<close>)
    have e: "copy_strv_from m uvec k (i + 1) (blob @ x @ [0]) = Inr (blob', cnt)"
      using Suc(2) c r False rm s l unfolding x(1) [symmetric] by (subst (asm) copy_strv_from.simps) (simp add: Let_def)
    have "length (blob @ x @ [0]) \<le> EXEC_ARG_MAX" using x(3) Suc(3) by simp
    from Suc(1) [OF e this] obtain strs where st: "blob' = (blob @ x @ [0]) @ str_block strs" "cnt = (i + 1) + length strs" "length strs \<le> k" "\<forall>x \<in> set strs. 0 \<notin> set x" "length blob' \<le> EXEC_ARG_MAX"
      by blast
    show ?thesis by (rule exI [of _ "x # strs"]) (use st x in auto)
  qed
qed

lemma exec_copy_spec:
  assumes "exec_copy_strv m uvec blob = Inr (blob', cnt)" "length blob \<le> EXEC_ARG_MAX"
  obtains strs where "blob' = blob @ str_block strs" "cnt = length strs" "length strs \<le> EXEC_MAX_STRS" "\<And>x. x \<in> set strs \<Longrightarrow> 0 \<notin> set x" "length blob' \<le> EXEC_ARG_MAX"
proof (cases "uvec = 0")
  case True
  then show ?thesis using that [of "[]"] assms by (simp add: exec_copy_strv_def)
next
  case False
  then show ?thesis using copy_strv_spec [of m uvec EXEC_MAX_STRS 0 blob blob' cnt] assms that by (auto simp: exec_copy_strv_def)
qed

lemma execve_args_spec:
  assumes "execve_args m uargv uenvp = Inr (blob, argc, envc)"
  obtains args envs where "blob = str_block (args @ envs)" "argc = length args" "envc = length envs" "\<And>x. x \<in> set (args @ envs) \<Longrightarrow> 0 \<notin> set x"
    "args_bounded blob (int argc) (int envc)"
proof -
  obtain b1 where 1: "exec_copy_strv m uargv [] = Inr (b1, argc)" and 2: "exec_copy_strv m uenvp b1 = Inr (blob, envc)"
    using assms by (auto simp: execve_args_def split: sum.splits prod.splits)
  obtain args where a: "b1 = [] @ str_block args" "argc = length args" "length args \<le> EXEC_MAX_STRS" "\<And>x. x \<in> set args \<Longrightarrow> 0 \<notin> set x" "length b1 \<le> EXEC_ARG_MAX"
    by (rule exec_copy_spec [OF 1]) auto
  obtain envs where e: "blob = b1 @ str_block envs" "envc = length envs" "length envs \<le> EXEC_MAX_STRS" "\<And>x. x \<in> set envs \<Longrightarrow> 0 \<notin> set x" "length blob \<le> EXEC_ARG_MAX"
    by (rule exec_copy_spec [OF 2 a(5)]) auto
  show ?thesis by (rule that [of args envs]) (use a e in \<open>auto simp: args_bounded_def\<close>)
qed

subsection \<open>A program that can start\<close>

definition program_ok :: "exec_env \<Rightarrow> kmem \<Rightarrow> u64 \<Rightarrow> u64 \<Rightarrow> u64 \<Rightarrow> bool" where
  "program_ok env m img sz extra \<longleftrightarrow> img \<noteq> 0 \<and> 4 \<le> sz \<and> is_elf m img
     \<and> elf_signature_verify (x_verify env) (x_revoked env) m img sz = Some ELF_SIG_OK
     \<and> (case elf_load_image_lazy m img sz [] of
          (vs, Inl _) \<Rightarrow> False
        | (vs, Inr (entry, fp)) \<Rightarrow> length vs < VMA_MAX \<and> list_all (\<lambda>v. v_end v \<le> USER_STACK_TOP - 0x2000000) vs
            \<and> (case image_manifest env m img sz entry (fp + stack_bytes extra) of
                 Some (Inr None) \<Rightarrow> True
               | Some (Inr (Some mf)) \<Rightarrow> mf_proc_type mf \<noteq> MANIFEST_PROC_TYPE_DRIVER
               | _ \<Rightarrow> False))"

lemma program_okD:
  assumes "program_ok env m img sz extra"
  obtains vs entry fp mf where "img \<noteq> 0" "4 \<le> sz" "is_elf m img" "elf_signature_verify (x_verify env) (x_revoked env) m img sz = Some ELF_SIG_OK"
    "elf_load_image_lazy m img sz [] = (vs, Inr (entry, fp))" "length vs < VMA_MAX" "\<And>v. v \<in> set vs \<Longrightarrow> v_end v \<le> USER_STACK_TOP - 0x2000000"
    "image_manifest env m img sz entry (fp + stack_bytes extra) = Some (Inr mf)" "\<And>f. mf = Some f \<Longrightarrow> mf_proc_type f \<noteq> MANIFEST_PROC_TYPE_DRIVER"
proof -
  obtain vs q where l: "elf_load_image_lazy m img sz [] = (vs, q)" by force
  obtain entry fp where q: "q = Inr (entry, fp)" using assms l by (cases q) (auto simp: program_ok_def)
  obtain i where i: "image_manifest env m img sz entry (fp + stack_bytes extra) = Some i"
    using assms l q by (cases "image_manifest env m img sz entry (fp + stack_bytes extra)") (auto simp: program_ok_def)
  obtain mf where mf: "i = Inr mf" using assms l q i by (cases i) (auto simp: program_ok_def)
  show ?thesis by (rule that [of vs entry fp mf]) (use assms l q i mf in \<open>auto simp: program_ok_def list_all_iff\<close>)
qed

lemma stack_found:
  assumes vs: "\<And>v. v \<in> set vs \<Longrightarrow> v_end v \<le> lo" and lo: "lo AND 0xFFF = 0" "unat hi \<le> 2 ^ 47"
  shows "stack_in (vs @ [anon_region lo hi stack_flags]) lo hi"
proof -
  let ?nv = "vs @ [anon_region lo hi stack_flags]"
  have "vma_find ?nv va = Some (length vs)" if "lo \<le> va" "va < hi" for va
    unfolding vma_find_def
  proof (rule find_index_unique)
    show "covers va (?nv ! length vs)" using that by (simp add: covers_def anon_region_def)
    fix j assume j: "j < length ?nv" "covers va (?nv ! j)"
    show "j = length vs"
    proof (rule ccontr)
      assume "j \<noteq> length vs"
      with j have "covers va (vs ! j)" "vs ! j \<in> set vs" by (auto simp: nth_append)
      with vs [of "vs ! j"] that(1) show False by (auto simp: covers_def dest: le_less_trans)
    qed
  qed simp
  with lo show ?thesis unfolding stack_in_def by auto
qed

lemma missing_pages:
  assumes "unat lo mod 4096 = 0" "unat lo + n * 4096 = unat hi"
  shows "card (missing s root lo hi) \<le> n"
proof -
  have "missing s root lo hi \<subseteq> {unat lo div 4096 ..< unat lo div 4096 + n}"
  proof
    fix k assume "k \<in> missing s root lo hi"
    then have k: "unat lo div 4096 \<le> k" "k * 4096 < unat hi" by (auto simp: missing_def)
    have "unat lo = unat lo div 4096 * 4096" using assms(1) div_mult_mod_eq [of "unat lo" 4096] by simp
    with k(2) assms(2) have "k * 4096 < (unat lo div 4096 + n) * 4096" by (simp add: add_mult_distrib)
    then show "k \<in> {unat lo div 4096 ..< unat lo div 4096 + n}" using k(1) by simp
  qed
  from card_mono [OF _ this] show ?thesis by simp
qed

text \<open>Frames for the two tables of a space and for every page of the stack, with its tables.\<close>

definition exec_frames :: "u64 \<Rightarrow> nat" where
  "exec_frames extra = 2 + 4 * (8 + (unat extra + 4095) div 4096)"

lemma build_starts:
  assumes p: "program_ok env (k_mem w) img sz extra" and x: "unat extra \<le> 2 ^ 20" "x_space env"
    and r: "pmm_ready (frames (k_vm w))" "physmap_initialized (k_vm w)" "enough (k_vm w) (exec_frames extra)"
  obtains w1 im nv where "proc_image_build env img sz img extra w = Some (w1, Inr (im, nv))" "stack_in nv (im_stack_lo im) (im_stack_top im)"
    "fueled (free_set (frames (k_vm w))) (k_vm w1) (the (im_space im)) (im_stack_lo im) (im_stack_top im)" "\<And>f. im_mf im = Some f \<Longrightarrow> mf_proc_type f \<noteq> MANIFEST_PROC_TYPE_DRIVER"
proof -
  obtain vs entry fp mf where P: "img \<noteq> 0" "elf_signature_verify (x_verify env) (x_revoked env) (k_mem w) img sz = Some ELF_SIG_OK"
    "elf_load_image_lazy (k_mem w) img sz [] = (vs, Inr (entry, fp))" "length vs < VMA_MAX" "\<And>v. v \<in> set vs \<Longrightarrow> v_end v \<le> USER_STACK_TOP - 0x2000000"
    "image_manifest env (k_mem w) img sz entry (fp + stack_bytes extra) = Some (Inr mf)" "\<And>f. mf = Some f \<Longrightarrow> mf_proc_type f \<noteq> MANIFEST_PROC_TYPE_DRIVER"
    by (rule program_okD [OF p]) blast
  let ?n = "8 + (unat extra + 4095) div 4096" and ?hi = "stack_top env" and ?lo = "stack_top env - stack_bytes extra"
  obtain vm root where c: "vmm_space_create_user (k_vm w) (x_space env) = (vm, Some root)" "enough vm (4 * ?n)"
    by (rule enough_create [OF r(1), of "4 * ?n"]) (use r(3) x(2) in \<open>auto simp: exec_frames_def add.commute\<close>)
  note S = stack_range [OF x(1), of env] and C = create_user_spec [OF r(1,2) c(1)]
  have none: "find_index (\<lambda>v. v_type v = VMA_TYPE_NONE) vs = None"
    using lazy_load_regions(1) [OF P(3)] by (auto simp: find_index_None seg_region_def)
  let ?nv = "vs @ [anon_region ?lo ?hi stack_flags]"
  let ?im = "\<lparr>im_space = Some root, im_image = img, im_size = sz, im_entry = entry, im_stack_top = ?hi, im_stack_lo = ?lo, im_footprint = fp + stack_bytes extra, im_mf = mf\<rparr>"
  have va: "vma_add vs ?lo ?hi stack_flags VMA_TYPE_ANON 0 0 0 0 = (?nv, 0)" using none P(4) by (simp add: vma_add_anon vma_put_def)
  have b: "proc_image_build env img sz img extra w = Some (w\<lparr>k_vm := vm\<rparr>, Inr (?im, ?nv))"
    unfolding proc_image_build_def Let_def stack_top_def [symmetric] stack_bytes_def [symmetric]
    using P(1,2,3,6) c(1) va by (simp add: pin_image_def)
  have top: "unat (USER_STACK_TOP - 0x2000000) \<le> unat ?lo" using S(2,5) x(1) div_times_less_eq_dividend [of "unat extra + 4095" 4096]
    by (simp add: USER_STACK_TOP_def)
  have st: "stack_in ?nv ?lo ?hi"
    by (rule stack_found) (use P(5) top S(1,3) in \<open>auto simp: word_le_nat_alt USER_STACK_TOP_def intro: order_trans\<close>)
  have "unat ?lo mod 4096 = 0" using S(3) unat_low [of ?lo] by simp
  then have "card (missing vm root ?lo ?hi) \<le> ?n" by (rule missing_pages) (use S(2) in \<open>simp add: algebra_simps\<close>)
  then have "enough vm (4 * card (missing vm root ?lo ?hi))" by (intro enough_mono [OF c(2)]) simp
  then have "fueled (free_set (frames (k_vm w))) vm root ?lo ?hi" using C(1) by (simp add: fueled_def)
  then show ?thesis using that [OF b] st P(7) by simp
qed

definition args_at :: "vmm \<Rightarrow> u64 \<Rightarrow> u64 \<Rightarrow> u64 \<Rightarrow> u8 list list \<Rightarrow> u8 list list \<Rightarrow> bool" where
  "args_at s root rsp strbase args envs \<longleftrightarrow> ubytes s root strbase (length (str_block (args @ envs))) = str_block (args @ envs)
     \<and> (\<forall>i < length args + length envs + 3. uword s root (rsp + 8 * of_nat i) = arg_words strbase args envs ! i)"

lemma ubytes_cong:
  assumes "\<And>vb. user_va vb \<Longrightarrow> ubyte s' root vb = ubyte s root vb" "unat va + n \<le> 2 ^ 47"
  shows "ubytes s' root va n = ubytes s root va n"
proof -
  have "ubyte s' root (va + of_nat k) = ubyte s root (va + of_nat k)" if "k < n" for k
  proof (rule assms(1))
    have "unat (va + of_nat k) = unat va + k" by (rule unat_step) (use assms(2) that in simp)
    then show "user_va (va + of_nat k)" using assms(2) that by (simp add: user_va_def VMM_USER_TOP_def word_less_nat_alt)
  qed
  then show ?thesis by (simp add: ubytes_def)
qed

lemma args_at_cong:
  assumes a: "args_at s root rsp strbase args envs" and s: "\<And>vb. user_va vb \<Longrightarrow> ubyte s' root vb = ubyte s root vb"
    and r: "unat rsp + 8 * (length args + length envs + 3) \<le> 2 ^ 47" "unat strbase + length (str_block (args @ envs)) \<le> 2 ^ 47"
  shows "args_at s' root rsp strbase args envs"
proof -
  have "uword s' root (rsp + 8 * of_nat i) = uword s root (rsp + 8 * of_nat i)" if "i < length args + length envs + 3" for i
  proof -
    have "unat (rsp + of_nat (8 * i)) = unat rsp + 8 * i" by (rule unat_step) (use r(1) that in simp)
    then show ?thesis using ubytes_cong [OF s, where va = "rsp + of_nat (8 * i)" and n = 8] r(1) that by (simp add: uword_def)
  qed
  then show ?thesis using a ubytes_cong [OF s r(2)] by (simp add: args_at_def)
qed

text \<open>The tables of the space that execve replaces are not free frames.\<close>

definition space_held :: "vmm \<Rightarrow> u64 option \<Rightarrow> bool" where
  "space_held s sp \<longleftrightarrow> (case sp of None \<Rightarrow> True | Some root \<Rightarrow> tables_in (- free_set (frames s)) s root)"

lemma close_on_exec_vm: "k_vm (fst (fold close_on_exec is wd)) = k_vm (fst wd)"
proof (induction "is" arbitrary: wd)
  case (Cons i "is")
  have "k_vm (fst (close_on_exec i wd)) = k_vm (fst wd)" by (cases wd) (simp add: close_on_exec_def Let_def)
  with Cons show ?case by simp
qed simp

lemma release_vm: "k_vm (exec_release img sp w) = (case sp of None \<Rightarrow> k_vm w | Some root \<Rightarrow> vmm_space_destroy (k_vm w) root)"
  by (simp add: exec_release_def Let_def split: option.split)

lemma release_bytes:
  assumes o: "owns F vh root" "only_in F s vh" and old: "space_held s sp" "F = free_set (frames s)" and va: "user_va va"
  shows "ubyte (case sp of None \<Rightarrow> vh | Some a \<Rightarrow> vmm_space_destroy vh a) root va = ubyte vh root va"
proof (cases sp)
  case (Some a)
  have "tables_in (- F) vh a" by (rule tables_apart [OF _ o(2)]) (use old Some in \<open>auto simp: space_held_def\<close>)
  then show ?thesis using owns_apart(2) [OF o(1) destroy_only_in _ va] Some by simp
qed simp

lemma exec_starts:
  assumes p: "program_ok env (k_mem w) img sz (arg_bytes (str_block (args @ envs)) (int (length args)) (int (length envs)))"
    and n: "args_bounded (str_block (args @ envs)) (int (length args)) (int (length envs))" and strs: "\<And>x. x \<in> set (args @ envs) \<Longrightarrow> 0 \<notin> set x"
    and x: "x_space env" "x_regions env" and old: "space_held (k_vm w) (p_space (t_mem q))"
    and r: "pmm_ready (frames (k_vm w))" "physmap_initialized (k_vm w)" "enough (k_vm w) (exec_frames (arg_bytes (str_block (args @ envs)) (int (length args)) (int (length envs))))"
  obtains w' q' fr' root where "process_exec env w q fr img sz (str_block (args @ envs)) (int (length args)) (int (length envs)) = Some (w', q', fr', 0)"
    "p_space (t_mem q') = Some root" "tf_rdi fr' = of_nat (length args)" "tf_rsi fr' = tf_rsp fr' + 8" "tf_rdx fr' = tf_rsp fr' + 8 * of_nat (length args + 2)"
    "unat (tf_rsp fr') mod 16 = 0" "args_at (k_vm w') root (tf_rsp fr') (stack_top env - of_nat (length (str_block (args @ envs)))) args envs"
proof -
  let ?blob = "str_block (args @ envs)" and ?a = "length args" and ?e = "length envs" and ?F = "free_set (frames (k_vm w))"
  define extra where "extra = arg_bytes ?blob (int ?a) (int ?e)"
  note X = arg_bytes_range [OF n, folded extra_def]
  have g: "img \<noteq> 0" "\<not> sz < 4" "is_elf (k_mem w) img" using p by (auto simp: program_ok_def)
  obtain w1 im nv where b: "proc_image_build env img sz img extra w = Some (w1, Inr (im, nv))" and st: "stack_in nv (im_stack_lo im) (im_stack_top im)"
    and f: "fueled ?F (k_vm w1) (the (im_space im)) (im_stack_lo im) (im_stack_top im)" and mf: "\<And>f. im_mf im = Some f \<Longrightarrow> mf_proc_type f \<noteq> MANIFEST_PROC_TYPE_DRIVER"
    by (rule build_starts [OF p [folded extra_def] X(2) x(1) r(1,2) r(3) [folded extra_def]]) blast
  note B = build_ok [OF b g(1)] and S = stack_range [OF X(2), of env, folded build_ok(7,8) [OF b g(1)]]
  obtain root where root: "im_space im = Some root" using B(6) by blast
  let ?hi = "im_stack_top im" and ?lo = "im_stack_lo im"
  define strbase where "strbase = ?hi - of_nat (length ?blob)"
  define base where "base = args_base ?hi (of_nat (length ?blob)) (int ?a) (int ?e)"
  have room: "unat ?lo + 0x1000 + length ?blob + 8 * (?a + ?e + 3) + 30 \<le> unat ?hi"
  proof -
    have "unat extra \<le> (unat extra + 4095) div 4096 * 4096" using div_mult_mod_eq [of "unat extra + 4095" 4096] mod_less_divisor [of 4096 "unat extra + 4095"] by linarith
    then show ?thesis using S(2) X(1) by simp
  qed
  have hi: "unat ?hi \<le> 2 ^ 47" using S(1) by (simp add: USER_STACK_TOP_def)
  note R = args_base_range [OF room hi, folded strbase_def base_def]
  obtain vm s1 where s: "setup_user_args (k_mem w1) (x_cache env) root nv ?hi ?lo ?blob (int ?a) (int ?e) (k_vm w1) = (vm, Some (base, base + 8, base + 8 * of_nat (?a + 2)))"
    and fv: "fueled ?F vm root ?lo ?hi" "only_in ?F (k_vm w1) vm" and wr: "wrote (k_vm w1) root strbase ?blob s1" "wrote s1 root base (words (arg_words strbase args envs)) vm"
    by (rule setup_user_args_ok [OF f [unfolded root option.sel] st strs room, where m = "k_mem w1" and cache = "x_cache env", folded strbase_def base_def]) blast+
  have rg: "unat base + 8 * (?a + ?e + 3) \<le> 2 ^ 47" "unat strbase + length ?blob \<le> 2 ^ 47" using R(1,3) hi room by simp_all
  have at: "args_at vm root base strbase args envs" using args_layout [OF wr] R(3) rg(2) by (simp add: args_at_def)
  define vh where "vh = vmm_harden_user_space vm root"
  note H = owns_harden [of ?F vm root, folded vh_def]
  obtain w2 q2 where sw: "exec_swap env im nv base (w1\<lparr>k_vm := vh\<rparr>) q = (w2, q2)" by force
  note SW = swap_spec [OF sw]
  obtain w3 fds where cl: "fold close_on_exec [0 ..< 32] (exec_release (t_image q) (p_space (t_mem q)) w2, t_fds q2) = (w3, fds)" by force
  have run: "process_exec env w q fr img sz ?blob (int ?a) (int ?e) = Some (w3, exec_reset (q2\<lparr>t_fds := fds\<rparr>), exec_frame (tf_int_no fr) (im_entry im) base (int ?a) (base + 8) (base + 8 * of_nat (?a + 2)), 0)"
    unfolding process_exec_def Let_def arg_bytes_def [symmetric] extra_def [symmetric]
    using g x(2) b mf s sw cl root by (simp add: vh_def split: option.split)
  have ow: "owns ?F vm root" using fv(1) by (simp add: fueled_def)
  have oi: "only_in ?F (k_vm w) vh"
    using create_user_only_in [OF r(1)] B(6) only_in_trans [OF only_in_trans [OF _ fv(2)] H(2) [OF ow]] by blast
  have k3: "k_vm w3 = (case p_space (t_mem q) of None \<Rightarrow> vh | Some a \<Rightarrow> vmm_space_destroy vh a)"
    using arg_cong [OF cl, of "\<lambda>x. k_vm (fst x)"] SW(13) by (simp add: close_on_exec_vm release_vm split: option.splits)
  have "ubyte (k_vm w3) root va = ubyte vm root va" if "user_va va" for va
    using release_bytes [OF H(1) [OF ow] oi old refl that] H(4) [OF ow that] unfolding k3 by simp
  from args_at_cong [OF at this rg]
  have "args_at (k_vm w3) root base (stack_top env - of_nat (length ?blob)) args envs" unfolding strbase_def B(7) .
  then show ?thesis using that [OF run] SW(4) root R(2) by (simp add: exec_reset_def exec_frame_def)
qed

subsection \<open>The course of the system call\<close>

lemma walk_entry_error: "walk_entry tab s search hops res res1 todo ino \<noteq> Walk_done (Inl 0)"
  by (simp add: walk_entry_def Let_def split: prod.split)

lemma walk_step_error: "walk_step tab s search follow hops res todo \<noteq> Walk_done (Inl 0)"
  by (auto simp: walk_step_def Let_def walk_entry_error simp del: dropWhile_eq_Nil_conv split: option.split)

lemma walk_loop_error: "walk_loop tab s search follow hops res todo \<noteq> Inl 0"
proof (induction tab s search follow hops res todo rule: walk_loop.induct)
  case (1 tab s search follow hops res todo)
  show ?case
    by (subst walk_loop.simps) (use 1 walk_step_error [of tab s search follow hops res todo] in \<open>auto split: walk_turn.split\<close>)
qed

lemma check_path_error: "cred_check_path tab s c path follow req cap \<noteq> Inl 0"
proof -
  have "vfs_walk_checked tab s path cap follow search \<noteq> Inl 0" for search
  proof (cases "vfs_copy path VFS_PATH")
    case (Some todo)
    show ?thesis
      by (cases "walk_loop tab s search follow 0 [] todo")
        (use Some walk_loop_error [of tab s search follow 0 "[]" todo] in \<open>simp_all add: vfs_walk_checked_def split: option.split\<close>)
  qed (simp add: vfs_walk_checked_def)
  then have "cred_resolve tab s c path follow cap \<noteq> Inl 0" by (simp add: cred_resolve_def vfs_walk_def)
  then show ?thesis by (auto simp: cred_check_path_def split: sum.split option.split)
qed

lemma execve_file_error: "execve_file tab fs c ap \<noteq> Inl 0"
  using check_path_error [of tab fs "Some c" ap True MAY_EXEC 256] by (auto simp: execve_file_def split: sum.split option.split prod.split)

lemma copy_strv_error: "copy_strv_from m uvec n i blob \<noteq> Inl 0"
proof (induction n arbitrary: i blob)
  case 0
  then show ?case by (subst copy_strv_from.simps) (auto simp: Let_def split: prod.split)
next
  case (Suc n)
  then show ?case by (subst copy_strv_from.simps) (auto simp: Let_def split: prod.split)
qed

lemma execve_args_error: "execve_args m uargv uenvp \<noteq> Inl 0"
  using copy_strv_error by (auto simp: execve_args_def exec_copy_strv_def split: sum.split if_splits)

lemma user_string_error: "user_string m us cap \<noteq> Inl 0"
  by (auto simp: user_string_def split: prod.split)

lemma execve_cases:
  assumes "ksys_execve tab fs m env blob_ok img w c fr pathp uargv uenvp = Some (w', c', fr', r)"
  obtains (early) "w' = w \<or> w' = call (Kfree_image img) w" "c' = c" "fr' = fr" "r \<noteq> 0"
  | (exec) kpath blob argc envc rp ino ops n bs w1 c1 where "user_string m pathp 256 = Inr kpath" "execve_args m uargv uenvp = Inr (blob, argc, envc)"
      "execve_file tab fs (t_proc c) (proc_resolve_path (t_cwd c) kpath 256) = Inr (rp, ino, ops)" "op_read (tab ops) (fs_world fs) ino 0 (i_size ino) = (n, bs)" "img \<noteq> 0"
      "process_exec env (w\<lparr>k_mem := load_at (k_mem w) img bs\<rparr>) c fr img (of_nat (i_size ino)) blob (int argc) (int envc) = Some (w1, c1, fr', r)"
      "if r \<noteq> 0 then w' = w1 \<and> c' = c1
       else \<exists>w2. exec_ids w1 c1 ino (cred_on_root_mount (g_mounts fs) rp) (no_new_privs (t_proc c)) = (w2, c') \<and> k_drv w' = k_drv w2 \<and> k_vm w' = k_vm w2 \<and> k_audit w' = k_audit w2"
proof -
  note U = user_string_error [of m pathp 256] and A = execve_args_error [of m uargv uenvp]
  consider e where "user_string m pathp 256 = Inl e" | kpath where "user_string m pathp 256 = Inr kpath" by (cases "user_string m pathp 256") auto
  then show ?thesis
  proof cases
    case 1
    then show ?thesis using assms U by (intro early) (auto simp: ksys_execve_def)
  next
    case 2
    let ?f = "execve_file tab fs (t_proc c) (proc_resolve_path (t_cwd c) kpath 256)"
    note F = execve_file_error [of tab fs "t_proc c" "proc_resolve_path (t_cwd c) kpath 256"]
    show ?thesis
    proof (cases "kpath = [] \<or> \<not> blob_ok \<or> (\<exists>e. execve_args m uargv uenvp = Inl e) \<or> (\<exists>e. ?f = Inl e)")
      case True
      then show ?thesis using assms 2 A F by (intro early) (auto simp: ksys_execve_def split: sum.splits if_splits)
    next
      case False
      then obtain blob argc envc rp ino ops where a: "execve_args m uargv uenvp = Inr (blob, argc, envc)" and f: "?f = Inr (rp, ino, ops)"
        by (metis prod_cases3 sum.exhaust)
      obtain n bs where rd: "op_read (tab ops) (fs_world fs) ino 0 (i_size ino) = (n, bs)" by force
      show ?thesis
      proof (cases "img = 0 \<or> n < 0")
        case True
        then show ?thesis using assms 2 False a f rd by (intro early) (auto simp: ksys_execve_def split: if_splits)
      next
        case g: False
        let ?w = "w\<lparr>k_mem := load_at (k_mem w) img bs\<rparr>"
        obtain w1 c1 fr1 r1 where x: "process_exec env ?w c fr img (of_nat (i_size ino)) blob (int argc) (int envc) = Some (w1, c1, fr1, r1)"
          using assms 2 False a f rd g by (auto simp: ksys_execve_def Let_def split: option.splits)
        obtain w2 c2 where i: "exec_ids w1 c1 ino (cred_on_root_mount (g_mounts fs) rp) (no_new_privs (t_proc c)) = (w2, c2)" by force
        have y: "r = r1" "fr' = fr1" "if r \<noteq> 0 then w' = w1 \<and> c' = c1 else c' = c2 \<and> k_drv w' = k_drv w2 \<and> k_vm w' = k_vm w2 \<and> k_audit w' = k_audit w2"
          using assms 2 False a f rd g x i by (auto simp: ksys_execve_def Let_def split: if_splits)
        show ?thesis by (rule exec [OF 2 a f rd _ x [folded y(1,2)]]) (use g y i in \<open>auto split: if_splits\<close>)
      qed
    qed
  qed
qed

lemma exec_image:
  assumes "process_exec env w p fr img sz blob argc envc = Some (w', p', fr', 0)"
  shows "elf_signature_verify (x_verify env) (x_revoked env) (k_mem w) img sz = Some ELF_SIG_OK"
    "list_all (\<lambda>v. \<not> wx_request (v_flags v) \<and> (\<not> has (v_flags v) VMM_FLAG_NOEXEC \<longrightarrow> v_type v = VMA_TYPE_FILE \<and> file_base v = img)) (vmas (t_mem p'))"
    "tf_rip fr' = e_entry (ehdr_at (k_mem w) img)" "tf_cs fr' = 0x1B" "tf_ss fr' = 0x23" "tf_rflags fr' = 0x202"
proof -
  obtain im nv w1 rsp argvp envp wp w2 fds where g: "img \<noteq> 0"
    and b: "proc_image_build env img sz img (of_nat (length blob) + (of_int argc + of_int envc + 3) * 8 + 32) w = Some (w1, Inr (im, nv))"
    and sw: "exec_swap env im nv rsp (w1\<lparr>k_vm := vmm_harden_user_space (fst (setup_user_args (k_mem w1) (x_cache env) (the (im_space im)) nv (im_stack_top im) (im_stack_lo im) blob argc envc (k_vm w1))) (the (im_space im))\<rparr>) p = wp"
    and p': "p' = exec_reset ((snd wp)\<lparr>t_fds := fds\<rparr>)" and fr': "fr' = exec_frame (tf_int_no fr) (im_entry im) rsp argc argvp envp"
    by (rule exec_succeeded [OF assms]) simp
  show "elf_signature_verify (x_verify env) (x_revoked env) (k_mem w) img sz = Some ELF_SIG_OK" by (rule build_ok(5) [OF b g])
  obtain phs where nv: "nv = map (seg_region img) phs @ [anon_region (im_stack_lo im) (im_stack_top im) stack_flags]"
    and ph: "\<And>ph. ph \<in> set phs \<Longrightarrow> check_segment ph sz = 0" and en: "im_entry im = e_entry (ehdr_at (k_mem w) img)"
    by (rule image_regions [OF b g]) blast
  have v: "vmas (t_mem p') = nv" unfolding p' using swap_spec(5) [of env im nv rsp _ p "fst wp" "snd wp"] sw by (simp add: exec_reset_def)
  have s: "has stack_flags VMM_FLAG_NOEXEC" by (simp add: has_def flag_defs)
  show "list_all (\<lambda>v. \<not> wx_request (v_flags v) \<and> (\<not> has (v_flags v) VMM_FLAG_NOEXEC \<longrightarrow> v_type v = VMA_TYPE_FILE \<and> file_base v = img)) (vmas (t_mem p'))"
    unfolding v nv list_all_iff
  proof
    fix v assume "v \<in> set (map (seg_region img) phs @ [anon_region (im_stack_lo im) (im_stack_top im) stack_flags])"
    then consider ph where "v = seg_region img ph" "ph \<in> set phs" | "v = anon_region (im_stack_lo im) (im_stack_top im) stack_flags" by auto
    then show "\<not> wx_request (v_flags v) \<and> (\<not> has (v_flags v) VMM_FLAG_NOEXEC \<longrightarrow> v_type v = VMA_TYPE_FILE \<and> file_base v = img)"
    proof cases
      case 1
      then show ?thesis using seg_region_wx [OF ph] by (simp add: seg_region_def)
    next
      case 2
      then show ?thesis using stack_flags(1) s by (simp add: anon_region_def)
    qed
  qed
  show "tf_rip fr' = e_entry (ehdr_at (k_mem w) img)" "tf_cs fr' = 0x1B" "tf_ss fr' = 0x23" "tf_rflags fr' = 0x202"
    by (simp_all add: fr' exec_frame_def en)
qed

lemma swap_caps:
  assumes sw: "exec_swap env im nv rsp w p = (w', p')" and p: "pid (t_proc p) \<noteq> 0"
  shows "no_new_privs (t_proc p) \<Longrightarrow> no_new_privs (t_proc p') \<and> cap_effective (Some (t_proc p')) AND NOT (cap_effective (Some (t_proc p))) = 0"
    "im_mf im = Some mf \<Longrightarrow> mf_flags mf AND MANIFEST_FLAG_CAP_ENFORCE \<noteq> 0 \<Longrightarrow> cap_enforce (t_proc p') \<and> cap_effective (Some (t_proc p')) AND NOT (mf_flags mf) = 0"
proof -
  let ?q = "t_proc (proc_apply_caps (set_manifest p (im_mf im)) (im_mf im))"
  have t: "cap_exec_transition (k_audit w) ?q (cap_exec_bound (Some (t_proc p))) (Some ''execve'') = (k_audit w', t_proc p')" by (rule swap_spec(9) [OF sw])
  have q: "pid ?q \<noteq> 0" using p by (simp add: apply_caps_pid)
  note N = transition_effective [OF q p _ t]
  show "no_new_privs (t_proc p') \<and> cap_effective (Some (t_proc p')) AND NOT (cap_effective (Some (t_proc p))) = 0" if "no_new_privs (t_proc p)"
    using N [OF that] by (simp add: and.assoc)
  assume mf: "im_mf im = Some mf" "mf_flags mf AND MANIFEST_FLAG_CAP_ENFORCE \<noteq> 0"
  note C = apply_caps_effective [OF p mf(2), folded mf(1)]
  show "cap_enforce (t_proc p') \<and> cap_effective (Some (t_proc p')) AND NOT (mf_flags mf) = 0"
  proof (cases "no_new_privs (t_proc p)")
    case True
    have "(cap_effective (Some ?q) AND cap_effective (Some (t_proc p))) AND NOT (mf_flags mf) = 0"
      using C(1) by (metis and.assoc and.commute bit.conj_zero_left)
    then show ?thesis using N [OF True] C(2) by simp
  next
    case False
    then have "\<not> b_nnp (cap_exec_bound (Some (t_proc p)))" by (simp add: cap_exec_bound_def Let_def)
    from transition_free [OF this t] C show ?thesis by simp
  qed
qed

lemma close_on_exec_all:
  assumes "fold close_on_exec [0 ..< 32] (w, fds) = (w', fds')" "length fds = 32"
  shows "list_all (\<lambda>f. \<not> (pf_used f \<and> pf_cloexec f)) fds'"
  using close_on_exec_inv [OF assms(1)] assms(2) by (auto simp: list_all_length)

lemma close_on_exec_drv: "k_drv (fst (fold close_on_exec is wd)) = k_drv (fst wd)"
proof (induction "is" arbitrary: wd)
  case (Cons i "is")
  have "k_drv (fst (close_on_exec i wd)) = k_drv (fst wd)" by (cases wd) (simp add: close_on_exec_def Let_def)
  with Cons show ?case by simp
qed simp

lemma reset_caps: "cap_effective (Some (t_proc (exec_reset p))) = cap_effective (Some (t_proc p))" "cap_enforce (t_proc (exec_reset p)) = cap_enforce (t_proc p)"
  "no_new_privs (t_proc (exec_reset p)) = no_new_privs (t_proc p)" "cred (t_proc (exec_reset p)) = cred (t_proc p)"
  by (simp_all add: exec_reset_def cap_effective_def)

lemma swap_cred: "exec_swap env im nv rsp w p = (w', p') \<Longrightarrow> cred (t_proc p') = cred (t_proc p)"
  by (auto simp: exec_swap_def Let_def set_manifest_def proc_apply_caps_def cap_exec_transition_def split: prod.splits option.splits if_splits)

text \<open>What the new image may do, and what is left of the old one.\<close>

lemma exec_confined:
  assumes x: "process_exec env w p fr img sz blob argc envc = Some (w', p', fr', 0)" and p: "pid (t_proc p) \<noteq> 0"
  shows "t_type p' = PROC_TYPE_USER" "t_ptr p' = t_ptr p" "grants (k_drv w') (t_ptr p, dev) = None"
    "no_new_privs (t_proc p) \<Longrightarrow> no_new_privs (t_proc p') \<and> cap_effective (Some (t_proc p')) AND NOT (cap_effective (Some (t_proc p))) = 0"
    "t_manifest p' = Some mf \<Longrightarrow> mem_limit (t_mem p') = max_mem mf"
    "t_manifest p' = Some mf \<Longrightarrow> mf_flags mf AND MANIFEST_FLAG_CAP_ENFORCE \<noteq> 0 \<Longrightarrow> cap_enforce (t_proc p') \<and> cap_effective (Some (t_proc p')) AND NOT (mf_flags mf) = 0"
    "i < 32 \<Longrightarrow> sig_handler (t_proc p') i \<in> {0, 1}" "length (t_fds p) = 32 \<Longrightarrow> list_all (\<lambda>f. \<not> (pf_used f \<and> pf_cloexec f)) (t_fds p')"
    "cred (t_proc p') = cred (t_proc p)"
proof -
  obtain im nv w1 rsp wp w2 fds vm where sw: "exec_swap env im nv rsp (w1\<lparr>k_vm := vm\<rparr>) p = wp"
    and cl: "fold close_on_exec [0 ..< 32] (exec_release (t_image p) (p_space (t_mem p)) (fst wp), t_fds (snd wp)) = (w2, fds)"
    and w': "w' = w2" and p': "p' = exec_reset ((snd wp)\<lparr>t_fds := fds\<rparr>)"
    by (rule exec_succeeded [OF x]) blast
  have sw': "exec_swap env im nv rsp (w1\<lparr>k_vm := vm\<rparr>) p = (fst wp, snd wp)" using sw by simp
  note S = swap_spec [OF sw'] and C = swap_caps [OF sw' p]
  have r: "t_type p' = t_type (snd wp)" "t_ptr p' = t_ptr (snd wp)" "t_manifest p' = t_manifest (snd wp)" "t_mem p' = t_mem (snd wp)" "t_fds p' = fds"
    by (simp_all add: p' exec_reset_def)
  have k: "k_drv w' = driver_remove_all_bindings (k_drv w1) (Some (t_ptr p))"
    using arg_cong [OF cl, of "\<lambda>x. k_drv (fst x)"] S(1) by (simp add: w' close_on_exec_drv exec_release_def Let_def split: option.splits if_splits)
  show "t_type p' = PROC_TYPE_USER" "t_ptr p' = t_ptr p" using r S(2,3) by simp_all
  show "grants (k_drv w') (t_ptr p, dev) = None" unfolding k by (rule no_grants_left)
  show "no_new_privs (t_proc p') \<and> cap_effective (Some (t_proc p')) AND NOT (cap_effective (Some (t_proc p))) = 0" if "no_new_privs (t_proc p)"
    using C(1) [OF that] by (simp add: p' reset_caps)
  show "mem_limit (t_mem p') = max_mem mf" if "t_manifest p' = Some mf" using that r S(7,11) by simp
  show "cap_enforce (t_proc p') \<and> cap_effective (Some (t_proc p')) AND NOT (mf_flags mf) = 0"
    if "t_manifest p' = Some mf" "mf_flags mf AND MANIFEST_FLAG_CAP_ENFORCE \<noteq> 0"
    using C(2) [OF _ that(2)] that(1) r(3) S(7) by (simp add: p' reset_caps)
  show "sig_handler (t_proc p') i \<in> {0, 1}" if "i < 32" using that by (simp add: p' exec_reset_def)
  show "list_all (\<lambda>f. \<not> (pf_used f \<and> pf_cloexec f)) (t_fds p')" if "length (t_fds p) = 32"
    using close_on_exec_all [OF cl] that S(8) r(5) by simp
  show "cred (t_proc p') = cred (t_proc p)" using swap_cred [OF sw'] by (simp add: p' reset_caps)
qed

lemma exec_ids_spec:
  assumes "exec_ids w p ino rm nnp = (w', p')"
  shows "t_type p' = t_type p" "t_ptr p' = t_ptr p" "t_manifest p' = t_manifest p" "t_mem p' = t_mem p" "t_fds p' = t_fds p" "k_drv w' = k_drv w" "k_vm w' = k_vm w"
    "sig_handler (t_proc p') = sig_handler (t_proc p)" "no_new_privs (t_proc p') = no_new_privs (t_proc p)" "cap_enforce (t_proc p') = cap_enforce (t_proc p)"
    "cap_effective (Some (t_proc p')) = cap_effective (Some (t_proc p))"
    "ruid (cred (t_proc p')) = ruid (cred (t_proc p)) \<and> rgid (cred (t_proc p')) = rgid (cred (t_proc p)) \<and> groups (cred (t_proc p')) = groups (cred (t_proc p))"
    "suid (cred (t_proc p')) = euid (cred (t_proc p'))" "sgid (cred (t_proc p')) = egid (cred (t_proc p'))"
    "euid (cred (t_proc p')) \<noteq> euid (cred (t_proc p)) \<Longrightarrow>
       rm \<and> \<not> nnp \<and> process_manifest_setid (Some p) \<and> cred_inode_mode (Some ino) AND S_ISUID \<noteq> 0 \<and> euid (cred (t_proc p')) = i_uid ino"
    "egid (cred (t_proc p')) \<noteq> egid (cred (t_proc p)) \<Longrightarrow>
       rm \<and> \<not> nnp \<and> process_manifest_setid (Some p) \<and> cred_inode_mode (Some ino) AND S_ISGID \<noteq> 0 \<and> cred_inode_mode (Some ino) AND 8 \<noteq> 0 \<and> egid (cred (t_proc p')) = i_gid ino"
proof -
  obtain a allowed where s: "setid_allowed (k_audit w) p (cred_inode_mode (Some ino)) rm nnp = (a, allowed)" by force
  define cr where "cr = fst (cred_exec_setid (cred (t_proc p)) (cred_inode_mode (Some ino)) (i_uid ino) (i_gid ino) allowed)"
  have e: "w' = w\<lparr>k_audit := a\<rparr>" "p' = p\<lparr>t_proc := (t_proc p)\<lparr>cred := cr\<rparr>\<rparr>" using assms s by (auto simp: exec_ids_def Let_def cr_def)
  show "t_type p' = t_type p" "t_ptr p' = t_ptr p" "t_manifest p' = t_manifest p" "t_mem p' = t_mem p" "t_fds p' = t_fds p" "k_drv w' = k_drv w" "k_vm w' = k_vm w"
    "sig_handler (t_proc p') = sig_handler (t_proc p)" "no_new_privs (t_proc p') = no_new_privs (t_proc p)" "cap_enforce (t_proc p') = cap_enforce (t_proc p)"
    "cap_effective (Some (t_proc p')) = cap_effective (Some (t_proc p))"
    by (simp_all add: e cap_effective_def)
  have al: "rm \<and> \<not> nnp \<and> process_manifest_setid (Some p)"
    if "allowed" "cred_inode_mode (Some ino) AND S_ISUID \<noteq> 0 \<or> (cred_inode_mode (Some ino) AND S_ISGID \<noteq> 0 \<and> cred_inode_mode (Some ino) AND 8 \<noteq> 0)"
    using s that by (auto simp: setid_allowed_def Let_def split: if_splits)
  show "ruid (cred (t_proc p')) = ruid (cred (t_proc p)) \<and> rgid (cred (t_proc p')) = rgid (cred (t_proc p)) \<and> groups (cred (t_proc p')) = groups (cred (t_proc p))"
    "suid (cred (t_proc p')) = euid (cred (t_proc p'))" "sgid (cred (t_proc p')) = egid (cred (t_proc p'))"
    by (simp_all add: e cr_def cred_exec_setid_def Let_def)
  show "rm \<and> \<not> nnp \<and> process_manifest_setid (Some p) \<and> cred_inode_mode (Some ino) AND S_ISUID \<noteq> 0 \<and> euid (cred (t_proc p')) = i_uid ino"
    if "euid (cred (t_proc p')) \<noteq> euid (cred (t_proc p))"
    using that al by (auto simp: e cr_def cred_exec_setid_def Let_def split: if_splits)
  show "rm \<and> \<not> nnp \<and> process_manifest_setid (Some p) \<and> cred_inode_mode (Some ino) AND S_ISGID \<noteq> 0 \<and> cred_inode_mode (Some ino) AND 8 \<noteq> 0 \<and> egid (cred (t_proc p')) = i_gid ino"
    if "egid (cred (t_proc p')) \<noteq> egid (cred (t_proc p))"
    using that al by (auto simp: e cr_def cred_exec_setid_def Let_def split: if_splits)
qed

text \<open>A program without a manifest that holds runs without enforcement and without a limit.\<close>

lemma exec_manifest:
  assumes "process_exec env w p fr img sz blob argc envc = Some (w', p', fr', 0)"
  shows "\<exists>fp. image_manifest env (k_mem w) img sz (e_entry (ehdr_at (k_mem w) img)) fp = Some (Inr (t_manifest p'))"
proof -
  obtain im nv w1 rsp wp fds vm where g: "img \<noteq> 0"
    and b: "proc_image_build env img sz img (of_nat (length blob) + (of_int argc + of_int envc + 3) * 8 + 32) w = Some (w1, Inr (im, nv))"
    and sw: "exec_swap env im nv rsp (w1\<lparr>k_vm := vm\<rparr>) p = wp" and p': "p' = exec_reset ((snd wp)\<lparr>t_fds := fds\<rparr>)"
    by (rule exec_succeeded [OF assms(1)]) blast
  have en: "im_entry im = e_entry (ehdr_at (k_mem w) img)" by (rule image_regions [OF b g])
  have sw': "exec_swap env im nv rsp (w1\<lparr>k_vm := vm\<rparr>) p = (fst wp, snd wp)" using sw by simp
  have "t_manifest p' = im_mf im" using swap_spec(7) [OF sw'] by (simp add: p' exec_reset_def)
  with build_ok(10) [OF b g] en show ?thesis by auto
qed

lemma exec_no_manifest:
  assumes "process_exec env w p fr img sz blob argc envc = Some (w', p', fr', 0)"
    and m: "\<And>fp. image_manifest env (k_mem w) img sz (e_entry (ehdr_at (k_mem w) img)) fp = Some (Inr None)"
  shows "t_manifest p' = None" "mem_limit (t_mem p') = 0" "\<not> no_new_privs (t_proc p) \<Longrightarrow> \<not> cap_enforce (t_proc p')"
proof -
  obtain im nv w1 rsp wp fds vm where g: "img \<noteq> 0"
    and b: "proc_image_build env img sz img (of_nat (length blob) + (of_int argc + of_int envc + 3) * 8 + 32) w = Some (w1, Inr (im, nv))"
    and sw: "exec_swap env im nv rsp (w1\<lparr>k_vm := vm\<rparr>) p = wp" and p': "p' = exec_reset ((snd wp)\<lparr>t_fds := fds\<rparr>)"
    by (rule exec_succeeded [OF assms(1)]) blast
  have en: "im_entry im = e_entry (ehdr_at (k_mem w) img)" by (rule image_regions [OF b g])
  have mf: "im_mf im = None" using build_ok(10) [OF b g] m by (simp add: en)
  have sw': "exec_swap env im nv rsp (w1\<lparr>k_vm := vm\<rparr>) p = (fst wp, snd wp)" using sw by simp
  note S = swap_spec [OF sw']
  show "t_manifest p' = None" "mem_limit (t_mem p') = 0" using S(7,11) mf by (simp_all add: p' exec_reset_def)
  assume "\<not> no_new_privs (t_proc p)"
  then have "\<not> b_nnp (cap_exec_bound (Some (t_proc p)))" by (simp add: cap_exec_bound_def Let_def)
  from transition_free(1) [OF this S(9)] have "\<not> cap_enforce (t_proc (snd wp))" by (simp add: mf proc_apply_caps_def)
  then show "\<not> cap_enforce (t_proc p')" by (simp add: p' exec_reset_def)
qed

end
