(* ===== verification/Execve_Demo.thy ===== *)
theory Execve_Demo
  imports Execve_Safe
begin

text \<open>
  A small program to run the theorems about execve on: an image with a code segment, a signature and
  a manifest that asks for enforced capabilities, for a memory limit and for the right to be
  set-id, and a system on which it is the file /p, owned by root with the set-user-id bit.
\<close>

subsection \<open>The image\<close>

abbreviation note_head :: "u8 \<Rightarrow> u8 list \<Rightarrow> u8 list" where
  "note_head descsz ty \<equiv> [6, 0, 0, 0, descsz, 0, 0, 0] @ ty @ [0x53, 0x45, 0x43, 0x4F, 0x53, 0, 0, 0]"

definition prog_image :: "u64 \<Rightarrow> u8 list" where
  "prog_image hint = ehdr_bytes 2 @ phdr_bytes 1 5 0 USER_CODE_BASE 312 312 @ phdr_bytes 4 0 176 0 136 136
     @ note_head 72 [0x47, 0x49, 0x53, 0x51] @ replicate 72 0
     @ note_head 24 [0x43, 0x45, 0x53, 0x51] @ [1, 0, 0, 0, 0x20, 0x80, 0, 0] @ le64 0x4000000 @ le64 hint"

definition prog_mem :: "u64 \<Rightarrow> kmem" where
  "prog_mem hint = with_bytes plain_img (prog_image hint) (\<lambda>_. 0xAA)"

definition prog_manifest :: "u64 \<Rightarrow> elf_manifest" where
  "prog_manifest hint = \<lparr>mf_version = 1, mf_flags = 0x8020, max_mem = 0x4000000, entry_hint = hint,
     mf_proc_type = MANIFEST_PROC_TYPE_USER, mf_dev_id = 0, mf_dev_caps = 0\<rparr>"

lemma header_lengths [simp]: "length (ehdr_bytes n) = 64" "length (phdr_bytes a b c d e f) = 56"
  by (simp_all add: ehdr_bytes_def phdr_bytes_def)

lemma prog_length [simp]: "length (prog_image hint) = 312"
  by (simp add: prog_image_def)

lemma prog_rd: "k + n \<le> 312 \<Longrightarrow> rd (prog_mem hint) (plain_img + of_nat k) n = of_le64 (take n (drop k (prog_image hint)))"
  unfolding prog_mem_def by (rule rd_with_bytes) simp_all

lemma prog_headers:
  "e_phoff (ehdr_at (prog_mem hint) plain_img) = 64" "e_phnum (ehdr_at (prog_mem hint) plain_img) = 2" "e_phentsize (ehdr_at (prog_mem hint) plain_img) = 56"
  "e_entry (ehdr_at (prog_mem hint) plain_img) = USER_CODE_BASE" "take 4 (e_ident (ehdr_at (prog_mem hint) plain_img)) = [0x7F, 0x45, 0x4C, 0x46]"
  "phdr_addr (prog_mem hint) plain_img 0 = plain_img + 64" "phdr_addr (prog_mem hint) plain_img 1 = plain_img + 120"
  "phdr_at (prog_mem hint) (plain_img + 64) = \<lparr>p_type = 1, p_flags = 5, p_offset = 0, p_vaddr = USER_CODE_BASE, p_paddr = USER_CODE_BASE, p_filesz = 312, p_memsz = 312, p_align = 0x1000\<rparr>"
  "phdr_at (prog_mem hint) (plain_img + 120) = \<lparr>p_type = 4, p_flags = 0, p_offset = 176, p_vaddr = 0, p_paddr = 0, p_filesz = 136, p_memsz = 136, p_align = 0x1000\<rparr>"
proof -
  have "take 64 (prog_image hint) = ehdr_bytes 2" "length (prog_image hint) < 2 ^ 64" by (simp_all add: prog_image_def)
  note E = ehdr_read [OF this, of plain_img "\<lambda>_. 0xAA", folded prog_mem_def]
  from E show e: "e_phoff (ehdr_at (prog_mem hint) plain_img) = 64" "e_phnum (ehdr_at (prog_mem hint) plain_img) = 2" "e_phentsize (ehdr_at (prog_mem hint) plain_img) = 56"
    "e_entry (ehdr_at (prog_mem hint) plain_img) = USER_CODE_BASE" "take 4 (e_ident (ehdr_at (prog_mem hint) plain_img)) = [0x7F, 0x45, 0x4C, 0x46]" by simp_all
  show "phdr_addr (prog_mem hint) plain_img 0 = plain_img + 64" "phdr_addr (prog_mem hint) plain_img 1 = plain_img + 120" by (simp_all add: phdr_addr_def e)
  have p: "take 56 (drop 64 (prog_image hint)) = phdr_bytes 1 5 0 USER_CODE_BASE 312 312" "take 56 (drop 120 (prog_image hint)) = phdr_bytes 4 0 176 0 136 136"
    by (simp_all add: prog_image_def)
  show "phdr_at (prog_mem hint) (plain_img + 64) = \<lparr>p_type = 1, p_flags = 5, p_offset = 0, p_vaddr = USER_CODE_BASE, p_paddr = USER_CODE_BASE, p_filesz = 312, p_memsz = 312, p_align = 0x1000\<rparr>"
    using phdr_read [OF p(1), of plain_img "\<lambda>_. 0xAA", folded prog_mem_def] by simp
  show "phdr_at (prog_mem hint) (plain_img + 120) = \<lparr>p_type = 4, p_flags = 0, p_offset = 176, p_vaddr = 0, p_paddr = 0, p_filesz = 136, p_memsz = 136, p_align = 0x1000\<rparr>"
    using phdr_read [OF p(2), of plain_img "\<lambda>_. 0xAA", folded prog_mem_def] by simp
qed

lemma funpow_zero: "(push_bit 8 ^^ n) (0 :: u64) = 0"
  by (induction n) simp_all

lemma prog_notes:
  "rd32 (prog_mem hint) (plain_img + 176) = 6" "rd32 (prog_mem hint) (plain_img + 180) = 72" "rd32 (prog_mem hint) (plain_img + 184) = SECOS_SIG_NOTE_TYPE"
  "rd32 (prog_mem hint) (plain_img + 200) = 0" "rd32 (prog_mem hint) (plain_img + 268) = 6" "rd32 (prog_mem hint) (plain_img + 272) = 24"
  "rd32 (prog_mem hint) (plain_img + 276) = SECOS_NOTE_TYPE"
  using prog_rd [of 176 4 hint] prog_rd [of 180 4 hint] prog_rd [of 184 4 hint] prog_rd [of 200 4 hint] prog_rd [of 268 4 hint] prog_rd [of 272 4 hint] prog_rd [of 276 4 hint]
  by (simp_all add: rd32_def prog_image_def of_le64_def SECOS_SIG_NOTE_TYPE_def SECOS_NOTE_TYPE_def funpow_zero)

lemma prog_names: "secos_name (prog_mem hint) (plain_img + 176)" "secos_name (prog_mem hint) (plain_img + 268)"
  using bytes_at_with_bytes [of 188 5 "prog_image hint" plain_img "\<lambda>_. 0xAA", folded prog_mem_def]
    bytes_at_with_bytes [of 280 5 "prog_image hint" plain_img "\<lambda>_. 0xAA", folded prog_mem_def]
  by (simp_all add: secos_name_def) (simp_all add: prog_image_def)

lemma prog_raw: "raw_manifest (prog_mem hint) (plain_img + 288) 24 = prog_manifest hint"
  using prog_rd [of 288 4 hint] prog_rd [of 292 4 hint] prog_rd [of 296 8 hint] prog_rd [of 304 8 hint]
  by (simp add: raw_manifest_def prog_manifest_def rd32_def rd64_def prog_image_def of_le64_def [of "[0x20, 0x80, 0, 0]"])

lemma prog_sig_note: "note_scan qsig_note (prog_mem hint) (plain_img + 176) (plain_img + 312) = Some (Some (plain_img + 196, 72))"
  using prog_notes(1-3) prog_names(1) by (subst note_scan.simps) (simp add: align4_def qsig_note_def Let_def)

lemma prog_manifest_note: "note_scan manifest_note (prog_mem hint) (plain_img + 176) (plain_img + 312) = Some (Some (plain_img + 288, 24))"
proof -
  have "note_scan manifest_note (prog_mem hint) (plain_img + 268) (plain_img + 312) = Some (Some (plain_img + 288, 24))"
    using prog_notes(5-7) prog_names(2) by (subst note_scan.simps) (simp add: align4_def manifest_note_def Let_def)
  moreover have "\<not> manifest_note (prog_mem hint) (plain_img + 176)"
    using prog_notes(3) by (simp add: manifest_note_def SECOS_NOTE_TYPE_def SECOS_SIG_NOTE_TYPE_def)
  ultimately show ?thesis using prog_notes(1,2) by (subst note_scan.simps) (simp add: align4_def Let_def)
qed

lemma prog_upt: "[0 ..< 2] = [0, Suc 0]"
  by (simp add: upt_conv_Cons)

lemma prog_note_loop:
  assumes "note_scan ok (prog_mem hint) (plain_img + 176) (plain_img + 312) = Some (Some d)"
  shows "note_loop err ok (prog_mem hint) plain_img 312 [0, Suc 0] = Some (Inr (Some d))"
  using assms by (simp add: prog_headers(6) prog_headers(7) [simplified] prog_headers(8,9) [simplified] PT_NOTE_def Let_def)

lemma prog_parse: "elf_manifest_parse (prog_mem hint) plain_img 312 = Some (Inr (prog_manifest hint))"
  by (simp add: elf_manifest_parse_def prog_headers(1-3) prog_upt prog_note_loop [OF prog_manifest_note] prog_raw [simplified] Let_def del: note_loop.simps)

lemma prog_offset: "find_qsig_sig_offset (prog_mem hint) plain_img 312 = Some 204"
  by (simp add: find_qsig_sig_offset_def prog_headers(1-3) prog_upt prog_note_loop [OF prog_sig_note] Let_def del: note_loop.simps)

lemma prog_key:
  "elf_signature_verify (\<lambda>_ _ _. True) [7] (prog_mem hint) plain_img 312 = Some ELF_SIG_OK"
  "elf_signature_verify (\<lambda>_ _ _. True) [0] (prog_mem hint) plain_img 312 = Some ELF_SIG_BAD"
  using prog_notes(4) [of hint] by (simp_all add: elf_signature_verify_def prog_offset elf_sign_key_revoked_def)

lemma prog_magic: "is_elf (prog_mem hint) plain_img"
  by (simp add: is_elf_def prog_mem_def with_bytes_def) (simp add: prog_image_def ehdr_bytes_def)

lemma prog_load:
  obtains v where "elf_load_image_lazy (prog_mem hint) plain_img 312 [] = ([v], Inr (USER_CODE_BASE, 0x1000))" "v_end v = USER_CODE_BASE + 0x1000"
proof -
  let ?v = "seg_region plain_img (phdr_at (prog_mem hint) (plain_img + 64))"
  have h: "check_ehdr (prog_mem hint) plain_img 312 = 0" by (simp add: check_ehdr_def check_magic_def prog_headers(1-3,5))
  have s: "check_segment (phdr_at (prog_mem hint) (plain_img + 64)) 312 = 0" "seg_memsz (phdr_at (prog_mem hint) (plain_img + 64)) = 312"
    "seg_start (phdr_at (prog_mem hint) (plain_img + 64)) = USER_CODE_BASE" "seg_stop (phdr_at (prog_mem hint) (plain_img + 64)) = USER_CODE_BASE + 0x1000"
    unfolding prog_headers(8)
    by (simp_all add: check_segment_def seg_memsz_def seg_start_def seg_stop_def PF_X_def PF_W_def USER_CODE_BASE_def USER_DATA_BASE_def)
  have "lazy_loop (prog_mem hint) plain_img 312 [0, 1] [] 0 = ([?v], Inr 0x1000)"
    using s by (simp add: prog_headers(6) prog_headers(7) [simplified] Let_def vma_add_def vma_put_def VMA_MAX_def seg_region_def)
      (simp add: prog_headers(8,9) [simplified] PT_LOAD_def)
  then have "elf_load_image_lazy (prog_mem hint) plain_img 312 [] = ([?v], Inr (USER_CODE_BASE, 0x1000))"
    by (simp add: elf_load_image_lazy_def h prog_headers(2,4) prog_upt del: lazy_loop.simps)
  with s(4) that [of ?v] show ?thesis by (simp add: seg_region_def)
qed

subsection \<open>The system\<close>

definition many_frames :: pmm where
  "many_frames = mark_sec (boot_pmm\<lparr>g_sec := [Some sec_init], g_sectioned := True\<rparr>) 0 sec_init 64 192 False"

lemma many_frames_free: "free_set many_frames = {64 ..< 192}" and many_frames_ready: "pmm_ready many_frames"
proof -
  let ?p = "boot_pmm\<lparr>g_sec := [Some sec_init], g_sectioned := True\<rparr>"
  have so: "sec_of ?p n = Some s \<Longrightarrow> s = sec_init" for n s
    by (simp add: sec_of_def Let_def split: if_splits)
  then have f: "free_set ?p = {}" using sec_init_inv(2) by (fastforce simp: free_set_iff)
  have ex: "exact ?p" using f sec_init_inv(1) by (simp add: exact_def secs_ok_def) (simp add: boot_pmm_eq)
  have si: "0 < g_nsec ?p" "g_sec ?p ! 0 = Some sec_init" "192 \<le> PMM_SECTION_FRAMES"
    by (simp_all add: PMM_SECTION_FRAMES_def)
  show fr: "free_set many_frames = {64 ..< 192}"
    using mark_sec_free_set [OF si, of 64 False] f by (simp add: many_frames_def)
  have "g_sectioned many_frames" by (simp add: many_frames_def mark_sec_def split_beta Let_def set_sec_def)
  with mark_sec_spec(1) [OF ex si, of 64 False] fr show "pmm_ready many_frames"
    by (simp add: pmm_ready_def pmm_inv_def exact_def many_frames_def)
qed

definition demo_world :: "u64 \<Rightarrow> kworld" where
  "demo_world hint = \<lparr>k_vm = \<lparr>pm = \<lambda>_ _. 0, frames = many_frames, kernel_space = 0x1000, physmap_initialized = True, shootdowns = []\<rparr>,
     k_mem = prog_mem hint, k_drv = drv_start, k_audit = \<lparr>g_audit = \<lambda>_. \<lparr>rec_pid = 0, rec_cap = 0, rec_syscall = 0, rec_seq = 0, rec_allowed = False, rec_name = []\<rparr>, g_audit_head = 0\<rparr>,
     k_pipes = \<lparr>g_pipes = [], pipe_calls = []\<rparr>, k_calls = []\<rparr>"

definition demo_env :: "bool \<Rightarrow> exec_env" where
  "demo_env mf = \<lparr>x_verify = \<lambda>_ _ _. True, x_revoked = [7], x_cache = \<lambda>_ _. None, x_space = True, x_pin = 0, x_mf = mf, x_regions = True, x_tsc = (0, 0, 0)\<rparr>"

definition demo_task :: task where
  "demo_task = (create_task \<lparr>c_exec = demo_env True, c_pcb = True, c_ptr = 1, c_pid = 7, c_home = 0, c_slot = True, c_kstack = 0x9000, c_frame = True, c_blob = True\<rparr>
     \<lparr>im_space = None, im_image = 0, im_size = 0, im_entry = 0, im_stack_top = 0, im_stack_lo = 0, im_footprint = 0, im_mf = None\<rparr> [])\<lparr>t_proc := alice\<rparr>"

abbreviation demo_frame :: trapframe where
  "demo_frame \<equiv> exec_frame 0x80 0 0 0 0 0"

lemma demo_world_simps [simp]:
  "frames (k_vm (demo_world hint)) = many_frames" "physmap_initialized (k_vm (demo_world hint))" "k_mem (demo_world hint) = prog_mem hint" "k_calls (demo_world hint) = []"
  by (simp_all add: demo_world_def)

lemma demo_task_simps [simp]:
  "p_space (t_mem demo_task) = None" "t_proc demo_task = alice" "t_cwd demo_task = ''/''" "length (t_fds demo_task) = 32"
  by (simp_all add: demo_task_def create_task_def Let_def first_fds_def)

lemma demo_env_simps [simp]:
  "x_space (demo_env b)" "x_regions (demo_env b)" "x_mf (demo_env b) = b" "x_verify (demo_env b) = (\<lambda>_ _ _. True)" "x_revoked (demo_env b) = [7]"
  by (simp_all add: demo_env_def)

lemma demo_enough: "n \<le> 128 \<Longrightarrow> enough (k_vm (demo_world hint)) n"
  by (rule enough_mono [of _ 128]) (auto simp: enough_def many_frames_free intro!: exI [of _ "{64 ..< 192}"])

text \<open>The program as the set-user-id file /p of root, named by a string at the bottom of the user window.\<close>

definition bin_inode :: vfs_inode where
  "bin_inode = \<lparr>i_type = VFS_NODE_FILE, i_size = 312, i_ops = Some 0, i_mode = 0x9ED, i_uid = 0, i_gid = 0, i_atime = 0, i_mtime = 0\<rparr>"

definition bin_ops :: "u64 \<Rightarrow> unit vfs_fs_ops" where
  "bin_ops hint = demo_ops\<lparr>op_lookup := (\<lambda>w p. if p = ''/'' then Some (demo_inode VFS_NODE_DIR) else if p = ''/p'' then Some bin_inode else None),
     op_read := (\<lambda>w i k n. (312, prog_image hint))\<rparr>"

definition path_memory :: memory where
  "path_memory = \<lparr>m_byte = \<lambda>a. Some (if a = 0x100000000 then 0x2F else if a = 0x100000001 then 0x70 else 0), m_writable = \<lambda>_. True\<rparr>"

lemma bin_lookup:
  "vfs_lookup (\<lambda>k. bin_ops hint) demo_state ''/'' = Some ((demo_inode VFS_NODE_DIR)\<lparr>i_ops := Some 0\<rparr>)"
  "vfs_lookup (\<lambda>k. bin_ops hint) demo_state ''/p'' = Some bin_inode"
proof -
  obtain d where d: "g_mounts demo_state = [\<lparr>m_point = ''/'', m_store = None, m_ops = 0, m_name = ''demo'', m_dev = d\<rparr>]"
    using demo_mounts by blast
  show "vfs_lookup (\<lambda>k. bin_ops hint) demo_state ''/'' = Some ((demo_inode VFS_NODE_DIR)\<lparr>i_ops := Some 0\<rparr>)" "vfs_lookup (\<lambda>k. bin_ops hint) demo_state ''/p'' = Some bin_inode"
    by (simp_all add: vfs_lookup_def vfs_resolve_def d mount_match_def rel_path_def Let_def bin_ops_def bin_inode_def)
qed

lemma bin_path: "user_string path_memory 0x100000000 256 = Inr ''/p''"
proof -
  have "unat (256 :: u64) = Suc (Suc (Suc 253))" by simp
  then have s: "uaccess_strncpy path_memory 0x100000000 (unat (256 :: u64)) = ([0x2F, 0x70, 0], 2)" by (simp only: uaccess_strncpy.simps) (simp add: path_memory_def)
  have "strncpy_from_user path_memory (replicate 256 0) 0x100000000 (of_nat 256) = ([0x2F, 0x70, 0] @ replicate 253 0, 2)"
    using s by (simp add: strncpy_from_user_def USER_ADDR_MIN_def USER_ADDR_MAX_def Let_def)
  then show ?thesis by (simp add: user_string_def char_of_eq_iff)
qed

lemma bin_file: "execve_file (\<lambda>k. bin_ops hint) demo_state alice (proc_resolve_path ''/'' ''/p'' 256) = Inr (''/p'', bin_inode, 0)"
proof -
  let ?d = "(demo_inode VFS_NODE_DIR)\<lparr>i_ops := Some 0\<rparr>"
  have p: "proc_resolve_path ''/'' ''/p'' 256 = ''/p''" by (simp add: proc_resolve_path_def abs_path_def path_words_def put_part_def is_slash_def)
  have root: "\<not> cred_is_root (Some alice)"
    by (simp add: cred_is_root_def cred_is_kernel_def alice_def new_process_def user_cred_def)
  have x: "search_cb (\<lambda>k. bin_ops hint) (Some alice) ?d = 0" "cred_inode_perm (\<lambda>k. bin_ops hint) (Some alice) (Some bin_inode) MAY_EXEC = 0"
    by (simp_all add: search_cb_def cred_inode_perm_def cred_is_kernel_def alice_def new_process_def user_cred_def perm_ids_def
        cred_inode_mode_def demo_inode_def bin_inode_def mode_defs in_group_ids_def bin_ops_def demo_ops_def)
  have ty: "i_type (demo_inode t) = t" "i_type bin_inode = VFS_NODE_FILE" for t by (simp_all add: demo_inode_def bin_inode_def)
  have "cred_check_path (\<lambda>k. bin_ops hint) demo_state (Some alice) ''/p'' True MAY_EXEC 256 = Inr (''/p'', bin_inode)"
    using root by (simp add: cred_check_path_def cred_resolve_def vfs_walk_checked_def vfs_copy_def VFS_PATH_def search_root_def bin_lookup x
        walk_loop.simps walk_step_def walk_entry_def is_slash_def ty)
  then show ?thesis by (simp add: execve_file_def p) (simp add: bin_inode_def EXEC_MAX_IMAGE_def)
qed

lemma bin_mode: "cred_inode_mode (Some bin_inode) AND S_ISUID \<noteq> 0" "\<not> (cred_inode_mode (Some bin_inode) AND S_ISGID \<noteq> 0 \<and> cred_inode_mode (Some bin_inode) AND 8 \<noteq> 0)"
  "i_uid bin_inode = 0"
  by (simp_all add: cred_inode_mode_def bin_inode_def mode_defs)

lemma bin_root: "cred_on_root_mount (g_mounts demo_state) ''/p''"
  using demo_mounts by (auto simp: cred_on_root_mount_def vfs_mount_point_for_def vfs_resolve_def mount_match_def rel_path_def Let_def)

subsection \<open>Running it\<close>

definition accepted :: "exec_env \<Rightarrow> u64 \<Rightarrow> bool" where
  "accepted env hint \<longleftrightarrow> x_mf env \<and> (hint = 0 \<or> hint = USER_CODE_BASE)"

lemma prog_image_manifest:
  "image_manifest env (prog_mem hint) plain_img 312 USER_CODE_BASE fp =
    (if \<not> accepted env hint then Some (Inr None) else if fp > 0x4000000 then Some (Inl (-12)) else Some (Inr (Some (prog_manifest hint))))"
  by (simp add: image_manifest_def prog_parse elf_manifest_validate_def accepted_def prog_manifest_def MANIFEST_OK_def MANIFEST_ERR_UNSUPPORTED_def)

lemma demo_program:
  assumes "unat extra \<le> 2 ^ 20"
  shows "program_ok (demo_env b) (prog_mem hint) plain_img 312 extra"
proof -
  obtain v where v: "elf_load_image_lazy (prog_mem hint) plain_img 312 [] = ([v], Inr (USER_CODE_BASE, 0x1000))" "v_end v = USER_CODE_BASE + 0x1000" by (rule prog_load)
  have "unat (extra + 0xFFF) = unat extra + 0xFFF" using assms by (subst unat_add64) simp_all
  then have "unat ((extra + 0xFFF) AND NOT 0xFFF) \<le> 2 ^ 20 + 0xFFF" unfolding page_of using assms div_times_less_eq_dividend [of "unat extra + 0xFFF" 4096] by simp
  then have "\<not> 0x1000 + stack_bytes extra > 0x4000000" unfolding stack_bytes_def word_nat_order by (simp add: PROC_STACK_PAGES_def unat_word_ariths)
  then show ?thesis
    by (simp add: program_ok_def prog_magic prog_key(1) v prog_image_manifest VMA_MAX_def)
      (simp add: prog_manifest_def MANIFEST_PROC_TYPE_USER_def MANIFEST_PROC_TYPE_DRIVER_def USER_CODE_BASE_def USER_STACK_TOP_def)
qed

lemma demo_read: "(demo_world hint)\<lparr>k_mem := load_at (prog_mem hint) plain_img (prog_image hint)\<rparr> = demo_world hint"
proof -
  have "load_at (prog_mem hint) plain_img (prog_image hint) = prog_mem hint" by (rule ext) (simp add: load_at_def prog_mem_def with_bytes_def)
  then show ?thesis by (simp add: demo_world_def)
qed

lemma demo_execve:
  "ksys_execve (\<lambda>k. bin_ops hint) demo_state path_memory env True plain_img (demo_world hint) demo_task demo_frame 0x100000000 0 0
   = (case process_exec env (demo_world hint) demo_task demo_frame plain_img 312 [] 0 0 of
        None \<Rightarrow> None
      | Some (w, c, fr, r) \<Rightarrow> if r \<noteq> 0 then Some (w, c, fr, r)
          else let (w, c) = exec_ids w c bin_inode True False
            in Some (call (Set_cmdline [] (Some ''/p'')) w, c, fr, 0))"
proof -
  have a: "execve_args path_memory 0 0 = Inr ([], 0, 0)" by (simp add: execve_args_def exec_copy_strv_def)
  have b: "op_read (bin_ops hint) = (\<lambda>w i k n. (312, prog_image hint))" "i_size bin_inode = 312" by (simp_all add: bin_ops_def bin_inode_def)
  have n: "\<not> no_new_privs alice" by (simp add: alice_def new_process_def)
  show ?thesis unfolding ksys_execve_def bin_path by (simp add: a bin_file b demo_read bin_root n Let_def split: option.split)
qed

lemma demo_resources:
  fixes args envs :: "u8 list list"
  assumes "args_bounded (str_block (args @ envs)) (int (length args)) (int (length envs))"
    "exec_frames (arg_bytes (str_block (args @ envs)) (int (length args)) (int (length envs))) \<le> 128"
  shows "program_ok (demo_env b) (k_mem (demo_world hint)) plain_img 312 (arg_bytes (str_block (args @ envs)) (int (length args)) (int (length envs)))"
    "x_space (demo_env b)" "x_regions (demo_env b)" "space_held (k_vm (demo_world hint)) (p_space (t_mem demo_task))" "pmm_ready (frames (k_vm (demo_world hint)))"
    "physmap_initialized (k_vm (demo_world hint))" "enough (k_vm (demo_world hint)) (exec_frames (arg_bytes (str_block (args @ envs)) (int (length args)) (int (length envs))))"
  using demo_program [OF arg_bytes_range(2) [OF assms(1)]] demo_enough [OF assms(2)] many_frames_ready by (simp_all add: space_held_def)

lemma no_args: "args_bounded (str_block ([] @ [])) (int (length ([] :: u8 list list))) (int (length ([] :: u8 list list)))"
  "exec_frames (arg_bytes (str_block ([] @ [])) (int (length ([] :: u8 list list))) (int (length ([] :: u8 list list)))) \<le> 128"
  by (simp_all add: args_bounded_def exec_frames_def arg_bytes_def)

lemma demo_exec:
  obtains w c fr where "process_exec (demo_env b) (demo_world hint) demo_task demo_frame plain_img 312 [] 0 0 = Some (w, c, fr, 0)"
    "t_manifest c = (if accepted (demo_env b) hint then Some (prog_manifest hint) else None)"
proof -
  note D = demo_resources [OF no_args]
  obtain w c fr where x: "process_exec (demo_env b) (demo_world hint) demo_task demo_frame plain_img 312 [] 0 0 = Some (w, c, fr, 0)"
    by (rule exec_starts [OF D(1) no_args(1), where q = demo_task and fr = demo_frame]) (use D that in \<open>auto\<close>)
  obtain fp where "image_manifest (demo_env b) (prog_mem hint) plain_img 312 USER_CODE_BASE fp = Some (Inr (t_manifest c))"
    using exec_manifest [OF x] by (auto simp: prog_headers(4))
  then have "t_manifest c = (if accepted (demo_env b) hint then Some (prog_manifest hint) else None)"
    by (auto simp: prog_image_manifest split: if_splits)
  with x show ?thesis by (rule that)
qed

lemma demo_runs:
  obtains w' c' fr' where "ksys_execve (\<lambda>k. bin_ops hint) demo_state path_memory (demo_env b) True plain_img (demo_world hint) demo_task demo_frame 0x100000000 0 0 = Some (w', c', fr', 0)"
    "t_manifest c' = (if accepted (demo_env b) hint then Some (prog_manifest hint) else None)" "euid (cred (t_proc c')) = (if accepted (demo_env b) hint then 0 else 1000)"
proof -
  obtain w c fr where x: "process_exec (demo_env b) (demo_world hint) demo_task demo_frame plain_img 312 [] 0 0 = Some (w, c, fr, 0)"
    and m: "t_manifest c = (if accepted (demo_env b) hint then Some (prog_manifest hint) else None)" by (rule demo_exec)
  obtain w2 c2 where i: "exec_ids w c bin_inode True False = (w2, c2)" by force
  have "pid (t_proc demo_task) \<noteq> 0" by (simp add: alice_def new_process_def)
  then have "cred (t_proc c) = cred alice" using exec_confined(9) [OF x] by simp
  then have "euid (cred (t_proc c2)) = (if process_manifest_setid (Some c) then 0 else 1000)"
    using i bin_mode by (auto simp: exec_ids_def setid_allowed_def cred_exec_setid_def Let_def alice_def new_process_def user_cred_def)
  moreover have "process_manifest_setid (Some c) \<longleftrightarrow> accepted (demo_env b) hint"
    using m by (simp add: process_manifest_setid_def prog_manifest_def MANIFEST_FLAG_SETID_def)
  ultimately show ?thesis
    using that [of "call (Set_cmdline [] (Some ''/p'')) w2" c2 fr] x i m exec_ids_spec(3) [OF i] by (simp add: demo_execve)
qed

end
