(* ===== verification/Execve_Props.thy ===== *)
theory Execve_Props
  imports Execve_Demo
begin

text \<open>
  The execve system call as a whole, on every path: a call that fails leaves the caller as it was,
  and one that succeeds runs a file the caller may execute, signed, confined, with its arguments on
  the stack.
\<close>

subsection \<open>Properties\<close>

text \<open>
  C11. execve is all or nothing: whatever path and argument pointers the caller passes, a call that
  fails leaves its process, its trap frame, the drivers, the audit log and the pipes as they were,
  changes no frame of physical memory that was not free, and frees the image it may have read.
\<close>

theorem execve_all_or_nothing:
  assumes "pmm_ready (frames (k_vm w))" "physmap_initialized (k_vm w)"
    and "ksys_execve tab fs m env blob_ok img w c fr pathp uargv uenvp = Some (w', c', fr', r)" "r \<noteq> 0"
  shows "c' = c \<and> fr' = fr \<and> k_drv w' = k_drv w \<and> k_audit w' = k_audit w \<and> k_pipes w' = k_pipes w
    \<and> only_in (free_set (frames (k_vm w))) (k_vm w) (k_vm w')
    \<and> (k_mem w' = k_mem w \<and> k_calls w' = k_calls w \<or> k_calls w' = k_calls w @ [Kfree_image img])"
  using assms(3)
proof (cases rule: execve_cases)
  case early
  then show ?thesis by auto
next
  case (exec kpath blob argc envc rp ino ops n bs w1 c1)
  let ?w = "w\<lparr>k_mem := load_at (k_mem w) img bs\<rparr>"
  have e: "w' = w1" "c' = c1" using exec(7) assms(4) by simp_all
  note X = exec(6) [folded e]
  have b: "args_bounded blob (int argc) (int envc)" by (rule execve_args_spec [OF exec(2)])
  have "only_in (free_set (frames (k_vm ?w))) (k_vm ?w) (k_vm w')" by (rule exec_fails_only_in [OF X assms(4) b]) (use assms(1,2) in simp_all)
  then show ?thesis using exec_fails [OF X assms(4)] exec(5) by (simp add: same_world_def)
qed

theorem execve_all_or_nothing_witness:
  "\<exists>w'. ksys_execve (\<lambda>k. bin_ops 0) demo_state path_memory ((demo_env True)\<lparr>x_revoked := [0]\<rparr>) True plain_img (demo_world 0) demo_task demo_frame 0x100000000 0 0
      = Some (w', demo_task, demo_frame, -13)
    \<and> only_in {64 ..< 192} (k_vm (demo_world 0)) (k_vm w') \<and> k_drv w' = k_drv (demo_world 0) \<and> k_calls w' = [Kfree_image plain_img]"
proof -
  let ?env = "(demo_env True)\<lparr>x_revoked := [0]\<rparr>"
  have "process_exec ?env (demo_world 0) demo_task demo_frame plain_img 312 [] 0 0 = Some (call (Kfree_image plain_img) (demo_world 0), demo_task, demo_frame, -13)"
    by (simp add: process_exec_def prog_magic proc_image_build_def prog_key(2) ELF_SIG_OK_def ELF_SIG_BAD_def proc_image_free_def Let_def)
  then have r: "ksys_execve (\<lambda>k. bin_ops 0) demo_state path_memory ?env True plain_img (demo_world 0) demo_task demo_frame 0x100000000 0 0
      = Some (call (Kfree_image plain_img) (demo_world 0), demo_task, demo_frame, -13)"
    by (simp add: demo_execve)
  from execve_all_or_nothing [OF _ _ r] r show ?thesis by (simp add: many_frames_ready many_frames_free)
qed

text \<open>
  C1. Only authorised code starts: when execve succeeds, the path that the caller named resolves
  through directories it may search to a regular file it may execute, the contents of that file
  carry a valid signature, no region of the new image is writable and executable, executable
  regions come from the file, and the program starts in user mode at the entry point of the file.
\<close>

theorem execve_authorised:
  assumes "ksys_execve tab fs m env blob_ok img w c fr pathp uargv uenvp = Some (w', c', fr', 0)"
  shows "\<exists>kpath rp ino ops n bs. user_string m pathp 256 = Inr kpath
    \<and> cred_check_path tab fs (Some (t_proc c)) (proc_resolve_path (t_cwd c) kpath 256) True MAY_EXEC 256 = Inr (rp, ino)
    \<and> i_type ino = VFS_NODE_FILE \<and> i_ops ino = Some ops \<and> op_read (tab ops) (fs_world fs) ino 0 (i_size ino) = (n, bs)
    \<and> elf_signature_verify (x_verify env) (x_revoked env) (load_at (k_mem w) img bs) img (of_nat (i_size ino)) = Some ELF_SIG_OK
    \<and> tf_rip fr' = e_entry (ehdr_at (load_at (k_mem w) img bs) img) \<and> tf_cs fr' = 0x1B \<and> tf_ss fr' = 0x23 \<and> tf_rflags fr' = 0x202
    \<and> list_all (\<lambda>v. \<not> wx_request (v_flags v) \<and> (\<not> has (v_flags v) VMM_FLAG_NOEXEC \<longrightarrow> v_type v = VMA_TYPE_FILE \<and> file_base v = img)) (vmas (t_mem c'))"
  using assms
proof (cases rule: execve_cases)
  case early
  then show ?thesis by simp
next
  case (exec kpath blob argc envc rp ino ops n bs w1 c1)
  obtain w2 where "exec_ids w1 c1 ino (cred_on_root_mount (g_mounts fs) rp) (no_new_privs (t_proc c)) = (w2, c')" using exec(7) by auto
  then have "vmas (t_mem c') = vmas (t_mem c1)" using exec_ids_spec(4) by fastforce
  moreover have "cred_check_path tab fs (Some (t_proc c)) (proc_resolve_path (t_cwd c) kpath 256) True MAY_EXEC 256 = Inr (rp, ino)"
    "i_type ino = VFS_NODE_FILE" "i_ops ino = Some ops"
    using exec(3) by (auto simp: execve_file_def split: sum.splits option.splits if_splits prod.splits)
  ultimately show ?thesis using exec_image [OF exec(6)] exec(1,4) by auto
qed

theorem execve_authorised_witness:
  "\<exists>w' c' fr'. ksys_execve (\<lambda>k. bin_ops 0) demo_state path_memory (demo_env True) True plain_img (demo_world 0) demo_task demo_frame 0x100000000 0 0 = Some (w', c', fr', 0)
    \<and> tf_cs fr' = 0x1B \<and> list_all (\<lambda>v. \<not> wx_request (v_flags v)) (vmas (t_mem c'))"
proof -
  obtain w' c' fr' where r: "ksys_execve (\<lambda>k. bin_ops 0) demo_state path_memory (demo_env True) True plain_img (demo_world 0) demo_task demo_frame 0x100000000 0 0 = Some (w', c', fr', 0)"
    by (rule demo_runs)
  from execve_authorised [OF r] have "tf_cs fr' = 0x1B \<and> list_all (\<lambda>v. \<not> wx_request (v_flags v)) (vmas (t_mem c'))" by (auto simp: list_all_iff)
  with r show ?thesis by blast
qed

text \<open>
  C2. What starts is confined: after a successful execve the process is no driver and holds no
  device; under no_new_privs it has no capability it did not have; a manifest that asks for
  enforcement bounds its capabilities, and its memory limit holds; its effective user id changes
  only to the owner of the file it named, if that file has the set-user-id bit, lies on the root
  file system and has a manifest that allows it, and never under no_new_privs, and the same for
  the group; its real ids never change; and no handler and no close-on-exec descriptor of the old
  image is left.
\<close>

theorem execve_confined:
  assumes "ksys_execve tab fs m env blob_ok img w c fr pathp uargv uenvp = Some (w', c', fr', 0)" "pid (t_proc c) \<noteq> 0" "length (t_fds c) = 32"
  shows "t_type c' = PROC_TYPE_USER \<and> (\<forall>dev. grants (k_drv w') (t_ptr c', dev) = None)
    \<and> (no_new_privs (t_proc c) \<longrightarrow> no_new_privs (t_proc c') \<and> cap_effective (Some (t_proc c')) AND NOT (cap_effective (Some (t_proc c))) = 0)
    \<and> (\<forall>mf. t_manifest c' = Some mf \<longrightarrow> mem_limit (t_mem c') = max_mem mf
         \<and> (mf_flags mf AND MANIFEST_FLAG_CAP_ENFORCE \<noteq> 0 \<longrightarrow> cap_enforce (t_proc c') \<and> cap_effective (Some (t_proc c')) AND NOT (mf_flags mf) = 0))
    \<and> (\<exists>kpath rp ino. user_string m pathp 256 = Inr kpath
         \<and> cred_check_path tab fs (Some (t_proc c)) (proc_resolve_path (t_cwd c) kpath 256) True MAY_EXEC 256 = Inr (rp, ino)
         \<and> (euid (cred (t_proc c')) \<noteq> euid (cred (t_proc c)) \<longrightarrow> \<not> no_new_privs (t_proc c) \<and> process_manifest_setid (Some c')
              \<and> cred_on_root_mount (g_mounts fs) rp \<and> cred_inode_mode (Some ino) AND S_ISUID \<noteq> 0 \<and> euid (cred (t_proc c')) = i_uid ino)
         \<and> (egid (cred (t_proc c')) \<noteq> egid (cred (t_proc c)) \<longrightarrow> \<not> no_new_privs (t_proc c) \<and> process_manifest_setid (Some c')
              \<and> cred_on_root_mount (g_mounts fs) rp \<and> cred_inode_mode (Some ino) AND S_ISGID \<noteq> 0 \<and> cred_inode_mode (Some ino) AND 8 \<noteq> 0
              \<and> egid (cred (t_proc c')) = i_gid ino))
    \<and> ruid (cred (t_proc c')) = ruid (cred (t_proc c)) \<and> rgid (cred (t_proc c')) = rgid (cred (t_proc c))
    \<and> (\<forall>i < 32. sig_handler (t_proc c') i \<in> {0, 1}) \<and> list_all (\<lambda>f. \<not> (pf_used f \<and> pf_cloexec f)) (t_fds c')"
  using assms(1)
proof (cases rule: execve_cases)
  case early
  then show ?thesis by simp
next
  case (exec kpath blob argc envc rp ino ops n bs w1 c1)
  obtain w2 where i: "exec_ids w1 c1 ino (cred_on_root_mount (g_mounts fs) rp) (no_new_privs (t_proc c)) = (w2, c')" "k_drv w' = k_drv w2"
    using exec(7) by auto
  note I = exec_ids_spec [OF i(1)] and C = exec_confined [OF exec(6) assms(2)]
  have "grants (k_drv w') (t_ptr c', dev) = None" for dev using C(2,3) I(2,6) i(2) by simp
  moreover have "\<forall>mf. t_manifest c' = Some mf \<longrightarrow> mem_limit (t_mem c') = max_mem mf
      \<and> (mf_flags mf AND MANIFEST_FLAG_CAP_ENFORCE \<noteq> 0 \<longrightarrow> cap_enforce (t_proc c') \<and> cap_effective (Some (t_proc c')) AND NOT (mf_flags mf) = 0)"
    using C(5,6) I(3,4,10,11) by simp
  moreover have sm: "process_manifest_setid (Some c') = process_manifest_setid (Some c1)" by (simp add: process_manifest_setid_def I(3))
  have path: "cred_check_path tab fs (Some (t_proc c)) (proc_resolve_path (t_cwd c) kpath 256) True MAY_EXEC 256 = Inr (rp, ino)"
    using exec(3) by (auto simp: execve_file_def split: sum.splits option.splits if_splits prod.splits)
  note ids = I(15,16) [folded sm, unfolded C(9)]
  ultimately show ?thesis using exec(1) path ids I(1,5,8,9,11,12) C(1,4,7,8,9) assms(3) by simp
qed

text \<open>A user with id 1000 runs the set-user-id program of root.\<close>

theorem execve_confined_witness:
  "\<exists>w' c' fr'. ksys_execve (\<lambda>k. bin_ops 0) demo_state path_memory (demo_env True) True plain_img (demo_world 0) demo_task demo_frame 0x100000000 0 0 = Some (w', c', fr', 0)
    \<and> grants (k_drv w') (t_ptr c', 1) = None \<and> cap_enforce (t_proc c') \<and> mem_limit (t_mem c') = 0x4000000
    \<and> euid (cred (t_proc demo_task)) = 1000 \<and> euid (cred (t_proc c')) = 0 \<and> process_manifest_setid (Some c') \<and> ruid (cred (t_proc c')) = ruid (cred (t_proc demo_task))"
proof -
  obtain w' c' fr' where r: "ksys_execve (\<lambda>k. bin_ops 0) demo_state path_memory (demo_env True) True plain_img (demo_world 0) demo_task demo_frame 0x100000000 0 0 = Some (w', c', fr', 0)"
    and m: "t_manifest c' = Some (prog_manifest 0)" "euid (cred (t_proc c')) = 0"
    by (rule demo_runs [of 0 True]) (simp add: accepted_def)
  have "pid (t_proc demo_task) \<noteq> 0" and e: "euid (cred (t_proc demo_task)) = 1000" by (simp_all add: alice_def new_process_def user_cred_def)
  note X = execve_confined [OF r this(1) demo_task_simps(4)]
  have "cap_enforce (t_proc c') \<and> mem_limit (t_mem c') = 0x4000000"
    using X m(1) by (simp add: prog_manifest_def MANIFEST_FLAG_CAP_ENFORCE_def)
  moreover have "process_manifest_setid (Some c')" using X m(2) e by auto
  ultimately show ?thesis using r m(2) e X by blast
qed

text \<open>
  C12. execve starts every program that can start: a signed image whose segments stay below the
  stack, with arguments within the limits, runs as soon as the frames for its tables and its
  stack are free.  The program finds the number of arguments at its aligned stack pointer, the
  two arrays of pointers behind it as its registers say, and the strings where they point.
\<close>

theorem execve_starts:
  assumes "program_ok env (k_mem w) img sz (arg_bytes (str_block (args @ envs)) (int (length args)) (int (length envs)))"
    and "args_bounded (str_block (args @ envs)) (int (length args)) (int (length envs))" "list_all (\<lambda>x. 0 \<notin> set x) (args @ envs)"
    and "x_space env" "x_regions env" "space_held (k_vm w) (p_space (t_mem c))" "pmm_ready (frames (k_vm w))" "physmap_initialized (k_vm w)"
    and "enough (k_vm w) (exec_frames (arg_bytes (str_block (args @ envs)) (int (length args)) (int (length envs))))"
  shows "\<exists>w' c' fr' root. process_exec env w c fr img sz (str_block (args @ envs)) (int (length args)) (int (length envs)) = Some (w', c', fr', 0)
    \<and> p_space (t_mem c') = Some root \<and> tf_rdi fr' = of_nat (length args) \<and> tf_rsi fr' = tf_rsp fr' + 8
    \<and> tf_rdx fr' = tf_rsp fr' + 8 * of_nat (length args + 2) \<and> unat (tf_rsp fr') mod 16 = 0
    \<and> args_at (k_vm w') root (tf_rsp fr') (stack_top env - of_nat (length (str_block (args @ envs)))) args envs"
proof -
  have "0 \<notin> set x" if "x \<in> set (args @ envs)" for x using assms(3) that by (auto simp: list_all_iff)
  from exec_starts [OF assms(1,2) this assms(4-9), where fr = fr] show ?thesis by (metis (no_types, lifting))
qed

text \<open>The program with a manifest, three strings on its stack.\<close>

theorem execve_starts_witness:
  "\<exists>w' c' fr' root. process_exec (demo_env True) (demo_world 0) demo_task demo_frame plain_img 312 (str_block ([[0x2F, 0x70], [0x2D, 0x78]] @ [[0x41]])) 2 1 = Some (w', c', fr', 0)
    \<and> p_space (t_mem c') = Some root \<and> tf_rdi fr' = 2 \<and> args_at (k_vm w') root (tf_rsp fr') (stack_top (demo_env True) - 8) [[0x2F, 0x70], [0x2D, 0x78]] [[0x41]]"
proof -
  let ?a = "[[0x2F, 0x70], [0x2D, 0x78]] :: u8 list list" and ?e = "[[0x41]] :: u8 list list"
  have b: "args_bounded (str_block (?a @ ?e)) (int (length ?a)) (int (length ?e))" by (simp add: args_bounded_def EXEC_ARG_MAX_def EXEC_MAX_STRS_def)
  have f: "exec_frames (arg_bytes (str_block (?a @ ?e)) (int (length ?a)) (int (length ?e))) \<le> 128" by (simp add: exec_frames_def arg_bytes_def)
  note D = demo_resources [OF b f]
  have "list_all (\<lambda>x. 0 \<notin> set x) (?a @ ?e)" by simp
  from execve_starts [OF D(1) b this D(2-7), of True 0 demo_frame] show ?thesis by simp blast
qed

text \<open>
  C37. Confinement fails open: when the kernel cannot allocate the manifest of a program, or the
  manifest names another entry point than the file, a program that can start is not refused but
  starts without its manifest, without enforcement and without a memory limit, even if the
  signed manifest asks for both.
\<close>

theorem manifest_fails_open:
  assumes "program_ok env (k_mem w) img sz (arg_bytes (str_block (args @ envs)) (int (length args)) (int (length envs)))"
    and "args_bounded (str_block (args @ envs)) (int (length args)) (int (length envs))" "list_all (\<lambda>x. 0 \<notin> set x) (args @ envs)"
    and "x_space env" "x_regions env" "space_held (k_vm w) (p_space (t_mem c))" "pmm_ready (frames (k_vm w))" "physmap_initialized (k_vm w)"
    and "enough (k_vm w) (exec_frames (arg_bytes (str_block (args @ envs)) (int (length args)) (int (length envs))))"
    and mf: "elf_manifest_parse (k_mem w) img sz = Some (Inr mf)"
      "\<not> x_mf env \<or> entry_hint mf \<noteq> 0 \<and> entry_hint mf \<noteq> e_entry (ehdr_at (k_mem w) img)"
    and n: "\<not> no_new_privs (t_proc c)"
  shows "\<exists>w' c' fr'. process_exec env w c fr img sz (str_block (args @ envs)) (int (length args)) (int (length envs)) = Some (w', c', fr', 0)
    \<and> t_manifest c' = None \<and> \<not> cap_enforce (t_proc c') \<and> mem_limit (t_mem c') = 0"
proof -
  have "0 \<notin> set x" if "x \<in> set (args @ envs)" for x using assms(3) that by (auto simp: list_all_iff)
  from exec_starts [OF assms(1,2) this assms(4-9), where fr = fr] obtain w' c' fr'
    where x: "process_exec env w c fr img sz (str_block (args @ envs)) (int (length args)) (int (length envs)) = Some (w', c', fr', 0)"
    by (metis (no_types, lifting))
  have "image_manifest env (k_mem w) img sz (e_entry (ehdr_at (k_mem w) img)) fp = Some (Inr None)" for fp
    using mf by (auto simp: image_manifest_def elf_manifest_validate_def MANIFEST_OK_def MANIFEST_ERR_UNSUPPORTED_def)
  from exec_no_manifest [OF x this] n x show ?thesis by blast
qed

text \<open>The program, whose manifest asks for enforcement and a limit, without memory for the
  manifest, and with a manifest that names the second byte as the entry point.\<close>

theorem manifest_fails_open_witness:
  "mf_flags (prog_manifest 0x100000001) AND MANIFEST_FLAG_CAP_ENFORCE \<noteq> 0 \<and> max_mem (prog_manifest 0x100000001) = 0x4000000
    \<and> (\<exists>w' c' fr'. process_exec (demo_env False) (demo_world 0) demo_task demo_frame plain_img 312 [] 0 0 = Some (w', c', fr', 0)
          \<and> t_manifest c' = None \<and> \<not> cap_enforce (t_proc c') \<and> mem_limit (t_mem c') = 0)
    \<and> (\<exists>w' c' fr'. process_exec (demo_env True) (demo_world 0x100000001) demo_task demo_frame plain_img 312 [] 0 0 = Some (w', c', fr', 0)
          \<and> t_manifest c' = None \<and> \<not> cap_enforce (t_proc c') \<and> mem_limit (t_mem c') = 0)"
proof -
  note D = demo_resources [OF no_args]
  have l: "list_all (\<lambda>x. 0 \<notin> set x) ([] @ ([] :: u8 list list))" by simp
  have n: "\<not> no_new_privs (t_proc demo_task)" by (simp add: alice_def new_process_def)
  have p: "elf_manifest_parse (k_mem (demo_world h)) plain_img 312 = Some (Inr (prog_manifest h))" for h using prog_parse by simp
  note F = manifest_fails_open [OF D(1) no_args(1) l D(2-7) p _ n, of _ _ demo_frame]
  have h: "entry_hint (prog_manifest 0x100000001) \<noteq> 0 \<and> entry_hint (prog_manifest 0x100000001) \<noteq> e_entry (ehdr_at (k_mem (demo_world 0x100000001)) plain_img)"
    by (simp add: prog_manifest_def prog_headers(4) USER_CODE_BASE_def)
  show ?thesis using F [of False 0] F [of True "0x100000001"] h by (simp add: prog_manifest_def MANIFEST_FLAG_CAP_ENFORCE_def)
qed

end
