(* ===== verification/Spec2Isabelle.thy ===== *)
theory Spec2Isabelle
  imports Pmm_Ref Pipe Cap User_Copy Vfs_Walk Signal Mmap_Safe Ramfs_Vfs Elf_Safe Driver_Safe Execve_Props
begin

text \<open>
  SecOS is a 64-bit multi-user kernel for x86.  This development models its security-relevant
  core as executable HOL functions, one per function of the C sources under src/, and proves what
  each part promises.  It covers physical and virtual memory, user memory access, program images
  and their signatures, program start, capabilities, credentials, signals, pipes, the virtual and
  the RAM file system, and Driver Space.

  \<^bold>\<open>How the parts work together.\<close>  The frame allocator hands out physical frames and counts
  the references to shared ones.  Page tables and data pages live in frames; the region table of a
  process says what a page fault may put into them.  The memory system calls edit regions and page
  tables.  A program enters as a file found through the virtual file system under a permission
  check, its bytes are checked against a signature, its segments become regions, and its manifest
  and the bound of the caller decide about its capabilities.  Everything a system call moves between
  kernel and user memory goes through the copy primitives.

  \<^bold>\<open>Conventions.\<close>  The C types \<^verbatim>\<open>uint8_t\<close> to \<^verbatim>\<open>uint64_t\<close> are words, so arithmetic wraps as on
  the machine; bounded indices are \<^typ>\<open>nat\<close> and return codes \<^typ>\<open>int\<close>.  A struct is a record,
  a pointer to an object of a table is its index or \<^const>\<open>None\<close>, a pointer into kernel memory is
  an address with 0 for \<^verbatim>\<open>NULL\<close>.  A handler takes the state and returns the new one with its
  result.  A constant has the name of its macro.  Locks are left out: an operation is one step, as
  it is under the lock the code holds.  Output to the debug console is left out.  Results of the
  kernel heap, readings of the clock and the verification of an Ed25519 signature are arguments.

  \<^bold>\<open>Vocabulary and interfaces.\<close>
  \<^item> \<^verbatim>\<open>Prelude\<close>: word types, alignment, bit lemmas; \<^verbatim>\<open>Arrays\<close> and \<^verbatim>\<open>Slots\<close>: tables, byte
    buffers and keyed slots as finite maps; \<^verbatim>\<open>Popcount\<close>: \<^verbatim>\<open>popcount64\<close>.
  \<^item> \<^verbatim>\<open>Frame_Allocator\<close>: the locale of a frame allocator, interpreted on the sectioned allocator of
    \<^verbatim>\<open>Pmm_Run\<close>; \<^verbatim>\<open>Refine\<close>: the locale of an operation that fails without effect or refines its
    specification, interpreted on the RAM file system and Driver Space; \<^verbatim>\<open>Block_Hash\<close>: the locale of
    a hash by blocks, interpreted on the three hash functions; the locale of a byte stream in \<^verbatim>\<open>Arrays\<close>,
    interpreted on the pipes; the locale of an operation on one page in \<^verbatim>\<open>Mmap_Ptes\<close>, interpreted on
    unmapping and on changing the protection of a page.

  \<^bold>\<open>Physical memory\<close> (mm/pmm.c).  \<^verbatim>\<open>Pmm_Range\<close> has the boot map, \<^verbatim>\<open>Pmm_Early\<close> the bump allocator,
  \<^verbatim>\<open>Pmm_Section\<close>, \<^verbatim>\<open>Pmm\<close> and \<^verbatim>\<open>Pmm_Run\<close> the sections with their two-level bit maps, \<^verbatim>\<open>Pmm_Init\<close> the
  hand-over and histories of calls, \<^verbatim>\<open>Pmm_Ref\<close> the reference counts.  Shown: no frame is handed out
  twice in any history, allocation fails only when no frame is left, early blocks are disjoint and the
  search for one ends, and sharing refines a count per frame.  The hand-over frees exactly the frames of
  the created sections that are neither consumed nor reserved; a frame is without a section only if the
  early allocator has no room for another descriptor.

  \<^bold>\<open>Virtual memory\<close> (mm/vmm.c, mm/vma.c, kernel/syscall.c, drivers/fbdev.c).  \<^verbatim>\<open>Vmm\<close> has the four-level
  tables in a memory of frames, \<^verbatim>\<open>Vmm_Tree\<close> the invariant that a space is a tree, \<^verbatim>\<open>Vmm_Safe\<close> the
  effect of the operations on leaves, \<^verbatim>\<open>Vma\<close> the regions, \<^verbatim>\<open>Vmm_Fault\<close> the two kinds of page
  fault, \<^verbatim>\<open>Mmap\<close> brk, mmap, munmap and mprotect, \<^verbatim>\<open>Mmap_Ptes\<close> and \<^verbatim>\<open>Mmap_Safe\<close> the effect of the
  last two on page tables and regions, \<^verbatim>\<open>User_Space\<close> the memory of a space as its owner sees it.
  Shown: mapping, unmapping and changing the protection of a user page keep a space free of pages that are
  writable and executable, a write fault on a
  shared page gets a private copy, a demand fault maps one page of the region with its contents,
  and changing protection keeps shared pages read-only.  If the mapped pages of a space lie in
  regions, a successful mprotect changes exactly the regions and the entries of its range, and a
  successful munmap leaves neither a region nor a mapped page in its range and touches no other entry;
  outside its range it keeps the regions too when those it cuts are anonymous and the table has a free slot.
  That it shifts a file mapping whose front it cuts off is a theorem too.

  \<^bold>\<open>User memory access\<close> (mm/user_copy.c, arch/x86/uaccess.asm).  \<^verbatim>\<open>User_Copy\<close>: copies touch
  only user addresses, whatever pointer and length a program passes, write only to mapped pages that are
  writable (the kernel runs with write protection on), and report a fault as an error.

  \<^bold>\<open>Images and signatures\<close> (mm/elf.c, mm/elf_manifest.c, mm/elf_sign.c, mm/elf_unload.c, crypto/).
  \<^verbatim>\<open>Sha\<close> has the hash functions, \<^verbatim>\<open>Elf\<close> the loaders, the manifest parser and the signature check,
  \<^verbatim>\<open>Elf_Safe\<close> the results: an accepted signature covers every byte of the image but itself,
  up to an offset that wraps, loaded regions are well formed, and faults read only the image unless
  a header field wraps.  The scan for a note may not end when its pointer wraps; it is a partial function
  and \<^const>\<open>None\<close> is not returning.

  \<^bold>\<open>Program start\<close> (kernel/process.c, kernel/syscall.c).  \<^verbatim>\<open>Exec\<close> has image building, the argument
  stack, process creation, execve, fork and destruction, \<^verbatim>\<open>Sys_Exec\<close> the system calls execve and spawn with
  path resolution; \<^verbatim>\<open>Exec_Args\<close>, \<^verbatim>\<open>Exec_Safe\<close> and \<^verbatim>\<open>Execve_Safe\<close> hold the lemmas, \<^verbatim>\<open>Execve_Demo\<close> a small
  signed set-user-id program with a manifest, and \<^verbatim>\<open>Execve_Props\<close> the properties: a failed execve changes
  nothing the caller can see, a successful one runs only a signed file the caller may execute, within its
  bounds, with the ids of a set-id file only if that lies on the root file system and its manifest allows
  it, and a program that can start does start and finds its arguments.  When the manifest cannot be stored or
  names another entry point the program starts unconfined, which is a theorem too.

  \<^bold>\<open>Processes\<close> (kernel/process.h, kernel/cap.c, kernel/cred.c, kernel/signal.c, kernel/pipe.c).  \<^verbatim>\<open>Process\<close> has the
  descriptor, \<^verbatim>\<open>Cap\<close> the capabilities, \<^verbatim>\<open>Cred\<close> the permission checks and the id calls,
  \<^verbatim>\<open>Signal\<close> posting, delivery and return, \<^verbatim>\<open>Pipe\<close> the rings.  Shown: no_new_privs is never
  escaped, a granted path resolves only through directories the caller may search, ids change only as POSIX allows, SIGKILL cannot be
  blocked, a handler returns to the interrupted state, and a pipe loses, invents and reorders no byte.

  \<^bold>\<open>File systems\<close> (fs/vfs.c, fs/ramfs.c, fs/ramfs_vfs.c).  \<^verbatim>\<open>Vfs\<close> and \<^verbatim>\<open>Vfs_Walk\<close> have the mount table
  and the path walk; \<^verbatim>\<open>Ramfs\<close> and \<^verbatim>\<open>Ramfs_Vfs\<close> the RAM file system and its inodes.  Shown: every directory
  on a path has passed the search check, the mount table keeps its shape, the RAM file system
  is a map from names to files, and an open inode never comes to stand for another file: when its file
  is removed it is dead, even after another file has taken the entry, as long as the inode cache has a
  fresh slot.

  \<^bold>\<open>Driver Space\<close> (kernel/driver_if.c).  \<^verbatim>\<open>Driver\<close> and \<^verbatim>\<open>Driver_Safe\<close>: a driver call takes effect only
  under a grant for its device, inside its window and below the rate limit.

  \<^bold>\<open>Loops and bounds.\<close>  One definition runs on fuel: the padding loop of the hash functions
  (\<^verbatim>\<open>pad_to\<close> of \<^verbatim>\<open>Block_Hash\<close>), which gets as many turns as a block has bytes and needs fewer.  Any other loop is structural recursion or a function
  with a termination measure: the bytes left for a copy, the slots left of a table, for the path walk the
  links it may still follow and then the rest of the path.  Where the code limits a loop, as with the
  strings of an argument vector, the model has the same limit.  The two searches whose pointer may
  wrap (\<^verbatim>\<open>early_fit\<close> of mm/pmm.c and the scan of the notes in mm/elf_manifest.c and mm/elf_sign.c)
  are partial functions with \<^const>\<open>None\<close> for not returning; that the first one returns is a theorem,
  and so is that the second one returns when no program header wraps.

  \<^bold>\<open>Not modelled.\<close>
  \<^item> The scheduler, the other processors, locks and interrupts (kernel/sched.c, kernel/smp.c,
    arch/x86): the model is sequential.  The process table with its waiting and reaping
    (kernel/process.c, lines 26 to 382) belongs to it.
  \<^item> The kernel heap and the page cache (mm/heap.c, mm/pagecache.c): whether an allocation succeeds is
    an argument.
  \<^item> Disk and pseudo file systems, the block layer and partitions (fs/): they reach the model as the
    table of functions a file system registers.
  \<^item> The network (net/), terminals (kernel/tty.c, kernel/pty.c) and message passing (kernel/ipc.c):
    references to their objects are recorded as calls where a process holds them.
  \<^item> Ed25519, the random generator and the wireless ciphers (crypto/): verification is an argument.
  \<^item> The remaining system calls (kernel/syscall.c, kernel/kiface.c, kernel/syscall_trap.c): dispatch and
    descriptor calls.
  \<^item> Device drivers, boot code, the shell, log, clock and self-tests: hardware and console output.
  \<^item> User programs and tools (user/, tools/, third_party/): an image is any sequence of bytes.
\<close>

end
